(* ===== verification/Prelude.thy ===== *)
theory Prelude
  imports Main "HOL-Library.Word" "HOL-Library.Multiset" "HOL-Library.Sublist"
begin

text \<open>
  Shared vocabulary of the WisDB development: the Go machine types, the outcome of a Go call
  (a value, a returned \<open>error\<close>, or a run-time panic), byte slices with the bounds checks of the
  Go run time, big-endian byte strings, and the lemma collections the component theories use.

  A Go slice is a list of bytes whose capacity equals its length. \<open>xs[a:b]\<close> panics when
  \<open>a > b\<close> or \<open>b\<close> is past the end; \<open>copy(dst, src)\<close> copies the shorter of the two lengths.
\<close>

section \<open>Types\<close>

type_synonym byte = "8 word"
type_synonym bytes = "byte list"
type_synonym uint16 = "16 word"
type_synonym uint32 = "32 word"
type_synonym uint64 = "64 word"
type_synonym UUID = uint64
type_synonym XID = uint64
type_synonym Pgno = uint32
type_synonym Offset = uint16

text \<open>Every error value the sources return, one constructor per \<open>errors.New\<close> (and the two
  error classes of the standard library they pass on: I/O and number parsing).\<close>

datatype error =
    ErrIO | ErrEOF | ErrNegativeOffset
  | ErrBadXIDFile | ErrBadLogFile | ErrMemTooSmall | ErrCacheFull
  | ErrBusy | ErrDataTooLarge
  | ErrNilEntry | ErrCannotSR
  | ErrInvalidStat | ErrUnexpectedToken bytes
  | ErrNumSyntax | ErrNumRange
  | ErrInvalidFieldType | ErrInvalidValues | ErrInvalidLogOP | ErrNoThatField
  | ErrDuplicatedTable string | ErrNoThatTable
  | ErrNoNestedTransaction | ErrNotInAnyTransaction | ErrImplicitBegin
  | ErrInvalidPkgData | ErrWireBadMagic | ErrWireBadVersion | ErrWireBadType
  | ErrNoUnit | ErrUnknownUnit string | ErrBootNotFound UUID
  | ErrText string

text \<open>The outcome of a Go call. \<open>Panic\<close> covers run-time panics, explicit \<open>panic\<close> calls and
  failed \<open>utils.Assert\<close> checks, which end the process.\<close>

datatype 'a res = Ok 'a | Err error | Panic

definition rbind :: "'a res \<Rightarrow> ('a \<Rightarrow> 'b res) \<Rightarrow> 'b res" where
  "rbind m k = (case m of Ok x \<Rightarrow> k x | Err e \<Rightarrow> Err e | Panic \<Rightarrow> Panic)"

text \<open>The same sequencing for calls that also change a state.\<close>

definition sbind :: "'a res \<times> 's \<Rightarrow> ('a \<Rightarrow> 's \<Rightarrow> 'b res \<times> 's) \<Rightarrow> 'b res \<times> 's" where
  "sbind m k = (case m of (Ok x, s) \<Rightarrow> k x s | (Err e, s) \<Rightarrow> (Err e, s) | (Panic, s) \<Rightarrow> (Panic, s))"

text \<open>Sequencing for loops and recursions that may not end (\<open>None\<close>): a first part that ends, and one that may not.\<close>

definition obind :: "'a res \<times> 's \<Rightarrow> ('a \<Rightarrow> 's \<Rightarrow> ('b res \<times> 's) option) \<Rightarrow> ('b res \<times> 's) option" where
  "obind m k = (case m of (Ok x, s) \<Rightarrow> k x s | (Err e, s) \<Rightarrow> Some (Err e, s) | (Panic, s) \<Rightarrow> Some (Panic, s))"

definition obinds :: "('a res \<times> 's) option \<Rightarrow> ('a \<Rightarrow> 's \<Rightarrow> ('b res \<times> 's) option) \<Rightarrow> ('b res \<times> 's) option" where
  "obinds m k = Option.bind m (\<lambda>m. obind m k)"

definition is_ok :: "'a res \<Rightarrow> bool" where
  "is_ok r = (case r of Ok _ \<Rightarrow> True | _ \<Rightarrow> False)"

section \<open>Slices\<close>

definition go_index :: "'a list \<Rightarrow> nat \<Rightarrow> 'a res" where
  "go_index xs i = (if i < length xs then Ok (xs ! i) else Panic)"

definition go_slice :: "'a list \<Rightarrow> nat \<Rightarrow> nat \<Rightarrow> 'a list res" where
  "go_slice xs a b = (if a \<le> b \<and> b \<le> length xs then Ok (take (b - a) (drop a xs)) else Panic)"

definition go_from :: "'a list \<Rightarrow> nat \<Rightarrow> 'a list res" where
  "go_from xs a = (if a \<le> length xs then Ok (drop a xs) else Panic)"

definition go_copy :: "'a list \<Rightarrow> 'a list \<Rightarrow> 'a list" where
  "go_copy dst src = take (length dst) src @ drop (length src) dst"

text \<open>\<open>copy(xs[off:], src)\<close>, as the new contents of \<open>xs\<close>.\<close>

definition copy_at :: "'a list \<Rightarrow> nat \<Rightarrow> 'a list \<Rightarrow> 'a list res" where
  "copy_at xs off src = rbind (go_from xs off) (\<lambda>tl. Ok (take off xs @ go_copy tl src))"

text \<open>\<open>xs[i] = v\<close>.\<close>

definition set_at :: "'a list \<Rightarrow> nat \<Rightarrow> 'a \<Rightarrow> 'a list res" where
  "set_at xs i v = (if i < length xs then Ok (xs[i := v]) else Panic)"

text \<open>The specification view: overwriting a window that fits, and reading a window.\<close>

definition overwrite :: "'a list \<Rightarrow> nat \<Rightarrow> 'a list \<Rightarrow> 'a list" where
  "overwrite xs off src = take off xs @ src @ drop (off + length src) xs"

definition window :: "'a list \<Rightarrow> nat \<Rightarrow> nat \<Rightarrow> 'a list" where
  "window xs off n = take n (drop off xs)"

section \<open>Big-endian byte strings\<close>

fun be_bytes :: "nat \<Rightarrow> nat \<Rightarrow> bytes" where
  "be_bytes 0 v = []"
| "be_bytes (Suc n) v = be_bytes n (v div 256) @ [of_nat (v mod 256)]"

definition be_val :: "bytes \<Rightarrow> nat" where
  "be_val bs = foldl (\<lambda>a b. a * 256 + unat b) 0 bs"

section \<open>Lemma collections\<close>

named_theorems res_simps \<open>sequencing of outcomes\<close>
named_theorems slice_simps \<open>slices, windows and overwriting\<close>
named_theorems be_simps \<open>big-endian encodings\<close>

lemma rbind_simps [simp, res_simps]:
  "rbind (Ok x) k = k x" "rbind (Err e) k = Err e" "rbind Panic k = Panic"
  by (simp_all add: rbind_def)

lemma sbind_simps [simp, res_simps]:
  "sbind (Ok x, s) k = k x s" "sbind (Err e, s) k = (Err e, s)" "sbind (Panic, s) k = (Panic, s)"
  by (simp_all add: sbind_def)

lemma rbind_eq_Ok [res_simps]: "rbind m k = Ok y \<longleftrightarrow> (\<exists>x. m = Ok x \<and> k x = Ok y)"
  by (cases m) auto

lemma rbind_eq_Err [res_simps]:
  "rbind m k = Err e \<longleftrightarrow> m = Err e \<or> (\<exists>x. m = Ok x \<and> k x = Err e)"
  by (cases m) auto

lemma rbind_assoc [res_simps]: "rbind (rbind m f) g = rbind m (\<lambda>x. rbind (f x) g)"
  by (cases m) auto

lemma sbind_eq_Ok [res_simps]:
  "sbind m k = (Ok y, s') \<longleftrightarrow> (\<exists>x s. m = (Ok x, s) \<and> k x s = (Ok y, s'))"
  by (cases m; cases "fst m") auto

lemma rbind_cong [fundef_cong]:
  "m = m' \<Longrightarrow> (\<And>x. m' = Ok x \<Longrightarrow> k x = k' x) \<Longrightarrow> rbind m k = rbind m' k'"
  by (cases m') auto

lemma sbind_cong [fundef_cong]:
  "m = m' \<Longrightarrow> (\<And>x s. m' = (Ok x, s) \<Longrightarrow> k x s = k' x s) \<Longrightarrow> sbind m k = sbind m' k'"
  by (cases m'; cases "fst m'") auto

lemma obind_simps [simp, res_simps]:
  "obind (Ok x, s) k = k x s" "obind (Err e, s) k = Some (Err e, s)" "obind (Panic, s) k = Some (Panic, s)"
  by (simp_all add: obind_def)

lemma obinds_simps [simp, res_simps]: "obinds None k = None" "obinds (Some m) k = obind m k"
  by (simp_all add: obinds_def)

lemma obind_mono [partial_function_mono]:
  assumes "\<And>x s. mono_option (\<lambda>f. k f x s)"
  shows "mono_option (\<lambda>f. obind m (k f))"
proof (cases m)
  case (Pair r s)
  then show ?thesis using assms by (cases r) (auto simp: monotone_def flat_ord_def fun_ord_def)
qed

lemma obinds_mono [partial_function_mono]:
  assumes "mono_option m" and "\<And>x s. mono_option (\<lambda>f. k f x s)"
  shows "mono_option (\<lambda>f. obinds (m f) (k f))"
  unfolding obinds_def by (intro bind_mono assms obind_mono)

lemma is_ok_simps [simp]: "is_ok (Ok x)" "\<not> is_ok (Err e)" "\<not> is_ok Panic"
  by (simp_all add: is_ok_def)

lemma is_ok_iff: "is_ok r \<longleftrightarrow> (\<exists>x. r = Ok x)"
  by (cases r) auto

subsection \<open>Slices\<close>

lemma go_index_in [simp]: "i < length xs \<Longrightarrow> go_index xs i = Ok (xs ! i)"
  by (simp add: go_index_def)

lemma go_slice_in [slice_simps]:
  "a \<le> b \<Longrightarrow> b \<le> length xs \<Longrightarrow> go_slice xs a b = Ok (window xs a (b - a))"
  by (simp add: go_slice_def window_def)

lemma go_from_in [simp]: "a \<le> length xs \<Longrightarrow> go_from xs a = Ok (drop a xs)"
  by (simp add: go_from_def)

lemma length_go_copy [simp]: "length (go_copy dst src) = length dst"
  by (simp add: go_copy_def)

lemma go_copy_fits [slice_simps]:
  "length src \<le> length dst \<Longrightarrow> go_copy dst src = src @ drop (length src) dst"
  by (simp add: go_copy_def)

lemma copy_at_fits [slice_simps]:
  "off + length src \<le> length xs \<Longrightarrow> copy_at xs off src = Ok (overwrite xs off src)"
  by (simp add: copy_at_def go_copy_fits overwrite_def ac_simps)

lemma copy_at_length: "copy_at xs off src = Ok ys \<Longrightarrow> length ys = length xs"
  by (auto simp: copy_at_def go_from_def split: if_splits)

lemma copy_at_Panic: "copy_at xs off src = Panic \<longleftrightarrow> length xs < off"
  by (auto simp: copy_at_def go_from_def)

lemma copy_at_not_Err [simp]: "copy_at xs off src \<noteq> Err e"
  by (auto simp: copy_at_def go_from_def)

lemma set_at_in [slice_simps]: "i < length xs \<Longrightarrow> set_at xs i v = Ok (xs[i := v])"
  by (simp add: set_at_def)

lemma length_overwrite [simp, slice_simps]:
  "off + length src \<le> length xs \<Longrightarrow> length (overwrite xs off src) = length xs"
  by (simp add: overwrite_def)

lemma nth_overwrite [slice_simps]:
  assumes "off + length src \<le> length xs" and "i < length xs"
  shows "overwrite xs off src ! i =
    (if off \<le> i \<and> i < off + length src then src ! (i - off) else xs ! i)"
  using assms by (auto simp: overwrite_def nth_append min_def)

lemma overwrite_0: "overwrite xs 0 src = src @ drop (length src) xs"
  by (simp add: overwrite_def)

lemma overwrite_Nil [simp]: "overwrite xs off [] = xs"
  by (simp add: overwrite_def)

lemma length_window [simp]: "length (window xs off n) = min n (length xs - off)"
  by (simp add: window_def)

lemma nth_window [simp]: "i < n \<Longrightarrow> off + i < length xs \<Longrightarrow> window xs off n ! i = xs ! (off + i)"
  by (simp add: window_def)

lemma window_same [slice_simps]:
  "off + length src \<le> length xs \<Longrightarrow> window (overwrite xs off src) off (length src) = src"
  by (simp add: window_def overwrite_def)

lemma window_disjoint [slice_simps]:
  assumes "off + length src \<le> length xs" and "a + n \<le> off \<or> off + length src \<le> a"
  shows "window (overwrite xs off src) a n = window xs a n"
  using assms by (intro nth_equalityI) (auto simp: nth_overwrite)

lemma window_inner [slice_simps]:
  assumes "off + length src \<le> length xs" and "off \<le> a" and "a + n \<le> off + length src"
  shows "window (overwrite xs off src) a n = window src (a - off) n"
  using assms by (intro nth_equalityI) (auto simp: nth_overwrite)

lemma window_append [slice_simps]:
  "window (xs @ ys) off n =
     (if off + n \<le> length xs then window xs off n
      else if length xs \<le> off then window ys (off - length xs) n
      else drop off xs @ take (n - (length xs - off)) ys)"
  by (auto simp: window_def)

lemma window_all [simp]: "window xs 0 (length xs) = xs"
  by (simp add: window_def)

lemma take_eq_window: "take n (drop off xs) = window xs off n"
  by (simp add: window_def)

subsection \<open>Big-endian byte strings\<close>

lemma length_be_bytes [simp, be_simps]: "length (be_bytes n v) = n"
  by (induction n arbitrary: v) auto

text \<open>Unrolling at a numeral, for evaluation.\<close>

lemma be_bytes_numeral:
  "be_bytes (numeral k) v = be_bytes (pred_numeral k) (v div 256) @ [of_nat (v mod 256)]"
  by (simp only: numeral_eq_Suc [of k] be_bytes.simps)

lemma be_val_snoc [be_simps]: "be_val (bs @ [b]) = be_val bs * 256 + unat b"
  by (simp add: be_val_def)

lemma be_val_Nil [simp, be_simps]: "be_val [] = 0"
  by (simp add: be_val_def)

lemma unat_byte_of_nat: "v < 256 \<Longrightarrow> unat (of_nat v :: byte) = v"
  by (simp add: unat_of_nat)

lemma unat_byte_less [be_simps]: "unat (b :: byte) < 256"
  using unsigned_less [of b, where ?'a = nat] by simp

lemma be_val_be_bytes [be_simps]: "be_val (be_bytes n v) = v mod 256 ^ n"
proof (induction n arbitrary: v)
  case 0
  then show ?case by simp
next
  case (Suc n)
  have "be_val (be_bytes (Suc n) v) = (v div 256) mod 256 ^ n * 256 + v mod 256"
    by (simp add: be_val_snoc Suc.IH unat_of_nat)
  also have "\<dots> = v mod 256 ^ Suc n"
    by (simp add: mod_mult2_eq [of v 256 "256 ^ n"] mult.commute)
  finally show ?case .
qed

lemma digit_bound: "(x::nat) < 256 \<Longrightarrow> Suc a \<le> c \<Longrightarrow> a * 256 + x < c * 256"
  by linarith

lemma be_val_bound [be_simps]: "be_val bs < 256 ^ length bs"
proof (induction bs rule: rev_induct)
  case Nil
  then show ?case by simp
next
  case (snoc b bs)
  have "unat b < 256"
    by (rule unat_byte_less)
  moreover have "Suc (be_val bs) \<le> 256 ^ length bs"
    using snoc by simp
  ultimately have "be_val bs * 256 + unat b < 256 ^ length bs * 256"
    by (rule digit_bound)
  then show ?case by (simp add: be_val_snoc mult.commute)
qed

lemma be_bytes_be_val [be_simps]: "be_bytes (length bs) (be_val bs) = bs"
proof (induction bs rule: rev_induct)
  case Nil
  then show ?case by simp
next
  case (snoc b bs)
  have "(be_val bs * 256 + unat b) div 256 = be_val bs"
    and "(be_val bs * 256 + unat b) mod 256 = unat b"
    using unat_byte_less [of b] by simp_all
  with snoc show ?case by (simp add: be_val_snoc)
qed

lemma be_bytes_zero [be_simps]: "be_bytes n 0 = replicate n 0"
  by (induction n) (auto simp: replicate_append_same)

lemma be_bytes_inj: "be_bytes n v = be_bytes n w \<Longrightarrow> v < 256 ^ n \<Longrightarrow> w < 256 ^ n \<Longrightarrow> v = w"
  by (metis be_val_be_bytes mod_less)

end
