(* ===== verification/Utils.thy ===== *)
theory Utils
  imports Prelude
begin

text \<open>
  The package \<^verbatim>\<open>utils\<close> (\<^verbatim>\<open>int_encoding.go\<close>, \<^verbatim>\<open>types.go\<close>, \<^verbatim>\<open>str_encoding.go\<close>), the XID codec of
  \<^verbatim>\<open>tm/xid.go\<close>, the page-number codec of \<^verbatim>\<open>pcacher/types.go\<close> and the addresses of \<^verbatim>\<open>dm/types.go\<close>.

  \<open>binary.BigEndian.UintN\<close> panics on a short buffer, so the \<open>Get\<close> functions return an outcome.
  The \<open>Put\<close> functions write through a \<open>bytes.Buffer\<close> over \<open>buf[:0]\<close>: when the buffer is too short
  the write goes to a fresh allocation and \<open>buf\<close> keeps its contents.
  Go strings are byte strings; they are modelled by \<open>string\<close>, one \<open>char\<close> per byte.
\<close>

section \<open>Definitions\<close>

subsection \<open>Integers\<close>

text \<open>\<open>bytes.NewBuffer(buf[:0])\<close> followed by \<open>binary.Write\<close>: the effect on \<open>buf\<close>.\<close>

definition buf_write :: "bytes \<Rightarrow> bytes \<Rightarrow> bytes" where
  "buf_write buf bs = (if length bs \<le> length buf then bs @ drop (length bs) buf else buf)"

definition Uint16ToRaw :: "uint16 \<Rightarrow> bytes" where
  "Uint16ToRaw num = be_bytes 2 (unat num)"

definition PutUint16 :: "bytes \<Rightarrow> uint16 \<Rightarrow> bytes" where
  "PutUint16 buf num = buf_write buf (be_bytes 2 (unat num))"

definition GetUint16 :: "bytes \<Rightarrow> uint16 res" where
  "GetUint16 buf = (if length buf < 2 then Panic else Ok (of_nat (be_val (take 2 buf))))"

definition ParseUint16 :: "bytes \<Rightarrow> uint16 res" where
  "ParseUint16 raw = GetUint16 raw"

definition Uint32ToRaw :: "uint32 \<Rightarrow> bytes" where
  "Uint32ToRaw num = be_bytes 4 (unat num)"

definition PutUint32 :: "bytes \<Rightarrow> uint32 \<Rightarrow> bytes" where
  "PutUint32 buf num = buf_write buf (be_bytes 4 (unat num))"

definition GetUint32 :: "bytes \<Rightarrow> uint32 res" where
  "GetUint32 buf = (if length buf < 4 then Panic else Ok (of_nat (be_val (take 4 buf))))"

definition ParseUint32 :: "bytes \<Rightarrow> uint32 res" where
  "ParseUint32 raw = GetUint32 raw"

definition Uint64ToRaw :: "uint64 \<Rightarrow> bytes" where
  "Uint64ToRaw num = be_bytes 8 (unat num)"

definition PutUint64 :: "bytes \<Rightarrow> uint64 \<Rightarrow> bytes" where
  "PutUint64 buf num = buf_write buf (be_bytes 8 (unat num))"

definition GetUint64 :: "bytes \<Rightarrow> uint64 res" where
  "GetUint64 buf = (if length buf < 8 then Panic else Ok (of_nat (be_val (take 8 buf))))"

definition ParseUint64 :: "bytes \<Rightarrow> uint64 res" where
  "ParseUint64 raw = GetUint64 raw"

subsection \<open>UUIDs, transaction ids, page numbers and addresses\<close>

definition UUID_INF :: UUID where "UUID_INF = (2 ^ 63 - 1) + 2 ^ 63"
definition NilUUID :: UUID where "NilUUID = 0"
definition LEN_UUID :: nat where "LEN_UUID = 8"
definition LEN_XID :: nat where "LEN_XID = LEN_UUID"
definition SUPER_XID :: XID where "SUPER_XID = 0"
definition LEN_PGNO :: nat where "LEN_PGNO = 4"
definition LEN_OFFSET :: nat where "LEN_OFFSET = 2"

definition PutUUID :: "bytes \<Rightarrow> UUID \<Rightarrow> bytes" where
  "PutUUID buf uuid = PutUint64 buf uuid"

definition ParseUUID :: "bytes \<Rightarrow> UUID res" where
  "ParseUUID raw = ParseUint64 raw"

definition UUIDToRaw :: "UUID \<Rightarrow> bytes" where
  "UUIDToRaw uuid = Uint64ToRaw uuid"

definition PutXID :: "bytes \<Rightarrow> XID \<Rightarrow> bytes" where
  "PutXID buf xid = PutUUID buf xid"

definition ParseXID :: "bytes \<Rightarrow> XID res" where
  "ParseXID raw = ParseUUID raw"

definition PutPgno :: "bytes \<Rightarrow> Pgno \<Rightarrow> bytes" where
  "PutPgno buf pgno = PutUint32 buf pgno"

definition ParsePgno :: "bytes \<Rightarrow> Pgno res" where
  "ParsePgno raw = ParseUint32 raw"

definition Pgno2UUID :: "Pgno \<Rightarrow> UUID" where
  "Pgno2UUID pgno = ucast pgno"

definition UUID2Pgno :: "UUID \<Rightarrow> Pgno" where
  "UUID2Pgno uuid = ucast uuid"

definition PutOffset :: "bytes \<Rightarrow> Offset \<Rightarrow> bytes" where
  "PutOffset buf offset = PutUint16 buf offset"

definition ParseOffset :: "bytes \<Rightarrow> Offset res" where
  "ParseOffset raw = ParseUint16 raw"

unbundle bit_operations_syntax

definition UUID2Address :: "UUID \<Rightarrow> Pgno \<times> Offset" where
  "UUID2Address uid =
     (let offset = ucast (uid AND (push_bit 16 1 - 1));
          pgno = ucast (drop_bit 32 uid AND (push_bit 32 1 - 1))
      in (pgno, offset))"

definition Address2UUID :: "Pgno \<Rightarrow> Offset \<Rightarrow> UUID" where
  "Address2UUID pgno offset =
     (let u0 = ucast pgno; u1 = ucast offset in push_bit 32 u0 OR u1)"

subsection \<open>Strings\<close>

definition str_bytes :: "string \<Rightarrow> bytes" where
  "str_bytes s = map (\<lambda>c. of_nat (of_char c)) s"

definition bytes_str :: "bytes \<Rightarrow> string" where
  "bytes_str bs = map (\<lambda>b. char_of (unat b)) bs"

text \<open>\<open>for _, r := range s\<close> walks the Unicode code points of \<open>s\<close>; a byte that starts no valid
  UTF-8 sequence counts as U+FFFD and advances by one.\<close>

definition cont :: "nat \<Rightarrow> nat \<Rightarrow> nat \<Rightarrow> bool" where
  "cont lo hi b = (lo \<le> b \<and> b \<le> hi)"

definition decode_rune :: "nat \<Rightarrow> nat list \<Rightarrow> nat \<times> nat" where
  "decode_rune b bs =
     (if b < 128 then (b, 1)
      else if cont 194 223 b then
        (case bs of b1 # _ \<Rightarrow> if cont 128 191 b1 then ((b - 192) * 64 + (b1 - 128), 2) else (65533, 1)
         | _ \<Rightarrow> (65533, 1))
      else if cont 224 239 b then
        (case bs of b1 # b2 # _ \<Rightarrow>
           if cont (if b = 224 then 160 else 128) (if b = 237 then 159 else 191) b1 \<and> cont 128 191 b2
           then ((b - 224) * 4096 + (b1 - 128) * 64 + (b2 - 128), 3) else (65533, 1)
         | _ \<Rightarrow> (65533, 1))
      else if cont 240 244 b then
        (case bs of b1 # b2 # b3 # _ \<Rightarrow>
           if cont (if b = 240 then 144 else 128) (if b = 244 then 143 else 191) b1 \<and>
              cont 128 191 b2 \<and> cont 128 191 b3
           then ((b - 240) * 262144 + (b1 - 128) * 4096 + (b2 - 128) * 64 + (b3 - 128), 4)
           else (65533, 1)
         | _ \<Rightarrow> (65533, 1))
      else (65533, 1))"

function runes :: "nat list \<Rightarrow> nat list" where
  "runes [] = []"
| "runes (b # bs) = (case decode_rune b bs of (r, w) \<Rightarrow> r # runes (drop (w - 1) bs))"
  by pat_completeness auto
termination
  by (relation "measure length") auto

definition str_runes :: "string \<Rightarrow> nat list" where
  "str_runes s = runes (map of_char s)"

definition StrToUUID :: "string \<Rightarrow> UUID" where
  "StrToUUID str = foldl (\<lambda>result b. result * 13331 + of_nat b) 0 (str_runes str)"

definition VarStrToRaw :: "string \<Rightarrow> bytes" where
  "VarStrToRaw str = Uint32ToRaw (of_nat (length str)) @ str_bytes str"

definition ParseVarStr :: "bytes \<Rightarrow> (string \<times> nat) res" where
  "ParseVarStr raw =
     rbind (go_slice raw 0 4) (\<lambda>hd4.
     rbind (GetUint32 hd4) (\<lambda>l.
     let size = 4 + unat l in
     rbind (go_slice raw 4 size) (\<lambda>body. Ok (bytes_str body, size))))"

text \<open>\<open>strconv.ParseUint(s, 10, bits)\<close>: digit by digit, failing at the first bad digit or at the
  first digit that takes the value past \<open>bits\<close> bits.\<close>

fun parse_digits :: "nat \<Rightarrow> nat \<Rightarrow> string \<Rightarrow> nat res" where
  "parse_digits bits n [] = Ok n"
| "parse_digits bits n (c # cs) =
     (let d = of_char c in
      if d < 48 \<or> 57 < d then Err ErrNumSyntax
      else if 2 ^ bits \<le> n * 10 + (d - 48) then Err ErrNumRange
      else parse_digits bits (n * 10 + (d - 48)) cs)"

definition ParseUint :: "nat \<Rightarrow> string \<Rightarrow> nat res" where
  "ParseUint bits s = (if s = [] then Err ErrNumSyntax else parse_digits bits 0 s)"

definition StrToUint64 :: "string \<Rightarrow> uint64 res" where
  "StrToUint64 s = rbind (ParseUint 64 s) (\<lambda>v. Ok (of_nat v))"

definition StrToUint32 :: "string \<Rightarrow> uint32 res" where
  "StrToUint32 s = rbind (ParseUint 32 s) (\<lambda>v. Ok (of_nat v))"

text \<open>\<open>strconv.FormatUint(v, 10)\<close>.\<close>

fun FormatUint :: "nat \<Rightarrow> string" where
  "FormatUint n = (if n < 10 then [char_of (48 + n)] else FormatUint (n div 10) @ [char_of (48 + n mod 10)])"

definition Uint32ToStr :: "uint32 \<Rightarrow> string" where
  "Uint32ToStr v = FormatUint (unat v)"

definition Uint64ToStr :: "uint64 \<Rightarrow> string" where
  "Uint64ToStr num = FormatUint (unat num)"

declare FormatUint.simps [simp del]

section \<open>Integer codecs\<close>

lemma length_toRaw [simp]:
  "length (Uint16ToRaw a) = 2" "length (Uint32ToRaw b) = 4" "length (Uint64ToRaw c) = 8"
  "length (UUIDToRaw u) = 8"
  by (simp_all add: Uint16ToRaw_def Uint32ToRaw_def Uint64ToRaw_def UUIDToRaw_def)

lemma unat_less_256_pow:
  "unat (a :: uint16) < 256 ^ 2" "unat (b :: uint32) < 256 ^ 4" "unat (c :: uint64) < 256 ^ 8"
  using unsigned_less [of a, where ?'a = nat] unsigned_less [of b, where ?'a = nat]
    unsigned_less [of c, where ?'a = nat] by simp_all

lemma GetUint16_prefix [be_simps]: "GetUint16 (Uint16ToRaw v @ rest) = Ok v"
  using unat_less_256_pow(1) [of v]
  by (simp add: GetUint16_def Uint16ToRaw_def be_val_be_bytes)

lemma GetUint32_prefix [be_simps]: "GetUint32 (Uint32ToRaw v @ rest) = Ok v"
  using unat_less_256_pow(2) [of v]
  by (simp add: GetUint32_def Uint32ToRaw_def be_val_be_bytes)

lemma GetUint64_prefix [be_simps]: "GetUint64 (Uint64ToRaw v @ rest) = Ok v"
  using unat_less_256_pow(3) [of v]
  by (simp add: GetUint64_def Uint64ToRaw_def be_val_be_bytes)

lemma ParseUUID_prefix [be_simps]: "ParseUUID (UUIDToRaw u @ rest) = Ok u"
  by (simp add: ParseUUID_def ParseUint64_def UUIDToRaw_def GetUint64_prefix)

lemma ParseUUID_self [be_simps]: "ParseUUID (UUIDToRaw u) = Ok u"
  using ParseUUID_prefix [of u "[]"] by simp

lemma GetUint_window:
  "2 \<le> length raw \<Longrightarrow> GetUint16 raw = Ok (of_nat (be_val (window raw 0 2)))"
  "4 \<le> length raw \<Longrightarrow> GetUint32 raw = Ok (of_nat (be_val (window raw 0 4)))"
  "8 \<le> length raw \<Longrightarrow> GetUint64 raw = Ok (of_nat (be_val (window raw 0 8)))"
  by (simp_all add: GetUint16_def GetUint32_def GetUint64_def window_def)

text \<open>A put into \<open>raw[off:]\<close> that fits is an overwrite of \<open>raw\<close>.\<close>

lemma buf_write_overwrite [slice_simps]:
  "off + length bs \<le> length raw \<Longrightarrow> take off raw @ buf_write (drop off raw) bs = overwrite raw off bs"
  by (auto simp: buf_write_def overwrite_def ac_simps le_diff_conv2)

lemma length_buf_write [simp]: "length (buf_write buf bs) = length buf"
  by (simp add: buf_write_def)

lemma buf_write_too_short: "length buf < length bs \<Longrightarrow> buf_write buf bs = buf"
  by (simp add: buf_write_def)

lemma Put_Get:
  "2 \<le> length buf \<Longrightarrow> GetUint16 (PutUint16 buf a) = Ok a"
  "4 \<le> length buf \<Longrightarrow> GetUint32 (PutUint32 buf b) = Ok b"
  "8 \<le> length buf \<Longrightarrow> GetUint64 (PutUint64 buf c) = Ok c"
  using GetUint16_prefix [of a "drop 2 buf"] GetUint32_prefix [of b "drop 4 buf"]
    GetUint64_prefix [of c "drop 8 buf"]
  by (simp_all add: PutUint16_def PutUint32_def PutUint64_def buf_write_def
      Uint16ToRaw_def Uint32ToRaw_def Uint64ToRaw_def)

section \<open>Addresses\<close>

lemma push_bit_mask: "push_bit n 1 - 1 = (mask n :: 'a::len word)"
  by (simp add: mask_eq_decr_exp push_bit_eq_mult)

lemma UUID2Address_eq:
  "UUID2Address uid = (ucast (drop_bit 32 uid), ucast uid)"
proof -
  have "ucast (uid AND mask 16) = (ucast uid :: Offset)"
    by (rule bit_word_eqI) (auto simp: bit_simps)
  moreover have "ucast (drop_bit 32 uid AND mask 32) = (ucast (drop_bit 32 uid) :: Pgno)"
    by (rule bit_word_eqI) (auto simp: bit_simps)
  ultimately show ?thesis unfolding UUID2Address_def push_bit_mask by simp
qed

lemma address_roundtrip [simp]: "UUID2Address (Address2UUID pgno offset) = (pgno, offset)"
proof -
  have "ucast (drop_bit 32 (push_bit 32 (ucast pgno) OR ucast offset :: UUID)) = pgno"
    by (rule bit_word_eqI) (auto simp: bit_simps dest: bit_imp_le_length)
  moreover have "ucast (push_bit 32 (ucast pgno) OR ucast offset :: UUID) = offset"
    by (rule bit_word_eqI) (auto simp: bit_simps)
  ultimately show ?thesis by (simp add: UUID2Address_eq Address2UUID_def)
qed

lemma Address2UUID_inj: "Address2UUID p o1 = Address2UUID q o2 \<longleftrightarrow> p = q \<and> o1 = o2"
  by (metis address_roundtrip prod.inject)

lemma Address2UUID_nonzero: "pgno \<noteq> 0 \<Longrightarrow> Address2UUID pgno offset \<noteq> NilUUID"
proof
  assume "pgno \<noteq> 0" and "Address2UUID pgno offset = NilUUID"
  then have "UUID2Address NilUUID = (pgno, offset)" by (metis address_roundtrip)
  with \<open>pgno \<noteq> 0\<close> show False by (simp add: UUID2Address_eq NilUUID_def)
qed

section \<open>Strings and numbers\<close>

lemma length_str_bytes [simp]: "length (str_bytes s) = length s" "length (bytes_str bs) = length bs"
  by (simp_all add: str_bytes_def bytes_str_def)

lemma of_char_less_256: "of_char c < (256 :: nat)"
  by (simp add: of_char_def)

lemma bytes_str_str_bytes [simp]: "bytes_str (str_bytes s) = s"
  by (induction s) (auto simp: bytes_str_def str_bytes_def unat_of_nat of_char_less_256)

lemma str_bytes_bytes_str [simp]: "str_bytes (bytes_str bs) = bs"
  using unat_byte_less by (induction bs) (auto simp: bytes_str_def str_bytes_def)

lemma ParseVarStr_prefix [be_simps]:
  assumes "length s < 2 ^ 32"
  shows "ParseVarStr (VarStrToRaw s @ rest) = Ok (s, 4 + length s)"
  using assms GetUint32_prefix [of "of_nat (length s)" "[]"]
  by (simp add: ParseVarStr_def VarStrToRaw_def go_slice_def unat_of_nat)

lemma ParseUint_snoc:
  assumes "parse_digits bits n s = Ok m" and "d < 10" and "m * 10 + d < 2 ^ bits"
  shows "parse_digits bits n (s @ [char_of (48 + d)]) = Ok (m * 10 + d)"
  using assms by (induction s arbitrary: n) (auto simp: Let_def split: if_splits)

lemma FormatUint_ne [simp]: "FormatUint n \<noteq> []"
  by (subst FormatUint.simps) simp

lemma ParseUint_FormatUint [be_simps]: "n < 2 ^ bits \<Longrightarrow> ParseUint bits (FormatUint n) = Ok n"
proof (induction n rule: FormatUint.induct)
  case (1 n)
  show ?case
  proof (cases "n < 10")
    case True
    with 1 show ?thesis by (subst FormatUint.simps) (auto simp: ParseUint_def)
  next
    case False
    with 1 have "parse_digits bits 0 (FormatUint (n div 10)) = Ok (n div 10)"
      by (simp add: ParseUint_def)
    from ParseUint_snoc [OF this, of "n mod 10"] False "1.prems" show ?thesis
      by (subst FormatUint.simps) (simp add: ParseUint_def)
  qed
qed

lemma StrToUint64_Uint64ToStr: "StrToUint64 (Uint64ToStr v) = Ok v"
  using unsigned_less [of v, where ?'a = nat]
  by (simp add: StrToUint64_def Uint64ToStr_def ParseUint_FormatUint)

lemma StrToUint32_Uint32ToStr: "StrToUint32 (Uint32ToStr v) = Ok v"
  using unsigned_less [of v, where ?'a = nat]
  by (simp add: StrToUint32_def Uint32ToStr_def ParseUint_FormatUint)

lemma runes_ascii: "\<forall>b \<in> set bs. b < 128 \<Longrightarrow> runes bs = bs"
  by (induction bs) (auto simp: decode_rune_def)

lemma UUID_INF_max: "UUID_INF = - 1"
  by (simp add: UUID_INF_def)

lemma Address2UUID_less: "Address2UUID p off < UUID_INF"
proof -
  have "\<not> bit (Address2UUID p off) 20" using bit_imp_le_length [of off 20] by (auto simp: Address2UUID_def bit_simps)
  moreover have "bit UUID_INF 20" by (simp add: UUID_INF_max)
  ultimately have "Address2UUID p off \<noteq> UUID_INF" by metis
  moreover have "Address2UUID p off \<le> UUID_INF" using unsigned_less [of "Address2UUID p off", where ?'a = nat] by (simp add: UUID_INF_def word_le_nat_alt)
  ultimately show ?thesis by simp
qed

lemma UUID_le_INF [simp]: "key \<le> UUID_INF"
  by (simp add: UUID_INF_max)

end
