(* ===== verification/GoFile.thy ===== *)
theory GoFile
  imports Prelude
begin

text \<open>
  The operations of \<^verbatim>\<open>os.File\<close> that the storage layers call. A file is its contents, the offset of
  sequential writes, and the outcomes of the coming write, sync and truncate calls: \<open>True\<close> stands
  for a call the operating system fails. A failed call leaves the contents alone; an empty list of
  outcomes means a healthy disk. Reads fail only past the end of the file, as \<open>ReadAt\<close> documents.
\<close>

record os_file =
  fdata :: bytes
  fpos :: nat
  ffault :: "bool list"

definition io_fails :: "os_file \<Rightarrow> bool" where
  "io_fails f = (case ffault f of [] \<Rightarrow> False | b # _ \<Rightarrow> b)"

definition io_tick :: "os_file \<Rightarrow> os_file" where
  "io_tick f = f\<lparr>ffault := tl (ffault f)\<rparr>"

text \<open>Writing past the end fills the gap with zero bytes.\<close>

definition file_put :: "bytes \<Rightarrow> nat \<Rightarrow> bytes \<Rightarrow> bytes" where
  "file_put xs off bs = take off (xs @ replicate (off - length xs) 0) @ bs @ drop (off + length bs) xs"

definition WriteAt :: "bytes \<Rightarrow> int \<Rightarrow> os_file \<Rightarrow> unit res \<times> os_file" where
  "WriteAt bs off f =
     (if io_fails f then (Err ErrIO, io_tick f)
      else if off < 0 then (Err ErrNegativeOffset, io_tick f)
      else (Ok (), (io_tick f)\<lparr>fdata := file_put (fdata f) (nat off) bs\<rparr>))"

definition Write :: "bytes \<Rightarrow> os_file \<Rightarrow> unit res \<times> os_file" where
  "Write bs f =
     (if io_fails f then (Err ErrIO, io_tick f)
      else (Ok (), (io_tick f)\<lparr>fdata := file_put (fdata f) (fpos f) bs, fpos := fpos f + length bs\<rparr>))"

definition Sync :: "os_file \<Rightarrow> unit res \<times> os_file" where
  "Sync f = (if io_fails f then Err ErrIO else Ok (), io_tick f)"

definition Truncate :: "nat \<Rightarrow> os_file \<Rightarrow> unit res \<times> os_file" where
  "Truncate n f =
     (if io_fails f then (Err ErrIO, io_tick f)
      else (Ok (), (io_tick f)\<lparr>fdata := take n (fdata f) @ replicate (n - length (fdata f)) 0\<rparr>))"

definition Seek :: "nat \<Rightarrow> os_file \<Rightarrow> os_file" where
  "Seek n f = f\<lparr>fpos := n\<rparr>"

definition ReadAt :: "nat \<Rightarrow> int \<Rightarrow> os_file \<Rightarrow> bytes res" where
  "ReadAt n off f =
     (if off < 0 then Err ErrNegativeOffset
      else if nat off + n \<le> length (fdata f) then Ok (window (fdata f) (nat off) n)
      else if n = 0 then Ok [] else Err ErrEOF)"

definition fsize :: "os_file \<Rightarrow> nat" where
  "fsize f = length (fdata f)"

text \<open>A newly created (or truncated) file over a disk with the given outcomes.\<close>

definition new_file :: "bool list \<Rightarrow> os_file" where
  "new_file faults = \<lparr>fdata = [], fpos = 0, ffault = faults\<rparr>"

named_theorems file_simps \<open>file operations on a healthy disk\<close>

lemma io_healthy [simp, file_simps]: "ffault f = [] \<Longrightarrow> \<not> io_fails f" "ffault f = [] \<Longrightarrow> io_tick f = f"
  by (simp_all add: io_fails_def io_tick_def)

lemma io_tick_data [simp]: "fdata (io_tick f) = fdata f" "fpos (io_tick f) = fpos f"
  by (simp_all add: io_tick_def)

lemma file_put_inside [file_simps]: "off + length bs \<le> length xs \<Longrightarrow> file_put xs off bs = overwrite xs off bs"
  by (simp add: file_put_def overwrite_def)

lemma file_put_end [file_simps]: "file_put xs (length xs) bs = xs @ bs"
  by (simp add: file_put_def)

lemma WriteAt_healthy [file_simps]:
  "ffault f = [] \<Longrightarrow> 0 \<le> off \<Longrightarrow> WriteAt bs off f = (Ok (), f\<lparr>fdata := file_put (fdata f) (nat off) bs\<rparr>)"
  by (simp add: WriteAt_def)

lemma Write_healthy [file_simps]:
  "ffault f = [] \<Longrightarrow> Write bs f =
     (Ok (), f\<lparr>fdata := file_put (fdata f) (fpos f) bs, fpos := fpos f + length bs\<rparr>)"
  by (simp add: Write_def)

lemma Sync_healthy [file_simps]: "ffault f = [] \<Longrightarrow> Sync f = (Ok (), f)"
  by (simp add: Sync_def)

lemma Truncate_healthy [file_simps]:
  "ffault f = [] \<Longrightarrow> n \<le> length (fdata f) \<Longrightarrow> Truncate n f = (Ok (), f\<lparr>fdata := take n (fdata f)\<rparr>)"
  by (simp add: Truncate_def)

lemma ReadAt_inside [file_simps]:
  "0 \<le> off \<Longrightarrow> nat off + n \<le> length (fdata f) \<Longrightarrow> ReadAt n off f = Ok (window (fdata f) (nat off) n)"
  by (simp add: ReadAt_def)

text \<open>What a successful write leaves in the file is what a read at the same place returns, wherever the place is.\<close>

lemma length_file_put: "length (file_put xs off bs) = max (off + length bs) (length xs)"
  by (auto simp: file_put_def)

lemma window_file_put: "window (file_put xs off bs) off (length bs) = bs"
  by (auto simp: file_put_def window_def)

lemma ReadAt_after_WriteAt:
  assumes "WriteAt bs off f = (Ok u, f')" and "fdata g = fdata f'"
  shows "ReadAt (length bs) off g = Ok bs"
proof -
  have "0 \<le> off" "fdata g = file_put (fdata f) (nat off) bs" using assms by (auto simp: WriteAt_def split: if_splits)
  then show ?thesis by (simp add: ReadAt_def length_file_put window_file_put)
qed

end
