(* ===== verification/Tm.thy ===== *)
theory Tm
  imports Utils GoFile
begin

text \<open>
  The transaction manager (\<^verbatim>\<open>tm/transaction_manager.go\<close>). The \<^verbatim>\<open>.xid\<close> file holds an 8-byte counter
  and one status byte per transaction; \<open>XID\<close> values start at 1 and 0 is the super transaction.
  The lemmas give the refinement to an abstract table of statuses, the layout invariant, reopening,
  and what a crash inside \<open>Begin\<close> leaves behind. The mutex \<open>counterLock\<close> is held for the whole of
  every operation, so operations are atomic with respect to each other.
\<close>

section \<open>Model\<close>

definition XID_FILE_HEADER_SIZE :: nat where "XID_FILE_HEADER_SIZE = LEN_XID"
definition FIELD_TRAN_ACTIVE :: byte where "FIELD_TRAN_ACTIVE = 0"
definition FIELD_TRAN_COMMITTED :: byte where "FIELD_TRAN_COMMITTED = 1"
definition FIELD_TRAN_ABORTED :: byte where "FIELD_TRAN_ABORTED = 2"

record transactionManager =
  tm_file :: os_file
  xidCounter :: XID

text \<open>Lifting a file operation to the manager.\<close>

definition tm_io :: "(os_file \<Rightarrow> 'a res \<times> os_file) \<Rightarrow> transactionManager \<Rightarrow> 'a res \<times> transactionManager" where
  "tm_io op t = (case op (tm_file t) of (r, f) \<Rightarrow> (r, t\<lparr>tm_file := f\<rparr>))"

text \<open>Offsets are computed in \<open>int64\<close>, so the arithmetic wraps and the result may be negative.\<close>

definition xidPosition :: "XID \<Rightarrow> int \<times> nat" where
  "xidPosition xid = (sint (of_nat XID_FILE_HEADER_SIZE + (xid - 1) * 1 :: 64 word), 1)"

definition checkXIDCounter :: "transactionManager \<Rightarrow> unit res \<times> transactionManager" where
  "checkXIDCounter t =
     (let size = fsize (tm_file t) in
      if size < XID_FILE_HEADER_SIZE then (Err ErrBadXIDFile, t)
      else sbind (ReadAt XID_FILE_HEADER_SIZE 0 (tm_file t), t) (\<lambda>header t.
        sbind (ParseUUID header, t) (\<lambda>c t.
        let t = t\<lparr>xidCounter := c\<rparr>; eof = fst (xidPosition (xidCounter t + 1)) in
        if eof \<noteq> int size then (Err ErrBadXIDFile, t) else (Ok (), t))))"

definition newTransactionManager :: "os_file \<Rightarrow> transactionManager res" where
  "newTransactionManager f =
     (case checkXIDCounter \<lparr>tm_file = f, xidCounter = 0\<rparr> of
        (Ok _, t) \<Rightarrow> Ok t | (Err e, _) \<Rightarrow> Err e | (Panic, _) \<Rightarrow> Panic)"

definition tm_Create :: "bool list \<Rightarrow> transactionManager res" where
  "tm_Create faults =
     (case WriteAt (replicate LEN_XID 0) 0 (new_file faults) of
        (Ok _, f) \<Rightarrow> newTransactionManager f | (Err e, _) \<Rightarrow> Err e | (Panic, _) \<Rightarrow> Panic)"

definition tm_Open :: "os_file \<Rightarrow> transactionManager res" where
  "tm_Open f = newTransactionManager f"

definition updateXID :: "XID \<Rightarrow> byte \<Rightarrow> transactionManager \<Rightarrow> unit res \<times> transactionManager" where
  "updateXID xid status t =
     (let (offset, length) = xidPosition xid; tmp = (replicate length 0)[0 := status] in
      sbind (tm_io (WriteAt tmp offset) t) (\<lambda>_ t. tm_io Sync t))"

definition incrXIDCounter :: "transactionManager \<Rightarrow> unit res \<times> transactionManager" where
  "incrXIDCounter t =
     (let t = t\<lparr>xidCounter := xidCounter t + 1\<rparr>; buf = Uint64ToRaw (xidCounter t) in
      sbind (tm_io (WriteAt buf 0) t) (\<lambda>_ t. tm_io Sync t))"

definition tm_Begin :: "transactionManager \<Rightarrow> XID res \<times> transactionManager" where
  "tm_Begin t =
     (let xid = xidCounter t + 1 in
      sbind (updateXID xid FIELD_TRAN_ACTIVE t) (\<lambda>_ t.
      sbind (incrXIDCounter t) (\<lambda>_ t. (Ok xid, t))))"

definition tm_Commit :: "XID \<Rightarrow> transactionManager \<Rightarrow> unit res \<times> transactionManager" where
  "tm_Commit xid t = updateXID xid FIELD_TRAN_COMMITTED t"

definition tm_Abort :: "XID \<Rightarrow> transactionManager \<Rightarrow> unit res \<times> transactionManager" where
  "tm_Abort xid t = updateXID xid FIELD_TRAN_ABORTED t"

definition checkXID :: "transactionManager \<Rightarrow> XID \<Rightarrow> byte \<Rightarrow> bool" where
  "checkXID t xid status =
     (let (offset, length) = xidPosition xid in
      case ReadAt length offset (tm_file t) of Ok tmp \<Rightarrow> tmp ! 0 = status | _ \<Rightarrow> False)"

definition tm_IsActive :: "transactionManager \<Rightarrow> XID \<Rightarrow> bool" where
  "tm_IsActive t xid = (if xid = SUPER_XID then False else checkXID t xid FIELD_TRAN_ACTIVE)"

definition tm_IsCommitted :: "transactionManager \<Rightarrow> XID \<Rightarrow> bool" where
  "tm_IsCommitted t xid = (if xid = SUPER_XID then True else checkXID t xid FIELD_TRAN_COMMITTED)"

definition tm_IsAborted :: "transactionManager \<Rightarrow> XID \<Rightarrow> bool" where
  "tm_IsAborted t xid = (if xid = SUPER_XID then True else checkXID t xid FIELD_TRAN_ABORTED)"

section \<open>Abstract view\<close>

text \<open>The status table: entry \<open>i\<close> is the status byte of transaction \<open>i + 1\<close>.\<close>

definition statuses :: "transactionManager \<Rightarrow> bytes" where
  "statuses t = drop 8 (fdata (tm_file t))"

text \<open>The layout invariant: the header on disk is the in-memory counter, there is one status byte
  per transaction, the disk is healthy, and offsets stay far below the signed range.\<close>

definition tm_inv :: "transactionManager \<Rightarrow> bool" where
  "tm_inv t \<longleftrightarrow> ffault (tm_file t) = [] \<and>
     take 8 (fdata (tm_file t)) = Uint64ToRaw (xidCounter t) \<and>
     length (fdata (tm_file t)) = 8 + unat (xidCounter t) \<and> unat (xidCounter t) + 16 < 2 ^ 63"

text \<open>A transaction id the manager has handed out.\<close>

definition known_xid :: "transactionManager \<Rightarrow> XID \<Rightarrow> bool" where
  "known_xid t xid \<longleftrightarrow> 1 \<le> unat xid \<and> unat xid \<le> unat (xidCounter t)"

text \<open>Runs of the manager on a healthy disk: creation, then operations on known transactions.\<close>

inductive tm_reachable :: "transactionManager \<Rightarrow> bool" where
  create: "tm_Create [] = Ok t \<Longrightarrow> tm_reachable t"
| tbegin: "tm_reachable t \<Longrightarrow> unat (xidCounter t) + 17 < 2 ^ 63 \<Longrightarrow> tm_Begin t = (Ok xid, t') \<Longrightarrow> tm_reachable t'"
| tcommit: "tm_reachable t \<Longrightarrow> known_xid t xid \<Longrightarrow> tm_Commit xid t = (Ok (), t') \<Longrightarrow> tm_reachable t'"
| tabort: "tm_reachable t \<Longrightarrow> known_xid t xid \<Longrightarrow> tm_Abort xid t = (Ok (), t') \<Longrightarrow> tm_reachable t'"

lemmas tm_defs = XID_FILE_HEADER_SIZE_def LEN_XID_def LEN_UUID_def
lemmas status_defs = FIELD_TRAN_ACTIVE_def FIELD_TRAN_COMMITTED_def FIELD_TRAN_ABORTED_def

section \<open>Offsets and single steps\<close>

lemma sint_of_nat_small: "n < 2 ^ 63 \<Longrightarrow> sint (of_nat n :: 64 word) = int n"
  by (simp add: signed_of_nat signed_take_bit_int_eq_self)

lemma xidPosition_small:
  assumes "1 \<le> unat xid" and "unat xid + 8 < 2 ^ 63"
  shows "xidPosition xid = (int (unat xid + 7), 1)"
proof -
  have "(8 + (xid - 1) :: 64 word) = of_nat (unat xid + 7)"
    by simp
  then show ?thesis
    using assms sint_of_nat_small [of "unat xid + 7"] by (simp add: xidPosition_def tm_defs add.commute)
qed

lemma unat_Suc_small: "unat (c :: 64 word) + 1 < 2 ^ 64 \<Longrightarrow> unat (c + 1) = unat c + 1"
  by (simp add: unat_word_ariths)

lemma updateXID_healthy:
  assumes "ffault (tm_file t) = []" and "1 \<le> unat xid" and "unat xid + 8 < 2 ^ 63"
  shows "updateXID xid s t =
    (Ok (), t\<lparr>tm_file := (tm_file t)\<lparr>fdata := file_put (fdata (tm_file t)) (unat xid + 7) [s]\<rparr>\<rparr>)"
  using assms by (simp add: updateXID_def xidPosition_small tm_io_def file_simps nat_add_distrib)

lemma known_xid_bounds: "tm_inv t \<Longrightarrow> known_xid t xid \<Longrightarrow> 1 \<le> unat xid \<and> unat xid + 8 < 2 ^ 63 \<and> unat xid + 7 < length (fdata (tm_file t))"
  by (auto simp: tm_inv_def known_xid_def)

text \<open>Setting a status is an update of the status table and keeps the layout.\<close>

lemma updateXID_known:
  assumes "tm_inv t" and "known_xid t xid"
  obtains t' where "updateXID xid s t = (Ok (), t')" "tm_inv t'" "xidCounter t' = xidCounter t"
    "statuses t' = (statuses t)[unat xid - 1 := s]"
proof -
  let ?d = "fdata (tm_file t)" and ?k = "unat xid + 7"
  note b = known_xid_bounds [OF assms]
  let ?t' = "t\<lparr>tm_file := (tm_file t)\<lparr>fdata := overwrite ?d ?k [s]\<rparr>\<rparr>"
  have u: "updateXID xid s t = (Ok (), ?t')"
    using assms b by (simp add: updateXID_healthy tm_inv_def file_put_inside)
  have ov: "overwrite ?d ?k [s] = ?d[?k := s]"
    using b by (intro nth_equalityI) (auto simp: nth_overwrite nth_list_update)
  have "drop 8 (?d[?k := s]) = (drop 8 ?d)[unat xid - 1 := s]"
    using b by (subst drop_update_swap) auto
  moreover have "take 8 (?d[?k := s]) = take 8 ?d"
    using b by (simp add: take_update_cancel)
  ultimately show thesis
    using that [OF u] assms(1) by (simp add: tm_inv_def statuses_def ov)
qed

lemma checkXID_known:
  assumes "tm_inv t" and "known_xid t xid"
  shows "checkXID t xid s \<longleftrightarrow> statuses t ! (unat xid - 1) = s"
  using known_xid_bounds [OF assms] assms(1)
  by (simp add: checkXID_def xidPosition_small ReadAt_inside nat_add_distrib statuses_def window_def tm_inv_def add.commute)

lemma tm_inv_Open: "tm_inv t \<Longrightarrow> tm_Open (tm_file t) = Ok t"
proof -
  assume inv: "tm_inv t"
  let ?c = "xidCounter t"
  have "window (fdata (tm_file t)) 0 8 = UUIDToRaw ?c"
    using inv by (simp add: tm_inv_def window_def UUIDToRaw_def)
  moreover have "fst (xidPosition (?c + 1)) = int (unat ?c + 8)"
    using inv unat_Suc_small [of ?c] by (simp add: tm_inv_def xidPosition_small)
  ultimately show ?thesis
    using inv by (simp add: tm_Open_def newTransactionManager_def checkXIDCounter_def tm_inv_def
        fsize_def tm_defs ReadAt_inside ParseUUID_self Let_def)
qed

lemma tm_Create_ok: "\<exists>t. tm_Create [] = Ok t \<and> tm_inv t \<and> statuses t = [] \<and> xidCounter t = 0"
proof -
  let ?f = "\<lparr>fdata = replicate 8 0, fpos = 0, ffault = []\<rparr>"
  let ?t = "\<lparr>tm_file = ?f, xidCounter = 0\<rparr>"
  have inv: "tm_inv ?t"
    by (simp add: tm_inv_def Uint64ToRaw_def be_bytes_zero)
  have "tm_Create [] = tm_Open ?f"
    by (simp add: tm_Create_def tm_Open_def new_file_def WriteAt_def io_fails_def io_tick_def
        file_put_def tm_defs)
  with tm_inv_Open [OF inv] inv show ?thesis by (simp add: statuses_def)
qed

lemma tm_Begin_healthy:
  assumes "tm_inv t" and "unat (xidCounter t) + 17 < 2 ^ 63"
  obtains t' where "tm_Begin t = (Ok (xidCounter t + 1), t')" "tm_inv t'"
    "xidCounter t' = xidCounter t + 1" "statuses t' = statuses t @ [FIELD_TRAN_ACTIVE]"
proof -
  let ?c = "xidCounter t" and ?d = "fdata (tm_file t)"
  let ?d' = "overwrite (?d @ [FIELD_TRAN_ACTIVE]) 0 (Uint64ToRaw (?c + 1))"
  let ?t' = "t\<lparr>tm_file := (tm_file t)\<lparr>fdata := ?d'\<rparr>, xidCounter := ?c + 1\<rparr>"
  have c: "unat (?c + 1) = unat ?c + 1"
    using assms by (intro unat_Suc_small) simp
  have h: "ffault (tm_file t) = []" "length ?d = 8 + unat ?c"
    using assms by (simp_all add: tm_inv_def)
  have "file_put ?d (unat (?c + 1) + 7) [FIELD_TRAN_ACTIVE] = ?d @ [FIELD_TRAN_ACTIVE]"
    using h file_put_end [of ?d] by (simp add: c)
  then have u: "updateXID (?c + 1) FIELD_TRAN_ACTIVE t =
      (Ok (), t\<lparr>tm_file := (tm_file t)\<lparr>fdata := ?d @ [FIELD_TRAN_ACTIVE]\<rparr>\<rparr>)"
    using assms h c by (subst updateXID_healthy) auto
  have b: "tm_Begin t = (Ok (?c + 1), ?t')"
    using h by (simp add: tm_Begin_def u incrXIDCounter_def tm_io_def file_simps Let_def)
  have "?d' = Uint64ToRaw (?c + 1) @ drop 8 ?d @ [FIELD_TRAN_ACTIVE]"
    using h by (simp add: overwrite_def)
  then show thesis
    using that [OF b] assms h c by (simp add: tm_inv_def statuses_def)
qed

section \<open>Reachable managers\<close>

lemma tm_reachable_inv: "tm_reachable t \<Longrightarrow> tm_inv t"
proof (induction rule: tm_reachable.induct)
  case (create t)
  then show ?case using tm_Create_ok by force
next
  case (tbegin t xid t')
  then show ?case by (metis tm_Begin_healthy prod.inject)
next
  case (tcommit t xid t')
  then show ?case by (metis tm_Commit_def updateXID_known prod.inject)
next
  case (tabort t xid t')
  then show ?case by (metis tm_Abort_def updateXID_known prod.inject)
qed

section \<open>Properties\<close>

text \<open>Durability of the transaction table: whatever sequence of begins, commits and aborts has
  run, closing the database and opening its \<^verbatim>\<open>.xid\<close> file again succeeds and yields exactly the
  manager that was running (same counter, same statuses).\<close>

lemma tm_reopen:
  assumes "tm_reachable t"
  shows "tm_Open (tm_file t) = Ok t"
  using tm_inv_Open [OF tm_reachable_inv [OF assms]] .


text \<open>\<open>Begin\<close> hands out a fresh id, one more than every id handed out before, marks it active,
  and leaves the status of every earlier transaction alone.\<close>

lemma tm_begin_fresh:
  assumes "tm_reachable t" and "unat (xidCounter t) + 17 < 2 ^ 63"
  shows "\<exists>t'. tm_Begin t = (Ok (xidCounter t + 1), t') \<and> tm_reachable t' \<and>
    \<not> known_xid t (xidCounter t + 1) \<and> known_xid t' (xidCounter t + 1) \<and>
    tm_IsActive t' (xidCounter t + 1) \<and>
    (\<forall>x. known_xid t x \<longrightarrow> known_xid t' x \<and> x < xidCounter t + 1 \<and>
       tm_IsActive t' x = tm_IsActive t x \<and> tm_IsCommitted t' x = tm_IsCommitted t x \<and>
       tm_IsAborted t' x = tm_IsAborted t x)"
proof -
  let ?x = "xidCounter t + 1"
  note inv = tm_reachable_inv [OF assms(1)]
  obtain t' where t': "tm_Begin t = (Ok ?x, t')" "tm_inv t'" "xidCounter t' = ?x"
    "statuses t' = statuses t @ [FIELD_TRAN_ACTIVE]"
    using tm_Begin_healthy [OF inv assms(2)] .
  have x: "unat ?x = unat (xidCounter t) + 1"
    using assms(2) by (intro unat_Suc_small) simp
  have len: "length (statuses t) = unat (xidCounter t)"
    using inv by (simp add: tm_inv_def statuses_def)
  have k: "known_xid t' ?x" "\<not> known_xid t ?x"
    using x t'(3) by (simp_all add: known_xid_def)
  then have "?x \<noteq> SUPER_XID" by (auto simp: known_xid_def SUPER_XID_def)
  then have act: "tm_IsActive t' ?x"
    using checkXID_known [OF t'(2) k(1)] len x by (simp add: tm_IsActive_def t'(4) nth_append)
  have old: "known_xid t' y \<and> y < ?x \<and> checkXID t' y s = checkXID t y s" if "known_xid t y" for y s
  proof -
    from that x t'(3) have k': "known_xid t' y" by (simp add: known_xid_def)
    moreover have "y < ?x" using that x by (simp add: known_xid_def word_less_nat_alt)
    moreover have "statuses t' ! (unat y - 1) = statuses t ! (unat y - 1)"
      using that len by (auto simp: t'(4) nth_append known_xid_def)
    ultimately show ?thesis
      using checkXID_known [OF t'(2) k'] checkXID_known [OF inv that] by simp
  qed
  have "tm_reachable t'"
    using tm_reachable.tbegin [OF assms t'(1)] .
  with t'(1) k act old show ?thesis
    unfolding tm_IsActive_def tm_IsCommitted_def tm_IsAborted_def by auto
qed


text \<open>\<open>Commit\<close> and \<open>Abort\<close> of a transaction that exists always succeed on a healthy disk, make
  exactly that transaction committed or aborted, and change no other transaction.\<close>

lemma tm_commit_abort_exact:
  assumes "tm_reachable t" and "known_xid t xid"
  shows "\<exists>c a. tm_Commit xid t = (Ok (), c) \<and> tm_Abort xid t = (Ok (), a) \<and>
    tm_IsCommitted c xid \<and> \<not> tm_IsActive c xid \<and> \<not> tm_IsAborted c xid \<and>
    tm_IsAborted a xid \<and> \<not> tm_IsActive a xid \<and> \<not> tm_IsCommitted a xid \<and>
    (\<forall>y. known_xid t y \<and> y \<noteq> xid \<longrightarrow>
       tm_IsCommitted c y = tm_IsCommitted t y \<and> tm_IsActive c y = tm_IsActive t y \<and>
       tm_IsCommitted a y = tm_IsCommitted t y \<and> tm_IsActive a y = tm_IsActive t y)"
proof -
  note inv = tm_reachable_inv [OF assms(1)]
  have len: "length (statuses t) = unat (xidCounter t)"
    using inv by (simp add: tm_inv_def statuses_def)
  have upd: "\<exists>t'. updateXID xid s t = (Ok (), t') \<and> (\<forall>r. checkXID t' xid r = (s = r)) \<and>
      (\<forall>y r. known_xid t y \<and> y \<noteq> xid \<longrightarrow> checkXID t' y r = checkXID t y r)" for s
  proof -
    obtain t' where t': "updateXID xid s t = (Ok (), t')" "tm_inv t'" "xidCounter t' = xidCounter t"
      "statuses t' = (statuses t)[unat xid - 1 := s]"
      using updateXID_known [OF inv assms(2)] .
    have k: "known_xid t' y = known_xid t y" for y
      by (simp add: known_xid_def t'(3))
    have other: "statuses t' ! (unat y - 1) = statuses t ! (unat y - 1)"
      if "known_xid t y" "y \<noteq> xid" for y
    proof -
      have "unat y - 1 \<noteq> unat xid - 1"
        using that assms(2) word_unat_eq_iff [of y xid] by (auto simp: known_xid_def)
      then show ?thesis by (simp add: t'(4))
    qed
    have "statuses t' ! (unat xid - 1) = s"
      using assms(2) len by (auto simp: t'(4) known_xid_def)
    with t'(1) assms(2) k other show ?thesis
      by (auto simp: checkXID_known [OF t'(2)] checkXID_known [OF inv])
  qed
  have "xid \<noteq> SUPER_XID" "\<And>y. known_xid t y \<Longrightarrow> y \<noteq> SUPER_XID"
    using assms(2) by (auto simp: known_xid_def SUPER_XID_def)
  with upd [of FIELD_TRAN_COMMITTED] upd [of FIELD_TRAN_ABORTED] show ?thesis
    unfolding tm_Commit_def tm_Abort_def tm_IsCommitted_def tm_IsActive_def tm_IsAborted_def
    by (auto simp: status_defs)
qed

lemma tm_one_active: "\<exists>t. tm_reachable t \<and> known_xid t 1"
proof -
  obtain t where t: "tm_Create [] = Ok t" "xidCounter t = 0"
    using tm_Create_ok by auto
  then have r: "tm_reachable t" by (auto intro: tm_reachable.create)
  obtain t' where t': "tm_Begin t = (Ok (xidCounter t + 1), t')" "xidCounter t' = xidCounter t + 1"
    using tm_Begin_healthy [OF tm_reachable_inv [OF r]] t(2) by auto
  then have "tm_reachable t'"
    using tm_reachable.tbegin [OF r _ t'(1)] t(2) by simp
  then show ?thesis using t'(2) t(2) by (auto simp: known_xid_def)
qed


text \<open>The crash window of \<open>Begin\<close>: the status byte is written (and synced) before the counter, so
  a file left by a crash between the two writes is one byte longer than its header says, and
  \<open>Open\<close> refuses it with \<open>ErrBadXIDFile\<close>.\<close>

lemma tm_begin_crash_window:
  assumes "tm_reachable t" and "unat (xidCounter t) + 17 < 2 ^ 63"
    and "updateXID (xidCounter t + 1) FIELD_TRAN_ACTIVE t = (Ok (), t1)"
  shows "tm_Open (tm_file t1) = Err ErrBadXIDFile"
proof -
  let ?c = "xidCounter t" and ?d = "fdata (tm_file t)"
  have inv: "tm_inv t" by (rule tm_reachable_inv [OF assms(1)])
  have c: "unat (?c + 1) = unat ?c + 1"
    using assms(2) by (intro unat_Suc_small) simp
  have h: "ffault (tm_file t) = []" "length ?d = 8 + unat ?c"
    using inv by (simp_all add: tm_inv_def)
  have d: "fdata (tm_file t1) = ?d @ [FIELD_TRAN_ACTIVE]"
    using assms(2,3) h c file_put_end [of ?d]
    by (auto simp: updateXID_healthy simp del: One_nat_def)
  have "window (fdata (tm_file t1)) 0 8 = UUIDToRaw ?c"
    using inv h by (simp add: d tm_inv_def window_def UUIDToRaw_def)
  moreover have "fst (xidPosition (?c + 1)) = int (unat ?c + 8)"
    using assms(2) c by (simp add: xidPosition_small)
  ultimately show ?thesis
    using h by (simp add: tm_Open_def newTransactionManager_def checkXIDCounter_def fsize_def d
        tm_defs ReadAt_inside ParseUUID_self Let_def)
qed

end
