(* ===== verification/Logger.thy ===== *)
theory Logger
  imports Utils GoFile
begin

text \<open>
  The write-ahead log (\<^verbatim>\<open>dm/logger/logger.go\<close>): a 4-byte running checksum followed by records
  \<open>[size][checksum][data]\<close>. \<open>Log\<close> appends at the file offset and then rewrites the running checksum;
  \<open>Open\<close> scans the records, cuts a torn tail and compares the running checksum. File positions are
  far below the \<open>int64\<close> range and are modelled by natural numbers. The logger's mutex makes every
  operation atomic.
\<close>

section \<open>Model\<close>

definition LOG_SEED :: uint32 where "LOG_SEED = 13331"
definition LOG_OF_SIZE :: nat where "LOG_OF_SIZE = 0"
definition LOG_OF_CHECKSUM :: nat where "LOG_OF_CHECKSUM = LOG_OF_SIZE + 4"
definition LOG_OF_DATA :: nat where "LOG_OF_DATA = LOG_OF_CHECKSUM + 4"

record logger =
  lg_file :: os_file
  lg_pos :: nat
  lg_fileSize :: nat
  xChecksum :: uint32

definition lg_io :: "(os_file \<Rightarrow> 'a res \<times> os_file) \<Rightarrow> logger \<Rightarrow> 'a res \<times> logger" where
  "lg_io op lg = (case op (lg_file lg) of (r, f) \<Rightarrow> (r, lg\<lparr>lg_file := f\<rparr>))"

definition calChecksum :: "uint32 \<Rightarrow> bytes \<Rightarrow> uint32" where
  "calChecksum accumulation data = foldl (\<lambda>acc b. ucast b + acc * LOG_SEED) accumulation data"

definition warpLog :: "bytes \<Rightarrow> bytes" where
  "warpLog data =
     (let log = replicate (length data + LOG_OF_DATA) 0;
          log = PutUint32 log (of_nat (length data));
          log = take LOG_OF_DATA log @ go_copy (drop LOG_OF_DATA log) data;
          checksum = calChecksum 0 data
      in take LOG_OF_CHECKSUM log @ PutUint32 (drop LOG_OF_CHECKSUM log) checksum)"

definition updateXChecksum :: "bytes \<Rightarrow> logger \<Rightarrow> unit res \<times> logger" where
  "updateXChecksum log lg =
     (let lg = lg\<lparr>xChecksum := calChecksum (xChecksum lg) log\<rparr> in
      sbind (lg_io (WriteAt (Uint32ToRaw (xChecksum lg)) 0) lg) (\<lambda>_ lg. lg_io Sync lg))"

definition lg_Log :: "bytes \<Rightarrow> logger \<Rightarrow> unit res \<times> logger" where
  "lg_Log data lg =
     (let log = warpLog data in
      sbind (lg_io (Write log) lg) (\<lambda>_ lg. updateXChecksum log lg))"

definition lg_Truncate :: "nat \<Rightarrow> logger \<Rightarrow> unit res \<times> logger" where
  "lg_Truncate x lg = lg_io (Truncate x) lg"

definition lg_Rewind :: "logger \<Rightarrow> logger" where
  "lg_Rewind lg = lg\<lparr>lg_pos := 4\<rparr>"

text \<open>\<open>next\<close>: \<open>None\<close> is the \<open>ok = false\<close> answer.\<close>

definition lg_next :: "logger \<Rightarrow> bytes option res \<times> logger" where
  "lg_next lg =
     (if lg_fileSize lg \<le> lg_pos lg + LOG_OF_DATA then (Ok None, lg)
      else sbind (ReadAt 4 (int (lg_pos lg)) (lg_file lg), lg) (\<lambda>tmp lg.
        sbind (ParseUint32 tmp, lg) (\<lambda>sz lg.
        let size = unat sz in
        if lg_fileSize lg < lg_pos lg + size + LOG_OF_DATA then (Ok None, lg)
        else sbind (ReadAt (LOG_OF_DATA + size) (int (lg_pos lg)) (lg_file lg), lg) (\<lambda>log lg.
          sbind (go_from log LOG_OF_DATA, lg) (\<lambda>body lg.
          sbind (go_from log LOG_OF_CHECKSUM, lg) (\<lambda>cs lg.
          sbind (ParseUint32 cs, lg) (\<lambda>checksum2 lg.
          if calChecksum 0 body \<noteq> checksum2 then (Ok None, lg)
          else (Ok (Some log), lg\<lparr>lg_pos := lg_pos lg + length log\<rparr>))))))))"

definition lg_Next :: "logger \<Rightarrow> bytes option res \<times> logger" where
  "lg_Next lg =
     sbind (lg_next lg) (\<lambda>log lg.
       case log of None \<Rightarrow> (Ok None, lg)
       | Some log \<Rightarrow> sbind (go_from log LOG_OF_DATA, lg) (\<lambda>data lg. (Ok (Some data), lg)))"

lemma lg_next_progress:
  "lg_next lg = (Ok (Some log), lg') \<Longrightarrow>
     lg_pos lg < lg_pos lg' \<and> lg_pos lg' \<le> lg_fileSize lg \<and>
     lg' = lg\<lparr>lg_pos := lg_pos lg + length log\<rparr> \<and> LOG_OF_DATA \<le> length log"
  by (auto simp: lg_next_def sbind_eq_Ok Let_def LOG_OF_DATA_def LOG_OF_CHECKSUM_def LOG_OF_SIZE_def
      ReadAt_def split: if_splits)

lemma lg_Next_progress:
  "lg_Next lg = (Ok (Some d), lg') \<Longrightarrow> lg_pos lg < lg_pos lg' \<and> lg_pos lg' \<le> lg_fileSize lg \<and> lg_fileSize lg' = lg_fileSize lg"
  using lg_next_progress by (fastforce simp: lg_Next_def sbind_eq_Ok split: option.splits)

lemma lg_next_measure:
  assumes "lg_next lg = (Ok (Some log), lg')"
  shows "lg_fileSize lg' - lg_pos lg' < lg_fileSize lg - lg_pos lg"
proof -
  from lg_next_progress [OF assms] have "lg_pos lg < lg_pos lg'" "lg_pos lg' \<le> lg_fileSize lg"
    "lg_fileSize lg' = lg_fileSize lg" by auto
  then show ?thesis by linarith
qed

lemma lg_Next_measure:
  assumes "lg_Next lg = (Ok (Some log), lg')"
  shows "lg_fileSize lg' - lg_pos lg' < lg_fileSize lg - lg_pos lg"
proof -
  from lg_Next_progress [OF assms] have "lg_pos lg < lg_pos lg'" "lg_pos lg' \<le> lg_fileSize lg"
    "lg_fileSize lg' = lg_fileSize lg" by auto
  then show ?thesis by linarith
qed

text \<open>The scanning loop of \<open>checkAndRemoveTail\<close>.\<close>

function lg_scan :: "logger \<Rightarrow> uint32 \<Rightarrow> uint32 res \<times> logger" where
  "lg_scan lg xCheckSum =
     (case lg_next lg of
        (Err e, lg') \<Rightarrow> (Err e, lg') | (Panic, lg') \<Rightarrow> (Panic, lg')
      | (Ok None, lg') \<Rightarrow> (Ok xCheckSum, lg')
      | (Ok (Some log), lg') \<Rightarrow> lg_scan lg' (calChecksum xCheckSum log))"
  by pat_completeness auto
termination
  by (relation "measure (\<lambda>(lg, _). lg_fileSize lg - lg_pos lg)") (auto intro: lg_next_measure [OF sym])

definition checkAndRemoveTail :: "logger \<Rightarrow> unit res \<times> logger" where
  "checkAndRemoveTail lg =
     sbind (lg_scan (lg_Rewind lg) 0) (\<lambda>xCheckSum lg.
       if xCheckSum = xChecksum lg then
         sbind (lg_io (Truncate (lg_pos lg)) lg) (\<lambda>_ lg.
           (Ok (), lg_Rewind (lg\<lparr>lg_file := Seek (lg_pos lg) (lg_file lg)\<rparr>)))
       else (Err ErrBadLogFile, lg))"

definition lg_init :: "logger \<Rightarrow> unit res \<times> logger" where
  "lg_init lg =
     (let fileSize = fsize (lg_file lg) in
      if fileSize < 4 then (Err ErrBadLogFile, lg)
      else sbind (ReadAt 4 0 (lg_file lg), lg) (\<lambda>raw lg.
        sbind (ParseUint32 raw, lg) (\<lambda>x lg.
        checkAndRemoveTail (lg\<lparr>lg_fileSize := fileSize, xChecksum := x\<rparr>))))"

definition lg_Open :: "os_file \<Rightarrow> logger res" where
  "lg_Open f =
     (case lg_init \<lparr>lg_file = f, lg_pos = 0, lg_fileSize = 0, xChecksum = 0\<rparr> of
        (Ok _, lg) \<Rightarrow> Ok lg | (Err e, _) \<Rightarrow> Err e | (Panic, _) \<Rightarrow> Panic)"

definition lg_Create :: "bool list \<Rightarrow> logger res" where
  "lg_Create faults =
     (case sbind (Write (Uint32ToRaw 0) (new_file faults)) (\<lambda>_ f. Sync f) of
        (Ok _, f) \<Rightarrow> Ok \<lparr>lg_file = f, lg_pos = 0, lg_fileSize = 0, xChecksum = 0\<rparr>
      | (Err e, _) \<Rightarrow> Err e | (Panic, _) \<Rightarrow> Panic)"

text \<open>The loop \<open>for { log, ok, err := lg.Next() ... }\<close> with which recovery reads the log: the records
  from the current position to the end.\<close>

function lg_drain :: "logger \<Rightarrow> bytes list res \<times> logger" where
  "lg_drain lg =
     (case lg_Next lg of
        (Err e, lg') \<Rightarrow> (Err e, lg') | (Panic, lg') \<Rightarrow> (Panic, lg')
      | (Ok None, lg') \<Rightarrow> (Ok [], lg')
      | (Ok (Some log), lg') \<Rightarrow> sbind (lg_drain lg') (\<lambda>logs lg''. (Ok (log # logs), lg'')))"
  by pat_completeness auto
termination
  by (relation "measure (\<lambda>lg. lg_fileSize lg - lg_pos lg)") (auto intro: lg_Next_measure [OF sym])

declare lg_scan.simps [simp del] lg_drain.simps [simp del]

lemmas log_defs = LOG_OF_SIZE_def LOG_OF_CHECKSUM_def LOG_OF_DATA_def

section \<open>The intended contents\<close>

definition log_image :: "bytes list \<Rightarrow> bytes" where
  "log_image ds = concat (map warpLog ds)"

definition loggable :: "bytes \<Rightarrow> bool" where
  "loggable d \<longleftrightarrow> d \<noteq> [] \<and> length d < 2 ^ 32"

text \<open>The logger holds exactly the records \<open>ds\<close>, and its next append lands behind them.\<close>

definition lg_holds :: "bytes list \<Rightarrow> logger \<Rightarrow> bool" where
  "lg_holds ds lg \<longleftrightarrow> ffault (lg_file lg) = [] \<and> (\<forall>d \<in> set ds. loggable d) \<and>
     xChecksum lg = calChecksum 0 (log_image ds) \<and>
     fdata (lg_file lg) = Uint32ToRaw (xChecksum lg) @ log_image ds \<and>
     fpos (lg_file lg) = length (fdata (lg_file lg))"

text \<open>Runs on a healthy disk: creation, appends, and closing and reopening at any point.\<close>

inductive lg_written :: "bytes list \<Rightarrow> logger \<Rightarrow> bool" where
  created: "lg_Create [] = Ok lg \<Longrightarrow> lg_written [] lg"
| logged: "lg_written ds lg \<Longrightarrow> loggable d \<Longrightarrow> lg_Log d lg = (Ok (), lg') \<Longrightarrow> lg_written (ds @ [d]) lg'"
| reopened: "lg_written ds lg \<Longrightarrow> lg_Open (lg_file lg) = Ok lg' \<Longrightarrow> lg_written ds lg'"

section \<open>Records\<close>

lemma calChecksum_append [simp]: "calChecksum x (a @ b) = calChecksum (calChecksum x a) b"
  by (simp add: calChecksum_def)

lemma calChecksum_Nil [simp]: "calChecksum x [] = x"
  by (simp add: calChecksum_def)

lemma warpLog_eq:
  "warpLog d = Uint32ToRaw (of_nat (length d)) @ Uint32ToRaw (calChecksum 0 d) @ d"
  by (simp add: warpLog_def log_defs PutUint32_def buf_write_def Uint32ToRaw_def go_copy_def Let_def)

lemma length_warpLog [simp]: "length (warpLog d) = 8 + length d"
  by (simp add: warpLog_eq)

lemma log_image_simps [simp]:
  "log_image [] = []" "log_image (d # ds) = warpLog d @ log_image ds"
  "log_image (ds @ es) = log_image ds @ log_image es"
  by (simp_all add: log_image_def)

lemma ParseUint32_toRaw [simp]: "ParseUint32 (Uint32ToRaw v) = Ok v" "ParseUint32 (Uint32ToRaw v @ r) = Ok v"
  using GetUint32_prefix [of v "[]"] GetUint32_prefix [of v r] by (simp_all add: ParseUint32_def)

lemma lg_next_record:
  assumes "fdata (lg_file lg) = pre @ warpLog d @ rest" and "lg_pos lg = length pre"
    and "length (fdata (lg_file lg)) \<le> lg_fileSize lg" and "loggable d"
  shows "lg_next lg = (Ok (Some (warpLog d)), lg\<lparr>lg_pos := length pre + length (warpLog d)\<rparr>)"
proof -
  have sz: "unat (of_nat (length d) :: uint32) = length d"
    using assms(4) by (simp add: loggable_def unat_of_nat)
  have r4: "ReadAt 4 (int (length pre)) (lg_file lg) = Ok (Uint32ToRaw (of_nat (length d)))"
    by (simp add: ReadAt_inside assms(1) window_def warpLog_eq)
  have rl: "ReadAt (8 + length d) (int (length pre)) (lg_file lg) = Ok (warpLog d)"
    by (simp add: ReadAt_inside assms(1) window_def)
  have "drop 8 (warpLog d) = d" "drop 4 (warpLog d) = Uint32ToRaw (calChecksum 0 d) @ d"
    by (simp_all add: warpLog_eq)
  moreover have "0 < length d" using assms(4) by (simp add: loggable_def)
  moreover have "length pre + length d + 8 \<le> lg_fileSize lg" using assms(1,3) by simp
  then have "\<not> lg_fileSize lg \<le> length pre + 8" "\<not> lg_fileSize lg < length pre + length d + 8"
    using \<open>0 < length d\<close> by linarith+
  ultimately show ?thesis
    using assms(2) by (simp add: lg_next_def log_defs r4 rl sz Let_def)
qed

text \<open>A torn record, including none at all, ends the scan.\<close>

lemma lg_next_torn:
  assumes "fdata (lg_file lg) = pre @ tail" and "lg_pos lg = length pre"
    and "lg_fileSize lg = length (fdata (lg_file lg))" and "strict_prefix tail (warpLog d)" and "loggable d"
  shows "lg_next lg = (Ok None, lg)"
proof (cases "length tail \<le> 8")
  case True
  with assms show ?thesis by (simp add: lg_next_def log_defs)
next
  case False
  from assms(4) obtain r where r: "warpLog d = tail @ r" "r \<noteq> []"
    by (auto simp: strict_prefix_def prefix_def)
  have "take 4 tail = take 4 (warpLog d)" using r(1) False by simp
  then have t4: "take 4 tail = Uint32ToRaw (of_nat (length d))" by (simp add: warpLog_eq)
  have "length tail < 8 + length d"
    using r length_warpLog [of d] by (metis length_append length_greater_0_conv less_add_same_cancel1)
  moreover have "unat (of_nat (length d) :: uint32) = length d"
    using assms(5) by (simp add: loggable_def unat_of_nat)
  moreover have "ReadAt 4 (int (length pre)) (lg_file lg) = Ok (Uint32ToRaw (of_nat (length d)))"
    using False by (simp add: ReadAt_inside assms(1) window_def t4)
  ultimately show ?thesis
    using assms(1-3) False by (simp add: lg_next_def log_defs Let_def)
qed

lemma strict_prefix_warpLog [simp]: "strict_prefix [] (warpLog d)"
  using length_warpLog [of d] by (auto simp: strict_prefix_def simp del: length_warpLog)

section \<open>Scanning\<close>

lemma lg_scan_image:
  assumes "fdata (lg_file lg) = pre @ log_image ds @ tail" and "lg_pos lg = length pre"
    and "lg_fileSize lg = length (fdata (lg_file lg))" and "\<forall>d \<in> set ds. loggable d"
    and "strict_prefix tail (warpLog e)" and "loggable e"
  shows "lg_scan lg x =
    (Ok (calChecksum x (log_image ds)), lg\<lparr>lg_pos := length pre + length (log_image ds)\<rparr>)"
  using assms
proof (induction ds arbitrary: pre lg x)
  case Nil
  then have "lg_next lg = (Ok None, lg)" by (intro lg_next_torn) auto
  with Nil show ?case by (subst lg_scan.simps) simp
next
  case (Cons d ds)
  let ?lg = "lg\<lparr>lg_pos := length pre + length (warpLog d)\<rparr>"
  have n: "lg_next lg = (Ok (Some (warpLog d)), ?lg)"
    using Cons.prems by (intro lg_next_record) auto
  have "lg_scan ?lg (calChecksum x (warpLog d)) =
      (Ok (calChecksum (calChecksum x (warpLog d)) (log_image ds)),
       ?lg\<lparr>lg_pos := length (pre @ warpLog d) + length (log_image ds)\<rparr>)"
    using Cons.prems by (intro Cons.IH) auto
  with n show ?case by (subst lg_scan.simps) (simp add: add.assoc)
qed

lemma lg_drain_image:
  assumes "fdata (lg_file lg) = pre @ log_image ds" and "lg_pos lg = length pre"
    and "lg_fileSize lg = length (fdata (lg_file lg))" and "\<forall>d \<in> set ds. loggable d"
  shows "fst (lg_drain lg) = Ok ds"
  using assms
proof (induction ds arbitrary: pre lg)
  case Nil
  have "lg_next lg = (Ok None, lg)"
    using Nil by (intro lg_next_torn [where d = "[0]" and tail = "[]"]) (auto simp: loggable_def)
  then show ?case by (subst lg_drain.simps) (simp add: lg_Next_def)
next
  case (Cons d ds)
  let ?lg = "lg\<lparr>lg_pos := length pre + length (warpLog d)\<rparr>"
  have "lg_next lg = (Ok (Some (warpLog d)), ?lg)"
    using Cons.prems by (intro lg_next_record) auto
  then have n: "lg_Next lg = (Ok (Some d), ?lg)"
    by (simp add: lg_Next_def log_defs warpLog_eq)
  have "fst (lg_drain ?lg) = Ok ds"
    using Cons.prems by (intro Cons.IH [where pre = "pre @ warpLog d"]) auto
  with n show ?case by (subst lg_drain.simps) (cases "lg_drain ?lg"; simp)
qed

text \<open>Opening a file that holds complete records and possibly a torn one.\<close>

lemma lg_Open_image:
  assumes "ffault f = []" and "\<forall>d \<in> set ds. loggable d" and "loggable e" and "strict_prefix tail (warpLog e)"
    and "fdata f = Uint32ToRaw x @ log_image ds @ tail"
  shows "lg_Open f = (if x = calChecksum 0 (log_image ds)
     then Ok \<lparr>lg_file = f\<lparr>fdata := Uint32ToRaw x @ log_image ds, fpos := 4 + length (log_image ds)\<rparr>,
              lg_pos = 4, lg_fileSize = length (fdata f), xChecksum = x\<rparr>
     else Err ErrBadLogFile)"
proof -
  let ?lg = "\<lparr>lg_file = f, lg_pos = 4, lg_fileSize = length (fdata f), xChecksum = x\<rparr>"
  have scan: "lg_scan ?lg 0 =
      (Ok (calChecksum 0 (log_image ds)), ?lg\<lparr>lg_pos := 4 + length (log_image ds)\<rparr>)"
    using lg_scan_image [of ?lg "Uint32ToRaw x" ds tail e 0] assms by simp
  have "window (fdata f) 0 4 = Uint32ToRaw x" "4 + length (log_image ds) \<le> length (fdata f)"
    "take (4 + length (log_image ds)) (fdata f) = Uint32ToRaw x @ log_image ds"
    using assms(5) by (simp_all add: window_def)
  then show ?thesis
    using assms(1)
    by (simp add: lg_Open_def lg_init_def fsize_def ReadAt_inside checkAndRemoveTail_def lg_Rewind_def
        scan lg_io_def Truncate_healthy Seek_def)
qed

lemma lg_Log_holds:
  assumes "lg_holds ds lg" and "loggable d"
  obtains lg' where "lg_Log d lg = (Ok (), lg')" "lg_holds (ds @ [d]) lg'"
proof -
  let ?x = "calChecksum (xChecksum lg) (warpLog d)"
  let ?f = "(lg_file lg)\<lparr>fdata := Uint32ToRaw ?x @ log_image (ds @ [d]),
     fpos := fpos (lg_file lg) + length (warpLog d)\<rparr>"
  have "fpos (lg_file lg) = length (fdata (lg_file lg))"
    using assms(1) by (simp add: lg_holds_def)
  then have "file_put (fdata (lg_file lg)) (fpos (lg_file lg)) (warpLog d) = fdata (lg_file lg) @ warpLog d"
    by (simp only: file_put_end)
  then have "lg_Log d lg = (Ok (), lg\<lparr>lg_file := ?f, xChecksum := ?x\<rparr>)"
    using assms(1)
    by (simp add: lg_Log_def lg_holds_def lg_io_def file_simps updateXChecksum_def Let_def overwrite_def)
  moreover have "lg_holds (ds @ [d]) (lg\<lparr>lg_file := ?f, xChecksum := ?x\<rparr>)"
    using assms by (auto simp: lg_holds_def)
  ultimately show thesis by (rule that)
qed

lemma lg_Open_holds:
  assumes "lg_holds ds lg"
  obtains lg' where "lg_Open (lg_file lg) = Ok lg'" "lg_holds ds lg'" "fst (lg_drain lg') = Ok ds"
proof -
  let ?f = "lg_file lg"
  let ?lg = "\<lparr>lg_file = ?f\<lparr>fdata := Uint32ToRaw (xChecksum lg) @ log_image ds,
     fpos := 4 + length (log_image ds)\<rparr>, lg_pos = 4, lg_fileSize = length (fdata ?f), xChecksum = xChecksum lg\<rparr>"
  have "lg_Open ?f = Ok ?lg"
    using lg_Open_image [of ?f ds "[0]" "[]" "xChecksum lg"] assms by (simp add: lg_holds_def loggable_def)
  moreover have "lg_holds ds ?lg" using assms by (simp add: lg_holds_def)
  moreover have "fst (lg_drain ?lg) = Ok ds"
    using assms by (intro lg_drain_image [where pre = "Uint32ToRaw (xChecksum lg)"]) (auto simp: lg_holds_def)
  ultimately show thesis by (rule that)
qed

lemma lg_Create_holds: "\<exists>lg. lg_Create [] = Ok lg \<and> lg_holds [] lg"
  by (simp add: lg_Create_def new_file_def Write_def Sync_def io_fails_def io_tick_def file_put_def lg_holds_def)

lemma lg_written_holds: "lg_written ds lg \<Longrightarrow> lg_holds ds lg"
proof (induction rule: lg_written.induct)
  case (created lg)
  then show ?case using lg_Create_holds by force
next
  case (logged ds lg d lg')
  then show ?case using lg_Log_holds [of ds lg d] by force
next
  case (reopened ds lg lg')
  then show ?case using lg_Open_holds [of ds lg] by force
qed

section \<open>Properties\<close>

text \<open>C29. The log is durable and complete: after any run of appends, with the database closed and
  reopened at any points in between, opening the log file succeeds and reading it with \<open>Next\<close>
  returns every record that was logged, unchanged, in order, and nothing else.\<close>

theorem logger_durable:
  assumes "lg_written ds lg"
  shows "\<exists>lg'. lg_Open (lg_file lg) = Ok lg' \<and> fst (lg_drain lg') = Ok ds \<and> lg_holds ds lg'"
  using lg_Open_holds [OF lg_written_holds [OF assms]] by metis

lemma lg_written_example: "\<exists>lg. lg_written [[7, 8]] lg"
proof -
  obtain lg where lg: "lg_Create [] = Ok lg" "lg_holds [] lg"
    using lg_Create_holds by blast
  have l: "loggable [7, 8]" by (simp add: loggable_def)
  obtain lg' where "lg_Log [7, 8] lg = (Ok (), lg')"
    using lg_Log_holds [OF lg(2) l] .
  from lg_written.logged [OF lg_written.created [OF lg(1)] l this] show ?thesis by auto
qed

theorem logger_durable_witness:
  "\<exists>lg lg'. lg_written [[7, 8]] lg \<and> lg_Open (lg_file lg) = Ok lg' \<and> fst (lg_drain lg') = Ok [[7, 8]]"
  using lg_written_example logger_durable by blast

text \<open>C30. A torn append is harmless: if a crash leaves any proper part of a further record at the end
  of the file, opening cuts exactly that part off, and the log holds the records written before.\<close>

theorem logger_torn_tail:
  assumes "lg_written ds lg" and "loggable d" and "strict_prefix torn (warpLog d)"
    and "f = (lg_file lg)\<lparr>fdata := fdata (lg_file lg) @ torn\<rparr>"
  shows "\<exists>lg'. lg_Open f = Ok lg' \<and> lg_holds ds lg' \<and> fdata (lg_file lg') = fdata (lg_file lg)"
proof -
  note h = lg_written_holds [OF assms(1)]
  have f: "ffault f = []" "fdata f = Uint32ToRaw (xChecksum lg) @ log_image ds @ torn"
    using h assms(4) by (simp_all add: lg_holds_def)
  from lg_Open_image [OF f(1) _ assms(2,3) f(2)] h show ?thesis
    by (auto simp: lg_holds_def assms(4))
qed

theorem logger_torn_tail_witness:
  "\<exists>lg lg'. lg_written [[7, 8]] lg \<and> strict_prefix [0, 0, 0] (warpLog [9]) \<and>
     lg_Open ((lg_file lg)\<lparr>fdata := fdata (lg_file lg) @ [0, 0, 0]\<rparr>) = Ok lg' \<and> lg_holds [[7, 8]] lg'"
proof -
  have l: "loggable [9]" by (simp add: loggable_def)
  have p: "strict_prefix [0, 0, 0] (warpLog [9])"
    by (simp add: warpLog_eq Uint32ToRaw_def strict_prefix_def be_bytes_numeral)
  from lg_written_example obtain lg where lg: "lg_written [[7, 8]] lg" ..
  from logger_torn_tail [OF lg l p refl] lg p show ?thesis by blast
qed

text \<open>The crash window of \<open>Log\<close>: when a crash leaves the whole record on disk but not yet the new
  running checksum, the scan accepts the record and the checksum comparison fails, so the database
  cannot be opened (\<open>ErrBadLogFile\<close>), unless the two checksums happen to collide.\<close>

lemma logger_crash_window:
  assumes "lg_written ds lg" and "loggable d"
    and "lg_io (Write (warpLog d)) lg = (Ok (), lg1)"
    and "calChecksum (xChecksum lg) (warpLog d) \<noteq> xChecksum lg"
  shows "lg_Open (lg_file lg1) = Err ErrBadLogFile"
proof -
  note h = lg_written_holds [OF assms(1)]
  have pos: "fpos (lg_file lg) = length (fdata (lg_file lg))"
    using h by (simp add: lg_holds_def)
  have put: "file_put (fdata (lg_file lg)) (fpos (lg_file lg)) (warpLog d) = fdata (lg_file lg) @ warpLog d"
    by (simp only: pos file_put_end)
  have "ffault (lg_file lg) = []" using h by (simp add: lg_holds_def)
  then have "fdata (lg_file lg1) = fdata (lg_file lg) @ warpLog d" "ffault (lg_file lg1) = []"
    using assms(3) by (auto simp: lg_io_def Write_healthy put)
  then have f: "ffault (lg_file lg1) = []"
    "fdata (lg_file lg1) = Uint32ToRaw (xChecksum lg) @ log_image (ds @ [d]) @ []"
    using h by (simp_all add: lg_holds_def)
  have "\<forall>x \<in> set (ds @ [d]). loggable x" using h assms(2) by (simp add: lg_holds_def)
  from lg_Open_image [OF f(1) this assms(2) strict_prefix_warpLog f(2)] assms(4) h show ?thesis
    by (simp add: lg_holds_def)
qed

end
