(* ===== verification/Cacher.thy ===== *)
theory Cacher
  imports Utils
begin

text \<open>
  The reference-counting cache (\<^verbatim>\<open>utils/cacher/cacher.go\<close>) under the page cache, the data-item cache
  and the entry cache. Every critical section of the code (between \<open>c.lock.Lock()\<close> and
  \<open>c.lock.Unlock()\<close>) is one operation of the model: the loop body of \<open>Get\<close> (\<open>get_try\<close>), the second half
  of \<open>Get\<close> after the resource has been loaded outside the lock (\<open>get_finish\<close>), \<open>Release\<close> and \<open>Close\<close>. The
  step relation interleaves them for any number of goroutines; \<open>c_Get\<close> composes them for a
  caller that runs alone. The resource type is a parameter.
\<close>

section \<open>Model\<close>

record 'h cacher =
  cache :: "UUID \<rightharpoonup> 'h"
  refs :: "UUID \<rightharpoonup> uint32"
  getting :: "UUID set"
  count :: uint32
  MaxHandles :: uint32

definition NewCacher :: "uint32 \<Rightarrow> 'h cacher" where
  "NewCacher maxHandles =
     \<lparr>cache = Map.empty, refs = Map.empty, getting = {}, count = 0, MaxHandles = maxHandles\<rparr>"

text \<open>Reading an absent key of a Go map of integers gives zero.\<close>

definition ref_of :: "(UUID \<rightharpoonup> uint32) \<Rightarrow> UUID \<Rightarrow> uint32" where
  "ref_of m uid = (case m uid of None \<Rightarrow> 0 | Some r \<Rightarrow> r)"

text \<open>One round of the loop of \<open>Get\<close>: wait for another loader, hit, refuse, or start loading.\<close>

datatype 'h try_res = Wait | Hit 'h | Full | Load

definition get_try :: "UUID \<Rightarrow> 'h cacher \<Rightarrow> 'h try_res \<times> 'h cacher" where
  "get_try uid c =
     (if uid \<in> getting c then (Wait, c)
      else case cache c uid of
        Some h \<Rightarrow> (Hit h, c\<lparr>refs := (refs c)(uid \<mapsto> ref_of (refs c) uid + 1)\<rparr>)
      | None \<Rightarrow>
          if 0 < MaxHandles c \<and> count c = MaxHandles c then (Full, c)
          else (Load, c\<lparr>getting := insert uid (getting c), count := count c + 1\<rparr>))"

text \<open>The part of \<open>Get\<close> after \<open>options.Get\<close> has returned.\<close>

definition get_finish :: "UUID \<Rightarrow> 'h res \<Rightarrow> 'h cacher \<Rightarrow> 'h res \<times> 'h cacher" where
  "get_finish uid loaded c =
     (let c = c\<lparr>getting := getting c - {uid}\<rparr> in
      case loaded of
        Ok underlying \<Rightarrow> (Ok underlying, c\<lparr>cache := (cache c)(uid \<mapsto> underlying), refs := (refs c)(uid \<mapsto> 1)\<rparr>)
      | Err e \<Rightarrow> (Err e, c\<lparr>count := count c - 1\<rparr>)
      | Panic \<Rightarrow> (Panic, c))"

text \<open>\<open>Release\<close> returns the resource to pass to \<open>options.Release\<close>, if the last reference is gone.
  Releasing a nil resource panics in the callback's type assertion.\<close>

definition c_Release :: "UUID \<Rightarrow> 'h cacher \<Rightarrow> ('h option \<times> 'h cacher) res" where
  "c_Release uid c =
     (let c = c\<lparr>refs := (refs c)(uid \<mapsto> ref_of (refs c) uid - 1)\<rparr> in
      if ref_of (refs c) uid = 0 then
        (case cache c uid of
           None \<Rightarrow> Panic
         | Some underlying \<Rightarrow>
             Ok (Some underlying,
                 c\<lparr>refs := (refs c)(uid := None), cache := (cache c)(uid := None), count := count c - 1\<rparr>))
      else Ok (None, c))"

text \<open>\<open>Close\<close> hands every cached resource to \<open>options.Release\<close>; the counter keeps its value.\<close>

definition c_Close :: "'h cacher \<Rightarrow> 'h cacher" where
  "c_Close c = c\<lparr>cache := Map.empty, refs := (\<lambda>uid. if cache c uid = None then refs c uid else None)\<rparr>"

text \<open>\<open>Get\<close> for a caller that runs alone: no other goroutine is loading, so \<open>Wait\<close> does not occur
  (were it to occur, the caller would block).\<close>

definition c_Get :: "('s \<Rightarrow> 'h res) \<Rightarrow> UUID \<Rightarrow> 's \<Rightarrow> 'h cacher \<Rightarrow> 'h res \<times> 'h cacher" where
  "c_Get load uid s c =
     (case get_try uid c of
        (Wait, c) \<Rightarrow> (Panic, c)
      | (Hit h, c) \<Rightarrow> (Ok h, c)
      | (Full, c) \<Rightarrow> (Err ErrCacheFull, c)
      | (Load, c) \<Rightarrow> get_finish uid (load s) c)"

section \<open>Interleavings\<close>

text \<open>A system state: the cache, the handles handed out and not yet released (one occurrence per
  reference), and the uids being loaded, one per goroutine inside \<open>options.Get\<close>. A loader may
  succeed or fail. References stay below \<open>2\<^sup>3\<^sup>2\<close>.\<close>

inductive cacher_step ::
  "'h cacher \<times> UUID multiset \<times> UUID multiset \<Rightarrow> 'h cacher \<times> UUID multiset \<times> UUID multiset \<Rightarrow> bool" where
  hit: "get_try uid c = (Hit h, c') \<Longrightarrow> Suc (size held) < 2 ^ 32 \<Longrightarrow>
    cacher_step (c, held, loading) (c', add_mset uid held, loading)"
| wait: "get_try uid c = (Wait, c') \<Longrightarrow> cacher_step (c, held, loading) (c', held, loading)"
| full: "get_try uid c = (Full, c') \<Longrightarrow> cacher_step (c, held, loading) (c', held, loading)"
| load: "get_try uid c = (Load, c') \<Longrightarrow> Suc (unat (count c)) < 2 ^ 32 \<Longrightarrow>
    cacher_step (c, held, loading) (c', held, add_mset uid loading)"
| loaded: "uid \<in># loading \<Longrightarrow> get_finish uid (Ok h) c = (Ok h, c') \<Longrightarrow> Suc (size held) < 2 ^ 32 \<Longrightarrow>
    cacher_step (c, held, loading) (c', add_mset uid held, loading - {#uid#})"
| failed: "uid \<in># loading \<Longrightarrow> get_finish uid (Err e) c = (Err e, c') \<Longrightarrow>
    cacher_step (c, held, loading) (c', held, loading - {#uid#})"
| release: "uid \<in># held \<Longrightarrow> c_Release uid c = Ok (r, c') \<Longrightarrow>
    cacher_step (c, held, loading) (c', held - {#uid#}, loading)"

inductive cacher_reachable :: "uint32 \<Rightarrow> 'h cacher \<times> UUID multiset \<times> UUID multiset \<Rightarrow> bool" for m where
  start: "cacher_reachable m (NewCacher m, {#}, {#})"
| step: "cacher_reachable m s \<Longrightarrow> cacher_step s s' \<Longrightarrow> cacher_reachable m s'"

text \<open>The invariant: reference counts are exactly the outstanding handles, loading uids are exactly the
  busy markers and each is loaded once, nothing is both cached and loading, and the counter is the
  number of slots in use and respects the limit.\<close>

definition cacher_inv :: "'h cacher \<Rightarrow> UUID multiset \<Rightarrow> UUID multiset \<Rightarrow> bool" where
  "cacher_inv c held loading \<longleftrightarrow>
     size held < 2 ^ 32 \<and>
     (\<forall>uid. unat (ref_of (refs c) uid) = Multiset.count held uid) \<and>
     (\<forall>uid. cache c uid \<noteq> None \<longleftrightarrow> uid \<in># held) \<and>
     getting c = set_mset loading \<and> (\<forall>uid. Multiset.count loading uid \<le> 1) \<and>
     dom (cache c) \<inter> getting c = {} \<and>
     unat (count c) = card (dom (cache c)) + card (getting c) \<and>
     (0 < MaxHandles c \<longrightarrow> count c \<le> MaxHandles c)"

lemma ref_of_upd [simp]: "ref_of (m(uid \<mapsto> r)) u = (if u = uid then r else ref_of m u)"
  by (simp add: ref_of_def)

lemma ref_of_del [simp]: "ref_of (m(uid := None)) u = (if u = uid then 0 else ref_of m u)"
  by (simp add: ref_of_def)

lemma cacher_inv_finite: "cacher_inv c held loading \<Longrightarrow> finite (dom (cache c)) \<and> finite (getting c)"
proof -
  assume inv: "cacher_inv c held loading"
  then have "dom (cache c) = set_mset held" by (auto simp: cacher_inv_def)
  then show ?thesis using inv by (simp add: cacher_inv_def)
qed

lemma cacher_inv_New: "cacher_inv (NewCacher m) {#} {#}"
  by (simp add: cacher_inv_def NewCacher_def ref_of_def)

lemma unat_Suc32: "Suc (unat (r :: uint32)) < 2 ^ 32 \<Longrightarrow> unat (r + 1) = Suc (unat r)"
  by (simp add: unat_word_ariths)

lemma unat_pred32: "0 < unat (r :: uint32) \<Longrightarrow> unat (r - 1) = unat r - 1"
  using unat_sub_if_size by (metis One_nat_def Suc_leI unat_1 unat_sub word_le_nat_alt)

lemma inv_hit:
  assumes inv: "cacher_inv c held loading" and t: "get_try uid c = (Hit h, c')" and b: "Suc (size held) < 2 ^ 32"
  shows "cacher_inv c' (add_mset uid held) loading"
proof -
  from t have h: "cache c uid = Some h" and c': "c' = c\<lparr>refs := (refs c)(uid \<mapsto> ref_of (refs c) uid + 1)\<rparr>"
    by (auto simp: get_try_def split: if_splits option.splits)
  have "Multiset.count held uid \<le> size held" by (rule count_le_size)
  then have "unat (ref_of (refs c) uid + 1) = Suc (unat (ref_of (refs c) uid))"
    using inv b by (intro unat_Suc32) (auto simp: cacher_inv_def)
  with inv h b show ?thesis unfolding c' by (auto simp: cacher_inv_def)
qed

lemma inv_load:
  assumes inv: "cacher_inv c held loading" and t: "get_try uid c = (Load, c')" and b: "Suc (unat (count c)) < 2 ^ 32"
  shows "cacher_inv c' held (add_mset uid loading)"
proof -
  from t have g: "uid \<notin> getting c" "cache c uid = None" and m: "0 < MaxHandles c \<Longrightarrow> count c \<noteq> MaxHandles c"
    and c': "c' = c\<lparr>getting := insert uid (getting c), count := count c + 1\<rparr>"
    by (auto simp: get_try_def split: if_splits option.splits)
  have "Multiset.count loading uid = 0" using inv g(1) by (simp add: cacher_inv_def not_in_iff)
  moreover have "count c + 1 \<le> MaxHandles c" if "0 < MaxHandles c"
  proof -
    have "unat (count c) \<noteq> unat (MaxHandles c)" using m [OF that] by (simp add: word_unat_eq_iff)
    moreover have "unat (count c) \<le> unat (MaxHandles c)"
      using inv that unfolding cacher_inv_def word_le_nat_alt by blast
    ultimately show ?thesis by (simp add: word_le_nat_alt unat_Suc32 [OF b])
  qed
  ultimately show ?thesis
    using inv g cacher_inv_finite [OF inv] unat_Suc32 [OF b] unfolding c' by (auto simp: cacher_inv_def)
qed

lemma set_mset_remove1:
  assumes "Multiset.count M x = 1"
  shows "set_mset (M - {#x#}) = set_mset M - {x}"
proof -
  from assms have "x \<in># M" by (simp flip: count_greater_zero_iff)
  then obtain N where N: "M = add_mset x N" by (metis multi_member_split)
  with assms have "x \<notin># N" by (simp add: not_in_iff)
  with N show ?thesis by simp
qed

lemma loading_count:
  assumes inv: "cacher_inv c held loading" and u: "uid \<in># loading"
  shows "Multiset.count loading uid = 1"
proof -
  have "Multiset.count loading uid \<le> 1" using inv by (simp add: cacher_inv_def)
  moreover have "0 < Multiset.count loading uid" using u by simp
  ultimately show ?thesis by linarith
qed

lemma inv_loaded:
  assumes inv: "cacher_inv c held loading" and u: "uid \<in># loading" and b: "Suc (size held) < 2 ^ 32"
    and t: "get_finish uid (Ok h) c = (Ok h, c')"
  shows "cacher_inv c' (add_mset uid held) (loading - {#uid#})"
proof -
  from t have c': "c' = c\<lparr>getting := getting c - {uid}, cache := (cache c)(uid \<mapsto> h), refs := (refs c)(uid \<mapsto> 1)\<rparr>"
    by (simp add: get_finish_def)
  have g: "uid \<in> getting c" "uid \<notin> dom (cache c)" using inv u by (auto simp: cacher_inv_def)
  then have h: "uid \<notin># held" using inv by (auto simp: cacher_inv_def)
  from inv u have "Multiset.count loading uid = 1" by (rule loading_count)
  then have "set_mset (loading - {#uid#}) = set_mset loading - {uid}" by (rule set_mset_remove1)
  moreover have "card (getting c) = Suc (card (getting c - {uid}))"
    using g cacher_inv_finite [OF inv] by (metis card_Suc_Diff1)
  ultimately show ?thesis
    using inv g h b cacher_inv_finite [OF inv] unfolding c' by (auto simp: cacher_inv_def not_in_iff)
qed

lemma inv_failed:
  assumes inv: "cacher_inv c held loading" and u: "uid \<in># loading"
    and t: "get_finish uid (Err e) c = (Err e, c')"
  shows "cacher_inv c' held (loading - {#uid#})"
proof -
  from t have c': "c' = c\<lparr>getting := getting c - {uid}, count := count c - 1\<rparr>"
    by (simp add: get_finish_def)
  have g: "uid \<in> getting c" using inv u by (auto simp: cacher_inv_def)
  have s: "set_mset (loading - {#uid#}) = set_mset loading - {uid}"
    by (rule set_mset_remove1 [OF loading_count [OF inv u]])
  have cd: "card (getting c) = Suc (card (getting c - {uid}))"
    using g cacher_inv_finite [OF inv] by (metis card_Suc_Diff1)
  then have k: "0 < unat (count c)" using inv by (simp add: cacher_inv_def)
  then have "count c - 1 \<le> MaxHandles c" if "count c \<le> MaxHandles c"
    using that by (simp add: word_le_nat_alt unat_pred32)
  with k cd s inv show ?thesis unfolding c' by (auto simp: cacher_inv_def unat_pred32)
qed

lemma inv_release:
  assumes inv: "cacher_inv c held loading" and u: "uid \<in># held"
    and t: "c_Release uid c = Ok (r, c')"
  shows "cacher_inv c' (held - {#uid#}) loading"
    and "r \<noteq> None \<longleftrightarrow> Multiset.count held uid = 1"
proof -
  obtain N where N: "held = add_mset uid N" using u by (metis multi_member_split)
  have r1: "unat (ref_of (refs c) uid) = Suc (Multiset.count N uid)" using inv N by (simp add: cacher_inv_def)
  then have r0: "unat (ref_of (refs c) uid - 1) = Multiset.count N uid" by (simp add: unat_pred32)
  then have z: "ref_of (refs c) uid - 1 = 0 \<longleftrightarrow> uid \<notin># N"
    by (metis not_in_iff unat_eq_zero)
  obtain h where h: "cache c uid = Some h" using inv u unfolding cacher_inv_def by blast
  have d: "finite (dom (cache c))" "uid \<in> dom (cache c)" using cacher_inv_finite [OF inv] h by auto
  have cd: "card (dom (cache c)) = Suc (card (dom (cache c) - {uid}))" using d by (metis card_Suc_Diff1)
  then have k: "0 < unat (count c)" using inv by (simp add: cacher_inv_def)
  then have m: "count c - 1 \<le> MaxHandles c" if "count c \<le> MaxHandles c"
    using that by (simp add: word_le_nat_alt unat_pred32)
  have "cacher_inv c' N loading \<and> (r \<noteq> None \<longleftrightarrow> uid \<notin># N)"
  proof (cases "uid \<in># N")
    case True
    with t z have "r = None \<and> c' = c\<lparr>refs := (refs c)(uid \<mapsto> ref_of (refs c) uid - 1)\<rparr>"
      by (auto simp: c_Release_def)
    with inv r0 N True show ?thesis by (auto simp: cacher_inv_def)
  next
    case False
    with t z h have "r = Some h \<and> c' = c\<lparr>refs := (refs c)(uid := None), cache := (cache c)(uid := None), count := count c - 1\<rparr>"
      by (auto simp: c_Release_def)
    with inv N False k cd m show ?thesis by (auto simp: cacher_inv_def unat_pred32 not_in_iff)
  qed
  then show "cacher_inv c' (held - {#uid#}) loading" and "r \<noteq> None \<longleftrightarrow> Multiset.count held uid = 1"
    using N by (auto simp: not_in_iff)
qed

lemma cacher_inv_step:
  assumes "cacher_step (c, held, loading) (c', held', loading')" and "cacher_inv c held loading"
  shows "cacher_inv c' held' loading'"
  using assms(1)
proof cases
  case wait then show ?thesis using assms(2) by (auto simp: get_try_def split: if_splits option.splits)
next
  case full then show ?thesis using assms(2) by (auto simp: get_try_def split: if_splits option.splits)
next
  case hit then show ?thesis using inv_hit [OF assms(2)] by simp
next
  case load then show ?thesis using inv_load [OF assms(2)] by simp
next
  case loaded then show ?thesis using inv_loaded [OF assms(2)] by simp
next
  case failed then show ?thesis using inv_failed [OF assms(2)] by simp
next
  case release then show ?thesis using inv_release(1) [OF assms(2)] by simp
qed

lemma cacher_reachable_inv:
  "cacher_reachable m s \<Longrightarrow> (case s of (c, held, loading) \<Rightarrow> cacher_inv c held loading \<and> MaxHandles c = m)"
proof (induction rule: cacher_reachable.induct)
  case start show ?case by (simp add: cacher_inv_New) (simp add: NewCacher_def)
next
  case (step s s')
  obtain c held loading c' held' loading' where s: "s = (c, held, loading)" "s' = (c', held', loading')"
    by (metis prod.collapse)
  have "MaxHandles c' = MaxHandles c"
    using step.hyps(2) unfolding s
    by cases (auto simp: get_try_def get_finish_def c_Release_def Let_def split: if_splits option.splits)
  then show ?case using cacher_inv_step step.hyps(2) step.IH s by auto
qed

section \<open>Properties\<close>

text \<open>C19. In every interleaving of any number of goroutines, each reference count is exactly the number of
  handles handed out and not yet released, a resource is cached exactly while a handle is
  outstanding, no resource is loaded by two goroutines at once or while it is cached, and the cached and
  loading resources together never exceed a non-zero limit.\<close>

theorem cacher_interleavings:
  assumes "cacher_reachable m (c, held, loading)"
  shows "unat (ref_of (refs c) uid) = Multiset.count held uid \<and>
         (cache c uid \<noteq> None \<longleftrightarrow> uid \<in># held) \<and>
         Multiset.count loading uid \<le> 1 \<and>
         (uid \<in># loading \<longrightarrow> cache c uid = None) \<and>
         (0 < m \<longrightarrow> card (dom (cache c)) + size loading \<le> unat m)"
proof -
  from cacher_reachable_inv [OF assms] have inv: "cacher_inv c held loading" and m: "MaxHandles c = m" by simp_all
  have 1: "unat (ref_of (refs c) uid) = Multiset.count held uid" "cache c uid \<noteq> None \<longleftrightarrow> uid \<in># held"
    "Multiset.count loading uid \<le> 1" using inv unfolding cacher_inv_def by blast+
  have 2: "uid \<in># loading \<longrightarrow> cache c uid = None" using inv by (auto simp: cacher_inv_def)
  have "size loading = card (getting c)"
    using loading_count [OF inv] inv by (simp add: size_multiset_overloaded_eq cacher_inv_def)
  then have "card (dom (cache c)) + size loading \<le> unat m" if "0 < m"
    using inv that m by (auto simp: cacher_inv_def word_le_nat_alt)
  with 1 2 show ?thesis by blast
qed

lemma cacher_load_example:
  "cacher_reachable 1 ((NewCacher 1)\<lparr>getting := {5}, count := 1\<rparr> :: nat cacher, {#}, {#5#})"
proof (rule cacher_reachable.step [OF cacher_reachable.start])
  have "get_try 5 (NewCacher 1 :: nat cacher) = (Load, (NewCacher 1)\<lparr>getting := {5}, count := 1\<rparr>)"
    by (simp add: get_try_def NewCacher_def)
  then show "cacher_step (NewCacher 1 :: nat cacher, {#}, {#}) ((NewCacher 1)\<lparr>getting := {5}, count := 1\<rparr>, {#}, {#5#})"
    by (rule cacher_step.load) (simp add: NewCacher_def)
qed

lemma cacher_loaded_example:
  "cacher_reachable 1
     (\<lparr>cache = [5 \<mapsto> 7], refs = [5 \<mapsto> 1], getting = {}, count = 1, MaxHandles = 1\<rparr> :: nat cacher, {#5#}, {#})"
proof (rule cacher_reachable.step [OF cacher_load_example])
  have "get_finish 5 (Ok 7) ((NewCacher 1)\<lparr>getting := {5}, count := 1\<rparr> :: nat cacher) =
      (Ok 7, \<lparr>cache = [5 \<mapsto> 7], refs = [5 \<mapsto> 1], getting = {}, count = 1, MaxHandles = 1\<rparr>)"
    by (simp add: get_finish_def NewCacher_def)
  from cacher_step.loaded [OF _ this, of "{#5#}" "{#}"]
  show "cacher_step ((NewCacher 1)\<lparr>getting := {5}, count := 1\<rparr> :: nat cacher, {#}, {#5#})
     (\<lparr>cache = [5 \<mapsto> 7], refs = [5 \<mapsto> 1], getting = {}, count = 1, MaxHandles = 1\<rparr>, {#5#}, {#})"
    by simp
qed

theorem cacher_interleavings_witness:
  "card (dom (cache (\<lparr>cache = [5 \<mapsto> 7], refs = [5 \<mapsto> 1], getting = {}, count = 1, MaxHandles = 1\<rparr> :: nat cacher)))
     + size ({#} :: UUID multiset) \<le> unat (1 :: uint32)"
  using cacher_interleavings [OF cacher_loaded_example] by simp

text \<open>In every interleaving, releasing a handle that is outstanding succeeds, and the resource is handed to the
  release callback exactly when that handle was the last one; the resource is then gone from the cache.\<close>

lemma cacher_release_last:
  assumes "cacher_reachable m (c, held, loading)" and "uid \<in># held"
  shows "\<exists>r c'. c_Release uid c = Ok (r, c') \<and>
           (if Multiset.count held uid = 1 then r = cache c uid \<and> r \<noteq> None \<and> cache c' uid = None
            else r = None \<and> cache c' = cache c)"
proof -
  from cacher_reachable_inv [OF assms(1)] have inv: "cacher_inv c held loading" by simp
  obtain h where h: "cache c uid = Some h" using inv assms(2) unfolding cacher_inv_def by blast
  then obtain r c' where t: "c_Release uid c = Ok (r, c')" by (cases "ref_of (refs c) uid = 1") (auto simp: c_Release_def)
  have "r \<noteq> None \<longleftrightarrow> Multiset.count held uid = 1" by (rule inv_release(2) [OF inv assms(2) t])
  moreover have "if r = None then cache c' = cache c else r = cache c uid \<and> cache c' uid = None"
    using t h by (auto simp: c_Release_def Let_def split: if_splits)
  ultimately show ?thesis using t by (auto split: if_splits)
qed

end
