(* ===== verification/Pindex.thy ===== *)
theory Pindex
  imports Utils
begin

text \<open>
  The free-space index (\<^verbatim>\<open>dm/pindex/pindex.go\<close>): 41 FIFO lists of pages, bucketed by free space in
  steps of \<open>PAGE_SIZE / 40 = 204\<close> bytes. \<open>Select\<close> takes a page out of the first non-empty bucket above
  the requested size. Free space is a signed \<open>int\<close>; Go division truncates towards zero.
\<close>

section \<open>Model\<close>

definition PAGE_SIZE :: nat where "PAGE_SIZE = 2 ^ 13"
definition NO_INTERVAL :: nat where "NO_INTERVAL = 40"
definition THRESHOLD :: nat where "THRESHOLD = PAGE_SIZE div NO_INTERVAL"

definition go_quot :: "int \<Rightarrow> int \<Rightarrow> int" where
  "go_quot a b = sgn a * sgn b * (\<bar>a\<bar> div \<bar>b\<bar>)"

type_synonym pindex = "(Pgno \<times> int) list list"

definition NewPindex :: pindex where
  "NewPindex = replicate (NO_INTERVAL + 1) []"

definition pi_Add :: "Pgno \<Rightarrow> int \<Rightarrow> pindex \<Rightarrow> pindex res" where
  "pi_Add pgno freeSpace pi =
     (let no = go_quot freeSpace (int THRESHOLD) in
      if no < 0 \<or> int (length pi) \<le> no then Panic
      else Ok (pi[nat no := pi ! nat no @ [(pgno, freeSpace)]]))"

text \<open>The loop of \<open>Select\<close> from bucket \<open>no\<close> upwards.\<close>

function select_from :: "nat \<Rightarrow> pindex \<Rightarrow> (Pgno \<times> int) option \<times> pindex" where
  "select_from no pi =
     (if no \<le> NO_INTERVAL then
        (case pi ! no of [] \<Rightarrow> select_from (no + 1) pi
         | p # ps \<Rightarrow> (Some p, pi[no := ps]))
      else (None, pi))"
  by pat_completeness auto
termination
  by (relation "measure (\<lambda>(no, _). Suc NO_INTERVAL - no)") auto

definition pi_Select :: "nat \<Rightarrow> pindex \<Rightarrow> (Pgno \<times> int) option \<times> pindex" where
  "pi_Select spaceSize pi =
     (let no = spaceSize div THRESHOLD; no = (if no < NO_INTERVAL then no + 1 else no)
      in select_from no pi)"

declare select_from.simps [simp del]

lemmas pi_defs = PAGE_SIZE_def NO_INTERVAL_def THRESHOLD_def

section \<open>Invariant\<close>

text \<open>Every page sits in the bucket of the free space recorded for it.\<close>

definition pi_inv :: "pindex \<Rightarrow> bool" where
  "pi_inv pi \<longleftrightarrow> length pi = NO_INTERVAL + 1 \<and>
     (\<forall>k < length pi. \<forall>(pgno, fs) \<in> set (pi ! k). int k = go_quot fs (int THRESHOLD))"

definition pi_pages :: "pindex \<Rightarrow> (Pgno \<times> int) multiset" where
  "pi_pages pi = mset (concat pi)"

lemma pi_inv_New: "pi_inv NewPindex" "pi_pages NewPindex = {#}"
  by (auto simp: pi_inv_def NewPindex_def pi_pages_def concat_eq_Nil_conv nth_replicate simp del: replicate.simps)

lemma mset_concat_update:
  "k < length xss \<Longrightarrow> mset (concat (xss[k := ys])) + mset (xss ! k) = mset (concat xss) + mset ys"
proof -
  assume k: "k < length xss"
  have "concat (xss[k := ys]) = concat (take k xss) @ ys @ concat (drop (Suc k) xss)"
    using k by (simp add: upd_conv_take_nth_drop)
  moreover have "concat xss = concat (take k xss) @ (xss ! k) @ concat (drop (Suc k) xss)"
    using k by (metis concat.simps(2) concat_append id_take_nth_drop)
  ultimately show ?thesis by simp
qed

lemma pi_Add_inv:
  assumes "pi_inv pi" and "0 \<le> fs" and "fs \<le> int PAGE_SIZE"
  shows "\<exists>pi'. pi_Add pgno fs pi = Ok pi' \<and> pi_inv pi' \<and> pi_pages pi' = add_mset (pgno, fs) (pi_pages pi)"
proof -
  let ?k = "nat (go_quot fs 204)"
  have q: "go_quot fs 204 = fs div 204" using assms(2) by (cases "fs = 0") (auto simp: go_quot_def)
  then have k: "0 \<le> go_quot fs 204" "?k < length pi"
    using assms by (auto simp: pi_inv_def pi_defs)
  let ?pi' = "pi[?k := pi ! ?k @ [(pgno, fs)]]"
  have a: "pi_Add pgno fs pi = Ok ?pi'"
    using k by (auto simp: pi_Add_def pi_defs Let_def)
  have "pi_inv ?pi'"
    using assms(1) k by (auto simp: pi_inv_def nth_list_update pi_defs split: prod.splits)
  moreover have "pi_pages ?pi' = add_mset (pgno, fs) (pi_pages pi)"
    using mset_concat_update [OF k(2), of "pi ! ?k @ [(pgno, fs)]"] by (simp add: pi_pages_def)
  ultimately show ?thesis using a by blast
qed

lemma select_from_Some:
  assumes "select_from no pi = (Some p, pi')" and "length pi = NO_INTERVAL + 1"
  shows "\<exists>k \<ge> no. k < length pi \<and> (\<exists>ps. pi ! k = p # ps \<and> pi' = pi[k := ps])"
  using assms
proof (induction no pi rule: select_from.induct)
  case (1 no pi)
  show ?case
  proof (cases "no \<le> NO_INTERVAL")
    case True
    show ?thesis
    proof (cases "pi ! no")
      case Nil
      with 1 True show ?thesis by (subst (asm) select_from.simps) (auto dest: Suc_leD)
    next
      case (Cons q ps)
      with 1 True show ?thesis by (subst (asm) (2) select_from.simps) auto
    qed
  next
    case False
    with 1 show ?thesis by (subst (asm) (2) select_from.simps) simp
  qed
qed

lemma select_from_None:
  assumes "select_from no pi = (None, pi')"
  shows "pi' = pi \<and> (\<forall>k. no \<le> k \<and> k \<le> NO_INTERVAL \<longrightarrow> pi ! k = [])"
  using assms
proof (induction no pi rule: select_from.induct)
  case (1 no pi)
  show ?case
  proof (cases "no \<le> NO_INTERVAL \<and> pi ! no = []")
    case True
    with 1 have "pi' = pi \<and> (\<forall>k. no + 1 \<le> k \<and> k \<le> NO_INTERVAL \<longrightarrow> pi ! k = [])"
      by (subst (asm) (2) select_from.simps) auto
    with True show ?thesis by (metis Suc_eq_plus1 le_eq_less_or_eq less_eq_Suc_le)
  next
    case False
    with 1(2) show ?thesis by (subst (asm) select_from.simps) (auto split: if_splits list.splits)
  qed
qed

lemma select_from_first:
  assumes "no \<le> m" and "m \<le> NO_INTERVAL" and "\<forall>k. no \<le> k \<and> k < m \<longrightarrow> pi ! k = []" and "pi ! m = p # ps"
  shows "select_from no pi = (Some p, pi[m := ps])"
  using assms
proof (induction "m - no" arbitrary: no)
  case 0
  then show ?case by (subst select_from.simps) auto
next
  case (Suc d)
  then have "select_from (no + 1) pi = (Some p, pi[m := ps])" by auto
  moreover have "pi ! no = []" "no \<le> NO_INTERVAL" using Suc.hyps(2) Suc.prems by auto
  ultimately show ?case by (subst select_from.simps) simp
qed

lemma pi_Select_sound:
  assumes "pi_inv pi" and "pi_Select n pi = (Some (pgno, fs), pi')"
  shows "pi_inv pi' \<and> pi_pages pi = add_mset (pgno, fs) (pi_pages pi') \<and>
    (n < NO_INTERVAL * THRESHOLD \<longrightarrow> int n < fs)"
proof -
  let ?no = "if n div THRESHOLD < NO_INTERVAL then n div THRESHOLD + 1 else n div THRESHOLD"
  have "select_from ?no pi = (Some (pgno, fs), pi')"
    using assms(2) by (simp add: pi_Select_def Let_def)
  with assms(1) obtain k ps where k: "?no \<le> k" "k < length pi" "pi ! k = (pgno, fs) # ps" "pi' = pi[k := ps]"
    using select_from_Some [of ?no pi "(pgno, fs)" pi'] by (auto simp: pi_inv_def)
  have fs: "int k = go_quot fs 204"
    using assms(1) k(2,3) by (auto simp: pi_inv_def pi_defs)
  have "pi_inv pi'"
    using assms(1) k by (auto simp: pi_inv_def nth_list_update split: prod.splits)
  moreover have "pi_pages pi = add_mset (pgno, fs) (pi_pages pi')"
    using mset_concat_update [OF k(2), of ps] k by (simp add: pi_pages_def)
  moreover have "int n < fs" if "n < NO_INTERVAL * THRESHOLD"
  proof -
    from that have "n div 204 < 40" by (simp add: pi_defs less_mult_imp_div_less mult.commute)
    with k(1) have "n div 204 + 1 \<le> k" by (simp add: pi_defs)
    moreover from this fs have "0 < fs" by (auto simp: go_quot_def sgn_if split: if_splits)
    then have "int k = fs div 204" using fs by (simp add: go_quot_def)
    ultimately show ?thesis by linarith
  qed
  ultimately show ?thesis by blast
qed

lemma pi_Select_complete:
  assumes "pi_inv pi" and "(pgno, int PAGE_SIZE - 2) \<in># pi_pages pi" and "n \<le> PAGE_SIZE - 2"
  shows "\<exists>p pi'. pi_Select n pi = (Some p, pi')"
proof (rule ccontr)
  assume "\<nexists>p pi'. pi_Select n pi = (Some p, pi')"
  then obtain pi' where "pi_Select n pi = (None, pi')"
    by (metis not_None_eq prod.exhaust)
  then have "select_from (if n div 204 < 40 then n div 204 + 1 else n div 204) pi = (None, pi')"
    by (simp add: pi_Select_def Let_def pi_defs)
  from select_from_None [OF this] assms(3) have "pi ! 40 = []"
    by (auto simp: pi_defs split: if_splits)
  moreover from assms(2) obtain k where "k < length pi" "(pgno, 8190) \<in> set (pi ! k)"
    using in_set_conv_nth [of _ pi] by (fastforce simp: pi_pages_def pi_defs)
  moreover from this assms(1) have "int k = go_quot 8190 204"
    by (auto simp: pi_inv_def pi_defs)
  ultimately show False by (simp add: go_quot_def)
qed

lemma pi_Select_None: "pi_Select n pi = (None, pi') \<Longrightarrow> pi' = pi"
  using select_from_None by (auto simp: pi_Select_def Let_def)

section \<open>The interface the data manager uses\<close>

text \<open>An index of pages by free space: adding records a page, selecting takes out a recorded page that is
  large enough, and a fresh page is always found.\<close>

locale free_index =
  fixes inv :: "'i \<Rightarrow> bool"
    and pages :: "'i \<Rightarrow> (Pgno \<times> int) multiset"
    and add :: "Pgno \<Rightarrow> int \<Rightarrow> 'i \<Rightarrow> 'i res"
    and select :: "nat \<Rightarrow> 'i \<Rightarrow> (Pgno \<times> int) option \<times> 'i"
  assumes add_ok: "inv s \<Longrightarrow> 0 \<le> fs \<Longrightarrow> fs \<le> int PAGE_SIZE \<Longrightarrow>
      \<exists>s'. add pgno fs s = Ok s' \<and> inv s' \<and> pages s' = add_mset (pgno, fs) (pages s)"
    and select_some: "inv s \<Longrightarrow> select n s = (Some (pgno, fs), s') \<Longrightarrow>
      inv s' \<and> pages s = add_mset (pgno, fs) (pages s') \<and> (n < NO_INTERVAL * THRESHOLD \<longrightarrow> int n < fs)"
    and select_none: "select n s = (None, s') \<Longrightarrow> s' = s"
    and select_found: "inv s \<Longrightarrow> (pgno, int PAGE_SIZE - 2) \<in># pages s \<Longrightarrow> n \<le> PAGE_SIZE - 2 \<Longrightarrow>
      \<exists>p s'. select n s = (Some p, s')"
begin

text \<open>Right after a fresh page has been added, selection succeeds.\<close>

lemma add_then_select:
  assumes "inv s" and "n \<le> PAGE_SIZE - 2"
  obtains s' k fs s'' where "add pgno (int PAGE_SIZE - 2) s = Ok s'" "inv s'"
    "pages s' = add_mset (pgno, int PAGE_SIZE - 2) (pages s)" "select n s' = (Some (k, fs), s'')"
proof -
  have b: "(0 :: int) \<le> int PAGE_SIZE - 2" "int PAGE_SIZE - 2 \<le> int PAGE_SIZE" by (simp_all add: PAGE_SIZE_def)
  obtain s' where s': "add pgno (int PAGE_SIZE - 2) s = Ok s'" "inv s'"
    "pages s' = add_mset (pgno, int PAGE_SIZE - 2) (pages s)" using add_ok [OF assms(1) b] by blast
  have "(pgno, int PAGE_SIZE - 2) \<in># pages s'" by (simp add: s'(3))
  then obtain p s'' where p: "select n s' = (Some p, s'')" using select_found [OF s'(2) _ assms(2)] by blast
  obtain k fs where "p = (k, fs)" by force
  then show thesis using that [OF s', of k fs s''] p by simp
qed

end

interpretation pidx: free_index pi_inv pi_pages pi_Add pi_Select
  by unfold_locales (use pi_Add_inv pi_Select_sound pi_Select_None pi_Select_complete in blast)+

section \<open>Properties\<close>

text \<open>\<open>Select\<close> takes out exactly one page of the index, and for requests below bucket 40 (less
  than 8160 bytes) the page it returns has more free space than requested.\<close>

lemma pindex_select_sound:
  assumes "pi_inv pi" and "pi_Select n pi = (Some (pgno, fs), pi')"
  shows "pi_inv pi' \<and> pi_pages pi = add_mset (pgno, fs) (pi_pages pi') \<and>
    (n < NO_INTERVAL * THRESHOLD \<longrightarrow> int n < fs)"
  by (rule pidx.select_some [OF assms])

lemma pindex_example:
  "pi_Add 5 8170 NewPindex = Ok (NewPindex[40 := [(5, 8170)]])"
  "pi_Select 100 (NewPindex[40 := [(5, 8170)]]) = (Some (5, 8170), NewPindex)"
  "pi_Select 8185 (NewPindex[40 := [(5, 8170)]]) = (Some (5, 8170), NewPindex)"
proof -
  let ?pi = "NewPindex[40 := [(5, 8170)]]"
  have l: "length NewPindex = 41"
    by (simp add: NewPindex_def pi_defs)
  have z: "NewPindex ! k = []" if "k < 41" for k
    using that by (simp_all add: NewPindex_def pi_defs)
  have e: "?pi ! k = []" if "k < 40" for k
    using that z [of k] by simp
  have t: "?pi ! 40 = [(5, 8170)]" "?pi[40 := []] = NewPindex" "NewPindex ! 40 = []"
    using l z [of 40] list_update_id [of NewPindex 40] by simp_all
  have n: "go_quot 8170 204 = 40" "THRESHOLD = 204" "length NewPindex = 41"
    by (simp_all add: go_quot_def pi_defs NewPindex_def)
  show "pi_Add 5 8170 NewPindex = Ok ?pi"
    unfolding pi_Add_def Let_def n(2,3) of_nat_numeral n(1) using t(3) by simp
  show "pi_Select 100 ?pi = (Some (5, 8170), NewPindex)" "pi_Select 8185 ?pi = (Some (5, 8170), NewPindex)"
    using select_from_first [of 1 40 ?pi] select_from_first [of 40 40 ?pi] e t
    by (simp_all add: pi_Select_def pi_defs)
qed


text \<open>\<open>Select\<close> finds a page whenever the index holds one with the free space of a fresh page, for
  every request an insert can make (at most \<open>PAGE_SIZE - 2\<close> bytes); so the retry loop of the data
  manager's \<open>Insert\<close> succeeds right after it creates a page.\<close>

lemma pindex_select_complete:
  assumes "pi_inv pi" and "(pgno, int PAGE_SIZE - 2) \<in># pi_pages pi" and "n \<le> PAGE_SIZE - 2"
  shows "\<exists>p pi'. pi_Select n pi = (Some p, pi')"
  by (rule pidx.select_found [OF assms])

text \<open>In the top bucket the guarantee fails: a page with 8170 free bytes is returned for a
  request of 8185 bytes, which an insert then writes past the end of the page.\<close>

lemma pindex_select_overfull:
  "\<exists>pi pgno fs pi'. pi_Add 5 8170 NewPindex = Ok pi \<and>
     pi_Select 8185 pi = (Some (pgno, fs), pi') \<and> fs < 8185 \<and> 8185 \<le> PAGE_SIZE - 2"
  using pindex_example(1,3) by (auto simp: pi_defs)

end
