(* ===== verification/Page.thy ===== *)
theory Page
  imports Utils Pindex
begin

text \<open>
  Pages and what is stored in them: \<^verbatim>\<open>pcacher/page.go\<close> (the page), \<^verbatim>\<open>dm/pageX.go\<close> (a data page: a 2-byte
  free-space offset, then data items), \<^verbatim>\<open>dm/page1.go\<close> (the valid-check bytes of page 1) and
  \<^verbatim>\<open>dm/data_item.go\<close> (a data item: valid flag, 2-byte size, data). A \<open>dataitem\<close> shares its bytes with its page, so it is
  modelled as a window of the page. \<open>utils.RandBytes\<close> is a parameter of the page-1 operations.
\<close>

section \<open>Model\<close>

record page =
  pg_pgno :: Pgno
  pg_data :: bytes
  pg_dirty :: bool

definition pg_Dirty :: "page \<Rightarrow> page" where
  "pg_Dirty pg = pg\<lparr>pg_dirty := True\<rparr>"

subsection \<open>Data pages\<close>

definition PX_OF_FREE :: nat where "PX_OF_FREE = 0"
definition PX_OF_DATA :: nat where "PX_OF_DATA = 2"

definition pxRawUpdateFSO :: "bytes \<Rightarrow> Offset \<Rightarrow> bytes res" where
  "pxRawUpdateFSO raw offset =
     rbind (go_from raw PX_OF_FREE) (\<lambda>s. Ok (take PX_OF_FREE raw @ PutOffset s offset))"

definition pxRawFSO :: "bytes \<Rightarrow> Offset res" where
  "pxRawFSO raw = rbind (go_from raw PX_OF_FREE) ParseOffset"

definition PXInitRaw :: "bytes res" where
  "PXInitRaw = (let raw = replicate PAGE_SIZE 0 in pxRawUpdateFSO raw (of_nat PX_OF_DATA))"

definition PXMaxFreeSpace :: nat where
  "PXMaxFreeSpace = PAGE_SIZE - PX_OF_DATA"

definition PxFSO :: "page \<Rightarrow> Offset res" where
  "PxFSO pg = pxRawFSO (pg_data pg)"

definition PXInsert :: "page \<Rightarrow> bytes \<Rightarrow> (Offset \<times> page) res" where
  "PXInsert pg raw =
     (let pg = pg_Dirty pg in
      rbind (pxRawFSO (pg_data pg)) (\<lambda>offset.
      rbind (copy_at (pg_data pg) (unat offset) raw) (\<lambda>d.
      rbind (pxRawUpdateFSO d (offset + of_nat (length raw))) (\<lambda>d.
      Ok (offset, pg\<lparr>pg_data := d\<rparr>)))))"

definition PXFreeSpace :: "page \<Rightarrow> int res" where
  "PXFreeSpace pg = rbind (pxRawFSO (pg_data pg)) (\<lambda>fso. Ok (int PAGE_SIZE - int (unat fso)))"

definition PXRecoverUpdate :: "page \<Rightarrow> Offset \<Rightarrow> bytes \<Rightarrow> page res" where
  "PXRecoverUpdate pg offset raw =
     (let pg = pg_Dirty pg in
      rbind (copy_at (pg_data pg) (unat offset) raw) (\<lambda>d. Ok (pg\<lparr>pg_data := d\<rparr>)))"

definition PXRecoverInsert :: "page \<Rightarrow> Offset \<Rightarrow> bytes \<Rightarrow> page res" where
  "PXRecoverInsert pg offset raw =
     (let pg = pg_Dirty pg in
      rbind (copy_at (pg_data pg) (unat offset) raw) (\<lambda>d.
      let logFSO = offset + of_nat (length raw) in
      rbind (pxRawFSO d) (\<lambda>currentFSO.
      let currentFSO = (if unat currentFSO < PX_OF_DATA \<or> PAGE_SIZE < unat currentFSO
                        then logFSO else currentFSO) in
      if currentFSO < logFSO
      then rbind (pxRawUpdateFSO d logFSO) (\<lambda>d. Ok (pg\<lparr>pg_data := d\<rparr>))
      else Ok (pg\<lparr>pg_data := d\<rparr>))))"

subsection \<open>Page 1\<close>

definition P1_OF_VC :: nat where "P1_OF_VC = 100"
definition P1_LEN_VC :: nat where "P1_LEN_VC = 8"

text \<open>\<open>copy(raw[a:b], src)\<close>.\<close>

definition copy_slice :: "bytes \<Rightarrow> nat \<Rightarrow> nat \<Rightarrow> bytes \<Rightarrow> bytes res" where
  "copy_slice raw a b src = rbind (go_slice raw a b) (\<lambda>s. Ok (take a raw @ go_copy s src @ drop b raw))"

definition p1RawSetVCOpen :: "bytes \<Rightarrow> bytes \<Rightarrow> bytes res" where
  "p1RawSetVCOpen rnd raw = copy_slice raw P1_OF_VC (P1_OF_VC + P1_LEN_VC) rnd"

definition p1RawSetVCClose :: "bytes \<Rightarrow> bytes res" where
  "p1RawSetVCClose raw =
     rbind (go_slice raw P1_OF_VC (P1_OF_VC + P1_LEN_VC)) (\<lambda>vc.
     copy_slice raw (P1_OF_VC + P1_LEN_VC) (P1_OF_VC + P1_LEN_VC * 2) vc)"

definition p1RawCheckVC :: "bytes \<Rightarrow> bool res" where
  "p1RawCheckVC raw =
     rbind (go_slice raw P1_OF_VC (P1_OF_VC + P1_LEN_VC)) (\<lambda>a.
     rbind (go_slice raw (P1_OF_VC + P1_LEN_VC) (P1_OF_VC + P1_LEN_VC * 2)) (\<lambda>b. Ok (a = b)))"

definition P1InitRaw :: "bytes \<Rightarrow> bytes res" where
  "P1InitRaw rnd = p1RawSetVCOpen rnd (replicate PAGE_SIZE 0)"

definition P1SetVCOpen :: "bytes \<Rightarrow> page \<Rightarrow> page res" where
  "P1SetVCOpen rnd pg = (let pg = pg_Dirty pg in rbind (p1RawSetVCOpen rnd (pg_data pg)) (\<lambda>d. Ok (pg\<lparr>pg_data := d\<rparr>)))"

definition P1SetVCClose :: "page \<Rightarrow> page res" where
  "P1SetVCClose pg = (let pg = pg_Dirty pg in rbind (p1RawSetVCClose (pg_data pg)) (\<lambda>d. Ok (pg\<lparr>pg_data := d\<rparr>)))"

definition P1CheckVC :: "page \<Rightarrow> bool res" where
  "P1CheckVC pg = p1RawCheckVC (pg_data pg)"

subsection \<open>Data items\<close>

definition DI_OF_VALID_FLAG :: nat where "DI_OF_VALID_FLAG = 0"
definition DI_OF_DATA_SIZE :: nat where "DI_OF_DATA_SIZE = 1"
definition DI_OF_DATA :: nat where "DI_OF_DATA = 3"

record dataitem =
  di_off :: nat
  di_len :: nat
  di_oldraw :: bytes
  di_uid :: UUID
  di_pgno :: Pgno

definition WrapDataitemRaw :: "bytes \<Rightarrow> bytes" where
  "WrapDataitemRaw data =
     (let raw = replicate (DI_OF_DATA + length data) 0;
          raw = take DI_OF_DATA_SIZE raw @ PutUint16 (drop DI_OF_DATA_SIZE raw) (of_nat (length data))
      in take DI_OF_DATA raw @ go_copy (drop DI_OF_DATA raw) data)"

definition InValidRawDataitem :: "bytes \<Rightarrow> bytes res" where
  "InValidRawDataitem raw = set_at raw DI_OF_VALID_FLAG 1"

definition ParseDataitem :: "page \<Rightarrow> Offset \<Rightarrow> dataitem res" where
  "ParseDataitem pg offset =
     rbind (go_from (pg_data pg) (unat offset)) (\<lambda>raw.
     rbind (go_from raw DI_OF_DATA_SIZE) (\<lambda>sz.
     rbind (GetUint16 sz) (\<lambda>size.
     let l = DI_OF_DATA + unat size; l = (if length raw < l then length raw else l) in
     Ok \<lparr>di_off = unat offset, di_len = l, di_oldraw = replicate l 0,
         di_uid = Address2UUID (pg_pgno pg) offset, di_pgno = pg_pgno pg\<rparr>)))"

definition di_raw :: "dataitem \<Rightarrow> page \<Rightarrow> bytes" where
  "di_raw di pg = window (pg_data pg) (di_off di) (di_len di)"

definition di_IsValid :: "dataitem \<Rightarrow> page \<Rightarrow> bool res" where
  "di_IsValid di pg = rbind (go_index (di_raw di pg) DI_OF_VALID_FLAG) (\<lambda>b. Ok (b = 0))"

definition di_Data :: "dataitem \<Rightarrow> page \<Rightarrow> bytes res" where
  "di_Data di pg = go_from (di_raw di pg) DI_OF_DATA"

definition di_Before :: "dataitem \<Rightarrow> page \<Rightarrow> dataitem \<times> page" where
  "di_Before di pg = (di\<lparr>di_oldraw := go_copy (di_oldraw di) (di_raw di pg)\<rparr>, pg_Dirty pg)"

definition di_UnBefore :: "dataitem \<Rightarrow> page \<Rightarrow> page" where
  "di_UnBefore di pg =
     pg\<lparr>pg_data := overwrite (pg_data pg) (di_off di) (go_copy (di_raw di pg) (di_oldraw di))\<rparr>"

text \<open>Writing through the slice \<open>Data()\<close>: the bytes after the item header are replaced.\<close>

definition di_write :: "dataitem \<Rightarrow> bytes \<Rightarrow> page \<Rightarrow> page" where
  "di_write di data pg =
     pg\<lparr>pg_data := overwrite (pg_data pg) (di_off di + DI_OF_DATA) (take (di_len di - DI_OF_DATA) data)\<rparr>"

lemmas px_defs = PX_OF_FREE_def PX_OF_DATA_def
lemmas di_defs = DI_OF_VALID_FLAG_def DI_OF_DATA_SIZE_def DI_OF_DATA_def
lemmas p1_defs = P1_OF_VC_def P1_LEN_VC_def

section \<open>The free-space offset\<close>

definition fso :: "bytes \<Rightarrow> nat" where
  "fso d = be_val (window d 0 2)"

text \<open>A well-formed data page: full size, free-space offset behind the header and inside the page.\<close>

definition page_ok :: "bytes \<Rightarrow> bool" where
  "page_ok d \<longleftrightarrow> length d = PAGE_SIZE \<and> 2 \<le> fso d \<and> fso d \<le> PAGE_SIZE"

lemma fso_bound: "2 \<le> length d \<Longrightarrow> fso d < 2 ^ 16"
  using be_val_bound [of "window d 0 2"] by (simp add: fso_def)

lemma pxRawFSO_eq: "2 \<le> length d \<Longrightarrow> pxRawFSO d = Ok (of_nat (fso d))"
  by (simp add: pxRawFSO_def px_defs ParseOffset_def ParseUint16_def GetUint_window fso_def)

lemma unat_fso: "2 \<le> length d \<Longrightarrow> unat (of_nat (fso d) :: Offset) = fso d"
  using fso_bound [of d] by (simp add: unat_of_nat)

lemma pxRawUpdateFSO_eq: "2 \<le> length d \<Longrightarrow> pxRawUpdateFSO d v = Ok (overwrite d 0 (be_bytes 2 (unat v)))"
  by (simp add: pxRawUpdateFSO_def px_defs PutOffset_def PutUint16_def buf_write_def overwrite_def numeral_2_eq_2)

lemma fso_update: "2 \<le> length d \<Longrightarrow> fso (overwrite d 0 (be_bytes 2 n)) = n mod 2 ^ 16"
  using window_same [of 0 "be_bytes 2 n" d] by (simp add: fso_def be_val_be_bytes)

lemma fso_overwrite: "2 \<le> off \<Longrightarrow> off + length src \<le> length d \<Longrightarrow> fso (overwrite d off src) = fso d"
  by (simp add: fso_def window_disjoint)

lemma unat_add_of_nat16: "n + m < 2 ^ 16 \<Longrightarrow> unat (of_nat n + of_nat m :: Offset) = n + m"
  by (simp add: unat_of_nat flip: of_nat_add)

lemma page_ok_length: "page_ok d \<Longrightarrow> length d = 8192"
  by (simp add: page_ok_def PAGE_SIZE_def)

lemma page_ok_init: "\<exists>d. PXInitRaw = Ok d \<and> page_ok d \<and> fso d = 2"
  by (simp add: PXInitRaw_def pxRawUpdateFSO_eq PAGE_SIZE_def px_defs page_ok_def fso_update Let_def)

text \<open>An insert that fits is two overwrites.\<close>

definition px_put :: "bytes \<Rightarrow> bytes \<Rightarrow> bytes" where
  "px_put d raw = overwrite (overwrite d (fso d) raw) 0 (be_bytes 2 (fso d + length raw))"

lemma PXInsert_fits:
  assumes "page_ok (pg_data pg)" and "fso (pg_data pg) + length raw \<le> PAGE_SIZE"
  shows "PXInsert pg raw = Ok (of_nat (fso (pg_data pg)), pg\<lparr>pg_data := px_put (pg_data pg) raw, pg_dirty := True\<rparr>)"
proof -
  let ?d = "pg_data pg"
  have l: "length ?d = 8192" using assms(1) by (rule page_ok_length)
  have f: "fso ?d + length raw \<le> 8192" using assms(2) by (simp add: PAGE_SIZE_def)
  have "unat (of_nat (fso ?d) + of_nat (length raw) :: Offset) = fso ?d + length raw"
    using f by (intro unat_add_of_nat16) simp
  then show ?thesis
    using l f by (simp add: PXInsert_def pg_Dirty_def pxRawFSO_eq unat_fso copy_at_fits pxRawUpdateFSO_eq
        px_put_def Let_def)
qed


lemma px_put_facts:
  assumes "page_ok d" and "fso d + length raw \<le> PAGE_SIZE"
  shows "length (px_put d raw) = PAGE_SIZE" "fso (px_put d raw) = fso d + length raw" "page_ok (px_put d raw)"
    "window (px_put d raw) (fso d) (length raw) = raw"
    "2 \<le> a \<Longrightarrow> a + n \<le> fso d \<Longrightarrow> window (px_put d raw) a n = window d a n"
proof -
  let ?e = "overwrite d (fso d) raw"
  have l: "length d = 8192" "2 \<le> fso d" "fso d + length raw \<le> 8192"
    using assms by (simp_all add: page_ok_def PAGE_SIZE_def)
  then have e: "length ?e = 8192" by simp
  then show len: "length (px_put d raw) = PAGE_SIZE" by (simp add: px_put_def PAGE_SIZE_def)
  show f: "fso (px_put d raw) = fso d + length raw"
    using l e by (simp add: px_put_def fso_update)
  show "page_ok (px_put d raw)" using len f l by (simp add: page_ok_def PAGE_SIZE_def)
  have w: "window (px_put d raw) a n = window ?e a n" if "2 \<le> a" for a n
    using that e by (simp add: px_put_def window_disjoint)
  show "window (px_put d raw) (fso d) (length raw) = raw" using l by (simp add: w window_same)
  show "window (px_put d raw) a n = window d a n" if "2 \<le> a" "a + n \<le> fso d"
    using l that by (simp add: w window_disjoint)
qed

section \<open>Data items\<close>

lemma WrapDataitemRaw_eq: "WrapDataitemRaw data = 0 # be_bytes 2 (length data mod 2 ^ 16) @ data"
proof -
  let ?k = "be_bytes 2 (length data mod 2 ^ 16)" and ?n = "length data"
  have "take 1 (replicate (3 + ?n) 0) = [0 :: byte]" "drop 1 (replicate (3 + ?n) 0) = replicate (2 + ?n) (0 :: byte)"
    by (simp_all add: numeral_3_eq_3 numeral_2_eq_2)
  moreover have "PutUint16 (replicate (2 + ?n) 0) (of_nat ?n) = ?k @ replicate ?n 0"
    by (simp add: PutUint16_def buf_write_def unat_of_nat)
  moreover have "take 3 ([0] @ ?k @ replicate ?n 0) = 0 # ?k" "drop 3 ([0] @ ?k @ replicate ?n 0) = replicate ?n 0"
    by (simp_all add: numeral_3_eq_3)
  ultimately show ?thesis
    by (simp only: WrapDataitemRaw_def di_defs Let_def) (simp add: go_copy_def)
qed

lemma length_WrapDataitemRaw [simp]: "length (WrapDataitemRaw data) = 3 + length data"
  by (simp add: WrapDataitemRaw_eq)

lemma length_wrapped_small: "length data + 3 \<le> 8192 \<Longrightarrow> length data mod 2 ^ 16 = length data"
  by simp

text \<open>What a page stores at an offset: the item written there can be parsed back.\<close>

lemma ParseDataitem_stored:
  assumes "length (pg_data pg) = PAGE_SIZE" and "unat off + 3 + length data \<le> PAGE_SIZE"
    and "window (pg_data pg) (unat off) (3 + length data) = flag # be_bytes 2 (length data) @ data"
  obtains di where "ParseDataitem pg off = Ok di" "di_uid di = Address2UUID (pg_pgno pg) off"
    "di_IsValid di pg = Ok (flag = 0)" "di_Data di pg = Ok data"
    "di_off di = unat off" "di_len di = 3 + length data"
proof -
  let ?d = "pg_data pg" and ?o = "unat off" and ?n = "length data"
  let ?di = "\<lparr>di_off = ?o, di_len = 3 + ?n, di_oldraw = replicate (3 + ?n) 0,
     di_uid = Address2UUID (pg_pgno pg) off, di_pgno = pg_pgno pg\<rparr>"
  have l: "length ?d = 8192" "?o + 3 + ?n \<le> 8192" using assms by (simp_all add: PAGE_SIZE_def)
  have "window (drop (?o + 1) ?d) 0 2 = take 2 (drop 1 (window ?d ?o (3 + ?n)))"
    using l by (simp add: window_def drop_take min_def add.commute)
  also have "\<dots> = be_bytes 2 ?n" unfolding assms(3) by simp
  finally have "GetUint16 (drop (?o + 1) ?d) = Ok (of_nat (be_val (be_bytes 2 ?n)))"
    using l by (simp add: GetUint_window)
  then have sz: "GetUint16 (drop (?o + 1) ?d) = Ok (of_nat ?n)" and n: "unat (of_nat ?n :: uint16) = ?n"
    using l by (simp_all add: be_val_be_bytes unat_of_nat)
  have p: "ParseDataitem pg off = Ok ?di"
    using l n sz by (simp add: ParseDataitem_def di_defs Let_def add.commute)
  have "di_raw ?di pg = flag # be_bytes 2 ?n @ data" by (simp add: di_raw_def assms(3))
  then show thesis
    using that [OF p] by (simp add: di_IsValid_def di_Data_def di_defs numeral_3_eq_3)
qed

section \<open>Redo of an insert\<close>

text \<open>What \<open>PXRecoverInsert\<close> does to the bytes of a page when the item fits.\<close>

definition rec_ins :: "bytes \<Rightarrow> nat \<Rightarrow> bytes \<Rightarrow> bytes" where
  "rec_ins d off raw =
     (let e = overwrite d off raw in
      if 2 \<le> fso d \<and> fso d \<le> PAGE_SIZE \<and> fso d < off + length raw
      then overwrite e 0 (be_bytes 2 (off + length raw)) else e)"

lemma PXRecoverInsert_eq:
  assumes "length (pg_data pg) = PAGE_SIZE" and "2 \<le> unat off" and "unat off + length raw \<le> PAGE_SIZE"
  shows "PXRecoverInsert pg off raw = Ok (pg\<lparr>pg_dirty := True, pg_data := rec_ins (pg_data pg) (unat off) raw\<rparr>)"
proof -
  let ?d = "pg_data pg" and ?o = "unat off"
  let ?e = "overwrite ?d ?o raw" and ?m = "?o + length raw"
  have l: "length ?d = 8192" "?m \<le> 8192" using assms by (simp_all add: PAGE_SIZE_def)
  have e: "length ?e = 8192" "fso ?e = fso ?d" using l assms(2) by (simp_all add: fso_overwrite)
  have log: "unat (off + of_nat (length raw)) = ?m" using l unat_add_of_nat16 [of ?o "length raw"] by simp
  have lt: "(of_nat (fso ?d) < off + of_nat (length raw)) = (fso ?d < ?m)"
    using l by (simp add: word_less_nat_alt log unat_fso)
  show ?thesis
    using l e lt log by (auto simp: PXRecoverInsert_def pg_Dirty_def copy_at_fits pxRawFSO_eq unat_fso
        pxRawUpdateFSO_eq px_defs PAGE_SIZE_def rec_ins_def Let_def)
qed

lemma rec_ins_facts:
  assumes "length d = PAGE_SIZE" and "2 \<le> off" and "off + length raw \<le> PAGE_SIZE"
  shows "length (rec_ins d off raw) = PAGE_SIZE"
    and "fso (rec_ins d off raw) = (if 2 \<le> fso d \<and> fso d \<le> PAGE_SIZE then max (fso d) (off + length raw) else fso d)"
    and "2 \<le> a \<Longrightarrow> window (rec_ins d off raw) a n = window (overwrite d off raw) a n"
proof -
  let ?e = "overwrite d off raw"
  have l: "length d = 8192" "off + length raw \<le> 8192" using assms by (simp_all add: PAGE_SIZE_def)
  have e: "length ?e = 8192" "fso ?e = fso d" using l assms(2) by (simp_all add: fso_overwrite)
  show "length (rec_ins d off raw) = PAGE_SIZE" using e by (simp add: rec_ins_def Let_def PAGE_SIZE_def)
  show "fso (rec_ins d off raw) = (if 2 \<le> fso d \<and> fso d \<le> PAGE_SIZE then max (fso d) (off + length raw) else fso d)"
    using l e by (auto simp: rec_ins_def Let_def fso_update)
  show "2 \<le> a \<Longrightarrow> window (rec_ins d off raw) a n = window ?e a n"
    using e by (simp add: rec_ins_def Let_def window_disjoint)
qed

lemma PXRecoverUpdate_eq:
  assumes "unat off + length raw \<le> length (pg_data pg)"
  shows "PXRecoverUpdate pg off raw = Ok (pg\<lparr>pg_dirty := True, pg_data := overwrite (pg_data pg) (unat off) raw\<rparr>)"
  using assms by (simp add: PXRecoverUpdate_def pg_Dirty_def copy_at_fits Let_def)

section \<open>Properties\<close>

text \<open>Storing and finding a row: inserting a wrapped item into a data page that has room returns the
  old free-space offset; parsing the page at that offset gives a valid item with exactly the data
  inserted; the page stays well formed, its free-space offset moves by the item's length, and every
  item stored before is untouched.\<close>

lemma page_insert_parse:
  assumes "page_ok (pg_data pg)" and "fso (pg_data pg) + length (WrapDataitemRaw data) \<le> PAGE_SIZE"
  shows "\<exists>off pg' di. PXInsert pg (WrapDataitemRaw data) = Ok (off, pg') \<and>
    unat off = fso (pg_data pg) \<and> page_ok (pg_data pg') \<and> pg_dirty pg' \<and>
    fso (pg_data pg') = fso (pg_data pg) + 3 + length data \<and>
    ParseDataitem pg' off = Ok di \<and> di_IsValid di pg' = Ok True \<and> di_Data di pg' = Ok data \<and>
    di_uid di = Address2UUID (pg_pgno pg) off \<and>
    (\<forall>a n. 2 \<le> a \<and> a + n \<le> fso (pg_data pg) \<longrightarrow> window (pg_data pg') a n = window (pg_data pg) a n)"
proof -
  let ?d = "pg_data pg" and ?raw = "WrapDataitemRaw data"
  let ?pg' = "pg\<lparr>pg_data := px_put ?d ?raw, pg_dirty := True\<rparr>" and ?off = "of_nat (fso ?d) :: Offset"
  note f = px_put_facts [OF assms]
  have l: "length data + 3 \<le> 8192" using assms(2) by (simp add: PAGE_SIZE_def)
  have off: "unat ?off = fso ?d" using page_ok_length [OF assms(1)] by (simp add: unat_fso)
  have ins: "PXInsert pg ?raw = Ok (?off, ?pg')" by (rule PXInsert_fits [OF assms])
  have raw: "?raw = 0 # be_bytes 2 (length data) @ data" using l by (simp add: WrapDataitemRaw_eq)
  have st: "window (pg_data ?pg') (unat ?off) (3 + length data) = 0 # be_bytes 2 (length data) @ data"
    unfolding raw [symmetric] using f(4) by (simp add: off)
  obtain di where di: "ParseDataitem ?pg' ?off = Ok di" "di_uid di = Address2UUID (pg_pgno ?pg') ?off"
    "di_IsValid di ?pg' = Ok (0 = (0::byte))" "di_Data di ?pg' = Ok data"
    using ParseDataitem_stored [OF _ _ st] f(1) assms(2) off by auto
  with ins off f show ?thesis by (intro exI [of _ ?off] exI [of _ ?pg'] exI [of _ di]) simp
qed

lemma init_page: "\<exists>pg :: page. pg_pgno pg = 3 \<and> page_ok (pg_data pg) \<and> fso (pg_data pg) = 2"
  using page_ok_init by (metis page.select_convs(1,2))


text \<open>Redoing an insert repairs a page whose free-space offset is stale but in range: the data is
  back in place and the offset covers it, and it never moves backwards.\<close>

lemma recover_insert_in_range:
  assumes "page_ok (pg_data pg)" and "2 \<le> unat off" and "unat off + length raw \<le> PAGE_SIZE"
  shows "\<exists>pg'. PXRecoverInsert pg off raw = Ok pg' \<and> page_ok (pg_data pg') \<and>
    window (pg_data pg') (unat off) (length raw) = raw \<and>
    fso (pg_data pg') = max (fso (pg_data pg)) (unat off + length raw)"
proof -
  let ?d = "pg_data pg"
  have l: "length ?d = PAGE_SIZE" "2 \<le> fso ?d" "fso ?d \<le> PAGE_SIZE" using assms by (simp_all add: page_ok_def)
  note f = rec_ins_facts [OF l(1) assms(2,3)]
  have "window (rec_ins ?d (unat off) raw) (unat off) (length raw) = raw"
    using f(3) assms(2,3) l(1) by (simp add: window_same)
  then show ?thesis using l f assms(3) by (simp add: PXRecoverInsert_eq [OF l(1) assms(2,3)] page_ok_def)
qed

text \<open>A free-space offset corrupted beyond the page survives recovery: the range check replaces the
  garbage by the offset derived from the log only in a local variable, after which the comparison
  is never true, so the offset on the page is not rewritten.\<close>

lemma recover_insert_keeps_garbage:
  assumes "length (pg_data pg) = PAGE_SIZE" and "PAGE_SIZE < fso (pg_data pg)"
    and "2 \<le> unat off" and "unat off + length raw \<le> PAGE_SIZE"
  shows "\<exists>pg'. PXRecoverInsert pg off raw = Ok pg' \<and> fso (pg_data pg') = fso (pg_data pg)"
  using assms(2) by (simp add: PXRecoverInsert_eq [OF assms(1,3,4)] rec_ins_facts [OF assms(1,3,4)])

text \<open>The valid-check bytes of page 1 tell a clean shutdown from a crash: after \<open>Close\<close> the check
  succeeds; after \<open>Open\<close> it fails until the next \<open>Close\<close>, provided the fresh random bytes differ
  from those of the previous run.\<close>

lemma page1_valid_check:
  assumes "length (pg_data pg) = PAGE_SIZE" and "length rnd = P1_LEN_VC"
    and "rnd \<noteq> window (pg_data pg) (P1_OF_VC + P1_LEN_VC) P1_LEN_VC"
  shows "\<exists>opened closed. P1SetVCOpen rnd pg = Ok opened \<and> P1CheckVC opened = Ok False \<and>
    P1SetVCClose opened = Ok closed \<and> P1CheckVC closed = Ok True"
proof -
  let ?d = "pg_data pg"
  have l: "length ?d = 8192" "length rnd = 8" "rnd \<noteq> window ?d 108 8"
    using assms by (simp_all add: PAGE_SIZE_def p1_defs)
  let ?o = "overwrite ?d 100 rnd" and ?c = "overwrite (overwrite ?d 100 rnd) 108 rnd"
  have o: "P1SetVCOpen rnd pg = Ok (pg\<lparr>pg_dirty := True, pg_data := ?o\<rparr>)"
    using l by (simp add: P1SetVCOpen_def p1RawSetVCOpen_def copy_slice_def go_slice_in p1_defs pg_Dirty_def
        go_copy_fits overwrite_def Let_def)
  have lo: "length ?o = 8192" "window ?o 100 8 = rnd" "window ?o 108 8 = window ?d 108 8"
    using l window_same [of 100 rnd ?d] by (simp_all add: window_disjoint)
  then have c: "P1SetVCClose (pg\<lparr>pg_dirty := True, pg_data := ?o\<rparr>) = Ok (pg\<lparr>pg_dirty := True, pg_data := ?c\<rparr>)"
    using l by (simp add: P1SetVCClose_def p1RawSetVCClose_def copy_slice_def go_slice_in p1_defs pg_Dirty_def
        go_copy_fits Let_def) (simp add: overwrite_def)
  have lc: "length ?c = 8192" "window ?c 100 8 = rnd" "window ?c 108 8 = rnd"
    using l lo window_same [of 108 rnd ?o] by (simp_all add: window_disjoint)
  from o c lo lc l show ?thesis
    by (simp add: P1CheckVC_def p1RawCheckVC_def go_slice_in p1_defs)
qed

end
