(* ===== verification/Pcacher.thy ===== *)
theory Pcacher
  imports Cacher GoFile Page
begin

text \<open>
  The page cache (\<^verbatim>\<open>dm/pcacher/pcacher.go\<close>): a database file of 8 KB pages behind the reference-counting
  cache. A \<open>*page\<close> handed out by \<open>GetPage\<close> is shared by all its holders, so it is named by its page number and
  lives in the cache; a client that changes the page it holds stores it back with \<open>pc_set\<close>. Closing the file is
  taken to succeed; write, sync and truncate calls may fail as the file's outcome list says.
\<close>

section \<open>Model\<close>

definition MEM_LIM :: int where "MEM_LIM = 10"

record pcacher =
  pc_file :: os_file
  noPages :: uint32
  pc_c :: "page cacher"

definition pageOffset :: "Pgno \<Rightarrow> int" where
  "pageOffset pgno = uint (pgno - 1) * int PAGE_SIZE"

definition NewPage :: "Pgno \<Rightarrow> bytes \<Rightarrow> page" where
  "NewPage pgno data = \<lparr>pg_pgno = pgno, pg_data = data, pg_dirty = False\<rparr>"

definition newPcacher :: "os_file \<Rightarrow> int \<Rightarrow> pcacher res" where
  "newPcacher f mem =
     (if go_quot mem (int PAGE_SIZE) < MEM_LIM then Err ErrMemTooSmall
      else Ok \<lparr>pc_file = f, noPages = of_nat (fsize f div PAGE_SIZE),
               pc_c = NewCacher (word_of_int (go_quot mem (int PAGE_SIZE)))\<rparr>)"

text \<open>\<open>Create\<close> truncates the file, \<open>Open\<close> keeps it.\<close>

definition pc_Create :: "bool list \<Rightarrow> int \<Rightarrow> pcacher res" where
  "pc_Create faults mem = newPcacher (new_file faults) mem"

definition pc_Open :: "os_file \<Rightarrow> int \<Rightarrow> pcacher res" where
  "pc_Open f mem = newPcacher f mem"

definition pc_flush :: "page \<Rightarrow> pcacher \<Rightarrow> unit res \<times> pcacher" where
  "pc_flush pg p =
     (case sbind (WriteAt (pg_data pg) (pageOffset (pg_pgno pg)) (pc_file p)) (\<lambda>_ f. Sync f) of
        (r, f) \<Rightarrow> (r, p\<lparr>pc_file := f\<rparr>))"

text \<open>\<open>NewPage\<close> reserves the next page number and writes the page; a failed write is fatal.\<close>

definition pc_NewPage :: "bytes \<Rightarrow> pcacher \<Rightarrow> Pgno res \<times> pcacher" where
  "pc_NewPage initData p =
     (let pgno = noPages p + 1; p = p\<lparr>noPages := pgno\<rparr> in
      case pc_flush (NewPage pgno initData) p of
        (Ok _, p) \<Rightarrow> (Ok pgno, p)
      | (_, p) \<Rightarrow> (Panic, p))"

definition getForCacher :: "UUID \<Rightarrow> pcacher \<Rightarrow> page res" where
  "getForCacher uid p =
     (let pgno = UUID2Pgno uid in
      rbind (ReadAt PAGE_SIZE (pageOffset pgno) (pc_file p)) (\<lambda>buf. Ok (NewPage pgno buf)))"

definition GetPage :: "Pgno \<Rightarrow> pcacher \<Rightarrow> page res \<times> pcacher" where
  "GetPage pgno p =
     (let uid = Pgno2UUID pgno in
      case c_Get (getForCacher uid) uid p (pc_c p) of (r, c) \<Rightarrow> (r, p\<lparr>pc_c := c\<rparr>))"

definition pc_set :: "page \<Rightarrow> pcacher \<Rightarrow> pcacher" where
  "pc_set pg p = p\<lparr>pc_c := (pc_c p)\<lparr>cache := (cache (pc_c p))(Pgno2UUID (pg_pgno pg) \<mapsto> pg)\<rparr>\<rparr>"

text \<open>The release callback: a failed flush of a dirty page is dropped.\<close>

definition releaseForCacher :: "page \<Rightarrow> pcacher \<Rightarrow> pcacher" where
  "releaseForCacher pg p =
     (if pg_dirty pg then (case pc_flush pg p of (_, p) \<Rightarrow> p) else p)"

definition pc_release :: "Pgno \<Rightarrow> pcacher \<Rightarrow> unit res \<times> pcacher" where
  "pc_release pgno p =
     (case c_Release (Pgno2UUID pgno) (pc_c p) of
        Ok (None, c) \<Rightarrow> (Ok (), p\<lparr>pc_c := c\<rparr>)
      | Ok (Some pg, c) \<Rightarrow> (Ok (), (releaseForCacher pg p)\<lparr>pc_c := c\<rparr>)
      | Err e \<Rightarrow> (Err e, p)
      | Panic \<Rightarrow> (Panic, p))"

definition TruncateByPgno :: "Pgno \<Rightarrow> pcacher \<Rightarrow> unit res \<times> pcacher" where
  "TruncateByPgno maxPgno p =
     (let size = pageOffset (maxPgno + 1) in
      case Truncate (nat size) (pc_file p) of
        (Ok _, f) \<Rightarrow> (Ok (), p\<lparr>pc_file := f, noPages := maxPgno\<rparr>)
      | (r, f) \<Rightarrow> (r, p\<lparr>pc_file := f\<rparr>))"

definition NoPages :: "pcacher \<Rightarrow> nat" where
  "NoPages p = unat (noPages p)"

definition FlushPage :: "page \<Rightarrow> pcacher \<Rightarrow> unit res \<times> pcacher" where
  "FlushPage pg p = pc_flush pg p"

text \<open>The pattern of the data manager: get a page, change it in place, release it.\<close>

definition edit_page :: "Pgno \<Rightarrow> (page \<Rightarrow> ('a \<times> page) res) \<Rightarrow> pcacher \<Rightarrow> 'a res \<times> pcacher" where
  "edit_page pgno f p =
     sbind (GetPage pgno p) (\<lambda>pg p. case f pg of
         Ok (a, pg) \<Rightarrow> sbind (pc_release pgno (pc_set pg p)) (\<lambda>_ p. (Ok a, p))
       | Err e \<Rightarrow> (Err e, p) | Panic \<Rightarrow> (Panic, p))"

text \<open>\<open>Close\<close> releases the cached pages in the order in which the map is ranged over.\<close>

definition pc_Close :: "UUID list \<Rightarrow> pcacher \<Rightarrow> pcacher" where
  "pc_Close order p =
     (let p = fold (\<lambda>uid p. case cache (pc_c p) uid of None \<Rightarrow> p | Some pg \<Rightarrow> releaseForCacher pg p) order p
      in p\<lparr>pc_c := c_Close (pc_c p)\<rparr>)"

section \<open>What the cache stands for\<close>

text \<open>The contents of a page: the cached copy if there is one, the page on disk otherwise.\<close>

definition disk_page :: "pcacher \<Rightarrow> Pgno \<Rightarrow> bytes" where
  "disk_page p pgno = window (fdata (pc_file p)) (nat (pageOffset pgno)) PAGE_SIZE"

definition in_db :: "pcacher \<Rightarrow> Pgno \<Rightarrow> bool" where
  "in_db p pgno \<longleftrightarrow> 0 < pgno \<and> pgno \<le> noPages p"

definition pc_content :: "pcacher \<Rightarrow> Pgno \<Rightarrow> bytes" where
  "pc_content p pgno =
     (case cache (pc_c p) (Pgno2UUID pgno) of Some pg \<Rightarrow> pg_data pg | None \<Rightarrow> disk_page p pgno)"

text \<open>The invariant, for the multiset of page handles outstanding: exact reference counts, a healthy disk
  holding a whole number of pages, and every cached page in range, of full size and equal to the disk
  unless dirty.\<close>

definition cached_ok :: "pcacher \<Rightarrow> UUID \<Rightarrow> page \<Rightarrow> bool" where
  "cached_ok p uid pg \<longleftrightarrow> uid = Pgno2UUID (pg_pgno pg) \<and> in_db p (pg_pgno pg) \<and>
     length (pg_data pg) = PAGE_SIZE \<and> (\<not> pg_dirty pg \<longrightarrow> pg_data pg = disk_page p (pg_pgno pg))"

definition pc_inv :: "pcacher \<Rightarrow> UUID multiset \<Rightarrow> bool" where
  "pc_inv p held \<longleftrightarrow> cacher_inv (pc_c p) held {#} \<and> ffault (pc_file p) = [] \<and>
     length (fdata (pc_file p)) = unat (noPages p) * PAGE_SIZE \<and>
     (\<forall>uid pg. cache (pc_c p) uid = Some pg \<longrightarrow> cached_ok p uid pg)"

text \<open>There is room for one more page handle.\<close>

definition pc_room :: "pcacher \<Rightarrow> UUID multiset \<Rightarrow> bool" where
  "pc_room p held \<longleftrightarrow> Suc (size held) < unat (MaxHandles (pc_c p))"

lemma UUID2Pgno_Pgno2UUID [simp]: "UUID2Pgno (Pgno2UUID pgno) = pgno"
  unfolding UUID2Pgno_def Pgno2UUID_def by (rule bit_word_eqI) (simp add: bit_simps)

lemma Pgno2UUID_inj [simp]: "Pgno2UUID a = Pgno2UUID b \<longleftrightarrow> a = b"
  by (metis UUID2Pgno_Pgno2UUID)

lemma pageOffset_nonneg [simp]: "0 \<le> pageOffset pgno"
  by (simp add: pageOffset_def)

lemma pageOffset_nat: "0 < pgno \<Longrightarrow> nat (pageOffset pgno) = (unat pgno - 1) * PAGE_SIZE"
proof -
  assume "0 < pgno"
  then have "unat (pgno - 1) = unat pgno - 1" by (simp add: unat_pred32 word_less_nat_alt)
  then show ?thesis by (simp add: pageOffset_def nat_mult_distrib)
qed

lemma page_inside: "in_db p pgno \<Longrightarrow> nat (pageOffset pgno) + PAGE_SIZE \<le> unat (noPages p) * PAGE_SIZE"
proof -
  assume a: "in_db p pgno"
  then have "Suc (unat pgno - 1) \<le> unat (noPages p)" by (auto simp: in_db_def word_less_nat_alt word_le_nat_alt)
  then have "Suc (unat pgno - 1) * PAGE_SIZE \<le> unat (noPages p) * PAGE_SIZE" by (rule mult_le_mono1)
  then show ?thesis using a by (simp add: pageOffset_nat in_db_def)
qed

lemma pages_apart:
  assumes "0 < a" "0 < b" "a \<noteq> b"
  shows "nat (pageOffset a) + PAGE_SIZE \<le> nat (pageOffset b) \<or> nat (pageOffset b) + PAGE_SIZE \<le> nat (pageOffset a)"
proof -
  have "Suc (unat a - 1) \<le> unat b - 1 \<or> Suc (unat b - 1) \<le> unat a - 1"
    using assms by (auto simp: word_less_nat_alt word_unat_eq_iff)
  then have "Suc (unat a - 1) * PAGE_SIZE \<le> (unat b - 1) * PAGE_SIZE \<or> Suc (unat b - 1) * PAGE_SIZE \<le> (unat a - 1) * PAGE_SIZE"
    by (metis mult_le_mono1)
  then show ?thesis using assms by (simp add: pageOffset_nat add.commute)
qed

lemma pc_frame [simp]:
  "disk_page (p\<lparr>pc_c := c\<rparr>) k = disk_page p k" "in_db (p\<lparr>pc_c := c\<rparr>) k = in_db p k"
  "in_db (p\<lparr>pc_file := f\<rparr>) k = in_db p k" "cached_ok (p\<lparr>pc_c := c\<rparr>) uid pg = cached_ok p uid pg"
  "disk_page (p\<lparr>noPages := n\<rparr>) k = disk_page p k"
  by (simp_all add: disk_page_def in_db_def cached_ok_def)

lemma pc_content_cacher: "cache c = cache (pc_c p) \<Longrightarrow> pc_content (p\<lparr>pc_c := c\<rparr>) = pc_content p"
  by (rule ext) (simp add: pc_content_def split: option.split)

lemma disk_page_length: "pc_inv p held \<Longrightarrow> in_db p pgno \<Longrightarrow> length (disk_page p pgno) = PAGE_SIZE"
  using page_inside [of p pgno] by (simp add: disk_page_def pc_inv_def)

text \<open>Flushing a page in range rewrites exactly that page on disk.\<close>

lemma pc_flush_healthy:
  assumes "ffault (pc_file p) = []" and "length (fdata (pc_file p)) = unat (noPages p) * PAGE_SIZE"
    and "in_db p (pg_pgno pg)" and "length (pg_data pg) = PAGE_SIZE"
  obtains f where "pc_flush pg p = (Ok (), p\<lparr>pc_file := f\<rparr>)" "ffault f = []"
    "length (fdata f) = length (fdata (pc_file p))"
    "disk_page (p\<lparr>pc_file := f\<rparr>) (pg_pgno pg) = pg_data pg"
    "\<And>k. 0 < k \<Longrightarrow> k \<noteq> pg_pgno pg \<Longrightarrow> disk_page (p\<lparr>pc_file := f\<rparr>) k = disk_page p k"
proof -
  let ?o = "nat (pageOffset (pg_pgno pg))"
  let ?f = "(pc_file p)\<lparr>fdata := overwrite (fdata (pc_file p)) ?o (pg_data pg)\<rparr>"
  have i: "?o + length (pg_data pg) \<le> length (fdata (pc_file p))"
    using page_inside [OF assms(3)] assms(2,4) by simp
  show thesis
  proof (rule that [of ?f])
    show "pc_flush pg p = (Ok (), p\<lparr>pc_file := ?f\<rparr>)" using assms(1) i by (simp add: pc_flush_def file_simps)
    show "disk_page (p\<lparr>pc_file := ?f\<rparr>) (pg_pgno pg) = pg_data pg"
      using window_same [OF i] assms(4) by (simp add: disk_page_def)
    show "disk_page (p\<lparr>pc_file := ?f\<rparr>) k = disk_page p k" if "0 < k" "k \<noteq> pg_pgno pg" for k
      using that pages_apart [of k "pg_pgno pg"] assms(3,4) window_disjoint [OF i]
      by (auto simp: disk_page_def in_db_def)
  qed (use assms(1) i in simp_all)
qed

section \<open>Getting, changing and releasing a page\<close>

text \<open>A get by a caller that runs alone, on a cache with a free slot.\<close>

lemma c_Get_alone:
  assumes inv: "cacher_inv c held {#}" and room: "unat (count c) < unat (MaxHandles c)"
    and b: "Suc (size held) < 2 ^ 32"
  obtains "cache c uid \<noteq> None" "\<And>s. \<exists>c'. c_Get load uid s c = (Ok (the (cache c uid)), c') \<and>
        cache c' = cache c \<and> cacher_inv c' (add_mset uid held) {#} \<and> MaxHandles c' = MaxHandles c"
  | "cache c uid = None"
    "\<And>s h. load s = Ok h \<Longrightarrow> \<exists>c'. c_Get load uid s c = (Ok h, c') \<and>
        cache c' = (cache c)(uid \<mapsto> h) \<and> cacher_inv c' (add_mset uid held) {#} \<and> MaxHandles c' = MaxHandles c"
proof (cases "cache c uid")
  case (Some h)
  have g: "getting c = {}" using inv by (simp add: cacher_inv_def)
  let ?c = "c\<lparr>refs := (refs c)(uid \<mapsto> ref_of (refs c) uid + 1)\<rparr>"
  have t: "get_try uid c = (Hit h, ?c)" using Some g by (simp add: get_try_def)
  show thesis using that(1) Some inv_hit [OF inv t b] by (simp add: c_Get_def t)
next
  case None
  have g: "getting c = {}" using inv by (simp add: cacher_inv_def)
  let ?c = "c\<lparr>getting := {uid}, count := count c + 1\<rparr>"
  have t: "get_try uid c = (Load, ?c)" using None g room by (auto simp: get_try_def)
  have "Suc (unat (count c)) < 2 ^ 32"
    using room unsigned_less [of "MaxHandles c", where ?'a = nat] by simp
  from inv_load [OF inv t this] have i: "cacher_inv ?c held {#uid#}" by simp
  have "\<exists>c'. c_Get load uid s c = (Ok h, c') \<and> cache c' = (cache c)(uid \<mapsto> h) \<and>
      cacher_inv c' (add_mset uid held) {#} \<and> MaxHandles c' = MaxHandles c" if "load s = Ok h" for s h
    using inv_loaded [OF i _ b, of uid h] that by (simp add: c_Get_def t get_finish_def)
  then show thesis using that(2) None by blast
qed

lemma card_set_mset_le: "card (set_mset M) \<le> size M"
  by (induction M) (auto simp: card_insert_if)

lemma cacher_inv_count: "cacher_inv c held {#} \<Longrightarrow> unat (count c) \<le> size held"
proof -
  assume inv: "cacher_inv c held {#}"
  then have "dom (cache c) = set_mset held" by (auto simp: cacher_inv_def)
  then have "unat (count c) = card (set_mset held)" using inv by (simp add: cacher_inv_def)
  also have "\<dots> \<le> size held" by (rule card_set_mset_le)
  finally show ?thesis .
qed

lemma GetPage_ok:
  assumes inv: "pc_inv p held" and db: "in_db p pgno" and room: "pc_room p held"
  obtains pg p' where "GetPage pgno p = (Ok pg, p')" "pg_pgno pg = pgno" "pg_data pg = pc_content p pgno"
    "cache (pc_c p') (Pgno2UUID pgno) = Some pg" "pc_inv p' (add_mset (Pgno2UUID pgno) held)"
    "pc_content p' = pc_content p" "noPages p' = noPages p" "MaxHandles (pc_c p') = MaxHandles (pc_c p)"
    "pc_file p' = pc_file p"
proof -
  let ?u = "Pgno2UUID pgno" and ?c = "pc_c p"
  from inv have ci: "cacher_inv ?c held {#}" by (simp add: pc_inv_def)
  have "unat (MaxHandles ?c) < 2 ^ 32" using unsigned_less [of "MaxHandles ?c", where ?'a = nat] by simp
  then have r: "unat (count ?c) < unat (MaxHandles ?c)" "Suc (size held) < 2 ^ 32"
    using room cacher_inv_count [OF ci] by (simp_all add: pc_room_def)
  show thesis
  proof (rule c_Get_alone [OF ci r, of ?u "getForCacher ?u"])
    assume h: "cache ?c ?u \<noteq> None" and g: "\<And>s. \<exists>c'. c_Get (getForCacher ?u) ?u s ?c = (Ok (the (cache ?c ?u)), c') \<and>
        cache c' = cache ?c \<and> cacher_inv c' (add_mset ?u held) {#} \<and> MaxHandles c' = MaxHandles ?c"
    from h obtain pg where pg: "cache ?c ?u = Some pg" by auto
    then have "cached_ok p ?u pg" using inv by (simp add: pc_inv_def)
    then have n: "pg_pgno pg = pgno" by (simp add: cached_ok_def)
    obtain c' where c': "c_Get (getForCacher ?u) ?u p ?c = (Ok pg, c')" "cache c' = cache ?c"
      "cacher_inv c' (add_mset ?u held) {#}" "MaxHandles c' = MaxHandles ?c" using g [of p] pg by auto
    show thesis
      by (rule that [of pg "p\<lparr>pc_c := c'\<rparr>"])
        (use c' pg n inv in \<open>simp_all add: GetPage_def pc_inv_def pc_content_cacher pc_content_def\<close>)
  next
    assume h: "cache ?c ?u = None" and g: "\<And>s h. getForCacher ?u s = Ok h \<Longrightarrow>
        \<exists>c'. c_Get (getForCacher ?u) ?u s ?c = (Ok h, c') \<and> cache c' = (cache ?c)(?u \<mapsto> h) \<and>
          cacher_inv c' (add_mset ?u held) {#} \<and> MaxHandles c' = MaxHandles ?c"
    let ?pg = "NewPage pgno (disk_page p pgno)"
    have "getForCacher ?u p = Ok ?pg"
      using page_inside [OF db] inv by (simp add: getForCacher_def pc_inv_def file_simps disk_page_def)
    then obtain c' where c': "c_Get (getForCacher ?u) ?u p ?c = (Ok ?pg, c')" "cache c' = (cache ?c)(?u \<mapsto> ?pg)"
      "cacher_inv c' (add_mset ?u held) {#}" "MaxHandles c' = MaxHandles ?c" using g by blast
    have n: "pg_pgno ?pg = pgno" "pg_data ?pg = disk_page p pgno" "\<not> pg_dirty ?pg" by (simp_all add: NewPage_def)
    have "pc_content (p\<lparr>pc_c := c'\<rparr>) = pc_content p"
      using c'(2) h n by (auto simp: fun_eq_iff pc_content_def split: option.split)
    moreover have "cached_ok p uid q" if "cache c' uid = Some q" for uid q
      using that c'(2) inv db disk_page_length [OF inv db] n by (auto simp: pc_inv_def cached_ok_def split: if_splits)
    ultimately show thesis
      by (intro that [of ?pg "p\<lparr>pc_c := c'\<rparr>"])
        (use c' h n inv in \<open>simp_all add: GetPage_def pc_inv_def pc_content_def\<close>)
  qed
qed

lemma pc_set_ok:
  assumes inv: "pc_inv p held" and h: "cache (pc_c p) (Pgno2UUID pgno) = Some pg"
    and pg': "pg_pgno pg' = pgno" "length (pg_data pg') = PAGE_SIZE" "pg_dirty pg'"
  shows "pc_inv (pc_set pg' p) held" and "pc_content (pc_set pg' p) = (pc_content p)(pgno := pg_data pg')"
    and "noPages (pc_set pg' p) = noPages p" and "MaxHandles (pc_c (pc_set pg' p)) = MaxHandles (pc_c p)"
    and "cache (pc_c (pc_set pg' p)) (Pgno2UUID pgno) = Some pg'"
proof -
  have k: "cached_ok p (Pgno2UUID pgno) pg" using inv h by (simp add: pc_inv_def)
  have "dom ((cache (pc_c p))(Pgno2UUID pgno \<mapsto> pg')) = dom (cache (pc_c p))" using h by auto
  then have "cacher_inv (pc_c (pc_set pg' p)) held {#}"
    using inv h pg' by (auto simp: pc_inv_def pc_set_def cacher_inv_def)
  then show "pc_inv (pc_set pg' p) held"
    using inv k pg' by (auto simp: pc_inv_def pc_set_def cached_ok_def in_db_def disk_page_def)
  show "pc_content (pc_set pg' p) = (pc_content p)(pgno := pg_data pg')"
    using pg' by (auto simp: fun_eq_iff pc_content_def pc_set_def split: option.split)
qed (use assms in \<open>auto simp: pc_set_def\<close>)

text \<open>Getting a page leaves the pages that are cached alone, and releasing one at most removes it.\<close>

lemma GetPage_cached: "GetPage k p = (r, p') \<Longrightarrow> cache (pc_c p) v = Some q \<Longrightarrow> cache (pc_c p') v = Some q"
  by (auto simp: GetPage_def c_Get_def get_try_def get_finish_def Let_def split: prod.splits if_splits option.splits res.splits)

lemma pc_release_cached: "pc_release k p = (r, p') \<Longrightarrow> cache (pc_c p') v = Some q \<Longrightarrow> cache (pc_c p) v = Some q"
  by (auto simp: pc_release_def c_Release_def Let_def split: prod.splits if_splits option.splits res.splits)

lemma pc_release_ok:
  assumes inv: "pc_inv p held" and u: "Pgno2UUID pgno \<in># held"
  obtains p' where "pc_release pgno p = (Ok (), p')" "pc_inv p' (held - {#Pgno2UUID pgno#})"
    "\<And>k. in_db p k \<Longrightarrow> pc_content p' k = pc_content p k" "noPages p' = noPages p" "MaxHandles (pc_c p') = MaxHandles (pc_c p)"
proof -
  let ?u = "Pgno2UUID pgno" and ?c = "pc_c p"
  from inv have ci: "cacher_inv ?c held {#}" by (simp add: pc_inv_def)
  then obtain pg where pg: "cache ?c ?u = Some pg" using u unfolding cacher_inv_def by blast
  then have k: "cached_ok p ?u pg" using inv by (simp add: pc_inv_def)
  from pg obtain r c' where t: "c_Release ?u ?c = Ok (r, c')"
    by (cases "ref_of (refs ?c) ?u = 1") (auto simp: c_Release_def)
  have ci': "cacher_inv c' (held - {#?u#}) {#}" by (rule inv_release(1) [OF ci u t])
  have m: "MaxHandles c' = MaxHandles ?c" using t by (auto simp: c_Release_def Let_def split: if_splits option.splits)
  show thesis
  proof (cases r)
    case None
    then have "cache c' = cache ?c" using t by (auto simp: c_Release_def Let_def split: if_splits option.splits)
    then show thesis using that [of "p\<lparr>pc_c := c'\<rparr>"] None t ci' inv m
      by (simp add: pc_release_def pc_inv_def pc_content_cacher)
  next
    case (Some pg0)
    then have r: "r = Some pg" "cache c' = (cache ?c)(?u := None)"
      using t pg by (auto simp: c_Release_def Let_def split: if_splits option.splits)
    from inv k have h: "ffault (pc_file p) = []" "length (fdata (pc_file p)) = unat (noPages p) * PAGE_SIZE"
      "in_db p (pg_pgno pg)" "length (pg_data pg) = PAGE_SIZE" by (simp_all add: pc_inv_def cached_ok_def)
    have pgno: "pg_pgno pg = pgno" using k by (simp add: cached_ok_def)
    obtain f where f: "releaseForCacher pg p = p\<lparr>pc_file := f\<rparr>" "ffault f = []"
      "length (fdata f) = length (fdata (pc_file p))"
      "disk_page (p\<lparr>pc_file := f, pc_c := c'\<rparr>) pgno = pg_data pg"
      "\<And>k. 0 < k \<Longrightarrow> k \<noteq> pgno \<Longrightarrow> disk_page (p\<lparr>pc_file := f, pc_c := c'\<rparr>) k = disk_page p k"
    proof (cases "pg_dirty pg")
      case True
      obtain f where f: "pc_flush pg p = (Ok (), p\<lparr>pc_file := f\<rparr>)" "ffault f = []"
        "length (fdata f) = length (fdata (pc_file p))"
        "disk_page (p\<lparr>pc_file := f\<rparr>) (pg_pgno pg) = pg_data pg"
        "\<And>k. 0 < k \<Longrightarrow> k \<noteq> pg_pgno pg \<Longrightarrow> disk_page (p\<lparr>pc_file := f\<rparr>) k = disk_page p k"
        using pc_flush_healthy [OF h] by blast
      show thesis
        by (rule that [of f]) (use True f(1-3) f(4,5) pgno in \<open>simp_all add: releaseForCacher_def\<close>)
    next
      case False
      then show thesis
        using that [of "pc_file p"] h k pgno by (simp add: releaseForCacher_def cached_ok_def disk_page_def)
    qed
    let ?p = "p\<lparr>pc_file := f, pc_c := c'\<rparr>"
    have e: "pc_release pgno p = (Ok (), ?p)" using t r f(1) by (simp add: pc_release_def)
    have d: "disk_page ?p k = disk_page p k" if "in_db p k" "k \<noteq> pgno" for k
      using f(5) that by (simp add: in_db_def)
    have n: "in_db ?p = in_db p" by (auto simp: in_db_def fun_eq_iff)
    have "cached_ok ?p uid q" if q: "cache c' uid = Some q" for uid q
    proof -
      have u: "uid \<noteq> ?u" and "cache ?c uid = Some q" using q r(2) by (auto split: if_splits)
      then have "cached_ok p uid q" using inv by (simp add: pc_inv_def)
      moreover from this u have "pg_pgno q \<noteq> pgno" by (auto simp: cached_ok_def)
      ultimately show ?thesis using d by (simp add: cached_ok_def)
    qed
    then have i: "pc_inv ?p (held - {#?u#})" using ci' inv f(2,3) by (simp add: pc_inv_def)
    have "pc_content ?p k = pc_content p k" if "in_db p k" for k
      using that d f(4) pg r(2) by (cases "k = pgno") (auto simp: pc_content_def split: option.split)
    then show thesis using that [OF e i] m by simp
  qed
qed

section \<open>The page store interface\<close>

text \<open>What a client of the page cache relies on, for pages it gets, changes and releases one at a
  time: the contents of the other pages do not move.\<close>

locale page_store =
  fixes content :: "'s \<Rightarrow> Pgno \<Rightarrow> bytes"
    and inv :: "'s \<Rightarrow> UUID multiset \<Rightarrow> bool"
    and db :: "'s \<Rightarrow> Pgno set"
    and cap :: "'s \<Rightarrow> nat"
    and holds :: "'s \<Rightarrow> page \<Rightarrow> bool"
    and get :: "Pgno \<Rightarrow> 's \<Rightarrow> page res \<times> 's"
    and put :: "page \<Rightarrow> 's \<Rightarrow> 's"
    and rel :: "Pgno \<Rightarrow> 's \<Rightarrow> unit res \<times> 's"
  assumes get_law: "inv s held \<Longrightarrow> k \<in> db s \<Longrightarrow> Suc (size held) < cap s \<Longrightarrow>
      \<exists>pg s'. get k s = (Ok pg, s') \<and> pg_pgno pg = k \<and> pg_data pg = content s k \<and> holds s' pg \<and>
        inv s' (add_mset (Pgno2UUID k) held) \<and> content s' = content s \<and> db s' = db s \<and> cap s' = cap s"
    and put_law: "inv s held \<Longrightarrow> holds s pg \<Longrightarrow> pg_pgno pg' = pg_pgno pg \<Longrightarrow> length (pg_data pg') = PAGE_SIZE \<Longrightarrow>
      pg_dirty pg' \<Longrightarrow> inv (put pg' s) held \<and> content (put pg' s) = (content s)(pg_pgno pg := pg_data pg') \<and>
        holds (put pg' s) pg' \<and> db (put pg' s) = db s \<and> cap (put pg' s) = cap s"
    and rel_law: "inv s held \<Longrightarrow> Pgno2UUID k \<in># held \<Longrightarrow>
      \<exists>s'. rel k s = (Ok (), s') \<and> inv s' (held - {#Pgno2UUID k#}) \<and> (\<forall>j \<in> db s. content s' j = content s j) \<and>
        db s' = db s \<and> cap s' = cap s"
begin

text \<open>Get, change, release: the page is rewritten, the others stay, no handle leaks.\<close>

lemma edit:
  assumes i: "inv s held" and k: "k \<in> db s" and r: "Suc (size held) < cap s"
    and f: "\<And>pg. pg_pgno pg = k \<Longrightarrow> pg_data pg = content s k \<Longrightarrow>
          \<exists>pg'. f pg = Ok (a, pg') \<and> pg_pgno pg' = k \<and> pg_dirty pg' \<and> pg_data pg' = d"
    and d: "length d = PAGE_SIZE"
  shows "\<exists>s'. sbind (get k s) (\<lambda>pg s. case f pg of
             Ok (a, pg) \<Rightarrow> sbind (rel k (put pg s)) (\<lambda>_ s. (Ok a, s)) | Err e \<Rightarrow> (Err e, s) | Panic \<Rightarrow> (Panic, s)) = (Ok a, s') \<and>
           inv s' held \<and> (\<forall>j \<in> db s. content s' j = (if j = k then d else content s j)) \<and> db s' = db s \<and> cap s' = cap s"
proof -
  let ?h = "add_mset (Pgno2UUID k) held"
  from get_law [OF i k r] obtain pg s1 where 1: "get k s = (Ok pg, s1)" "pg_pgno pg = k" "pg_data pg = content s k"
    "holds s1 pg" "inv s1 ?h" "content s1 = content s" "db s1 = db s" "cap s1 = cap s" by blast
  from f [OF 1(2,3)] obtain pg' where 2: "f pg = Ok (a, pg')" "pg_pgno pg' = k" "pg_dirty pg'" "pg_data pg' = d" by blast
  from put_law [OF 1(5,4), of pg'] 1 2 d have 3: "inv (put pg' s1) ?h"
    "content (put pg' s1) = (content s)(k := d)" "db (put pg' s1) = db s" "cap (put pg' s1) = cap s" by simp_all
  from rel_law [OF 3(1), of k] 3 obtain s2 where "rel k (put pg' s1) = (Ok (), s2)" "inv s2 held"
    "\<forall>j \<in> db s. content s2 j = ((content s)(k := d)) j" "db s2 = db s" "cap s2 = cap s" by auto
  with 1 2 show ?thesis by simp
qed

end

interpretation pcs: page_store pc_content pc_inv "\<lambda>p. {k. in_db p k}" "\<lambda>p. unat (MaxHandles (pc_c p))"
  "\<lambda>p pg. cache (pc_c p) (Pgno2UUID (pg_pgno pg)) = Some pg" GetPage pc_set pc_release
proof (unfold_locales, goal_cases)
  case (1 s held k)
  then show ?case by (elim GetPage_ok [of s held k]) (auto simp: pc_room_def in_db_def)
next
  case (2 s held pg pg')
  then show ?case using pc_set_ok [OF 2(1,2,3,4,5)] by (auto simp: in_db_def)
next
  case (3 s held k)
  then show ?case by (elim pc_release_ok [of s held k]) (auto simp: in_db_def)
qed

section \<open>New pages and closing\<close>

lemma file_put_new: "length xs = off \<Longrightarrow> file_put xs off bs = xs @ bs"
  using file_put_end by auto

lemma pc_NewPage_ok:
  assumes inv: "pc_inv p held" and n: "Suc (unat (noPages p)) < 2 ^ 32" and l: "length d = PAGE_SIZE"
  obtains p' where "pc_NewPage d p = (Ok (noPages p + 1), p')" "pc_inv p' held" "noPages p' = noPages p + 1"
    "pc_c p' = pc_c p" "pc_content p' (noPages p + 1) = d" "\<And>k. in_db p k \<Longrightarrow> pc_content p' k = pc_content p k"
proof -
  let ?n = "noPages p + 1" and ?x = "fdata (pc_file p)"
  have sz: "length ?x = unat (noPages p) * PAGE_SIZE" "ffault (pc_file p) = []" using inv by (simp_all add: pc_inv_def)
  have un: "unat ?n = Suc (unat (noPages p))" by (rule unat_Suc32 [OF n])
  then have pos: "0 < ?n" by (simp add: word_less_nat_alt)
  then have o: "nat (pageOffset ?n) = length ?x" using un sz by (simp add: pageOffset_nat)
  let ?p = "p\<lparr>noPages := ?n, pc_file := (pc_file p)\<lparr>fdata := ?x @ d\<rparr>\<rparr>"
  have e: "pc_NewPage d p = (Ok ?n, ?p)"
    using sz o by (simp add: pc_NewPage_def pc_flush_def NewPage_def file_simps file_put_new Let_def)
  have dk: "disk_page ?p k = disk_page p k" if "in_db p k" for k
    using page_inside [OF that] sz by (simp add: disk_page_def window_append)
  have dn: "disk_page ?p ?n = d" using o l by (simp add: disk_page_def window_append window_def)
  have mono: "in_db ?p k" if "in_db p k" for k
    using that un by (auto simp: in_db_def word_le_nat_alt)
  have out: "\<not> in_db p ?n" using un by (simp add: in_db_def word_le_nat_alt)
  have "cached_ok ?p uid q" if "cache (pc_c p) uid = Some q" for uid q
  proof -
    have "cached_ok p uid q" using that inv by (simp add: pc_inv_def)
    then show ?thesis using dk mono by (simp add: cached_ok_def)
  qed
  then have i: "pc_inv ?p held" using inv sz l un by (simp add: pc_inv_def)
  have "cache (pc_c p) (Pgno2UUID ?n) = None"
  proof (rule ccontr)
    assume "cache (pc_c p) (Pgno2UUID ?n) \<noteq> None"
    then obtain q where "cached_ok p (Pgno2UUID ?n) q" using inv by (auto simp: pc_inv_def)
    then show False using out by (auto simp: cached_ok_def)
  qed
  then have "pc_content ?p ?n = d" using dn by (simp add: pc_content_def)
  moreover have "pc_content ?p k = pc_content p k" if "in_db p k" for k
    using dk [OF that] by (simp add: pc_content_def split: option.split)
  ultimately show thesis using that [OF e i] by simp
qed

text \<open>Closing flushes every dirty page: the file then holds the contents.\<close>

definition close_step :: "UUID \<Rightarrow> pcacher \<Rightarrow> pcacher" where
  "close_step uid p = (case cache (pc_c p) uid of None \<Rightarrow> p | Some pg \<Rightarrow> releaseForCacher pg p)"

lemma close_step_ok:
  assumes inv: "pc_inv p held"
  shows "pc_inv (close_step uid p) held" and "pc_c (close_step uid p) = pc_c p"
    and "noPages (close_step uid p) = noPages p"
    and "in_db p k \<Longrightarrow> disk_page (close_step uid p) k = (if Pgno2UUID k = uid then pc_content p k else disk_page p k)"
proof -
  have "pc_inv (close_step uid p) held \<and> pc_c (close_step uid p) = pc_c p \<and> noPages (close_step uid p) = noPages p \<and>
     (\<forall>k. in_db p k \<longrightarrow> disk_page (close_step uid p) k = (if Pgno2UUID k = uid then pc_content p k else disk_page p k))"
  proof (cases "cache (pc_c p) uid")
    case None
    then show ?thesis using inv by (auto simp: close_step_def pc_content_def)
  next
    case (Some pg)
    then have k: "cached_ok p uid pg" using inv by (simp add: pc_inv_def)
    then have h: "ffault (pc_file p) = []" "length (fdata (pc_file p)) = unat (noPages p) * PAGE_SIZE"
      "in_db p (pg_pgno pg)" "length (pg_data pg) = PAGE_SIZE" "uid = Pgno2UUID (pg_pgno pg)"
      using inv by (simp_all add: pc_inv_def cached_ok_def)
    have c: "pc_content p (pg_pgno pg) = pg_data pg" using Some h(5) by (simp add: pc_content_def)
    show ?thesis
    proof (cases "pg_dirty pg")
      case False
      then show ?thesis using inv Some c k by (auto simp: close_step_def releaseForCacher_def cached_ok_def)
    next
      case True
      obtain f where f: "pc_flush pg p = (Ok (), p\<lparr>pc_file := f\<rparr>)" "ffault f = []"
        "length (fdata f) = length (fdata (pc_file p))"
        "disk_page (p\<lparr>pc_file := f\<rparr>) (pg_pgno pg) = pg_data pg"
        "\<And>k. 0 < k \<Longrightarrow> k \<noteq> pg_pgno pg \<Longrightarrow> disk_page (p\<lparr>pc_file := f\<rparr>) k = disk_page p k"
        using pc_flush_healthy [OF h(1-4)] by blast
      have "cached_ok (p\<lparr>pc_file := f\<rparr>) u q" if "cache (pc_c p) u = Some q" for u q
      proof (cases "u = uid")
        case True
        then show ?thesis using that Some k f(4) by (simp add: cached_ok_def)
      next
        case False
        have "cached_ok p u q" using that inv by (simp add: pc_inv_def)
        then show ?thesis using False h(5) f(5) by (auto simp: cached_ok_def in_db_def)
      qed
      then show ?thesis
        using True Some f inv c h by (auto simp: close_step_def releaseForCacher_def pc_inv_def in_db_def)
    qed
  qed
  then show "pc_inv (close_step uid p) held" and "pc_c (close_step uid p) = pc_c p"
    and "noPages (close_step uid p) = noPages p"
    and "in_db p k \<Longrightarrow> disk_page (close_step uid p) k = (if Pgno2UUID k = uid then pc_content p k else disk_page p k)"
    by blast+
qed

lemma close_fold_ok:
  assumes "pc_inv p held"
  shows "pc_inv (fold close_step us p) held \<and> pc_c (fold close_step us p) = pc_c p \<and>
    noPages (fold close_step us p) = noPages p \<and>
    (\<forall>k. in_db p k \<longrightarrow> disk_page (fold close_step us p) k = (if Pgno2UUID k \<in> set us then pc_content p k else disk_page p k))"
  using assms
proof (induction us arbitrary: p)
  case Nil then show ?case by simp
next
  case (Cons u us)
  note s = close_step_ok [OF Cons.prems, where uid = u]
  have "pc_content (close_step u p) k = pc_content p k" if "in_db p k" for k
    using s(2) s(4) [OF that] by (simp add: pc_content_def split: option.split)
  moreover have "in_db (close_step u p) k = in_db p k" for k using s(3) by (simp add: in_db_def)
  ultimately show ?case using Cons.IH [OF s(1)] s(2,3,4) by auto
qed

lemma pc_Close_fold: "pc_Close order p = (let p = fold close_step order p in p\<lparr>pc_c := c_Close (pc_c p)\<rparr>)"
proof -
  have "(\<lambda>uid p. case cache (pc_c p) uid of None \<Rightarrow> p | Some pg \<Rightarrow> releaseForCacher pg p) = close_step"
    by (simp add: fun_eq_iff close_step_def)
  then show ?thesis by (simp add: pc_Close_def)
qed

lemma newPcacher_inv:
  assumes "newPcacher f mem = Ok p" and "ffault f = []" and "length (fdata f) = n * PAGE_SIZE" and "n < 2 ^ 32"
  shows "pc_inv p {#}" and "unat (noPages p) = n" and "pc_file p = f" and "cache (pc_c p) = Map.empty"
proof -
  from assms(1) obtain m where p: "p = \<lparr>pc_file = f, noPages = of_nat (fsize f div PAGE_SIZE), pc_c = NewCacher m\<rparr>"
    by (auto simp: newPcacher_def split: if_splits)
  have "fsize f div PAGE_SIZE = n" using assms(3) by (simp add: fsize_def PAGE_SIZE_def)
  then show "unat (noPages p) = n" using assms(4) by (simp add: p unat_of_nat)
  then show "pc_inv p {#}" using assms(2,3) by (simp add: p pc_inv_def cacher_inv_New) (simp add: NewCacher_def)
qed (use assms(1) in \<open>auto simp: newPcacher_def NewCacher_def split: if_splits\<close>)

text \<open>Reopening the file that \<open>Close\<close> leaves.\<close>

lemma pc_reopen:
  assumes "pc_inv p held" and "dom (cache (pc_c p)) \<subseteq> set order" and "10 \<le> mem div int PAGE_SIZE"
  obtains q where "pc_Open (pc_file (pc_Close order p)) mem = Ok q" "pc_inv q {#}" "noPages q = noPages p"
    "\<And>k. in_db p k \<Longrightarrow> pc_content q k = pc_content p k" "MaxHandles (pc_c q) = word_of_int (mem div int PAGE_SIZE)"
proof -
  let ?r = "fold close_step order p" and ?f = "pc_file (pc_Close order p)"
  note r = close_fold_ok [OF assms(1), of order]
  have f: "?f = pc_file ?r" by (simp add: pc_Close_fold Let_def)
  have m: "0 \<le> mem" by (rule ccontr) (use assms(3) in \<open>simp add: PAGE_SIZE_def\<close>)
  then have g: "go_quot mem (int PAGE_SIZE) = mem div int PAGE_SIZE" by (auto simp: go_quot_def PAGE_SIZE_def sgn_if)
  then obtain q where q: "newPcacher ?f mem = Ok q" using assms(3) by (auto simp: newPcacher_def MEM_LIM_def)
  have len: "length (fdata ?f) = unat (noPages p) * PAGE_SIZE" "ffault ?f = []" using r f by (simp_all add: pc_inv_def)
  have "unat (noPages p) < 2 ^ 32" using unsigned_less [of "noPages p", where ?'a = nat] by simp
  note n = newPcacher_inv [OF q len(2,1) this]
  have c: "pc_content q k = pc_content p k" if "in_db p k" for k
  proof -
    have "pc_content q k = disk_page ?r k" using n(3,4) f by (simp add: pc_content_def disk_page_def)
    also have "\<dots> = pc_content p k"
    proof (cases "Pgno2UUID k \<in> set order")
      case True then show ?thesis using r that by simp
    next
      case False
      then have "cache (pc_c p) (Pgno2UUID k) = None" using assms(2) by auto
      then show ?thesis using r that False by (simp add: pc_content_def)
    qed
    finally show ?thesis .
  qed
  have "MaxHandles (pc_c q) = word_of_int (mem div int PAGE_SIZE)" using q g by (auto simp: newPcacher_def NewCacher_def split: if_splits)
  then show thesis using that [of q] q n c by (simp add: pc_Open_def word_unat_eq_iff)
qed

section \<open>Properties\<close>

text \<open>C20. Read after write through the page cache: on a healthy disk, getting a page of the database returns its current
  contents; writing new contents into the page and releasing it makes them the contents of that page
  and leaves every other page alone, whether or not the release evicts the page, and returns the handle.\<close>

theorem pcacher_read_after_write:
  assumes "pc_inv p held" and "in_db p k" and "Suc (size held) < unat (MaxHandles (pc_c p))"
    and "length d = PAGE_SIZE"
  shows "\<exists>pg p1 p2. GetPage k p = (Ok pg, p1) \<and> pg_data pg = pc_content p k \<and>
     pc_release k (pc_set (pg\<lparr>pg_data := d, pg_dirty := True\<rparr>) p1) = (Ok (), p2) \<and> pc_inv p2 held \<and>
     (\<forall>j. in_db p j \<longrightarrow> pc_content p2 j = (if j = k then d else pc_content p j))"
proof -
  from pcs.get_law [OF assms(1) _ assms(3), of k] assms(2) obtain pg p1 where 1:
    "GetPage k p = (Ok pg, p1)" "pg_pgno pg = k" "pg_data pg = pc_content p k"
    "cache (pc_c p1) (Pgno2UUID k) = Some pg" "pc_inv p1 (add_mset (Pgno2UUID k) held)"
    "pc_content p1 = pc_content p" "{k. in_db p1 k} = {k. in_db p k}" by auto
  let ?p = "pc_set (pg\<lparr>pg_data := d, pg_dirty := True\<rparr>) p1"
  from pcs.put_law [OF 1(5), of pg "pg\<lparr>pg_data := d, pg_dirty := True\<rparr>"] 1 assms(4)
  have 2: "pc_inv ?p (add_mset (Pgno2UUID k) held)" "pc_content ?p = (pc_content p)(k := d)" "{k. in_db ?p k} = {k. in_db p k}"
    by simp_all
  from pcs.rel_law [OF 2(1), of k] 2 1 show ?thesis by fastforce
qed

definition one_page_pc :: pcacher where
  "one_page_pc = \<lparr>pc_file = \<lparr>fdata = replicate PAGE_SIZE 0, fpos = 0, ffault = []\<rparr>, noPages = 1, pc_c = NewCacher 10\<rparr>"

lemma one_page_pc_inv: "pc_inv one_page_pc {#}" "in_db one_page_pc 1" "unat (MaxHandles (pc_c one_page_pc)) = 10"
  "pc_content one_page_pc 1 = replicate PAGE_SIZE 0"
  by (simp_all add: one_page_pc_def pc_inv_def cacher_inv_New in_db_def)
    (simp_all add: NewCacher_def pc_content_def disk_page_def pageOffset_def window_def)

theorem pcacher_read_after_write_witness:
  "\<exists>pg p1 p2. GetPage 1 one_page_pc = (Ok pg, p1) \<and>
     pc_release 1 (pc_set (pg\<lparr>pg_data := replicate PAGE_SIZE 7, pg_dirty := True\<rparr>) p1) = (Ok (), p2) \<and>
     pc_content p2 1 = replicate PAGE_SIZE 7"
  using pcacher_read_after_write [of one_page_pc "{#}" 1 "replicate PAGE_SIZE 7"] one_page_pc_inv by auto

text \<open>A clean shutdown is durable: after \<open>Close\<close>, in whatever order the cached pages are visited, reopening the
  file with enough memory gives a page cache with exactly the page contents at the time of the close.\<close>

lemma pcacher_close_durable:
  assumes "pc_inv p held" and "dom (cache (pc_c p)) \<subseteq> set order" and "10 \<le> mem div int PAGE_SIZE" and "in_db p k"
  shows "\<exists>q. pc_Open (pc_file (pc_Close order p)) mem = Ok q \<and> pc_inv q {#} \<and> noPages q = noPages p \<and>
     pc_content q k = pc_content p k"
  using pc_reopen [OF assms(1-3)] assms(4) by metis


text \<open>A dirty page is evicted even when writing it back fails: if the disk refuses the write, releasing the last
  handle reports nothing, the page leaves the cache, and its contents silently fall back to the old ones on disk.\<close>

lemma pcacher_release_loses_update:
  assumes "cache (pc_c p) (Pgno2UUID k) = Some pg" and "pg_dirty pg" and "ref_of (refs (pc_c p)) (Pgno2UUID k) = 1"
    and "ffault (pc_file p) = [True]"
  shows "\<exists>p'. pc_release k p = (Ok (), p') \<and> cache (pc_c p') (Pgno2UUID k) = None \<and>
     pc_content p' k = disk_page p k"
  using assms by (auto simp: pc_release_def c_Release_def releaseForCacher_def pc_flush_def WriteAt_def io_fails_def
      io_tick_def pc_content_def disk_page_def)

end
