(* ===== verification/Recovery.thy ===== *)
theory Recovery
  imports Tm Logger Pcacher
begin

text \<open>
  Crash recovery (\<^verbatim>\<open>dm/recovery.go\<close>): the two kinds of log records, redo of the records of finished
  transactions in log order, undo of the records of unfinished ones backwards, transaction by transaction, in the
  order in which the Go map is ranged over (a parameter). Recovery runs before the database serves anyone, so it is
  sequential. An error of the log or of the page cache is a \<open>panic\<close>.
\<close>

section \<open>Log records\<close>

definition LOG_TYPE_INSERT :: byte where "LOG_TYPE_INSERT = 0"
definition LOG_TYPE_UPDATE :: byte where "LOG_TYPE_UPDATE = 1"

datatype rec_flag = REDO | UNDO

text \<open>\<open>put(log[pos:], v)\<close> for the writers of fixed width.\<close>

definition put_at :: "(bytes \<Rightarrow> 'v \<Rightarrow> bytes) \<Rightarrow> bytes \<Rightarrow> nat \<Rightarrow> 'v \<Rightarrow> bytes" where
  "put_at put log pos v = take pos log @ put (drop pos log) v"

definition isInsertLog :: "bytes \<Rightarrow> bool res" where
  "isInsertLog log = rbind (go_index log 0) (\<lambda>b. Ok (b = LOG_TYPE_INSERT))"

definition UpdateLog :: "XID \<Rightarrow> dataitem \<Rightarrow> page \<Rightarrow> bytes res" where
  "UpdateLog xid di pg =
     (let raw = di_raw di pg;
          log = replicate (1 + LEN_XID + LEN_UUID + length raw * 2) 0;
          pos = 0;
          log = log[pos := LOG_TYPE_UPDATE];
          pos = pos + 1;
          log = put_at PutXID log pos xid;
          pos = pos + LEN_XID;
          log = put_at PutUUID log pos (di_uid di);
          pos = pos + LEN_UUID
      in rbind (copy_at log pos (di_oldraw di)) (\<lambda>log.
         let pos = pos + length (di_oldraw di) in copy_at log pos raw))"

definition parseUpdateLog :: "bytes \<Rightarrow> (XID \<times> Pgno \<times> Offset \<times> bytes \<times> bytes) res" where
  "parseUpdateLog log =
     (let pos = 1 in
      rbind (rbind (go_from log pos) ParseXID) (\<lambda>xid.
      let pos = pos + LEN_XID in
      rbind (rbind (go_from log pos) ParseUUID) (\<lambda>uuid.
      let (pgno, offset) = UUID2Address uuid;
          pos = pos + LEN_UUID;
          len = (length log - pos) div 2 in
      rbind (go_slice log pos (pos + len)) (\<lambda>oldraw.
      rbind (go_slice log (pos + len) (pos + len * 2)) (\<lambda>newraw.
      Ok (xid, pgno, offset, oldraw, newraw))))))"

definition InsertLog :: "XID \<Rightarrow> page \<Rightarrow> bytes \<Rightarrow> bytes res" where
  "InsertLog xid pg raw =
     (let log = replicate (1 + LEN_XID + LEN_PGNO + 2 + length raw) 0;
          pos = 0;
          log = log[pos := LOG_TYPE_INSERT];
          pos = pos + 1;
          log = put_at PutXID log pos xid;
          pos = pos + LEN_XID;
          log = put_at PutPgno log pos (pg_pgno pg);
          pos = pos + LEN_PGNO
      in rbind (PxFSO pg) (\<lambda>fso.
         let log = put_at PutOffset log pos fso; pos = pos + LEN_OFFSET in copy_at log pos raw))"

definition parseInsertLog :: "bytes \<Rightarrow> (XID \<times> Pgno \<times> Offset \<times> bytes) res" where
  "parseInsertLog log =
     (let pos = 1 in
      rbind (rbind (go_from log pos) ParseXID) (\<lambda>xid.
      let pos = pos + LEN_XID in
      rbind (rbind (go_from log pos) ParsePgno) (\<lambda>pgno.
      let pos = pos + LEN_PGNO in
      rbind (rbind (go_from log pos) ParseOffset) (\<lambda>offset.
      let pos = pos + LEN_OFFSET in
      rbind (go_from log pos) (\<lambda>raw. Ok (xid, pgno, offset, raw))))))"

section \<open>Redo, undo and recovery\<close>

text \<open>A call whose error is turned into a \<open>panic\<close> by the caller.\<close>

definition must :: "'a res \<times> 's \<Rightarrow> 'a res \<times> 's" where
  "must m = (case m of (Err _, s) \<Rightarrow> (Panic, s) | _ \<Rightarrow> m)"

definition doUpdateLog :: "bytes \<Rightarrow> rec_flag \<Rightarrow> pcacher \<Rightarrow> unit res \<times> pcacher" where
  "doUpdateLog log flag p =
     sbind (parseUpdateLog log, p) (\<lambda>(_, pgno, offset, oldraw, newraw) p.
     let raw = (case flag of REDO \<Rightarrow> newraw | UNDO \<Rightarrow> oldraw) in
     must (edit_page pgno (\<lambda>pg. rbind (PXRecoverUpdate pg offset raw) (\<lambda>pg. Ok ((), pg))) p))"

definition doInsertLog :: "bytes \<Rightarrow> rec_flag \<Rightarrow> pcacher \<Rightarrow> unit res \<times> pcacher" where
  "doInsertLog log flag p =
     sbind (parseInsertLog log, p) (\<lambda>(_, pgno, offset, raw) p.
     must (edit_page pgno (\<lambda>pg.
       rbind (case flag of REDO \<Rightarrow> Ok raw | UNDO \<Rightarrow> InValidRawDataitem raw) (\<lambda>raw.
       rbind (PXRecoverInsert pg offset raw) (\<lambda>pg. Ok ((), pg)))) p))"

text \<open>\<open>for { log, ok, err := lg.Next(); ... }\<close> with a body working on a state.\<close>

function lg_foreach :: "(bytes \<Rightarrow> 's \<Rightarrow> unit res \<times> 's) \<Rightarrow> logger \<Rightarrow> 's \<Rightarrow> unit res \<times> logger \<times> 's" where
  "lg_foreach body lg s =
     (case lg_Next lg of
        (Err e, lg') \<Rightarrow> (Panic, lg', s) | (Panic, lg') \<Rightarrow> (Panic, lg', s)
      | (Ok None, lg') \<Rightarrow> (Ok (), lg', s)
      | (Ok (Some log), lg') \<Rightarrow>
          (case body log s of
             (Ok _, s') \<Rightarrow> lg_foreach body lg' s'
           | (Err e, s') \<Rightarrow> (Err e, lg', s') | (Panic, s') \<Rightarrow> (Panic, lg', s')))"
  by pat_completeness auto
termination
  by (relation "measure (\<lambda>(_, lg, _). lg_fileSize lg - lg_pos lg)") (auto intro: lg_Next_measure [OF sym])

declare lg_foreach.simps [simp del]

text \<open>The transaction and the page a record belongs to.\<close>

definition log_xid :: "bytes \<Rightarrow> XID res" where
  "log_xid log = rbind (isInsertLog log) (\<lambda>ins.
     if ins then rbind (parseInsertLog log) (\<lambda>(xid, _). Ok xid)
     else rbind (parseUpdateLog log) (\<lambda>(xid, _). Ok xid))"

definition log_pgno :: "bytes \<Rightarrow> Pgno res" where
  "log_pgno log = rbind (isInsertLog log) (\<lambda>ins.
     if ins then rbind (parseInsertLog log) (\<lambda>(_, pgno, _). Ok pgno)
     else rbind (parseUpdateLog log) (\<lambda>(_, pgno, _). Ok pgno))"

definition doLog :: "bytes \<Rightarrow> rec_flag \<Rightarrow> pcacher \<Rightarrow> unit res \<times> pcacher" where
  "doLog log flag p = sbind (isInsertLog log, p) (\<lambda>ins p.
     if ins then doInsertLog log flag p else doUpdateLog log flag p)"

definition redoTransactions :: "transactionManager \<Rightarrow> logger \<Rightarrow> pcacher \<Rightarrow> unit res \<times> logger \<times> pcacher" where
  "redoTransactions t lg p =
     lg_foreach (\<lambda>log p. sbind (log_xid log, p) (\<lambda>xid p.
         if \<not> tm_IsActive t xid then doLog log REDO p else (Ok (), p)))
       (lg_Rewind lg) p"

text \<open>Undo: collect the records per active transaction, then undo each transaction's records backwards and
  abort it, ignoring the outcome of the abort.\<close>

definition collectUndo :: "transactionManager \<Rightarrow> logger \<Rightarrow> unit res \<times> logger \<times> (XID \<Rightarrow> bytes list)" where
  "collectUndo t lg =
     lg_foreach (\<lambda>log lc. sbind (log_xid log, lc) (\<lambda>xid lc.
         (Ok (), if tm_IsActive t xid then lc(xid := lc xid @ [log]) else lc)))
       (lg_Rewind lg) (\<lambda>_. [])"

fun undoLogs :: "bytes list \<Rightarrow> pcacher \<Rightarrow> unit res \<times> pcacher" where
  "undoLogs [] p = (Ok (), p)"
| "undoLogs (log # logs) p = sbind (doLog log UNDO p) (\<lambda>_ p. undoLogs logs p)"

fun undoXIDs :: "(XID \<Rightarrow> bytes list) \<Rightarrow> XID list \<Rightarrow> transactionManager \<Rightarrow> pcacher
    \<Rightarrow> unit res \<times> transactionManager \<times> pcacher" where
  "undoXIDs lc [] t p = (Ok (), t, p)"
| "undoXIDs lc (xid # xids) t p =
     (case undoLogs (rev (lc xid)) p of
        (Ok _, p) \<Rightarrow> undoXIDs lc xids (snd (tm_Abort xid t)) p
      | (Err e, p) \<Rightarrow> (Err e, t, p) | (Panic, p) \<Rightarrow> (Panic, t, p))"

definition undoTransactions :: "XID list \<Rightarrow> transactionManager \<Rightarrow> logger \<Rightarrow> pcacher
    \<Rightarrow> unit res \<times> transactionManager \<times> logger \<times> pcacher" where
  "undoTransactions order t lg p =
     (case collectUndo t lg of
        (Ok _, lg, lc) \<Rightarrow> (case undoXIDs lc order t p of (r, t, p) \<Rightarrow> (r, t, lg, p))
      | (Err e, lg, _) \<Rightarrow> (Err e, t, lg, p) | (Panic, lg, _) \<Rightarrow> (Panic, t, lg, p))"

definition scanMaxPgno :: "logger \<Rightarrow> unit res \<times> logger \<times> Pgno" where
  "scanMaxPgno lg =
     lg_foreach (\<lambda>log maxPgno. sbind (log_pgno log, maxPgno) (\<lambda>pgno maxPgno.
         (Ok (), if maxPgno < pgno then pgno else maxPgno)))
       (lg_Rewind lg) 0"

definition Recovery :: "XID list \<Rightarrow> transactionManager \<Rightarrow> logger \<Rightarrow> pcacher
    \<Rightarrow> unit res \<times> transactionManager \<times> logger \<times> pcacher" where
  "Recovery order t lg p =
     (case scanMaxPgno lg of
        (Ok _, lg, maxPgno) \<Rightarrow>
          let maxPgno = (if maxPgno = 0 then 1 else maxPgno) in
          (case must (TruncateByPgno maxPgno p) of
             (Ok _, p) \<Rightarrow>
               (case redoTransactions t lg p of
                  (Ok _, lg, p) \<Rightarrow> undoTransactions order t lg p
                | (Err e, lg, p) \<Rightarrow> (Err e, t, lg, p) | (Panic, lg, p) \<Rightarrow> (Panic, t, lg, p))
           | (Err e, p) \<Rightarrow> (Err e, t, lg, p) | (Panic, p) \<Rightarrow> (Panic, t, lg, p))
      | (Err e, lg, _) \<Rightarrow> (Err e, t, lg, p) | (Panic, lg, _) \<Rightarrow> (Panic, t, lg, p))"

section \<open>Records as data\<close>

text \<open>The records the data manager writes, as a datatype, and their encoding.\<close>

datatype log_op =
    is_Ins: Ins (op_xid: XID) (op_pgno: Pgno) (op_off: Offset) (ins_raw: bytes)
  | Upd (op_xid: XID) (op_pgno: Pgno) (op_off: Offset) (upd_old: bytes) (upd_new: bytes)

fun enc_op :: "log_op \<Rightarrow> bytes" where
  "enc_op (Ins xid pgno off raw) =
     LOG_TYPE_INSERT # Uint64ToRaw xid @ Uint32ToRaw pgno @ Uint16ToRaw off @ raw"
| "enc_op (Upd xid pgno off oldraw newraw) =
     LOG_TYPE_UPDATE # Uint64ToRaw xid @ Uint64ToRaw (Address2UUID pgno off) @ oldraw @ newraw"

text \<open>The bytes a record stores in its page, forwards and backwards.\<close>

fun op_raw :: "rec_flag \<Rightarrow> log_op \<Rightarrow> bytes" where
  "op_raw REDO (Ins _ _ _ raw) = raw"
| "op_raw UNDO (Ins _ _ _ raw) = raw[0 := 1]"
| "op_raw REDO (Upd _ _ _ _ newraw) = newraw"
| "op_raw UNDO (Upd _ _ _ oldraw _) = oldraw"

definition op_len :: "log_op \<Rightarrow> nat" where
  "op_len op = length (op_raw REDO op)"

text \<open>A well-formed record of a database of \<open>n\<close> pages: it lies behind the header of an existing page, an
  update has images of equal length.\<close>

fun op_ok :: "log_op \<Rightarrow> bool" where
  "op_ok (Ins _ pgno off raw) = (pgno \<noteq> 0 \<and> raw \<noteq> [] \<and> 2 \<le> unat off \<and> unat off + length raw \<le> PAGE_SIZE)"
| "op_ok (Upd _ pgno off oldraw newraw) =
     (pgno \<noteq> 0 \<and> length oldraw = length newraw \<and> 2 \<le> unat off \<and> unat off + length newraw \<le> PAGE_SIZE)"

fun op_write :: "rec_flag \<Rightarrow> log_op \<Rightarrow> bytes \<Rightarrow> bytes" where
  "op_write fl (Ins xid pgno off raw) d = rec_ins d (unat off) (op_raw fl (Ins xid pgno off raw))"
| "op_write fl (Upd xid pgno off a b) d = overwrite d (unat off) (op_raw fl (Upd xid pgno off a b))"

lemmas rec_defs = LEN_XID_def LEN_UUID_def LEN_PGNO_def LEN_OFFSET_def LOG_TYPE_INSERT_def LOG_TYPE_UPDATE_def

lemma drop_enc [simp]:
  "drop 8 (Uint64ToRaw x @ r) = r" "drop 4 (Uint32ToRaw y @ r) = r" "drop 2 (Uint16ToRaw z @ r) = r"
  by simp_all

lemma parse_prefix [simp]:
  "ParseXID (Uint64ToRaw x @ r) = Ok x" "ParseUUID (Uint64ToRaw x @ r) = Ok x"
  "ParsePgno (Uint32ToRaw y @ r) = Ok y" "ParseOffset (Uint16ToRaw z @ r) = Ok z"
  by (simp_all add: ParseXID_def ParseUUID_def ParseUint64_def GetUint64_prefix ParsePgno_def ParseUint32_def
      GetUint32_prefix ParseOffset_def ParseUint16_def GetUint16_prefix)

text \<open>Walking through an encoded record.\<close>

lemma drop_Cons_num: "0 < n \<Longrightarrow> drop n (x # xs) = drop (n - 1) xs"
  by (cases n) auto

lemma parse_enc_Ins: "parseInsertLog (enc_op (Ins xid pgno off raw)) = Ok (xid, pgno, off, raw)"
  by (simp add: parseInsertLog_def rec_defs drop_Cons_num)

lemma parse_enc_Upd:
  "length a = length b \<Longrightarrow> parseUpdateLog (enc_op (Upd xid pgno off a b)) = Ok (xid, pgno, off, a, b)"
  by (simp add: parseUpdateLog_def rec_defs drop_Cons_num go_slice_def)

lemma isInsertLog_enc [simp]:
  "isInsertLog (enc_op (Ins xid pgno off raw)) = Ok True" "isInsertLog (enc_op (Upd xid pgno off a b)) = Ok False"
  by (simp_all add: isInsertLog_def rec_defs)

lemma log_xid_enc: "op_ok op \<Longrightarrow> log_xid (enc_op op) = Ok (op_xid op)"
  by (cases op) (simp_all add: log_xid_def parse_enc_Ins parse_enc_Upd del: enc_op.simps)

lemma log_pgno_enc: "op_ok op \<Longrightarrow> log_pgno (enc_op op) = Ok (op_pgno op)"
  by (cases op) (simp_all add: log_pgno_def parse_enc_Ins parse_enc_Upd del: enc_op.simps)

lemma loggable_enc: "op_ok op \<Longrightarrow> loggable (enc_op op)"
  by (cases op) (auto simp: loggable_def PAGE_SIZE_def)

text \<open>Building a record from left to right.\<close>

lemma put_at_fill:
  assumes "\<And>buf. put buf v = buf_write buf bs" and "length pre = pos" and "length bs \<le> n"
  shows "put_at put (pre @ replicate n 0) pos v = (pre @ bs) @ replicate (n - length bs) 0"
  using assms by (simp add: put_at_def buf_write_def)

lemma put_at_fills:
  "length pre = pos \<Longrightarrow> 8 \<le> n \<Longrightarrow> put_at PutXID (pre @ replicate n 0) pos x = (pre @ Uint64ToRaw x) @ replicate (n - 8) 0"
  "length pre = pos \<Longrightarrow> 8 \<le> n \<Longrightarrow> put_at PutUUID (pre @ replicate n 0) pos x = (pre @ Uint64ToRaw x) @ replicate (n - 8) 0"
  "length pre = pos \<Longrightarrow> 4 \<le> n \<Longrightarrow> put_at PutPgno (pre @ replicate n 0) pos y = (pre @ Uint32ToRaw y) @ replicate (n - 4) 0"
  "length pre = pos \<Longrightarrow> 2 \<le> n \<Longrightarrow> put_at PutOffset (pre @ replicate n 0) pos z = (pre @ Uint16ToRaw z) @ replicate (n - 2) 0"
  using put_at_fill [of PutXID x "Uint64ToRaw x" pre pos n] put_at_fill [of PutUUID x "Uint64ToRaw x" pre pos n]
    put_at_fill [of PutPgno y "Uint32ToRaw y" pre pos n] put_at_fill [of PutOffset z "Uint16ToRaw z" pre pos n]
  by (simp_all add: PutXID_def PutUUID_def PutUint64_def Uint64ToRaw_def PutPgno_def PutUint32_def Uint32ToRaw_def
      PutOffset_def PutUint16_def Uint16ToRaw_def)

lemma copy_at_fill:
  "length pre = pos \<Longrightarrow> length src \<le> n \<Longrightarrow>
     copy_at (pre @ replicate n 0) pos src = Ok ((pre @ src) @ replicate (n - length src) 0)"
  by (simp add: copy_at_def go_copy_fits)

lemma InsertLog_eq:
  assumes "2 \<le> length (pg_data pg)"
  shows "InsertLog xid pg raw = Ok (enc_op (Ins xid (pg_pgno pg) (of_nat (fso (pg_data pg))) raw))"
proof -
  let ?n = "length raw"
  have "(replicate (1 + 8 + 4 + 2 + ?n) 0)[0 := LOG_TYPE_INSERT] = [LOG_TYPE_INSERT] @ replicate (14 + ?n) 0"
    by (simp add: numeral_eq_Suc)
  then show ?thesis
    using assms by (simp add: InsertLog_def LEN_XID_def LEN_UUID_def LEN_PGNO_def LEN_OFFSET_def Let_def put_at_fills copy_at_fill
        PxFSO_def pxRawFSO_eq del: append.simps append_assoc enc_op.simps add_2_eq_Suc add_2_eq_Suc') simp
qed

lemma UpdateLog_eq:
  assumes "length (di_oldraw di) = length (di_raw di pg)" and "di_uid di = Address2UUID pgno off"
  shows "UpdateLog xid di pg = Ok (enc_op (Upd xid pgno off (di_oldraw di) (di_raw di pg)))"
proof -
  let ?n = "length (di_raw di pg)"
  have "(replicate (1 + 8 + 8 + ?n * 2) 0)[0 := LOG_TYPE_UPDATE] = [LOG_TYPE_UPDATE] @ replicate (16 + ?n * 2) 0"
    by (simp add: numeral_eq_Suc)
  then show ?thesis
    using assms by (simp add: UpdateLog_def LEN_XID_def LEN_UUID_def Let_def put_at_fills copy_at_fill
        del: append.simps append_assoc enc_op.simps) simp
qed

section \<open>The effect of one record\<close>

lemma op_raw_length [simp]: "op_ok op \<Longrightarrow> length (op_raw fl op) = op_len op"
  by (cases op; cases fl) (auto simp: op_len_def)

lemma op_okD: "op_ok op \<Longrightarrow> op_pgno op \<noteq> 0" "op_ok op \<Longrightarrow> 2 \<le> unat (op_off op)"
  "op_ok op \<Longrightarrow> unat (op_off op) + op_len op \<le> PAGE_SIZE"
  by (cases op; simp add: op_len_def)+

lemma op_write_length:
  assumes "op_ok op" and "length d = PAGE_SIZE"
  shows "length (op_write fl op d) = PAGE_SIZE"
proof (cases op)
  case (Ins x p off raw)
  then show ?thesis
    using assms rec_ins_facts(1) [of d "unat off" "op_raw fl op"] by (cases fl) auto
next
  case (Upd x p off a b)
  then show ?thesis using assms by (cases fl) auto
qed

lemma op_write_window:
  assumes "op_ok op" and "length d = PAGE_SIZE" and "2 \<le> a"
  shows "window (op_write fl op d) a n = window (overwrite d (unat (op_off op)) (op_raw fl op)) a n"
proof (cases op)
  case (Ins x p off raw)
  then show ?thesis
    using assms rec_ins_facts(3) [of d "unat off" "op_raw fl op" a n] by (cases fl) auto
next
  case (Upd x p off a b)
  then show ?thesis using assms by (cases fl) auto
qed

lemma must_Ok [simp]: "must (Ok x, s) = (Ok x, s)"
  by (simp add: must_def)

lemma edit_page_ok:
  assumes "pc_inv p held" and "in_db p k" and "Suc (size held) < unat (MaxHandles (pc_c p))"
    and "\<And>pg. pg_pgno pg = k \<Longrightarrow> pg_data pg = pc_content p k \<Longrightarrow>
          \<exists>pg'. f pg = Ok (a, pg') \<and> pg_pgno pg' = k \<and> pg_dirty pg' \<and> pg_data pg' = d"
    and "length d = PAGE_SIZE"
  obtains p' where "edit_page k f p = (Ok a, p')" "pc_inv p' held" "noPages p' = noPages p"
    "MaxHandles (pc_c p') = MaxHandles (pc_c p)" "\<And>j. in_db p j \<Longrightarrow> pc_content p' j = (if j = k then d else pc_content p j)"
proof -
  from pcs.edit [of p held k f a d] assms obtain p' where p':
    "edit_page k f p = (Ok a, p')" "pc_inv p' held" "{k. in_db p' k} = {k. in_db p k}"
    "unat (MaxHandles (pc_c p')) = unat (MaxHandles (pc_c p))"
    "\<forall>j\<in>{k. in_db p k}. pc_content p' j = (if j = k then d else pc_content p j)"
    unfolding edit_page_def by auto
  have e: "in_db p' j = in_db p j" for j using p'(3) by (simp add: set_eq_iff)
  have "0 < noPages p" "0 < noPages p'" using assms(2) e [of k] by (auto simp: in_db_def)
  then have "noPages p' = noPages p" using e [of "noPages p"] e [of "noPages p'"] by (simp add: in_db_def)
  then show thesis using that p' by (auto simp: word_unat_eq_iff)
qed

text \<open>Redoing or undoing a record of a page in the database changes that page only, as \<open>op_write\<close> says.\<close>

lemma doLog_ok:
  assumes "pc_inv p held" and "in_db p (op_pgno op)" and "Suc (size held) < unat (MaxHandles (pc_c p))"
    and ok: "op_ok op" and len: "length (pc_content p (op_pgno op)) = PAGE_SIZE"
  obtains p' where "doLog (enc_op op) fl p = (Ok (), p')" "pc_inv p' held" "noPages p' = noPages p"
    "MaxHandles (pc_c p') = MaxHandles (pc_c p)"
    "\<And>j. in_db p j \<Longrightarrow> pc_content p' j = (if j = op_pgno op then op_write fl op (pc_content p j) else pc_content p j)"
proof (cases op)
  case (Ins x k off raw)
  let ?f = "\<lambda>pg. rbind (case fl of REDO \<Rightarrow> Ok raw | UNDO \<Rightarrow> InValidRawDataitem raw) (\<lambda>raw.
       rbind (PXRecoverInsert pg off raw) (\<lambda>pg. Ok ((), pg)))"
  have r: "(case fl of REDO \<Rightarrow> Ok raw | UNDO \<Rightarrow> InValidRawDataitem raw) = Ok (op_raw fl op)"
    using ok Ins by (cases fl) (auto simp: InValidRawDataitem_def set_at_def di_defs)
  have "\<exists>pg'. ?f pg = Ok ((), pg') \<and> pg_pgno pg' = k \<and> pg_dirty pg' \<and> pg_data pg' = op_write fl op (pc_content p k)"
    if "pg_pgno pg = k" "pg_data pg = pc_content p k" for pg :: page
    using that ok len Ins op_okD [OF ok] op_raw_length [OF ok, of fl] by (simp only: r) (simp add: PXRecoverInsert_eq)
  from edit_page_ok [of p held k ?f "()", OF assms(1) _ assms(3) this] Ins assms(2) op_write_length [OF ok len]
  obtain p' where p': "edit_page k ?f p = (Ok (), p')" "pc_inv p' held" "noPages p' = noPages p"
    "MaxHandles (pc_c p') = MaxHandles (pc_c p)"
    "\<And>j. in_db p j \<Longrightarrow> pc_content p' j = (if j = k then op_write fl op (pc_content p k) else pc_content p j)" by auto
  have "doLog (enc_op op) fl p = must (edit_page k ?f p)"
    unfolding doLog_def doInsertLog_def Ins isInsertLog_enc parse_enc_Ins by (simp del: enc_op.simps)
  then show thesis using that [of p'] p' Ins by simp
next
  case (Upd x k off a b)
  let ?f = "\<lambda>pg. rbind (PXRecoverUpdate pg off (case fl of REDO \<Rightarrow> b | UNDO \<Rightarrow> a)) (\<lambda>pg. Ok ((), pg))"
  have r: "(case fl of REDO \<Rightarrow> b | UNDO \<Rightarrow> a) = op_raw fl op" "length a = length b" using Upd ok by (cases fl; simp)+
  have "\<exists>pg'. ?f pg = Ok ((), pg') \<and> pg_pgno pg' = k \<and> pg_dirty pg' \<and> pg_data pg' = op_write fl op (pc_content p k)"
    if "pg_pgno pg = k" "pg_data pg = pc_content p k" for pg :: page
    using that ok len Upd by (cases fl) (auto simp: PXRecoverUpdate_eq)
  from edit_page_ok [of p held k ?f "()", OF assms(1) _ assms(3) this] Upd assms(2) op_write_length [OF ok len]
  obtain p' where p': "edit_page k ?f p = (Ok (), p')" "pc_inv p' held" "noPages p' = noPages p"
    "MaxHandles (pc_c p') = MaxHandles (pc_c p)"
    "\<And>j. in_db p j \<Longrightarrow> pc_content p' j = (if j = k then op_write fl op (pc_content p k) else pc_content p j)" by auto
  have "doLog (enc_op op) fl p = must (edit_page k ?f p)"
    unfolding doLog_def doUpdateLog_def Upd isInsertLog_enc parse_enc_Upd [OF r(2)] by (simp del: enc_op.simps)
  then show thesis using that [of p'] p' Upd by simp
qed

lemma pc_content_length:
  assumes "pc_inv p held" and "in_db p k"
  shows "length (pc_content p k) = PAGE_SIZE"
proof (cases "cache (pc_c p) (Pgno2UUID k)")
  case None
  then show ?thesis using disk_page_length [OF assms] by (simp add: pc_content_def)
next
  case (Some pg)
  then have "cached_ok p (Pgno2UUID k) pg" using assms(1) by (simp add: pc_inv_def)
  then show ?thesis using Some by (simp add: pc_content_def cached_ok_def)
qed

section \<open>Sequences of records\<close>

fun doLogs :: "(rec_flag \<times> log_op) list \<Rightarrow> pcacher \<Rightarrow> unit res \<times> pcacher" where
  "doLogs [] p = (Ok (), p)"
| "doLogs ((fl, op) # ws) p = sbind (doLog (enc_op op) fl p) (\<lambda>_ p. doLogs ws p)"

text \<open>What a sequence of records makes of page \<open>k\<close>.\<close>

definition page_run :: "(rec_flag \<times> log_op) list \<Rightarrow> Pgno \<Rightarrow> bytes \<Rightarrow> bytes" where
  "page_run ws k d = fold (\<lambda>(fl, op) d. if op_pgno op = k then op_write fl op d else d) ws d"

lemma page_run_simps [simp]:
  "page_run [] k d = d"
  "page_run ((fl, op) # ws) k d = page_run ws k (if op_pgno op = k then op_write fl op d else d)"
  "page_run (us @ ws) k d = page_run ws k (page_run us k d)"
  by (simp_all add: page_run_def)

definition ops_fit :: "pcacher \<Rightarrow> log_op list \<Rightarrow> bool" where
  "ops_fit p ops \<longleftrightarrow> (\<forall>op \<in> set ops. op_ok op \<and> in_db p (op_pgno op))"

lemma doLogs_append: "doLogs (us @ ws) p = sbind (doLogs us p) (\<lambda>_ p. doLogs ws p)"
  by (induction us p rule: doLogs.induct) (auto simp: sbind_def split: prod.splits res.splits)

lemma doLogs_ok:
  assumes "pc_inv p held" and "ops_fit p (map snd ws)" and "Suc (size held) < unat (MaxHandles (pc_c p))"
  shows "\<exists>p'. doLogs ws p = (Ok (), p') \<and> pc_inv p' held \<and> noPages p' = noPages p \<and>
    MaxHandles (pc_c p') = MaxHandles (pc_c p) \<and> (\<forall>j. in_db p j \<longrightarrow> pc_content p' j = page_run ws j (pc_content p j))"
  using assms
proof (induction ws arbitrary: p)
  case Nil
  then show ?case by simp
next
  case (Cons w ws)
  obtain fl op where w: "w = (fl, op)" by force
  from Cons.prems(2) w have ok: "op_ok op" "in_db p (op_pgno op)" by (simp_all add: ops_fit_def)
  obtain p1 where p1: "doLog (enc_op op) fl p = (Ok (), p1)" "pc_inv p1 held" "noPages p1 = noPages p"
    "MaxHandles (pc_c p1) = MaxHandles (pc_c p)"
    "\<And>j. in_db p j \<Longrightarrow> pc_content p1 j = (if j = op_pgno op then op_write fl op (pc_content p j) else pc_content p j)"
    using doLog_ok [OF Cons.prems(1) ok(2) Cons.prems(3) ok(1) pc_content_length [OF Cons.prems(1) ok(2)]] by blast
  have d: "in_db p1 j = in_db p j" for j using p1(3) by (simp add: in_db_def)
  from Cons.IH [OF p1(2)] Cons.prems(2,3) p1(4) w obtain p' where p': "doLogs ws p1 = (Ok (), p')" "pc_inv p' held"
    "noPages p' = noPages p1" "MaxHandles (pc_c p') = MaxHandles (pc_c p1)"
    "\<forall>j. in_db p1 j \<longrightarrow> pc_content p' j = page_run ws j (pc_content p1 j)"
    by (auto simp: ops_fit_def d)
  then show ?case using w p1 d by auto
qed

text \<open>A loop over the log, as a loop over its records.\<close>

fun foreach :: "('a \<Rightarrow> 's \<Rightarrow> unit res \<times> 's) \<Rightarrow> 'a list \<Rightarrow> 's \<Rightarrow> unit res \<times> 's" where
  "foreach body [] s = (Ok (), s)"
| "foreach body (x # xs) s = sbind (body x s) (\<lambda>_ s. foreach body xs s)"

lemma lg_foreach_image:
  assumes "fdata (lg_file lg) = pre @ log_image ds" and "lg_pos lg = length pre"
    and "lg_fileSize lg = length (fdata (lg_file lg))" and "\<forall>d \<in> set ds. loggable d"
    and "foreach body ds s = (Ok (), s')"
  shows "lg_foreach body lg s = (Ok (), lg\<lparr>lg_pos := lg_fileSize lg\<rparr>, s')"
  using assms
proof (induction ds arbitrary: pre lg s)
  case Nil
  then show ?case
    by (subst lg_foreach.simps) (simp add: lg_Next_def lg_next_def log_defs)
next
  case (Cons d ds)
  let ?lg = "lg\<lparr>lg_pos := length pre + length (warpLog d)\<rparr>"
  have n: "lg_next lg = (Ok (Some (warpLog d)), ?lg)"
    using Cons.prems by (intro lg_next_record [of lg pre d "log_image ds"]) simp_all
  have N: "lg_Next lg = (Ok (Some d), ?lg)" by (simp add: lg_Next_def n log_defs warpLog_eq)
  obtain s1 where s1: "body d s = (Ok (), s1)" "foreach body ds s1 = (Ok (), s')"
    using Cons.prems(5) by (auto simp: sbind_eq_Ok)
  have "lg_foreach body ?lg s1 = (Ok (), ?lg\<lparr>lg_pos := lg_fileSize ?lg\<rparr>, s')"
    by (rule Cons.IH [of ?lg "pre @ warpLog d"]) (use Cons.prems s1 in simp_all)
  then show ?case by (subst lg_foreach.simps) (simp add: N s1)
qed

text \<open>If the logger believes the file to be longer than it is, the loop fails behind the last record.\<close>

lemma lg_foreach_stale:
  assumes "foreach body ds s = (Ok (), s')" and "fdata (lg_file lg) = pre @ log_image ds" and "lg_pos lg = length pre"
    and "length (fdata (lg_file lg)) + 8 < lg_fileSize lg" and "\<forall>d \<in> set ds. loggable d"
  shows "fst (lg_foreach body lg s) = Panic"
  using assms
proof (induction ds arbitrary: pre lg s)
  case Nil
  then show ?case
    by (subst lg_foreach.simps) (simp add: lg_Next_def lg_next_def log_defs ReadAt_def)
next
  case (Cons d ds)
  let ?lg = "lg\<lparr>lg_pos := length pre + length (warpLog d)\<rparr>"
  have n: "lg_next lg = (Ok (Some (warpLog d)), ?lg)"
    using Cons.prems by (intro lg_next_record [of lg pre d "log_image ds"]) simp_all
  have N: "lg_Next lg = (Ok (Some d), ?lg)" by (simp add: lg_Next_def n log_defs warpLog_eq)
  obtain s1 where s1: "body d s = (Ok (), s1)" "foreach body ds s1 = (Ok (), s')"
    using Cons.prems(1) by (auto simp: sbind_eq_Ok)
  have "fst (lg_foreach body ?lg s1) = Panic"
    by (rule Cons.IH [of _ _ "pre @ warpLog d"]) (use Cons.prems s1 in simp_all)
  then show ?case by (subst lg_foreach.simps) (simp add: N s1)
qed

text \<open>A logger opened on the records \<open>ds\<close>, with nothing behind them.\<close>

definition lg_opened :: "bytes list \<Rightarrow> logger \<Rightarrow> bool" where
  "lg_opened ds lg \<longleftrightarrow> lg_holds ds lg \<and> lg_fileSize lg = length (fdata (lg_file lg))"

lemma lg_foreach_opened:
  assumes "lg_opened ds lg" and "foreach body ds s = (Ok (), s')"
  shows "lg_foreach body (lg_Rewind lg) s = (Ok (), lg\<lparr>lg_pos := lg_fileSize lg\<rparr>, s')"
  using lg_foreach_image [of "lg_Rewind lg" "Uint32ToRaw (xChecksum lg)" ds body s s'] assms
  by (simp add: lg_opened_def lg_holds_def lg_Rewind_def)

lemma lg_opened_pos [simp]: "lg_opened ds (lg\<lparr>lg_pos := k\<rparr>) = lg_opened ds lg"
  by (simp add: lg_opened_def lg_holds_def)

section \<open>The phases of recovery\<close>

definition redo_ws :: "transactionManager \<Rightarrow> log_op list \<Rightarrow> (rec_flag \<times> log_op) list" where
  "redo_ws t ops = map (Pair REDO) (filter (\<lambda>op. \<not> tm_IsActive t (op_xid op)) ops)"

definition undo_ws :: "XID list \<Rightarrow> log_op list \<Rightarrow> (rec_flag \<times> log_op) list" where
  "undo_ws order ops = concat (map (\<lambda>x. map (Pair UNDO) (rev (filter (\<lambda>op. op_xid op = x) ops))) order)"

definition max_pgno :: "log_op list \<Rightarrow> Pgno" where
  "max_pgno ops = fold (\<lambda>op m. if m < op_pgno op then op_pgno op else m) ops 0"

lemma foreach_redo:
  "\<forall>op \<in> set ops. op_ok op \<Longrightarrow>
   foreach (\<lambda>log p. sbind (log_xid log, p) (\<lambda>xid p. if \<not> tm_IsActive t xid then doLog log REDO p else (Ok (), p)))
     (map enc_op ops) p = doLogs (redo_ws t ops) p"
  by (induction ops arbitrary: p) (auto simp: log_xid_enc redo_ws_def intro!: sbind_cong)

lemma foreach_collect:
  "\<forall>op \<in> set ops. op_ok op \<Longrightarrow>
   foreach (\<lambda>log lc. sbind (log_xid log, lc) (\<lambda>xid lc. (Ok (), if tm_IsActive t xid then lc(xid := lc xid @ [log]) else lc)))
     (map enc_op ops) lc =
   (Ok (), \<lambda>x. lc x @ (if tm_IsActive t x then map enc_op (filter (\<lambda>op. op_xid op = x) ops) else []))"
  by (induction ops arbitrary: lc) (auto simp: log_xid_enc fun_eq_iff)

lemma foreach_scan:
  "\<forall>op \<in> set ops. op_ok op \<Longrightarrow>
   foreach (\<lambda>log m. sbind (log_pgno log, m) (\<lambda>pgno m. (Ok (), if m < pgno then pgno else m))) (map enc_op ops) m =
   (Ok (), fold (\<lambda>op m. if m < op_pgno op then op_pgno op else m) ops m)"
  by (induction ops arbitrary: m) (auto simp: log_pgno_enc)

lemma max_pgno_fold: "m \<le> fold (\<lambda>op m. if m < op_pgno op then op_pgno op else m) ops m \<and>
   (\<forall>op \<in> set ops. op_pgno op \<le> fold (\<lambda>op m. if m < op_pgno op then op_pgno op else m) ops m)"
proof (induction ops arbitrary: m)
  case Nil
  then show ?case by simp
next
  case (Cons a ops)
  let ?m = "if m < op_pgno a then op_pgno a else m"
  have "m \<le> ?m" "op_pgno a \<le> ?m" by auto
  then show ?case using Cons [of ?m] by (auto intro: order.trans)
qed

lemma max_pgno_ge: "op \<in> set ops \<Longrightarrow> op_pgno op \<le> max_pgno ops"
  using max_pgno_fold [of 0 ops] by (simp add: max_pgno_def)

lemma undoLogs_eq: "undoLogs (map enc_op ops) p = doLogs (map (Pair UNDO) ops) p"
  by (induction ops arbitrary: p) (auto intro!: sbind_cong)

lemma undoXIDs_ok:
  assumes "\<forall>x \<in> set order. lc x = map enc_op (filter (\<lambda>op. op_xid op = x) ops)"
    and "doLogs (undo_ws order ops) p = (Ok (), p')"
  shows "undoXIDs lc order t p = (Ok (), fold (\<lambda>x t. snd (tm_Abort x t)) order t, p')"
  using assms
proof (induction order arbitrary: t p)
  case Nil
  then show ?case by (simp add: undo_ws_def)
next
  case (Cons x order)
  then obtain p1 where p1: "doLogs (map (Pair UNDO) (rev (filter (\<lambda>op. op_xid op = x) ops))) p = (Ok (), p1)"
    "doLogs (undo_ws order ops) p1 = (Ok (), p')" by (auto simp: undo_ws_def doLogs_append sbind_eq_Ok)
  have "undoLogs (rev (lc x)) p = (Ok (), p1)" using Cons.prems(1) p1(1) undoLogs_eq by (simp add: rev_map)
  then show ?case using Cons.IH [OF _ p1(2)] Cons.prems(1) by simp
qed

text \<open>Aborting known transactions one after the other.\<close>

lemma abort_all:
  assumes "tm_inv t" and "\<forall>x \<in> set order. known_xid t x"
  shows "tm_inv (fold (\<lambda>x t. snd (tm_Abort x t)) order t) \<and>
    xidCounter (fold (\<lambda>x t. snd (tm_Abort x t)) order t) = xidCounter t \<and>
    (\<forall>y. known_xid t y \<longrightarrow> statuses (fold (\<lambda>x t. snd (tm_Abort x t)) order t) ! (unat y - 1) =
       (if y \<in> set order then FIELD_TRAN_ABORTED else statuses t ! (unat y - 1)))"
  using assms
proof (induction order arbitrary: t)
  case Nil
  then show ?case by simp
next
  case (Cons x order)
  obtain t1 where t1: "updateXID x FIELD_TRAN_ABORTED t = (Ok (), t1)" "tm_inv t1" "xidCounter t1 = xidCounter t"
    "statuses t1 = (statuses t)[unat x - 1 := FIELD_TRAN_ABORTED]"
    using updateXID_known [OF Cons.prems(1)] Cons.prems(2) by (metis list.set_intros(1))
  have k: "known_xid t1 y = known_xid t y" for y using t1(3) by (simp add: known_xid_def)
  have x: "known_xid t x" using Cons.prems(2) by simp
  have st: "statuses t1 ! (unat y - 1) = (if y = x then FIELD_TRAN_ABORTED else statuses t ! (unat y - 1))" if "known_xid t y" for y
  proof (cases "y = x")
    case True
    have "unat x - 1 < length (statuses t)" using x Cons.prems(1) by (auto simp: statuses_def tm_inv_def known_xid_def)
    then show ?thesis using True t1(4) by simp
  next
    case False
    then have "unat y - 1 \<noteq> unat x - 1" using that x by (auto simp: known_xid_def word_unat_eq_iff)
    then show ?thesis using False t1(4) by simp
  qed
  show ?case using Cons.IH [OF t1(2)] Cons.prems(2) t1(1,3) k st by (auto simp: tm_Abort_def)
qed

text \<open>Resizing the file while at most page 1 is held keeps the remaining pages; new pages are zero.\<close>

definition resized :: "pcacher \<Rightarrow> Pgno \<Rightarrow> bytes" where
  "resized p k = (if in_db p k then pc_content p k else replicate PAGE_SIZE 0)"

lemma TruncateByPgno_ok:
  assumes inv: "pc_inv p held" and h: "set_mset held \<subseteq> {Pgno2UUID 1}" and m: "0 < m"
  obtains p' where "TruncateByPgno m p = (Ok (), p')" "pc_inv p' held" "noPages p' = m"
    "MaxHandles (pc_c p') = MaxHandles (pc_c p)" "\<And>j. in_db p' j \<Longrightarrow> pc_content p' j = resized p j"
proof -
  let ?n = "unat m * PAGE_SIZE" and ?x = "fdata (pc_file p)"
  let ?y = "take ?n ?x @ replicate (?n - length ?x) 0"
  let ?p = "p\<lparr>pc_file := (pc_file p)\<lparr>fdata := ?y\<rparr>, noPages := m\<rparr>"
  have f: "ffault (pc_file p) = []" "length ?x = unat (noPages p) * PAGE_SIZE" using inv by (simp_all add: pc_inv_def)
  have "nat (pageOffset (m + 1)) = ?n" by (simp add: pageOffset_def nat_mult_distrib)
  then have e: "TruncateByPgno m p = (Ok (), ?p)" using f by (simp add: TruncateByPgno_def Truncate_def)
  have d: "disk_page ?p j = (if in_db p j then disk_page p j else replicate PAGE_SIZE 0)" if "in_db ?p j" for j
  proof -
    have i: "nat (pageOffset j) + PAGE_SIZE \<le> ?n" using page_inside [OF that] by simp
    show ?thesis
    proof (cases "in_db p j")
      case True
      have "nat (pageOffset j) + PAGE_SIZE \<le> length ?x" using page_inside [OF True] f by simp
      then show ?thesis using True i by (simp add: disk_page_def window_append window_def min_def drop_take)
    next
      case False
      then have "unat (noPages p) \<le> unat j - 1" using that by (auto simp: in_db_def word_le_nat_alt word_less_nat_alt)
      then have "length ?x \<le> nat (pageOffset j)" using f that by (auto simp: pageOffset_nat in_db_def)
      moreover have "PAGE_SIZE \<le> ?n - nat (pageOffset j)" using i by linarith
      ultimately show ?thesis using False i by (simp add: disk_page_def window_append window_def min_def)
    qed
  qed
  have one: "in_db ?p 1" using m by (simp add: in_db_def word_less_nat_alt word_le_nat_alt Suc_leI)
  have c: "cached_ok ?p uid pg" if q: "cache (pc_c p) uid = Some pg" for uid pg
  proof -
    have "uid \<in># held" using inv q by (auto simp: pc_inv_def cacher_inv_def)
    then have u: "uid = Pgno2UUID 1" using h by auto
    have k: "cached_ok p uid pg" using inv q by (simp add: pc_inv_def)
    then have "pg_pgno pg = 1" using u by (simp add: cached_ok_def)
    then show ?thesis using k one d [OF one] by (simp add: cached_ok_def)
  qed
  have i: "pc_inv ?p held" using inv c f by (simp add: pc_inv_def)
  have "pc_content ?p j = resized p j" if "in_db ?p j" for j
  proof (cases "cache (pc_c p) (Pgno2UUID j)")
    case None
    then show ?thesis using d [OF that] by (simp add: pc_content_def resized_def)
  next
    case (Some pg)
    then have "cached_ok p (Pgno2UUID j) pg" using inv by (simp add: pc_inv_def)
    then have "in_db p j" by (simp add: cached_ok_def)
    then show ?thesis using Some by (simp add: pc_content_def resized_def)
  qed
  with that [OF e i] show thesis by simp
qed

text \<open>The situation recovery starts from: the log holds the records \<open>ops\<close>, every record is well formed and of the super
  transaction or a transaction the manager knows, at most page 1 is in use, and \<open>order\<close> lists the unfinished
  transactions of the log.\<close>

definition rec_start :: "XID list \<Rightarrow> log_op list \<Rightarrow> transactionManager \<Rightarrow> logger \<Rightarrow> pcacher \<Rightarrow> UUID multiset \<Rightarrow> bool" where
  "rec_start order ops t lg p held \<longleftrightarrow>
     lg_opened (map enc_op ops) lg \<and> tm_inv t \<and> pc_inv p held \<and> set_mset held \<subseteq> {Pgno2UUID 1} \<and>
     Suc (size held) < unat (MaxHandles (pc_c p)) \<and>
     (\<forall>op \<in> set ops. op_ok op \<and> (op_xid op = SUPER_XID \<or> known_xid t (op_xid op))) \<and>
     distinct order \<and> set order = {x \<in> op_xid ` set ops. tm_IsActive t x}"

definition rec_ws :: "XID list \<Rightarrow> transactionManager \<Rightarrow> log_op list \<Rightarrow> (rec_flag \<times> log_op) list" where
  "rec_ws order t ops = redo_ws t ops @ undo_ws order ops"

definition rec_pages :: "log_op list \<Rightarrow> Pgno" where
  "rec_pages ops = (if max_pgno ops = 0 then 1 else max_pgno ops)"

text \<open>Recovery terminates normally, and its effect is the redo records in log order followed by the undo records.\<close>

lemma Recovery_run:
  assumes st: "rec_start order ops t lg p held"
  obtains t' lg' p' where "Recovery order t lg p = (Ok (), t', lg', p')" "pc_inv p' held" "noPages p' = rec_pages ops"
    "\<And>j. in_db p' j \<Longrightarrow> pc_content p' j = page_run (rec_ws order t ops) j (resized p j)"
    "tm_inv t'" "xidCounter t' = xidCounter t"
    "\<And>y. known_xid t y \<Longrightarrow> statuses t' ! (unat y - 1) = (if y \<in> set order then FIELD_TRAN_ABORTED else statuses t ! (unat y - 1))"
proof -
  note s = st [unfolded rec_start_def]
  have ok: "\<forall>op \<in> set ops. op_ok op" and lo: "lg_opened (map enc_op ops) lg" using s by auto
  let ?m = "rec_pages ops"
  let ?lg = "lg\<lparr>lg_pos := lg_fileSize lg\<rparr>"
  have lo': "lg_opened (map enc_op ops) ?lg" using lo by simp
  have scan: "scanMaxPgno lg = (Ok (), ?lg, max_pgno ops)"
    using lg_foreach_opened [OF lo foreach_scan [OF ok]] by (simp add: scanMaxPgno_def max_pgno_def)
  have "0 < ?m" by (auto simp: rec_pages_def word_greater_zero_iff)
  with s obtain p1 where p1: "TruncateByPgno ?m p = (Ok (), p1)" "pc_inv p1 held" "noPages p1 = ?m"
    "MaxHandles (pc_c p1) = MaxHandles (pc_c p)" "\<And>j. in_db p1 j \<Longrightarrow> pc_content p1 j = resized p j"
    using TruncateByPgno_ok [of p held ?m] by blast
  have fit: "in_db p1 (op_pgno op)" if "op \<in> set ops" for op
  proof -
    have "op_pgno op \<noteq> 0" using ok that op_okD(1) by blast
    then show ?thesis using max_pgno_ge [OF that] p1(3) by (auto simp: in_db_def rec_pages_def word_greater_zero_iff)
  qed
  have f1: "ops_fit p1 (map snd (rec_ws order t ops))"
    using ok fit by (auto simp: ops_fit_def rec_ws_def redo_ws_def undo_ws_def)
  obtain p2 where p2: "doLogs (rec_ws order t ops) p1 = (Ok (), p2)" "pc_inv p2 held" "noPages p2 = noPages p1"
    "\<forall>j. in_db p1 j \<longrightarrow> pc_content p2 j = page_run (rec_ws order t ops) j (pc_content p1 j)"
    using doLogs_ok [OF p1(2) f1] s p1(4) by auto
  then obtain pr where pr: "doLogs (redo_ws t ops) p1 = (Ok (), pr)" "doLogs (undo_ws order ops) pr = (Ok (), p2)"
    by (auto simp: rec_ws_def doLogs_append sbind_eq_Ok)
  have redo: "redoTransactions t ?lg p1 = (Ok (), ?lg, pr)"
    using lg_foreach_opened [OF lo', of _ p1 pr] foreach_redo [OF ok, of t p1] pr(1) by (simp add: redoTransactions_def)
  let ?lc = "\<lambda>x. if tm_IsActive t x then map enc_op (filter (\<lambda>op. op_xid op = x) ops) else []"
  have coll: "collectUndo t ?lg = (Ok (), ?lg, ?lc)"
    using lg_foreach_opened [OF lo' foreach_collect [OF ok]] by (simp add: collectUndo_def)
  have "undoXIDs ?lc order t pr = (Ok (), fold (\<lambda>x t. snd (tm_Abort x t)) order t, p2)"
    by (rule undoXIDs_ok [OF _ pr(2)]) (use s in auto)
  then have r: "Recovery order t lg p = (Ok (), fold (\<lambda>x t. snd (tm_Abort x t)) order t, ?lg, p2)"
    using p1(1) by (simp add: Recovery_def scan rec_pages_def redo undoTransactions_def coll del: undoXIDs.simps)
  have "\<forall>x \<in> set order. known_xid t x" using s by (auto simp: tm_IsActive_def)
  from abort_all [OF _ this] s have "tm_inv (fold (\<lambda>x t. snd (tm_Abort x t)) order t)"
    "xidCounter (fold (\<lambda>x t. snd (tm_Abort x t)) order t) = xidCounter t"
    "\<And>y. known_xid t y \<Longrightarrow> statuses (fold (\<lambda>x t. snd (tm_Abort x t)) order t) ! (unat y - 1) =
       (if y \<in> set order then FIELD_TRAN_ABORTED else statuses t ! (unat y - 1))" by auto
  moreover have "pc_content p2 j = page_run (rec_ws order t ops) j (resized p j)" if "in_db p2 j" for j
  proof -
    have "in_db p1 j" using that p2(3) by (simp add: in_db_def)
    then show ?thesis using p2(4) p1(5) by simp
  qed
  ultimately show thesis using that [OF r p2(2)] p2(3) p1(3) by metis
qed

section \<open>Items and free space\<close>

text \<open>Two records concern the same item or separate parts of their pages.\<close>

definition same_item :: "log_op \<Rightarrow> log_op \<Rightarrow> bool" where
  "same_item a b \<longleftrightarrow> op_pgno a = op_pgno b \<and> op_off a = op_off b \<and> op_len a = op_len b"

definition items_apart :: "log_op list \<Rightarrow> bool" where
  "items_apart ops \<longleftrightarrow> (\<forall>a \<in> set ops. \<forall>b \<in> set ops. op_pgno a = op_pgno b \<longrightarrow> same_item a b \<or>
     unat (op_off a) + op_len a \<le> unat (op_off b) \<or> unat (op_off b) + op_len b \<le> unat (op_off a))"

definition item_of :: "log_op \<Rightarrow> bytes \<Rightarrow> bytes" where
  "item_of op d = window d (unat (op_off op)) (op_len op)"

lemma page_run_length:
  assumes "\<forall>w \<in> set ws. op_ok (snd w)" and "length d = PAGE_SIZE"
  shows "length (page_run ws k d) = PAGE_SIZE"
  using assms
proof (induction ws arbitrary: d)
  case Nil then show ?case by simp
next
  case (Cons w ws)
  obtain fl op where w: "w = (fl, op)" by force
  have "length (if op_pgno op = k then op_write fl op d else d) = PAGE_SIZE"
    using Cons.prems w op_write_length by auto
  then show ?case using Cons.IH Cons.prems(1) w by simp
qed

text \<open>The last record of an item decides what the item holds.\<close>

lemma page_run_item:
  assumes ap: "items_apart (map snd ws)" and op: "op \<in> snd ` set ws" and ok: "\<forall>w \<in> set ws. op_ok (snd w)"
    and d: "length d = PAGE_SIZE" and us: "set us \<subseteq> set ws"
  shows "item_of op (page_run us (op_pgno op) d) =
    (let hs = filter (\<lambda>w. same_item op (snd w)) us in
     if hs = [] then item_of op d else op_raw (fst (last hs)) (snd (last hs)))"
  using us
proof (induction us rule: rev_induct)
  case Nil
  then show ?case by simp
next
  case (snoc w us)
  obtain fl b where w: "w = (fl, b)" by force
  let ?k = "op_pgno op"
  let ?e = "page_run us ?k d"
  have bok: "op_ok b" using ok snoc.prems w by auto
  have opok: "op_ok op" using ok op by auto
  have "\<forall>w \<in> set us. op_ok (snd w)" using snoc.prems ok by auto
  then have e: "length ?e = PAGE_SIZE" using d by (rule page_run_length)
  have ow: "item_of op (op_write fl b ?e) = window (overwrite ?e (unat (op_off b)) (op_raw fl b)) (unat (op_off op)) (op_len op)"
    using op_write_window [OF bok e op_okD(2) [OF opok]] by (simp add: item_of_def)
  have fits: "unat (op_off b) + length (op_raw fl b) \<le> length ?e" using op_okD(3) [OF bok] bok e by simp
  consider "op_pgno b \<noteq> ?k" | "op_pgno b = ?k" "same_item op b"
    | "op_pgno b = ?k" "\<not> same_item op b" by blast
  then show ?case
  proof cases
    case 1
    then have "\<not> same_item op b" by (simp add: same_item_def)
    then show ?thesis using 1 snoc w by simp
  next
    case 2
    have "item_of op (op_write fl b ?e) = op_raw fl b"
      using ow window_same [OF fits] 2(2) bok by (simp add: same_item_def)
    then show ?thesis using 2 w by simp
  next
    case 3
    have "b \<in> snd ` set ws" using snoc.prems w by force
    then have "unat (op_off op) + op_len op \<le> unat (op_off b) \<or> unat (op_off b) + op_len b \<le> unat (op_off op)"
      using ap op 3 unfolding items_apart_def set_map by metis
    then have "item_of op (op_write fl b ?e) = item_of op ?e"
      using ow window_disjoint [OF fits] bok by (simp add: item_of_def)
    then show ?thesis using 3 snoc w by simp
  qed
qed

lemma op_write_fso:
  assumes "op_ok op" and "length d = PAGE_SIZE" and "page_ok d"
  shows "page_ok (op_write fl op d)" and "fso d \<le> fso (op_write fl op d)"
    and "is_Ins op \<Longrightarrow> unat (op_off op) + op_len op \<le> fso (op_write fl op d)"
proof -
  have pok: "page_ok (op_write fl op d) \<and> fso d \<le> fso (op_write fl op d) \<and>
    (is_Ins op \<longrightarrow> unat (op_off op) + op_len op \<le> fso (op_write fl op d))"
  proof (cases op)
    case (Ins x k off raw)
    have b: "2 \<le> unat off" "unat off + length (op_raw fl op) \<le> PAGE_SIZE" "length (op_raw fl op) = op_len op"
      using assms(1) op_okD [OF assms(1)] Ins by simp_all
    show ?thesis using rec_ins_facts(1,2) [OF assms(2) b(1,2)] b assms(3) Ins by (simp add: page_ok_def)
  next
    case (Upd x k off a b)
    have "fso (op_write fl op d) = fso d"
      using fso_overwrite [of "unat off" "op_raw fl op" d] assms(1,2) op_okD [OF assms(1)] Upd by simp
    then show ?thesis using op_write_length [OF assms(1,2), of fl] assms(3) Upd by (simp add: page_ok_def)
  qed
  then show "page_ok (op_write fl op d)" and "fso d \<le> fso (op_write fl op d)"
    and "is_Ins op \<Longrightarrow> unat (op_off op) + op_len op \<le> fso (op_write fl op d)" by blast+
qed

lemma page_run_fso:
  assumes "\<forall>w \<in> set ws. op_ok (snd w)" and "page_ok d"
  shows "page_ok (page_run ws k d) \<and> fso d \<le> fso (page_run ws k d) \<and>
    (\<forall>w \<in> set ws. is_Ins (snd w) \<and> op_pgno (snd w) = k \<longrightarrow>
       unat (op_off (snd w)) + op_len (snd w) \<le> fso (page_run ws k d))"
  using assms
proof (induction ws arbitrary: d)
  case Nil then show ?case by simp
next
  case (Cons w ws)
  obtain fl op where w: "w = (fl, op)" by force
  let ?d = "if op_pgno op = k then op_write fl op d else d"
  have l: "length d = PAGE_SIZE" using Cons.prems by (simp add: page_ok_def)
  have "page_ok ?d" "fso d \<le> fso ?d"
    "is_Ins op \<and> op_pgno op = k \<Longrightarrow> unat (op_off op) + op_len op \<le> fso ?d"
    using op_write_fso [of op d fl] Cons.prems w l by auto
  then show ?case using Cons.IH [of ?d] Cons.prems(1) w by (auto intro: order.trans)
qed

lemma op_in_rec_ws:
  assumes "set order = {x \<in> op_xid ` set ops. tm_IsActive t x}"
  shows "snd ` set (rec_ws order t ops) = set ops"
proof
  show "snd ` set (rec_ws order t ops) \<subseteq> set ops" by (auto simp: rec_ws_def redo_ws_def undo_ws_def)
  show "set ops \<subseteq> snd ` set (rec_ws order t ops)"
  proof
    fix op assume op: "op \<in> set ops"
    show "op \<in> snd ` set (rec_ws order t ops)"
    proof (cases "tm_IsActive t (op_xid op)")
      case True
      then have "(UNDO, op) \<in> set (undo_ws order ops)" using op assms by (auto simp: undo_ws_def)
      then show ?thesis by (force simp: rec_ws_def)
    next
      case False
      then have "(REDO, op) \<in> set (redo_ws t ops)" using op by (auto simp: redo_ws_def)
      then show ?thesis by (force simp: rec_ws_def)
    qed
  qed
qed

lemma items_apart_set: "items_apart xs \<Longrightarrow> set ys \<subseteq> set xs \<Longrightarrow> items_apart ys"
  unfolding items_apart_def by blast

lemma resized_length: "pc_inv p held \<Longrightarrow> length (resized p k) = PAGE_SIZE"
  by (simp add: resized_def pc_content_length)

text \<open>What recovery leaves in an item.\<close>

lemma Recovery_item:
  assumes st: "rec_start order ops t lg p held" and ap: "items_apart ops" and op: "op \<in> set ops"
    and lst: "last (filter (\<lambda>w. same_item op (snd w)) (rec_ws order t ops)) = (fl, op')"
  shows "\<exists>t' lg' p'. Recovery order t lg p = (Ok (), t', lg', p') \<and>
    item_of op (pc_content p' (op_pgno op)) = op_raw fl op'"
proof -
  obtain t' lg' p' where r: "Recovery order t lg p = (Ok (), t', lg', p')" "noPages p' = rec_pages ops"
    "\<And>j. in_db p' j \<Longrightarrow> pc_content p' j = page_run (rec_ws order t ops) j (resized p j)"
    using Recovery_run [OF st] by metis
  note s = st [unfolded rec_start_def]
  have ws: "snd ` set (rec_ws order t ops) = set ops" by (rule op_in_rec_ws) (use s in blast)
  have "op_pgno op \<noteq> 0" using s op op_okD(1) by blast
  then have "in_db p' (op_pgno op)"
    using max_pgno_ge [OF op] r(2) by (auto simp: in_db_def rec_pages_def word_greater_zero_iff)
  then have c: "pc_content p' (op_pgno op) = page_run (rec_ws order t ops) (op_pgno op) (resized p (op_pgno op))" by (rule r(3))
  have oks: "\<forall>w \<in> set (rec_ws order t ops). op_ok (snd w)" using s ws by auto
  have "op \<in> snd ` set (rec_ws order t ops)" using op ws by simp
  then obtain w where w: "w \<in> set (rec_ws order t ops)" "snd w = op" by auto
  then have ne: "filter (\<lambda>w. same_item op (snd w)) (rec_ws order t ops) \<noteq> []"
    by (auto simp: filter_empty_conv same_item_def)
  have "items_apart (map snd (rec_ws order t ops))" by (rule items_apart_set [OF ap]) (use ws in auto)
  from page_run_item [OF this _ oks, of op "resized p (op_pgno op)" "rec_ws order t ops"] w ne c r(1) s resized_length
  have "item_of op (pc_content p' (op_pgno op)) = op_raw fl op'" by (auto simp: Let_def lst)
  then show ?thesis using r(1) by blast
qed

section \<open>Which record comes last\<close>

lemma undo_ws_item:
  assumes "\<forall>op' \<in> set ops. same_item op op' \<longrightarrow> op_xid op' \<notin> set order"
  shows "filter (\<lambda>w. same_item op (snd w)) (undo_ws order ops) = []"
  using assms by (auto simp: undo_ws_def filter_empty_conv)

lemma last_redo:
  assumes "ops = pre @ op # post" and "\<forall>op' \<in> set post. \<not> same_item op op'"
    and "\<forall>op' \<in> set ops. same_item op op' \<longrightarrow> \<not> tm_IsActive t (op_xid op')" and "set order \<subseteq> {x. tm_IsActive t x}"
  shows "last (filter (\<lambda>w. same_item op (snd w)) (rec_ws order t ops)) = (REDO, op)"
proof -
  have "filter (\<lambda>w. same_item op (snd w)) (undo_ws order ops) = []"
    by (rule undo_ws_item) (use assms(3,4) in auto)
  moreover have "\<not> tm_IsActive t (op_xid op)" using assms(1,3) by (simp add: same_item_def)
  ultimately show ?thesis
    using assms(1,2) by (simp add: rec_ws_def redo_ws_def filter_empty_conv same_item_def)
qed

lemma filter_concat_one:
  assumes "distinct order" and "x \<in> set order" and "\<forall>y \<in> set order. y \<noteq> x \<longrightarrow> filter P (f y) = []"
  shows "filter P (concat (map f order)) = filter P (f x)"
  using assms
proof (induction order)
  case Nil then show ?case by simp
next
  case (Cons y order)
  show ?case
  proof (cases "y = x")
    case True
    then have "filter P (concat (map f order)) = []" using Cons.prems by (auto simp: filter_empty_conv)
    then show ?thesis using True by simp
  next
    case False
    then show ?thesis using Cons by auto
  qed
qed

lemma last_undo:
  assumes "ops = pre @ op # post" and "distinct order" and "op_xid op \<in> set order"
    and "\<forall>op' \<in> set pre. same_item op op' \<longrightarrow> op_xid op' \<noteq> op_xid op"
    and "\<forall>op' \<in> set ops. same_item op op' \<and> op_xid op' \<in> set order \<longrightarrow> op_xid op' = op_xid op"
  shows "last (filter (\<lambda>w. same_item op (snd w)) (rec_ws order t ops)) = (UNDO, op)"
proof -
  let ?P = "\<lambda>w. same_item op (snd w)"
  let ?f = "\<lambda>x. map (Pair UNDO) (rev (filter (\<lambda>op. op_xid op = x) ops))"
  have "filter ?P (undo_ws order ops) = filter ?P (?f (op_xid op))"
    unfolding undo_ws_def by (rule filter_concat_one) (use assms in \<open>auto simp: filter_empty_conv\<close>)
  also have "\<dots> = filter ?P (map (Pair UNDO) (rev (filter (\<lambda>o'. op_xid o' = op_xid op) post))) @ [(UNDO, op)]"
    using assms(1,4) by (auto simp: same_item_def filter_empty_conv)
  finally show ?thesis by (simp add: rec_ws_def)
qed

section \<open>Starting points for examples\<close>

lemma lg_opened_exists: "\<forall>d \<in> set ds. loggable d \<Longrightarrow> \<exists>lg. lg_opened ds lg"
proof -
  have h: "\<forall>d \<in> set ds. loggable d \<Longrightarrow> \<exists>lg. lg_holds ds lg" for ds
  proof (induction ds rule: rev_induct)
    case Nil then show ?case using lg_Create_holds by blast
  next
    case (snoc d ds)
    then obtain lg where "lg_holds ds lg" by auto
    then show ?case using lg_Log_holds [of ds lg d] snoc.prems by (metis in_set_conv_decomp)
  qed
  assume "\<forall>d \<in> set ds. loggable d"
  then obtain lg where lg: "lg_holds ds lg" using h by blast
  then have "lg_opened ds (lg\<lparr>lg_fileSize := length (fdata (lg_file lg))\<rparr>)" by (simp add: lg_opened_def lg_holds_def)
  then show ?thesis by blast
qed

lemma tm_one_running: "\<exists>t. tm_inv t \<and> known_xid t 1 \<and> tm_IsActive t 1"
proof -
  obtain t where t: "tm_inv t" "xidCounter t = 0" "statuses t = []" using tm_Create_ok by auto
  have "unat (xidCounter t) + 17 < 2 ^ 63" using t(2) by simp
  then obtain t' where t': "tm_inv t'" "xidCounter t' = xidCounter t + 1" "statuses t' = statuses t @ [FIELD_TRAN_ACTIVE]"
    using tm_Begin_healthy [OF t(1)] by metis
  have k: "known_xid t' 1" using t'(2) t(2) by (simp add: known_xid_def)
  have "tm_IsActive t' 1"
    using checkXID_known [OF t'(1) k] t'(3) t(3) by (simp add: tm_IsActive_def SUPER_XID_def)
  then show ?thesis using t'(1) k by blast
qed

definition ex_op :: "XID \<Rightarrow> log_op" where
  "ex_op x = Ins x 1 2 [0, 0, 1, 7]"

lemma ex_op_simps [simp]: "op_ok (ex_op x)" "op_xid (ex_op x) = x" "op_pgno (ex_op x) = 1" "items_apart [ex_op x]"
  "op_raw REDO (ex_op x) = [0, 0, 1, 7]" "op_raw UNDO (ex_op x) = [1, 0, 1, 7]" "is_Ins (ex_op x)"
  by (simp_all add: ex_op_def PAGE_SIZE_def items_apart_def same_item_def)

lemma rec_start_finished: "\<exists>t lg. rec_start [] [ex_op SUPER_XID] t lg one_page_pc {#}"
proof -
  obtain lg where lg: "lg_opened (map enc_op [ex_op SUPER_XID]) lg"
    using lg_opened_exists [of "map enc_op [ex_op SUPER_XID]"] loggable_enc by auto
  obtain t where "tm_inv t" using tm_Create_ok by blast
  then show ?thesis using lg one_page_pc_inv by (auto simp: rec_start_def tm_IsActive_def)
qed

lemma rec_start_active: "\<exists>t lg. rec_start [1] [ex_op 1] t lg one_page_pc {#}"
proof -
  obtain lg where lg: "lg_opened (map enc_op [ex_op 1]) lg"
    using lg_opened_exists [of "map enc_op [ex_op 1]"] loggable_enc by auto
  obtain t where "tm_inv t" "known_xid t 1" "tm_IsActive t 1" using tm_one_running by blast
  then show ?thesis using lg one_page_pc_inv by (auto simp: rec_start_def)
qed

section \<open>Properties\<close>

text \<open>The log records round trip: a record built by \<open>InsertLog\<close> is recognised as an insert and parsed back to the
  transaction, page, free-space offset and bytes it was built from; a record built by \<open>UpdateLog\<close> is
  parsed back to the transaction, the item's address and its old and new bytes.\<close>

lemma log_record_roundtrip:
  assumes "2 \<le> length (pg_data pg)" and "length (di_oldraw di) = length (di_raw di pg)"
    and "di_uid di = Address2UUID pgno off"
  shows "\<exists>ins upd fso. InsertLog xid pg raw = Ok ins \<and> isInsertLog ins = Ok True \<and> PxFSO pg = Ok fso \<and>
     parseInsertLog ins = Ok (xid, pg_pgno pg, fso, raw) \<and>
     UpdateLog xid di pg = Ok upd \<and> isInsertLog upd = Ok False \<and>
     parseUpdateLog upd = Ok (xid, pgno, off, di_oldraw di, di_raw di pg)"
proof -
  have "PxFSO pg = Ok (of_nat (fso (pg_data pg)))" using assms(1) by (simp add: PxFSO_def pxRawFSO_eq)
  then show ?thesis
    using InsertLog_eq [OF assms(1)] UpdateLog_eq [OF assms(2,3)]
    by (simp add: parse_enc_Ins parse_enc_Upd [OF assms(2)] del: enc_op.simps)
qed



text \<open>C4. Recovery rolls back unfinished transactions: if a transaction still active at the crash is the only active one
  to have written an item, the item ends up with the old image of that transaction's first record of it:
  the bytes before its first update, or, if it inserted the item, the inserted bytes marked invalid. The
  transaction is aborted, and no other transaction changes its status.\<close>

theorem recovery_rolls_back_active:
  assumes "rec_start order ops t lg p held" and "items_apart ops"
    and "ops = pre @ op # post" and "tm_IsActive t (op_xid op)"
    and "\<forall>op' \<in> set pre. same_item op op' \<longrightarrow> op_xid op' \<noteq> op_xid op"
    and "\<forall>op' \<in> set ops. same_item op op' \<and> tm_IsActive t (op_xid op') \<longrightarrow> op_xid op' = op_xid op"
  shows "\<exists>t' lg' p'. Recovery order t lg p = (Ok (), t', lg', p') \<and>
     item_of op (pc_content p' (op_pgno op)) = op_raw UNDO op \<and> tm_IsAborted t' (op_xid op) \<and>
     (\<forall>y. known_xid t y \<and> \<not> tm_IsActive t y \<longrightarrow> tm_IsCommitted t' y = tm_IsCommitted t y \<and> \<not> tm_IsActive t' y)"
proof -
  note s = assms(1) [unfolded rec_start_def]
  have op: "op \<in> set ops" "op_xid op \<in> set order" "distinct order" using s assms(3,4) by auto
  have "\<forall>op' \<in> set ops. same_item op op' \<and> op_xid op' \<in> set order \<longrightarrow> op_xid op' = op_xid op" using s assms(6) by auto
  note lst = last_undo [OF assms(3) op(3,2) assms(5) this, of t]
  obtain t' lg' p' where r: "Recovery order t lg p = (Ok (), t', lg', p')" "tm_inv t'" "xidCounter t' = xidCounter t"
    "\<And>y. known_xid t y \<Longrightarrow> statuses t' ! (unat y - 1) = (if y \<in> set order then FIELD_TRAN_ABORTED else statuses t ! (unat y - 1))"
    using Recovery_run [OF assms(1)] by metis
  have i: "item_of op (pc_content p' (op_pgno op)) = op_raw UNDO op"
    using Recovery_item [OF assms(1,2) op(1) lst] r(1) by auto
  have k: "known_xid t' y = known_xid t y" for y using r(3) by (simp add: known_xid_def)
  have c: "checkXID t' y st = (if y \<in> set order then FIELD_TRAN_ABORTED = st else checkXID t y st)" if "known_xid t y" for y st
    using that checkXID_known [OF r(2), of y st] checkXID_known [of t y st] s r(4) [OF that] k by auto
  have x: "known_xid t (op_xid op)" using s op(1) assms(4) by (auto simp: tm_IsActive_def)
  have "tm_IsAborted t' (op_xid op)" using c [OF x] op(2) by (simp add: tm_IsAborted_def)
  moreover have "tm_IsCommitted t' y = tm_IsCommitted t y \<and> \<not> tm_IsActive t' y" if "known_xid t y" "\<not> tm_IsActive t y" for y
    using c [OF that(1)] that s by (auto simp: tm_IsCommitted_def tm_IsActive_def)
  ultimately show ?thesis using r(1) i by blast
qed

theorem recovery_rolls_back_active_witness:
  "\<exists>t lg t' lg' p'. tm_IsActive t 1 \<and> Recovery [1] t lg one_page_pc = (Ok (), t', lg', p') \<and>
     item_of (ex_op 1) (pc_content p' 1) = [1, 0, 1, 7] \<and> tm_IsAborted t' 1"
proof -
  obtain t lg where s: "rec_start [1] [ex_op 1] t lg one_page_pc {#}" using rec_start_active by blast
  then have "{1} = {x \<in> op_xid ` set [ex_op 1]. tm_IsActive t x}" unfolding rec_start_def by (metis list.simps(15) empty_set)
  then have "tm_IsActive t 1" by blast
  moreover from this recovery_rolls_back_active [OF s, of "[]" "ex_op 1" "[]"]
  obtain t' lg' p' where "Recovery [1] t lg one_page_pc = (Ok (), t', lg', p')"
    "item_of (ex_op 1) (pc_content p' 1) = [1, 0, 1, 7]" "tm_IsAborted t' 1" by force
  ultimately show ?thesis by blast
qed

text \<open>C32. Recovery leaves room behind the recovered items: on every page whose free-space offset was in range, it stays in range,
  does not move backwards, and covers every item inserted according to the log, so that later inserts do
  not overwrite a recovered item.\<close>

theorem recovery_free_space:
  assumes "rec_start order ops t lg p held" and "op \<in> set ops" and "is_Ins op" and "page_ok (resized p (op_pgno op))"
  shows "\<exists>t' lg' p'. Recovery order t lg p = (Ok (), t', lg', p') \<and> page_ok (pc_content p' (op_pgno op)) \<and>
     fso (resized p (op_pgno op)) \<le> fso (pc_content p' (op_pgno op)) \<and>
     unat (op_off op) + op_len op \<le> fso (pc_content p' (op_pgno op))"
proof -
  note s = assms(1) [unfolded rec_start_def]
  obtain t' lg' p' where r: "Recovery order t lg p = (Ok (), t', lg', p')" "noPages p' = rec_pages ops"
    "\<And>j. in_db p' j \<Longrightarrow> pc_content p' j = page_run (rec_ws order t ops) j (resized p j)"
    using Recovery_run [OF assms(1)] by metis
  have ws: "snd ` set (rec_ws order t ops) = set ops" by (rule op_in_rec_ws) (use s in blast)
  then obtain w where w: "w \<in> set (rec_ws order t ops)" "snd w = op" using assms(2) by (metis imageE)
  have oks: "\<forall>w \<in> set (rec_ws order t ops). op_ok (snd w)" using s ws by auto
  have "op_pgno op \<noteq> 0" using s assms(2) op_okD(1) by blast
  then have "in_db p' (op_pgno op)"
    using max_pgno_ge [OF assms(2)] r(2) by (auto simp: in_db_def rec_pages_def word_greater_zero_iff)
  from r(3) [OF this] page_run_fso [OF oks assms(4)] w assms(3) r(1) show ?thesis by auto
qed

definition px_page_pc :: pcacher where
  "px_page_pc = one_page_pc\<lparr>pc_file := \<lparr>fdata = overwrite (replicate PAGE_SIZE 0) 0 (be_bytes 2 2), fpos = 0, ffault = []\<rparr>\<rparr>"

lemma px_page_pc_inv: "pc_inv px_page_pc {#}" "page_ok (resized px_page_pc 1)" "MaxHandles (pc_c px_page_pc) = 10"
proof -
  have "pc_content px_page_pc 1 = overwrite (replicate PAGE_SIZE 0) 0 (be_bytes 2 2)" "in_db px_page_pc 1"
    by (simp_all add: px_page_pc_def one_page_pc_def in_db_def NewCacher_def pc_content_def disk_page_def pageOffset_def window_def PAGE_SIZE_def)
  then show "page_ok (resized px_page_pc 1)" by (simp add: resized_def page_ok_def fso_update PAGE_SIZE_def)
  show "pc_inv px_page_pc {#}" "MaxHandles (pc_c px_page_pc) = 10"
    by (simp_all add: px_page_pc_def one_page_pc_def pc_inv_def cacher_inv_New PAGE_SIZE_def) (simp_all add: NewCacher_def)
qed

theorem recovery_free_space_witness:
  "\<exists>t lg t' lg' p'. Recovery [] t lg px_page_pc = (Ok (), t', lg', p') \<and> 6 \<le> fso (pc_content p' 1)"
proof -
  obtain t lg where "rec_start [] [ex_op SUPER_XID] t lg one_page_pc {#}" using rec_start_finished by blast
  then have "rec_start [] [ex_op SUPER_XID] t lg px_page_pc {#}"
    using px_page_pc_inv by (simp add: rec_start_def)
  from recovery_free_space [OF this, of "ex_op SUPER_XID"] px_page_pc_inv(2) show ?thesis
    by (auto simp: ex_op_def op_len_def) blast
qed

text \<open>Recovery panics after a torn append of more than eight bytes: opening the log cuts the torn record off, but the
  logger keeps the old file size, so that the scan over the log runs past the new end of the file, and the read error is
  turned into a panic. The database cannot be opened although the log is intact.\<close>

lemma recovery_panics_after_torn_tail:
  assumes "lg_written (map enc_op ops) lg" and "\<forall>op \<in> set ops. op_ok op" and "loggable d"
    and "strict_prefix torn (warpLog d)" and "8 < length torn"
    and "f = (lg_file lg)\<lparr>fdata := fdata (lg_file lg) @ torn\<rparr>"
  shows "\<exists>lg'. lg_Open f = Ok lg' \<and> lg_holds (map enc_op ops) lg' \<and> fst (Recovery order t lg' p) = Panic"
proof -
  let ?ds = "map enc_op ops"
  have h: "lg_holds ?ds lg" by (rule lg_written_holds [OF assms(1)])
  have ff: "ffault f = []" "fdata f = Uint32ToRaw (xChecksum lg) @ log_image ?ds @ torn" using h assms(6) by (simp_all add: lg_holds_def)
  let ?lg = "\<lparr>lg_file = f\<lparr>fdata := Uint32ToRaw (xChecksum lg) @ log_image ?ds, fpos := 4 + length (log_image ?ds)\<rparr>,
      lg_pos = 4, lg_fileSize = length (fdata f), xChecksum = xChecksum lg\<rparr>"
  have o: "lg_Open f = Ok ?lg"
    using lg_Open_image [OF ff(1) _ assms(3,4) ff(2)] h by (simp add: lg_holds_def)
  have hl: "lg_holds ?ds ?lg" using h ff by (simp add: lg_holds_def)
  let ?body = "\<lambda>log m. sbind (log_pgno log, m) (\<lambda>pgno m. (Ok (), if m < pgno then pgno else m))"
  have "fst (lg_foreach ?body ?lg 0) = Panic"
    by (rule lg_foreach_stale [OF foreach_scan [OF assms(2)], where pre = "Uint32ToRaw (xChecksum lg)"])
      (use ff assms(5) h in \<open>auto simp: lg_holds_def\<close>)
  then have "fst (scanMaxPgno ?lg) = Panic" by (simp add: scanMaxPgno_def lg_Rewind_def)
  then have "fst (Recovery order t ?lg p) = Panic" by (auto simp: Recovery_def split: prod.split)
  then show ?thesis using o hl by blast
qed


end
