(* ===== verification/Dm.thy ===== *)
theory Dm
  imports Recovery
begin

text \<open>
  The data manager (\<^verbatim>\<open>dm/data_manager.go\<close>, and \<open>After\<close>, \<open>Release\<close> of \<^verbatim>\<open>dm/data_item.go\<close>): inserting, reading, updating and
  releasing data items over the page cache, the log and the free-space index. A \<open>*dataitem\<close> is shared by its
  holders and lives in the item cache, under its \<open>UUID\<close>; its bytes live in its page. The operations are modelled for a
  caller that runs alone; the transaction manager is passed to \<open>Open\<close>, which needs it for recovery.
\<close>

section \<open>Model\<close>

record dataManager =
  dm_pc :: pcacher
  dm_lg :: logger
  dm_pidx :: pindex
  dm_dic :: "dataitem cacher"
  dm_page1 :: "Pgno option"

definition NewDataManager :: "pcacher \<Rightarrow> logger \<Rightarrow> dataManager" where
  "NewDataManager pc lg =
     \<lparr>dm_pc = pc, dm_lg = lg, dm_pidx = NewPindex, dm_dic = NewCacher 0, dm_page1 = None\<rparr>"

text \<open>Running an operation of the page cache, of the log, of the index.\<close>

definition on_pc :: "(pcacher \<Rightarrow> 'a res \<times> pcacher) \<Rightarrow> dataManager \<Rightarrow> 'a res \<times> dataManager" where
  "on_pc f d = (case f (dm_pc d) of (r, p) \<Rightarrow> (r, d\<lparr>dm_pc := p\<rparr>))"

definition on_lg :: "(logger \<Rightarrow> 'a res \<times> logger) \<Rightarrow> dataManager \<Rightarrow> 'a res \<times> dataManager" where
  "on_lg f d = (case f (dm_lg d) of (r, lg) \<Rightarrow> (r, d\<lparr>dm_lg := lg\<rparr>))"

definition dm_Add :: "Pgno \<Rightarrow> int \<Rightarrow> dataManager \<Rightarrow> unit res \<times> dataManager" where
  "dm_Add pgno fs d = (case pi_Add pgno fs (dm_pidx d) of
     Ok pi \<Rightarrow> (Ok (), d\<lparr>dm_pidx := pi\<rparr>) | Err e \<Rightarrow> (Err e, d) | Panic \<Rightarrow> (Panic, d))"

text \<open>Changing, in place, a page one holds.\<close>

definition held_page :: "Pgno \<Rightarrow> (page \<Rightarrow> page res) \<Rightarrow> pcacher \<Rightarrow> unit res \<times> pcacher" where
  "held_page pgno f p =
     (case cache (pc_c p) (Pgno2UUID pgno) of
        None \<Rightarrow> (Panic, p)
      | Some pg \<Rightarrow> (case f pg of Ok pg \<Rightarrow> (Ok (), pc_set pg p) | Err e \<Rightarrow> (Err e, p) | Panic \<Rightarrow> (Panic, p)))"

subsection \<open>The item cache\<close>

definition dm_getForCacher :: "UUID \<Rightarrow> dataManager \<Rightarrow> dataitem res \<times> dataManager" where
  "dm_getForCacher uid d =
     (let (pgno, offset) = UUID2Address uid in
      sbind (on_pc (GetPage pgno) d) (\<lambda>pg d. (ParseDataitem pg offset, d)))"

definition dm_releaseForCacher :: "dataitem \<Rightarrow> dataManager \<Rightarrow> unit res \<times> dataManager" where
  "dm_releaseForCacher di d = on_pc (pc_release (di_pgno di)) d"

text \<open>\<open>dm.dic.Get(uid)\<close>, with the load in between.\<close>

definition dic_Get :: "UUID \<Rightarrow> dataManager \<Rightarrow> dataitem res \<times> dataManager" where
  "dic_Get uid d =
     (case get_try uid (dm_dic d) of
        (Wait, c) \<Rightarrow> (Panic, d\<lparr>dm_dic := c\<rparr>)
      | (Hit h, c) \<Rightarrow> (Ok h, d\<lparr>dm_dic := c\<rparr>)
      | (Full, c) \<Rightarrow> (Err ErrCacheFull, d\<lparr>dm_dic := c\<rparr>)
      | (Load, c) \<Rightarrow>
          (case dm_getForCacher uid (d\<lparr>dm_dic := c\<rparr>) of
             (r, d) \<Rightarrow> (case get_finish uid r (dm_dic d) of (r, c) \<Rightarrow> (r, d\<lparr>dm_dic := c\<rparr>))))"

definition ReleaseDataitem :: "UUID \<Rightarrow> dataManager \<Rightarrow> unit res \<times> dataManager" where
  "ReleaseDataitem uid d =
     (case c_Release uid (dm_dic d) of
        Ok (None, c) \<Rightarrow> (Ok (), d\<lparr>dm_dic := c\<rparr>)
      | Ok (Some di, c) \<Rightarrow> sbind (dm_releaseForCacher di d) (\<lambda>_ d. (Ok (), d\<lparr>dm_dic := c\<rparr>))
      | Err e \<Rightarrow> (Err e, d) | Panic \<Rightarrow> (Panic, d))"

text \<open>The bytes of an item one holds.\<close>

definition item_page :: "dataitem \<Rightarrow> dataManager \<Rightarrow> page res" where
  "item_page di d = (case cache (pc_c (dm_pc d)) (Pgno2UUID (di_pgno di)) of None \<Rightarrow> Panic | Some pg \<Rightarrow> Ok pg)"

definition dm_Data :: "dataitem \<Rightarrow> dataManager \<Rightarrow> bytes res" where
  "dm_Data di d = rbind (item_page di d) (di_Data di)"

definition dm_Read :: "UUID \<Rightarrow> dataManager \<Rightarrow> dataitem option res \<times> dataManager" where
  "dm_Read uid d =
     sbind (dic_Get uid d) (\<lambda>di d.
     sbind (rbind (item_page di d) (di_IsValid di), d) (\<lambda>valid d.
     if \<not> valid then sbind (ReleaseDataitem uid d) (\<lambda>_ d. (Ok None, d))
     else (Ok (Some di), d)))"

subsection \<open>Updating an item\<close>

text \<open>\<open>Before\<close> saves the old bytes in the shared item and marks the page dirty; the caller then writes through
  \<open>Data()\<close>; \<open>After\<close> logs old and new bytes and drops the outcome; \<open>UnBefore\<close> restores the old bytes. The item's lock
  is held from \<open>Before\<close> on.\<close>

definition dic_set :: "UUID \<Rightarrow> dataitem \<Rightarrow> dataManager \<Rightarrow> dataManager" where
  "dic_set uid di d = d\<lparr>dm_dic := (dm_dic d)\<lparr>cache := (cache (dm_dic d))(uid \<mapsto> di)\<rparr>\<rparr>"

definition dm_Before :: "dataitem \<Rightarrow> dataManager \<Rightarrow> dataitem res \<times> dataManager" where
  "dm_Before di d =
     sbind (item_page di d, d) (\<lambda>pg d.
     case di_Before di pg of (di, pg) \<Rightarrow> (Ok di, dic_set (di_uid di) di (d\<lparr>dm_pc := pc_set pg (dm_pc d)\<rparr>)))"

definition dm_write :: "dataitem \<Rightarrow> bytes \<Rightarrow> dataManager \<Rightarrow> unit res \<times> dataManager" where
  "dm_write di data d = on_pc (held_page (di_pgno di) (\<lambda>pg. Ok (di_write di data pg))) d"

definition dm_UnBefore :: "dataitem \<Rightarrow> dataManager \<Rightarrow> unit res \<times> dataManager" where
  "dm_UnBefore di d = on_pc (held_page (di_pgno di) (\<lambda>pg. Ok (di_UnBefore di pg))) d"

definition logDataitem :: "XID \<Rightarrow> dataitem \<Rightarrow> dataManager \<Rightarrow> unit res \<times> dataManager" where
  "logDataitem xid di d =
     sbind (rbind (item_page di d) (UpdateLog xid di), d) (\<lambda>log d. on_lg (lg_Log log) d)"

definition dm_After :: "XID \<Rightarrow> dataitem \<Rightarrow> dataManager \<Rightarrow> unit res \<times> dataManager" where
  "dm_After xid di d =
     (case logDataitem xid di d of (Panic, d) \<Rightarrow> (Panic, d) | (_, d) \<Rightarrow> (Ok (), d))"

subsection \<open>Inserting\<close>

text \<open>The selection loop: at most \<open>n\<close> rounds of selecting a page and creating one when there is none.\<close>

fun selectPage :: "nat \<Rightarrow> nat \<Rightarrow> dataManager \<Rightarrow> (Pgno \<times> int) res \<times> dataManager" where
  "selectPage 0 spaceSize d = (Ok (0, 0), d)"
| "selectPage (Suc n) spaceSize d =
     (case pi_Select spaceSize (dm_pidx d) of
        (Some (pgno, freeSpace), pi) \<Rightarrow> (Ok (pgno, freeSpace), d\<lparr>dm_pidx := pi\<rparr>)
      | (None, pi) \<Rightarrow>
          sbind (PXInitRaw, d\<lparr>dm_pidx := pi\<rparr>) (\<lambda>raw d.
          sbind (on_pc (pc_NewPage raw) d) (\<lambda>newPgno d.
          sbind (dm_Add newPgno (int PXMaxFreeSpace) d) (\<lambda>_ d. selectPage n spaceSize d))))"

text \<open>The deferred function: the page goes back to the index, with the free space it has now, or, if it could not
  be read, with the one recorded. It runs on every return after a page was selected.\<close>

definition reAdd :: "Pgno \<Rightarrow> int res \<Rightarrow> 'a res \<times> dataManager \<Rightarrow> 'a res \<times> dataManager" where
  "reAdd pgno fs m =
     (case m of (Panic, d) \<Rightarrow> (Panic, d)
      | (r, d) \<Rightarrow> sbind (fs, d) (\<lambda>fs d. sbind (dm_Add pgno fs d) (\<lambda>_ d. (r, d))))"

definition dm_Insert :: "XID \<Rightarrow> bytes \<Rightarrow> dataManager \<Rightarrow> UUID res \<times> dataManager" where
  "dm_Insert xid data d =
     (let raw = WrapDataitemRaw data in
      if PXMaxFreeSpace < length raw then (Err ErrDataTooLarge, d)
      else sbind (selectPage 5 (length raw) d) (\<lambda>(pgno, freeSpace) d.
        if pgno = 0 then (Err ErrBusy, d)
        else case on_pc (GetPage pgno) d of
          (Panic, d) \<Rightarrow> (Panic, d)
        | (Err e, d) \<Rightarrow> reAdd pgno (Ok freeSpace) (Err e, d)
        | (Ok pg, d) \<Rightarrow>
            (case sbind (InsertLog xid pg raw, d) (\<lambda>log d. on_lg (lg_Log log) d) of
               (Panic, d) \<Rightarrow> (Panic, d)
             | (Err e, d) \<Rightarrow> reAdd pgno (PXFreeSpace pg) (Err e, d)
             | (Ok _, d) \<Rightarrow>
                 sbind (PXInsert pg raw, d) (\<lambda>(offset, pg) d.
                 sbind (on_pc (pc_release pgno) (d\<lparr>dm_pc := pc_set pg (dm_pc d)\<rparr>)) (\<lambda>_ d.
                 reAdd pgno (PXFreeSpace pg) (Ok (Address2UUID pgno offset), d))))))"

subsection \<open>Opening and closing\<close>

text \<open>\<open>for i := 2; i <= noPages; i++\<close>, by the number of rounds left.\<close>

fun fillFrom :: "nat \<Rightarrow> nat \<Rightarrow> dataManager \<Rightarrow> unit res \<times> dataManager" where
  "fillFrom 0 i d = (Ok (), d)"
| "fillFrom (Suc n) i d =
     sbind (on_pc (GetPage (of_nat i)) d) (\<lambda>pg d.
     sbind (PXFreeSpace pg, d) (\<lambda>fs d.
     sbind (dm_Add (pg_pgno pg) fs d) (\<lambda>_ d.
     sbind (on_pc (pc_release (pg_pgno pg)) d) (\<lambda>_ d. fillFrom n (i + 1) d))))"

definition fillPindex :: "dataManager \<Rightarrow> unit res \<times> dataManager" where
  "fillPindex d = (let noPages = NoPages (dm_pc d) in fillFrom (noPages - 1) 2 d)"

definition loadAndCheckPage1 :: "dataManager \<Rightarrow> bool res \<times> dataManager" where
  "loadAndCheckPage1 d =
     sbind (on_pc (GetPage 1) d) (\<lambda>pg d. (P1CheckVC pg, d\<lparr>dm_page1 := Some 1\<rparr>))"

definition initPage1 :: "bytes \<Rightarrow> dataManager \<Rightarrow> unit res \<times> dataManager" where
  "initPage1 rnd d =
     sbind (P1InitRaw rnd, d) (\<lambda>raw d.
     sbind (on_pc (pc_NewPage raw) d) (\<lambda>pgno d.
     if pgno \<noteq> 1 then (Panic, d)
     else sbind (on_pc (GetPage pgno) d) (\<lambda>pg d.
       on_pc (FlushPage pg) (d\<lparr>dm_page1 := Some pgno\<rparr>))))"

text \<open>\<open>P1SetVCOpen(dm.page1); dm.pc.FlushPage(dm.page1)\<close>; the outcome of the flush is dropped.\<close>

definition openPage1 :: "bytes \<Rightarrow> dataManager \<Rightarrow> unit res \<times> dataManager" where
  "openPage1 rnd d =
     sbind (on_pc (held_page 1 (P1SetVCOpen rnd)) d) (\<lambda>_ d.
     case cache (pc_c (dm_pc d)) (Pgno2UUID 1) of
       None \<Rightarrow> (Panic, d)
     | Some pg \<Rightarrow> (case on_pc (FlushPage pg) d of (Panic, d) \<Rightarrow> (Panic, d) | (_, d) \<Rightarrow> (Ok (), d)))"

definition dm_Create :: "bytes \<Rightarrow> bool list \<Rightarrow> bool list \<Rightarrow> int \<Rightarrow> dataManager res" where
  "dm_Create rnd pcFaults lgFaults mem =
     rbind (pc_Create pcFaults mem) (\<lambda>pc.
     rbind (lg_Create lgFaults) (\<lambda>lg.
     case initPage1 rnd (NewDataManager pc lg) of
       (Ok _, d) \<Rightarrow> Ok d | (Err e, _) \<Rightarrow> Err e | (Panic, _) \<Rightarrow> Panic))"

definition dm_Open :: "bytes \<Rightarrow> XID list \<Rightarrow> os_file \<Rightarrow> os_file \<Rightarrow> int \<Rightarrow> transactionManager
    \<Rightarrow> (dataManager \<times> transactionManager) res" where
  "dm_Open rnd order dbFile logFile mem t =
     rbind (pc_Open dbFile mem) (\<lambda>pc.
     rbind (lg_Open logFile) (\<lambda>lg.
     case loadAndCheckPage1 (NewDataManager pc lg) of
       (Err e, _) \<Rightarrow> Err e | (Panic, _) \<Rightarrow> Panic
     | (Ok ok, d) \<Rightarrow>
         (case (if ok then (Ok (), t, dm_lg d, dm_pc d) else Recovery order t (dm_lg d) (dm_pc d)) of
            (Err e, _) \<Rightarrow> Err e | (Panic, _) \<Rightarrow> Panic
          | (Ok _, t, lg, pc) \<Rightarrow>
              (case sbind (fillPindex (d\<lparr>dm_lg := lg, dm_pc := pc\<rparr>)) (\<lambda>_ d. openPage1 rnd d) of
                 (Ok _, d) \<Rightarrow> Ok (d, t) | (Err e, _) \<Rightarrow> Err e | (Panic, _) \<Rightarrow> Panic))))"

definition dm_Close :: "UUID list \<Rightarrow> dataManager \<Rightarrow> unit res \<times> dataManager" where
  "dm_Close order d =
     sbind (case dm_page1 d of
         None \<Rightarrow> (Ok (), d)
       | Some k \<Rightarrow> sbind (on_pc (held_page k P1SetVCClose) d) (\<lambda>_ d. on_pc (pc_release k) d)) (\<lambda>_ d.
     (Ok (), d\<lparr>dm_pc := pc_Close order (dm_pc d)\<rparr>))"

section \<open>Invariant\<close>

text \<open>For the page handles \<open>ph\<close> in use and the records \<open>ds\<close> in the log: the index holds, at most once each, well-formed
  pages of the database with their exact free space.\<close>

definition once :: "'a multiset \<Rightarrow> bool" where
  "once M \<longleftrightarrow> (\<forall>x. Multiset.count M x \<le> 1)"

definition pidx_ok :: "pcacher \<Rightarrow> pindex \<Rightarrow> bool" where
  "pidx_ok p pi \<longleftrightarrow> pi_inv pi \<and> once (image_mset fst (pi_pages pi)) \<and>
     (\<forall>(k, fs) \<in># pi_pages pi. in_db p k \<and> page_ok (pc_content p k) \<and> fs = int PAGE_SIZE - int (fso (pc_content p k)))"

definition dm_inv :: "dataManager \<Rightarrow> UUID multiset \<Rightarrow> bytes list \<Rightarrow> bool" where
  "dm_inv d ph ds \<longleftrightarrow> pc_inv (dm_pc d) ph \<and> lg_holds ds (dm_lg d) \<and> pidx_ok (dm_pc d) (dm_pidx d)"

text \<open>Every cached item starts inside the used part of its page.\<close>

definition dic_ok :: "dataManager \<Rightarrow> UUID multiset \<Rightarrow> bool" where
  "dic_ok d held \<longleftrightarrow> cacher_inv (dm_dic d) held {#} \<and> MaxHandles (dm_dic d) = 0 \<and>
     (\<forall>uid di. cache (dm_dic d) uid = Some di \<longrightarrow>
        (case UUID2Address uid of (k, off) \<Rightarrow> in_db (dm_pc d) k \<and> unat off < fso (pc_content (dm_pc d) k)))"

lemma once_add [simp]: "once (add_mset x M) \<longleftrightarrow> x \<notin># M \<and> once M"
proof
  assume o: "once (add_mset x M)"
  then have "Multiset.count (add_mset x M) y \<le> 1" for y by (simp add: once_def)
  from this [of x] have "x \<notin># M" by (simp add: not_in_iff)
  moreover have "once M" using o unfolding once_def by (metis count_add_mset le_Suc_eq le_trans lessI less_imp_le)
  ultimately show "x \<notin># M \<and> once M" ..
next
  assume "x \<notin># M \<and> once M"
  then show "once (add_mset x M)" by (simp add: once_def not_in_iff)
qed

lemma PXFreeSpace_eq: "2 \<le> length (pg_data pg) \<Longrightarrow> PXFreeSpace pg = Ok (int PAGE_SIZE - int (fso (pg_data pg)))"
  by (simp only: PXFreeSpace_def pxRawFSO_eq rbind_simps unat_fso)

lemma init_raw: "\<exists>raw. PXInitRaw = Ok raw \<and> page_ok raw \<and> fso raw = 2 \<and> length raw = PAGE_SIZE"
  using page_ok_init by (auto simp: page_ok_def)

text \<open>A page the selection may return.\<close>

definition picked :: "dataManager \<Rightarrow> Pgno \<Rightarrow> nat \<Rightarrow> bool" where
  "picked d k n \<longleftrightarrow> in_db (dm_pc d) k \<and> page_ok (pc_content (dm_pc d) k) \<and>
     fso (pc_content (dm_pc d) k) + n \<le> PAGE_SIZE \<and> k \<notin># image_mset fst (pi_pages (dm_pidx d))"

lemma select_hit:
  assumes "dm_inv d ph ds" and "n < NO_INTERVAL * THRESHOLD" and "pi_Select n (dm_pidx d) = (Some (k, fs), pi)"
  shows "dm_inv (d\<lparr>dm_pidx := pi\<rparr>) ph ds" and "picked (d\<lparr>dm_pidx := pi\<rparr>) k n"
proof -
  have i: "pi_inv (dm_pidx d)" and px: "pidx_ok (dm_pc d) (dm_pidx d)" using assms(1) by (simp_all add: dm_inv_def pidx_ok_def)
  from pidx.select_some [OF i assms(3)] assms(2)
  have s: "pi_inv pi" "pi_pages (dm_pidx d) = add_mset (k, fs) (pi_pages pi)" "int n < fs" by auto
  show "dm_inv (d\<lparr>dm_pidx := pi\<rparr>) ph ds" using assms(1) s by (auto simp: dm_inv_def pidx_ok_def)
  show "picked (d\<lparr>dm_pidx := pi\<rparr>) k n" using px s by (auto simp: picked_def pidx_ok_def)
qed

lemma pidx_ok_frame:
  assumes "pidx_ok p pi" and "\<And>k. in_db p k \<Longrightarrow> in_db p' k \<and> pc_content p' k = pc_content p k"
  shows "pidx_ok p' pi"
  using assms unfolding pidx_ok_def by fastforce

text \<open>Selection succeeds in at most two rounds.\<close>

lemma selectPage_ok:
  assumes inv: "dm_inv d ph ds" and n: "n < NO_INTERVAL * THRESHOLD" and np: "Suc (unat (noPages (dm_pc d))) < 2 ^ 32"
  obtains k fs d' where "selectPage (Suc (Suc m)) n d = (Ok (k, fs), d')" "dm_inv d' ph ds" "picked d' k n"
    "pc_c (dm_pc d') = pc_c (dm_pc d)" "dm_dic d' = dm_dic d" "dm_lg d' = dm_lg d" "dm_page1 d' = dm_page1 d"
    "\<And>j. in_db (dm_pc d) j \<Longrightarrow> in_db (dm_pc d') j \<and> pc_content (dm_pc d') j = pc_content (dm_pc d) j"
    "unat (noPages (dm_pc d')) \<le> Suc (unat (noPages (dm_pc d)))"
    "\<And>j. in_db (dm_pc d') j \<Longrightarrow> in_db (dm_pc d) j \<or> page_ok (pc_content (dm_pc d') j)"
proof (cases "pi_Select n (dm_pidx d)")
  case (Pair r pi)
  show thesis
  proof (cases r)
    case (Some kf)
    obtain k fs where r: "r = Some (k, fs)" using Some by (cases kf) auto
    show thesis
      by (rule that [of k fs "d\<lparr>dm_pidx := pi\<rparr>"]) (use select_hit [OF inv n] Pair r in simp_all)
  next
    case None
    have pi: "pi = dm_pidx d" using pidx.select_none [of n "dm_pidx d" pi] Pair None by simp
    obtain raw where raw: "PXInitRaw = Ok raw" "page_ok raw" "fso raw = 2" "length raw = PAGE_SIZE" using init_raw by blast
    have pinv: "pc_inv (dm_pc d) ph" and px: "pidx_ok (dm_pc d) (dm_pidx d)" using inv by (simp_all add: dm_inv_def)
    obtain p' where p': "pc_NewPage raw (dm_pc d) = (Ok (noPages (dm_pc d) + 1), p')" "pc_inv p' ph"
      "noPages p' = noPages (dm_pc d) + 1" "pc_c p' = pc_c (dm_pc d)" "pc_content p' (noPages (dm_pc d) + 1) = raw"
      "\<And>k. in_db (dm_pc d) k \<Longrightarrow> pc_content p' k = pc_content (dm_pc d) k"
      using pc_NewPage_ok [OF pinv np raw(4)] by blast
    let ?k = "noPages (dm_pc d) + 1"
    have un: "unat ?k = Suc (unat (noPages (dm_pc d)))" by (rule unat_Suc32 [OF np])
    have mono: "in_db p' j" if "in_db (dm_pc d) j" for j
      using that un p'(3) by (auto simp: in_db_def word_le_nat_alt)
    have new: "in_db p' ?k" "\<not> in_db (dm_pc d) ?k" using un p'(3) by (auto simp: in_db_def word_le_nat_alt word_less_nat_alt)
    have "n \<le> PAGE_SIZE - 2" using n by (simp add: pi_defs)
    moreover have "pi_inv (dm_pidx d)" using px by (simp add: pidx_ok_def)
    ultimately obtain pi' k fs pi'' where a: "pi_Add ?k (int PAGE_SIZE - 2) (dm_pidx d) = Ok pi'" "pi_inv pi'"
      "pi_pages pi' = add_mset (?k, int PAGE_SIZE - 2) (pi_pages (dm_pidx d))" "pi_Select n pi' = (Some (k, fs), pi'')"
      using pidx.add_then_select [of "dm_pidx d" n ?k] by metis
    have "pidx_ok p' (dm_pidx d)" by (rule pidx_ok_frame [OF px]) (use mono p'(6) in blast)
    moreover have "?k \<notin># image_mset fst (pi_pages (dm_pidx d))" using px new(2) by (auto simp: pidx_ok_def)
    ultimately have "pidx_ok p' pi'" using a(2,3) new(1) p'(5) raw by (auto simp: pidx_ok_def)
    then have i1: "dm_inv (d\<lparr>dm_pc := p', dm_pidx := pi'\<rparr>) ph ds" using inv p'(2) by (simp add: dm_inv_def)
    have m: "int PXMaxFreeSpace = int PAGE_SIZE - 2" by (simp add: PXMaxFreeSpace_def px_defs PAGE_SIZE_def)
    have e: "selectPage (Suc (Suc m)) n d = (Ok (k, fs), d\<lparr>dm_pc := p', dm_pidx := pi''\<rparr>)"
      using Pair None pi p'(1) a(1,4) by (simp add: raw(1) on_pc_def dm_Add_def m)
    have fresh: "in_db (dm_pc d) j \<or> page_ok (pc_content p' j)" if "in_db p' j" for j
    proof (cases "j = ?k")
      case False
      then have "unat j \<noteq> Suc (unat (noPages (dm_pc d)))" using un by (simp add: word_unat_eq_iff)
      then show ?thesis using that p'(3) un by (auto simp: in_db_def word_le_nat_alt)
    qed (use p'(5) raw(2) in simp)
    show thesis
      by (rule that [OF e]) (use select_hit [OF i1 n] a(4) p' mono un fresh in simp_all)
  qed
qed

section \<open>Insert\<close>

text \<open>The bytes of an item with the given flag.\<close>

definition item_raw :: "byte \<Rightarrow> bytes \<Rightarrow> bytes" where
  "item_raw flag data = flag # be_bytes 2 (length data) @ data"

lemma Wrap_item_raw: "length data < 2 ^ 16 \<Longrightarrow> WrapDataitemRaw data = item_raw 0 data"
  by (simp add: WrapDataitemRaw_eq item_raw_def)

lemma pidx_ok_add:
  assumes "pidx_ok p pi" and "in_db p k" and "page_ok (pc_content p k)" and "k \<notin># image_mset fst (pi_pages pi)"
  obtains pi' where "pi_Add k (int PAGE_SIZE - int (fso (pc_content p k))) pi = Ok pi'" "pidx_ok p pi'"
proof -
  let ?fs = "int PAGE_SIZE - int (fso (pc_content p k))"
  have "0 \<le> ?fs" "?fs \<le> int PAGE_SIZE" using assms(3) by (simp_all add: page_ok_def)
  from pidx.add_ok [OF _ this, of pi k] assms(1) obtain pi' where
    "pi_Add k ?fs pi = Ok pi'" "pi_inv pi'" "pi_pages pi' = add_mset (k, ?fs) (pi_pages pi)" by (auto simp: pidx_ok_def)
  then show thesis using that [of pi'] assms by (auto simp: pidx_ok_def)
qed

text \<open>Get, log, insert, release on a page that was picked.\<close>

lemma insert_into_page:
  assumes inv: "dm_inv d ph ds" and pk: "picked d k (3 + length data)" and cap: "Suc (size ph) < unat (MaxHandles (pc_c (dm_pc d)))"
    and len: "length data < 2 ^ 16"
  obtains pg lg p' where "on_pc (GetPage k) d = (Ok pg, d\<lparr>dm_pc := p'\<rparr>)" "pg_pgno pg = k" "pg_data pg = pc_content (dm_pc d) k"
    "pc_inv p' (add_mset (Pgno2UUID k) ph)" "cache (pc_c p') (Pgno2UUID k) = Some pg" "pc_content p' = pc_content (dm_pc d)"
    "noPages p' = noPages (dm_pc d)" "MaxHandles (pc_c p') = MaxHandles (pc_c (dm_pc d))"
    "InsertLog xid pg (item_raw 0 data) = Ok (enc_op (Ins xid k (of_nat (fso (pg_data pg))) (item_raw 0 data)))"
    "lg_Log (enc_op (Ins xid k (of_nat (fso (pg_data pg))) (item_raw 0 data))) (dm_lg d) = (Ok (), lg)"
    "lg_holds (ds @ [enc_op (Ins xid k (of_nat (fso (pg_data pg))) (item_raw 0 data))]) lg"
    "PXInsert pg (item_raw 0 data) =
       Ok (of_nat (fso (pg_data pg)), pg\<lparr>pg_data := px_put (pg_data pg) (item_raw 0 data), pg_dirty := True\<rparr>)"
proof -
  have p: "pc_inv (dm_pc d) ph" and lg: "lg_holds ds (dm_lg d)" using inv by (simp_all add: dm_inv_def)
  have db: "in_db (dm_pc d) k" and ok: "page_ok (pc_content (dm_pc d) k)" and
    fits: "fso (pc_content (dm_pc d) k) + (3 + length data) \<le> PAGE_SIZE" using pk by (simp_all add: picked_def)
  obtain pg p' where g: "GetPage k (dm_pc d) = (Ok pg, p')" "pg_pgno pg = k" "pg_data pg = pc_content (dm_pc d) k"
    "cache (pc_c p') (Pgno2UUID k) = Some pg" "pc_inv p' (add_mset (Pgno2UUID k) ph)"
    "pc_content p' = pc_content (dm_pc d)" "noPages p' = noPages (dm_pc d)" "MaxHandles (pc_c p') = MaxHandles (pc_c (dm_pc d))"
    using GetPage_ok [OF p db] cap unfolding pc_room_def by blast
  have l2: "2 \<le> length (pg_data pg)" using ok g(3) by (simp add: page_ok_def PAGE_SIZE_def)
  let ?e = "enc_op (Ins xid k (of_nat (fso (pg_data pg))) (item_raw 0 data))"
  have "loggable ?e" using len by (simp add: loggable_def item_raw_def)
  then obtain lg' where lg': "lg_Log ?e (dm_lg d) = (Ok (), lg')" "lg_holds (ds @ [?e]) lg'" using lg_Log_holds [OF lg] by blast
  have r: "length (item_raw 0 data) = 3 + length data" by (simp add: item_raw_def)
  have "PXInsert pg (item_raw 0 data) =
      Ok (of_nat (fso (pg_data pg)), pg\<lparr>pg_data := px_put (pg_data pg) (item_raw 0 data), pg_dirty := True\<rparr>)"
    by (rule PXInsert_fits) (use ok fits g(3) r in simp_all)
  then show thesis
    using that [of pg p' lg'] g lg' InsertLog_eq [OF l2, of xid "item_raw 0 data"] by (simp add: on_pc_def del: enc_op.simps)
qed

lemma dm_Insert_full:
  assumes inv: "dm_inv d ph ds" and n: "length data + 3 < NO_INTERVAL * THRESHOLD"
    and np: "Suc (unat (noPages (dm_pc d))) < 2 ^ 32" and cap: "Suc (size ph) < unat (MaxHandles (pc_c (dm_pc d)))"
  obtains k off d' where "dm_Insert xid data d = (Ok (Address2UUID k off), d')"
    "dm_inv d' ph (ds @ [enc_op (Ins xid k off (item_raw 0 data))])" "in_db (dm_pc d') k"
    "2 \<le> unat off" "unat off + 3 + length data \<le> PAGE_SIZE" "page_ok (pc_content (dm_pc d') k)"
    "window (pc_content (dm_pc d') k) (unat off) (3 + length data) = item_raw 0 data"
    "in_db (dm_pc d) k \<Longrightarrow> unat off = fso (pc_content (dm_pc d) k)"
    "\<And>j. in_db (dm_pc d) j \<Longrightarrow> in_db (dm_pc d') j \<and> fso (pc_content (dm_pc d) j) \<le> fso (pc_content (dm_pc d') j) \<and>
       (\<forall>a n. 2 \<le> a \<and> a + n \<le> fso (pc_content (dm_pc d) j) \<longrightarrow>
          window (pc_content (dm_pc d') j) a n = window (pc_content (dm_pc d) j) a n)"
    "dm_dic d' = dm_dic d" "MaxHandles (pc_c (dm_pc d')) = MaxHandles (pc_c (dm_pc d))"
    "unat (noPages (dm_pc d')) \<le> Suc (unat (noPages (dm_pc d)))"
    "fso (pc_content (dm_pc d') k) = unat off + 3 + length data"
    "\<And>j. in_db (dm_pc d) j \<Longrightarrow> page_ok (pc_content (dm_pc d) j) \<Longrightarrow> page_ok (pc_content (dm_pc d') j)"
    "\<And>v pg. v \<in># ph \<Longrightarrow> cache (pc_c (dm_pc d)) v = Some pg \<Longrightarrow> pg_dirty pg \<Longrightarrow> \<exists>pg'. cache (pc_c (dm_pc d')) v = Some pg' \<and> pg_dirty pg'"
    "\<And>j. in_db (dm_pc d') j \<Longrightarrow> page_ok (pc_content (dm_pc d') j) \<longleftrightarrow> (in_db (dm_pc d) j \<longrightarrow> page_ok (pc_content (dm_pc d) j))"
    "dm_page1 d' = dm_page1 d"
proof -
  let ?raw = "item_raw 0 data" and ?n = "3 + length data"
  have n': "?n < NO_INTERVAL * THRESHOLD" "?n < 8192" using n by (simp_all add: pi_defs)
  have w: "WrapDataitemRaw data = ?raw" and lr: "length ?raw = ?n" using n' by (simp_all add: Wrap_item_raw item_raw_def)
  have five: "(5 :: nat) = Suc (Suc 3)" by simp
  obtain k fs d1 where s: "selectPage 5 ?n d = (Ok (k, fs), d1)" "dm_inv d1 ph ds" "picked d1 k ?n"
    "pc_c (dm_pc d1) = pc_c (dm_pc d)" "dm_dic d1 = dm_dic d"
    "\<And>j. in_db (dm_pc d) j \<Longrightarrow> in_db (dm_pc d1) j \<and> pc_content (dm_pc d1) j = pc_content (dm_pc d) j"
    "unat (noPages (dm_pc d1)) \<le> Suc (unat (noPages (dm_pc d)))" "dm_page1 d1 = dm_page1 d"
    "\<And>j. in_db (dm_pc d1) j \<Longrightarrow> in_db (dm_pc d) j \<or> page_ok (pc_content (dm_pc d1) j)"
  proof (rule selectPage_ok [OF inv n'(1) np, of 3])
    fix k fs d1 assume sel: "selectPage (Suc (Suc 3)) ?n d = (Ok (k, fs), d1)" and rest: "dm_inv d1 ph ds" "picked d1 k ?n"
      "pc_c (dm_pc d1) = pc_c (dm_pc d)" "dm_dic d1 = dm_dic d"
      "\<And>j. in_db (dm_pc d) j \<Longrightarrow> in_db (dm_pc d1) j \<and> pc_content (dm_pc d1) j = pc_content (dm_pc d) j"
      "unat (noPages (dm_pc d1)) \<le> Suc (unat (noPages (dm_pc d)))" "dm_page1 d1 = dm_page1 d"
      "\<And>j. in_db (dm_pc d1) j \<Longrightarrow> in_db (dm_pc d) j \<or> page_ok (pc_content (dm_pc d1) j)"
    from sel have "selectPage 5 ?n d = (Ok (k, fs), d1)" unfolding five .
    then show thesis using that rest by simp
  qed
  have cap1: "Suc (size ph) < unat (MaxHandles (pc_c (dm_pc d1)))" using cap s(4) by simp
  have "length data < 2 ^ 16" using n' by simp
  then obtain pg lg p1 where g: "on_pc (GetPage k) d1 = (Ok pg, d1\<lparr>dm_pc := p1\<rparr>)" "pg_pgno pg = k" "pg_data pg = pc_content (dm_pc d1) k"
    "pc_inv p1 (add_mset (Pgno2UUID k) ph)" "cache (pc_c p1) (Pgno2UUID k) = Some pg" "pc_content p1 = pc_content (dm_pc d1)"
    "noPages p1 = noPages (dm_pc d1)" "MaxHandles (pc_c p1) = MaxHandles (pc_c (dm_pc d1))"
    "InsertLog xid pg ?raw = Ok (enc_op (Ins xid k (of_nat (fso (pg_data pg))) ?raw))"
    "lg_Log (enc_op (Ins xid k (of_nat (fso (pg_data pg))) ?raw)) (dm_lg d1) = (Ok (), lg)"
    "lg_holds (ds @ [enc_op (Ins xid k (of_nat (fso (pg_data pg))) ?raw)]) lg"
    "PXInsert pg ?raw = Ok (of_nat (fso (pg_data pg)), pg\<lparr>pg_data := px_put (pg_data pg) ?raw, pg_dirty := True\<rparr>)"
    using insert_into_page [OF s(2,3) cap1] by blast
  let ?d = "pc_content (dm_pc d1) k" and ?off = "of_nat (fso (pg_data pg)) :: Offset"
  let ?pg = "pg\<lparr>pg_data := px_put (pg_data pg) ?raw, pg_dirty := True\<rparr>"
  have pk: "in_db (dm_pc d1) k" "page_ok ?d" "fso ?d + length ?raw \<le> PAGE_SIZE" "k \<notin># image_mset fst (pi_pages (dm_pidx d1))"
    using s(3) lr by (simp_all add: picked_def)
  note f = px_put_facts [OF pk(2,3)]
  have off: "unat ?off = fso ?d" using page_ok_length [OF pk(2)] g(3) by (simp add: unat_fso)
  have set: "pc_inv (pc_set ?pg p1) (add_mset (Pgno2UUID k) ph)" "pc_content (pc_set ?pg p1) = (pc_content (dm_pc d1))(k := px_put ?d ?raw)"
    "noPages (pc_set ?pg p1) = noPages (dm_pc d1)" "MaxHandles (pc_c (pc_set ?pg p1)) = MaxHandles (pc_c (dm_pc d1))"
    using pc_set_ok [OF g(4,5), of ?pg] g f by simp_all
  obtain p2 where p2: "pc_release k (pc_set ?pg p1) = (Ok (), p2)" "pc_inv p2 ph"
    "\<And>j. in_db (pc_set ?pg p1) j \<Longrightarrow> pc_content p2 j = pc_content (pc_set ?pg p1) j" "noPages p2 = noPages (dm_pc d1)"
    "MaxHandles (pc_c p2) = MaxHandles (pc_c (dm_pc d1))"
    using pc_release_ok [OF set(1), of k] set(3,4) by auto
  have db: "in_db p2 j = in_db (dm_pc d1) j" "in_db (pc_set ?pg p1) j = in_db (dm_pc d1) j" for j
    using p2(4) set(3) by (simp_all add: in_db_def)
  have c2: "pc_content p2 j = (if j = k then px_put ?d ?raw else pc_content (dm_pc d1) j)" if "in_db (dm_pc d1) j" for j
    using p2(3) db that set(2) by simp
  have px1: "pidx_ok (dm_pc d1) (dm_pidx d1)" using s(2) by (simp add: dm_inv_def)
  have "j \<noteq> k" if "(j, fs) \<in># pi_pages (dm_pidx d1)" for j fs using pk(4) that by force
  then have px2: "pidx_ok p2 (dm_pidx d1)" using px1 c2 db by (auto simp: pidx_ok_def)
  have k2: "in_db p2 k" "pc_content p2 k = px_put ?d ?raw" "page_ok (pc_content p2 k)" using db c2 pk(1) f(3) by simp_all
  obtain pi' where pi': "pi_Add k (int PAGE_SIZE - int (fso (pc_content p2 k))) (dm_pidx d1) = Ok pi'" "pidx_ok p2 pi'"
    using pidx_ok_add [OF px2 k2(1,3) pk(4)] by blast
  have fs: "PXFreeSpace ?pg = Ok (int PAGE_SIZE - int (fso (pc_content p2 k)))"
    using PXFreeSpace_eq [of ?pg] k2(2) g(3) f(1) by (simp add: PAGE_SIZE_def)
  let ?d' = "d1\<lparr>dm_pc := p2, dm_lg := lg, dm_pidx := pi'\<rparr>"
  have k0: "k \<noteq> 0" using pk(1) by (auto simp: in_db_def)
  have "\<not> PXMaxFreeSpace < ?n" using n' by (simp add: PXMaxFreeSpace_def pi_defs px_defs)
  then have e: "dm_Insert xid data d = (Ok (Address2UUID k ?off), ?d')"
    using s(1) g(1,9,10,12) p2(1) fs pi'(1) k0 lr
    by (simp add: dm_Insert_def w on_lg_def on_pc_def reAdd_def dm_Add_def Let_def del: enc_op.simps selectPage.simps)
  show thesis
  proof (rule that [OF e])
    show "dm_inv ?d' ph (ds @ [enc_op (Ins xid k ?off ?raw)])" using p2(2) g(11) pi'(2) by (simp add: dm_inv_def)
    show "2 \<le> unat ?off" "unat ?off + 3 + length data \<le> PAGE_SIZE" using off pk(2,3) lr by (simp_all add: page_ok_def)
    show "window (pc_content (dm_pc ?d') k) (unat ?off) ?n = ?raw" using f(4) k2(2) off lr by simp
    show "unat ?off = fso (pc_content (dm_pc d) k)" if "in_db (dm_pc d) k" using s(6) [OF that] off by simp
    show "in_db (dm_pc ?d') j \<and> fso (pc_content (dm_pc d) j) \<le> fso (pc_content (dm_pc ?d') j) \<and>
       (\<forall>a n. 2 \<le> a \<and> a + n \<le> fso (pc_content (dm_pc d) j) \<longrightarrow>
          window (pc_content (dm_pc ?d') j) a n = window (pc_content (dm_pc d) j) a n)" if "in_db (dm_pc d) j" for j
      using s(6) [OF that] db c2 [of j] f by auto
    show "fso (pc_content (dm_pc ?d') k) = unat ?off + 3 + length data" using f(2) k2(2) off lr by simp
    show "page_ok (pc_content (dm_pc ?d') j)" if "in_db (dm_pc d) j" "page_ok (pc_content (dm_pc d) j)" for j
      using s(6) [OF that(1)] that(2) c2 [of j] f(3) by auto
    show "page_ok (pc_content (dm_pc ?d') j) \<longleftrightarrow> (in_db (dm_pc d) j \<longrightarrow> page_ok (pc_content (dm_pc d) j))" if "in_db (dm_pc ?d') j" for j
    proof (cases "j = k")
      case True
      then show ?thesis using k2(3) s(6) [of k] pk(2) by auto
    next
      case False
      then have "pc_content p2 j = pc_content (dm_pc d1) j" "in_db (dm_pc d1) j" using c2 [of j] db(1) that by simp_all
      then show ?thesis using s(6) [of j] s(9) [of j] by auto
    qed
    show "\<exists>pg'. cache (pc_c (dm_pc ?d')) v = Some pg' \<and> pg_dirty pg'" if v: "v \<in># ph" "cache (pc_c (dm_pc d)) v = Some q" "pg_dirty q" for v q
    proof -
      have "GetPage k (dm_pc d1) = (Ok pg, p1)" using g(1) by (auto simp: on_pc_def split: prod.splits dest: arg_cong [of _ _ dm_pc])
      then have "cache (pc_c p1) v = Some q" using GetPage_cached v(2) s(4) by metis
      then have d: "pg_dirty q'" if "cache (pc_c (pc_set ?pg p1)) v = Some q'" for q' using that v(3) by (auto simp: pc_set_def split: if_splits)
      have "cache (pc_c p2) v \<noteq> None" using p2(2) v(1) unfolding pc_inv_def cacher_inv_def by blast
      then show ?thesis using pc_release_cached [OF p2(1), of v] d by auto
    qed
  qed (use k2 s p2 in simp_all)
qed

lemma dm_Insert_ok:
  assumes inv: "dm_inv d ph ds" and n: "length data + 3 < NO_INTERVAL * THRESHOLD"
    and np: "Suc (unat (noPages (dm_pc d))) < 2 ^ 32" and cap: "Suc (size ph) < unat (MaxHandles (pc_c (dm_pc d)))"
  obtains k off d' where "dm_Insert xid data d = (Ok (Address2UUID k off), d')"
    "dm_inv d' ph (ds @ [enc_op (Ins xid k off (item_raw 0 data))])" "in_db (dm_pc d') k"
    "2 \<le> unat off" "unat off + 3 + length data \<le> PAGE_SIZE" "page_ok (pc_content (dm_pc d') k)"
    "window (pc_content (dm_pc d') k) (unat off) (3 + length data) = item_raw 0 data"
    "in_db (dm_pc d) k \<Longrightarrow> unat off = fso (pc_content (dm_pc d) k)"
    "\<And>j. in_db (dm_pc d) j \<Longrightarrow> in_db (dm_pc d') j \<and> fso (pc_content (dm_pc d) j) \<le> fso (pc_content (dm_pc d') j) \<and>
       (\<forall>a n. 2 \<le> a \<and> a + n \<le> fso (pc_content (dm_pc d) j) \<longrightarrow>
          window (pc_content (dm_pc d') j) a n = window (pc_content (dm_pc d) j) a n)"
    "dm_dic d' = dm_dic d" "MaxHandles (pc_c (dm_pc d')) = MaxHandles (pc_c (dm_pc d))"
  using dm_Insert_full [OF inv n np cap, of xid thesis] that by blast

section \<open>Read\<close>

lemma dm_Read_stored:
  assumes inv: "dm_inv d ph ds" and db: "in_db (dm_pc d) k" and cap: "Suc (size ph) < unat (MaxHandles (pc_c (dm_pc d)))"
    and dic: "cacher_inv (dm_dic d) held {#}" "MaxHandles (dm_dic d) = 0" "cache (dm_dic d) (Address2UUID k off) = None"
    and st: "unat off + 3 + length data \<le> PAGE_SIZE"
      "window (pc_content (dm_pc d) k) (unat off) (3 + length data) = item_raw 0 data"
  obtains di d' where "dm_Read (Address2UUID k off) d = (Ok (Some di), d')" "dm_Data di d' = Ok data"
    "di_uid di = Address2UUID k off" "pc_content (dm_pc d') = pc_content (dm_pc d)"
    "cache (dm_dic d') = (cache (dm_dic d))(Address2UUID k off \<mapsto> di)"
    "pc_inv (dm_pc d') (add_mset (Pgno2UUID k) ph)" "refs (dm_dic d') = (refs (dm_dic d))(Address2UUID k off \<mapsto> 1)" "di_pgno di = k"
proof -
  let ?u = "Address2UUID k off"
  let ?c = "(dm_dic d)\<lparr>getting := {?u}, count := count (dm_dic d) + 1\<rparr>"
  have p: "pc_inv (dm_pc d) ph" using inv by (simp add: dm_inv_def)
  have t: "get_try ?u (dm_dic d) = (Load, ?c)" using dic by (simp add: get_try_def cacher_inv_def)
  obtain pg p' where g: "GetPage k (dm_pc d) = (Ok pg, p')" "pg_pgno pg = k" "pg_data pg = pc_content (dm_pc d) k"
    "cache (pc_c p') (Pgno2UUID k) = Some pg" "pc_inv p' (add_mset (Pgno2UUID k) ph)" "pc_content p' = pc_content (dm_pc d)"
    using GetPage_ok [OF p db] cap unfolding pc_room_def by blast
  have len: "length (pg_data pg) = PAGE_SIZE" using pc_content_length [OF p db] g(3) by simp
  obtain di where di: "ParseDataitem pg off = Ok di" "di_uid di = Address2UUID (pg_pgno pg) off"
    "di_IsValid di pg = Ok ((0 :: byte) = 0)" "di_Data di pg = Ok data"
    using ParseDataitem_stored [OF len st(1), of 0] st(2) g(3) by (auto simp: item_raw_def)
  have pgno: "di_pgno di = k" using di(1) g(2) by (auto simp: ParseDataitem_def rbind_eq_Ok Let_def)
  let ?c' = "(dm_dic d)\<lparr>getting := {}, count := count (dm_dic d) + 1,
     cache := (cache (dm_dic d))(?u \<mapsto> di), refs := (refs (dm_dic d))(?u \<mapsto> 1)\<rparr>"
  let ?d' = "d\<lparr>dm_dic := ?c', dm_pc := p'\<rparr>"
  have "dic_Get ?u d = (Ok di, ?d')"
    using t g(1) di(1) by (simp add: dic_Get_def dm_getForCacher_def on_pc_def get_finish_def Let_def)
  moreover have ip: "item_page di ?d' = Ok pg" using g(4) pgno by (simp add: item_page_def)
  ultimately have "dm_Read ?u d = (Ok (Some di), ?d')" using di(3) by (simp add: dm_Read_def)
  moreover have "dm_Data di ?d' = Ok data" using ip di(4) by (simp add: dm_Data_def)
  ultimately show thesis using that [of di ?d'] di(2) g pgno by simp
qed

section \<open>Update\<close>

lemma pidx_ok_same_fso:
  assumes "pidx_ok p pi" and "\<And>j. in_db p j \<Longrightarrow> in_db p' j \<and> (page_ok (pc_content p j) \<longrightarrow> page_ok (pc_content p' j)) \<and>
      fso (pc_content p' j) = fso (pc_content p j)"
  shows "pidx_ok p' pi"
  using assms unfolding pidx_ok_def by fastforce

text \<open>Rewriting bytes behind the header of a held page.\<close>

lemma dm_inv_set_page:
  assumes inv: "dm_inv d ph ds" and pg: "cache (pc_c (dm_pc d)) (Pgno2UUID k) = Some pg"
    and pg': "pg_pgno pg' = k" "pg_dirty pg'" "pg_data pg' = overwrite (pc_content (dm_pc d) k) off src"
    and off: "2 \<le> off" "off + length src \<le> PAGE_SIZE"
  shows "dm_inv (d\<lparr>dm_pc := pc_set pg' (dm_pc d)\<rparr>) ph ds"
    and "pc_content (pc_set pg' (dm_pc d)) = (pc_content (dm_pc d))(k := overwrite (pc_content (dm_pc d) k) off src)"
    and "cache (pc_c (pc_set pg' (dm_pc d))) (Pgno2UUID k) = Some pg'"
proof -
  have p: "pc_inv (dm_pc d) ph" using inv by (simp add: dm_inv_def)
  have ck: "cached_ok (dm_pc d) (Pgno2UUID k) pg" using p pg by (simp add: pc_inv_def)
  then have db: "in_db (dm_pc d) k" by (simp add: cached_ok_def)
  have l: "length (pc_content (dm_pc d) k) = PAGE_SIZE" by (rule pc_content_length [OF p db])
  then have l': "length (pg_data pg') = PAGE_SIZE" using pg'(3) off by simp
  note s = pc_set_ok [OF p pg pg'(1) l' pg'(2)]
  show c: "pc_content (pc_set pg' (dm_pc d)) = (pc_content (dm_pc d))(k := overwrite (pc_content (dm_pc d) k) off src)"
    using s(2) pg'(3) by simp
  have f: "fso (overwrite (pc_content (dm_pc d) k) off src) = fso (pc_content (dm_pc d) k)"
    using fso_overwrite off l by simp
  have "pidx_ok (pc_set pg' (dm_pc d)) (dm_pidx d)"
    by (rule pidx_ok_same_fso [of "dm_pc d"])
      (use inv c f l off s(3) in \<open>auto simp: dm_inv_def in_db_def page_ok_def\<close>)
  then show "dm_inv (d\<lparr>dm_pc := pc_set pg' (dm_pc d)\<rparr>) ph ds" using inv s(1) by (simp add: dm_inv_def)
  show "cache (pc_c (pc_set pg' (dm_pc d))) (Pgno2UUID k) = Some pg'" using s(5) .
qed

text \<open>An item one holds: its page is cached, and its window lies behind the page header.\<close>

definition holds_item :: "dataManager \<Rightarrow> dataitem \<Rightarrow> Pgno \<Rightarrow> Offset \<Rightarrow> bool" where
  "holds_item d di k off \<longleftrightarrow> di_pgno di = k \<and> di_off di = unat off \<and> di_uid di = Address2UUID k off \<and>
     cache (pc_c (dm_pc d)) (Pgno2UUID k) \<noteq> None \<and> 2 \<le> unat off \<and> 3 \<le> di_len di \<and> unat off + di_len di \<le> PAGE_SIZE \<and>
     length (di_oldraw di) = di_len di"

lemma cached_content: "cache (pc_c p) (Pgno2UUID k) = Some pg \<Longrightarrow> pc_content p k = pg_data pg"
  by (simp add: pc_content_def)

lemma overwrite_tail:
  assumes "off + n \<le> length d" and "m \<le> n" and "length src = n - m"
  shows "overwrite d (off + m) src = overwrite d off (take m (window d off n) @ src)"
proof (rule nth_equalityI)
  show "length (overwrite d (off + m) src) = length (overwrite d off (take m (window d off n) @ src))" using assms by simp
  fix i assume "i < length (overwrite d (off + m) src)"
  then show "overwrite d (off + m) src ! i = overwrite d off (take m (window d off n) @ src) ! i"
    using assms by (auto simp: nth_overwrite nth_append)
qed

lemma overwrite_window: "off + n \<le> length d \<Longrightarrow> overwrite d off (window d off n) = d"
  by (rule nth_equalityI) (auto simp: nth_overwrite)

lemma overwrite_twice: "off + length a \<le> length d \<Longrightarrow> length a = length b \<Longrightarrow> overwrite (overwrite d off a) off b = overwrite d off b"
  by (rule nth_equalityI) (auto simp: nth_overwrite)

section \<open>Properties\<close>

text \<open>C17. Insert then read: on a healthy disk, for items below 8160 bytes, \<open>Insert\<close> succeeds, appends exactly one insert record
  naming the transaction, the place and the bytes to the log before the page can reach the disk, keeps the index exact and leaks no
  page handle; reading the returned UUID gives a valid item with exactly the data inserted; and all
  bytes stored before, in every page, are unchanged.\<close>

theorem dm_insert_read:
  assumes "dm_inv d ph ds" and "dic_ok d held" and "length data + 3 < NO_INTERVAL * THRESHOLD"
    and "Suc (unat (noPages (dm_pc d))) < 2 ^ 32" and "Suc (size ph) < unat (MaxHandles (pc_c (dm_pc d)))"
  shows "\<exists>k off d1 di d2. dm_Insert xid data d = (Ok (Address2UUID k off), d1) \<and>
     dm_inv d1 ph (ds @ [enc_op (Ins xid k off (WrapDataitemRaw data))]) \<and>
     dm_Read (Address2UUID k off) d1 = (Ok (Some di), d2) \<and> dm_Data di d2 = Ok data \<and>
     (\<forall>j a n. in_db (dm_pc d) j \<and> 2 \<le> a \<and> a + n \<le> fso (pc_content (dm_pc d) j) \<longrightarrow>
        window (pc_content (dm_pc d2) j) a n = window (pc_content (dm_pc d) j) a n)"
proof -
  obtain k off d1 where i: "dm_Insert xid data d = (Ok (Address2UUID k off), d1)"
    "dm_inv d1 ph (ds @ [enc_op (Ins xid k off (item_raw 0 data))])" "in_db (dm_pc d1) k"
    "unat off + 3 + length data \<le> PAGE_SIZE"
    "window (pc_content (dm_pc d1) k) (unat off) (3 + length data) = item_raw 0 data"
    "in_db (dm_pc d) k \<Longrightarrow> unat off = fso (pc_content (dm_pc d) k)"
    "\<And>j. in_db (dm_pc d) j \<Longrightarrow> in_db (dm_pc d1) j \<and> fso (pc_content (dm_pc d) j) \<le> fso (pc_content (dm_pc d1) j) \<and>
       (\<forall>a n. 2 \<le> a \<and> a + n \<le> fso (pc_content (dm_pc d) j) \<longrightarrow>
          window (pc_content (dm_pc d1) j) a n = window (pc_content (dm_pc d) j) a n)"
    "dm_dic d1 = dm_dic d" "MaxHandles (pc_c (dm_pc d1)) = MaxHandles (pc_c (dm_pc d))"
    using dm_Insert_ok [OF assms(1,3,4,5)] by (metis (no_types, lifting))
  have w: "WrapDataitemRaw data = item_raw 0 data" using assms(3) by (simp add: Wrap_item_raw pi_defs)
  have c: "cache (dm_dic d1) (Address2UUID k off) = None"
  proof (rule ccontr)
    assume "cache (dm_dic d1) (Address2UUID k off) \<noteq> None"
    then obtain di where "cache (dm_dic d) (Address2UUID k off) = Some di" using i(8) by auto
    then have "in_db (dm_pc d) k \<and> unat off < fso (pc_content (dm_pc d) k)" using assms(2) by (auto simp: dic_ok_def)
    then show False using i(6) by simp
  qed
  have h: "cacher_inv (dm_dic d1) held {#}" "MaxHandles (dm_dic d1) = 0" using assms(2) i(8) by (simp_all add: dic_ok_def)
  have cap: "Suc (size ph) < unat (MaxHandles (pc_c (dm_pc d1)))" using assms(5) i(9) by simp
  obtain di d2 where "dm_Read (Address2UUID k off) d1 = (Ok (Some di), d2)" "dm_Data di d2 = Ok data"
    "pc_content (dm_pc d2) = pc_content (dm_pc d1)"
    using dm_Read_stored [OF i(2,3) cap h c i(4,5)] by metis
  then show ?thesis using i(1,2,7) w by metis
qed

definition new_dm :: dataManager where
  "new_dm = \<lparr>dm_pc = one_page_pc, dm_lg = \<lparr>lg_file = \<lparr>fdata = Uint32ToRaw 0, fpos = 4, ffault = []\<rparr>, lg_pos = 0, lg_fileSize = 0, xChecksum = 0\<rparr>,
     dm_pidx = NewPindex, dm_dic = NewCacher 0, dm_page1 = None\<rparr>"

lemma new_dm_ok: "dm_inv new_dm {#} []" "dic_ok new_dm {#}" "Suc (unat (noPages (dm_pc new_dm))) < 2 ^ 32"
  "Suc (size {#}) < unat (MaxHandles (pc_c (dm_pc new_dm)))"
proof -
  show "dm_inv new_dm {#} []" using one_page_pc_inv(1) pi_inv_New
    by (simp add: new_dm_def dm_inv_def pidx_ok_def lg_holds_def once_def)
  show "dic_ok new_dm {#}" using cacher_inv_New [of 0] by (simp add: new_dm_def dic_ok_def) (simp add: NewCacher_def)
  show "Suc (unat (noPages (dm_pc new_dm))) < 2 ^ 32" by (simp add: new_dm_def one_page_pc_def)
  show "Suc (size {#}) < unat (MaxHandles (pc_c (dm_pc new_dm)))" by (simp add: new_dm_def one_page_pc_inv(3))
qed

theorem dm_insert_read_witness:
  "\<exists>uid d1 di d2. dm_Insert 1 [5, 6] new_dm = (Ok uid, d1) \<and> dm_Read uid d1 = (Ok (Some di), d2) \<and> dm_Data di d2 = Ok [5, 6]"
proof -
  have "length [5 :: byte, 6] + 3 < NO_INTERVAL * THRESHOLD" by (simp add: pi_defs)
  from dm_insert_read [OF new_dm_ok(1,2) this new_dm_ok(3,4), of 1] show ?thesis by blast
qed



text \<open>\<open>Insert\<close> leaks a page handle when logging fails: if the log refuses the record, \<open>Insert\<close> returns the error without
  releasing the page it got, so the reference count of that page stays raised and the page can never be evicted.\<close>

lemma dm_insert_log_failure_leaks:
  assumes "pc_inv (dm_pc d) ph" and "pidx_ok (dm_pc d) (dm_pidx d)"
    and "pi_Select (length (WrapDataitemRaw data)) (dm_pidx d) = (Some (k, fs), pi)"
    and "length data + 3 < NO_INTERVAL * THRESHOLD" and "Suc (size ph) < unat (MaxHandles (pc_c (dm_pc d)))"
    and "ffault (lg_file (dm_lg d)) = True # faults"
  shows "\<exists>d'. dm_Insert xid data d = (Err ErrIO, d') \<and>
     unat (ref_of (refs (pc_c (dm_pc d'))) (Pgno2UUID k)) = Suc (Multiset.count ph (Pgno2UUID k))"
proof -
  obtain lg0 where lg0: "lg_holds [] lg0" using lg_Create_holds by blast
  let ?d0 = "d\<lparr>dm_lg := lg0\<rparr>" and ?raw = "item_raw 0 data"
  have w: "WrapDataitemRaw data = ?raw" and n: "length ?raw = 3 + length data" "length data < 2 ^ 16"
    using assms(4) by (simp_all add: Wrap_item_raw pi_defs item_raw_def)
  have inv: "dm_inv ?d0 ph []" using assms(1,2) lg0 by (simp add: dm_inv_def)
  have n': "length ?raw < NO_INTERVAL * THRESHOLD" using assms(4) n by simp
  have sel0: "pi_Select (length ?raw) (dm_pidx ?d0) = (Some (k, fs), pi)" using assms(3) w by simp
  note hit = select_hit [OF inv n' sel0]
  have pk: "in_db (dm_pc d) k" "page_ok (pc_content (dm_pc d) k)" "k \<notin># image_mset fst (pi_pages pi)" "pidx_ok (dm_pc d) pi"
    using hit by (simp_all add: picked_def dm_inv_def)
  obtain pg p' where g: "GetPage k (dm_pc d) = (Ok pg, p')" "pg_data pg = pc_content (dm_pc d) k" "pg_pgno pg = k"
    "pc_inv p' (add_mset (Pgno2UUID k) ph)" using GetPage_ok [OF assms(1) pk(1)] assms(5) unfolding pc_room_def by metis
  have l: "2 \<le> length (pg_data pg)" using g(2) pk(2) by (simp add: page_ok_def PAGE_SIZE_def)
  obtain pi' where pi': "pi_Add k (int PAGE_SIZE - int (fso (pc_content (dm_pc d) k))) pi = Ok pi'"
    using pidx_ok_add [OF pk(4,1,2,3)] by metis
  have k0: "k \<noteq> 0" using pk(1) by (auto simp: in_db_def)
  have "selectPage (Suc 4) (length ?raw) d = (Ok (k, fs), d\<lparr>dm_pidx := pi\<rparr>)"
    by (subst selectPage.simps(2)) (use assms(3) w in simp)
  then have sel: "selectPage 5 (length ?raw) d = (Ok (k, fs), d\<lparr>dm_pidx := pi\<rparr>)" by (simp del: selectPage.simps)
  have "\<not> PXMaxFreeSpace < length ?raw" using assms(4) n by (simp add: PXMaxFreeSpace_def pi_defs px_defs)
  then have "dm_Insert xid data d = (Err ErrIO, d\<lparr>dm_pidx := pi', dm_pc := p', dm_lg := (dm_lg d)\<lparr>lg_file := io_tick (lg_file (dm_lg d))\<rparr>\<rparr>)"
    using g(1) pi' k0 sel assms(6) InsertLog_eq [OF l, of xid ?raw] PXFreeSpace_eq [OF l] g(2)
    by (simp add: dm_Insert_def w on_lg_def on_pc_def reAdd_def dm_Add_def lg_Log_def lg_io_def Write_def io_fails_def Let_def
        del: enc_op.simps selectPage.simps)
  moreover have "unat (ref_of (refs (pc_c p')) (Pgno2UUID k)) = Suc (Multiset.count ph (Pgno2UUID k))"
    using g(4) by (simp add: pc_inv_def cacher_inv_def)
  ultimately show ?thesis by simp
qed

end
