(* ===== verification/LockTable.thy ===== *)
theory LockTable
  imports Utils
begin

text \<open>
  The lock table (\<^verbatim>\<open>sm/locktable/lock_table.go\<close>): which transaction holds which entry, who waits for what, and deadlock detection
  before a wait begins. The maps of the code are maps here; the order in which Go ranges over \<open>x2u\<close> is a parameter. A
  loop that may run forever is a \<open>partial_function\<close>, so that \<open>None\<close> means that the call does not return;
  a failed \<open>utils.Assert\<close> is \<open>Panic\<close>. A channel with a token in it is the answer \<open>Granted\<close>; a transaction in
  \<open>waitCh\<close> is blocked on its channel, and \<open>selectNewXID\<close> returns the transaction it wakes. The table's mutex makes \<open>Add\<close> and
  \<open>Remove\<close> atomic.
\<close>

section \<open>Model\<close>

record lockTable =
  x2u :: "UUID \<rightharpoonup> UUID list"
  u2x :: "UUID \<rightharpoonup> UUID"
  lt_wait :: "UUID \<rightharpoonup> UUID list"
  waitCh :: "UUID set"
  xwaitu :: "UUID \<rightharpoonup> UUID"

definition NewLockTable :: lockTable where
  "NewLockTable = \<lparr>x2u = Map.empty, u2x = Map.empty, lt_wait = Map.empty, waitCh = {}, xwaitu = Map.empty\<rparr>"

definition isInList :: "(UUID \<rightharpoonup> UUID list) \<Rightarrow> UUID \<Rightarrow> UUID \<Rightarrow> bool" where
  "isInList listMap uid0 uid1 = (case listMap uid0 of None \<Rightarrow> False | Some l \<Rightarrow> uid1 \<in> set l)"

definition putIntoList :: "(UUID \<rightharpoonup> UUID list) \<Rightarrow> UUID \<Rightarrow> UUID \<Rightarrow> (UUID \<rightharpoonup> UUID list)" where
  "putIntoList listMap uid0 uid1 =
     listMap(uid0 \<mapsto> (case listMap uid0 of None \<Rightarrow> [] | Some l \<Rightarrow> l) @ [uid1])"

text \<open>The loop of \<open>removeFromList\<close>: the element looked at never changes.\<close>

partial_function (option) removeLoop :: "UUID list \<Rightarrow> UUID \<Rightarrow> UUID list option" where
  "removeLoop l uid1 =
     (case l of [] \<Rightarrow> Some l
      | e # rest \<Rightarrow> if e = uid1 then Some rest else removeLoop l uid1)"

definition removeFromList :: "(UUID \<rightharpoonup> UUID list) \<Rightarrow> UUID \<Rightarrow> UUID \<Rightarrow> (UUID \<rightharpoonup> UUID list) res option" where
  "removeFromList listMap uid0 uid1 =
     (case listMap uid0 of
        None \<Rightarrow> Some Panic
      | Some l \<Rightarrow>
          (case removeLoop l uid1 of
             None \<Rightarrow> None
           | Some l \<Rightarrow> Some (Ok (if l = [] then listMap(uid0 := None) else listMap(uid0 \<mapsto> l)))))"

partial_function (option) dfs :: "lockTable \<Rightarrow> UUID \<Rightarrow> (UUID \<rightharpoonup> nat) \<Rightarrow> nat \<Rightarrow> (bool \<times> (UUID \<rightharpoonup> nat)) res option" where
  "dfs lt xid xidStamp stamp =
     (if xidStamp xid = Some stamp then Some (Ok (True, xidStamp))
      else if (case xidStamp xid of None \<Rightarrow> False | Some stp \<Rightarrow> stp < stamp) then Some (Ok (False, xidStamp))
      else (case xwaitu lt xid of
              None \<Rightarrow> Some (Ok (False, xidStamp(xid \<mapsto> stamp)))
            | Some uid \<Rightarrow>
                (case u2x lt uid of
                   None \<Rightarrow> Some Panic
                 | Some xid' \<Rightarrow> dfs lt xid' (xidStamp(xid \<mapsto> stamp)) stamp)))"

text \<open>\<open>for xid := range lt.x2u\<close>, in the given order.\<close>

fun deadLockLoop :: "lockTable \<Rightarrow> UUID list \<Rightarrow> (UUID \<rightharpoonup> nat) \<Rightarrow> nat \<Rightarrow> bool res option" where
  "deadLockLoop lt [] xidStamp stamp = Some (Ok False)"
| "deadLockLoop lt (xid # xids) xidStamp stamp =
     (if 0 < (case xidStamp xid of None \<Rightarrow> 0 | Some s \<Rightarrow> s) then deadLockLoop lt xids xidStamp stamp
      else (case dfs lt xid xidStamp (stamp + 1) of
              None \<Rightarrow> None
            | Some (Ok (True, _)) \<Rightarrow> Some (Ok True)
            | Some (Ok (False, xidStamp)) \<Rightarrow> deadLockLoop lt xids xidStamp (stamp + 1)
            | Some (Err e) \<Rightarrow> Some (Err e)
            | Some Panic \<Rightarrow> Some Panic))"

definition hasDeadLock :: "UUID list \<Rightarrow> lockTable \<Rightarrow> bool res option" where
  "hasDeadLock order lt = deadLockLoop lt order Map.empty 1"

datatype add_res = Granted | Waiting | Deadlock

definition lt_Add :: "UUID list \<Rightarrow> UUID \<Rightarrow> UUID \<Rightarrow> lockTable \<Rightarrow> (add_res \<times> lockTable) res option" where
  "lt_Add order xid uid lt =
     (if isInList (x2u lt) xid uid then Some (Ok (Granted, lt))
      else if u2x lt uid = None then
        Some (Ok (Granted, lt\<lparr>u2x := (u2x lt)(uid \<mapsto> xid), x2u := putIntoList (x2u lt) xid uid\<rparr>))
      else
        let lt = lt\<lparr>xwaitu := (xwaitu lt)(xid \<mapsto> uid), lt_wait := putIntoList (lt_wait lt) uid xid\<rparr> in
        (case hasDeadLock order lt of
           None \<Rightarrow> None
         | Some (Ok True) \<Rightarrow>
             let lt = lt\<lparr>xwaitu := (xwaitu lt)(xid := None)\<rparr> in
             (case removeFromList (lt_wait lt) uid xid of
                None \<Rightarrow> None
              | Some (Ok w) \<Rightarrow> Some (Ok (Deadlock, lt\<lparr>lt_wait := w\<rparr>))
              | Some (Err e) \<Rightarrow> Some (Err e)
              | Some Panic \<Rightarrow> Some Panic)
         | Some (Ok False) \<Rightarrow> Some (Ok (Waiting, lt\<lparr>waitCh := insert xid (waitCh lt)\<rparr>))
         | Some (Err e) \<Rightarrow> Some (Err e)
         | Some Panic \<Rightarrow> Some Panic))"

text \<open>The loop of \<open>selectNewXID\<close>: the first waiter that still has a channel, and the rest of the queue.\<close>

fun nextWaiter :: "UUID set \<Rightarrow> UUID list \<Rightarrow> UUID option \<times> UUID list" where
  "nextWaiter chs [] = (None, [])"
| "nextWaiter chs (xid # l) = (if xid \<notin> chs then nextWaiter chs l else (Some xid, l))"

definition selectNewXID :: "UUID \<Rightarrow> lockTable \<Rightarrow> (UUID option \<times> lockTable) res" where
  "selectNewXID uid lt =
     (let lt = lt\<lparr>u2x := (u2x lt)(uid := None)\<rparr> in
      case lt_wait lt uid of
        None \<Rightarrow> Ok (None, lt)
      | Some [] \<Rightarrow> Panic
      | Some l \<Rightarrow>
          (case nextWaiter (waitCh lt) l of (woken, l) \<Rightarrow>
             let lt = (case woken of None \<Rightarrow> lt
                       | Some xid \<Rightarrow> lt\<lparr>u2x := (u2x lt)(uid \<mapsto> xid), waitCh := waitCh lt - {xid},
                                       xwaitu := (xwaitu lt)(xid := None)\<rparr>);
                 lt = lt\<lparr>lt_wait := (if l = [] then (lt_wait lt)(uid := None) else (lt_wait lt)(uid \<mapsto> l))\<rparr>
             in Ok (woken, lt)))"

fun releaseAll :: "UUID list \<Rightarrow> lockTable \<Rightarrow> (UUID list \<times> lockTable) res" where
  "releaseAll [] lt = Ok ([], lt)"
| "releaseAll (uid # l) lt =
     rbind (selectNewXID uid lt) (\<lambda>(woken, lt).
     rbind (releaseAll l lt) (\<lambda>(ws, lt). Ok ((case woken of None \<Rightarrow> ws | Some x \<Rightarrow> x # ws), lt)))"

definition lt_Remove :: "UUID \<Rightarrow> lockTable \<Rightarrow> (UUID list \<times> lockTable) res" where
  "lt_Remove xid lt =
     rbind (case x2u lt xid of None \<Rightarrow> Ok ([], lt) | Some l \<Rightarrow> releaseAll l lt) (\<lambda>(ws, lt).
     Ok (ws, lt\<lparr>xwaitu := (xwaitu lt)(xid := None), x2u := (x2u lt)(xid := None), waitCh := waitCh lt - {xid}\<rparr>))"

section \<open>removeFromList\<close>

lemma removeLoop_returns: "removeLoop l u = Some l' \<Longrightarrow> l = [] \<or> hd l = u"
  by (rule removeLoop.raw_induct [of "\<lambda>l u _. l = [] \<or> hd l = u"]) (fastforce split: list.splits if_splits)

lemma removeLoop_hangs: "e \<noteq> u \<Longrightarrow> removeLoop (e # l) u = None"
  using removeLoop_returns [of "e # l" u] by (cases "removeLoop (e # l) u") auto

lemma removeLoop_front: "removeLoop (u # l) u = Some l"
  by (subst removeLoop.simps) simp

section \<open>Deadlock detection\<close>

definition waits :: "lockTable \<Rightarrow> (UUID \<times> UUID) set" where
  "waits lt = {(x, y). \<exists>u. xwaitu lt x = Some u \<and> u2x lt u = Some y}"

text \<open>Following the waits-for edges from \<open>x\<close>, every transaction waits for at most one other.\<close>

definition waits_on :: "lockTable \<Rightarrow> UUID \<Rightarrow> UUID option" where
  "waits_on lt x = (case xwaitu lt x of None \<Rightarrow> None | Some u \<Rightarrow> u2x lt u)"

fun steps :: "lockTable \<Rightarrow> nat \<Rightarrow> UUID \<Rightarrow> UUID option" where
  "steps lt 0 x = Some x"
| "steps lt (Suc n) x = (case waits_on lt x of None \<Rightarrow> None | Some y \<Rightarrow> steps lt n y)"

definition endless :: "lockTable \<Rightarrow> UUID \<Rightarrow> bool" where
  "endless lt x \<longleftrightarrow> (\<forall>n. steps lt n x \<noteq> None)"

lemma waits_iff: "(x, y) \<in> waits lt \<longleftrightarrow> waits_on lt x = Some y"
  by (auto simp: waits_def waits_on_def split: option.splits)

lemma endless_None: "waits_on lt x = None \<Longrightarrow> \<not> endless lt x"
  unfolding endless_def by (intro notI) (drule spec [of _ "Suc 0"], simp)

lemma endless_Some: "waits_on lt x = Some y \<Longrightarrow> endless lt x = endless lt y"
proof -
  assume w: "waits_on lt x = Some y"
  have "endless lt y" if "endless lt x"
  proof -
    have "steps lt (Suc n) x \<noteq> None" for n using that unfolding endless_def by blast
    then show ?thesis using w by (simp add: endless_def)
  qed
  moreover have "endless lt x" if "endless lt y"
  proof -
    have "steps lt n x \<noteq> None" for n using that w by (cases n) (auto simp: endless_def)
    then show ?thesis by (simp add: endless_def)
  qed
  ultimately show ?thesis by blast
qed

lemma closed_endless:
  assumes "\<And>y. y \<in> C \<Longrightarrow> \<exists>z \<in> C. waits_on lt y = Some z" and "x \<in> C"
  shows "endless lt x"
proof -
  have "steps lt n y \<noteq> None" if "y \<in> C" for n y
    using that by (induction n arbitrary: y) (auto split: option.splits dest: assms(1))
  then show ?thesis using assms(2) by (simp add: endless_def)
qed

text \<open>The invariant of \<open>dfs\<close> with the current stamp: nodes with an older stamp lead to no cycle; nodes with the current one
  form the path to the current node, and lead to a cycle iff it does.\<close>

definition dfs_inv :: "lockTable \<Rightarrow> (UUID \<rightharpoonup> nat) \<Rightarrow> nat \<Rightarrow> UUID \<Rightarrow> bool" where
  "dfs_inv lt st s x \<longleftrightarrow> (\<forall>y t. st y = Some t \<longrightarrow> 0 < t \<and> t \<le> s) \<and>
     (\<forall>y t. st y = Some t \<and> t < s \<longrightarrow> \<not> endless lt y) \<and>
     (\<forall>y. st y = Some s \<longrightarrow> endless lt y = endless lt x \<and> (\<exists>z. waits_on lt y = Some z \<and> (z = x \<or> st z = Some s)))"

definition waits_wf :: "lockTable \<Rightarrow> bool" where
  "waits_wf lt \<longleftrightarrow> finite (dom (xwaitu lt)) \<and> (\<forall>x u. xwaitu lt x = Some u \<longrightarrow> u2x lt u \<noteq> None)"

lemma dfs_correct:
  assumes wf: "waits_wf lt" and "dfs_inv lt st s x" and "0 < s"
  shows "\<exists>st'. dfs lt x st s = Some (Ok (endless lt x, st')) \<and>
    (\<not> endless lt x \<longrightarrow> (\<forall>y t. st' y = Some t \<longrightarrow> 0 < t \<and> t \<le> s \<and> \<not> endless lt y) \<and> x \<in> dom st' \<and> dom st \<subseteq> dom st')"
  using assms(2)
proof (induction "card (dom (xwaitu lt) - dom st)" arbitrary: st x rule: less_induct)
  case less
  note inv = less.prems [unfolded dfs_inv_def]
  show ?case
  proof (cases "st x")
    case (Some t)
    show ?thesis
    proof (cases "t = s")
      case True
      have "\<exists>z\<in>{y. st y = Some s}. waits_on lt y = Some z" if "y \<in> {y. st y = Some s}" for y
        using that inv Some True by auto
      then have "endless lt x" using closed_endless [of "{y. st y = Some s}" lt x] Some True by blast
      then show ?thesis using Some True by (subst dfs.simps) simp
    next
      case False
      then have "t < s" "0 < t" using inv Some by (metis le_neq_implies_less)+
      moreover from this have n: "\<not> endless lt x" using inv Some by blast
      moreover have "\<forall>y t. st y = Some t \<longrightarrow> 0 < t \<and> t \<le> s \<and> \<not> endless lt y"
        using inv n by (metis le_neq_implies_less)
      ultimately show ?thesis using Some False by (subst dfs.simps) auto
    qed
  next
    case None
    let ?st = "st(x \<mapsto> s)"
    show ?thesis
    proof (cases "xwaitu lt x")
      case n: None
      then have e: "\<not> endless lt x" by (intro endless_None) (simp add: waits_on_def)
      have "\<forall>y t. ?st y = Some t \<longrightarrow> 0 < t \<and> t \<le> s \<and> \<not> endless lt y"
        using inv e assms(3) by (metis fun_upd_apply le_neq_implies_less option.inject order.refl)
      then show ?thesis using None n e by (subst dfs.simps) auto
    next
      case (Some u)
      then obtain x' where u: "u2x lt u = Some x'" using wf by (auto simp: waits_wf_def)
      have w: "waits_on lt x = Some x'" using Some u by (simp add: waits_on_def)
      note e = endless_Some [OF w]
      have "dom (xwaitu lt) - dom ?st \<subset> dom (xwaitu lt) - dom st" using Some None by auto
      then have lt: "card (dom (xwaitu lt) - dom ?st) < card (dom (xwaitu lt) - dom st)"
        using wf by (intro psubset_card_mono) (simp_all add: waits_wf_def)
      have "dfs_inv lt ?st s x'"
        unfolding dfs_inv_def using inv w e assms(3) by auto
      from less.hyps [OF lt this] obtain st' where "dfs lt x' ?st s = Some (Ok (endless lt x', st'))"
        "\<not> endless lt x' \<longrightarrow> (\<forall>y t. st' y = Some t \<longrightarrow> 0 < t \<and> t \<le> s \<and> \<not> endless lt y) \<and> x' \<in> dom st' \<and> dom ?st \<subseteq> dom st'"
        by blast
      then show ?thesis using None Some u e by (subst dfs.simps) auto
    qed
  qed
qed

lemma deadLockLoop_correct:
  assumes wf: "waits_wf lt" and "\<forall>y t. st y = Some t \<longrightarrow> 0 < t \<and> t \<le> s \<and> \<not> endless lt y" and "0 < s"
  shows "deadLockLoop lt order st s = Some (Ok (\<exists>x \<in> set order. endless lt x))"
  using assms(2,3)
proof (induction order arbitrary: st s)
  case Nil
  then show ?case by simp
next
  case (Cons x xs)
  show ?case
  proof (cases "st x")
    case (Some t)
    then have "\<not> endless lt x" "0 < t" using Cons.prems(1) by auto
    then show ?thesis using Some Cons.IH [OF Cons.prems] by simp
  next
    case None
    have i: "dfs_inv lt st (s + 1) x"
      using Cons.prems(1) unfolding dfs_inv_def by fastforce
    obtain st' where d: "dfs lt x st (s + 1) = Some (Ok (endless lt x, st'))"
      "\<not> endless lt x \<longrightarrow> (\<forall>y t. st' y = Some t \<longrightarrow> 0 < t \<and> t \<le> s + 1 \<and> \<not> endless lt y)"
      using dfs_correct [OF wf i] by auto
    show ?thesis
    proof (cases "endless lt x")
      case True
      then show ?thesis using None d(1) by simp
    next
      case False
      then have "deadLockLoop lt xs st' (s + 1) = Some (Ok (\<exists>x \<in> set xs. endless lt x))"
        using d(2) by (intro Cons.IH) auto
      then show ?thesis using None d(1) False by simp
    qed
  qed
qed

lemma hasDeadLock_endless: "waits_wf lt \<Longrightarrow> hasDeadLock order lt = Some (Ok (\<exists>x \<in> set order. endless lt x))"
  using deadLockLoop_correct [of lt Map.empty 1 order] by (simp add: hasDeadLock_def)

text \<open>A path is endless iff it runs into a cycle of the waits-for relation.\<close>

lemma steps_add: "steps lt (m + n) x = (case steps lt m x of None \<Rightarrow> None | Some y \<Rightarrow> steps lt n y)"
  by (induction m arbitrary: x) (auto split: option.split)

lemma steps_reach: "steps lt n x = Some y \<Longrightarrow> (x, y) \<in> (waits lt)\<^sup>*"
  by (induction n arbitrary: x) (auto split: option.splits simp: waits_iff intro: converse_rtrancl_into_rtrancl)

lemma steps_cycle: "steps lt (Suc n) x = Some x \<Longrightarrow> (x, x) \<in> (waits lt)\<^sup>+"
  by (auto split: option.splits simp: waits_iff dest: steps_reach intro: rtrancl_into_trancl2)

lemma endless_cycle:
  assumes wf: "waits_wf lt" and e: "endless lt x"
  shows "\<exists>y. (x, y) \<in> (waits lt)\<^sup>* \<and> (y, y) \<in> (waits lt)\<^sup>+"
proof -
  let ?f = "\<lambda>n. the (steps lt n x)"
  have f: "steps lt n x = Some (?f n)" for n using e by (auto simp: endless_def)
  have "?f n \<in> dom (xwaitu lt)" for n
  proof -
    obtain y where y: "steps lt n x = Some y" using f by blast
    have "steps lt (n + Suc 0) x \<noteq> None" using e unfolding endless_def by blast
    then have "steps lt (Suc 0) y \<noteq> None" unfolding steps_add y by simp
    then show ?thesis using y by (auto simp: waits_on_def split: option.splits)
  qed
  then have "finite (range ?f)" using wf finite_subset [of "range ?f" "dom (xwaitu lt)"] by (auto simp: waits_wf_def)
  then have "\<not> inj ?f" using finite_imageD infinite_UNIV_nat by blast
  then obtain a b where ab: "a < b" "?f a = ?f b" unfolding inj_def by (metis linorder_neqE_nat)
  obtain k where "b = a + Suc k" using ab(1) less_iff_Suc_add by auto
  then have "steps lt (a + Suc k) x = Some (?f a)" using f [of b] ab(2) by simp
  then have "steps lt (Suc k) (?f a) = Some (?f a)" unfolding steps_add by (subst (asm) f) simp
  then have "(?f a, ?f a) \<in> (waits lt)\<^sup>+" by (rule steps_cycle)
  moreover have "(x, ?f a) \<in> (waits lt)\<^sup>*" using steps_reach [OF f] .
  ultimately show ?thesis by blast
qed

lemma cycle_endless:
  assumes "(x, y) \<in> (waits lt)\<^sup>*" and "(y, y) \<in> (waits lt)\<^sup>+"
  shows "endless lt x"
proof -
  have "\<exists>w\<in>{z. (z, y) \<in> (waits lt)\<^sup>+}. waits_on lt z = Some w" if z: "z \<in> {z. (z, y) \<in> (waits lt)\<^sup>+}" for z
  proof -
    from z obtain w where w: "(z, w) \<in> waits lt" "w = y \<or> (w, y) \<in> (waits lt)\<^sup>+" by (auto elim: converse_tranclE)
    then show ?thesis using assms(2) by (auto simp: waits_iff)
  qed
  with closed_endless [of "{z. (z, y) \<in> (waits lt)\<^sup>+}" lt y] assms(2) have e: "endless lt y" by blast
  show ?thesis using assms(1)
    by (induction rule: converse_rtrancl_induct) (use e endless_Some in \<open>auto simp: waits_iff\<close>)
qed

lemma endless_iff: "waits_wf lt \<Longrightarrow> endless lt x \<longleftrightarrow> (\<exists>y. (x, y) \<in> (waits lt)\<^sup>* \<and> (y, y) \<in> (waits lt)\<^sup>+)"
  using endless_cycle cycle_endless by blast

section \<open>Reachable lock tables\<close>

text \<open>A transaction that waits does nothing else, so only transactions that are not waiting call \<open>Add\<close> and \<open>Remove\<close>; \<open>order\<close> is any
  enumeration of the keys of \<open>x2u\<close>.\<close>

inductive lt_reachable :: "lockTable \<Rightarrow> bool" where
  new: "lt_reachable NewLockTable"
| add: "lt_reachable lt \<Longrightarrow> xid \<notin> waitCh lt \<Longrightarrow> lt_Add order xid uid lt = Some (Ok (r, lt')) \<Longrightarrow> set order = dom (x2u lt) \<Longrightarrow>
    lt_reachable lt'"
| remove: "lt_reachable lt \<Longrightarrow> xid \<notin> waitCh lt \<Longrightarrow> lt_Remove xid lt = Ok (ws, lt') \<Longrightarrow> lt_reachable lt'"

text \<open>The invariant: a lock recorded for a holder is held by it; the waiting queues, the waits-for map and the
  channels agree, and only held locks are waited for.\<close>

definition queue_of :: "lockTable \<Rightarrow> UUID \<Rightarrow> UUID list" where
  "queue_of lt u = (case lt_wait lt u of None \<Rightarrow> [] | Some l \<Rightarrow> l)"

definition held_by :: "lockTable \<Rightarrow> UUID \<Rightarrow> UUID list" where
  "held_by lt x = (case x2u lt x of None \<Rightarrow> [] | Some l \<Rightarrow> l)"

definition lt_inv :: "lockTable \<Rightarrow> bool" where
  "lt_inv lt \<longleftrightarrow> finite (dom (xwaitu lt)) \<and> waitCh lt = dom (xwaitu lt) \<and>
     (\<forall>u. lt_wait lt u \<noteq> Some []) \<and>
     (\<forall>x u. x \<in> set (queue_of lt u) \<longleftrightarrow> xwaitu lt x = Some u) \<and>
     (\<forall>u. distinct (queue_of lt u)) \<and>
     (\<forall>u. queue_of lt u \<noteq> [] \<longrightarrow> u2x lt u \<noteq> None) \<and>
     (\<forall>x u. u \<in> set (held_by lt x) \<longrightarrow> u2x lt u = Some x) \<and> (\<forall>x. distinct (held_by lt x))"

lemma lt_inv_wf: "lt_inv lt \<Longrightarrow> waits_wf lt"
  unfolding lt_inv_def waits_wf_def by (metis empty_iff list.set(1))

lemma lt_inv_New: "lt_inv NewLockTable"
  by (simp add: lt_inv_def NewLockTable_def queue_of_def held_by_def)

lemma putIntoList_queue: "(case putIntoList m k v j of None \<Rightarrow> [] | Some l \<Rightarrow> l) =
    (if j = k then (case m k of None \<Rightarrow> [] | Some l \<Rightarrow> l) @ [v] else (case m j of None \<Rightarrow> [] | Some l \<Rightarrow> l))"
  by (auto simp: putIntoList_def)

lemma isInList_held: "isInList (x2u lt) x u \<longleftrightarrow> u \<in> set (held_by lt x)"
  by (cases "x2u lt x") (simp_all add: isInList_def held_by_def)

lemma inv_free_queue: "lt_inv lt \<Longrightarrow> x \<notin> waitCh lt \<Longrightarrow> x \<notin> set (queue_of lt u)"
  unfolding lt_inv_def by (metis domI)

definition with_wait :: "UUID \<Rightarrow> UUID \<Rightarrow> lockTable \<Rightarrow> lockTable" where
  "with_wait x u lt = lt\<lparr>xwaitu := (xwaitu lt)(x \<mapsto> u), lt_wait := putIntoList (lt_wait lt) u x\<rparr>"

lemma with_wait_wf: "lt_inv lt \<Longrightarrow> u2x lt u \<noteq> None \<Longrightarrow> waits_wf (with_wait x u lt)"
  using lt_inv_wf [of lt] by (auto simp: waits_wf_def with_wait_def)

text \<open>What \<open>Add\<close> does, for a transaction that is not waiting.\<close>

lemma lt_Add_eq:
  assumes inv: "lt_inv lt" and x: "xid \<notin> waitCh lt"
  shows "lt_Add order xid uid lt =
    (if uid \<in> set (held_by lt xid) then Some (Ok (Granted, lt))
     else if u2x lt uid = None then
       Some (Ok (Granted, lt\<lparr>u2x := (u2x lt)(uid \<mapsto> xid), x2u := putIntoList (x2u lt) xid uid\<rparr>))
     else if \<exists>y \<in> set order. endless (with_wait xid uid lt) y then
       (if queue_of lt uid = [] then Some (Ok (Deadlock, lt)) else None)
     else Some (Ok (Waiting, (with_wait xid uid lt)\<lparr>waitCh := insert xid (waitCh lt)\<rparr>)))"
proof (cases "uid \<in> set (held_by lt xid) \<or> u2x lt uid = None")
  case True
  then show ?thesis by (auto simp: lt_Add_def isInList_held)
next
  case False
  let ?lt = "with_wait xid uid lt"
  have d: "hasDeadLock order ?lt = Some (Ok (\<exists>y \<in> set order. endless ?lt y))"
    using False by (intro hasDeadLock_endless with_wait_wf [OF inv]) auto
  have xw: "(xwaitu lt)(xid := None) = xwaitu lt" using inv x by (auto simp: lt_inv_def fun_eq_iff)
  have rem: "removeFromList (lt_wait ?lt) uid xid =
      (if queue_of lt uid = [] then Some (Ok (lt_wait lt)) else None)"
  proof (cases "queue_of lt uid")
    case Nil
    then have n: "lt_wait lt uid = None" using inv by (auto simp: queue_of_def lt_inv_def split: option.splits)
    then have "lt_wait ?lt uid = Some [xid]" by (simp add: with_wait_def putIntoList_def)
    moreover have "(lt_wait ?lt)(uid := None) = lt_wait lt" using n by (auto simp: with_wait_def putIntoList_def)
    ultimately show ?thesis using Nil by (simp add: removeFromList_def removeLoop_front)
  next
    case (Cons q qs)
    then have "lt_wait lt uid = Some (q # qs)" by (auto simp: queue_of_def split: option.splits)
    then have "lt_wait ?lt uid = Some (q # qs @ [xid])" by (simp add: with_wait_def putIntoList_def)
    moreover have "q \<noteq> xid" using inv_free_queue [OF inv x, of uid] Cons by auto
    ultimately show ?thesis using Cons by (simp add: removeFromList_def removeLoop_hangs)
  qed
  show ?thesis
  proof (cases "\<exists>y \<in> set order. endless ?lt y")
    case True
    have "?lt\<lparr>xwaitu := (xwaitu ?lt)(xid := None), lt_wait := lt_wait lt\<rparr> = lt" using xw by (simp add: with_wait_def)
    then show ?thesis using True False d rem by (simp add: lt_Add_def isInList_held with_wait_def Let_def)
  next
    case f: False
    then show ?thesis using False d by (auto simp: lt_Add_def isInList_held with_wait_def Let_def)
  qed
qed

lemma lt_inv_grant:
  assumes "lt_inv lt" and "u2x lt uid = None"
  shows "lt_inv (lt\<lparr>u2x := (u2x lt)(uid \<mapsto> xid), x2u := putIntoList (x2u lt) xid uid\<rparr>)"
proof -
  let ?lt = "lt\<lparr>u2x := (u2x lt)(uid \<mapsto> xid), x2u := putIntoList (x2u lt) xid uid\<rparr>"
  have h: "held_by ?lt y = (if y = xid then held_by lt xid @ [uid] else held_by lt y)" for y
    using putIntoList_queue [of "x2u lt" xid uid y] by (simp add: held_by_def)
  have q: "queue_of ?lt = queue_of lt" by (simp add: queue_of_def fun_eq_iff)
  have "uid \<notin> set (held_by lt y)" for y using assms by (auto simp: lt_inv_def)
  with assms h q show ?thesis by (auto simp: lt_inv_def)
qed

lemma lt_inv_with_wait:
  assumes inv: "lt_inv lt" and x: "xid \<notin> waitCh lt" and u: "u2x lt uid \<noteq> None"
  shows "lt_inv ((with_wait xid uid lt)\<lparr>waitCh := insert xid (waitCh lt)\<rparr>)"
proof -
  let ?lt = "(with_wait xid uid lt)\<lparr>waitCh := insert xid (waitCh lt)\<rparr>"
  have q: "queue_of ?lt v = (if v = uid then queue_of lt uid @ [xid] else queue_of lt v)" for v
    using putIntoList_queue [of "lt_wait lt" uid xid v] by (simp add: with_wait_def queue_of_def)
  have h: "held_by ?lt = held_by lt" by (simp add: held_by_def fun_eq_iff with_wait_def)
  have n: "xid \<notin> set (queue_of lt v)" for v by (rule inv_free_queue [OF inv x])
  have w: "lt_wait ?lt v \<noteq> Some []" for v using inv by (auto simp: lt_inv_def with_wait_def putIntoList_def)
  have e: "y \<in> set (queue_of ?lt v) \<longleftrightarrow> xwaitu ?lt y = Some v" for y v
    using inv n [of v] q by (auto simp: lt_inv_def with_wait_def)
  show ?thesis unfolding lt_inv_def
    by (intro conjI allI w e) (use inv q h n u in \<open>auto simp: lt_inv_def with_wait_def\<close>)
qed

lemma lt_inv_Add:
  assumes "lt_inv lt" and "xid \<notin> waitCh lt" and "lt_Add order xid uid lt = Some (Ok (r, lt'))"
  shows "lt_inv lt'"
  using assms(1,3) unfolding lt_Add_eq [OF assms(1,2)]
  by (auto split: if_splits intro: lt_inv_grant lt_inv_with_wait [OF assms(1,2)])

section \<open>Releasing locks\<close>

lemma nextWaiter_all: "set l \<subseteq> chs \<Longrightarrow> nextWaiter chs l = (case l of [] \<Rightarrow> (None, []) | x # r \<Rightarrow> (Some x, r))"
  by (cases l) auto

text \<open>Handing one lock of \<open>x\<close> on, while the locks \<open>l\<close> of \<open>x\<close> are still to be released.\<close>

definition holding :: "UUID \<Rightarrow> UUID list \<Rightarrow> lockTable \<Rightarrow> lockTable" where
  "holding x l lt = lt\<lparr>x2u := (x2u lt)(x \<mapsto> l)\<rparr>"

lemma holding_simps [simp]:
  "queue_of (holding x l lt) = queue_of lt" "u2x (holding x l lt) = u2x lt" "xwaitu (holding x l lt) = xwaitu lt"
  "waitCh (holding x l lt) = waitCh lt" "lt_wait (holding x l lt) = lt_wait lt"
  "held_by (holding x l lt) y = (if y = x then l else held_by lt y)"
  by (auto simp: holding_def queue_of_def held_by_def fun_eq_iff)

lemma holdingD:
  assumes inv: "lt_inv (holding x (u # l) lt)"
  shows "z \<noteq> x \<Longrightarrow> u \<notin> set (held_by lt z)" and "v \<in> set l \<Longrightarrow> u2x lt v = Some x \<and> v \<noteq> u" and "distinct l"
    and "z \<noteq> x \<Longrightarrow> distinct (held_by lt z)" and "z \<noteq> x \<Longrightarrow> v \<in> set (held_by lt z) \<Longrightarrow> u2x lt v = Some z"
    and "u2x lt u = Some x"
proof -
  have h: "\<And>y v. v \<in> set (if y = x then u # l else held_by lt y) \<Longrightarrow> u2x lt v = Some y"
    and d: "\<And>y. distinct (if y = x then u # l else held_by lt y)"
    using inv by (simp_all only: lt_inv_def holding_simps)
  show "z \<noteq> x \<Longrightarrow> u \<notin> set (held_by lt z)" using h [of u x] h [of u z] by auto
  show "v \<in> set l \<Longrightarrow> u2x lt v = Some x \<and> v \<noteq> u" "distinct l" "u2x lt u = Some x" using h [of _ x] d [of x] by auto
  show "z \<noteq> x \<Longrightarrow> distinct (held_by lt z)" "z \<noteq> x \<Longrightarrow> v \<in> set (held_by lt z) \<Longrightarrow> u2x lt v = Some z"
    using h [of v z] d [of z] by auto
qed

lemma selectNewXID_ok:
  assumes inv: "lt_inv (holding x (u # l) lt)"
  shows "\<exists>w lt'. selectNewXID u lt = Ok (w, lt') \<and> lt_inv (holding x l lt') \<and> x2u lt' = x2u lt \<and>
    u2x lt' = (u2x lt)(u := (case queue_of lt u of [] \<Rightarrow> None | y # _ \<Rightarrow> Some y)) \<and>
    waitCh lt' = waitCh lt - set (take 1 (queue_of lt u)) \<and> w = (case queue_of lt u of [] \<Rightarrow> None | y # _ \<Rightarrow> Some y)"
proof (cases "queue_of lt u")
  case Nil
  then have n: "lt_wait lt u = None" using inv by (auto simp: queue_of_def lt_inv_def split: option.splits)
  let ?lt = "lt\<lparr>u2x := (u2x lt)(u := None)\<rparr>"
  have q: "queue_of ?lt = queue_of lt" "held_by ?lt = held_by lt" by (simp_all add: queue_of_def held_by_def fun_eq_iff)
  have "lt_inv (holding x l ?lt)" unfolding lt_inv_def
  proof (intro conjI allI)
    show "v \<in> set (held_by (holding x l ?lt) z) \<longrightarrow> u2x (holding x l ?lt) v = Some z" for z v
      using holdingD [OF inv] q by auto
    show "distinct (held_by (holding x l ?lt) z)" for z using holdingD [OF inv] q by auto
  qed (use inv q Nil in \<open>auto simp: lt_inv_def\<close>)
  then show ?thesis using Nil n by (simp add: selectNewXID_def)
next
  case (Cons y r)
  then have n: "lt_wait lt u = Some (y # r)" by (auto simp: queue_of_def split: option.splits)
  have mem: "z \<in> set (queue_of lt v) \<longleftrightarrow> xwaitu lt z = Some v" for z v using inv by (simp add: lt_inv_def)
  have ch: "waitCh lt = dom (xwaitu lt)" and dq: "distinct (queue_of lt v)" for v using inv by (simp_all add: lt_inv_def)
  have "y \<in> waitCh lt" using mem [of y u] Cons ch by auto
  let ?w = "if r = [] then (lt_wait lt)(u := None) else (lt_wait lt)(u \<mapsto> r)"
  let ?lt = "lt\<lparr>u2x := (u2x lt)(u \<mapsto> y), waitCh := waitCh lt - {y}, xwaitu := (xwaitu lt)(y := None), lt_wait := ?w\<rparr>"
  have e: "selectNewXID u lt = Ok (Some y, ?lt)" using n \<open>y \<in> waitCh lt\<close> by (simp add: selectNewXID_def Let_def)
  have q: "queue_of ?lt v = (if v = u then r else queue_of lt v)" for v by (simp add: queue_of_def)
  have h: "held_by ?lt = held_by lt" by (simp add: held_by_def fun_eq_iff)
  have yu: "xwaitu lt y = Some u" using mem [of y u] Cons by simp
  have yr: "y \<notin> set r" using dq [of u] Cons by simp
  have m': "z \<in> set (queue_of ?lt v) \<longleftrightarrow> xwaitu ?lt z = Some v" for z v
    using mem [of z v] mem [of z u] q Cons yr yu by auto
  note hd = holdingD [OF inv]
  have qu: "u2x lt v \<noteq> None" if "queue_of lt v \<noteq> []" for v using inv that by (simp add: lt_inv_def)
  have "lt_inv (holding x l ?lt)" unfolding lt_inv_def
  proof (intro conjI allI)
    show "finite (dom (xwaitu (holding x l ?lt)))" using inv by (simp add: lt_inv_def)
    show "waitCh (holding x l ?lt) = dom (xwaitu (holding x l ?lt))" using ch by auto
    show "lt_wait (holding x l ?lt) v \<noteq> Some []" for v using inv by (auto simp: lt_inv_def)
    show "z \<in> set (queue_of (holding x l ?lt) v) \<longleftrightarrow> xwaitu (holding x l ?lt) z = Some v" for z v
      using m' by (simp only: holding_simps)
    show "distinct (queue_of (holding x l ?lt) v)" for v using dq [of v] dq [of u] q Cons by auto
    show "queue_of (holding x l ?lt) v \<noteq> [] \<longrightarrow> u2x (holding x l ?lt) v \<noteq> None" for v using qu [of v] q by auto
    show "v \<in> set (held_by (holding x l ?lt) z) \<longrightarrow> u2x (holding x l ?lt) v = Some z" for z v
      using hd(1) [of z] hd(2) [of v] hd(5) [of z v] h by auto
    show "distinct (held_by (holding x l ?lt) z)" for z using hd(3,4) h by auto
  qed
  then show ?thesis using e Cons by simp
qed

text \<open>Releasing all locks of \<open>x\<close>: each goes to the first in its queue, if any.\<close>

definition heir :: "lockTable \<Rightarrow> UUID \<Rightarrow> UUID option" where
  "heir lt u = (case queue_of lt u of [] \<Rightarrow> None | y # _ \<Rightarrow> Some y)"

lemma selectNewXID_queue:
  assumes "selectNewXID u lt = Ok (w, lt')" and "v \<noteq> u"
  shows "queue_of lt' v = queue_of lt v"
proof -
  have "lt_wait lt' v = lt_wait lt v"
    using assms by (auto simp: selectNewXID_def Let_def split: option.splits list.splits prod.splits if_splits)
  then show ?thesis by (simp add: queue_of_def)
qed

lemma releaseAll_ok:
  assumes "lt_inv (holding x l lt)"
  shows "\<exists>ws lt'. releaseAll l lt = Ok (ws, lt') \<and> lt_inv (holding x [] lt') \<and> x2u lt' = x2u lt \<and>
    (\<forall>v. u2x lt' v = (if v \<in> set l then heir lt v else u2x lt v)) \<and> waitCh lt' \<subseteq> waitCh lt"
  using assms
proof (induction l arbitrary: lt)
  case Nil
  then show ?case by auto
next
  case (Cons u l)
  from selectNewXID_ok [OF Cons.prems] obtain w lt1 where 1: "selectNewXID u lt = Ok (w, lt1)" "lt_inv (holding x l lt1)"
    "x2u lt1 = x2u lt" "u2x lt1 = (u2x lt)(u := heir lt u)" "waitCh lt1 \<subseteq> waitCh lt" by (auto simp: heir_def)
  from Cons.IH [OF 1(2)] obtain ws lt' where 2: "releaseAll l lt1 = Ok (ws, lt')" "lt_inv (holding x [] lt')" "x2u lt' = x2u lt1"
    "\<forall>v. u2x lt' v = (if v \<in> set l then heir lt1 v else u2x lt1 v)" "waitCh lt' \<subseteq> waitCh lt1" by blast
  have ul: "u \<notin> set l" using holdingD(2) [OF Cons.prems] by blast
  have "heir lt1 v = heir lt v" if "v \<in> set l" for v
  proof -
    have "v \<noteq> u" using that ul by blast
    then show ?thesis using selectNewXID_queue [OF 1(1), of v] by (simp add: heir_def)
  qed
  then have "\<forall>v. u2x lt' v = (if v \<in> set (u # l) then heir lt v else u2x lt v)" using 2(4) 1(4) ul by auto
  then show ?case using 1 2 by auto
qed

lemma lt_Remove_ok:
  assumes inv: "lt_inv lt" and x: "xid \<notin> waitCh lt"
  shows "\<exists>ws lt'. lt_Remove xid lt = Ok (ws, lt') \<and> lt_inv lt' \<and> x2u lt' = (x2u lt)(xid := None) \<and>
    (\<forall>v. u2x lt' v = (if v \<in> set (held_by lt xid) then heir lt v else u2x lt v)) \<and> waitCh lt' \<subseteq> waitCh lt"
proof -
  let ?l = "held_by lt xid"
  have "lt_inv (holding xid ?l lt)"
  proof -
    have "held_by (holding xid ?l lt) = held_by lt" by auto
    then show ?thesis using inv by (simp add: lt_inv_def)
  qed
  from releaseAll_ok [OF this] obtain ws lt1 where 1: "releaseAll ?l lt = Ok (ws, lt1)" "lt_inv (holding xid [] lt1)"
    "x2u lt1 = x2u lt" "\<forall>v. u2x lt1 v = (if v \<in> set ?l then heir lt v else u2x lt v)" "waitCh lt1 \<subseteq> waitCh lt" by blast
  have e: "(case x2u lt xid of None \<Rightarrow> Ok ([], lt) | Some l \<Rightarrow> releaseAll l lt) = Ok (ws, lt1)"
    using 1(1) by (auto simp: held_by_def split: option.splits)
  have nx: "xid \<notin> waitCh lt1" using 1(5) x by blast
  have dom: "waitCh lt1 = dom (xwaitu lt1)" using 1(2) by (simp add: lt_inv_def)
  let ?lt = "lt1\<lparr>xwaitu := (xwaitu lt1)(xid := None), x2u := (x2u lt1)(xid := None), waitCh := waitCh lt1 - {xid}\<rparr>"
  have xw: "(xwaitu lt1)(xid := None) = xwaitu lt1" "waitCh lt1 - {xid} = waitCh lt1" using nx dom by (auto simp: fun_eq_iff)
  let ?lt2 = "lt1\<lparr>x2u := (x2u lt1)(xid := None)\<rparr>"
  have hb: "held_by ?lt2 = held_by (holding xid [] lt1)" by (auto simp: held_by_def holding_def fun_eq_iff)
  have "queue_of ?lt2 = queue_of lt1" by (simp add: queue_of_def fun_eq_iff)
  then have "lt_inv ?lt2" using 1(2) unfolding lt_inv_def hb by (simp del: holding_simps(6))
  moreover have "?lt = ?lt2" using xw by simp
  ultimately have "lt_inv ?lt" by simp
  then show ?thesis using e 1(3,4,5) by (auto simp: lt_Remove_def)
qed

lemma lt_reachable_inv: "lt_reachable lt \<Longrightarrow> lt_inv lt"
proof (induction rule: lt_reachable.induct)
  case new show ?case by (rule lt_inv_New)
next
  case add then show ?case using lt_inv_Add by blast
next
  case remove then show ?case using lt_Remove_ok by fastforce
qed

section \<open>Properties\<close>





text \<open>Further runs from a given table.\<close>

inductive lt_run :: "lockTable \<Rightarrow> lockTable \<Rightarrow> bool" for lt0 where
  start: "lt_run lt0 lt0"
| run_add: "lt_run lt0 lt \<Longrightarrow> xid \<notin> waitCh lt \<Longrightarrow> lt_Add order xid uid lt = Some (Ok (r, lt')) \<Longrightarrow> lt_run lt0 lt'"
| run_remove: "lt_run lt0 lt \<Longrightarrow> xid \<notin> waitCh lt \<Longrightarrow> lt_Remove xid lt = Ok (ws, lt') \<Longrightarrow> lt_run lt0 lt'"

text \<open>A lock whose owner has no record of holding it.\<close>

definition orphan :: "lockTable \<Rightarrow> UUID \<Rightarrow> UUID \<Rightarrow> bool" where
  "orphan lt u y \<longleftrightarrow> u2x lt u = Some y \<and> (\<forall>x. u \<notin> set (held_by lt x))"

lemma orphan_Add:
  assumes "lt_inv lt" and "orphan lt u y" and "xid \<notin> waitCh lt" and "lt_Add order xid uid lt = Some (Ok (r, lt'))"
  shows "orphan lt' u y"
proof -
  have h: "held_by (lt\<lparr>u2x := m, x2u := putIntoList (x2u lt) xid uid\<rparr>) z = (if z = xid then held_by lt xid @ [uid] else held_by lt z)" for m z
    using putIntoList_queue [of "x2u lt" xid uid z] by (simp add: held_by_def)
  have w: "held_by ((with_wait xid uid lt)\<lparr>waitCh := c\<rparr>) z = held_by lt z" for c z by (simp add: held_by_def with_wait_def)
  show ?thesis using assms(2,4) unfolding lt_Add_eq [OF assms(1,3)] orphan_def
    by (auto split: if_splits simp: h w) (auto simp: with_wait_def)
qed

lemma orphan_Remove:
  assumes "lt_inv lt" and "orphan lt u y" and "xid \<notin> waitCh lt" and "lt_Remove xid lt = Ok (ws, lt')"
  shows "orphan lt' u y"
proof -
  from lt_Remove_ok [OF assms(1,3)] assms(4) have r: "x2u lt' = (x2u lt)(xid := None)"
    "\<forall>v. u2x lt' v = (if v \<in> set (held_by lt xid) then heir lt v else u2x lt v)" by auto
  then have "held_by lt' z = (if z = xid then [] else held_by lt z)" for z by (simp add: held_by_def)
  then show ?thesis using assms(2) r(2) by (simp add: orphan_def)
qed

lemma lt_run_orphan: "lt_run lt0 lt \<Longrightarrow> lt_inv lt0 \<Longrightarrow> orphan lt0 u y \<Longrightarrow> lt_inv lt \<and> orphan lt u y"
proof (induction rule: lt_run.induct)
  case start then show ?case by simp
next
  case run_add then show ?case using lt_inv_Add orphan_Add by blast
next
  case run_remove then show ?case using lt_Remove_ok orphan_Remove by (metis Pair_inject res.inject(1))
qed

text \<open>C36. A lock handed over is never released: when the holder of a lock ends and a waiting transaction takes it over,
  the new owner is not recorded as a holder, so no later sequence of operations, not even the end of the new
  owner, frees the lock, and every later request for it waits.\<close>

theorem handed_over_lock_never_released:
  assumes "lt_reachable lt" and "xid \<notin> waitCh lt" and "u \<in> set (held_by lt xid)" and "queue_of lt u = y # ys"
    and "lt_Remove xid lt = Ok (ws, lt1)" and "lt_run lt1 lt2"
  shows "u2x lt2 u = Some y \<and> (\<forall>z order lt3. z \<notin> waitCh lt2 \<longrightarrow> lt_Add order z u lt2 \<noteq> Some (Ok (Granted, lt3)))"
proof -
  have inv: "lt_inv lt" by (rule lt_reachable_inv [OF assms(1)])
  from lt_Remove_ok [OF inv assms(2)] assms(5) have r: "lt_inv lt1" "x2u lt1 = (x2u lt)(xid := None)"
    "\<forall>v. u2x lt1 v = (if v \<in> set (held_by lt xid) then heir lt v else u2x lt v)" by auto
  have "held_by lt1 z = (if z = xid then [] else held_by lt z)" for z using r(2) by (simp add: held_by_def)
  moreover have "u \<notin> set (held_by lt z)" if "z \<noteq> xid" for z
    using inv assms(3) that unfolding lt_inv_def by (metis option.inject)
  ultimately have "orphan lt1 u y" using r(3) assms(3,4) by (simp add: orphan_def heir_def)
  with lt_run_orphan [OF assms(6) r(1)] have i2: "lt_inv lt2" and o: "orphan lt2 u y" by auto
  then show ?thesis by (auto simp: orphan_def lt_Add_eq [OF i2] split: if_splits)
qed

text \<open>Concrete runs: transactions 1, 2, 3 and entries 10, 20.\<close>

definition ex1 :: lockTable where
  "ex1 = \<lparr>x2u = [1 \<mapsto> [10]], u2x = [10 \<mapsto> 1], lt_wait = Map.empty, waitCh = {}, xwaitu = Map.empty\<rparr>"
definition ex2 :: lockTable where
  "ex2 = \<lparr>x2u = [1 \<mapsto> [10]], u2x = [10 \<mapsto> 1], lt_wait = [10 \<mapsto> [2]], waitCh = {2}, xwaitu = [2 \<mapsto> 10]\<rparr>"
definition ex3 :: lockTable where
  "ex3 = \<lparr>x2u = Map.empty, u2x = [10 \<mapsto> 2], lt_wait = Map.empty, waitCh = {}, xwaitu = Map.empty\<rparr>"

lemmas ex_simps = held_by_def putIntoList_def with_wait_def

text \<open>One step of a run, by the characterisation of \<open>Add\<close>.\<close>

lemma reach_grant:
  assumes "lt_reachable lt" and "x \<notin> waitCh lt" and "u \<notin> set (held_by lt x)" and "u2x lt u = None"
    and "lt' = lt\<lparr>u2x := (u2x lt)(u \<mapsto> x), x2u := putIntoList (x2u lt) x u\<rparr>" and "set order = dom (x2u lt)"
  shows "lt_reachable lt'"
  by (rule lt_reachable.add [OF assms(1,2) _ assms(6), where uid = u and r = Granted]) (simp add: lt_Add_eq [OF lt_reachable_inv [OF assms(1)] assms(2)] assms(3-5))

lemma reach_wait:
  assumes "lt_reachable lt" and "x \<notin> waitCh lt" and "u \<notin> set (held_by lt x)" and "u2x lt u \<noteq> None"
    and "\<forall>y \<in> set order. \<not> endless (with_wait x u lt) y"
    and "lt' = (with_wait x u lt)\<lparr>waitCh := insert x (waitCh lt)\<rparr>" and "set order = dom (x2u lt)"
  shows "lt_reachable lt'"
  by (rule lt_reachable.add [OF assms(1,2) _ assms(7), where uid = u and r = Waiting]) (use assms(3-6) in \<open>simp add: lt_Add_eq [OF lt_reachable_inv [OF assms(1)] assms(2)]\<close>)

lemma not_endless: "xwaitu lt x = None \<Longrightarrow> \<not> endless lt x"
  by (rule endless_None) (simp add: waits_on_def)

lemma ex1_reach: "lt_reachable ex1"
  by (rule reach_grant [OF lt_reachable.new, where x = 1 and u = 10 and order = "[]"])
    (simp_all add: NewLockTable_def ex1_def ex_simps)

lemma ex2_reach: "lt_reachable ex2"
  by (rule reach_wait [OF ex1_reach, where x = 2 and u = 10 and order = "[1]"])
    (simp_all add: ex1_def ex2_def ex_simps not_endless)

lemma ex3_remove: "lt_Remove 1 ex2 = Ok ([2], ex3)"
  by (simp add: lt_Remove_def ex2_def ex3_def selectNewXID_def Let_def)

theorem handed_over_lock_never_released_witness:
  "\<exists>lt. lt_Remove 2 ex3 = Ok ([], lt) \<and> u2x lt 10 = Some 2"
proof -
  let ?lt = "ex3\<lparr>waitCh := {}\<rparr>"
  have r: "lt_Remove 2 ex3 = Ok ([], ex3)" by (simp add: lt_Remove_def ex3_def)
  have "lt_run ex3 ex3" by (rule lt_run.start)
  then have "lt_run ex3 ex3" using lt_run.run_remove [OF _ _ r] by (simp add: ex3_def)
  then show ?thesis
    using handed_over_lock_never_released [OF ex2_reach _ _ _ ex3_remove, of 10 2 "[]" ex3] r
    by (simp add: ex2_def held_by_def queue_of_def)
qed

text \<open>After such a handover a deadlock goes unnoticed: there is a reachable lock table in which two transactions wait
  for each other forever. Both own a lock they took over and neither is recorded as a holder, so the detection never starts from
  them.\<close>

definition ex6 :: lockTable where
  "ex6 = \<lparr>x2u = [1 \<mapsto> [10, 20]], u2x = [10 \<mapsto> 1, 20 \<mapsto> 1], lt_wait = [10 \<mapsto> [2], 20 \<mapsto> [3]], waitCh = {2, 3}, xwaitu = [2 \<mapsto> 10, 3 \<mapsto> 20]\<rparr>"
definition ex7 :: lockTable where
  "ex7 = \<lparr>x2u = Map.empty, u2x = [10 \<mapsto> 2, 20 \<mapsto> 3], lt_wait = Map.empty, waitCh = {}, xwaitu = Map.empty\<rparr>"
definition ex9 :: lockTable where
  "ex9 = \<lparr>x2u = Map.empty, u2x = [10 \<mapsto> 2, 20 \<mapsto> 3], lt_wait = [20 \<mapsto> [2], 10 \<mapsto> [3]], waitCh = {2, 3}, xwaitu = [2 \<mapsto> 20, 3 \<mapsto> 10]\<rparr>"

lemma ex6_reach: "lt_reachable ex6"
proof -
  let ?a = "\<lparr>x2u = [1 \<mapsto> [10, 20]], u2x = [10 \<mapsto> 1, 20 \<mapsto> 1], lt_wait = Map.empty, waitCh = {}, xwaitu = Map.empty\<rparr> :: lockTable"
  let ?b = "?a\<lparr>lt_wait := [10 \<mapsto> [2]], waitCh := {2}, xwaitu := [2 \<mapsto> 10]\<rparr> :: lockTable"
  have a: "lt_reachable ?a"
    by (rule reach_grant [OF ex1_reach, where x = 1 and u = 20 and order = "[1]"]) (simp_all add: ex1_def ex_simps)
  have b: "lt_reachable ?b"
    by (rule reach_wait [OF a, where x = 2 and u = 10 and order = "[1]"]) (simp_all add: ex_simps not_endless)
  show ?thesis
    by (rule reach_wait [OF b, where x = 3 and u = 20 and order = "[1]"]) (auto simp: ex6_def ex_simps not_endless)
qed

lemma ex9_reach: "lt_reachable ex9"
proof -
  let ?c = "ex7\<lparr>lt_wait := [20 \<mapsto> [2]], waitCh := {2}, xwaitu := [2 \<mapsto> 20]\<rparr>"
  have e: "lt_Remove 1 ex6 = Ok ([2, 3], ex7)"
    by (simp add: lt_Remove_def ex6_def ex7_def selectNewXID_def Let_def fun_eq_iff)
  have r: "lt_reachable ex7" by (rule lt_reachable.remove [OF ex6_reach _ e]) (simp add: ex6_def)
  have c: "lt_reachable ?c"
    by (rule reach_wait [OF r, where x = 2 and u = 20 and order = "[]"]) (simp_all add: ex7_def ex_simps)
  show ?thesis
    by (rule reach_wait [OF c, where x = 3 and u = 10 and order = "[]"]) (auto simp: ex7_def ex9_def ex_simps)
qed

lemma deadlock_missed_after_handover:
  "\<exists>lt. lt_reachable lt \<and> (2, 3) \<in> waits lt \<and> (3, 2) \<in> waits lt \<and> {2, 3} \<subseteq> waitCh lt"
  using ex9_reach by (intro exI [of _ ex9]) (simp add: waits_iff waits_on_def ex9_def)

text \<open>C37. Reporting a deadlock may never return: if a request would close a cycle and some other transaction already waits for the
  same entry, \<open>Add\<close> does not terminate (the loop that takes the request back looks at the first waiter
  forever), and it holds the table's mutex while it spins.\<close>

theorem deadlock_report_hangs:
  assumes "lt_reachable lt" and "xid \<notin> waitCh lt" and "uid \<notin> set (held_by lt xid)" and "u2x lt uid \<noteq> None"
    and "queue_of lt uid \<noteq> []"
    and "x \<in> set order" and "(x, y) \<in> (waits (with_wait xid uid lt))\<^sup>*" and "(y, y) \<in> (waits (with_wait xid uid lt))\<^sup>+"
  shows "lt_Add order xid uid lt = None"
proof -
  have "endless (with_wait xid uid lt) x" by (rule cycle_endless [OF assms(7,8)])
  then show ?thesis using assms(3-6) by (auto simp: lt_Add_eq [OF lt_reachable_inv [OF assms(1)] assms(2)])
qed

definition ex12 :: lockTable where
  "ex12 = \<lparr>x2u = [1 \<mapsto> [10], 2 \<mapsto> [20]], u2x = [10 \<mapsto> 1, 20 \<mapsto> 2], lt_wait = [10 \<mapsto> [3], 20 \<mapsto> [1]], waitCh = {3, 1},
     xwaitu = [3 \<mapsto> 10, 1 \<mapsto> 20]\<rparr>"

lemma ex12_reach: "lt_reachable ex12"
proof -
  let ?a = "\<lparr>x2u = [1 \<mapsto> [10], 2 \<mapsto> [20]], u2x = [10 \<mapsto> 1, 20 \<mapsto> 2], lt_wait = Map.empty, waitCh = {}, xwaitu = Map.empty\<rparr> :: lockTable"
  let ?b = "?a\<lparr>lt_wait := [10 \<mapsto> [3]], waitCh := {3}, xwaitu := [3 \<mapsto> 10]\<rparr> :: lockTable"
  have a: "lt_reachable ?a"
    by (rule reach_grant [OF ex1_reach, where x = 2 and u = 20 and order = "[1]"]) (simp_all add: ex1_def ex_simps)
  have b: "lt_reachable ?b"
    by (rule reach_wait [OF a, where x = 3 and u = 10 and order = "[1, 2]"]) (auto simp: ex_simps not_endless)
  have 2: "\<not> endless (with_wait 1 20 ?b) 2" by (rule not_endless) (simp add: with_wait_def)
  moreover have "waits_on (with_wait 1 20 ?b) 1 = Some 2" by (simp add: waits_on_def with_wait_def)
  ultimately have 1: "\<not> endless (with_wait 1 20 ?b) 1" using endless_Some by blast
  have "\<forall>y \<in> set [1, 2]. \<not> endless (with_wait 1 20 ?b) y" using 1 2 by simp
  then show ?thesis
    by (intro reach_wait [OF b, where x = 1 and u = 20 and order = "[1, 2]"]) (auto simp: ex12_def ex_simps)
qed

theorem deadlock_report_hangs_witness: "lt_Add [1, 2] 2 10 ex12 = None"
proof (rule deadlock_report_hangs [OF ex12_reach, where x = 1 and y = 1])
  have "(1, 2) \<in> waits (with_wait 2 10 ex12)" "(2, 1) \<in> waits (with_wait 2 10 ex12)"
    by (simp_all add: waits_iff waits_on_def with_wait_def ex12_def)
  then show "(1, 1) \<in> (waits (with_wait 2 10 ex12))\<^sup>+" by (meson trancl.r_into_trancl trancl_trans)
qed (simp_all add: ex12_def held_by_def queue_of_def)

end
