(* ===== verification/Sm.thy ===== *)
theory Sm
  imports Dm LockTable
begin

text \<open>
  The serializability manager: transactions with snapshots (\<^verbatim>\<open>sm/transaction.go\<close>), versions and who sees them
  (\<^verbatim>\<open>sm/entry.go\<close>, \<^verbatim>\<open>sm/visibility.go\<close>) and the manager itself (\<^verbatim>\<open>sm/serializability_manager.go\<close>). The critical
  sections of the code (under \<open>sm.lock\<close>, under the lock table's mutex, inside the transaction manager) are separate
  definitions, so that \<open>Commit\<close> and \<open>Delete\<close> are the compositions the code has and an interleaving can stop between
  them; \<open>Delete\<close> is split where it blocks on the lock's channel. A call that never returns is \<open>None\<close>.
\<close>

section \<open>Transactions\<close>

record transaction =
  t_XID :: XID
  t_Level :: int
  t_snapshot :: "XID set"
  t_Err :: "error option"
  t_AutoAbortted :: bool

text \<open>The snapshot is only filled for isolation levels other than 0; looking up a nil map finds nothing.\<close>

definition newTransaction :: "XID \<Rightarrow> int \<Rightarrow> XID set \<Rightarrow> transaction" where
  "newTransaction xid level active =
     \<lparr>t_XID = xid, t_Level = level, t_snapshot = (if level \<noteq> 0 then active else {}), t_Err = None, t_AutoAbortted = False\<rparr>"

definition InSnapShot :: "transaction \<Rightarrow> XID \<Rightarrow> bool" where
  "InSnapShot t xid = (if xid = SUPER_XID then False else xid \<in> t_snapshot t)"

section \<open>Visibility\<close>

text \<open>Versions are given by their creator \<open>xmin\<close> and deleter \<open>xmax\<close> (0 when there is none); \<open>IsCommitted\<close> is the transaction
  manager's answer.\<close>

definition IsVersionSkip :: "(XID \<Rightarrow> bool) \<Rightarrow> transaction \<Rightarrow> XID \<Rightarrow> bool" where
  "IsVersionSkip IsCommitted t xmax =
     (if t_Level t = 0 then False else IsCommitted xmax \<and> (t_XID t < xmax \<or> InSnapShot t xmax))"

definition readCommitted :: "(XID \<Rightarrow> bool) \<Rightarrow> transaction \<Rightarrow> XID \<Rightarrow> XID \<Rightarrow> bool" where
  "readCommitted IsCommitted t xmin xmax =
     (let xid = t_XID t in
      if xmin = xid \<and> xmax = 0 then True
      else if IsCommitted xmin then
        (if xmax = 0 then True
         else if xmax \<noteq> xid then (if \<not> IsCommitted xmax then True else False) else False)
      else False)"

definition repeatableRead :: "(XID \<Rightarrow> bool) \<Rightarrow> transaction \<Rightarrow> XID \<Rightarrow> XID \<Rightarrow> bool" where
  "repeatableRead IsCommitted t xmin xmax =
     (let xid = t_XID t in
      if xmin = xid \<and> xmax = 0 then True
      else if IsCommitted xmin \<and> xmin < xid \<and> \<not> InSnapShot t xmin then
        (if xmax = 0 then True
         else if xmax \<noteq> xid then (if \<not> IsCommitted xmax \<or> xid < xmax \<or> InSnapShot t xmax then True else False) else False)
      else False)"

definition IsVisible :: "(XID \<Rightarrow> bool) \<Rightarrow> transaction \<Rightarrow> XID \<Rightarrow> XID \<Rightarrow> bool" where
  "IsVisible IsCommitted t xmin xmax =
     (if t_Level t = 0 then readCommitted IsCommitted t xmin xmax else repeatableRead IsCommitted t xmin xmax)"

section \<open>Entries\<close>

definition ENTRY_OF_XMIN :: nat where "ENTRY_OF_XMIN = 0"
definition ENTRY_OF_XMAX :: nat where "ENTRY_OF_XMAX = ENTRY_OF_XMIN + LEN_XID"
definition ENTRY_DATA :: nat where "ENTRY_DATA = ENTRY_OF_XMAX + LEN_XID"

record entry =
  e_uuid :: UUID
  e_di :: dataitem

definition newEntry :: "dataitem \<Rightarrow> UUID \<Rightarrow> entry" where
  "newEntry di uuid = \<lparr>e_uuid = uuid, e_di = di\<rparr>"

definition WrapEntryRaw :: "XID \<Rightarrow> bytes \<Rightarrow> bytes" where
  "WrapEntryRaw xid data =
     (let raw = replicate (ENTRY_DATA + length data) 0;
          raw = put_at PutXID raw ENTRY_OF_XMIN xid
      in take ENTRY_DATA raw @ go_copy (drop ENTRY_DATA raw) data)"

definition entry_XMIN :: "bytes \<Rightarrow> XID res" where
  "entry_XMIN d = rbind (go_slice d ENTRY_OF_XMIN ENTRY_OF_XMAX) ParseXID"

definition entry_XMAX :: "bytes \<Rightarrow> XID res" where
  "entry_XMAX d = rbind (go_from d ENTRY_OF_XMAX) ParseXID"

definition entry_Data :: "bytes \<Rightarrow> bytes res" where
  "entry_Data d = (if length d < ENTRY_DATA then Panic else rbind (go_from d ENTRY_DATA) (\<lambda>x. Ok (go_copy (replicate (length d - ENTRY_DATA) 0) x)))"

text \<open>The data of the item after \<open>SetXMAX\<close>.\<close>

definition entry_setXMAX :: "bytes \<Rightarrow> XID \<Rightarrow> bytes res" where
  "entry_setXMAX d xid = rbind (go_from d ENTRY_OF_XMAX) (\<lambda>x. Ok (take ENTRY_OF_XMAX d @ PutXID x xid))"

section \<open>The manager\<close>

record serializabilityManager =
  sm_TM :: transactionManager
  sm_DM :: dataManager
  sm_ec :: "entry cacher"
  sm_tc :: "XID \<rightharpoonup> transaction"
  sm_lt :: lockTable

definition NewSerializabilityManager :: "transactionManager \<Rightarrow> dataManager \<Rightarrow> serializabilityManager" where
  "NewSerializabilityManager tm0 dm =
     \<lparr>sm_TM = tm0, sm_DM = dm, sm_ec = NewCacher 0, sm_tc = [SUPER_XID \<mapsto> newTransaction SUPER_XID 0 {}], sm_lt = NewLockTable\<rparr>"

definition on_dm :: "(dataManager \<Rightarrow> 'a res \<times> dataManager) \<Rightarrow> serializabilityManager \<Rightarrow> 'a res \<times> serializabilityManager" where
  "on_dm f s = (case f (sm_DM s) of (r, d) \<Rightarrow> (r, s\<lparr>sm_DM := d\<rparr>))"

definition on_tm :: "(transactionManager \<Rightarrow> 'a res \<times> transactionManager) \<Rightarrow> serializabilityManager \<Rightarrow> 'a res \<times> serializabilityManager" where
  "on_tm f s = (case f (sm_TM s) of (r, t) \<Rightarrow> (r, s\<lparr>sm_TM := t\<rparr>))"

subsection \<open>The entry cache\<close>

definition LoadEntry :: "UUID \<Rightarrow> serializabilityManager \<Rightarrow> entry option res \<times> serializabilityManager" where
  "LoadEntry uuid s =
     sbind (on_dm (dm_Read uuid) s) (\<lambda>di s. (Ok (case di of None \<Rightarrow> None | Some di \<Rightarrow> Some (newEntry di uuid)), s))"

definition sm_getForCacher :: "UUID \<Rightarrow> serializabilityManager \<Rightarrow> entry res \<times> serializabilityManager" where
  "sm_getForCacher uuid s =
     sbind (LoadEntry uuid s) (\<lambda>e s. case e of None \<Rightarrow> (Err ErrNilEntry, s) | Some e \<Rightarrow> (Ok e, s))"

definition sm_releaseForCacher :: "entry \<Rightarrow> serializabilityManager \<Rightarrow> unit res \<times> serializabilityManager" where
  "sm_releaseForCacher e s = on_dm (ReleaseDataitem (di_uid (e_di e))) s"

definition ec_Get :: "UUID \<Rightarrow> serializabilityManager \<Rightarrow> entry res \<times> serializabilityManager" where
  "ec_Get uuid s =
     (case get_try uuid (sm_ec s) of
        (Wait, c) \<Rightarrow> (Panic, s\<lparr>sm_ec := c\<rparr>)
      | (Hit h, c) \<Rightarrow> (Ok h, s\<lparr>sm_ec := c\<rparr>)
      | (Full, c) \<Rightarrow> (Err ErrCacheFull, s\<lparr>sm_ec := c\<rparr>)
      | (Load, c) \<Rightarrow>
          (case sm_getForCacher uuid (s\<lparr>sm_ec := c\<rparr>) of
             (r, s) \<Rightarrow> (case get_finish uuid r (sm_ec s) of (r, c) \<Rightarrow> (r, s\<lparr>sm_ec := c\<rparr>))))"

definition ReleaseEntry :: "entry \<Rightarrow> serializabilityManager \<Rightarrow> unit res \<times> serializabilityManager" where
  "ReleaseEntry e s =
     (case c_Release (e_uuid e) (sm_ec s) of
        Ok (None, c) \<Rightarrow> (Ok (), s\<lparr>sm_ec := c\<rparr>)
      | Ok (Some e, c) \<Rightarrow> sbind (sm_releaseForCacher e s) (\<lambda>_ s. (Ok (), s\<lparr>sm_ec := c\<rparr>))
      | Err x \<Rightarrow> (Err x, s) | Panic \<Rightarrow> (Panic, s))"

text \<open>\<open>defer e.Release()\<close>.\<close>

definition releasing :: "entry \<Rightarrow> 'a res \<times> serializabilityManager \<Rightarrow> 'a res \<times> serializabilityManager" where
  "releasing e m = (case m of (Panic, s) \<Rightarrow> (Panic, s) | (r, s) \<Rightarrow> sbind (ReleaseEntry e s) (\<lambda>_ s. (r, s)))"

definition e_Data :: "entry \<Rightarrow> serializabilityManager \<Rightarrow> bytes res" where
  "e_Data e s = dm_Data (e_di e) (sm_DM s)"

definition visible :: "transaction \<Rightarrow> entry \<Rightarrow> serializabilityManager \<Rightarrow> bool res" where
  "visible t e s =
     rbind (rbind (e_Data e s) entry_XMIN) (\<lambda>xmin.
     rbind (rbind (e_Data e s) entry_XMAX) (\<lambda>xmax.
     Ok (IsVisible (tm_IsCommitted (sm_TM s)) t xmin xmax)))"

definition SetXMAX :: "XID \<Rightarrow> entry \<Rightarrow> serializabilityManager \<Rightarrow> unit res \<times> serializabilityManager" where
  "SetXMAX xid e s =
     sbind (on_dm (dm_Before (e_di e)) s) (\<lambda>di s.
     sbind (rbind (dm_Data di (sm_DM s)) (\<lambda>d. entry_setXMAX d xid), s) (\<lambda>d s.
     sbind (on_dm (dm_write di d) s) (\<lambda>_ s. on_dm (dm_After xid di) s)))"

subsection \<open>Begin, Insert, Read\<close>

definition sm_Begin :: "int \<Rightarrow> serializabilityManager \<Rightarrow> XID res \<times> serializabilityManager" where
  "sm_Begin level s =
     sbind (on_tm tm_Begin s) (\<lambda>xid s.
     let t = newTransaction xid level (dom (sm_tc s)) in (Ok xid, s\<lparr>sm_tc := (sm_tc s)(xid \<mapsto> t)\<rparr>))"

text \<open>Looking a transaction up; using a nil transaction panics.\<close>

definition live :: "XID \<Rightarrow> serializabilityManager \<Rightarrow> transaction res" where
  "live xid s = (case sm_tc s xid of None \<Rightarrow> Panic | Some t \<Rightarrow> (case t_Err t of Some e \<Rightarrow> Err e | None \<Rightarrow> Ok t))"

definition sm_Insert :: "XID \<Rightarrow> bytes \<Rightarrow> serializabilityManager \<Rightarrow> UUID res \<times> serializabilityManager" where
  "sm_Insert xid data s =
     sbind (live xid s, s) (\<lambda>_ s. let raw = WrapEntryRaw xid data in on_dm (dm_Insert xid raw) s)"

definition sm_Read :: "XID \<Rightarrow> UUID \<Rightarrow> serializabilityManager \<Rightarrow> bytes option res \<times> serializabilityManager" where
  "sm_Read xid uuid s =
     sbind (live xid s, s) (\<lambda>t s.
     sbind (ec_Get uuid s) (\<lambda>e s.
     releasing e
       (sbind (visible t e s, s) (\<lambda>vis s.
        if vis then sbind (rbind (e_Data e s) entry_Data, s) (\<lambda>d s. (Ok (Some d), s)) else (Ok None, s)))))"

subsection \<open>Commit and Abort\<close>

text \<open>The three critical sections of \<open>Commit\<close>: leave the table of transactions, release the locks, write the status.\<close>

definition commit_leave :: "XID \<Rightarrow> serializabilityManager \<Rightarrow> bool res \<times> serializabilityManager" where
  "commit_leave xid s =
     (case sm_tc s xid of
        None \<Rightarrow> (Ok False, s)
      | Some t \<Rightarrow> (case t_Err t of Some e \<Rightarrow> (Err e, s) | None \<Rightarrow> (Ok True, s\<lparr>sm_tc := (sm_tc s)(xid := None)\<rparr>)))"

definition sm_unlock :: "XID \<Rightarrow> serializabilityManager \<Rightarrow> unit res \<times> serializabilityManager" where
  "sm_unlock xid s = (case lt_Remove xid (sm_lt s) of
     Ok (_, lt) \<Rightarrow> (Ok (), s\<lparr>sm_lt := lt\<rparr>) | Err e \<Rightarrow> (Err e, s) | Panic \<Rightarrow> (Panic, s))"

definition sm_Commit :: "XID \<Rightarrow> serializabilityManager \<Rightarrow> unit res \<times> serializabilityManager" where
  "sm_Commit xid s =
     sbind (commit_leave xid s) (\<lambda>found s.
     if \<not> found then (Ok (), s)
     else sbind (sm_unlock xid s) (\<lambda>_ s. on_tm (tm_Commit xid) s))"

definition abort :: "XID \<Rightarrow> bool \<Rightarrow> serializabilityManager \<Rightarrow> unit res \<times> serializabilityManager" where
  "abort xid auto s =
     (case sm_tc s xid of
        None \<Rightarrow> (Panic, if auto then s else s\<lparr>sm_tc := (sm_tc s)(xid := None)\<rparr>)
      | Some t \<Rightarrow>
          let s = (if auto then s else s\<lparr>sm_tc := (sm_tc s)(xid := None)\<rparr>) in
          if t_AutoAbortted t then (Ok (), s)
          else sbind (sm_unlock xid s) (\<lambda>_ s. on_tm (tm_Abort xid) s))"

definition sm_Abort :: "XID \<Rightarrow> serializabilityManager \<Rightarrow> unit res \<times> serializabilityManager" where
  "sm_Abort xid s = abort xid False s"

subsection \<open>Delete\<close>

text \<open>The failure of a transaction that cannot be serialized: record the error, roll back (whatever comes of it), remember that.\<close>

definition set_tx :: "XID \<Rightarrow> (transaction \<Rightarrow> transaction) \<Rightarrow> serializabilityManager \<Rightarrow> serializabilityManager" where
  "set_tx xid f s = s\<lparr>sm_tc := (sm_tc s)(xid := map_option f (sm_tc s xid))\<rparr>"

definition cannotSR :: "XID \<Rightarrow> serializabilityManager \<Rightarrow> 'a res \<times> serializabilityManager" where
  "cannotSR xid s =
     (let s = set_tx xid (\<lambda>t. t\<lparr>t_Err := Some ErrCannotSR\<rparr>) s in
      case abort xid True s of
        (Panic, s) \<Rightarrow> (Panic, s)
      | (_, s) \<Rightarrow> (Err ErrCannotSR, set_tx xid (\<lambda>t. t\<lparr>t_AutoAbortted := True\<rparr>) s))"

text \<open>The code keeps the pointer \<open>t\<close> across the wait: the object in the table while it is registered, its last state otherwise.\<close>

definition deref :: "transaction \<Rightarrow> serializabilityManager \<Rightarrow> transaction" where
  "deref t s = (case sm_tc s (t_XID t) of Some t' \<Rightarrow> t' | None \<Rightarrow> t)"

text \<open>After the lock is granted: re-check, version skip, mark as deleted.\<close>

definition deleteLocked :: "transaction \<Rightarrow> entry \<Rightarrow> serializabilityManager \<Rightarrow> bool res \<times> serializabilityManager" where
  "deleteLocked t e s =
     (let t = deref t s; xid = t_XID t in
      releasing e
       (case t_Err t of
          Some err \<Rightarrow> (Err err, s)
        | None \<Rightarrow>
            sbind (rbind (e_Data e s) entry_XMAX, s) (\<lambda>xmax s.
            if xmax = xid then (Ok False, s)
            else if IsVersionSkip (tm_IsCommitted (sm_TM s)) t xmax then cannotSR xid s
            else sbind (SetXMAX xid e s) (\<lambda>_ s. (Ok True, s)))))"

datatype del_out = DelDone bool | DelBlocked transaction entry

definition deleteStart :: "UUID list \<Rightarrow> XID \<Rightarrow> UUID \<Rightarrow> serializabilityManager \<Rightarrow> (del_out res \<times> serializabilityManager) option" where
  "deleteStart order xid uuid s =
     (case live xid s of
        Err x \<Rightarrow> Some (Err x, s) | Panic \<Rightarrow> Some (Panic, s)
      | Ok t \<Rightarrow>
          (case ec_Get uuid s of
             (Err x, s) \<Rightarrow> Some (Err x, s) | (Panic, s) \<Rightarrow> Some (Panic, s)
           | (Ok e, s) \<Rightarrow>
               (case visible t e s of
                  Err x \<Rightarrow> Some (Err x, s) | Panic \<Rightarrow> Some (Panic, s)
                | Ok vis \<Rightarrow>
                    if \<not> vis then Some (releasing e (Ok (DelDone False), s))
                    else (case lt_Add order xid uuid (sm_lt s) of
                       None \<Rightarrow> None
                     | Some (Err x) \<Rightarrow> Some (Err x, s) | Some Panic \<Rightarrow> Some (Panic, s)
                     | Some (Ok (Deadlock, lt)) \<Rightarrow> Some (releasing e (cannotSR xid (s\<lparr>sm_lt := lt\<rparr>)))
                     | Some (Ok (Granted, lt)) \<Rightarrow>
                         Some (sbind (deleteLocked t e (s\<lparr>sm_lt := lt\<rparr>)) (\<lambda>b s. (Ok (DelDone b), s)))
                     | Some (Ok (Waiting, lt)) \<Rightarrow> Some (Ok (DelBlocked t e), s\<lparr>sm_lt := lt\<rparr>)))))"

section \<open>Runs\<close>

text \<open>What clients of the manager do, one call after the other: every call of the interface, with \<open>Delete\<close> in its two parts. A call that
  panics ends the process. The ids stay below the signed range, and the super transaction is never ended.\<close>

inductive sm_step :: "serializabilityManager \<Rightarrow> serializabilityManager \<Rightarrow> bool" where
  s_begin: "unat (xidCounter (sm_TM s)) + 17 < 2 ^ 63 \<Longrightarrow> sm_Begin level s = (r, s') \<Longrightarrow> sm_step s s'"
| s_insert: "sm_Insert xid data s = (r, s') \<Longrightarrow> sm_step s s'"
| s_read: "sm_Read xid uuid s = (r, s') \<Longrightarrow> sm_step s s'"
| s_commit: "xid \<noteq> SUPER_XID \<Longrightarrow> sm_Commit xid s = (r, s') \<Longrightarrow> r \<noteq> Panic \<Longrightarrow> sm_step s s'"
| s_abort: "xid \<noteq> SUPER_XID \<Longrightarrow> sm_Abort xid s = (r, s') \<Longrightarrow> r \<noteq> Panic \<Longrightarrow> sm_step s s'"
| s_delete: "xid \<noteq> SUPER_XID \<Longrightarrow> deleteStart order xid uuid s = Some (r, s') \<Longrightarrow> r \<noteq> Panic \<Longrightarrow> sm_step s s'"
| s_granted: "sm_tc s (t_XID t) \<noteq> None \<Longrightarrow> t_XID t \<noteq> SUPER_XID \<Longrightarrow> deleteLocked t e s = (r, s') \<Longrightarrow> r \<noteq> Panic \<Longrightarrow> sm_step s s'"

inductive_cases sm_stepE: "sm_step s s'"

abbreviation sm_run :: "serializabilityManager \<Rightarrow> serializabilityManager \<Rightarrow> bool" where
  "sm_run \<equiv> sm_step\<^sup>*\<^sup>*"

text \<open>Operations that leave transactions alone.\<close>

definition quiet :: "serializabilityManager \<Rightarrow> serializabilityManager \<Rightarrow> bool" where
  "quiet s s' \<longleftrightarrow> sm_TM s' = sm_TM s \<and> sm_tc s' = sm_tc s"

named_theorems quiets \<open>operations that leave transactions alone\<close>

lemma quiet_refl [simp]: "quiet s s" "quiet s (s\<lparr>sm_lt := l\<rparr>)" "quiet s (s\<lparr>sm_ec := c\<rparr>)" "quiet s (s\<lparr>sm_DM := d\<rparr>)"
  by (simp_all add: quiet_def)

lemma quiet_trans: "quiet s s' \<Longrightarrow> quiet s' s'' \<Longrightarrow> quiet s s''"
  by (simp add: quiet_def)

lemma quiet_sbind: "quiet s (snd m) \<Longrightarrow> (\<And>x s'. m = (Ok x, s') \<Longrightarrow> quiet s' (snd (k x s'))) \<Longrightarrow> quiet s (snd (sbind m k))"
  by (cases m; cases "fst m") (auto intro: quiet_trans)

lemma quiet_on_dm [quiets, simp]: "quiet s (snd (on_dm f s))"
  by (simp add: on_dm_def split: prod.split)

lemma quiet_ec_Get [quiets, simp]: "quiet s (snd (ec_Get uuid s))"
proof -
  have "quiet s (snd (sm_getForCacher uuid s))" for s
    unfolding sm_getForCacher_def LoadEntry_def by (intro quiet_sbind quiets) (auto split: option.split)
  then have "sm_getForCacher uuid (s\<lparr>sm_ec := c\<rparr>) = (r, s') \<Longrightarrow> quiet s s'" for c r s'
    by (metis quiet_refl(3) quiet_trans snd_conv)
  then show ?thesis by (auto simp: ec_Get_def quiet_def split: prod.splits try_res.splits)
qed

lemma quiet_ReleaseEntry [quiets, simp]: "quiet s (snd (ReleaseEntry e s))"
  by (auto simp: ReleaseEntry_def sm_releaseForCacher_def split: res.split option.split intro!: quiet_sbind quiets)

lemma quiet_releasing: "quiet (snd m) (snd (releasing e m))"
  by (cases m; cases "fst m") (auto simp: releasing_def intro!: quiet_sbind quiets)

lemma quiet_SetXMAX [quiets, simp]: "quiet s (snd (SetXMAX xid e s))"
  unfolding SetXMAX_def by (intro quiet_sbind quiets) auto

lemma quiet_Insert: "quiet s (snd (sm_Insert xid data s))"
  unfolding sm_Insert_def by (intro quiet_sbind) (auto simp: Let_def)

lemma quiet_Read: "quiet s (snd (sm_Read xid uuid s))"
  unfolding sm_Read_def
proof (intro quiet_sbind quiets)
  fix t s' e s'' assume "(live xid s, s) = (Ok t, s')"
  show "quiet s'' (snd (releasing e (sbind (visible t e s'', s'') (\<lambda>vis s.
        if vis then sbind (rbind (e_Data e s) entry_Data, s) (\<lambda>d s. (Ok (Some d), s)) else (Ok None, s)))))"
    by (rule quiet_trans [OF _ quiet_releasing]) (auto intro!: quiet_sbind)
qed simp

section \<open>Transactions over a run\<close>

text \<open>The invariant: the status file is in order, registered transactions have handed-out ids, and every transaction that is older than
  a registered snapshot transaction and not in its snapshot is gone from the table.\<close>

definition older :: "transaction \<Rightarrow> XID \<Rightarrow> bool" where
  "older t y \<longleftrightarrow> y < t_XID t \<and> \<not> InSnapShot t y"

definition tx_inv :: "serializabilityManager \<Rightarrow> bool" where
  "tx_inv s \<longleftrightarrow> tm_inv (sm_TM s) \<and>
     (\<forall>x t. sm_tc s x = Some t \<longrightarrow> t_XID t = x \<and> unat x \<le> unat (xidCounter (sm_TM s))) \<and>
     (\<forall>x t y. sm_tc s x = Some t \<and> t_Level t \<noteq> 0 \<and> older t y \<and> y \<noteq> SUPER_XID \<longrightarrow> sm_tc s y = None)"

definition same_tx :: "transaction \<Rightarrow> transaction \<Rightarrow> bool" where
  "same_tx t t' \<longleftrightarrow> t_XID t' = t_XID t \<and> t_Level t' = t_Level t \<and> t_snapshot t' = t_snapshot t"

text \<open>What one step may do: statuses of transactions that are not registered are final, no unregistered id is registered again, and a
  newly registered transaction has the next id and a snapshot of everything registered.\<close>

definition tx_move :: "serializabilityManager \<Rightarrow> serializabilityManager \<Rightarrow> bool" where
  "tx_move s s' \<longleftrightarrow> tm_inv (sm_TM s') \<and> unat (xidCounter (sm_TM s)) \<le> unat (xidCounter (sm_TM s')) \<and>
     (\<forall>y. sm_tc s y = None \<and> unat y \<le> unat (xidCounter (sm_TM s)) \<longrightarrow>
        tm_IsCommitted (sm_TM s') y = tm_IsCommitted (sm_TM s) y \<and> sm_tc s' y = None) \<and>
     (\<forall>y t'. sm_tc s' y = Some t' \<longrightarrow> (\<exists>t. sm_tc s y = Some t \<and> same_tx t t') \<or>
        (\<exists>level. y = xidCounter (sm_TM s) + 1 \<and> unat y = Suc (unat (xidCounter (sm_TM s))) \<and> xidCounter (sm_TM s') = y \<and>
           t' = newTransaction y level (dom (sm_tc s))))"

lemma same_tx_refl [simp]: "same_tx t t" by (simp add: same_tx_def)

lemma tx_move_quiet: "tm_inv (sm_TM s) \<Longrightarrow> quiet s s' \<Longrightarrow> tx_move s s'"
  by (auto simp: quiet_def tx_move_def)

lemma tx_move_quiet_left: "quiet s0 s \<Longrightarrow> tx_move s s' \<Longrightarrow> tx_move s0 s'"
  by (simp add: quiet_def tx_move_def)

lemma tx_move_quiet_right: "tx_move s s' \<Longrightarrow> quiet s' s'' \<Longrightarrow> tx_move s s''"
  by (simp add: quiet_def tx_move_def)

lemma tx_inv_move:
  assumes inv: "tx_inv s" and m: "tx_move s s'"
  shows "tx_inv s'"
proof -
  note i = inv [unfolded tx_inv_def] and mv = m [unfolded tx_move_def]
  have reg: "(\<exists>t. sm_tc s x = Some t \<and> same_tx t t') \<or> (\<exists>level. unat x = Suc (unat (xidCounter (sm_TM s))) \<and>
      xidCounter (sm_TM s') = x \<and> t' = newTransaction x level (dom (sm_tc s)))" if "sm_tc s' x = Some t'" for x t'
    using mv that by blast
  have gone: "sm_tc s' y = None" if "sm_tc s y = None" "unat y \<le> unat (xidCounter (sm_TM s))" for y
    using mv that by blast
  have id: "t_XID t' = x \<and> unat x \<le> unat (xidCounter (sm_TM s'))" if "sm_tc s' x = Some t'" for x t'
    using reg [OF that]
  proof
    assume "\<exists>t. sm_tc s x = Some t \<and> same_tx t t'"
    then obtain t where t: "sm_tc s x = Some t" "same_tx t t'" by blast
    then have "t_XID t = x" "unat x \<le> unat (xidCounter (sm_TM s))" using i by blast+
    moreover have "unat (xidCounter (sm_TM s)) \<le> unat (xidCounter (sm_TM s'))" using mv by blast
    ultimately show ?thesis using t(2) by (simp add: same_tx_def)
  qed (auto simp: newTransaction_def)
  have fin: "sm_tc s' y = None" if a: "sm_tc s' x = Some t'" "t_Level t' \<noteq> 0" "older t' y" "y \<noteq> SUPER_XID" for x t' y
    using reg [OF a(1)]
  proof
    assume "\<exists>t. sm_tc s x = Some t \<and> same_tx t t'"
    then obtain t where t: "sm_tc s x = Some t" "same_tx t t'" by blast
    then have o: "older t y" "t_Level t \<noteq> 0" using a by (auto simp: older_def same_tx_def InSnapShot_def)
    then have "sm_tc s y = None" using i t(1) a(4) by blast
    moreover have "t_XID t = x" "unat x \<le> unat (xidCounter (sm_TM s))" using i t(1) by blast+
    then have "unat y \<le> unat (xidCounter (sm_TM s))" using o(1) by (simp add: older_def word_less_nat_alt)
    ultimately show ?thesis by (rule gone)
  next
    assume "\<exists>level. unat x = Suc (unat (xidCounter (sm_TM s))) \<and> xidCounter (sm_TM s') = x \<and> t' = newTransaction x level (dom (sm_tc s))"
    then obtain level where l: "unat x = Suc (unat (xidCounter (sm_TM s)))" "t' = newTransaction x level (dom (sm_tc s))" by blast
    then have "y < x" "y \<notin> dom (sm_tc s)" using a(2-4) by (auto simp: older_def newTransaction_def InSnapShot_def split: if_splits)
    then show ?thesis using l(1) by (intro gone) (auto simp: word_less_nat_alt)
  qed
  have "tm_inv (sm_TM s')" using mv by blast
  then show ?thesis unfolding tx_inv_def using id fin by blast
qed

text \<open>Ending a registered transaction.\<close>

lemma committed_other:
  assumes inv: "tm_inv t" and k: "known_xid t xid" and u: "updateXID xid b t = (Ok (), t')" and y: "y \<noteq> xid" "unat y \<le> unat (xidCounter t)"
  shows "tm_IsCommitted t' y = tm_IsCommitted t y"
proof (cases "y = SUPER_XID")
  case False
  obtain t'' where t'': "updateXID xid b t = (Ok (), t'')" "tm_inv t''" "xidCounter t'' = xidCounter t"
      "statuses t'' = (statuses t)[unat xid - 1 := b]"
    using updateXID_known [OF inv k] .
  then have e: "t'' = t'" using u by simp
  have ky: "known_xid t y" using False y(2) by (auto simp: known_xid_def SUPER_XID_def unat_gt_0 Suc_le_eq)
  then have "known_xid t' y" using t''(3) e by (simp add: known_xid_def)
  moreover have "unat y - 1 \<noteq> unat xid - 1"
    using y(1) k ky word_unat_eq_iff [of y xid] by (auto simp: known_xid_def)
  ultimately show ?thesis using checkXID_known [OF inv ky] checkXID_known [of t' y] t''(2,4) e False
    by (simp add: tm_IsCommitted_def)
qed (simp add: tm_IsCommitted_def)

lemma tx_move_finish:
  assumes inv: "tx_inv s" and x: "sm_tc s xid \<noteq> None" "xid \<noteq> SUPER_XID"
    and u: "updateXID xid b (sm_TM s) = (r, t')" and s': "sm_TM s' = t'" "sm_tc s' = (sm_tc s)(xid := v)"
    and v: "\<And>t'. v = Some t' \<Longrightarrow> \<exists>t. sm_tc s xid = Some t \<and> same_tx t t'"
  shows "tx_move s s'" and "r = Ok ()"
proof -
  note i = inv [unfolded tx_inv_def]
  have k: "known_xid (sm_TM s) xid" using x i by (auto simp: known_xid_def SUPER_XID_def unat_gt_0 Suc_le_eq)
  obtain t'' where t'': "updateXID xid b (sm_TM s) = (Ok (), t'')" "tm_inv t''" "xidCounter t'' = xidCounter (sm_TM s)"
    using updateXID_known [of "sm_TM s" xid b] i k by metis
  then have e: "t'' = t'" "r = Ok ()" using u by simp_all
  show "r = Ok ()" by (fact e)
  have "tm_IsCommitted t' y = tm_IsCommitted (sm_TM s) y" if "sm_tc s y = None" "unat y \<le> unat (xidCounter (sm_TM s))" for y
    by (rule committed_other [OF _ k]) (use that i x e t'' in auto)
  then show "tx_move s s'" using t'' e s' v x by (auto simp: tx_move_def)
qed

lemma quiet_unlock: "sm_unlock xid s = (r, s') \<Longrightarrow> quiet s s'"
  by (auto simp: sm_unlock_def split: res.splits)

lemma selectNewXID_not_Err: "selectNewXID u lt \<noteq> Err e"
  by (auto simp: selectNewXID_def Let_def split: option.splits list.splits prod.splits)

lemma releaseAll_not_Err: "releaseAll l lt \<noteq> Err e"
  by (induction l arbitrary: lt) (auto simp: rbind_eq_Err selectNewXID_not_Err)

lemma sm_unlock_not_Err: "sm_unlock xid s \<noteq> (Err e, s')"
  by (auto simp: sm_unlock_def lt_Remove_def rbind_eq_Err releaseAll_not_Err split: res.splits option.splits)

lemma unlocked: "sbind (sm_unlock xid s) k = (r, s') \<Longrightarrow> r \<noteq> Panic \<Longrightarrow> \<exists>s2. sm_unlock xid s = (Ok (), s2) \<and> quiet s s2 \<and> k () s2 = (r, s')"
  using sm_unlock_not_Err quiet_unlock by (cases "sm_unlock xid s"; cases "fst (sm_unlock xid s)") auto

lemma tx_move_Begin:
  assumes inv: "tx_inv s" and room: "unat (xidCounter (sm_TM s)) + 17 < 2 ^ 63" and b: "sm_Begin level s = (r, s')"
  shows "tx_move s s'" and "r = Ok (xidCounter (sm_TM s) + 1)"
    and "sm_tc s' = (sm_tc s)(xidCounter (sm_TM s) + 1 \<mapsto> newTransaction (xidCounter (sm_TM s) + 1) level (dom (sm_tc s)))"
proof -
  let ?c = "xidCounter (sm_TM s)"
  have ti: "tm_inv (sm_TM s)" using inv by (simp add: tx_inv_def)
  obtain t' where t': "tm_Begin (sm_TM s) = (Ok (?c + 1), t')" "tm_inv t'" "xidCounter t' = ?c + 1"
    "statuses t' = statuses (sm_TM s) @ [FIELD_TRAN_ACTIVE]" using tm_Begin_healthy [OF ti room] .
  have u: "unat (?c + 1) = Suc (unat ?c)" using room unat_Suc_small [of ?c] by simp
  show "r = Ok (?c + 1)" and tc: "sm_tc s' = (sm_tc s)(?c + 1 \<mapsto> newTransaction (?c + 1) level (dom (sm_tc s)))"
    using b t'(1) by (auto simp: sm_Begin_def on_tm_def Let_def)
  have tm': "sm_TM s' = t'" using b t'(1) by (auto simp: sm_Begin_def on_tm_def Let_def)
  have len: "length (statuses (sm_TM s)) = unat ?c" using ti by (simp add: tm_inv_def statuses_def)
  have "tm_IsCommitted t' y = tm_IsCommitted (sm_TM s) y" if "unat y \<le> unat ?c" for y
  proof (cases "y = SUPER_XID")
    case False
    then have k: "known_xid (sm_TM s) y" "known_xid t' y"
      using that u t'(3) by (auto simp: known_xid_def SUPER_XID_def unat_gt_0 Suc_le_eq)
    have "unat y - 1 < unat ?c" using k(1) by (auto simp: known_xid_def)
    then show ?thesis using checkXID_known [OF ti k(1)] checkXID_known [OF t'(2) k(2)] t'(4) False len
      by (simp add: tm_IsCommitted_def nth_append)
  qed (simp add: tm_IsCommitted_def)
  then show "tx_move s s'" using t' u tm' tc by (auto simp: tx_move_def split: if_splits)
qed

lemma tx_move_Commit:
  assumes inv: "tx_inv s" and x: "xid \<noteq> SUPER_XID" and c: "sm_Commit xid s = (r, s')" and r: "r \<noteq> Panic"
  shows "tx_move s s'"
proof (cases "sm_tc s xid")
  case None
  then show ?thesis using c inv by (simp add: sm_Commit_def commit_leave_def tx_move_quiet tx_inv_def)
next
  case (Some t)
  show ?thesis
  proof (cases "t_Err t")
    case None
    let ?s1 = "s\<lparr>sm_tc := (sm_tc s)(xid := None)\<rparr>"
    have c': "sbind (sm_unlock xid ?s1) (\<lambda>_ s. on_tm (tm_Commit xid) s) = (r, s')"
      using c Some None by (simp add: sm_Commit_def commit_leave_def)
    obtain s2 where u: "quiet ?s1 s2" "on_tm (tm_Commit xid) s2 = (r, s')" using unlocked [OF c' r] by blast
    obtain t' where t': "updateXID xid FIELD_TRAN_COMMITTED (sm_TM s) = (r, t')" "s' = s2\<lparr>sm_TM := t'\<rparr>"
      using u by (auto simp: on_tm_def tm_Commit_def quiet_def split: prod.splits)
    show ?thesis
      by (rule tx_move_finish(1) [OF inv _ x t'(1), where v = None]) (use t'(2) u(1) Some in \<open>auto simp: quiet_def\<close>)
  next
    case (Some e)
    then show ?thesis using c inv \<open>sm_tc s xid = Some t\<close>
      by (simp add: sm_Commit_def commit_leave_def tx_move_quiet tx_inv_def)
  qed
qed

text \<open>What \<open>abort\<close> does when it does not panic.\<close>

lemma abort_cases:
  assumes c: "abort xid auto s = (r, s')" and r: "r \<noteq> Panic"
  obtains (again) t where "sm_tc s xid = Some t" "t_AutoAbortted t" "r = Ok ()" "sm_TM s' = sm_TM s"
      "sm_tc s' = (if auto then sm_tc s else (sm_tc s)(xid := None))"
  | (ends) t t' where "sm_tc s xid = Some t" "\<not> t_AutoAbortted t" "updateXID xid FIELD_TRAN_ABORTED (sm_TM s) = (r, t')" "sm_TM s' = t'"
      "sm_tc s' = (if auto then sm_tc s else (sm_tc s)(xid := None))"
proof -
  have "sm_tc s xid \<noteq> None" using c r by (auto simp: abort_def split: option.splits)
  then obtain t where t: "sm_tc s xid = Some t" by blast
  let ?s1 = "if auto then s else s\<lparr>sm_tc := (sm_tc s)(xid := None)\<rparr>"
  show thesis
  proof (cases "t_AutoAbortted t")
    case True
    then have "s' = ?s1" "r = Ok ()" using c t by (simp_all add: abort_def Let_def)
    then show ?thesis using again t True by simp
  next
    case False
    then have "sbind (sm_unlock xid ?s1) (\<lambda>_ s. on_tm (tm_Abort xid) s) = (r, s')" using c t by (simp add: abort_def Let_def)
    then obtain s2 where u: "quiet ?s1 s2" "on_tm (tm_Abort xid) s2 = (r, s')" using unlocked [OF _ r] by blast
    then show ?thesis using ends [OF t False]
      by (auto simp: on_tm_def tm_Abort_def quiet_def split: prod.splits if_splits)
  qed
qed

lemma tx_move_same:
  assumes "tx_inv s" and "sm_TM s' = sm_TM s" and "sm_tc s' = (sm_tc s)(xid := v)" and "\<And>t'. v = Some t' \<Longrightarrow> \<exists>t. sm_tc s xid = Some t \<and> same_tx t t'"
    and "sm_tc s xid \<noteq> None"
  shows "tx_move s s'"
  using assms by (auto simp: tx_move_def tx_inv_def)

lemma tx_move_Abort:
  assumes inv: "tx_inv s" and x: "xid \<noteq> SUPER_XID" and c: "sm_Abort xid s = (r, s')" and r: "r \<noteq> Panic"
  shows "tx_move s s'"
  using c [unfolded sm_Abort_def] r
proof (cases rule: abort_cases)
  case (again t)
  show ?thesis by (rule tx_move_same [OF inv again(4), of xid None]) (use again in auto)
next
  case (ends t t')
  show ?thesis by (rule tx_move_finish(1) [OF inv _ x ends(3,4), of None]) (use ends in auto)
qed

text \<open>A transaction that cannot be serialized is marked and aborted, and stays registered.\<close>

definition failed_tx :: "transaction \<Rightarrow> transaction" where
  "failed_tx t = t\<lparr>t_Err := Some ErrCannotSR, t_AutoAbortted := True\<rparr>"

lemma same_failed [simp]: "same_tx t (failed_tx t)" by (simp add: same_tx_def failed_tx_def)

lemma cannotSR_effect:
  assumes inv: "tx_inv s" and x: "xid \<noteq> SUPER_XID" and c: "cannotSR xid s = (r, s')" and r: "r \<noteq> Panic"
  shows "tx_move s s'" and "r = Err ErrCannotSR" and "\<exists>t. sm_tc s xid = Some t \<and> sm_tc s' = (sm_tc s)(xid \<mapsto> failed_tx t)"
    and "(\<exists>t. sm_tc s xid = Some t \<and> \<not> t_AutoAbortted t) \<Longrightarrow> updateXID xid FIELD_TRAN_ABORTED (sm_TM s) = (Ok (), sm_TM s')"
proof -
  let ?s1 = "set_tx xid (\<lambda>t. t\<lparr>t_Err := Some ErrCannotSR\<rparr>) s"
  obtain r2 s2 where a: "abort xid True ?s1 = (r2, s2)" by fastforce
  have r2: "r2 \<noteq> Panic" and e: "r = Err ErrCannotSR" "s' = set_tx xid (\<lambda>t. t\<lparr>t_AutoAbortted := True\<rparr>) s2"
    using c r a by (auto simp: cannotSR_def Let_def split: res.splits)
  show "r = Err ErrCannotSR" by (fact e)
  have tc1: "sm_tc ?s1 = (sm_tc s)(xid := map_option (\<lambda>t. t\<lparr>t_Err := Some ErrCannotSR\<rparr>) (sm_tc s xid))" "sm_TM ?s1 = sm_TM s"
    by (simp_all add: set_tx_def)
  from a r2 have "(\<exists>t. sm_tc s xid = Some t \<and> sm_tc s' = (sm_tc s)(xid \<mapsto> failed_tx t)) \<and> tx_move s s' \<and>
     ((\<exists>t. sm_tc s xid = Some t \<and> \<not> t_AutoAbortted t) \<longrightarrow> updateXID xid FIELD_TRAN_ABORTED (sm_TM s) = (Ok (), sm_TM s'))"
  proof (cases rule: abort_cases)
    case (again t)
    then obtain t0 where t0: "sm_tc s xid = Some t0" "t_AutoAbortted t0" using tc1 by auto
    then have tc: "sm_tc s' = (sm_tc s)(xid \<mapsto> failed_tx t0)" "sm_TM s' = sm_TM s"
      using again e(2) tc1 by (auto simp: set_tx_def failed_tx_def)
    show ?thesis using tc t0 tx_move_same [OF inv tc(2,1)] by auto
  next
    case (ends t t')
    then obtain t0 where t0: "sm_tc s xid = Some t0" using tc1 by auto
    then have tc: "sm_TM s' = t'" "sm_tc s' = (sm_tc s)(xid \<mapsto> failed_tx t0)"
      using ends e(2) tc1 by (auto simp: set_tx_def failed_tx_def)
    have u: "updateXID xid FIELD_TRAN_ABORTED (sm_TM s) = (r2, t')" using ends tc1 by simp
    show ?thesis using tc t0 u tx_move_finish [OF inv _ x u tc] by auto
  qed
  then show "tx_move s s'" and "\<exists>t. sm_tc s xid = Some t \<and> sm_tc s' = (sm_tc s)(xid \<mapsto> failed_tx t)"
    and "(\<exists>t. sm_tc s xid = Some t \<and> \<not> t_AutoAbortted t) \<Longrightarrow> updateXID xid FIELD_TRAN_ABORTED (sm_TM s) = (Ok (), sm_TM s')"
    by blast+
qed

lemma releasing_inv: "releasing e m = (r, s') \<Longrightarrow> r \<noteq> Panic \<Longrightarrow> \<exists>r0 s0. m = (r0, s0) \<and> r0 \<noteq> Panic \<and> quiet s0 s'"
  using quiet_releasing [of m e] by (cases m; cases "fst m") (auto simp: releasing_def)

lemma tx_move_deleteLocked:
  assumes inv: "tx_inv s" and x: "t_XID t \<noteq> SUPER_XID" and t: "sm_tc s (t_XID t) \<noteq> None"
    and c: "deleteLocked t e s = (r, s')" and r: "r \<noteq> Panic"
  shows "tx_move s s'"
proof -
  obtain t1 where t1: "sm_tc s (t_XID t) = Some t1" "t_XID t1 = t_XID t" using t inv by (auto simp: tx_inv_def)
  have x: "t_XID t1 \<noteq> SUPER_XID" using x t1 by simp
  let ?x = "t_XID t1"
  let ?m = "case t_Err t1 of Some err \<Rightarrow> (Err err, s) | None \<Rightarrow>
      sbind (rbind (e_Data e s) entry_XMAX, s) (\<lambda>xmax s.
      if xmax = ?x then (Ok False, s)
      else if IsVersionSkip (tm_IsCommitted (sm_TM s)) t1 xmax then cannotSR ?x s
      else sbind (SetXMAX ?x e s) (\<lambda>_ s. (Ok True, s)))"
  have "releasing e ?m = (r, s')" using c t1 by (simp add: deleteLocked_def deref_def Let_def)
  then obtain r0 s0 where m: "?m = (r0, s0)" "r0 \<noteq> Panic" and q: "quiet s0 s'" using releasing_inv [OF _ r] by blast
  have ti: "tm_inv (sm_TM s)" using inv by (simp add: tx_inv_def)
  have set: "tx_move s (snd (sbind (SetXMAX ?x e s) (\<lambda>_ s. (Ok True, s))))"
    by (rule tx_move_quiet [OF ti]) (auto intro!: quiet_sbind)
  have "tx_move s s0"
  proof (cases "t_Err t1")
    case None
    show ?thesis
    proof (cases "rbind (e_Data e s) entry_XMAX")
      case (Ok xmax)
      then show ?thesis using m None set cannotSR_effect(1) [OF inv x, of r0 s0] tx_move_quiet [OF ti]
        by (auto split: if_splits)
    qed (use m None tx_move_quiet [OF ti] in auto)
  qed (use m tx_move_quiet [OF ti] in auto)
  then show ?thesis using q by (rule tx_move_quiet_right)
qed

lemma tx_inv_quiet: "tx_inv s \<Longrightarrow> quiet s s' \<Longrightarrow> tx_inv s'"
  using tx_inv_move [of s s'] tx_move_quiet [of s s'] unfolding tx_inv_def by blast

lemma tx_move_deleteStart:
  assumes inv: "tx_inv s" and x: "xid \<noteq> SUPER_XID" and c: "deleteStart order xid uuid s = Some (r, s')" and r: "r \<noteq> Panic"
  shows "tx_move s s'"
proof -
  have ti: "tm_inv (sm_TM s)" using inv by (simp add: tx_inv_def)
  show ?thesis
  proof (cases "live xid s")
    case (Ok t)
    then have t: "sm_tc s xid = Some t" "t_XID t = xid" using inv by (auto simp: live_def tx_inv_def split: option.splits)
    obtain r1 s1 where g: "ec_Get uuid s = (r1, s1)" by fastforce
    then have q: "quiet s s1" using quiet_ec_Get [of s uuid] by simp
    have stop: "tx_move s s'" if "quiet s1 s'" using tx_move_quiet [OF ti quiet_trans [OF q that]] .
    have go: "tx_move s s'" if "quiet s1 s2" "tx_inv s2 \<Longrightarrow> tx_move s2 s'" for s2
      using that tx_move_quiet_left [OF quiet_trans [OF q that(1)]] tx_inv_quiet [OF inv quiet_trans [OF q that(1)]] by blast
    have rel: "quiet s1 s2 \<Longrightarrow> releasing e m = (r, s') \<Longrightarrow> (\<And>r0 s0. m = (r0, s0) \<Longrightarrow> r0 \<noteq> Panic \<Longrightarrow> tx_inv s2 \<Longrightarrow> tx_move s2 s0) \<Longrightarrow> tx_move s s'" for e m s2
      using releasing_inv [OF _ r] go tx_move_quiet_right by metis
    show ?thesis
    proof (cases r1)
      case (Ok e)
      show ?thesis
      proof (cases "visible t e s1")
        case (Ok vis)
        have e: "ec_Get uuid s = (Ok e, s1)" using g \<open>r1 = Ok e\<close> by simp
        note start = c [unfolded deleteStart_def \<open>live xid s = Ok t\<close> e, simplified, unfolded Ok, simplified]
        show ?thesis
        proof (cases vis)
          case False
          with start have "releasing e (Ok (DelDone False), s1) = (r, s')" by simp
          then show ?thesis using releasing_inv [OF _ r] stop by blast
        next
          case True
          with start obtain a where a: "lt_Add order xid uuid (sm_lt s1) = Some a" by (auto split: option.splits)
          show ?thesis
          proof (cases a)
            case (Ok p)
            obtain b lt where p: "p = (b, lt)" by fastforce
            let ?s2 = "s1\<lparr>sm_lt := lt\<rparr>"
            have tc2: "sm_tc ?s2 (t_XID t) \<noteq> None" "t_XID t \<noteq> SUPER_XID" using q t x by (auto simp: quiet_def)
            show ?thesis
            proof (cases b)
              case Granted
              with start True a Ok p have d: "sbind (deleteLocked t e ?s2) (\<lambda>b s. (Ok (DelDone b), s)) = (r, s')" by simp
              obtain r3 s3 where d3: "deleteLocked t e ?s2 = (r3, s3)" by fastforce
              then have "r3 \<noteq> Panic" "s' = s3" using d r by (cases r3; auto)+
              then have "tx_inv ?s2 \<Longrightarrow> tx_move ?s2 s'" using tx_move_deleteLocked [OF _ tc2(2,1) d3] by simp
              then show ?thesis by (intro go [of ?s2]) (simp_all add: quiet_def)
            next
              case Waiting
              with start True a Ok p show ?thesis by (auto intro!: stop)
            next
              case Deadlock
              with start True a Ok p have "releasing e (cannotSR xid ?s2) = (r, s')" by simp
              then show ?thesis by (rule rel [of ?s2, rotated]) (auto simp: quiet_def intro: cannotSR_effect(1) [OF _ x])
            qed
          qed (use start True a stop in auto)
        qed
      qed (use c g \<open>live xid s = Ok t\<close> \<open>r1 = Ok e\<close> stop in \<open>auto simp: deleteStart_def\<close>)
    qed (use c g \<open>live xid s = Ok t\<close> stop in \<open>auto simp: deleteStart_def\<close>)
  qed (use c tx_move_quiet [OF ti] in \<open>auto simp: deleteStart_def\<close>)
qed

lemma tx_move_step:
  assumes inv: "tx_inv s" and st: "sm_step s s'"
  shows "tx_move s s'"
  using st
proof (cases rule: sm_step.cases)
  case s_begin then show ?thesis using tx_move_Begin(1) [OF inv] by blast
next
  case (s_insert xid data r) then show ?thesis using tx_move_quiet [of s s'] quiet_Insert [of s xid data] inv by (simp add: tx_inv_def)
next
  case (s_read xid uuid r) then show ?thesis using tx_move_quiet [of s s'] quiet_Read [of s xid uuid] inv by (simp add: tx_inv_def)
next
  case s_commit then show ?thesis using tx_move_Commit [OF inv] by blast
next
  case s_abort then show ?thesis using tx_move_Abort [OF inv] by blast
next
  case s_delete then show ?thesis using tx_move_deleteStart [OF inv] by blast
next
  case s_granted then show ?thesis using tx_move_deleteLocked [OF inv] by blast
qed

text \<open>Over a run, a transaction that stays registered keeps its identity, and the statuses of older transactions are final.\<close>

lemma tx_run:
  assumes "sm_run s s'" and "tx_inv s" and "sm_tc s x = Some t" and "sm_tc s' x = Some t'"
  shows "tx_inv s' \<and> same_tx t t' \<and> (t_Level t \<noteq> 0 \<longrightarrow>
     (\<forall>y. older t y \<longrightarrow> tm_IsCommitted (sm_TM s') y = tm_IsCommitted (sm_TM s) y))"
  using assms(1,4)
proof (induction arbitrary: t' rule: rtranclp_induct)
  case base then show ?case using assms by simp
next
  case (step s1 s2)
  have "tx_inv s1" using step.hyps(1) by (induction rule: rtranclp_induct) (use assms(2) tx_inv_move tx_move_step in blast)+
  note mv = tx_move_step [OF this step.hyps(2)]
  have inv2: "tx_inv s2" by (rule tx_inv_move [OF \<open>tx_inv s1\<close> mv])
  have x: "unat x \<le> unat (xidCounter (sm_TM s))" "t_XID t = x" using assms(2,3) by (auto simp: tx_inv_def)
  have grow: "unat (xidCounter (sm_TM s)) \<le> unat (xidCounter (sm_TM s1))"
    using step.hyps(1)
  proof (induction rule: rtranclp_induct)
    case (step y z)
    then have "tx_inv y" using assms(2) by - (rule rtranclp_induct [of sm_step s y], auto intro: tx_inv_move tx_move_step)
    then have "tx_move y z" using step.hyps(2) by (rule tx_move_step)
    then show ?case using step.IH by (auto simp: tx_move_def)
  qed simp
  obtain t1 where t1: "sm_tc s1 x = Some t1" "same_tx t1 t'"
    using mv step.prems x(1) grow unfolding tx_move_def by fastforce
  note ih = step.IH [OF t1(1)]
  have same: "same_tx t t'" using ih t1(2) by (simp add: same_tx_def)
  have "tm_IsCommitted (sm_TM s2) y = tm_IsCommitted (sm_TM s) y" if l: "t_Level t \<noteq> 0" and y: "older t y" for y
  proof (cases "y = SUPER_XID")
    case False
    have "older t1 y" "t_Level t1 \<noteq> 0" using ih y l by (auto simp: older_def same_tx_def InSnapShot_def)
    then have "sm_tc s1 y = None" using \<open>tx_inv s1\<close> t1(1) False unfolding tx_inv_def by blast
    moreover have "unat y \<le> unat (xidCounter (sm_TM s1))"
      using y x grow by (simp add: older_def word_less_nat_alt)
    ultimately show ?thesis using mv ih y l by (simp add: tx_move_def)
  qed (simp add: tm_IsCommitted_def)
  then show ?case using same inv2 by blast
qed

lemma tx_inv_New: "tm_inv t \<Longrightarrow> tx_inv (NewSerializabilityManager t d)"
  by (auto simp: NewSerializabilityManager_def tx_inv_def newTransaction_def SUPER_XID_def split: if_splits)

definition new_tm :: transactionManager where
  "new_tm = \<lparr>tm_file = \<lparr>fdata = replicate 8 0, fpos = 0, ffault = []\<rparr>, xidCounter = 0\<rparr>"

definition new_sm :: serializabilityManager where
  "new_sm = NewSerializabilityManager new_tm new_dm"

lemma new_sm_inv: "tx_inv new_sm" "xidCounter (sm_TM new_sm) = 0" "sm_tc new_sm = [0 \<mapsto> newTransaction 0 0 {}]"
  "sm_DM new_sm = new_dm" "sm_ec new_sm = NewCacher 0" "sm_lt new_sm = NewLockTable"
proof -
  have "tm_inv new_tm" by (simp add: tm_inv_def new_tm_def Uint64ToRaw_def be_bytes_zero)
  then show "tx_inv new_sm" by (simp add: new_sm_def tx_inv_New)
qed (simp_all add: new_sm_def new_tm_def NewSerializabilityManager_def SUPER_XID_def)

lemma begin_again:
  assumes "tx_inv s" and "unat (xidCounter (sm_TM s)) + 17 < 2 ^ 63"
  shows "\<exists>s'. sm_Begin level s = (Ok (xidCounter (sm_TM s) + 1), s') \<and> tx_inv s' \<and> sm_step s s' \<and> xidCounter (sm_TM s') = xidCounter (sm_TM s) + 1 \<and>
     sm_tc s' = (sm_tc s)(xidCounter (sm_TM s) + 1 \<mapsto> newTransaction (xidCounter (sm_TM s) + 1) level (dom (sm_tc s))) \<and>
     sm_DM s' = sm_DM s \<and> sm_ec s' = sm_ec s \<and> sm_lt s' = sm_lt s"
proof -
  obtain r s' where b: "sm_Begin level s = (r, s')" by fastforce
  note m = tx_move_Begin [OF assms b]
  have "xidCounter (sm_TM s') = xidCounter (sm_TM s) + 1"
    using b assms tm_Begin_healthy [of "sm_TM s"] by (auto simp: sm_Begin_def on_tm_def tx_inv_def Let_def elim!: tm_Begin_healthy [of "sm_TM s"])
  moreover have "sm_DM s' = sm_DM s \<and> sm_ec s' = sm_ec s \<and> sm_lt s' = sm_lt s"
    using b by (auto simp: sm_Begin_def on_tm_def sbind_def Let_def split: prod.splits res.splits)
  ultimately show ?thesis using b m tx_inv_move [OF assms(1) m(1)] s_begin [OF assms(2) b] by simp
qed

lemma repeatableRead_frozen:
  assumes "\<And>y. older t y \<Longrightarrow> c' y = c y" and "same_tx t t'"
    and "xmax' = xmax \<or> (xmin \<noteq> t_XID t \<and> xmax' \<noteq> 0 \<and> xmax' \<noteq> t_XID t \<and> \<not> older t xmax' \<and> (xmax = 0 \<or> (xmax \<noteq> t_XID t \<and> \<not> (older t xmax \<and> c xmax))))"
  shows "repeatableRead c' t' xmin xmax' = repeatableRead c t xmin xmax"
proof -
  have id: "t_XID t' = t_XID t" "\<And>y. InSnapShot t' y = InSnapShot t y" using assms(2) by (auto simp: same_tx_def InSnapShot_def)
  have o: "y < t_XID t \<and> \<not> InSnapShot t y \<Longrightarrow> c' y = c y" for y using assms(1) by (simp add: older_def)
  have lt: "\<And>y. y \<noteq> t_XID t \<Longrightarrow> (t_XID t < y) = (\<not> y < t_XID t)" by auto
  show ?thesis using assms(3) o [of xmin] o [of xmax] o [of xmax']
    unfolding repeatableRead_def Let_def id older_def by (cases "xmax = t_XID t"; cases "xmax' = t_XID t") (auto simp: lt)
qed

section \<open>Stored entries\<close>

lemma WrapEntryRaw_eq: "WrapEntryRaw x data = UUIDToRaw x @ replicate 8 0 @ data"
  by (simp add: WrapEntryRaw_def ENTRY_OF_XMIN_def ENTRY_OF_XMAX_def ENTRY_DATA_def tm_defs put_at_def PutXID_def PutUUID_def
      UUIDToRaw_def PutUint64_def go_copy_def Let_def Uint64ToRaw_def buf_write_def)

lemma entry_of_raw:
  "entry_XMIN (WrapEntryRaw x data) = Ok x" "entry_XMAX (WrapEntryRaw x data) = Ok 0" "entry_Data (WrapEntryRaw x data) = Ok data"
proof -
  show "entry_XMIN (WrapEntryRaw x data) = Ok x"
    by (simp add: entry_XMIN_def WrapEntryRaw_eq ENTRY_OF_XMIN_def ENTRY_OF_XMAX_def tm_defs go_slice_def ParseXID_def ParseUUID_self)
  have "ParseUUID (replicate 8 0 @ data) = Ok 0" using ParseUUID_prefix [of 0 data] by (simp add: UUIDToRaw_def Uint64ToRaw_def be_bytes_zero)
  then show "entry_XMAX (WrapEntryRaw x data) = Ok 0"
    by (simp add: entry_XMAX_def WrapEntryRaw_eq ENTRY_OF_XMIN_def ENTRY_OF_XMAX_def tm_defs ParseXID_def)
  show "entry_Data (WrapEntryRaw x data) = Ok data"
    by (simp add: entry_Data_def WrapEntryRaw_eq ENTRY_OF_XMIN_def ENTRY_OF_XMAX_def ENTRY_DATA_def tm_defs go_copy_def)
qed

text \<open>The data manager below is consistent and every cached entry keeps its item cached.\<close>

definition sm_store_ok :: "serializabilityManager \<Rightarrow> UUID multiset \<Rightarrow> UUID multiset \<Rightarrow> UUID multiset \<Rightarrow> bytes list \<Rightarrow> bool" where
  "sm_store_ok s eheld held ph ds \<longleftrightarrow> dm_inv (sm_DM s) ph ds \<and> dic_ok (sm_DM s) held \<and>
     cacher_inv (sm_ec s) eheld {#} \<and> MaxHandles (sm_ec s) = 0 \<and>
     (\<forall>u. cache (sm_ec s) u \<noteq> None \<longrightarrow> cache (dm_dic (sm_DM s)) u \<noteq> None)"

lemma ReleaseDataitem_last:
  assumes "cache (dm_dic d) u = Some di" and "refs (dm_dic d) u = Some 1" and "pc_inv (dm_pc d) (add_mset (Pgno2UUID (di_pgno di)) ph)"
  obtains d' where "ReleaseDataitem u d = (Ok (), d')" "pc_inv (dm_pc d') ph"
proof -
  obtain p' where p: "pc_release (di_pgno di) (dm_pc d) = (Ok (), p')" "pc_inv p' ph"
    using pc_release_ok [OF assms(3), of "di_pgno di"] by auto
  then show thesis using assms(1,2) that
    by (auto simp: ReleaseDataitem_def c_Release_def dm_releaseForCacher_def on_pc_def ref_of_def Let_def)
qed

lemma sm_Read_stored:
  assumes dm: "dm_inv (sm_DM s) ph ds" "in_db (dm_pc (sm_DM s)) k" "Suc (size ph) < unat (MaxHandles (pc_c (dm_pc (sm_DM s))))"
    and dic: "cacher_inv (dm_dic (sm_DM s)) held {#}" "MaxHandles (dm_dic (sm_DM s)) = 0" "cache (dm_dic (sm_DM s)) (Address2UUID k off) = None"
    and ec: "cacher_inv (sm_ec s) eheld {#}" "MaxHandles (sm_ec s) = 0" "cache (sm_ec s) (Address2UUID k off) = None"
    and st: "unat off + 3 + length (WrapEntryRaw x data) \<le> PAGE_SIZE"
      "window (pc_content (dm_pc (sm_DM s)) k) (unat off) (3 + length (WrapEntryRaw x data)) = item_raw 0 (WrapEntryRaw x data)"
    and t: "sm_tc s y = Some t" "t_Err t = None"
  shows "\<exists>s'. sm_Read y (Address2UUID k off) s = (Ok (if IsVisible (tm_IsCommitted (sm_TM s)) t x 0 then Some data else None), s')"
proof -
  let ?u = "Address2UUID k off" and ?raw = "WrapEntryRaw x data"
  obtain di d' where r: "dm_Read ?u (sm_DM s) = (Ok (Some di), d')" "dm_Data di d' = Ok ?raw" "di_uid di = ?u"
    "cache (dm_dic d') = (cache (dm_dic (sm_DM s)))(?u \<mapsto> di)" "pc_inv (dm_pc d') (add_mset (Pgno2UUID k) ph)"
    "refs (dm_dic d') = (refs (dm_dic (sm_DM s)))(?u \<mapsto> 1)" "di_pgno di = k"
    using dm_Read_stored [OF dm dic st] by metis
  let ?e = "newEntry di ?u"
  let ?c1 = "(sm_ec s)\<lparr>getting := {?u}, count := count (sm_ec s) + 1\<rparr>"
  let ?c2 = "(sm_ec s)\<lparr>getting := {}, count := count (sm_ec s) + 1, cache := (cache (sm_ec s))(?u \<mapsto> ?e), refs := (refs (sm_ec s))(?u \<mapsto> 1)\<rparr>"
  let ?s1 = "s\<lparr>sm_ec := ?c2, sm_DM := d'\<rparr>"
  have "get_try ?u (sm_ec s) = (Load, ?c1)" using ec by (simp add: get_try_def cacher_inv_def)
  then have g: "ec_Get ?u s = (Ok ?e, ?s1)"
    using r(1) by (simp add: ec_Get_def sm_getForCacher_def LoadEntry_def on_dm_def get_finish_def)
  have d: "e_Data ?e ?s1 = Ok ?raw" using r(2) by (simp add: e_Data_def newEntry_def)
  then have v: "visible t ?e ?s1 = Ok (IsVisible (tm_IsCommitted (sm_TM s)) t x 0)" by (simp add: visible_def entry_of_raw)
  obtain d2 where d2: "ReleaseDataitem ?u d' = (Ok (), d2)"
    using ReleaseDataitem_last [of d' ?u di ph] r by auto
  have rel: "\<exists>s2. ReleaseEntry ?e ?s1 = (Ok (), s2)"
    using d2 r(3) by (simp add: ReleaseEntry_def c_Release_def ref_of_def newEntry_def sm_releaseForCacher_def on_dm_def Let_def)
  then show ?thesis using t g v d by (auto simp: sm_Read_def live_def releasing_def entry_of_raw)
qed

text \<open>An insert finds a place that no cache knows yet.\<close>

lemma sm_Insert_stored:
  assumes "sm_store_ok s eheld held ph ds" and "length data + 19 < NO_INTERVAL * THRESHOLD"
    and "Suc (unat (noPages (dm_pc (sm_DM s)))) < 2 ^ 32" and "Suc (size ph) < unat (MaxHandles (pc_c (dm_pc (sm_DM s))))"
    and "sm_tc s x = Some tx" and "t_Err tx = None"
  obtains k off d1 where "sm_Insert x data s = (Ok (Address2UUID k off), s\<lparr>sm_DM := d1\<rparr>)" "dm_inv d1 ph (ds @ [enc_op (Ins x k off (item_raw 0 (WrapEntryRaw x data)))])"
    "in_db (dm_pc d1) k" "unat off + 3 + length (WrapEntryRaw x data) \<le> PAGE_SIZE"
    "window (pc_content (dm_pc d1) k) (unat off) (3 + length (WrapEntryRaw x data)) = item_raw 0 (WrapEntryRaw x data)"
    "dm_dic d1 = dm_dic (sm_DM s)" "MaxHandles (pc_c (dm_pc d1)) = MaxHandles (pc_c (dm_pc (sm_DM s)))"
    "cache (dm_dic (sm_DM s)) (Address2UUID k off) = None" "cache (sm_ec s) (Address2UUID k off) = None"
proof -
  let ?d = "sm_DM s" and ?raw = "WrapEntryRaw x data"
  have dm: "dm_inv ?d ph ds" and dic: "dic_ok ?d held" using assms(1) by (simp_all add: sm_store_ok_def)
  have len: "length ?raw = 16 + length data" by (simp add: WrapEntryRaw_eq UUIDToRaw_def)
  then have n: "length ?raw + 3 < NO_INTERVAL * THRESHOLD" using assms(2) by simp
  obtain k off d1 where i: "dm_Insert x ?raw ?d = (Ok (Address2UUID k off), d1)"
    "dm_inv d1 ph (ds @ [enc_op (Ins x k off (item_raw 0 ?raw))])" "in_db (dm_pc d1) k"
    "unat off + 3 + length ?raw \<le> PAGE_SIZE"
    "window (pc_content (dm_pc d1) k) (unat off) (3 + length ?raw) = item_raw 0 ?raw"
    "in_db (dm_pc ?d) k \<Longrightarrow> unat off = fso (pc_content (dm_pc ?d) k)"
    "dm_dic d1 = dm_dic ?d" "MaxHandles (pc_c (dm_pc d1)) = MaxHandles (pc_c (dm_pc ?d))"
    using dm_Insert_ok [OF dm n assms(3,4), of x] by (metis (no_types, lifting))
  let ?u = "Address2UUID k off" and ?s1 = "s\<lparr>sm_DM := d1\<rparr>"
  have c: "cache (dm_dic ?d) ?u = None"
  proof (rule ccontr)
    assume "cache (dm_dic ?d) ?u \<noteq> None"
    then have "in_db (dm_pc ?d) k \<and> unat off < fso (pc_content (dm_pc ?d) k)" using dic by (auto simp: dic_ok_def)
    then show False using i(6) by simp
  qed
  then have ce: "cache (sm_ec s) ?u = None" using assms(1) unfolding sm_store_ok_def by blast
  have ins: "sm_Insert x data s = (Ok ?u, ?s1)" using i(1) assms(5,6) by (simp add: sm_Insert_def live_def on_dm_def Let_def)
  show thesis by (rule that [OF ins i(2-5,7,8) c ce])
qed

text \<open>Releasing an entry depends only on the cache and the data manager.\<close>

lemma ReleaseEntry_other:
  assumes "ReleaseEntry e s = (Ok (), s0)" and "sm_ec s1 = sm_ec s" and "sm_DM s1 = sm_DM s"
  shows "\<exists>s'. ReleaseEntry e s1 = (Ok (), s') \<and> sm_lt s' = sm_lt s1 \<and> quiet s1 s'"
proof -
  have "\<exists>s'. ReleaseEntry e s1 = (Ok (), s') \<and> sm_lt s' = sm_lt s1" using assms
    by (auto simp: ReleaseEntry_def sm_releaseForCacher_def on_dm_def sbind_def split: res.splits option.splits prod.splits)
  then show ?thesis using quiet_ReleaseEntry [of s1 e] by (metis snd_conv)
qed

text \<open>The rollback of a transaction that cannot be serialized, in full.\<close>

lemma cannotSR_ok:
  assumes "tx_inv s" and "x \<noteq> SUPER_XID" and "sm_tc s x = Some t" and "\<not> t_AutoAbortted t" and "lt_inv (sm_lt s)" and "x \<notin> waitCh (sm_lt s)"
  obtains s' where "cannotSR x s = (Err ErrCannotSR, s')" "tm_IsAborted (sm_TM s') x" "x2u (sm_lt s') x = None"
    "sm_tc s' x = Some (failed_tx t)" "sm_ec s' = sm_ec s" "sm_DM s' = sm_DM s"
proof -
  have k: "known_xid (sm_TM s) x" and ti: "tm_inv (sm_TM s)"
    using assms(1-3) by (auto simp: tx_inv_def known_xid_def SUPER_XID_def unat_gt_0 Suc_le_eq)
  obtain t' where t': "updateXID x FIELD_TRAN_ABORTED (sm_TM s) = (Ok (), t')" "tm_inv t'" "xidCounter t' = xidCounter (sm_TM s)"
    "statuses t' = (statuses (sm_TM s))[unat x - 1 := FIELD_TRAN_ABORTED]" using updateXID_known [OF ti k] .
  have "length (statuses (sm_TM s)) = unat (xidCounter (sm_TM s))" using ti by (simp add: tm_inv_def statuses_def)
  then have "unat x - 1 < length (statuses (sm_TM s))" using k by (auto simp: known_xid_def)
  then have ab: "tm_IsAborted t' x"
    using checkXID_known [OF t'(2), of x] k t'(3,4) by (simp add: tm_IsAborted_def known_xid_def)
  obtain ws lt where lt: "lt_Remove x (sm_lt s) = Ok (ws, lt)" "x2u lt = (x2u (sm_lt s))(x := None)" using lt_Remove_ok [OF assms(5,6)] by blast
  have "abort x True (set_tx x (\<lambda>t. t\<lparr>t_Err := Some ErrCannotSR\<rparr>) s) =
      (Ok (), set_tx x (\<lambda>t. t\<lparr>t_Err := Some ErrCannotSR\<rparr>) s\<lparr>sm_lt := lt, sm_TM := t'\<rparr>)"
    using assms(3,4) lt(1) t'(1) by (simp add: abort_def set_tx_def sm_unlock_def on_tm_def tm_Abort_def Let_def)
  then have "cannotSR x s = (Err ErrCannotSR, set_tx x (\<lambda>t. t\<lparr>t_AutoAbortted := True\<rparr>) (set_tx x (\<lambda>t. t\<lparr>t_Err := Some ErrCannotSR\<rparr>) s\<lparr>sm_lt := lt, sm_TM := t'\<rparr>))"
    by (simp add: cannotSR_def Let_def)
  then show thesis by (rule that) (use assms(3) ab lt(2) in \<open>simp_all add: set_tx_def failed_tx_def\<close>)
qed

section \<open>Properties\<close>



text \<open>C35. The snapshot can change: \<open>Commit\<close> leaves the table of transactions before it writes the committed status. A transaction that begins
  between the two has a snapshot without the committing one, so a version of that one is invisible to it at first and visible
  once the status is written, although its isolation level promises repeatable reads.\<close>

theorem commit_window_breaks_snapshot:
  assumes "tx_inv s" and "sm_tc s x = Some tx" and "t_Err tx = None" and "x \<noteq> SUPER_XID" and "\<not> tm_IsCommitted (sm_TM s) x"
    and "level \<noteq> 0" and "unat (xidCounter (sm_TM s)) + 17 < 2 ^ 63" and "lt_inv (sm_lt s)" and "x \<notin> waitCh (sm_lt s)"
  shows "\<exists>s1 y s2 s3 s4 t. commit_leave x s = (Ok True, s1) \<and> sm_Begin level s1 = (Ok y, s2) \<and>
     sm_unlock x s2 = (Ok (), s3) \<and> on_tm (tm_Commit x) s3 = (Ok (), s4) \<and> sm_tc s2 y = Some t \<and> sm_tc s4 y = Some t \<and>
     \<not> IsVisible (tm_IsCommitted (sm_TM s2)) t x 0 \<and> IsVisible (tm_IsCommitted (sm_TM s4)) t x 0"
proof -
  let ?s1 = "s\<lparr>sm_tc := (sm_tc s)(x := None)\<rparr>" and ?y = "xidCounter (sm_TM s) + 1"
  have c: "commit_leave x s = (Ok True, ?s1)" using assms(2,3) by (simp add: commit_leave_def)
  have inv1: "tx_inv ?s1" by (rule tx_inv_move [OF assms(1) tx_move_same [OF assms(1), of _ x None]]) (use assms(2) in simp_all)
  obtain s2 where s2: "sm_Begin level ?s1 = (Ok ?y, s2)" "tx_inv s2" "xidCounter (sm_TM s2) = ?y" "sm_lt s2 = sm_lt s"
    "sm_tc s2 = (sm_tc ?s1)(?y \<mapsto> newTransaction ?y level (dom (sm_tc ?s1)))"
    using begin_again [OF inv1] assms(7) by auto
  let ?t = "newTransaction ?y level (dom (sm_tc ?s1))"
  have x: "unat x \<le> unat (xidCounter (sm_TM s))" using assms(1,2) by (auto simp: tx_inv_def)
  have y: "unat ?y = Suc (unat (xidCounter (sm_TM s)))" using assms(7) unat_Suc_small [of "xidCounter (sm_TM s)"] by simp
  have xy: "x < ?y" using x y by (simp add: word_less_nat_alt)
  obtain ws lt where "lt_Remove x (sm_lt s) = Ok (ws, lt)" using lt_Remove_ok [OF assms(8,9)] by blast
  then have u: "sm_unlock x s2 = (Ok (), s2\<lparr>sm_lt := lt\<rparr>)" using s2(4) by (simp add: sm_unlock_def)
  have tm2: "tm_inv (sm_TM s2)" using s2(2) by (simp add: tx_inv_def)
  have k: "known_xid (sm_TM s2) x" using x y s2(3) assms(4) by (auto simp: known_xid_def SUPER_XID_def unat_gt_0 Suc_le_eq)
  obtain t' where t': "updateXID x FIELD_TRAN_COMMITTED (sm_TM s2) = (Ok (), t')" "tm_inv t'" "xidCounter t' = xidCounter (sm_TM s2)"
    "statuses t' = (statuses (sm_TM s2))[unat x - 1 := FIELD_TRAN_COMMITTED]" using updateXID_known [OF tm2 k] .
  let ?s4 = "s2\<lparr>sm_lt := lt, sm_TM := t'\<rparr>"
  have c4: "on_tm (tm_Commit x) (s2\<lparr>sm_lt := lt\<rparr>) = (Ok (), ?s4)" using t'(1) by (simp add: on_tm_def tm_Commit_def)
  have "length (statuses (sm_TM s2)) = unat (xidCounter (sm_TM s2))" using tm2 by (simp add: tm_inv_def statuses_def)
  then have "unat x - 1 < length (statuses (sm_TM s2))" using x y s2(3) by simp
  then have com: "tm_IsCommitted t' x"
    using checkXID_known [OF t'(2), of x] k t'(3,4) by (simp add: tm_IsCommitted_def known_xid_def)
  have "tx_move ?s1 s2" by (rule tx_move_Begin(1) [OF inv1 _ s2(1)]) (use assms(7) in simp)
  then have "tm_IsCommitted (sm_TM s2) x = tm_IsCommitted (sm_TM s) x" using x by (simp add: tx_move_def)
  then have "\<not> IsVisible (tm_IsCommitted (sm_TM s2)) ?t x 0" using assms(5,6) xy by (simp add: IsVisible_def repeatableRead_def newTransaction_def)
  moreover have "IsVisible (tm_IsCommitted (sm_TM ?s4)) ?t x 0"
    using assms(6) xy com by (simp add: IsVisible_def repeatableRead_def newTransaction_def InSnapShot_def)
  ultimately show ?thesis using c s2(1,5) u c4 by (intro exI [of _ ?s1] exI [of _ ?y] exI [of _ s2] exI [of _ "s2\<lparr>sm_lt := lt\<rparr>"] exI [of _ ?s4] exI [of _ ?t]) simp
qed

theorem commit_window_breaks_snapshot_witness:
  "\<exists>s s1 y s2 s3 s4 t. commit_leave 1 s = (Ok True, s1) \<and> sm_Begin 1 s1 = (Ok y, s2) \<and> sm_unlock 1 s2 = (Ok (), s3) \<and>
     on_tm (tm_Commit 1) s3 = (Ok (), s4) \<and> \<not> IsVisible (tm_IsCommitted (sm_TM s2)) t 1 0 \<and> IsVisible (tm_IsCommitted (sm_TM s4)) t 1 0"
proof -
  obtain s where s: "sm_Begin 0 new_sm = (Ok 1, s)" "tx_inv s" "sm_tc s 1 = Some (newTransaction 1 0 (dom (sm_tc new_sm)))" "xidCounter (sm_TM s) = 1" "sm_lt s = NewLockTable"
    using begin_again [OF new_sm_inv(1), of 0] new_sm_inv(2,6) by auto
  obtain t' where t': "tm_Begin (sm_TM new_sm) = (Ok 1, t')" "tm_inv t'" "xidCounter t' = 1" "statuses t' = statuses (sm_TM new_sm) @ [FIELD_TRAN_ACTIVE]"
    using tm_Begin_healthy [of "sm_TM new_sm"] new_sm_inv(1,2) by (auto simp: tx_inv_def)
  have e: "sm_TM s = t'" using s(1) t'(1) by (auto simp: sm_Begin_def on_tm_def Let_def)
  have "known_xid t' 1" using t'(3) by (simp add: known_xid_def)
  moreover have "statuses (sm_TM new_sm) = []" by (simp add: new_sm_def NewSerializabilityManager_def new_tm_def statuses_def)
  ultimately have "\<not> tm_IsCommitted (sm_TM s) 1" using checkXID_known [OF t'(2), of 1] t'(4) e
    by (simp add: tm_IsCommitted_def SUPER_XID_def status_defs)
  with commit_window_breaks_snapshot [OF s(2,3), of 1] s(4,5) lt_inv_New show ?thesis
    by (simp add: newTransaction_def SUPER_XID_def) (simp add: NewLockTable_def, blast)
qed

text \<open>C5. Isolation of inserts: a transaction that inserts a row gets a place for it and reads exactly its data back there; any other
  registered transaction, whatever its isolation level, reads "no such row" there as long as the inserter is not committed, and once the
  inserter is committed a read-committed transaction reads exactly the data.\<close>

theorem insert_isolated:
  assumes "sm_store_ok s eheld held ph ds" and "length data + 19 < NO_INTERVAL * THRESHOLD"
    and "Suc (unat (noPages (dm_pc (sm_DM s)))) < 2 ^ 32" and "Suc (size ph) < unat (MaxHandles (pc_c (dm_pc (sm_DM s))))"
    and "tx_inv s" and "sm_tc s x = Some tx" and "t_Err tx = None" and "x \<noteq> SUPER_XID"
  shows "\<exists>u s1. sm_Insert x data s = (Ok u, s1) \<and>
     (\<exists>s2. sm_Read x u s1 = (Ok (Some data), s2)) \<and>
     (\<forall>y ty tm'. sm_tc s y = Some ty \<and> t_Err ty = None \<and> y \<noteq> x \<longrightarrow>
        (\<not> tm_IsCommitted tm' x \<longrightarrow> (\<exists>s2. sm_Read y u (s1\<lparr>sm_TM := tm'\<rparr>) = (Ok None, s2))) \<and>
        (tm_IsCommitted tm' x \<and> t_Level ty = 0 \<longrightarrow> (\<exists>s2. sm_Read y u (s1\<lparr>sm_TM := tm'\<rparr>) = (Ok (Some data), s2))))"
proof -
  obtain k off d1 where i: "sm_Insert x data s = (Ok (Address2UUID k off), s\<lparr>sm_DM := d1\<rparr>)" "dm_inv d1 ph (ds @ [enc_op (Ins x k off (item_raw 0 (WrapEntryRaw x data)))])"
    "in_db (dm_pc d1) k" "unat off + 3 + length (WrapEntryRaw x data) \<le> PAGE_SIZE"
    "window (pc_content (dm_pc d1) k) (unat off) (3 + length (WrapEntryRaw x data)) = item_raw 0 (WrapEntryRaw x data)"
    "dm_dic d1 = dm_dic (sm_DM s)" "MaxHandles (pc_c (dm_pc d1)) = MaxHandles (pc_c (dm_pc (sm_DM s)))"
    "cache (dm_dic (sm_DM s)) (Address2UUID k off) = None" "cache (sm_ec s) (Address2UUID k off) = None"
    using sm_Insert_stored [OF assms(1-4,6,7)] by metis
  let ?u = "Address2UUID k off" and ?s1 = "s\<lparr>sm_DM := d1\<rparr>"
  have rd: "\<exists>s2. sm_Read y ?u (?s1\<lparr>sm_TM := tm'\<rparr>) = (Ok (if IsVisible (tm_IsCommitted tm') t x 0 then Some data else None), s2)"
    if t: "sm_tc s y = Some t" "t_Err t = None" for y t tm'
    using sm_Read_stored [of "?s1\<lparr>sm_TM := tm'\<rparr>" ph _ k held off eheld x data y t] i(2-) assms(1,4) t
    by (simp add: sm_store_ok_def dic_ok_def)
  have id: "\<And>y t. sm_tc s y = Some t \<Longrightarrow> t_XID t = y" using assms(5) by (auto simp: tx_inv_def)
  have own: "IsVisible c tx x 0" for c using id [OF assms(6)] by (simp add: IsVisible_def readCommitted_def repeatableRead_def)
  have oth: "\<not> c x \<Longrightarrow> \<not> IsVisible c t x 0" "c x \<Longrightarrow> t_Level t = 0 \<Longrightarrow> IsVisible c t x 0" if "sm_tc s y = Some t" "y \<noteq> x" for y t c
    using id [OF that(1)] that(2) by (auto simp: IsVisible_def readCommitted_def repeatableRead_def)
  show ?thesis
  proof (intro exI conjI allI impI)
    show "sm_Insert x data s = (Ok ?u, ?s1)" by (fact i(1))
    show "sm_Read x ?u ?s1 = (Ok (Some data), snd (sm_Read x ?u ?s1))"
      using rd [OF assms(6,7), of "sm_TM s"] own by auto
    fix y ty tm' assume a: "sm_tc s y = Some ty \<and> t_Err ty = None \<and> y \<noteq> x"
    then have r: "\<exists>s2. sm_Read y ?u (?s1\<lparr>sm_TM := tm'\<rparr>) = (Ok (if IsVisible (tm_IsCommitted tm') ty x 0 then Some data else None), s2)"
      using rd by blast
    show "sm_Read y ?u (?s1\<lparr>sm_TM := tm'\<rparr>) = (Ok None, snd (sm_Read y ?u (?s1\<lparr>sm_TM := tm'\<rparr>)))" if "\<not> tm_IsCommitted tm' x"
      using r oth(1) [of y ty "tm_IsCommitted tm'"] that a by auto
    show "sm_Read y ?u (?s1\<lparr>sm_TM := tm'\<rparr>) = (Ok (Some data), snd (sm_Read y ?u (?s1\<lparr>sm_TM := tm'\<rparr>)))" if "tm_IsCommitted tm' x \<and> t_Level ty = 0"
      using r oth(2) [of y ty "tm_IsCommitted tm'"] that a by auto
  qed
qed

theorem insert_isolated_witness:
  "\<exists>s u s1 s2. sm_Begin 0 new_sm = (Ok 1, s) \<and> sm_Insert 1 [5, 6] s = (Ok u, s1) \<and> sm_Read 1 u s1 = (Ok (Some [5, 6]), s2)"
proof -
  obtain s where s: "sm_Begin 0 new_sm = (Ok 1, s)" "tx_inv s" "sm_tc s 1 = Some (newTransaction 1 0 (dom (sm_tc new_sm)))"
    "sm_DM s = new_dm" "sm_ec s = NewCacher 0"
    using begin_again [OF new_sm_inv(1), of 0] new_sm_inv(2,4,5) by auto
  have "sm_store_ok s {#} {#} {#} []" using s(4,5) new_dm_ok(1,2) cacher_inv_New [of 0]
    by (simp add: sm_store_ok_def) (simp add: NewCacher_def)
  from insert_isolated [OF this, of "[5, 6]" 1] s new_dm_ok(3,4) show ?thesis
    by (simp add: newTransaction_def SUPER_XID_def pi_defs) blast
qed

text \<open>C14. First committer wins: when a snapshot transaction gets the lock on a row whose deleter is committed and concurrent with it, \<open>Delete\<close>
  fails with \<open>ErrCannotSR\<close>, the transaction is aborted in the status file and has given back its locks; from then on
  \<open>Insert\<close>, \<open>Read\<close> and \<open>Commit\<close> of it fail with the same error, and \<open>Abort\<close> succeeds and unregisters it without touching the status file.\<close>

theorem first_committer_wins:
  assumes "tx_inv s" and "x \<noteq> SUPER_XID" and "sm_tc s x = Some t" and "t_Level t \<noteq> 0" and "t_Err t = None" and "\<not> t_AutoAbortted t"
    and "rbind (e_Data e s) entry_XMAX = Ok y" and "y \<noteq> x" and "tm_IsCommitted (sm_TM s) y" and "x < y \<or> InSnapShot t y"
    and "lt_inv (sm_lt s)" and "x \<notin> waitCh (sm_lt s)" and "ReleaseEntry e s = (Ok (), s0)"
  shows "\<exists>s'. deleteLocked t e s = (Err ErrCannotSR, s') \<and> tm_IsAborted (sm_TM s') x \<and> x2u (sm_lt s') x = None \<and>
     sm_Insert x data s' = (Err ErrCannotSR, s') \<and> sm_Read x u s' = (Err ErrCannotSR, s') \<and> sm_Commit x s' = (Err ErrCannotSR, s') \<and>
     sm_Abort x s' = (Ok (), s'\<lparr>sm_tc := (sm_tc s')(x := None)\<rparr>)"
proof -
  have x: "t_XID t = x" using assms(1,3) by (auto simp: tx_inv_def)
  obtain s1 where s1: "cannotSR x s = ((Err ErrCannotSR :: bool res), s1)" "tm_IsAborted (sm_TM s1) x" "x2u (sm_lt s1) x = None"
    "sm_tc s1 x = Some (failed_tx t)" "sm_ec s1 = sm_ec s" "sm_DM s1 = sm_DM s"
    using cannotSR_ok [OF assms(1-3,6,11,12)] by metis
  obtain s' where s': "ReleaseEntry e s1 = (Ok (), s')" "sm_lt s' = sm_lt s1" "quiet s1 s'"
    using ReleaseEntry_other [OF assms(13) s1(5,6)] by blast
  have "IsVersionSkip (tm_IsCommitted (sm_TM s)) t y" using assms(4,9,10) x by (simp add: IsVersionSkip_def)
  then have "deleteLocked t e s = (Err ErrCannotSR, s')"
    using assms(3,5,7,8) x s1(1) s'(1) by (simp add: deleteLocked_def deref_def releasing_def)
  moreover have "sm_tc s' x = Some (failed_tx t)" "sm_TM s' = sm_TM s1" using s'(3) s1(4) by (simp_all add: quiet_def)
  ultimately show ?thesis using s1(2,3) s'(2)
    by (simp add: sm_Insert_def sm_Read_def sm_Commit_def commit_leave_def sm_Abort_def abort_def live_def failed_tx_def)
qed

text \<open>Transaction 1 holds a row that transaction 2, younger and committed, has deleted.\<close>

definition conflict_di :: dataitem where
  "conflict_di = \<lparr>di_off = 0, di_len = 19, di_oldraw = [], di_uid = 5, di_pgno = 1\<rparr>"

definition conflict_sm :: serializabilityManager where
  "conflict_sm = new_sm\<lparr>sm_TM := \<lparr>tm_file = \<lparr>fdata = Uint64ToRaw 2 @ [0, 1], fpos = 0, ffault = []\<rparr>, xidCounter = 2\<rparr>,
     sm_DM := new_dm\<lparr>dm_pc := (dm_pc new_dm)\<lparr>pc_c := (pc_c (dm_pc new_dm))\<lparr>cache := [Pgno2UUID 1 \<mapsto>
       \<lparr>pg_pgno = 1, pg_data = [0, 0, 16] @ UUIDToRaw 0 @ UUIDToRaw 2, pg_dirty = False\<rparr>]\<rparr>\<rparr>\<rparr>,
     sm_ec := (NewCacher 0)\<lparr>refs := [5 \<mapsto> 2], cache := [5 \<mapsto> newEntry conflict_di 5]\<rparr>,
     sm_tc := [1 \<mapsto> newTransaction 1 1 {}]\<rparr>"

theorem first_committer_wins_witness:
  "\<exists>s'. deleteLocked (newTransaction 1 1 {}) (newEntry conflict_di 5) conflict_sm = (Err ErrCannotSR, s') \<and> tm_IsAborted (sm_TM s') 1 \<and>
     sm_Commit 1 s' = (Err ErrCannotSR, s')"
proof -
  let ?s = conflict_sm and ?e = "newEntry conflict_di 5"
  have tm: "tm_inv (sm_TM ?s)" by (simp add: conflict_sm_def tm_inv_def)
  have "known_xid (sm_TM ?s) 2" by (simp add: conflict_sm_def known_xid_def)
  from checkXID_known [OF tm this] have com: "tm_IsCommitted (sm_TM ?s) 2"
    by (simp add: tm_IsCommitted_def conflict_sm_def statuses_def status_defs)
  have inv: "tx_inv ?s" using tm
    by (auto simp: tx_inv_def conflict_sm_def newTransaction_def older_def SUPER_XID_def word_less_nat_alt unat_gt_0 split: if_splits)
  have "e_Data ?e ?s = Ok (UUIDToRaw 0 @ UUIDToRaw 2)"
    by (simp add: e_Data_def newEntry_def conflict_di_def conflict_sm_def dm_Data_def item_page_def di_Data_def di_raw_def window_def di_defs)
  then have xm: "rbind (e_Data ?e ?s) entry_XMAX = Ok 2"
    by (simp add: entry_XMAX_def ENTRY_OF_XMAX_def ENTRY_OF_XMIN_def tm_defs ParseXID_def ParseUUID_self)
  obtain s0 where rel: "ReleaseEntry ?e ?s = (Ok (), s0)"
    by (simp add: ReleaseEntry_def newEntry_def c_Release_def conflict_sm_def ref_of_def Let_def)
  have tc: "sm_tc ?s 1 = Some (newTransaction 1 1 {})" by (simp add: conflict_sm_def)
  have lt: "lt_inv (sm_lt ?s)" "1 \<notin> waitCh (sm_lt ?s)" using lt_inv_New new_sm_inv(6) by (simp_all add: conflict_sm_def) (simp add: NewLockTable_def)
  show ?thesis using first_committer_wins [OF inv _ tc _ _ _ xm _ com _ lt rel]
    by (simp add: newTransaction_def SUPER_XID_def word_less_nat_alt) blast
qed

end
