(* ===== verification/Node.thy ===== *)
theory Node
  imports Utils
begin

text \<open>
  The nodes of the B+ tree as byte strings (\<^verbatim>\<open>im/node.go\<close>): a header (leaf flag, number of keys, right sibling) and slots of a son and a
  key, 66 of them. The lemmas relate the byte-level operations to operations on the list of slots in use. Locking, loading
  and the disk are in the theory of the tree.
\<close>

section \<open>Model\<close>

definition IS_LEAF_OFFSET :: nat where "IS_LEAF_OFFSET = 0"
definition NO_KEYS_OFFSET :: nat where "NO_KEYS_OFFSET = IS_LEAF_OFFSET + 1"
definition SIBLING_OFFSET :: nat where "SIBLING_OFFSET = NO_KEYS_OFFSET + 2"
definition NODE_HEADER_SIZE :: nat where "NODE_HEADER_SIZE = SIBLING_OFFSET + LEN_UUID"
definition BALANCE_NUMBER :: nat where "BALANCE_NUMBER = 32"
definition NODE_SIZE :: nat where "NODE_SIZE = NODE_HEADER_SIZE + (2 * LEN_UUID) * (BALANCE_NUMBER * 2 + 2)"

text \<open>\<open>put(raw[off:], v)\<close> and \<open>get(raw[off:])\<close>.\<close>

definition put_from :: "(bytes \<Rightarrow> 'v \<Rightarrow> bytes) \<Rightarrow> bytes \<Rightarrow> nat \<Rightarrow> 'v \<Rightarrow> bytes res" where
  "put_from put raw off v = rbind (go_from raw off) (\<lambda>x. Ok (take off raw @ put x v))"

definition get_from :: "(bytes \<Rightarrow> 'v res) \<Rightarrow> bytes \<Rightarrow> nat \<Rightarrow> 'v res" where
  "get_from get raw off = rbind (go_from raw off) get"

definition setRawIsLeaf :: "bytes \<Rightarrow> bool \<Rightarrow> bytes res" where
  "setRawIsLeaf raw isLeaf = (if isLeaf then set_at raw IS_LEAF_OFFSET 1 else set_at raw IS_LEAF_OFFSET 0)"

definition getRawIsLeaf :: "bytes \<Rightarrow> bool res" where
  "getRawIsLeaf raw = rbind (go_index raw IS_LEAF_OFFSET) (\<lambda>b. Ok (b = 1))"

definition setRawNoKeys :: "bytes \<Rightarrow> nat \<Rightarrow> bytes res" where
  "setRawNoKeys raw noKeys = put_from PutUint16 raw NO_KEYS_OFFSET (of_nat noKeys)"

definition getRawNoKeys :: "bytes \<Rightarrow> nat res" where
  "getRawNoKeys raw = rbind (get_from ParseUint16 raw NO_KEYS_OFFSET) (\<lambda>n. Ok (unat n))"

definition setRawSibling :: "bytes \<Rightarrow> UUID \<Rightarrow> bytes res" where
  "setRawSibling raw sibling = put_from PutUUID raw SIBLING_OFFSET sibling"

definition getRawSibling :: "bytes \<Rightarrow> UUID res" where
  "getRawSibling raw = get_from ParseUUID raw SIBLING_OFFSET"

definition setRawKthSon :: "bytes \<Rightarrow> UUID \<Rightarrow> nat \<Rightarrow> bytes res" where
  "setRawKthSon raw uid kth = (let offset = NODE_HEADER_SIZE + kth * (LEN_UUID * 2) in put_from PutUUID raw offset uid)"

definition getRawKthSon :: "bytes \<Rightarrow> nat \<Rightarrow> UUID res" where
  "getRawKthSon raw kth = (let offset = NODE_HEADER_SIZE + kth * (LEN_UUID * 2) in get_from ParseUUID raw offset)"

definition setRawKthKey :: "bytes \<Rightarrow> UUID \<Rightarrow> nat \<Rightarrow> bytes res" where
  "setRawKthKey raw key kth = (let offset = NODE_HEADER_SIZE + kth * (LEN_UUID * 2) + LEN_UUID in put_from PutUUID raw offset key)"

definition getRawKthKey :: "bytes \<Rightarrow> nat \<Rightarrow> UUID res" where
  "getRawKthKey raw kth = (let offset = NODE_HEADER_SIZE + kth * (LEN_UUID * 2) + LEN_UUID in get_from ParseUUID raw offset)"

text \<open>The new contents of the second buffer.\<close>

definition copyRawFromKth :: "bytes \<Rightarrow> bytes \<Rightarrow> nat \<Rightarrow> bytes res" where
  "copyRawFromKth src dst kth =
     (let offset = NODE_HEADER_SIZE + kth * (LEN_UUID * 2) in
      rbind (go_from src offset) (\<lambda>x. copy_at dst NODE_HEADER_SIZE x))"

text \<open>The loop of \<open>shiftRawKth\<close>, from \<open>i\<close> down to \<open>begin\<close>: \<open>n\<close> rounds are left.\<close>

fun shiftLoop :: "nat \<Rightarrow> nat \<Rightarrow> bytes \<Rightarrow> bytes res" where
  "shiftLoop 0 i raw = Ok raw"
| "shiftLoop (Suc n) i raw =
     rbind (go_index raw (i - LEN_UUID * 2)) (\<lambda>b. rbind (set_at raw i b) (\<lambda>raw. shiftLoop n (i - 1) raw))"

definition shiftRawKth :: "bytes \<Rightarrow> nat \<Rightarrow> bytes res" where
  "shiftRawKth raw kth =
     (let first = NODE_HEADER_SIZE + (kth + 1) * (LEN_UUID * 2); last_i = NODE_SIZE - 1
      in shiftLoop (last_i + 1 - first) last_i raw)"

definition newRootRaw :: "UUID \<Rightarrow> UUID \<Rightarrow> UUID \<Rightarrow> bytes res" where
  "newRootRaw left right key =
     rbind (setRawIsLeaf (replicate NODE_SIZE 0) False) (\<lambda>raw.
     rbind (setRawNoKeys raw 2) (\<lambda>raw.
     rbind (setRawSibling raw NilUUID) (\<lambda>raw.
     rbind (setRawKthSon raw left 0) (\<lambda>raw.
     rbind (setRawKthKey raw key 0) (\<lambda>raw.
     rbind (setRawKthSon raw right 1) (\<lambda>raw. setRawKthKey raw UUID_INF 1))))))"

definition newNilRootRaw :: "bytes res" where
  "newNilRootRaw =
     rbind (setRawIsLeaf (replicate NODE_SIZE 0) True) (\<lambda>raw.
     rbind (setRawNoKeys raw 0) (\<lambda>raw. setRawSibling raw NilUUID))"

text \<open>\<open>SearchNext\<close>: the loop from \<open>i\<close>, with \<open>n\<close> rounds left.\<close>

fun searchNextLoop :: "bytes \<Rightarrow> UUID \<Rightarrow> nat \<Rightarrow> nat \<Rightarrow> (UUID \<times> UUID) res" where
  "searchNextLoop raw key 0 i = rbind (getRawSibling raw) (\<lambda>sib. Ok (NilUUID, sib))"
| "searchNextLoop raw key (Suc n) i =
     rbind (getRawKthKey raw i) (\<lambda>ik.
     if key < ik then rbind (getRawKthSon raw i) (\<lambda>son. Ok (son, NilUUID)) else searchNextLoop raw key n (i + 1))"

definition node_SearchNext :: "bytes \<Rightarrow> UUID \<Rightarrow> (UUID \<times> UUID) res" where
  "node_SearchNext raw key = rbind (getRawNoKeys raw) (\<lambda>noKeys. searchNextLoop raw key noKeys 0)"

text \<open>The first slot from \<open>kth\<close> on whose key is at least \<open>key\<close>, and the sons of the following slots with keys at most
  \<open>rightKey\<close>.\<close>

fun firstAtLeast :: "bytes \<Rightarrow> UUID \<Rightarrow> nat \<Rightarrow> nat \<Rightarrow> nat res" where
  "firstAtLeast raw key 0 kth = Ok kth"
| "firstAtLeast raw key (Suc n) kth =
     rbind (getRawKthKey raw kth) (\<lambda>ik. if key \<le> ik then Ok kth else firstAtLeast raw key n (kth + 1))"

fun collect :: "bytes \<Rightarrow> UUID \<Rightarrow> nat \<Rightarrow> nat \<Rightarrow> UUID list \<Rightarrow> (UUID list \<times> nat) res" where
  "collect raw rightKey 0 kth uuids = Ok (uuids, kth)"
| "collect raw rightKey (Suc n) kth uuids =
     rbind (getRawKthKey raw kth) (\<lambda>ik.
     if ik \<le> rightKey then rbind (getRawKthSon raw kth) (\<lambda>son. collect raw rightKey n (kth + 1) (uuids @ [son]))
     else Ok (uuids, kth))"

definition node_LeafSearchRange :: "bytes \<Rightarrow> UUID \<Rightarrow> UUID \<Rightarrow> (UUID list \<times> UUID) res" where
  "node_LeafSearchRange raw leftKey rightKey =
     rbind (getRawNoKeys raw) (\<lambda>noKeys.
     rbind (firstAtLeast raw leftKey noKeys 0) (\<lambda>kth.
     rbind (collect raw rightKey (noKeys - kth) kth []) (\<lambda>(uuids, kth).
     if kth = noKeys then rbind (getRawSibling raw) (\<lambda>sib. Ok (uuids, sib)) else Ok (uuids, NilUUID))))"

text \<open>\<open>insert\<close>: whether the pair belongs into this node, and the node's new bytes.\<close>

definition node_insert :: "UUID \<Rightarrow> UUID \<Rightarrow> bytes \<Rightarrow> (bool \<times> bytes) res" where
  "node_insert uuid key raw =
     rbind (getRawNoKeys raw) (\<lambda>noKeys.
     rbind (firstAtLeast raw key noKeys 0) (\<lambda>kth.
     rbind (if kth = noKeys then rbind (getRawSibling raw) (\<lambda>sib. Ok (sib \<noteq> NilUUID)) else Ok False) (\<lambda>right.
     if right then Ok (False, raw)
     else rbind (getRawIsLeaf raw) (\<lambda>leaf.
       if leaf then
         rbind (shiftRawKth raw kth) (\<lambda>raw.
         rbind (setRawKthKey raw key kth) (\<lambda>raw.
         rbind (setRawKthSon raw uuid kth) (\<lambda>raw.
         rbind (setRawNoKeys raw (noKeys + 1)) (\<lambda>raw. Ok (True, raw)))))
       else
         rbind (getRawKthKey raw kth) (\<lambda>kk.
         rbind (setRawKthKey raw key kth) (\<lambda>raw.
         rbind (shiftRawKth raw (kth + 1)) (\<lambda>raw.
         rbind (setRawKthKey raw kk (kth + 1)) (\<lambda>raw.
         rbind (setRawKthSon raw uuid (kth + 1)) (\<lambda>raw.
         rbind (setRawNoKeys raw (noKeys + 1)) (\<lambda>raw. Ok (True, raw)))))))))))"

definition needSplit :: "bytes \<Rightarrow> bool res" where
  "needSplit raw = rbind (getRawNoKeys raw) (\<lambda>n. Ok (BALANCE_NUMBER * 2 = n))"

text \<open>\<open>split\<close> before and after the new node is stored: the bytes of the new node, and of this one.\<close>

definition splitNew :: "bytes \<Rightarrow> bytes res" where
  "splitNew raw =
     rbind (getRawIsLeaf raw) (\<lambda>leaf.
     rbind (setRawIsLeaf (replicate NODE_SIZE 0) leaf) (\<lambda>nodeRaw.
     rbind (setRawNoKeys nodeRaw BALANCE_NUMBER) (\<lambda>nodeRaw.
     rbind (getRawSibling raw) (\<lambda>sib.
     rbind (setRawSibling nodeRaw sib) (\<lambda>nodeRaw. copyRawFromKth raw nodeRaw BALANCE_NUMBER)))))"

definition splitOld :: "bytes \<Rightarrow> UUID \<Rightarrow> bytes res" where
  "splitOld raw son = rbind (setRawNoKeys raw BALANCE_NUMBER) (\<lambda>raw. setRawSibling raw son)"

section \<open>Fields and slots\<close>

text \<open>The fields of a node of the right size, read off its bytes, and the list of slots in use.\<close>

definition leafAt :: "bytes \<Rightarrow> bool" where "leafAt raw = (raw ! 0 = 1)"
definition noKeysAt :: "bytes \<Rightarrow> nat" where "noKeysAt raw = be_val (window raw 1 2)"
definition siblingAt :: "bytes \<Rightarrow> UUID" where "siblingAt raw = of_nat (be_val (window raw 3 8))"
definition sonAt :: "bytes \<Rightarrow> nat \<Rightarrow> UUID" where "sonAt raw i = of_nat (be_val (window raw (11 + 16 * i) 8))"
definition keyAt :: "bytes \<Rightarrow> nat \<Rightarrow> UUID" where "keyAt raw i = of_nat (be_val (window raw (19 + 16 * i) 8))"

definition slots :: "bytes \<Rightarrow> (UUID \<times> UUID) list" where
  "slots raw = map (\<lambda>i. (sonAt raw i, keyAt raw i)) [0..<noKeysAt raw]"

definition node_ok :: "bytes \<Rightarrow> bool" where
  "node_ok raw \<longleftrightarrow> length raw = NODE_SIZE \<and> noKeysAt raw \<le> 64"

lemmas node_defs = IS_LEAF_OFFSET_def NO_KEYS_OFFSET_def SIBLING_OFFSET_def NODE_HEADER_SIZE_def BALANCE_NUMBER_def NODE_SIZE_def
  LEN_UUID_def
lemmas field_defs = leafAt_def noKeysAt_def siblingAt_def sonAt_def keyAt_def

lemma node_consts: "IS_LEAF_OFFSET = 0" "NO_KEYS_OFFSET = 1" "SIBLING_OFFSET = 3" "NODE_HEADER_SIZE = 11" "BALANCE_NUMBER = 32"
  "NODE_SIZE = 1067" "LEN_UUID = 8"
  by (simp_all add: node_defs)

lemma NODE_SIZE_eq: "NODE_SIZE = 1067" by (simp add: node_consts)

lemma length_slots [simp]: "length (slots raw) = noKeysAt raw" by (simp add: slots_def)

lemma slots_nth [simp]: "i < noKeysAt raw \<Longrightarrow> slots raw ! i = (sonAt raw i, keyAt raw i)" by (simp add: slots_def)

lemma window_drop: "window (drop a xs) 0 n = window xs a n" by (simp add: window_def)

lemma getters:
  assumes "length raw = NODE_SIZE"
  shows "getRawIsLeaf raw = Ok (leafAt raw)" "getRawNoKeys raw = Ok (noKeysAt raw)" "getRawSibling raw = Ok (siblingAt raw)"
    "i < 66 \<Longrightarrow> getRawKthSon raw i = Ok (sonAt raw i)" "i < 66 \<Longrightarrow> getRawKthKey raw i = Ok (keyAt raw i)"
proof -
  have l: "length raw = 1067" using assms by (simp add: NODE_SIZE_eq)
  have g8: "get_from ParseUUID raw off = Ok (of_nat (be_val (window raw off 8)))" if "off + 8 \<le> length raw" for off
    using that GetUint_window(3) [of "drop off raw"] by (simp add: get_from_def ParseUUID_def ParseUint64_def window_drop)
  have "be_val (window raw 1 2) < 2 ^ 16" using be_val_bound [of "window raw 1 2"] l by simp
  then show "getRawNoKeys raw = Ok (noKeysAt raw)"
    using GetUint_window(1) [of "drop 1 raw"] l
    by (simp add: getRawNoKeys_def get_from_def ParseUint16_def window_drop noKeysAt_def node_consts unat_of_nat take_bit_nat_eq_self)
  show "getRawIsLeaf raw = Ok (leafAt raw)" using l by (simp add: getRawIsLeaf_def leafAt_def node_consts)
  show "getRawSibling raw = Ok (siblingAt raw)" using l g8 by (simp add: getRawSibling_def siblingAt_def node_consts)
  show "i < 66 \<Longrightarrow> getRawKthSon raw i = Ok (sonAt raw i)"
    using l g8 [of "11 + 16 * i"] by (simp add: getRawKthSon_def sonAt_def node_consts Let_def mult.commute)
  show "i < 66 \<Longrightarrow> getRawKthKey raw i = Ok (keyAt raw i)"
    using l g8 [of "19 + 16 * i"] by (simp add: getRawKthKey_def keyAt_def node_consts Let_def mult.commute)
qed

lemma be_val8: "of_nat (be_val (be_bytes 8 (unat (v :: UUID)))) = v"
  using unat_less_256_pow(3) [of v] by (simp add: be_val_be_bytes)

lemma put_uuid: "off + 8 \<le> length raw \<Longrightarrow> put_from PutUUID raw off v = Ok (overwrite raw off (be_bytes 8 (unat v)))"
  by (simp add: put_from_def PutUUID_def PutUint64_def buf_write_overwrite)

lemma setKey:
  assumes "length raw = NODE_SIZE" and "i < 66"
  obtains raw' where "setRawKthKey raw v i = Ok raw'" "length raw' = NODE_SIZE" "leafAt raw' = leafAt raw" "noKeysAt raw' = noKeysAt raw"
    "siblingAt raw' = siblingAt raw" "sonAt raw' = sonAt raw" "keyAt raw' = (keyAt raw)(i := v)"
proof -
  let ?o = "19 + 16 * i" and ?b = "be_bytes 8 (unat v)"
  let ?r = "overwrite raw ?o ?b"
  have l: "length raw = 1067" using assms by (simp add: NODE_SIZE_eq)
  have fit: "?o + length ?b \<le> length raw" using l assms(2) by simp
  have w: "window ?r a n = window raw a n" if "a + n \<le> ?o \<or> ?o + 8 \<le> a" for a n
    using window_disjoint [OF fit, of a n] that by simp
  have "setRawKthKey raw v i = Ok ?r" using put_uuid [of ?o raw v] fit by (simp add: setRawKthKey_def node_consts Let_def mult.commute)
  moreover have "length ?r = NODE_SIZE" using fit assms by simp
  moreover have "leafAt ?r = leafAt raw" using l fit by (simp add: leafAt_def nth_overwrite)
  moreover have "noKeysAt ?r = noKeysAt raw" "siblingAt ?r = siblingAt raw" using w by (simp_all add: noKeysAt_def siblingAt_def)
  moreover have "sonAt ?r j = sonAt raw j" for j
    using w [of "11 + 16 * j" 8] by (cases "j \<le> i") (simp_all add: sonAt_def)
  moreover have "keyAt ?r j = ((keyAt raw)(i := v)) j" for j
    using w [of "19 + 16 * j" 8] window_same [OF fit] be_val8 [of v] by (cases j i rule: linorder_cases) (simp_all add: keyAt_def)
  ultimately show thesis using that [of ?r] by blast
qed

lemma setSon:
  assumes "length raw = NODE_SIZE" and "i < 66"
  obtains raw' where "setRawKthSon raw v i = Ok raw'" "length raw' = NODE_SIZE" "leafAt raw' = leafAt raw" "noKeysAt raw' = noKeysAt raw"
    "siblingAt raw' = siblingAt raw" "sonAt raw' = (sonAt raw)(i := v)" "keyAt raw' = keyAt raw"
proof -
  let ?o = "11 + 16 * i" and ?b = "be_bytes 8 (unat v)"
  let ?r = "overwrite raw ?o ?b"
  have l: "length raw = 1067" using assms by (simp add: NODE_SIZE_eq)
  have fit: "?o + length ?b \<le> length raw" using l assms(2) by simp
  have w: "window ?r a n = window raw a n" if "a + n \<le> ?o \<or> ?o + 8 \<le> a" for a n
    using window_disjoint [OF fit, of a n] that by simp
  have "setRawKthSon raw v i = Ok ?r" using put_uuid [of ?o raw v] fit by (simp add: setRawKthSon_def node_consts Let_def mult.commute)
  moreover have "length ?r = NODE_SIZE" using fit assms by simp
  moreover have "leafAt ?r = leafAt raw" using l fit by (simp add: leafAt_def nth_overwrite)
  moreover have "noKeysAt ?r = noKeysAt raw" "siblingAt ?r = siblingAt raw" using w by (simp_all add: noKeysAt_def siblingAt_def)
  moreover have "keyAt ?r j = keyAt raw j" for j
    using w [of "19 + 16 * j" 8] by (cases "j < i") (simp_all add: keyAt_def)
  moreover have "sonAt ?r j = ((sonAt raw)(i := v)) j" for j
    using w [of "11 + 16 * j" 8] window_same [OF fit] be_val8 [of v] by (cases j i rule: linorder_cases) (simp_all add: sonAt_def)
  ultimately show thesis using that [of ?r] by blast
qed

lemma setNoKeys:
  assumes "length raw = NODE_SIZE" and "n < 2 ^ 16"
  obtains raw' where "setRawNoKeys raw n = Ok raw'" "length raw' = NODE_SIZE" "leafAt raw' = leafAt raw" "noKeysAt raw' = n"
    "siblingAt raw' = siblingAt raw" "sonAt raw' = sonAt raw" "keyAt raw' = keyAt raw"
proof -
  let ?b = "be_bytes 2 n"
  let ?r = "overwrite raw 1 ?b"
  have l: "length raw = 1067" using assms by (simp add: NODE_SIZE_eq)
  have fit: "1 + length ?b \<le> length raw" using l by simp
  have w: "window ?r a k = window raw a k" if "3 \<le> a" for a k using window_disjoint [OF fit, of a k] that by simp
  have "unat (of_nat n :: uint16) = n" using assms(2) by (simp add: unat_of_nat take_bit_nat_eq_self)
  then have "setRawNoKeys raw n = Ok ?r"
    using fit buf_write_overwrite [of 1 ?b raw] by (simp add: setRawNoKeys_def put_from_def PutUint16_def node_consts)
  moreover have "length ?r = NODE_SIZE" using fit assms by simp
  moreover have "leafAt ?r = leafAt raw" using l fit by (simp add: leafAt_def nth_overwrite)
  moreover have "noKeysAt ?r = n" using window_same [OF fit] assms(2) by (simp add: noKeysAt_def be_val_be_bytes)
  moreover have "siblingAt ?r = siblingAt raw" "sonAt ?r = sonAt raw" "keyAt ?r = keyAt raw"
    using w by (simp_all add: siblingAt_def sonAt_def keyAt_def fun_eq_iff)
  ultimately show thesis by (rule that)
qed

lemma setSibling:
  assumes "length raw = NODE_SIZE"
  obtains raw' where "setRawSibling raw v = Ok raw'" "length raw' = NODE_SIZE" "leafAt raw' = leafAt raw" "noKeysAt raw' = noKeysAt raw"
    "siblingAt raw' = v" "sonAt raw' = sonAt raw" "keyAt raw' = keyAt raw"
proof -
  let ?b = "be_bytes 8 (unat v)"
  let ?r = "overwrite raw 3 ?b"
  have l: "length raw = 1067" using assms by (simp add: NODE_SIZE_eq)
  have fit: "3 + length ?b \<le> length raw" using l by simp
  have w: "window ?r a k = window raw a k" if "11 \<le> a \<or> a + k \<le> 3" for a k using window_disjoint [OF fit, of a k] that by auto
  have "setRawSibling raw v = Ok ?r" using put_uuid [of 3 raw v] fit by (simp add: setRawSibling_def node_consts)
  moreover have "length ?r = NODE_SIZE" using fit assms by simp
  moreover have "leafAt ?r = leafAt raw" using l fit by (simp add: leafAt_def nth_overwrite)
  moreover have "siblingAt ?r = v" using window_same [OF fit] be_val8 [of v] by (simp add: siblingAt_def)
  moreover have "noKeysAt ?r = noKeysAt raw" "sonAt ?r = sonAt raw" "keyAt ?r = keyAt raw"
    using w by (simp_all add: noKeysAt_def sonAt_def keyAt_def fun_eq_iff)
  ultimately show thesis using that by blast
qed

lemma setLeaf:
  assumes "length raw = NODE_SIZE"
  obtains raw' where "setRawIsLeaf raw b = Ok raw'" "length raw' = NODE_SIZE" "leafAt raw' = b" "noKeysAt raw' = noKeysAt raw"
    "siblingAt raw' = siblingAt raw" "sonAt raw' = sonAt raw" "keyAt raw' = keyAt raw"
proof -
  let ?r = "raw[0 := (if b then 1 else 0)]"
  have l: "length raw = 1067" using assms by (simp add: NODE_SIZE_eq)
  have w: "window ?r a k = window raw a k" if "1 \<le> a" for a k using that by (simp add: window_def drop_update_cancel)
  have "setRawIsLeaf raw b = Ok ?r" using l by (simp add: setRawIsLeaf_def set_at_def node_consts)
  moreover have "leafAt ?r = b" using l by (simp add: leafAt_def)
  moreover have "noKeysAt ?r = noKeysAt raw" "siblingAt ?r = siblingAt raw" "sonAt ?r = sonAt raw" "keyAt ?r = keyAt raw"
    using w by (simp_all add: noKeysAt_def siblingAt_def sonAt_def keyAt_def fun_eq_iff)
  ultimately show thesis using that [of ?r] assms by simp
qed

section \<open>Shifting\<close>

lemma shiftLoop_nth:
  assumes "i < length raw" and "n + 16 \<le> i + 1"
  shows "\<exists>raw'. shiftLoop n i raw = Ok raw' \<and> length raw' = length raw \<and>
     (\<forall>p < length raw. raw' ! p = (if i < p + n \<and> p \<le> i then raw ! (p - 16) else raw ! p))"
  using assms
proof (induction n arbitrary: i raw)
  case (Suc n)
  let ?r = "raw[i := raw ! (i - 16)]"
  have "i - 1 < length ?r" "n + 16 \<le> (i - 1) + 1" using Suc.prems by simp_all
  from Suc.IH [OF this] obtain raw' where r: "shiftLoop n (i - 1) ?r = Ok raw'" "length raw' = length raw"
    "\<And>p. p < length raw \<Longrightarrow> raw' ! p = (if i - 1 < p + n \<and> p \<le> i - 1 then ?r ! (p - 16) else ?r ! p)" by auto
  have s: "shiftLoop (Suc n) i raw = Ok raw'" using Suc.prems r(1) by (simp add: set_at_def LEN_UUID_def)
  have "raw' ! p = (if i < p + Suc n \<and> p \<le> i then raw ! (p - 16) else raw ! p)" if "p < length raw" for p
    using r(3) [OF that] Suc.prems that by (cases "p = i") (auto simp: nth_list_update)
  then show ?case using s r(2) by blast
qed auto

lemma shiftKth:
  assumes "length raw = NODE_SIZE" and "k < 65"
  obtains raw' where "shiftRawKth raw k = Ok raw'" "length raw' = NODE_SIZE" "leafAt raw' = leafAt raw" "noKeysAt raw' = noKeysAt raw"
    "siblingAt raw' = siblingAt raw" "\<And>j. j < 66 \<Longrightarrow> sonAt raw' j = (if j \<le> k then sonAt raw j else sonAt raw (j - 1))"
    "\<And>j. j < 66 \<Longrightarrow> keyAt raw' j = (if j \<le> k then keyAt raw j else keyAt raw (j - 1))"
proof -
  let ?b = "11 + 16 * (k + 1)"
  have l: "length raw = 1067" using assms by (simp add: NODE_SIZE_eq)
  obtain raw' where r: "shiftLoop (1067 - ?b) 1066 raw = Ok raw'" "length raw' = length raw"
    "\<And>p. p < length raw \<Longrightarrow> raw' ! p = (if 1066 < p + (1067 - ?b) \<and> p \<le> 1066 then raw ! (p - 16) else raw ! p)"
  proof -
    have "1067 - ?b + 16 \<le> 1066 + 1" by arith
    then show thesis using shiftLoop_nth [of 1066 raw "1067 - ?b"] l that by auto
  qed
  have n: "raw' ! p = (if ?b \<le> p then raw ! (p - 16) else raw ! p)" if "p < 1067" for p
    using r(3) [of p] l that assms(2) by auto
  have lo: "window raw' a m = window raw a m" if "a + m \<le> ?b" for a m
    by (rule nth_equalityI) (use that r(2) l assms(2) n in auto)
  have hi: "window raw' (a + 16) m = window raw a m" if "?b \<le> a + 16" "a + 16 + m \<le> 1067" for a m
    by (rule nth_equalityI) (use that r(2) l n in auto)
  have "shiftRawKth raw k = Ok raw'" using r(1) by (simp add: shiftRawKth_def node_consts Let_def algebra_simps)
  moreover have "length raw' = NODE_SIZE" using r(2) assms by simp
  moreover have "leafAt raw' = leafAt raw" using n [of 0] by (simp add: leafAt_def)
  moreover have "noKeysAt raw' = noKeysAt raw" "siblingAt raw' = siblingAt raw" using lo by (simp_all add: noKeysAt_def siblingAt_def)
  moreover have "sonAt raw' j = (if j \<le> k then sonAt raw j else sonAt raw (j - 1))" if "j < 66" for j
    using lo [of "11 + 16 * j" 8] hi [of "11 + 16 * (j - 1)" 8] that
    by (cases "j \<le> k"; cases j) (simp_all add: sonAt_def add.commute)
  moreover have "keyAt raw' j = (if j \<le> k then keyAt raw j else keyAt raw (j - 1))" if "j < 66" for j
    using lo [of "19 + 16 * j" 8] hi [of "19 + 16 * (j - 1)" 8] that
    by (cases "j \<le> k"; cases j) (simp_all add: keyAt_def add.commute)
  ultimately show thesis using that by blast
qed

section \<open>Scans\<close>

lemma firstAtLeast_scan:
  assumes "length raw = NODE_SIZE" and "i + n \<le> 66"
  shows "firstAtLeast raw key n i = Ok (i + length (takeWhile (\<lambda>e. snd e < key) (map (\<lambda>j. (sonAt raw j, keyAt raw j)) [i..<i + n])))"
  using assms(2)
proof (induction n arbitrary: i)
  case (Suc n)
  have u: "[i..<Suc (i + n)] = i # [Suc i..<Suc (i + n)]" by (rule upt_conv_Cons) simp
  show ?case using Suc.IH [of "i + 1"] Suc.prems by (auto simp: getters [OF assms(1)] u simp del: upt.simps)
qed simp

lemma firstAtLeast_slots:
  assumes "node_ok raw"
  shows "firstAtLeast raw key (noKeysAt raw) 0 = Ok (length (takeWhile (\<lambda>e. snd e < key) (slots raw)))"
  using assms firstAtLeast_scan [of raw 0 "noKeysAt raw" key] by (simp add: node_ok_def slots_def)

lemma collect_scan:
  assumes "length raw = NODE_SIZE" and "i + n \<le> 66"
  shows "collect raw r n i us = (let es = takeWhile (\<lambda>e. snd e \<le> r) (map (\<lambda>j. (sonAt raw j, keyAt raw j)) [i..<i + n]) in
     Ok (us @ map fst es, i + length es))"
  using assms(2)
proof (induction n arbitrary: i us)
  case (Suc n)
  have u: "[i..<Suc (i + n)] = i # [Suc i..<Suc (i + n)]" by (rule upt_conv_Cons) simp
  show ?case using Suc.IH [of "i + 1" "us @ [sonAt raw i]"] Suc.prems by (auto simp: getters [OF assms(1)] u Let_def simp del: upt.simps)
qed simp

lemma searchNextLoop_scan:
  assumes "length raw = NODE_SIZE" and "i + n \<le> 66"
  shows "searchNextLoop raw key n i =
     (case find (\<lambda>e. key < snd e) (map (\<lambda>j. (sonAt raw j, keyAt raw j)) [i..<i + n]) of
        None \<Rightarrow> Ok (NilUUID, siblingAt raw) | Some e \<Rightarrow> Ok (fst e, NilUUID))"
  using assms(2)
proof (induction n arbitrary: i)
  case 0 show ?case by (simp add: getters [OF assms(1)])
next
  case (Suc n)
  have u: "[i..<Suc (i + n)] = i # [Suc i..<Suc (i + n)]" by (rule upt_conv_Cons) simp
  show ?case using Suc.IH [of "i + 1"] Suc.prems by (auto simp: getters [OF assms(1)] u simp del: upt.simps)
qed

lemma SearchNext_slots:
  assumes "node_ok raw"
  shows "node_SearchNext raw key = (case find (\<lambda>e. key < snd e) (slots raw) of
     None \<Rightarrow> Ok (NilUUID, siblingAt raw) | Some e \<Rightarrow> Ok (fst e, NilUUID))"
  using assms searchNextLoop_scan [of raw 0 "noKeysAt raw" key] by (simp add: node_ok_def node_SearchNext_def getters slots_def)

lemma takeWhile_sorted:
  assumes "sorted (map snd es)"
  shows "takeWhile (\<lambda>e. snd e \<le> (r :: 'a :: linorder)) (drop (length (takeWhile (\<lambda>e. snd e < l)  es)) es) = filter (\<lambda>e. l \<le> snd e \<and> snd e \<le> r) es"
  using assms
proof (induction es)
  case (Cons e es)
  show ?case
  proof (cases "snd e < l")
    case True
    then show ?thesis using Cons by auto
  next
    case False
    then have ge: "\<And>x. x \<in> set es \<Longrightarrow> l \<le> snd x" using Cons.prems by force
    then have "length (takeWhile (\<lambda>e. snd e < l) es) = 0" by (cases es) (auto simp: not_less [symmetric])
    then have "takeWhile (\<lambda>e. snd e \<le> r) es = filter (\<lambda>e. l \<le> snd e \<and> snd e \<le> r) es" using Cons by simp
    moreover have "filter (\<lambda>e. l \<le> snd e \<and> snd e \<le> r) es = []" if "\<not> snd e \<le> r" using that Cons.prems by (force simp: filter_empty_conv)
    ultimately show ?thesis using False by auto
  qed
qed simp

lemma takeWhile_all_length: "length (takeWhile P xs) = length xs \<longleftrightarrow> (\<forall>x \<in> set xs. P x)"
  by (induction xs) auto

text \<open>The sons with keys in the range, and the sibling when the range may go on there.\<close>

lemma LeafSearchRange_slots:
  assumes "node_ok raw" and "sorted (map snd (slots raw))" and "l \<le> r"
  shows "node_LeafSearchRange raw l r = Ok (map fst (filter (\<lambda>e. l \<le> snd e \<and> snd e \<le> r) (slots raw)),
     if \<forall>e \<in> set (slots raw). snd e \<le> r then siblingAt raw else NilUUID)"
proof -
  let ?es = "slots raw" and ?n = "noKeysAt raw"
  let ?k = "length (takeWhile (\<lambda>e. snd e < l) ?es)"
  let ?f = "filter (\<lambda>e. l \<le> snd e \<and> snd e \<le> r) ?es"
  have len: "length raw = NODE_SIZE" "?n \<le> 64" using assms(1) by (simp_all add: node_ok_def)
  have k: "?k \<le> ?n" using length_takeWhile_le [of "\<lambda>e. snd e < l" ?es] by simp
  then have "map (\<lambda>j. (sonAt raw j, keyAt raw j)) [?k..<?k + (?n - ?k)] = drop ?k ?es" by (simp add: slots_def drop_map)
  then have c: "collect raw r (?n - ?k) ?k [] = Ok (map fst ?f, ?k + length ?f)"
    using collect_scan [OF len(1), of ?k "?n - ?k" r "[]"] takeWhile_sorted [OF assms(2), of r l] k len(2) by (simp add: Let_def)
  have "takeWhile (\<lambda>e. snd e < l) ?es @ ?f = takeWhile (\<lambda>e. snd e \<le> r) ?es"
  proof -
    have "?es = takeWhile (\<lambda>e. snd e < l) ?es @ drop ?k ?es" by (metis dropWhile_eq_drop takeWhile_dropWhile_id)
    then have "takeWhile (\<lambda>e. snd e \<le> r) ?es = takeWhile (\<lambda>e. snd e < l) ?es @ takeWhile (\<lambda>e. snd e \<le> r) (drop ?k ?es)"
      using assms(3) by (subst (1) \<open>?es = _\<close>, subst takeWhile_append2) (auto dest!: set_takeWhileD)
    then show ?thesis using takeWhile_sorted [OF assms(2)] by simp
  qed
  then have e: "?k + length ?f = length (takeWhile (\<lambda>e. snd e \<le> r) ?es)" by (metis length_append)
  have "length (takeWhile (\<lambda>e. snd e \<le> r) ?es) = length ?es \<longleftrightarrow> (\<forall>e \<in> set ?es. snd e \<le> r)"
    by (rule takeWhile_all_length)
  then show ?thesis using c e len firstAtLeast_slots [OF assms(1)]
    by (simp add: node_LeafSearchRange_def getters)
qed

section \<open>Insertion and splitting\<close>

text \<open>Where a key goes.\<close>

definition rank :: "UUID \<Rightarrow> (UUID \<times> UUID) list \<Rightarrow> nat" where
  "rank key es = length (takeWhile (\<lambda>e. snd e < key) es)"

lemma rank_le: "rank key es \<le> length es" by (simp add: rank_def length_takeWhile_le)

lemma leaf_insert_slots:
  assumes ok: "node_ok raw" and leaf: "leafAt raw" and here: "rank key (slots raw) \<noteq> noKeysAt raw \<or> siblingAt raw = NilUUID"
  obtains raw' where "node_insert uuid key raw = Ok (True, raw')" "length raw' = NODE_SIZE" "leafAt raw'" "siblingAt raw' = siblingAt raw"
    "slots raw' = take (rank key (slots raw)) (slots raw) @ (uuid, key) # drop (rank key (slots raw)) (slots raw)"
proof -
  let ?n = "noKeysAt raw" and ?k = "rank key (slots raw)"
  have l: "length raw = NODE_SIZE" and n: "?n \<le> 64" using ok by (simp_all add: node_ok_def)
  have k: "?k \<le> ?n" using rank_le [of key "slots raw"] by simp
  obtain r1 where r1: "shiftRawKth raw ?k = Ok r1" "length r1 = NODE_SIZE" "leafAt r1 = leafAt raw" "noKeysAt r1 = ?n"
    "siblingAt r1 = siblingAt raw" "\<And>j. j < 66 \<Longrightarrow> sonAt r1 j = (if j \<le> ?k then sonAt raw j else sonAt raw (j - 1))"
    "\<And>j. j < 66 \<Longrightarrow> keyAt r1 j = (if j \<le> ?k then keyAt raw j else keyAt raw (j - 1))"
    using shiftKth [OF l, of ?k] k n by auto
  obtain r2 where r2: "setRawKthKey r1 key ?k = Ok r2" "length r2 = NODE_SIZE" "leafAt r2 = leafAt r1" "noKeysAt r2 = noKeysAt r1"
    "siblingAt r2 = siblingAt r1" "sonAt r2 = sonAt r1" "keyAt r2 = (keyAt r1)(?k := key)"
    using setKey [OF r1(2), of ?k key] k n by auto
  obtain r3 where r3: "setRawKthSon r2 uuid ?k = Ok r3" "length r3 = NODE_SIZE" "leafAt r3 = leafAt r2" "noKeysAt r3 = noKeysAt r2"
    "siblingAt r3 = siblingAt r2" "sonAt r3 = (sonAt r2)(?k := uuid)" "keyAt r3 = keyAt r2"
    using setSon [OF r2(2), of ?k uuid] k n by auto
  obtain r4 where r4: "setRawNoKeys r3 (?n + 1) = Ok r4" "length r4 = NODE_SIZE" "leafAt r4 = leafAt r3" "noKeysAt r4 = ?n + 1"
    "siblingAt r4 = siblingAt r3" "sonAt r4 = sonAt r3" "keyAt r4 = keyAt r3"
    using setNoKeys [OF r3(2), of "?n + 1"] n by auto
  have "firstAtLeast raw key ?n 0 = Ok ?k" using firstAtLeast_slots [OF ok] by (simp add: rank_def)
  then have "node_insert uuid key raw = Ok (True, r4)"
    using here leaf r1(1) r2(1) r3(1) r4(1) by (auto simp: node_insert_def getters [OF l])
  moreover have "slots r4 = take ?k (slots raw) @ (uuid, key) # drop ?k (slots raw)"
  proof (rule nth_equalityI)
    show "length (slots r4) = length (take ?k (slots raw) @ (uuid, key) # drop ?k (slots raw))" using r4(4) k by simp
    fix i assume "i < length (slots r4)"
    then have i: "i < ?n + 1" using r4(4) by simp
    have s: "slots r4 ! i = (sonAt r4 i, keyAt r4 i)" using i r4(4) by simp
    show "slots r4 ! i = (take ?k (slots raw) @ (uuid, key) # drop ?k (slots raw)) ! i"
      unfolding s using i k n r1(6,7) r2 r3 r4 by (cases i ?k rule: linorder_cases) (auto simp: nth_append nth_Cons')
  qed
  ultimately show thesis using that r1 r2 r3 r4 leaf by simp
qed

lemma inner_insert_slots:
  assumes ok: "node_ok raw" and inner: "\<not> leafAt raw" and here: "rank key (slots raw) < noKeysAt raw"
  obtains raw' where "node_insert uuid key raw = Ok (True, raw')" "length raw' = NODE_SIZE" "\<not> leafAt raw'" "siblingAt raw' = siblingAt raw"
    "slots raw' = take (rank key (slots raw)) (slots raw) @ (fst (slots raw ! rank key (slots raw)), key) #
       (uuid, snd (slots raw ! rank key (slots raw))) # drop (Suc (rank key (slots raw))) (slots raw)"
proof -
  let ?n = "noKeysAt raw" and ?k = "rank key (slots raw)"
  have l: "length raw = NODE_SIZE" and n: "?n \<le> 64" using ok by (simp_all add: node_ok_def)
  obtain r1 where r1: "setRawKthKey raw key ?k = Ok r1" "length r1 = NODE_SIZE" "leafAt r1 = leafAt raw" "noKeysAt r1 = ?n"
    "siblingAt r1 = siblingAt raw" "sonAt r1 = sonAt raw" "keyAt r1 = (keyAt raw)(?k := key)"
    using setKey [OF l, of ?k key] here n by auto
  obtain r2 where r2: "shiftRawKth r1 (?k + 1) = Ok r2" "length r2 = NODE_SIZE" "leafAt r2 = leafAt r1" "noKeysAt r2 = noKeysAt r1"
    "siblingAt r2 = siblingAt r1" "\<And>j. j < 66 \<Longrightarrow> sonAt r2 j = (if j \<le> ?k + 1 then sonAt r1 j else sonAt r1 (j - 1))"
    "\<And>j. j < 66 \<Longrightarrow> keyAt r2 j = (if j \<le> ?k + 1 then keyAt r1 j else keyAt r1 (j - 1))"
    using shiftKth [OF r1(2), of "?k + 1"] here n by auto
  obtain r3 where r3: "setRawKthKey r2 (keyAt raw ?k) (?k + 1) = Ok r3" "length r3 = NODE_SIZE" "leafAt r3 = leafAt r2" "noKeysAt r3 = noKeysAt r2"
    "siblingAt r3 = siblingAt r2" "sonAt r3 = sonAt r2" "keyAt r3 = (keyAt r2)(?k + 1 := keyAt raw ?k)"
    using setKey [OF r2(2), of "?k + 1"] here n by auto
  obtain r4 where r4: "setRawKthSon r3 uuid (?k + 1) = Ok r4" "length r4 = NODE_SIZE" "leafAt r4 = leafAt r3" "noKeysAt r4 = noKeysAt r3"
    "siblingAt r4 = siblingAt r3" "sonAt r4 = (sonAt r3)(?k + 1 := uuid)" "keyAt r4 = keyAt r3"
    using setSon [OF r3(2), of "?k + 1" uuid] here n by auto
  obtain r5 where r5: "setRawNoKeys r4 (?n + 1) = Ok r5" "length r5 = NODE_SIZE" "leafAt r5 = leafAt r4" "noKeysAt r5 = ?n + 1"
    "siblingAt r5 = siblingAt r4" "sonAt r5 = sonAt r4" "keyAt r5 = keyAt r4"
    using setNoKeys [OF r4(2), of "?n + 1"] n by auto
  have "firstAtLeast raw key ?n 0 = Ok ?k" using firstAtLeast_slots [OF ok] by (simp add: rank_def)
  then have "node_insert uuid key raw = Ok (True, r5)"
    using here inner r1(1) r2(1) r3(1) r4(1) r5(1) n by (auto simp: node_insert_def getters [OF l])
  moreover have "slots r5 = take ?k (slots raw) @ (fst (slots raw ! ?k), key) # (uuid, snd (slots raw ! ?k)) # drop (Suc ?k) (slots raw)"
  proof (rule nth_equalityI)
    show "length (slots r5) = length (take ?k (slots raw) @ (fst (slots raw ! ?k), key) # (uuid, snd (slots raw ! ?k)) # drop (Suc ?k) (slots raw))"
      using r5(4) here by simp
    fix i assume "i < length (slots r5)"
    then have i: "i < ?n + 1" using r5(4) by simp
    have s: "slots r5 ! i = (sonAt r5 i, keyAt r5 i)" using i r5(4) by simp
    consider "i < ?k" | "i = ?k" | "i = Suc ?k" | "Suc ?k < i" by linarith
    then show "slots r5 ! i = (take ?k (slots raw) @ (fst (slots raw ! ?k), key) # (uuid, snd (slots raw ! ?k)) # drop (Suc ?k) (slots raw)) ! i"
    proof cases
      case 4
      then obtain j where "i = Suc (Suc j)" by (cases i; cases "i - 1") auto
      then show ?thesis unfolding s using 4 i here n r1(6,7) r2(6,7) r3(6,7) r4(6,7) r5(6,7) by (auto simp: nth_append nth_Cons')
    qed (unfold s, use i here n r1(6,7) r2(6,7) r3(6,7) r4(6,7) r5(6,7) in \<open>auto simp: nth_append nth_Cons'\<close>)
  qed
  ultimately show thesis using that r1 r2 r3 r4 r5 inner by simp
qed

text \<open>Splitting a full node.\<close>

lemma split_slots:
  assumes ok: "node_ok raw" and full: "noKeysAt raw = 64"
  obtains new old where "splitNew raw = Ok new" "splitOld raw son = Ok old" "node_ok new" "node_ok old"
    "leafAt new = leafAt raw" "leafAt old = leafAt raw" "siblingAt new = siblingAt raw" "siblingAt old = son"
    "slots new = drop 32 (slots raw)" "slots old = take 32 (slots raw)" "getRawKthKey new 0 = Ok (snd (slots raw ! 32))"
proof -
  have l: "length raw = NODE_SIZE" "length raw = 1067" using ok by (simp_all add: node_ok_def NODE_SIZE_eq)
  have z: "length (replicate NODE_SIZE (0 :: byte)) = NODE_SIZE" by simp
  obtain n1 where n1: "setRawIsLeaf (replicate NODE_SIZE 0) (leafAt raw) = Ok n1" "length n1 = NODE_SIZE" "leafAt n1 = leafAt raw"
    using setLeaf [OF z, of "leafAt raw"] by metis
  obtain n2 where n2: "setRawNoKeys n1 32 = Ok n2" "length n2 = NODE_SIZE" "leafAt n2 = leafAt n1" "noKeysAt n2 = 32"
    using setNoKeys [OF n1(2), of 32] by auto
  obtain n3 where n3: "setRawSibling n2 (siblingAt raw) = Ok n3" "length n3 = NODE_SIZE" "leafAt n3 = leafAt n2" "noKeysAt n3 = 32"
    "siblingAt n3 = siblingAt raw" using setSibling [OF n2(2)] n2(4) by metis
  let ?new = "overwrite n3 11 (drop 523 raw)"
  have fit: "11 + length (drop 523 raw) \<le> length n3" using l n3(2) by (simp add: NODE_SIZE_eq)
  have new: "splitNew raw = Ok ?new" using n1(1) n2(1) n3(1) fit l(2) copy_at_fits [OF fit]
    by (simp add: splitNew_def getters [OF l(1)] node_consts copyRawFromKth_def Let_def)
  have lo: "window ?new a m = window n3 a m" if "a + m \<le> 11" for a m using window_disjoint [OF fit, of a m] that by auto
  have hi: "window ?new (11 + a) m = window raw (523 + a) m" if "a + m \<le> 544" for a m
    using window_inner [OF fit, of "11 + a" m] that l(2) by (simp add: window_def add.commute)
  have f: "length ?new = NODE_SIZE" "leafAt ?new = leafAt raw" "noKeysAt ?new = 32" "siblingAt ?new = siblingAt raw"
    using fit n1 n2 n3 lo l by (auto simp: leafAt_def nth_overwrite noKeysAt_def siblingAt_def NODE_SIZE_eq)
  have s: "sonAt ?new i = sonAt raw (i + 32)" "keyAt ?new i = keyAt raw (i + 32)" if "i < 32" for i
    using hi [of "16 * i" 8] hi [of "8 + 16 * i" 8] that by (simp_all add: sonAt_def keyAt_def)
  have sl: "slots ?new = drop 32 (slots raw)" by (rule nth_equalityI) (use full f s in \<open>auto simp: add.commute\<close>)
  obtain o1 where o1: "setRawNoKeys raw 32 = Ok o1" "length o1 = NODE_SIZE" "leafAt o1 = leafAt raw" "noKeysAt o1 = 32"
    "sonAt o1 = sonAt raw" "keyAt o1 = keyAt raw" using setNoKeys [OF l(1), of 32] by auto
  obtain o2 where o2: "setRawSibling o1 son = Ok o2" "length o2 = NODE_SIZE" "leafAt o2 = leafAt o1" "noKeysAt o2 = 32" "siblingAt o2 = son"
    "sonAt o2 = sonAt raw" "keyAt o2 = keyAt raw" using setSibling [OF o1(2)] o1 by metis
  have "splitOld raw son = Ok o2" using o1(1) o2(1) by (simp add: splitOld_def node_consts)
  moreover have "slots o2 = take 32 (slots raw)" by (rule nth_equalityI) (use full o2 in auto)
  moreover have "getRawKthKey ?new 0 = Ok (snd (slots raw ! 32))" using getters(5) [OF f(1), of 0] s(2) [of 0] full by simp
  ultimately show thesis using that [OF new, of o2] f sl o1 o2 by (simp add: node_ok_def)
qed

lemma newRoot_slots:
  obtains raw where "newRootRaw left right key = Ok raw" "node_ok raw" "\<not> leafAt raw" "siblingAt raw = NilUUID"
    "slots raw = [(left, key), (right, UUID_INF)]"
proof -
  have z: "length (replicate NODE_SIZE (0 :: byte)) = NODE_SIZE" by simp
  obtain r1 where r1: "setRawIsLeaf (replicate NODE_SIZE 0) False = Ok r1" "length r1 = NODE_SIZE" "\<not> leafAt r1"
    using setLeaf [OF z, of False] by metis
  obtain r2 where r2: "setRawNoKeys r1 2 = Ok r2" "length r2 = NODE_SIZE" "leafAt r2 = leafAt r1" "noKeysAt r2 = 2"
    using setNoKeys [OF r1(2), of 2] by auto
  obtain r3 where r3: "setRawSibling r2 NilUUID = Ok r3" "length r3 = NODE_SIZE" "leafAt r3 = leafAt r2" "noKeysAt r3 = 2" "siblingAt r3 = NilUUID"
    using setSibling [OF r2(2)] r2(4) by metis
  obtain r4 where r4: "setRawKthSon r3 left 0 = Ok r4" "length r4 = NODE_SIZE" "leafAt r4 = leafAt r3" "noKeysAt r4 = 2" "siblingAt r4 = NilUUID"
    "sonAt r4 0 = left" by (rule setSon [OF r3(2), of 0 left]) (use r3(4,5) that in auto)
  obtain r5 where r5: "setRawKthKey r4 key 0 = Ok r5" "length r5 = NODE_SIZE" "leafAt r5 = leafAt r4" "noKeysAt r5 = 2" "siblingAt r5 = NilUUID"
    "sonAt r5 0 = left" "keyAt r5 0 = key" by (rule setKey [OF r4(2), of 0 key]) (use r4(4-6) that in auto)
  obtain r6 where r6: "setRawKthSon r5 right 1 = Ok r6" "length r6 = NODE_SIZE" "leafAt r6 = leafAt r5" "noKeysAt r6 = 2" "siblingAt r6 = NilUUID"
    "sonAt r6 0 = left" "keyAt r6 0 = key" "sonAt r6 1 = right" by (rule setSon [OF r5(2), of 1 right]) (use r5(4-7) that in auto)
  obtain r7 where r7: "setRawKthKey r6 UUID_INF 1 = Ok r7" "length r7 = NODE_SIZE" "leafAt r7 = leafAt r6" "noKeysAt r7 = 2" "siblingAt r7 = NilUUID"
    "sonAt r7 0 = left" "keyAt r7 0 = key" "sonAt r7 1 = right" "keyAt r7 1 = UUID_INF" by (rule setKey [OF r6(2), of 1 UUID_INF]) (use r6(4-8) that in auto)
  have "newRootRaw left right key = Ok r7" using r1(1) r2(1) r3(1) r4(1) r5(1) r6(1) r7(1) by (simp add: newRootRaw_def)
  moreover have "slots r7 = [(left, key), (right, UUID_INF)]" using r7(4,6-9) by (simp add: slots_def upt_rec)
  moreover have "\<not> leafAt r7" using r1(3) r2(3) r3(3) r4(3) r5(3) r6(3) r7(3) by simp
  ultimately show thesis using that r7(2,4,5) by (simp add: node_ok_def)
qed

lemma newNilRoot_slots:
  obtains raw where "newNilRootRaw = Ok raw" "node_ok raw" "leafAt raw" "siblingAt raw = NilUUID" "slots raw = []"
proof -
  have z: "length (replicate NODE_SIZE (0 :: byte)) = NODE_SIZE" by simp
  obtain r1 where r1: "setRawIsLeaf (replicate NODE_SIZE 0) True = Ok r1" "length r1 = NODE_SIZE" "leafAt r1"
    using setLeaf [OF z, of True] by metis
  obtain r2 where r2: "setRawNoKeys r1 0 = Ok r2" "length r2 = NODE_SIZE" "leafAt r2 = leafAt r1" "noKeysAt r2 = 0"
    using setNoKeys [OF r1(2), of 0] by auto
  obtain r3 where r3: "setRawSibling r2 NilUUID = Ok r3" "length r3 = NODE_SIZE" "leafAt r3 = leafAt r2" "noKeysAt r3 = 0" "siblingAt r3 = NilUUID"
    using setSibling [OF r2(2)] r2(4) by metis
  have "newNilRootRaw = Ok r3" using r1(1) r2(1) r3(1) by (simp add: newNilRootRaw_def)
  then show thesis using that r1(3) r2(3) r3 by (simp add: node_ok_def slots_def)
qed

section \<open>Building a node from its slots\<close>

definition slot_bytes :: "UUID \<times> UUID \<Rightarrow> bytes" where
  "slot_bytes e = be_bytes 8 (unat (fst e)) @ be_bytes 8 (unat (snd e))"

definition node_of :: "bool \<Rightarrow> UUID \<Rightarrow> (UUID \<times> UUID) list \<Rightarrow> bytes" where
  "node_of leaf sib es = (if leaf then 1 else 0) # be_bytes 2 (length es) @ be_bytes 8 (unat sib) @ concat (map slot_bytes es) @
     replicate (1056 - 16 * length es) 0"

lemma slot_bytes_length: "length (slot_bytes e) = 16" by (simp add: slot_bytes_def)

lemma slots_length: "length (concat (map slot_bytes es)) = 16 * length es"
  by (induction es) (simp_all add: slot_bytes_length)

lemma drop_slots: "i \<le> length es \<Longrightarrow> drop (16 * i) (concat (map slot_bytes es)) = concat (map slot_bytes (drop i es))"
proof (induction i arbitrary: es)
  case (Suc i)
  then obtain e es' where e: "es = e # es'" by (cases es) auto
  have "drop (16 * Suc i) (slot_bytes e @ concat (map slot_bytes es')) = drop (16 * i) (concat (map slot_bytes es'))"
    by (simp add: slot_bytes_length)
  then show ?case using Suc e by simp
qed simp

lemma drop_length_append: "drop (length xs + n) (xs @ ys) = drop n ys" by simp

lemma node_of_fields:
  assumes "length es \<le> 64"
  shows "node_ok (node_of leaf sib es)" "leafAt (node_of leaf sib es) = leaf" "siblingAt (node_of leaf sib es) = sib" "slots (node_of leaf sib es) = es"
proof -
  let ?raw = "node_of leaf sib es" and ?h = "(if leaf then 1 else 0) # be_bytes 2 (length es) @ be_bytes 8 (unat sib)"
  let ?t = "replicate (1056 - 16 * length es) 0"
  have l: "length ?raw = NODE_SIZE" using assms by (simp add: node_of_def slots_length NODE_SIZE_eq)
  have "window ?raw 1 2 = be_bytes 2 (length es)" by (simp add: node_of_def window_def)
  then have n: "noKeysAt ?raw = length es" using assms by (simp add: noKeysAt_def be_val_be_bytes)
  show "node_ok ?raw" using l n assms by (simp add: node_ok_def)
  show "leafAt ?raw = leaf" by (simp add: leafAt_def node_of_def)
  have "window ?raw 3 8 = be_bytes 8 (unat sib)" by (simp add: node_of_def window_def)
  then show "siblingAt ?raw = sib" by (simp add: siblingAt_def be_val8)
  have d: "drop (11 + 16 * i) ?raw = slot_bytes (es ! i) @ concat (map slot_bytes (drop (Suc i) es)) @ ?t" if "i < length es" for i
  proof -
    have "?raw = ?h @ concat (map slot_bytes es) @ ?t" by (simp add: node_of_def)
    moreover have "length ?h = 11" by simp
    ultimately have "drop (11 + 16 * i) ?raw = drop (16 * i) (concat (map slot_bytes es) @ ?t)" by (metis drop_length_append)
    also have "\<dots> = concat (map slot_bytes (drop i es)) @ ?t" using that by (simp add: drop_slots slots_length)
    finally show ?thesis using that by (simp add: Cons_nth_drop_Suc [symmetric])
  qed
  show "slots ?raw = es"
  proof (rule nth_equalityI)
    fix i assume "i < length (slots ?raw)"
    then have i: "i < length es" "i < noKeysAt ?raw" using n by simp_all
    have "window ?raw (11 + 16 * i) 8 = be_bytes 8 (unat (fst (es ! i)))"
      using d [OF i(1)] by (simp add: window_def slot_bytes_def)
    moreover have "window ?raw (19 + 16 * i) 8 = be_bytes 8 (unat (snd (es ! i)))"
    proof -
      have "drop (19 + 16 * i) ?raw = drop 8 (drop (11 + 16 * i) ?raw)" by (simp add: add.commute)
      then show ?thesis using d [OF i(1)] by (simp add: window_def slot_bytes_def)
    qed
    ultimately show "slots ?raw ! i = es ! i" using i(2) by (simp add: sonAt_def keyAt_def be_val8)
  qed (simp add: n)
qed

section \<open>Properties\<close>

lemma insort_rank: "insort_key snd (u, k) es = take (rank k es) es @ (u, k) # drop (rank k es) es"
  by (induction es) (auto simp: rank_def)

text \<open>Inserting into a leaf whose keys are in order does what insertion into a sorted list does: a pair beyond the last key of a leaf
  that has a sibling is refused and nothing changes; otherwise the slots become the sorted insertion of the pair, in order again, and the kind and
  the sibling of the node stay.\<close>

lemma leaf_insert_is_insort:
  assumes "node_ok raw" and "leafAt raw" and "sorted (map snd (slots raw))" and "length (slots raw) < 64"
  shows "if (\<forall>e \<in> set (slots raw). snd e < key) \<and> siblingAt raw \<noteq> NilUUID then node_insert uuid key raw = Ok (False, raw)
    else \<exists>raw'. node_insert uuid key raw = Ok (True, raw') \<and> node_ok raw' \<and> leafAt raw' \<and> siblingAt raw' = siblingAt raw \<and>
      slots raw' = insort_key snd (uuid, key) (slots raw) \<and> sorted (map snd (slots raw'))"
proof (cases "(\<forall>e \<in> set (slots raw). snd e < key) \<and> siblingAt raw \<noteq> NilUUID")
  case True
  have "rank key (slots raw) = noKeysAt raw" using True takeWhile_all_length [of "\<lambda>e. snd e < key" "slots raw"] by (simp add: rank_def)
  then show ?thesis using True assms(1) firstAtLeast_slots [OF assms(1), of key]
    by (simp add: node_insert_def node_ok_def getters rank_def)
next
  case False
  then have h: "rank key (slots raw) \<noteq> noKeysAt raw \<or> siblingAt raw = NilUUID"
    using takeWhile_all_length [of "\<lambda>e. snd e < key" "slots raw"] by (auto simp: rank_def)
  obtain raw' where r: "node_insert uuid key raw = Ok (True, raw')" "length raw' = NODE_SIZE" "leafAt raw'" "siblingAt raw' = siblingAt raw"
    "slots raw' = insort_key snd (uuid, key) (slots raw)"
    using leaf_insert_slots [OF assms(1,2) h] insort_rank by metis
  have "noKeysAt raw' = Suc (noKeysAt raw)" using r(5) length_slots [of raw'] by simp
  then show ?thesis using False r assms(3,4) by (auto simp: node_ok_def sorted_insort_key)
qed


text \<open>Splitting a full node keeps every range query over its keys: the answers of the two halves, one after the other, are the answer of the
  node before, the left half sends a query on to the right half whenever that has an answer, and the right half takes over the sibling.\<close>

lemma split_keeps_ranges:
  assumes "node_ok raw" and "sorted (map snd (slots raw))" and "length (slots raw) = 64" and "l \<le> r" and "son \<noteq> NilUUID"
  shows "\<exists>new old us1 us2 s1 s2. splitNew raw = Ok new \<and> splitOld raw son = Ok old \<and> node_ok new \<and> node_ok old \<and>
    slots old @ slots new = slots raw \<and> length (slots old) = 32 \<and> length (slots new) = 32 \<and>
    node_LeafSearchRange old l r = Ok (us1, s1) \<and> node_LeafSearchRange new l r = Ok (us2, s2) \<and>
    node_LeafSearchRange raw l r = Ok (us1 @ us2, s2) \<and> (us2 \<noteq> [] \<longrightarrow> s1 = son) \<and> siblingAt new = siblingAt raw"
proof -
  have full: "noKeysAt raw = 64" using assms(3) by simp
  obtain new old where n: "splitNew raw = Ok new" "splitOld raw son = Ok old" "node_ok new" "node_ok old"
    "leafAt new = leafAt raw" "leafAt old = leafAt raw" "siblingAt new = siblingAt raw" "siblingAt old = son"
    "slots new = drop 32 (slots raw)" "slots old = take 32 (slots raw)"
    using split_slots [OF assms(1) full, of son] by metis
  have app: "slots old @ slots new = slots raw" unfolding n(9,10) by simp
  have srt: "sorted (map snd (slots old))" "sorted (map snd (slots new))" and cross: "\<forall>x \<in> set (slots old). \<forall>y \<in> set (slots new). snd x \<le> snd y"
    using assms(2) unfolding app [symmetric] by (auto simp: sorted_append)
  have len: "length (slots old) = 32" "length (slots new) = 32" using n(9,10) full by simp_all
  obtain y where y: "y \<in> set (slots new)" using len(2) by (cases "slots new") auto
  have all: "(\<forall>e \<in> set (slots raw). snd e \<le> r) \<longleftrightarrow> (\<forall>e \<in> set (slots new). snd e \<le> r)"
    unfolding app [symmetric] set_append using cross y by (meson UnE UnI2 order_trans)
  let ?f = "\<lambda>es. map fst (filter (\<lambda>e. l \<le> snd e \<and> snd e \<le> r) es)"
  have f: "?f (slots raw) = ?f (slots old) @ ?f (slots new)" unfolding app [symmetric] by simp
  let ?s2 = "if \<forall>e \<in> set (slots new). snd e \<le> r then siblingAt raw else NilUUID" and ?s1 = "if \<forall>e \<in> set (slots old). snd e \<le> r then son else NilUUID"
  have o: "node_LeafSearchRange old l r = Ok (?f (slots old), ?s1)" using LeafSearchRange_slots [OF n(4) srt(1) assms(4)] n(8) by simp
  have w: "node_LeafSearchRange new l r = Ok (?f (slots new), ?s2)" using LeafSearchRange_slots [OF n(3) srt(2) assms(4)] n(7) by simp
  have b: "node_LeafSearchRange raw l r = Ok (?f (slots old) @ ?f (slots new), ?s2)"
    using LeafSearchRange_slots [OF assms(1,2,4)] f all by simp
  have "?f (slots new) \<noteq> [] \<longrightarrow> ?s1 = son"
  proof
    assume "?f (slots new) \<noteq> []"
    then obtain y where "y \<in> set (slots new)" "snd y \<le> r" by (auto simp: filter_empty_conv)
    then have "\<forall>e \<in> set (slots old). snd e \<le> r" using cross by (meson order_trans)
    then show "?s1 = son" by simp
  qed
  then show ?thesis using n(1-4,7) app len o w b by blast
qed

text \<open>Equal keys across a split are lost to the search: when a full leaf holds the same key on both sides of the middle, that key becomes the
  separator, a search for it is sent to the right half only, and the entries of the left half with that key are not found any more.\<close>

lemma separator_duplicates_missed:
  assumes "node_ok raw" and "sorted (map snd (slots raw))" and "length (slots raw) = 64"
    and "snd (slots raw ! 31) = k" and "snd (slots raw ! 32) = k" and "k < UUID_INF" and "right \<noteq> NilUUID"
  shows "\<exists>new root us s us0 s0. splitNew raw = Ok new \<and> getRawKthKey new 0 = Ok k \<and> newRootRaw left right k = Ok root \<and>
    node_SearchNext root k = Ok (right, NilUUID) \<and> node_LeafSearchRange new k k = Ok (us, s) \<and>
    node_LeafSearchRange raw k k = Ok (us0, s0) \<and> length us < length us0"
proof -
  have full: "noKeysAt raw = 64" using assms(3) by simp
  obtain new where n: "splitNew raw = Ok new" "node_ok new" "slots new = drop 32 (slots raw)" "getRawKthKey new 0 = Ok k"
    using split_slots [OF assms(1) full, of right] assms(5) by metis
  obtain root where r: "newRootRaw left right k = Ok root" "node_ok root" "slots root = [(left, k), (right, UUID_INF)]"
    using newRoot_slots [of left right k] by metis
  have "node_SearchNext root k = Ok (right, NilUUID)" using SearchNext_slots [OF r(2), of k] r(3) assms(6) by simp
  moreover have app: "slots raw = take 31 (slots raw) @ slots raw ! 31 # slots new"
    using full n(3) id_take_nth_drop [of 31 "slots raw"] by simp
  have "length (filter (\<lambda>e. k \<le> snd e \<and> snd e \<le> k) (slots new)) < length (filter (\<lambda>e. k \<le> snd e \<and> snd e \<le> k) (take 31 (slots raw) @ slots raw ! 31 # slots new))"
    using assms(4) by simp
  then have "length (filter (\<lambda>e. k \<le> snd e \<and> snd e \<le> k) (slots new)) < length (filter (\<lambda>e. k \<le> snd e \<and> snd e \<le> k) (slots raw))"
    using app by simp
  moreover have "sorted (map snd (slots new))" using assms(2) n(3) by (metis drop_map sorted_wrt_drop)
  ultimately show ?thesis using n r LeafSearchRange_slots [OF n(2), of k k] LeafSearchRange_slots [OF assms(1,2), of k k] by auto
qed


end
