(* ===== verification/BTree.thy ===== *)
theory BTree
  imports Node Dm
begin

text \<open>
  The B+ tree over the data manager (\<^verbatim>\<open>im/tree.go\<close>, and the methods of \<^verbatim>\<open>im/node.go\<close> that touch the disk). A node is a data item; its
  bytes are the bytes of the page, so they are read from the data manager whenever the code looks at \<open>u.raw\<close>. Loops over siblings and the descent
  have no bound in the code: a search that never ends is \<open>None\<close>. A \<open>*dataitem\<close> is shared; \<open>Before\<close> rewrites the whole of
  its saved old bytes, the only part of it that changes, so a handle kept by the tree is as good as the one in the cache. The model
  is that of one caller at a time.
\<close>

section \<open>Nodes on disk\<close>

definition loadNode :: "UUID \<Rightarrow> dataManager \<Rightarrow> dataitem res \<times> dataManager" where
  "loadNode selfUUID d =
     sbind (dm_Read selfUUID d) (\<lambda>di d. case di of None \<Rightarrow> (Panic, d) | Some di \<Rightarrow> (Ok di, d))"

definition node_Release :: "dataitem \<Rightarrow> dataManager \<Rightarrow> unit res \<times> dataManager" where
  "node_Release u d = ReleaseDataitem (di_uid u) d"

definition node_IsLeaf :: "dataitem \<Rightarrow> dataManager \<Rightarrow> bool res" where
  "node_IsLeaf u d = rbind (dm_Data u d) getRawIsLeaf"

text \<open>\<open>split\<close>: store the upper half as a new node, then cut this one.\<close>

definition node_split :: "dataitem \<Rightarrow> dataManager \<Rightarrow> (UUID \<times> UUID) res \<times> dataManager" where
  "node_split u d =
     sbind (rbind (dm_Data u d) splitNew, d) (\<lambda>nodeRaw d.
     sbind (dm_Insert SUPER_XID nodeRaw d) (\<lambda>son d.
     sbind (rbind (dm_Data u d) (\<lambda>raw. splitOld raw son), d) (\<lambda>raw d.
     sbind (dm_write u raw d) (\<lambda>_ d.
     sbind (getRawKthKey nodeRaw 0, d) (\<lambda>key d. (Ok (son, key), d))))))"

text \<open>\<open>insertAndSplit\<close> of a node: the sibling to go on with, or the new node and its key. The deferred function logs the change when it
  succeeded and takes it back otherwise.\<close>

definition node_insertAndSplit :: "dataitem \<Rightarrow> UUID \<Rightarrow> UUID \<Rightarrow> dataManager \<Rightarrow> (UUID \<times> UUID \<times> UUID) res \<times> dataManager" where
  "node_insertAndSplit u uuid key d =
     sbind (dm_Before u d) (\<lambda>u d.
     sbind (rbind (dm_Data u d) (node_insert uuid key), d) (\<lambda>(succ, raw) d.
     if \<not> succ then
       sbind (rbind (dm_Data u d) getRawSibling, d) (\<lambda>sib d.
       sbind (dm_UnBefore u d) (\<lambda>_ d. (Ok (sib, NilUUID, NilUUID), d)))
     else
       sbind (dm_write u raw d) (\<lambda>_ d.
       sbind (needSplit raw, d) (\<lambda>full d.
       if full then
         (case node_split u d of
            (Ok (newSon, newKey), d) \<Rightarrow> sbind (dm_After SUPER_XID u d) (\<lambda>_ d. (Ok (NilUUID, newSon, newKey), d))
          | (Err e, d) \<Rightarrow> sbind (dm_UnBefore u d) (\<lambda>_ d. (Err e, d))
          | (Panic, d) \<Rightarrow> (Panic, d))
       else sbind (dm_After SUPER_XID u d) (\<lambda>_ d. (Ok (NilUUID, NilUUID, NilUUID), d))))))"

section \<open>The tree\<close>

record bPlusTree =
  bt_bootUUID :: UUID
  bt_bootDataitem :: dataitem

definition bt_Create :: "dataManager \<Rightarrow> UUID res \<times> dataManager" where
  "bt_Create d =
     sbind (newNilRootRaw, d) (\<lambda>rawBoot d.
     sbind (dm_Insert SUPER_XID rawBoot d) (\<lambda>rootUUID d.
     sbind (dm_Insert SUPER_XID (UUIDToRaw rootUUID) d) (\<lambda>bootUUID d. (Ok bootUUID, d))))"

definition bt_Load :: "UUID \<Rightarrow> dataManager \<Rightarrow> bPlusTree res \<times> dataManager" where
  "bt_Load bootUUID d =
     sbind (dm_Read bootUUID d) (\<lambda>di d.
     case di of None \<Rightarrow> (Err (ErrBootNotFound bootUUID), d)
     | Some di \<Rightarrow> (Ok \<lparr>bt_bootUUID = bootUUID, bt_bootDataitem = di\<rparr>, d))"

definition rootUUID :: "bPlusTree \<Rightarrow> dataManager \<Rightarrow> UUID res" where
  "rootUUID bt d = rbind (dm_Data (bt_bootDataitem bt) d) ParseUUID"

definition updaterootUUID :: "bPlusTree \<Rightarrow> UUID \<Rightarrow> UUID \<Rightarrow> UUID \<Rightarrow> dataManager \<Rightarrow> unit res \<times> dataManager" where
  "updaterootUUID bt left right rightKey d =
     sbind (newRootRaw left right rightKey, d) (\<lambda>rootRaw d.
     sbind (dm_Insert SUPER_XID rootRaw d) (\<lambda>newRootUUID d.
     sbind (dm_Before (bt_bootDataitem bt) d) (\<lambda>di d.
     sbind (dm_Data di d, d) (\<lambda>data d.
     sbind (dm_write di (go_copy data (UUIDToRaw newRootUUID)) d) (\<lambda>_ d.
     dm_After SUPER_XID di d)))))"

partial_function (option) searchNext :: "UUID \<Rightarrow> UUID \<Rightarrow> dataManager \<Rightarrow> (UUID res \<times> dataManager) option" where
  "searchNext nodeUUID key d =
     obind (loadNode nodeUUID d) (\<lambda>node d.
     obind (rbind (dm_Data node d) (\<lambda>raw. node_SearchNext raw key), d) (\<lambda>(next, siblingUUID) d.
     obind (node_Release node d) (\<lambda>_ d.
     if next \<noteq> NilUUID then Some (Ok next, d) else searchNext siblingUUID key d)))"

partial_function (option) searchLeaf :: "UUID \<Rightarrow> UUID \<Rightarrow> dataManager \<Rightarrow> (UUID res \<times> dataManager) option" where
  "searchLeaf nodeUUID key d =
     obind (loadNode nodeUUID d) (\<lambda>node d.
     obind (node_IsLeaf node d, d) (\<lambda>isLeaf d.
     obind (node_Release node d) (\<lambda>_ d.
     if isLeaf then Some (Ok nodeUUID, d)
     else obinds (searchNext nodeUUID key d) (\<lambda>next d. searchLeaf next key d))))"

text \<open>The loop of \<open>SearchRange\<close> along the leaves.\<close>

partial_function (option) collectLeaves :: "UUID \<Rightarrow> UUID \<Rightarrow> UUID \<Rightarrow> UUID list \<Rightarrow> dataManager \<Rightarrow> (UUID list res \<times> dataManager) option" where
  "collectLeaves leafUUID leftKey rightKey uuids d =
     obind (loadNode leafUUID d) (\<lambda>leaf d.
     obind (rbind (dm_Data leaf d) (\<lambda>raw. node_LeafSearchRange raw leftKey rightKey), d) (\<lambda>(tmp, siblingUUID) d.
     obind (node_Release leaf d) (\<lambda>_ d.
     if siblingUUID = NilUUID then Some (Ok (uuids @ tmp), d)
     else collectLeaves siblingUUID leftKey rightKey (uuids @ tmp) d)))"

definition SearchRange :: "bPlusTree \<Rightarrow> UUID \<Rightarrow> UUID \<Rightarrow> dataManager \<Rightarrow> (UUID list res \<times> dataManager) option" where
  "SearchRange bt leftKey rightKey d =
     obind (rootUUID bt d, d) (\<lambda>root d.
     obinds (searchLeaf root leftKey d) (\<lambda>leafUUID d. collectLeaves leafUUID leftKey rightKey [] d))"

definition bt_Search :: "bPlusTree \<Rightarrow> UUID \<Rightarrow> dataManager \<Rightarrow> (UUID list res \<times> dataManager) option" where
  "bt_Search bt key d = SearchRange bt key key d"

text \<open>\<open>insertAndSplit\<close> of the tree: to the right until a node takes the pair.\<close>

partial_function (option) insertAndSplit :: "UUID \<Rightarrow> UUID \<Rightarrow> UUID \<Rightarrow> dataManager \<Rightarrow> ((UUID \<times> UUID) res \<times> dataManager) option" where
  "insertAndSplit nodeUUID uuid key d =
     obind (loadNode nodeUUID d) (\<lambda>node d.
     case node_insertAndSplit node uuid key d of
       (Panic, d) \<Rightarrow> Some (Panic, d)
     | (Err e, d) \<Rightarrow> obind (node_Release node d) (\<lambda>_ d. Some (Err e, d))
     | (Ok (siblingSon, newNodeSon, newNodeKey), d) \<Rightarrow>
         obind (node_Release node d) (\<lambda>_ d.
         if siblingSon \<noteq> NilUUID then insertAndSplit siblingSon uuid key d
         else Some (Ok (newNodeSon, newNodeKey), d)))"

text \<open>\<open>insert\<close>: in the inner case the outcome of splitting this node is assigned to the local variables of that branch, so the named
  results stay as they are.\<close>

partial_function (option) bt_insert :: "UUID \<Rightarrow> UUID \<Rightarrow> UUID \<Rightarrow> dataManager \<Rightarrow> ((UUID \<times> UUID) res \<times> dataManager) option" where
  "bt_insert nodeUUID uuid key d =
     obind (loadNode nodeUUID d) (\<lambda>node d.
     obind (node_IsLeaf node d, d) (\<lambda>isLeaf d.
     obind (node_Release node d) (\<lambda>_ d.
     if isLeaf then insertAndSplit nodeUUID uuid key d
     else
       obinds (searchNext nodeUUID key d) (\<lambda>next d.
       obinds (bt_insert next uuid key d) (\<lambda>(newSonUUID, newSonKey) d.
       if newSonUUID \<noteq> NilUUID then
         obinds (insertAndSplit nodeUUID newSonUUID newSonKey d) (\<lambda>_ d. Some (Ok (NilUUID, NilUUID), d))
       else Some (Ok (NilUUID, NilUUID), d))))))"

definition bt_Insert :: "bPlusTree \<Rightarrow> UUID \<Rightarrow> UUID \<Rightarrow> dataManager \<Rightarrow> (unit res \<times> dataManager) option" where
  "bt_Insert bt key uuid d =
     obind (rootUUID bt d, d) (\<lambda>root d.
     obinds (bt_insert root uuid key d) (\<lambda>(newNode, newKey) d.
     if newNode \<noteq> NilUUID then
       obind (rootUUID bt d, d) (\<lambda>currentRoot d.
       if currentRoot = root then Some (updaterootUUID bt root newNode newKey d) else Some (Ok (), d))
     else Some (Ok (), d)))"

definition bt_Close :: "bPlusTree \<Rightarrow> dataManager \<Rightarrow> unit res \<times> dataManager" where
  "bt_Close bt d = ReleaseDataitem (di_uid (bt_bootDataitem bt)) d"

end
