(* ===== verification/Tokener.thy ===== *)
theory Tokener
  imports Utils
begin

text \<open>
  The tokener (\<^verbatim>\<open>parser/tokener.go\<close>): the automaton that cuts a statement into tokens, with one token of look-ahead. Tokens are strings of bytes;
  the end of the input is the empty token. The lemmas show that it computes the same as a reference definition by
  prefixes of the input.
\<close>

section \<open>Model\<close>

abbreviation byte_of :: "char \<Rightarrow> byte" where "byte_of c \<equiv> of_char c"

definition isSymbol :: "byte \<Rightarrow> bool" where
  "isSymbol b \<longleftrightarrow> b = byte_of CHR ''>'' \<or> b = byte_of CHR ''<'' \<or> b = byte_of CHR ''='' \<or> b = byte_of CHR ''*'' \<or>
     b = byte_of CHR '','' \<or> b = byte_of CHR ''('' \<or> b = byte_of CHR '')'' \<or> b = byte_of CHR ''{'' \<or> b = byte_of CHR ''}'' \<or>
     b = byte_of CHR ''!''"

definition isAlphaBeta :: "byte \<Rightarrow> bool" where
  "isAlphaBeta b \<longleftrightarrow> byte_of CHR ''a'' \<le> b \<and> b \<le> byte_of CHR ''z'' \<or> byte_of CHR ''A'' \<le> b \<and> b \<le> byte_of CHR ''Z''"

definition isDigital :: "byte \<Rightarrow> bool" where
  "isDigital b \<longleftrightarrow> byte_of CHR ''0'' \<le> b \<and> b \<le> byte_of CHR ''9''"

definition isBlank :: "byte \<Rightarrow> bool" where
  "isBlank b \<longleftrightarrow> b = 10 \<or> b = byte_of CHR '' '' \<or> b = 9"

record tokener =
  tk_stat :: bytes
  tk_pos :: nat
  curToken :: string
  flushToken :: bool
  tk_err :: "error option"

definition newTokener :: "bytes \<Rightarrow> tokener" where
  "newTokener stat = \<lparr>tk_stat = stat, tk_pos = 0, curToken = [], flushToken = True, tk_err = None\<rparr>"

definition popByte :: "tokener \<Rightarrow> tokener" where
  "popByte tk = (let tk = tk\<lparr>tk_pos := tk_pos tk + 1\<rparr> in
     if length (tk_stat tk) < tk_pos tk then tk\<lparr>tk_pos := length (tk_stat tk)\<rparr> else tk)"

text \<open>The next byte and whether the end is reached; \<open>popByte\<close> never moves past the end.\<close>

definition peekByte :: "tokener \<Rightarrow> byte \<times> bool" where
  "peekByte tk = (if length (tk_stat tk) \<le> tk_pos tk then (0, True) else (tk_stat tk ! tk_pos tk, False))"

abbreviation tk_left :: "tokener \<Rightarrow> nat" where
  "tk_left tk \<equiv> length (tk_stat tk) - tk_pos tk"

lemma peekByte_left: "peekByte tk = (b, False) \<Longrightarrow> tk_left (popByte tk) < tk_left tk"
  by (auto simp: peekByte_def popByte_def Let_def split: if_splits)

text \<open>\<open>nextTokenState\<close>: letters and digits up to the next other byte; a blank after them is consumed.\<close>

function nextTokenState :: "bytes \<Rightarrow> tokener \<Rightarrow> string res \<times> tokener" where
  "nextTokenState tmp tk =
     (case peekByte tk of (b, eof) \<Rightarrow>
        if eof \<or> \<not> (isAlphaBeta b \<or> isDigital b) then
          (if isBlank b then (Ok (bytes_str tmp), popByte tk) else (Ok (bytes_str tmp), tk))
        else nextTokenState (tmp @ [b]) (popByte tk))"
  by pat_completeness auto
termination by (relation "measure (\<lambda>(_, tk). tk_left tk)") (auto dest: peekByte_left [OF sym])

function quoteLoop :: "byte \<Rightarrow> bytes \<Rightarrow> tokener \<Rightarrow> string res \<times> tokener" where
  "quoteLoop quote tmp tk =
     (case peekByte tk of (b, eof) \<Rightarrow>
        if eof then (Err ErrInvalidStat, tk\<lparr>tk_err := Some ErrInvalidStat\<rparr>)
        else if b = quote then (Ok (bytes_str tmp), popByte tk)
        else quoteLoop quote (tmp @ [b]) (popByte tk))"
  by pat_completeness auto
termination by (relation "measure (\<lambda>(_, _, tk). tk_left tk)") (auto dest: peekByte_left [OF sym])

definition nextQuoteState :: "tokener \<Rightarrow> string res \<times> tokener" where
  "nextQuoteState tk = (let (quote, _) = peekByte tk in quoteLoop quote [] (popByte tk))"

text \<open>\<open>nextMetaState\<close>: skip blanks, then decide by the first byte.\<close>

function nextMetaState :: "tokener \<Rightarrow> string res \<times> tokener" where
  "nextMetaState tk =
     (case peekByte tk of (b, eof) \<Rightarrow>
        if eof then (Ok [], tk)
        else if isBlank b then nextMetaState (popByte tk)
        else if isSymbol b then (Ok (bytes_str [b]), popByte tk)
        else if b = byte_of CHR 0x22 \<or> b = byte_of CHR 0x27 then nextQuoteState tk
        else if isAlphaBeta b \<or> isDigital b then nextTokenState [] tk
        else (Err ErrInvalidStat, tk\<lparr>tk_err := Some ErrInvalidStat\<rparr>))"
  by pat_completeness auto
termination by (relation "measure tk_left") (auto dest: peekByte_left [OF sym])

definition tk_next :: "tokener \<Rightarrow> string res \<times> tokener" where
  "tk_next tk = (case tk_err tk of Some e \<Rightarrow> (Err e, tk) | None \<Rightarrow> nextMetaState tk)"

definition Peek :: "tokener \<Rightarrow> string res \<times> tokener" where
  "Peek tk =
     (case tk_err tk of
        Some e \<Rightarrow> (Err e, tk)
      | None \<Rightarrow>
          if flushToken tk then
            (case tk_next tk of
               (Ok token, tk) \<Rightarrow> (Ok token, tk\<lparr>curToken := token, flushToken := False\<rparr>)
             | (Err e, tk) \<Rightarrow> (Err e, tk\<lparr>tk_err := Some e\<rparr>)
             | (Panic, tk) \<Rightarrow> (Panic, tk))
          else (Ok (curToken tk), tk))"

definition Pop :: "tokener \<Rightarrow> tokener" where
  "Pop tk = tk\<lparr>flushToken := True\<rparr>"

definition ErrStat :: "tokener \<Rightarrow> bytes" where
  "ErrStat tk =
     (let tmp = replicate (length (tk_stat tk) + 3) 0;
          tmp = go_copy tmp (take (tk_pos tk) (tk_stat tk));
          tmp = take (tk_pos tk) tmp @ go_copy (drop (tk_pos tk) tmp) (str_bytes ''<< '')
      in take (tk_pos tk + 3) tmp @ go_copy (drop (tk_pos tk + 3) tmp) (drop (tk_pos tk) (tk_stat tk)))"

declare nextTokenState.simps [simp del] quoteLoop.simps [simp del] nextMetaState.simps [simp del]

section \<open>Reference definition\<close>

text \<open>One token of the remaining input, and what is left after it.\<close>

abbreviation alnum :: "byte \<Rightarrow> bool" where "alnum b \<equiv> isAlphaBeta b \<or> isDigital b"
abbreviation quote_byte :: "byte \<Rightarrow> bool" where "quote_byte b \<equiv> b = byte_of CHR 0x22 \<or> b = byte_of CHR 0x27"

definition skip1 :: "bytes \<Rightarrow> bytes" where
  "skip1 bs = (case bs of b # r \<Rightarrow> if isBlank b then r else bs | [] \<Rightarrow> [])"

definition lex1 :: "bytes \<Rightarrow> (string \<times> bytes) option" where
  "lex1 bs = (case dropWhile isBlank bs of
      [] \<Rightarrow> Some ([], [])
    | b # r \<Rightarrow>
        if isSymbol b then Some (bytes_str [b], r)
        else if quote_byte b then
          (if b \<in> set r then Some (bytes_str (takeWhile (\<lambda>c. c \<noteq> b) r), tl (dropWhile (\<lambda>c. c \<noteq> b) r)) else None)
        else if alnum b then Some (bytes_str (takeWhile alnum (b # r)), skip1 (dropWhile alnum (b # r)))
        else None)"

lemma drop_step: "tk_pos tk < length (tk_stat tk) \<Longrightarrow>
    drop (tk_pos tk) (tk_stat tk) = tk_stat tk ! tk_pos tk # drop (tk_pos (popByte tk)) (tk_stat (popByte tk))"
  by (simp add: popByte_def Let_def Cons_nth_drop_Suc)

lemma popByte_simps [simp]: "tk_stat (popByte tk) = tk_stat tk" "curToken (popByte tk) = curToken tk" "flushToken (popByte tk) = flushToken tk"
  "tk_err (popByte tk) = tk_err tk" "tk_pos tk < length (tk_stat tk) \<Longrightarrow> tk_pos (popByte tk) = Suc (tk_pos tk)"
  by (simp_all add: popByte_def Let_def)

text \<open>Advancing to a position.\<close>

abbreviation at_pos :: "tokener \<Rightarrow> nat \<Rightarrow> tokener" where "at_pos tk p \<equiv> tk\<lparr>tk_pos := p\<rparr>"

lemma popByte_eq: "tk_pos tk < length (tk_stat tk) \<Longrightarrow> popByte tk = at_pos tk (Suc (tk_pos tk))"
  by (simp add: popByte_def Let_def)

lemma nextTokenState_spec:
  assumes "tk_pos tk \<le> length (tk_stat tk)"
  shows "\<exists>p \<le> length (tk_stat tk). nextTokenState tmp tk = (Ok (bytes_str (tmp @ takeWhile alnum (drop (tk_pos tk) (tk_stat tk)))), at_pos tk p) \<and>
     drop p (tk_stat tk) = skip1 (dropWhile alnum (drop (tk_pos tk) (tk_stat tk)))"
  using assms
proof (induction tmp tk rule: nextTokenState.induct)
  case (1 tmp tk)
  show ?case
  proof (cases "tk_pos tk < length (tk_stat tk)")
    case True
    let ?b = "tk_stat tk ! tk_pos tk"
    have d: "drop (tk_pos tk) (tk_stat tk) = ?b # drop (Suc (tk_pos tk)) (tk_stat tk)" using True by (simp add: Cons_nth_drop_Suc)
    have p: "peekByte tk = (?b, False)" using True by (simp add: peekByte_def)
    show ?thesis
    proof (cases "alnum ?b")
      case a: True
      have e: "nextTokenState tmp tk = nextTokenState (tmp @ [?b]) (popByte tk)" using p a by (subst nextTokenState.simps) auto
      have "\<exists>p \<le> length (tk_stat tk). nextTokenState (tmp @ [?b]) (popByte tk) =
          (Ok (bytes_str ((tmp @ [?b]) @ takeWhile alnum (drop (Suc (tk_pos tk)) (tk_stat tk)))), at_pos tk p) \<and>
          drop p (tk_stat tk) = skip1 (dropWhile alnum (drop (Suc (tk_pos tk)) (tk_stat tk)))"
        using "1.IH" [OF p [symmetric]] a True by (simp add: popByte_eq)
      then show ?thesis using a unfolding e d by simp
    next
      case False
      have "\<exists>p \<le> length (tk_stat tk). (if isBlank ?b then popByte tk else tk) = at_pos tk p \<and> drop p (tk_stat tk) = skip1 (drop (tk_pos tk) (tk_stat tk))"
        using True d by (intro exI [of _ "if isBlank ?b then Suc (tk_pos tk) else tk_pos tk"]) (auto simp: popByte_eq skip1_def)
      then show ?thesis using False p d by (subst nextTokenState.simps) (auto simp: if_distrib split: if_splits)
    qed
  next
    case False
    then have "nextTokenState tmp tk = (Ok (bytes_str tmp), tk)"
      by (subst nextTokenState.simps) (simp add: peekByte_def isBlank_def)
    then show ?thesis using False "1.prems" by (intro exI [of _ "tk_pos tk"]) (simp add: skip1_def)
  qed
qed

lemma quoteLoop_spec:
  assumes "tk_pos tk \<le> length (tk_stat tk)"
  shows "let r = drop (tk_pos tk) (tk_stat tk) in
     if q \<in> set r then \<exists>p \<le> length (tk_stat tk). quoteLoop q tmp tk = (Ok (bytes_str (tmp @ takeWhile (\<lambda>c. c \<noteq> q) r)), at_pos tk p) \<and>
        drop p (tk_stat tk) = tl (dropWhile (\<lambda>c. c \<noteq> q) r)
     else fst (quoteLoop q tmp tk) = Err ErrInvalidStat"
  using assms
proof (induction q tmp tk rule: quoteLoop.induct)
  case (1 q tmp tk)
  show ?case
  proof (cases "tk_pos tk < length (tk_stat tk)")
    case True
    let ?b = "tk_stat tk ! tk_pos tk"
    have d: "drop (tk_pos tk) (tk_stat tk) = ?b # drop (Suc (tk_pos tk)) (tk_stat tk)" using True by (simp add: Cons_nth_drop_Suc)
    have p: "peekByte tk = (?b, False)" using True by (simp add: peekByte_def)
    show ?thesis
    proof (cases "?b = q")
      case b: True
      then have "quoteLoop q tmp tk = (Ok (bytes_str tmp), at_pos tk (Suc (tk_pos tk)))"
        using p True by (subst quoteLoop.simps) (simp add: popByte_eq)
      then show ?thesis using b d True by (auto simp: Let_def intro!: exI [of _ "Suc (tk_pos tk)"])
    next
      case False
      then have e: "quoteLoop q tmp tk = quoteLoop q (tmp @ [?b]) (popByte tk)" using p by (subst quoteLoop.simps) simp
      show ?thesis using "1.IH" [OF p [symmetric]] False d True unfolding e by (auto simp: popByte_eq Let_def)
    qed
  next
    case False
    then show ?thesis by (subst quoteLoop.simps) (simp add: peekByte_def)
  qed
qed

lemma lex1_blank: "isBlank b \<Longrightarrow> lex1 (b # bs) = lex1 bs"
  by (simp add: lex1_def)

lemma nextMetaState_spec:
  assumes "tk_pos tk \<le> length (tk_stat tk)"
  shows "case lex1 (drop (tk_pos tk) (tk_stat tk)) of
     Some (t, rest) \<Rightarrow> \<exists>p \<le> length (tk_stat tk). nextMetaState tk = (Ok t, at_pos tk p) \<and> drop p (tk_stat tk) = rest
   | None \<Rightarrow> fst (nextMetaState tk) = Err ErrInvalidStat"
  using assms
proof (induction tk rule: nextMetaState.induct)
  case (1 tk)
  show ?case
  proof (cases "tk_pos tk < length (tk_stat tk)")
    case True
    let ?b = "tk_stat tk ! tk_pos tk" and ?r = "drop (Suc (tk_pos tk)) (tk_stat tk)"
    have d: "drop (tk_pos tk) (tk_stat tk) = ?b # ?r" using True by (simp add: Cons_nth_drop_Suc)
    have p: "peekByte tk = (?b, False)" using True by (simp add: peekByte_def)
    have pop: "popByte tk = at_pos tk (Suc (tk_pos tk))" "Suc (tk_pos tk) \<le> length (tk_stat tk)" using True by (simp_all add: popByte_eq)
    consider (blank) "isBlank ?b" | (symbol) "\<not> isBlank ?b" "isSymbol ?b" | (quote) "\<not> isBlank ?b" "\<not> isSymbol ?b" "quote_byte ?b"
      | (word) "\<not> isBlank ?b" "\<not> isSymbol ?b" "\<not> quote_byte ?b" "alnum ?b"
      | (bad) "\<not> isBlank ?b" "\<not> isSymbol ?b" "\<not> quote_byte ?b" "\<not> alnum ?b" by blast
    then show ?thesis
    proof cases
      case blank
      have "nextMetaState tk = nextMetaState (popByte tk)" using p blank by (subst nextMetaState.simps) simp
      moreover have "tk_pos (popByte tk) \<le> length (tk_stat (popByte tk))" using pop by simp
      ultimately show ?thesis using "1.IH" [OF p [symmetric] _ blank] blank unfolding pop(1)
        by (cases "lex1 ?r") (auto simp: d lex1_blank)
    next
      case symbol
      have "nextMetaState tk = (Ok (bytes_str [?b]), popByte tk)" using p symbol by (subst nextMetaState.simps) simp
      then show ?thesis using symbol pop by (auto simp: d lex1_def intro!: exI [of _ "Suc (tk_pos tk)"])
    next
      case quote
      then have "nextMetaState tk = quoteLoop ?b [] (popByte tk)" using p
        by (subst nextMetaState.simps) (auto simp: nextQuoteState_def Let_def)
      moreover have "lex1 (?b # ?r) = (if ?b \<in> set ?r then Some (bytes_str (takeWhile (\<lambda>c. c \<noteq> ?b) ?r), tl (dropWhile (\<lambda>c. c \<noteq> ?b) ?r)) else None)"
        using quote by (simp add: lex1_def)
      ultimately show ?thesis using quoteLoop_spec [of "popByte tk" ?b "[]"] pop(2) unfolding pop(1) by (auto simp: d Let_def split: if_splits)
    next
      case word
      then have "nextMetaState tk = nextTokenState [] tk" using p by (subst nextMetaState.simps) auto
      moreover have "lex1 (?b # ?r) = Some (bytes_str (takeWhile alnum (?b # ?r)), skip1 (dropWhile alnum (?b # ?r)))"
        using word by (auto simp: lex1_def)
      ultimately show ?thesis using nextTokenState_spec [OF "1.prems", of "[]"] by (simp add: d)
    next
      case bad
      then show ?thesis using p by (subst nextMetaState.simps) (simp add: d lex1_def)
    qed
  next
    case False
    then have "nextMetaState tk = (Ok [], tk)" by (subst nextMetaState.simps) (simp add: peekByte_def)
    then show ?thesis using False "1.prems" by (auto simp: lex1_def intro!: exI [of _ "tk_pos tk"])
  qed
qed

lemma dropWhile_length: "length (dropWhile P xs) \<le> length xs" by (induction xs) auto

lemma skip1_length: "length (skip1 bs) \<le> length bs" by (auto simp: skip1_def split: list.splits)

lemma lex1_shrinks: "lex1 bs = Some (t, rest) \<Longrightarrow> length rest \<le> length bs \<and> (t \<noteq> [] \<longrightarrow> length rest < length bs)"
proof -
  assume l: "lex1 bs = Some (t, rest)"
  have db: "length (dropWhile isBlank bs) \<le> length bs" by (rule dropWhile_length)
  show ?thesis
  proof (cases "dropWhile isBlank bs")
    case Nil
    then have "t = [] \<and> rest = []" using l by (simp add: lex1_def del: dropWhile_eq_Nil_conv)
    then show ?thesis by simp
  next
    case (Cons b r)
    have "length rest \<le> length r"
    proof -
      have "length (tl (dropWhile (\<lambda>c. c \<noteq> b) r)) \<le> length r" using dropWhile_length [of "\<lambda>c. c \<noteq> b" r] by simp
      moreover have "length (skip1 (dropWhile alnum (b # r))) \<le> length r" if "alnum b"
        using that skip1_length [of "dropWhile alnum r"] dropWhile_length [of alnum r] by simp
      ultimately show ?thesis using l Cons by (auto simp: lex1_def split: if_splits)
    qed
    then show ?thesis using db Cons by simp
  qed
qed

section \<open>Look-ahead\<close>

text \<open>A tokener that is in order, and the input it has not consumed.\<close>

definition tk_ok :: "tokener \<Rightarrow> bool" where
  "tk_ok tk \<longleftrightarrow> tk_pos tk \<le> length (tk_stat tk) \<and> tk_err tk = None"

definition rest :: "tokener \<Rightarrow> bytes" where
  "rest tk = drop (tk_pos tk) (tk_stat tk)"

lemma Peek_flush:
  assumes "tk_ok tk" and "flushToken tk"
  shows "case lex1 (rest tk) of
     Some (t, r) \<Rightarrow> \<exists>tk'. Peek tk = (Ok t, tk') \<and> tk_ok tk' \<and> rest tk' = r \<and> curToken tk' = t \<and> \<not> flushToken tk' \<and> tk_stat tk' = tk_stat tk
   | None \<Rightarrow> fst (Peek tk) = Err ErrInvalidStat"
proof -
  have ok: "tk_err tk = None" "tk_pos tk \<le> length (tk_stat tk)" using assms by (simp_all add: tk_ok_def)
  note s = nextMetaState_spec [OF ok(2)]
  show ?thesis
  proof (cases "lex1 (rest tk)")
    case None
    then have "fst (nextMetaState tk) = Err ErrInvalidStat" using s by (simp add: rest_def)
    then show ?thesis using None ok assms(2) by (cases "nextMetaState tk") (auto simp: Peek_def tk_next_def)
  next
    case (Some a)
    obtain t r where a: "a = (t, r)" by fastforce
    obtain p where p: "p \<le> length (tk_stat tk)" "nextMetaState tk = (Ok t, at_pos tk p)" "drop p (tk_stat tk) = r"
      using s Some a by (auto simp: rest_def)
    then show ?thesis using Some a ok assms(2) by (auto simp: Peek_def tk_next_def rest_def tk_ok_def)
  qed
qed

lemma Peek_again: "tk_ok tk \<Longrightarrow> \<not> flushToken tk \<Longrightarrow> Peek tk = (Ok (curToken tk), tk)"
  by (simp add: Peek_def tk_ok_def)

lemma Pop_simps [simp]: "tk_ok (Pop tk) = tk_ok tk" "rest (Pop tk) = rest tk" "flushToken (Pop tk)" "tk_stat (Pop tk) = tk_stat tk"
  by (simp_all add: Pop_def tk_ok_def rest_def)

lemma tk_ok_New [simp]: "tk_ok (newTokener stat)" "rest (newTokener stat) = stat" "flushToken (newTokener stat)"
  by (simp_all add: newTokener_def tk_ok_def rest_def)

section \<open>Progress\<close>

text \<open>Whatever the outcome, the tokener stays inside its input and only moves forward; a token that is not empty uses up input.\<close>

definition tk_in :: "tokener \<Rightarrow> bool" where "tk_in tk \<longleftrightarrow> tk_pos tk \<le> length (tk_stat tk)"

definition moves :: "tokener \<Rightarrow> tokener \<Rightarrow> bool" where
  "moves tk tk' \<longleftrightarrow> tk_stat tk' = tk_stat tk \<and> tk_pos tk \<le> tk_pos tk' \<and> tk_in tk'"

lemma moves_refl: "tk_in tk \<Longrightarrow> moves tk tk" by (simp add: moves_def)

lemma moves_trans: "moves a b \<Longrightarrow> moves b c \<Longrightarrow> moves a c" by (simp add: moves_def)

lemma moves_pop: "tk_in tk \<Longrightarrow> moves tk (popByte tk)" by (auto simp: moves_def tk_in_def popByte_def Let_def)

lemma moves_upd [simp]: "moves tk (tk'\<lparr>tk_err := e\<rparr>) = moves tk tk'" "moves tk (tk'\<lparr>curToken := c\<rparr>) = moves tk tk'"
  "moves tk (tk'\<lparr>flushToken := f\<rparr>) = moves tk tk'" by (simp_all add: moves_def tk_in_def)

lemma moves_in: "moves tk tk' \<Longrightarrow> tk_in tk'" by (simp add: moves_def)

lemma moves_nextTokenState: "tk_in tk \<Longrightarrow> moves tk (snd (nextTokenState tmp tk))"
proof (induction tmp tk rule: nextTokenState.induct)
  case (1 tmp tk)
  obtain b e where p: "peekByte tk = (b, e)" by fastforce
  note pop = moves_pop [OF "1.prems"]
  show ?case
  proof (cases "e \<or> \<not> alnum b")
    case True
    then show ?thesis using p pop moves_refl [OF "1.prems"] by (subst nextTokenState.simps) auto
  next
    case False
    then show ?thesis using p "1.IH" [OF p [symmetric]] moves_in [OF pop] moves_trans [OF pop] by (subst nextTokenState.simps) auto
  qed
qed

lemma moves_quoteLoop: "tk_in tk \<Longrightarrow> moves tk (snd (quoteLoop q tmp tk))"
proof (induction q tmp tk rule: quoteLoop.induct)
  case (1 q tmp tk)
  obtain b e where p: "peekByte tk = (b, e)" by fastforce
  note pop = moves_pop [OF "1.prems"]
  show ?case
  proof (cases "e \<or> b = q")
    case True
    then show ?thesis using p pop moves_refl [OF "1.prems"] by (subst quoteLoop.simps) auto
  next
    case False
    then show ?thesis using p "1.IH" [OF p [symmetric]] moves_in [OF pop] moves_trans [OF pop] by (subst quoteLoop.simps) auto
  qed
qed

lemma moves_nextMetaState: "tk_in tk \<Longrightarrow> moves tk (snd (nextMetaState tk))"
proof (induction tk rule: nextMetaState.induct)
  case (1 tk)
  obtain b e where p: "peekByte tk = (b, e)" by fastforce
  note pop = moves_pop [OF "1.prems"]
  have q: "moves tk (snd (nextQuoteState tk))"
    using moves_trans [OF pop moves_quoteLoop [OF moves_in [OF pop]]] p by (simp add: nextQuoteState_def Let_def)
  show ?case
  proof (cases "\<not> e \<and> isBlank b")
    case True
    then show ?thesis using p "1.IH" [OF p [symmetric]] moves_in [OF pop] moves_trans [OF pop] by (subst nextMetaState.simps) auto
  next
    case False
    then show ?thesis using p q pop moves_refl [OF "1.prems"] moves_nextTokenState [OF "1.prems"] by (subst nextMetaState.simps) auto
  qed
qed

lemma Peek_moves: "tk_in tk \<Longrightarrow> moves tk (snd (Peek tk))"
  using moves_nextMetaState [of tk] moves_refl [of tk]
  by (auto simp: Peek_def tk_next_def split: option.splits prod.splits res.splits)

lemma Peek_uses:
  assumes "tk_in tk" and "Peek (Pop tk) = (Ok t, tk')" and "t \<noteq> []"
  shows "tk_left tk' < tk_left tk"
proof -
  have ok: "tk_ok (Pop tk)" "flushToken (Pop tk)" using assms(1,2) by (auto simp: tk_ok_def tk_in_def Pop_def Peek_def split: option.splits)
  have "\<exists>r. lex1 (rest tk) = Some (t, r) \<and> rest tk' = r"
    using Peek_flush [OF ok] assms(2) by (auto split: option.splits)
  then have "length (rest tk') < length (rest tk)" using lex1_shrinks assms(3) by blast
  then show ?thesis by (simp add: rest_def)
qed

end
