(* ===== verification/Parser.thy ===== *)
theory Parser
  imports Tokener
begin

text \<open>
  Statements (\<^verbatim>\<open>parser/statement/statement.go\<close>) and their recursive-descent parser (\<^verbatim>\<open>parser/parser.go\<close>). A parser reads and changes the tokener; one
  of its loops does not end on some inputs, so a parser that never returns is \<open>None\<close>.
\<close>

section \<open>Statements\<close>

record SingleExp =
  se_Field :: string
  se_CmpOp :: string
  se_Value :: string

record Where =
  wh_SingleExp1 :: SingleExp
  wh_LogicOp :: string
  wh_SingleExp2 :: "SingleExp option"

record Create =
  cr_TableName :: string
  cr_FieldName :: "string list"
  cr_FieldType :: "string list"
  cr_Index :: "string list"

record Update =
  up_TableName :: string
  up_FieldName :: string
  up_Value :: string
  up_Where :: "Where option"

record Delete =
  dl_TableName :: string
  dl_Where :: "Where option"

record Insert =
  in_TableName :: string
  in_Values :: "string list"
  in_ValuesList :: "string list list"

record Aggregate =
  ag_Func :: string
  ag_Field :: string

record Read =
  rd_TableName :: string
  rd_Fields :: "string list"
  rd_Aggregates :: "Aggregate list"
  rd_Where :: "Where option"
  rd_OrderBy :: string
  rd_OrderDesc :: bool
  rd_Limit :: int
  rd_Offset :: int

datatype statement =
    StBegin bool | StCommit | StAbort | StDrop string | StShow
  | StCreate Create | StUpdate Update | StDelete Delete | StInsert Insert | StRead Read

section \<open>Parser\<close>

type_synonym 'a parsing = "tokener \<Rightarrow> ('a res \<times> tokener) option"

definition preturn :: "'a \<Rightarrow> 'a parsing" where "preturn x tk = Some (Ok x, tk)"
definition pinvalid :: "'a parsing" where "pinvalid tk = Some (Err ErrInvalidStat, tk)"

definition isLogicOp :: "string \<Rightarrow> bool" where
  "isLogicOp op \<longleftrightarrow> op = ''and'' \<or> op = ''or''"

definition isAggFunc :: "string \<Rightarrow> bool" where
  "isAggFunc name \<longleftrightarrow> name = ''count'' \<or> name = ''sum'' \<or> name = ''avg'' \<or> name = ''min'' \<or> name = ''max''"

definition isType :: "string \<Rightarrow> bool" where
  "isType tp \<longleftrightarrow> tp = ''uint32'' \<or> tp = ''uint64'' \<or> tp = ''string''"

definition isName :: "string \<Rightarrow> bool" where
  "isName name \<longleftrightarrow> \<not> (length name = 1 \<and> \<not> isAlphaBeta (byte_of (hd name)))"

definition isCmpOp :: "string \<Rightarrow> bool" where
  "isCmpOp op \<longleftrightarrow> op = ''='' \<or> op = ''>'' \<or> op = ''<'' \<or> op = ''!='' \<or> op = ''<='' \<or> op = ''>=''"

text \<open>Decimal digits into an \<open>int\<close>, which wraps.\<close>

fun strToIntLoop :: "string \<Rightarrow> uint64 \<Rightarrow> uint64 res" where
  "strToIntLoop [] n = Ok n"
| "strToIntLoop (c # cs) n =
     (if byte_of c < byte_of CHR ''0'' \<or> byte_of CHR ''9'' < byte_of c then Err ErrInvalidStat
      else strToIntLoop cs (n * 10 + ucast (byte_of c - byte_of CHR ''0'')))"

definition utilsStrToInt :: "string \<Rightarrow> int res" where
  "utilsStrToInt s = rbind (strToIntLoop s 0) (\<lambda>n. Ok (sint n))"

definition parseShow :: "statement parsing" where
  "parseShow tk = obind (Peek tk) (\<lambda>tmp tk. if tmp = [] then preturn StShow tk else pinvalid tk)"

definition parseCommit :: "statement parsing" where
  "parseCommit tk = obind (Peek tk) (\<lambda>tmp tk. if tmp = [] then preturn StCommit tk else pinvalid tk)"

definition parseAbort :: "statement parsing" where
  "parseAbort tk = obind (Peek tk) (\<lambda>tmp tk. if tmp = [] then preturn StAbort tk else pinvalid tk)"

definition parseBegin :: "statement parsing" where
  "parseBegin tk =
     obind (Peek tk) (\<lambda>isolation tk.
     if isolation = [] then preturn (StBegin False) tk
     else if isolation \<noteq> ''isolation'' then pinvalid tk
     else obind (Peek (Pop tk)) (\<lambda>level tk.
     if level \<noteq> ''level'' then pinvalid tk
     else obind (Peek (Pop tk)) (\<lambda>tmp1 tk.
     if tmp1 = ''read'' then
       obind (Peek (Pop tk)) (\<lambda>tmp2 tk.
       if tmp2 = ''committed'' then
         obind (Peek (Pop tk)) (\<lambda>eof tk. if eof \<noteq> [] then pinvalid tk else preturn (StBegin False) tk)
       else pinvalid tk)
     else if tmp1 = ''repeatable'' then
       obind (Peek (Pop tk)) (\<lambda>tmp2 tk.
       if tmp2 = ''read'' then
         obind (Peek (Pop tk)) (\<lambda>eof tk. if eof \<noteq> [] then pinvalid tk else preturn (StBegin True) tk)
       else pinvalid tk)
     else pinvalid tk)))"

definition parseDrop :: "statement parsing" where
  "parseDrop tk =
     obind (Peek tk) (\<lambda>table tk.
     if table \<noteq> ''table'' then pinvalid tk
     else obind (Peek (Pop tk)) (\<lambda>tableName tk.
     if \<not> isName tableName then pinvalid tk
     else obind (Peek (Pop tk)) (\<lambda>eof tk.
     if eof \<noteq> [] then pinvalid tk else preturn (StDrop tableName) tk)))"

definition parseSingleExpr :: "SingleExp parsing" where
  "parseSingleExpr tk =
     obind (Peek tk) (\<lambda>field tk.
     if \<not> isName field then pinvalid tk
     else obind (Peek (Pop tk)) (\<lambda>op tk.
     obinds (let tk = Pop tk in
             if op = ''<'' \<or> op = ''>'' \<or> op = ''!'' then
               obind (Peek tk) (\<lambda>next tk. if next = ''='' then preturn (op @ ''='') (Pop tk) else preturn op tk)
             else preturn op tk) (\<lambda>op tk.
     if \<not> isCmpOp op then pinvalid tk
     else obind (Peek tk) (\<lambda>value tk.
     preturn \<lparr>se_Field = field, se_CmpOp = op, se_Value = value\<rparr> (Pop tk)))))"

definition parseWhere :: "Where parsing" where
  "parseWhere tk =
     obind (Peek tk) (\<lambda>where0 tk.
     if where0 \<noteq> ''where'' then pinvalid tk
     else obinds (parseSingleExpr (Pop tk)) (\<lambda>sexp1 tk.
     obind (Peek tk) (\<lambda>logicOp tk.
     if logicOp = [] \<or> \<not> isLogicOp logicOp then
       preturn \<lparr>wh_SingleExp1 = sexp1, wh_LogicOp = [], wh_SingleExp2 = None\<rparr> tk
     else obinds (parseSingleExpr (Pop tk)) (\<lambda>sexp2 tk.
     obind (Peek tk) (\<lambda>eof tk.
     if eof \<noteq> [] then pinvalid tk
     else preturn \<lparr>wh_SingleExp1 = sexp1, wh_LogicOp = logicOp, wh_SingleExp2 = Some sexp2\<rparr> tk)))))"

definition parseUpdate :: "statement parsing" where
  "parseUpdate tk =
     obind (Peek tk) (\<lambda>tableName tk.
     obind (Peek (Pop tk)) (\<lambda>set tk.
     if set \<noteq> ''set'' then pinvalid tk
     else obind (Peek (Pop tk)) (\<lambda>fieldName tk.
     obind (Peek (Pop tk)) (\<lambda>tmp tk.
     if tmp \<noteq> ''='' then pinvalid tk
     else obind (Peek (Pop tk)) (\<lambda>value tk.
     let update = \<lparr>up_TableName = tableName, up_FieldName = fieldName, up_Value = value, up_Where = None\<rparr> in
     obind (Peek (Pop tk)) (\<lambda>tmp tk.
     if tmp = [] then preturn (StUpdate update) tk
     else obinds (parseWhere tk) (\<lambda>wh tk. preturn (StUpdate (update\<lparr>up_Where := Some wh\<rparr>)) tk)))))))"

definition parseDelete :: "statement parsing" where
  "parseDelete tk =
     obind (Peek tk) (\<lambda>frm tk.
     if frm \<noteq> ''from'' then pinvalid tk
     else obind (Peek (Pop tk)) (\<lambda>tableName tk.
     if \<not> isName tableName then pinvalid tk
     else obinds (parseWhere (Pop tk)) (\<lambda>wh tk.
     preturn (StDelete \<lparr>dl_TableName = tableName, dl_Where = Some wh\<rparr>) tk)))"

text \<open>The values of a single row, up to an empty token.\<close>

partial_function (option) insertValues :: "string list \<Rightarrow> tokener \<Rightarrow> (string list res \<times> tokener) option" where
  "insertValues values tk =
     obind (Peek (Pop tk)) (\<lambda>value tk. if value = [] then Some (Ok values, tk) else insertValues (values @ [value]) tk)"

text \<open>One row of a bulk insert, after its brace, and the rows.\<close>

partial_function (option) bulkRow :: "string list \<Rightarrow> tokener \<Rightarrow> (string list res \<times> tokener) option" where
  "bulkRow row tk =
     obind (Peek (Pop tk)) (\<lambda>value tk.
     if value = [] then Some (Err ErrInvalidStat, tk)
     else if value = ''}'' then Some (Ok row, tk)
     else if value = '','' then bulkRow row tk
     else bulkRow (row @ [value]) tk)"

partial_function (option) parseInsertBulk :: "Insert \<Rightarrow> tokener \<Rightarrow> (statement res \<times> tokener) option" where
  "parseInsertBulk ins tk =
     obinds (bulkRow [] tk) (\<lambda>row tk.
     let ins = ins\<lparr>in_ValuesList := in_ValuesList ins @ [row]\<rparr> in
     obind (Peek (Pop tk)) (\<lambda>next tk.
     if next = [] then Some (Ok (StInsert ins), tk)
     else if next = '','' then
       obind (Peek (Pop tk)) (\<lambda>br tk. if br \<noteq> ''{'' then Some (Err ErrInvalidStat, tk) else parseInsertBulk ins tk)
     else Some (Err ErrInvalidStat, tk)))"

definition parseInsert :: "statement parsing" where
  "parseInsert tk =
     obind (Peek tk) (\<lambda>into tk.
     if into \<noteq> ''into'' then pinvalid tk
     else obind (Peek (Pop tk)) (\<lambda>tableName tk.
     if \<not> isName tableName then pinvalid tk
     else let ins = \<lparr>in_TableName = tableName, in_Values = [], in_ValuesList = []\<rparr> in
     obind (Peek (Pop tk)) (\<lambda>values tk.
     if values \<noteq> ''values'' then pinvalid tk
     else obind (Peek (Pop tk)) (\<lambda>first tk.
     if first = [] then pinvalid tk
     else if first = ''{'' then parseInsertBulk ins tk
     else obinds (insertValues [first] tk) (\<lambda>vs tk. preturn (StInsert (ins\<lparr>in_Values := vs\<rparr>)) tk)))))"

text \<open>The fields and aggregates of a query.\<close>

definition parseAggregate :: "string \<Rightarrow> Aggregate parsing" where
  "parseAggregate field tk =
     (case Peek (Pop tk) of
        (Panic, tk) \<Rightarrow> Some (Panic, tk)
      | (Err _, tk) \<Rightarrow> pinvalid tk
      | (Ok lparen, tk) \<Rightarrow>
          if lparen \<noteq> ''('' then pinvalid tk
          else obind (Peek (Pop tk)) (\<lambda>arg tk.
            if (arg = ''*'' \<and> field = ''count'') \<or> isName arg then
              (case Peek (Pop tk) of
                 (Panic, tk) \<Rightarrow> Some (Panic, tk)
               | (Err _, tk) \<Rightarrow> pinvalid tk
               | (Ok rparen, tk) \<Rightarrow>
                   if rparen \<noteq> '')'' then pinvalid tk
                   else preturn \<lparr>ag_Func = field, ag_Field = arg\<rparr> (Pop tk))
            else pinvalid tk))"

partial_function (option) readFields :: "string list \<Rightarrow> Aggregate list \<Rightarrow> tokener \<Rightarrow> ((string list \<times> Aggregate list) res \<times> tokener) option" where
  "readFields flds aggs tk =
     obind (Peek tk) (\<lambda>field tk.
     obinds (if isAggFunc field then obinds (parseAggregate field tk) (\<lambda>agg tk. Some (Ok (flds, aggs @ [agg]), tk))
             else if isName field then Some (Ok (flds @ [field], aggs), Pop tk)
             else Some (Err ErrInvalidStat, tk)) (\<lambda>(flds, aggs) tk.
     obind (Peek tk) (\<lambda>comma tk.
     if comma = '','' then readFields flds aggs (Pop tk) else Some (Ok (flds, aggs), tk))))"

definition parseOrderBy :: "(string \<times> bool) parsing" where
  "parseOrderBy tk =
     obind (Peek tk) (\<lambda>tmp tk.
     if tmp = ''order'' then
       (case Peek (Pop tk) of
          (Panic, tk) \<Rightarrow> Some (Panic, tk)
        | (Err _, tk) \<Rightarrow> pinvalid tk
        | (Ok bytok, tk) \<Rightarrow>
            if bytok \<noteq> ''by'' then pinvalid tk
            else (case Peek (Pop tk) of
                (Panic, tk) \<Rightarrow> Some (Panic, tk)
              | (Err _, tk) \<Rightarrow> pinvalid tk
              | (Ok field, tk) \<Rightarrow>
                  if \<not> isName field then pinvalid tk
                  else (case Peek (Pop tk) of
                      (Panic, tk) \<Rightarrow> Some (Panic, tk)
                    | (Err _, tk) \<Rightarrow> preturn (field, False) tk
                    | (Ok dir, tk) \<Rightarrow>
                        if dir = ''desc'' then preturn (field, True) (Pop tk)
                        else if dir = ''asc'' then preturn (field, False) (Pop tk)
                        else preturn (field, False) tk)))
     else preturn ([], False) tk)"

definition parseLimit :: "(int \<times> int) parsing" where
  "parseLimit tk =
     obind (Peek tk) (\<lambda>tmp tk.
     if tmp = ''limit'' then
       obind (Peek (Pop tk)) (\<lambda>limitStr tk.
       case utilsStrToInt limitStr of
         Panic \<Rightarrow> Some (Panic, tk) | Err _ \<Rightarrow> pinvalid tk
       | Ok limitVal \<Rightarrow>
           (case Peek (Pop tk) of
              (Panic, tk) \<Rightarrow> Some (Panic, tk)
            | (Err _, tk) \<Rightarrow> preturn (limitVal, 0) tk
            | (Ok off, tk) \<Rightarrow>
                if off = ''offset'' then
                  obind (Peek (Pop tk)) (\<lambda>offsetStr tk.
                  case utilsStrToInt offsetStr of
                    Panic \<Rightarrow> Some (Panic, tk) | Err _ \<Rightarrow> pinvalid tk
                  | Ok offsetVal \<Rightarrow> preturn (limitVal, offsetVal) (Pop tk))
                else preturn (limitVal, 0) tk))
     else preturn (0, 0) tk)"

definition parseRead :: "statement parsing" where
  "parseRead tk =
     obind (Peek tk) (\<lambda>asterisk tk.
     obinds (if asterisk = ''*'' then preturn ([''*''], []) (Pop tk) else readFields [] [] tk) (\<lambda>(flds, aggs) tk.
     obind (Peek tk) (\<lambda>frm tk.
     if frm \<noteq> ''from'' then pinvalid tk
     else obind (Peek (Pop tk)) (\<lambda>tableName tk.
     if \<not> isName tableName then pinvalid tk
     else let read = \<lparr>rd_TableName = tableName, rd_Fields = flds, rd_Aggregates = aggs, rd_Where = None,
                      rd_OrderBy = [], rd_OrderDesc = False, rd_Limit = 0, rd_Offset = 0\<rparr> in
     obind (Peek (Pop tk)) (\<lambda>tmp tk.
     if tmp = [] then preturn (StRead read) tk
     else obinds (if tmp = ''where'' then obinds (parseWhere tk) (\<lambda>wh tk. preturn (read\<lparr>rd_Where := Some wh\<rparr>) tk)
                  else preturn read tk) (\<lambda>read tk.
       obinds (parseOrderBy tk) (\<lambda>(orderBy, desc) tk.
       obinds (parseLimit tk) (\<lambda>(limit, offset) tk.
       preturn (StRead (read\<lparr>rd_OrderBy := orderBy, rd_OrderDesc := desc, rd_Limit := limit, rd_Offset := offset\<rparr>)) tk))))))))"

text \<open>The fields of a new table: the flag tells whether an index clause follows.\<close>

partial_function (option) createFields :: "Create \<Rightarrow> tokener \<Rightarrow> ((Create \<times> bool) res \<times> tokener) option" where
  "createFields create tk =
     obind (Peek (Pop tk)) (\<lambda>field tk.
     if field = ''('' then Some (Ok (create, True), tk)
     else if \<not> isName field then Some (Err ErrInvalidStat, tk)
     else obind (Peek (Pop tk)) (\<lambda>ftype tk.
     if \<not> isType ftype then Some (Err ErrInvalidStat, tk)
     else let create = create\<lparr>cr_FieldName := cr_FieldName create @ [field], cr_FieldType := cr_FieldType create @ [ftype]\<rparr> in
     obind (Peek (Pop tk)) (\<lambda>next tk.
     if next = '','' then createFields create tk
     else if next = [] then
       obind (Peek tk) (\<lambda>eof tk. if eof \<noteq> [] then Some (Err ErrInvalidStat, tk) else Some (Ok (create, False), tk))
     else if next = ''('' then Some (Ok (create, True), tk)
     else Some (Err ErrInvalidStat, tk))))"

partial_function (option) createIndex :: "Create \<Rightarrow> tokener \<Rightarrow> (Create res \<times> tokener) option" where
  "createIndex create tk =
     obind (Peek (Pop tk)) (\<lambda>field tk.
     if field = '')'' then Some (Ok create, tk)
     else if \<not> isName field then Some (Err ErrInvalidStat, tk)
     else createIndex (create\<lparr>cr_Index := cr_Index create @ [field]\<rparr>) tk)"

definition parseCreate :: "statement parsing" where
  "parseCreate tk =
     obind (Peek tk) (\<lambda>table tk.
     if table \<noteq> ''table'' then pinvalid tk
     else obind (Peek (Pop tk)) (\<lambda>name tk.
     if \<not> isName name then pinvalid tk
     else obinds (createFields \<lparr>cr_TableName = name, cr_FieldName = [], cr_FieldType = [], cr_Index = []\<rparr> tk) (\<lambda>(create, indexed) tk.
     if \<not> indexed then preturn (StCreate create) tk
     else obind (Peek (Pop tk)) (\<lambda>index tk.
     if index \<noteq> ''index'' then pinvalid tk
     else obinds (createIndex create tk) (\<lambda>create tk.
     obind (Peek (Pop tk)) (\<lambda>eof tk.
     if eof \<noteq> [] then pinvalid tk else preturn (StCreate create) tk))))))"

definition parseStat :: "string \<Rightarrow> statement parsing" where
  "parseStat token tk =
     (if token = ''begin'' then parseBegin tk
      else if token = ''commit'' then parseCommit tk
      else if token = ''abort'' then parseAbort tk
      else if token = ''create'' then parseCreate tk
      else if token = ''drop'' then parseDrop tk
      else if token = ''read'' \<or> token = ''select'' then parseRead tk
      else if token = ''insert'' then parseInsert tk
      else if token = ''delete'' then parseDelete tk
      else if token = ''update'' then parseUpdate tk
      else if token = ''show'' then parseShow tk
      else pinvalid tk)"

text \<open>\<open>Parse\<close>: a further token after the statement replaces the outcome by an error; an unknown command returns at once.\<close>

definition Parse :: "bytes \<Rightarrow> statement res option" where
  "Parse stat =
     (case Peek (newTokener stat) of
        (Err e, _) \<Rightarrow> Some (Err e) | (Panic, _) \<Rightarrow> Some Panic
      | (Ok token, tk) \<Rightarrow>
          if token \<notin> {''begin'', ''commit'', ''abort'', ''create'', ''drop'', ''read'', ''select'', ''insert'', ''delete'', ''update'', ''show''}
          then Some (Err ErrInvalidStat)
          else (case parseStat token (Pop tk) of
             None \<Rightarrow> None
           | Some (Panic, _) \<Rightarrow> Some Panic
           | Some (r, tk) \<Rightarrow>
               (case Peek tk of
                  (Ok next, tk) \<Rightarrow> if next \<noteq> [] then Some (Err (ErrUnexpectedToken (ErrStat tk))) else Some r
                | (Panic, _) \<Rightarrow> Some Panic
                | _ \<Rightarrow> Some r)))"

section \<open>Parsing a list of tokens\<close>

text \<open>The tokens of an input without empty tokens, and the tokener in front of a list of tokens (\<open>pk\<close>: the first one has been looked at).\<close>

inductive yields :: "bytes \<Rightarrow> string list \<Rightarrow> bool" where
  yields_end: "lex1 bs = Some ([], []) \<Longrightarrow> yields bs []"
| yields_token: "lex1 bs = Some (t, r) \<Longrightarrow> t \<noteq> [] \<Longrightarrow> yields r ts \<Longrightarrow> yields bs (t # ts)"

inductive_cases yields_NilE: "yields bs []"
inductive_cases yields_ConsE: "yields bs (t # ts)"

definition head0 :: "string list \<Rightarrow> string" where
  "head0 ts = (case ts of [] \<Rightarrow> [] | t # _ \<Rightarrow> t)"

lemma head0_simps [simp]: "head0 [] = []" "head0 (t # ts) = t" by (simp_all add: head0_def)

definition at :: "tokener \<Rightarrow> bool \<Rightarrow> string list \<Rightarrow> bool" where
  "at tk pk ts \<longleftrightarrow> tk_ok tk \<and>
     (if pk then \<not> flushToken tk \<and> curToken tk = head0 ts \<and> [] \<notin> set ts \<and> yields (rest tk) (tl ts)
      else flushToken tk \<and> yields (rest tk) ts)"

lemma yields_nonempty: "yields bs ts \<Longrightarrow> [] \<notin> set ts"
  by (induction rule: yields.induct) auto

lemma at_Peek: "at tk pk ts \<Longrightarrow> \<exists>tk'. Peek tk = (Ok (head0 ts), tk') \<and> at tk' True ts"
proof (cases pk)
  case True
  assume "at tk pk ts"
  then show ?thesis using True Peek_again [of tk] by (auto simp: at_def)
next
  case False
  assume a: "at tk pk ts"
  then have ok: "tk_ok tk" "flushToken tk" "yields (rest tk) ts" using False by (simp_all add: at_def)
  have nil: "yields [] []" by (rule yields_end) (simp add: lex1_def)
  obtain r where r: "lex1 (rest tk) = Some (head0 ts, r)" "yields r (tl ts)"
    using ok(3) nil by (cases rule: yields.cases) auto
  then show ?thesis using Peek_flush [OF ok(1,2)] yields_nonempty [OF ok(3)] by (auto simp: at_def)
qed

lemma at_Pop: "at tk True ts \<Longrightarrow> at (Pop tk) False (tl ts)"
  by (simp add: at_def)

text \<open>A parser turns one list of tokens into a value and another list.\<close>

definition parses :: "'a parsing \<Rightarrow> bool \<Rightarrow> string list \<Rightarrow> 'a \<Rightarrow> bool \<Rightarrow> string list \<Rightarrow> bool" where
  "parses p pk ts x pk' ts' \<longleftrightarrow> (\<forall>tk. at tk pk ts \<longrightarrow> (\<exists>tk'. p tk = Some (Ok x, tk') \<and> at tk' pk' ts'))"

named_theorems parse_rules \<open>symbolic execution of parsers\<close>

lemma parses_unfold: "(\<And>tk. p tk = q tk) \<Longrightarrow> parses q pk ts x pk' ts' \<Longrightarrow> parses p pk ts x pk' ts'"
  by (simp add: parses_def)

lemma parses_peek [parse_rules]: "parses (k (head0 ts)) True ts x pk' ts' \<Longrightarrow> parses (\<lambda>tk. obind (Peek tk) k) pk ts x pk' ts'"
  using at_Peek unfolding parses_def by fastforce

lemma parses_pop [parse_rules]: "parses p False (tl ts) x pk' ts' \<Longrightarrow> parses (\<lambda>tk. p (Pop tk)) True ts x pk' ts'"
  using at_Pop unfolding parses_def by blast

lemma parses_return [parse_rules]: "parses (preturn x) pk ts x pk ts" "parses (\<lambda>tk. preturn x tk) pk ts x pk ts" "parses (\<lambda>tk. Some (Ok x, tk)) pk ts x pk ts"
  by (simp_all add: parses_def preturn_def)

lemma parses_bind [parse_rules]:
  "parses p pk ts y pk1 ts1 \<Longrightarrow> parses (k y) pk1 ts1 x pk' ts' \<Longrightarrow> parses (\<lambda>tk. obinds (p tk) k) pk ts x pk' ts'"
  unfolding parses_def by fastforce

lemma parses_case [parse_rules]:
  "parses (k (head0 ts)) True ts x pk' ts' \<Longrightarrow>
   parses (\<lambda>tk. case Peek tk of (Ok t, tk) \<Rightarrow> k t tk | (Err e, tk) \<Rightarrow> b e tk | (Panic, tk) \<Rightarrow> c tk) pk ts x pk' ts'"
  using at_Peek unfolding parses_def by fastforce

lemmas parses_peek_pop = parses_pop [OF parses_peek]
lemmas parses_case_pop = parses_pop [OF parses_case]

lemma parses_return_pop:
  "parses (\<lambda>tk. preturn x (Pop tk)) True (t # ts) x False ts" "parses (\<lambda>tk. preturn x (Pop tk)) True [] x False []"
  "parses (\<lambda>tk. Some (Ok x, Pop tk)) True (t # ts) x False ts" "parses (\<lambda>tk. Some (Ok x, Pop tk)) True [] x False []"
  using at_Pop by (fastforce simp: parses_def preturn_def)+

lemmas step_rules = parses_return parses_return_pop parses_peek parses_peek_pop parses_case parses_case_pop parses_bind

lemma parses_True: "b \<Longrightarrow> parses p pk ts x pk' ts' \<Longrightarrow> parses (\<lambda>tk. if b then p tk else q tk) pk ts x pk' ts'"
  by simp

lemma parses_False: "\<not> b \<Longrightarrow> parses q pk ts x pk' ts' \<Longrightarrow> parses (\<lambda>tk. if b then p tk else q tk) pk ts x pk' ts'"
  by simp

subsection \<open>Conditions\<close>

fun tok_exp :: "SingleExp \<Rightarrow> string list" where
  "tok_exp e = se_Field e # map (\<lambda>c. [c]) (se_CmpOp e) @ [se_Value e]"

definition wf_exp :: "SingleExp \<Rightarrow> bool" where
  "wf_exp e \<longleftrightarrow> isName (se_Field e) \<and> isCmpOp (se_CmpOp e) \<and> se_Value e \<noteq> ''=''"

lemma parse_exp_fields:
  assumes n: "isName f" and v: "v \<noteq> ''=''" and op: "isCmpOp op"
  shows "parses parseSingleExpr pk (f # map (\<lambda>c. [c]) op @ v # ts) \<lparr>se_Field = f, se_CmpOp = op, se_Value = v\<rparr> False ts"
proof -
  consider "op = ''=''" | "op = ''>''" | "op = ''<''" | "op = ''!=''" | "op = ''<=''" | "op = ''>=''" using op by (auto simp: isCmpOp_def)
  then show ?thesis
    by cases (simp_all only: list.map append.simps, (rule parses_unfold [OF parseSingleExpr_def], (rule step_rules | simp add: n v isCmpOp_def)+)+)
qed

lemma parse_exp: "wf_exp e \<Longrightarrow> parses parseSingleExpr pk (tok_exp e @ ts) e False ts"
  using parse_exp_fields [of "se_Field e" "se_Value e" "se_CmpOp e" pk ts] by (cases e) (simp add: wf_exp_def)

declare tok_exp.simps [simp del]

lemma parse_exp0: "wf_exp e \<Longrightarrow> parses parseSingleExpr pk (tok_exp e) e False []"
  using parse_exp [of e pk "[]"] by simp

definition tok_where :: "Where \<Rightarrow> string list" where
  "tok_where w = ''where'' # tok_exp (wh_SingleExp1 w) @
     (case wh_SingleExp2 w of None \<Rightarrow> [] | Some e \<Rightarrow> wh_LogicOp w # tok_exp e)"

definition wf_where :: "Where \<Rightarrow> bool" where
  "wf_where w \<longleftrightarrow> wf_exp (wh_SingleExp1 w) \<and>
     (case wh_SingleExp2 w of None \<Rightarrow> wh_LogicOp w = [] | Some e \<Rightarrow> isLogicOp (wh_LogicOp w) \<and> wf_exp e)"

lemma parse_where:
  assumes wf: "wf_where w" and ts: "\<not> isLogicOp (head0 ts)" "wh_LogicOp w \<noteq> [] \<Longrightarrow> ts = []"
  shows "parses parseWhere pk (tok_where w @ ts) w True ts"
proof (cases "wh_SingleExp2 w")
  case None
  then have w: "w = \<lparr>wh_SingleExp1 = wh_SingleExp1 w, wh_LogicOp = [], wh_SingleExp2 = None\<rparr>" "wf_exp (wh_SingleExp1 w)"
    using wf by (cases w, simp_all add: wf_where_def)
  have "parses parseWhere pk (''where'' # tok_exp (wh_SingleExp1 w) @ ts) \<lparr>wh_SingleExp1 = wh_SingleExp1 w, wh_LogicOp = [], wh_SingleExp2 = None\<rparr> True ts"
    by (rule parses_unfold [OF parseWhere_def], rule parses_peek, simp, rule parses_bind, rule parses_pop, simp,
        rule parse_exp [OF w(2)], (rule step_rules | simp add: ts(1))+)
  then show ?thesis using w(1) None by (simp add: tok_where_def)
next
  case (Some e)
  then have w: "w = \<lparr>wh_SingleExp1 = wh_SingleExp1 w, wh_LogicOp = wh_LogicOp w, wh_SingleExp2 = Some e\<rparr>" "wf_exp (wh_SingleExp1 w)"
    "isLogicOp (wh_LogicOp w)" "wf_exp e" using wf by (cases w, simp_all add: wf_where_def)
  have ne: "wh_LogicOp w \<noteq> []" using w(3) by (auto simp: isLogicOp_def)
  have "parses parseWhere pk (''where'' # tok_exp (wh_SingleExp1 w) @ wh_LogicOp w # tok_exp e)
      \<lparr>wh_SingleExp1 = wh_SingleExp1 w, wh_LogicOp = wh_LogicOp w, wh_SingleExp2 = Some e\<rparr> True []"
    by (rule parses_unfold [OF parseWhere_def], rule parses_peek, simp, rule parses_bind, rule parses_pop, simp,
        rule parse_exp [OF w(2)], rule parses_peek, simp add: ne w(3), rule parses_bind, rule parses_pop, simp,
        rule parse_exp0 [OF w(4)], (rule step_rules | simp)+)
  then show ?thesis using w(1) Some ts(2) [OF ne] by (simp add: tok_where_def)
qed

lemma parse_where0: "wf_where w \<Longrightarrow> parses parseWhere pk (tok_where w) w True []"
  using parse_where [of w "[]" pk] by (simp add: isLogicOp_def)

subsection \<open>Statements without loops\<close>

definition tok_begin :: "bool \<Rightarrow> string list" where
  "tok_begin rr = (if rr then [''isolation'', ''level'', ''repeatable'', ''read''] else [])"

lemma parse_begin: "parses parseBegin False (tok_begin rr) (StBegin rr) True []"
  by (cases rr; simp add: tok_begin_def; rule parses_unfold [OF parseBegin_def]; (rule step_rules | simp)+)

lemma parse_simple:
  "parses parseCommit False [] StCommit True []" "parses parseAbort False [] StAbort True []" "parses parseShow False [] StShow True []"
  by (rule parses_unfold [OF parseCommit_def], (rule step_rules | simp)+)
    (rule parses_unfold [OF parseAbort_def], (rule step_rules | simp)+,
     rule parses_unfold [OF parseShow_def], (rule step_rules | simp)+)

lemma parse_drop: "isName t \<Longrightarrow> parses parseDrop False [''table'', t] (StDrop t) True []"
  by (rule parses_unfold [OF parseDrop_def], (rule step_rules | simp)+)

lemma parse_delete:
  assumes "isName t" and "wf_where w"
  shows "parses parseDelete False (''from'' # t # tok_where w) (StDelete \<lparr>dl_TableName = t, dl_Where = Some w\<rparr>) True []"
  by (rule parses_unfold [OF parseDelete_def], rule parses_peek, simp, rule parses_peek_pop, simp add: assms(1), rule parses_bind, rule parses_pop,
      simp, rule parse_where0 [OF assms(2)], (rule step_rules | simp)+)

lemma parse_update:
  assumes "t \<noteq> []" and "f \<noteq> []" and "v \<noteq> []" and "\<And>w. wh = Some w \<Longrightarrow> wf_where w"
  shows "parses parseUpdate False (t # ''set'' # f # ''='' # v # (case wh of None \<Rightarrow> [] | Some w \<Rightarrow> tok_where w))
     (StUpdate \<lparr>up_TableName = t, up_FieldName = f, up_Value = v, up_Where = wh\<rparr>) True []"
proof (cases wh)
  case None
  then show ?thesis by (simp, intro parses_unfold [OF parseUpdate_def]) (rule step_rules | simp add: Let_def)+
next
  case (Some w)
  have w: "wf_where w" by (rule assms(4) [OF Some])
  have h: "head0 (tok_where w) = ''where''" by (simp add: tok_where_def)
  show ?thesis unfolding Some option.case
    by (rule parses_unfold [OF parseUpdate_def], (rule step_rules parse_where0 [OF w] | simp add: Let_def h)+)
qed

subsection \<open>Insert\<close>

lemma parse_values: "\<forall>v \<in> set vs. v \<noteq> [] \<Longrightarrow> parses (insertValues acc) True (t # vs) (acc @ vs) True []"
proof (induction vs arbitrary: acc t)
  case Nil
  show ?case by (rule parses_unfold [OF insertValues.simps], (rule step_rules | simp)+)
next
  case (Cons v vs)
  then have "parses (insertValues (acc @ [v])) True (v # vs) (acc @ v # vs) True []" using Cons.IH [of "acc @ [v]" v] by simp
  then show ?case using Cons.prems by (intro parses_unfold [OF insertValues.simps] parses_peek_pop) simp
qed

text \<open>A list with commas between the elements.\<close>

fun comma_sep :: "string list \<Rightarrow> string list" where
  "comma_sep [] = []"
| "comma_sep [v] = [v]"
| "comma_sep (v # w # vs) = v # '','' # comma_sep (w # vs)"

definition plain_value :: "string \<Rightarrow> bool" where
  "plain_value v \<longleftrightarrow> v \<noteq> [] \<and> v \<noteq> ''}'' \<and> v \<noteq> '',''"

lemma parse_row: "\<forall>v \<in> set vs. plain_value v \<Longrightarrow> parses (bulkRow acc) True (t # comma_sep vs @ ''}'' # ts) (acc @ vs) True (''}'' # ts)"
proof (induction vs arbitrary: acc t rule: comma_sep.induct)
  case 1
  show ?case by (rule parses_unfold [OF bulkRow.simps], (rule step_rules | simp)+)
next
  case (2 v)
  have "parses (bulkRow (acc @ [v])) True (v # ''}'' # ts) (acc @ [v]) True (''}'' # ts)"
    by (rule parses_unfold [OF bulkRow.simps], (rule step_rules | simp)+)
  then show ?case using 2 by (intro parses_unfold [OF bulkRow.simps] parses_peek_pop) (simp add: plain_value_def)
next
  case (3 v w vs)
  have "parses (bulkRow (acc @ [v])) True ('','' # comma_sep (w # vs) @ ''}'' # ts) (acc @ v # w # vs) True (''}'' # ts)"
    using "3.IH" [of "acc @ [v]" "'',''"] "3.prems" by simp
  then have "parses (bulkRow (acc @ [v])) True (v # '','' # comma_sep (w # vs) @ ''}'' # ts) (acc @ v # w # vs) True (''}'' # ts)"
    by (intro parses_unfold [OF bulkRow.simps] parses_peek_pop) simp
  then show ?case using 3 by (intro parses_unfold [OF bulkRow.simps] parses_peek_pop) (simp add: plain_value_def)
qed

fun tok_rows :: "string list list \<Rightarrow> string list" where
  "tok_rows [] = []"
| "tok_rows (r # rs) = ''{'' # comma_sep r @ ''}'' # (if rs = [] then [] else '','' # tok_rows rs)"

lemma parse_bulk:
  assumes "rows \<noteq> []" and "\<forall>r \<in> set rows. \<forall>v \<in> set r. plain_value v"
  shows "parses (parseInsertBulk ins) True (tok_rows rows) (StInsert (ins\<lparr>in_ValuesList := in_ValuesList ins @ rows\<rparr>)) True []"
  using assms
proof (induction rows arbitrary: ins)
  case (Cons r rs)
  let ?ins = "ins\<lparr>in_ValuesList := in_ValuesList ins @ [r]\<rparr>"
  have row: "parses (bulkRow []) True (''{'' # comma_sep r @ ''}'' # ts) r True (''}'' # ts)" for ts
    using parse_row [of r "[]" "''{''" ts] Cons.prems by simp
  show ?case
  proof (cases rs)
    case Nil
    show ?thesis unfolding Nil
      by (simp, rule parses_unfold [OF parseInsertBulk.simps], rule parses_bind, rule row) (rule step_rules | simp add: Let_def)+
  next
    case (Cons r2 rs2)
    obtain us where us: "tok_rows rs = ''{'' # us" using Cons by simp
    have ih: "parses (parseInsertBulk ?ins) True (''{'' # us) (StInsert (ins\<lparr>in_ValuesList := in_ValuesList ins @ r # rs\<rparr>)) True []"
      using Cons.IH [of ?ins] Cons.prems Cons unfolding us by simp
    have "parses (parseInsertBulk ins) True (''{'' # comma_sep r @ ''}'' # '','' # ''{'' # us) (StInsert (ins\<lparr>in_ValuesList := in_ValuesList ins @ r # rs\<rparr>)) True []"
      by (rule parses_unfold [OF parseInsertBulk.simps], rule parses_bind, rule row, simp add: Let_def, rule parses_peek_pop, simp,
          rule parses_peek_pop, simp, rule ih)
    then show ?thesis using Cons us by simp
  qed
qed simp

lemma parse_insert:
  assumes "isName t" and "vs \<noteq> []" and "\<forall>v \<in> set vs. v \<noteq> []" and "hd vs \<noteq> ''{''"
  shows "parses parseInsert False (''into'' # t # ''values'' # vs) (StInsert \<lparr>in_TableName = t, in_Values = vs, in_ValuesList = []\<rparr>) True []"
proof -
  obtain v ws where v: "vs = v # ws" using assms(2) by (cases vs) auto
  have "parses (insertValues [v]) True (v # ws) (v # ws) True []" using parse_values [of ws "[v]" v] assms(3) v by simp
  then show ?thesis unfolding v using assms v
    by (intro parses_unfold [OF parseInsert_def]) (rule step_rules | simp add: Let_def | assumption)+
qed

lemma parse_insert_bulk:
  assumes "isName t" and "rows \<noteq> []" and "\<forall>r \<in> set rows. \<forall>v \<in> set r. plain_value v"
  shows "parses parseInsert False (''into'' # t # ''values'' # tok_rows rows) (StInsert \<lparr>in_TableName = t, in_Values = [], in_ValuesList = rows\<rparr>) True []"
proof -
  have h: "head0 (tok_rows rows) = ''{''" using assms(2) by (cases rows) auto
  have b: "parses (parseInsertBulk \<lparr>in_TableName = t, in_Values = [], in_ValuesList = []\<rparr>) True (tok_rows rows)
     (StInsert \<lparr>in_TableName = t, in_Values = [], in_ValuesList = rows\<rparr>) True []"
    using parse_bulk [OF assms(2,3), of "\<lparr>in_TableName = t, in_Values = [], in_ValuesList = []\<rparr>"] by simp
  show ?thesis by (rule parses_unfold [OF parseInsert_def]) (rule step_rules b | simp add: Let_def assms(1) h)+
qed

subsection \<open>Create\<close>

fun tok_fields :: "(string \<times> string) list \<Rightarrow> string list" where
  "tok_fields [] = []"
| "tok_fields [(f, ty)] = [f, ty]"
| "tok_fields ((f, ty) # g # fs) = f # ty # '','' # tok_fields (g # fs)"

definition tok_index :: "string list \<Rightarrow> string list" where
  "tok_index idx = (if idx = [] then [] else [''('', ''index''] @ idx @ ['')''])"

lemma not_name: "isName f \<Longrightarrow> f \<noteq> ''(''" "isName f \<Longrightarrow> f \<noteq> '')''" "isName f \<Longrightarrow> f \<noteq> '',''" "isName f \<Longrightarrow> f \<noteq> ''*''" "isName f \<Longrightarrow> f \<noteq> ''=''"
  by (auto simp: isName_def isAlphaBeta_def)

lemma parse_create_fields:
  assumes "fs \<noteq> []" and "\<forall>(f, ty) \<in> set fs. isName f \<and> isType ty" and "mr = [] \<or> head0 mr = ''(''"
  shows "parses (createFields c) True (t # tok_fields fs @ mr)
     (c\<lparr>cr_FieldName := cr_FieldName c @ map fst fs, cr_FieldType := cr_FieldType c @ map snd fs\<rparr>, mr \<noteq> []) True mr"
  using assms(1,2)
proof (induction fs arbitrary: c t rule: tok_fields.induct)
  case (2 f ty)
  then have n: "isName f" "isType ty" "f \<noteq> ''(''" using not_name(1) [of f] by auto
  show ?case
  proof (cases mr)
    case Nil
    show ?thesis unfolding Nil by (simp, rule parses_unfold [OF createFields.simps]) (rule step_rules | simp add: Let_def n)+
  next
    case (Cons m ms)
    then have m: "m = ''(''" using assms(3) by simp
    show ?thesis unfolding Cons m by (simp, rule parses_unfold [OF createFields.simps]) (rule step_rules | simp add: Let_def n)+
  qed
next
  case (3 f ty g fs)
  have n: "isName f" "isType ty" "f \<noteq> ''(''" using "3.prems" not_name(1) [of f] by auto
  let ?c = "c\<lparr>cr_FieldName := cr_FieldName c @ [f], cr_FieldType := cr_FieldType c @ [ty]\<rparr>"
  have ih: "parses (createFields ?c) True ('','' # tok_fields (g # fs) @ mr)
     (c\<lparr>cr_FieldName := cr_FieldName c @ f # map fst (g # fs), cr_FieldType := cr_FieldType c @ ty # map snd (g # fs)\<rparr>, mr \<noteq> []) True mr"
    using "3.IH" [of ?c "'',''"] "3.prems" by simp
  have "parses (createFields c) True (t # f # ty # '','' # tok_fields (g # fs) @ mr)
     (c\<lparr>cr_FieldName := cr_FieldName c @ f # map fst (g # fs), cr_FieldType := cr_FieldType c @ ty # map snd (g # fs)\<rparr>, mr \<noteq> []) True mr"
    by (rule parses_unfold [OF createFields.simps], rule parses_peek_pop, simp add: n, rule parses_peek_pop, simp add: n Let_def,
        rule parses_peek_pop, simp, rule ih [simplified])
  then show ?case by simp
qed simp

lemma parse_create_index:
  "\<forall>f \<in> set idx. isName f \<Longrightarrow> parses (createIndex c) True (t # idx @ '')'' # ts) (c\<lparr>cr_Index := cr_Index c @ idx\<rparr>) True ('')'' # ts)"
proof (induction idx arbitrary: c t)
  case Nil
  show ?case by (rule parses_unfold [OF createIndex.simps], (rule step_rules | simp)+)
next
  case (Cons f idx)
  have "parses (createIndex (c\<lparr>cr_Index := cr_Index c @ [f]\<rparr>)) True (f # idx @ '')'' # ts) (c\<lparr>cr_Index := cr_Index c @ f # idx\<rparr>) True ('')'' # ts)"
    using Cons.IH [of "c\<lparr>cr_Index := cr_Index c @ [f]\<rparr>" f] Cons.prems by simp
  then show ?case using Cons.prems not_name(2) [of f] by (intro parses_unfold [OF createIndex.simps] parses_peek_pop) simp
qed

definition tok_create :: "Create \<Rightarrow> string list" where
  "tok_create c = ''table'' # cr_TableName c # tok_fields (zip (cr_FieldName c) (cr_FieldType c)) @ tok_index (cr_Index c)"

definition wf_create :: "Create \<Rightarrow> bool" where
  "wf_create c \<longleftrightarrow> isName (cr_TableName c) \<and> cr_FieldName c \<noteq> [] \<and> length (cr_FieldType c) = length (cr_FieldName c) \<and>
     (\<forall>f \<in> set (cr_FieldName c). isName f) \<and> (\<forall>ty \<in> set (cr_FieldType c). isType ty) \<and> (\<forall>f \<in> set (cr_Index c). isName f)"

lemma parse_create: "wf_create c \<Longrightarrow> parses parseCreate False (tok_create c) (StCreate c) True []"
proof -
  assume wf: "wf_create c"
  let ?fs = "zip (cr_FieldName c) (cr_FieldType c)" and ?c0 = "\<lparr>cr_TableName = cr_TableName c, cr_FieldName = [], cr_FieldType = [], cr_Index = []\<rparr>"
  let ?c1 = "c\<lparr>cr_Index := []\<rparr>"
  have fs: "?fs \<noteq> []" "\<forall>(f, ty) \<in> set ?fs. isName f \<and> isType ty" "map fst ?fs = cr_FieldName c" "map snd ?fs = cr_FieldType c"
    using wf by (auto simp: wf_create_def dest: set_zip_leftD set_zip_rightD)
  have n: "isName (cr_TableName c)" using wf by (simp add: wf_create_def)
  have f: "parses (createFields ?c0) True (cr_TableName c # tok_fields ?fs @ tok_index (cr_Index c)) (?c1, cr_Index c \<noteq> []) True (tok_index (cr_Index c))"
    using parse_create_fields [OF fs(1,2), of "tok_index (cr_Index c)" ?c0 "cr_TableName c"] fs(3,4) by (cases c) (auto simp: tok_index_def)
  show ?thesis
  proof (cases "cr_Index c = []")
    case True
    then have c1: "?c1 = c" by (cases c) simp
    have f': "parses (createFields ?c0) True (cr_TableName c # tok_fields ?fs) (c, False) True []"
      using f unfolding c1 by (simp add: True tok_index_def)
    have "parses parseCreate False (''table'' # cr_TableName c # tok_fields ?fs) (StCreate c) True []"
      by (rule parses_unfold [OF parseCreate_def]) (rule step_rules f' | simp add: n)+
    then show ?thesis by (simp add: tok_create_def tok_index_def True)
  next
    case False
    have i: "parses (createIndex ?c1) True (''index'' # cr_Index c @ ['')'']) c True ['')'']"
      using parse_create_index [of "cr_Index c" ?c1 "''index''" "[]"] wf by (cases c) (simp add: wf_create_def)
    have f': "parses (createFields ?c0) True (cr_TableName c # tok_fields ?fs @ ''('' # ''index'' # cr_Index c @ ['')'']) (?c1, True) True (''('' # ''index'' # cr_Index c @ ['')''])"
      using f False by (simp add: tok_index_def)
    have "parses parseCreate False (''table'' # cr_TableName c # tok_fields ?fs @ ''('' # ''index'' # cr_Index c @ ['')'']) (StCreate c) True []"
      by (rule parses_unfold [OF parseCreate_def], rule parses_peek, simp, rule parses_peek_pop, simp add: n, rule parses_bind, rule f', simp,
          rule parses_peek_pop, simp, rule parses_bind, rule i, (rule step_rules | simp)+)
    then show ?thesis using False by (simp add: tok_create_def tok_index_def)
  qed
qed

subsection \<open>Read\<close>

fun tok_item :: "string + Aggregate \<Rightarrow> string list" where
  "tok_item (Inl f) = [f]"
| "tok_item (Inr a) = [ag_Func a, ''('', ag_Field a, '')'']"

fun tok_items :: "(string + Aggregate) list \<Rightarrow> string list" where
  "tok_items [] = []"
| "tok_items [i] = tok_item i"
| "tok_items (i # j # is) = tok_item i @ '','' # tok_items (j # is)"

fun wf_item :: "string + Aggregate \<Rightarrow> bool" where
  "wf_item (Inl f) \<longleftrightarrow> isName f \<and> \<not> isAggFunc f"
| "wf_item (Inr a) \<longleftrightarrow> isAggFunc (ag_Func a) \<and> (isName (ag_Field a) \<or> ag_Field a = ''*'' \<and> ag_Func a = ''count'')"

fun lefts :: "('a + 'b) list \<Rightarrow> 'a list" where
  "lefts [] = []" | "lefts (Inl x # is) = x # lefts is" | "lefts (Inr y # is) = lefts is"

fun rights :: "('a + 'b) list \<Rightarrow> 'b list" where
  "rights [] = []" | "rights (Inl x # is) = rights is" | "rights (Inr y # is) = y # rights is"

lemma parse_aggregate:
  assumes "wf_item (Inr a)"
  shows "parses (parseAggregate (ag_Func a)) True (tok_item (Inr a) @ ts) a False ts"
proof -
  have f: "ag_Field a = ''*'' \<and> ag_Func a = ''count'' \<or> isName (ag_Field a)" using assms by auto
  have "parses (parseAggregate (ag_Func a)) True (ag_Func a # ''('' # ag_Field a # '')'' # ts) \<lparr>ag_Func = ag_Func a, ag_Field = ag_Field a\<rparr> False ts"
    by (rule parses_unfold [OF parseAggregate_def]) (rule step_rules | simp add: f)+
  then show ?thesis by (cases a) simp
qed

text \<open>One item, then the loop goes on or stops.\<close>

lemma parse_item:
  assumes "wf_item i" and "parses (\<lambda>tk. obind (Peek tk) (\<lambda>comma tk.
      if comma = '','' then readFields (fs @ lefts [i]) (as @ rights [i]) (Pop tk) else Some (Ok (fs @ lefts [i], as @ rights [i]), tk))) False ts x True ts'"
  shows "parses (readFields fs as) pk (tok_item i @ ts) x True ts'"
proof (cases i)
  case (Inl f)
  then have n: "isName f" "\<not> isAggFunc f" using assms(1) by simp_all
  note rest = assms(2) [unfolded Inl lefts.simps rights.simps append_Nil2]
  show ?thesis unfolding Inl
    by (rule parses_unfold [OF readFields.simps], rule parses_peek, simp add: n, rule parses_pop, simp, rule rest)
next
  case (Inr a)
  then have n: "isAggFunc (ag_Func a)" using assms(1) by simp
  have w: "wf_item (Inr a)" using assms(1) Inr by simp
  note rest = assms(2) [unfolded Inr lefts.simps rights.simps append_Nil2]
  show ?thesis unfolding Inr
    by (rule parses_unfold [OF readFields.simps], rule parses_peek, simp add: n, rule parses_bind, rule parses_bind, rule parse_aggregate [OF w, simplified],
        rule parses_return, simp, rule rest)
qed

lemma parse_items:
  assumes "is \<noteq> []" and "\<forall>i \<in> set is. wf_item i" and "head0 ts \<noteq> '',''"
  shows "parses (readFields fs as) pk (tok_items is @ ts) (fs @ lefts is, as @ rights is) True ts"
  using assms(1,2)
proof (induction "is" arbitrary: fs as pk rule: tok_items.induct)
  case (2 i)
  have "parses (readFields fs as) pk (tok_item i @ ts) (fs @ lefts [i], as @ rights [i]) True ts"
  proof (rule parse_item)
    show "wf_item i" using 2 by simp
    show "parses (\<lambda>tk. obind (Peek tk) (\<lambda>comma tk. if comma = '','' then readFields (fs @ lefts [i]) (as @ rights [i]) (Pop tk)
         else Some (Ok (fs @ lefts [i], as @ rights [i]), tk))) False ts (fs @ lefts [i], as @ rights [i]) True ts"
      by (rule parses_peek, simp only: assms(3) if_False, rule parses_return)
  qed
  then show ?case by simp
next
  case (3 i j "is")
  have "parses (readFields fs as) pk (tok_item i @ '','' # tok_items (j # is) @ ts)
     ((fs @ lefts [i]) @ lefts (j # is), (as @ rights [i]) @ rights (j # is)) True ts"
  proof (rule parse_item)
    show "wf_item i" using 3 by simp
    have "parses (readFields (fs @ lefts [i]) (as @ rights [i])) False (tok_items (j # is) @ ts)
       ((fs @ lefts [i]) @ lefts (j # is), (as @ rights [i]) @ rights (j # is)) True ts" by (rule "3.IH") (use "3.prems" in simp_all)
    from parses_pop [of "readFields (fs @ lefts [i]) (as @ rights [i])" "'','' # tok_items (j # is) @ ts", simplified, OF this]
    show "parses (\<lambda>tk. obind (Peek tk) (\<lambda>comma tk. if comma = '','' then readFields (fs @ lefts [i]) (as @ rights [i]) (Pop tk)
         else Some (Ok (fs @ lefts [i], as @ rights [i]), tk))) False ('','' # tok_items (j # is) @ ts)
       ((fs @ lefts [i]) @ lefts (j # is), (as @ rights [i]) @ rights (j # is)) True ts"
      by (intro parses_peek) simp
  qed
  then show ?case by (cases i) simp_all
qed simp

lemma strToInt_append: "strToIntLoop (cs @ ds) n = rbind (strToIntLoop cs n) (strToIntLoop ds)"
  by (induction cs arbitrary: n) auto

lemma strToInt_digit: "d < 10 \<Longrightarrow> strToIntLoop [char_of (48 + d)] n = Ok (n * 10 + of_nat d)"
proof -
  assume d: "d < 10"
  then have "d = 0 \<or> d = 1 \<or> d = 2 \<or> d = 3 \<or> d = 4 \<or> d = 5 \<or> d = 6 \<or> d = 7 \<or> d = 8 \<or> d = 9" by arith
  then show ?thesis by (elim disjE) (simp_all add: char_of_def bit_0)
qed

lemma strToInt_Format: "strToIntLoop (FormatUint n) 0 = Ok (of_nat n)"
proof (induction n rule: FormatUint.induct)
  case (1 n)
  show ?case
  proof (cases "n < 10")
    case True
    then show ?thesis by (subst FormatUint.simps) (simp add: strToInt_digit del: strToIntLoop.simps)
  next
    case False
    have "of_nat (n div 10) * 10 + of_nat (n mod 10) = (of_nat n :: uint64)"
      by (metis div_mult_mod_eq of_nat_add of_nat_mult of_nat_numeral)
    then show ?thesis using 1 False by (subst FormatUint.simps) (simp add: strToInt_append strToInt_digit del: strToIntLoop.simps)
  qed
qed

lemma utilsStrToInt_Format: "0 \<le> i \<Longrightarrow> i < 2 ^ 63 \<Longrightarrow> utilsStrToInt (FormatUint (nat i)) = Ok i"
proof -
  assume i: "0 \<le> i" "i < 2 ^ 63"
  then have "sint (of_int i :: uint64) = i" by (simp add: signed_of_int signed_take_bit_int_eq_self)
  then show ?thesis using i by (simp add: utilsStrToInt_def strToInt_Format)
qed

definition tok_order :: "string \<Rightarrow> bool \<Rightarrow> string list" where
  "tok_order f desc = (if f = [] then [] else [''order'', ''by'', f] @ (if desc then [''desc''] else []))"

definition tok_limit :: "int \<Rightarrow> int \<Rightarrow> string list" where
  "tok_limit l off = (if l = 0 \<and> off = 0 then [] else [''limit'', FormatUint (nat l)] @ (if off = 0 then [] else [''offset'', FormatUint (nat off)]))"

lemma parse_order:
  assumes "isName f" and "f = [] \<longrightarrow> \<not> desc" and "head0 ts \<noteq> ''order''" "head0 ts \<noteq> ''desc''" "head0 ts \<noteq> ''asc''"
  shows "\<exists>pk'. parses parseOrderBy True (tok_order f desc @ ts) (f, desc) pk' ts"
proof (cases "f = []")
  case True
  then have "parses parseOrderBy True ts ([], False) True ts"
    by (intro parses_unfold [OF parseOrderBy_def]) (rule step_rules | simp add: assms(3))+
  then show ?thesis using True assms(2) by (auto simp: tok_order_def)
next
  case False
  show ?thesis
  proof (cases desc)
    case True
    have "parses parseOrderBy True (''order'' # ''by'' # f # ''desc'' # ts) (f, True) False ts"
      by (rule parses_unfold [OF parseOrderBy_def]) (rule step_rules | simp add: assms(1))+
    then show ?thesis using False True by (auto simp: tok_order_def)
  next
    case d: False
    have "parses parseOrderBy True (''order'' # ''by'' # f # ts) (f, False) True ts"
      by (rule parses_unfold [OF parseOrderBy_def]) (rule step_rules | simp add: assms(1,4,5))+
    then show ?thesis using False d by (auto simp: tok_order_def)
  qed
qed

lemma parse_limit:
  assumes "0 \<le> l" "l < 2 ^ 63" "0 \<le> off" "off < 2 ^ 63"
  shows "\<exists>pk'. parses parseLimit pk (tok_limit l off) (l, off) pk' []"
proof -
  note n = utilsStrToInt_Format [OF assms(1,2)] utilsStrToInt_Format [OF assms(3,4)]
  consider "l = 0" "off = 0" | "\<not> (l = 0 \<and> off = 0)" "off = 0" | "\<not> (l = 0 \<and> off = 0)" "off \<noteq> 0" by blast
  then show ?thesis
  proof cases
    case 1
    then have "parses parseLimit pk [] (l, off) True []"
      by (intro parses_unfold [OF parseLimit_def]) (rule step_rules | simp)+
    then show ?thesis using 1 by (auto simp: tok_limit_def)
  next
    case 2
    then have "parses parseLimit pk [''limit'', FormatUint (nat l)] (l, 0) True []"
      by (intro parses_unfold [OF parseLimit_def]) (rule step_rules | simp add: n)+
    then show ?thesis using 2 by (auto simp: tok_limit_def)
  next
    case 3
    then have "parses parseLimit pk [''limit'', FormatUint (nat l), ''offset'', FormatUint (nat off)] (l, off) False []"
      by (intro parses_unfold [OF parseLimit_def]) (rule step_rules | simp add: n)+
    then show ?thesis using 3 by (auto simp: tok_limit_def)
  qed
qed

definition items_of :: "Read \<Rightarrow> (string + Aggregate) list" where
  "items_of r = map Inl (rd_Fields r) @ map Inr (rd_Aggregates r)"

definition tok_read :: "Read \<Rightarrow> string list" where
  "tok_read r = tok_items (items_of r) @ ''from'' # rd_TableName r # (case rd_Where r of None \<Rightarrow> [] | Some w \<Rightarrow> tok_where w) @
     tok_order (rd_OrderBy r) (rd_OrderDesc r) @ tok_limit (rd_Limit r) (rd_Offset r)"

text \<open>A condition with \<open>and\<close> or \<open>or\<close> has to end the statement.\<close>

definition wf_read :: "Read \<Rightarrow> bool" where
  "wf_read r \<longleftrightarrow> isName (rd_TableName r) \<and>
     (rd_Fields r = [''*''] \<and> rd_Aggregates r = [] \<or> items_of r \<noteq> [] \<and> (\<forall>i \<in> set (items_of r). wf_item i)) \<and>
     (\<forall>w. rd_Where r = Some w \<longrightarrow> wf_where w \<and>
        (wh_LogicOp w \<noteq> [] \<longrightarrow> rd_OrderBy r = [] \<and> rd_Limit r = 0 \<and> rd_Offset r = 0)) \<and>
     isName (rd_OrderBy r) \<and> (rd_OrderBy r = [] \<longrightarrow> \<not> rd_OrderDesc r) \<and>
     0 \<le> rd_Limit r \<and> rd_Limit r < 2 ^ 63 \<and> 0 \<le> rd_Offset r \<and> rd_Offset r < 2 ^ 63"

lemma lefts_rights [simp]: "lefts (map Inl xs @ map Inr ys) = xs" "rights (map Inl xs @ map Inr ys) = ys"
proof -
  have "lefts (map Inr ys) = []" "rights (map Inr ys) = ys" by (induction ys) simp_all
  then show "lefts (map Inl xs @ map Inr ys) = xs" "rights (map Inl xs @ map Inr ys) = ys" by (induction xs) simp_all
qed

lemma parse_read_items:
  assumes "wf_read r"
  shows "parses (\<lambda>tk. if head0 (tok_items (items_of r) @ ''from'' # ts) = ''*'' then preturn ([''*''], []) (Pop tk) else readFields [] [] tk) True
    (tok_items (items_of r) @ ''from'' # ts) (rd_Fields r, rd_Aggregates r) (rd_Fields r \<noteq> [''*''] \<or> rd_Aggregates r \<noteq> []) (''from'' # ts)"
proof (cases "rd_Fields r = [''*''] \<and> rd_Aggregates r = []")
  case True
  then show ?thesis by (simp add: items_of_def parses_return_pop)
next
  case False
  then have i: "items_of r \<noteq> []" "\<forall>i \<in> set (items_of r). wf_item i" using assms by (auto simp: wf_read_def)
  obtain j js where j: "items_of r = j # js" "wf_item j" using i by (cases "items_of r") auto
  have "head0 (tok_item j @ us) \<noteq> ''*''" for us using j(2) not_name(4) by (cases j) (auto simp: isAggFunc_def)
  then have "head0 (tok_items (j # js) @ ''from'' # ts) \<noteq> ''*''" by (cases js) auto
  moreover have "parses (readFields [] []) True (tok_items (items_of r) @ ''from'' # ts) (rd_Fields r, rd_Aggregates r) True (''from'' # ts)"
    using parse_items [OF i, of "''from'' # ts" "[]" "[]" True] by (simp add: items_of_def)
  ultimately show ?thesis using False j(1) by simp
qed

lemma parse_tail:
  assumes "wf_read r"
  shows "\<exists>pk'. parses (\<lambda>tk. obinds (parseOrderBy tk) (\<lambda>(orderBy, desc) tk. obinds (parseLimit tk) (\<lambda>(limit, offset) tk.
       preturn (StRead (r0\<lparr>rd_OrderBy := orderBy, rd_OrderDesc := desc, rd_Limit := limit, rd_Offset := offset\<rparr>)) tk)))
     True (tok_order (rd_OrderBy r) (rd_OrderDesc r) @ tok_limit (rd_Limit r) (rd_Offset r))
     (StRead (r0\<lparr>rd_OrderBy := rd_OrderBy r, rd_OrderDesc := rd_OrderDesc r, rd_Limit := rd_Limit r, rd_Offset := rd_Offset r\<rparr>)) pk' []"
proof -
  have h: "head0 (tok_limit (rd_Limit r) (rd_Offset r)) \<in> {[], ''limit''}" by (simp add: tok_limit_def)
  obtain pk1 where o: "parses parseOrderBy True (tok_order (rd_OrderBy r) (rd_OrderDesc r) @ tok_limit (rd_Limit r) (rd_Offset r)) (rd_OrderBy r, rd_OrderDesc r) pk1
      (tok_limit (rd_Limit r) (rd_Offset r))"
    using parse_order [of "rd_OrderBy r" "rd_OrderDesc r" "tok_limit (rd_Limit r) (rd_Offset r)"] assms h by (auto simp: wf_read_def)
  obtain pk2 where l: "parses parseLimit pk1 (tok_limit (rd_Limit r) (rd_Offset r)) (rd_Limit r, rd_Offset r) pk2 []"
    using parse_limit [of "rd_Limit r" "rd_Offset r" pk1] assms by (auto simp: wf_read_def)
  show ?thesis by (intro exI [of _ pk2], rule parses_bind, rule o, simp, rule parses_bind, rule l, simp, rule parses_return)
qed

lemma parse_read:
  assumes wf: "wf_read r"
  shows "\<exists>pk'. parses parseRead False (tok_read r) (StRead r) pk' []"
proof -
  let ?tail = "tok_order (rd_OrderBy r) (rd_OrderDesc r) @ tok_limit (rd_Limit r) (rd_Offset r)"
  let ?wt = "case rd_Where r of None \<Rightarrow> [] | Some w \<Rightarrow> tok_where w"
  let ?r0 = "\<lparr>rd_TableName = rd_TableName r, rd_Fields = rd_Fields r, rd_Aggregates = rd_Aggregates r, rd_Where = None,
       rd_OrderBy = [], rd_OrderDesc = False, rd_Limit = 0, rd_Offset = 0\<rparr>"
  have n: "isName (rd_TableName r)" using wf by (simp add: wf_read_def)
  have h: "head0 ?tail \<in> {[], ''order'', ''limit''}" by (simp add: tok_order_def tok_limit_def)
  let ?go = "\<lambda>read tk. obinds (parseOrderBy tk) (\<lambda>(orderBy, desc) tk. obinds (parseLimit tk) (\<lambda>(limit, offset) tk.
       preturn (StRead (read\<lparr>rd_OrderBy := orderBy, rd_OrderDesc := desc, rd_Limit := limit, rd_Offset := offset\<rparr>)) tk))"
  let ?cont = "\<lambda>tmp tk. if tmp = [] then preturn (StRead ?r0) tk
     else obinds (if tmp = ''where'' then obinds (parseWhere tk) (\<lambda>wh tk. preturn (?r0\<lparr>rd_Where := Some wh\<rparr>) tk) else preturn ?r0 tk) ?go"
  have "\<exists>pk'. parses (?cont (head0 (?wt @ ?tail))) True (?wt @ ?tail) (StRead r) pk' []"
  proof (cases "rd_Where r")
    case None
    show ?thesis
    proof (cases "?tail = []")
      case True
      then have "?r0 = r" using None wf by (cases r) (auto simp: tok_order_def tok_limit_def wf_read_def split: if_splits)
      then have "parses (preturn (StRead ?r0)) True [] (StRead r) True []" by (simp add: parses_return)
      then show ?thesis using True None by auto
    next
      case False
      then have t: "head0 ?tail \<noteq> []" "head0 ?tail \<noteq> ''where''" by (auto simp: tok_order_def tok_limit_def)
      have fin: "?r0\<lparr>rd_OrderBy := rd_OrderBy r, rd_OrderDesc := rd_OrderDesc r, rd_Limit := rd_Limit r, rd_Offset := rd_Offset r\<rparr> = r"
        using None by (cases r) simp
      obtain pk' where g: "parses (?go ?r0) True ?tail (StRead r) pk' []" using parse_tail [OF wf, of ?r0, unfolded fin] ..
      have "parses (\<lambda>tk. obinds (preturn ?r0 tk) ?go) True ?tail (StRead r) pk' []" by (rule parses_bind, rule parses_return, rule g)
      then show ?thesis using None t by auto
    qed
  next
    case (Some w)
    have w: "wf_where w" "wh_LogicOp w \<noteq> [] \<Longrightarrow> ?tail = []" using wf Some by (auto simp: wf_read_def tok_order_def tok_limit_def)
    have hw: "head0 (tok_where w @ ?tail) = ''where''" by (simp add: tok_where_def)
    have p: "parses parseWhere True (tok_where w @ ?tail) w True ?tail" by (rule parse_where [OF w(1)]) (use h w(2) in \<open>auto simp: isLogicOp_def\<close>)
    have fin: "?r0\<lparr>rd_Where := Some w, rd_OrderBy := rd_OrderBy r, rd_OrderDesc := rd_OrderDesc r, rd_Limit := rd_Limit r, rd_Offset := rd_Offset r\<rparr> = r"
      using Some by (cases r) simp
    obtain pk' where g: "parses (?go (?r0\<lparr>rd_Where := Some w\<rparr>)) True ?tail (StRead r) pk' []"
      using parse_tail [OF wf, of "?r0\<lparr>rd_Where := Some w\<rparr>", unfolded fin] ..
    have "parses (\<lambda>tk. obinds (obinds (parseWhere tk) (\<lambda>wh tk. preturn (?r0\<lparr>rd_Where := Some wh\<rparr>) tk)) ?go) True (tok_where w @ ?tail) (StRead r) pk' []"
      by (rule parses_bind, rule parses_bind, rule p, rule parses_return, rule g)
    then show ?thesis using Some hw by auto
  qed
  then obtain pk' where c: "parses (?cont (head0 (?wt @ ?tail))) True (?wt @ ?tail) (StRead r) pk' []" ..
  have t: "tok_read r = tok_items (items_of r) @ ''from'' # rd_TableName r # ?wt @ ?tail" by (simp add: tok_read_def)
  have "parses parseRead False (tok_read r) (StRead r) pk' []" unfolding t
    by (rule parses_unfold [OF parseRead_def], rule parses_peek, rule parses_bind, rule parse_read_items [OF wf], simp only: prod.case,
        rule parses_peek, simp only: head0_simps if_False simp_thms, rule parses_peek_pop, simp only: head0_simps list.sel n if_False simp_thms Let_def,
        rule parses_peek_pop, simp only: list.sel, rule c)
  then show ?thesis ..
qed

section \<open>Printing\<close>

definition word_token :: "string \<Rightarrow> bool" where
  "word_token t \<longleftrightarrow> t \<noteq> [] \<and> (\<forall>c \<in> set t. alnum (byte_of c))"

text \<open>Words and symbols are printed as they are, everything else in double quotes; a blank comes before each token.\<close>

definition lit :: "string \<Rightarrow> bytes" where
  "lit t = (if word_token t \<or> length t = 1 \<and> isSymbol (byte_of (hd t)) then str_bytes t else byte_of CHR 0x22 # str_bytes t @ [byte_of CHR 0x22])"

definition render :: "string list \<Rightarrow> bytes" where
  "render ts = concat (map (\<lambda>t. byte_of CHR '' '' # lit t) ts)"

definition printable :: "string \<Rightarrow> bool" where
  "printable t \<longleftrightarrow> t \<noteq> [] \<and> CHR 0x22 \<notin> set t"

lemma str_bytes_byte_of: "str_bytes s = map byte_of s"
  by (simp add: str_bytes_def of_nat_of_char)

lemma byte_of_inj: "byte_of c = byte_of d \<longleftrightarrow> c = d"
proof
  assume "byte_of c = byte_of d"
  then have "unat (of_nat (of_char c) :: byte) = unat (of_nat (of_char d) :: byte)" by (simp add: of_nat_of_char)
  then have "(of_char c :: nat) = of_char d" by (simp add: unat_of_nat of_char_less_256)
  then show "c = d" by simp
qed simp

lemma blank_space [simp]: "isBlank 32" "\<not> isAlphaBeta 32" "\<not> isDigital 32"
  by (simp_all add: isBlank_def isAlphaBeta_def isDigital_def)

lemma alnum_not: "isAlphaBeta b \<or> isDigital b \<Longrightarrow> \<not> isBlank b \<and> \<not> isSymbol b \<and> \<not> quote_byte b"
  by (auto simp: isAlphaBeta_def isDigital_def isBlank_def isSymbol_def word_le_nat_alt)

lemma symbol_not_blank: "isSymbol b \<Longrightarrow> \<not> isBlank b"
  by (auto simp: isSymbol_def isBlank_def)

lemma render_Cons: "render (t # ts) = 32 # lit t @ render ts" by (simp add: render_def)

lemma render_start: "render ts = [] \<or> (\<exists>r. render ts = 32 # r)" by (cases ts) (simp_all add: render_Cons, simp add: render_def)

lemma yields_skip1: "yields bs ts \<Longrightarrow> yields (skip1 bs) ts"
proof -
  assume y: "yields bs ts"
  have "lex1 (skip1 bs) = lex1 bs" by (cases bs) (auto simp: skip1_def lex1_blank)
  with y show ?thesis by (cases rule: yields.cases) (auto intro: yields.intros)
qed

lemma lex_word:
  assumes "word_token t"
  shows "lex1 (str_bytes t @ render ts) = Some (t, skip1 (render ts))"
proof -
  obtain c cs where t: "t = c # cs" using assms by (cases t) (auto simp: word_token_def)
  have al: "\<forall>b \<in> set (str_bytes t). alnum b" using assms by (auto simp: word_token_def str_bytes_byte_of)
  have tw: "takeWhile alnum (str_bytes t @ render ts) = str_bytes t" "dropWhile alnum (str_bytes t @ render ts) = render ts"
    using al render_start [of ts] by (auto simp: takeWhile_append2 dropWhile_append2)
  have b: "alnum (byte_of c)" using assms t by (simp add: word_token_def)
  obtain r where r: "str_bytes t @ render ts = byte_of c # r" by (simp add: t str_bytes_byte_of)
  have "lex1 (byte_of c # r) = Some (bytes_str (takeWhile alnum (byte_of c # r)), skip1 (dropWhile alnum (byte_of c # r)))"
    unfolding lex1_def using alnum_not [OF b] b by auto
  then show ?thesis using tw unfolding r by simp
qed

lemma lex_quoted:
  assumes "CHR 0x22 \<notin> set t"
  shows "lex1 (byte_of CHR 0x22 # str_bytes t @ byte_of CHR 0x22 # r) = Some (t, r)"
proof -
  have q: "\<forall>b \<in> set (str_bytes t). b \<noteq> byte_of CHR 0x22" using assms byte_of_inj [of _ "CHR 0x22"] by (auto simp: str_bytes_byte_of)
  then have "takeWhile (\<lambda>b. b \<noteq> byte_of CHR 0x22) (str_bytes t @ byte_of CHR 0x22 # r) = str_bytes t"
    "dropWhile (\<lambda>b. b \<noteq> byte_of CHR 0x22) (str_bytes t @ byte_of CHR 0x22 # r) = byte_of CHR 0x22 # r"
    by (auto simp: takeWhile_append2 dropWhile_append2)
  moreover have "\<not> isBlank (byte_of CHR 0x22)" "\<not> isSymbol (byte_of CHR 0x22)" by (simp_all add: isBlank_def isSymbol_def)
  ultimately show ?thesis by (simp add: lex1_def)
qed

lemma yields_render: "\<forall>t \<in> set ts. printable t \<Longrightarrow> yields (render ts) ts"
proof (induction ts)
  case Nil
  show ?case by (rule yields_end) (simp add: render_def lex1_def)
next
  case (Cons t ts)
  then have p: "t \<noteq> []" "CHR 0x22 \<notin> set t" and ih: "yields (render ts) ts" by (auto simp: printable_def)
  have l: "lex1 (render (t # ts)) = lex1 (lit t @ render ts)" unfolding render_Cons by (rule lex1_blank) simp
  consider "word_token t" | "\<not> word_token t" "length t = 1 \<and> isSymbol (byte_of (hd t))" | "\<not> (word_token t \<or> length t = 1 \<and> isSymbol (byte_of (hd t)))" by blast
  then show ?case
  proof cases
    case 1
    then show ?thesis using l lex_word [of t ts] yields_skip1 [OF ih] p by (intro yields_token [of _ _ "skip1 (render ts)"]) (auto simp: lit_def)
  next
    case 2
    then obtain c where c: "t = [c]" by (cases t) auto
    have "lex1 (lit t @ render ts) = Some (t, render ts)"
      using 2 c symbol_not_blank [of "byte_of c"] bytes_str_str_bytes [of "[c]"] by (simp add: lit_def lex1_def str_bytes_byte_of)
    then show ?thesis using l p ih by (intro yields_token) auto
  next
    case 3
    have "lex1 (lit t @ render ts) = Some (t, render ts)" using 3 lex_quoted [OF p(2), of "render ts"] by (auto simp: lit_def)
    then show ?thesis using l p ih by (intro yields_token) auto
  qed
qed

text \<open>The tokens of a statement.\<close>

fun toks :: "statement \<Rightarrow> string list" where
  "toks (StBegin rr) = ''begin'' # tok_begin rr"
| "toks StCommit = [''commit'']"
| "toks StAbort = [''abort'']"
| "toks StShow = [''show'']"
| "toks (StDrop t) = [''drop'', ''table'', t]"
| "toks (StCreate c) = ''create'' # tok_create c"
| "toks (StUpdate u) = ''update'' # up_TableName u # ''set'' # up_FieldName u # ''='' # up_Value u #
     (case up_Where u of None \<Rightarrow> [] | Some w \<Rightarrow> tok_where w)"
| "toks (StDelete d) = ''delete'' # ''from'' # dl_TableName d # (case dl_Where d of None \<Rightarrow> [] | Some w \<Rightarrow> tok_where w)"
| "toks (StInsert i) = ''insert'' # ''into'' # in_TableName i # ''values'' # (if in_ValuesList i = [] then in_Values i else tok_rows (in_ValuesList i))"
| "toks (StRead r) = ''read'' # tok_read r"

fun wf_statement :: "statement \<Rightarrow> bool" where
  "wf_statement (StDrop t) \<longleftrightarrow> isName t"
| "wf_statement (StCreate c) \<longleftrightarrow> wf_create c"
| "wf_statement (StUpdate u) \<longleftrightarrow> (\<forall>w. up_Where u = Some w \<longrightarrow> wf_where w)"
| "wf_statement (StDelete d) \<longleftrightarrow> isName (dl_TableName d) \<and> (\<exists>w. dl_Where d = Some w \<and> wf_where w)"
| "wf_statement (StInsert i) \<longleftrightarrow> isName (in_TableName i) \<and>
     (in_ValuesList i = [] \<and> in_Values i \<noteq> [] \<and> hd (in_Values i) \<noteq> ''{'' \<or>
      in_Values i = [] \<and> in_ValuesList i \<noteq> [] \<and> (\<forall>r \<in> set (in_ValuesList i). \<forall>v \<in> set r. plain_value v))"
| "wf_statement (StRead r) \<longleftrightarrow> wf_read r"
| "wf_statement _ \<longleftrightarrow> True"

lemma Parse_tokens:
  assumes "yields bs (kw # ts)" and "parses (parseStat kw) False ts s pk []"
    and "kw \<in> {''begin'', ''commit'', ''abort'', ''create'', ''drop'', ''read'', ''select'', ''insert'', ''delete'', ''update'', ''show''}"
  shows "Parse bs = Some (Ok s)"
proof -
  have "at (newTokener bs) False (kw # ts)" using assms(1) by (simp add: at_def)
  then obtain tk where tk: "Peek (newTokener bs) = (Ok kw, tk)" "at tk True (kw # ts)" using at_Peek by fastforce
  have "at (Pop tk) False ts" using at_Pop [OF tk(2)] by simp
  then obtain tk2 where t2: "parseStat kw (Pop tk) = Some (Ok s, tk2)" "at tk2 pk []" using assms(2) unfolding parses_def by blast
  obtain tk3 where "Peek tk2 = (Ok [], tk3)" using at_Peek [OF t2(2)] by auto
  then show ?thesis using tk(1) t2(1) assms(3) by (simp add: Parse_def)
qed

lemma parseStat_keyword [simp]:
  "parseStat ''begin'' = parseBegin" "parseStat ''commit'' = parseCommit" "parseStat ''abort'' = parseAbort" "parseStat ''create'' = parseCreate"
  "parseStat ''drop'' = parseDrop" "parseStat ''read'' = parseRead" "parseStat ''select'' = parseRead" "parseStat ''insert'' = parseInsert"
  "parseStat ''delete'' = parseDelete" "parseStat ''update'' = parseUpdate" "parseStat ''show'' = parseShow"
  by (simp_all add: parseStat_def fun_eq_iff)

lemma parse_toks:
  assumes "wf_statement s" and "\<forall>t \<in> set (toks s). printable t"
  shows "\<exists>pk. parses (parseStat (hd (toks s))) False (tl (toks s)) s pk []"
proof (cases s)
  case (StBegin rr) then show ?thesis using parse_begin [of rr] by auto
next
  case StCommit then show ?thesis using parse_simple(1) by auto
next
  case StAbort then show ?thesis using parse_simple(2) by auto
next
  case StShow then show ?thesis using parse_simple(3) by auto
next
  case (StDrop t) then show ?thesis using parse_drop [of t] assms(1) by auto
next
  case (StCreate c) then show ?thesis using parse_create [of c] assms(1) by auto
next
  case (StUpdate u)
  then have "up_TableName u \<noteq> []" "up_FieldName u \<noteq> []" "up_Value u \<noteq> []" using assms(2) by (auto simp: printable_def)
  from parse_update [OF this, of "up_Where u"] StUpdate assms(1) show ?thesis by (cases u) auto
next
  case (StDelete d)
  then obtain w where "dl_Where d = Some w" "wf_where w" "isName (dl_TableName d)" using assms(1) by auto
  then show ?thesis using parse_delete [of "dl_TableName d" w] StDelete by (cases d) auto
next
  case (StInsert i)
  show ?thesis
  proof (cases "in_ValuesList i = []")
    case True
    then have "in_Values i \<noteq> []" "\<forall>v \<in> set (in_Values i). v \<noteq> []" "hd (in_Values i) \<noteq> ''{''" "isName (in_TableName i)"
      using assms StInsert by (auto simp: printable_def)
    then show ?thesis using parse_insert [of "in_TableName i" "in_Values i"] StInsert True by (cases i) auto
  next
    case False
    then have "isName (in_TableName i)" "\<forall>r \<in> set (in_ValuesList i). \<forall>v \<in> set r. plain_value v" "in_Values i = []" using assms(1) StInsert by auto
    then show ?thesis using parse_insert_bulk [of "in_TableName i" "in_ValuesList i"] StInsert False by (cases i) auto
  qed
next
  case (StRead r) then show ?thesis using parse_read [of r] assms(1) by auto
qed

section \<open>Termination\<close>

text \<open>A parser that returns on every input, whatever the outcome, and leaves the tokener inside its input, not behind where it was.\<close>

definition returns :: "'a parsing \<Rightarrow> bool" where
  "returns p \<longleftrightarrow> (\<forall>tk. tk_in tk \<longrightarrow> (\<exists>r tk'. p tk = Some (r, tk') \<and> moves tk tk'))"

lemma tk_in_Pop [simp]: "tk_in (Pop tk) = tk_in tk" "moves (Pop tk) tk' = moves tk tk'" "moves tk (Pop tk') = moves tk tk'"
  by (simp_all add: tk_in_def Pop_def moves_def)

lemma returnsD: "returns p \<Longrightarrow> tk_in tk \<Longrightarrow> \<exists>r tk'. p tk = Some (r, tk') \<and> moves tk tk'"
  by (simp add: returns_def)

lemma returns_obind:
  assumes "\<And>x tk1. r = Ok x \<Longrightarrow> tk1 = tk' \<Longrightarrow> \<exists>r tk2. k x tk1 = Some (r, tk2) \<and> moves tk' tk2" and "moves tk tk'"
  shows "\<exists>r' tk2. obind (r, tk') k = Some (r', tk2) \<and> moves tk tk2"
  using assms moves_trans by (cases r) (auto, blast)

named_theorems returns_rules \<open>parsers that return\<close>

lemma returns_unfold: "(\<And>tk. p tk = q tk) \<Longrightarrow> returns q \<Longrightarrow> returns p" by (simp add: returns_def)

lemma returns_peek [returns_rules]:
  assumes "\<And>x. returns (k x)" shows "returns (\<lambda>tk. obind (Peek tk) k)"
  unfolding returns_def
proof (intro allI impI)
  fix tk assume "tk_in tk"
  then have m: "moves tk (snd (Peek tk))" by (rule Peek_moves)
  obtain r tk' where p: "Peek tk = (r, tk')" by fastforce
  show "\<exists>r tk'. obind (Peek tk) k = Some (r, tk') \<and> moves tk tk'" unfolding p
    by (rule returns_obind) (use m p assms returnsD moves_in in \<open>auto, blast\<close>)
qed

lemma returns_pop [returns_rules]: "returns p \<Longrightarrow> returns (\<lambda>tk. p (Pop tk))"
  by (simp add: returns_def) (metis tk_in_Pop)

lemma returns_bind [returns_rules]:
  assumes "returns p" and "\<And>x. returns (k x)" shows "returns (\<lambda>tk. obinds (p tk) k)"
  unfolding returns_def
proof (intro allI impI)
  fix tk assume "tk_in tk"
  then obtain r tk' where p: "p tk = Some (r, tk')" and m: "moves tk tk'" using returnsD [OF assms(1)] by blast
  show "\<exists>r tk'. obinds (p tk) k = Some (r, tk') \<and> moves tk tk'" unfolding p obinds_simps
    by (rule returns_obind) (use m assms(2) returnsD moves_in in \<open>auto, blast\<close>)
qed

lemma returns_case [returns_rules]:
  assumes "\<And>x. returns (k x)" "\<And>e. returns (b e)" "returns c"
  shows "returns (\<lambda>tk. case Peek tk of (Ok t, tk) \<Rightarrow> k t tk | (Err e, tk) \<Rightarrow> b e tk | (Panic, tk) \<Rightarrow> c tk)"
  unfolding returns_def
proof (intro allI impI)
  fix tk assume "tk_in tk"
  then have m: "moves tk (snd (Peek tk))" by (rule Peek_moves)
  obtain r tk' where p: "Peek tk = (r, tk')" by fastforce
  have i: "tk_in tk'" and m: "moves tk tk'" using m p moves_in by auto
  show "\<exists>r tk'. (case Peek tk of (Ok t, tk) \<Rightarrow> k t tk | (Err e, tk) \<Rightarrow> b e tk | (Panic, tk) \<Rightarrow> c tk) = Some (r, tk') \<and> moves tk tk'"
    using returnsD [OF assms(1) i] returnsD [OF assms(2) i] returnsD [OF assms(3) i] moves_trans [OF m] unfolding p
    by (cases r) (simp_all, blast+)
qed

lemma returns_leaf [returns_rules]:
  "returns (preturn x)" "returns (\<lambda>tk. preturn x tk)" "returns pinvalid" "returns (\<lambda>tk. pinvalid tk)" "returns (\<lambda>tk. Some (r, tk))"
  "returns (\<lambda>tk. preturn x (Pop tk))" "returns (\<lambda>tk. Some (r, Pop tk))"
  by (auto simp: returns_def preturn_def pinvalid_def moves_refl)

lemma returns_if [returns_rules]: "returns p \<Longrightarrow> returns q \<Longrightarrow> returns (\<lambda>tk. if b then p tk else q tk)"
  by (cases b) (simp_all add: returns_def)

lemma returns_res [returns_rules]:
  "(\<And>x. returns (k x)) \<Longrightarrow> (\<And>e. returns (b e)) \<Longrightarrow> returns c \<Longrightarrow> returns (\<lambda>tk. case r of Ok x \<Rightarrow> k x tk | Err e \<Rightarrow> b e tk | Panic \<Rightarrow> c tk)"
  by (cases r) simp_all

lemma returns_pair [returns_rules]: "(\<And>x y. returns (k x y)) \<Longrightarrow> returns (\<lambda>tk. case z of (x, y) \<Rightarrow> k x y tk)"
  "(\<And>x y. returns (k x y)) \<Longrightarrow> returns (case z of (x, y) \<Rightarrow> k x y)"
  by (cases z; simp)+

lemmas returns_peek_pop [returns_rules] = returns_pop [OF returns_peek]
lemmas returns_case_pop [returns_rules] = returns_pop [OF returns_case]

lemma returns_simple [returns_rules]: "returns parseShow" "returns parseCommit" "returns parseAbort"
  by (rule returns_unfold [OF parseShow_def] returns_unfold [OF parseCommit_def] returns_unfold [OF parseAbort_def], (rule returns_rules)+)+

lemma returns_begin: "returns parseBegin"
  by (rule returns_unfold [OF parseBegin_def], (rule returns_rules)+)

lemma returns_drop: "returns parseDrop"
  by (rule returns_unfold [OF parseDrop_def], (rule returns_rules)+)

lemma returns_exp [returns_rules]: "returns parseSingleExpr" "returns (\<lambda>tk. parseSingleExpr (Pop tk))"
proof -
  show "returns parseSingleExpr"
    by (rule returns_unfold [OF parseSingleExpr_def]) (unfold Let_def, (rule returns_peek_pop returns_peek returns_bind returns_pop [OF returns_if] returns_rules)+)
  then show "returns (\<lambda>tk. parseSingleExpr (Pop tk))" by (rule returns_pop)
qed

lemma returns_where [returns_rules]: "returns parseWhere" "returns (\<lambda>tk. parseWhere (Pop tk))"
proof -
  show "returns parseWhere" by (rule returns_unfold [OF parseWhere_def], (rule returns_rules)+)
  then show "returns (\<lambda>tk. parseWhere (Pop tk))" by (rule returns_pop)
qed

lemma returns_update: "returns parseUpdate"
  by (rule returns_unfold [OF parseUpdate_def], unfold Let_def, (rule returns_rules)+)

lemma returns_delete: "returns parseDelete"
  by (rule returns_unfold [OF parseDelete_def], (rule returns_rules)+)

lemma returns_order: "returns parseOrderBy"
  by (rule returns_unfold [OF parseOrderBy_def], (rule returns_rules)+)

lemma returns_limit: "returns parseLimit"
  by (rule returns_unfold [OF parseLimit_def], (rule returns_rules)+)

text \<open>The loops: each round looks at a token that is not empty and so uses up input.\<close>

lemma moves_left: "moves tk tk' \<Longrightarrow> tk_left tk' \<le> tk_left tk" by (auto simp: moves_def)

lemma Peek_flushed_uses:
  assumes "tk_in tk" "flushToken tk" "Peek tk = (Ok t, tk')" "t \<noteq> []"
  shows "tk_left tk' < tk_left tk"
proof -
  have "Pop tk = tk" using assms(2) by (simp add: Pop_def)
  then show ?thesis using Peek_uses [of tk t tk'] assms by simp
qed

lemma returns_insertValues: "returns (insertValues vs)"
  unfolding returns_def
proof (intro allI impI)
  fix tk assume "tk_in tk"
  then show "\<exists>r tk'. insertValues vs tk = Some (r, tk') \<and> moves tk tk'"
  proof (induction "tk_left tk" arbitrary: tk vs rule: less_induct)
    case less
    have m: "moves tk (snd (Peek (Pop tk)))" using Peek_moves [of "Pop tk"] less.prems by simp
    obtain r tk' where p: "Peek (Pop tk) = (r, tk')" by fastforce
    note ih = less.hyps [OF Peek_uses [OF less.prems]]
    show ?case unfolding insertValues.simps [of vs tk] p
      by (rule returns_obind) (use m p ih moves_refl moves_in in auto)
  qed
qed

lemma returns_bulkRow_less:
  assumes "tk_in tk"
  shows "\<exists>r tk'. bulkRow row tk = Some (r, tk') \<and> moves tk tk' \<and> (\<forall>x. r = Ok x \<longrightarrow> tk_left tk' < tk_left tk)"
  using assms
proof (induction "tk_left tk" arbitrary: tk row rule: less_induct)
  case less
  have m: "moves tk (snd (Peek (Pop tk)))" using Peek_moves [of "Pop tk"] less.prems by simp
  obtain r tk' where p: "Peek (Pop tk) = (r, tk')" by fastforce
  have mv: "moves tk tk'" "tk_in tk'" using m p moves_in by auto
  show ?case
  proof (cases r)
    case (Ok t)
    show ?thesis
    proof (cases "t = [] \<or> t = ''}''")
      case True
      then show ?thesis using Peek_uses [OF less.prems p [unfolded Ok]] mv by (subst bulkRow.simps) (auto simp: p Ok)
    next
      case False
      then have l: "tk_left tk' < tk_left tk" using Peek_uses [OF less.prems p [unfolded Ok]] by simp
      obtain r2 tk2 where i: "bulkRow (if t = '','' then row else row @ [t]) tk' = Some (r2, tk2)" "moves tk' tk2" "\<forall>x. r2 = Ok x \<longrightarrow> tk_left tk2 < tk_left tk'"
        using less.hyps [OF l mv(2)] by blast
      have "bulkRow row tk = Some (r2, tk2)" using i(1) False by (subst bulkRow.simps) (auto simp: p Ok)
      then show ?thesis using i(3) l moves_trans [OF mv(1) i(2)] by fastforce
    qed
  qed (subst bulkRow.simps, simp add: p mv)+
qed

lemma returns_parseInsertBulk: "returns (parseInsertBulk ins)"
  unfolding returns_def
proof (intro allI impI)
  fix tk assume "tk_in tk"
  then show "\<exists>r tk'. parseInsertBulk ins tk = Some (r, tk') \<and> moves tk tk'"
  proof (induction "tk_left tk" arbitrary: tk ins rule: less_induct)
    case less
    obtain r tk1 where b: "bulkRow [] tk = Some (r, tk1)" "moves tk tk1" "\<forall>x. r = Ok x \<longrightarrow> tk_left tk1 < tk_left tk"
      using returns_bulkRow_less [OF less.prems] by blast
    show ?case unfolding parseInsertBulk.simps [of ins tk] b(1) obinds_simps
    proof (rule returns_obind [OF _ b(2)])
      fix row tk1' assume r: "r = Ok row" and t: "tk1' = tk1"
      let ?ins = "ins\<lparr>in_ValuesList := in_ValuesList ins @ [row]\<rparr>"
      have ih: "tk_in tk' \<Longrightarrow> moves tk1 tk' \<Longrightarrow> \<exists>r tk''. parseInsertBulk ?ins tk' = Some (r, tk'') \<and> moves tk' tk''" for tk'
        using less.hyps [of tk'] moves_left [of tk1 tk'] b(3) r by auto
      obtain r2 tk2 where p2: "Peek (Pop tk1) = (r2, tk2)" by fastforce
      have m2: "moves tk1 tk2" using Peek_moves [of "Pop tk1"] p2 moves_in [OF b(2)] by simp
      obtain r3 tk3 where p3: "Peek (Pop tk2) = (r3, tk3)" by fastforce
      have m3: "moves tk2 tk3" using Peek_moves [of "Pop tk2"] p3 moves_in [OF m2] by simp
      have "\<exists>r4 tk4. obind (r3, tk3) (\<lambda>br tk. if br \<noteq> ''{'' then Some (Err ErrInvalidStat, tk) else parseInsertBulk ?ins tk) = Some (r4, tk4) \<and> moves tk2 tk4"
        by (rule returns_obind [OF _ m3]) (use ih [OF moves_in [OF m3] moves_trans [OF m2 m3]] moves_refl [OF moves_in [OF m3]] in auto)
      then have "\<exists>r4 tk4. obind (r2, tk2) (\<lambda>next tk.
          if next = [] then Some (Ok (StInsert ?ins), tk)
          else if next = '','' then
            obind (Peek (Pop tk)) (\<lambda>br tk. if br \<noteq> ''{'' then Some (Err ErrInvalidStat, tk) else parseInsertBulk ?ins tk)
          else Some (Err ErrInvalidStat, tk)) = Some (r4, tk4) \<and> moves tk1 tk4"
        by (intro returns_obind [OF _ m2]) (use moves_refl [OF moves_in [OF m2]] p3 in auto)
      then show "\<exists>r tk2. (let ins = ?ins in obind (Peek (Pop tk1')) (\<lambda>next tk.
          if next = [] then Some (Ok (StInsert ins), tk)
          else if next = '','' then
            obind (Peek (Pop tk)) (\<lambda>br tk. if br \<noteq> ''{'' then Some (Err ErrInvalidStat, tk) else parseInsertBulk ins tk)
          else Some (Err ErrInvalidStat, tk))) = Some (r, tk2) \<and> moves tk1 tk2"
        unfolding Let_def t p2 .
    qed
  qed
qed

lemma returns_insert: "returns parseInsert"
  by (rule returns_unfold [OF parseInsert_def], unfold Let_def, (rule returns_rules returns_parseInsertBulk returns_insertValues)+)

lemma returns_aggregate: "returns (parseAggregate f)"
  by (rule returns_unfold [OF parseAggregate_def], (rule returns_rules)+)

lemma aggregate_flushed: "parseAggregate f tk = Some (Ok x, tk') \<Longrightarrow> flushToken tk'"
  by (auto simp: parseAggregate_def preturn_def pinvalid_def obind_def Pop_def split: res.splits if_splits prod.splits)

lemma returns_readFields: "returns (readFields flds aggs)"
  unfolding returns_def
proof (intro allI impI)
  fix tk assume "tk_in tk"
  then show "\<exists>r tk'. readFields flds aggs tk = Some (r, tk') \<and> moves tk tk'"
  proof (induction "tk_left tk" arbitrary: tk flds aggs rule: less_induct)
    case less
    obtain r1 tk1 where p1: "Peek tk = (r1, tk1)" by fastforce
    have m1: "moves tk tk1" using Peek_moves [OF less.prems] p1 by simp
    show ?case unfolding readFields.simps [of flds aggs tk] p1
    proof (rule returns_obind [OF _ m1])
      fix field tk1' assume t: "tk1' = tk1"
      let ?item = "if isAggFunc field then obinds (parseAggregate field tk1) (\<lambda>agg tk. Some (Ok (flds, aggs @ [agg]), tk))
             else if isName field then Some (Ok (flds @ [field], aggs), Pop tk1) else Some (Err ErrInvalidStat, tk1)"
      obtain r2 tk2 where i: "?item = Some (r2, tk2)" "moves tk1 tk2" "\<forall>x. r2 = Ok x \<longrightarrow> flushToken tk2"
      proof -
        obtain ra tka where a: "parseAggregate field tk1 = Some (ra, tka)" "moves tk1 tka"
          using returnsD [OF returns_aggregate moves_in [OF m1]] by blast
        then show thesis using that aggregate_flushed [of field tk1 _ tka] moves_refl [OF moves_in [OF m1]]
          by (cases ra; cases "isAggFunc field"; cases "isName field") (fastforce simp: Pop_def moves_def tk_in_def)+
      qed
      obtain r3 tk3 where p3: "Peek tk2 = (r3, tk3)" by fastforce
      have m3: "moves tk2 tk3" using Peek_moves [OF moves_in [OF i(2)]] p3 by simp
      have ih: "\<exists>r tk''. readFields fl ag (Pop tk3) = Some (r, tk'') \<and> moves tk3 tk''" if "r2 = Ok x" "r3 = Ok '',''" for x fl ag
      proof -
        have "tk_left tk3 < tk_left tk2" using Peek_flushed_uses [OF moves_in [OF i(2)] _ p3 [unfolded that(2)]] i(3) that(1) by simp
        then have "tk_left (Pop tk3) < tk_left tk" using moves_left [OF i(2)] moves_left [OF m1] by (simp add: Pop_def)
        then show ?thesis using less.hyps [of "Pop tk3" fl ag] moves_in [OF m3] by simp
      qed
      have "\<exists>r4 tk4. obind (r2, tk2) (\<lambda>(flds, aggs) tk. obind (Peek tk) (\<lambda>comma tk.
          if comma = '','' then readFields flds aggs (Pop tk) else Some (Ok (flds, aggs), tk))) = Some (r4, tk4) \<and> moves tk1 tk4"
      proof (rule returns_obind [OF _ i(2)])
        fix x tk2' assume x: "r2 = Ok x" and t2: "tk2' = tk2"
        obtain fl ag where fa: "x = (fl, ag)" by fastforce
        have "\<exists>r4 tk4. obind (r3, tk3) (\<lambda>comma tk. if comma = '','' then readFields fl ag (Pop tk) else Some (Ok (fl, ag), tk)) = Some (r4, tk4) \<and> moves tk2 tk4"
          by (rule returns_obind [OF _ m3]) (use ih [OF x] moves_refl [OF moves_in [OF m3]] in auto)
        then show "\<exists>r4 tk4. (case x of (flds, aggs) \<Rightarrow> \<lambda>tk. obind (Peek tk) (\<lambda>comma tk.
          if comma = '','' then readFields flds aggs (Pop tk) else Some (Ok (flds, aggs), tk))) tk2' = Some (r4, tk4) \<and> moves tk2 tk4"
          by (simp add: fa t2 p3)
      qed
      then show "\<exists>r tk2. obinds (if isAggFunc field then obinds (parseAggregate field tk1') (\<lambda>agg tk. Some (Ok (flds, aggs @ [agg]), tk))
             else if isName field then Some (Ok (flds @ [field], aggs), Pop tk1') else Some (Err ErrInvalidStat, tk1')) (\<lambda>(flds, aggs) tk.
         obind (Peek tk) (\<lambda>comma tk. if comma = '','' then readFields flds aggs (Pop tk) else Some (Ok (flds, aggs), tk))) = Some (r, tk2) \<and> moves tk1 tk2"
        unfolding t i(1) obinds_simps .
    qed
  qed
qed

lemma returns_read: "returns parseRead"
  by (rule returns_unfold [OF parseRead_def], unfold Let_def, (rule returns_rules returns_readFields returns_order returns_limit)+)

lemma returns_stat: "token \<noteq> ''create'' \<Longrightarrow> returns (parseStat token)"
  by (rule returns_unfold [OF parseStat_def], simp only: if_False,
      (rule returns_if returns_simple returns_begin returns_drop returns_read returns_insert returns_delete returns_update returns_leaf)+)

subsection \<open>Parsers that never return\<close>

definition hangs :: "'a parsing \<Rightarrow> bool \<Rightarrow> string list \<Rightarrow> bool" where
  "hangs p pk ts \<longleftrightarrow> (\<forall>tk. at tk pk ts \<longrightarrow> p tk = None)"

lemma hangs_unfold: "(\<And>tk. p tk = q tk) \<Longrightarrow> hangs q pk ts \<Longrightarrow> hangs p pk ts"
  by (simp add: hangs_def)

lemma hangs_peek: "hangs (k (head0 ts)) True ts \<Longrightarrow> hangs (\<lambda>tk. obind (Peek tk) k) pk ts"
  using at_Peek unfolding hangs_def by fastforce

lemma hangs_pop: "hangs p False (tl ts) \<Longrightarrow> hangs (\<lambda>tk. p (Pop tk)) True ts"
  using at_Pop unfolding hangs_def by blast

lemmas hangs_peek_pop = hangs_pop [OF hangs_peek]

lemma hangs_bind: "parses p pk ts y pk1 ts1 \<Longrightarrow> hangs (k y) pk1 ts1 \<Longrightarrow> hangs (\<lambda>tk. obinds (p tk) k) pk ts"
  unfolding hangs_def parses_def by fastforce

lemma hangs_first: "hangs p pk ts \<Longrightarrow> hangs (\<lambda>tk. obinds (p tk) k) pk ts"
  unfolding hangs_def by simp

text \<open>The end of the input is an empty token, and the empty string counts as a name.\<close>

lemma empty_name: "isName []" by (simp add: isName_def)

lemma createIndex_hangs:
  assumes "\<forall>x \<in> set (tl ts). isName x"
  shows "hangs (createIndex c) True ts"
proof -
  have "createIndex c tk = Some z \<Longrightarrow> \<not> (\<exists>ts. at tk True ts \<and> (\<forall>x \<in> set (tl ts). isName x))" for tk z
  proof (rule createIndex.raw_induct [of "\<lambda>_ tk _. \<not> (\<exists>ts. at tk True ts \<and> (\<forall>x \<in> set (tl ts). isName x))", rotated], assumption)
    fix loop :: "Create \<Rightarrow> tokener \<Rightarrow> (Create res \<times> tokener) option" and c tk z
    assume ih: "\<And>c tk z. loop c tk = Some z \<Longrightarrow> \<not> (\<exists>ts. at tk True ts \<and> (\<forall>x \<in> set (tl ts). isName x))"
      and r: "obind (Peek (Pop tk)) (\<lambda>field tk. if field = '')'' then Some (Ok c, tk) else if \<not> isName field then Some (Err ErrInvalidStat, tk)
         else loop (c\<lparr>cr_Index := cr_Index c @ [field]\<rparr>) tk) = Some z"
    show "\<not> (\<exists>ts. at tk True ts \<and> (\<forall>x \<in> set (tl ts). isName x))"
    proof
      assume "\<exists>ts. at tk True ts \<and> (\<forall>x \<in> set (tl ts). isName x)"
      then obtain ts where ts: "at tk True ts" "\<forall>x \<in> set (tl ts). isName x" by blast
      obtain tk' where p: "Peek (Pop tk) = (Ok (head0 (tl ts)), tk')" "at tk' True (tl ts)" using at_Peek [OF at_Pop [OF ts(1)]] by blast
      have n: "isName (head0 (tl ts))" using ts(2) empty_name by (cases "tl ts") auto
      have "loop (c\<lparr>cr_Index := cr_Index c @ [head0 (tl ts)]\<rparr>) tk' = Some z" using r n not_name(2) [OF n] by (simp add: p(1))
      moreover have "\<forall>x \<in> set (tl (tl ts)). isName x" using ts(2) by (cases "tl ts") auto
      ultimately show False using ih p(2) by blast
    qed
  qed
  then show ?thesis using assms unfolding hangs_def by (metis not_Some_eq)
qed

lemma Parse_hangs:
  assumes "yields bs (''create'' # ts)" and "hangs parseCreate False ts"
  shows "Parse bs = None"
proof -
  have "at (newTokener bs) False (''create'' # ts)" using assms(1) by (simp add: at_def)
  then obtain tk where tk: "Peek (newTokener bs) = (Ok ''create'', tk)" "at tk True (''create'' # ts)" using at_Peek by fastforce
  have "at (Pop tk) False ts" using at_Pop [OF tk(2)] by simp
  then show ?thesis using tk(1) assms(2) by (simp add: Parse_def hangs_def)
qed

lemma Parse_render:
  assumes "wf_statement s" and "\<forall>t \<in> set (toks s). printable t"
  shows "Parse (render (toks s)) = Some (Ok s)"
proof -
  obtain kw ts where k: "toks s = kw # ts"
    "kw \<in> {''begin'', ''commit'', ''abort'', ''create'', ''drop'', ''read'', ''select'', ''insert'', ''delete'', ''update'', ''show''}"
    by (cases s) auto
  obtain pk where "parses (parseStat kw) False ts s pk []" using parse_toks [OF assms] k(1) by auto
  then show ?thesis using Parse_tokens [OF _ _ k(2)] yields_render [OF assms(2)] k(1) by metis
qed

section \<open>Properties\<close>

text \<open>C21. Parsing a printed statement: for every statement of every kind that the language can express (names are not single symbols, values are
  not empty and hold no double quote, a combined condition ends the statement), printing it token by token and
  parsing the text gives back exactly that statement.\<close>

theorem parse_print:
  assumes "wf_statement s" and "\<forall>t \<in> set (toks s). printable t"
  shows "Parse (render (toks s)) = Some (Ok s)"
  by (rule Parse_render [OF assms])

theorem parse_print_witness:
  "Parse (render [''read'', ''name'', ''from'', ''people'', ''where'', ''age'', ''<'', ''='', ''30'', ''order'', ''by'', ''age'', ''desc'', ''limit'', ''5'']) =
     Some (Ok (StRead \<lparr>rd_TableName = ''people'', rd_Fields = [''name''], rd_Aggregates = [],
       rd_Where = Some \<lparr>wh_SingleExp1 = \<lparr>se_Field = ''age'', se_CmpOp = ''<='', se_Value = ''30''\<rparr>, wh_LogicOp = [], wh_SingleExp2 = None\<rparr>,
       rd_OrderBy = ''age'', rd_OrderDesc = True, rd_Limit = 5, rd_Offset = 0\<rparr>))"
proof -
  let ?r = "\<lparr>rd_TableName = ''people'', rd_Fields = [''name''], rd_Aggregates = [],
       rd_Where = Some \<lparr>wh_SingleExp1 = \<lparr>se_Field = ''age'', se_CmpOp = ''<='', se_Value = ''30''\<rparr>, wh_LogicOp = [], wh_SingleExp2 = None\<rparr>,
       rd_OrderBy = ''age'', rd_OrderDesc = True, rd_Limit = 5, rd_Offset = 0\<rparr>"
  have t: "toks (StRead ?r) = [''read'', ''name'', ''from'', ''people'', ''where'', ''age'', ''<'', ''='', ''30'', ''order'', ''by'', ''age'', ''desc'', ''limit'', ''5'']"
    by (simp add: tok_read_def items_of_def tok_where_def tok_exp.simps tok_order_def tok_limit_def FormatUint.simps char_of_def bit_0)
  have "wf_statement (StRead ?r)"
    by (simp add: wf_read_def items_of_def wf_where_def wf_exp_def isCmpOp_def isName_def isAggFunc_def)
  moreover have "\<forall>t \<in> set (toks (StRead ?r)). printable t" unfolding t by (simp add: printable_def)
  ultimately show ?thesis using parse_print [of "StRead ?r"] unfolding t by blast
qed

text \<open>C22. Parsing ends: on every input, well-formed or not, that is not a \<open>create\<close> statement, \<open>Parse\<close> returns, with a statement or an error.\<close>

theorem parse_terminates:
  assumes "\<forall>tk. Peek (newTokener stat) \<noteq> (Ok ''create'', tk)"
  shows "\<exists>r. Parse stat = Some r"
proof -
  obtain r tk where p: "Peek (newTokener stat) = (r, tk)" by fastforce
  have "tk_in (newTokener stat)" by (simp add: tk_in_def newTokener_def)
  then have i: "tk_in (Pop tk)" using Peek_moves [of "newTokener stat"] p moves_in by simp
  have stat: "\<exists>r' tk'. parseStat token (Pop tk) = Some (r', tk')" if "r = Ok token" for token
  proof -
    have "token \<noteq> ''create''" using assms [rule_format, of tk] unfolding p that by simp
    from returnsD [OF returns_stat [OF this] i] show ?thesis by blast
  qed
  show ?thesis
  proof (cases r)
    case (Ok token)
    obtain r1 tk1 where s: "parseStat token (Pop tk) = Some (r1, tk1)" using stat [OF Ok] by blast
    obtain r2 tk2 where "Peek tk1 = (r2, tk2)" by fastforce
    then show ?thesis unfolding Parse_def p by (cases r1; cases r2) (simp_all add: Ok s)
  qed (simp_all add: Parse_def p)
qed

text \<open>At the unfinished statement \<open>insert into t values {1,\<close>.\<close>

theorem parse_terminates_witness:
  "\<exists>r. Parse (render [''insert'', ''into'', ''t'', ''values'', ''{'', ''1'', '','']) = Some r"
proof (rule parse_terminates, intro allI)
  let ?bs = "render [''insert'', ''into'', ''t'', ''values'', ''{'', ''1'', '','']"
  fix tk
  have "yields ?bs [''insert'', ''into'', ''t'', ''values'', ''{'', ''1'', '','']" by (rule yields_render) (simp add: printable_def)
  then have "at (newTokener ?bs) False [''insert'', ''into'', ''t'', ''values'', ''{'', ''1'', '','']" by (simp add: at_def)
  then show "Peek (newTokener ?bs) \<noteq> (Ok ''create'', tk)" using at_Peek by fastforce
qed

text \<open>An index clause that is not closed: \<open>create table t f type, ... (index f g\<close> without the closing parenthesis makes the parser
  loop forever, since the empty token at the end of the input passes for the name of a field to index.\<close>

lemma create_unclosed_index_hangs:
  assumes "isName t" and "fs \<noteq> []" and "\<forall>(f, ty) \<in> set fs. isName f \<and> isType ty" and "\<forall>f \<in> set idx. isName f"
    and "\<forall>x \<in> set (t # tok_fields fs @ idx). printable x"
  shows "Parse (render (''create'' # ''table'' # t # tok_fields fs @ [''('', ''index''] @ idx)) = None"
proof -
  let ?mr = "[''('', ''index''] @ idx" and ?c0 = "\<lparr>cr_TableName = t, cr_FieldName = [], cr_FieldType = [], cr_Index = []\<rparr>"
  have f: "parses (createFields ?c0) True (t # tok_fields fs @ ?mr) (?c0\<lparr>cr_FieldName := map fst fs, cr_FieldType := map snd fs\<rparr>, True) True ?mr"
    using parse_create_fields [OF assms(2,3), of ?mr ?c0 t] by simp
  have "hangs parseCreate False (''table'' # t # tok_fields fs @ ?mr)"
    by (rule hangs_unfold [OF parseCreate_def], rule hangs_peek, simp, rule hangs_peek_pop, simp add: assms(1), rule hangs_bind, rule f [simplified],
        simp, rule hangs_peek_pop, simp, rule hangs_first, rule createIndex_hangs, simp add: assms(4))
  moreover have "yields (render (''create'' # ''table'' # t # tok_fields fs @ ?mr)) (''create'' # ''table'' # t # tok_fields fs @ ?mr)"
    using assms(5) by (intro yields_render) (auto simp: printable_def)
  ultimately show ?thesis by (rule Parse_hangs [rotated])
qed


end
