(* ===== verification/Field.thy ===== *)
theory Field
  imports Sm BTree Parser "HOL-Library.Char_ord" "HOL-Library.List_Lexorder"
begin

text \<open>
  The fields of a table (\<^verbatim>\<open>tbm/field.go\<close>): field records on disk, the values of a field with their encodings, their order and
  their index keys, and the key range of a condition. A Go \<open>interface{}\<close> holding a value is a \<open>value\<close>, with \<open>VNil\<close> for
  \<open>nil\<close>; a type assertion on a value of another type panics. \<open>FType\<close> is a string, as on disk: the \<open>switch\<close> statements have no
  default case, so a field of an unknown type has no values. Operations that use the tree or other transactions may not end and
  are then \<open>None\<close>.
\<close>

section \<open>Values\<close>

datatype "value" = VNil | VUint32 uint32 | VUint64 uint64 | VString string

record field =
  f_SelfUUID :: UUID
  f_FName :: string
  f_FType :: string
  f_index :: UUID
  f_bt :: "bPlusTree option"

definition typeCheck :: "string \<Rightarrow> unit res" where
  "typeCheck ftype = (if ftype \<noteq> ''uint32'' \<and> ftype \<noteq> ''uint64'' \<and> ftype \<noteq> ''string'' then Err ErrInvalidFieldType else Ok ())"

definition IsIndexed :: "field \<Rightarrow> bool" where
  "IsIndexed f \<longleftrightarrow> f_index f \<noteq> NilUUID"

definition f_Print :: "field \<Rightarrow> string" where
  "f_Print f = ''('' @ f_FName f @ '','' @ f_FType f @ (if f_index f \<noteq> NilUUID then '', Index'' else '', NoIndex'') @ '')''"

definition StrToValue :: "field \<Rightarrow> string \<Rightarrow> value res" where
  "StrToValue f valStr =
     (if f_FType f = ''uint32'' then rbind (StrToUint32 valStr) (\<lambda>v. Ok (VUint32 v))
      else if f_FType f = ''uint64'' then rbind (StrToUint64 valStr) (\<lambda>v. Ok (VUint64 v))
      else if f_FType f = ''string'' then Ok (VString valStr)
      else Ok VNil)"

text \<open>The type assertions \<open>v.(uint32)\<close>, \<open>v.(uint64)\<close> and \<open>v.(string)\<close>.\<close>

definition asUint32 :: "value \<Rightarrow> uint32 res" where
  "asUint32 v = (case v of VUint32 x \<Rightarrow> Ok x | _ \<Rightarrow> Panic)"

definition asUint64 :: "value \<Rightarrow> uint64 res" where
  "asUint64 v = (case v of VUint64 x \<Rightarrow> Ok x | _ \<Rightarrow> Panic)"

definition asString :: "value \<Rightarrow> string res" where
  "asString v = (case v of VString x \<Rightarrow> Ok x | _ \<Rightarrow> Panic)"

definition ValueToRaw :: "field \<Rightarrow> value \<Rightarrow> bytes res" where
  "ValueToRaw f v =
     (if f_FType f = ''uint32'' then rbind (asUint32 v) (\<lambda>x. Ok (Uint32ToRaw x))
      else if f_FType f = ''uint64'' then rbind (asUint64 v) (\<lambda>x. Ok (Uint64ToRaw x))
      else if f_FType f = ''string'' then rbind (asString v) (\<lambda>x. Ok (VarStrToRaw x))
      else Ok [])"

definition ParseValue :: "field \<Rightarrow> bytes \<Rightarrow> (value \<times> nat) res" where
  "ParseValue f raw =
     (if f_FType f = ''uint32'' then rbind (ParseUint32 raw) (\<lambda>v. Ok (VUint32 v, 4))
      else if f_FType f = ''uint64'' then rbind (ParseUint64 raw) (\<lambda>v. Ok (VUint64 v, 8))
      else if f_FType f = ''string'' then rbind (ParseVarStr raw) (\<lambda>(v, shift). Ok (VString v, shift))
      else Ok (VNil, 0))"

definition ValueToUUID :: "field \<Rightarrow> value \<Rightarrow> UUID res" where
  "ValueToUUID f v =
     (if f_FType f = ''uint32'' then rbind (asUint32 v) (\<lambda>x. Ok (ucast x))
      else if f_FType f = ''uint64'' then rbind (asUint64 v) (\<lambda>x. Ok x)
      else if f_FType f = ''string'' then rbind (asString v) (\<lambda>x. Ok (StrToUUID x))
      else Ok 0)"

definition ValuePrint :: "field \<Rightarrow> value \<Rightarrow> string res" where
  "ValuePrint f v =
     (if f_FType f = ''uint32'' then rbind (asUint32 v) (\<lambda>x. Ok (Uint32ToStr x))
      else if f_FType f = ''uint64'' then rbind (asUint64 v) (\<lambda>x. Ok (Uint64ToStr x))
      else if f_FType f = ''string'' then asString v
      else Ok [])"

text \<open>Go compares strings byte by byte, which is the lexicographic order of lists of characters.\<close>

definition three_way :: "'a :: linorder \<Rightarrow> 'a \<Rightarrow> int" where
  "three_way va vb = (if va < vb then -1 else if vb < va then 1 else 0)"

definition valueCompare :: "field \<Rightarrow> value \<Rightarrow> value \<Rightarrow> int res" where
  "valueCompare f a b =
     (if f_FType f = ''uint32'' then rbind (asUint32 a) (\<lambda>va. rbind (asUint32 b) (\<lambda>vb. Ok (three_way va vb)))
      else if f_FType f = ''uint64'' then rbind (asUint64 a) (\<lambda>va. rbind (asUint64 b) (\<lambda>vb. Ok (three_way va vb)))
      else if f_FType f = ''string'' then rbind (asString a) (\<lambda>va. rbind (asString b) (\<lambda>vb. Ok (three_way va vb)))
      else Ok 0)"

text \<open>\<open>CalExp\<close>: the range of index keys of a condition. An operator other than \<open><\<close>, \<open>=\<close>, \<open>>\<close> leaves the named results at zero.\<close>

definition CalExp :: "field \<Rightarrow> SingleExp \<Rightarrow> (UUID \<times> UUID) res" where
  "CalExp f exp =
     (if se_CmpOp exp = ''<'' then
        rbind (StrToValue f (se_Value exp)) (\<lambda>v.
        rbind (ValueToUUID f v) (\<lambda>right. if 0 < right then Ok (0, right - 1) else Ok (1, 0)))
      else if se_CmpOp exp = ''='' then
        rbind (StrToValue f (se_Value exp)) (\<lambda>v. rbind (ValueToUUID f v) (\<lambda>left. Ok (left, left)))
      else if se_CmpOp exp = ''>'' then
        rbind (StrToValue f (se_Value exp)) (\<lambda>v.
        rbind (ValueToUUID f v) (\<lambda>u. let left = u + 1 in if left = 0 then Ok (1, 0) else Ok (left, UUID_INF)))
      else Ok (0, 0))"

section \<open>Fields on disk\<close>

text \<open>The table manager, the serializability manager and the trees share one data manager, the one inside the serializability manager.\<close>

definition on_index :: "(dataManager \<Rightarrow> ('a res \<times> dataManager) option) \<Rightarrow> serializabilityManager \<Rightarrow> ('a res \<times> serializabilityManager) option" where
  "on_index f s = map_option (\<lambda>(r, d). (r, s\<lparr>sm_DM := d\<rparr>)) (f (sm_DM s))"

text \<open>Using a tree that is \<open>nil\<close> panics.\<close>

definition tree_of :: "bPlusTree option \<Rightarrow> bPlusTree res" where
  "tree_of bt = (case bt of None \<Rightarrow> Panic | Some bt \<Rightarrow> Ok bt)"

text \<open>A call whose error is turned into a panic.\<close>

definition or_panic :: "'a res \<times> 's \<Rightarrow> 'a res \<times> 's" where
  "or_panic m = (case m of (Ok x, s) \<Rightarrow> (Ok x, s) | (_, s) \<Rightarrow> (Panic, s))"

definition f_parseSelf :: "UUID \<Rightarrow> bytes \<Rightarrow> serializabilityManager \<Rightarrow> field res \<times> serializabilityManager" where
  "f_parseSelf uuid raw s =
     sbind (ParseVarStr raw, s) (\<lambda>(fname, pos) s.
     sbind (rbind (go_from raw pos) ParseVarStr, s) (\<lambda>(ftype, shift) s.
     sbind (rbind (go_from raw (pos + shift)) ParseUUID, s) (\<lambda>index s.
     let f = \<lparr>f_SelfUUID = uuid, f_FName = fname, f_FType = ftype, f_index = index, f_bt = None\<rparr> in
     if index \<noteq> NilUUID then sbind (or_panic (on_dm (bt_Load index) s)) (\<lambda>bt s. (Ok (f\<lparr>f_bt := Some bt\<rparr>), s))
     else (Ok f, s))))"

text \<open>Reading with \<open>utils.Assert(ok)\<close>: anything but a visible entry ends the process.\<close>

definition must_Read :: "XID \<Rightarrow> UUID \<Rightarrow> serializabilityManager \<Rightarrow> bytes res \<times> serializabilityManager" where
  "must_Read xid uuid s = sbind (or_panic (sm_Read xid uuid s)) (\<lambda>raw s. case raw of None \<Rightarrow> (Panic, s) | Some raw \<Rightarrow> (Ok raw, s))"

definition LoadField :: "UUID \<Rightarrow> serializabilityManager \<Rightarrow> field res \<times> serializabilityManager" where
  "LoadField uuid s = sbind (must_Read SUPER_XID uuid s) (\<lambda>raw s. f_parseSelf uuid raw s)"

definition f_persistSelf :: "XID \<Rightarrow> field \<Rightarrow> serializabilityManager \<Rightarrow> field res \<times> serializabilityManager" where
  "f_persistSelf xid f s =
     (let raw = VarStrToRaw (f_FName f);
          raw = raw @ VarStrToRaw (f_FType f);
          raw = raw @ UUIDToRaw (f_index f)
      in sbind (sm_Insert xid raw s) (\<lambda>self s. (Ok (f\<lparr>f_SelfUUID := self\<rparr>), s)))"

definition CreateField :: "XID \<Rightarrow> string \<Rightarrow> string \<Rightarrow> bool \<Rightarrow> serializabilityManager \<Rightarrow> field res \<times> serializabilityManager" where
  "CreateField xid fname ftype indexed s =
     sbind (typeCheck ftype, s) (\<lambda>_ s.
     let f = \<lparr>f_SelfUUID = 0, f_FName = fname, f_FType = ftype, f_index = NilUUID, f_bt = None\<rparr> in
     sbind (if indexed then
              sbind (on_dm bt_Create s) (\<lambda>index s.
              sbind (on_dm (bt_Load index) s) (\<lambda>bt s. (Ok (f\<lparr>f_index := index, f_bt := Some bt\<rparr>), s)))
            else (Ok f, s)) (\<lambda>f s. f_persistSelf xid f s))"

definition f_Insert :: "field \<Rightarrow> value \<Rightarrow> UUID \<Rightarrow> serializabilityManager \<Rightarrow> (unit res \<times> serializabilityManager) option" where
  "f_Insert f key uuid s =
     obind (ValueToUUID f key, s) (\<lambda>ukey s.
     obind (tree_of (f_bt f), s) (\<lambda>bt s. on_index (bt_Insert bt ukey uuid) s))"

definition f_Search :: "field \<Rightarrow> UUID \<Rightarrow> UUID \<Rightarrow> serializabilityManager \<Rightarrow> (UUID list res \<times> serializabilityManager) option" where
  "f_Search f left right s = obind (tree_of (f_bt f), s) (\<lambda>bt s. on_index (SearchRange bt left right) s)"

end
