(* ===== verification/Table.thy ===== *)
theory Table
  imports Field
begin

text \<open>
  Tables (\<^verbatim>\<open>tbm/table.go\<close>): table records on disk, rows and their encoding, and the statements insert, read, update and delete over the
  serializability manager and the index trees. A row is a \<open>map[string]interface{}\<close>. What the other goroutines do while a delete waits
  for a lock, and the order in which Go ranges over the lock table, are a parameter (\<open>env\<close>); \<open>sort.Slice\<close> promises a sorted
  permutation and no more, so the sorting function is a parameter of \<open>Read\<close>.
\<close>

section \<open>Rows\<close>

type_synonym row = "string \<rightharpoonup> value"

text \<open>\<open>e[k]\<close>: \<open>nil\<close> for a missing key.\<close>

definition row_get :: "row \<Rightarrow> string \<Rightarrow> value" where
  "row_get e k = (case e k of None \<Rightarrow> VNil | Some v \<Rightarrow> v)"

record table =
  tb_SelfUUID :: UUID
  tb_Name :: string
  tb_status :: byte
  tb_Next :: UUID
  tb_fields :: "field list"
  tb_rowIndex :: UUID
  tb_rowIndexBt :: "bPlusTree option"

text \<open>The loops that look a field up by its name.\<close>

definition field_named :: "table \<Rightarrow> string \<Rightarrow> field option" where
  "field_named t name = find (\<lambda>f. f_FName f = name) (tb_fields t)"

fun strToEntryLoop :: "field list \<Rightarrow> string list \<Rightarrow> row \<Rightarrow> row res" where
  "strToEntryLoop [] values e = Ok e"
| "strToEntryLoop (f # fs) values e =
     rbind (go_index values 0) (\<lambda>s. rbind (StrToValue f s) (\<lambda>v. strToEntryLoop fs (tl values) (e(f_FName f \<mapsto> v))))"

definition strToEntry :: "table \<Rightarrow> string list \<Rightarrow> row res" where
  "strToEntry t values =
     (if length values \<noteq> length (tb_fields t) then Err ErrInvalidValues else strToEntryLoop (tb_fields t) values Map.empty)"

fun rowBytes :: "field list \<Rightarrow> row \<Rightarrow> bytes \<Rightarrow> bytes res" where
  "rowBytes [] e raw = Ok raw"
| "rowBytes (f # fs) e raw = rbind (ValueToRaw f (row_get e (f_FName f))) (\<lambda>b. rowBytes fs e (raw @ b))"

definition entryToRaw :: "table \<Rightarrow> row \<Rightarrow> bytes res" where
  "entryToRaw t e = rowBytes (tb_fields t) e []"

fun parseEntryLoop :: "field list \<Rightarrow> bytes \<Rightarrow> nat \<Rightarrow> row \<Rightarrow> row res" where
  "parseEntryLoop [] raw pos e = Ok e"
| "parseEntryLoop (f # fs) raw pos e =
     rbind (rbind (go_from raw pos) (ParseValue f)) (\<lambda>(v, shift). parseEntryLoop fs raw (pos + shift) (e(f_FName f \<mapsto> v)))"

definition parseEntry :: "table \<Rightarrow> bytes \<Rightarrow> row res" where
  "parseEntry t raw = parseEntryLoop (tb_fields t) raw 0 Map.empty"

fun printFields :: "field list \<Rightarrow> row \<Rightarrow> string res" where
  "printFields [] e = Ok []"
| "printFields (f # fs) e =
     rbind (ValuePrint f (row_get e (f_FName f))) (\<lambda>str.
     rbind (printFields fs e) (\<lambda>rest. Ok (str @ (if fs = [] then '']'' else '', '') @ rest)))"

definition entryPrint :: "table \<Rightarrow> row \<Rightarrow> string res" where
  "entryPrint t e = rbind (printFields (tb_fields t) e) (\<lambda>str. Ok (''['' @ str))"

section \<open>Conditions\<close>

definition matchSingleExp :: "table \<Rightarrow> row \<Rightarrow> SingleExp \<Rightarrow> bool res" where
  "matchSingleExp t e exp =
     (case e (se_Field exp) of
        None \<Rightarrow> Ok False
      | Some v \<Rightarrow>
          (case field_named t (se_Field exp) of
             None \<Rightarrow> Ok False
           | Some fd \<Rightarrow>
               (case StrToValue fd (se_Value exp) of
                  Panic \<Rightarrow> Panic | Err _ \<Rightarrow> Ok False
                | Ok target \<Rightarrow>
                    rbind (valueCompare fd v target) (\<lambda>cmp.
                    Ok (if se_CmpOp exp = ''='' then cmp = 0
                        else if se_CmpOp exp = ''!='' then cmp \<noteq> 0
                        else if se_CmpOp exp = ''<'' then cmp < 0
                        else if se_CmpOp exp = ''<='' then cmp \<le> 0
                        else if se_CmpOp exp = ''>'' then 0 < cmp
                        else if se_CmpOp exp = ''>='' then 0 \<le> cmp
                        else False)))))"

text \<open>A nil second condition is dereferenced when there is an operator.\<close>

definition evaluateWhere :: "table \<Rightarrow> row \<Rightarrow> Where option \<Rightarrow> bool res" where
  "evaluateWhere t e wh =
     (case wh of None \<Rightarrow> Ok True
      | Some w \<Rightarrow>
          rbind (matchSingleExp t e (wh_SingleExp1 w)) (\<lambda>ok1.
          if wh_LogicOp w = [] then Ok ok1
          else case wh_SingleExp2 w of None \<Rightarrow> Panic
            | Some exp2 \<Rightarrow>
                rbind (matchSingleExp t e exp2) (\<lambda>ok2.
                Ok (if wh_LogicOp w = ''and'' then ok1 \<and> ok2 else ok1 \<or> ok2))))"

definition calExp2 :: "field \<Rightarrow> Where \<Rightarrow> (UUID \<times> UUID) res" where
  "calExp2 fd wh = (case wh_SingleExp2 wh of None \<Rightarrow> Panic | Some exp2 \<Rightarrow> CalExp fd exp2)"

text \<open>\<open>calWhere\<close>: one or two ranges of keys of the field \<open>fd\<close>; both conditions are evaluated on that field.\<close>

definition calWhere :: "field \<Rightarrow> Where \<Rightarrow> (UUID \<times> UUID \<times> UUID \<times> UUID \<times> bool) res" where
  "calWhere fd wh =
     (if wh_LogicOp wh = [] then rbind (CalExp fd (wh_SingleExp1 wh)) (\<lambda>(l0, r0). Ok (l0, r0, 0, 0, True))
      else if wh_LogicOp wh = ''or'' then
        rbind (CalExp fd (wh_SingleExp1 wh)) (\<lambda>(l0, r0).
        rbind (calExp2 fd wh) (\<lambda>(l1, r1). Ok (l0, r0, l1, r1, False)))
      else if wh_LogicOp wh = ''and'' then
        rbind (CalExp fd (wh_SingleExp1 wh)) (\<lambda>(l0, r0).
        rbind (calExp2 fd wh) (\<lambda>(l1, r1).
        Ok (if l0 < l1 then l1 else l0, if r1 < r0 then r1 else r0, l1, r1, True)))
      else Err ErrInvalidLogOP)"

section \<open>Sorting, limits and aggregates\<close>

definition cmp_of :: "field \<Rightarrow> string \<Rightarrow> row \<Rightarrow> row \<Rightarrow> int" where
  "cmp_of fd name a b = (case valueCompare fd (row_get a name) (row_get b name) of Ok c \<Rightarrow> c | _ \<Rightarrow> 0)"

text \<open>The comparison panics on a value that is not of the field's type; which pairs are compared is up to the library, so with two rows or
  more such a value counts as a panic.\<close>

definition sortEntries :: "((row \<Rightarrow> row \<Rightarrow> bool) \<Rightarrow> row list \<Rightarrow> row list) \<Rightarrow> table \<Rightarrow> row list \<Rightarrow> string \<Rightarrow> bool \<Rightarrow> row list res" where
  "sortEntries sortSlice t es fieldName desc =
     (case field_named t fieldName of
        None \<Rightarrow> Ok es
      | Some fd \<Rightarrow>
          if 2 \<le> length es \<and> \<not> list_all (\<lambda>e. is_ok (valueCompare fd (row_get e fieldName) (row_get e fieldName))) es then Panic
          else Ok (sortSlice (\<lambda>a b. let cmp = cmp_of fd fieldName a b in if desc then 0 < cmp else cmp < 0) es))"

text \<open>\<open>int\<close> arithmetic wraps; a slice expression with bounds out of order or out of range panics.\<close>

definition wrap_int :: "int \<Rightarrow> int" where
  "wrap_int i = sint (word_of_int i :: uint64)"

definition limitEntries :: "row list \<Rightarrow> int \<Rightarrow> int \<Rightarrow> row list res" where
  "limitEntries es limit offset =
     (if int (length es) \<le> offset then Ok []
      else let last = wrap_int (offset + limit);
               last = (if int (length es) < last then int (length es) else last)
           in if 0 \<le> offset \<and> offset \<le> last then Ok (take (nat (last - offset)) (drop (nat offset) es)) else Panic)"

text \<open>The number in an \<open>interface{}\<close>, if it holds one.\<close>

definition num_of :: "value \<Rightarrow> uint64 option" where
  "num_of v = (case v of VUint32 x \<Rightarrow> Some (ucast x) | VUint64 x \<Rightarrow> Some x | _ \<Rightarrow> None)"

definition aggTotal :: "string \<Rightarrow> row list \<Rightarrow> uint64" where
  "aggTotal name es = foldl (\<lambda>total e. case num_of (row_get e name) of None \<Rightarrow> total | Some v \<Rightarrow> total + v) 0 es"

definition aggMin :: "string \<Rightarrow> row list \<Rightarrow> uint64" where
  "aggMin name es = foldl (\<lambda>m e. case num_of (row_get e name) of None \<Rightarrow> m | Some v \<Rightarrow> if v < m then v else m) UUID_INF es"

definition aggMax :: "string \<Rightarrow> row list \<Rightarrow> uint64" where
  "aggMax name es = foldl (\<lambda>m e. case num_of (row_get e name) of None \<Rightarrow> m | Some v \<Rightarrow> if m < v then v else m) 0 es"

definition aggPart :: "row list \<Rightarrow> Aggregate \<Rightarrow> string list" where
  "aggPart es agg =
     (let name = ag_Field agg; part = (\<lambda>(fn :: string) (n :: nat). [fn @ ''('' @ name @ '')='' @ FormatUint n]) in
      if ag_Func agg = ''count'' then (if name = ''*'' then part ''count'' (length es) else [])
      else if ag_Func agg = ''sum'' then part ''sum'' (unat (aggTotal name es))
      else if ag_Func agg = ''avg'' then
        part ''avg'' (if es \<noteq> [] then unat (aggTotal name es div of_nat (length es)) else 0)
      else if ag_Func agg = ''min'' then part ''min'' (if es = [] then 0 else unat (aggMin name es))
      else if ag_Func agg = ''max'' then part ''max'' (if es = [] then 0 else unat (aggMax name es))
      else [])"

fun join_blank :: "string list \<Rightarrow> string" where
  "join_blank [] = []"
| "join_blank [p] = p"
| "join_blank (p # q # ps) = p @ '' '' @ join_blank (q # ps)"

definition computeAggregates :: "row list \<Rightarrow> Aggregate list \<Rightarrow> string" where
  "computeAggregates es aggs = join_blank (concat (map (aggPart es) aggs))"

section \<open>Statements\<close>

record env =
  ev_order :: "lockTable \<Rightarrow> UUID list"
  ev_wait :: "serializabilityManager \<Rightarrow> serializabilityManager option"

text \<open>\<open>Delete\<close> of the serializability manager, with the wait for the lock: the others bring the state to the one in which this goroutine goes on,
  or never do.\<close>

definition sm_Delete :: "env \<Rightarrow> XID \<Rightarrow> UUID \<Rightarrow> serializabilityManager \<Rightarrow> (bool res \<times> serializabilityManager) option" where
  "sm_Delete ev xid uuid s =
     obinds (deleteStart (ev_order ev (sm_lt s)) xid uuid s) (\<lambda>out s.
     case out of DelDone b \<Rightarrow> Some (Ok b, s)
     | DelBlocked t e \<Rightarrow> (case ev_wait ev s of None \<Rightarrow> None | Some s \<Rightarrow> Some (deleteLocked t e s)))"

definition rowSearch :: "table \<Rightarrow> UUID \<Rightarrow> UUID \<Rightarrow> serializabilityManager \<Rightarrow> (UUID list res \<times> serializabilityManager) option" where
  "rowSearch t l r s = obind (tree_of (tb_rowIndexBt t), s) (\<lambda>bt s. on_index (SearchRange bt l r) s)"

definition rowInsert :: "table \<Rightarrow> UUID \<Rightarrow> serializabilityManager \<Rightarrow> (unit res \<times> serializabilityManager) option" where
  "rowInsert t uuid s = obind (tree_of (tb_rowIndexBt t), s) (\<lambda>bt s. on_index (bt_Insert bt uuid uuid) s)"

text \<open>The rows of the scan that satisfy the condition.\<close>

fun filterRows :: "table \<Rightarrow> XID \<Rightarrow> Where option \<Rightarrow> UUID list \<Rightarrow> UUID list \<Rightarrow> serializabilityManager \<Rightarrow> UUID list res \<times> serializabilityManager" where
  "filterRows t xid wh [] result s = (Ok result, s)"
| "filterRows t xid wh (uuid # uuids) result s =
     sbind (sm_Read xid uuid s) (\<lambda>raw s.
     case raw of None \<Rightarrow> filterRows t xid wh uuids result s
     | Some raw \<Rightarrow>
         sbind (parseEntry t raw, s) (\<lambda>e s.
         sbind (evaluateWhere t e wh, s) (\<lambda>ok s. filterRows t xid wh uuids (if ok then result @ [uuid] else result) s)))"

definition fullScanFilter :: "table \<Rightarrow> XID \<Rightarrow> Where option \<Rightarrow> serializabilityManager \<Rightarrow> (UUID list res \<times> serializabilityManager) option" where
  "fullScanFilter t xid wh s =
     obinds (rowSearch t 0 UUID_INF s) (\<lambda>allUUIDs s. Some (filterRows t xid wh allUUIDs [] s))"

definition t_parseWhere :: "table \<Rightarrow> XID \<Rightarrow> Where option \<Rightarrow> serializabilityManager \<Rightarrow> (UUID list res \<times> serializabilityManager) option" where
  "t_parseWhere t xid wh s =
     (case wh of
        None \<Rightarrow> rowSearch t 0 UUID_INF s
      | Some w \<Rightarrow>
          (case field_named t (se_Field (wh_SingleExp1 w)) of
             None \<Rightarrow> Some (Err ErrNoThatField, s)
           | Some fd \<Rightarrow>
               if \<not> IsIndexed fd then fullScanFilter t xid wh s
               else obind (calWhere fd w, s) (\<lambda>(l0, r0, l1, r1, single) s.
                 obinds (f_Search fd l0 r0 s) (\<lambda>uuids s.
                 if \<not> single then obinds (f_Search fd l1 r1 s) (\<lambda>tmp s. Some (Ok (uuids @ tmp), s))
                 else Some (Ok uuids, s)))))"

text \<open>\<open>for _, f := range t.fields\<close>: the pair goes into the index of every indexed field.\<close>

fun indexRow :: "field list \<Rightarrow> row \<Rightarrow> UUID \<Rightarrow> serializabilityManager \<Rightarrow> (unit res \<times> serializabilityManager) option" where
  "indexRow [] e uuid s = Some (Ok (), s)"
| "indexRow (f # fs) e uuid s =
     (if IsIndexed f then obinds (f_Insert f (row_get e (f_FName f)) uuid s) (\<lambda>_ s. indexRow fs e uuid s)
      else indexRow fs e uuid s)"

fun insertRows :: "table \<Rightarrow> XID \<Rightarrow> string list list \<Rightarrow> serializabilityManager \<Rightarrow> (unit res \<times> serializabilityManager) option" where
  "insertRows t xid [] s = Some (Ok (), s)"
| "insertRows t xid (values # rows) s =
     obind (strToEntry t values, s) (\<lambda>e s.
     obind (entryToRaw t e, s) (\<lambda>raw s.
     obind (sm_Insert xid raw s) (\<lambda>uuid s.
     obinds (indexRow (tb_fields t) e uuid s) (\<lambda>_ s.
     obinds (rowInsert t uuid s) (\<lambda>_ s. insertRows t xid rows s)))))"

definition t_Insert :: "table \<Rightarrow> XID \<Rightarrow> Insert \<Rightarrow> serializabilityManager \<Rightarrow> (unit res \<times> serializabilityManager) option" where
  "t_Insert t xid ins s =
     (let rows = in_ValuesList ins;
          rows = (if length rows = 0 \<and> 0 < length (in_Values ins) then [in_Values ins] else rows)
      in insertRows t xid rows s)"

fun deleteRows :: "env \<Rightarrow> XID \<Rightarrow> UUID list \<Rightarrow> nat \<Rightarrow> serializabilityManager \<Rightarrow> (nat res \<times> serializabilityManager) option" where
  "deleteRows ev xid [] cnt s = Some (Ok cnt, s)"
| "deleteRows ev xid (uuid # uuids) cnt s =
     obinds (sm_Delete ev xid uuid s) (\<lambda>ok s. deleteRows ev xid uuids (if ok then cnt + 1 else cnt) s)"

definition t_Delete :: "env \<Rightarrow> table \<Rightarrow> XID \<Rightarrow> Delete \<Rightarrow> serializabilityManager \<Rightarrow> (nat res \<times> serializabilityManager) option" where
  "t_Delete ev t xid del s = obinds (t_parseWhere t xid (dl_Where del) s) (\<lambda>uuids s. deleteRows ev xid uuids 0 s)"

fun updateRows :: "env \<Rightarrow> table \<Rightarrow> XID \<Rightarrow> field \<Rightarrow> value \<Rightarrow> UUID list \<Rightarrow> nat \<Rightarrow> serializabilityManager \<Rightarrow> (nat res \<times> serializabilityManager) option" where
  "updateRows ev t xid fd v [] cnt s = Some (Ok cnt, s)"
| "updateRows ev t xid fd v (uuid # uuids) cnt s =
     obind (sm_Read xid uuid s) (\<lambda>raw s.
     case raw of None \<Rightarrow> updateRows ev t xid fd v uuids cnt s
     | Some raw \<Rightarrow>
         obinds (sm_Delete ev xid uuid s) (\<lambda>_ s.
         obind (parseEntry t raw, s) (\<lambda>e s.
         let e = e(f_FName fd \<mapsto> v) in
         obind (entryToRaw t e, s) (\<lambda>raw s.
         obind (sm_Insert xid raw s) (\<lambda>uuid s.
         obinds (rowInsert t uuid s) (\<lambda>_ s.
         obinds (indexRow (tb_fields t) e uuid s) (\<lambda>_ s. updateRows ev t xid fd v uuids (cnt + 1) s)))))))"

definition t_Update :: "env \<Rightarrow> table \<Rightarrow> XID \<Rightarrow> Update \<Rightarrow> serializabilityManager \<Rightarrow> (nat res \<times> serializabilityManager) option" where
  "t_Update ev t xid upd s =
     obinds (t_parseWhere t xid (up_Where upd) s) (\<lambda>uuids s.
     case field_named t (up_FieldName upd) of
       None \<Rightarrow> Some (Err ErrNoThatField, s)
     | Some fd \<Rightarrow> obind (StrToValue fd (up_Value upd), s) (\<lambda>v s. updateRows ev t xid fd v uuids 0 s))"

fun readRows :: "table \<Rightarrow> XID \<Rightarrow> UUID list \<Rightarrow> row list \<Rightarrow> serializabilityManager \<Rightarrow> row list res \<times> serializabilityManager" where
  "readRows t xid [] es s = (Ok es, s)"
| "readRows t xid (uuid # uuids) es s =
     sbind (sm_Read xid uuid s) (\<lambda>raw s.
     case raw of None \<Rightarrow> readRows t xid uuids es s
     | Some raw \<Rightarrow> sbind (parseEntry t raw, s) (\<lambda>e s. readRows t xid uuids (es @ [e]) s))"

fun printRows :: "table \<Rightarrow> row list \<Rightarrow> string res" where
  "printRows t [] = Ok []"
| "printRows t (e # es) = rbind (entryPrint t e) (\<lambda>l. rbind (printRows t es) (\<lambda>rest. Ok (l @ [CHR 0x0A] @ rest)))"

text \<open>What \<open>Read\<close> makes of the rows it found.\<close>

definition answer :: "((row \<Rightarrow> row \<Rightarrow> bool) \<Rightarrow> row list \<Rightarrow> row list) \<Rightarrow> table \<Rightarrow> Read \<Rightarrow> row list \<Rightarrow> string res" where
  "answer sortSlice t rd es =
     rbind (if rd_OrderBy rd \<noteq> [] then sortEntries sortSlice t es (rd_OrderBy rd) (rd_OrderDesc rd) else Ok es) (\<lambda>es.
     rbind (if 0 < rd_Limit rd then limitEntries es (rd_Limit rd) (rd_Offset rd) else Ok es) (\<lambda>es.
     if 0 < length (rd_Aggregates rd) then Ok (computeAggregates es (rd_Aggregates rd))
     else printRows t es))"

definition t_Read :: "((row \<Rightarrow> row \<Rightarrow> bool) \<Rightarrow> row list \<Rightarrow> row list) \<Rightarrow> table \<Rightarrow> XID \<Rightarrow> Read \<Rightarrow> serializabilityManager \<Rightarrow> (string res \<times> serializabilityManager) option" where
  "t_Read sortSlice t xid rd s =
     obinds (t_parseWhere t xid (rd_Where rd) s) (\<lambda>uuids s.
     obind (readRows t xid uuids [] s) (\<lambda>es s. Some (answer sortSlice t rd es, s)))"

section \<open>Tables on disk\<close>

definition t_persistSelf :: "XID \<Rightarrow> table \<Rightarrow> serializabilityManager \<Rightarrow> table res \<times> serializabilityManager" where
  "t_persistSelf xid t s =
     (let raw = VarStrToRaw (tb_Name t);
          raw = raw @ [tb_status t];
          raw = raw @ UUIDToRaw (tb_Next t);
          raw = raw @ [of_nat (length (tb_fields t))];
          raw = raw @ concat (map (\<lambda>f. UUIDToRaw (f_SelfUUID f)) (tb_fields t));
          raw = raw @ UUIDToRaw (tb_rowIndex t)
      in sbind (sm_Insert xid raw s) (\<lambda>self s. (Ok (t\<lparr>tb_SelfUUID := self\<rparr>), s)))"

fun loadFields :: "nat \<Rightarrow> bytes \<Rightarrow> nat \<Rightarrow> field list \<Rightarrow> serializabilityManager \<Rightarrow> (field list \<times> nat) res \<times> serializabilityManager" where
  "loadFields 0 raw pos fs s = (Ok (fs, pos), s)"
| "loadFields (Suc n) raw pos fs s =
     sbind (rbind (go_from raw pos) ParseUUID, s) (\<lambda>uuid s.
     sbind (LoadField uuid s) (\<lambda>f s. loadFields n raw (pos + LEN_UUID) (fs @ [f]) s))"

definition t_parseSelf :: "UUID \<Rightarrow> bytes \<Rightarrow> serializabilityManager \<Rightarrow> table res \<times> serializabilityManager" where
  "t_parseSelf uuid raw s =
     sbind (ParseVarStr raw, s) (\<lambda>(name, pos) s.
     sbind (go_index raw pos, s) (\<lambda>status s.
     let pos = pos + 1 in
     sbind (rbind (go_from raw pos) ParseUUID, s) (\<lambda>next s.
     let pos = pos + LEN_UUID in
     sbind (go_index raw pos, s) (\<lambda>fieldCount s.
     let pos = pos + 1 in
     sbind (loadFields (unat fieldCount) raw pos [] s) (\<lambda>(fs, pos) s.
     sbind (if pos + LEN_UUID \<le> length raw then rbind (go_from raw pos) ParseUUID else Ok 0, s) (\<lambda>rowIndex s.
     (Ok \<lparr>tb_SelfUUID = uuid, tb_Name = name, tb_status = status, tb_Next = next, tb_fields = fs, tb_rowIndex = rowIndex, tb_rowIndexBt = None\<rparr>, s)))))))"

definition LoadTable :: "UUID \<Rightarrow> serializabilityManager \<Rightarrow> table res \<times> serializabilityManager" where
  "LoadTable uuid s =
     sbind (must_Read SUPER_XID uuid s) (\<lambda>raw s.
     sbind (t_parseSelf uuid raw s) (\<lambda>t s.
     sbind (if tb_rowIndex t = NilUUID then
              sbind (or_panic (on_dm bt_Create s)) (\<lambda>rowIndex s.
              or_panic (t_persistSelf SUPER_XID (t\<lparr>tb_rowIndex := rowIndex\<rparr>) s))
            else (Ok t, s)) (\<lambda>t s.
     sbind (or_panic (on_dm (bt_Load (tb_rowIndex t)) s)) (\<lambda>bt s. (Ok (t\<lparr>tb_rowIndexBt := Some bt\<rparr>), s)))))"

fun tableFields :: "string list \<Rightarrow> string list \<Rightarrow> string list \<Rightarrow> field list \<Rightarrow> serializabilityManager \<Rightarrow> field list res \<times> serializabilityManager" where
  "tableFields [] ftypes index fs s = (Ok fs, s)"
| "tableFields (fname # fnames) ftypes index fs s =
     sbind (go_index ftypes 0, s) (\<lambda>ftype s.
     sbind (CreateField SUPER_XID fname ftype (fname \<in> set index) s) (\<lambda>f s.
     tableFields fnames (tl ftypes) index (fs @ [f]) s))"

definition CreateTable :: "UUID \<Rightarrow> Create \<Rightarrow> serializabilityManager \<Rightarrow> table res \<times> serializabilityManager" where
  "CreateTable next create s =
     sbind (tableFields (cr_FieldName create) (cr_FieldType create) (cr_Index create) [] s) (\<lambda>fs s.
     sbind (on_dm bt_Create s) (\<lambda>rowIdx s.
     sbind (on_dm (bt_Load rowIdx) s) (\<lambda>bt s.
     t_persistSelf SUPER_XID \<lparr>tb_SelfUUID = 0, tb_Name = cr_TableName create, tb_status = 0, tb_Next = next, tb_fields = fs,
       tb_rowIndex = rowIdx, tb_rowIndexBt = Some bt\<rparr> s)))"

fun printFieldsOf :: "field list \<Rightarrow> string" where
  "printFieldsOf [] = []"
| "printFieldsOf (f # fs) = f_Print f @ (if fs = [] then ''}'' else '', '') @ printFieldsOf fs"

definition t_Print :: "table \<Rightarrow> string" where
  "t_Print t = ''{'' @ tb_Name t @ '': '' @ printFieldsOf (tb_fields t)"

text \<open>The record of a table on disk.\<close>

definition table_raw :: "table \<Rightarrow> bytes" where
  "table_raw t = VarStrToRaw (tb_Name t) @ [tb_status t] @ UUIDToRaw (tb_Next t) @ [of_nat (length (tb_fields t))] @
     concat (map (\<lambda>f. UUIDToRaw (f_SelfUUID f)) (tb_fields t)) @ UUIDToRaw (tb_rowIndex t)"

lemma t_persistSelf_eq: "t_persistSelf xid t s = sbind (sm_Insert xid (table_raw t) s) (\<lambda>self s. (Ok (t\<lparr>tb_SelfUUID := self\<rparr>), s))"
  by (simp add: t_persistSelf_def table_raw_def)

end
