(* ===== verification/Booter.thy ===== *)
theory Booter
  imports Utils
begin

text \<open>
  The boot file of the table manager (\<^verbatim>\<open>utils/booter/booter.go\<close>): a file that is replaced as a whole, through a temporary file and a rename.
  The state is the directory with the two files, and the outcomes of the coming calls of the operating system: \<open>None\<close> for
  success, \<open>Some n\<close> for a call that fails, or at which the machine stops, a write after \<open>n\<close> bytes. Every error panics.
\<close>

section \<open>Model\<close>

record booter =
  bo_file :: "bytes option"
  bo_tmp :: "bytes option"
  bo_faults :: "nat option list"

definition bo_fail :: "booter \<Rightarrow> nat option" where
  "bo_fail b = (case bo_faults b of [] \<Rightarrow> None | x # _ \<Rightarrow> x)"

definition bo_tick :: "booter \<Rightarrow> booter" where
  "bo_tick b = b\<lparr>bo_faults := tl (bo_faults b)\<rparr>"

text \<open>One call: its effect when it succeeds, its effect when it fails.\<close>

definition bo_call :: "(booter \<Rightarrow> booter) \<Rightarrow> (nat \<Rightarrow> booter \<Rightarrow> booter) \<Rightarrow> booter \<Rightarrow> unit res \<times> booter" where
  "bo_call ok bad b = (case bo_fail b of None \<Rightarrow> (Ok (), ok (bo_tick b)) | Some n \<Rightarrow> (Panic, bad n (bo_tick b)))"

definition removeBadTMP :: "booter \<Rightarrow> booter" where
  "removeBadTMP b = b\<lparr>bo_tmp := None\<rparr>"

definition bo_Create :: "booter \<Rightarrow> unit res \<times> booter" where
  "bo_Create b = bo_call (\<lambda>b. b\<lparr>bo_file := Some []\<rparr>) (\<lambda>_ b. b) (removeBadTMP b)"

definition bo_Open :: "booter \<Rightarrow> unit res \<times> booter" where
  "bo_Open b =
     (let b = removeBadTMP b in if bo_file b = None then (Panic, b) else bo_call (\<lambda>b. b) (\<lambda>_ b. b) b)"

definition bo_Load :: "booter \<Rightarrow> bytes res" where
  "bo_Load b = (case bo_file b of None \<Rightarrow> Panic | Some d \<Rightarrow> Ok d)"

definition bo_Update :: "bytes \<Rightarrow> booter \<Rightarrow> unit res \<times> booter" where
  "bo_Update data b =
     sbind (bo_call (\<lambda>b. b\<lparr>bo_tmp := Some []\<rparr>) (\<lambda>_ b. b) b) (\<lambda>_ b.
     sbind (bo_call (\<lambda>b. b\<lparr>bo_tmp := Some data\<rparr>) (\<lambda>n b. b\<lparr>bo_tmp := Some (take n data)\<rparr>) b) (\<lambda>_ b.
     sbind (bo_call (\<lambda>b. b) (\<lambda>_ b. b) b) (\<lambda>_ b.
     sbind (bo_call (\<lambda>b. b) (\<lambda>_ b. b) b) (\<lambda>_ b.
     sbind (bo_call (\<lambda>b. b\<lparr>bo_file := bo_tmp b, bo_tmp := None\<rparr>) (\<lambda>_ b. b) b) (\<lambda>_ b.
     bo_call (\<lambda>b. b) (\<lambda>_ b. b) b)))))"

section \<open>Properties\<close>

lemma bo_tick_files [simp]: "bo_file (bo_tick b) = bo_file b" "bo_tmp (bo_tick b) = bo_tmp b" by (simp_all add: bo_tick_def)

lemma bo_call_cases: "bo_call ok bad b = (r, b') \<longleftrightarrow> (case bo_fail b of None \<Rightarrow> r = Ok () \<and> b' = ok (bo_tick b) | Some n \<Rightarrow> r = Panic \<and> b' = bad n (bo_tick b))"
  by (auto simp: bo_call_def split: option.splits)

lemma sbind_cases: "sbind m k = (r, b') \<longleftrightarrow> (\<exists>x s. m = (Ok x, s) \<and> k x s = (r, b')) \<or> (\<exists>e s. m = (Err e, s) \<and> r = Err e \<and> b' = s) \<or> (\<exists>s. m = (Panic, s) \<and> r = Panic \<and> b' = s)"
  by (cases m; cases "fst m") auto

text \<open>C33. The boot file is replaced atomically: wherever an update fails or the machine stops, opening the boot file again succeeds, removes what is left
  of the temporary file, and \<open>Load\<close> gives either the old contents or the new ones, never a mixture; when the update returned, the new ones.\<close>

theorem booter_update_atomic:
  assumes "bo_Update data b = (r, b1)" and "bo_file b = Some old"
  shows "\<exists>b2. bo_Open (b1\<lparr>bo_faults := []\<rparr>) = (Ok (), b2) \<and> bo_tmp b2 = None \<and> bo_Load b2 \<in> {Ok old, Ok data} \<and> (r = Ok () \<longrightarrow> bo_Load b2 = Ok data)"
proof -
  have "bo_file b1 = Some old \<and> r \<noteq> Ok () \<or> bo_file b1 = Some data"
    using assms by (auto simp: bo_Update_def sbind_cases bo_call_cases split: option.splits)
  then show ?thesis by (auto simp: bo_Open_def removeBadTMP_def bo_call_def bo_fail_def bo_tick_def bo_Load_def)
qed

text \<open>The machine stops in the middle of writing the temporary file.\<close>

theorem booter_update_atomic_witness:
  "\<exists>b2. bo_Open (snd (bo_Update [4, 5, 6] \<lparr>bo_file = Some [1, 2], bo_tmp = None, bo_faults = [None, Some 2]\<rparr>)\<lparr>bo_faults := []\<rparr>) = (Ok (), b2) \<and>
     bo_Load b2 = Ok [1, 2]"
proof -
  let ?b = "\<lparr>bo_file = Some [1, 2], bo_tmp = None, bo_faults = [None, Some 2]\<rparr>"
  let ?b1 = "\<lparr>bo_file = Some [1, 2], bo_tmp = Some [4, 5], bo_faults = []\<rparr>"
  have u: "bo_Update [4, 5, 6] ?b = (Panic, ?b1)" by (simp add: bo_Update_def bo_call_def bo_fail_def bo_tick_def numeral_2_eq_2)
  obtain b2 where "bo_Open (?b1\<lparr>bo_faults := []\<rparr>) = (Ok (), b2)" using booter_update_atomic [OF u, of "[1, 2]"] by auto
  moreover then have "bo_file b2 = Some [1, 2]" by (auto simp: bo_Open_def removeBadTMP_def bo_call_def bo_fail_def bo_tick_def)
  ultimately show ?thesis using u by (simp add: bo_Load_def)
qed

end
