(* ===== verification/Tbm.thy ===== *)
theory Tbm
  imports Table Booter
begin

text \<open>
  The table manager (\<^verbatim>\<open>tbm/table_manager.go\<close>): the tables of the database as a linked list on disk whose head is in the boot file, the cache
  of loaded tables, and the statements of a session. A table object is shared between \<open>tc\<close> and \<open>xtc\<close>; what changes in it, the link
  and its own address, is not read through \<open>xtc\<close>, so \<open>xtc\<close> keeps the table as it was created. The orders in which Go ranges over
  maps, the sorting function and the other goroutines are the parameter \<open>tenv\<close>. The mutex of the manager makes each operation that changes the
  tables atomic.
\<close>

section \<open>State\<close>

record tenv =
  te_env :: env
  te_tables :: "(string \<rightharpoonup> table) \<Rightarrow> string list"
  te_sort :: "(row \<Rightarrow> row \<Rightarrow> bool) \<Rightarrow> row list \<Rightarrow> row list"

record tableManager =
  tbm_SM :: serializabilityManager
  tbm_booter :: booter
  tbm_tc :: "string \<rightharpoonup> table"
  tbm_xtc :: "XID \<Rightarrow> table list"

definition on_sm :: "(serializabilityManager \<Rightarrow> 'a res \<times> serializabilityManager) \<Rightarrow> tableManager \<Rightarrow> 'a res \<times> tableManager" where
  "on_sm f m = (case f (tbm_SM m) of (r, s) \<Rightarrow> (r, m\<lparr>tbm_SM := s\<rparr>))"

definition on_table :: "(serializabilityManager \<Rightarrow> ('a res \<times> serializabilityManager) option) \<Rightarrow> tableManager \<Rightarrow> ('a res \<times> tableManager) option" where
  "on_table f m = map_option (\<lambda>(r, s). (r, m\<lparr>tbm_SM := s\<rparr>)) (f (tbm_SM m))"

definition on_booter :: "(booter \<Rightarrow> 'a res \<times> booter) \<Rightarrow> tableManager \<Rightarrow> 'a res \<times> tableManager" where
  "on_booter f m = (case f (tbm_booter m) of (r, b) \<Rightarrow> (r, m\<lparr>tbm_booter := b\<rparr>))"

text \<open>Changing a table object that is in the cache.\<close>

definition set_table :: "table \<Rightarrow> tableManager \<Rightarrow> tableManager" where
  "set_table tb m = m\<lparr>tbm_tc := (tbm_tc m)(tb_Name tb \<mapsto> tb)\<rparr>"

definition firstTableUUID :: "tableManager \<Rightarrow> UUID res" where
  "firstTableUUID m = rbind (bo_Load (tbm_booter m)) ParseUUID"

definition updateFirstTableUUID :: "UUID \<Rightarrow> tableManager \<Rightarrow> unit res \<times> tableManager" where
  "updateFirstTableUUID uuid m = on_booter (bo_Update (UUIDToRaw uuid)) m"

section \<open>Opening\<close>

text \<open>The loop of \<open>loadTables\<close> along the list on disk.\<close>

partial_function (option) loadTables :: "UUID \<Rightarrow> tableManager \<Rightarrow> (unit res \<times> tableManager) option" where
  "loadTables uuid m =
     (if uuid = NilUUID then Some (Ok (), m)
      else obind (on_sm (LoadTable uuid) m) (\<lambda>tb m. loadTables (tb_Next tb) (set_table tb m)))"

definition newTableManager :: "serializabilityManager \<Rightarrow> booter \<Rightarrow> (unit res \<times> tableManager) option" where
  "newTableManager s b =
     (let m = \<lparr>tbm_SM = s, tbm_booter = b, tbm_tc = Map.empty, tbm_xtc = (\<lambda>_. [])\<rparr> in
      obind (firstTableUUID m, m) (\<lambda>uuid m. loadTables uuid m))"

definition tbm_Create0 :: "serializabilityManager \<Rightarrow> booter \<Rightarrow> (unit res \<times> tableManager) option" where
  "tbm_Create0 s b =
     (let m0 = (\<lambda>b. \<lparr>tbm_SM = s, tbm_booter = b, tbm_tc = Map.empty, tbm_xtc = (\<lambda>_. [])\<rparr>) in
      case sbind (bo_Create b) (\<lambda>_ b. bo_Update (UUIDToRaw NilUUID) b) of
        (Ok _, b) \<Rightarrow> newTableManager s b | (Err e, b) \<Rightarrow> Some (Err e, m0 b) | (Panic, b) \<Rightarrow> Some (Panic, m0 b))"

definition tbm_Open :: "serializabilityManager \<Rightarrow> booter \<Rightarrow> (unit res \<times> tableManager) option" where
  "tbm_Open s b =
     (let m0 = (\<lambda>b. \<lparr>tbm_SM = s, tbm_booter = b, tbm_tc = Map.empty, tbm_xtc = (\<lambda>_. [])\<rparr>) in
      case bo_Open b of
        (Ok _, b) \<Rightarrow> newTableManager s b | (Err e, b) \<Rightarrow> Some (Err e, m0 b) | (Panic, b) \<Rightarrow> Some (Panic, m0 b))"

section \<open>Statements\<close>

definition tbm_Read :: "tenv \<Rightarrow> XID \<Rightarrow> Read \<Rightarrow> tableManager \<Rightarrow> (bytes res \<times> tableManager) option" where
  "tbm_Read te xid rd m =
     (case tbm_tc m (rd_TableName rd) of
        None \<Rightarrow> Some (Err ErrNoThatTable, m)
      | Some tb \<Rightarrow> obinds (on_table (t_Read (te_sort te) tb xid rd) m) (\<lambda>result m. Some (Ok (str_bytes result), m)))"

definition tbm_Update :: "tenv \<Rightarrow> XID \<Rightarrow> Update \<Rightarrow> tableManager \<Rightarrow> (bytes res \<times> tableManager) option" where
  "tbm_Update te xid upd m =
     (case tbm_tc m (up_TableName upd) of
        None \<Rightarrow> Some (Err ErrNoThatTable, m)
      | Some tb \<Rightarrow> obinds (on_table (t_Update (te_env te) tb xid upd) m) (\<lambda>cnt m. Some (Ok (str_bytes (''Update '' @ Uint32ToStr (of_nat cnt))), m)))"

definition tbm_Delete :: "tenv \<Rightarrow> XID \<Rightarrow> Delete \<Rightarrow> tableManager \<Rightarrow> (bytes res \<times> tableManager) option" where
  "tbm_Delete te xid del m =
     (case tbm_tc m (dl_TableName del) of
        None \<Rightarrow> Some (Err ErrNoThatTable, m)
      | Some tb \<Rightarrow> obinds (on_table (t_Delete (te_env te) tb xid del) m) (\<lambda>cnt m. Some (Ok (str_bytes (''Delete '' @ Uint32ToStr (of_nat cnt))), m)))"

definition tbm_Insert :: "XID \<Rightarrow> Insert \<Rightarrow> tableManager \<Rightarrow> (bytes res \<times> tableManager) option" where
  "tbm_Insert xid ins m =
     (case tbm_tc m (in_TableName ins) of
        None \<Rightarrow> Some (Err ErrNoThatTable, m)
      | Some tb \<Rightarrow> obinds (on_table (t_Insert tb xid ins) m) (\<lambda>_ m. Some (Ok (str_bytes ''Insert''), m)))"

definition tbm_Create :: "XID \<Rightarrow> Create \<Rightarrow> tableManager \<Rightarrow> bytes res \<times> tableManager" where
  "tbm_Create xid create m =
     (if tbm_tc m (cr_TableName create) \<noteq> None then (Err (ErrDuplicatedTable (cr_TableName create)), m)
      else sbind (firstTableUUID m, m) (\<lambda>first m.
        sbind (on_sm (CreateTable first create) m) (\<lambda>tb m.
        sbind (updateFirstTableUUID (tb_SelfUUID tb) m) (\<lambda>_ m.
        (Ok (str_bytes (''create '' @ cr_TableName create)),
         m\<lparr>tbm_tc := (tbm_tc m)(cr_TableName create \<mapsto> tb), tbm_xtc := (tbm_xtc m)(xid := tbm_xtc m xid @ [tb])\<rparr>)))))"

text \<open>\<open>rebuildTableChain\<close>: the tables by name, last to first; names are distinct, so the order of the map and the choices of the sorting
  function do not show.\<close>

fun chainLoop :: "XID \<Rightarrow> table list \<Rightarrow> UUID \<Rightarrow> tableManager \<Rightarrow> UUID res \<times> tableManager" where
  "chainLoop xid [] next m = (Ok next, m)"
| "chainLoop xid (tb # tbs) next m =
     (let tb = tb\<lparr>tb_Next := next\<rparr>; m = set_table tb m in
      sbind (on_sm (t_persistSelf xid tb) m) (\<lambda>tb m. chainLoop xid tbs (tb_SelfUUID tb) (set_table tb m)))"

definition rebuildTableChain :: "tenv \<Rightarrow> XID \<Rightarrow> tableManager \<Rightarrow> unit res \<times> tableManager" where
  "rebuildTableChain te xid m =
     (let tables = sort_key tb_Name (map (\<lambda>n. the (tbm_tc m n)) (te_tables te (tbm_tc m))) in
      sbind (chainLoop xid (rev tables) NilUUID m) (\<lambda>next m. updateFirstTableUUID next m))"

definition tbm_Drop :: "tenv \<Rightarrow> XID \<Rightarrow> string \<Rightarrow> tableManager \<Rightarrow> bytes res \<times> tableManager" where
  "tbm_Drop te xid name m =
     (if tbm_tc m name = None then (Err ErrNoThatTable, m)
      else let m = m\<lparr>tbm_tc := (tbm_tc m)(name := None),
                     tbm_xtc := (\<lambda>x. filter (\<lambda>tb. tb_Name tb \<noteq> name) (tbm_xtc m x))\<rparr> in
        sbind (rebuildTableChain te xid m) (\<lambda>_ m. (Ok (str_bytes (''drop '' @ name)), m)))"

definition tbm_Show :: "tenv \<Rightarrow> XID \<Rightarrow> tableManager \<Rightarrow> bytes" where
  "tbm_Show te xid m =
     (let line = (\<lambda>t. str_bytes (t_Print t) @ [0x0A]);
          own = tbm_xtc m xid;
          others = filter (\<lambda>t. tb_Name t \<notin> set (map tb_Name own)) (map (\<lambda>n. the (tbm_tc m n)) (te_tables te (tbm_tc m)))
      in concat (map line own) @ concat (map line others))"

text \<open>\<open>Begin\<close> answers 0 when no transaction can be begun.\<close>

definition tbm_Begin :: "bool \<Rightarrow> tableManager \<Rightarrow> (XID \<times> bytes) res \<times> tableManager" where
  "tbm_Begin isRepeatableRead m =
     (case on_sm (sm_Begin (if isRepeatableRead then 1 else 0)) m of
        (Ok xid, m) \<Rightarrow> (Ok (xid, str_bytes ''begin''), m)
      | (Err _, m) \<Rightarrow> (Ok (0, []), m)
      | (Panic, m) \<Rightarrow> (Panic, m))"

definition tbm_Commit :: "XID \<Rightarrow> tableManager \<Rightarrow> bytes res \<times> tableManager" where
  "tbm_Commit xid m = sbind (on_sm (sm_Commit xid) m) (\<lambda>_ m. (Ok (str_bytes ''commit''), m))"

definition tbm_Abort :: "XID \<Rightarrow> tableManager \<Rightarrow> bytes res \<times> tableManager" where
  "tbm_Abort xid m =
     (case on_sm (sm_Abort xid) m of (Panic, m) \<Rightarrow> (Panic, m) | (_, m) \<Rightarrow> (Ok (str_bytes ''abort''), m))"

section \<open>Properties\<close>

lemma bo_Update_healthy: "bo_faults b = [] \<Longrightarrow> bo_Update data b = (Ok (), b\<lparr>bo_file := Some data, bo_tmp := None\<rparr>)"
  by (simp add: bo_Update_def bo_call_def bo_fail_def bo_tick_def)

text \<open>An entry of a transaction that is not committed is not there for the super transaction.\<close>

lemma must_Read_uncommitted:
  assumes "dm_inv d ph ds" "in_db (dm_pc d) k" "Suc (size ph) < unat (MaxHandles (pc_c (dm_pc d)))"
    and "cacher_inv (dm_dic d) held {#}" "MaxHandles (dm_dic d) = 0" "cache (dm_dic d) (Address2UUID k off) = None"
    and "unat off + 3 + length (WrapEntryRaw x data) \<le> PAGE_SIZE"
      "window (pc_content (dm_pc d) k) (unat off) (3 + length (WrapEntryRaw x data)) = item_raw 0 (WrapEntryRaw x data)"
    and "x \<noteq> SUPER_XID" and "\<not> tm_IsCommitted t x"
  shows "\<exists>s'. must_Read SUPER_XID (Address2UUID k off) (NewSerializabilityManager t d) = (Panic, s')"
proof -
  let ?s = "NewSerializabilityManager t d" and ?t = "newTransaction SUPER_XID 0 {}"
  have f: "sm_DM ?s = d" "sm_ec ?s = NewCacher 0" "sm_TM ?s = t" "sm_tc ?s SUPER_XID = Some ?t" by (simp_all add: NewSerializabilityManager_def)
  have ec: "cacher_inv (sm_ec ?s) {#} {#}" "MaxHandles (sm_ec ?s) = 0" "cache (sm_ec ?s) (Address2UUID k off) = None"
    using cacher_inv_New [of 0] f(2) by (simp_all add: NewCacher_def)
  have "\<not> IsVisible (tm_IsCommitted t) ?t x 0" using assms(9,10) by (simp add: IsVisible_def readCommitted_def newTransaction_def)
  moreover obtain s' where "sm_Read SUPER_XID (Address2UUID k off) ?s = (Ok (if IsVisible (tm_IsCommitted (sm_TM ?s)) ?t x 0 then Some data else None), s')"
    using sm_Read_stored [of ?s ph ds k held off "{#}" x data SUPER_XID ?t] assms(1-8) ec f by (auto simp: newTransaction_def)
  ultimately show ?thesis by (simp add: must_Read_def or_panic_def f(3))
qed

lemma loadTables_panics: "uuid \<noteq> NilUUID \<Longrightarrow> must_Read SUPER_XID uuid (tbm_SM m) = (Panic, s') \<Longrightarrow> loadTables uuid m = Some (Panic, m\<lparr>tbm_SM := s'\<rparr>)"
  by (subst loadTables.simps) (simp add: on_sm_def LoadTable_def)

text \<open>C40. Dropping a table in a transaction that does not commit makes the database unusable: the records of the remaining tables are written under the number of
  that transaction and the boot file is pointed at them at once. Whoever loads the tables while that transaction is not committed, and so after it was aborted or
  after a crash, panics.\<close>

theorem drop_uncommitted_breaks_open:
  assumes "tbm_tc m = [a \<mapsto> ta, b \<mapsto> tb]" and "a \<noteq> b" and "tb_Name tb = b" and "te_tables te [b \<mapsto> tb] = [b]"
    and "sm_store_ok (tbm_SM m) eheld held ph ds" and "length (table_raw (tb\<lparr>tb_Next := NilUUID\<rparr>)) + 19 < NO_INTERVAL * THRESHOLD"
    and "Suc (unat (noPages (dm_pc (sm_DM (tbm_SM m))))) < 2 ^ 32" and "Suc (size ph) < unat (MaxHandles (pc_c (dm_pc (sm_DM (tbm_SM m)))))"
    and "sm_tc (tbm_SM m) x = Some tx" and "t_Err tx = None" and "x \<noteq> SUPER_XID" and "bo_faults (tbm_booter m) = []"
  shows "\<exists>m1. tbm_Drop te x a m = (Ok (str_bytes (''drop '' @ a)), m1) \<and>
    (\<forall>t. \<not> tm_IsCommitted t x \<longrightarrow>
      (\<exists>m2. tbm_Open (NewSerializabilityManager t (sm_DM (tbm_SM m1))) (tbm_booter m1) = Some (Panic, m2)))"
proof -
  let ?s = "tbm_SM m" and ?t = "tb\<lparr>tb_Next := NilUUID\<rparr>"
  obtain k off d1 where i: "sm_Insert x (table_raw ?t) ?s = (Ok (Address2UUID k off), ?s\<lparr>sm_DM := d1\<rparr>)"
    "dm_inv d1 ph (ds @ [enc_op (Ins x k off (item_raw 0 (WrapEntryRaw x (table_raw ?t))))])"
    "in_db (dm_pc d1) k" "unat off + 3 + length (WrapEntryRaw x (table_raw ?t)) \<le> PAGE_SIZE"
    "window (pc_content (dm_pc d1) k) (unat off) (3 + length (WrapEntryRaw x (table_raw ?t))) = item_raw 0 (WrapEntryRaw x (table_raw ?t))"
    "dm_dic d1 = dm_dic (sm_DM ?s)" "MaxHandles (pc_c (dm_pc d1)) = MaxHandles (pc_c (dm_pc (sm_DM ?s)))"
    "cache (dm_dic (sm_DM ?s)) (Address2UUID k off) = None"
    using sm_Insert_stored [OF assms(5-10)] by metis
  let ?u = "Address2UUID k off"
  have tc: "(tbm_tc m)(a := None) = [b \<mapsto> tb]" "tbm_tc m a \<noteq> None" using assms(1,2) by auto
  define m1 where "m1 = m\<lparr>tbm_tc := [b \<mapsto> tb, b \<mapsto> ?t, b \<mapsto> ?t\<lparr>tb_SelfUUID := ?u\<rparr>],
    tbm_xtc := (\<lambda>x. filter (\<lambda>tb. tb_Name tb \<noteq> a) (tbm_xtc m x)), tbm_SM := ?s\<lparr>sm_DM := d1\<rparr>, tbm_booter := (tbm_booter m)\<lparr>bo_file := Some (UUIDToRaw ?u), bo_tmp := None\<rparr>\<rparr>"
  have drop: "tbm_Drop te x a m = (Ok (str_bytes (''drop '' @ a)), m1)"
    using tc assms(3,4,12) i(1)
    by (simp add: tbm_Drop_def rebuildTableChain_def Let_def set_table_def on_sm_def t_persistSelf_eq updateFirstTableUUID_def on_booter_def
        bo_Update_healthy m1_def)
  have nz: "?u \<noteq> NilUUID" using i(3) by (intro Address2UUID_nonzero) (auto simp: in_db_def)
  have "\<exists>m2. tbm_Open (NewSerializabilityManager t (sm_DM (tbm_SM m1))) (tbm_booter m1) = Some (Panic, m2)" if nc: "\<not> tm_IsCommitted t x" for t
  proof -
    obtain s' where s': "must_Read SUPER_XID ?u (NewSerializabilityManager t d1) = (Panic, s')"
      using must_Read_uncommitted [OF i(2,3) _ _ _ _ i(4,5) assms(11) nc, of held] assms(5,8) i(6-8) by (auto simp: sm_store_ok_def dic_ok_def)
    have "bo_Open (tbm_booter m1) = (Ok (), tbm_booter m1)" using assms(12) by (simp add: m1_def bo_Open_def removeBadTMP_def bo_call_def bo_fail_def bo_tick_def)
    then show ?thesis using loadTables_panics [OF nz] s'
      by (simp add: tbm_Open_def newTableManager_def firstTableUUID_def bo_Load_def m1_def ParseUUID_self)
  qed
  with drop show ?thesis by blast
qed

definition ex_table :: "string \<Rightarrow> table" where
  "ex_table name = \<lparr>tb_SelfUUID = 7, tb_Name = name, tb_status = 0, tb_Next = NilUUID, tb_fields = [], tb_rowIndex = 9, tb_rowIndexBt = None\<rparr>"

definition ex_tenv :: tenv where
  "ex_tenv = \<lparr>te_env = \<lparr>ev_order = (\<lambda>_. []), ev_wait = (\<lambda>_. None)\<rparr>, te_tables = (\<lambda>_. [''b'']), te_sort = (\<lambda>_ es. es)\<rparr>"

theorem drop_uncommitted_breaks_open_witness:
  "\<exists>s m1 m2. sm_Begin 0 new_sm = (Ok 1, s) \<and>
     tbm_Drop ex_tenv 1 ''a'' \<lparr>tbm_SM = s, tbm_booter = \<lparr>bo_file = Some (UUIDToRaw 7), bo_tmp = None, bo_faults = []\<rparr>,
       tbm_tc = [''a'' \<mapsto> ex_table ''a'', ''b'' \<mapsto> ex_table ''b''], tbm_xtc = (\<lambda>_. [])\<rparr> = (Ok (str_bytes ''drop a''), m1) \<and>
     tbm_Open (NewSerializabilityManager new_tm (sm_DM (tbm_SM m1))) (tbm_booter m1) = Some (Panic, m2)"
proof -
  obtain s where s: "sm_Begin 0 new_sm = (Ok 1, s)" "tx_inv s" "sm_tc s 1 = Some (newTransaction 1 0 (dom (sm_tc new_sm)))"
    "sm_DM s = new_dm" "sm_ec s = NewCacher 0"
    using begin_again [OF new_sm_inv(1), of 0] new_sm_inv(2,4,5) by auto
  have ok: "sm_store_ok s {#} {#} {#} []" using s(4,5) new_dm_ok(1,2) cacher_inv_New [of 0]
    by (simp add: sm_store_ok_def) (simp add: NewCacher_def)
  let ?m = "\<lparr>tbm_SM = s, tbm_booter = \<lparr>bo_file = Some (UUIDToRaw 7), bo_tmp = None, bo_faults = []\<rparr>,
       tbm_tc = [''a'' \<mapsto> ex_table ''a'', ''b'' \<mapsto> ex_table ''b''], tbm_xtc = (\<lambda>_. [])\<rparr>"
  have "length (table_raw ((ex_table ''b'')\<lparr>tb_Next := NilUUID\<rparr>)) + 19 < NO_INTERVAL * THRESHOLD"
    by (simp add: table_raw_def ex_table_def VarStrToRaw_def pi_defs)
  moreover have "\<not> tm_IsCommitted new_tm 1" by (simp add: tm_IsCommitted_def new_tm_def checkXID_def SUPER_XID_def status_defs xidPosition_def tm_defs ReadAt_def)
  moreover note drop_uncommitted_breaks_open [of ?m "''a''" "ex_table ''a''" "''b''" "ex_table ''b''" ex_tenv "{#}" "{#}" "{#}" "[]" 1 "newTransaction 1 0 (dom (sm_tc new_sm))"]
  ultimately show ?thesis using s ok new_dm_ok(3,4)
    by (simp add: ex_table_def ex_tenv_def newTransaction_def SUPER_XID_def) blast
qed

end
