(* ===== verification/Statements.thy ===== *)
theory Statements
  imports Tbm
begin

text \<open>
  What a statement does to the transaction it runs in. The operations of \<^verbatim>\<open>tbm/table.go\<close> and \<^verbatim>\<open>tbm/table_manager.go\<close> reach transactions only
  through \<open>Read\<close>, \<open>Insert\<close> and \<open>Delete\<close> of the serializability manager and through the data manager. The locale \<open>statement_rel\<close> states
  what those keep, once for calls that succeed and once for calls that fail, and lifts it to whole statements; it is interpreted
  with the fate of the transaction of the statement.
\<close>

section \<open>Outcomes\<close>

text \<open>A relation for success and one for failure; nothing is said of a panic, which ends the process.\<close>

definition outcome :: "('s \<Rightarrow> 's \<Rightarrow> bool) \<Rightarrow> ('s \<Rightarrow> 's \<Rightarrow> bool) \<Rightarrow> 's \<Rightarrow> ('a res \<times> 's) option \<Rightarrow> bool" where
  "outcome I J s m \<longleftrightarrow> (\<forall>r s'. m = Some (r, s') \<longrightarrow> (case r of Ok _ \<Rightarrow> I s s' | Err _ \<Rightarrow> J s s' | Panic \<Rightarrow> True))"

lemma outcome_simps [simp]:
  "outcome I J s None" "outcome I J s (Some (Panic, s'))"
  "outcome I J s (Some (Ok x, s')) \<longleftrightarrow> I s s'" "outcome I J s (Some (Err e, s')) \<longleftrightarrow> J s s'"
  by (simp_all add: outcome_def)

lemma outcome_cases [case_names Hangs Ok Err Panic]:
  assumes "m = None \<Longrightarrow> P" and "\<And>x s'. m = Some (Ok x, s') \<Longrightarrow> P" and "\<And>e s'. m = Some (Err e, s') \<Longrightarrow> P" and "\<And>s'. m = Some (Panic, s') \<Longrightarrow> P"
  shows P
  using assms by (metis option.exhaust prod.exhaust res.exhaust)

lemma outcome_sub:
  assumes "outcome I J (f s) m" and "\<And>s'. I (f s) s' \<Longrightarrow> I' s (g s')" and "\<And>s'. J (f s) s' \<Longrightarrow> J' s (g s')"
  shows "outcome I' J' s (map_option (\<lambda>(r, s'). (r, g s')) m)"
  using assms by (cases m rule: outcome_cases) simp_all

named_theorems outcomes \<open>outcomes of the operations\<close>

text \<open>Relations over which calls can be chained.\<close>

locale chained =
  fixes I J :: "'s \<Rightarrow> 's \<Rightarrow> bool"
  assumes I_refl: "I s s"
    and I_trans: "I s s' \<Longrightarrow> I s' s'' \<Longrightarrow> I s s''"
    and IJ_trans: "I s s' \<Longrightarrow> J s' s'' \<Longrightarrow> J s s''"
    and I_J: "I s s' \<Longrightarrow> J s s'"
begin

lemmas I_same [simp] = I_refl

lemmas J_same [simp] = I_J [OF I_refl]

lemma outcome_I: "I s s' \<Longrightarrow> outcome I J s (Some (r, s'))"
  by (cases r) (simp_all add: I_J)

lemma outcome_same [simp]: "outcome I J s (Some (r, s))"
  by (rule outcome_I [OF I_refl])

lemma outcome_after: "I s s' \<Longrightarrow> outcome I J s' m \<Longrightarrow> outcome I J s m"
  by (cases m rule: outcome_cases) (auto intro: I_trans IJ_trans)

lemma outcome_obinds [outcomes]:
  assumes "outcome I J s m" and "\<And>x s'. m = Some (Ok x, s') \<Longrightarrow> outcome I J s' (k x s')"
  shows "outcome I J s (obinds m k)"
proof (cases m)
  case (Some p)
  then show ?thesis using assms by (cases p; cases "fst p") (auto intro: outcome_after)
qed simp

lemma outcome_obind [outcomes]:
  assumes "outcome I J s (Some m)" and "\<And>x s'. m = (Ok x, s') \<Longrightarrow> outcome I J s' (k x s')"
  shows "outcome I J s (obind m k)"
  using outcome_obinds [of s "Some m" k] assms by simp

lemma outcome_sbind [outcomes]:
  assumes "outcome I J s (Some m)" and "\<And>x s'. m = (Ok x, s') \<Longrightarrow> outcome I J s' (Some (k x s'))"
  shows "outcome I J s (Some (sbind m k))"
  using outcome_obind [of s m "\<lambda>x s. Some (k x s)"] assms by (cases m; cases "fst m") simp_all

end

section \<open>Statements over the serializability manager\<close>

locale statement_rel = chained I J
  for I J :: "serializabilityManager \<Rightarrow> serializabilityManager \<Rightarrow> bool" +
  fixes ev :: env and xid :: XID
  assumes dm_law: "I s (s\<lparr>sm_DM := d\<rparr>)"
    and read_law: "I s (snd (sm_Read y uuid s))"
    and insert_law: "I s (snd (sm_Insert y data s))"
    and delete_law: "outcome I J s (sm_Delete ev xid uuid s)"
begin

lemma outcome_on_index [outcomes, simp]: "outcome I J s (on_index f s)"
  by (auto simp: on_index_def outcome_def split: res.splits intro: dm_law I_J)

lemma outcome_on_dm [outcomes, simp]: "outcome I J s (Some (on_dm f s))"
  by (auto simp: on_dm_def split: prod.split intro: outcome_I dm_law)

lemma outcome_Read [outcomes, simp]: "outcome I J s (Some (sm_Read y uuid s))"
  using read_law [of s y uuid] by (cases "sm_Read y uuid s") (simp add: outcome_I)

lemma outcome_Insert [outcomes, simp]: "outcome I J s (Some (sm_Insert y data s))"
  using insert_law [of s y data] by (cases "sm_Insert y data s") (simp add: outcome_I)

lemmas outcome_Delete [outcomes, simp] = delete_law

lemma outcome_or_panic [outcomes]: "outcome I J s (Some m) \<Longrightarrow> outcome I J s (Some (or_panic m))"
  by (cases m; cases "fst m") (simp_all add: or_panic_def)

lemma outcome_rowSearch [simp]: "outcome I J s (rowSearch t l r s)"
  unfolding rowSearch_def by (intro outcomes) simp_all

lemma outcome_rowInsert [simp]: "outcome I J s (rowInsert t u s)"
  unfolding rowInsert_def by (intro outcomes) simp_all

lemma outcome_f_Search [simp]: "outcome I J s (f_Search f l r s)"
  unfolding f_Search_def by (intro outcomes) simp_all

lemma outcome_f_Insert [simp]: "outcome I J s (f_Insert f k u s)"
  unfolding f_Insert_def by (intro outcomes) simp_all

lemma outcome_filterRows [simp]: "outcome I J s (Some (filterRows t y wh uuids acc s))"
  by (induction uuids arbitrary: acc s) (auto intro!: outcomes split: option.split)

lemma outcome_parseWhere [simp]: "outcome I J s (t_parseWhere t y wh s)"
  by (auto simp: t_parseWhere_def fullScanFilter_def intro!: outcomes split: option.split)

lemma outcome_indexRow [simp]: "outcome I J s (indexRow fs e u s)"
  by (induction fs arbitrary: s) (auto intro!: outcomes)

lemma outcome_insertRows [simp]: "outcome I J s (insertRows t y rows s)"
  by (induction rows arbitrary: s) (auto intro!: outcomes)

lemma outcome_deleteRows [simp]: "outcome I J s (deleteRows ev xid uuids cnt s)"
  by (induction uuids arbitrary: cnt s) (auto intro!: outcomes)

lemma outcome_updateRows [simp]: "outcome I J s (updateRows ev t xid fd v uuids cnt s)"
  by (induction uuids arbitrary: cnt s) (auto simp: Let_def intro!: outcomes split: option.split)

lemma outcome_readRows [simp]: "outcome I J s (Some (readRows t y uuids es s))"
  by (induction uuids arbitrary: es s) (auto intro!: outcomes split: option.split)

lemma outcome_t_Insert: "outcome I J s (t_Insert t y ins s)"
  by (simp add: t_Insert_def Let_def)

lemma outcome_t_Delete: "outcome I J s (t_Delete ev t xid del s)"
  unfolding t_Delete_def by (intro outcomes) simp_all

lemma outcome_t_Update: "outcome I J s (t_Update ev t xid upd s)"
  by (auto simp: t_Update_def intro!: outcomes split: option.split)

lemma outcome_t_Read: "outcome I J s (t_Read sortSlice t y rd s)"
  unfolding t_Read_def by (intro outcomes) simp_all

lemma outcome_persistSelf [simp]: "outcome I J s (Some (t_persistSelf y t s))" "outcome I J s (Some (f_persistSelf y f s))"
  by (auto simp: t_persistSelf_def f_persistSelf_def Let_def intro!: outcomes)

lemma outcome_CreateField [simp]: "outcome I J s (Some (CreateField y n ft ix s))"
  by (auto simp: CreateField_def Let_def intro!: outcomes)

lemma outcome_tableFields [simp]: "outcome I J s (Some (tableFields names types ix fs s))"
  by (induction names arbitrary: types fs s) (auto intro!: outcomes)

lemma outcome_CreateTable: "outcome I J s (Some (CreateTable next create s))"
  by (auto simp: CreateTable_def intro!: outcomes)

end

section \<open>Statements over the table manager\<close>

text \<open>The same relations on the state of the table manager, whose other parts no transaction depends on.\<close>

abbreviation of_sm :: "(serializabilityManager \<Rightarrow> serializabilityManager \<Rightarrow> bool) \<Rightarrow> tableManager \<Rightarrow> tableManager \<Rightarrow> bool" where
  "of_sm I m m' \<equiv> I (tbm_SM m) (tbm_SM m')"

sublocale statement_rel \<subseteq> tb: chained "of_sm I" "of_sm J"
  by unfold_locales (auto intro: I_trans IJ_trans I_J)

context statement_rel
begin

lemma outcome_on_table: "outcome I J (tbm_SM m) (f (tbm_SM m)) \<Longrightarrow> outcome (of_sm I) (of_sm J) m (on_table f m)"
  unfolding on_table_def by (rule outcome_sub) simp_all

lemma outcome_on_sm: "outcome I J (tbm_SM m) (Some (f (tbm_SM m))) \<Longrightarrow> outcome (of_sm I) (of_sm J) m (Some (on_sm f m))"
  using outcome_on_table [of m "\<lambda>s. Some (f s)"] by (simp add: on_table_def on_sm_def split: prod.split)

lemma outcome_on_booter [simp]: "outcome (of_sm I) (of_sm J) m (Some (on_booter f m))"
  by (cases "fst (f (tbm_booter m))") (auto simp: on_booter_def split: prod.split)

lemma outcome_tbm_tc [simp]: "outcome (of_sm I) (of_sm J) (m\<lparr>tbm_tc := c\<rparr>) r = outcome (of_sm I) (of_sm J) m r"
  by (cases r rule: outcome_cases) simp_all

lemma outcome_chainLoop [simp]: "outcome (of_sm I) (of_sm J) m (Some (chainLoop y tbs nx m))"
proof (induction tbs arbitrary: nx m)
  case (Cons tb tbs)
  have "outcome (of_sm I) (of_sm J) m' (Some (chainLoop y tbs nx (set_table t m')))" for m' nx t
    using Cons.IH [of "set_table t m'" nx] by (simp add: set_table_def)
  moreover have "outcome (of_sm I) (of_sm J) (set_table t m) (Some (on_sm (t_persistSelf y t) (set_table t m)))" for t
    by (rule outcome_on_sm) simp
  ultimately have "outcome (of_sm I) (of_sm J) (set_table t m) (Some (chainLoop y (tb # tbs) nx m))" if "t = tb\<lparr>tb_Next := nx\<rparr>" for t
    using that by (auto simp: Let_def intro!: tb.outcome_sbind)
  then show ?case by (simp add: set_table_def)
qed simp

lemma outcome_tbm_Create: "outcome (of_sm I) (of_sm J) m (Some (tbm_Create y create m))"
  by (auto simp: tbm_Create_def updateFirstTableUUID_def intro!: tb.outcome_sbind outcome_on_sm outcome_CreateTable)

lemma outcome_tbm_Drop: "outcome (of_sm I) (of_sm J) m (Some (tbm_Drop te y name m))"
proof -
  have "outcome (of_sm I) (of_sm J) m' (Some (rebuildTableChain te y m'))" for m'
    by (auto simp: rebuildTableChain_def updateFirstTableUUID_def Let_def intro!: tb.outcome_sbind)
  from this [of "m\<lparr>tbm_tc := (tbm_tc m)(name := None), tbm_xtc := (\<lambda>x. filter (\<lambda>tb. tb_Name tb \<noteq> name) (tbm_xtc m x))\<rparr>"]
  show ?thesis by (cases "rebuildTableChain te y (m\<lparr>tbm_tc := (tbm_tc m)(name := None), tbm_xtc := (\<lambda>x. filter (\<lambda>tb. tb_Name tb \<noteq> name) (tbm_xtc m x))\<rparr>)"
      rule: prod.exhaust) (auto simp: tbm_Drop_def outcome_def sbind_def split: res.splits)
qed

lemma outcome_tbm_Read: "outcome (of_sm I) (of_sm J) m (tbm_Read te y rd m)"
  by (auto simp: tbm_Read_def split: option.split intro!: tb.outcome_obinds outcome_on_table outcome_t_Read)

lemma outcome_tbm_Insert: "outcome (of_sm I) (of_sm J) m (tbm_Insert y ins m)"
  by (auto simp: tbm_Insert_def split: option.split intro!: tb.outcome_obinds outcome_on_table outcome_t_Insert)

lemma outcome_tbm_Delete:
  assumes te: "te_env te = ev"
  shows "outcome (of_sm I) (of_sm J) m (tbm_Delete te xid del m)"
  unfolding tbm_Delete_def te
  by (auto split: option.split intro!: tb.outcome_obinds outcome_on_table outcome_t_Delete)

lemma outcome_tbm_Update:
  assumes te: "te_env te = ev"
  shows "outcome (of_sm I) (of_sm J) m (tbm_Update te xid upd m)"
  unfolding tbm_Update_def te
  by (auto split: option.split intro!: tb.outcome_obinds outcome_on_table outcome_t_Update)

end

section \<open>The fate of the transaction of a statement\<close>

text \<open>What a successful end of a transaction leaves in the transaction file.\<close>

lemma updateXID_recorded:
  assumes "updateXID xid status t = (Ok (), t')"
  shows "checkXID t' xid status"
proof -
  obtain off n where p: "xidPosition xid = (off, n)" "n = 1" by (simp add: xidPosition_def)
  obtain r f where w: "WriteAt [status] off (tm_file t) = (r, f)" by fastforce
  have "r = Ok ()" "fdata (tm_file t') = fdata f" using assms p w
    by (cases r; auto simp: updateXID_def tm_io_def Sync_def)+
  then show ?thesis using ReadAt_after_WriteAt [of "[status]" off "tm_file t" "()" f "tm_file t'"] w p by (simp add: checkXID_def)
qed

text \<open>What the others do while this session waits for a lock: they keep the invariant and do not touch its transaction.\<close>

definition others_ok :: "env \<Rightarrow> XID \<Rightarrow> bool" where
  "others_ok ev x \<longleftrightarrow> (\<forall>s s'. ev_wait ev s = Some s' \<and> tx_inv s \<longrightarrow>
     tx_inv s' \<and> sm_tc s' x = sm_tc s x \<and> tm_IsAborted (sm_TM s') x = tm_IsAborted (sm_TM s) x)"

text \<open>A call that succeeds leaves the transaction as it was. A call that fails leaves it registered, and if it is marked as rolled back then it is.\<close>

definition runs_in :: "env \<Rightarrow> XID \<Rightarrow> serializabilityManager \<Rightarrow> transaction \<Rightarrow> bool" where
  "runs_in ev x s t \<longleftrightarrow> others_ok ev x \<and> x \<noteq> SUPER_XID \<and> tx_inv s \<and> sm_tc s x = Some t"

definition tx_kept :: "env \<Rightarrow> XID \<Rightarrow> serializabilityManager \<Rightarrow> serializabilityManager \<Rightarrow> bool" where
  "tx_kept ev x s s' \<longleftrightarrow> (\<forall>t. runs_in ev x s t \<longrightarrow> runs_in ev x s' t)"

definition tx_failed :: "env \<Rightarrow> XID \<Rightarrow> serializabilityManager \<Rightarrow> serializabilityManager \<Rightarrow> bool" where
  "tx_failed ev x s s' \<longleftrightarrow> (\<forall>t. runs_in ev x s t \<longrightarrow>
     (\<exists>t'. runs_in ev x s' t' \<and> (t_AutoAbortted t' \<longrightarrow> t_AutoAbortted t \<or> tm_IsAborted (sm_TM s') x)))"

interpretation fate: chained "tx_kept ev x" "tx_failed ev x" for ev x
  by unfold_locales (auto simp: tx_kept_def tx_failed_def)

lemma runs_in_quiet: "quiet s s' \<Longrightarrow> runs_in ev x s t \<Longrightarrow> runs_in ev x s' t"
  using tx_inv_quiet by (auto simp: runs_in_def quiet_def)

lemma kept_quiet: "quiet s s' \<Longrightarrow> tx_kept ev x s s'"
  using runs_in_quiet by (auto simp: tx_kept_def)

lemma failed_quiet: "tx_failed ev x s s' \<Longrightarrow> quiet s' s'' \<Longrightarrow> tx_failed ev x s s''"
  using runs_in_quiet by (fastforce simp: tx_failed_def quiet_def)

abbreviation fate_of :: "env \<Rightarrow> XID \<Rightarrow> serializabilityManager \<Rightarrow> ('a res \<times> serializabilityManager) option \<Rightarrow> bool" where
  "fate_of ev x \<equiv> outcome (tx_kept ev x) (tx_failed ev x)"

lemma fate_quiet: "quiet s s' \<Longrightarrow> fate_of ev x s (Some (r, s'))"
  by (rule fate.outcome_I [OF kept_quiet])

lemma fate_releasing: "fate_of ev x s (Some m) \<Longrightarrow> fate_of ev x s (Some (releasing e m))"
proof -
  assume m: "fate_of ev x s (Some m)"
  obtain r s1 where r: "m = (r, s1)" by fastforce
  obtain r2 s2 where r2: "releasing e m = (r2, s2)" by fastforce
  have q: "quiet s1 s2" using quiet_releasing [of m e] r r2 by simp
  show ?thesis
  proof (cases r)
    case (Ok y)
    then have "tx_kept ev x s s2" using m r fate.I_trans [OF _ kept_quiet [OF q]] by simp
    then show ?thesis using r2 by (simp add: fate.outcome_I)
  next
    case (Err y)
    then have "tx_failed ev x s s2" "\<forall>z. r2 \<noteq> Ok z" using m r r2 failed_quiet [OF _ q]
      by (auto simp: releasing_def sbind_def split: prod.splits res.splits)
    then show ?thesis using r2 by (cases r2) simp_all
  next
    case Panic
    then show ?thesis using r r2 by (auto simp: releasing_def)
  qed
qed

lemma fate_vacuous: "\<forall>t. \<not> runs_in ev x s t \<Longrightarrow> fate_of ev x s m"
  by (cases m rule: outcome_cases) (simp_all add: tx_kept_def tx_failed_def)

lemma fate_cannotSR: "fate_of ev x s (Some (cannotSR x s))"
proof (cases "\<exists>t. runs_in ev x s t")
  case True
  then obtain t where t: "runs_in ev x s t" by blast
  then have inv: "tx_inv s" "x \<noteq> SUPER_XID" "sm_tc s x = Some t" by (auto simp: runs_in_def)
  obtain r s' where c: "cannotSR x s = (r :: 'a res, s')" by fastforce
  show ?thesis
  proof (cases "r = Panic")
    case False
    note e = cannotSR_effect [OF inv(1,2) c False]
    have "tx_inv s'" by (rule tx_inv_move [OF inv(1) e(1)])
    moreover have "sm_tc s' x = Some (failed_tx t)" using e(3) inv(3) by auto
    moreover have "t_AutoAbortted t \<or> tm_IsAborted (sm_TM s') x"
      using e(4) inv(2,3) updateXID_recorded by (auto simp: tm_IsAborted_def)
    ultimately have "tx_failed ev x s s'" using t by (auto simp: tx_failed_def runs_in_def)
    then show ?thesis using c e(2) by simp
  qed (use c in simp)
qed (simp add: fate_vacuous)

lemma fate_deleteLocked: "t_XID t = x \<Longrightarrow> fate_of ev x s (Some (deleteLocked t e s))"
proof (cases "\<exists>t1. runs_in ev x s t1")
  case True
  assume "t_XID t = x"
  then obtain t1 where t1: "sm_tc s (t_XID t) = Some t1" "t_XID t1 = x" using True by (auto simp: runs_in_def tx_inv_def)
  have q: "quiet s (snd (sbind (SetXMAX x e s) (\<lambda>_ s. (Ok True, s))))" by (auto intro!: quiet_sbind)
  have set: "fate_of ev x s (Some (sbind (SetXMAX x e s) (\<lambda>_ s. (Ok True, s))))"
    using fate_quiet [OF q] by (metis surjective_pairing)
  show ?thesis unfolding deleteLocked_def deref_def t1(1) Let_def option.case
    by (intro fate_releasing) (auto simp: t1(2) set fate_cannotSR split: option.split intro!: fate.outcome_sbind)
qed (simp add: fate_vacuous)

lemma deleteStart_blocked:
  assumes "deleteStart order x uuid s = Some (Ok (DelBlocked t e), s')"
  shows "sm_tc s' x = Some t"
proof -
  obtain r1 s1 where g: "ec_Get uuid s = (r1, s1)" by fastforce
  have "sm_tc s1 = sm_tc s" using quiet_ec_Get [of s uuid] g by (simp add: quiet_def)
  then show ?thesis using assms g
    by (auto simp: deleteStart_def live_def releasing_def cannotSR_def sbind_def Let_def split: res.splits option.splits prod.splits if_splits add_res.splits)
qed

lemma fate_deleteStart: "fate_of ev x s (deleteStart order x uuid s)"
proof (cases "\<exists>t. runs_in ev x s t")
  case True
  have live: "t_XID t = x" if "live x s = Ok t" for t
    using True that by (auto simp: live_def runs_in_def tx_inv_def split: option.splits)
  obtain r1 s1 where g: "ec_Get uuid s = (r1, s1)" by fastforce
  have q: "quiet s s1" using quiet_ec_Get [of s uuid] g by simp
  have after: "fate_of ev x s m" if "fate_of ev x s2 m" "quiet s1 s2" for m :: "(del_out res \<times> serializabilityManager) option" and s2
    by (rule fate.outcome_after [OF kept_quiet [OF quiet_trans [OF q that(2)]] that(1)])
  have stop: "fate_of ev x s (Some (r, s1))" for r :: "del_out res" by (rule fate_quiet [OF q])
  have "fate_of ev x s (Some (releasing e (cannotSR x (s1\<lparr>sm_lt := lt\<rparr>) :: del_out res \<times> serializabilityManager)))" for e lt
    by (rule after [of "s1\<lparr>sm_lt := lt\<rparr>"]) (simp_all add: fate_releasing fate_cannotSR)
  moreover have "fate_of ev x s (Some (sbind (deleteLocked t e (s1\<lparr>sm_lt := lt\<rparr>)) (\<lambda>b s. (Ok (DelDone b), s))))" if "live x s = Ok t" for t e lt
    by (rule after [of "s1\<lparr>sm_lt := lt\<rparr>"]) (simp_all add: fate.outcome_sbind fate_deleteLocked live [OF that])
  moreover have "fate_of ev x s (Some (Ok (DelBlocked t e), s1\<lparr>sm_lt := lt\<rparr>))" for t e lt
    by (rule after [of "s1\<lparr>sm_lt := lt\<rparr>"]) simp_all
  moreover have "tx_kept ev x s s1" "tx_failed ev x s s1" using kept_quiet [OF q] fate.I_J by blast+
  ultimately show ?thesis using g fate_releasing [OF stop]
    by (auto simp: deleteStart_def split: res.split option.split add_res.split)
qed (simp add: fate_vacuous)

lemma fate_Delete: "fate_of ev x s (sm_Delete ev x uuid s)"
  unfolding sm_Delete_def
proof (rule fate.outcome_obinds [OF fate_deleteStart])
  fix out s1 assume start: "deleteStart (ev_order ev (sm_lt s)) x uuid s = Some (Ok out, s1)"
  show "fate_of ev x s1 (case out of DelDone b \<Rightarrow> Some (Ok b, s1)
     | DelBlocked t e \<Rightarrow> (case ev_wait ev s1 of None \<Rightarrow> None | Some s \<Rightarrow> Some (deleteLocked t e s)))"
  proof (cases "\<exists>t. runs_in ev x s1 t")
    case True
    have kept: "tx_kept ev x s1 s2" if "ev_wait ev s1 = Some s2" for s2
      using that by (auto simp: tx_kept_def runs_in_def others_ok_def)
    have "t_XID t = x" if "out = DelBlocked t e" for t e
      using deleteStart_blocked [of _ x uuid s t e s1] start True that by (auto simp: runs_in_def tx_inv_def)
    then show ?thesis using fate.outcome_after [OF kept fate_deleteLocked] by (auto split: del_out.split option.split)
  qed (simp add: fate_vacuous)
qed

interpretation st: statement_rel "tx_kept ev x" "tx_failed ev x" ev x for ev x
  by unfold_locales (auto intro: kept_quiet quiet_Read quiet_Insert fate_Delete)

end
