(* ===== verification/Executor.thy ===== *)
theory Executor
  imports Statements
begin

text \<open>
  The session of a client (\<^verbatim>\<open>server/executor.go\<close>): parsing a statement, the commands that begin and end a transaction, and every other statement
  inside the current transaction or inside one of its own.
\<close>

section \<open>Model\<close>

record executor =
  ex_xid :: XID
  ex_tbm :: tableManager

definition NewExecutor :: "tableManager \<Rightarrow> executor" where
  "NewExecutor m = \<lparr>ex_xid = 0, ex_tbm = m\<rparr>"

definition on_tbm :: "(tableManager \<Rightarrow> 'a res \<times> tableManager) \<Rightarrow> executor \<Rightarrow> 'a res \<times> executor" where
  "on_tbm f e = (case f (ex_tbm e) of (r, m) \<Rightarrow> (r, e\<lparr>ex_tbm := m\<rparr>))"

definition on_tbmo :: "(tableManager \<Rightarrow> ('a res \<times> tableManager) option) \<Rightarrow> executor \<Rightarrow> ('a res \<times> executor) option" where
  "on_tbmo f e = map_option (\<lambda>(r, m). (r, e\<lparr>ex_tbm := m\<rparr>)) (f (ex_tbm e))"

definition ex_Close :: "executor \<Rightarrow> unit res \<times> executor" where
  "ex_Close e = (if ex_xid e \<noteq> 0 then sbind (on_tbm (tbm_Abort (ex_xid e)) e) (\<lambda>_ e. (Ok (), e)) else (Ok (), e))"

text \<open>The switch of \<open>execute2\<close>; commands that begin or end a transaction do not get there.\<close>

definition ex_statement :: "tenv \<Rightarrow> statement \<Rightarrow> executor \<Rightarrow> (bytes res \<times> executor) option" where
  "ex_statement te st e =
     (case st of
        StShow \<Rightarrow> Some (Ok (tbm_Show te (ex_xid e) (ex_tbm e)), e)
      | StCreate create \<Rightarrow> Some (on_tbm (tbm_Create (ex_xid e) create) e)
      | StDrop name \<Rightarrow> Some (on_tbm (tbm_Drop te (ex_xid e) name) e)
      | StRead rd \<Rightarrow> on_tbmo (tbm_Read te (ex_xid e) rd) e
      | StInsert ins \<Rightarrow> on_tbmo (tbm_Insert (ex_xid e) ins) e
      | StDelete del \<Rightarrow> on_tbmo (tbm_Delete te (ex_xid e) del) e
      | StUpdate upd \<Rightarrow> on_tbmo (tbm_Update te (ex_xid e) upd) e
      | _ \<Rightarrow> Some (Ok [], e))"

text \<open>The deferred function of an implicit transaction: abort after an error, commit otherwise. The results of \<open>execute2\<close> are not named, so the error of
  the commit that is assigned to \<open>err\<close> does not reach the caller.\<close>

definition ex_finish :: "bytes res \<Rightarrow> executor \<Rightarrow> bytes res \<times> executor" where
  "ex_finish r e =
     (case r of
        Panic \<Rightarrow> (Panic, e)
      | Err x \<Rightarrow> (case on_tbm (tbm_Abort (ex_xid e)) e of (Panic, e) \<Rightarrow> (Panic, e) | (_, e) \<Rightarrow> (Err x, e\<lparr>ex_xid := 0\<rparr>))
      | Ok res \<Rightarrow> (case on_tbm (tbm_Commit (ex_xid e)) e of (Panic, e) \<Rightarrow> (Panic, e) | (_, e) \<Rightarrow> (Ok res, e\<lparr>ex_xid := 0\<rparr>)))"

definition execute2 :: "tenv \<Rightarrow> statement \<Rightarrow> executor \<Rightarrow> (bytes res \<times> executor) option" where
  "execute2 te st e =
     (if ex_xid e = 0 then
        obind (on_tbm (tbm_Begin False) e) (\<lambda>(xid, _) e.
        if xid = 0 then Some (Err ErrImplicitBegin, e)
        else map_option (\<lambda>(r, e). ex_finish r e) (ex_statement te st (e\<lparr>ex_xid := xid\<rparr>)))
      else ex_statement te st e)"

definition Execute :: "tenv \<Rightarrow> bytes \<Rightarrow> executor \<Rightarrow> (bytes res \<times> executor) option" where
  "Execute te sql e =
     (case Parse sql of
        None \<Rightarrow> None
      | Some (Err x) \<Rightarrow> Some (Err x, e)
      | Some Panic \<Rightarrow> Some (Panic, e)
      | Some (Ok (StBegin rr)) \<Rightarrow>
          if ex_xid e \<noteq> 0 then Some (Err ErrNoNestedTransaction, e)
          else Some (sbind (on_tbm (tbm_Begin rr) e) (\<lambda>(xid, result) e. (Ok result, e\<lparr>ex_xid := xid\<rparr>)))
      | Some (Ok StCommit) \<Rightarrow>
          if ex_xid e = 0 then Some (Err ErrNotInAnyTransaction, e)
          else Some (sbind (on_tbm (tbm_Commit (ex_xid e)) e) (\<lambda>result e. (Ok result, e\<lparr>ex_xid := 0\<rparr>)))
      | Some (Ok StAbort) \<Rightarrow>
          if ex_xid e = 0 then Some (Err ErrNotInAnyTransaction, e)
          else Some (sbind (on_tbm (tbm_Abort (ex_xid e)) e) (\<lambda>result e. (Ok result, e\<lparr>ex_xid := 0\<rparr>)))
      | Some (Ok st) \<Rightarrow> execute2 te st e)"

section \<open>Properties\<close>

lemma sm_Abort_unregisters: "sm_Abort xid s = (r, s') \<Longrightarrow> r \<noteq> Panic \<Longrightarrow> sm_tc s' xid = None"
  by (auto simp: sm_Abort_def abort_def sm_unlock_def on_tm_def Let_def sbind_def split: option.splits res.splits prod.splits if_splits)

lemma sm_Commit_unregisters: "sm_Commit xid s = (Ok r, s') \<Longrightarrow> sm_tc s' xid = None"
  by (auto simp: sm_Commit_def commit_leave_def sm_unlock_def on_tm_def Let_def sbind_def split: option.splits res.splits prod.splits if_splits)

abbreviation registered :: "executor \<Rightarrow> XID \<Rightarrow> transaction option" where
  "registered e \<equiv> sm_tc (tbm_SM (ex_tbm e))"

lemma tbm_Abort_ends:
  assumes "on_tbm (tbm_Abort xid) e = (r, e')" and "r \<noteq> Panic"
  shows "r = Ok (str_bytes ''abort'') \<and> registered e' xid = None \<and> ex_xid e' = ex_xid e"
  using assms sm_Abort_unregisters
  by (auto simp: on_tbm_def tbm_Abort_def on_sm_def split: prod.splits res.splits)

lemma tbm_Commit_ends:
  assumes "on_tbm (tbm_Commit xid) e = (r, e')"
  shows "(r = Ok x \<longrightarrow> registered e' xid = None) \<and> ex_xid e' = ex_xid e"
  using assms sm_Commit_unregisters
  by (auto simp: on_tbm_def tbm_Commit_def on_sm_def sbind_def split: prod.splits res.splits)

lemma on_tbm_xid: "on_tbm f e = (r, e') \<Longrightarrow> ex_xid e' = ex_xid e" "on_tbmo g e = Some (r', e'') \<Longrightarrow> ex_xid e'' = ex_xid e"
  by (auto simp: on_tbm_def on_tbmo_def split: prod.splits)

lemma ex_statement_xid: "ex_statement te st e = Some (r, e') \<Longrightarrow> ex_xid e' = ex_xid e"
  using on_tbm_xid by (auto simp: ex_statement_def split: statement.splits) blast+

definition control :: "statement \<Rightarrow> bool" where
  "control st \<longleftrightarrow> (\<exists>rr. st = StBegin rr) \<or> st = StCommit \<or> st = StAbort"

lemma Execute_other: "Parse sql = Some (Ok st) \<Longrightarrow> \<not> control st \<Longrightarrow> Execute te sql e = execute2 te st e"
  by (cases st) (simp_all add: Execute_def control_def)

lemma ex_finish_xid: "ex_finish r e = (r', e') \<Longrightarrow> r' \<noteq> Panic \<Longrightarrow> ex_xid e' = 0"
  by (cases r) (auto simp: ex_finish_def split: prod.splits res.splits)

lemma execute2_xid:
  assumes "execute2 te st e = Some (r, e')" and "r \<noteq> Panic"
  shows "ex_xid e' = ex_xid e"
proof (cases "ex_xid e = 0")
  case True
  obtain r0 e0 where b: "on_tbm (tbm_Begin False) e = (r0, e0)" by fastforce
  have e0: "ex_xid e0 = 0" using on_tbm_xid(1) [OF b] True by simp
  show ?thesis
  proof (cases r0)
    case (Ok p)
    obtain x msg where p: "p = (x, msg)" by fastforce
    show ?thesis
    proof (cases "x = 0")
      case False
      then obtain r1 e1 where "ex_finish r1 e1 = (r, e')" using assms(1) True b Ok p by (auto simp: execute2_def)
      then show ?thesis using ex_finish_xid assms(2) True by metis
    qed (use assms(1) True b Ok p e0 in \<open>simp add: execute2_def\<close>)
  qed (use assms True b e0 in \<open>simp_all add: execute2_def\<close>)
next
  case False
  then show ?thesis using assms(1) ex_statement_xid by (simp add: execute2_def)
qed

lemma sm_Commit_recorded:
  assumes "sm_Commit xid s = (Ok r, s')" and "sm_tc s xid \<noteq> None"
  shows "tm_IsCommitted (sm_TM s') xid"
  using assms updateXID_recorded
  by (auto simp: sm_Commit_def commit_leave_def on_tm_def sbind_def tm_Commit_def tm_IsCommitted_def split: option.splits res.splits prod.splits if_splits)

abbreviation session_tm :: "executor \<Rightarrow> transactionManager" where
  "session_tm e \<equiv> sm_TM (tbm_SM (ex_tbm e))"

text \<open>A statement within the transaction of the session.\<close>

abbreviation session_sm :: "executor \<Rightarrow> serializabilityManager" where
  "session_sm e \<equiv> tbm_SM (ex_tbm e)"

lemma ex_statement_fate:
  "outcome (\<lambda>e e'. tx_kept (te_env te) x (session_sm e) (session_sm e')) (\<lambda>e e'. tx_failed (te_env te) x (session_sm e) (session_sm e'))
     e (ex_statement te st e)" if x: "x = ex_xid e"
proof -
  let ?I = "tx_kept (te_env te) x" and ?J = "tx_failed (te_env te) x"
  let ?P = "\<lambda>m. outcome (\<lambda>e e'. ?I (session_sm e) (session_sm e')) (\<lambda>e e'. ?J (session_sm e) (session_sm e')) e m"
  have o: "?P (on_tbmo f e)" if "outcome (of_sm ?I) (of_sm ?J) (ex_tbm e) (f (ex_tbm e))" for f :: "tableManager \<Rightarrow> (bytes res \<times> tableManager) option"
    unfolding on_tbmo_def by (rule outcome_sub [where f = ex_tbm, OF that]) simp_all
  have t: "?P (Some (on_tbm f e))" if "outcome (of_sm ?I) (of_sm ?J) (ex_tbm e) (Some (f (ex_tbm e)))" for f :: "tableManager \<Rightarrow> bytes res \<times> tableManager"
    using o [of "\<lambda>m. Some (f m)"] that by (simp add: on_tbmo_def on_tbm_def split: prod.split)
  show ?thesis
    by (cases st) (simp_all add: ex_statement_def flip: x, auto intro!: o t st.outcome_tbm_Create st.outcome_tbm_Drop st.outcome_tbm_Read
      st.outcome_tbm_Insert st.outcome_tbm_Delete st.outcome_tbm_Update)
qed

text \<open>Ending a registered transaction succeeds while the status file does.\<close>

lemma sm_Commit_succeeds:
  assumes "tx_inv s" and "x \<noteq> SUPER_XID" and "sm_tc s x = Some t" and "t_Err t = None" and "sm_Commit x s = (r, s')" and "r \<noteq> Panic"
  shows "r = Ok () \<and> tm_IsCommitted (sm_TM s') x \<and> sm_tc s' x = None \<and> tx_inv s'"
proof -
  have "sbind (sm_unlock x (s\<lparr>sm_tc := (sm_tc s)(x := None)\<rparr>)) (\<lambda>_ s. on_tm (tm_Commit x) s) = (r, s')"
    using assms by (simp add: sm_Commit_def commit_leave_def)
  then obtain s2 where u: "quiet (s\<lparr>sm_tc := (sm_tc s)(x := None)\<rparr>) s2" "on_tm (tm_Commit x) s2 = (r, s')" using unlocked assms(6) by blast
  obtain t' where t': "updateXID x FIELD_TRAN_COMMITTED (sm_TM s) = (r, t')" "s' = s2\<lparr>sm_TM := t'\<rparr>"
    using u by (auto simp: on_tm_def tm_Commit_def quiet_def split: prod.splits)
  have "r = Ok ()" by (rule tx_move_finish(2) [OF assms(1) _ assms(2) t'(1), of s' None]) (use t'(2) u(1) assms(3) in \<open>auto simp: quiet_def\<close>)
  then show ?thesis using sm_Commit_recorded sm_Commit_unregisters assms tx_inv_move [OF assms(1)] tx_move_Commit [OF assms(1,2,5,6)] by blast
qed

lemma sm_Abort_succeeds:
  assumes "tx_inv s" and "x \<noteq> SUPER_XID" and "sm_tc s x = Some t" and "t_AutoAbortted t \<Longrightarrow> tm_IsAborted (sm_TM s) x"
    and c: "sm_Abort x s = (r, s')" and r: "r \<noteq> Panic"
  shows "tm_IsAborted (sm_TM s') x \<and> sm_tc s' x = None \<and> tx_inv s'"
proof -
  have "tm_IsAborted (sm_TM s') x" using c [unfolded sm_Abort_def] r
  proof (cases rule: abort_cases)
    case (again t') then show ?thesis using assms(3,4) by simp
  next
    case (ends t' tm)
    have "r = Ok ()" by (rule tx_move_finish(2) [OF assms(1) _ assms(2) ends(3,4), of None]) (use ends in auto)
    then show ?thesis using ends assms(2) updateXID_recorded by (auto simp: tm_IsAborted_def)
  qed
  then show ?thesis using sm_Abort_unregisters [OF c r] tx_inv_move [OF assms(1) tx_move_Abort [OF assms(1,2) c r]] by blast
qed

text \<open>C6. Statements outside a transaction are atomic. A statement other than \<open>begin\<close>, \<open>commit\<close> and \<open>abort\<close> that a session sends while it is in no
  transaction runs in a fresh one, with the next id. If the statement answers without an error, that transaction is committed; if it answers with an
  error, it is aborted, also when the serializability manager had rolled it back on its own. Either way it is unregistered, the session is in no
  transaction again, and the invariant of transactions holds. The hypotheses: the invariant holds before, ids are left, and while the session waits
  for a lock the others keep the invariant and leave its transaction alone.\<close>

theorem statement_atomic:
  assumes "tx_inv (session_sm e)" and "unat (xidCounter (session_tm e)) + 17 < 2 ^ 63" and "x = xidCounter (session_tm e) + 1" and "others_ok (te_env te) x"
    and "ex_xid e = 0" and "Parse sql = Some (Ok st)" and "\<not> control st" and "Execute te sql e = Some (r, e')" and "r \<noteq> Panic"
  shows "registered e x = None \<and> (\<forall>a. r = Ok a \<longrightarrow> tm_IsCommitted (session_tm e') x) \<and> (\<forall>a. r = Err a \<longrightarrow> tm_IsAborted (session_tm e') x) \<and>
     registered e' x = None \<and> ex_xid e' = 0 \<and> tx_inv (session_sm e')"
proof -
  have ux: "unat x = unat (xidCounter (session_tm e)) + 1" using assms(2,3) unat_Suc_small by simp
  then have x0: "x \<noteq> 0" "x \<noteq> SUPER_XID" by (auto simp: SUPER_XID_def)
  have fresh: "registered e x = None" using assms(1) ux unfolding tx_inv_def by (metis Suc_eq_plus1 not_less_eq_eq option.exhaust order_refl)
  obtain s1 where b: "sm_Begin 0 (session_sm e) = (Ok x, s1)" "sm_tc s1 x = Some (newTransaction x 0 (dom (registered e)))" "tx_inv s1"
    using tx_move_Begin [OF assms(1,2), of 0 "fst (sm_Begin 0 (session_sm e))" "snd (sm_Begin 0 (session_sm e))"] tx_inv_move [OF assms(1)] assms(3)
    by (metis fun_upd_same prod.collapse)
  let ?t = "newTransaction x 0 (dom (registered e))"
  let ?e1 = "e\<lparr>ex_tbm := (ex_tbm e)\<lparr>tbm_SM := s1\<rparr>, ex_xid := x\<rparr>"
  have "execute2 te st e = map_option (\<lambda>(r, e). ex_finish r e) (ex_statement te st ?e1)"
    using assms(5) b(1) x0 by (simp add: execute2_def on_tbm_def tbm_Begin_def on_sm_def)
  then obtain r1 e2 where s: "ex_statement te st ?e1 = Some (r1, e2)" "ex_finish r1 e2 = (r, e')"
    using assms(8) Execute_other [OF assms(6,7)] by auto
  have x2: "ex_xid e2 = x" using ex_statement_xid [OF s(1)] by simp
  have run: "runs_in (te_env te) x (session_sm ?e1) ?t" using b assms(4) x0 by (simp add: runs_in_def)
  note fate = ex_statement_fate [of x ?e1 te st, unfolded s(1)]
  have t0: "t_Err ?t = None" "\<not> t_AutoAbortted ?t" by (simp_all add: newTransaction_def)
  show ?thesis
  proof (cases r1)
    case (Ok a)
    obtain rc sc where c: "sm_Commit x (session_sm e2) = (rc, sc)" by fastforce
    have k: "tx_inv (session_sm e2)" "registered e2 x = Some ?t" using fate run Ok by (auto simp: tx_kept_def runs_in_def)
    have e': "r = Ok a" "rc \<noteq> Panic" "session_sm e' = sc" "ex_xid e' = 0" using s(2) Ok c x2 assms(9)
      by (cases rc; auto simp: ex_finish_def on_tbm_def tbm_Commit_def on_sm_def)+
    then show ?thesis using sm_Commit_succeeds [OF k(1) x0(2) k(2) t0(1) c] fresh by auto
  next
    case (Err a)
    obtain ra sa where c: "sm_Abort x (session_sm e2) = (ra, sa)" by fastforce
    obtain t where k: "tx_inv (session_sm e2)" "registered e2 x = Some t" "t_AutoAbortted t \<Longrightarrow> tm_IsAborted (session_tm e2) x"
      using fate run Err t0(2) by (auto simp: tx_failed_def runs_in_def)
    have e': "r = Err a" "ra \<noteq> Panic" "session_sm e' = sa" "ex_xid e' = 0" using s(2) Err c x2 assms(9)
      by (cases ra; auto simp: ex_finish_def on_tbm_def tbm_Abort_def on_sm_def)+
    then show ?thesis using sm_Abort_succeeds [OF k(1) x0(2) k(2,3) c] fresh by auto
  next
    case Panic
    then show ?thesis using s(2) assms(9) by (simp add: ex_finish_def)
  qed
qed


text \<open>An empty database.\<close>

definition new_tbm :: tableManager where
  "new_tbm = \<lparr>tbm_SM = new_sm, tbm_booter = \<lparr>bo_file = Some (UUIDToRaw NilUUID), bo_tmp = None, bo_faults = []\<rparr>, tbm_tc = Map.empty, tbm_xtc = (\<lambda>_. [])\<rparr>"

lemma parse_word: "Parse (render [''abort'']) = Some (Ok StAbort)" "Parse (render [''commit'']) = Some (Ok StCommit)"
proof -
  have y: "yields (render [w]) [w]" if "printable w" for w using yields_render [of "[w]"] that by simp
  show "Parse (render [''abort'']) = Some (Ok StAbort)"
    using Parse_tokens [OF y [of "''abort''"]] parse_simple(2) by (simp add: printable_def)
  show "Parse (render [''commit'']) = Some (Ok StCommit)"
    using Parse_tokens [OF y [of "''commit''"]] parse_simple(1) by (simp add: printable_def)
qed

lemma parse_drop_t: "Parse (render [''drop'', ''table'', ''t'']) = Some (Ok (StDrop ''t''))"
proof -
  have "yields (render [''drop'', ''table'', ''t'']) [''drop'', ''table'', ''t'']" by (rule yields_render) (simp_all add: printable_def)
  moreover have "isName ''t''" by (simp add: isName_def isAlphaBeta_def)
  ultimately show ?thesis using Parse_tokens parse_drop [of "''t''"] by fastforce
qed

lemma updateXID_no_panic: "fst (updateXID x b t) \<noteq> Panic"
  by (auto simp: updateXID_def tm_io_def sbind_def WriteAt_def Sync_def split: prod.splits res.splits if_splits)

theorem statement_atomic_witness:
  "\<exists>e'. Execute ex_tenv (render [''drop'', ''table'', ''t'']) (NewExecutor new_tbm) = Some (Err ErrNoThatTable, e') \<and>
     tm_IsAborted (session_tm e') 1 \<and> registered e' 1 = None"
proof -
  let ?e = "NewExecutor new_tbm"
  have n: "session_sm ?e = new_sm" "ex_xid ?e = 0" "tbm_tc (ex_tbm ?e) = Map.empty" by (simp_all add: NewExecutor_def new_tbm_def)
  obtain s1 where b: "sm_Begin 0 new_sm = (Ok 1, s1)" "sm_tc s1 1 = Some (newTransaction 1 0 (dom (sm_tc new_sm)))" "sm_lt s1 = NewLockTable"
    using begin_again [OF new_sm_inv(1), of 0] new_sm_inv(2,6) by auto
  obtain r s2 where a: "sm_Abort 1 s1 = (r, s2)" by fastforce
  have "r \<noteq> Panic" using a b(2,3) updateXID_no_panic [of 1 FIELD_TRAN_ABORTED "sm_TM s1"]
    by (auto simp: sm_Abort_def abort_def sm_unlock_def lt_Remove_def NewLockTable_def on_tm_def tm_Abort_def newTransaction_def split: prod.splits)
  obtain e' where x: "Execute ex_tenv (render [''drop'', ''table'', ''t'']) ?e = Some (Err ErrNoThatTable, e')"
    using a \<open>r \<noteq> Panic\<close> b(1) n by (cases r) (auto simp: Execute_def parse_drop_t execute2_def on_tbm_def tbm_Begin_def on_sm_def ex_statement_def tbm_Drop_def ex_finish_def tbm_Abort_def)
  have "others_ok (te_env ex_tenv) 1" by (simp add: others_ok_def ex_tenv_def)
  then show ?thesis using statement_atomic [OF _ _ _ _ _ parse_drop_t _ x, of 1] x n new_sm_inv(1,2) by (auto simp: control_def)
qed


end
