(* ===== verification/Transporter.thy ===== *)
theory Transporter
  imports Utils
begin

text \<open>
  The messages between client and server (package \<^verbatim>\<open>transporter\<close>): packages, the line protocol in hexadecimal
  (\<^verbatim>\<open>transporter.go\<close>, \<^verbatim>\<open>protocoler.go\<close>), the binary protocol (\<^verbatim>\<open>wire.go\<close>, \<^verbatim>\<open>wire_protocoler.go\<close>, \<^verbatim>\<open>wire_transporter.go\<close>) and the
  packager that puts the two layers together (\<^verbatim>\<open>packager.go\<close>). A connection is the bytes that are still to be read (after them the peer closes it), the bytes written
  so far, and the outcomes of the coming writes. The text of an error, \<open>err.Error()\<close>, is a parameter.
\<close>

section \<open>Packages and connections\<close>

record package =
  pk_Data :: bytes
  pk_Err :: "error option"

definition NewPackage :: "bytes \<Rightarrow> error option \<Rightarrow> package" where
  "NewPackage data err = \<lparr>pk_Data = data, pk_Err = err\<rparr>"

record conn =
  cn_in :: bytes
  cn_out :: bytes
  cn_faults :: "bool list"

definition cn_Write :: "bytes \<Rightarrow> conn \<Rightarrow> unit res \<times> conn" where
  "cn_Write data c =
     (case cn_faults c of
        True # fs \<Rightarrow> (Err ErrIO, c\<lparr>cn_faults := fs\<rparr>)
      | fs \<Rightarrow> (Ok (), c\<lparr>cn_out := cn_out c @ data, cn_faults := tl fs\<rparr>))"

definition ReadFull :: "nat \<Rightarrow> conn \<Rightarrow> bytes res \<times> conn" where
  "ReadFull n c =
     (if n \<le> length (cn_in c) then (Ok (take n (cn_in c)), c\<lparr>cn_in := drop n (cn_in c)\<rparr>)
      else (Err ErrEOF, c\<lparr>cn_in := []\<rparr>))"

section \<open>The line protocol\<close>

text \<open>\<open>hex.Encode\<close> and \<open>hex.Decode\<close>.\<close>

definition hex_digit :: "nat \<Rightarrow> byte" where
  "hex_digit n = (if n < 10 then of_nat (48 + n) else of_nat (87 + n))"

definition hex_value :: "byte \<Rightarrow> nat option" where
  "hex_value b =
     (let n = unat b in
      if 48 \<le> n \<and> n \<le> 57 then Some (n - 48)
      else if 97 \<le> n \<and> n \<le> 102 then Some (n - 87)
      else if 65 \<le> n \<and> n \<le> 70 then Some (n - 55) else None)"

fun hexBytes :: "bytes \<Rightarrow> bytes" where
  "hexBytes [] = []"
| "hexBytes (b # bs) = hex_digit (unat b div 16) # hex_digit (unat b mod 16) # hexBytes bs"

fun unhexBytes :: "bytes \<Rightarrow> bytes res" where
  "unhexBytes (h # l # bs) =
     (case (hex_value h, hex_value l) of
        (Some x, Some y) \<Rightarrow> rbind (unhexBytes bs) (\<lambda>r. Ok (of_nat (16 * x + y) # r))
      | _ \<Rightarrow> Panic)"
| "unhexBytes _ = Ok []"

definition hexEncode :: "bytes \<Rightarrow> bytes" where
  "hexEncode buf = hexBytes buf @ [0x0A]"

definition hexDecode :: "bytes \<Rightarrow> bytes res" where
  "hexDecode buf = (let n = length buf div 2 in unhexBytes (take (n * 2) buf))"

text \<open>\<open>bufio.Reader.ReadBytes\<close>: up to and with the delimiter; an error when the input ends before it.\<close>

definition ReadBytes :: "byte \<Rightarrow> conn \<Rightarrow> bytes res \<times> conn" where
  "ReadBytes delim c =
     (let pre = takeWhile (\<lambda>b. b \<noteq> delim) (cn_in c) in
      if length pre < length (cn_in c) then (Ok (pre @ [delim]), c\<lparr>cn_in := drop (length pre + 1) (cn_in c)\<rparr>)
      else (Err ErrEOF, c\<lparr>cn_in := []\<rparr>))"

definition hx_Send :: "bytes \<Rightarrow> conn \<Rightarrow> unit res \<times> conn" where
  "hx_Send data c = cn_Write (hexEncode data) c"

definition hx_Receive :: "conn \<Rightarrow> bytes res \<times> conn" where
  "hx_Receive c = sbind (ReadBytes 0x0A c) (\<lambda>data c. (hexDecode data, c))"

definition pr_Encode :: "(error \<Rightarrow> string) \<Rightarrow> package \<Rightarrow> bytes" where
  "pr_Encode errText pkg =
     (case pk_Err pkg of Some err \<Rightarrow> 1 # str_bytes (errText err) | None \<Rightarrow> 0 # pk_Data pkg)"

definition pr_Decode :: "bytes \<Rightarrow> package res" where
  "pr_Decode data =
     (case data of
        [] \<Rightarrow> Err ErrInvalidPkgData
      | b # rest \<Rightarrow>
          if b = 0 then Ok (NewPackage rest None)
          else if b = 1 then Ok (NewPackage [] (Some (ErrText (bytes_str rest))))
          else Err ErrInvalidPkgData)"

section \<open>The binary protocol\<close>

definition WireMagic :: uint32 where "WireMagic = 0x57495344"
definition WireVersion :: byte where "WireVersion = 1"
definition WireTypeRequest :: byte where "WireTypeRequest = 1"
definition WireTypeResponse :: byte where "WireTypeResponse = 2"
definition WireFlagOK :: byte where "WireFlagOK = 0"
definition WireFlagError :: byte where "WireFlagError = 1"
definition wireReqHeaderLen :: nat where "wireReqHeaderLen = 14"
definition wireRespHeaderLen :: nat where "wireRespHeaderLen = 15"

record wireProtocoler =
  wp_nextID :: uint32
  wp_isServer :: bool
  wp_lastRequestID :: uint32

definition NewWireProtocoler :: wireProtocoler where
  "NewWireProtocoler = \<lparr>wp_nextID = 0, wp_isServer = False, wp_lastRequestID = 0\<rparr>"

definition NewWireServerProtocoler :: wireProtocoler where
  "NewWireServerProtocoler = \<lparr>wp_nextID = 0, wp_isServer = True, wp_lastRequestID = 0\<rparr>"

text \<open>\<open>binary.BigEndian.PutUint32(frame[a:a+4], v)\<close>.\<close>

definition put32 :: "bytes \<Rightarrow> nat \<Rightarrow> uint32 \<Rightarrow> bytes res" where
  "put32 frame a v = rbind (go_slice frame a (a + 4)) (\<lambda>_. copy_at frame a (be_bytes 4 (unat v)))"

text \<open>\<open>copy(frame[a:b], src)\<close>.\<close>

definition copy_into :: "bytes \<Rightarrow> nat \<Rightarrow> nat \<Rightarrow> bytes \<Rightarrow> bytes res" where
  "copy_into frame a b src = rbind (go_slice frame a b) (\<lambda>w. copy_at frame a (take (length w) src))"

text \<open>The length of a frame is computed in \<open>uint32\<close> and wraps.\<close>

definition encodeRequest :: "package \<Rightarrow> wireProtocoler \<Rightarrow> bytes res \<times> wireProtocoler" where
  "encodeRequest pkg p =
     (let reqID = wp_nextID p + 1;
          p = p\<lparr>wp_nextID := reqID\<rparr>;
          payload = pk_Data pkg;
          bodyLen = (of_nat (length payload) :: uint32);
          frame = replicate (unat (of_nat wireReqHeaderLen + bodyLen)) 0
      in (rbind (put32 frame 0 WireMagic) (\<lambda>frame.
          rbind (set_at frame 4 WireVersion) (\<lambda>frame.
          rbind (set_at frame 5 WireTypeRequest) (\<lambda>frame.
          rbind (put32 frame 6 reqID) (\<lambda>frame.
          rbind (put32 frame 10 bodyLen) (\<lambda>frame. copy_at frame 14 payload))))), p))"

definition encodeResponse :: "(error \<Rightarrow> string) \<Rightarrow> package \<Rightarrow> wireProtocoler \<Rightarrow> bytes res" where
  "encodeResponse errText pkg p =
     (let reqID = wp_lastRequestID p;
          (flag, payload) = (case pk_Err pkg of Some err \<Rightarrow> (WireFlagError, str_bytes (errText err)) | None \<Rightarrow> (WireFlagOK, pk_Data pkg));
          bodyLen = (of_nat (length payload) :: uint32);
          frame = replicate (unat (of_nat wireRespHeaderLen + bodyLen)) 0
      in rbind (put32 frame 0 WireMagic) (\<lambda>frame.
         rbind (set_at frame 4 WireVersion) (\<lambda>frame.
         rbind (set_at frame 5 WireTypeResponse) (\<lambda>frame.
         rbind (put32 frame 6 reqID) (\<lambda>frame.
         rbind (set_at frame 10 flag) (\<lambda>frame.
         rbind (put32 frame 11 bodyLen) (\<lambda>frame. copy_at frame 15 payload)))))))"

definition wp_Encode :: "(error \<Rightarrow> string) \<Rightarrow> package \<Rightarrow> wireProtocoler \<Rightarrow> bytes res \<times> wireProtocoler" where
  "wp_Encode errText pkg p = (if wp_isServer p then (encodeResponse errText pkg p, p) else encodeRequest pkg p)"

definition wp_Decode :: "bytes \<Rightarrow> wireProtocoler \<Rightarrow> package res \<times> wireProtocoler" where
  "wp_Decode data p =
     (if length data < 6 then (Err ErrInvalidPkgData, p)
      else let frameType = data ! 5 in
      if frameType = WireTypeRequest then
        (if length data < wireReqHeaderLen then (Err ErrInvalidPkgData, p)
         else sbind (rbind (go_slice data 6 10) GetUint32, p) (\<lambda>reqID p.
              sbind (rbind (go_slice data 10 14) GetUint32, p) (\<lambda>bodyLen p.
              if (of_nat (length data) :: uint32) < of_nat wireReqHeaderLen + bodyLen then (Err ErrInvalidPkgData, p)
              else let p = p\<lparr>wp_lastRequestID := reqID\<rparr> in
                (rbind (go_slice data wireReqHeaderLen (unat (of_nat wireReqHeaderLen + bodyLen))) (\<lambda>payload. Ok (NewPackage payload None)), p))))
      else if frameType = WireTypeResponse then
        (if length data < wireRespHeaderLen then (Err ErrInvalidPkgData, p)
         else sbind (rbind (go_slice data 11 15) GetUint32, p) (\<lambda>bodyLen p.
              if (of_nat (length data) :: uint32) < of_nat wireRespHeaderLen + bodyLen then (Err ErrInvalidPkgData, p)
              else (rbind (go_slice data wireRespHeaderLen (unat (of_nat wireRespHeaderLen + bodyLen))) (\<lambda>payload.
                    Ok (if data ! 10 = WireFlagError then NewPackage [] (Some (ErrText (bytes_str payload))) else NewPackage payload None)), p)))
      else (Err ErrWireBadType, p))"

definition wt_Send :: "bytes \<Rightarrow> conn \<Rightarrow> unit res \<times> conn" where
  "wt_Send data c = cn_Write data c"

text \<open>A whole frame off the connection, put together again from its parts.\<close>

definition wt_frame :: "bytes \<Rightarrow> nat \<Rightarrow> conn \<Rightarrow> bytes res \<times> conn" where
  "wt_frame pre n c =
     sbind (ReadFull n c) (\<lambda>rest c.
     sbind (rbind (go_slice rest (n - 4) n) GetUint32, c) (\<lambda>bodyLen c.
     sbind (ReadFull (unat bodyLen) c) (\<lambda>body c.
     let frame = replicate (unat (6 + of_nat n + bodyLen)) 0 in
     (rbind (copy_into frame 0 6 pre) (\<lambda>frame.
      rbind (copy_into frame 6 (6 + n) rest) (\<lambda>frame. copy_at frame (6 + n) body)), c))))"

definition wt_Receive :: "conn \<Rightarrow> bytes res \<times> conn" where
  "wt_Receive c =
     sbind (ReadFull 6 c) (\<lambda>pre c.
     sbind (rbind (go_slice pre 0 4) GetUint32, c) (\<lambda>magic c.
     if magic \<noteq> WireMagic then (Err ErrWireBadMagic, c)
     else if pre ! 4 \<noteq> WireVersion then (Err ErrWireBadVersion, c)
     else if pre ! 5 = WireTypeRequest then wt_frame pre 8 c
     else if pre ! 5 = WireTypeResponse then wt_frame pre 9 c
     else (Err ErrWireBadType, c)))"

section \<open>The packager\<close>

text \<open>The packager over the binary protocol: the state is the protocoler and the connection.\<close>

definition pkg_Send :: "(error \<Rightarrow> string) \<Rightarrow> package \<Rightarrow> wireProtocoler \<times> conn \<Rightarrow> unit res \<times> wireProtocoler \<times> conn" where
  "pkg_Send errText pkg pc =
     (case pc of (p, c) \<Rightarrow>
      (case wp_Encode errText pkg p of
         (Ok data, p) \<Rightarrow> (case wt_Send data c of (r, c) \<Rightarrow> (r, p, c))
       | (Err e, p) \<Rightarrow> (Err e, p, c)
       | (Panic, p) \<Rightarrow> (Panic, p, c)))"

definition pkg_Receive :: "wireProtocoler \<times> conn \<Rightarrow> package res \<times> wireProtocoler \<times> conn" where
  "pkg_Receive pc =
     (case pc of (p, c) \<Rightarrow>
      (case wt_Receive c of
         (Ok data, c) \<Rightarrow> (case wp_Decode data p of (r, p) \<Rightarrow> (r, p, c))
       | (Err e, c) \<Rightarrow> (Err e, p, c)
       | (Panic, c) \<Rightarrow> (Panic, p, c)))"

section \<open>Frames\<close>

definition req_frame :: "uint32 \<Rightarrow> bytes \<Rightarrow> bytes" where
  "req_frame reqID payload = be_bytes 4 (unat WireMagic) @ [WireVersion, WireTypeRequest] @ be_bytes 4 (unat reqID) @
     be_bytes 4 (length payload) @ payload"

definition resp_frame :: "uint32 \<Rightarrow> byte \<Rightarrow> bytes \<Rightarrow> bytes" where
  "resp_frame reqID flag payload = be_bytes 4 (unat WireMagic) @ [WireVersion, WireTypeResponse] @ be_bytes 4 (unat reqID) @ [flag] @
     be_bytes 4 (length payload) @ payload"

text \<open>Filling a fresh frame from left to right.\<close>

lemma fill_copy: "a = length xs \<Longrightarrow> length src \<le> m \<Longrightarrow> copy_at (xs @ replicate m 0) a src = Ok ((xs @ src) @ replicate (m - length src) 0)"
  by (simp add: copy_at_def go_copy_def)

lemma fill_put32: "a = length xs \<Longrightarrow> 4 \<le> m \<Longrightarrow> put32 (xs @ replicate m 0) a v = Ok ((xs @ be_bytes 4 (unat v)) @ replicate (m - 4) 0)"
  using fill_copy [of a xs "be_bytes 4 (unat v)" m] by (simp add: put32_def go_slice_def)

lemma fill_set: "a = length xs \<Longrightarrow> 1 \<le> m \<Longrightarrow> set_at (xs @ replicate m 0) a v = Ok ((xs @ [v]) @ replicate (m - 1) 0)"
  by (cases m) (simp_all add: set_at_def list_update_append)

lemma frame_size: "n < 2 ^ 32 - 15 \<Longrightarrow> unat (of_nat 14 + (of_nat n :: uint32)) = 14 + n" "n < 2 ^ 32 - 15 \<Longrightarrow> unat (of_nat 15 + (of_nat n :: uint32)) = 15 + n"
  "n < 2 ^ 32 - 15 \<Longrightarrow> unat (of_nat n :: uint32) = n"
proof -
  have u: "unat (of_nat m :: uint32) = m" if "m < 2 ^ 32" for m using that by (simp add: unat_of_nat take_bit_nat_eq_self)
  assume n: "n < 2 ^ 32 - 15"
  show "unat (of_nat 14 + (of_nat n :: uint32)) = 14 + n" using u [of "14 + n"] n by (simp only: of_nat_add)
  show "unat (of_nat 15 + (of_nat n :: uint32)) = 15 + n" using u [of "15 + n"] n by (simp only: of_nat_add)
  show "unat (of_nat n :: uint32) = n" using u [of n] n by simp
qed

lemma encodeRequest_frame:
  assumes "length (pk_Data pkg) < 2 ^ 32 - 15"
  shows "encodeRequest pkg p = (Ok (req_frame (wp_nextID p + 1) (pk_Data pkg)), p\<lparr>wp_nextID := wp_nextID p + 1\<rparr>)"
proof -
  let ?d = "pk_Data pkg" and ?m = "be_bytes 4 (unat WireMagic)" and ?i = "be_bytes 4 (unat (wp_nextID p + 1))"
  let ?n = "length ?d" and ?l = "be_bytes 4 (unat (of_nat (length ?d) :: uint32))"
  have 1: "put32 (replicate (14 + ?n) 0) 0 WireMagic = Ok (?m @ replicate (10 + ?n) 0)" using fill_put32 [of 0 "[]" "14 + ?n"] by simp
  have 2: "set_at (?m @ replicate (10 + ?n) 0) 4 WireVersion = Ok ((?m @ [WireVersion]) @ replicate (9 + ?n) 0)" using fill_set [of 4 ?m "10 + ?n"] by simp
  have 3: "set_at ((?m @ [WireVersion]) @ replicate (9 + ?n) 0) 5 WireTypeRequest = Ok ((?m @ [WireVersion, WireTypeRequest]) @ replicate (8 + ?n) 0)"
    using fill_set [of 5 "?m @ [WireVersion]" "9 + ?n"] by simp
  have 4: "put32 ((?m @ [WireVersion, WireTypeRequest]) @ replicate (8 + ?n) 0) 6 (wp_nextID p + 1) = Ok ((?m @ [WireVersion, WireTypeRequest] @ ?i) @ replicate (4 + ?n) 0)"
    using fill_put32 [of 6 "?m @ [WireVersion, WireTypeRequest]" "8 + ?n"] by simp
  have 5: "put32 ((?m @ [WireVersion, WireTypeRequest] @ ?i) @ replicate (4 + ?n) 0) 10 (of_nat ?n) = Ok ((?m @ [WireVersion, WireTypeRequest] @ ?i @ ?l) @ replicate ?n 0)"
    using fill_put32 [of 10 "?m @ [WireVersion, WireTypeRequest] @ ?i" "4 + ?n"] by simp
  have 6: "copy_at ((?m @ [WireVersion, WireTypeRequest] @ ?i @ ?l) @ replicate ?n 0) 14 ?d = Ok (?m @ [WireVersion, WireTypeRequest] @ ?i @ ?l @ ?d)"
    using fill_copy [of 14 "?m @ [WireVersion, WireTypeRequest] @ ?i @ ?l" ?d ?n] by simp
  show ?thesis unfolding encodeRequest_def Let_def wireReqHeaderLen_def frame_size(1) [OF assms] 1 rbind_simps 2 3 4 5 6
    using frame_size(3) [OF assms] by (simp add: req_frame_def)
qed

lemma encodeResponse_frame:
  assumes "(flag, payload) = (case pk_Err pkg of Some err \<Rightarrow> (WireFlagError, str_bytes (errText err)) | None \<Rightarrow> (WireFlagOK, pk_Data pkg))"
    and "length payload < 2 ^ 32 - 15"
  shows "encodeResponse errText pkg p = Ok (resp_frame (wp_lastRequestID p) flag payload)"
proof -
  let ?m = "be_bytes 4 (unat WireMagic)" and ?i = "be_bytes 4 (unat (wp_lastRequestID p))"
  let ?n = "length payload" and ?l = "be_bytes 4 (unat (of_nat (length payload) :: uint32))" and ?t = "[WireVersion, WireTypeResponse]"
  have 1: "put32 (replicate (15 + ?n) 0) 0 WireMagic = Ok (?m @ replicate (11 + ?n) 0)" using fill_put32 [of 0 "[]" "15 + ?n"] by simp
  have 2: "set_at (?m @ replicate (11 + ?n) 0) 4 WireVersion = Ok ((?m @ [WireVersion]) @ replicate (10 + ?n) 0)" using fill_set [of 4 ?m "11 + ?n"] by simp
  have 3: "set_at ((?m @ [WireVersion]) @ replicate (10 + ?n) 0) 5 WireTypeResponse = Ok ((?m @ ?t) @ replicate (9 + ?n) 0)"
    using fill_set [of 5 "?m @ [WireVersion]" "10 + ?n"] by simp
  have 4: "put32 ((?m @ ?t) @ replicate (9 + ?n) 0) 6 (wp_lastRequestID p) = Ok ((?m @ ?t @ ?i) @ replicate (5 + ?n) 0)"
    using fill_put32 [of 6 "?m @ ?t" "9 + ?n"] by simp
  have 5: "set_at ((?m @ ?t @ ?i) @ replicate (5 + ?n) 0) 10 flag = Ok ((?m @ ?t @ ?i @ [flag]) @ replicate (4 + ?n) 0)"
    using fill_set [of 10 "?m @ ?t @ ?i" "5 + ?n"] by simp
  have 6: "put32 ((?m @ ?t @ ?i @ [flag]) @ replicate (4 + ?n) 0) 11 (of_nat ?n) = Ok ((?m @ ?t @ ?i @ [flag] @ ?l) @ replicate ?n 0)"
    using fill_put32 [of 11 "?m @ ?t @ ?i @ [flag]" "4 + ?n"] by simp
  have 7: "copy_at ((?m @ ?t @ ?i @ [flag] @ ?l) @ replicate ?n 0) 15 payload = Ok (?m @ ?t @ ?i @ [flag] @ ?l @ payload)"
    using fill_copy [of 15 "?m @ ?t @ ?i @ [flag] @ ?l" payload ?n] by simp
  show ?thesis unfolding encodeResponse_def Let_def assms(1) [symmetric] prod.case wireRespHeaderLen_def frame_size(2) [OF assms(2)] 1 rbind_simps 2 3 4 5 6 7
    using frame_size(3) [OF assms(2)] by (simp add: resp_frame_def)
qed

lemma GetUint32_be: "GetUint32 (be_bytes 4 (unat v) @ xs) = Ok v" "GetUint32 (be_bytes 4 (unat v)) = Ok v"
  using GetUint32_prefix [of v xs] GetUint32_prefix [of v "[]"] by (simp_all add: Uint32ToRaw_def)

lemma ReadFull_append: "length xs = n \<Longrightarrow> cn_in c = xs @ ys \<Longrightarrow> ReadFull n c = (Ok xs, c\<lparr>cn_in := ys\<rparr>)"
  by (simp add: ReadFull_def)

text \<open>Reading the rest of a frame and putting the frame together again.\<close>

lemma wt_frame_ok:
  assumes "length pre = 6" and "length hdr + 4 = n" and "n \<le> 9" and "length payload < 2 ^ 32 - 15"
    and "cn_in c = hdr @ be_bytes 4 (length payload) @ payload @ tail"
  shows "wt_frame pre n c = (Ok (pre @ hdr @ be_bytes 4 (length payload) @ payload), c\<lparr>cn_in := tail\<rparr>)"
proof -
  let ?b = "be_bytes 4 (length payload)" and ?m = "length payload"
  have u: "unat (of_nat ?m :: uint32) = ?m" using frame_size(3) [OF assms(4)] .
  have b: "?b = be_bytes 4 (unat (of_nat ?m :: uint32))" by (simp add: u)
  have r1: "ReadFull n c = (Ok (hdr @ ?b), c\<lparr>cn_in := payload @ tail\<rparr>)" by (rule ReadFull_append) (use assms in simp_all)
  have "go_slice (hdr @ ?b) (n - 4) n = Ok ?b" using assms(2) by (auto simp: go_slice_def)
  then have g: "rbind (go_slice (hdr @ ?b) (n - 4) n) GetUint32 = Ok (of_nat ?m)" using GetUint32_be(2) [of "of_nat ?m"] u by simp
  have r2: "ReadFull (unat (of_nat ?m :: uint32)) (c\<lparr>cn_in := payload @ tail\<rparr>) = (Ok payload, c\<lparr>cn_in := tail\<rparr>)"
    unfolding u by (simp add: ReadFull_def)
  have "6 + of_nat n + (of_nat ?m :: uint32) = of_nat (6 + n + ?m)" by simp
  then have sz: "unat (6 + of_nat n + (of_nat ?m :: uint32)) = 6 + n + ?m"
    using assms(3,4) by (simp only: unat_of_nat) (simp add: take_bit_nat_eq_self)
  have c1: "copy_into (replicate (6 + n + ?m) 0) 0 6 pre = Ok (pre @ replicate (n + ?m) 0)"
    using fill_copy [of 0 "[]" pre "6 + n + ?m"] assms(1) by (simp add: copy_into_def go_slice_def)
  have c2: "copy_into (pre @ replicate (n + ?m) 0) 6 (6 + n) (hdr @ ?b) = Ok ((pre @ hdr @ ?b) @ replicate ?m 0)"
    using fill_copy [of 6 pre "hdr @ ?b" "n + ?m"] assms(1,2) by (auto simp: copy_into_def go_slice_def)
  have c3: "copy_at ((pre @ hdr @ ?b) @ replicate ?m 0) (6 + n) payload = Ok (pre @ hdr @ ?b @ payload)"
    using fill_copy [of "6 + n" "pre @ hdr @ ?b" payload ?m] assms(1,2) by simp
  show ?thesis unfolding wt_frame_def r1 sbind_simps g r2 Let_def sz c1 rbind_simps c2 c3 by simp
qed

lemma wt_Receive_start:
  assumes "cn_in c = be_bytes 4 (unat WireMagic) @ [WireVersion, ty] @ rest"
  shows "wt_Receive c = (if ty = WireTypeRequest then wt_frame (be_bytes 4 (unat WireMagic) @ [WireVersion, ty]) 8 (c\<lparr>cn_in := rest\<rparr>)
     else if ty = WireTypeResponse then wt_frame (be_bytes 4 (unat WireMagic) @ [WireVersion, ty]) 9 (c\<lparr>cn_in := rest\<rparr>)
     else (Err ErrWireBadType, c\<lparr>cn_in := rest\<rparr>))"
proof -
  let ?p = "be_bytes 4 (unat WireMagic) @ [WireVersion, ty]"
  have "ReadFull 6 c = (Ok ?p, c\<lparr>cn_in := rest\<rparr>)" by (rule ReadFull_append) (use assms in simp_all)
  moreover have "rbind (go_slice ?p 0 4) GetUint32 = Ok WireMagic" by (simp add: go_slice_def GetUint32_be)
  moreover have "?p ! 4 = WireVersion" "?p ! 5 = ty" by (simp_all add: nth_append)
  ultimately show ?thesis by (simp add: wt_Receive_def)
qed

lemma wt_Receive_request:
  assumes "length payload < 2 ^ 32 - 15" and "cn_in c = req_frame i payload @ tail"
  shows "wt_Receive c = (Ok (req_frame i payload), c\<lparr>cn_in := tail\<rparr>)"
proof -
  let ?p = "be_bytes 4 (unat WireMagic) @ [WireVersion, WireTypeRequest]" and ?r = "be_bytes 4 (unat i) @ be_bytes 4 (length payload) @ payload @ tail"
  have "wt_Receive c = wt_frame ?p 8 (c\<lparr>cn_in := ?r\<rparr>)" using wt_Receive_start [of c WireTypeRequest ?r] assms(2) by (simp add: req_frame_def)
  also have "\<dots> = (Ok (?p @ be_bytes 4 (unat i) @ be_bytes 4 (length payload) @ payload), c\<lparr>cn_in := tail\<rparr>)"
    using wt_frame_ok [of ?p "be_bytes 4 (unat i)" 8 payload "c\<lparr>cn_in := ?r\<rparr>" tail] assms(1) by simp
  finally show ?thesis by (simp add: req_frame_def)
qed

lemma wt_Receive_response:
  assumes "length payload < 2 ^ 32 - 15" and "cn_in c = resp_frame i flag payload @ tail"
  shows "wt_Receive c = (Ok (resp_frame i flag payload), c\<lparr>cn_in := tail\<rparr>)"
proof -
  let ?p = "be_bytes 4 (unat WireMagic) @ [WireVersion, WireTypeResponse]" and ?h = "be_bytes 4 (unat i) @ [flag]"
  let ?r = "?h @ be_bytes 4 (length payload) @ payload @ tail"
  have "wt_Receive c = wt_frame ?p 9 (c\<lparr>cn_in := ?r\<rparr>)"
    using wt_Receive_start [of c WireTypeResponse ?r] assms(2) by (simp add: resp_frame_def WireTypeRequest_def WireTypeResponse_def)
  also have "\<dots> = (Ok (?p @ ?h @ be_bytes 4 (length payload) @ payload), c\<lparr>cn_in := tail\<rparr>)"
    using wt_frame_ok [of ?p ?h 9 payload "c\<lparr>cn_in := ?r\<rparr>" tail] assms(1) by simp
  finally show ?thesis by (simp add: resp_frame_def)
qed

lemma wp_Decode_request:
  assumes "length payload < 2 ^ 32 - 15"
  shows "wp_Decode (req_frame i payload) p = (Ok (NewPackage payload None), p\<lparr>wp_lastRequestID := i\<rparr>)"
proof -
  let ?f = "req_frame i payload"
  have l: "length ?f = 14 + length payload" by (simp add: req_frame_def)
  have t: "?f ! 5 = WireTypeRequest" by (simp add: req_frame_def nth_append)
  have s: "go_slice ?f 6 10 = Ok (be_bytes 4 (unat i))" "go_slice ?f 10 14 = Ok (be_bytes 4 (length payload))" "go_slice ?f 14 (14 + length payload) = Ok payload"
    by (simp_all add: go_slice_def l) (simp_all add: req_frame_def)
  have g: "GetUint32 (be_bytes 4 (length payload)) = Ok (of_nat (length payload))"
    using GetUint32_be(2) [of "of_nat (length payload)"] frame_size(3) [OF assms] by simp
  have "\<not> (of_nat (length ?f) :: uint32) < of_nat 14 + of_nat (length payload)" by (simp add: l)
  then show ?thesis using l t s g frame_size(1) [OF assms]
    by (simp add: wp_Decode_def wireReqHeaderLen_def GetUint32_be del: of_nat_numeral)
qed

lemma wp_Decode_response:
  assumes "length payload < 2 ^ 32 - 15"
  shows "wp_Decode (resp_frame i flag payload) p =
    (Ok (if flag = WireFlagError then NewPackage [] (Some (ErrText (bytes_str payload))) else NewPackage payload None), p)"
proof -
  let ?f = "resp_frame i flag payload"
  have l: "length ?f = 15 + length payload" by (simp add: resp_frame_def)
  have t: "?f ! 5 = WireTypeResponse" "?f ! 10 = flag" by (simp_all add: resp_frame_def nth_append)
  have s: "go_slice ?f 11 15 = Ok (be_bytes 4 (length payload))" "go_slice ?f 15 (15 + length payload) = Ok payload"
    by (simp_all add: go_slice_def l) (simp_all add: resp_frame_def)
  have g: "GetUint32 (be_bytes 4 (length payload)) = Ok (of_nat (length payload))"
    using GetUint32_be(2) [of "of_nat (length payload)"] frame_size(3) [OF assms] by simp
  have "\<not> (of_nat (length ?f) :: uint32) < of_nat 15 + of_nat (length payload)" by (simp add: l)
  then show ?thesis using l t s g frame_size(2) [OF assms]
    by (simp add: wp_Decode_def wireRespHeaderLen_def WireTypeRequest_def WireTypeResponse_def del: of_nat_numeral)
qed

section \<open>Properties\<close>

text \<open>What the client makes of the answer: data as it is, an error as its text.\<close>

definition received :: "(error \<Rightarrow> string) \<Rightarrow> package \<Rightarrow> package" where
  "received errText pkg = (case pk_Err pkg of Some err \<Rightarrow> NewPackage [] (Some (ErrText (errText err))) | None \<Rightarrow> NewPackage (pk_Data pkg) None)"

definition payload_of :: "(error \<Rightarrow> string) \<Rightarrow> package \<Rightarrow> bytes" where
  "payload_of errText pkg = (case pk_Err pkg of Some err \<Rightarrow> str_bytes (errText err) | None \<Rightarrow> pk_Data pkg)"

text \<open>The line protocol: what one side sends in a line the other side reads back, and the rest of the input stays.\<close>

lemma hex_digit_value: "n < 16 \<Longrightarrow> hex_value (hex_digit n) = Some n" "n < 16 \<Longrightarrow> hex_digit n \<noteq> 0x0A"
proof -
  assume n: "n < 16"
  have u: "unat (hex_digit n) = (if n < 10 then 48 + n else 87 + n)"
    using n by (auto simp: hex_digit_def unat_of_nat take_bit_nat_eq_self simp del: of_nat_add)
  then show "hex_value (hex_digit n) = Some n" using n by (auto simp: hex_value_def Let_def)
  show "hex_digit n \<noteq> 0x0A"
  proof
    assume "hex_digit n = 0x0A"
    with u show False by (simp split: if_splits)
  qed
qed

lemma unhex_hex: "unhexBytes (hexBytes bs) = Ok bs"
proof (induction bs)
  case (Cons b bs)
  have "unat b < 256" using unsigned_less [of b, where ?'a = nat] by simp
  then have "unat b div 16 < 16" "unat b mod 16 < 16" by auto
  moreover have "(of_nat (16 * (unat b div 16) + unat b mod 16) :: byte) = b" unfolding mult_div_mod_eq by simp
  ultimately show ?case using Cons by (simp add: hex_digit_value)
qed simp

lemma hex_length: "length (hexBytes bs) = 2 * length bs" by (induction bs) simp_all

lemma hex_no_newline: "\<forall>b \<in> set (hexBytes bs). b \<noteq> 0x0A"
proof (induction bs)
  case (Cons b bs)
  have "unat b < 256" using unsigned_less [of b, where ?'a = nat] by simp
  then have "unat b div 16 < 16" "unat b mod 16 < 16" by auto
  then show ?case using Cons hex_digit_value(2) [of "unat b div 16"] hex_digit_value(2) [of "unat b mod 16"] by auto
qed simp

lemma hx_Receive_line: "cn_in c = hexEncode data @ tail \<Longrightarrow> hx_Receive c = (Ok data, c\<lparr>cn_in := tail\<rparr>)"
proof -
  assume c: "cn_in c = hexEncode data @ tail"
  have t: "takeWhile (\<lambda>b. b \<noteq> 0x0A) (cn_in c) = hexBytes data"
    using hex_no_newline [of data] by (simp add: c hexEncode_def takeWhile_append2)
  have "hexDecode (hexBytes data @ [0x0A]) = Ok data" by (simp add: hexDecode_def hex_length unhex_hex mult.commute)
  then show ?thesis using t by (simp add: hx_Receive_def ReadBytes_def c hexEncode_def Let_def)
qed



text \<open>The length check of \<open>Decode\<close> adds in \<open>uint32\<close>: a frame of 14 bytes that claims a body of \<open>2^32 - 14\<close> bytes passes it, and the slice expression after it
  panics.\<close>

lemma decode_length_overflow:
  "wp_Decode (be_bytes 4 (unat WireMagic) @ [WireVersion, WireTypeRequest] @ be_bytes 4 (unat i) @ be_bytes 4 (2 ^ 32 - 14)) p =
     (Panic, p\<lparr>wp_lastRequestID := i\<rparr>)"
proof -
  let ?f = "be_bytes 4 (unat WireMagic) @ [WireVersion, WireTypeRequest] @ be_bytes 4 (unat i) @ be_bytes 4 (2 ^ 32 - 14)"
  have l: "length ?f = 14" "?f ! 5 = WireTypeRequest" by (simp_all add: nth_append)
  have "unat (4294967282 :: uint32) = 2 ^ 32 - 14" by simp
  then have g: "GetUint32 (be_bytes 4 4294967282) = Ok 4294967282" using GetUint32_be(2) [of 4294967282] by simp
  have s: "go_slice ?f 6 10 = Ok (be_bytes 4 (unat i))" "go_slice ?f 10 14 = Ok (be_bytes 4 4294967282)" by (simp_all add: go_slice_def)
  show ?thesis unfolding wp_Decode_def l wireReqHeaderLen_def by (simp add: s g GetUint32_be go_slice_def)
qed

end
