(* ===== verification/Server.thy ===== *)
theory Server
  imports Executor Transporter
begin

text \<open>
  A connection of the server (\<^verbatim>\<open>server/server.go\<close>): requests are executed one after the other and answered in that order, until the connection fails or ends; then the session is
  closed. A statement that does not return makes the loop not return. The listener, which starts one such loop for every connection, is in the
  theory \<open>Shutdown\<close>. Also the size argument of the launcher (\<^verbatim>\<open>cmd/launcher.go\<close>).
\<close>

section \<open>Model\<close>

definition answer_package :: "bytes res \<Rightarrow> package" where
  "answer_package r = (case r of Err x \<Rightarrow> NewPackage [] (Some x) | Ok res \<Rightarrow> NewPackage res None | Panic \<Rightarrow> NewPackage [] None)"

partial_function (option) serveLoop :: "tenv \<Rightarrow> (error \<Rightarrow> string) \<Rightarrow> wireProtocoler \<times> conn \<Rightarrow> executor \<Rightarrow> (unit res \<times> (wireProtocoler \<times> conn) \<times> executor) option" where
  "serveLoop te errText pc e =
     (case pkg_Receive pc of
        (Err _, pc) \<Rightarrow> Some (Ok (), pc, e)
      | (Panic, pc) \<Rightarrow> Some (Panic, pc, e)
      | (Ok pkg, pc) \<Rightarrow>
          Option.bind (Execute te (pk_Data pkg) e) (\<lambda>(r, e).
          if r = Panic then Some (Panic, pc, e)
          else (case pkg_Send errText (answer_package r) pc of
             (Ok _, pc) \<Rightarrow> serveLoop te errText pc e
           | (Err _, pc) \<Rightarrow> Some (Ok (), pc, e)
           | (Panic, pc) \<Rightarrow> Some (Panic, pc, e))))"

definition serve :: "tenv \<Rightarrow> (error \<Rightarrow> string) \<Rightarrow> conn \<Rightarrow> tableManager \<Rightarrow> (unit res \<times> conn \<times> tableManager) option" where
  "serve te errText c m =
     map_option (\<lambda>(r, (p, c), e).
        if r = Panic then (Panic, c, ex_tbm e) else (case ex_Close e of (r, e) \<Rightarrow> (r, c, ex_tbm e)))
       (serveLoop te errText (NewWireServerProtocoler, c) (NewExecutor m))"

definition KB :: int where "KB = 2 ^ 10"
definition MB :: int where "MB = 2 ^ 20"
definition GB :: int where "GB = 2 ^ 30"
definition defaultMem :: int where "defaultMem = 2 ^ 20 * 64"

definition parseMem :: "string \<Rightarrow> int res" where
  "parseMem memStr =
     (if memStr = [] then Ok defaultMem
      else if length memStr < 2 then Err ErrNoUnit
      else let unit = drop (length memStr - 2) memStr in
        rbind (StrToUint64 (take (length memStr - 2) memStr)) (\<lambda>num.
        if unit = ''KB'' then Ok (wrap_int (sint num * KB))
        else if unit = ''MB'' then Ok (wrap_int (sint num * MB))
        else if unit = ''GB'' then Ok (wrap_int (sint num * GB))
        else Err (ErrUnknownUnit unit)))"

section \<open>Sessions\<close>

text \<open>The answers to a list of statements, if all of them return.\<close>

fun session :: "tenv \<Rightarrow> bytes list \<Rightarrow> executor \<Rightarrow> (bytes res list \<times> executor) option" where
  "session te [] e = Some ([], e)"
| "session te (q # qs) e =
     (case Execute te q e of
        None \<Rightarrow> None
      | Some (r, e) \<Rightarrow> if r = Panic then None else map_option (\<lambda>(rs, e). (r # rs, e)) (session te qs e))"

fun requests :: "uint32 \<Rightarrow> bytes list \<Rightarrow> bytes" where
  "requests i [] = []"
| "requests i (q # qs) = req_frame (i + 1) q @ requests (i + 1) qs"

definition response :: "(error \<Rightarrow> string) \<Rightarrow> uint32 \<Rightarrow> bytes res \<Rightarrow> bytes" where
  "response errText i r = (case r of Err x \<Rightarrow> resp_frame i WireFlagError (str_bytes (errText x)) | Ok res \<Rightarrow> resp_frame i WireFlagOK res | Panic \<Rightarrow> [])"

fun responses :: "(error \<Rightarrow> string) \<Rightarrow> uint32 \<Rightarrow> bytes res list \<Rightarrow> bytes" where
  "responses errText i [] = []"
| "responses errText i (r # rs) = response errText (i + 1) r @ responses errText (i + 1) rs"

definition fits :: "(error \<Rightarrow> string) \<Rightarrow> bytes res \<Rightarrow> bool" where
  "fits errText r \<longleftrightarrow> length (payload_of errText (answer_package r)) < 2 ^ 32 - 15"

lemma pkg_Receive_request:
  assumes "length q < 2 ^ 32 - 15" and "cn_in c = req_frame i q @ tail"
  shows "pkg_Receive (p, c) = (Ok (NewPackage q None), p\<lparr>wp_lastRequestID := i\<rparr>, c\<lparr>cn_in := tail\<rparr>)"
  using wt_Receive_request [OF assms] wp_Decode_request [OF assms(1)] by (simp add: pkg_Receive_def)

lemma pkg_Send_answer:
  assumes "wp_isServer p" and "cn_faults c = []" and "r \<noteq> Panic" and "fits errText r"
  shows "pkg_Send errText (answer_package r) (p, c) = (Ok (), p, c\<lparr>cn_out := cn_out c @ response errText (wp_lastRequestID p) r\<rparr>)"
proof -
  let ?pl = "payload_of errText (answer_package r)"
  let ?fl = "case r of Err _ \<Rightarrow> WireFlagError | _ \<Rightarrow> WireFlagOK"
  have "(?fl, ?pl) = (case pk_Err (answer_package r) of Some err \<Rightarrow> (WireFlagError, str_bytes (errText err)) | None \<Rightarrow> (WireFlagOK, pk_Data (answer_package r)))"
    using assms(3) by (cases r) (simp_all add: answer_package_def NewPackage_def payload_of_def)
  from encodeResponse_frame [OF this] assms
  show ?thesis by (cases r) (simp_all add: pkg_Send_def wp_Encode_def wt_Send_def cn_Write_def response_def answer_package_def payload_of_def NewPackage_def fits_def)
qed

lemma pkg_Receive_end: "cn_in c = [] \<Longrightarrow> pkg_Receive (p, c) = (Err ErrEOF, p, c)"
  by (simp add: pkg_Receive_def wt_Receive_def ReadFull_def)

section \<open>Properties\<close>

text \<open>A connection answers what it is asked, in order: for any sequence of statements that all return, sent as frames with consecutive numbers, the server executes them one
  after the other in one session and writes exactly one response per request, in the same order and under the same number, with the result or the text of the error; when
  the client closes the connection the loop ends with the session as the statements left it.\<close>

lemma server_answers_in_order:
  assumes "session te qs e = Some (rs, e')" and "\<forall>q \<in> set qs. length q < 2 ^ 32 - 15" and "\<forall>r \<in> set rs. fits errText r"
    and "wp_isServer p" and "cn_faults c = []" and "cn_in c = requests i qs"
  shows "\<exists>p' c'. serveLoop te errText (p, c) e = Some (Ok (), (p', c'), e') \<and> cn_out c' = cn_out c @ responses errText i rs"
  using assms
proof (induction qs arbitrary: e rs p c i)
  case Nil
  then show ?case using pkg_Receive_end [of c p] by (subst serveLoop.simps) simp
next
  case (Cons q qs)
  obtain r e1 where x: "Execute te q e = Some (r, e1)" "r \<noteq> Panic" using Cons.prems(1) by (auto split: option.splits if_splits)
  obtain rs' where rs: "session te qs e1 = Some (rs', e')" "rs = r # rs'" using Cons.prems(1) x by auto
  let ?p1 = "p\<lparr>wp_lastRequestID := i + 1\<rparr>" and ?c1 = "c\<lparr>cn_in := requests (i + 1) qs\<rparr>"
  let ?c2 = "?c1\<lparr>cn_out := cn_out c @ response errText (i + 1) r\<rparr>"
  have rec: "pkg_Receive (p, c) = (Ok (NewPackage q None), ?p1, ?c1)"
    using pkg_Receive_request [of q c "i + 1" "requests (i + 1) qs" p] Cons.prems(2,6) by simp
  have snd: "pkg_Send errText (answer_package r) (?p1, ?c1) = (Ok (), ?p1, ?c2)"
    using pkg_Send_answer [of ?p1 ?c1 r errText] Cons.prems(3-5) rs(2) x(2) by simp
  obtain p' c' where ih: "serveLoop te errText (?p1, ?c2) e1 = Some (Ok (), (p', c'), e')" "cn_out c' = cn_out ?c2 @ responses errText (i + 1) rs'"
    using Cons.IH [OF rs(1), of ?p1 ?c2 "i + 1"] Cons.prems rs(2) by auto
  have "serveLoop te errText (p, c) e = Some (Ok (), (p', c'), e')"
    using ih(1) rec snd x by (subst serveLoop.simps) (simp add: NewPackage_def)
  then show ?case using ih(2) rs(2) by auto
qed


end
