(* ===== verification/Client.thy ===== *)
theory Client
  imports Server "HOL-Library.Product_Lexorder"
begin

text \<open>
  The client (\<^verbatim>\<open>client/round_tripper.go\<close>, \<^verbatim>\<open>client/client.go\<close>) and its conversation with a connection of the server. The client process has two threads: the caller of
  \<open>Execute\<close>, and the goroutine \<open>receiveLoop\<close> that takes packages off the connection and hands them over through a channel of capacity one. Together with the loop of
  the server and the two byte streams between them they form a system whose steps interleave freely: a stream delivers any number of bytes at a time, a read blocks until
  its bytes are there or the peer has closed, a send on a full channel and a receive on an empty one block. Steps that block are \<open>None\<close>. A panic ends the
  process (\<open>Crashed\<close>).
\<close>

section \<open>The round tripper\<close>

text \<open>Where \<open>receiveLoop\<close> stands: before \<open>Receive\<close>, before the send on \<open>recvCh\<close>, before \<open>markDisconnected\<close>, or returned.\<close>

datatype recvLoop = Receiving | Delivering "package res" | Marking | Stopped | Crashed

record roundTripper =
  rt_p :: "wireProtocoler \<times> conn"
  rt_closed :: bool
  rt_recvCh :: "package res list"
  rt_disconnCh :: bool
  rt_loop :: recvLoop

definition NewRoundTripper :: "wireProtocoler \<times> conn \<Rightarrow> roundTripper" where
  "NewRoundTripper packager = \<lparr>rt_p = packager, rt_closed = False, rt_recvCh = [], rt_disconnCh = False, rt_loop = Receiving\<rparr>"

text \<open>The packager after \<open>Close\<close>: reads and writes of a closed connection fail.\<close>

definition rt_Receive :: "roundTripper \<Rightarrow> package res \<times> wireProtocoler \<times> conn" where
  "rt_Receive rt = (if rt_closed rt then (Err ErrIO, rt_p rt) else pkg_Receive (rt_p rt))"

definition rt_Send :: "(error \<Rightarrow> string) \<Rightarrow> package \<Rightarrow> roundTripper \<Rightarrow> unit res \<times> roundTripper" where
  "rt_Send errText pkg rt =
     (if rt_closed rt then (Err ErrIO, rt) else (case pkg_Send errText pkg (rt_p rt) of (r, pc) \<Rightarrow> (r, rt\<lparr>rt_p := pc\<rparr>)))"

definition markDisconnected :: "roundTripper \<Rightarrow> roundTripper" where
  "markDisconnected rt = rt\<lparr>rt_disconnCh := True\<rparr>"

text \<open>One step of the goroutine. The flag says that the peer has closed the connection and all its bytes have arrived: only then a read that runs out of bytes returns.\<close>

definition receiveLoop :: "bool \<Rightarrow> roundTripper \<Rightarrow> roundTripper option" where
  "receiveLoop eof rt =
     (case rt_loop rt of
        Receiving \<Rightarrow>
          (case rt_Receive rt of
             (Panic, pc) \<Rightarrow> Some (rt\<lparr>rt_p := pc, rt_loop := Crashed\<rparr>)
           | (r, pc) \<Rightarrow> if r = Err ErrEOF \<and> \<not> eof then None else Some (rt\<lparr>rt_p := pc, rt_loop := Delivering r\<rparr>))
      | Delivering r \<Rightarrow>
          if length (rt_recvCh rt) < 1
          then Some (rt\<lparr>rt_recvCh := rt_recvCh rt @ [r], rt_loop := if is_ok r then Receiving else Marking\<rparr>) else None
      | Marking \<Rightarrow> Some ((markDisconnected rt)\<lparr>rt_loop := Stopped\<rparr>)
      | Stopped \<Rightarrow> None
      | Crashed \<Rightarrow> None)"

text \<open>\<open>RoundTrip\<close> in two parts: the send, which returns at once if it fails, and the receive on the channel.\<close>

definition RoundTrip_send :: "(error \<Rightarrow> string) \<Rightarrow> package \<Rightarrow> roundTripper \<Rightarrow> package res option \<times> roundTripper" where
  "RoundTrip_send errText pkg rt =
     (case rt_Send errText pkg rt of
        (Ok _, rt) \<Rightarrow> (None, rt)
      | (Err err, rt) \<Rightarrow> (Some (Err err), markDisconnected rt)
      | (Panic, rt) \<Rightarrow> (Some Panic, rt\<lparr>rt_loop := Crashed\<rparr>))"

definition RoundTrip_receive :: "roundTripper \<Rightarrow> (package res \<times> roundTripper) option" where
  "RoundTrip_receive rt = (case rt_recvCh rt of [] \<Rightarrow> None | res # later \<Rightarrow> Some (res, rt\<lparr>rt_recvCh := later\<rparr>))"

definition rt_Close :: "roundTripper \<Rightarrow> roundTripper" where
  "rt_Close rt = rt\<lparr>rt_closed := True\<rparr>"

section \<open>The client\<close>

record client =
  c_roundTripper :: roundTripper
  c_closed :: bool

definition NewClient :: "wireProtocoler \<times> conn \<Rightarrow> client" where
  "NewClient packager = \<lparr>c_roundTripper = NewRoundTripper packager, c_closed = False\<rparr>"

definition c_Close :: "client \<Rightarrow> client" where
  "c_Close c = (if c_closed c then c else c\<lparr>c_roundTripper := rt_Close (c_roundTripper c), c_closed := True\<rparr>)"

definition c_Reconnect :: "wireProtocoler \<times> conn \<Rightarrow> client \<Rightarrow> client" where
  "c_Reconnect pkger c = c\<lparr>c_roundTripper := NewRoundTripper pkger, c_closed := False\<rparr>"

definition IsConnected :: "client \<Rightarrow> bool" where
  "IsConnected c = (if c_closed c then False else \<not> rt_disconnCh (c_roundTripper c))"

text \<open>What \<open>Execute\<close> makes of the outcome of the round trip.\<close>

definition executed :: "package res \<Rightarrow> bytes res" where
  "executed r = rbind r (\<lambda>pkg. case pk_Err pkg of Some err \<Rightarrow> Err err | None \<Rightarrow> Ok (pk_Data pkg))"

definition Execute_send :: "(error \<Rightarrow> string) \<Rightarrow> bytes \<Rightarrow> client \<Rightarrow> bytes res option \<times> client" where
  "Execute_send errText stat c =
     (case RoundTrip_send errText (NewPackage stat None) (c_roundTripper c) of (r, rt) \<Rightarrow> (map_option executed r, c\<lparr>c_roundTripper := rt\<rparr>))"

definition Execute_receive :: "client \<Rightarrow> (bytes res \<times> client) option" where
  "Execute_receive c = map_option (\<lambda>(r, rt). (executed r, c\<lparr>c_roundTripper := rt\<rparr>)) (RoundTrip_receive (c_roundTripper c))"

section \<open>The connection of the server, step by step\<close>

datatype phase = Awaiting | Executing bytes | Answering package | Ended "unit res"

record serving =
  sv_pc :: "wireProtocoler \<times> conn"
  sv_exe :: executor
  sv_phase :: phase

text \<open>Leaving the loop: the deferred calls close the session and the connection.\<close>

definition serve_end :: "serving \<Rightarrow> serving" where
  "serve_end v = (case ex_Close (sv_exe v) of (r, e) \<Rightarrow> v\<lparr>sv_exe := e, sv_phase := Ended r\<rparr>)"

definition serve_step :: "tenv \<Rightarrow> (error \<Rightarrow> string) \<Rightarrow> bool \<Rightarrow> serving \<Rightarrow> serving option" where
  "serve_step te errText eof v =
     (case sv_phase v of
        Awaiting \<Rightarrow>
          (case pkg_Receive (sv_pc v) of
             (Ok pkg, pc) \<Rightarrow> Some (v\<lparr>sv_pc := pc, sv_phase := Executing (pk_Data pkg)\<rparr>)
           | (Err x, pc) \<Rightarrow> if x = ErrEOF \<and> \<not> eof then None else Some (serve_end (v\<lparr>sv_pc := pc\<rparr>))
           | (Panic, pc) \<Rightarrow> Some (v\<lparr>sv_pc := pc, sv_phase := Ended Panic\<rparr>))
      | Executing sql \<Rightarrow>
          map_option (\<lambda>(r, e). v\<lparr>sv_exe := e, sv_phase := if r = Panic then Ended Panic else Answering (answer_package r)\<rparr>)
            (Execute te sql (sv_exe v))
      | Answering pkg \<Rightarrow>
          (case pkg_Send errText pkg (sv_pc v) of
             (Ok _, pc) \<Rightarrow> Some (v\<lparr>sv_pc := pc, sv_phase := Awaiting\<rparr>)
           | (Err _, pc) \<Rightarrow> Some (serve_end (v\<lparr>sv_pc := pc\<rparr>))
           | (Panic, pc) \<Rightarrow> Some (v\<lparr>sv_pc := pc, sv_phase := Ended Panic\<rparr>))
      | Ended _ \<Rightarrow> None)"

section \<open>The system\<close>

text \<open>The caller works through a list of statements and then closes the client.\<close>

datatype caller = Ready | Waiting | Gone

record system =
  sy_client :: client
  sy_caller :: caller
  sy_todo :: "bytes list"
  sy_done :: "bytes res list"
  sy_server :: serving

definition connect :: "bytes list \<Rightarrow> executor \<Rightarrow> system" where
  "connect qs e =
     (let c = \<lparr>cn_in = [], cn_out = [], cn_faults = []\<rparr> in
      \<lparr>sy_client = NewClient (NewWireProtocoler, c), sy_caller = Ready, sy_todo = qs, sy_done = [],
       sy_server = \<lparr>sv_pc = (NewWireServerProtocoler, c), sv_exe = e, sv_phase = Awaiting\<rparr>\<rparr>)"

definition sy_rt :: "system \<Rightarrow> roundTripper" where "sy_rt s = c_roundTripper (sy_client s)"
definition sy_cconn :: "system \<Rightarrow> conn" where "sy_cconn s = snd (rt_p (sy_rt s))"
definition sy_sconn :: "system \<Rightarrow> conn" where "sy_sconn s = snd (sv_pc (sy_server s))"

definition set_cconn :: "conn \<Rightarrow> system \<Rightarrow> system" where
  "set_cconn c s = s\<lparr>sy_client := (sy_client s)\<lparr>c_roundTripper := (sy_rt s)\<lparr>rt_p := (fst (rt_p (sy_rt s)), c)\<rparr>\<rparr>\<rparr>"

definition set_sconn :: "conn \<Rightarrow> system \<Rightarrow> system" where
  "set_sconn c s = s\<lparr>sy_server := (sy_server s)\<lparr>sv_pc := (fst (sv_pc (sy_server s)), c)\<rparr>\<rparr>"

definition server_eof :: "system \<Rightarrow> bool" where
  "server_eof s \<longleftrightarrow> rt_closed (sy_rt s) \<and> cn_out (sy_cconn s) = []"

definition client_eof :: "system \<Rightarrow> bool" where
  "client_eof s \<longleftrightarrow> (\<exists>r. sv_phase (sy_server s) = Ended r) \<and> cn_out (sy_sconn s) = []"

inductive step :: "tenv \<Rightarrow> (error \<Rightarrow> string) \<Rightarrow> system \<Rightarrow> system \<Rightarrow> bool" for te errText where
  send: "sy_caller s = Ready \<Longrightarrow> rt_loop (sy_rt s) \<noteq> Crashed \<Longrightarrow> sy_todo s = q # qs \<Longrightarrow> Execute_send errText q (sy_client s) = (None, c) \<Longrightarrow>
    step te errText s (s\<lparr>sy_client := c, sy_caller := Waiting, sy_todo := qs\<rparr>)"
| fail: "sy_caller s = Ready \<Longrightarrow> rt_loop (sy_rt s) \<noteq> Crashed \<Longrightarrow> sy_todo s = q # qs \<Longrightarrow> Execute_send errText q (sy_client s) = (Some r, c) \<Longrightarrow>
    step te errText s (s\<lparr>sy_client := c, sy_todo := qs, sy_done := sy_done s @ [r]\<rparr>)"
| take: "sy_caller s = Waiting \<Longrightarrow> rt_loop (sy_rt s) \<noteq> Crashed \<Longrightarrow> Execute_receive (sy_client s) = Some (r, c) \<Longrightarrow>
    step te errText s (s\<lparr>sy_client := c, sy_caller := Ready, sy_done := sy_done s @ [r]\<rparr>)"
| close: "sy_caller s = Ready \<Longrightarrow> rt_loop (sy_rt s) \<noteq> Crashed \<Longrightarrow> sy_todo s = [] \<Longrightarrow>
    step te errText s (s\<lparr>sy_client := c_Close (sy_client s), sy_caller := Gone\<rparr>)"
| loop: "receiveLoop (client_eof s) (sy_rt s) = Some rt \<Longrightarrow> step te errText s (s\<lparr>sy_client := (sy_client s)\<lparr>c_roundTripper := rt\<rparr>\<rparr>)"
| serve: "serve_step te errText (server_eof s) (sy_server s) = Some v \<Longrightarrow> step te errText s (s\<lparr>sy_server := v\<rparr>)"
| up: "0 < k \<Longrightarrow> k \<le> length (cn_out (sy_cconn s)) \<Longrightarrow>
    step te errText s (set_cconn ((sy_cconn s)\<lparr>cn_out := drop k (cn_out (sy_cconn s))\<rparr>)
      (set_sconn ((sy_sconn s)\<lparr>cn_in := cn_in (sy_sconn s) @ List.take k (cn_out (sy_cconn s))\<rparr>) s))"
| down: "0 < k \<Longrightarrow> k \<le> length (cn_out (sy_sconn s)) \<Longrightarrow>
    step te errText s (set_sconn ((sy_sconn s)\<lparr>cn_out := drop k (cn_out (sy_sconn s))\<rparr>)
      (set_cconn ((sy_cconn s)\<lparr>cn_in := cn_in (sy_cconn s) @ List.take k (cn_out (sy_sconn s))\<rparr>) s))"

section \<open>Reading a frame that has not arrived completely\<close>

lemma split_longer: "xs @ ys = as @ bs \<Longrightarrow> length as \<le> length xs \<Longrightarrow> \<exists>zs. xs = as @ zs \<and> bs = zs @ ys"
  by (metis append.assoc append_eq_append_conv_if append_take_drop_id same_append_eq)

lemma ReadFull_short: "length (cn_in c) < n \<Longrightarrow> ReadFull n c = (Err ErrEOF, c\<lparr>cn_in := []\<rparr>)"
  by (simp add: ReadFull_def)

lemma wt_frame_short:
  assumes "length hdr + 4 = n" and "length payload < 2 ^ 32 - 15" and "cn_in c @ ys = hdr @ be_bytes 4 (length payload) @ payload" and "ys \<noteq> []"
  shows "fst (wt_frame pre n c) = Err ErrEOF"
proof (cases "length (cn_in c) < n")
  case True
  then show ?thesis by (simp add: wt_frame_def ReadFull_short)
next
  case False
  let ?b = "be_bytes 4 (length payload)" and ?m = "length payload"
  have u: "unat (of_nat ?m :: uint32) = ?m" using frame_size(3) [OF assms(2)] .
  have "cn_in c @ ys = (hdr @ ?b) @ payload" using assms(3) by simp
  then obtain xs where xs: "cn_in c = (hdr @ ?b) @ xs" "payload = xs @ ys" using split_longer [of "cn_in c" ys "hdr @ ?b" payload] False assms(1) by auto
  have r1: "ReadFull n c = (Ok (hdr @ ?b), c\<lparr>cn_in := xs\<rparr>)" by (rule ReadFull_append) (use assms(1) xs in simp_all)
  have "go_slice (hdr @ ?b) (n - 4) n = Ok ?b" using assms(1) by (auto simp: go_slice_def)
  then have g: "rbind (go_slice (hdr @ ?b) (n - 4) n) GetUint32 = Ok (of_nat ?m)" using GetUint32_be(2) [of "of_nat ?m"] u by simp
  have "length xs < ?m" using xs(2) assms(4) by simp
  then show ?thesis unfolding wt_frame_def r1 sbind_simps g by (simp add: u ReadFull_short)
qed

lemma wt_Receive_short:
  assumes "length hdr + 4 = (if ty = WireTypeRequest then 8 else 9)" and "ty = WireTypeRequest \<or> ty = WireTypeResponse" and "length payload < 2 ^ 32 - 15"
    and "cn_in c @ ys = be_bytes 4 (unat WireMagic) @ [WireVersion, ty] @ hdr @ be_bytes 4 (length payload) @ payload" and "ys \<noteq> []"
  shows "fst (wt_Receive c) = Err ErrEOF"
proof (cases "length (cn_in c) < 6")
  case True
  then show ?thesis by (simp add: wt_Receive_def ReadFull_short)
next
  case False
  let ?p = "be_bytes 4 (unat WireMagic) @ [WireVersion, ty]"
  have "cn_in c @ ys = ?p @ hdr @ be_bytes 4 (length payload) @ payload" using assms(4) by simp
  then obtain xs where xs: "cn_in c = ?p @ xs" "xs @ ys = hdr @ be_bytes 4 (length payload) @ payload"
    using split_longer [of "cn_in c" ys ?p "hdr @ be_bytes 4 (length payload) @ payload"] False by auto
  have n: "WireTypeResponse \<noteq> WireTypeRequest" by (simp add: WireTypeRequest_def WireTypeResponse_def)
  have "fst (wt_frame ?p (if ty = WireTypeRequest then 8 else 9) (c\<lparr>cn_in := xs\<rparr>)) = Err ErrEOF"
    by (rule wt_frame_short [OF assms(1,3) _ assms(5)]) (simp add: xs(2))
  then show ?thesis using wt_Receive_start [of c ty xs] xs(1) assms(2) n by (auto split: if_splits)
qed

lemma pkg_Receive_fst_EOF: "fst (wt_Receive c) = Err ErrEOF \<Longrightarrow> \<exists>pc. pkg_Receive (p, c) = (Err ErrEOF, pc)"
  by (cases "wt_Receive c") (simp add: pkg_Receive_def)

lemma request_short:
  assumes "length q < 2 ^ 32 - 15" and "cn_in c @ ys = req_frame i q" and "ys \<noteq> []"
  shows "\<exists>pc. pkg_Receive (p, c) = (Err ErrEOF, pc)"
  by (rule pkg_Receive_fst_EOF, rule wt_Receive_short [where hdr = "be_bytes 4 (unat i)" and ty = WireTypeRequest and payload = q and ys = ys])
    (use assms in \<open>simp_all add: req_frame_def\<close>)

lemma response_frame:
  assumes "r \<noteq> Panic"
  obtains flag where "response errText i r = resp_frame i flag (payload_of errText (answer_package r))"
    and "(if flag = WireFlagError then NewPackage [] (Some (ErrText (bytes_str (payload_of errText (answer_package r))))) else NewPackage (payload_of errText (answer_package r)) None) =
      received errText (answer_package r)"
  using assms by (cases r) (auto simp: response_def answer_package_def payload_of_def NewPackage_def received_def bytes_str_str_bytes WireFlagOK_def WireFlagError_def)

lemma response_short:
  assumes "r \<noteq> Panic" and "fits errText r" and "cn_in c @ ys = response errText i r" and "ys \<noteq> []"
  shows "\<exists>pc. pkg_Receive (p, c) = (Err ErrEOF, pc)"
proof -
  obtain flag where f: "response errText i r = resp_frame i flag (payload_of errText (answer_package r))" using response_frame [OF assms(1)] by blast
  have n: "WireTypeResponse \<noteq> WireTypeRequest" by (simp add: WireTypeRequest_def WireTypeResponse_def)
  show ?thesis
    by (rule pkg_Receive_fst_EOF, rule wt_Receive_short [where hdr = "be_bytes 4 (unat i) @ [flag]" and ty = WireTypeResponse and payload = "payload_of errText (answer_package r)" and ys = ys])
      (use assms f n in \<open>simp_all add: resp_frame_def fits_def\<close>)
qed

lemma pkg_Receive_response:
  assumes "r \<noteq> Panic" and "fits errText r" and "cn_in c = response errText i r"
  shows "pkg_Receive (p, c) = (Ok (received errText (answer_package r)), p, c\<lparr>cn_in := []\<rparr>)"
proof -
  obtain flag where f: "response errText i r = resp_frame i flag (payload_of errText (answer_package r))"
    "(if flag = WireFlagError then NewPackage [] (Some (ErrText (bytes_str (payload_of errText (answer_package r))))) else NewPackage (payload_of errText (answer_package r)) None) =
      received errText (answer_package r)" using response_frame [OF assms(1)] by blast
  have l: "length (payload_of errText (answer_package r)) < 2 ^ 32 - 15" using assms(2) by (simp add: fits_def)
  show ?thesis using wt_Receive_response [OF l, of c i flag "[]"] wp_Decode_response [OF l, of i flag p] assms(3) f by (simp add: pkg_Receive_def)
qed

section \<open>Systems that settle\<close>

text \<open>A system whose steps all lower a well-founded rank, and which is stuck only in final states.\<close>

locale settling =
  fixes step :: "'s \<Rightarrow> 's \<Rightarrow> bool" and live :: "'m \<Rightarrow> 's \<Rightarrow> bool" and R :: "('m \<times> 'm) set" and final :: "'s \<Rightarrow> bool"
  assumes ranks: "wf R"
    and kept: "live m s \<Longrightarrow> step s s' \<Longrightarrow> \<exists>m'. live m' s' \<and> (m', m) \<in> R"
    and progress: "live m s \<Longrightarrow> final s \<or> (\<exists>s'. step s s')"
begin

lemma live_run: "step\<^sup>*\<^sup>* s s' \<Longrightarrow> live m s \<Longrightarrow> \<exists>m'. live m' s'"
  by (induction rule: rtranclp_induct) (use kept in blast)+

lemma stuck_final: "live m s \<Longrightarrow> step\<^sup>*\<^sup>* s s' \<Longrightarrow> (\<nexists>s''. step s' s'') \<Longrightarrow> final s'"
  using live_run progress by blast

lemma no_endless_run:
  assumes "live m s"
  shows "\<not> (\<exists>f. f 0 = s \<and> (\<forall>n. step (f n) (f (Suc n))))"
proof
  assume "\<exists>f. f 0 = s \<and> (\<forall>n. step (f n) (f (Suc n)))"
  then obtain f where "f 0 = s" "\<And>n. step (f n) (f (Suc n))" by blast
  then show False using assms
  proof (induction m arbitrary: s f rule: wf_induct_rule [OF ranks])
    case (1 m)
    obtain m' where "live m' (f 1)" "(m', m) \<in> R" using kept [OF 1(4), of "f 1"] 1(2) 1(3) [of 0] by auto
    then show False using 1(1) [of m' "\<lambda>n. f (Suc n)" "f 1"] 1(3) by simp
  qed
qed

end

section \<open>A conversation\<close>

text \<open>What the caller of \<open>Execute\<close> gets for a result of the session: data as it is, an error as its text.\<close>

definition reply :: "(error \<Rightarrow> string) \<Rightarrow> bytes res \<Rightarrow> bytes res" where
  "reply errText r = (case r of Err x \<Rightarrow> Err (ErrText (errText x)) | _ \<Rightarrow> r)"

lemma executed_received: "r \<noteq> Panic \<Longrightarrow> executed (Ok (received errText (answer_package r))) = reply errText r"
  by (cases r) (simp_all add: executed_def received_def answer_package_def reply_def NewPackage_def)

definition calm :: "system \<Rightarrow> bool" where
  "calm s \<longleftrightarrow> \<not> rt_closed (sy_rt s) \<and> \<not> c_closed (sy_client s) \<and> \<not> rt_disconnCh (sy_rt s) \<and>
     cn_faults (sy_cconn s) = [] \<and> cn_faults (sy_sconn s) = [] \<and> \<not> wp_isServer (fst (rt_p (sy_rt s))) \<and> wp_isServer (fst (sv_pc (sy_server s)))"

definition streams :: "system \<Rightarrow> bytes \<times> bytes \<times> bytes \<times> bytes" where
  "streams s = (cn_in (sy_cconn s), cn_out (sy_cconn s), cn_in (sy_sconn s), cn_out (sy_sconn s))"

definition owed :: "tenv \<Rightarrow> (error \<Rightarrow> string) \<Rightarrow> bytes list \<Rightarrow> executor \<Rightarrow> bytes res list \<Rightarrow> executor \<Rightarrow> bool" where
  "owed te errText qs e rs e' \<longleftrightarrow> session te qs e = Some (rs, e') \<and> (\<forall>q \<in> set qs. length q < 2 ^ 32 - 15) \<and> (\<forall>r \<in> set rs. fits errText r)"

text \<open>The steps the receive loop has left once the connection is closed.\<close>

fun loop_left :: "recvLoop \<Rightarrow> nat" where
  "loop_left Receiving = 3"
| "loop_left (Delivering _) = 2"
| "loop_left Marking = 1"
| "loop_left _ = 0"

definition winding_down :: "recvLoop \<Rightarrow> package res list \<Rightarrow> bool" where
  "winding_down l ch \<longleftrightarrow> (l = Receiving \<or> l = Delivering (Err ErrIO)) \<and> ch = [] \<or> l = Marking \<or> l = Stopped"

type_synonym rank = "nat \<times> nat \<times> nat"

text \<open>The states of a conversation, each with its rank: statements left, stage of the current one, and bytes or steps left in that stage.\<close>

inductive live :: "tenv \<Rightarrow> (error \<Rightarrow> string) \<Rightarrow> bytes res list \<Rightarrow> executor \<Rightarrow> rank \<Rightarrow> system \<Rightarrow> bool" for te errText answers e' where
  ready: "live te errText answers e' (length (sy_todo s), 1, 0) s"
    if "calm s" "streams s = ([], [], [], [])" "sy_caller s = Ready" "rt_recvCh (sy_rt s) = []" "rt_loop (sy_rt s) = Receiving"
      "sv_phase (sy_server s) = Awaiting" "owed te errText (sy_todo s) (sv_exe (sy_server s)) rs e'" "answers = sy_done s @ map (reply errText) rs"
| asked: "live te errText answers e' (length (sy_todo s), 7, length cout) s"
    if "calm s" "streams s = ([], cout, sin, [])" "sin @ cout = req_frame i q" "sy_caller s = Waiting" "rt_recvCh (sy_rt s) = []" "rt_loop (sy_rt s) = Receiving"
      "sv_phase (sy_server s) = Awaiting" "owed te errText (q # sy_todo s) (sv_exe (sy_server s)) rs e'" "answers = sy_done s @ map (reply errText) rs"
| executing: "live te errText answers e' (length (sy_todo s), 6, 0) s"
    if "calm s" "streams s = ([], [], [], [])" "sy_caller s = Waiting" "rt_recvCh (sy_rt s) = []" "rt_loop (sy_rt s) = Receiving"
      "sv_phase (sy_server s) = Executing q" "owed te errText (q # sy_todo s) (sv_exe (sy_server s)) rs e'" "answers = sy_done s @ map (reply errText) rs"
| answering: "live te errText answers e' (length (sy_todo s), 5, 0) s"
    if "calm s" "streams s = ([], [], [], [])" "sy_caller s = Waiting" "rt_recvCh (sy_rt s) = []" "rt_loop (sy_rt s) = Receiving"
      "sv_phase (sy_server s) = Answering (answer_package r)" "r \<noteq> Panic" "fits errText r"
      "owed te errText (sy_todo s) (sv_exe (sy_server s)) rs e'" "answers = sy_done s @ map (reply errText) (r # rs)"
| answered: "live te errText answers e' (length (sy_todo s), 4, length sout) s"
    if "calm s" "streams s = (cin, [], [], sout)" "cin @ sout = response errText i r" "sy_caller s = Waiting" "rt_recvCh (sy_rt s) = []" "rt_loop (sy_rt s) = Receiving"
      "sv_phase (sy_server s) = Awaiting" "r \<noteq> Panic" "fits errText r"
      "owed te errText (sy_todo s) (sv_exe (sy_server s)) rs e'" "answers = sy_done s @ map (reply errText) (r # rs)"
| delivering: "live te errText answers e' (length (sy_todo s), 3, 0) s"
    if "calm s" "streams s = ([], [], [], [])" "sy_caller s = Waiting" "rt_recvCh (sy_rt s) = []"
      "rt_loop (sy_rt s) = Delivering (Ok (received errText (answer_package r)))" "sv_phase (sy_server s) = Awaiting" "r \<noteq> Panic"
      "owed te errText (sy_todo s) (sv_exe (sy_server s)) rs e'" "answers = sy_done s @ map (reply errText) (r # rs)"
| delivered: "live te errText answers e' (length (sy_todo s), 2, 0) s"
    if "calm s" "streams s = ([], [], [], [])" "sy_caller s = Waiting" "rt_recvCh (sy_rt s) = [Ok (received errText (answer_package r))]"
      "rt_loop (sy_rt s) = Receiving" "sv_phase (sy_server s) = Awaiting" "r \<noteq> Panic"
      "owed te errText (sy_todo s) (sv_exe (sy_server s)) rs e'" "answers = sy_done s @ map (reply errText) (r # rs)"
| closing: "live te errText answers e' (0, 0, loop_left (rt_loop (sy_rt s)) + (if sv_phase (sy_server s) = Awaiting then 1 else 0)) s"
    if "rt_closed (sy_rt s)" "streams s = ([], [], [], [])" "sy_caller s = Gone" "sy_todo s = []" "answers = sy_done s"
      "winding_down (rt_loop (sy_rt s)) (rt_recvCh (sy_rt s))"
      "sv_phase (sy_server s) = Awaiting \<and> sv_exe (sy_server s) = e' \<or> (\<exists>r. ex_Close e' = (r, sv_exe (sy_server s)) \<and> sv_phase (sy_server s) = Ended r)"

definition rank_order :: "(rank \<times> rank) set" where
  "rank_order = {(m, n). m < n}"

definition finished :: "bytes res list \<Rightarrow> executor \<Rightarrow> system \<Rightarrow> bool" where
  "finished answers e' s \<longleftrightarrow> sy_caller s = Gone \<and> sy_todo s = [] \<and> sy_done s = answers \<and> rt_loop (sy_rt s) = Stopped \<and>
     (\<exists>r. ex_Close e' = (r, sv_exe (sy_server s)) \<and> sv_phase (sy_server s) = Ended r)"

named_theorems sys_simps \<open>reading and changing the parts of a system\<close>

lemmas [sys_simps] = sy_rt_def sy_cconn_def sy_sconn_def set_cconn_def set_sconn_def streams_def calm_def client_eof_def server_eof_def

lemma loop_blocked:
  "rt_loop rt = Receiving \<Longrightarrow> \<not> rt_closed rt \<Longrightarrow> pkg_Receive (rt_p rt) = (Err ErrEOF, pc) \<Longrightarrow> receiveLoop False rt = None"
  by (simp add: receiveLoop_def rt_Receive_def)

lemma serve_blocked: "sv_phase v = Awaiting \<Longrightarrow> pkg_Receive (sv_pc v) = (Err ErrEOF, pc) \<Longrightarrow> serve_step te errText False v = None"
  by (cases pc) (simp add: serve_step_def)

lemma loop_quiet:
  assumes "calm s" and "cn_in (sy_cconn s) = []" and "rt_loop (sy_rt s) = Receiving" and "\<And>r. sv_phase (sy_server s) \<noteq> Ended r"
  shows "receiveLoop (client_eof s) (sy_rt s) = None"
  using assms loop_blocked [of "sy_rt s"] pkg_Receive_end [of "sy_cconn s" "fst (rt_p (sy_rt s))"]
  by (cases "rt_p (sy_rt s)") (simp add: client_eof_def calm_def sy_cconn_def)

lemma serve_quiet:
  assumes "calm s" and "cn_in (sy_sconn s) = []" and "sv_phase (sy_server s) = Awaiting"
  shows "serve_step te errText (server_eof s) (sy_server s) = None"
  using assms serve_blocked [of "sy_server s"] pkg_Receive_end [of "sy_sconn s" "fst (sv_pc (sy_server s))"]
  by (cases "sv_pc (sy_server s)") (simp add: server_eof_def calm_def sy_sconn_def)

lemma Execute_send_calm:
  assumes "calm s" and "length q < 2 ^ 32 - 15"
  shows "Execute_send errText q (sy_client s) = (None, (sy_client s)\<lparr>c_roundTripper := (sy_rt s)\<lparr>rt_p :=
     ((fst (rt_p (sy_rt s)))\<lparr>wp_nextID := wp_nextID (fst (rt_p (sy_rt s))) + 1\<rparr>,
      (sy_cconn s)\<lparr>cn_out := cn_out (sy_cconn s) @ req_frame (wp_nextID (fst (rt_p (sy_rt s))) + 1) q\<rparr>)\<rparr>\<rparr>)"
  using assms encodeRequest_frame [of "NewPackage q None" "fst (rt_p (sy_rt s))"]
  by (cases "rt_p (sy_rt s)")
    (simp add: Execute_send_def RoundTrip_send_def rt_Send_def pkg_Send_def wp_Encode_def wt_Send_def cn_Write_def NewPackage_def calm_def sy_rt_def sy_cconn_def)

lemma ranked: "live te errText answers e' m' s' \<Longrightarrow> m' < m \<Longrightarrow> \<exists>m'. live te errText answers e' m' s' \<and> (m', m) \<in> rank_order"
  unfolding rank_order_def by blast

lemma from_ready:
  assumes "calm s" and "streams s = ([], [], [], [])" and "sy_caller s = Ready" and "rt_recvCh (sy_rt s) = []" and "rt_loop (sy_rt s) = Receiving"
    and "sv_phase (sy_server s) = Awaiting" and "owed te errText (sy_todo s) (sv_exe (sy_server s)) rs e'" and "answers = sy_done s @ map (reply errText) rs"
    and "step te errText s s'"
  shows "\<exists>m'. live te errText answers e' m' s' \<and> (m', (length (sy_todo s), 1, 0)) \<in> rank_order"
  using assms(9)
proof (cases rule: step.cases)
  case (send q qs c)
  have q: "length q < 2 ^ 32 - 15" using assms(7) send(4) by (simp add: owed_def)
  let ?i = "wp_nextID (fst (rt_p (sy_rt s))) + 1"
  have c: "c = (sy_client s)\<lparr>c_roundTripper := (sy_rt s)\<lparr>rt_p := ((fst (rt_p (sy_rt s)))\<lparr>wp_nextID := ?i\<rparr>, (sy_cconn s)\<lparr>cn_out := req_frame ?i q\<rparr>)\<rparr>\<rparr>"
    using send(5) Execute_send_calm [OF assms(1) q, of errText] assms(2) by (simp add: streams_def)
  have "live te errText answers e' (length (sy_todo s'), 7, length (req_frame ?i q)) s'"
    using assms send by (intro live.asked [of _ _ "[]" ?i q te errText rs]) (auto simp: sys_simps c)
  then show ?thesis by (rule ranked) (simp add: send(1,4))
next
  case (fail q qs r c)
  then show ?thesis using Execute_send_calm [OF assms(1), of q errText] assms(7) by (simp add: owed_def)
next
  case close
  have "live te errText answers e' (0, 0, loop_left (rt_loop (sy_rt s')) + (if sv_phase (sy_server s') = Awaiting then 1 else 0)) s'"
    using assms close by (intro live.closing) (auto simp: sys_simps c_Close_def rt_Close_def winding_down_def owed_def)
  then show ?thesis by (rule ranked) simp
next
  case (loop rt)
  then show ?thesis using loop_quiet [OF assms(1) _ assms(5)] assms(2,6) by (simp add: streams_def)
next
  case (serve v)
  then show ?thesis using serve_quiet [OF assms(1) _ assms(6), of te errText] assms(2) by (simp add: streams_def)
qed (use assms(2,3) in \<open>simp_all add: streams_def\<close>)

lemma from_asked:
  assumes "calm s" and "streams s = ([], cout, sin, [])" and "sin @ cout = req_frame i q" and "sy_caller s = Waiting" and "rt_recvCh (sy_rt s) = []"
    and "rt_loop (sy_rt s) = Receiving" and "sv_phase (sy_server s) = Awaiting" and "owed te errText (q # sy_todo s) (sv_exe (sy_server s)) rs e'"
    and "answers = sy_done s @ map (reply errText) rs" and "step te errText s s'"
  shows "\<exists>m'. live te errText answers e' m' s' \<and> (m', (length (sy_todo s), 7, length cout)) \<in> rank_order"
  using assms(10)
proof (cases rule: step.cases)
  case (serve v)
  have q: "length q < 2 ^ 32 - 15" using assms(8) by (simp add: owed_def)
  obtain p c where pc: "sv_pc (sy_server s) = (p, c)" by fastforce
  have n: "\<not> server_eof s" using assms(1) by (simp add: server_eof_def calm_def)
  have "cout = []"
  proof (rule ccontr)
    assume "cout \<noteq> []"
    then obtain pc' where "pkg_Receive (p, c) = (Err ErrEOF, pc')" using request_short [OF q, of c cout i p] assms(2,3) pc by (auto simp: sys_simps)
    then show False using serve_blocked [OF assms(7)] serve(2) pc n by simp
  qed
  then have "pkg_Receive (p, c) = (Ok (NewPackage q None), p\<lparr>wp_lastRequestID := i\<rparr>, c\<lparr>cn_in := []\<rparr>)"
    using pkg_Receive_request [OF q, of c i "[]" p] assms(2,3) pc by (simp add: sys_simps)
  then have "v = (sy_server s)\<lparr>sv_pc := (p\<lparr>wp_lastRequestID := i\<rparr>, c\<lparr>cn_in := []\<rparr>), sv_phase := Executing q\<rparr>"
    using serve(2) assms(7) pc by (simp add: serve_step_def NewPackage_def)
  then have "live te errText answers e' (length (sy_todo s'), 6, 0) s'"
    using assms serve(1) pc \<open>cout = []\<close> by (intro live.executing [where q = q]) (auto simp: sys_simps)
  then show ?thesis by (rule ranked) (simp add: serve(1))
next
  case (loop rt)
  then show ?thesis using loop_quiet [OF assms(1) _ assms(6)] assms(2,7) by (simp add: streams_def)
next
  case (up k)
  have "live te errText answers e' (length (sy_todo s'), 7, length (drop k cout)) s'"
    using assms up(1) by (intro live.asked [of _ _ "sin @ List.take k cout" i q]) (auto simp: sys_simps)
  then show ?thesis by (rule ranked) (use up assms(2) in \<open>auto simp: sys_simps\<close>)
qed (use assms(2,4,5) in \<open>simp_all add: streams_def Execute_receive_def RoundTrip_receive_def sy_rt_def\<close>)

lemma from_executing:
  assumes "calm s" and "streams s = ([], [], [], [])" and "sy_caller s = Waiting" and "rt_recvCh (sy_rt s) = []" and "rt_loop (sy_rt s) = Receiving"
    and "sv_phase (sy_server s) = Executing q" and "owed te errText (q # sy_todo s) (sv_exe (sy_server s)) rs e'" and "answers = sy_done s @ map (reply errText) rs"
    and "step te errText s s'"
  shows "\<exists>m'. live te errText answers e' m' s' \<and> (m', (length (sy_todo s), 6, 0)) \<in> rank_order"
  using assms(9)
proof (cases rule: step.cases)
  case (serve v)
  obtain r e1 where x: "Execute te q (sv_exe (sy_server s)) = Some (r, e1)" "r \<noteq> Panic" using assms(7) by (auto simp: owed_def split: option.splits if_splits)
  obtain rs1 where rs: "rs = r # rs1" "owed te errText (sy_todo s) e1 rs1 e'" using assms(7) x by (auto simp: owed_def)
  have "v = (sy_server s)\<lparr>sv_exe := e1, sv_phase := Answering (answer_package r)\<rparr>" using serve(2) assms(6) x by (simp add: serve_step_def)
  then have "live te errText answers e' (length (sy_todo s'), 5, 0) s'"
    using assms serve(1) rs x(2) by (intro live.answering [where r = r and rs = rs1]) (auto simp: sys_simps owed_def)
  then show ?thesis by (rule ranked) (simp add: serve(1))
next
  case (loop rt)
  then show ?thesis using loop_quiet [OF assms(1) _ assms(5)] assms(2,6) by (simp add: streams_def)
qed (use assms(2-4) in \<open>simp_all add: streams_def Execute_receive_def RoundTrip_receive_def sy_rt_def\<close>)

lemma from_answering:
  assumes "calm s" and "streams s = ([], [], [], [])" and "sy_caller s = Waiting" and "rt_recvCh (sy_rt s) = []" and "rt_loop (sy_rt s) = Receiving"
    and "sv_phase (sy_server s) = Answering (answer_package r)" and "r \<noteq> Panic" and "fits errText r"
    and "owed te errText (sy_todo s) (sv_exe (sy_server s)) rs e'" and "answers = sy_done s @ map (reply errText) (r # rs)"
    and "step te errText s s'"
  shows "\<exists>m'. live te errText answers e' m' s' \<and> (m', (length (sy_todo s), 5, 0)) \<in> rank_order"
  using assms(11)
proof (cases rule: step.cases)
  case (serve v)
  obtain p c where pc: "sv_pc (sy_server s) = (p, c)" by fastforce
  have "pkg_Send errText (answer_package r) (p, c) = (Ok (), p, c\<lparr>cn_out := response errText (wp_lastRequestID p) r\<rparr>)"
    using pkg_Send_answer [of p c r errText] assms(1,2,7,8) pc by (simp add: sys_simps)
  then have "v = (sy_server s)\<lparr>sv_pc := (p, c\<lparr>cn_out := response errText (wp_lastRequestID p) r\<rparr>), sv_phase := Awaiting\<rparr>"
    using serve(2) assms(6) pc by (simp add: serve_step_def)
  then have "live te errText answers e' (length (sy_todo s'), 4, length (response errText (wp_lastRequestID p) r)) s'"
    using assms serve(1) pc by (intro live.answered [where cin = "[]" and i = "wp_lastRequestID p" and r = r and rs = rs]) (auto simp: sys_simps)
  then show ?thesis by (rule ranked) (simp add: serve(1))
next
  case (loop rt)
  then show ?thesis using loop_quiet [OF assms(1) _ assms(5)] assms(2,6) by (simp add: streams_def)
qed (use assms(2-4) in \<open>simp_all add: streams_def Execute_receive_def RoundTrip_receive_def sy_rt_def\<close>)

lemma from_answered:
  assumes "calm s" and "streams s = (cin, [], [], sout)" and "cin @ sout = response errText i r" and "sy_caller s = Waiting" and "rt_recvCh (sy_rt s) = []"
    and "rt_loop (sy_rt s) = Receiving" and "sv_phase (sy_server s) = Awaiting" and "r \<noteq> Panic" and "fits errText r"
    and "owed te errText (sy_todo s) (sv_exe (sy_server s)) rs e'" and "answers = sy_done s @ map (reply errText) (r # rs)"
    and "step te errText s s'"
  shows "\<exists>m'. live te errText answers e' m' s' \<and> (m', (length (sy_todo s), 4, length sout)) \<in> rank_order"
  using assms(12)
proof (cases rule: step.cases)
  case (loop rt)
  obtain p c where pc: "rt_p (sy_rt s) = (p, c)" by fastforce
  have n: "\<not> client_eof s" "\<not> rt_closed (sy_rt s)" using assms(1,7) by (simp_all add: client_eof_def calm_def)
  have "sout = []"
  proof (rule ccontr)
    assume "sout \<noteq> []"
    then obtain pc' where "pkg_Receive (p, c) = (Err ErrEOF, pc')" using response_short [OF assms(8,9), of c sout i p] assms(2,3) pc by (auto simp: sys_simps)
    then show False using loop_blocked [OF assms(6) n(2)] loop(2) pc n by simp
  qed
  then have "pkg_Receive (p, c) = (Ok (received errText (answer_package r)), p, c\<lparr>cn_in := []\<rparr>)"
    using pkg_Receive_response [OF assms(8,9), of c i p] assms(2,3) pc by (simp add: sys_simps)
  then have "rt = (sy_rt s)\<lparr>rt_p := (p, c\<lparr>cn_in := []\<rparr>), rt_loop := Delivering (Ok (received errText (answer_package r)))\<rparr>"
    using loop(2) assms(6) pc n(2) by (simp add: receiveLoop_def rt_Receive_def)
  then have "live te errText answers e' (length (sy_todo s'), 3, 0) s'"
    using assms loop(1) pc \<open>sout = []\<close> by (intro live.delivering [where r = r and rs = rs]) (auto simp: sys_simps)
  then show ?thesis by (rule ranked) (simp add: loop(1))
next
  case (serve v)
  then show ?thesis using serve_quiet [OF assms(1) _ assms(7), of te errText] assms(2) by (simp add: streams_def)
next
  case (down k)
  have "live te errText answers e' (length (sy_todo s'), 4, length (drop k sout)) s'"
    using assms down(1) by (intro live.answered [where cin = "cin @ List.take k sout" and i = i and r = r and rs = rs]) (auto simp: sys_simps)
  then show ?thesis by (rule ranked) (use down assms(2) in \<open>auto simp: sys_simps\<close>)
qed (use assms(2,4,5) in \<open>simp_all add: streams_def Execute_receive_def RoundTrip_receive_def sy_rt_def\<close>)

lemma from_delivering:
  assumes "calm s" and "streams s = ([], [], [], [])" and "sy_caller s = Waiting" and "rt_recvCh (sy_rt s) = []"
    and "rt_loop (sy_rt s) = Delivering (Ok (received errText (answer_package r)))" and "sv_phase (sy_server s) = Awaiting" and "r \<noteq> Panic"
    and "owed te errText (sy_todo s) (sv_exe (sy_server s)) rs e'" and "answers = sy_done s @ map (reply errText) (r # rs)"
    and "step te errText s s'"
  shows "\<exists>m'. live te errText answers e' m' s' \<and> (m', (length (sy_todo s), 3, 0)) \<in> rank_order"
  using assms(10)
proof (cases rule: step.cases)
  case (loop rt)
  have "rt = (sy_rt s)\<lparr>rt_recvCh := [Ok (received errText (answer_package r))], rt_loop := Receiving\<rparr>"
    using loop(2) assms(4,5) by (simp add: receiveLoop_def is_ok_def)
  then have "live te errText answers e' (length (sy_todo s'), 2, 0) s'"
    using assms loop(1) by (intro live.delivered [where r = r and rs = rs]) (auto simp: sys_simps)
  then show ?thesis by (rule ranked) (simp add: loop(1))
next
  case (serve v)
  then show ?thesis using serve_quiet [OF assms(1) _ assms(6), of te errText] assms(2) by (simp add: streams_def)
qed (use assms(2-4) in \<open>simp_all add: streams_def Execute_receive_def RoundTrip_receive_def sy_rt_def\<close>)

lemma from_delivered:
  assumes "calm s" and "streams s = ([], [], [], [])" and "sy_caller s = Waiting" and "rt_recvCh (sy_rt s) = [Ok (received errText (answer_package r))]"
    and "rt_loop (sy_rt s) = Receiving" and "sv_phase (sy_server s) = Awaiting" and "r \<noteq> Panic"
    and "owed te errText (sy_todo s) (sv_exe (sy_server s)) rs e'" and "answers = sy_done s @ map (reply errText) (r # rs)"
    and "step te errText s s'"
  shows "\<exists>m'. live te errText answers e' m' s' \<and> (m', (length (sy_todo s), 2, 0)) \<in> rank_order"
  using assms(10)
proof (cases rule: step.cases)
  case (take a c)
  have t: "a = reply errText r" "c = (sy_client s)\<lparr>c_roundTripper := (sy_rt s)\<lparr>rt_recvCh := []\<rparr>\<rparr>"
    using take(4) assms(4) executed_received [OF assms(7), of errText] by (auto simp: Execute_receive_def RoundTrip_receive_def sy_rt_def)
  have "live te errText answers e' (length (sy_todo s'), 1, 0) s'"
    using assms take(1) by (intro live.ready [where rs = rs]) (auto simp: sys_simps t)
  then show ?thesis by (rule ranked) (simp add: take(1))
next
  case (loop rt)
  then show ?thesis using loop_quiet [OF assms(1) _ assms(5)] assms(2,6) by (simp add: streams_def)
next
  case (serve v)
  then show ?thesis using serve_quiet [OF assms(1) _ assms(6), of te errText] assms(2) by (simp add: streams_def)
qed (use assms(2,3) in \<open>simp_all add: streams_def\<close>)

lemma from_closing:
  assumes "rt_closed (sy_rt s)" and "streams s = ([], [], [], [])" and "sy_caller s = Gone" and "sy_todo s = []" and "answers = sy_done s"
    and "winding_down (rt_loop (sy_rt s)) (rt_recvCh (sy_rt s))"
    and "sv_phase (sy_server s) = Awaiting \<and> sv_exe (sy_server s) = e' \<or> (\<exists>r. ex_Close e' = (r, sv_exe (sy_server s)) \<and> sv_phase (sy_server s) = Ended r)"
    and "step te errText s s'"
  shows "\<exists>m'. live te errText answers e' m' s' \<and>
    (m', (0, 0, loop_left (rt_loop (sy_rt s)) + (if sv_phase (sy_server s) = Awaiting then 1 else 0))) \<in> rank_order"
  using assms(8)
proof (cases rule: step.cases)
  case (loop rt)
  have l: "loop_left (rt_loop rt) < loop_left (rt_loop (sy_rt s)) \<and> winding_down (rt_loop rt) (rt_recvCh rt) \<and> rt_closed rt \<and> rt_p rt = rt_p (sy_rt s)"
    using loop(2) assms(1,6) by (auto simp: receiveLoop_def rt_Receive_def winding_down_def is_ok_def markDisconnected_def)
  have "live te errText answers e' (0, 0, loop_left (rt_loop (sy_rt s')) + (if sv_phase (sy_server s') = Awaiting then 1 else 0)) s'"
    using assms loop(1) l by (intro live.closing) (auto simp: sys_simps)
  then show ?thesis by (rule ranked) (use l in \<open>simp add: loop(1) sy_rt_def\<close>)
next
  case (serve v)
  have a: "sv_phase (sy_server s) = Awaiting" "sv_exe (sy_server s) = e'" using assms(7) serve(2) by (auto simp: serve_step_def)
  obtain p c where pc: "sv_pc (sy_server s) = (p, c)" by fastforce
  obtain r e1 where x: "ex_Close e' = (r, e1)" by fastforce
  have "server_eof s" "pkg_Receive (p, c) = (Err ErrEOF, p, c)" using assms(1,2) pkg_Receive_end [of c p] pc by (simp_all add: sys_simps)
  then have v: "v = (sy_server s)\<lparr>sv_pc := (p, c), sv_exe := e1, sv_phase := Ended r\<rparr>" using serve(2) a pc x by (simp add: serve_step_def serve_end_def)
  have "live te errText answers e' (0, 0, loop_left (rt_loop (sy_rt s')) + (if sv_phase (sy_server s') = Awaiting then 1 else 0)) s'"
    using assms serve(1) v x pc by (intro live.closing) (auto simp: sys_simps)
  then show ?thesis by (rule ranked) (simp add: serve(1) v a sy_rt_def)
qed (use assms(2,3) in \<open>simp_all add: streams_def\<close>)

lemma live_step:
  assumes "live te errText answers e' m s" and "step te errText s s'"
  shows "\<exists>m'. live te errText answers e' m' s' \<and> (m', m) \<in> rank_order"
  using assms(1)
proof cases
  case ready
  then show ?thesis using from_ready assms(2) by blast
next
  case asked
  then show ?thesis using from_asked assms(2) by blast
next
  case executing
  then show ?thesis using from_executing assms(2) by blast
next
  case answering
  then show ?thesis using from_answering assms(2) by blast
next
  case answered
  then show ?thesis using from_answered assms(2) by blast
next
  case delivering
  then show ?thesis using from_delivering assms(2) by blast
next
  case delivered
  then show ?thesis using from_delivered assms(2) by blast
next
  case closing
  then show ?thesis using from_closing assms(2) by blast
qed

text \<open>A state of the conversation that is not the last one has a step: the first three lemmas give the steps of the server, the loop and the streams.\<close>

lemma serve_moves: "serve_step te errText (server_eof s) (sy_server s) \<noteq> None \<Longrightarrow> \<exists>s'. step te errText s s'"
  using step.serve by blast

lemma loop_moves: "receiveLoop (client_eof s) (sy_rt s) \<noteq> None \<Longrightarrow> \<exists>s'. step te errText s s'"
  using step.loop by blast

lemma stream_moves: "cn_out (sy_cconn s) \<noteq> [] \<or> cn_out (sy_sconn s) \<noteq> [] \<Longrightarrow> \<exists>s'. step te errText s s'"
proof (elim disjE)
  assume "cn_out (sy_cconn s) \<noteq> []"
  then have "1 \<le> length (cn_out (sy_cconn s))" by (cases "cn_out (sy_cconn s)") auto
  then show "\<exists>s'. step te errText s s'" using step.up [of 1 s te errText] by auto
next
  assume "cn_out (sy_sconn s) \<noteq> []"
  then have "1 \<le> length (cn_out (sy_sconn s))" by (cases "cn_out (sy_sconn s)") auto
  then show "\<exists>s'. step te errText s s'" using step.down [of 1 s te errText] by auto
qed

lemma live_progress:
  assumes "live te errText answers e' m s"
  shows "finished answers e' s \<or> (\<exists>s'. step te errText s s')"
  using assms
proof cases
  case (ready rs)
  show ?thesis
  proof (cases "sy_todo s")
    case Nil
    then show ?thesis using step.close [of s te errText] ready by auto
  next
    case (Cons q qs)
    then have q: "length q < 2 ^ 32 - 15" using ready by (simp add: owed_def)
    show ?thesis using step.send [OF _ _ Cons Execute_send_calm [OF ready(2) q]] ready by auto
  qed
next
  case (asked cout sin i q rs)
  show ?thesis
  proof (cases "cout = []")
    case True
    have "length q < 2 ^ 32 - 15" using asked by (simp add: owed_def)
    then show ?thesis using True asked pkg_Receive_request [of q "sy_sconn s" i "[]" "fst (sv_pc (sy_server s))"]
      by (intro disjI2 serve_moves) (simp add: serve_step_def streams_def sy_sconn_def)
  next
    case False
    then show ?thesis using asked stream_moves [of s te errText] by (simp add: streams_def)
  qed
next
  case (executing q rs)
  then show ?thesis by (intro disjI2 serve_moves) (auto simp: serve_step_def owed_def split: option.splits)
next
  case (answering r rs)
  then show ?thesis by (intro disjI2 serve_moves) (auto simp: serve_step_def split: prod.splits res.splits)
next
  case (answered cin sout i r rs)
  show ?thesis
  proof (cases "sout = []")
    case True
    then show ?thesis using answered pkg_Receive_response [of r errText "sy_cconn s" i "fst (rt_p (sy_rt s))"]
      by (intro disjI2 loop_moves) (simp add: receiveLoop_def rt_Receive_def streams_def sy_cconn_def calm_def)
  next
    case False
    then show ?thesis using answered stream_moves [of s te errText] by (simp add: streams_def)
  qed
next
  case (delivering r rs)
  then show ?thesis by (intro disjI2 loop_moves) (simp add: receiveLoop_def)
next
  case (delivered r rs)
  then obtain a c where "Execute_receive (sy_client s) = Some (a, c)" by (simp add: Execute_receive_def RoundTrip_receive_def sy_rt_def)
  then show ?thesis using step.take [of s a c te errText] delivered by auto
next
  case closing
  show ?thesis
  proof (cases "rt_loop (sy_rt s) = Stopped")
    case True
    show ?thesis
    proof (cases "sv_phase (sy_server s) = Awaiting")
      case False
      then show ?thesis using True closing by (auto simp: finished_def)
    next
      case a: True
      have "pkg_Receive (sv_pc (sy_server s)) = (Err ErrEOF, sv_pc (sy_server s))"
        using closing pkg_Receive_end [of "sy_sconn s" "fst (sv_pc (sy_server s))"] by (simp add: streams_def sy_sconn_def)
      then show ?thesis using a closing by (intro disjI2 serve_moves) (cases "sv_pc (sy_server s)", simp add: serve_step_def server_eof_def streams_def)
    qed
  next
    case False
    then show ?thesis using closing by (intro disjI2 loop_moves) (auto simp: receiveLoop_def rt_Receive_def winding_down_def)
  qed
qed

interpretation talk: settling "step te errText" "live te errText answers e'" rank_order "finished answers e'"
  for te errText answers e'
proof
  show "wf rank_order" unfolding rank_order_def by (rule wf)
qed (rule live_step, assumption+, rule live_progress)

lemma connect_live:
  assumes "owed te errText qs e rs e'"
  shows "\<exists>m. live te errText (map (reply errText) rs) e' m (connect qs e)"
  using live.ready [of "connect qs e" te errText rs e'] assms
  by (auto simp: connect_def Let_def sys_simps NewClient_def NewRoundTripper_def NewWireProtocoler_def NewWireServerProtocoler_def)

lemma live_done: "live te errText answers e' m s \<Longrightarrow> \<exists>rs. answers = sy_done s @ map (reply errText) rs"
  by (cases rule: live.cases) (auto intro: exI [of _ "[]"] exI [of _ "_ # _"])

section \<open>A lost connection\<close>

text \<open>Once the receive loop has returned and its error has been taken, nothing is ever put into the channel again.\<close>

definition deaf :: "system \<Rightarrow> bool" where
  "deaf s \<longleftrightarrow> (rt_loop (sy_rt s) = Marking \<or> rt_loop (sy_rt s) = Stopped) \<and> rt_recvCh (sy_rt s) = []"

lemma deaf_step:
  assumes "step te errText s s'" and "deaf s" and "sy_caller s = Waiting"
  shows "deaf s' \<and> sy_caller s' = Waiting \<and> sy_done s' = sy_done s"
  using assms
  by (cases rule: step.cases)
    (auto simp: deaf_def sy_rt_def set_cconn_def set_sconn_def receiveLoop_def markDisconnected_def Execute_receive_def RoundTrip_receive_def)

lemma deaf_run:
  assumes "(step te errText)\<^sup>*\<^sup>* s s'" and "deaf s" and "sy_caller s = Waiting"
  shows "deaf s' \<and> sy_caller s' = Waiting \<and> sy_done s' = sy_done s"
  using assms by (induction rule: rtranclp_induct) (use deaf_step in fastforce)+

lemma calm_send:
  assumes "calm s" and "sy_caller s = Ready" and "rt_loop (sy_rt s) \<noteq> Crashed" and "sy_todo s = q # qs" and "length q < 2 ^ 32 - 15"
  shows "\<exists>s'. step te errText s s' \<and> sy_caller s' = Waiting \<and> sy_todo s' = qs \<and> sy_done s' = sy_done s \<and> sy_server s' = sy_server s \<and>
    calm s' \<and> cn_in (sy_cconn s') = cn_in (sy_cconn s) \<and> rt_recvCh (sy_rt s') = rt_recvCh (sy_rt s) \<and> rt_loop (sy_rt s') = rt_loop (sy_rt s)"
  by (rule exI, rule conjI, rule step.send [OF assms(2-4) Execute_send_calm [OF assms(1,5)]])
    (use assms(1) in \<open>simp add: sys_simps\<close>)

text \<open>The error of a lost connection reaches the caller before the connection is marked as lost.\<close>

lemma lost_receive:
  assumes "calm s" and "sy_caller s = Waiting" and "rt_recvCh (sy_rt s) = []" and "rt_loop (sy_rt s) = Receiving" and "sv_phase (sy_server s) = Ended r"
    and "streams s = ([], cout, sin, [])"
  shows "\<exists>s'. (step te errText)\<^sup>*\<^sup>* s s' \<and> sy_caller s' = Ready \<and> sy_todo s' = sy_todo s \<and> sy_done s' = sy_done s @ [Err ErrEOF] \<and>
    calm s' \<and> rt_loop (sy_rt s') = Marking \<and> rt_recvCh (sy_rt s') = []"
proof -
  let ?put = "\<lambda>rt. s\<lparr>sy_client := (sy_client s)\<lparr>c_roundTripper := rt\<rparr>\<rparr>"
  let ?r1 = "(sy_rt s)\<lparr>rt_loop := Delivering (Err ErrEOF)\<rparr>" and ?r2 = "(sy_rt s)\<lparr>rt_recvCh := [Err ErrEOF], rt_loop := Marking\<rparr>"
  let ?s3 = "(?put ((sy_rt s)\<lparr>rt_recvCh := [], rt_loop := Marking\<rparr>))\<lparr>sy_caller := Ready, sy_done := sy_done s @ [Err ErrEOF]\<rparr>"
  have "pkg_Receive (rt_p (sy_rt s)) = (Err ErrEOF, rt_p (sy_rt s))"
    using pkg_Receive_end [of "sy_cconn s" "fst (rt_p (sy_rt s))"] assms(6) by (simp add: streams_def sy_cconn_def)
  then have "receiveLoop (client_eof s) (sy_rt s) = Some ?r1"
    using assms by (simp add: receiveLoop_def rt_Receive_def calm_def client_eof_def streams_def)
  then have 1: "step te errText s (?put ?r1)" by (rule step.loop)
  have "receiveLoop (client_eof (?put ?r1)) (sy_rt (?put ?r1)) = Some ?r2" using assms(3) by (simp add: receiveLoop_def sy_rt_def is_ok_def)
  then have 2: "step te errText (?put ?r1) (?put ?r2)" using step.loop by fastforce
  have "Execute_receive (sy_client (?put ?r2)) = Some (Err ErrEOF, (sy_client s)\<lparr>c_roundTripper := (sy_rt s)\<lparr>rt_recvCh := [], rt_loop := Marking\<rparr>\<rparr>)"
    by (simp add: Execute_receive_def RoundTrip_receive_def sy_rt_def executed_def)
  from step.take [OF _ _ this, of te errText] have 3: "step te errText (?put ?r2) ?s3" using assms(2) by (simp add: sy_rt_def)
  have "(step te errText)\<^sup>*\<^sup>* s ?s3" using 1 2 3 by (meson converse_rtranclp_into_rtranclp rtranclp.rtrancl_refl)
  then show ?thesis using assms by (intro exI [of _ ?s3]) (simp add: sys_simps)
qed

lemma ends_somewhere:
  assumes "\<not> (\<exists>f. f 0 = a \<and> (\<forall>n. r (f n) (f (Suc n))))"
  obtains s where "r\<^sup>*\<^sup>* a s" "\<not> (\<exists>s'. r s s')"
proof -
  have "\<exists>s. r\<^sup>*\<^sup>* a s \<and> \<not> (\<exists>s'. r s s')"
  proof (rule ccontr)
    assume n: "\<not> ?thesis"
    have "\<exists>f. \<forall>n. (r\<^sup>*\<^sup>* a (f n) \<and> (n = 0 \<longrightarrow> f n = a)) \<and> r (f n) (f (Suc n))"
      by (rule dependent_nat_choice) (use n in \<open>blast intro: rtranclp.rtrancl_into_rtrancl\<close>)+
    with assms show False by blast
  qed
  then show thesis using that by blast
qed

section \<open>Properties\<close>

text \<open>C24. A whole conversation: a client that connects, executes any list of statements and closes gets exactly the answers of the session, in order, whatever the interleaving of
  its two threads, the server and the two byte streams, and however the streams cut the frames. In every reachable state the answers so far are a prefix of
  the expected ones; no run goes on for ever; and a run can stop only where the caller has all answers and has closed, the receive loop has returned and the server has closed
  the session as the statements left it.\<close>

theorem conversation_completes:
  assumes "session te qs e = Some (rs, e')" and "\<forall>q \<in> set qs. length q < 2 ^ 32 - 15" and "\<forall>r \<in> set rs. fits errText r"
  shows "\<not> (\<exists>f. f 0 = connect qs e \<and> (\<forall>n. step te errText (f n) (f (Suc n)))) \<and>
    (\<forall>s. (step te errText)\<^sup>*\<^sup>* (connect qs e) s \<longrightarrow>
       (\<exists>rs'. map (reply errText) rs = sy_done s @ rs') \<and> ((\<exists>s'. step te errText s s') \<or> finished (map (reply errText) rs) e' s))"
proof -
  have "owed te errText qs e rs e'" using assms by (simp add: owed_def)
  then obtain m where m: "live te errText (map (reply errText) rs) e' m (connect qs e)" using connect_live by blast
  show ?thesis using talk.no_endless_run [OF m] talk.live_run [OF _ m] talk.stuck_final [OF m] live_done by blast
qed

theorem conversation_completes_witness:
  "\<exists>s. (step ex_tenv (\<lambda>_. ''no transaction''))\<^sup>*\<^sup>* (connect [render [''commit''], render [''abort'']] (NewExecutor new_tbm)) s \<and>
     \<not> (\<exists>s'. step ex_tenv (\<lambda>_. ''no transaction'') s s') \<and> sy_done s = [Err (ErrText ''no transaction''), Err (ErrText ''no transaction'')]"
proof -
  let ?t = "\<lambda>_ :: error. ''no transaction''" and ?rs = "[Err ErrNotInAnyTransaction, Err ErrNotInAnyTransaction] :: bytes res list"
  have s: "session ex_tenv [render [''commit''], render [''abort'']] (NewExecutor new_tbm) = Some (?rs, NewExecutor new_tbm)"
    by (simp add: Execute_def parse_word NewExecutor_def)
  have q: "\<forall>q \<in> set [render [''commit''], render [''abort'']]. length q < 2 ^ 32 - 15" by (simp add: render_def lit_def str_bytes_def)
  have r: "\<forall>r \<in> set ?rs. fits ?t r" by (simp add: fits_def payload_of_def answer_package_def NewPackage_def)
  note c = conversation_completes [OF s q r]
  obtain s where "(step ex_tenv ?t)\<^sup>*\<^sup>* (connect [render [''commit''], render [''abort'']] (NewExecutor new_tbm)) s" "\<not> (\<exists>s'. step ex_tenv ?t s s')"
    by (rule ends_somewhere [OF conjunct1 [OF c]])
  moreover from this c have "finished (map (reply ?t) ?rs) (NewExecutor new_tbm) s" by blast
  ultimately show ?thesis by (auto simp: finished_def reply_def)
qed

text \<open>C38. The receive loop hands the error of a lost connection over once and only then marks the client as disconnected. So after the server has gone away there is a run in which
  \<open>Execute\<close> returns that error while \<open>IsConnected\<close> still answers yes, which keeps the shell from reconnecting; and if the operating system accepts the bytes of the next
  statement, that \<open>Execute\<close> waits for ever.\<close>

theorem lost_connection_hangs:
  assumes "length q1 < 2 ^ 32 - 15" and "length q2 < 2 ^ 32 - 15"
  shows "\<exists>s1 s2. (step te errText)\<^sup>*\<^sup>* ((connect (q1 # q2 # qs) e)\<lparr>sy_server := (sy_server (connect [] e))\<lparr>sv_phase := Ended (Ok ())\<rparr>\<rparr>) s1 \<and>
    sy_caller s1 = Ready \<and> sy_done s1 = [Err ErrEOF] \<and> IsConnected (sy_client s1) \<and>
    step te errText s1 s2 \<and> (\<forall>s. (step te errText)\<^sup>*\<^sup>* s2 s \<longrightarrow> sy_caller s = Waiting \<and> sy_done s = [Err ErrEOF])"
proof -
  let ?s0 = "(connect (q1 # q2 # qs) e)\<lparr>sy_server := (sy_server (connect [] e))\<lparr>sv_phase := Ended (Ok ())\<rparr>\<rparr>"
  have s0: "calm ?s0" "sy_caller ?s0 = Ready" "rt_loop (sy_rt ?s0) = Receiving" "rt_recvCh (sy_rt ?s0) = []" "sy_todo ?s0 = q1 # q2 # qs" "sy_done ?s0 = []"
    "streams ?s0 = ([], [], [], [])" "sv_phase (sy_server ?s0) = Ended (Ok ())"
    by (simp_all add: connect_def Let_def sys_simps NewClient_def NewRoundTripper_def NewWireProtocoler_def NewWireServerProtocoler_def)
  obtain s where s: "step te errText ?s0 s" "sy_caller s = Waiting" "sy_todo s = q2 # qs" "sy_done s = []" "sy_server s = sy_server ?s0" "calm s"
    "cn_in (sy_cconn s) = []" "rt_recvCh (sy_rt s) = []" "rt_loop (sy_rt s) = Receiving"
    using calm_send [of ?s0 q1 "q2 # qs" te errText] s0 assms(1) by (auto simp: streams_def)
  have "streams s = ([], cn_out (sy_cconn s), [], [])" using s(5,7) s0(7) by (simp add: streams_def sy_sconn_def)
  then obtain s1 where s1: "(step te errText)\<^sup>*\<^sup>* s s1" "sy_caller s1 = Ready" "sy_todo s1 = q2 # qs" "sy_done s1 = [Err ErrEOF]" "calm s1"
    "rt_loop (sy_rt s1) = Marking" "rt_recvCh (sy_rt s1) = []"
    using lost_receive [OF s(6,2,8,9), of "Ok ()" "cn_out (sy_cconn s)" "[]" te errText] s(3,4,5) s0(8) by auto
  obtain s2 where s2: "step te errText s1 s2" "sy_caller s2 = Waiting" "sy_done s2 = [Err ErrEOF]" "deaf s2"
    using calm_send [of s1 q2 qs te errText] s1 assms(2) by (auto simp: deaf_def)
  have "IsConnected (sy_client s1)" using s1(5) by (simp add: IsConnected_def calm_def sy_rt_def)
  moreover have "\<forall>s. (step te errText)\<^sup>*\<^sup>* s2 s \<longrightarrow> sy_caller s = Waiting \<and> sy_done s = [Err ErrEOF]" using deaf_run [OF _ s2(4,2)] s2(3) by metis
  ultimately show ?thesis using converse_rtranclp_into_rtranclp [of "step te errText", OF s(1) s1(1)] s1(2,4) s2(1) by blast
qed

theorem lost_connection_hangs_witness:
  "\<exists>s1 s2. (step ex_tenv (\<lambda>_. []))\<^sup>*\<^sup>* ((connect [render [''show''], render [''show'']] (NewExecutor new_tbm))
       \<lparr>sy_server := (sy_server (connect [] (NewExecutor new_tbm)))\<lparr>sv_phase := Ended (Ok ())\<rparr>\<rparr>) s1 \<and>
     IsConnected (sy_client s1) \<and> step ex_tenv (\<lambda>_. []) s1 s2 \<and>
     (\<forall>s. (step ex_tenv (\<lambda>_. []))\<^sup>*\<^sup>* s2 s \<longrightarrow> sy_caller s = Waiting \<and> sy_done s = [Err ErrEOF])"
proof -
  have "length (render [''show'']) < 2 ^ 32 - 15" by (simp add: render_def lit_def str_bytes_def)
  from lost_connection_hangs [OF this this, of ex_tenv "\<lambda>_. []" "NewExecutor new_tbm" "[]"] show ?thesis by blast
qed

end
