(* ===== verification/Shell.thy ===== *)
theory Shell
  imports Client
begin

text \<open>
  The command line of the client (\<^verbatim>\<open>client/shell.go\<close>) and the way the client program puts it together with the connection (\<^verbatim>\<open>client/launcher.go\<close>). \<open>Run\<close> is a line editor: the loop
  around \<open>select\<close> is a function of events (a byte of the keyboard, a failed read, the closed channel of a lost connection), its local variables are a record, and what it
  prints is a list of bytes. \<open>runSimple\<close> is the mode without a terminal. The client is reached through the Go interface \<open>Client\<close>, a record of operations on the state of
  the client and the server behind it, which may also change on its own between two events. \<open>None\<close> is a call that never returns.
\<close>

section \<open>Model\<close>

text \<open>The interface \<open>Client\<close> and the function \<open>reconnect\<close>, which may print while it dials.\<close>

record 'w console =
  cl_Execute :: "bytes \<Rightarrow> 'w \<Rightarrow> (bytes res \<times> 'w) option"
  cl_IsConnected :: "'w \<Rightarrow> bool"
  cl_Disconnected :: "'w \<Rightarrow> bool"
  cl_Close :: "'w \<Rightarrow> 'w"
  cl_reconnect :: "('w \<Rightarrow> (bytes \<times> 'w) option) option"

datatype mode = Editing | Escape | Bracket | Exited

record 'w shell =
  sh_world :: 'w
  sh_history :: "bytes list"
  sh_histIdx :: int
  sh_buf :: bytes
  sh_cursor :: nat
  sh_mode :: mode
  sh_out :: bytes

datatype 'w event = Key byte | ReadError | Lost | World 'w

definition shell_prompt :: bytes where "shell_prompt = str_bytes '':> ''"
definition crlf :: bytes where "crlf = [13, 10]"
definition csi :: "string \<Rightarrow> bytes" where "csi t = [27, 91] @ str_bytes t"

definition emit :: "bytes \<Rightarrow> 'w shell \<Rightarrow> 'w shell" where
  "emit bs s = s\<lparr>sh_out := sh_out s @ bs\<rparr>"

definition newShell :: "'w \<Rightarrow> 'w shell" where
  "newShell w = \<lparr>sh_world = w, sh_history = [], sh_histIdx = -1, sh_buf = [], sh_cursor = 0, sh_mode = Editing, sh_out = shell_prompt\<rparr>"

text \<open>Returning from \<open>Run\<close>: the deferred \<open>client.Close\<close>.\<close>

definition leave :: "'w console \<Rightarrow> 'w shell \<Rightarrow> 'w shell" where
  "leave cl s = s\<lparr>sh_mode := Exited, sh_world := cl_Close cl (sh_world s)\<rparr>"

definition redraw :: "'w shell \<Rightarrow> 'w shell" where
  "redraw s =
     (let s = emit ([13] @ csi ''K'' @ shell_prompt @ sh_buf s) s in
      if sh_cursor s < length (sh_buf s) then emit (csi (FormatUint (length (sh_buf s) - sh_cursor s) @ ''D'')) s else s)"

definition lost_text :: bytes where "lost_text = str_bytes ''[Server disconnected. Reconnecting...]''"

definition handleDisconnect :: "'w console \<Rightarrow> 'w shell \<Rightarrow> 'w shell option" where
  "handleDisconnect cl s =
     (case cl_reconnect cl of
        None \<Rightarrow> Some s
      | Some reconnect \<Rightarrow>
          let s = emit (crlf @ csi ''K'' @ lost_text @ crlf) s in
          map_option (\<lambda>(text, w). redraw (emit text (s\<lparr>sh_world := w\<rparr>))) (reconnect (sh_world s)))"

text \<open>Executing a statement: on an error of a client that is not connected, reconnect and execute once more. The second part of the result is what was printed on the way.\<close>

definition executeRetry :: "'w console \<Rightarrow> bytes \<Rightarrow> bytes \<Rightarrow> 'w \<Rightarrow> (bytes res \<times> bytes \<times> 'w) option" where
  "executeRetry cl msg stat w =
     Option.bind (cl_Execute cl stat w) (\<lambda>(r, w).
       case (r, cl_reconnect cl) of
         (Err _, Some reconnect) \<Rightarrow>
           if \<not> cl_IsConnected cl w
           then Option.bind (reconnect w) (\<lambda>(text, w). map_option (\<lambda>(r, w). (r, msg @ text, w)) (cl_Execute cl stat w))
           else Some (r, [], w)
       | _ \<Rightarrow> Some (r, [], w))"

text \<open>\<open>strings.ReplaceAll(result, "\\n", "\\r\\n")\<close>.\<close>

definition crlf_lines :: "bytes \<Rightarrow> bytes" where
  "crlf_lines bs = concat (map (\<lambda>b. if b = 10 then [13, 10] else [b]) bs)"

definition shown :: "(error \<Rightarrow> string) \<Rightarrow> bytes res \<Rightarrow> bytes" where
  "shown errText r = (case r of Err x \<Rightarrow> str_bytes (''Err:  '' @ errText x) @ crlf | Ok res \<Rightarrow> crlf_lines res @ crlf | Panic \<Rightarrow> [])"

definition enter_key :: "(error \<Rightarrow> string) \<Rightarrow> 'w console \<Rightarrow> 'w shell \<Rightarrow> (unit res \<times> 'w shell) option" where
  "enter_key errText cl s =
     (let s = emit crlf s; line = sh_buf s in
      if line = str_bytes ''exit'' \<or> line = str_bytes ''quit'' then Some (Ok (), leave cl s)
      else if line = str_bytes ''clear'' then
        Some (Ok (), emit shell_prompt ((emit (csi ''2J'' @ csi ''H'') s)\<lparr>sh_buf := [], sh_cursor := 0, sh_histIdx := -1\<rparr>))
      else let s = s\<lparr>sh_history := if length line > 0 then sh_history s @ [line] else sh_history s, sh_histIdx := -1\<rparr> in
        Option.bind (if length line > 0 then executeRetry cl (csi ''K'' @ lost_text @ crlf) line (sh_world s) else Some (Ok [], [], sh_world s)) (\<lambda>(r, text, w).
          if r = Panic then Some (Panic, emit text (s\<lparr>sh_world := w\<rparr>))
          else Some (Ok (), emit (text @ (if length line > 0 then shown errText r else []) @ shell_prompt) (s\<lparr>sh_world := w, sh_buf := [], sh_cursor := 0\<rparr>))))"

definition backspace_key :: "'w shell \<Rightarrow> unit res \<times> 'w shell" where
  "backspace_key s =
     (if sh_cursor s > 0 then
        sbind (rbind (go_slice (sh_buf s) 0 (sh_cursor s - 1)) (\<lambda>pre. rbind (go_from (sh_buf s) (sh_cursor s)) (\<lambda>post. Ok (pre @ post))), s) (\<lambda>buf s.
          (Ok (), redraw (s\<lparr>sh_buf := buf, sh_cursor := sh_cursor s - 1\<rparr>)))
      else (Ok (), s))"

text \<open>\<open>buf = append(buf, 0); copy(buf[cursor+1:], buf[cursor:]); buf[cursor] = b; cursor++\<close>.\<close>

definition insert_key :: "byte \<Rightarrow> 'w shell \<Rightarrow> unit res \<times> 'w shell" where
  "insert_key b s =
     (let buf = sh_buf s @ [0] in
      sbind (rbind (go_from buf (sh_cursor s)) (\<lambda>src. rbind (copy_at buf (sh_cursor s + 1) src) (\<lambda>buf. set_at buf (sh_cursor s) b)), s) (\<lambda>buf s.
        (Ok (), redraw (s\<lparr>sh_buf := buf, sh_cursor := sh_cursor s + 1\<rparr>))))"

text \<open>\<open>buf = make([]byte, len(history[histIdx])); copy(buf, history[histIdx]); cursor = len(buf)\<close>, then \<open>redraw\<close>.\<close>

definition recall :: "'w shell \<Rightarrow> unit res \<times> 'w shell" where
  "recall s =
     (if 0 \<le> sh_histIdx s \<and> sh_histIdx s < int (length (sh_history s))
      then let buf = sh_history s ! nat (sh_histIdx s) in (Ok (), redraw (s\<lparr>sh_buf := buf, sh_cursor := length buf\<rparr>))
      else (Panic, s))"

definition up_key :: "'w shell \<Rightarrow> unit res \<times> 'w shell" where
  "up_key s =
     (if sh_history s = [] then (Ok (), s)
      else recall (if sh_histIdx s = -1 then s\<lparr>sh_histIdx := int (length (sh_history s)) - 1\<rparr>
                   else if sh_histIdx s > 0 then s\<lparr>sh_histIdx := sh_histIdx s - 1\<rparr> else s))"

definition down_key :: "'w shell \<Rightarrow> unit res \<times> 'w shell" where
  "down_key s =
     (if sh_histIdx s = -1 then (Ok (), s)
      else let s = s\<lparr>sh_histIdx := sh_histIdx s + 1\<rparr> in
        if sh_histIdx s \<ge> int (length (sh_history s)) then (Ok (), redraw (s\<lparr>sh_histIdx := -1, sh_buf := [], sh_cursor := 0\<rparr>))
        else recall s)"

definition right_key :: "'w shell \<Rightarrow> unit res \<times> 'w shell" where
  "right_key s = (Ok (), if sh_cursor s < length (sh_buf s) then emit (csi ''1C'') (s\<lparr>sh_cursor := sh_cursor s + 1\<rparr>) else s)"

definition left_key :: "'w shell \<Rightarrow> unit res \<times> 'w shell" where
  "left_key s = (Ok (), if sh_cursor s > 0 then emit (csi ''1D'') (s\<lparr>sh_cursor := sh_cursor s - 1\<rparr>) else s)"

definition arrow_key :: "byte \<Rightarrow> 'w shell \<Rightarrow> unit res \<times> 'w shell" where
  "arrow_key b s =
     (let s = s\<lparr>sh_mode := Editing\<rparr> in
      if b = 65 then up_key s else if b = 66 then down_key s else if b = 67 then right_key s else if b = 68 then left_key s else (Ok (), s))"

definition edit_key :: "(error \<Rightarrow> string) \<Rightarrow> 'w console \<Rightarrow> byte \<Rightarrow> 'w shell \<Rightarrow> (unit res \<times> 'w shell) option" where
  "edit_key errText cl b s =
     (if b = 3 \<or> b = 4 then Some (Ok (), leave cl (emit crlf s))
      else if b = 13 \<or> b = 10 then enter_key errText cl s
      else if b = 127 \<or> b = 8 then Some (backspace_key s)
      else if b = 27 then Some (Ok (), s\<lparr>sh_mode := Escape\<rparr>)
      else if 32 \<le> b \<and> b < 127 then Some (insert_key b s)
      else Some (Ok (), s))"

text \<open>One event. The two reads inside an escape sequence look neither at the error, which leaves the byte zero, nor at the channel of the connection.\<close>

definition shell_event :: "(error \<Rightarrow> string) \<Rightarrow> 'w console \<Rightarrow> 'w event \<Rightarrow> 'w shell \<Rightarrow> (unit res \<times> 'w shell) option" where
  "shell_event errText cl ev s =
     (case ev of
        World w \<Rightarrow> Some (Ok (), s\<lparr>sh_world := w\<rparr>)
      | Lost \<Rightarrow>
          if sh_mode s = Editing \<and> cl_Disconnected cl (sh_world s) then map_option (\<lambda>s. (Ok (), s)) (handleDisconnect cl s) else Some (Ok (), s)
      | ReadError \<Rightarrow>
          (case sh_mode s of
             Editing \<Rightarrow> Some (Ok (), leave cl (emit crlf s))
           | Escape \<Rightarrow> Some (Ok (), s\<lparr>sh_mode := Editing\<rparr>)
           | Bracket \<Rightarrow> Some (arrow_key 0 s)
           | Exited \<Rightarrow> Some (Ok (), s))
      | Key b \<Rightarrow>
          (case sh_mode s of
             Editing \<Rightarrow> edit_key errText cl b s
           | Escape \<Rightarrow> Some (Ok (), s\<lparr>sh_mode := if b = 91 then Bracket else Editing\<rparr>)
           | Bracket \<Rightarrow> Some (arrow_key b s)
           | Exited \<Rightarrow> Some (Ok (), s)))"

fun Run_loop :: "(error \<Rightarrow> string) \<Rightarrow> 'w console \<Rightarrow> 'w event list \<Rightarrow> 'w shell \<Rightarrow> (unit res \<times> 'w shell) option" where
  "Run_loop errText cl [] s = Some (Ok (), s)"
| "Run_loop errText cl (ev # evs) s = obinds (shell_event errText cl ev s) (\<lambda>_. Run_loop errText cl evs)"

text \<open>The mode without a terminal reads its input to the end; what follows the last newline is dropped.\<close>

definition shown_simple :: "(error \<Rightarrow> string) \<Rightarrow> bytes res \<Rightarrow> bytes" where
  "shown_simple errText r = (case r of Err x \<Rightarrow> str_bytes (''Err:  '' @ errText x) @ [10] | Ok res \<Rightarrow> res @ [10] | Panic \<Rightarrow> [])"

fun simple_loop :: "(error \<Rightarrow> string) \<Rightarrow> 'w console \<Rightarrow> bytes \<Rightarrow> bytes \<Rightarrow> bytes \<Rightarrow> 'w \<Rightarrow> (unit res \<times> bytes \<times> 'w) option" where
  "simple_loop errText cl [] buf out w = Some (Ok (), out, w)"
| "simple_loop errText cl (b # input) buf out w =
     (if b = 10 then
        (if buf = str_bytes ''exit'' \<or> buf = str_bytes ''quit'' then Some (Ok (), out, w)
         else Option.bind (executeRetry cl (lost_text @ [10]) buf w) (\<lambda>(r, text, w).
           if r = Panic then Some (Panic, out @ text, w)
           else simple_loop errText cl input [] (out @ text @ shown_simple errText r @ shell_prompt) w))
      else simple_loop errText cl input (buf @ [b]) out w)"

definition runSimple :: "(error \<Rightarrow> string) \<Rightarrow> 'w console \<Rightarrow> bytes \<Rightarrow> 'w \<Rightarrow> (unit res \<times> bytes \<times> 'w) option" where
  "runSimple errText cl input w = map_option (\<lambda>(r, out, w). (r, out, cl_Close cl w)) (simple_loop errText cl input [] shell_prompt w)"

section \<open>A terminal\<close>

text \<open>What the printed bytes do to the line the cursor is in, on a terminal that understands the control sequences in use: carriage return, line feed, erasing to the end of the line (\<open>K\<close>),
  moving left and right (\<open>D\<close>, \<open>C\<close>), clearing (\<open>J\<close>) and moving to the top left corner (\<open>H\<close>). The line is taken to be wide enough.\<close>

datatype smode = Ground | SeenEsc | SeenCsi bytes

record screen =
  sc_line :: bytes
  sc_col :: nat
  sc_mode :: smode

definition sc_put :: "byte \<Rightarrow> screen \<Rightarrow> screen" where
  "sc_put b sc = sc\<lparr>sc_line := take (sc_col sc) (sc_line sc @ replicate (sc_col sc - length (sc_line sc)) 32) @ [b] @ drop (sc_col sc + 1) (sc_line sc), sc_col := sc_col sc + 1\<rparr>"

definition csi_num :: "bytes \<Rightarrow> nat" where
  "csi_num ds = foldl (\<lambda>n d. n * 10 + (unat d - 48)) 0 ds"

definition sc_csi :: "bytes \<Rightarrow> byte \<Rightarrow> screen \<Rightarrow> screen" where
  "sc_csi ds b sc =
     (if b = 75 then sc\<lparr>sc_line := take (sc_col sc) (sc_line sc)\<rparr>
      else if b = 68 then sc\<lparr>sc_col := sc_col sc - csi_num ds\<rparr>
      else if b = 67 then sc\<lparr>sc_col := sc_col sc + csi_num ds\<rparr>
      else if b = 74 then sc\<lparr>sc_line := []\<rparr>
      else if b = 72 then sc\<lparr>sc_col := 0, sc_line := []\<rparr>
      else sc)"

definition sc_byte :: "byte \<Rightarrow> screen \<Rightarrow> screen" where
  "sc_byte b sc =
     (case sc_mode sc of
        Ground \<Rightarrow>
          if b = 13 then sc\<lparr>sc_col := 0\<rparr> else if b = 10 then sc\<lparr>sc_line := []\<rparr> else if b = 27 then sc\<lparr>sc_mode := SeenEsc\<rparr>
          else if 32 \<le> b then sc_put b sc else sc
      | SeenEsc \<Rightarrow> sc\<lparr>sc_mode := if b = 91 then SeenCsi [] else Ground\<rparr>
      | SeenCsi ds \<Rightarrow> if 48 \<le> b \<and> b \<le> 57 then sc\<lparr>sc_mode := SeenCsi (ds @ [b])\<rparr> else (sc_csi ds b sc)\<lparr>sc_mode := Ground\<rparr>)"

definition screen_after :: "bytes \<Rightarrow> screen \<Rightarrow> screen" where
  "screen_after bs sc = fold sc_byte bs sc"

definition screen_of :: "bytes \<Rightarrow> screen" where
  "screen_of bs = screen_after bs \<lparr>sc_line = [], sc_col = 0, sc_mode = Ground\<rparr>"

definition text_byte :: "byte \<Rightarrow> bool" where
  "text_byte b \<longleftrightarrow> 32 \<le> b \<and> b < 127"

definition shows_line :: "bytes \<Rightarrow> nat \<Rightarrow> screen" where
  "shows_line line col = \<lparr>sc_line = line, sc_col = col, sc_mode = Ground\<rparr>"

lemma after_append [simp]: "screen_after (xs @ ys) sc = screen_after ys (screen_after xs sc)"
  by (simp add: screen_after_def)

lemma after_simps [simp]: "screen_after [] sc = sc" "screen_after (b # bs) sc = screen_after bs (sc_byte b sc)"
  by (simp_all add: screen_after_def)

lemma screen_append: "screen_of (xs @ ys) = screen_after ys (screen_of xs)"
  by (simp add: screen_of_def)

lemma text_byte_put: "text_byte b \<Longrightarrow> sc_byte b (shows_line line (length line)) = shows_line (line @ [b]) (length line + 1)"
  by (auto simp: text_byte_def sc_byte_def sc_put_def shows_line_def)

lemma after_text: "\<forall>b \<in> set bs. text_byte b \<Longrightarrow> screen_after bs (shows_line line (length line)) = shows_line (line @ bs) (length line + length bs)"
proof (induction bs arbitrary: line)
  case (Cons b bs)
  then show ?case using Cons.IH [of "line @ [b]"] by (simp add: text_byte_put)
qed simp

lemma after_plain: "27 \<notin> set bs \<Longrightarrow> sc_mode sc = Ground \<Longrightarrow> sc_mode (screen_after bs sc) = Ground"
proof (induction bs arbitrary: sc)
  case (Cons b bs)
  then show ?case by (simp add: sc_byte_def sc_put_def)
qed simp

lemma after_crlf: "sc_mode sc = Ground \<Longrightarrow> screen_after crlf sc = shows_line [] 0"
  by (simp add: crlf_def sc_byte_def shows_line_def)

lemma prompt_text: "\<forall>b \<in> set shell_prompt. text_byte b" "length shell_prompt = 3"
  by (simp_all add: shell_prompt_def str_bytes_def text_byte_def)

lemma after_prompt: "screen_after shell_prompt (shows_line [] 0) = shows_line shell_prompt 3"
  using after_text [of shell_prompt "[]"] prompt_text by simp

lemma after_cr_erase: "sc_mode sc = Ground \<Longrightarrow> screen_after ([13] @ csi ''K'') sc = shows_line [] 0"
  by (simp add: csi_def str_bytes_def sc_byte_def sc_csi_def shows_line_def)

text \<open>A number in a control sequence.\<close>

lemma csi_num_append: "csi_num (ds @ [d]) = csi_num ds * 10 + (unat d - 48)"
  by (simp add: csi_num_def)

lemma digit_byte: "d < 10 \<Longrightarrow> 48 \<le> (of_nat (of_char (char_of (48 + d) :: char)) :: byte) \<and> (of_nat (of_char (char_of (48 + d) :: char)) :: byte) \<le> 57 \<and>
    unat (of_nat (of_char (char_of (48 + d) :: char)) :: byte) = 48 + d"
proof -
  assume d: "d < 10"
  then have u: "unat (of_nat (48 + d) :: byte) = 48 + d" by (simp only: unat_of_nat) (simp add: take_bit_nat_eq_self)
  have "of_char (char_of (48 + d) :: char) = 48 + d" using d by simp
  with u d show ?thesis by (simp add: word_le_nat_alt del: of_nat_add of_nat_numeral)
qed

lemma csi_num_Format: "csi_num (str_bytes (FormatUint n)) = n \<and> (\<forall>b \<in> set (str_bytes (FormatUint n)). 48 \<le> b \<and> b \<le> 57)"
proof (induction n rule: FormatUint.induct)
  case (1 n)
  show ?case
  proof (cases "n < 10")
    case True
    then have f: "FormatUint n = [char_of (48 + n)]" by (subst FormatUint.simps) simp
    show ?thesis using digit_byte [OF True] unfolding f str_bytes_def by (simp add: csi_num_def)
  next
    case False
    have f: "FormatUint n = FormatUint (n div 10) @ [char_of (48 + n mod 10)]" using False by (subst FormatUint.simps) simp
    show ?thesis using 1 [OF False] digit_byte [of "n mod 10"] unfolding f str_bytes_def map_append list.map csi_num_append by (simp del: of_char_of)
  qed
qed

lemma after_digits:
  "\<forall>b \<in> set ds. 48 \<le> b \<and> b \<le> 57 \<Longrightarrow> sc_mode sc = SeenCsi es \<Longrightarrow> screen_after ds sc = sc\<lparr>sc_mode := SeenCsi (es @ ds)\<rparr>"
proof (induction ds arbitrary: sc es)
  case (Cons d ds)
  then show ?case by (simp add: sc_byte_def)
qed simp

lemma after_left: "screen_after (csi (FormatUint n @ ''D'')) (shows_line line col) = shows_line line (col - n)"
  using after_digits [of "str_bytes (FormatUint n)" "(shows_line line col)\<lparr>sc_mode := SeenCsi []\<rparr>" "[]"] csi_num_Format [of n]
  by (simp add: csi_def str_bytes_def sc_byte_def shows_line_def sc_csi_def)

lemma after_arrows: "screen_after (csi ''1C'') (shows_line line col) = shows_line line (col + 1)"
  "screen_after (csi ''1D'') (shows_line line col) = shows_line line (col - 1)"
  by (simp_all add: csi_def str_bytes_def sc_byte_def shows_line_def sc_csi_def csi_num_def)

section \<open>The invariant of the line editor\<close>

text \<open>Between two events: the cursor is inside the line, the position in the history is valid, lines hold printable bytes only, and the terminal shows the prompt and the line with its
  cursor where the next byte goes.\<close>

definition displayed :: "'w shell \<Rightarrow> bool" where
  "displayed s \<longleftrightarrow> sh_cursor s \<le> length (sh_buf s) \<and> -1 \<le> sh_histIdx s \<and> sh_histIdx s < int (length (sh_history s)) \<and>
     (\<forall>b \<in> set (sh_buf s). text_byte b) \<and> (\<forall>h \<in> set (sh_history s). \<forall>b \<in> set h. text_byte b) \<and>
     screen_of (sh_out s) = shows_line (shell_prompt @ sh_buf s) (3 + sh_cursor s)"

text \<open>A client whose answers and messages have no control sequences in them and whose calls do not panic.\<close>

definition plain_console :: "(error \<Rightarrow> string) \<Rightarrow> 'w console \<Rightarrow> bool" where
  "plain_console errText cl \<longleftrightarrow>
     (\<forall>q w r w'. cl_Execute cl q w = Some (r, w') \<longrightarrow> r \<noteq> Panic \<and> 27 \<notin> set (shown errText r)) \<and>
     (\<forall>reconnect w t w'. cl_reconnect cl = Some reconnect \<longrightarrow> reconnect w = Some (t, w') \<longrightarrow> 27 \<notin> set t)"

lemma emit_simps [simp]:
  "sh_world (emit bs s) = sh_world s" "sh_history (emit bs s) = sh_history s" "sh_histIdx (emit bs s) = sh_histIdx s" "sh_buf (emit bs s) = sh_buf s"
  "sh_cursor (emit bs s) = sh_cursor s" "sh_mode (emit bs s) = sh_mode s" "sh_out (emit bs s) = sh_out s @ bs"
  by (simp_all add: emit_def)

lemma redraw_simps [simp]:
  "sh_world (redraw s) = sh_world s" "sh_history (redraw s) = sh_history s" "sh_histIdx (redraw s) = sh_histIdx s" "sh_buf (redraw s) = sh_buf s"
  "sh_cursor (redraw s) = sh_cursor s" "sh_mode (redraw s) = sh_mode s"
  by (simp_all add: redraw_def Let_def)

lemma redraw_screen:
  assumes "sc_mode (screen_of (sh_out s)) = Ground" and "\<forall>b \<in> set (sh_buf s). text_byte b" and "sh_cursor s \<le> length (sh_buf s)"
  shows "screen_of (sh_out (redraw s)) = shows_line (shell_prompt @ sh_buf s) (3 + sh_cursor s)"
proof -
  have "screen_after ([13] @ csi ''K'') (screen_of (sh_out s)) = shows_line [] 0" using after_cr_erase assms(1) by blast
  then have "screen_after (([13] @ csi ''K'') @ shell_prompt @ sh_buf s) (screen_of (sh_out s)) = shows_line (shell_prompt @ sh_buf s) (3 + length (sh_buf s))"
    unfolding after_append [of "[13] @ csi ''K''"] using after_text [of "shell_prompt @ sh_buf s" "[]"] prompt_text assms(2) by auto
  then show ?thesis using assms(3) after_left [of "length (sh_buf s) - sh_cursor s" "shell_prompt @ sh_buf s" "3 + length (sh_buf s)"]
    by (auto simp: redraw_def Let_def screen_append)
qed

lemma shows_line_Ground [simp]: "sc_mode (shows_line line col) = Ground"
  by (simp add: shows_line_def)

lemma redraw_displayed:
  assumes "sc_mode (screen_of (sh_out s)) = Ground" and "sh_cursor s \<le> length (sh_buf s)" and "-1 \<le> sh_histIdx s" and "sh_histIdx s < int (length (sh_history s))"
    and "\<forall>b \<in> set (sh_buf s). text_byte b" and "\<forall>h \<in> set (sh_history s). \<forall>b \<in> set h. text_byte b"
  shows "displayed (redraw s)"
  using assms redraw_screen [of s] by (simp add: displayed_def)

lemma insert_buf:
  assumes "sh_cursor s \<le> length (sh_buf s)"
  shows "insert_key b s = (Ok (), redraw (s\<lparr>sh_buf := take (sh_cursor s) (sh_buf s) @ b # drop (sh_cursor s) (sh_buf s), sh_cursor := sh_cursor s + 1\<rparr>))"
proof -
  let ?k = "sh_cursor s" and ?b = "sh_buf s"
  have c: "copy_at (?b @ [0]) (?k + 1) (drop ?k ?b @ [0]) = Ok (take (?k + 1) (?b @ [0]) @ drop ?k ?b)"
    using assms by (simp add: copy_at_def go_from_def go_copy_def)
  have t: "take (?k + 1) (?b @ [0]) = take ?k ?b @ [(?b @ [0]) ! ?k]" using assms by (subst take_Suc_conv_app_nth [symmetric, of ?k "?b @ [0]", simplified]) simp_all
  have "set_at (take (?k + 1) (?b @ [0]) @ drop ?k ?b) ?k b = Ok (take ?k ?b @ b # drop ?k ?b)"
    unfolding t using assms by (simp add: set_at_def list_update_append min_absorb2)
  then show ?thesis using c assms by (simp add: insert_key_def Let_def go_from_def)
qed

lemma backspace_buf:
  assumes "sh_cursor s \<le> length (sh_buf s)" and "0 < sh_cursor s"
  shows "backspace_key s = (Ok (), redraw (s\<lparr>sh_buf := take (sh_cursor s - 1) (sh_buf s) @ drop (sh_cursor s) (sh_buf s), sh_cursor := sh_cursor s - 1\<rparr>))"
  using assms by (simp add: backspace_key_def go_slice_def go_from_def)

text \<open>Every key of the editor keeps the invariant and panics nowhere.\<close>

definition keeps :: "unit res \<times> 'w shell \<Rightarrow> bool" where
  "keeps x \<longleftrightarrow> fst x = Ok () \<and> (sh_mode (snd x) = Exited \<or> displayed (snd x))"

lemma keeps_redraw:
  assumes "displayed s" and "sh_out s' = sh_out s" and "sh_history s' = sh_history s" and "sh_cursor s' \<le> length (sh_buf s')" and "-1 \<le> sh_histIdx s'"
    and "sh_histIdx s' < int (length (sh_history s))" and "\<forall>b \<in> set (sh_buf s'). text_byte b"
  shows "keeps (Ok (), redraw s')"
  using assms redraw_displayed [of s'] by (simp add: keeps_def displayed_def)

lemma displayedD:
  assumes "displayed s"
  shows "sh_cursor s \<le> length (sh_buf s)" "-1 \<le> sh_histIdx s" "sh_histIdx s < int (length (sh_history s))" "\<And>b. b \<in> set (sh_buf s) \<Longrightarrow> text_byte b"
    "\<And>h b. h \<in> set (sh_history s) \<Longrightarrow> b \<in> set h \<Longrightarrow> text_byte b"
  using assms by (auto simp: displayed_def)

lemma insert_keeps: "displayed s \<Longrightarrow> text_byte b \<Longrightarrow> keeps (insert_key b s)"
  unfolding insert_buf [OF displayedD(1)]
  by (rule keeps_redraw [of s]) (auto dest: displayedD in_set_takeD in_set_dropD)

lemma backspace_keeps: "displayed s \<Longrightarrow> keeps (backspace_key s)"
proof (cases "0 < sh_cursor s")
  case True
  assume d: "displayed s"
  show ?thesis unfolding backspace_buf [OF displayedD(1) [OF d] True]
    by (rule keeps_redraw [OF d]) (use displayedD [OF d] in \<open>auto dest: in_set_takeD in_set_dropD\<close>)
qed (simp add: keeps_def backspace_key_def)

lemma recall_keeps:
  assumes "displayed s" and "0 \<le> i" and "i < int (length (sh_history s))"
  shows "keeps (recall (s\<lparr>sh_histIdx := i\<rparr>))"
proof -
  let ?buf = "sh_history s ! nat i"
  have "?buf \<in> set (sh_history s)" using assms(2,3) by simp
  then have "\<forall>b \<in> set ?buf. text_byte b" using displayedD(5) [OF assms(1)] by blast
  then have "keeps (Ok (), redraw (s\<lparr>sh_histIdx := i, sh_buf := ?buf, sh_cursor := length ?buf\<rparr>))"
    by - (rule keeps_redraw [OF assms(1)], use assms in simp_all)
  then show ?thesis using assms by (simp add: recall_def Let_def)
qed

lemma up_keeps: "displayed s \<Longrightarrow> keeps (up_key s)"
proof -
  assume d: "displayed s"
  consider "sh_history s = []" | "sh_history s \<noteq> []" "sh_histIdx s = -1" | "sh_history s \<noteq> []" "sh_histIdx s > 0" | "sh_history s \<noteq> []" "sh_histIdx s = 0"
    using d by (fastforce simp: displayed_def)
  then show ?thesis
  proof cases
    case 2
    then show ?thesis using recall_keeps [OF d, of "int (length (sh_history s)) - 1"] by (simp add: up_key_def Suc_le_eq)
  next
    case 3
    then show ?thesis using recall_keeps [OF d, of "sh_histIdx s - 1"] d by (simp add: up_key_def displayed_def)
  next
    case 4
    have "s\<lparr>sh_histIdx := 0\<rparr> = s" using 4(2) by (cases s) simp
    from recall_keeps [OF d, of 0, unfolded this] show ?thesis using 4 by (simp add: up_key_def)
  qed (simp add: keeps_def up_key_def d)
qed

lemma down_keeps: "displayed s \<Longrightarrow> keeps (down_key s)"
proof -
  assume d: "displayed s"
  consider "sh_histIdx s = -1" | "sh_histIdx s \<noteq> -1" "sh_histIdx s + 1 \<ge> int (length (sh_history s))" | "sh_histIdx s \<noteq> -1" "sh_histIdx s + 1 < int (length (sh_history s))"
    by linarith
  then show ?thesis
  proof cases
    case 1
    then show ?thesis by (simp add: keeps_def down_key_def d)
  next
    case 2
    then show ?thesis using keeps_redraw [OF d, of "s\<lparr>sh_histIdx := -1, sh_buf := [], sh_cursor := 0\<rparr>"] by (simp add: down_key_def Let_def)
  next
    case 3
    then show ?thesis using recall_keeps [OF d, of "sh_histIdx s + 1"] d by (simp add: down_key_def Let_def displayed_def)
  qed
qed

lemma arrow_keeps: "displayed s \<Longrightarrow> keeps (arrow_key b s)"
proof -
  assume d: "displayed s"
  then have e: "displayed (s\<lparr>sh_mode := Editing\<rparr>)" by (simp add: displayed_def)
  have "keeps (right_key (s\<lparr>sh_mode := Editing\<rparr>))" "keeps (left_key (s\<lparr>sh_mode := Editing\<rparr>))"
    using e by (auto simp: keeps_def right_key_def left_key_def displayed_def screen_append after_arrows)
  then show ?thesis using up_keeps [OF e] down_keeps [OF e] e by (simp add: arrow_key_def Let_def keeps_def)
qed

text \<open>After a line of output without control sequences, the prompt starts a fresh line.\<close>

lemma fresh_prompt:
  assumes "sc_mode sc = Ground" and "27 \<notin> set text"
  shows "screen_after (text @ crlf @ shell_prompt) sc = shows_line shell_prompt 3"
  using after_crlf [OF after_plain [OF assms(2,1)]] after_prompt by simp

lemma after_erase_Ground: "sc_mode sc = Ground \<Longrightarrow> sc_mode (screen_after (csi ''K'') sc) = Ground"
  by (simp add: csi_def str_bytes_def sc_byte_def sc_csi_def)

lemma lost_text_plain: "27 \<notin> set lost_text"
  by (simp add: lost_text_def str_bytes_def)

lemma shown_line: "r \<noteq> Panic \<Longrightarrow> \<exists>text. shown errText r = text @ crlf"
  by (cases r) (auto simp: shown_def)

lemma plain_reconnect: "plain_console errText cl \<Longrightarrow> cl_reconnect cl = Some reconnect \<Longrightarrow> reconnect w = Some (t, w') \<Longrightarrow> 27 \<notin> set t"
  unfolding plain_console_def by blast

lemma executeRetry_plain:
  assumes "plain_console errText cl" and "executeRetry cl (csi ''K'' @ lost_text @ crlf) q w = Some (r, text, w')"
  shows "r \<noteq> Panic \<and> 27 \<notin> set (shown errText r) \<and> (\<forall>sc. sc_mode sc = Ground \<longrightarrow> sc_mode (screen_after text sc) = Ground)"
proof -
  obtain r1 w1 where x: "cl_Execute cl q w = Some (r1, w1)" using assms(2) by (auto simp: executeRetry_def bind_eq_Some_conv)
  consider "r = r1" "text = []" | reconnect t w2 where "cl_reconnect cl = Some reconnect" "reconnect w1 = Some (t, w2)" "cl_Execute cl q w2 = Some (r, w')"
      "text = csi ''K'' @ lost_text @ crlf @ t"
    using assms(2) x by (auto simp: executeRetry_def bind_eq_Some_conv split: res.splits option.splits if_splits)
  then show ?thesis
  proof cases
    case 1
    then show ?thesis using assms(1) x unfolding plain_console_def by auto
  next
    case 2
    have t: "27 \<notin> set (lost_text @ crlf @ t)" using plain_reconnect [OF assms(1) 2(1,2)] lost_text_plain by (simp add: crlf_def)
    have "sc_mode (screen_after text sc) = Ground" if "sc_mode sc = Ground" for sc
      using after_plain [OF t after_erase_Ground [OF that]] 2(4) by simp
    then show ?thesis using assms(1) 2(3) unfolding plain_console_def by blast
  qed
qed

lemma enter_keeps:
  assumes "displayed s" and "plain_console errText cl" and "enter_key errText cl s = Some x"
  shows "keeps x"
proof -
  let ?line = "sh_buf s" and ?s1 = "emit crlf s"
  have g: "screen_of (sh_out ?s1) = shows_line [] 0" using assms(1) by (simp add: displayed_def screen_append after_crlf)
  consider "?line = str_bytes ''exit'' \<or> ?line = str_bytes ''quit''" | "?line = str_bytes ''clear''"
    | "?line \<noteq> str_bytes ''exit''" "?line \<noteq> str_bytes ''quit''" "?line \<noteq> str_bytes ''clear''" by blast
  then show ?thesis
  proof cases
    case 1
    then show ?thesis using assms(3) by (auto simp: enter_key_def Let_def keeps_def leave_def)
  next
    case 2
    have "screen_after (csi ''2J'' @ csi ''H'') (shows_line [] 0) = shows_line [] 0" by (simp add: csi_def str_bytes_def sc_byte_def sc_csi_def shows_line_def)
    moreover have "str_bytes ''clear'' \<noteq> str_bytes ''exit''" "str_bytes ''clear'' \<noteq> str_bytes ''quit''" by (simp_all add: str_bytes_def)
    ultimately show ?thesis using 2 assms(1,3) g after_prompt by (auto simp: enter_key_def Let_def keeps_def displayed_def screen_append)
  next
    case 3
    show ?thesis
    proof (cases "?line = []")
      case True
      then show ?thesis using 3 assms(1,3) g after_prompt by (auto simp: enter_key_def Let_def keeps_def displayed_def screen_append)
    next
      case False
      then obtain r msg w where x: "executeRetry cl (csi ''K'' @ lost_text @ crlf) ?line (sh_world s) = Some (r, msg, w)"
        using 3 assms(3) by (auto simp: enter_key_def Let_def bind_eq_Some_conv)
      note p = executeRetry_plain [OF assms(2) x]
      obtain t where t: "shown errText r = t @ crlf" using shown_line p by blast
      have "sc_mode (screen_of (sh_out ?s1 @ msg)) = Ground" using p g by (simp add: screen_append)
      then have "screen_of (sh_out ?s1 @ msg @ shown errText r @ shell_prompt) = shows_line shell_prompt 3"
        using fresh_prompt [of "screen_of (sh_out ?s1 @ msg)" t] p t by (simp add: screen_append)
      then show ?thesis using 3 x p False assms(1,3) by (auto simp: enter_key_def Let_def keeps_def displayed_def)
    qed
  qed
qed

lemma disconnect_keeps:
  assumes "displayed s" and "plain_console errText cl" and "handleDisconnect cl s = Some s'"
  shows "displayed s' \<and> sh_mode s' = sh_mode s"
proof (cases "cl_reconnect cl")
  case None
  then show ?thesis using assms by (simp add: handleDisconnect_def)
next
  case (Some reconnect)
  let ?s1 = "emit (crlf @ csi ''K'' @ lost_text @ crlf) s"
  obtain t w where x: "reconnect (sh_world s) = Some (t, w)" "s' = redraw (emit t (?s1\<lparr>sh_world := w\<rparr>))"
    using assms(3) Some by (auto simp: handleDisconnect_def Let_def)
  have t: "27 \<notin> set (lost_text @ crlf @ t)" using plain_reconnect [OF assms(2) Some x(1)] lost_text_plain by (simp add: crlf_def)
  have "sc_mode (screen_of (sh_out s)) = Ground" using assms(1) by (simp add: displayed_def)
  from after_plain [OF t after_erase_Ground, of "screen_after crlf (screen_of (sh_out s))"] after_crlf [OF this]
  have "sc_mode (screen_of (sh_out (emit t (?s1\<lparr>sh_world := w\<rparr>)))) = Ground" by (simp add: screen_append)
  then show ?thesis unfolding x(2) using displayedD [OF assms(1)] by (auto intro!: redraw_displayed)
qed

lemma event_keeps:
  assumes "sh_mode s = Exited \<or> displayed s" and "plain_console errText cl" and "shell_event errText cl ev s = Some x"
  shows "keeps x"
proof (cases "sh_mode s = Exited")
  case True
  then show ?thesis using assms(3) by (cases ev) (auto simp: shell_event_def keeps_def)
next
  case False
  then have d: "displayed s" using assms(1) by blast
  have c: "displayed (s\<lparr>sh_world := w\<rparr>)" "displayed (s\<lparr>sh_mode := m\<rparr>)" for w m using d by (simp_all add: displayed_def)
  have k: "keeps (Ok (), leave cl (emit crlf s))" "keeps (Ok (), s\<lparr>sh_world := w\<rparr>)" "keeps (Ok (), s\<lparr>sh_mode := m\<rparr>)" "keeps (Ok (), s)" for w m
    using c d by (simp_all add: keeps_def leave_def)
  have e: "keeps y" if "edit_key errText cl b s = Some y" for b y
    using that enter_keeps [OF d assms(2)] backspace_keeps [OF d] insert_keeps [OF d, of b] k unfolding edit_key_def text_byte_def
    by (simp split: if_splits) blast+
  show ?thesis
  proof (cases ev)
    case (Key b)
    then show ?thesis using assms(3) e k arrow_keeps [OF d] False by (cases "sh_mode s") (simp_all add: shell_event_def, blast+)
  next
    case ReadError
    then show ?thesis using assms(3) k arrow_keeps [OF d] False by (cases "sh_mode s") (simp_all add: shell_event_def, blast+)
  next
    case Lost
    then show ?thesis using assms(3) k disconnect_keeps [OF d assms(2)] by (auto simp: shell_event_def keeps_def split: if_splits)
  next
    case (World w)
    then show ?thesis using assms(3) k by (simp add: shell_event_def) blast
  qed
qed

lemma Run_loop_keeps:
  assumes "sh_mode s = Exited \<or> displayed s" and "plain_console errText cl" and "Run_loop errText cl evs s = Some x"
  shows "keeps x"
  using assms(1,3)
proof (induction evs arbitrary: s)
  case Nil
  then show ?case by (auto simp: keeps_def)
next
  case (Cons ev evs)
  obtain y where y: "shell_event errText cl ev s = Some y" using Cons.prems(2) by (auto simp: obinds_def bind_eq_Some_conv)
  obtain s1 where s1: "y = (Ok (), s1)" "sh_mode s1 = Exited \<or> displayed s1" using event_keeps [OF Cons.prems(1) assms(2) y] by (cases y) (auto simp: keeps_def)
  show ?case using Cons.IH [OF s1(2)] Cons.prems(2) y s1(1) by (simp add: obinds_def obind_def)
qed

text \<open>If the calls of the client return, so does every event.\<close>

definition returns :: "'w console \<Rightarrow> bool" where
  "returns cl \<longleftrightarrow> (\<forall>q w. cl_Execute cl q w \<noteq> None) \<and> (\<forall>reconnect w. cl_reconnect cl = Some reconnect \<longrightarrow> reconnect w \<noteq> None)"

lemma executeRetry_once:
  "cl_Execute cl q w = Some (r, w1) \<Longrightarrow> \<not> (\<exists>x reconnect. r = Err x \<and> cl_reconnect cl = Some reconnect \<and> \<not> cl_IsConnected cl w1) \<Longrightarrow>
    executeRetry cl msg q w = Some (r, [], w1)"
  by (auto simp: executeRetry_def split: res.splits option.splits)

lemma executeRetry_twice:
  "cl_Execute cl q w = Some (Err x, w1) \<Longrightarrow> cl_reconnect cl = Some reconnect \<Longrightarrow> \<not> cl_IsConnected cl w1 \<Longrightarrow>
    executeRetry cl msg q w = Option.bind (reconnect w1) (\<lambda>(t, w). map_option (\<lambda>(r, w). (r, msg @ t, w)) (cl_Execute cl q w))"
  by (simp add: executeRetry_def)

lemma executeRetry_returns:
  assumes "returns cl"
  shows "executeRetry cl msg q w \<noteq> None"
proof -
  obtain r w1 where x: "cl_Execute cl q w = Some (r, w1)" using assms unfolding returns_def by fastforce
  show ?thesis
  proof (cases "\<exists>x reconnect. r = Err x \<and> cl_reconnect cl = Some reconnect \<and> \<not> cl_IsConnected cl w1")
    case True
    then obtain x' reconnect where e: "r = Err x'" "cl_reconnect cl = Some reconnect" "\<not> cl_IsConnected cl w1" by blast
    obtain t w2 where t: "reconnect w1 = Some (t, w2)" using assms e(2) unfolding returns_def by fastforce
    have "cl_Execute cl q w2 \<noteq> None" using assms unfolding returns_def by blast
    then show ?thesis using executeRetry_twice [OF x [unfolded e(1)] e(2,3), of msg] t by auto
  qed (use executeRetry_once [OF x] in blast)
qed

lemma event_returns: "returns cl \<Longrightarrow> shell_event errText cl ev s \<noteq> None"
proof -
  assume r: "returns cl"
  have h: "handleDisconnect cl s \<noteq> None" using r by (auto simp: handleDisconnect_def returns_def Let_def split: option.splits)
  have "enter_key errText cl s \<noteq> None" using executeRetry_returns [OF r, of "csi ''K'' @ lost_text @ crlf" "sh_buf s" "sh_world s"]
    by (auto simp: enter_key_def Let_def split: prod.splits)
  then have "edit_key errText cl b s \<noteq> None" for b by (simp add: edit_key_def)
  then show ?thesis using h by (cases ev; cases "sh_mode s") (auto simp: shell_event_def)
qed

lemma Run_loop_returns: "returns cl \<Longrightarrow> Run_loop errText cl evs s \<noteq> None"
proof (induction evs arbitrary: s)
  case (Cons ev evs)
  then obtain r s1 where "shell_event errText cl ev s = Some (r, s1)" using event_returns [of cl errText ev s] by fastforce
  then show ?case using Cons by (cases r) (simp_all add: obinds_def obind_def)
qed simp

section \<open>What is executed\<close>

text \<open>The statements of a list one after the other, with what is printed while reconnecting.\<close>

fun executes :: "'w console \<Rightarrow> bytes \<Rightarrow> bytes list \<Rightarrow> 'w \<Rightarrow> ((bytes res \<times> bytes) list \<times> 'w) option" where
  "executes cl msg [] w = Some ([], w)"
| "executes cl msg (q # qs) w =
     (case executeRetry cl msg q w of
        None \<Rightarrow> None
      | Some (r, t, w) \<Rightarrow> if r = Panic then None else map_option (\<lambda>(rs, w). ((r, t) # rs, w)) (executes cl msg qs w))"

definition line_ok :: "bytes \<Rightarrow> bool" where
  "line_ok l \<longleftrightarrow> l \<noteq> [] \<and> (\<forall>b \<in> set l. text_byte b) \<and> l \<noteq> str_bytes ''exit'' \<and> l \<noteq> str_bytes ''quit'' \<and> l \<noteq> str_bytes ''clear''"

definition typed :: "byte \<Rightarrow> bytes list \<Rightarrow> bytes" where
  "typed nl ls = concat (map (\<lambda>l. l @ [nl]) ls)"

text \<open>What is printed on the way does not change what is executed.\<close>

lemma executeRetry_msg:
  assumes "executeRetry cl msg q w = Some (r, t, w')"
  shows "\<exists>t'. executeRetry cl msg' q w = Some (r, t', w')"
proof -
  obtain r1 w1 where x: "cl_Execute cl q w = Some (r1, w1)" using assms by (auto simp: executeRetry_def bind_eq_Some_conv)
  show ?thesis
  proof (cases "\<exists>x reconnect. r1 = Err x \<and> cl_reconnect cl = Some reconnect \<and> \<not> cl_IsConnected cl w1")
    case True
    then obtain x' reconnect where e: "r1 = Err x'" "cl_reconnect cl = Some reconnect" "\<not> cl_IsConnected cl w1" by blast
    show ?thesis using assms executeRetry_twice [OF x [unfolded e(1)] e(2,3)] by (auto simp: bind_eq_Some_conv)
  qed (use executeRetry_once [OF x] assms in auto)
qed

lemma Run_loop_append: "Run_loop errText cl (xs @ ys) s = obinds (Run_loop errText cl xs s) (\<lambda>_. Run_loop errText cl ys)"
proof (induction xs arbitrary: s)
  case (Cons x xs)
  show ?case
  proof (cases "shell_event errText cl x s")
    case (Some y)
    then show ?thesis using Cons by (cases y; cases "fst y") (simp_all add: obinds_def obind_def)
  qed (simp add: obinds_def)
qed (simp add: obinds_def obind_def)

lemma type_text:
  assumes "\<forall>b \<in> set l. text_byte b" and "sh_mode s = Editing" and "sh_cursor s = length (sh_buf s)"
  shows "\<exists>s'. Run_loop errText cl (map Key l) s = Some (Ok (), s') \<and> sh_mode s' = Editing \<and> sh_buf s' = sh_buf s @ l \<and> sh_cursor s' = length (sh_buf s @ l) \<and>
    sh_world s' = sh_world s \<and> sh_history s' = sh_history s"
  using assms
proof (induction l arbitrary: s)
  case (Cons b l)
  let ?s1 = "redraw (s\<lparr>sh_buf := sh_buf s @ [b], sh_cursor := sh_cursor s + 1\<rparr>)"
  have b: "text_byte b" using Cons.prems(1) by simp
  then have n: "b \<noteq> 3" "b \<noteq> 4" "b \<noteq> 13" "b \<noteq> 10" "b \<noteq> 127" "b \<noteq> 8" "b \<noteq> 27" by (auto simp: text_byte_def)
  have "shell_event errText cl (Key b) s = Some (Ok (), ?s1)"
    using Cons.prems(2,3) b n insert_buf [of s b] by (simp add: shell_event_def edit_key_def text_byte_def)
  then show ?case using Cons.IH [of ?s1] Cons.prems by (simp add: obinds_def obind_def)
qed simp

lemma enter_line:
  assumes "line_ok (sh_buf s)" and "sh_mode s = Editing" and "executeRetry cl msg (sh_buf s) (sh_world s) = Some (r, t, w)" and "r \<noteq> Panic"
  shows "\<exists>s'. shell_event errText cl (Key 13) s = Some (Ok (), s') \<and> sh_mode s' = Editing \<and> sh_buf s' = [] \<and> sh_cursor s' = 0 \<and>
    sh_world s' = w \<and> sh_history s' = sh_history s @ [sh_buf s]"
  using executeRetry_msg [OF assms(3), of "csi ''K'' @ lost_text @ crlf"] assms(1,2,4)
  by (auto simp: shell_event_def edit_key_def enter_key_def Let_def line_ok_def)

lemma type_lines:
  assumes "\<forall>l \<in> set ls. line_ok l" and "executes cl msg ls (sh_world s) = Some (rs, w)" and "sh_mode s = Editing" and "sh_buf s = []" and "sh_cursor s = 0"
  shows "\<exists>s'. Run_loop errText cl (map Key (typed 13 ls)) s = Some (Ok (), s') \<and> sh_mode s' = Editing \<and> sh_buf s' = [] \<and> sh_cursor s' = 0 \<and>
    sh_world s' = w \<and> sh_history s' = sh_history s @ ls"
  using assms
proof (induction ls arbitrary: s rs)
  case (Cons l ls)
  obtain r t w1 where x: "executeRetry cl msg l (sh_world s) = Some (r, t, w1)" "r \<noteq> Panic" using Cons.prems(2) by (auto split: option.splits if_splits)
  then obtain rs' where rs: "executes cl msg ls w1 = Some (rs', w)" using Cons.prems(2) by auto
  have ok: "line_ok l" "\<forall>b \<in> set l. text_byte b" using Cons.prems(1) by (simp_all add: line_ok_def)
  obtain s1 where s1: "Run_loop errText cl (map Key l) s = Some (Ok (), s1)" "sh_mode s1 = Editing" "sh_buf s1 = l" "sh_world s1 = sh_world s" "sh_history s1 = sh_history s"
    using type_text [OF ok(2), of s errText cl] Cons.prems(3-5) by auto
  obtain s2 where s2: "shell_event errText cl (Key 13) s1 = Some (Ok (), s2)" "sh_mode s2 = Editing" "sh_buf s2 = []" "sh_cursor s2 = 0" "sh_world s2 = w1"
    "sh_history s2 = sh_history s @ [l]"
    using enter_line [of s1 cl msg r t w1 errText] s1 ok(1) x by auto
  have "Run_loop errText cl (map Key (l @ [13])) s = Some (Ok (), s2)" using s1(1) s2(1) by (simp add: Run_loop_append obinds_def obind_def)
  then have "Run_loop errText cl (map Key (typed 13 (l # ls))) s = Run_loop errText cl (map Key (typed 13 ls)) s2"
    using Run_loop_append [of errText cl "map Key (l @ [13])" "map Key (typed 13 ls)" s] by (simp add: typed_def obinds_def obind_def)
  then show ?case using Cons.IH [of s2 rs'] Cons.prems(1) rs s2 by simp
qed (simp add: typed_def)

lemma simple_text: "10 \<notin> set l \<Longrightarrow> simple_loop errText cl (l @ 10 # input) buf out w = simple_loop errText cl (10 # input) (buf @ l) out w"
  by (induction l arbitrary: buf) auto

lemma simple_lines:
  assumes "\<forall>l \<in> set ls. line_ok l" and "executes cl (lost_text @ [10]) ls w = Some (rs, w')"
  shows "simple_loop errText cl (typed 10 ls @ input) [] out w =
    simple_loop errText cl input [] (out @ concat (map (\<lambda>(r, t). t @ shown_simple errText r @ shell_prompt) rs)) w'"
  using assms
proof (induction ls arbitrary: w rs out)
  case (Cons l ls)
  obtain r t w1 where x: "executeRetry cl (lost_text @ [10]) l w = Some (r, t, w1)" "r \<noteq> Panic" using Cons.prems(2) by (auto split: option.splits if_splits)
  then obtain rs' where rs: "executes cl (lost_text @ [10]) ls w1 = Some (rs', w')" "rs = (r, t) # rs'" using Cons.prems(2) by auto
  have ok: "line_ok l" "10 \<notin> set l" using Cons.prems(1) by (auto simp: line_ok_def text_byte_def)
  have "simple_loop errText cl (typed 10 (l # ls) @ input) [] out w = simple_loop errText cl (typed 10 ls @ input) [] (out @ t @ shown_simple errText r @ shell_prompt) w1"
    using simple_text [OF ok(2), of errText cl "typed 10 ls @ input" "[]" out w] x ok(1) by (simp add: typed_def line_ok_def)
  then show ?case using Cons.IH [OF _ rs(1)] Cons.prems(1) rs(2) by simp
qed (simp add: typed_def)

section \<open>The client program\<close>

text \<open>\<open>dial\<close> tries until \<open>net.Dial\<close> gives a connection; the outcomes of the calls are a list, and if all of them fail the loop goes on.\<close>

fun dial_loop :: "string \<Rightarrow> conn option list \<Rightarrow> (bytes \<times> wireProtocoler \<times> conn) option" where
  "dial_loop addr [] = None"
| "dial_loop addr (Some conn # outcomes) = Some (str_bytes (''Connected to '' @ addr) @ crlf, NewWireProtocoler, conn)"
| "dial_loop addr (None # outcomes) =
     map_option (\<lambda>(t, pkger). ([13] @ str_bytes (''Waiting for server at '' @ addr @ ''...'') @ t, pkger)) (dial_loop addr outcomes)"

definition dial :: "string \<Rightarrow> string \<Rightarrow> conn option list \<Rightarrow> (bytes \<times> wireProtocoler \<times> conn) option" where
  "dial network addr outcomes =
     map_option (\<lambda>(t, pkger). (str_bytes (''Connecting to '' @ network @ ''://'' @ addr @ '' ...'') @ crlf @ t, pkger)) (dial_loop addr outcomes)"

text \<open>The closure \<open>reconnect\<close> of \<open>runConnect\<close>: the same client object over a new connection.\<close>

definition runConnect_reconnect :: "string \<Rightarrow> string \<Rightarrow> conn option list \<Rightarrow> client \<Rightarrow> (bytes \<times> client) option" where
  "runConnect_reconnect network addr outcomes clt =
     map_option (\<lambda>(t, pkger). (t, c_Reconnect pkger (c_Close clt))) (dial network addr outcomes)"

lemma dial_loop_first:
  "dial_loop addr outcomes = None \<longleftrightarrow> (\<forall>x \<in> set outcomes. x = None)"
  "dial_loop addr outcomes = Some (t, p, c) \<Longrightarrow> p = NewWireProtocoler \<and> find (\<lambda>x. x \<noteq> None) outcomes = Some (Some c)"
  by (induction addr outcomes arbitrary: t p c rule: dial_loop.induct) auto

text \<open>Reconnecting returns as soon as one attempt succeeds, and leaves a connected client with an empty channel over the first connection made.\<close>

lemma reconnect_connected:
  assumes "find (\<lambda>x. x \<noteq> None) outcomes = Some (Some c)"
  shows "\<exists>t clt'. runConnect_reconnect network addr outcomes clt = Some (t, clt') \<and> IsConnected clt' \<and> c_roundTripper clt' = NewRoundTripper (NewWireProtocoler, c)"
proof -
  have "dial_loop addr outcomes \<noteq> None" using assms dial_loop_first(1) [of addr outcomes] by (fastforce simp: find_Some_iff in_set_conv_nth)
  then obtain t p c' where d: "dial_loop addr outcomes = Some (t, p, c')" by auto
  then have "p = NewWireProtocoler" "c' = c" using dial_loop_first(2) [OF d] assms by auto
  then show ?thesis using d by (simp add: runConnect_reconnect_def dial_def c_Reconnect_def IsConnected_def NewRoundTripper_def)
qed

section \<open>Properties\<close>

text \<open>The interface as a server gives it that answers every statement of a session, and one that repeats what it is sent.\<close>

definition session_console :: "tenv \<Rightarrow> (error \<Rightarrow> string) \<Rightarrow> executor console" where
  "session_console te errText = \<lparr>cl_Execute = \<lambda>q e. map_option (\<lambda>(r, e). (reply errText r, e)) (Execute te q e), cl_IsConnected = \<lambda>_. True, cl_Disconnected = \<lambda>_. False,
     cl_Close = \<lambda>e. snd (ex_Close e), cl_reconnect = None\<rparr>"

definition echo_console :: "bytes list console" where
  "echo_console = \<lparr>cl_Execute = \<lambda>q w. Some (Ok (filter (\<lambda>b. b \<noteq> 27) q), w @ [q]), cl_IsConnected = \<lambda>_. True, cl_Disconnected = \<lambda>_. False, cl_Close = id, cl_reconnect = None\<rparr>"

text \<open>C27. The line editor is right about the screen: after any sequence of keys, read errors and lost connections, unless the shell has been left, the terminal shows the prompt followed by
  exactly the line that Enter would execute, with the cursor where the next byte goes in; cursor and history position stay in range, so no key makes the shell panic. This holds for every client
  whose texts have no control sequences; and if the calls of the client return, so does the loop.\<close>

theorem shell_shows_line:
  assumes "plain_console errText cl"
  shows "(returns cl \<longrightarrow> Run_loop errText cl evs (newShell w) \<noteq> None) \<and>
    (\<forall>r s. Run_loop errText cl evs (newShell w) = Some (r, s) \<longrightarrow> r = Ok () \<and>
       (sh_mode s = Exited \<or> sh_cursor s \<le> length (sh_buf s) \<and> sh_histIdx s < int (length (sh_history s)) \<and>
          screen_of (sh_out s) = shows_line (shell_prompt @ sh_buf s) (3 + sh_cursor s)))"
proof -
  have "displayed (newShell w)" using after_prompt by (simp add: displayed_def newShell_def screen_of_def shows_line_def)
  from Run_loop_keeps [OF disjI2 [OF this] assms] show ?thesis using Run_loop_returns [of cl errText evs "newShell w"] by (fastforce simp: keeps_def displayed_def)
qed

theorem shell_shows_line_witness:
  "\<exists>s. Run_loop (\<lambda>_. []) echo_console (map Key [97, 98, 27, 91, 68, 99]) (newShell []) = Some (Ok (), s) \<and>
     sh_buf s = [97, 99, 98] \<and> screen_of (sh_out s) = shows_line (shell_prompt @ [97, 99, 98]) 5"
proof -
  have p: "plain_console (\<lambda>_. []) echo_console" by (auto simp: plain_console_def echo_console_def shown_def crlf_lines_def crlf_def)
  obtain s where s: "Run_loop (\<lambda>_. []) echo_console (map Key [97, 98, 27, 91, 68, 99]) (newShell []) = Some (Ok (), s)" "sh_buf s = [97, 99, 98]" "sh_cursor s = 2" "sh_mode s = Editing"
    by (simp add: shell_event_def edit_key_def arrow_key_def Let_def left_key_def insert_buf newShell_def)
  then show ?thesis using shell_shows_line [OF p, of "map Key [97, 98, 27, 91, 68, 99]" "[]"] by auto
qed

text \<open>C28. Both modes of the shell execute exactly the lines they are given: typing non-empty printable lines, each followed by Enter, and then \<open>exit\<close> executes these statements in this
  order and nothing else, keeps them as the history and closes the client; reading the same lines from a pipe does the same to the client and prints every answer followed by the
  prompt. Whatever follows \<open>exit\<close> in the pipe is not read.\<close>

theorem shell_modes_agree:
  assumes "\<forall>l \<in> set ls. line_ok l" and "executes cl (lost_text @ [10]) ls w = Some (rs, w')"
  shows "(\<exists>s. Run_loop errText cl (map Key (typed 13 (ls @ [str_bytes ''exit'']))) (newShell w) = Some (Ok (), s) \<and>
      sh_mode s = Exited \<and> sh_world s = cl_Close cl w' \<and> sh_history s = ls) \<and>
    runSimple errText cl (typed 10 (ls @ [str_bytes ''exit'']) @ input) w =
      Some (Ok (), shell_prompt @ concat (map (\<lambda>(r, t). t @ shown_simple errText r @ shell_prompt) rs), cl_Close cl w')"
proof
  obtain s where s: "Run_loop errText cl (map Key (typed 13 ls)) (newShell w) = Some (Ok (), s)" "sh_mode s = Editing" "sh_buf s = []" "sh_cursor s = 0" "sh_world s = w'" "sh_history s = ls"
    using type_lines [OF assms(1), of cl "lost_text @ [10]" "newShell w" rs w' errText] assms(2) by (auto simp: newShell_def)
  have "\<forall>b \<in> set (str_bytes ''exit''). text_byte b" by (simp add: str_bytes_def text_byte_def)
  from type_text [OF this s(2), of errText cl] obtain s1 where s1: "Run_loop errText cl (map Key (str_bytes ''exit'')) s = Some (Ok (), s1)" "sh_mode s1 = Editing"
    "sh_buf s1 = str_bytes ''exit''" "sh_world s1 = w'" "sh_history s1 = ls" using s by auto
  have "shell_event errText cl (Key 13) s1 = Some (Ok (), leave cl (emit crlf s1))" using s1 by (simp add: shell_event_def edit_key_def enter_key_def Let_def)
  then show "\<exists>s. Run_loop errText cl (map Key (typed 13 (ls @ [str_bytes ''exit'']))) (newShell w) = Some (Ok (), s) \<and>
      sh_mode s = Exited \<and> sh_world s = cl_Close cl w' \<and> sh_history s = ls"
    using s(1) s1 by (simp add: typed_def Run_loop_append leave_def)
next
  have "10 \<notin> set (str_bytes ''exit'')" by (simp add: str_bytes_def)
  from simple_text [OF this, of errText cl input "[]"] simple_lines [OF assms, of errText "str_bytes ''exit'' @ 10 # input" shell_prompt]
  show "runSimple errText cl (typed 10 (ls @ [str_bytes ''exit'']) @ input) w =
      Some (Ok (), shell_prompt @ concat (map (\<lambda>(r, t). t @ shown_simple errText r @ shell_prompt) rs), cl_Close cl w')"
    by (simp add: runSimple_def typed_def)
qed

theorem shell_modes_agree_witness:
  "runSimple (\<lambda>_. ''no'') (session_console ex_tenv (\<lambda>_. ''no transaction'')) (typed 10 [render [''commit''], render [''abort''], str_bytes ''exit'']) (NewExecutor new_tbm) =
     Some (Ok (), shell_prompt @ str_bytes ''Err:  no'' @ [10] @ shell_prompt @ str_bytes ''Err:  no'' @ [10] @ shell_prompt, NewExecutor new_tbm)"
proof -
  let ?cl = "session_console ex_tenv (\<lambda>_. ''no transaction'')" and ?e = "NewExecutor new_tbm" and ?r = "(Err (ErrText ''no transaction''), []) :: bytes res \<times> bytes"
  have l: "\<forall>l \<in> set [render [''commit''], render [''abort'']]. line_ok l" by (simp add: line_ok_def render_def lit_def str_bytes_def text_byte_def)
  have x: "executes ?cl (lost_text @ [10]) [render [''commit''], render [''abort'']] ?e = Some ([?r, ?r], ?e)"
    by (simp add: executeRetry_def session_console_def Execute_def parse_word NewExecutor_def reply_def)
  have "snd (ex_Close ?e) = ?e" by (simp add: ex_Close_def NewExecutor_def)
  then show ?thesis using shell_modes_agree [OF l x, of "\<lambda>_. ''no''" "[]"] by (simp add: shown_simple_def session_console_def)
qed

end
