(* ===== verification/Store.thy ===== *)
theory Store
  imports Dm
begin

text \<open>
  The data manager as a store of byte strings under their \<open>UUID\<close>s, for the clients that keep structures in it (\<^verbatim>\<open>im\<close>). The locale
  \<open>item_store\<close> states the laws of \<open>Read\<close>, \<open>Data\<close>, \<open>Release\<close>, \<open>Insert\<close> and of the update protocol \<open>Before\<close>, \<open>After\<close>, \<open>UnBefore\<close> over a map of
  items and the multiset of handles the callers hold; \<open>store\<close> relates that map to pages, and the interpretation at the end discharges the laws for
  the model of the data manager.
\<close>

section \<open>Handles\<close>

text \<open>A handle on an item of \<open>n\<close> bytes: where the item lies. The saved old bytes have the size of the item.\<close>

definition handle :: "UUID \<Rightarrow> nat \<Rightarrow> dataitem \<Rightarrow> bool" where
  "handle u n di \<longleftrightarrow> di_uid di = u \<and> di_pgno di = fst (UUID2Address u) \<and> di_off di = unat (snd (UUID2Address u)) \<and>
     di_len di = 3 + n \<and> length (di_oldraw di) = 3 + n"

text \<open>The page of an item is marked dirty.\<close>

definition page_of :: "UUID \<Rightarrow> UUID" where
  "page_of u = Pgno2UUID (fst (UUID2Address u))"

definition touched :: "dataManager \<Rightarrow> UUID \<Rightarrow> bool" where
  "touched d u \<longleftrightarrow> (\<exists>pg. cache (pc_c (dm_pc d)) (page_of u) = Some pg \<and> pg_dirty pg)"

text \<open>The largest item for which finding a page always succeeds.\<close>

definition max_item :: nat where
  "max_item = NO_INTERVAL * THRESHOLD - 4"

section \<open>The interface\<close>

locale item_store =
  fixes inv :: "nat \<Rightarrow> dataManager \<Rightarrow> (UUID \<rightharpoonup> bytes) \<Rightarrow> UUID multiset \<Rightarrow> bool" and limit :: nat
  assumes nil_law: "inv n d m hs \<Longrightarrow> m NilUUID = None"
    and bound_law: "inv n d m hs \<Longrightarrow> m u = Some b \<Longrightarrow> u < UUID_INF"
    and fewer_law: "inv (Suc n) d m hs \<Longrightarrow> inv n d m hs"
    and read_law: "inv n d m hs \<Longrightarrow> m u = Some b \<Longrightarrow> size hs < limit \<Longrightarrow>
      \<exists>di d'. dm_Read u d = (Ok (Some di), d') \<and> handle u (length b) di \<and> inv n d' m (add_mset u hs)"
    and data_law: "inv n d m hs \<Longrightarrow> u \<in># hs \<Longrightarrow> m u = Some b \<Longrightarrow> handle u (length b) di \<Longrightarrow> dm_Data di d = Ok b"
    and release_law: "inv n d m hs \<Longrightarrow> u \<in># hs \<Longrightarrow> \<exists>d'. ReleaseDataitem u d = (Ok (), d') \<and> inv n d' m (hs - {#u#})"
    and insert_law: "inv (Suc n) d m hs \<Longrightarrow> size hs < limit \<Longrightarrow> length b \<le> max_item \<Longrightarrow>
      \<exists>u d'. dm_Insert x b d = (Ok u, d') \<and> m u = None \<and> inv n d' (m(u \<mapsto> b)) hs \<and> (\<forall>v \<in># hs. touched d v \<longrightarrow> touched d' v)"
    and before_law: "inv n d m hs \<Longrightarrow> u \<in># hs \<Longrightarrow> m u = Some b \<Longrightarrow> handle u (length b) di \<Longrightarrow>
      \<exists>di' d'. dm_Before di d = (Ok di', d') \<and> handle u (length b) di' \<and> di_oldraw di' = item_raw 0 b \<and> inv n d' m hs \<and> touched d' u"
    and write_law: "inv n d m hs \<Longrightarrow> u \<in># hs \<Longrightarrow> m u = Some b \<Longrightarrow> handle u (length b) di \<Longrightarrow> touched d u \<Longrightarrow> length b' = length b \<Longrightarrow>
      \<exists>d'. dm_write di b' d = (Ok (), d') \<and> inv n d' (m(u \<mapsto> b')) hs \<and> touched d' u"
    and after_law: "inv n d m hs \<Longrightarrow> u \<in># hs \<Longrightarrow> m u = Some b \<Longrightarrow> handle u (length b) di \<Longrightarrow>
      \<exists>d'. dm_After x di d = (Ok (), d') \<and> inv n d' m hs"
    and unbefore_law: "inv n d m hs \<Longrightarrow> u \<in># hs \<Longrightarrow> m u = Some b \<Longrightarrow> handle u (length b) di \<Longrightarrow> touched d u \<Longrightarrow>
      length b0 = length b \<Longrightarrow> di_oldraw di = item_raw 0 b0 \<Longrightarrow> \<exists>d'. dm_UnBefore di d = (Ok (), d') \<and> inv n d' (m(u \<mapsto> b0)) hs"

section \<open>Items in pages\<close>

definition item_at :: "pcacher \<Rightarrow> UUID \<Rightarrow> bytes \<Rightarrow> bool" where
  "item_at p u b \<longleftrightarrow> (case UUID2Address u of (k, off) \<Rightarrow> u = Address2UUID k off \<and> in_db p k \<and> page_ok (pc_content p k) \<and>
     2 \<le> unat off \<and> unat off + 3 + length b \<le> fso (pc_content p k) \<and> window (pc_content p k) (unat off) (3 + length b) = item_raw 0 b)"

definition apart :: "UUID \<Rightarrow> bytes \<Rightarrow> UUID \<Rightarrow> bytes \<Rightarrow> bool" where
  "apart u b v c \<longleftrightarrow> (case (UUID2Address u, UUID2Address v) of ((k, off), (k', off')) \<Rightarrow>
     k \<noteq> k' \<or> unat off + 3 + length b \<le> unat off' \<or> unat off' + 3 + length c \<le> unat off)"

definition holds_items :: "pcacher \<Rightarrow> (UUID \<rightharpoonup> bytes) \<Rightarrow> bool" where
  "holds_items p m \<longleftrightarrow> (\<forall>u b. m u = Some b \<longrightarrow> item_at p u b) \<and> (\<forall>u b v c. m u = Some b \<and> m v = Some c \<and> u \<noteq> v \<longrightarrow> apart u b v c)"

text \<open>Each item in the cache holds its page once.\<close>

definition page_handles :: "UUID multiset \<Rightarrow> UUID multiset" where
  "page_handles hs = image_mset page_of (mset_set (set_mset hs))"

definition items_cached :: "dataitem cacher \<Rightarrow> (UUID \<rightharpoonup> bytes) \<Rightarrow> UUID multiset \<Rightarrow> bool" where
  "items_cached c m hs \<longleftrightarrow> cacher_inv c hs {#} \<and> MaxHandles c = 0 \<and>
     (\<forall>u di. cache c u = Some di \<longrightarrow> (\<exists>b. m u = Some b \<and> handle u (length b) di))"

text \<open>Page 1 is the page of the valid check, every other page is a page of items.\<close>

definition pages_ok :: "pcacher \<Rightarrow> bool" where
  "pages_ok p \<longleftrightarrow> in_db p 1 \<and> (\<forall>k. in_db p k \<longrightarrow> (page_ok (pc_content p k) \<longleftrightarrow> k \<noteq> 1))"

text \<open>The invariant: \<open>X\<close> are the page handles of others, among them possibly the one the data manager keeps on page 1, \<open>limit\<close> bounds the handles on items, and \<open>n\<close> more pages
  can be created.\<close>

definition store :: "UUID multiset \<Rightarrow> nat \<Rightarrow> nat \<Rightarrow> dataManager \<Rightarrow> (UUID \<rightharpoonup> bytes) \<Rightarrow> UUID multiset \<Rightarrow> bool" where
  "store X limit n d m hs \<longleftrightarrow> (\<exists>ds. dm_inv d (X + page_handles hs) ds) \<and> items_cached (dm_dic d) m hs \<and> holds_items (dm_pc d) m \<and>
     Suc (size X + limit) < unat (MaxHandles (pc_c (dm_pc d))) \<and> unat (noPages (dm_pc d)) + n < 2 ^ 32 \<and>
     pages_ok (dm_pc d) \<and> (Pgno2UUID 1 \<in># X \<longrightarrow> dm_page1 d = Some 1)"

lemma item_atD:
  assumes "item_at p u b" and "UUID2Address u = (k, off)"
  shows "u = Address2UUID k off" "in_db p k" "page_ok (pc_content p k)" "2 \<le> unat off" "unat off + 3 + length b \<le> fso (pc_content p k)"
    "unat off + 3 + length b \<le> PAGE_SIZE" "window (pc_content p k) (unat off) (3 + length b) = item_raw 0 b"
  using assms by (auto simp: item_at_def page_ok_def)

lemma page_handles_again [simp]: "u \<in># hs \<Longrightarrow> page_handles (add_mset u hs) = page_handles hs"
  by (simp add: page_handles_def insert_absorb)

lemma page_handles_new [simp]: "u \<notin># hs \<Longrightarrow> page_handles (add_mset u hs) = add_mset (page_of u) (page_handles hs)"
  by (simp add: page_handles_def)

lemma page_handles_member: "u \<in># hs \<Longrightarrow> page_of u \<in># page_handles hs"
  by (auto simp: page_handles_def)

lemma page_handles_size: "size (page_handles hs) \<le> size hs"
  using size_mset_mono [OF mset_set_set_mset_msubset [of hs]] by (simp add: page_handles_def)

text \<open>The page of a held item is cached and holds the bytes of the item.\<close>

lemma held_page_cached:
  assumes "store X limit n d m hs" and "u \<in># hs"
  obtains pg where "cache (pc_c (dm_pc d)) (page_of u) = Some pg" "cached_ok (dm_pc d) (page_of u) pg" "pg_pgno pg = fst (UUID2Address u)"
    "pg_data pg = pc_content (dm_pc d) (fst (UUID2Address u))" "length (pg_data pg) = PAGE_SIZE"
proof -
  have p: "pc_inv (dm_pc d) (X + page_handles hs)" using assms(1) by (auto simp: store_def dm_inv_def)
  moreover have "page_of u \<in># X + page_handles hs" using page_handles_member [OF assms(2)] by simp
  ultimately obtain pg where pg: "cache (pc_c (dm_pc d)) (page_of u) = Some pg" unfolding pc_inv_def cacher_inv_def by blast
  then have ck: "cached_ok (dm_pc d) (page_of u) pg" using p by (simp add: pc_inv_def)
  then have "Pgno2UUID (fst (UUID2Address u)) = Pgno2UUID (pg_pgno pg)" "length (pg_data pg) = PAGE_SIZE" by (simp_all add: cached_ok_def page_of_def)
  moreover from this(1) have "pg_pgno pg = fst (UUID2Address u)" by (metis UUID2Pgno_Pgno2UUID)
  ultimately show thesis using that [OF pg ck] pg cached_content [of "dm_pc d" "fst (UUID2Address u)" pg] by (simp add: page_of_def)
qed

section \<open>The laws\<close>

lemma size_limit:
  assumes "store X limit n d m hs" and "size hs < limit"
  shows "Suc (size (X + page_handles hs)) < unat (MaxHandles (pc_c (dm_pc d)))" and "Suc (size hs) < 2 ^ 32"
proof -
  have "Suc (size X + limit) < unat (MaxHandles (pc_c (dm_pc d)))" using assms(1) by (simp add: store_def)
  moreover have "unat (MaxHandles (pc_c (dm_pc d))) < 2 ^ 32" using unsigned_less [of "MaxHandles (pc_c (dm_pc d))", where ?'a = nat] by simp
  ultimately show "Suc (size (X + page_handles hs)) < unat (MaxHandles (pc_c (dm_pc d)))" and "Suc (size hs) < 2 ^ 32"
    using assms(2) page_handles_size [of hs] by simp_all
qed

lemma item_raw_simps: "length (item_raw f b) = 3 + length b" "item_raw f b ! 0 = f" "drop 3 (item_raw f b) = b" "take 3 (item_raw f b) = f # be_bytes 2 (length b)"
  by (simp_all add: item_raw_def numeral_3_eq_3)

lemma handle_view:
  assumes "handle u (length b) di" and "item_at p u b" and "pg_data pg = pc_content p (fst (UUID2Address u))"
  shows "di_raw di pg = item_raw 0 b" "di_IsValid di pg = Ok True" "di_Data di pg = Ok b"
proof -
  obtain k off where a: "UUID2Address u = (k, off)" by fastforce
  show r: "di_raw di pg = item_raw 0 b" using item_atD(7) [OF assms(2) a] assms(1,3) a by (simp add: di_raw_def handle_def)
  show "di_IsValid di pg = Ok True" "di_Data di pg = Ok b"
    by (simp_all add: di_IsValid_def di_Data_def r di_defs go_index_def go_from_def item_raw_simps)
qed

lemma store_data:
  assumes "store X limit n d m hs" and "u \<in># hs" and "m u = Some b" and "handle u (length b) di"
  shows "dm_Data di d = Ok b" and "rbind (item_page di d) (di_IsValid di) = Ok True"
proof -
  obtain pg where pg: "cache (pc_c (dm_pc d)) (page_of u) = Some pg" "pg_data pg = pc_content (dm_pc d) (fst (UUID2Address u))"
    using held_page_cached [OF assms(1,2)] by blast
  have i: "item_at (dm_pc d) u b" using assms(1,3) by (simp add: store_def holds_items_def)
  have "item_page di d = Ok pg" using pg(1) assms(4) by (simp add: item_page_def handle_def page_of_def)
  then show "dm_Data di d = Ok b" "rbind (item_page di d) (di_IsValid di) = Ok True"
    using handle_view [OF assms(4) i pg(2)] by (simp_all add: dm_Data_def)
qed

lemma holds_items_frame:
  assumes "holds_items p m" and "\<And>k. in_db p k \<Longrightarrow> in_db p' k \<and> pc_content p' k = pc_content p k"
  shows "holds_items p' m"
  using assms unfolding holds_items_def item_at_def by (auto split: prod.splits)

lemma page1_not_ok: "take 2 d = [0, 0] \<Longrightarrow> \<not> page_ok d"
  by (simp add: page_ok_def fso_def window_def be_val_def)

lemma pages_ok_frame: "pages_ok p \<Longrightarrow> (\<And>k. in_db p' k = in_db p k) \<Longrightarrow> (\<And>k. in_db p k \<Longrightarrow> pc_content p' k = pc_content p k) \<Longrightarrow> pages_ok p'"
  by (simp add: pages_ok_def)

lemma get_cached:
  assumes "items_cached c m hs" and "u \<in># hs" and "Suc (size hs) < 2 ^ 32"
  obtains di b c' where "get_try u c = (Hit di, c')" "m u = Some b" "handle u (length b) di" "items_cached c' m (add_mset u hs)"
proof -
  have i: "cacher_inv c hs {#}" using assms(1) by (simp add: items_cached_def)
  then obtain di where di: "cache c u = Some di" using assms(2) unfolding cacher_inv_def by blast
  have "getting c = {}" using i by (simp add: cacher_inv_def)
  then have t: "get_try u c = (Hit di, c\<lparr>refs := (refs c)(u \<mapsto> ref_of (refs c) u + 1)\<rparr>)" using di by (simp add: get_try_def)
  have "cacher_inv (c\<lparr>refs := (refs c)(u \<mapsto> ref_of (refs c) u + 1)\<rparr>) (add_mset u hs) {#}" by (rule inv_hit [OF i t assms(3)])
  moreover obtain b where "m u = Some b" "handle u (length b) di" using assms(1) di by (auto simp: items_cached_def)
  ultimately show thesis using that [OF t] assms(1) by (simp add: items_cached_def)
qed

lemma get_loaded:
  assumes "items_cached c m hs" and "u \<notin># hs" and "Suc (size hs) < 2 ^ 32"
  obtains c1 where "get_try u c = (Load, c1)"
    "\<And>di b. m u = Some b \<Longrightarrow> handle u (length b) di \<Longrightarrow> \<exists>c2. get_finish u (Ok di) c1 = (Ok di, c2) \<and> items_cached c2 m (add_mset u hs)"
proof -
  have i: "cacher_inv c hs {#}" using assms(1) by (simp add: items_cached_def)
  then have n: "cache c u = None" "getting c = {}" using assms(2) unfolding cacher_inv_def by auto
  let ?c1 = "c\<lparr>getting := insert u (getting c), count := count c + 1\<rparr>"
  have t: "get_try u c = (Load, ?c1)" using n assms(1) by (simp add: get_try_def items_cached_def)
  have "set_mset hs = dom (cache c)" using i unfolding cacher_inv_def by auto
  then have "card (dom (cache c)) \<le> size hs" using page_handles_size [of hs] by (simp add: page_handles_def)
  then have "Suc (unat (count c)) < 2 ^ 32" using i n(2) assms(3) by (simp add: cacher_inv_def)
  then have i1: "cacher_inv ?c1 hs {#u#}" using inv_load [OF i t] by simp
  show thesis
  proof (rule that [OF t])
    fix di b assume h: "m u = Some b" "handle u (length b) di"
    let ?c2 = "?c1\<lparr>getting := getting ?c1 - {u}, cache := (cache ?c1)(u \<mapsto> di), refs := (refs ?c1)(u \<mapsto> 1)\<rparr>"
    have f: "get_finish u (Ok di) ?c1 = (Ok di, ?c2)" by (simp add: get_finish_def)
    have "cacher_inv ?c2 (add_mset u hs) {#}" using inv_loaded [OF i1 _ assms(3) f] by simp
    then have "items_cached ?c2 m (add_mset u hs)" using assms(1) h by (auto simp: items_cached_def)
    then show "\<exists>c2. get_finish u (Ok di) ?c1 = (Ok di, c2) \<and> items_cached c2 m (add_mset u hs)" using f by blast
  qed
qed

lemma store_read:
  assumes "store X limit n d m hs" and "m u = Some b" and "size hs < limit"
  shows "\<exists>di d'. dm_Read u d = (Ok (Some di), d') \<and> handle u (length b) di \<and> store X limit n d' m (add_mset u hs)"
proof -
  have ic: "items_cached (dm_dic d) m hs" and hi: "holds_items (dm_pc d) m" using assms(1) by (simp_all add: store_def)
  note lim = size_limit [OF assms(1,3)]
  have "\<exists>di d'. dic_Get u d = (Ok di, d') \<and> handle u (length b) di \<and> store X limit n d' m (add_mset u hs)"
  proof (cases "u \<in># hs")
    case True
    obtain di c' where g: "get_try u (dm_dic d) = (Hit di, c')" "handle u (length b) di" "items_cached c' m (add_mset u hs)"
      using get_cached [OF ic True lim(2)] assms(2) by (metis option.inject)
    then have "dic_Get u d = (Ok di, d\<lparr>dm_dic := c'\<rparr>)" by (simp add: dic_Get_def)
    moreover have "store X limit n (d\<lparr>dm_dic := c'\<rparr>) m (add_mset u hs)" using assms(1) g(3) True by (simp add: store_def dm_inv_def)
    ultimately show ?thesis using g(2) by blast
  next
    case False
    obtain ds where ds: "dm_inv d (X + page_handles hs) ds" using assms(1) by (auto simp: store_def)
    then have p: "pc_inv (dm_pc d) (X + page_handles hs)" by (simp add: dm_inv_def)
    obtain c1 where c1: "get_try u (dm_dic d) = (Load, c1)"
      "\<And>di. handle u (length b) di \<Longrightarrow> \<exists>c2. get_finish u (Ok di) c1 = (Ok di, c2) \<and> items_cached c2 m (add_mset u hs)"
      using get_loaded [OF ic False lim(2)] assms(2) by metis
    obtain k off where a: "UUID2Address u = (k, off)" by fastforce
    have i: "item_at (dm_pc d) u b" using hi assms(2) by (simp add: holds_items_def)
    note it = item_atD [OF i a]
    obtain pg p' where g: "GetPage k (dm_pc d) = (Ok pg, p')" "pg_pgno pg = k" "pg_data pg = pc_content (dm_pc d) k"
      "pc_inv p' (add_mset (Pgno2UUID k) (X + page_handles hs))" "pc_content p' = pc_content (dm_pc d)" "noPages p' = noPages (dm_pc d)"
      "MaxHandles (pc_c p') = MaxHandles (pc_c (dm_pc d))"
      using GetPage_ok [OF p it(2)] lim(1) unfolding pc_room_def by metis
    have len: "length (pg_data pg) = PAGE_SIZE" using it(3) g(3) by (simp add: page_ok_def)
    obtain di where di: "ParseDataitem pg off = Ok di" "di_uid di = Address2UUID (pg_pgno pg) off" "di_off di = unat off" "di_len di = 3 + length b"
      using ParseDataitem_stored [OF len it(6), of 0] it(7) g(3) by (auto simp: item_raw_def)
    have "di_pgno di = k" "length (di_oldraw di) = di_len di" using di(1) g(2) by (auto simp: ParseDataitem_def rbind_eq_Ok Let_def)
    then have h: "handle u (length b) di" using di g(2) it(1) a by (simp add: handle_def)
    obtain c2 where c2: "get_finish u (Ok di) c1 = (Ok di, c2)" "items_cached c2 m (add_mset u hs)" using c1(2) [OF h] by blast
    have "dic_Get u d = (Ok di, d\<lparr>dm_dic := c2, dm_pc := p'\<rparr>)"
      using c1(1) a g(1) di(1) c2(1) by (simp add: dic_Get_def dm_getForCacher_def on_pc_def)
    moreover have "in_db p' j = in_db (dm_pc d) j" for j using g(6) by (simp add: in_db_def)
    then have "holds_items p' m" "pidx_ok p' (dm_pidx d)" "pages_ok p'"
      using holds_items_frame [OF hi] pidx_ok_frame [of "dm_pc d" "dm_pidx d" p'] pages_ok_frame [of "dm_pc d" p'] ds g(5) assms(1)
      by (simp_all add: dm_inv_def store_def)
    then have "store X limit n (d\<lparr>dm_dic := c2, dm_pc := p'\<rparr>) m (add_mset u hs)"
      using assms(1) ds c2(2) g False a by (auto simp: store_def dm_inv_def page_of_def)
    ultimately show ?thesis using h by blast
  qed
  then obtain di d' where r: "dic_Get u d = (Ok di, d')" "handle u (length b) di" "store X limit n d' m (add_mset u hs)" by blast
  have "rbind (item_page di d') (di_IsValid di) = Ok True" by (rule store_data(2) [OF r(3) _ assms(2) r(2)]) simp
  then show ?thesis using r by (simp add: dm_Read_def)
qed

lemma page_handles_less [simp]: "u \<in># hs - {#u#} \<Longrightarrow> page_handles (hs - {#u#}) = page_handles hs"
  by (metis insert_DiffM in_diffD page_handles_again)

lemma page_handles_gone: "u \<in># hs \<Longrightarrow> u \<notin># hs - {#u#} \<Longrightarrow> page_handles hs = add_mset (page_of u) (page_handles (hs - {#u#}))"
  by (metis insert_DiffM page_handles_new)

lemma store_release:
  assumes "store X limit n d m hs" and "u \<in># hs"
  shows "\<exists>d'. ReleaseDataitem u d = (Ok (), d') \<and> store X limit n d' m (hs - {#u#})"
proof -
  have ic: "items_cached (dm_dic d) m hs" and hi: "holds_items (dm_pc d) m" using assms(1) by (simp_all add: store_def)
  then have i: "cacher_inv (dm_dic d) hs {#}" by (simp add: items_cached_def)
  obtain di where di: "cache (dm_dic d) u = Some di" using i assms(2) unfolding cacher_inv_def by blast
  then have pgno: "di_pgno di = fst (UUID2Address u)" using ic by (auto simp: items_cached_def handle_def)
  obtain r c where t: "c_Release u (dm_dic d) = Ok (r, c)" using di by (cases "ref_of (refs (dm_dic d)) u = 1") (auto simp: c_Release_def)
  note rel = inv_release [OF i assms(2) t]
  have sub: "cache c v = Some x \<Longrightarrow> cache (dm_dic d) v = Some x" and mx: "MaxHandles c = MaxHandles (dm_dic d)"
    and r: "r \<noteq> None \<Longrightarrow> r = Some di" for v x
    using t di by (auto simp: c_Release_def Let_def split: if_splits option.splits)
  have ic': "items_cached c m (hs - {#u#})" using ic rel(1) sub mx by (auto simp: items_cached_def)
  show ?thesis
  proof (cases r)
    case None
    then have "Multiset.count hs u \<noteq> 1" using rel(2) by simp
    moreover have "0 < Multiset.count hs u" using assms(2) by simp
    ultimately have "1 < Multiset.count hs u" by linarith
    then have "u \<in># hs - {#u#}" by (simp flip: count_greater_zero_iff)
    then have "store X limit n (d\<lparr>dm_dic := c\<rparr>) m (hs - {#u#})" using assms(1) ic' by (simp add: store_def dm_inv_def)
    then show ?thesis using t None by (auto simp: ReleaseDataitem_def)
  next
    case (Some x)
    then have rd: "r = Some di" "Multiset.count hs u = 1" using r rel(2) by auto
    then have "u \<notin># hs - {#u#}" by (simp add: not_in_iff)
    then have ph: "page_handles hs = add_mset (page_of u) (page_handles (hs - {#u#}))" by (rule page_handles_gone [OF assms(2)])
    obtain ds where ds: "dm_inv d (X + page_handles hs) ds" using assms(1) by (auto simp: store_def)
    obtain p' where p': "pc_release (di_pgno di) (dm_pc d) = (Ok (), p')" "pc_inv p' (X + page_handles (hs - {#u#}))"
      "\<And>k. in_db (dm_pc d) k \<Longrightarrow> pc_content p' k = pc_content (dm_pc d) k" "noPages p' = noPages (dm_pc d)"
      "MaxHandles (pc_c p') = MaxHandles (pc_c (dm_pc d))"
      using pc_release_ok [of "dm_pc d" "X + page_handles hs" "di_pgno di"] ds ph pgno by (auto simp: dm_inv_def page_of_def)
    have db: "in_db p' k = in_db (dm_pc d) k" for k using p'(4) by (simp add: in_db_def)
    have "holds_items p' m" by (rule holds_items_frame [OF hi]) (simp add: db p'(3))
    moreover have "pidx_ok p' (dm_pidx d)" by (rule pidx_ok_frame [of "dm_pc d"]) (use ds db p'(3) in \<open>simp_all add: dm_inv_def\<close>)
    moreover have "pages_ok p'" by (rule pages_ok_frame [of "dm_pc d"]) (use assms(1) db p'(3) in \<open>simp_all add: store_def\<close>)
    ultimately have "store X limit n (d\<lparr>dm_pc := p', dm_dic := c\<rparr>) m (hs - {#u#})"
      using assms(1) ds ic' p' by (auto simp: store_def dm_inv_def)
    then show ?thesis using t rd(1) p'(1) by (auto simp: ReleaseDataitem_def dm_releaseForCacher_def on_pc_def)
  qed
qed

lemma store_insert:
  assumes "store X limit (Suc n) d m hs" and "size hs < limit" and "length b \<le> max_item"
  shows "\<exists>u d'. dm_Insert x b d = (Ok u, d') \<and> m u = None \<and> store X limit n d' (m(u \<mapsto> b)) hs \<and> (\<forall>v \<in># hs. touched d v \<longrightarrow> touched d' v)"
proof -
  have ic: "items_cached (dm_dic d) m hs" and hi: "holds_items (dm_pc d) m" using assms(1) by (simp_all add: store_def)
  obtain ds where ds: "dm_inv d (X + page_handles hs) ds" using assms(1) by (auto simp: store_def)
  have l: "length b + 3 < NO_INTERVAL * THRESHOLD" using assms(3) by (simp add: max_item_def pi_defs)
  have np: "Suc (unat (noPages (dm_pc d))) < 2 ^ 32" using assms(1) by (simp add: store_def)
  obtain k off d' where i: "dm_Insert x b d = (Ok (Address2UUID k off), d')" "dm_inv d' (X + page_handles hs) (ds @ [enc_op (Ins x k off (item_raw 0 b))])"
    "in_db (dm_pc d') k" "2 \<le> unat off" "unat off + 3 + length b \<le> PAGE_SIZE" "page_ok (pc_content (dm_pc d') k)"
    "window (pc_content (dm_pc d') k) (unat off) (3 + length b) = item_raw 0 b" "in_db (dm_pc d) k \<Longrightarrow> unat off = fso (pc_content (dm_pc d) k)"
    "\<And>j. in_db (dm_pc d) j \<Longrightarrow> in_db (dm_pc d') j \<and> fso (pc_content (dm_pc d) j) \<le> fso (pc_content (dm_pc d') j) \<and>
       (\<forall>a n. 2 \<le> a \<and> a + n \<le> fso (pc_content (dm_pc d) j) \<longrightarrow> window (pc_content (dm_pc d') j) a n = window (pc_content (dm_pc d) j) a n)"
    "dm_dic d' = dm_dic d" "MaxHandles (pc_c (dm_pc d')) = MaxHandles (pc_c (dm_pc d))" "unat (noPages (dm_pc d')) \<le> Suc (unat (noPages (dm_pc d)))"
    "fso (pc_content (dm_pc d') k) = unat off + 3 + length b"
    "\<And>j. in_db (dm_pc d) j \<Longrightarrow> page_ok (pc_content (dm_pc d) j) \<Longrightarrow> page_ok (pc_content (dm_pc d') j)"
    "\<And>v pg. v \<in># X + page_handles hs \<Longrightarrow> cache (pc_c (dm_pc d)) v = Some pg \<Longrightarrow> pg_dirty pg \<Longrightarrow> \<exists>pg'. cache (pc_c (dm_pc d')) v = Some pg' \<and> pg_dirty pg'"
    "\<And>j. in_db (dm_pc d') j \<Longrightarrow> page_ok (pc_content (dm_pc d') j) \<longleftrightarrow> (in_db (dm_pc d) j \<longrightarrow> page_ok (pc_content (dm_pc d) j))" "dm_page1 d' = dm_page1 d"
    using dm_Insert_full [OF ds l np size_limit(1) [OF assms(1,2)], of x thesis] by blast
  let ?u = "Address2UUID k off"
  have item: "item_at (dm_pc d) v c" if "m v = Some c" for v c using hi that by (simp add: holds_items_def)
  have item': "item_at (dm_pc d') v c" if "m v = Some c" for v c
  proof -
    obtain j o' where a: "UUID2Address v = (j, o')" by fastforce
    note it = item_atD [OF item [OF that] a]
    from i(9) [OF it(2)] have "in_db (dm_pc d') j" "fso (pc_content (dm_pc d) j) \<le> fso (pc_content (dm_pc d') j)"
      "window (pc_content (dm_pc d') j) (unat o') (3 + length c) = window (pc_content (dm_pc d) j) (unat o') (3 + length c)"
      using it(4,5) by (simp_all add: add.assoc)
    then show ?thesis using it i(14) [OF it(2,3)] a by (simp add: item_at_def)
  qed
  have away: "k = j \<Longrightarrow> unat o' + 3 + length c \<le> unat off" if "m v = Some c" "UUID2Address v = (j, o')" for v c j o'
    using item_atD [OF item [OF that(1)] that(2)] i(8) by simp
  have new: "m ?u = None"
  proof (rule ccontr)
    assume "m ?u \<noteq> None"
    then obtain c where "m ?u = Some c" by blast
    from away [OF this address_roundtrip] show False by simp
  qed
  have "holds_items (dm_pc d') (m(?u \<mapsto> b))"
    unfolding holds_items_def
  proof (intro conjI allI impI)
    fix v c assume "(m(?u \<mapsto> b)) v = Some c"
    then show "item_at (dm_pc d') v c" using item' i(3-7,13) by (auto simp: item_at_def split: if_splits)
  next
    fix v c w e assume "(m(?u \<mapsto> b)) v = Some c \<and> (m(?u \<mapsto> b)) w = Some e \<and> v \<noteq> w"
    moreover have "apart v c w e" if "m v = Some c" "m w = Some e" "v \<noteq> w" using hi that unfolding holds_items_def by blast
    ultimately show "apart v c w e" using away [of v c] away [of w e] by (fastforce simp: apart_def split: if_splits prod.splits)
  qed
  moreover have "items_cached (dm_dic d') (m(?u \<mapsto> b)) hs" using ic new i(10) by (fastforce simp: items_cached_def)
  moreover have "pages_ok (dm_pc d')" using assms(1) i(9) [of 1] i(16) by (auto simp: store_def pages_ok_def)
  ultimately have "store X limit n d' (m(?u \<mapsto> b)) hs" using assms(1) i(2,11,12,17) by (auto simp: store_def)
  moreover have "touched d' v" if "v \<in># hs" "touched d v" for v using that i(15) page_handles_member by (auto simp: touched_def)
  ultimately show ?thesis using i(1) new by blast
qed

text \<open>Replacing the bytes of one item in its page.\<close>

lemma store_rewrite:
  assumes st: "store X limit n d m hs" and u: "m u = Some b" and a: "UUID2Address u = (k, off)" and pg: "cache (pc_c (dm_pc d)) (Pgno2UUID k) = Some pg"
    and pg': "pg_pgno pg' = k" "pg_dirty pg'" "pg_data pg' = overwrite (pc_content (dm_pc d) k) (unat off) (item_raw 0 b')" and len: "length b' = length b"
  shows "store X limit n (d\<lparr>dm_pc := pc_set pg' (dm_pc d)\<rparr>) (m(u \<mapsto> b')) hs" and "touched (d\<lparr>dm_pc := pc_set pg' (dm_pc d)\<rparr>) u"
proof -
  have hi: "holds_items (dm_pc d) m" using st by (simp add: store_def)
  obtain ds where ds: "dm_inv d (X + page_handles hs) ds" using st by (auto simp: store_def)
  let ?p = "pc_set pg' (dm_pc d)" and ?c = "pc_content (dm_pc d) k" and ?raw = "item_raw 0 b'"
  have item: "item_at (dm_pc d) v c" if "m v = Some c" for v c using hi that by (simp add: holds_items_def)
  note it = item_atD [OF item [OF u] a]
  have l: "length ?raw = 3 + length b" "length ?c = PAGE_SIZE" using len it(3) by (simp_all add: item_raw_simps page_ok_def)
  have fits: "unat off + length ?raw \<le> PAGE_SIZE" using it(6) l by simp
  note s = dm_inv_set_page [OF ds pg pg' it(4) fits]
  have db: "in_db ?p j = in_db (dm_pc d) j" for j by (simp add: in_db_def pc_set_def)
  have f: "fso (overwrite ?c (unat off) ?raw) = fso ?c" using fso_overwrite it(4) fits l by simp
  have "window (overwrite ?c (unat off) ?raw) (unat off) (3 + length b) = ?raw" using window_same [of "unat off" ?raw ?c] fits l by simp
  then have self: "item_at ?p u b'" using it f l s(2) db a len fits by (auto simp: item_at_def page_ok_def)
  have other: "item_at ?p v c" if v: "m v = Some c" "v \<noteq> u" for v c
  proof -
    obtain j o' where a': "UUID2Address v = (j, o')" by fastforce
    note iv = item_atD [OF item [OF v(1)] a']
    have ap: "apart u b v c" using hi u v unfolding holds_items_def by metis
    have "window (pc_content ?p j) (unat o') (3 + length c) = window (pc_content (dm_pc d) j) (unat o') (3 + length c)"
    proof (cases "j = k")
      case True
      then have "unat o' + (3 + length c) \<le> unat off \<or> unat off + length ?raw \<le> unat o'" using ap a a' l by (auto simp: apart_def)
      then show ?thesis using True s(2) fits l by (simp add: window_disjoint)
    qed (simp add: s(2))
    then show ?thesis using iv f l s(2) db a' fits by (auto simp: item_at_def page_ok_def)
  qed
  have "apart v c w e" if "(m(u \<mapsto> b')) v = Some c" "(m(u \<mapsto> b')) w = Some e" "v \<noteq> w" for v c w e
  proof -
    have "\<exists>c'. m v = Some c' \<and> length c' = length c" "\<exists>e'. m w = Some e' \<and> length e' = length e" using that u len by (auto split: if_splits)
    then obtain c' e' where "m v = Some c'" "m w = Some e'" "length c' = length c" "length e' = length e" by blast
    moreover from this(1,2) have "apart v c' w e'" using hi that(3) unfolding holds_items_def by blast
    ultimately show ?thesis by (simp add: apart_def)
  qed
  then have "holds_items ?p (m(u \<mapsto> b'))" using self other unfolding holds_items_def by (auto split: if_splits)
  moreover have "items_cached (dm_dic d) (m(u \<mapsto> b')) hs" using st u len by (fastforce simp: store_def items_cached_def)
  moreover have "MaxHandles (pc_c ?p) = MaxHandles (pc_c (dm_pc d))" "noPages ?p = noPages (dm_pc d)" by (simp_all add: pc_set_def)
  moreover have "pages_ok ?p" using st it(3) f l db s(2) fits by (auto simp: store_def pages_ok_def page_ok_def)
  ultimately show "store X limit n (d\<lparr>dm_pc := ?p\<rparr>) (m(u \<mapsto> b')) hs" using st s(1) by (auto simp: store_def)
  show "touched (d\<lparr>dm_pc := ?p\<rparr>) u" using s(3) pg'(2) a by (simp add: touched_def page_of_def)
qed

lemma store_before:
  assumes "store X limit n d m hs" and "u \<in># hs" and "m u = Some b" and "handle u (length b) di"
  shows "\<exists>di' d'. dm_Before di d = (Ok di', d') \<and> handle u (length b) di' \<and> di_oldraw di' = item_raw 0 b \<and> store X limit n d' m hs \<and> touched d' u"
proof -
  obtain k off where a: "UUID2Address u = (k, off)" by fastforce
  obtain pg where pg: "cache (pc_c (dm_pc d)) (Pgno2UUID k) = Some pg" "pg_pgno pg = k" "pg_data pg = pc_content (dm_pc d) k"
    using held_page_cached [OF assms(1,2)] a by (auto simp: page_of_def)
  have i: "item_at (dm_pc d) u b" using assms(1,3) by (simp add: store_def holds_items_def)
  note it = item_atD [OF i a] and v = handle_view [OF assms(4) i, of pg]
  let ?pg = "pg_Dirty pg" and ?di = "di\<lparr>di_oldraw := item_raw 0 b\<rparr>"
  have same: "pg_data ?pg = overwrite (pc_content (dm_pc d) k) (unat off) (item_raw 0 b)"
    using overwrite_window [of "unat off" "3 + length b" "pc_content (dm_pc d) k"] it(3,6,7) pg(3) by (simp add: pg_Dirty_def page_ok_def)
  have h: "handle u (length b) ?di" using assms(4) by (simp add: handle_def item_raw_simps)
  have "di_Before di pg = (?di, ?pg)" using v(1) pg(3) a assms(4) by (simp add: di_Before_def go_copy_def handle_def item_raw_simps)
  then have e: "dm_Before di d = (Ok ?di, dic_set u ?di (d\<lparr>dm_pc := pc_set ?pg (dm_pc d)\<rparr>))"
    using pg(1) a assms(4) by (simp add: dm_Before_def item_page_def handle_def)
  note s = store_rewrite [OF assms(1,3) a pg(1) _ _ same]
  let ?d = "d\<lparr>dm_pc := pc_set ?pg (dm_pc d)\<rparr>"
  have "m(u \<mapsto> b) = m" using assms(3) by auto
  then have s1: "store X limit n ?d m hs" "touched ?d u" using s pg(2) by (simp_all add: pg_Dirty_def)
  have "dom ((cache (dm_dic d))(u \<mapsto> ?di)) = dom (cache (dm_dic d))" using assms(1,2) by (auto simp: store_def items_cached_def cacher_inv_def)
  then have "items_cached (dm_dic (dic_set u ?di ?d)) m hs" using s1(1) h assms(2,3)
    by (auto simp: store_def items_cached_def cacher_inv_def dic_set_def)
  then have "store X limit n (dic_set u ?di ?d) m hs" using s1(1) by (auto simp: store_def dic_set_def dm_inv_def)
  moreover have "touched (dic_set u ?di ?d) u" using s1(2) by (simp add: touched_def dic_set_def)
  ultimately show ?thesis using e h by (intro exI [of _ ?di] exI [of _ "dic_set u ?di ?d"]) simp
qed

lemma store_write:
  assumes "store X limit n d m hs" and "u \<in># hs" and "m u = Some b" and "handle u (length b) di" and "touched d u" and "length b' = length b"
  shows "\<exists>d'. dm_write di b' d = (Ok (), d') \<and> store X limit n d' (m(u \<mapsto> b')) hs \<and> touched d' u"
proof -
  obtain k off where a: "UUID2Address u = (k, off)" by fastforce
  obtain pg where pg: "cache (pc_c (dm_pc d)) (Pgno2UUID k) = Some pg" "pg_pgno pg = k" "pg_data pg = pc_content (dm_pc d) k"
    using held_page_cached [OF assms(1,2)] a by (auto simp: page_of_def)
  have i: "item_at (dm_pc d) u b" using assms(1,3) by (simp add: store_def holds_items_def)
  note it = item_atD [OF i a]
  let ?c = "pc_content (dm_pc d) k" and ?pg = "di_write di b' pg"
  have "overwrite ?c (unat off + 3) b' = overwrite ?c (unat off) (take 3 (item_raw 0 b) @ b')"
    using overwrite_tail [of "unat off" "3 + length b" ?c 3 b'] it(3,6,7) assms(6) by (simp add: page_ok_def)
  moreover have "take 3 (item_raw 0 b) @ b' = item_raw 0 b'" using assms(6) by (simp add: item_raw_simps) (simp add: item_raw_def)
  ultimately have d: "pg_data ?pg = overwrite ?c (unat off) (item_raw 0 b')"
    using assms(4,6) a pg(3) by (simp add: di_write_def handle_def di_defs)
  have e: "dm_write di b' d = (Ok (), d\<lparr>dm_pc := pc_set ?pg (dm_pc d)\<rparr>)"
    using pg(1) a assms(4) by (simp add: dm_write_def on_pc_def held_page_def handle_def)
  have "pg_dirty ?pg" "pg_pgno ?pg = k" using assms(5) pg a by (auto simp: touched_def page_of_def di_write_def)
  then show ?thesis using e store_rewrite [OF assms(1,3) a pg(1) _ _ d assms(6)] by blast
qed

lemma store_unbefore:
  assumes "store X limit n d m hs" and "u \<in># hs" and "m u = Some b" and "handle u (length b) di" and "touched d u" and "length b0 = length b"
    and "di_oldraw di = item_raw 0 b0"
  shows "\<exists>d'. dm_UnBefore di d = (Ok (), d') \<and> store X limit n d' (m(u \<mapsto> b0)) hs"
proof -
  obtain k off where a: "UUID2Address u = (k, off)" by fastforce
  obtain pg where pg: "cache (pc_c (dm_pc d)) (Pgno2UUID k) = Some pg" "pg_pgno pg = k" "pg_data pg = pc_content (dm_pc d) k"
    using held_page_cached [OF assms(1,2)] a by (auto simp: page_of_def)
  have i: "item_at (dm_pc d) u b" using assms(1,3) by (simp add: store_def holds_items_def)
  have raw: "di_raw di pg = item_raw 0 b" using handle_view(1) [OF assms(4) i] pg(3) a by simp
  let ?pg = "di_UnBefore di pg"
  have d: "pg_data ?pg = overwrite (pc_content (dm_pc d) k) (unat off) (item_raw 0 b0)"
    using raw assms(4,6,7) a pg(3) by (simp add: di_UnBefore_def go_copy_def handle_def item_raw_simps)
  have e: "dm_UnBefore di d = (Ok (), d\<lparr>dm_pc := pc_set ?pg (dm_pc d)\<rparr>)"
    using pg(1) a assms(4) by (simp add: dm_UnBefore_def on_pc_def held_page_def handle_def)
  have "pg_dirty ?pg" "pg_pgno ?pg = k" using assms(5) pg a by (auto simp: touched_def page_of_def di_UnBefore_def)
  then show ?thesis using e store_rewrite(1) [OF assms(1,3) a pg(1) _ _ d assms(6)] by blast
qed

lemma store_after:
  assumes "store X limit n d m hs" and "u \<in># hs" and "m u = Some b" and "handle u (length b) di"
  shows "\<exists>d'. dm_After x di d = (Ok (), d') \<and> store X limit n d' m hs"
proof -
  obtain k off where a: "UUID2Address u = (k, off)" by fastforce
  obtain pg where pg: "cache (pc_c (dm_pc d)) (Pgno2UUID k) = Some pg" "pg_data pg = pc_content (dm_pc d) k"
    using held_page_cached [OF assms(1,2)] a by (auto simp: page_of_def)
  have i: "item_at (dm_pc d) u b" using assms(1,3) by (simp add: store_def holds_items_def)
  note it = item_atD [OF i a]
  have raw: "di_raw di pg = item_raw 0 b" using handle_view(1) [OF assms(4) i] pg(2) a by simp
  obtain ds where ds: "dm_inv d (X + page_handles hs) ds" using assms(1) by (auto simp: store_def)
  let ?log = "enc_op (Upd x k off (di_oldraw di) (item_raw 0 b))"
  have u: "UpdateLog x di pg = Ok ?log"
    using UpdateLog_eq [of di pg k off x] raw assms(4) it(1) by (simp add: handle_def item_raw_simps)
  have "loggable ?log" using assms(4) it(6) by (simp add: loggable_def handle_def item_raw_simps PAGE_SIZE_def)
  then obtain lg where lg: "lg_Log ?log (dm_lg d) = (Ok (), lg)" "lg_holds (ds @ [?log]) lg"
    using lg_Log_holds [of ds "dm_lg d"] ds by (auto simp: dm_inv_def simp del: enc_op.simps)
  have "dm_After x di d = (Ok (), d\<lparr>dm_lg := lg\<rparr>)"
    using pg(1) a u lg(1) assms(4) by (simp add: dm_After_def logDataitem_def item_page_def on_lg_def handle_def del: enc_op.simps)
  moreover have "dm_inv (d\<lparr>dm_lg := lg\<rparr>) (X + page_handles hs) (ds @ [?log])" using ds lg(2) by (simp add: dm_inv_def)
  then have "store X limit n (d\<lparr>dm_lg := lg\<rparr>) m hs" using assms(1) by (auto simp: store_def)
  ultimately show ?thesis by blast
qed

interpretation dms: item_store "store X limit" limit for X limit
proof
  show "m NilUUID = None" if "store X limit n d m hs" for n d m hs
  proof (rule ccontr)
    assume "m NilUUID \<noteq> None"
    then obtain b where "m NilUUID = Some b" by blast
    then have "item_at (dm_pc d) NilUUID b" using that by (simp add: store_def holds_items_def)
    then have "in_db (dm_pc d) 0" by (auto simp: item_at_def UUID2Address_eq NilUUID_def)
    then show False by (simp add: in_db_def)
  qed
  show "u < UUID_INF" if "store X limit n d m hs" "m u = Some b" for n d m hs u b
  proof -
    have "item_at (dm_pc d) u b" using that by (simp add: store_def holds_items_def)
    then obtain k off where u: "u = Address2UUID k off" by (auto simp: item_at_def split: prod.splits)
    then show ?thesis using Address2UUID_less by simp
  qed
  show "store X limit n d m hs" if "store X limit (Suc n) d m hs" for n d m hs using that by (simp add: store_def)
qed (fact store_read store_data(1) store_release store_insert store_before store_write store_after store_unbefore)+

end
