(* ===== verification/Index.thy ===== *)
theory Index
  imports BTree Store
begin

text \<open>
  What an index does, over a store of items (\<open>item_store\<close>). A tree has one level of leaves or a level of leaves below a level of inner
  nodes: \<open>insert\<close> of \<^verbatim>\<open>im/tree.go\<close> drops the outcome of splitting an inner node, so the inner level grows to the right and never gets a level above
  it. Each level is a chain linked by siblings. The slots of the inner chain need not be in the order of the leaves: a pair that is greater than every key of
  the leaf the search ends in goes to the next leaf, also when the separator says otherwise. What holds, and is enough for searches, is that all keys in leaves
  before a son are less than the separator before its slot.
\<close>

section \<open>Chains of nodes\<close>

type_synonym slot = "UUID \<times> UUID"
type_synonym chain = "(UUID \<times> slot list) list"

definition node_at :: "(UUID \<rightharpoonup> bytes) \<Rightarrow> bool \<Rightarrow> UUID \<Rightarrow> slot list \<Rightarrow> UUID \<Rightarrow> bool" where
  "node_at m leaf u es sib \<longleftrightarrow> (\<exists>raw. m u = Some raw \<and> node_ok raw \<and> leafAt raw = leaf \<and> slots raw = es \<and> siblingAt raw = sib)"

definition next_of :: "chain \<Rightarrow> UUID" where
  "next_of ns = (case ns of [] \<Rightarrow> NilUUID | n # _ \<Rightarrow> fst n)"

fun linked :: "(UUID \<rightharpoonup> bytes) \<Rightarrow> bool \<Rightarrow> chain \<Rightarrow> bool" where
  "linked m leaf [] = True"
| "linked m leaf ((u, es) # ns) \<longleftrightarrow> node_at m leaf u es (next_of ns) \<and> length es < 64 \<and> linked m leaf ns"

definition contents :: "chain \<Rightarrow> slot list" where
  "contents ns = concat (map snd ns)"

lemma contents_simps [simp]: "contents [] = []" "contents ((u, es) # ns) = es @ contents ns" "contents (xs @ ys) = contents xs @ contents ys"
  by (simp_all add: contents_def)

lemma next_of_simps [simp]: "next_of [] = NilUUID" "next_of (n # ns) = fst n"
  by (simp_all add: next_of_def)

lemma find_append: "find P (xs @ ys) = (case find P xs of None \<Rightarrow> find P ys | Some x \<Rightarrow> Some x)"
  by (induction xs) simp_all

lemma linked_append: "linked m leaf (xs @ (u, es) # ys) \<Longrightarrow> linked m leaf ((u, es) # ys)"
  by (induction m leaf xs rule: linked.induct) auto

lemma linked_stored: "linked m leaf ns \<Longrightarrow> u \<in> fst ` set ns \<Longrightarrow> m u \<noteq> None"
  by (induction m leaf ns rule: linked.induct) (auto simp: node_at_def)

lemma node_at_frame: "node_at m leaf u es sib \<Longrightarrow> m' u = m u \<Longrightarrow> node_at m' leaf u es sib"
  by (simp add: node_at_def)

lemma linked_frame: "linked m leaf ns \<Longrightarrow> (\<And>u. u \<in> fst ` set ns \<Longrightarrow> m' u = m u) \<Longrightarrow> linked m' leaf ns"
  by (induction m leaf ns rule: linked.induct) (auto intro: node_at_frame)

lemma node_at_getters:
  assumes "node_at m leaf u es sib" and "m u = Some raw"
  shows "getRawIsLeaf raw = Ok leaf" "getRawSibling raw = Ok sib" "node_ok raw" "slots raw = es" "siblingAt raw = sib" "leafAt raw = leaf" "length raw = NODE_SIZE"
  using assms by (auto simp: node_at_def node_ok_def getters)

section \<open>Search\<close>

context item_store
begin

text \<open>Looking at a node: load it, read its bytes, release it.\<close>

lemma visit:
  assumes "inv n d m hs" and "m u = Some raw" and "size hs < limit"
  obtains di d1 d2 where "loadNode u d = (Ok di, d1)" "handle u (length raw) di" "dm_Data di d1 = Ok raw" "inv n d1 m (add_mset u hs)"
    "node_Release di d1 = (Ok (), d2)" "inv n d2 m hs"
proof -
  obtain di d1 where r: "dm_Read u d = (Ok (Some di), d1)" "handle u (length raw) di" "inv n d1 m (add_mset u hs)"
    using read_law [OF assms] by blast
  obtain d2 where "ReleaseDataitem u d1 = (Ok (), d2)" "inv n d2 m hs" using release_law [OF r(3), of u] by auto
  then show thesis using that [of di d1 d2] r data_law [OF r(3) _ assms(2) r(2)] by (simp add: loadNode_def node_Release_def handle_def)
qed

lemma searchNext_finds:
  assumes "inv n d m hs" and "size hs < limit" and "linked m False ((u, es) # ns)" and "find (\<lambda>e. key < snd e) (es @ contents ns) = Some e" and "fst e \<noteq> NilUUID"
  shows "\<exists>d'. searchNext u key d = Some (Ok (fst e), d') \<and> inv n d' m hs"
  using assms
proof (induction ns arbitrary: u es d)
  case Nil
  obtain raw where raw: "m u = Some raw" "node_at m False u es NilUUID" using Nil.prems(3) by (auto simp: node_at_def)
  obtain di d1 d2 where v: "loadNode u d = (Ok di, d1)" "dm_Data di d1 = Ok raw" "node_Release di d1 = (Ok (), d2)" "inv n d2 m hs"
    using visit [OF Nil.prems(1) raw(1) Nil.prems(2)] by blast
  have "node_SearchNext raw key = Ok (fst e, NilUUID)"
    using SearchNext_slots [of raw key] node_at_getters [OF raw(2,1)] Nil.prems(4) by simp
  then show ?case using v Nil.prems(5) by (subst searchNext.simps) simp
next
  case (Cons n1 ns)
  obtain w ws where n1: "n1 = (w, ws)" by fastforce
  obtain raw where raw: "m u = Some raw" "node_at m False u es w" using Cons.prems(3) n1 by (auto simp: node_at_def)
  obtain di d1 d2 where v: "loadNode u d = (Ok di, d1)" "dm_Data di d1 = Ok raw" "node_Release di d1 = (Ok (), d2)" "inv n d2 m hs"
    using visit [OF Cons.prems(1) raw(1) Cons.prems(2)] by blast
  note g = node_at_getters [OF raw(2,1)]
  show ?case
  proof (cases "find (\<lambda>e. key < snd e) es")
    case None
    then have "node_SearchNext raw key = Ok (NilUUID, w)" using SearchNext_slots [of raw key] g by simp
    moreover have "find (\<lambda>e. key < snd e) (ws @ contents ns) = Some e" using Cons.prems(4) None n1 by (simp add: find_append)
    then have "\<exists>d'. searchNext w key d2 = Some (Ok (fst e), d') \<and> inv n d' m hs"
      using Cons.IH [OF v(4) Cons.prems(2), of w ws] Cons.prems(3,5) n1 by simp
    ultimately show ?thesis using v by (subst searchNext.simps) simp
  next
    case (Some e')
    then have "e' = e" using Cons.prems(4) by (simp add: find_append)
    then have "node_SearchNext raw key = Ok (fst e, NilUUID)" using SearchNext_slots [of raw key] g Some by simp
    then show ?thesis using v Cons.prems(5) by (subst searchNext.simps) simp
  qed
qed

lemma collectLeaves_exact:
  assumes "inv n d m hs" and "size hs < limit" and "linked m True ((u, es) # ns)" and "sorted (map snd (es @ contents ns))" and "l \<le> r"
    and "\<And>w. w \<in> fst ` set ns \<Longrightarrow> w \<noteq> NilUUID"
  shows "\<exists>d'. collectLeaves u l r acc d = Some (Ok (acc @ map fst (filter (\<lambda>e. l \<le> snd e \<and> snd e \<le> r) (es @ contents ns))), d') \<and> inv n d' m hs"
  using assms
proof (induction ns arbitrary: u es d acc)
  case Nil
  obtain raw where raw: "m u = Some raw" "node_at m True u es NilUUID" using Nil.prems(3) by (auto simp: node_at_def)
  obtain di d1 d2 where v: "loadNode u d = (Ok di, d1)" "dm_Data di d1 = Ok raw" "node_Release di d1 = (Ok (), d2)" "inv n d2 m hs"
    using visit [OF Nil.prems(1) raw(1) Nil.prems(2)] by blast
  note g = node_at_getters [OF raw(2,1)]
  have "node_LeafSearchRange raw l r = Ok (map fst (filter (\<lambda>e. l \<le> snd e \<and> snd e \<le> r) es), NilUUID)"
    using LeafSearchRange_slots [of raw l r] g Nil.prems(4,5) by simp
  then show ?case using v by (subst collectLeaves.simps) simp
next
  case (Cons n1 ns)
  obtain w ws where n1: "n1 = (w, ws)" by fastforce
  obtain raw where raw: "m u = Some raw" "node_at m True u es w" using Cons.prems(3) n1 by (auto simp: node_at_def)
  obtain di d1 d2 where v: "loadNode u d = (Ok di, d1)" "dm_Data di d1 = Ok raw" "node_Release di d1 = (Ok (), d2)" "inv n d2 m hs"
    using visit [OF Cons.prems(1) raw(1) Cons.prems(2)] by blast
  note g = node_at_getters [OF raw(2,1)]
  have w: "w \<noteq> NilUUID" using Cons.prems(6) n1 by simp
  have s: "node_LeafSearchRange raw l r = Ok (map fst (filter (\<lambda>e. l \<le> snd e \<and> snd e \<le> r) es), if \<forall>e \<in> set es. snd e \<le> r then w else NilUUID)"
    using LeafSearchRange_slots [of raw l r] g Cons.prems(4,5) by (simp add: sorted_append)
  show ?case
  proof (cases "\<forall>e \<in> set es. snd e \<le> r")
    case True
    have "\<exists>d'. collectLeaves w l r (acc @ map fst (filter (\<lambda>e. l \<le> snd e \<and> snd e \<le> r) es)) d2 =
        Some (Ok ((acc @ map fst (filter (\<lambda>e. l \<le> snd e \<and> snd e \<le> r) es)) @ map fst (filter (\<lambda>e. l \<le> snd e \<and> snd e \<le> r) (ws @ contents ns))), d') \<and> inv n d' m hs"
      by (rule Cons.IH [OF v(4) Cons.prems(2) _ _ Cons.prems(5)]) (use Cons.prems(3,4,6) n1 in \<open>auto simp: sorted_append\<close>)
    then show ?thesis using v s True w n1 by (subst collectLeaves.simps) simp
  next
    case False
    then obtain e where e: "e \<in> set es" "r < snd e" by auto
    have "filter (\<lambda>e. l \<le> snd e \<and> snd e \<le> r) (contents (n1 # ns)) = []"
    proof -
      have "r < snd f" if "f \<in> set (contents (n1 # ns))" for f using Cons.prems(4) e that by (fastforce simp: sorted_append)
      then show ?thesis by (intro filter_False) (meson leD)
    qed
    then show ?thesis using v s False by (subst collectLeaves.simps) simp
  qed
qed

text \<open>A leaf is where the descent ends.\<close>

lemma searchLeaf_leaf:
  assumes "inv n d m hs" and "size hs < limit" and "node_at m True u es sib"
  shows "\<exists>d'. searchLeaf u key d = Some (Ok u, d') \<and> inv n d' m hs"
proof -
  obtain raw where raw: "m u = Some raw" using assms(3) by (auto simp: node_at_def)
  obtain di d1 d2 where v: "loadNode u d = (Ok di, d1)" "dm_Data di d1 = Ok raw" "node_Release di d1 = (Ok (), d2)" "inv n d2 m hs"
    using visit [OF assms(1) raw assms(2)] by blast
  then show ?thesis using node_at_getters(1) [OF assms(3) raw] by (subst searchLeaf.simps) (simp add: node_IsLeaf_def)
qed

lemma searchLeaf_inner:
  assumes "inv n d m hs" and "size hs < limit" and "linked m False ((u, es) # ns)" and "find (\<lambda>e. key < snd e) (es @ contents ns) = Some e"
    and "node_at m True (fst e) es' sib"
  shows "\<exists>d'. searchLeaf u key d = Some (Ok (fst e), d') \<and> inv n d' m hs"
proof -
  obtain raw where raw: "m u = Some raw" "node_at m False u es (next_of ns)" using assms(3) by (auto simp: node_at_def)
  obtain di d1 d2 where v: "loadNode u d = (Ok di, d1)" "dm_Data di d1 = Ok raw" "node_Release di d1 = (Ok (), d2)" "inv n d2 m hs"
    using visit [OF assms(1) raw(1) assms(2)] by blast
  have "fst e \<noteq> NilUUID" using assms(5) nil_law [OF assms(1)] by (auto simp: node_at_def)
  then obtain d3 where d3: "searchNext u key d2 = Some (Ok (fst e), d3)" "inv n d3 m hs"
    using searchNext_finds [OF v(4) assms(2-4)] by blast
  obtain d4 where "searchLeaf (fst e) key d3 = Some (Ok (fst e), d4)" "inv n d4 m hs"
    using searchLeaf_leaf [OF d3(2) assms(2,5)] by blast
  then show ?thesis using v d3 node_at_getters(1) [OF raw(2,1)] by (subst searchLeaf.simps) (simp add: node_IsLeaf_def)
qed

end

section \<open>Trees\<close>

text \<open>The leaves before \<open>w\<close>, and the slots of the inner level: every separator is greater than all keys in leaves before the next son.\<close>

definition before :: "UUID \<Rightarrow> chain \<Rightarrow> chain" where
  "before w ns = takeWhile (\<lambda>n. fst n \<noteq> w) ns"

definition leads :: "chain \<Rightarrow> UUID \<Rightarrow> UUID \<Rightarrow> bool" where
  "leads L w k \<longleftrightarrow> w \<in> fst ` set L \<and> (\<forall>e \<in> set (contents (before w L)). snd e < k)"

definition guides :: "slot list \<Rightarrow> chain \<Rightarrow> bool" where
  "guides S L \<longleftrightarrow> S \<noteq> [] \<and> snd (last S) = UUID_INF \<and> sorted (map snd S) \<and> L \<noteq> [] \<and> fst (hd S) = fst (hd L) \<and>
     successively (\<lambda>s t. leads L (fst t) (snd s)) S"

text \<open>A tree with its root, its inner nodes (none, when the root is a leaf) and its leaves.\<close>

definition tree :: "(UUID \<rightharpoonup> bytes) \<Rightarrow> UUID \<Rightarrow> chain \<Rightarrow> chain \<Rightarrow> bool" where
  "tree m root I L \<longleftrightarrow> linked m False I \<and> linked m True L \<and> distinct (map fst (I @ L)) \<and>
     sorted (map snd (contents L)) \<and> distinct (map snd (contents L)) \<and>
     (if I = [] then (\<exists>es. L = [(root, es)]) else fst (hd I) = root \<and> guides (contents I) L)"

lemma before_split:
  assumes "w \<in> fst ` set L"
  obtains es ys where "L = before w L @ (w, es) # ys"
proof -
  have "dropWhile (\<lambda>n. fst n \<noteq> w) L \<noteq> []" using assms by auto
  then obtain n ys where n: "dropWhile (\<lambda>n. fst n \<noteq> w) L = n # ys" by (meson neq_Nil_conv)
  then have "fst n = w" using hd_dropWhile [of "\<lambda>n. fst n \<noteq> w" L] by simp
  moreover have "L = before w L @ n # ys" using takeWhile_dropWhile_id [of "\<lambda>n. fst n \<noteq> w" L] n by (simp add: before_def)
  ultimately show thesis using that [of "snd n" ys] by (metis prod.collapse)
qed

text \<open>The slot a search follows leads to a leaf before which all keys are less.\<close>

lemma guides_find:
  assumes "guides S L" and "key < UUID_INF"
  obtains e where "find (\<lambda>e. key < snd e) S = Some e" "fst e \<in> fst ` set L" "\<forall>f \<in> set (contents (before (fst e) L)). snd f < key"
proof -
  have s: "S \<noteq> []" "snd (last S) = UUID_INF" "fst (hd S) = fst (hd L)" "L \<noteq> []" "successively (\<lambda>s t. leads L (fst t) (snd s)) S"
    using assms(1) by (simp_all add: guides_def)
  have "\<exists>x \<in> set S. key < snd x" using s(1,2) assms(2) last_in_set by metis
  then obtain e where e: "find (\<lambda>e. key < snd e) S = Some e" by (metis find_None_iff option.exhaust)
  obtain i where i: "i < length S" "e = S ! i" "\<forall>j < i. \<not> key < snd (S ! j)" using e by (auto simp: find_Some_iff)
  show thesis
  proof (cases i)
    case 0
    then have "fst e = fst (hd L)" using i(2) s(1,3) by (simp add: hd_conv_nth)
    then show ?thesis using that [OF e] s(4) by (cases L) (auto simp: before_def)
  next
    case (Suc j)
    then have "leads L (fst e) (snd (S ! j))" using i s(5) by (auto simp: successively_conv_nth)
    moreover have "snd (S ! j) \<le> key" using i(3) Suc by (simp add: not_less)
    ultimately show ?thesis using that [OF e] unfolding leads_def by (meson less_le_trans)
  qed
qed

text \<open>An index in use: its boot item, which the caller holds, names the root of the tree.\<close>

definition index :: "(UUID \<rightharpoonup> bytes) \<Rightarrow> UUID multiset \<Rightarrow> bPlusTree \<Rightarrow> chain \<Rightarrow> chain \<Rightarrow> bool" where
  "index m hs bt I L \<longleftrightarrow> bt_bootUUID bt \<in># hs \<and> handle (bt_bootUUID bt) 8 (bt_bootDataitem bt) \<and>
     (\<exists>root. m (bt_bootUUID bt) = Some (UUIDToRaw root) \<and> tree m root I L)"

text \<open>The items of an index.\<close>

definition foot :: "bPlusTree \<Rightarrow> chain \<Rightarrow> chain \<Rightarrow> UUID set" where
  "foot bt I L = insert (bt_bootUUID bt) (fst ` set (I @ L))"

lemma tree_leaves_nonempty: "tree m root I L \<Longrightarrow> L \<noteq> []"
  by (auto simp: tree_def guides_def split: if_splits)

lemma node_not_boot: "linked m leaf ns \<Longrightarrow> m b = Some (UUIDToRaw root) \<Longrightarrow> b \<notin> fst ` set ns"
  by (induction m leaf ns rule: linked.induct) (auto simp: node_at_def node_ok_def NODE_SIZE_eq)

lemma linked_suffix: "linked m leaf (xs @ ys) \<Longrightarrow> linked m leaf ys"
  by (induction m leaf xs rule: linked.induct) auto

context item_store
begin

lemma rootUUID_index:
  assumes "inv n d m hs" and "bt_bootUUID bt \<in># hs" and "handle (bt_bootUUID bt) 8 (bt_bootDataitem bt)" and "m (bt_bootUUID bt) = Some (UUIDToRaw root)"
  shows "rootUUID bt d = Ok root"
  using data_law [OF assms(1,2,4)] assms(3) by (simp add: rootUUID_def be_simps)

text \<open>The leaf where a search for \<open>key\<close> starts.\<close>

lemma searchLeaf_tree:
  assumes "inv n d m hs" and "size hs < limit" and "tree m root I L" and "key < UUID_INF"
  obtains w d' where "searchLeaf root key d = Some (Ok w, d')" "inv n d' m hs" "w \<in> fst ` set L" "\<forall>f \<in> set (contents (before w L)). snd f < key"
proof (cases "I = []")
  case True
  then obtain es where L: "L = [(root, es)]" "node_at m True root es NilUUID" using assms(3) by (auto simp: tree_def)
  then show ?thesis using searchLeaf_leaf [OF assms(1,2) L(2), of key] that [of root] by (auto simp: before_def)
next
  case False
  then obtain es ns where I: "I = (root, es) # ns" "linked m False I" "guides (contents I) L" "linked m True L" using assms(3)
    by (cases I) (auto simp: tree_def)
  obtain e where e: "find (\<lambda>e. key < snd e) (contents I) = Some e" "fst e \<in> fst ` set L" "\<forall>f \<in> set (contents (before (fst e) L)). snd f < key"
    using guides_find [OF I(3) assms(4)] by blast
  obtain ws ys where "L = before (fst e) L @ (fst e, ws) # ys" using before_split [OF e(2)] by blast
  then have "linked m True ((fst e, ws) # ys)" using linked_append I(4) by metis
  then have "node_at m True (fst e) ws (next_of ys)" by simp
  then obtain d' where "searchLeaf root key d = Some (Ok (fst e), d')" "inv n d' m hs"
    using searchLeaf_inner [OF assms(1,2), of root es ns key e] I(1,2) e(1) by auto
  then show ?thesis using that e(2,3) by blast
qed

lemma SearchRange_index:
  assumes "inv n d m hs" and "size hs < limit" and "index m hs bt I L" and "l \<le> r" and "l < UUID_INF"
  shows "\<exists>d'. SearchRange bt l r d = Some (Ok (map fst (filter (\<lambda>e. l \<le> snd e \<and> snd e \<le> r) (contents L))), d') \<and> inv n d' m hs"
proof -
  obtain root where t: "m (bt_bootUUID bt) = Some (UUIDToRaw root)" "tree m root I L" using assms(3) by (auto simp: index_def)
  have rt: "rootUUID bt d = Ok root" using rootUUID_index [OF assms(1) _ _ t(1)] assms(3) by (simp add: index_def)
  obtain w d1 where w: "searchLeaf root l d = Some (Ok w, d1)" "inv n d1 m hs" "w \<in> fst ` set L" "\<forall>f \<in> set (contents (before w L)). snd f < l"
    using searchLeaf_tree [OF assms(1,2) t(2) assms(5)] by blast
  obtain es ys where L: "L = before w L @ (w, es) # ys" using before_split [OF w(3)] by blast
  have T: "linked m True L" "sorted (map snd (contents L))" using t(2) by (simp_all add: tree_def)
  have lk: "linked m True ((w, es) # ys)" using linked_append T(1) L by metis
  have so: "sorted (map snd (es @ contents ys))" using T(2) by (subst (asm) L) (simp add: sorted_append)
  have "\<exists>d'. collectLeaves w l r [] d1 = Some (Ok ([] @ map fst (filter (\<lambda>e. l \<le> snd e \<and> snd e \<le> r) (es @ contents ys))), d') \<and> inv n d' m hs"
  proof (rule collectLeaves_exact [OF w(2) assms(2) lk so assms(4)])
    show "v \<noteq> NilUUID" if "v \<in> fst ` set ys" for v
      using linked_stored [of m True ys v] lk that nil_law [OF assms(1)] by auto
  qed
  moreover have "filter (\<lambda>e. l \<le> snd e \<and> snd e \<le> r) (contents (before w L)) = []" using w(4) by (intro filter_False) (meson leD)
  then have "filter (\<lambda>e. l \<le> snd e \<and> snd e \<le> r) (contents L) = filter (\<lambda>e. l \<le> snd e \<and> snd e \<le> r) (es @ contents ys)" by (subst L) simp
  ultimately show ?thesis using rt w(1) by (simp add: SearchRange_def)
qed

end

section \<open>Insertion into a chain\<close>

text \<open>What \<open>insert\<close> of a node makes of its slots.\<close>

definition put_slot :: "bool \<Rightarrow> UUID \<Rightarrow> UUID \<Rightarrow> slot list \<Rightarrow> slot list" where
  "put_slot leaf uuid key es =
     (let r = rank key es in
      if leaf then take r es @ (uuid, key) # drop r es
      else take r es @ (fst (es ! r), key) # (uuid, snd (es ! r)) # drop (Suc r) es)"

definition accepts :: "bool \<Rightarrow> UUID \<Rightarrow> slot list \<Rightarrow> chain \<Rightarrow> bool" where
  "accepts leaf key es ns \<longleftrightarrow> (\<exists>e \<in> set es. key \<le> snd e) \<or> (leaf \<and> ns = [])"

lemma rank_full: "rank key es = length es \<longleftrightarrow> (\<forall>e \<in> set es. snd e < key)"
  by (auto simp: rank_def takeWhile_all_length)

lemma length_put_slot: "leaf \<or> rank key es < length es \<Longrightarrow> length (put_slot leaf uuid key es) = Suc (length es)"
  using rank_le [of key es] by (auto simp: put_slot_def Let_def)

lemma node_insert_refused:
  assumes "node_ok raw" and "\<forall>e \<in> set (slots raw). snd e < key" and "siblingAt raw \<noteq> NilUUID"
  shows "node_insert uuid key raw = Ok (False, raw)"
proof -
  have "rank key (slots raw) = noKeysAt raw" using assms(2) rank_full [of key "slots raw"] by simp
  then show ?thesis using assms(1,3) firstAtLeast_slots [OF assms(1), of key] by (simp add: node_insert_def node_ok_def getters rank_def)
qed

lemma node_insert_accepted:
  assumes "node_ok raw" and "(\<exists>e \<in> set (slots raw). key \<le> snd e) \<or> (leafAt raw \<and> siblingAt raw = NilUUID)"
  obtains raw' where "node_insert uuid key raw = Ok (True, raw')" "length raw' = NODE_SIZE" "leafAt raw' = leafAt raw" "siblingAt raw' = siblingAt raw"
    "slots raw' = put_slot (leafAt raw) uuid key (slots raw)"
proof (cases "leafAt raw")
  case True
  have "rank key (slots raw) \<noteq> noKeysAt raw \<or> siblingAt raw = NilUUID"
    using assms(2) rank_full [of key "slots raw"] by (auto simp: not_less)
  then show thesis using leaf_insert_slots [OF assms(1) True, of key uuid] that True by (auto simp: put_slot_def Let_def)
next
  case False
  then have "rank key (slots raw) \<noteq> length (slots raw)" using assms(2) rank_full [of key "slots raw"] by (auto simp: not_less)
  then have "rank key (slots raw) < noKeysAt raw" using rank_le [of key "slots raw"] by simp
  then show thesis using inner_insert_slots [OF assms(1) False, of key uuid] that False by (auto simp: put_slot_def Let_def)
qed

context item_store
begin

text \<open>\<open>insertAndSplit\<close> of one node whose handle is held: the three outcomes.\<close>

lemma node_step_refused:
  assumes "inv n d m hs" and "u \<in># hs" and "m u = Some raw" and "handle u (length raw) di" and "node_at m leaf u es sib"
    and "\<forall>e \<in> set es. snd e < key" and "sib \<noteq> NilUUID"
  shows "\<exists>d'. node_insertAndSplit di uuid key d = (Ok (sib, NilUUID, NilUUID), d') \<and> inv n d' m hs"
proof -
  note g = node_at_getters [OF assms(5,3)]
  obtain di' d1 where b: "dm_Before di d = (Ok di', d1)" "handle u (length raw) di'" "di_oldraw di' = item_raw 0 raw" "inv n d1 m hs" "touched d1 u"
    using before_law [OF assms(1-4)] by blast
  have dt: "dm_Data di' d1 = Ok raw" by (rule data_law [OF b(4) assms(2,3) b(2)])
  obtain d2 where d2: "dm_UnBefore di' d1 = (Ok (), d2)" "inv n d2 m hs"
    using unbefore_law [OF b(4) assms(2,3) b(2,5) refl b(3)] assms(3) by (auto simp: fun_upd_idem)
  have "node_insert uuid key raw = Ok (False, raw)" by (rule node_insert_refused) (use g assms(6,7) in simp_all)
  then show ?thesis using b(1) dt d2 g(2) by (simp add: node_insertAndSplit_def)
qed

lemma node_step_put:
  assumes "inv n d m hs" and "u \<in># hs" and "m u = Some raw" and "handle u (length raw) di" and "node_at m leaf u es (next_of ns)"
    and "accepts leaf key es ns" and "length es < 63"
  shows "\<exists>d' raw'. node_insertAndSplit di uuid key d = (Ok (NilUUID, NilUUID, NilUUID), d') \<and> inv n d' (m(u \<mapsto> raw')) hs \<and>
     node_at (m(u \<mapsto> raw')) leaf u (put_slot leaf uuid key es) (next_of ns)"
proof -
  note g = node_at_getters [OF assms(5,3)]
  obtain di' d1 where b: "dm_Before di d = (Ok di', d1)" "handle u (length raw) di'" "inv n d1 m hs" "touched d1 u"
    using before_law [OF assms(1-4)] by blast
  have dt: "dm_Data di' d1 = Ok raw" by (rule data_law [OF b(3) assms(2,3) b(2)])
  have ac: "(\<exists>e \<in> set (slots raw). key \<le> snd e) \<or> (leafAt raw \<and> siblingAt raw = NilUUID)" using assms(6) g(4-6) by (auto simp: accepts_def)
  obtain raw' where r: "node_insert uuid key raw = Ok (True, raw')" "length raw' = NODE_SIZE" "leafAt raw' = leaf" "siblingAt raw' = next_of ns"
    "slots raw' = put_slot leaf uuid key es" using node_insert_accepted [OF g(3) ac, of uuid] g(4-6) by metis
  have "leaf \<or> rank key es < length es" using assms(6) rank_le [of key es] rank_full [of key es] by (auto simp: accepts_def not_less)
  then have nk: "noKeysAt raw' = Suc (length es)" using length_slots [of raw'] r(5) length_put_slot [of leaf key es uuid] by simp
  obtain d2 where d2: "dm_write di' raw' d1 = (Ok (), d2)" "inv n d2 (m(u \<mapsto> raw')) hs"
    using write_law [OF b(3) assms(2,3) b(2,4), of raw'] r(2) g(7) by auto
  obtain d3 where d3: "dm_After SUPER_XID di' d2 = (Ok (), d3)" "inv n d3 (m(u \<mapsto> raw')) hs"
    using after_law [OF d2(2) assms(2), of raw' di' SUPER_XID] b(2) r(2) g(7) by auto
  have "needSplit raw' = Ok False" using r(2) nk assms(7) by (simp add: needSplit_def getters node_consts)
  then have "node_insertAndSplit di uuid key d = (Ok (NilUUID, NilUUID, NilUUID), d3)" using b(1) dt r(1) d2(1) d3(1) by (simp add: node_insertAndSplit_def)
  moreover have "node_at (m(u \<mapsto> raw')) leaf u (put_slot leaf uuid key es) (next_of ns)" using r nk assms(7) by (simp add: node_at_def node_ok_def)
  ultimately show ?thesis using d3(2) by blast
qed

lemma node_step_split:
  assumes "inv (Suc n) d m hs" and "u \<in># hs" and "m u = Some raw" and "handle u (length raw) di" and "node_at m leaf u es (next_of ns)"
    and "accepts leaf key es ns" and "length es = 63" and "size hs < limit"
  shows "\<exists>d' v new old. node_insertAndSplit di uuid key d = (Ok (NilUUID, v, snd (put_slot leaf uuid key es ! 32)), d') \<and> m v = None \<and>
     inv n d' (m(v \<mapsto> new, u \<mapsto> old)) hs \<and> node_at (m(v \<mapsto> new, u \<mapsto> old)) leaf u (take 32 (put_slot leaf uuid key es)) v \<and>
     node_at (m(v \<mapsto> new, u \<mapsto> old)) leaf v (drop 32 (put_slot leaf uuid key es)) (next_of ns)"
proof -
  note g = node_at_getters [OF assms(5,3)]
  let ?es = "put_slot leaf uuid key es"
  obtain di' d1 where b: "dm_Before di d = (Ok di', d1)" "handle u (length raw) di'" "inv (Suc n) d1 m hs" "touched d1 u"
    using before_law [OF assms(1-4)] by blast
  have dt: "dm_Data di' d1 = Ok raw" by (rule data_law [OF b(3) assms(2,3) b(2)])
  have ac: "(\<exists>e \<in> set (slots raw). key \<le> snd e) \<or> (leafAt raw \<and> siblingAt raw = NilUUID)" using assms(6) g(4-6) by (auto simp: accepts_def)
  obtain raw' where r: "node_insert uuid key raw = Ok (True, raw')" "length raw' = NODE_SIZE" "leafAt raw' = leaf" "siblingAt raw' = next_of ns"
    "slots raw' = ?es" using node_insert_accepted [OF g(3) ac, of uuid] g(4-6) by metis
  have "leaf \<or> rank key es < length es" using assms(6) rank_le [of key es] rank_full [of key es] by (auto simp: accepts_def not_less)
  then have nk: "noKeysAt raw' = 64" using length_slots [of raw'] r(5) length_put_slot [of leaf key es uuid] assms(7) by simp
  then have ok: "node_ok raw'" using r(2) by (simp add: node_ok_def)
  have full: "needSplit raw' = Ok True" using r(2) nk by (simp add: needSplit_def getters node_consts)
  have h': "handle u (length raw') di'" using b(2) r(2) g(7) by simp
  obtain d2 where d2: "dm_write di' raw' d1 = (Ok (), d2)" "inv (Suc n) d2 (m(u \<mapsto> raw')) hs" "touched d2 u"
    using write_law [OF b(3) assms(2,3) b(2,4), of raw'] r(2) g(7) by auto
  have dt2: "dm_Data di' d2 = Ok raw'" by (rule data_law [OF d2(2) assms(2) _ h']) simp
  obtain new where new: "splitNew raw' = Ok new" "node_ok new" "leafAt new = leaf" "siblingAt new = next_of ns" "slots new = drop 32 ?es"
    "getRawKthKey new 0 = Ok (snd (?es ! 32))" using split_slots [OF ok nk] r(3-5) by metis
  have "length new \<le> max_item" using new(2) by (simp add: node_ok_def NODE_SIZE_eq max_item_def pi_defs)
  then obtain v d3 where d3: "dm_Insert SUPER_XID new d2 = (Ok v, d3)" "(m(u \<mapsto> raw')) v = None" "inv n d3 (m(u \<mapsto> raw', v \<mapsto> new)) hs" "touched d3 u"
    using insert_law [OF d2(2) assms(8), of new SUPER_XID] assms(2) d2(3) by blast
  have vu: "v \<noteq> u" "m v = None" using d3(2) by (auto split: if_splits)
  have dt3: "dm_Data di' d3 = Ok raw'" by (rule data_law [OF d3(3) assms(2) _ h']) (use vu in simp)
  obtain old where old: "splitOld raw' v = Ok old" "node_ok old" "leafAt old = leaf" "siblingAt old = v" "slots old = take 32 ?es"
    using split_slots [OF ok nk, of v] r(3-5) by metis
  have lo: "length old = length raw'" using old(2) r(2) by (simp add: node_ok_def)
  obtain d4 where d4: "dm_write di' old d3 = (Ok (), d4)" "inv n d4 (m(u \<mapsto> raw', v \<mapsto> new, u \<mapsto> old)) hs"
    using write_law [OF d3(3) assms(2) _ h' d3(4) lo] vu by auto
  have mm: "m(u \<mapsto> raw', v \<mapsto> new, u \<mapsto> old) = m(v \<mapsto> new, u \<mapsto> old)" using vu by auto
  obtain d5 where d5: "dm_After SUPER_XID di' d4 = (Ok (), d5)" "inv n d5 (m(v \<mapsto> new, u \<mapsto> old)) hs"
    using after_law [OF d4(2) assms(2), of old di' SUPER_XID] h' lo mm by auto
  have "node_split di' d2 = (Ok (v, snd (?es ! 32)), d4)"
    using dt2 new(1,6) d3(1) dt3 old(1) d4(1) by (simp add: node_split_def)
  then have "node_insertAndSplit di uuid key d = (Ok (NilUUID, v, snd (?es ! 32)), d5)"
    using b(1) dt r(1) d2(1) full d5(1) by (simp add: node_insertAndSplit_def)
  moreover have "node_at (m(v \<mapsto> new, u \<mapsto> old)) leaf u (take 32 ?es) v" using old by (simp add: node_at_def)
  moreover have "node_at (m(v \<mapsto> new, u \<mapsto> old)) leaf v (drop 32 ?es) (next_of ns)" using new vu by (simp add: node_at_def)
  ultimately show ?thesis using d5(2) vu(2) by blast
qed

end

text \<open>What insertion makes of a chain: the pair goes into the first node that accepts it, and that node is cut in two when it is full.\<close>

definition grown :: "bool \<Rightarrow> UUID \<Rightarrow> UUID \<Rightarrow> chain \<Rightarrow> chain \<Rightarrow> UUID \<times> UUID \<Rightarrow> bool" where
  "grown leaf uuid key ns ns' out \<longleftrightarrow>
     (\<exists>xs u es ys. ns = xs @ (u, es) # ys \<and> (\<forall>e \<in> set (contents xs). snd e < key) \<and> accepts leaf key es ys \<and>
        (length es < 63 \<and> ns' = xs @ (u, put_slot leaf uuid key es) # ys \<and> out = (NilUUID, NilUUID) \<or>
         length es = 63 \<and> (\<exists>v. v \<noteq> NilUUID \<and> v \<notin> fst ` set ns \<and> out = (v, snd (put_slot leaf uuid key es ! 32)) \<and>
           ns' = xs @ (u, take 32 (put_slot leaf uuid key es)) # (v, drop 32 (put_slot leaf uuid key es)) # ys)))"

lemma grown_head: "grown leaf uuid key (n # ns) ns' out \<Longrightarrow> next_of ns' = fst n"
  by (fastforce simp: grown_def Cons_eq_append_conv)

lemma grown_Cons:
  assumes "grown leaf uuid key ns ns' out" and "\<forall>e \<in> set es. snd e < key" and "fst out \<noteq> u \<or> fst out = NilUUID"
  shows "grown leaf uuid key ((u, es) # ns) ((u, es) # ns') out"
proof -
  obtain xs w ws ys where g: "ns = xs @ (w, ws) # ys" "\<forall>e \<in> set (contents xs). snd e < key" "accepts leaf key ws ys"
    "length ws < 63 \<and> ns' = xs @ (w, put_slot leaf uuid key ws) # ys \<and> out = (NilUUID, NilUUID) \<or>
     length ws = 63 \<and> (\<exists>v. v \<noteq> NilUUID \<and> v \<notin> fst ` set ns \<and> out = (v, snd (put_slot leaf uuid key ws ! 32)) \<and>
       ns' = xs @ (w, take 32 (put_slot leaf uuid key ws)) # (v, drop 32 (put_slot leaf uuid key ws)) # ys)"
    using assms(1) unfolding grown_def by blast
  show ?thesis unfolding grown_def
    by (rule exI [of _ "(u, es) # xs"], rule exI [of _ w], rule exI [of _ ws], rule exI [of _ ys]) (use g assms(2,3) in auto)
qed

context item_store
begin

lemma insertAndSplit_here:
  assumes "inv (Suc n) d m hs" and "Suc (size hs) < limit" and "linked m leaf ((u, es) # ns)" and "distinct (map fst ((u, es) # ns))" and "accepts leaf key es ns"
  shows "\<exists>d' m' ns' out. insertAndSplit u uuid key d = Some (Ok out, d') \<and> inv n d' m' hs \<and> linked m' leaf ns' \<and> grown leaf uuid key ((u, es) # ns) ns' out \<and>
     (\<forall>w. w \<notin> insert u (fst ` set ns) \<and> m w \<noteq> None \<longrightarrow> m' w = m w) \<and> (fst out \<noteq> NilUUID \<longrightarrow> m (fst out) = None)"
proof -
  obtain raw where raw: "m u = Some raw" "node_at m leaf u es (next_of ns)" using assms(3) by (auto simp: node_at_def)
  obtain di d1 where l: "loadNode u d = (Ok di, d1)" "handle u (length raw) di" "inv (Suc n) d1 m (add_mset u hs)"
    using visit [OF assms(1) raw(1)] assms(2) by (metis Suc_lessD)
  have un: "u \<notin> fst ` set ns" using assms(4) by auto
  have rest: "linked m leaf ns" "length es < 64" using assms(3) by simp_all
  show ?thesis
  proof (cases "length es = 63")
    case False
    then have len: "length es < 63" using rest(2) by simp
    obtain d2 raw' where s: "node_insertAndSplit di uuid key d1 = (Ok (NilUUID, NilUUID, NilUUID), d2)" "inv (Suc n) d2 (m(u \<mapsto> raw')) (add_mset u hs)"
      "node_at (m(u \<mapsto> raw')) leaf u (put_slot leaf uuid key es) (next_of ns)"
      using node_step_put [OF l(3) _ raw(1) l(2) raw(2) assms(5) len] by force
    obtain d3 where d3: "ReleaseDataitem u d2 = (Ok (), d3)" "inv (Suc n) d3 (m(u \<mapsto> raw')) hs" using release_law [OF s(2), of u] by auto
    have "insertAndSplit u uuid key d = Some (Ok (NilUUID, NilUUID), d3)"
      using l(1,2) s(1) d3(1) by (subst insertAndSplit.simps) (simp add: node_Release_def handle_def)
    moreover have "linked (m(u \<mapsto> raw')) leaf ((u, put_slot leaf uuid key es) # ns)"
    proof -
      have "leaf \<or> rank key es < length es" using assms(5) rank_le [of key es] rank_full [of key es] by (auto simp: accepts_def not_less)
      then have "length (put_slot leaf uuid key es) < 64" using length_put_slot [of leaf key es uuid] len by simp
      moreover have "linked (m(u \<mapsto> raw')) leaf ns" by (rule linked_frame [OF rest(1)]) (use un in auto)
      ultimately show ?thesis using s(3) by simp
    qed
    moreover have "grown leaf uuid key ((u, es) # ns) ((u, put_slot leaf uuid key es) # ns) (NilUUID, NilUUID)"
      unfolding grown_def by (rule exI [of _ "[]"], rule exI [of _ u], rule exI [of _ es], rule exI [of _ ns]) (use assms(5) len in simp)
    ultimately show ?thesis using fewer_law [OF d3(2)]
      by (intro exI [of _ d3] exI [of _ "m(u \<mapsto> raw')"] exI [of _ "(u, put_slot leaf uuid key es) # ns"] exI [of _ "(NilUUID, NilUUID)"]) simp
  next
    case True
    let ?es = "put_slot leaf uuid key es"
    obtain d2 v new old where s: "node_insertAndSplit di uuid key d1 = (Ok (NilUUID, v, snd (?es ! 32)), d2)" "m v = None"
      "inv n d2 (m(v \<mapsto> new, u \<mapsto> old)) (add_mset u hs)" "node_at (m(v \<mapsto> new, u \<mapsto> old)) leaf u (take 32 ?es) v"
      "node_at (m(v \<mapsto> new, u \<mapsto> old)) leaf v (drop 32 ?es) (next_of ns)"
      using node_step_split [OF l(3) _ raw(1) l(2) raw(2) assms(5) True] assms(2) by force
    let ?m = "m(v \<mapsto> new, u \<mapsto> old)" and ?ns = "(u, take 32 ?es) # (v, drop 32 ?es) # ns"
    obtain d3 where d3: "ReleaseDataitem u d2 = (Ok (), d3)" "inv n d3 ?m hs" using release_law [OF s(3), of u] by auto
    have e: "insertAndSplit u uuid key d = Some (Ok (v, snd (?es ! 32)), d3)"
      using l(1,2) s(1) d3(1) by (subst insertAndSplit.simps) (simp add: node_Release_def handle_def)
    have fresh: "v \<notin> fst ` set ((u, es) # ns)" using linked_stored [OF assms(3)] s(2) by blast
    have "v \<noteq> NilUUID" using nil_law [OF d3(2)] by (auto split: if_splits)
    then have gr: "grown leaf uuid key ((u, es) # ns) ?ns (v, snd (?es ! 32))"
      unfolding grown_def by (intro exI [of _ "[]"] exI [of _ u] exI [of _ es] exI [of _ ns]) (use assms(5) True fresh in auto)
    have "linked ?m leaf ns" by (rule linked_frame [OF rest(1)]) (use un fresh in auto)
    moreover have "length ?es = 64" using assms(5) rank_le [of key es] rank_full [of key es] length_put_slot [of leaf key es uuid] True
      by (auto simp: accepts_def not_less)
    ultimately have lk: "linked ?m leaf ?ns" using s(4,5) by simp
    show ?thesis by (intro exI [of _ d3] exI [of _ ?m] exI [of _ ?ns] exI [of _ "(v, snd (?es ! 32))"] conjI e d3(2) lk gr) (use s(2) in auto)
  qed
qed

lemma insertAndSplit_chain:
  assumes "inv (Suc n) d m hs" and "Suc (size hs) < limit" and "linked m leaf ((u, es) # ns)" and "distinct (map fst ((u, es) # ns))"
    and "leaf \<or> (\<exists>e \<in> set (es @ contents ns). key \<le> snd e)"
  shows "\<exists>d' m' ns' out. insertAndSplit u uuid key d = Some (Ok out, d') \<and> inv n d' m' hs \<and> linked m' leaf ns' \<and> grown leaf uuid key ((u, es) # ns) ns' out \<and>
     (\<forall>w. w \<notin> insert u (fst ` set ns) \<and> m w \<noteq> None \<longrightarrow> m' w = m w) \<and> (fst out \<noteq> NilUUID \<longrightarrow> m (fst out) = None)"
  using assms
proof (induction ns arbitrary: u es d)
  case Nil
  show ?case by (rule insertAndSplit_here [OF Nil.prems(1-4)]) (use Nil.prems(5) in \<open>auto simp: accepts_def\<close>)
next
  case (Cons n1 ns)
  obtain w ws where n1: "n1 = (w, ws)" by fastforce
  show ?case
  proof (cases "accepts leaf key es (n1 # ns)")
    case True
    then show ?thesis by (rule insertAndSplit_here [OF Cons.prems(1-4)])
  next
    case False
    then have less: "\<forall>e \<in> set es. snd e < key" by (auto simp: accepts_def not_le)
    obtain raw where raw: "m u = Some raw" "node_at m leaf u es w" using Cons.prems(3) n1 by (auto simp: node_at_def)
    obtain di d1 where l: "loadNode u d = (Ok di, d1)" "handle u (length raw) di" "inv (Suc n) d1 m (add_mset u hs)"
      using visit [OF Cons.prems(1) raw(1)] Cons.prems(2) by (metis Suc_lessD)
    have w: "w \<noteq> NilUUID" using linked_stored [OF Cons.prems(3), of w] nil_law [OF Cons.prems(1)] n1 by auto
    obtain d2 where s: "node_insertAndSplit di uuid key d1 = (Ok (w, NilUUID, NilUUID), d2)" "inv (Suc n) d2 m (add_mset u hs)"
      using node_step_refused [OF l(3) _ raw(1) l(2) raw(2) less w] by force
    obtain d3 where d3: "ReleaseDataitem u d2 = (Ok (), d3)" "inv (Suc n) d3 m hs" using release_law [OF s(2), of u] by auto
    have "\<exists>d' m' ns' out. insertAndSplit w uuid key d3 = Some (Ok out, d') \<and> inv n d' m' hs \<and> linked m' leaf ns' \<and> grown leaf uuid key ((w, ws) # ns) ns' out \<and>
       (\<forall>v. v \<notin> insert w (fst ` set ns) \<and> m v \<noteq> None \<longrightarrow> m' v = m v) \<and> (fst out \<noteq> NilUUID \<longrightarrow> m (fst out) = None)"
      by (rule Cons.IH [OF d3(2) Cons.prems(2)]) (use Cons.prems(3-5) less n1 in \<open>auto simp: not_le [symmetric]\<close>)
    then obtain d' m' ns' out where i: "insertAndSplit w uuid key d3 = Some (Ok out, d')" "inv n d' m' hs" "linked m' leaf ns'" "grown leaf uuid key (n1 # ns) ns' out"
      "\<forall>v. v \<notin> insert w (fst ` set ns) \<and> m v \<noteq> None \<longrightarrow> m' v = m v" "fst out \<noteq> NilUUID \<longrightarrow> m (fst out) = None" using n1 by blast
    have e: "insertAndSplit u uuid key d = Some (Ok out, d')"
      using l(1,2) s(1) d3(1) w i(1) by (subst insertAndSplit.simps) (simp add: node_Release_def handle_def)
    have "u \<notin> insert w (fst ` set ns)" using Cons.prems(4) n1 by auto
    then have "m' u = m u" using i(5) raw(1) by simp
    then have "node_at m' leaf u es (next_of ns')" using node_at_frame [OF raw(2)] grown_head [OF i(4)] n1 by simp
    then have lk: "linked m' leaf ((u, es) # ns')" using i(3) Cons.prems(3) by simp
    have "fst out \<noteq> u \<or> fst out = NilUUID" using i(6) raw(1) by auto
    then have gr: "grown leaf uuid key ((u, es) # n1 # ns) ((u, es) # ns') out" by (rule grown_Cons [OF i(4) less])
    show ?thesis by (intro exI [of _ d'] exI [of _ m'] exI [of _ "(u, es) # ns'"] exI [of _ out] conjI e i(2) lk gr) (use i(5,6) n1 in auto)
  qed
qed

end

section \<open>Insertion into a tree\<close>

text \<open>The pairs of the leaves after an insertion.\<close>

lemma rank_append:
  assumes "\<forall>e \<in> set A. snd e < key" and "(\<exists>e \<in> set es. key \<le> snd e) \<or> C = []"
  shows "rank key (A @ es @ C) = length A + rank key es"
proof -
  have "takeWhile (\<lambda>e. snd e < key) (A @ es @ C) = A @ takeWhile (\<lambda>e. snd e < key) (es @ C)" using assms(1) by (simp add: takeWhile_append2)
  moreover have "takeWhile (\<lambda>e. snd e < key) (es @ C) = takeWhile (\<lambda>e. snd e < key) es"
  proof (cases "C = []")
    case False
    then obtain e where "e \<in> set es" "key \<le> snd e" using assms(2) by blast
    then show ?thesis by (intro takeWhile_append1 [of e]) (auto simp: not_less)
  qed simp
  ultimately show ?thesis by (simp add: rank_def)
qed

lemma put_slot_append:
  assumes "\<forall>e \<in> set A. snd e < key" and "(\<exists>e \<in> set es. key \<le> snd e) \<or> (leaf \<and> C = [])"
  shows "A @ put_slot leaf uuid key es @ C = put_slot leaf uuid key (A @ es @ C)"
proof -
  have r: "rank key (A @ es @ C) = length A + rank key es" by (rule rank_append [OF assms(1)]) (use assms(2) in blast)
  have "rank key es < length es" if "\<not> leaf" using assms(2) that rank_le [of key es] rank_full [of key es] by (auto simp: not_less le_neq_implies_less)
  then show ?thesis using r rank_le [of key es] by (auto simp: put_slot_def Let_def nth_append)
qed

lemma grown_contents:
  assumes "grown leaf uuid key ns ns' out"
  shows "contents ns' = put_slot leaf uuid key (contents ns)"
proof -
  obtain xs w ws ys where g: "ns = xs @ (w, ws) # ys" "\<forall>e \<in> set (contents xs). snd e < key" "accepts leaf key ws ys"
    "contents ns' = contents xs @ put_slot leaf uuid key ws @ contents ys"
    using assms unfolding grown_def by fastforce
  show ?thesis using put_slot_append [OF g(2), of ws leaf "contents ys" uuid] g(1,3,4) by (auto simp: accepts_def)
qed

lemma grown_prefix:
  assumes "grown leaf uuid key ns ns' out" and "\<forall>e \<in> set (contents xs). snd e < key" and "fst out \<notin> fst ` set xs \<or> fst out = NilUUID"
  shows "grown leaf uuid key (xs @ ns) (xs @ ns') out"
  using assms(2,3)
proof (induction xs)
  case (Cons n xs)
  then show ?case using grown_Cons [of leaf uuid key "xs @ ns" "xs @ ns'" out "snd n" "fst n"] by (cases n) auto
qed (simp add: assms(1))

lemma set_put_slot: "set (put_slot True uuid key es) = insert (uuid, key) (set es)"
proof -
  have "set es = set (take (rank key es) es) \<union> set (drop (rank key es) es)" by (metis append_take_drop_id set_append)
  then show ?thesis by (simp add: put_slot_def Let_def)
qed

lemma put_slot_insort: "put_slot True uuid key es = insort_key snd (uuid, key) es"
  by (simp add: put_slot_def insort_rank Let_def)

lemma before_append: "before w (xs @ ys) = (if w \<in> fst ` set xs then before w xs else xs @ before w ys)"
proof (cases "w \<in> fst ` set xs")
  case True
  then obtain n where "n \<in> set xs" "fst n = w" by auto
  then show ?thesis using True by (auto simp: before_def intro: takeWhile_append1)
next
  case False
  then show ?thesis by (auto simp: before_def intro!: takeWhile_append2)
qed

lemma before_Cons [simp]: "before w ((u, es) # ns) = (if u = w then [] else (u, es) # before w ns)"
  by (simp add: before_def)

text \<open>A pair put into a leaf before \<open>w\<close> is less than a key of that leaf, so every separator that was good stays good.\<close>

lemma leads_grown:
  assumes "leads L w k" and "grown True uuid key L L' out"
  shows "leads L' w k"
proof -
  obtain xs u es ys where g: "L = xs @ (u, es) # ys" "accepts True key es ys"
    "L' = xs @ (u, put_slot True uuid key es) # ys \<or>
     (\<exists>v. v \<notin> fst ` set L \<and> L' = xs @ (u, take 32 (put_slot True uuid key es)) # (v, drop 32 (put_slot True uuid key es)) # ys)"
    using assms(2) unfolding grown_def by blast
  have w: "w \<in> fst ` set L" and less: "\<forall>e \<in> set (contents (before w L)). snd e < k" using assms(1) by (simp_all add: leads_def)
  have cut: "set (take 32 zs) \<union> (set (drop 32 zs) \<union> Z) = set zs \<union> Z" for zs :: "slot list" and Z
    by (metis Un_assoc append_take_drop_id set_append)
  consider "w \<in> fst ` set xs" | "w \<notin> fst ` set xs" "w = u" | "w \<notin> fst ` set xs" "w \<noteq> u" "w \<in> fst ` set ys" using w g(1) by auto
  then show ?thesis
  proof cases
    case 3
    then obtain e where "e \<in> set es" "key \<le> snd e" using g(2) by (auto simp: accepts_def)
    moreover have "\<forall>e \<in> set es. snd e < k" using less 3 g(1) by (simp add: before_append)
    ultimately have "key < k" by (meson le_less_trans)
    then have "\<forall>e \<in> set (contents xs) \<union> (set (put_slot True uuid key es) \<union> set (contents (before w ys))). snd e < k"
      using less 3 g(1) by (auto simp: before_append set_put_slot)
    moreover have "set (contents (before w L')) = set (contents xs) \<union> (set (put_slot True uuid key es) \<union> set (contents (before w ys)))"
      using g(3)
    proof (elim disjE exE conjE)
      fix v assume v: "v \<notin> fst ` set L" "L' = xs @ (u, take 32 (put_slot True uuid key es)) # (v, drop 32 (put_slot True uuid key es)) # ys"
      then have "v \<noteq> w" using w by auto
      then show ?thesis using 3 v(2) by (simp add: before_append cut)
    qed (use 3 in \<open>simp add: before_append\<close>)
    moreover have "w \<in> fst ` set L'" using 3 g(3) by auto
    ultimately show ?thesis by (simp add: leads_def)
  next
    case 1
    then have "before w L' = before w L" using g(1,3) by (metis before_append)
    moreover have "w \<in> fst ` set L'" using 1 g(3) by auto
    ultimately show ?thesis using less by (simp add: leads_def)
  next
    case 2
    then have "before w L' = before w L" "w \<in> fst ` set L'" using g(1,3) by (auto simp: before_append)
    then show ?thesis using less by (simp add: leads_def)
  qed
qed

lemma guides_grown:
  assumes "guides S L" and "grown True uuid key L L' out"
  shows "guides S L'"
proof -
  have L: "L \<noteq> []" "fst (hd S) = fst (hd L)" using assms(1) by (simp_all add: guides_def)
  then obtain n ns where n: "L = n # ns" by (meson neq_Nil_conv)
  have "next_of L' = fst n" using grown_head assms(2) n by blast
  moreover have "L' \<noteq> []" using assms(2) by (auto simp: grown_def)
  ultimately have "L' \<noteq> []" "fst (hd S) = fst (hd L')" using L(2) n by (auto simp: next_of_def split: list.splits)
  moreover have "successively (\<lambda>s t. leads L' (fst t) (snd s)) S"
    using assms(1) leads_grown [OF _ assms(2)] unfolding guides_def by (metis (mono_tags, lifting) successively_mono)
  ultimately show ?thesis using assms(1) by (simp add: guides_def)
qed

text \<open>The separator of a leaf that was cut off is greater than every key before it.\<close>

lemma leads_new:
  assumes "grown True uuid key L L' (v, k)" and "v \<noteq> NilUUID" and "sorted (map snd (contents L'))" and "distinct (map snd (contents L'))"
  shows "leads L' v k"
proof -
  obtain xs u es ys where g: "L = xs @ (u, es) # ys" "length es = 63" "v \<notin> fst ` set L" "k = snd (put_slot True uuid key es ! 32)"
    "L' = xs @ (u, take 32 (put_slot True uuid key es)) # (v, drop 32 (put_slot True uuid key es)) # ys"
    using assms(1,2) unfolding grown_def by blast
  let ?es = "put_slot True uuid key es"
  have "length ?es = 64" using length_put_slot [of True key es uuid] g(2) by simp
  then have "drop 32 ?es = ?es ! 32 # drop 33 ?es" using Cons_nth_drop_Suc [of 32 ?es] by simp
  then have "k \<in> snd ` set (drop 32 ?es)" using g(4) by simp
  moreover have "sorted_wrt (<) (map snd (contents L'))" using assms(3,4) by (simp add: strict_sorted_iff)
  then have "\<forall>e \<in> set (contents xs @ take 32 ?es). \<forall>f \<in> set (drop 32 ?es). snd e < snd f" by (simp add: g(5) sorted_wrt_append) blast
  moreover have "before v L' = xs @ [(u, take 32 ?es)]" using g(1,3,5) by (auto simp: before_append)
  ultimately show ?thesis using g(5) by (auto simp: leads_def)
qed

text \<open>A new son in the inner level.\<close>

lemma rank_split:
  assumes "\<exists>e \<in> set S. key \<le> snd e"
  obtains A w kk C where "S = A @ (w, kk) # C" "\<forall>e \<in> set A. snd e < key" "key \<le> kk" "\<And>v. put_slot False v key S = A @ (w, key) # (v, kk) # C"
proof -
  let ?r = "rank key S"
  have r: "?r < length S" using assms rank_le [of key S] rank_full [of key S] by (auto simp: not_less le_neq_implies_less)
  have "\<forall>e \<in> set (take ?r S). snd e < key" by (metis rank_def set_takeWhileD takeWhile_eq_take)
  moreover have "key \<le> snd (S ! ?r)" using nth_length_takeWhile [of "\<lambda>e. snd e < key" S] r by (simp add: rank_def)
  ultimately show thesis using that [of "take ?r S" "fst (S ! ?r)" "snd (S ! ?r)" "drop (Suc ?r) S"] r
    by (simp add: put_slot_def Let_def id_take_nth_drop [symmetric])
qed

lemma guides_put:
  assumes "guides S L" and "leads L v key"
  shows "guides (put_slot False v key S) L"
proof -
  have S: "S \<noteq> []" "snd (last S) = UUID_INF" "sorted (map snd S)" "L \<noteq> []" "fst (hd S) = fst (hd L)" "successively (\<lambda>s t. leads L (fst t) (snd s)) S"
    using assms(1) by (simp_all add: guides_def)
  have "key \<le> UUID_INF" using unsigned_less [of key, where ?'a = nat] by (simp add: UUID_INF_def word_le_nat_alt)
  then have "\<exists>e \<in> set S. key \<le> snd e" using S(1,2) last_in_set by metis
  then obtain A w kk C where A: "S = A @ (w, kk) # C" "\<forall>e \<in> set A. snd e < key" "key \<le> kk" "put_slot False v key S = A @ (w, key) # (v, kk) # C"
    using rank_split [of S key] by metis
  have "sorted (map snd (A @ (w, key) # (v, kk) # C))" using S(3) A(1-3) by (fastforce simp: sorted_append)
  moreover have "successively (\<lambda>s t. leads L (fst t) (snd s)) (A @ (w, key) # (v, kk) # C)"
    using S(6) A(1) assms(2) by (cases C) (auto simp: successively_append_iff)
  moreover have "fst (hd (A @ (w, key) # (v, kk) # C)) = fst (hd S)" "snd (last (A @ (w, key) # (v, kk) # C)) = snd (last S)" using A(1) by (cases A; auto)+
  ultimately show ?thesis using S A(4) by (simp add: guides_def)
qed

lemma linked_join:
  assumes "linked m leaf (xs @ n # ys)" and "linked m' leaf ns'" and "next_of ns' = fst n" and "\<And>u. u \<in> fst ` set xs \<Longrightarrow> m' u = m u"
  shows "linked m' leaf (xs @ ns')"
  using assms(1,4)
proof (induction xs)
  case (Cons x xs)
  have "next_of (xs @ ns') = next_of (xs @ n # ys)" using assms(3) by (cases xs) auto
  then show ?case using Cons by (cases x) (auto intro: node_at_frame)
qed (use assms(2) in simp)

lemma grown_nodes:
  assumes "grown leaf uuid key ns ns' out"
  shows "fst ` set ns' = fst ` set ns \<union> (if fst out = NilUUID then {} else {fst out})" and "distinct (map fst ns) \<Longrightarrow> distinct (map fst ns')" and "ns' \<noteq> []"
proof -
  obtain xs u es ys where g: "ns = xs @ (u, es) # ys" "ns' = xs @ (u, put_slot leaf uuid key es) # ys \<and> out = (NilUUID, NilUUID) \<or>
     (\<exists>v. v \<noteq> NilUUID \<and> v \<notin> fst ` set ns \<and> fst out = v \<and> ns' = xs @ (u, take 32 (put_slot leaf uuid key es)) # (v, drop 32 (put_slot leaf uuid key es)) # ys)"
    using assms unfolding grown_def by (metis fst_conv)
  show "fst ` set ns' = fst ` set ns \<union> (if fst out = NilUUID then {} else {fst out})" "distinct (map fst ns) \<Longrightarrow> distinct (map fst ns')" "ns' \<noteq> []"
    using g by auto
qed

lemma insort_strict:
  assumes "sorted (map snd E)" and "distinct (map snd E)" and "key \<notin> snd ` set E"
  shows "sorted (map snd (insort_key snd (uuid, key) E))" "distinct (map snd (insort_key snd (uuid, key) E))"
proof -
  have "(uuid, key) \<notin> set E" using assms(3) by force
  then show "sorted (map snd (insort_key snd (uuid, key) E))" "distinct (map snd (insort_key snd (uuid, key) E))"
    using assms by (auto simp: sorted_insort_key distinct_map set_insort_key distinct_insort inj_on_def)
qed

text \<open>The leaf level after an insertion, whatever the level above it is.\<close>

lemma grown_leaves:
  assumes "grown True uuid key L L' out" and "sorted (map snd (contents L))" and "distinct (map snd (contents L))" and "key \<notin> snd ` set (contents L)"
  shows "contents L' = insort_key snd (uuid, key) (contents L)" and "sorted (map snd (contents L'))" and "distinct (map snd (contents L'))"
    and "fst out \<noteq> NilUUID \<Longrightarrow> leads L' (fst out) (snd out)"
proof -
  show c: "contents L' = insort_key snd (uuid, key) (contents L)" using grown_contents [OF assms(1)] by (simp add: put_slot_insort)
  show s: "sorted (map snd (contents L'))" "distinct (map snd (contents L'))" using insort_strict [OF assms(2-4)] c by simp_all
  show "leads L' (fst out) (snd out)" if "fst out \<noteq> NilUUID" using leads_new [of uuid key L L' "fst out" "snd out"] assms(1) that s by simp
qed

context item_store
begin

text \<open>Inserting a pair into the leaves, from the leaf where the search for its key ends.\<close>

lemma insert_leaves:
  assumes "inv (Suc n) d m hs" and "Suc (size hs) < limit" and "linked m True L" and "distinct (map fst L)"
    and "w \<in> fst ` set L" and "\<forall>f \<in> set (contents (before w L)). snd f < key"
  obtains d' m' L' out where "insertAndSplit w uuid key d = Some (Ok out, d')" "inv n d' m' hs" "linked m' True L'" "grown True uuid key L L' out"
    "\<forall>v. v \<notin> fst ` set L \<and> m v \<noteq> None \<longrightarrow> m' v = m v" "fst out \<noteq> NilUUID \<longrightarrow> m (fst out) = None"
proof -
  obtain es ys where L: "L = before w L @ (w, es) # ys" using before_split [OF assms(5)] by blast
  let ?xs = "before w L"
  have lk: "linked m True ((w, es) # ys)" using linked_append assms(3) L by metis
  have di: "distinct (map fst ?xs @ map fst ((w, es) # ys))" using assms(4) L by (metis map_append)
  then have di2: "distinct (map fst ((w, es) # ys))" by simp
  obtain d' m' ns' out where i: "insertAndSplit w uuid key d = Some (Ok out, d')" "inv n d' m' hs" "linked m' True ns'"
    "grown True uuid key ((w, es) # ys) ns' out" "\<forall>v. v \<notin> insert w (fst ` set ys) \<and> m v \<noteq> None \<longrightarrow> m' v = m v"
    "fst out \<noteq> NilUUID \<longrightarrow> m (fst out) = None"
    using insertAndSplit_chain [OF assms(1,2) lk di2 disjI1 [OF TrueI], of uuid key] by blast
  have st: "m v \<noteq> None" if "v \<in> fst ` set L" for v using linked_stored [OF assms(3) that] .
  have sub: "fst ` set ?xs \<subseteq> fst ` set L" by (subst (2) L) auto
  have "m' v = m v" if "v \<in> fst ` set ?xs" for v
  proof -
    have "v \<notin> insert w (fst ` set ys)" using di that by auto
    moreover have "m v \<noteq> None" using st sub that by blast
    ultimately show ?thesis using i(5) by blast
  qed
  then have "linked m' True (?xs @ ns')"
    using linked_join [of m True ?xs "(w, es)" ys m' ns'] assms(3) L i(3) grown_head [OF i(4)] by simp
  moreover have "grown True uuid key (?xs @ (w, es) # ys) (?xs @ ns') out"
    by (rule grown_prefix [OF i(4) assms(6)]) (use i(6) st sub in blast)
  then have "grown True uuid key L (?xs @ ns') out" using L by simp
  moreover have "m' v = m v" if "v \<notin> fst ` set L" "m v \<noteq> None" for v
  proof -
    have "v \<notin> insert w (fst ` set ys)" using that(1) by (subst (asm) L) auto
    then show ?thesis using i(5) that(2) by blast
  qed
  ultimately show thesis using that [OF i(1,2)] i(6) by blast
qed

lemma bt_insert_leaf:
  assumes "inv n d m hs" and "size hs < limit" and "node_at m True w es sib"
  obtains d1 where "inv n d1 m hs" "bt_insert w uuid key d = insertAndSplit w uuid key d1"
proof -
  obtain raw where raw: "m w = Some raw" using assms(3) by (auto simp: node_at_def)
  obtain di d1 d2 where v: "loadNode w d = (Ok di, d1)" "dm_Data di d1 = Ok raw" "node_Release di d1 = (Ok (), d2)" "inv n d2 m hs"
    using visit [OF assms(1) raw assms(2)] by blast
  have "bt_insert w uuid key d = insertAndSplit w uuid key d2"
    using v node_at_getters(1) [OF assms(3) raw] by (subst bt_insert.simps) (simp add: node_IsLeaf_def)
  then show thesis using that v(4) by blast
qed

lemma insert_inner:
  assumes "inv (Suc (Suc n)) d m hs" and "Suc (size hs) < limit" and "tree m root I L" and "I \<noteq> []" and "key < UUID_INF" and "key \<notin> snd ` set (contents L)"
  shows "\<exists>d' m' I' L'. bt_insert root uuid key d = Some (Ok (NilUUID, NilUUID), d') \<and> inv n d' m' hs \<and> tree m' root I' L' \<and>
     contents L' = insort_key snd (uuid, key) (contents L) \<and> (\<forall>v. v \<notin> fst ` set (I @ L) \<and> m v \<noteq> None \<longrightarrow> m' v = m v) \<and>
     fst ` set (I' @ L') \<subseteq> fst ` set (I @ L) \<union> {v. m v = None}"
proof -
  have sz: "size hs < limit" using assms(2) by simp
  obtain ies ins where I: "I = (root, ies) # ins" "linked m False I" "guides (contents I) L" using assms(3,4) by (cases I) (auto simp: tree_def)
  have T: "linked m True L" "distinct (map fst I)" "distinct (map fst L)" "fst ` set I \<inter> fst ` set L = {}" "sorted (map snd (contents L))" "distinct (map snd (contents L))"
    using assms(3) by (auto simp: tree_def)
  obtain raw where raw: "m root = Some raw" "node_at m False root ies (next_of ins)" using I(1,2) by (auto simp: node_at_def)
  obtain di d1 d2 where v: "loadNode root d = (Ok di, d1)" "dm_Data di d1 = Ok raw" "node_Release di d1 = (Ok (), d2)" "inv (Suc (Suc n)) d2 m hs"
    using visit [OF assms(1) raw(1) sz] by blast
  obtain e where e: "find (\<lambda>e. key < snd e) (contents I) = Some e" "fst e \<in> fst ` set L" "\<forall>f \<in> set (contents (before (fst e) L)). snd f < key"
    using guides_find [OF I(3) assms(5)] by blast
  obtain ws ys where "L = before (fst e) L @ (fst e, ws) # ys" using before_split [OF e(2)] by blast
  then have nw: "node_at m True (fst e) ws (next_of ys)" using linked_append T(1) by (metis linked.simps(2))
  have "fst e \<noteq> NilUUID" using nw nil_law [OF assms(1)] by (auto simp: node_at_def)
  then obtain d3 where d3: "searchNext root key d2 = Some (Ok (fst e), d3)" "inv (Suc (Suc n)) d3 m hs"
    using searchNext_finds [OF v(4) sz, of root ies ins key e] I(1,2) e(1) by auto
  obtain d4 where d4: "inv (Suc (Suc n)) d4 m hs" "bt_insert (fst e) uuid key d3 = insertAndSplit (fst e) uuid key d4"
    using bt_insert_leaf [OF d3(2) sz nw] by blast
  obtain d5 m1 L' out where l: "insertAndSplit (fst e) uuid key d4 = Some (Ok out, d5)" "inv (Suc n) d5 m1 hs" "linked m1 True L'" "grown True uuid key L L' out"
    "\<forall>v. v \<notin> fst ` set L \<and> m v \<noteq> None \<longrightarrow> m1 v = m v" "fst out \<noteq> NilUUID \<longrightarrow> m (fst out) = None"
    by (rule insert_leaves [OF d4(1) assms(2) T(1,3) e(2,3), of uuid]) (rule that)
  note gl = grown_leaves [OF l(4) T(5,6) assms(6)] and gn = grown_nodes [OF l(4)]
  have inI: "m v \<noteq> None" if "v \<in> fst ` set I" for v using linked_stored [OF I(2) that] .
  have m1: "m1 v = m v" if "v \<in> fst ` set I" for v using l(5) T(4) inI that by blast
  have I1: "linked m1 False I" by (rule linked_frame [OF I(2)]) (rule m1)
  have "fst out \<notin> fst ` set I" if "fst out \<noteq> NilUUID" using l(6) inI that by blast
  then have disj: "fst ` set I \<inter> fst ` set L' = {}" using gn(1) T(4) by (simp add: Int_Un_distrib)
  note guides' = guides_grown [OF I(3) l(4)]
  have step: "bt_insert root uuid key d = (if fst out \<noteq> NilUUID then obinds (insertAndSplit root (fst out) (snd out) d5) (\<lambda>_ d. Some (Ok (NilUUID, NilUUID), d))
      else Some (Ok (NilUUID, NilUUID), d5))"
    using v node_at_getters(1) [OF raw(2,1)] d3(1) d4(2) l(1) by (subst bt_insert.simps) (simp add: node_IsLeaf_def split: prod.split)
  show ?thesis
  proof (cases "fst out = NilUUID")
    case True
    have "tree m1 root I L'" unfolding tree_def using I1 l(3) T(2,3) gn(2) disj gl(2,3) guides' I(1) by simp
    moreover have "fst ` set (I @ L') \<subseteq> fst ` set (I @ L) \<union> {v. m v = None}" using gn(1) True by (simp add: image_Un)
    moreover have "\<forall>v. v \<notin> fst ` set (I @ L) \<and> m v \<noteq> None \<longrightarrow> m1 v = m v" using l(5) by (simp add: image_Un)
    ultimately show ?thesis using step True fewer_law [OF l(2)] gl(1)
      by (intro exI [of _ d5] exI [of _ m1] exI [of _ I] exI [of _ L']) simp
  next
    case False
    have some: "\<exists>x \<in> set (contents I). snd out \<le> snd x"
    proof -
      have "snd out \<le> UUID_INF" using unsigned_less [of "snd out", where ?'a = nat] by (simp add: UUID_INF_def word_le_nat_alt)
      then show ?thesis using I(3) last_in_set unfolding guides_def by metis
    qed
    have c: "False \<or> (\<exists>x \<in> set (ies @ contents ins). snd out \<le> snd x)" using some I(1) by simp
    have nodes: "insert root (fst ` set ins) = fst ` set I" using I(1) by simp
    obtain d6 m2 I' out2 where i: "insertAndSplit root (fst out) (snd out) d5 = Some (Ok out2, d6)" "inv n d6 m2 hs" "linked m2 False I'"
      "grown False (fst out) (snd out) I I' out2" "\<forall>v. v \<notin> fst ` set I \<and> m1 v \<noteq> None \<longrightarrow> m2 v = m1 v" "fst out2 \<noteq> NilUUID \<longrightarrow> m1 (fst out2) = None"
      using insertAndSplit_chain [OF l(2) assms(2) I1 [unfolded I(1)] T(2) [unfolded I(1)] c, of "fst out"] unfolding nodes I(1) [symmetric] by blast
    note gi = grown_nodes [OF i(4)]
    have inL': "m1 v \<noteq> None" if "v \<in> fst ` set L'" for v using linked_stored [OF l(3) that] .
    have "m2 v = m1 v" if "v \<in> fst ` set L'" for v using i(5) disj inL' that by blast
    then have L2: "linked m2 True L'" by (rule linked_frame [OF l(3)])
    have "guides (contents I') L'" using guides_put [OF guides' gl(4) [OF False]] grown_contents [OF i(4)] by simp
    moreover have "fst (hd I') = root" using grown_head i(4) I(1) gi(3) by (cases I') (fastforce simp: next_of_def)+
    moreover have "fst out2 \<notin> fst ` set L'" if "fst out2 \<noteq> NilUUID" using i(6) inL' that by blast
    then have "fst ` set I' \<inter> fst ` set L' = {}" using gi(1) disj by (simp add: Int_Un_distrib2)
    ultimately have "tree m2 root I' L'" using i(3) L2 T(2,3) gi(2,3) gn(2) gl(2,3) by (simp add: tree_def)
    moreover have "m2 v = m v" if "v \<notin> fst ` set (I @ L)" "m v \<noteq> None" for v
    proof -
      have "v \<notin> fst ` set I" "v \<notin> fst ` set L" using that(1) by auto
      then show ?thesis using i(5) l(5) that(2) by metis
    qed
    moreover have "fst ` set (I' @ L') \<subseteq> fst ` set (I @ L) \<union> {v. m v = None}"
    proof -
      have "m (fst out) = None" using l(6) False by blast
      moreover have "m (fst out2) = None" if "fst out2 \<noteq> NilUUID"
      proof (rule ccontr)
        assume s: "m (fst out2) \<noteq> None"
        have "fst out2 \<notin> fst ` set L" using i(6) inL' gn(1) that by blast
        then show False using l(5) i(6) s that by metis
      qed
      ultimately show ?thesis using gn(1) gi(1) by (auto simp: image_Un split: if_splits)
    qed
    ultimately show ?thesis using step False i(1,2) gl(1) by (intro exI [of _ d6] exI [of _ m2] exI [of _ I'] exI [of _ L']) simp
  qed
qed

lemma insert_root_leaf:
  assumes "inv (Suc n) d m hs" and "Suc (size hs) < limit" and "tree m root [] L" and "key \<notin> snd ` set (contents L)"
  obtains d' m' L' out where "bt_insert root uuid key d = Some (Ok out, d')" "inv n d' m' hs" "linked m' True L'" "grown True uuid key L L' out"
    "\<forall>v. v \<noteq> root \<and> m v \<noteq> None \<longrightarrow> m' v = m v" "fst out \<noteq> NilUUID \<longrightarrow> m (fst out) = None"
proof -
  obtain es where L: "L = [(root, es)]" "linked m True L" using assms(3) by (auto simp: tree_def)
  have "node_at m True root es NilUUID" using L by simp
  then obtain d1 where d1: "inv (Suc n) d1 m hs" "bt_insert root uuid key d = insertAndSplit root uuid key d1"
    using bt_insert_leaf [OF assms(1)] assms(2) by (metis Suc_lessD)
  have "root \<in> fst ` set L" "distinct (map fst L)" "\<forall>f \<in> set (contents (before root L)). snd f < key" using L(1) by simp_all
  then obtain d' m' L' out where "insertAndSplit root uuid key d1 = Some (Ok out, d')" "inv n d' m' hs" "linked m' True L'" "grown True uuid key L L' out"
    "\<forall>v. v \<notin> fst ` set L \<and> m v \<noteq> None \<longrightarrow> m' v = m v" "fst out \<noteq> NilUUID \<longrightarrow> m (fst out) = None"
    using insert_leaves [OF d1(1) assms(2) L(2)] by metis
  then show thesis using that d1(2) L(1) by simp
qed

text \<open>A leaf that was the root and was cut in two gets a root above it.\<close>

lemma new_root:
  assumes "inv (Suc n) d m hs" and "size hs < limit" and "bt_bootUUID bt \<in># hs" and "handle (bt_bootUUID bt) 8 (bt_bootDataitem bt)"
    and "m (bt_bootUUID bt) = Some (UUIDToRaw root)" and "linked m True L" and "distinct (map fst L)" and "sorted (map snd (contents L))"
    and "distinct (map snd (contents L))" and "fst (hd L) = root" and "L \<noteq> []" and "leads L v k"
  shows "\<exists>d' m' r I. updaterootUUID bt root v k d = (Ok (), d') \<and> inv n d' m' hs \<and> m' (bt_bootUUID bt) = Some (UUIDToRaw r) \<and> tree m' r I L \<and>
     (\<forall>w. w \<noteq> bt_bootUUID bt \<and> m w \<noteq> None \<longrightarrow> m' w = m w) \<and> fst ` set I \<subseteq> {w. m w = None}"
proof -
  let ?b = "bt_bootUUID bt" and ?di = "bt_bootDataitem bt"
  obtain raw where raw: "newRootRaw root v k = Ok raw" "node_ok raw" "\<not> leafAt raw" "siblingAt raw = NilUUID" "slots raw = [(root, k), (v, UUID_INF)]"
    by (rule newRoot_slots)
  have "length raw \<le> max_item" using raw(2) by (simp add: node_ok_def NODE_SIZE_eq max_item_def pi_defs)
  then obtain r d1 where r: "dm_Insert SUPER_XID raw d = (Ok r, d1)" "m r = None" "inv n d1 (m(r \<mapsto> raw)) hs"
    using insert_law [OF assms(1,2)] by blast
  have rb: "r \<noteq> ?b" using r(2) assms(5) by auto
  have hb: "handle ?b (length (UUIDToRaw root)) ?di" using assms(4) by simp
  obtain di d2 where b: "dm_Before ?di d1 = (Ok di, d2)" "handle ?b (length (UUIDToRaw root)) di" "inv n d2 (m(r \<mapsto> raw)) hs" "touched d2 ?b"
    using before_law [OF r(3) assms(3) _ hb] assms(5) rb by auto
  have dt: "dm_Data di d2 = Ok (UUIDToRaw root)" by (rule data_law [OF b(3) assms(3) _ b(2)]) (use assms(5) rb in simp)
  have cp: "go_copy (UUIDToRaw root) (UUIDToRaw r) = UUIDToRaw r" by (simp add: go_copy_def)
  obtain d3 where w: "dm_write di (UUIDToRaw r) d2 = (Ok (), d3)" "inv n d3 (m(r \<mapsto> raw, ?b \<mapsto> UUIDToRaw r)) hs"
    using write_law [OF b(3) assms(3) _ b(2,4), of "UUIDToRaw r"] assms(5) rb by auto
  let ?m = "m(r \<mapsto> raw, ?b \<mapsto> UUIDToRaw r)" and ?I = "[(r, [(root, k), (v, UUID_INF)])]"
  obtain d4 where a: "dm_After SUPER_XID di d3 = (Ok (), d4)" "inv n d4 ?m hs"
    using after_law [OF w(2) assms(3), of "UUIDToRaw r" di SUPER_XID] b(2) by auto
  have u: "updaterootUUID bt root v k d = (Ok (), d4)" using raw(1) r(1) b(1) dt w(1) a(1) cp by (simp add: updaterootUUID_def)
  have st: "m w \<noteq> None \<and> w \<noteq> ?b" if "w \<in> fst ` set L" for w
    using linked_stored [OF assms(6) that] node_not_boot [OF assms(6,5)] that by blast
  have rL: "r \<notin> fst ` set L" using st r(2) by blast
  have "linked ?m True L"
  proof (rule linked_frame [OF assms(6)])
    fix w assume "w \<in> fst ` set L"
    then have "w \<noteq> r" "w \<noteq> ?b" using st rL by blast+
    then show "?m w = m w" by simp
  qed
  moreover have "linked ?m False ?I" using raw rb by (auto simp: node_at_def)
  moreover note rL
  moreover have "k \<le> UUID_INF" using unsigned_less [of k, where ?'a = nat] by (simp add: UUID_INF_def word_le_nat_alt)
  then have "guides (contents ?I) L" using assms(10-12) by (simp add: guides_def)
  ultimately have "tree ?m r ?I L" using assms(7-9) by (simp add: tree_def)
  then show ?thesis using u a(2) r(2) by (intro exI [of _ d4] exI [of _ ?m] exI [of _ r] exI [of _ ?I]) auto
qed

text \<open>\<open>Insert\<close> of an index.\<close>

lemma bt_Insert_index:
  assumes "inv (Suc (Suc n)) d m hs" and "Suc (size hs) < limit" and "index m hs bt I L" and "key < UUID_INF" and "key \<notin> snd ` set (contents L)"
  shows "\<exists>d' m' I' L'. bt_Insert bt key uuid d = Some (Ok (), d') \<and> inv n d' m' hs \<and> index m' hs bt I' L' \<and>
     contents L' = insort_key snd (uuid, key) (contents L) \<and>
     (\<forall>v. v \<notin> foot bt I L \<and> m v \<noteq> None \<longrightarrow> m' v = m v) \<and> foot bt I' L' \<subseteq> foot bt I L \<union> {v. m v = None}"
proof -
  let ?b = "bt_bootUUID bt"
  have sz: "size hs < limit" using assms(2) by simp
  obtain root where t: "m ?b = Some (UUIDToRaw root)" "tree m root I L" and b: "?b \<in># hs" "handle ?b 8 (bt_bootDataitem bt)"
    using assms(3) by (auto simp: index_def)
  have rt: "rootUUID bt d = Ok root" by (rule rootUUID_index [OF assms(1) b t(1)])
  have T: "linked m False I" "linked m True L" "sorted (map snd (contents L))" "distinct (map snd (contents L))" "distinct (map fst L)"
    using t(2) by (simp_all add: tree_def)
  show ?thesis
  proof (cases "I = []")
    case False
    obtain d' m' I' L' where i: "bt_insert root uuid key d = Some (Ok (NilUUID, NilUUID), d')" "inv n d' m' hs" "tree m' root I' L'"
      "contents L' = insort_key snd (uuid, key) (contents L)" "\<forall>v. v \<notin> fst ` set (I @ L) \<and> m v \<noteq> None \<longrightarrow> m' v = m v"
      "fst ` set (I' @ L') \<subseteq> fst ` set (I @ L) \<union> {v. m v = None}"
      using insert_inner [OF assms(1,2) t(2) False assms(4,5)] by blast
    have "?b \<notin> fst ` set (I @ L)" using node_not_boot [OF T(1) t(1)] node_not_boot [OF T(2) t(1)] by auto
    then have "index m' hs bt I' L'" using i(3,5) t(1) b by (auto simp: index_def)
    moreover have "foot bt I' L' \<subseteq> foot bt I L \<union> {v. m v = None}" using insert_mono [OF i(6), of ?b] by (simp add: foot_def)
    moreover have "\<forall>v. v \<notin> foot bt I L \<and> m v \<noteq> None \<longrightarrow> m' v = m v" using i(5) by (simp add: foot_def)
    ultimately show ?thesis using rt i(1,2,4) by (intro exI [of _ d'] exI [of _ m'] exI [of _ I'] exI [of _ L']) (simp add: bt_Insert_def)
  next
    case True
    have root: "tree m root [] L" using t(2) True by simp
    then obtain es where L: "L = [(root, es)]" by (auto simp: tree_def)
    obtain d1 m1 L' out where i: "bt_insert root uuid key d = Some (Ok out, d1)" "inv (Suc n) d1 m1 hs" "linked m1 True L'" "grown True uuid key L L' out"
      "\<forall>v. v \<noteq> root \<and> m v \<noteq> None \<longrightarrow> m1 v = m v" "fst out \<noteq> NilUUID \<longrightarrow> m (fst out) = None"
      by (rule insert_root_leaf [OF assms(1,2) root assms(5), of uuid])
    note gl = grown_leaves [OF i(4) T(3,4) assms(5)] and gn = grown_nodes [OF i(4)]
    have "?b \<noteq> root" using node_not_boot [OF T(2) t(1)] L by auto
    then have b1: "m1 ?b = Some (UUIDToRaw root)" using i(5) t(1) by simp
    have hd: "fst (hd L') = root" using grown_head [of True uuid key "(root, es)" "[]" L' out] i(4) L gn(3) by (cases L') auto
    show ?thesis
    proof (cases "fst out = NilUUID")
      case True
      then have "\<exists>es'. L' = [(root, es')]" using i(4) L by (auto simp: grown_def Cons_eq_append_conv)
      then have "tree m1 root [] L'" using i(3) gl(2,3) gn(2) T(5) by (auto simp: tree_def)
      then have "index m1 hs bt [] L'" using b1 b by (auto simp: index_def)
      moreover have "bt_Insert bt key uuid d = Some (Ok (), d1)" using rt i(1) True by (cases out) (simp add: bt_Insert_def)
      moreover have "foot bt [] L' \<subseteq> foot bt I L \<union> {v. m v = None}" "\<forall>v. v \<notin> foot bt I L \<and> m v \<noteq> None \<longrightarrow> m1 v = m v"
        using gn(1) True i(5) L unfolding foot_def by auto
      ultimately show ?thesis using fewer_law [OF i(2)] gl(1) by (intro exI [of _ d1] exI [of _ m1] exI [of _ "[]"] exI [of _ L']) simp
    next
      case False
      have rt1: "rootUUID bt d1 = Ok root" by (rule rootUUID_index [OF i(2) b b1])
      obtain d2 m2 r I' where u: "updaterootUUID bt root (fst out) (snd out) d1 = (Ok (), d2)" "inv n d2 m2 hs" "m2 ?b = Some (UUIDToRaw r)" "tree m2 r I' L'"
        "\<forall>w. w \<noteq> ?b \<and> m1 w \<noteq> None \<longrightarrow> m2 w = m1 w" "fst ` set I' \<subseteq> {w. m1 w = None}"
        using new_root [OF i(2) sz b b1 i(3) gn(2) [OF T(5)] gl(2,3) hd gn(3) gl(4) [OF False]] by blast
      have "bt_Insert bt key uuid d = Some (Ok (), d2)" using rt i(1) False rt1 u(1) by (cases out) (simp add: bt_Insert_def)
      moreover have "index m2 hs bt I' L'" using u(3,4) b by (auto simp: index_def)
      moreover have "m2 v = m v" if "v \<notin> foot bt I L" "m v \<noteq> None" for v
      proof -
        have "m1 v = m v" using i(5) that L by (auto simp: foot_def)
        then show ?thesis using u(5) that by (simp add: foot_def)
      qed
      moreover have "foot bt I' L' \<subseteq> foot bt I L \<union> {v. m v = None}"
      proof -
        have "fst ` set I' \<subseteq> foot bt I L \<union> {v. m v = None}"
        proof
          fix v assume v: "v \<in> fst ` set I'"
          have "m1 v = None" using subsetD [OF u(6) v] by simp
          then have "m v = None" if "v \<notin> foot bt I L" using i(5) that L by (auto simp: foot_def)
          then show "v \<in> foot bt I L \<union> {v. m v = None}" by (cases "v \<in> foot bt I L") simp_all
        qed
        moreover have "fst ` set L' = fst ` set L \<union> {fst out}" "m (fst out) = None" using gn(1) i(6) False by simp_all
        then have "fst ` set L' \<subseteq> foot bt I L \<union> {v. m v = None}" unfolding foot_def by auto
        moreover have "foot bt I' L' = insert ?b (fst ` set I' \<union> fst ` set L')" "?b \<in> foot bt I L" by (simp_all add: foot_def image_Un)
        ultimately show ?thesis by simp
      qed
      ultimately show ?thesis using u(2) gl(1) by (intro exI [of _ d2] exI [of _ m2] exI [of _ I'] exI [of _ L']) simp
    qed
  qed
qed

text \<open>A new index is empty.\<close>

lemma bt_Create_index:
  assumes "inv (Suc (Suc n)) d m hs" and "size hs < limit"
  obtains b d1 bt d2 m' I L where "bt_Create d = (Ok b, d1)" "bt_Load b d1 = (Ok bt, d2)" "inv n d2 m' (add_mset b hs)" "index m' (add_mset b hs) bt I L"
    "contents L = []" "bt_bootUUID bt = b" "\<forall>v. m v \<noteq> None \<longrightarrow> m' v = m v" "foot bt I L \<subseteq> {v. m v = None}"
proof -
  obtain raw where raw: "newNilRootRaw = Ok raw" "node_ok raw" "leafAt raw" "siblingAt raw = NilUUID" "slots raw = []" by (rule newNilRoot_slots)
  have "length raw \<le> max_item" using raw(2) by (simp add: node_ok_def NODE_SIZE_eq max_item_def pi_defs)
  then obtain r d1 where r: "dm_Insert SUPER_XID raw d = (Ok r, d1)" "m r = None" "inv (Suc n) d1 (m(r \<mapsto> raw)) hs"
    using insert_law [OF assms] by blast
  have "length (UUIDToRaw r) \<le> max_item" by (simp add: max_item_def pi_defs)
  then obtain b d2 where b: "dm_Insert SUPER_XID (UUIDToRaw r) d1 = (Ok b, d2)" "(m(r \<mapsto> raw)) b = None" "inv n d2 (m(r \<mapsto> raw, b \<mapsto> UUIDToRaw r)) hs"
    using insert_law [OF r(3) assms(2)] by blast
  let ?m = "m(r \<mapsto> raw, b \<mapsto> UUIDToRaw r)"
  obtain di d3 where d3: "dm_Read b d2 = (Ok (Some di), d3)" "handle b (length (UUIDToRaw r)) di" "inv n d3 ?m (add_mset b hs)"
    using read_law [OF b(3) _ assms(2), of b "UUIDToRaw r"] by auto
  let ?bt = "\<lparr>bt_bootUUID = b, bt_bootDataitem = di\<rparr>"
  have rb: "r \<noteq> b" using b(2) by auto
  have "tree ?m r [] [(r, [])]" using raw rb by (auto simp: tree_def node_at_def)
  then have "index ?m (add_mset b hs) ?bt [] [(r, [])]" using d3(2) by (auto simp: index_def)
  moreover have "bt_Create d = (Ok b, d2)" using r(1) b(1) by (simp add: bt_Create_def raw(1))
  moreover have "bt_Load b d2 = (Ok ?bt, d3)" using d3(1) by (simp add: bt_Load_def)
  moreover have "\<forall>v. m v \<noteq> None \<longrightarrow> ?m v = m v" using r(2) b(2) by (auto split: if_splits)
  moreover have "foot ?bt [] [(r, [])] \<subseteq> {v. m v = None}" using r(2) b(2) by (auto simp: foot_def split: if_splits)
  ultimately show thesis using that [of b d2 ?bt d3 ?m "[]" "[(r, [])]"] d3(3) by simp
qed

end

section \<open>Properties\<close>

text \<open>A series of insertions.\<close>

fun insert_all :: "bPlusTree \<Rightarrow> slot list \<Rightarrow> dataManager \<Rightarrow> (unit res \<times> dataManager) option" where
  "insert_all bt [] d = Some (Ok (), d)"
| "insert_all bt ((uuid, key) # es) d = obinds (bt_Insert bt key uuid d) (\<lambda>_ d. insert_all bt es d)"

lemma sort_key_rev_distinct: "distinct (map f xs) \<Longrightarrow> sort_key f (rev xs) = sort_key f xs"
proof (rule properties_for_sort_key)
  fix k assume d: "distinct (map f xs)" and k: "k \<in> set (sort_key f xs)"
  have one: "filter (\<lambda>x. f k = f x) ys = [k]" if "k \<in> set ys" "distinct (map f ys)" for ys
    using that by (induction ys) (auto simp: filter_empty_conv, metis image_eqI)
  show "filter (\<lambda>x. f k = f x) (sort_key f xs) = filter (\<lambda>x. f k = f x) (rev xs)"
  proof -
    have "filter (\<lambda>x. f k = f x) xs = [k]" using one [of xs] k d by simp
    then show ?thesis by (simp add: filter_sort flip: rev_filter)
  qed
qed simp_all

context item_store
begin

lemma insert_all_index:
  assumes "inv (2 * length es + n) d m hs" and "Suc (size hs) < limit" and "index m hs bt I L" and "contents L = sort_key snd xs"
    and "distinct (map snd (es @ xs))" and "\<forall>e \<in> set es. snd e < UUID_INF"
  shows "\<exists>d' m' I' L'. insert_all bt es d = Some (Ok (), d') \<and> inv n d' m' hs \<and> index m' hs bt I' L' \<and> contents L' = sort_key snd (rev es @ xs)"
  using assms
proof (induction es arbitrary: d m I L xs)
  case (Cons e es)
  obtain uuid key where e: "e = (uuid, key)" by fastforce
  have i: "inv (Suc (Suc (2 * length es + n))) d m hs" using Cons.prems(1) by simp
  have new: "key \<notin> snd ` set (contents L)" using Cons.prems(4,5) e by auto
  obtain d1 m1 I1 L1 where s: "bt_Insert bt key uuid d = Some (Ok (), d1)" "inv (2 * length es + n) d1 m1 hs" "index m1 hs bt I1 L1"
    "contents L1 = insort_key snd (uuid, key) (contents L)"
    using bt_Insert_index [OF i Cons.prems(2,3) _ new, of uuid] Cons.prems(6) e by auto
  have c: "contents L1 = sort_key snd (e # xs)" using s(4) Cons.prems(4) e by simp
  obtain d' m' I' L' where "insert_all bt es d1 = Some (Ok (), d')" "inv n d' m' hs" "index m' hs bt I' L'" "contents L' = sort_key snd (rev es @ e # xs)"
    using Cons.IH [OF s(2) Cons.prems(2) s(3) c] Cons.prems(5,6) by auto
  then show ?case using s(1) e by (intro exI [of _ d'] exI [of _ m'] exI [of _ I'] exI [of _ L']) simp
qed auto

end

text \<open>C7. An index is a sorted map. Create an index, load it, insert any pairs with different keys below the greatest one, and search any range: every call returns without an error,
  and the answer is the uuids of exactly the pairs in the range, in the order of their keys. This holds across all splits of leaves and inner nodes and the growth of a root.
  The hypotheses: the store is in order, two page creations per insertion and for the new index are possible, and there is room for three handles.\<close>

theorem index_refines_sorted_list:
  assumes "store X limit (2 * length es + n + 2) d m hs" and "size hs + 2 < limit" and "distinct (map snd es)" and "\<forall>e \<in> set es. snd e < UUID_INF"
    and "l \<le> r" and "l < UUID_INF"
  shows "\<exists>b d1 bt d2 d3 d4. bt_Create d = (Ok b, d1) \<and> bt_Load b d1 = (Ok bt, d2) \<and> insert_all bt es d2 = Some (Ok (), d3) \<and>
     SearchRange bt l r d3 = Some (Ok (map fst (filter (\<lambda>e. l \<le> snd e \<and> snd e \<le> r) (sort_key snd es))), d4)"
proof -
  have i: "store X limit (Suc (Suc (2 * length es + n))) d m hs" and sz: "size hs < limit" using assms(1,2) by simp_all
  obtain b d1 bt d2 m' I L where c: "bt_Create d = (Ok b, d1)" "bt_Load b d1 = (Ok bt, d2)" "store X limit (2 * length es + n) d2 m' (add_mset b hs)"
    "index m' (add_mset b hs) bt I L" "contents L = []" using dms.bt_Create_index [OF i sz] by metis
  have sz2: "Suc (size (add_mset b hs)) < limit" using assms(2) by simp
  obtain d3 m3 I3 L3 where a: "insert_all bt es d2 = Some (Ok (), d3)" "store X limit n d3 m3 (add_mset b hs)" "index m3 (add_mset b hs) bt I3 L3"
    "contents L3 = sort_key snd (rev es)"
    using dms.insert_all_index [OF c(3) sz2 c(4), of "[]"] c(5) assms(3,4) by auto
  have sz3: "size (add_mset b hs) < limit" using assms(2) by simp
  obtain d4 where "SearchRange bt l r d3 = Some (Ok (map fst (filter (\<lambda>e. l \<le> snd e \<and> snd e \<le> r) (contents L3))), d4)"
    using dms.SearchRange_index [OF a(2) sz3 a(3) assms(5,6)] by blast
  then show ?thesis using c(1,2) a(1,4) sort_key_rev_distinct [OF assms(3)] by auto
qed

lemma new_store: "store {#} 8 1000 new_dm Map.empty {#}"
proof -
  have "dm_inv new_dm ({#} + page_handles {#}) []" using new_dm_ok(1) by (simp add: page_handles_def)
  moreover have "items_cached (dm_dic new_dm) Map.empty {#}" using cacher_inv_New [of 0] by (simp add: items_cached_def new_dm_def) (simp add: NewCacher_def)
  moreover have "unat (noPages (dm_pc new_dm)) = 1" "dm_pc new_dm = one_page_pc" by (simp_all add: new_dm_def one_page_pc_def)
  moreover have "pages_ok one_page_pc"
  proof -
    have "k = 1" if "in_db one_page_pc k" for k using that by (auto simp: in_db_def one_page_pc_def word_le_nat_alt word_less_nat_alt word_unat_eq_iff)
    moreover have "replicate 2 0 = [0, 0 :: byte]" by (simp add: numeral_2_eq_2)
    then have "take 2 (replicate PAGE_SIZE 0) = [0, 0 :: byte]" by (simp add: PAGE_SIZE_def)
    then have "\<not> page_ok (replicate PAGE_SIZE 0)" by (rule page1_not_ok)
    ultimately show ?thesis using one_page_pc_inv(2,4) unfolding pages_ok_def by metis
  qed
  ultimately show ?thesis using one_page_pc_inv(3) by (auto simp: store_def holds_items_def)
qed

theorem index_refines_sorted_list_witness:
  "\<exists>b d1 bt d2 d3 d4. bt_Create new_dm = (Ok b, d1) \<and> bt_Load b d1 = (Ok bt, d2) \<and> insert_all bt [(7, 30), (5, 10), (6, 20)] d2 = Some (Ok (), d3) \<and>
     SearchRange bt 15 40 d3 = Some (Ok [6, 7], d4)"
proof -
  have "store {#} 8 (2 * length [(7 :: UUID, 30 :: UUID), (5, 10), (6, 20)] + 992 + 2) new_dm Map.empty {#}" using new_store by simp
  from index_refines_sorted_list [OF this, of 15 40] show ?thesis by (simp add: UUID_INF_def)
qed

end
