(* ===== verification/Entries.thy ===== *)
theory Entries
  imports Sm Index
begin

text \<open>
  Versions of rows in a store of items: what \<open>Insert\<close>, \<open>Read\<close> and \<open>Delete\<close> of the serializability manager (\<^verbatim>\<open>sm/serializability_manager.go\<close>) do to the map of items that
  \<open>item_store\<close> talks about, while no other caller holds an entry. They are proved in the locale of the store and hold for the data manager by its interpretation.
\<close>

section \<open>Versions\<close>

definition verRaw :: "XID \<Rightarrow> XID \<Rightarrow> bytes \<Rightarrow> bytes" where
  "verRaw xmin xmax data = UUIDToRaw xmin @ UUIDToRaw xmax @ data"

lemma length_verRaw [simp]: "length (verRaw xmin xmax data) = 16 + length data"
  by (simp add: verRaw_def)

lemma WrapEntryRaw_ver: "WrapEntryRaw x data = verRaw x 0 data"
  by (simp add: WrapEntryRaw_eq verRaw_def UUIDToRaw_def Uint64ToRaw_def be_bytes_zero)

lemma verRaw_fields [simp]:
  "entry_XMIN (verRaw xmin xmax data) = Ok xmin" "entry_XMAX (verRaw xmin xmax data) = Ok xmax" "entry_Data (verRaw xmin xmax data) = Ok data"
  "entry_setXMAX (verRaw xmin xmax data) x = Ok (verRaw xmin x data)"
proof -
  show "entry_XMIN (verRaw xmin xmax data) = Ok xmin"
    by (simp add: entry_XMIN_def verRaw_def ENTRY_OF_XMIN_def ENTRY_OF_XMAX_def tm_defs go_slice_def ParseXID_def ParseUUID_self)
  show "entry_XMAX (verRaw xmin xmax data) = Ok xmax"
    by (simp add: entry_XMAX_def verRaw_def ENTRY_OF_XMIN_def ENTRY_OF_XMAX_def tm_defs ParseXID_def ParseUUID_prefix)
  show "entry_Data (verRaw xmin xmax data) = Ok data"
    by (simp add: entry_Data_def verRaw_def ENTRY_OF_XMIN_def ENTRY_OF_XMAX_def ENTRY_DATA_def tm_defs go_copy_def)
  show "entry_setXMAX (verRaw xmin xmax data) x = Ok (verRaw xmin x data)"
    by (simp add: entry_setXMAX_def verRaw_def ENTRY_OF_XMIN_def ENTRY_OF_XMAX_def tm_defs PutXID_def PutUUID_def PutUint64_def
        UUIDToRaw_def Uint64ToRaw_def buf_write_def go_copy_def)
qed

text \<open>Nobody holds an entry.\<close>

definition idle :: "'h cacher \<Rightarrow> bool" where
  "idle c \<longleftrightarrow> cacher_inv c {#} {#} \<and> MaxHandles c = 0"

lemma idle_load:
  assumes "idle c"
  obtains c1 where "get_try u c = (Load, c1)"
    "\<And>h. \<exists>c2 c3. get_finish u (Ok h) c1 = (Ok h, c2) \<and> c_Release u c2 = Ok (Some h, c3) \<and> idle c3"
proof -
  have i: "cacher_inv c {#} {#}" "MaxHandles c = 0" using assms by (simp_all add: idle_def)
  let ?c1 = "c\<lparr>getting := insert u (getting c), count := count c + 1\<rparr>"
  have n: "cache c = Map.empty" "getting c = {}" using i by (auto simp: cacher_inv_def)
  then have z: "unat (cacher.count c) = 0" using i(1) by (simp add: cacher_inv_def)
  have t: "get_try u c = (Load, ?c1)" using n i(2) by (simp add: get_try_def)
  have i1: "cacher_inv ?c1 {#} {#u#}" using inv_load [OF i(1) t] z by simp
  show thesis
  proof (rule that [OF t])
    fix h
    let ?c2 = "?c1\<lparr>getting := getting ?c1 - {u}, cache := (cache ?c1)(u \<mapsto> h), refs := (refs ?c1)(u \<mapsto> 1)\<rparr>"
    let ?c3 = "?c2\<lparr>refs := ((refs ?c2)(u \<mapsto> 0))(u := None), cache := (cache ?c2)(u := None), count := count ?c2 - 1\<rparr>"
    have f: "get_finish u (Ok h) ?c1 = (Ok h, ?c2)" by (simp add: get_finish_def)
    have i2: "cacher_inv ?c2 {#u#} {#}" using inv_loaded [OF i1 _ _ f] by simp
    have r: "c_Release u ?c2 = Ok (Some h, ?c3)" by (simp add: c_Release_def Let_def ref_of_def)
    have "cacher_inv ?c3 {#} {#}" using inv_release(1) [OF i2 _ r] by simp
    then have "idle ?c3" using i(2) by (simp add: idle_def)
    then show "\<exists>c2 c3. get_finish u (Ok h) ?c1 = (Ok h, c2) \<and> c_Release u c2 = Ok (Some h, c3) \<and> idle c3" using f r by blast
  qed
qed

section \<open>Insert and Read\<close>

context item_store
begin

lemma sm_Insert_store:
  assumes "inv (Suc n) (sm_DM s) m hs" and "size hs < limit" and "live x s = Ok t" and "16 + length data \<le> max_item"
  shows "\<exists>u d'. sm_Insert x data s = (Ok u, s\<lparr>sm_DM := d'\<rparr>) \<and> m u = None \<and> inv n d' (m(u \<mapsto> verRaw x 0 data)) hs"
proof -
  obtain u d' where "dm_Insert x (verRaw x 0 data) (sm_DM s) = (Ok u, d')" "m u = None" "inv n d' (m(u \<mapsto> verRaw x 0 data)) hs"
    using insert_law [OF assms(1,2), of "verRaw x 0 data" x] assms(4) by auto
  then show ?thesis using assms(3) by (intro exI [of _ u] exI [of _ d']) (simp add: sm_Insert_def on_dm_def WrapEntryRaw_ver)
qed

text \<open>An entry taken from the cache while nobody else holds one, and what happens when it is given back.\<close>

lemma ec_Get_store:
  assumes "inv n (sm_DM s) m hs" and "size hs < limit" and "idle (sm_ec s)" and "m u = Some raw"
  obtains di d' c where "ec_Get u s = (Ok (newEntry di u), s\<lparr>sm_ec := c, sm_DM := d'\<rparr>)" "handle u (length raw) di" "inv n d' m (add_mset u hs)"
    "\<And>s1 n1 m1. sm_ec s1 = c \<Longrightarrow> inv n1 (sm_DM s1) m1 (add_mset u hs) \<Longrightarrow>
       \<exists>d2 c2. ReleaseEntry (newEntry di u) s1 = (Ok (), s1\<lparr>sm_DM := d2, sm_ec := c2\<rparr>) \<and> inv n1 d2 m1 hs \<and> idle c2"
proof -
  obtain c1 where c1: "get_try u (sm_ec s) = (Load, c1)"
    "\<And>h. \<exists>c2 c3. get_finish u (Ok h) c1 = (Ok h, c2) \<and> c_Release u c2 = Ok (Some h, c3) \<and> idle c3"
    using idle_load [OF assms(3), of u thesis] by blast
  obtain di d' where r: "dm_Read u (sm_DM s) = (Ok (Some di), d')" "handle u (length raw) di" "inv n d' m (add_mset u hs)"
    using read_law [OF assms(1,4,2)] by blast
  obtain c2 c3 where c: "get_finish u (Ok (newEntry di u)) c1 = (Ok (newEntry di u), c2)" "c_Release u c2 = Ok (Some (newEntry di u), c3)" "idle c3"
    using c1(2) by blast
  show thesis
  proof (rule that [of di d' c2])
    show "ec_Get u s = (Ok (newEntry di u), s\<lparr>sm_ec := c2, sm_DM := d'\<rparr>)"
      using c1(1) r(1) c(1) by (simp add: ec_Get_def sm_getForCacher_def LoadEntry_def on_dm_def)
    fix s1 :: serializabilityManager and n1 m1 assume a: "sm_ec s1 = c2" "inv n1 (sm_DM s1) m1 (add_mset u hs)"
    obtain d2 where d2: "ReleaseDataitem u (sm_DM s1) = (Ok (), d2)" "inv n1 d2 m1 hs" using release_law [OF a(2), of u] by auto
    have "di_uid di = u" using r(2) by (simp add: handle_def)
    then show "\<exists>d2 c2. ReleaseEntry (newEntry di u) s1 = (Ok (), s1\<lparr>sm_DM := d2, sm_ec := c2\<rparr>) \<and> inv n1 d2 m1 hs \<and> idle c2"
      using a(1) c(2,3) d2 by (intro exI [of _ d2] exI [of _ c3]) (simp add: ReleaseEntry_def newEntry_def sm_releaseForCacher_def on_dm_def)
  qed (fact r)+
qed

lemma entry_bytes:
  assumes "inv n (sm_DM s) m (add_mset u hs)" and "m u = Some raw" and "handle u (length raw) di"
  shows "e_Data (newEntry di u) s = Ok raw"
  using data_law [OF assms(1) _ assms(2,3)] by (simp add: e_Data_def newEntry_def)

lemma sm_Read_store:
  assumes "inv n (sm_DM s) m hs" and "size hs < limit" and "idle (sm_ec s)" and "live x s = Ok t" and "m u = Some (verRaw xmin xmax data)"
  shows "\<exists>d' c'. sm_Read x u s = (Ok (if IsVisible (tm_IsCommitted (sm_TM s)) t xmin xmax then Some data else None), s\<lparr>sm_DM := d', sm_ec := c'\<rparr>) \<and>
     inv n d' m hs \<and> idle c'"
proof -
  obtain di d1 c where g: "ec_Get u s = (Ok (newEntry di u), s\<lparr>sm_ec := c, sm_DM := d1\<rparr>)" "handle u (length (verRaw xmin xmax data)) di" "inv n d1 m (add_mset u hs)"
    "\<And>s1 n1 m1. sm_ec s1 = c \<Longrightarrow> inv n1 (sm_DM s1) m1 (add_mset u hs) \<Longrightarrow>
       \<exists>d2 c2. ReleaseEntry (newEntry di u) s1 = (Ok (), s1\<lparr>sm_DM := d2, sm_ec := c2\<rparr>) \<and> inv n1 d2 m1 hs \<and> idle c2"
    using ec_Get_store [OF assms(1-3,5), of thesis] by blast
  let ?s1 = "s\<lparr>sm_ec := c, sm_DM := d1\<rparr>"
  have e: "e_Data (newEntry di u) ?s1 = Ok (verRaw xmin xmax data)" using entry_bytes [of n ?s1 m u hs] g(2,3) assms(5) by simp
  obtain d2 c2 where r: "ReleaseEntry (newEntry di u) ?s1 = (Ok (), ?s1\<lparr>sm_DM := d2, sm_ec := c2\<rparr>)" "inv n d2 m hs" "idle c2"
    using g(4) [of ?s1 n m] g(3) by auto
  show ?thesis using assms(4) g(1) e r by (intro exI [of _ d2] exI [of _ c2]) (simp add: sm_Read_def visible_def releasing_def)
qed

section \<open>Delete\<close>

lemma SetXMAX_store:
  assumes "inv n (sm_DM s) m (add_mset u hs)" and "m u = Some (verRaw xmin xmax data)" and "handle u (length (verRaw xmin xmax data)) di"
  shows "\<exists>d'. SetXMAX x (newEntry di u) s = (Ok (), s\<lparr>sm_DM := d'\<rparr>) \<and> inv n d' (m(u \<mapsto> verRaw xmin x data)) (add_mset u hs)"
proof -
  let ?hs = "add_mset u hs" and ?raw = "verRaw xmin xmax data" and ?new = "verRaw xmin x data"
  have u: "u \<in># ?hs" by simp
  obtain di' d1 where b: "dm_Before di (sm_DM s) = (Ok di', d1)" "handle u (length ?raw) di'" "inv n d1 m ?hs" "touched d1 u"
    using before_law [OF assms(1) u assms(2,3)] by blast
  have dt: "dm_Data di' d1 = Ok ?raw" by (rule data_law [OF b(3) u assms(2) b(2)])
  obtain d2 where w: "dm_write di' ?new d1 = (Ok (), d2)" "inv n d2 (m(u \<mapsto> ?new)) ?hs"
    using write_law [OF b(3) u assms(2) b(2,4), of ?new] by auto
  have h: "handle u (length ?new) di'" using b(2) by simp
  obtain d3 where "dm_After x di' d2 = (Ok (), d3)" "inv n d3 (m(u \<mapsto> ?new)) ?hs"
    using after_law [OF w(2) u _ h, of x] by auto
  then show ?thesis using b(1) dt w(1) by (intro exI [of _ d3]) (simp add: SetXMAX_def newEntry_def on_dm_def)
qed

text \<open>A delete that gets its lock at once: a visible version is marked, others are left alone.\<close>

lemma deleteStart_store:
  assumes "inv n (sm_DM s) m hs" and "size hs < limit" and "idle (sm_ec s)" and "live x s = Ok t" and "t_XID t = x" and "m u = Some (verRaw xmin xmax data)"
    and "IsVisible (tm_IsCommitted (sm_TM s)) t xmin xmax" and "lt_Add order x u (sm_lt s) = Some (Ok (Granted, lt))"
    and "\<not> IsVersionSkip (tm_IsCommitted (sm_TM s)) t xmax" and "xmax \<noteq> x"
  shows "\<exists>d' c'. deleteStart order x u s = Some (Ok (DelDone True), s\<lparr>sm_DM := d', sm_ec := c', sm_lt := lt\<rparr>) \<and>
     inv n d' (m(u \<mapsto> verRaw xmin x data)) hs \<and> idle c'"
proof -
  let ?raw = "verRaw xmin xmax data"
  obtain di d1 c where g: "ec_Get u s = (Ok (newEntry di u), s\<lparr>sm_ec := c, sm_DM := d1\<rparr>)" "handle u (length ?raw) di" "inv n d1 m (add_mset u hs)"
    "\<And>s1 n1 m1. sm_ec s1 = c \<Longrightarrow> inv n1 (sm_DM s1) m1 (add_mset u hs) \<Longrightarrow>
       \<exists>d2 c2. ReleaseEntry (newEntry di u) s1 = (Ok (), s1\<lparr>sm_DM := d2, sm_ec := c2\<rparr>) \<and> inv n1 d2 m1 hs \<and> idle c2"
    using ec_Get_store [OF assms(1-3,6), of thesis] by blast
  let ?s1 = "s\<lparr>sm_ec := c, sm_DM := d1\<rparr>" and ?s2 = "s\<lparr>sm_ec := c, sm_DM := d1, sm_lt := lt\<rparr>"
  have e: "e_Data (newEntry di u) s' = Ok ?raw" if "sm_DM s' = d1" for s' using entry_bytes [of n s' m u hs] g(2,3) assms(6) that by simp
  obtain d2 where x: "SetXMAX x (newEntry di u) ?s2 = (Ok (), ?s2\<lparr>sm_DM := d2\<rparr>)" "inv n d2 (m(u \<mapsto> verRaw xmin x data)) (add_mset u hs)"
    using SetXMAX_store [of n ?s2 m u hs xmin xmax data di x] g(2,3) assms(6) by auto
  obtain d3 c3 where r: "ReleaseEntry (newEntry di u) (?s2\<lparr>sm_DM := d2\<rparr>) = (Ok (), ?s2\<lparr>sm_DM := d3, sm_ec := c3\<rparr>)"
    "inv n d3 (m(u \<mapsto> verRaw xmin x data)) hs" "idle c3"
    using g(4) [of "?s2\<lparr>sm_DM := d2\<rparr>" n "m(u \<mapsto> verRaw xmin x data)"] x(2) by auto
  have tc: "sm_tc s x = Some t" "t_Err t = None" using assms(4) by (auto simp: live_def split: option.splits)
  have "deleteLocked t (newEntry di u) ?s2 = (Ok True, ?s2\<lparr>sm_DM := d3, sm_ec := c3\<rparr>)"
    using tc assms(5,9,10) e [of ?s2] x(1) r(1) by (simp add: deleteLocked_def deref_def releasing_def)
  then have "deleteStart order x u s = Some (Ok (DelDone True), ?s2\<lparr>sm_DM := d3, sm_ec := c3\<rparr>)"
    using assms(4,7,8) g(1) e [of ?s1] by (simp add: deleteStart_def visible_def)
  then show ?thesis using r(2,3) by (intro exI [of _ d3] exI [of _ c3]) simp
qed

end

end
