(* ===== verification/Forest.thy ===== *)
theory Forest
  imports Entries
begin

text \<open>
  Several indexes in one store. Each index of \<^verbatim>\<open>im/tree.go\<close> keeps to its own items and to items that did not exist before, so an insertion into one of them leaves the others, and
  every other item, as they are.
\<close>

section \<open>Indexes side by side\<close>

text \<open>A tree with the pairs it holds, and the items it consists of.\<close>

definition plant :: "(UUID \<rightharpoonup> bytes) \<Rightarrow> UUID multiset \<Rightarrow> bPlusTree \<times> slot list \<Rightarrow> UUID set \<Rightarrow> bool" where
  "plant m hs T F \<longleftrightarrow> (\<exists>I L. index m hs (fst T) I L \<and> contents L = snd T \<and> F = foot (fst T) I L)"

text \<open>Trees whose items are different from each other and from the items in \<open>S\<close>.\<close>

fun forest :: "(UUID \<rightharpoonup> bytes) \<Rightarrow> UUID multiset \<Rightarrow> UUID set \<Rightarrow> (bPlusTree \<times> slot list) list \<Rightarrow> bool" where
  "forest m hs S [] \<longleftrightarrow> True"
| "forest m hs S (T # Ts) \<longleftrightarrow> (\<exists>F. plant m hs T F \<and> F \<inter> S = {} \<and> forest m hs (S \<union> F) Ts)"

lemma plant_stored: "plant m hs T F \<Longrightarrow> v \<in> F \<Longrightarrow> m v \<noteq> None"
proof -
  assume "plant m hs T F" and v: "v \<in> F"
  then obtain I L root where p: "m (bt_bootUUID (fst T)) = Some (UUIDToRaw root)" "tree m root I L" "F = foot (fst T) I L"
    by (auto simp: plant_def index_def)
  then have "linked m False I" "linked m True L" by (simp_all add: tree_def)
  then show "m v \<noteq> None" using linked_stored [of m False I v] linked_stored [of m True L v] p v by (auto simp: foot_def image_Un)
qed

lemma plant_frame: "plant m hs T F \<Longrightarrow> \<forall>v \<in> F. m' v = m v \<Longrightarrow> set_mset hs \<subseteq> set_mset hs' \<Longrightarrow> plant m' hs' T F"
proof -
  assume "plant m hs T F" and v: "\<forall>v \<in> F. m' v = m v" and hs: "set_mset hs \<subseteq> set_mset hs'"
  then obtain I L where p: "index m hs (fst T) I L" "contents L = snd T" "F = foot (fst T) I L" by (auto simp: plant_def)
  have same: "m' u = m u" if "u \<in> fst ` set I \<or> u \<in> fst ` set L \<or> u = bt_bootUUID (fst T)" for u using v p(3) that by (auto simp: foot_def)
  obtain root where t: "m (bt_bootUUID (fst T)) = Some (UUIDToRaw root)" "tree m root I L" using p(1) by (auto simp: index_def)
  have "linked m' False I" "linked m' True L" using t(2) same by (auto simp: tree_def intro: linked_frame)
  then have "tree m' root I L" using t(2) by (simp add: tree_def)
  then have "index m' hs' (fst T) I L" using p(1) t(1) same hs by (auto simp: index_def)
  then show "plant m' hs' T F" using p(2,3) by (auto simp: plant_def)
qed

lemma forest_frame:
  assumes "forest m hs S Ts" and "\<forall>v. v \<notin> S \<and> m v \<noteq> None \<longrightarrow> m' v = m v" and "S' \<subseteq> S \<union> {v. m v = None}" and "set_mset hs \<subseteq> set_mset hs'"
  shows "forest m' hs' S' Ts"
  using assms
proof (induction Ts arbitrary: S S')
  case (Cons T Ts)
  then obtain F where F: "plant m hs T F" "F \<inter> S = {}" "forest m hs (S \<union> F) Ts" by auto
  have st: "\<forall>v \<in> F. m v \<noteq> None" using plant_stored [OF F(1)] by blast
  then have "plant m' hs' T F" using plant_frame [OF F(1) _ Cons.prems(4)] Cons.prems(2) F(2) by blast
  moreover have "F \<inter> S' = {}" using st F(2) Cons.prems(3) by blast
  moreover have "forest m' hs' (S' \<union> F) Ts"
    by (rule Cons.IH [OF F(3) _ _ Cons.prems(4)]) (use Cons.prems(2,3) in blast)+
  ultimately show ?case by auto
qed simp

text \<open>Looking at one tree of a forest, and replacing it.\<close>

lemma forest_at:
  assumes "forest m hs S (Xs @ T # Ys)" and "\<forall>v \<in> S. m v \<noteq> None"
  shows "\<exists>F. plant m hs T F \<and> F \<inter> S = {} \<and>
    (\<forall>m' T' F'. plant m' hs T' F' \<and> F' \<subseteq> F \<union> {v. m v = None} \<and> (\<forall>v. v \<notin> F \<and> m v \<noteq> None \<longrightarrow> m' v = m v) \<longrightarrow> forest m' hs S (Xs @ T' # Ys))"
  using assms
proof (induction Xs arbitrary: S)
  case Nil
  then obtain F where F: "plant m hs T F" "F \<inter> S = {}" "forest m hs (S \<union> F) Ys" by auto
  have "forest m' hs S (T' # Ys)"
    if a: "plant m' hs T' F'" "F' \<subseteq> F \<union> {v. m v = None}" "\<forall>v. v \<notin> F \<and> m v \<noteq> None \<longrightarrow> m' v = m v" for m' T' F'
  proof -
    have "F' \<inter> S = {}" using a(2) F(2) Nil.prems(2) by blast
    moreover have "forest m' hs (S \<union> F') Ys" by (rule forest_frame [OF F(3)]) (use a in auto)
    ultimately show ?thesis using a(1) by auto
  qed
  then show ?case using F(1,2) by auto
next
  case (Cons X Xs)
  then obtain G where G: "plant m hs X G" "G \<inter> S = {}" "forest m hs (S \<union> G) (Xs @ T # Ys)" by auto
  have "\<forall>v \<in> S \<union> G. m v \<noteq> None" using Cons.prems(2) plant_stored [OF G(1)] by blast
  from Cons.IH [OF G(3) this] obtain F where F: "plant m hs T F" "F \<inter> (S \<union> G) = {}"
    "\<And>m' T' F'. plant m' hs T' F' \<Longrightarrow> F' \<subseteq> F \<union> {v. m v = None} \<Longrightarrow> (\<forall>v. v \<notin> F \<and> m v \<noteq> None \<longrightarrow> m' v = m v) \<Longrightarrow> forest m' hs (S \<union> G) (Xs @ T' # Ys)"
    by blast
  have "forest m' hs S ((X # Xs) @ T' # Ys)"
    if a: "plant m' hs T' F'" "F' \<subseteq> F \<union> {v. m v = None}" "\<forall>v. v \<notin> F \<and> m v \<noteq> None \<longrightarrow> m' v = m v" for m' T' F'
  proof -
    have "\<forall>v \<in> G. m' v = m v" using a(3) F(2) plant_stored [OF G(1)] by blast
    then have "plant m' hs X G" using plant_frame [OF G(1)] by blast
    then show ?thesis using G(2) F(3) [OF a] by auto
  qed
  then show ?case using F(1,2) by blast
qed

text \<open>A new item next to the forest, and items that are no longer looked at.\<close>

lemma forest_new_item: "forest m hs S Ts \<Longrightarrow> m u = None \<Longrightarrow> forest (m(u \<mapsto> b)) hs (insert u S) Ts"
  by (rule forest_frame) auto

lemma forest_change: "forest m hs S Ts \<Longrightarrow> u \<in> S \<Longrightarrow> forest (m(u \<mapsto> b)) hs S Ts"
  by (rule forest_frame) auto

text \<open>The pairs of a tree are in the order of their keys, which are all different.\<close>

lemma plant_sorted: "plant m hs (bt, cs) F \<Longrightarrow> sorted (map snd cs) \<and> distinct (map snd cs)"
  by (auto simp: plant_def index_def tree_def)

context item_store
begin

lemma forest_search:
  assumes "inv n d m hs" and "size hs < limit" and "forest m hs S (Xs @ (bt, cs) # Ys)" and "\<forall>v \<in> S. m v \<noteq> None" and "l \<le> r" and "l < UUID_INF"
  shows "\<exists>d'. SearchRange bt l r d = Some (Ok (map fst (filter (\<lambda>e. l \<le> snd e \<and> snd e \<le> r) cs)), d') \<and> inv n d' m hs"
proof -
  obtain F where "plant m hs (bt, cs) F" using forest_at [OF assms(3,4)] by blast
  then obtain I L where "index m hs bt I L" "contents L = cs" by (auto simp: plant_def)
  then show ?thesis using SearchRange_index [OF assms(1,2) _ assms(5,6)] by blast
qed

lemma forest_insert:
  assumes "inv (Suc (Suc n)) d m hs" and "Suc (size hs) < limit" and "forest m hs S (Xs @ (bt, cs) # Ys)" and "\<forall>v \<in> S. m v \<noteq> None"
    and "key < UUID_INF" and "key \<notin> snd ` set cs"
  shows "\<exists>d' m'. bt_Insert bt key uuid d = Some (Ok (), d') \<and> inv n d' m' hs \<and> forest m' hs S (Xs @ (bt, insort_key snd (uuid, key) cs) # Ys) \<and> (\<forall>v \<in> S. m' v = m v)"
proof -
  obtain F where F: "plant m hs (bt, cs) F" "F \<inter> S = {}"
    "\<And>m' T' F'. plant m' hs T' F' \<Longrightarrow> F' \<subseteq> F \<union> {v. m v = None} \<Longrightarrow> (\<forall>v. v \<notin> F \<and> m v \<noteq> None \<longrightarrow> m' v = m v) \<Longrightarrow> forest m' hs S (Xs @ T' # Ys)"
    using forest_at [OF assms(3,4)] by blast
  then obtain I L where p: "index m hs bt I L" "contents L = cs" "F = foot bt I L" by (auto simp: plant_def)
  have new: "key \<notin> snd ` set (contents L)" using assms(6) p(2) by simp
  obtain d' m' I' L' where i: "bt_Insert bt key uuid d = Some (Ok (), d')" "inv n d' m' hs" "index m' hs bt I' L'" "contents L' = insort_key snd (uuid, key) cs"
    "\<forall>v. v \<notin> F \<and> m v \<noteq> None \<longrightarrow> m' v = m v" "foot bt I' L' \<subseteq> F \<union> {v. m v = None}"
    using bt_Insert_index [OF assms(1,2) p(1) assms(5) new, of uuid] unfolding p(2,3) by blast
  have "plant m' hs (bt, insort_key snd (uuid, key) cs) (foot bt I' L')" using i(3,4) unfolding plant_def by force
  then have "forest m' hs S (Xs @ (bt, insort_key snd (uuid, key) cs) # Ys)" using F(3) i(5,6) by blast
  moreover have "\<forall>v \<in> S. m' v = m v" using i(5) F(2) assms(4) by blast
  ultimately show ?thesis using i(1,2) by blast
qed

lemma new_plant:
  assumes "inv (Suc (Suc n)) d m hs" and "size hs < limit" and "forest m hs S Ts" and "\<forall>v \<in> S. m v \<noteq> None"
  obtains b d1 bt d2 m' where "bt_Create d = (Ok b, d1)" "bt_Load b d1 = (Ok bt, d2)" "inv n d2 m' (add_mset b hs)" "forest m' (add_mset b hs) S (Ts @ [(bt, [])])"
    "\<forall>v \<in> S. m' v = m v" "b \<noteq> NilUUID" "bt_bootUUID bt = b"
proof -
  obtain b d1 bt d2 m' I L where c: "bt_Create d = (Ok b, d1)" "bt_Load b d1 = (Ok bt, d2)" "inv n d2 m' (add_mset b hs)"
    "index m' (add_mset b hs) bt I L" "contents L = []" "bt_bootUUID bt = b" "\<forall>v. m v \<noteq> None \<longrightarrow> m' v = m v" "foot bt I L \<subseteq> {v. m v = None}"
    by (rule bt_Create_index [OF assms(1,2)])
  have pl: "plant m' (add_mset b hs) (bt, []) (foot bt I L)" using c(4,5) unfolding plant_def by force
  have "forest m' (add_mset b hs) S (Ts @ [(bt, [])])" using assms(3,4)
  proof (induction Ts arbitrary: S)
    case Nil
    then have "foot bt I L \<inter> S = {}" using c(8) by blast
    then show ?case using pl by auto
  next
    case (Cons T Ts)
    then obtain F where F: "plant m hs T F" "F \<inter> S = {}" "forest m hs (S \<union> F) Ts" by auto
    have st: "\<forall>v \<in> F. m v \<noteq> None" using plant_stored [OF F(1)] by blast
    then have "plant m' (add_mset b hs) T F" using plant_frame [OF F(1)] c(7) by (metis set_mset_add_mset_insert subset_insertI)
    moreover have "forest m' (add_mset b hs) (S \<union> F) (Ts @ [(bt, [])])" by (rule Cons.IH [OF F(3)]) (use st Cons.prems(2) in blast)
    ultimately show ?case using F(2) by auto
  qed
  moreover have "m' b \<noteq> None" using c(4,6) by (auto simp: index_def)
  then have "b \<noteq> NilUUID" using nil_law [OF c(3)] by auto
  ultimately show thesis using that [OF c(1-3)] c(6,7) assms(4) by blast
qed

end

end
