(* ===== verification/Rows.thy ===== *)
theory Rows
  imports Table
begin

text \<open>
  Properties of rows and conditions (\<^verbatim>\<open>tbm/field.go\<close>, \<^verbatim>\<open>tbm/table.go\<close>): a row that was inserted reads back as it was, the key range of a condition selects the
  rows the condition selects, sorting and limits, and where the code departs from that.
\<close>

section \<open>Values and rows\<close>

lemma unat_ucast_32 [simp]: "unat (ucast (x :: uint32) :: uint64) = unat x"
  by transfer (simp add: take_bit_nat_eq_self take_bit_take_bit)

lemma below_pred: "0 < (m :: uint64) \<Longrightarrow> (k < m) = (k \<le> m - 1)"
  using unat_minus_one [of m] unat_gt_0 [of m] by (auto simp: word_less_nat_alt word_le_nat_alt)

lemma above_succ: "m + 1 \<noteq> (0 :: uint64) \<Longrightarrow> (m < k) = (m + 1 \<le> k)"
  using unatSuc [of m] by (auto simp: word_less_nat_alt word_le_nat_alt add.commute)

definition of_type :: "field \<Rightarrow> value \<Rightarrow> bool" where
  "of_type f v \<longleftrightarrow> (f_FType f = ''uint32'' \<and> (\<exists>x. v = VUint32 x)) \<or> (f_FType f = ''uint64'' \<and> (\<exists>x. v = VUint64 x)) \<or>
     (f_FType f = ''string'' \<and> (\<exists>s. v = VString s))"

definition short_value :: "value \<Rightarrow> bool" where
  "short_value v \<longleftrightarrow> (\<forall>s. v = VString s \<longrightarrow> length s < 2 ^ 32)"

lemmas value_defs = asUint32_def asUint64_def asString_def

lemma StrToValue_type:
  assumes "isType (f_FType f)" and "StrToValue f s = Ok v"
  shows "of_type f v" and "length s < 2 ^ 32 \<Longrightarrow> short_value v"
  using assms by (auto simp: StrToValue_def isType_def of_type_def short_value_def rbind_eq_Ok split: if_splits)

lemma value_roundtrip:
  assumes "of_type f v" and "short_value v"
  obtains b where "ValueToRaw f v = Ok b" "\<And>tail. ParseValue f (b @ tail) = Ok (v, length b)"
proof -
  consider x where "f_FType f = ''uint32''" "v = VUint32 x" | x where "f_FType f = ''uint64''" "v = VUint64 x"
    | s where "f_FType f = ''string''" "v = VString s" using assms(1) by (auto simp: of_type_def)
  then show thesis
  proof cases
    case (1 x) then show ?thesis by (intro that [of "Uint32ToRaw x"]) (simp_all add: ValueToRaw_def ParseValue_def value_defs ParseUint32_def GetUint32_prefix)
  next
    case (2 x) then show ?thesis by (intro that [of "Uint64ToRaw x"]) (simp_all add: ValueToRaw_def ParseValue_def value_defs ParseUint64_def GetUint64_prefix)
  next
    case (3 s)
    then have "length s < 2 ^ 32" using assms(2) by (simp add: short_value_def)
    with 3 show ?thesis by (intro that [of "VarStrToRaw s"]) (simp_all add: ValueToRaw_def ParseValue_def value_defs ParseVarStr_prefix, simp add: VarStrToRaw_def)
  qed
qed

lemma obinds_return: "obinds m (\<lambda>x s. Some (Ok x, s)) = m"
  by (cases m) (auto simp: obinds_def obind_def split: prod.splits res.splits)

definition fill_row :: "row \<Rightarrow> field list \<Rightarrow> row \<Rightarrow> row" where
  "fill_row e fs e0 = foldl (\<lambda>e0 f. e0(f_FName f \<mapsto> row_get e (f_FName f))) e0 fs"

lemma fill_row_app: "fill_row e fs e0 k = (if k \<in> f_FName ` set fs then Some (row_get e k) else e0 k)"
  unfolding fill_row_def by (induction fs arbitrary: e0) auto

lemma rowBytes_parse:
  assumes "\<forall>f \<in> set fs. of_type f (row_get e (f_FName f)) \<and> short_value (row_get e (f_FName f))"
  shows "\<exists>b. (\<forall>raw. rowBytes fs e raw = Ok (raw @ b)) \<and>
    (\<forall>pre tail e0. parseEntryLoop fs (pre @ b @ tail) (length pre) e0 = Ok (fill_row e fs e0))"
  using assms
proof (induction fs)
  case Nil
  show ?case by (simp add: fill_row_def)
next
  case (Cons f fs)
  then obtain b where b: "\<And>raw. rowBytes fs e raw = Ok (raw @ b)"
    "\<And>pre tail e0. parseEntryLoop fs (pre @ b @ tail) (length pre) e0 = Ok (fill_row e fs e0)" by auto
  obtain a where a: "ValueToRaw f (row_get e (f_FName f)) = Ok a" "\<And>tail. ParseValue f (a @ tail) = Ok (row_get e (f_FName f), length a)"
    using value_roundtrip [of f "row_get e (f_FName f)"] Cons.prems by auto
  have "parseEntryLoop (f # fs) (pre @ (a @ b) @ tail) (length pre) e0 = Ok (fill_row e (f # fs) e0)" for pre tail e0
    using b(2) [of "pre @ a" tail "e0(f_FName f \<mapsto> row_get e (f_FName f))"] a(2) [of "b @ tail"] by (simp add: fill_row_def)
  then show ?case using a(1) b(1) by (intro exI [of _ "a @ b"]) auto
qed

lemma strToEntryLoop_fields:
  assumes "strToEntryLoop fs vs e0 = Ok e" and "length vs = length fs" and "distinct (map f_FName fs)"
  shows "(\<forall>f \<in> set fs. \<exists>s \<in> set vs. \<exists>v. e (f_FName f) = Some v \<and> StrToValue f s = Ok v) \<and> (\<forall>k. k \<notin> f_FName ` set fs \<longrightarrow> e k = e0 k)"
  using assms
proof (induction fs arbitrary: vs e0)
  case (Cons f fs)
  then obtain s vs' where vs: "vs = s # vs'" by (cases vs) auto
  obtain v where v: "StrToValue f s = Ok v" "strToEntryLoop fs vs' (e0(f_FName f \<mapsto> v)) = Ok e"
    using Cons.prems(1) vs by (auto simp: rbind_eq_Ok go_index_def)
  have ih: "\<forall>g \<in> set fs. \<exists>s \<in> set vs'. \<exists>v. e (f_FName g) = Some v \<and> StrToValue g s = Ok v" "\<forall>k. k \<notin> f_FName ` set fs \<longrightarrow> e k = (e0(f_FName f \<mapsto> v)) k"
    using Cons.IH [OF v(2)] Cons.prems(2,3) vs by auto
  have "e (f_FName f) = Some v" using ih(2) Cons.prems(3) by auto
  then show ?case using ih v(1) vs by auto
qed simp

text \<open>The bytes of an accepted row are decoded to it.\<close>

lemma entry_roundtrip:
  assumes "distinct (map f_FName (tb_fields t))" and "\<forall>f \<in> set (tb_fields t). isType (f_FType f)"
    and "strToEntry t values = Ok e" and "\<forall>s \<in> set values. length s < 2 ^ 32"
  shows "\<exists>raw. entryToRaw t e = Ok raw \<and> parseEntry t raw = Ok e"
proof -
  let ?fs = "tb_fields t"
  have l: "length values = length ?fs" and s: "strToEntryLoop ?fs values Map.empty = Ok e"
    using assms(3) by (auto simp: strToEntry_def split: if_splits)
  note f = strToEntryLoop_fields [OF s l assms(1)]
  have ty: "\<forall>g \<in> set ?fs. of_type g (row_get e (f_FName g)) \<and> short_value (row_get e (f_FName g))"
    using f assms(2,4) StrToValue_type by (fastforce simp: row_get_def)
  obtain b where b: "rowBytes ?fs e [] = Ok b" "parseEntryLoop ?fs b 0 Map.empty = Ok (fill_row e ?fs Map.empty)"
    using rowBytes_parse [OF ty] by (metis append_Nil append_Nil2 list.size(3))
  have "fill_row e ?fs Map.empty k = e k" for k
    using f by (auto simp: fill_row_app row_get_def split: option.splits)
  then have "fill_row e ?fs Map.empty = e" by auto
  then show ?thesis using b by (simp add: entryToRaw_def parseEntry_def)
qed

section \<open>Properties\<close>

text \<open>C23. Rows on disk: whenever the values of an insert statement are accepted for a table with distinct field names, the row is encoded without a panic and
  decoding the bytes gives exactly that row.\<close>

theorem row_roundtrip:
  assumes "distinct (map f_FName (tb_fields t))" and "\<forall>f \<in> set (tb_fields t). isType (f_FType f)"
    and "strToEntry t values = Ok e" and "\<forall>s \<in> set values. length s < 2 ^ 32"
  shows "\<exists>raw. entryToRaw t e = Ok raw \<and> parseEntry t raw = Ok e"
  by (rule entry_roundtrip [OF assms])

text \<open>A field without index, and a table over given fields, for the examples.\<close>

definition plain_field :: "string \<Rightarrow> string \<Rightarrow> field" where
  "plain_field name ty = \<lparr>f_SelfUUID = 1, f_FName = name, f_FType = ty, f_index = NilUUID, f_bt = None\<rparr>"

definition table_of :: "field list \<Rightarrow> table" where
  "table_of fs = \<lparr>tb_SelfUUID = 2, tb_Name = ''people'', tb_status = 0, tb_Next = NilUUID, tb_fields = fs, tb_rowIndex = 3, tb_rowIndexBt = None\<rparr>"

theorem row_roundtrip_witness:
  "\<exists>raw e. strToEntry (table_of [plain_field ''id'' ''uint32'', plain_field ''name'' ''string'']) [''7'', ''ann''] = Ok e \<and>
     entryToRaw (table_of [plain_field ''id'' ''uint32'', plain_field ''name'' ''string'']) e = Ok raw \<and>
     parseEntry (table_of [plain_field ''id'' ''uint32'', plain_field ''name'' ''string'']) raw = Ok e"
proof -
  let ?t = "table_of [plain_field ''id'' ''uint32'', plain_field ''name'' ''string'']"
  obtain e where e: "strToEntry ?t [''7'', ''ann''] = Ok e"
    by (simp add: strToEntry_def table_of_def plain_field_def go_index_def StrToValue_def StrToUint32_def ParseUint_def)
  have "distinct (map f_FName (tb_fields ?t))" "\<forall>f \<in> set (tb_fields ?t). isType (f_FType f)"
    by (simp_all add: table_of_def plain_field_def isType_def)
  from row_roundtrip [OF this e] e show ?thesis by simp
qed

text \<open>A condition on an indexed number field selects by index what it selects by scanning: for \<open><\<close>, \<open>=\<close> and \<open>>\<close> the key of a value lies in the range computed for
  the index search if and only if the comparison on the row itself holds, also at the ends of the number range.\<close>

lemma indexed_range_exact:
  assumes "f_FType f \<in> {''uint32'', ''uint64''}" and "of_type f v" and "StrToValue f (se_Value exp) = Ok w"
    and "se_CmpOp exp \<in> {''<'', ''='', ''>''}" and "field_named t (se_Field exp) = Some f" and "e (se_Field exp) = Some v"
  shows "\<exists>l r k. CalExp f exp = Ok (l, r) \<and> ValueToUUID f v = Ok k \<and> matchSingleExp t e exp = Ok (l \<le> k \<and> k \<le> r)"
proof -
  have "isType (f_FType f)" using assms(1) by (auto simp: isType_def)
  then have w: "of_type f w" using StrToValue_type assms(3) by blast
  obtain k m where k: "ValueToUUID f v = Ok k" "ValueToUUID f w = Ok m" "valueCompare f v w = Ok (three_way k m)"
  proof (cases "f_FType f = ''uint32''")
    case True
    then obtain x y where "v = VUint32 x" "w = VUint32 y" using assms(2) w by (auto simp: of_type_def)
    then show ?thesis using True that [of "ucast x" "ucast y"]
      by (simp add: ValueToUUID_def valueCompare_def value_defs three_way_def word_less_nat_alt)
  next
    case False
    then obtain x y where "f_FType f = ''uint64''" "v = VUint64 x" "w = VUint64 y" using assms(1,2) w by (auto simp: of_type_def)
    then show ?thesis using that [of x y] by (simp add: ValueToUUID_def valueCompare_def value_defs)
  qed
  have m: "matchSingleExp t e exp = Ok (if se_CmpOp exp = ''<'' then k < m else if se_CmpOp exp = ''='' then k = m else m < k)"
    using assms(3-6) k(3) by (auto simp: matchSingleExp_def three_way_def)
  have z: "0 < m" if "k < m" using that by (auto simp: word_gt_0)
  have mx: "m + 1 = 0 \<Longrightarrow> \<not> m < k" by (metis UUID_INF_max UUID_le_INF add_eq_0_iff2 leD)
  show ?thesis using assms(3,4) k m mx z below_pred [of m k] above_succ [of m k] by (auto simp: CalExp_def Let_def)
qed

text \<open>The other operators are lost on an indexed field: for \<open><=\<close>, \<open>>=\<close> and \<open>!=\<close>, which the parser accepts and the scan of a field without index honours, the
  condition is answered by looking the key 0 up in the index, whatever the value, so every row with another key is left out of the answer without an error.\<close>

lemma indexed_operator_ignored:
  assumes "se_CmpOp exp \<in> {''<='', ''>='', ''!=''}" and "field_named t (se_Field exp) = Some f" and "IsIndexed f"
  shows "t_parseWhere t xid (Some \<lparr>wh_SingleExp1 = exp, wh_LogicOp = [], wh_SingleExp2 = None\<rparr>) s = f_Search f 0 0 s"
proof -
  have "CalExp f exp = Ok (0, 0)" using assms(1) by (auto simp: CalExp_def)
  then show ?thesis using assms(2,3) by (simp add: t_parseWhere_def calWhere_def obinds_return)
qed

text \<open>A row of age 7 satisfies \<open>age <= 30\<close>; the index is searched for the key 0.\<close>


text \<open>C34. Limits: with a limit and an offset in the range of \<open>int\<close>, the answer is exactly the rows from the offset on, as many as the limit allows, if the sum of
  the two does not leave the range; otherwise the sum wraps to a negative number and the slice expression panics, which ends the server.\<close>

theorem limit_window_or_panic:
  assumes "0 < limit" and "limit < 2 ^ 63" and "0 \<le> offset" and "offset < 2 ^ 63" and "length es < 2 ^ 62"
  shows "limitEntries es limit offset =
    (if int (length es) \<le> offset then Ok []
     else if offset + limit < 2 ^ 63 then Ok (take (nat limit) (drop (nat offset) es)) else Panic)"
proof -
  have small: "wrap_int i = i" if "0 \<le> i" "i < 2 ^ 63" for i
    using that by (simp add: wrap_int_def signed_of_int signed_take_bit_int_eq_self)
  have big: "wrap_int (offset + limit) < 0" if "\<not> offset + limit < 2 ^ 63"
  proof -
    have "(offset + limit + 2 ^ 63) mod 2 ^ 64 = (offset + limit + 2 ^ 63 - 2 ^ 64) mod 2 ^ 64" by (simp only: minus_mod_self2)
    also have "\<dots> = offset + limit + 2 ^ 63 - 2 ^ 64" using that assms(1-4) by (intro mod_pos_pos_trivial) simp_all
    finally have "wrap_int (offset + limit) = offset + limit - 2 ^ 64" by (simp add: wrap_int_def int_word_sint del: of_int_add)
    then show ?thesis using assms(2,4) by simp
  qed
  show ?thesis
  proof (cases "int (length es) \<le> offset")
    case False
    show ?thesis
    proof (cases "offset + limit < 2 ^ 63")
      case True
      let ?e = "if int (length es) < offset + limit then int (length es) else offset + limit"
      have "take (nat (?e - offset)) (drop (nat offset) es) = take (nat limit) (drop (nat offset) es)"
        using False assms(1,3) by (auto simp: nat_diff_distrib nat_add_distrib)
      then show ?thesis using True False small [of "offset + limit"] assms(1,3) by (simp add: limitEntries_def Let_def)
    next
      case False2: False
      then show ?thesis using False big assms(3) by (simp add: limitEntries_def Let_def)
    qed
  qed (simp add: limitEntries_def)
qed

theorem limit_window_or_panic_witness:
  "limitEntries [Map.empty, Map.empty] 1 1 = Ok [Map.empty] \<and> limitEntries [Map.empty, Map.empty] (2 ^ 63 - 1) 1 = Panic"
  using limit_window_or_panic [of 1 1 "[Map.empty, Map.empty]"] limit_window_or_panic [of "2 ^ 63 - 1" 1 "[Map.empty, Map.empty]"] by simp

text \<open>Two fields of one name: \<open>create table\<close> does not reject a second field of the same name. If the two have different types, every insert whose values are accepted
  panics, because both fields write the same entry of the row; nothing is stored.\<close>

lemma duplicate_field_insert_panics:
  assumes "tb_fields t = [f, g]" and "f_FName f = f_FName g" and "isType (f_FType f)" and "isType (f_FType g)" and "f_FType f \<noteq> f_FType g"
    and "strToEntry t values = Ok e"
  shows "insertRows t xid (values # rows) s = Some (Panic, s)"
proof -
  obtain a b where v: "values = [a, b]" using assms(1,6) by (auto simp: strToEntry_def length_Suc_conv numeral_2_eq_2 split: if_splits)
  obtain y where y: "StrToValue g b = Ok y" "row_get e (f_FName f) = y"
    using assms(1,2,6) v by (auto simp: strToEntry_def rbind_eq_Ok go_index_def row_get_def)
  have "of_type g y" by (rule StrToValue_type [OF assms(4) y(1)])
  then have "ValueToRaw f y = Panic" using assms(3,5)
    by (auto simp: of_type_def isType_def ValueToRaw_def value_defs)
  then have "entryToRaw t e = Panic" using assms(1) y(2) by (simp add: entryToRaw_def)
  then show ?thesis using assms(6) by simp
qed

end
