(* ===== verification/Types.thy ===== *)
theory Types
  imports Rows
begin

text \<open>
  The types of the values in a table (\<^verbatim>\<open>tbm/field.go\<close>, \<^verbatim>\<open>tbm/table.go\<close>). Values travel as \<open>interface{}\<close> and are taken apart with type assertions that panic on a value of another
  type. A table made by \<open>create table\<close> with different field names has well-typed fields, every row that comes from a statement or from the disk is well typed, and no operation
  on a well-typed row panics.
\<close>

section \<open>Well-typed tables and rows\<close>

definition typed_table :: "table \<Rightarrow> bool" where
  "typed_table t \<longleftrightarrow> distinct (map f_FName (tb_fields t)) \<and> (\<forall>f \<in> set (tb_fields t). isType (f_FType f))"

definition typed_row :: "table \<Rightarrow> row \<Rightarrow> bool" where
  "typed_row t e \<longleftrightarrow> dom e = f_FName ` set (tb_fields t) \<and> (\<forall>f \<in> set (tb_fields t). of_type f (row_get e (f_FName f)))"

text \<open>A condition as the parser builds it: a logic operator comes with a second comparison.\<close>

definition whole_where :: "Where option \<Rightarrow> bool" where
  "whole_where wh \<longleftrightarrow> (\<forall>w. wh = Some w \<longrightarrow> wh_LogicOp w \<noteq> [] \<longrightarrow> wh_SingleExp2 w \<noteq> None)"

lemma typed_value_ok:
  assumes "of_type f v"
  shows "is_ok (ValueToRaw f v)" "is_ok (ValueToUUID f v)" "is_ok (ValuePrint f v)" "of_type f w \<Longrightarrow> is_ok (valueCompare f v w)"
  using assms by (auto simp: of_type_def is_ok_def ValueToRaw_def ValueToUUID_def ValuePrint_def valueCompare_def value_defs)

lemma ParseValue_type: "isType (f_FType f) \<Longrightarrow> ParseValue f raw = Ok (v, n) \<Longrightarrow> of_type f v"
  by (auto simp: ParseValue_def isType_def of_type_def rbind_eq_Ok split: if_splits)

lemma parse_digits_no_panic: "parse_digits bits n s \<noteq> Panic"
  by (induction s arbitrary: n) (simp_all add: Let_def)

lemma StrToValue_no_panic: "StrToValue f s \<noteq> Panic"
  using parse_digits_no_panic by (auto simp: StrToValue_def StrToUint32_def StrToUint64_def ParseUint_def rbind_def split: res.splits if_splits)

lemma field_named_mem: "field_named t n = Some f \<Longrightarrow> f \<in> set (tb_fields t) \<and> f_FName f = n"
  by (auto simp: field_named_def find_Some_iff)

section \<open>Rows from statements and from the disk\<close>

lemma parseEntryLoop_fields:
  assumes "parseEntryLoop fs raw pos e0 = Ok e" and "distinct (map f_FName fs)"
  shows "(\<forall>f \<in> set fs. \<exists>v x n. e (f_FName f) = Some v \<and> ParseValue f x = Ok (v, n)) \<and> (\<forall>k. k \<notin> f_FName ` set fs \<longrightarrow> e k = e0 k)"
  using assms
proof (induction fs arbitrary: pos e0)
  case (Cons f fs)
  then obtain x v n where v: "ParseValue f x = Ok (v, n)" "parseEntryLoop fs raw (pos + n) (e0(f_FName f \<mapsto> v)) = Ok e"
    by (auto simp: rbind_eq_Ok split: prod.splits)
  note ih = Cons.IH [OF v(2)]
  have "e (f_FName f) = Some v" using ih Cons.prems(2) by auto
  then show ?case using ih Cons.prems(2) v(1) by auto
qed simp

lemma strToEntry_typed: "typed_table t \<Longrightarrow> strToEntry t values = Ok e \<Longrightarrow> typed_row t e"
proof -
  assume t: "typed_table t" and e: "strToEntry t values = Ok e"
  then have l: "strToEntryLoop (tb_fields t) values Map.empty = Ok e" "length values = length (tb_fields t)" "distinct (map f_FName (tb_fields t))"
    by (auto simp: strToEntry_def typed_table_def split: if_splits)
  note f = strToEntryLoop_fields [OF l]
  then have "dom e = f_FName ` set (tb_fields t)" by (fastforce simp: dom_def)
  moreover have "of_type g (row_get e (f_FName g))" if "g \<in> set (tb_fields t)" for g
    using f that t StrToValue_type(1) by (fastforce simp: typed_table_def row_get_def)
  ultimately show "typed_row t e" by (simp add: typed_row_def)
qed

lemma parseEntry_typed: "typed_table t \<Longrightarrow> parseEntry t raw = Ok e \<Longrightarrow> typed_row t e"
proof -
  assume t: "typed_table t" and e: "parseEntry t raw = Ok e"
  then have l: "parseEntryLoop (tb_fields t) raw 0 Map.empty = Ok e" "distinct (map f_FName (tb_fields t))" by (auto simp: parseEntry_def typed_table_def)
  note f = parseEntryLoop_fields [OF l]
  then have "dom e = f_FName ` set (tb_fields t)" by (fastforce simp: dom_def)
  moreover have "of_type g (row_get e (f_FName g))" if "g \<in> set (tb_fields t)" for g
    using f that t ParseValue_type by (fastforce simp: typed_table_def row_get_def)
  ultimately show "typed_row t e" by (simp add: typed_row_def)
qed

lemma strToEntryLoop_no_panic: "length vs = length fs \<Longrightarrow> strToEntryLoop fs vs e0 \<noteq> Panic"
proof (induction fs arbitrary: vs e0)
  case (Cons f fs)
  then obtain s vs' where "vs = s # vs'" by (cases vs) auto
  then show ?case using Cons StrToValue_no_panic [of f s] by (cases "StrToValue f s") (auto simp: go_index_def)
qed simp

lemma typed_row_update: "typed_table t \<Longrightarrow> typed_row t e \<Longrightarrow> f \<in> set (tb_fields t) \<Longrightarrow> of_type f v \<Longrightarrow> typed_row t (e(f_FName f \<mapsto> v))"
  by (auto simp: typed_row_def typed_table_def row_get_def distinct_map dest: inj_onD)

section \<open>Operations on well-typed rows\<close>

lemma rowBytes_ok: "\<forall>f \<in> set fs. of_type f (row_get e (f_FName f)) \<Longrightarrow> is_ok (rowBytes fs e raw)"
proof (induction fs arbitrary: raw)
  case (Cons f fs)
  then show ?case using typed_value_ok(1) [of f "row_get e (f_FName f)"] by (cases "ValueToRaw f (row_get e (f_FName f))") (auto simp: is_ok_def)
qed (simp add: is_ok_def)

lemma printFields_ok: "\<forall>f \<in> set fs. of_type f (row_get e (f_FName f)) \<Longrightarrow> is_ok (printFields fs e)"
proof (induction fs)
  case (Cons f fs)
  then show ?case using typed_value_ok(3) [of f "row_get e (f_FName f)"]
    by (cases "ValuePrint f (row_get e (f_FName f))"; cases "printFields fs e") (auto simp: is_ok_def)
qed (simp add: is_ok_def)

lemma entryPrint_ok: "typed_row t e \<Longrightarrow> is_ok (entryPrint t e)"
  using printFields_ok [of "tb_fields t" e] by (cases "printFields (tb_fields t) e") (auto simp: entryPrint_def typed_row_def is_ok_def)

lemma matchSingleExp_ok:
  assumes "typed_table t" and "typed_row t e"
  shows "is_ok (matchSingleExp t e exp)"
proof (cases "e (se_Field exp)")
  case (Some v)
  show ?thesis
  proof (cases "field_named t (se_Field exp)")
    case f: (Some f)
    then have m: "f \<in> set (tb_fields t)" "f_FName f = se_Field exp" using field_named_mem by auto
    then have "of_type f v" using assms(2) Some by (auto simp: typed_row_def row_get_def)
    moreover have "of_type f w" if "StrToValue f (se_Value exp) = Ok w" for w
      using StrToValue_type(1) [OF _ that] assms(1) m(1) by (auto simp: typed_table_def)
    ultimately show ?thesis using Some f typed_value_ok(4) [of f v] StrToValue_no_panic [of f "se_Value exp"]
      by (cases "StrToValue f (se_Value exp)") (force simp: matchSingleExp_def is_ok_def rbind_def split: res.splits)+
  qed (simp add: matchSingleExp_def Some is_ok_def)
qed (simp add: matchSingleExp_def is_ok_def)

lemma evaluateWhere_ok:
  assumes "typed_table t" and "typed_row t e" and "whole_where wh"
  shows "is_ok (evaluateWhere t e wh)"
  using matchSingleExp_ok [OF assms(1,2)] assms(3)
  by (cases wh) (force simp: evaluateWhere_def whole_where_def is_ok_def rbind_def split: res.splits option.splits)+

lemma sortEntries_ok:
  assumes "typed_table t" and "\<forall>e \<in> set es. typed_row t e"
  shows "is_ok (sortEntries sortSlice t es name desc)"
proof (cases "field_named t name")
  case (Some f)
  then have m: "f \<in> set (tb_fields t)" "f_FName f = name" using field_named_mem by auto
  then have "\<forall>e \<in> set es. is_ok (valueCompare f (row_get e name) (row_get e name))"
    using assms(2) typed_value_ok(4) by (auto simp: typed_row_def)
  then show ?thesis using Some by (simp add: sortEntries_def is_ok_def list_all_iff)
qed (simp add: sortEntries_def is_ok_def)

section \<open>Tables made by statements\<close>

lemma CreateField_type: "CreateField xid n ty ix s = (Ok f, s') \<Longrightarrow> f_FName f = n \<and> isType (f_FType f)"
  by (auto simp: CreateField_def typeCheck_def isType_def f_persistSelf_def Let_def sbind_eq_Ok split: if_splits)

lemma tableFields_type:
  assumes "tableFields ns tys ix fs s = (Ok gs, s')" and "\<forall>f \<in> set fs. isType (f_FType f)"
  shows "map f_FName gs = map f_FName fs @ ns \<and> (\<forall>f \<in> set gs. isType (f_FType f))"
  using assms
proof (induction ns arbitrary: tys fs s)
  case (Cons n ns)
  then obtain ty f s1 where f: "CreateField SUPER_XID n ty (n \<in> set ix) s = (Ok f, s1)" "tableFields ns (tl tys) ix (fs @ [f]) s1 = (Ok gs, s')"
    by (auto simp: sbind_eq_Ok)
  show ?case using Cons.IH [OF f(2)] Cons.prems(2) CreateField_type [OF f(1)] by auto
qed simp

lemma CreateTable_typed: "CreateTable next create s = (Ok t, s') \<Longrightarrow> distinct (cr_FieldName create) \<Longrightarrow> typed_table t"
proof -
  assume c: "CreateTable next create s = (Ok t, s')" and d: "distinct (cr_FieldName create)"
  then obtain fs s1 where f: "tableFields (cr_FieldName create) (cr_FieldType create) (cr_Index create) [] s = (Ok fs, s1)" "tb_fields t = fs"
    by (auto simp: CreateTable_def t_persistSelf_def Let_def sbind_eq_Ok)
  show "typed_table t" using tableFields_type [OF f(1)] f(2) d by (simp add: typed_table_def)
qed

end
