(* ===== verification/Versions.thy ===== *)
theory Versions
  imports Forest Types
begin

text \<open>
  Tables as lists of versions. \<open>table_at\<close> says which versions a table (\<^verbatim>\<open>tbm/table.go\<close>) holds in the store: each version is an entry of its own, the hidden row index lists all of them by
  their \<open>UUID\<close>, and the index of a field lists them by the key of the field. Inserting rows adds versions, and a select answers with the rows of the versions that its transaction sees and that
  satisfy the condition, in the order of the index it uses.
\<close>

section \<open>What a table holds\<close>

record version =
  v_uuid :: UUID
  v_xmin :: XID
  v_xmax :: XID
  v_row :: row

definition version_at :: "(UUID \<rightharpoonup> bytes) \<Rightarrow> table \<Rightarrow> version \<Rightarrow> bool" where
  "version_at m t v \<longleftrightarrow> (\<exists>data. m (v_uuid v) = Some (verRaw (v_xmin v) (v_xmax v) data) \<and> parseEntry t data = Ok (v_row v))"

definition keyOf :: "field \<Rightarrow> row \<Rightarrow> UUID" where
  "keyOf f e = (case ValueToUUID f (row_get e (f_FName f)) of Ok k \<Rightarrow> k | _ \<Rightarrow> 0)"

definition row_pair :: "version \<Rightarrow> slot" where
  "row_pair v = (v_uuid v, v_uuid v)"

definition key_pair :: "field \<Rightarrow> version \<Rightarrow> slot" where
  "key_pair f v = (v_uuid v, keyOf f (v_row v))"

abbreviation indexed :: "table \<Rightarrow> field list" where
  "indexed t \<equiv> filter IsIndexed (tb_fields t)"

text \<open>The trees of a table, the youngest version first in the list.\<close>

definition field_tree :: "version list \<Rightarrow> field \<Rightarrow> bPlusTree \<times> slot list" where
  "field_tree vs f = (the (f_bt f), sort_key snd (map (key_pair f) vs))"

definition row_tree :: "table \<Rightarrow> version list \<Rightarrow> bPlusTree \<times> slot list" where
  "row_tree t vs = (the (tb_rowIndexBt t), sort_key snd (map row_pair vs))"

definition table_at :: "(UUID \<rightharpoonup> bytes) \<Rightarrow> UUID multiset \<Rightarrow> UUID set \<Rightarrow> table \<Rightarrow> version list \<Rightarrow> bool" where
  "table_at m hs K t vs \<longleftrightarrow> typed_table t \<and> tb_rowIndexBt t \<noteq> None \<and> (\<forall>f \<in> set (tb_fields t). IsIndexed f \<longrightarrow> f_bt f \<noteq> None) \<and>
     (\<forall>v \<in> K. m v \<noteq> None) \<and> K \<inter> v_uuid ` set vs = {} \<and> (\<forall>v \<in> set vs. version_at m t v) \<and>
     forest m hs (K \<union> v_uuid ` set vs) (map (field_tree vs) (indexed t) @ [row_tree t vs])"

lemma insort_key_map: "insort_key f (g x) (map g xs) = map g (insort_key (f \<circ> g) x xs)"
  by (induction xs) simp_all

lemma sort_key_map: "sort_key f (map g xs) = map g (sort_key (f \<circ> g) xs)"
  by (induction xs) (simp_all add: insort_key_map comp_def)

lemma table_stored: "table_at m hs K t vs \<Longrightarrow> \<forall>v \<in> K \<union> v_uuid ` set vs. m v \<noteq> None"
  unfolding table_at_def version_at_def by auto

lemma keyOf_typed: "typed_row t e \<Longrightarrow> f \<in> set (tb_fields t) \<Longrightarrow> ValueToUUID f (row_get e (f_FName f)) = Ok (keyOf f e)"
  using typed_value_ok(2) [of f "row_get e (f_FName f)"] by (auto simp: typed_row_def keyOf_def is_ok_def split: res.splits)

lemma version_typed: "typed_table t \<Longrightarrow> version_at m t v \<Longrightarrow> typed_row t (v_row v)"
  by (auto simp: version_at_def intro: parseEntry_typed)

section \<open>Selects\<close>

text \<open>What a transaction sees, and the rows that satisfy a condition.\<close>

definition seen :: "serializabilityManager \<Rightarrow> transaction \<Rightarrow> version \<Rightarrow> bool" where
  "seen s tx v = IsVisible (tm_IsCommitted (sm_TM s)) tx (v_xmin v) (v_xmax v)"

definition satisfies :: "table \<Rightarrow> Where option \<Rightarrow> version \<Rightarrow> bool" where
  "satisfies t wh v \<longleftrightarrow> evaluateWhere t (v_row v) wh = Ok True"

text \<open>How a statement finds its rows: by a scan of the row index, in the order of the \<open>UUID\<close>s, or, for one comparison of an indexed number field, by the index of the field, in the
  order of its keys. The range of keys is not empty.\<close>

definition plan :: "table \<Rightarrow> Where option \<Rightarrow> (version \<Rightarrow> UUID) \<Rightarrow> bool" where
  "plan t wh ord \<longleftrightarrow> (wh = None \<and> ord = v_uuid) \<or>
     (\<exists>w fd. wh = Some w \<and> whole_where wh \<and> field_named t (se_Field (wh_SingleExp1 w)) = Some fd \<and> \<not> IsIndexed fd \<and> ord = v_uuid) \<or>
     (\<exists>exp f w l r. wh = Some \<lparr>wh_SingleExp1 = exp, wh_LogicOp = [], wh_SingleExp2 = None\<rparr> \<and> field_named t (se_Field exp) = Some f \<and> IsIndexed f \<and>
        f_FType f \<in> {''uint32'', ''uint64''} \<and> se_CmpOp exp \<in> {''<'', ''='', ''>''} \<and> StrToValue f (se_Value exp) = Ok w \<and>
        CalExp f exp = Ok (l, r) \<and> l \<le> r \<and> l < UUID_INF \<and> ord = (\<lambda>v. keyOf f (v_row v)))"

context item_store
begin

lemma readRows_versions:
  assumes "inv n (sm_DM s) m hs" and "size hs < limit" and "idle (sm_ec s)" and "live x s = Ok tx" and "\<forall>v \<in> set ws. version_at m t v"
  shows "\<exists>d' c'. readRows t x (map v_uuid ws) es s = (Ok (es @ map v_row (filter (seen s tx) ws)), s\<lparr>sm_DM := d', sm_ec := c'\<rparr>) \<and> inv n d' m hs \<and> idle c'"
  using assms
proof (induction ws arbitrary: es s)
  case Nil
  then show ?case by (intro exI [of _ "sm_DM s"] exI [of _ "sm_ec s"]) simp
next
  case (Cons v ws)
  obtain data where v: "m (v_uuid v) = Some (verRaw (v_xmin v) (v_xmax v) data)" "parseEntry t data = Ok (v_row v)"
    using Cons.prems(5) by (auto simp: version_at_def)
  obtain d1 c1 where r: "sm_Read x (v_uuid v) s = (Ok (if seen s tx v then Some data else None), s\<lparr>sm_DM := d1, sm_ec := c1\<rparr>)" "inv n d1 m hs" "idle c1"
    using sm_Read_store [OF Cons.prems(1-4) v(1)] by (auto simp: seen_def)
  let ?s = "s\<lparr>sm_DM := d1, sm_ec := c1\<rparr>" and ?es = "if seen s tx v then es @ [v_row v] else es"
  have "seen ?s tx = seen s tx" by (simp add: seen_def fun_eq_iff)
  moreover have "live x ?s = Ok tx" using Cons.prems(4) by (simp add: live_def)
  ultimately obtain d' c' where "readRows t x (map v_uuid ws) ?es ?s = (Ok (?es @ map v_row (filter (seen s tx) ws)), s\<lparr>sm_DM := d', sm_ec := c'\<rparr>)" "inv n d' m hs" "idle c'"
    using Cons.IH [of ?s ?es] r(2,3) Cons.prems(2,5) by auto
  then show ?case using r(1) v(2) by (intro exI [of _ d'] exI [of _ c'], cases "seen s tx v") simp_all
qed

lemma filterRows_versions:
  assumes "inv n (sm_DM s) m hs" and "size hs < limit" and "idle (sm_ec s)" and "live x s = Ok tx" and "\<forall>v \<in> set ws. version_at m t v"
    and "typed_table t" and "whole_where wh"
  shows "\<exists>d' c'. filterRows t x wh (map v_uuid ws) us s =
     (Ok (us @ map v_uuid (filter (\<lambda>v. seen s tx v \<and> satisfies t wh v) ws)), s\<lparr>sm_DM := d', sm_ec := c'\<rparr>) \<and> inv n d' m hs \<and> idle c'"
  using assms
proof (induction ws arbitrary: us s)
  case Nil
  then show ?case by (intro exI [of _ "sm_DM s"] exI [of _ "sm_ec s"]) simp
next
  case (Cons v ws)
  obtain data where v: "m (v_uuid v) = Some (verRaw (v_xmin v) (v_xmax v) data)" "parseEntry t data = Ok (v_row v)"
    using Cons.prems(5) by (auto simp: version_at_def)
  have ev: "evaluateWhere t (v_row v) wh = Ok (satisfies t wh v)"
    using evaluateWhere_ok [OF Cons.prems(6) version_typed [OF Cons.prems(6), of m v] Cons.prems(7)] Cons.prems(5)
    by (cases "evaluateWhere t (v_row v) wh") (auto simp: is_ok_def satisfies_def)
  obtain d1 c1 where r: "sm_Read x (v_uuid v) s = (Ok (if seen s tx v then Some data else None), s\<lparr>sm_DM := d1, sm_ec := c1\<rparr>)" "inv n d1 m hs" "idle c1"
    using sm_Read_store [OF Cons.prems(1-4) v(1)] by (auto simp: seen_def)
  let ?s = "s\<lparr>sm_DM := d1, sm_ec := c1\<rparr>" and ?us = "if seen s tx v \<and> satisfies t wh v then us @ [v_uuid v] else us"
  have "seen ?s tx = seen s tx" by (simp add: seen_def fun_eq_iff)
  moreover have "live x ?s = Ok tx" using Cons.prems(4) by (simp add: live_def)
  ultimately obtain d' c' where "filterRows t x wh (map v_uuid ws) ?us ?s =
      (Ok (?us @ map v_uuid (filter (\<lambda>v. seen s tx v \<and> satisfies t wh v) ws)), s\<lparr>sm_DM := d', sm_ec := c'\<rparr>)" "inv n d' m hs" "idle c'"
    using Cons.IH [of ?s ?us] r(2,3) Cons.prems(2,5-7) by auto
  then show ?case using r(1) v(2) ev by (intro exI [of _ d'] exI [of _ c'], cases "seen s tx v"; cases "satisfies t wh v") simp_all
qed

lemma rowSearch_versions:
  assumes "inv n (sm_DM s) m hs" and "size hs < limit" and "table_at m hs K t vs"
  shows "\<exists>d'. rowSearch t 0 UUID_INF s = Some (Ok (map v_uuid (sort_key v_uuid vs)), s\<lparr>sm_DM := d'\<rparr>) \<and> inv n d' m hs"
proof -
  obtain bt where bt: "tb_rowIndexBt t = Some bt" using assms(3) by (auto simp: table_at_def)
  have f: "forest m hs (K \<union> v_uuid ` set vs) (map (field_tree vs) (indexed t) @ (bt, sort_key snd (map row_pair vs)) # [])"
    using assms(3) bt by (simp add: table_at_def row_tree_def)
  have inf: "0 \<le> UUID_INF" "0 < UUID_INF" "\<And>k. k \<le> UUID_INF" by (simp_all add: UUID_INF_max word_order.not_eq_extremum [symmetric])
  obtain d' where d': "SearchRange bt 0 UUID_INF (sm_DM s) =
      Some (Ok (map fst (filter (\<lambda>e. 0 \<le> snd e \<and> snd e \<le> UUID_INF) (sort_key snd (map row_pair vs)))), d')" "inv n d' m hs"
    using forest_search [OF assms(1,2) f table_stored [OF assms(3)] inf(1,2)] by blast
  have "snd \<circ> row_pair = v_uuid" "fst \<circ> row_pair = v_uuid" by (simp_all add: fun_eq_iff row_pair_def)
  then have "map fst (filter (\<lambda>e. 0 \<le> snd e \<and> snd e \<le> UUID_INF) (sort_key snd (map row_pair vs))) = map v_uuid (sort_key v_uuid vs)"
    using inf(3) by (simp add: sort_key_map)
  then show ?thesis using d' bt by (intro exI [of _ d']) (simp add: rowSearch_def tree_of_def on_index_def)
qed

lemma f_Search_versions:
  assumes "inv n (sm_DM s) m hs" and "size hs < limit" and "table_at m hs K t vs" and "f \<in> set (indexed t)" and "l \<le> r" and "l < UUID_INF"
  shows "\<exists>d'. f_Search f l r s =
      Some (Ok (map v_uuid (filter (\<lambda>v. l \<le> keyOf f (v_row v) \<and> keyOf f (v_row v) \<le> r) (sort_key (\<lambda>v. keyOf f (v_row v)) vs))), s\<lparr>sm_DM := d'\<rparr>) \<and> inv n d' m hs"
proof -
  obtain bt where bt: "f_bt f = Some bt" using assms(3,4) by (auto simp: table_at_def)
  obtain xs ys where f: "indexed t = xs @ f # ys" using split_list [OF assms(4)] by blast
  have "forest m hs (K \<union> v_uuid ` set vs) (map (field_tree vs) xs @ (bt, sort_key snd (map (key_pair f) vs)) # map (field_tree vs) ys @ [row_tree t vs])"
    using assms(3) bt f by (simp add: table_at_def field_tree_def)
  then obtain d' where d': "SearchRange bt l r (sm_DM s) =
      Some (Ok (map fst (filter (\<lambda>e. l \<le> snd e \<and> snd e \<le> r) (sort_key snd (map (key_pair f) vs)))), d')" "inv n d' m hs"
    using forest_search [OF assms(1,2) _ table_stored [OF assms(3)] assms(5,6)] by blast
  have "snd \<circ> key_pair f = (\<lambda>v. keyOf f (v_row v))" "fst \<circ> key_pair f = v_uuid" "(\<lambda>e. l \<le> snd e \<and> snd e \<le> r) \<circ> key_pair f = (\<lambda>v. l \<le> keyOf f (v_row v) \<and> keyOf f (v_row v) \<le> r)"
    by (simp_all add: fun_eq_iff key_pair_def)
  then show ?thesis using d' bt by (intro exI [of _ d']) (simp add: f_Search_def tree_of_def on_index_def sort_key_map filter_map)
qed

text \<open>The uuids a condition gives: their versions, without those the transaction does not see, are the ones that are seen and satisfy the condition, in the order of the plan.\<close>

lemma t_parseWhere_plan:
  assumes "inv n (sm_DM s) m hs" and "size hs < limit" and "idle (sm_ec s)" and "live x s = Ok tx" and "table_at m hs K t vs" and "plan t wh ord"
  shows "\<exists>ws d' c'. t_parseWhere t x wh s = Some (Ok (map v_uuid ws), s\<lparr>sm_DM := d', sm_ec := c'\<rparr>) \<and> inv n d' m hs \<and> idle c' \<and>
    mset ws \<subseteq># mset vs \<and> filter (seen s tx) ws = filter (\<lambda>v. seen s tx v \<and> satisfies t wh v) (sort_key ord vs)"
  using assms(6) unfolding plan_def
proof (elim disjE exE conjE)
  assume wh: "wh = None" and o: "ord = v_uuid"
  obtain d1 where d1: "rowSearch t 0 UUID_INF s = Some (Ok (map v_uuid (sort_key v_uuid vs)), s\<lparr>sm_DM := d1\<rparr>)" "inv n d1 m hs"
    using rowSearch_versions [OF assms(1,2,5)] by blast
  have "satisfies t None = (\<lambda>v. True)" by (simp add: satisfies_def evaluateWhere_def fun_eq_iff)
  then show ?thesis using d1 wh o assms(3) by (intro exI [of _ "sort_key v_uuid vs"] exI [of _ d1] exI [of _ "sm_ec s"]) (simp add: t_parseWhere_def)
next
  fix w fd assume wh: "wh = Some w" "whole_where wh" "field_named t (se_Field (wh_SingleExp1 w)) = Some fd" "\<not> IsIndexed fd" and o: "ord = v_uuid"
  let ?ws = "sort_key v_uuid vs"
  let ?fs = "filter (\<lambda>v. seen s tx v \<and> satisfies t wh v) ?ws"
  obtain d1 where d1: "rowSearch t 0 UUID_INF s = Some (Ok (map v_uuid ?ws), s\<lparr>sm_DM := d1\<rparr>)" "inv n d1 m hs"
    using rowSearch_versions [OF assms(1,2,5)] by blast
  let ?s1 = "s\<lparr>sm_DM := d1\<rparr>"
  have see: "seen ?s1 tx = seen s tx" and lv: "live x ?s1 = Ok tx" using assms(4) by (simp_all add: seen_def fun_eq_iff live_def)
  have ver: "\<forall>v \<in> set ?ws. version_at m t v" and ty: "typed_table t" using assms(5) by (simp_all add: table_at_def)
  obtain d2 c2 where f: "filterRows t x wh (map v_uuid ?ws) [] ?s1 = (Ok (map v_uuid ?fs), s\<lparr>sm_DM := d2, sm_ec := c2\<rparr>)" "inv n d2 m hs" "idle c2"
    using filterRows_versions [of n ?s1 m hs x tx ?ws t wh "[]"] d1(2) assms(2,3) wh(2) lv ver ty see by auto
  have "mset ?fs \<subseteq># mset vs" using multiset_filter_subset [of _ "mset ?ws"] by simp
  moreover have "filter (seen s tx) ?fs = ?fs" by (simp add: filter_filter) meson
  ultimately show ?thesis using d1(1) wh f o by (intro exI [of _ ?fs] exI [of _ d2] exI [of _ c2]) (simp add: t_parseWhere_def fullScanFilter_def)
next
  fix exp f w l r
  assume wh: "wh = Some \<lparr>wh_SingleExp1 = exp, wh_LogicOp = [], wh_SingleExp2 = None\<rparr>" and f: "field_named t (se_Field exp) = Some f" "IsIndexed f"
    and op: "f_FType f \<in> {''uint32'', ''uint64''}" "se_CmpOp exp \<in> {''<'', ''='', ''>''}" "StrToValue f (se_Value exp) = Ok w" "CalExp f exp = Ok (l, r)" "l \<le> r" "l < UUID_INF"
    and o: "ord = (\<lambda>v. keyOf f (v_row v))"
  let ?ws = "sort_key ord vs" and ?in = "\<lambda>v. l \<le> keyOf f (v_row v) \<and> keyOf f (v_row v) \<le> r"
  have ver: "\<forall>v \<in> set ?ws. version_at m t v" and ty: "typed_table t" using assms(5) by (simp_all add: table_at_def)
  have fm: "f \<in> set (indexed t)" "f \<in> set (tb_fields t)" "f_FName f = se_Field exp" using field_named_mem [OF f(1)] f(2) by auto
  obtain d1 where d1: "f_Search f l r s = Some (Ok (map v_uuid (filter ?in ?ws)), s\<lparr>sm_DM := d1\<rparr>)" "inv n d1 m hs"
    using f_Search_versions [OF assms(1,2,5) fm(1) op(5,6)] o by blast
  have "satisfies t wh v = ?in v" if "v \<in> set ?ws" for v
  proof -
    have tr: "typed_row t (v_row v)" using version_typed [OF ty] ver that by blast
    then have "of_type f (row_get (v_row v) (f_FName f))" using fm(2) by (simp add: typed_row_def)
    moreover have "se_Field exp \<in> dom (v_row v)" using tr imageI [OF fm(2), of f_FName] unfolding fm(3) by (simp add: typed_row_def)
    then obtain a where a: "v_row v (se_Field exp) = Some a" by blast
    ultimately have "of_type f a" using fm(3) by (simp add: row_get_def)
    then show ?thesis using indexed_range_exact [OF op(1) _ op(3,2) f(1), of a "v_row v"] wh op(4) a fm(3)
      by (auto simp: satisfies_def evaluateWhere_def keyOf_def row_get_def)
  qed
  then have "filter (seen s tx) (filter ?in ?ws) = filter (\<lambda>v. seen s tx v \<and> satisfies t wh v) ?ws"
    by (simp add: filter_filter) (intro filter_cong refl, auto)
  moreover have "mset (filter ?in ?ws) \<subseteq># mset vs" using multiset_filter_subset [of _ "mset ?ws"] by simp
  moreover have "t_parseWhere t x wh s = Some (Ok (map v_uuid (filter ?in ?ws)), s\<lparr>sm_DM := d1\<rparr>)"
    using d1(1) wh f op(4) by (simp add: t_parseWhere_def calWhere_def)
  ultimately show ?thesis using d1(2) assms(3) by (intro exI [of _ "filter ?in ?ws"] exI [of _ d1] exI [of _ "sm_ec s"]) simp
qed

lemma t_Read_plan:
  assumes "inv n (sm_DM s) m hs" and "size hs < limit" and "idle (sm_ec s)" and "live x s = Ok tx" and "table_at m hs K t vs" and "plan t (rd_Where rd) ord"
  shows "\<exists>d' c'. t_Read sortSlice t x rd s =
      Some (answer sortSlice t rd (map v_row (filter (\<lambda>v. seen s tx v \<and> satisfies t (rd_Where rd) v) (sort_key ord vs))), s\<lparr>sm_DM := d', sm_ec := c'\<rparr>) \<and>
    inv n d' m hs \<and> idle c'"
proof -
  obtain ws d1 c1 where w: "t_parseWhere t x (rd_Where rd) s = Some (Ok (map v_uuid ws), s\<lparr>sm_DM := d1, sm_ec := c1\<rparr>)" "inv n d1 m hs" "idle c1" "mset ws \<subseteq># mset vs"
    "filter (seen s tx) ws = filter (\<lambda>v. seen s tx v \<and> satisfies t (rd_Where rd) v) (sort_key ord vs)"
    using t_parseWhere_plan [OF assms] by blast
  let ?s1 = "s\<lparr>sm_DM := d1, sm_ec := c1\<rparr>"
  have see: "seen ?s1 tx = seen s tx" and lv: "live x ?s1 = Ok tx" using assms(4) by (simp_all add: seen_def fun_eq_iff live_def)
  have "\<forall>v \<in> set ws. version_at m t v" using assms(5) set_mset_mono [OF w(4)] by (auto simp: table_at_def)
  then obtain d' c' where "readRows t x (map v_uuid ws) [] ?s1 = (Ok (map v_row (filter (seen s tx) ws)), s\<lparr>sm_DM := d', sm_ec := c'\<rparr>)" "inv n d' m hs" "idle c'"
    using readRows_versions [of n ?s1 m hs x tx ws t "[]"] w(2,3) assms(2) lv see by auto
  then show ?thesis using w(1,5) by (intro exI [of _ d'] exI [of _ c']) (simp add: t_Read_def)
qed

end

section \<open>Inserts\<close>

text \<open>How many pages a row of an insert statement may need.\<close>

definition row_cost :: "table \<Rightarrow> nat" where
  "row_cost t = 2 * length (indexed t) + 3"

definition new_keys :: "table \<Rightarrow> row \<Rightarrow> version list \<Rightarrow> bool" where
  "new_keys t e vs \<longleftrightarrow> (\<forall>f \<in> set (indexed t). keyOf f e < UUID_INF \<and> keyOf f e \<notin> (\<lambda>v. keyOf f (v_row v)) ` set vs)"

definition storable :: "table \<Rightarrow> string list \<Rightarrow> row \<Rightarrow> bool" where
  "storable t values e \<longleftrightarrow> strToEntry t values = Ok e \<and> (\<forall>s \<in> set values. length s < 2 ^ 32) \<and> (\<forall>raw. entryToRaw t e = Ok raw \<longrightarrow> 16 + length raw \<le> max_item)"

definition new_version :: "XID \<Rightarrow> UUID \<Rightarrow> row \<Rightarrow> version" where
  "new_version x u e = \<lparr>v_uuid = u, v_xmin = x, v_xmax = 0, v_row = e\<rparr>"

text \<open>An insert of rows whose keys are new in every index.\<close>

definition fresh_rows :: "table \<Rightarrow> row list \<Rightarrow> version list \<Rightarrow> bool" where
  "fresh_rows t es vs \<longleftrightarrow> (\<forall>f \<in> set (indexed t). distinct (map (keyOf f) es) \<and> (\<forall>e \<in> set es. keyOf f e < UUID_INF \<and> keyOf f e \<notin> (\<lambda>v. keyOf f (v_row v)) ` set vs))"

context item_store
begin

text \<open>A row goes into the index of every indexed field.\<close>

lemma indexRow_forest:
  assumes "inv (2 * length (filter IsIndexed fs) + n) (sm_DM s) m hs" and "Suc (size hs) < limit"
    and "forest m hs S (Xs @ map (\<lambda>f. (the (f_bt f), cs f)) (filter IsIndexed fs) @ Ys)" and "\<forall>v \<in> S. m v \<noteq> None"
    and "\<forall>f \<in> set fs. IsIndexed f \<longrightarrow> f_bt f \<noteq> None \<and> ValueToUUID f (row_get e (f_FName f)) = Ok (keyOf f e) \<and> keyOf f e < UUID_INF \<and> keyOf f e \<notin> snd ` set (cs f)"
  shows "\<exists>d' m'. indexRow fs e u s = Some (Ok (), s\<lparr>sm_DM := d'\<rparr>) \<and> inv n d' m' hs \<and>
     forest m' hs S (Xs @ map (\<lambda>f. (the (f_bt f), insort_key snd (u, keyOf f e) (cs f))) (filter IsIndexed fs) @ Ys) \<and> (\<forall>v \<in> S. m' v = m v)"
  using assms
proof (induction fs arbitrary: s m Xs)
  case Nil
  then show ?case by (intro exI [of _ "sm_DM s"] exI [of _ m]) simp
next
  case (Cons f fs)
  show ?case
  proof (cases "IsIndexed f")
    case False
    then show ?thesis using Cons.IH [of s m Xs] Cons.prems by simp
  next
    case True
    obtain bt where f: "f_bt f = Some bt" "ValueToUUID f (row_get e (f_FName f)) = Ok (keyOf f e)" "keyOf f e < UUID_INF" "keyOf f e \<notin> snd ` set (cs f)"
      using Cons.prems(5) True by auto
    let ?Ys = "map (\<lambda>f. (the (f_bt f), cs f)) (filter IsIndexed fs) @ Ys" and ?n = "2 * length (filter IsIndexed fs) + n"
    have i: "inv (Suc (Suc ?n)) (sm_DM s) m hs" and fo: "forest m hs S (Xs @ (bt, cs f) # ?Ys)" using Cons.prems(1,3) True f(1) by simp_all
    obtain d1 m1 where b: "bt_Insert bt (keyOf f e) u (sm_DM s) = Some (Ok (), d1)" "inv ?n d1 m1 hs"
      "forest m1 hs S (Xs @ (bt, insort_key snd (u, keyOf f e) (cs f)) # ?Ys)" "\<forall>v \<in> S. m1 v = m v"
      using forest_insert [OF i Cons.prems(2) fo Cons.prems(4) f(3,4), of u] by blast
    let ?s = "s\<lparr>sm_DM := d1\<rparr>" and ?Xs = "Xs @ [(bt, insort_key snd (u, keyOf f e) (cs f))]"
    have st: "\<forall>v \<in> S. m1 v \<noteq> None" using b(4) Cons.prems(4) by simp
    have i1: "inv ?n (sm_DM ?s) m1 hs" and f1: "forest m1 hs S (?Xs @ ?Ys)" using b(2,3) by simp_all
    obtain d' m' where r: "indexRow fs e u ?s = Some (Ok (), ?s\<lparr>sm_DM := d'\<rparr>)" "inv n d' m' hs"
      "forest m' hs S (?Xs @ map (\<lambda>f. (the (f_bt f), insort_key snd (u, keyOf f e) (cs f))) (filter IsIndexed fs) @ Ys)" "\<forall>v \<in> S. m' v = m1 v"
      using Cons.IH [OF i1 Cons.prems(2) f1 st] Cons.prems(5) by auto
    have "f_Insert f (row_get e (f_FName f)) u s = Some (Ok (), ?s)" using f(1,2) b(1) by (simp add: f_Insert_def tree_of_def on_index_def)
    then show ?thesis using True f(1) r b(4) by (intro exI [of _ d'] exI [of _ m']) simp
  qed
qed

text \<open>One row of an insert statement.\<close>

lemma insert_row:
  assumes "inv (row_cost t + n) (sm_DM s) m hs" and "Suc (size hs) < limit" and "live x s = Ok tx" and "table_at m hs K t vs"
    and "strToEntry t values = Ok e" and "entryToRaw t e = Ok raw" and "parseEntry t raw = Ok e" and "16 + length raw \<le> max_item" and "new_keys t e vs"
  shows "\<exists>u d' m'. insertRows t x (values # rows) s = insertRows t x rows (s\<lparr>sm_DM := d'\<rparr>) \<and> inv n d' m' hs \<and>
     table_at m' hs K t (\<lparr>v_uuid = u, v_xmin = x, v_xmax = 0, v_row = e\<rparr> # vs) \<and> m u = None \<and> (\<forall>v \<in> K \<union> v_uuid ` set vs. m' v = m v)"
proof -
  let ?ix = "indexed t" and ?S = "K \<union> v_uuid ` set vs"
  have T: "typed_table t" "\<forall>f \<in> set (tb_fields t). IsIndexed f \<longrightarrow> f_bt f \<noteq> None" "\<forall>v \<in> set vs. version_at m t v"
    "forest m hs ?S (map (field_tree vs) ?ix @ [row_tree t vs])" using assms(4) by (simp_all add: table_at_def)
  have st: "\<forall>v \<in> ?S. m v \<noteq> None" by (rule table_stored [OF assms(4)])
  obtain bt where bt: "tb_rowIndexBt t = Some bt" using assms(4) by (auto simp: table_at_def)
  have sz: "size hs < limit" and i0: "inv (Suc (2 * length ?ix + Suc (Suc n))) (sm_DM s) m hs" using assms(1,2) by (simp_all add: row_cost_def numeral_3_eq_3)
  obtain u d1 where u: "sm_Insert x raw s = (Ok u, s\<lparr>sm_DM := d1\<rparr>)" "m u = None" "inv (2 * length ?ix + Suc (Suc n)) d1 (m(u \<mapsto> verRaw x 0 raw)) hs"
    using sm_Insert_store [OF i0 sz assms(3,8)] by blast
  let ?m = "m(u \<mapsto> verRaw x 0 raw)" and ?v = "\<lparr>v_uuid = u, v_xmin = x, v_xmax = 0, v_row = e\<rparr>" and ?S' = "insert u ?S" and ?s1 = "s\<lparr>sm_DM := d1\<rparr>"
  have uinf: "u < UUID_INF" using bound_law [OF u(3), of u] by simp
  have unew: "u \<notin> ?S" using st u(2) by blast
  have st1: "\<forall>v \<in> ?S'. ?m v \<noteq> None" using st by auto
  have f1: "forest ?m hs ?S' ([] @ map (\<lambda>f. (the (f_bt f), sort_key snd (map (key_pair f) vs))) ?ix @ [row_tree t vs])"
    using forest_new_item [OF T(4) u(2)] by (simp add: field_tree_def [abs_def])
  have te: "typed_row t e" by (rule strToEntry_typed [OF T(1) assms(5)])
  have ks: "\<forall>f \<in> set (tb_fields t). IsIndexed f \<longrightarrow> f_bt f \<noteq> None \<and> ValueToUUID f (row_get e (f_FName f)) = Ok (keyOf f e) \<and> keyOf f e < UUID_INF \<and>
      keyOf f e \<notin> snd ` set (sort_key snd (map (key_pair f) vs))"
    using T(2) keyOf_typed [OF te] assms(9) by (auto simp: new_keys_def key_pair_def image_image)
  obtain d2 m2 where x: "indexRow (tb_fields t) e u ?s1 = Some (Ok (), ?s1\<lparr>sm_DM := d2\<rparr>)" "inv (Suc (Suc n)) d2 m2 hs"
    "forest m2 hs ?S' ([] @ map (\<lambda>f. (the (f_bt f), insort_key snd (u, keyOf f e) (sort_key snd (map (key_pair f) vs)))) ?ix @ [row_tree t vs])" "\<forall>v \<in> ?S'. m2 v = ?m v"
    using indexRow_forest [of "tb_fields t" "Suc (Suc n)" ?s1, OF _ assms(2) f1 st1 ks, of u] u(3) by fastforce
  let ?fts = "map (field_tree (?v # vs)) ?ix"
  have "insort_key snd (u, keyOf f e) (sort_key snd (map (key_pair f) vs)) = sort_key snd (map (key_pair f) (?v # vs))" for f by (simp add: key_pair_def)
  then have f2: "forest m2 hs ?S' (?fts @ (bt, sort_key snd (map row_pair vs)) # [])" using x(3) bt by (simp add: field_tree_def [abs_def] row_tree_def)
  have st2: "\<forall>v \<in> ?S'. m2 v \<noteq> None" using x(4) st1 by simp
  have "u \<notin> snd ` set (sort_key snd (map row_pair vs))" using unew by (auto simp: row_pair_def)
  then obtain d3 m3 where r: "bt_Insert bt u u d2 = Some (Ok (), d3)" "inv n d3 m3 hs" "forest m3 hs ?S' (?fts @ (bt, insort_key snd (u, u) (sort_key snd (map row_pair vs))) # [])"
    "\<forall>v \<in> ?S'. m3 v = m2 v"
    using forest_insert [OF x(2) assms(2) f2 st2 uinf, of u] by blast
  have keep: "m3 v = ?m v" if "v \<in> ?S'" for v using bspec [OF r(4) that] bspec [OF x(4) that] by simp
  have "insort_key snd (u, u) (sort_key snd (map row_pair vs)) = sort_key snd (map row_pair (?v # vs))" by (simp add: row_pair_def)
  then have f3: "forest m3 hs (K \<union> v_uuid ` set (?v # vs)) (?fts @ [row_tree t (?v # vs)])" using r(3) bt by (simp add: row_tree_def)
  have old: "m3 v = m v" if "v \<in> ?S" for v using keep [of v] that unew by auto
  have "version_at m3 t v" if "v \<in> set vs" for v using T(3) that old [of "v_uuid v"] by (auto simp: version_at_def)
  moreover have "version_at m3 t ?v" using keep [of u] assms(7) by (auto simp: version_at_def)
  moreover have "K \<inter> v_uuid ` set (?v # vs) = {}" using assms(4) unew by (simp add: table_at_def)
  ultimately have "table_at m3 hs K t (?v # vs)" using T(1,2) bt f3 st old by (auto simp: table_at_def)
  moreover have "insertRows t x (values # rows) s = insertRows t x rows (s\<lparr>sm_DM := d3\<rparr>)"
    using assms(5,6) u(1) x(1) r(1) bt by (simp add: rowInsert_def tree_of_def on_index_def)
  ultimately show ?thesis using r(2) u(2) old by (intro exI [of _ u] exI [of _ d3] exI [of _ m3]) auto
qed

lemma insertRows_versions:
  assumes "inv (length rows * row_cost t + n) (sm_DM s) m hs" and "Suc (size hs) < limit" and "live x s = Ok tx" and "table_at m hs K t vs"
    and "list_all2 (storable t) rows es" and "fresh_rows t es vs"
  shows "\<exists>us d' m'. length us = length es \<and> insertRows t x rows s = Some (Ok (), s\<lparr>sm_DM := d'\<rparr>) \<and> inv n d' m' hs \<and>
     table_at m' hs K t (rev (map2 (new_version x) us es) @ vs) \<and> (\<forall>v \<in> K. m' v = m v)"
  using assms
proof (induction rows arbitrary: s m vs es)
  case Nil
  then show ?case by (intro exI [of _ "[]"] exI [of _ "sm_DM s"] exI [of _ m]) simp
next
  case (Cons vals rows)
  then obtain e es' where es: "es = e # es'" "storable t vals e" "list_all2 (storable t) rows es'" by (auto simp: list_all2_Cons1)
  have ty: "typed_table t" using Cons.prems(4) by (simp add: table_at_def)
  obtain raw where raw: "entryToRaw t e = Ok raw" "parseEntry t raw = Ok e"
    using entry_roundtrip [of t vals e] ty es(2) by (auto simp: typed_table_def storable_def)
  have st: "strToEntry t vals = Ok e" "16 + length raw \<le> max_item" using es(2) raw(1) by (simp_all add: storable_def)
  have nk: "new_keys t e vs" using Cons.prems(6) es(1) by (auto simp: fresh_rows_def new_keys_def)
  have i: "inv (row_cost t + (length rows * row_cost t + n)) (sm_DM s) m hs" using Cons.prems(1) by (simp add: add.assoc)
  obtain u d1 m1 where r: "insertRows t x (vals # rows) s = insertRows t x rows (s\<lparr>sm_DM := d1\<rparr>)" "inv (length rows * row_cost t + n) d1 m1 hs"
    "table_at m1 hs K t (new_version x u e # vs)" "\<forall>v \<in> K \<union> v_uuid ` set vs. m1 v = m v"
    using insert_row [OF i Cons.prems(2-4) st(1) raw st(2) nk, of rows] unfolding new_version_def by blast
  let ?s = "s\<lparr>sm_DM := d1\<rparr>"
  have lv: "live x ?s = Ok tx" using Cons.prems(3) by (simp add: live_def)
  have fr: "fresh_rows t es' (new_version x u e # vs)" unfolding fresh_rows_def
  proof (intro ballI conjI)
    fix f a assume f: "f \<in> set (indexed t)"
    then have d: "keyOf f e \<notin> keyOf f ` set es'" "distinct (map (keyOf f) es')" and k: "\<forall>a \<in> set es'. keyOf f a < UUID_INF \<and> keyOf f a \<notin> (\<lambda>v. keyOf f (v_row v)) ` set vs"
      using Cons.prems(6) es(1) by (simp_all add: fresh_rows_def)
    show "distinct (map (keyOf f) es')" by (fact d(2))
    assume a: "a \<in> set es'"
    then have "keyOf f a \<noteq> keyOf f e" using d(1) by (metis imageI)
    then show "keyOf f a < UUID_INF" "keyOf f a \<notin> (\<lambda>v. keyOf f (v_row v)) ` set (new_version x u e # vs)" using k a by (simp_all add: new_version_def)
  qed
  have i1: "inv (length rows * row_cost t + n) (sm_DM ?s) m1 hs" using r(2) by simp
  obtain us d' m' where h: "length us = length es'" "insertRows t x rows ?s = Some (Ok (), ?s\<lparr>sm_DM := d'\<rparr>)" "inv n d' m' hs"
    "table_at m' hs K t (rev (map2 (new_version x) us es') @ new_version x u e # vs)" "\<forall>v \<in> K. m' v = m1 v"
    using Cons.IH [OF i1 Cons.prems(2) lv r(3) es(3) fr] by blast
  have "\<forall>v \<in> K. m' v = m v" using h(5) r(4) by simp
  then show ?case using h es(1) r(1) by (intro exI [of _ "u # us"] exI [of _ d'] exI [of _ m']) simp
qed

end

section \<open>New tables\<close>

text \<open>The name and type of a field and whether it has an index.\<close>

definition shape :: "field \<Rightarrow> string \<times> string \<times> bool" where
  "shape f = (f_FName f, f_FType f, IsIndexed f)"

definition shapes :: "Create \<Rightarrow> (string \<times> string \<times> bool) list" where
  "shapes create = map2 (\<lambda>nm ty. (nm, ty, nm \<in> set (cr_Index create))) (cr_FieldName create) (cr_FieldType create)"

definition field_cost :: nat where "field_cost = 3"

text \<open>A create statement as the parser builds it, with names that are not too long.\<close>

definition proper_create :: "Create \<Rightarrow> bool" where
  "proper_create create \<longleftrightarrow> length (cr_FieldType create) = length (cr_FieldName create) \<and> (\<forall>ty \<in> set (cr_FieldType create). isType ty) \<and>
     (\<forall>nm \<in> set (cr_FieldName create). length nm \<le> 256) \<and> distinct (cr_FieldName create) \<and> length (cr_FieldName create) \<le> 255 \<and> length (cr_TableName create) \<le> 256"

text \<open>The records of a field and of a table on disk. They belong to the super transaction, so every transaction sees them.\<close>

definition field_raw :: "field \<Rightarrow> bytes" where
  "field_raw f = VarStrToRaw (f_FName f) @ VarStrToRaw (f_FType f) @ UUIDToRaw (f_index f)"

definition field_saved :: "(UUID \<rightharpoonup> bytes) \<Rightarrow> field \<Rightarrow> bool" where
  "field_saved m f \<longleftrightarrow> m (f_SelfUUID f) = Some (verRaw SUPER_XID 0 (field_raw f)) \<and> length (f_FName f) < 2 ^ 32 \<and> length (f_FType f) < 2 ^ 32 \<and>
     (if IsIndexed f then \<exists>bt. f_bt f = Some bt \<and> bt_bootUUID bt = f_index f else f_bt f = None)"

definition table_saved :: "(UUID \<rightharpoonup> bytes) \<Rightarrow> table \<Rightarrow> bool" where
  "table_saved m t \<longleftrightarrow> m (tb_SelfUUID t) = Some (verRaw SUPER_XID 0 (table_raw t)) \<and> (\<forall>f \<in> set (tb_fields t). field_saved m f) \<and> length (tb_Name t) < 2 ^ 32 \<and>
     length (tb_fields t) < 256 \<and> (\<exists>bt. tb_rowIndexBt t = Some bt \<and> bt_bootUUID bt = tb_rowIndex t)"

definition metas :: "table \<Rightarrow> UUID set" where
  "metas t = insert (tb_SelfUUID t) (f_SelfUUID ` set (tb_fields t))"

lemma field_saved_frame: "field_saved m f \<Longrightarrow> m' (f_SelfUUID f) = m (f_SelfUUID f) \<Longrightarrow> field_saved m' f"
  by (simp add: field_saved_def)

lemma table_saved_frame: "table_saved m t \<Longrightarrow> \<forall>v \<in> metas t. m' v = m v \<Longrightarrow> table_saved m' t"
  by (auto simp: table_saved_def metas_def intro: field_saved_frame)

lemma field_saved_tree: "field_saved m f \<Longrightarrow> IsIndexed f \<longrightarrow> f_bt f \<noteq> None"
  by (auto simp: field_saved_def)

context item_store
begin

lemma forest_fewer: "forest m hs S Ts \<Longrightarrow> S' \<subseteq> S \<Longrightarrow> forest m hs S' Ts"
  by (rule forest_frame) auto

lemma meta_store:
  assumes "inv (Suc n) (sm_DM s) m hs" and "size hs < limit" and "live SUPER_XID s = Ok tx" and "16 + length raw \<le> max_item" and "forest m hs S Ts" and "\<forall>v \<in> S. m v \<noteq> None"
  obtains u d' m' where "sm_Insert SUPER_XID raw s = (Ok u, s\<lparr>sm_DM := d'\<rparr>)" "inv n d' m' hs" "forest m' hs (insert u S) Ts" "\<forall>v \<in> S. m' v = m v"
    "m' u = Some (verRaw SUPER_XID 0 raw)" "u \<notin> S"
proof -
  obtain u d' where u: "sm_Insert SUPER_XID raw s = (Ok u, s\<lparr>sm_DM := d'\<rparr>)" "m u = None" "inv n d' (m(u \<mapsto> verRaw SUPER_XID 0 raw)) hs"
    using sm_Insert_store [OF assms(1-4)] by blast
  have "forest (m(u \<mapsto> verRaw SUPER_XID 0 raw)) hs (insert u S) Ts" by (rule forest_new_item [OF assms(5) u(2)])
  moreover have "\<forall>v \<in> S. (m(u \<mapsto> verRaw SUPER_XID 0 raw)) v = m v" using assms(6) u(2) by auto
  moreover have "u \<notin> S" using assms(6) u(2) by blast
  ultimately show thesis using that [OF u(1,3)] by simp
qed

lemma CreateField_store:
  assumes "inv (field_cost + n) (sm_DM s) m hs" and "Suc (size hs) < limit" and "live SUPER_XID s = Ok tx" and "isType ty" and "length fname \<le> 256"
    and "forest m hs S Ts" and "\<forall>v \<in> S. m v \<noteq> None"
  shows "\<exists>f d' m' hs'. CreateField SUPER_XID fname ty ix s = (Ok f, s\<lparr>sm_DM := d'\<rparr>) \<and> inv n d' m' hs' \<and> size hs' \<le> Suc (size hs) \<and>
     forest m' hs' (insert (f_SelfUUID f) S) (Ts @ map (field_tree []) (filter IsIndexed [f])) \<and> field_saved m' f \<and> (\<forall>v \<in> S. m' v = m v) \<and> shape f = (fname, ty, ix) \<and> f_SelfUUID f \<notin> S \<and> hs \<subseteq># hs'"
proof -
  have tc: "typeCheck ty = Ok ()" using assms(4) by (auto simp: typeCheck_def isType_def)
  have len: "length ty \<le> 6" using assms(4) by (auto simp: isType_def)
  have sz: "16 + length (VarStrToRaw fname @ VarStrToRaw ty @ UUIDToRaw i) \<le> max_item" for i
    using assms(5) len by (simp add: VarStrToRaw_def max_item_def pi_defs)
  have small: "length fname < 4294967296" "length ty < 4294967296" using assms(5) len by simp_all
  have fewer: "inv (Suc n) (sm_DM s) m hs" if "inv (Suc (Suc (Suc n))) (sm_DM s) m hs" using fewer_law fewer_law that by blast
  show ?thesis
  proof (cases ix)
    case False
    have i: "inv (Suc n) (sm_DM s) m hs" using assms(1) fewer by (simp add: field_cost_def numeral_3_eq_3)
    obtain u d' m' where "sm_Insert SUPER_XID (VarStrToRaw fname @ VarStrToRaw ty @ UUIDToRaw NilUUID) s = (Ok u, s\<lparr>sm_DM := d'\<rparr>)" "inv n d' m' hs" "forest m' hs (insert u S) Ts"
      "\<forall>v \<in> S. m' v = m v" "m' u = Some (verRaw SUPER_XID 0 (VarStrToRaw fname @ VarStrToRaw ty @ UUIDToRaw NilUUID))" "u \<notin> S"
      using meta_store [OF i _ assms(3) sz assms(6,7), of NilUUID thesis] assms(2) by force
    then show ?thesis using False tc small
      by (intro exI [of _ "\<lparr>f_SelfUUID = u, f_FName = fname, f_FType = ty, f_index = NilUUID, f_bt = None\<rparr>"] exI [of _ d'] exI [of _ m'] exI [of _ hs])
        (simp add: CreateField_def f_persistSelf_def Let_def IsIndexed_def shape_def field_saved_def field_raw_def)
  next
    case True
    have i: "inv (Suc (Suc (Suc n))) (sm_DM s) m hs" and sz1: "size hs < limit" using assms(1,2) by (simp_all add: field_cost_def numeral_3_eq_3)
    obtain b d1 bt d2 m1 where c: "bt_Create (sm_DM s) = (Ok b, d1)" "bt_Load b d1 = (Ok bt, d2)" "inv (Suc n) d2 m1 (add_mset b hs)"
      "forest m1 (add_mset b hs) S (Ts @ [(bt, [])])" "\<forall>v \<in> S. m1 v = m v" "b \<noteq> NilUUID" "bt_bootUUID bt = b"
      using new_plant [OF i sz1 assms(6,7), of thesis] by blast
    let ?s = "s\<lparr>sm_DM := d2\<rparr>" and ?hs = "add_mset b hs"
    have i2: "inv (Suc n) (sm_DM ?s) m1 ?hs" and sz2: "size ?hs < limit" and lv: "live SUPER_XID ?s = Ok tx" and st: "\<forall>v \<in> S. m1 v \<noteq> None"
      using c(3,5) assms(2,3,7) by (simp_all add: live_def)
    obtain u d' m' where "sm_Insert SUPER_XID (VarStrToRaw fname @ VarStrToRaw ty @ UUIDToRaw b) ?s = (Ok u, ?s\<lparr>sm_DM := d'\<rparr>)" "inv n d' m' ?hs"
      "forest m' ?hs (insert u S) (Ts @ [(bt, [])])" "\<forall>v \<in> S. m' v = m1 v" "m' u = Some (verRaw SUPER_XID 0 (VarStrToRaw fname @ VarStrToRaw ty @ UUIDToRaw b))" "u \<notin> S"
      using meta_store [OF i2 sz2 lv sz c(4) st, of b thesis] by blast
    then show ?thesis using True tc c(1,2,5,6,7) small
      by (intro exI [of _ "\<lparr>f_SelfUUID = u, f_FName = fname, f_FType = ty, f_index = b, f_bt = Some bt\<rparr>"] exI [of _ d'] exI [of _ m'] exI [of _ ?hs])
        (simp add: CreateField_def f_persistSelf_def Let_def IsIndexed_def on_dm_def field_tree_def shape_def field_saved_def field_raw_def)
  qed
qed

lemma inv_fewer: "inv (k + n) d m hs \<Longrightarrow> inv n d m hs"
  by (induction k) (auto dest: fewer_law)

lemma tableFields_store:
  assumes "inv (length ns * field_cost + n) (sm_DM s) m hs" and "size hs + length ns < limit" and "live SUPER_XID s = Ok tx"
    and "length tys = length ns" and "\<forall>ty \<in> set tys. isType ty" and "\<forall>nm \<in> set ns. length nm \<le> 256"
    and "forest m hs S (map (field_tree []) (filter IsIndexed fs))" and "\<forall>v \<in> S. m v \<noteq> None" and "\<forall>f \<in> set fs. f_SelfUUID f \<in> S \<and> field_saved m f"
  shows "\<exists>gs d' m' hs'. tableFields ns tys ix fs s = (Ok gs, s\<lparr>sm_DM := d'\<rparr>) \<and> inv n d' m' hs' \<and> size hs' \<le> size hs + length ns \<and>
     forest m' hs' (S \<union> f_SelfUUID ` set gs) (map (field_tree []) (filter IsIndexed gs)) \<and> (\<forall>f \<in> set gs. field_saved m' f) \<and> (\<forall>v \<in> S. m' v = m v) \<and>
     map shape gs = map shape fs @ map2 (\<lambda>nm ty. (nm, ty, nm \<in> set ix)) ns tys \<and> (\<forall>g \<in> set gs. g \<in> set fs \<or> f_SelfUUID g \<notin> S) \<and> hs \<subseteq># hs'"
  using assms
proof (induction ns arbitrary: tys fs s m hs S)
  case Nil
  have "S \<union> f_SelfUUID ` set fs = S" using Nil.prems(9) by auto
  then show ?case using Nil.prems by (intro exI [of _ fs] exI [of _ "sm_DM s"] exI [of _ m] exI [of _ hs]) simp
next
  case (Cons nm ns)
  then obtain ty tys' where ty: "tys = ty # tys'" "isType ty" by (cases tys) auto
  have i: "inv (field_cost + (length ns * field_cost + n)) (sm_DM s) m hs" and sz: "Suc (size hs) < limit" and len: "length nm \<le> 256"
    using Cons.prems(1,2,6) by (simp_all add: add.assoc)
  obtain f d1 m1 hs1 where f: "CreateField SUPER_XID nm ty (nm \<in> set ix) s = (Ok f, s\<lparr>sm_DM := d1\<rparr>)" "inv (length ns * field_cost + n) d1 m1 hs1" "size hs1 \<le> Suc (size hs)"
    "forest m1 hs1 (insert (f_SelfUUID f) S) (map (field_tree []) (filter IsIndexed fs) @ map (field_tree []) (filter IsIndexed [f]))" "field_saved m1 f" "\<forall>v \<in> S. m1 v = m v"
    "shape f = (nm, ty, nm \<in> set ix)" "f_SelfUUID f \<notin> S" "hs \<subseteq># hs1"
    using CreateField_store [OF i sz Cons.prems(3) ty(2) len Cons.prems(7,8), of "nm \<in> set ix"] by blast
  let ?s = "s\<lparr>sm_DM := d1\<rparr>" and ?fs = "fs @ [f]" and ?S = "insert (f_SelfUUID f) S"
  have old: "\<forall>g \<in> set fs. field_saved m1 g" using Cons.prems(9) f(6) field_saved_frame by metis
  have "\<exists>gs d' m' hs'. tableFields ns tys' ix ?fs ?s = (Ok gs, ?s\<lparr>sm_DM := d'\<rparr>) \<and> inv n d' m' hs' \<and> size hs' \<le> size hs1 + length ns \<and>
     forest m' hs' (?S \<union> f_SelfUUID ` set gs) (map (field_tree []) (filter IsIndexed gs)) \<and> (\<forall>f \<in> set gs. field_saved m' f) \<and> (\<forall>v \<in> ?S. m' v = m1 v) \<and>
     map shape gs = map shape ?fs @ map2 (\<lambda>nm ty. (nm, ty, nm \<in> set ix)) ns tys' \<and> (\<forall>g \<in> set gs. g \<in> set ?fs \<or> f_SelfUUID g \<notin> ?S) \<and> hs1 \<subseteq># hs'"
  proof (rule Cons.IH)
    show "live SUPER_XID ?s = Ok tx" using Cons.prems(3) by (simp add: live_def)
    show "forest m1 hs1 ?S (map (field_tree []) (filter IsIndexed ?fs))" using f(4) by simp
    show "\<forall>v \<in> ?S. m1 v \<noteq> None" using f(5,6) Cons.prems(8) by (auto simp: field_saved_def)
    show "\<forall>g \<in> set ?fs. f_SelfUUID g \<in> ?S \<and> field_saved m1 g" using old f(5) Cons.prems(9) by auto
  qed (use f(2,3) Cons.prems(2,4-6) ty in auto)
  then obtain gs d' m' hs' where g: "tableFields ns tys' ix ?fs ?s = (Ok gs, ?s\<lparr>sm_DM := d'\<rparr>)" "inv n d' m' hs'" "size hs' \<le> size hs1 + length ns"
     "forest m' hs' (?S \<union> f_SelfUUID ` set gs) (map (field_tree []) (filter IsIndexed gs))" "\<forall>f \<in> set gs. field_saved m' f" "\<forall>v \<in> ?S. m' v = m1 v"
     "map shape gs = map shape ?fs @ map2 (\<lambda>nm ty. (nm, ty, nm \<in> set ix)) ns tys'" "\<forall>g \<in> set gs. g \<in> set ?fs \<or> f_SelfUUID g \<notin> ?S" "hs1 \<subseteq># hs'" by blast
  have "\<forall>v \<in> S. m' v = m v" using g(6) f(6) by simp
  moreover have "forest m' hs' (S \<union> f_SelfUUID ` set gs) (map (field_tree []) (filter IsIndexed gs))" by (rule forest_fewer [OF g(4)]) blast
  moreover have "\<forall>h \<in> set gs. h \<in> set fs \<or> f_SelfUUID h \<notin> S" using g(8) f(8) by auto
  moreover have "hs \<subseteq># hs'" by (rule subset_mset.trans [OF f(9) g(9)])
  ultimately show ?case using g(1-3,5,7) f(1,3,7) ty(1) by (intro exI [of _ gs] exI [of _ d'] exI [of _ m'] exI [of _ hs']) (simp add: go_index_def)
qed

lemma CreateTable_saved:
  assumes "inv (length (cr_FieldName create) * field_cost + (3 + n)) (sm_DM s) m hs" and "size hs + length (cr_FieldName create) + 1 < limit"
    and "live SUPER_XID s = Ok tx" and "proper_create create" and "\<forall>v \<in> K. m v \<noteq> None"
  obtains t d' m' hs' where "CreateTable next create s = (Ok t, s\<lparr>sm_DM := d'\<rparr>)" "inv n d' m' hs'" "size hs' \<le> size hs + length (cr_FieldName create) + 1"
    "table_at m' hs' (K \<union> metas t) t []" "table_saved m' t" "\<forall>v \<in> K. m' v = m v" "map shape (tb_fields t) = shapes create" "tb_Name t = cr_TableName create" "tb_Next t = next" "metas t \<inter> K = {}" "hs \<subseteq># hs'"
proof -
  let ?ns = "cr_FieldName create"
  have p: "length (cr_FieldType create) = length ?ns" "\<forall>ty \<in> set (cr_FieldType create). isType ty" "\<forall>nm \<in> set ?ns. length nm \<le> 256" "distinct ?ns"
    "length ?ns \<le> 255" "length (cr_TableName create) \<le> 256" using assms(4) by (simp_all add: proper_create_def)
  have sz0: "size hs + length ?ns < limit" using assms(2) by simp
  obtain fs d1 m1 hs1 where f: "tableFields ?ns (cr_FieldType create) (cr_Index create) [] s = (Ok fs, s\<lparr>sm_DM := d1\<rparr>)" "inv (3 + n) d1 m1 hs1" "size hs1 \<le> size hs + length ?ns"
    "forest m1 hs1 (K \<union> f_SelfUUID ` set fs) (map (field_tree []) (filter IsIndexed fs))" "\<forall>f \<in> set fs. field_saved m1 f" "\<forall>v \<in> K. m1 v = m v"
    "map shape fs = shapes create" "\<forall>g \<in> set fs. f_SelfUUID g \<notin> K" "hs \<subseteq># hs1"
    using tableFields_store [OF assms(1) sz0 assms(3) p(1-3), of K "[]" "cr_Index create"] assms(5) by (auto simp: shapes_def)
  let ?K = "K \<union> f_SelfUUID ` set fs"
  have i1: "inv (Suc (Suc (Suc n))) d1 m1 hs1" and sz1: "size hs1 < limit" and st1: "\<forall>v \<in> ?K. m1 v \<noteq> None"
    using f(2,3,5,6) assms(2,5) by (auto simp: numeral_3_eq_3 field_saved_def)
  obtain b d2 bt d3 m2 where c: "bt_Create d1 = (Ok b, d2)" "bt_Load b d2 = (Ok bt, d3)" "inv (Suc n) d3 m2 (add_mset b hs1)"
    "forest m2 (add_mset b hs1) ?K (map (field_tree []) (filter IsIndexed fs) @ [(bt, [])])" "\<forall>v \<in> ?K. m2 v = m1 v" "bt_bootUUID bt = b"
    using new_plant [OF i1 sz1 f(4) st1, of thesis] by blast
  let ?s = "s\<lparr>sm_DM := d3\<rparr>" and ?hs = "add_mset b hs1"
  let ?t = "\<lambda>u. \<lparr>tb_SelfUUID = u, tb_Name = cr_TableName create, tb_status = 0, tb_Next = next, tb_fields = fs, tb_rowIndex = b, tb_rowIndexBt = Some bt\<rparr>"
  let ?raw = "table_raw (?t 0)"
  have raw: "?raw = table_raw (?t u)" for u by (simp add: table_raw_def)
  have lf: "length fs = length ?ns" using arg_cong [OF f(7), of length] p(1) by (simp add: shapes_def)
  have "length (concat (map (\<lambda>f. UUIDToRaw (f_SelfUUID f)) fs)) = 8 * length fs" by (induction fs) simp_all
  then have len: "16 + length ?raw \<le> max_item" using p(5,6) lf by (simp add: table_raw_def VarStrToRaw_def max_item_def pi_defs)
  have i2: "inv (Suc n) (sm_DM ?s) m2 ?hs" and sz2: "size ?hs < limit" and lv: "live SUPER_XID ?s = Ok tx" and st2: "\<forall>v \<in> ?K. m2 v \<noteq> None"
    using c(3,5) f(3) st1 assms(2,3) by (simp_all add: live_def)
  obtain u d' m' where u: "sm_Insert SUPER_XID ?raw ?s = (Ok u, ?s\<lparr>sm_DM := d'\<rparr>)" "inv n d' m' ?hs"
    "forest m' ?hs (insert u ?K) (map (field_tree []) (filter IsIndexed fs) @ [(bt, [])])" "\<forall>v \<in> ?K. m' v = m2 v" "m' u = Some (verRaw SUPER_XID 0 ?raw)" "u \<notin> ?K"
    using meta_store [OF i2 sz2 lv len c(4) st2, of thesis] by blast
  have cr: "CreateTable next create s = (Ok (?t u), s\<lparr>sm_DM := d'\<rparr>)"
    using f(1) c(1,2) u(1) by (simp add: CreateTable_def t_persistSelf_def on_dm_def Let_def table_raw_def)
  have fs: "\<forall>f \<in> set fs. field_saved m' f" using f(5) u(4) c(5) by (auto intro: field_saved_frame)
  have "typed_table (?t u)" by (rule CreateTable_typed [OF cr p(4)])
  moreover have K: "K \<union> metas (?t u) = insert u ?K" by (auto simp: metas_def)
  moreover have "\<forall>v \<in> insert u ?K. m' v \<noteq> None" "\<forall>v \<in> K. m' v = m v" using u(4,5) c(5) f(6) st2 by simp_all
  ultimately have "table_at m' ?hs (K \<union> metas (?t u)) (?t u) []" unfolding K using u(3) fs field_saved_tree by (simp add: table_at_def row_tree_def) blast
  moreover have "table_saved m' (?t u)" using u(5) [unfolded raw [of u]] fs c(6) p(5,6) lf by (simp add: table_saved_def)
  moreover have "metas (?t u) \<inter> K = {}" using u(6) f(8) by (auto simp: metas_def)
  moreover have "hs \<subseteq># ?hs" using subset_mset.trans [OF f(9), of ?hs] by simp
  ultimately show thesis using that [OF cr u(2)] f(3,7) \<open>\<forall>v \<in> K. m' v = m v\<close> by simp
qed

lemma table_at_fewer: "table_at m hs (K \<union> J) t vs \<Longrightarrow> table_at m hs K t vs"
  unfolding table_at_def by (blast intro: forest_fewer)

lemma CreateTable_store:
  assumes "inv (length (cr_FieldName create) * field_cost + (3 + n)) (sm_DM s) m hs" and "size hs + length (cr_FieldName create) + 1 < limit"
    and "live SUPER_XID s = Ok tx" and "proper_create create" and "\<forall>v \<in> K. m v \<noteq> None"
  obtains t d' m' hs' where "CreateTable next create s = (Ok t, s\<lparr>sm_DM := d'\<rparr>)" "inv n d' m' hs'" "size hs' \<le> size hs + length (cr_FieldName create) + 1"
    "table_at m' hs' K t []" "\<forall>v \<in> K. m' v = m v" "map shape (tb_fields t) = shapes create"
  by (rule CreateTable_saved [OF assms, of "next"]) (rule that, assumption+, erule table_at_fewer)

end

end
