(* ===== verification/Queries.thy ===== *)
theory Queries
  imports Versions
begin

text \<open>
  Statements on a table (\<^verbatim>\<open>tbm/table.go\<close>) as operations on its list of versions: delete marks versions, and the properties of create, insert, select and delete that rest on
  \<open>Versions\<close>, for the data manager.
\<close>

section \<open>Deletes\<close>

text \<open>The lock on a row is free, or the transaction has it.\<close>

definition grantable :: "lockTable \<Rightarrow> XID \<Rightarrow> UUID \<Rightarrow> bool" where
  "grantable lt x u \<longleftrightarrow> isInList (x2u lt) x u \<or> u2x lt u = None"

definition deleted :: "XID \<Rightarrow> version set \<Rightarrow> version \<Rightarrow> version" where
  "deleted x D v = (if v \<in> D then v\<lparr>v_xmax := x\<rparr> else v)"

lemma deleted_simps [simp]: "v_uuid (deleted x D v) = v_uuid v" "v_row (deleted x D v) = v_row v" "v_xmin (deleted x D v) = v_xmin v"
  by (simp_all add: deleted_def)

text \<open>Nobody else has or awaits a lock.\<close>

definition owned :: "XID \<Rightarrow> lockTable \<Rightarrow> bool" where
  "owned x lt \<longleftrightarrow> (\<forall>u y. u2x lt u = Some y \<longrightarrow> isInList (x2u lt) x u) \<and> dom (x2u lt) \<subseteq> {x} \<and> lt_wait lt = Map.empty \<and> waitCh lt = {} \<and> xwaitu lt = Map.empty"

lemma owned_New: "owned x NewLockTable"
  by (simp add: owned_def NewLockTable_def)

lemma owned_grantable: "owned x lt \<Longrightarrow> grantable lt x u"
  by (cases "u2x lt u") (auto simp: owned_def grantable_def)

text \<open>When the owner leaves, the lock table is as new.\<close>

lemma releaseAll_alone: "lt_wait lt = Map.empty \<Longrightarrow> releaseAll l lt = Ok ([], lt\<lparr>u2x := (\<lambda>u. if u \<in> set l then None else u2x lt u)\<rparr>)"
proof (induction l arbitrary: lt)
  case (Cons u l)
  let ?lt = "lt\<lparr>u2x := (u2x lt)(u := None)\<rparr>"
  have "releaseAll l ?lt = Ok ([], ?lt\<lparr>u2x := (\<lambda>w. if w \<in> set l then None else u2x ?lt w)\<rparr>)" by (rule Cons.IH) (simp add: Cons.prems)
  moreover have "(\<lambda>w. if w \<in> set l then None else u2x ?lt w) = (\<lambda>w. if w \<in> set (u # l) then None else u2x lt w)" by auto
  ultimately show ?case using Cons.prems by (simp add: selectNewXID_def)
qed simp

lemma lt_Remove_owned:
  assumes "owned x lt"
  shows "lt_Remove x lt = Ok ([], NewLockTable)"
proof -
  have o: "lt_wait lt = Map.empty" "waitCh lt = {}" "xwaitu lt = Map.empty" "(x2u lt)(x := None) = Map.empty" using assms by (auto simp: owned_def fun_eq_iff dom_def)
  have new: "lt\<lparr>u2x := Map.empty, xwaitu := Map.empty, x2u := Map.empty, waitCh := {}\<rparr> = NewLockTable" using o(1) by (cases lt) (simp add: NewLockTable_def)
  show ?thesis
  proof (cases "x2u lt x")
    case None
    then have "u2x lt = Map.empty" using assms by (auto simp: owned_def isInList_def fun_eq_iff)
    then have "lt\<lparr>xwaitu := Map.empty, x2u := Map.empty, waitCh := {}\<rparr> = NewLockTable" using new by (cases lt) simp
    then show ?thesis using None o by (simp add: lt_Remove_def)
  next
    case (Some l)
    have "u \<in> set l" if "u2x lt u = Some y" for u y using assms that Some by (auto simp: owned_def isInList_def)
    then have "(\<lambda>u. if u \<in> set l then None else u2x lt u) = Map.empty" by (auto simp: fun_eq_iff) (metis option.exhaust)
    then show ?thesis using Some o new releaseAll_alone [OF o(1), of l] by (simp add: lt_Remove_def)
  qed
qed

lemma lt_Add_grantable:
  assumes "grantable lt x u"
  obtains lt' where "lt_Add order x u lt = Some (Ok (Granted, lt'))" "\<And>w. w \<noteq> u \<Longrightarrow> grantable lt x w \<Longrightarrow> grantable lt' x w" "owned x lt \<longrightarrow> owned x lt'"
proof (cases "isInList (x2u lt) x u")
  case True
  then show ?thesis using that [of lt] by (simp add: lt_Add_def)
next
  case False
  let ?lt = "lt\<lparr>u2x := (u2x lt)(u \<mapsto> x), x2u := putIntoList (x2u lt) x u\<rparr>"
  have "grantable ?lt x w" if "w \<noteq> u" "grantable lt x w" for w
    using that by (cases "x2u lt x") (auto simp: grantable_def putIntoList_def isInList_def)
  moreover have "owned x lt \<longrightarrow> owned x ?lt" by (cases "x2u lt x") (auto simp: owned_def putIntoList_def isInList_def)
  ultimately show ?thesis using that [of ?lt] assms False by (simp add: lt_Add_def grantable_def)
qed

lemma visible_not_own: "IsVisible c t xmin xmax \<Longrightarrow> t_XID t \<noteq> 0 \<Longrightarrow> xmax \<noteq> t_XID t"
  by (auto simp: IsVisible_def readCommitted_def repeatableRead_def Let_def split: if_splits)

lemma verRaw_inj: "verRaw a b d = verRaw a' b' d' \<longleftrightarrow> a = a' \<and> b = b' \<and> d = d'"
  by (metis res.inject(1) verRaw_fields(1-3))

lemma same_version: "version_at m t v \<Longrightarrow> version_at m t w \<Longrightarrow> v_uuid v = v_uuid w \<Longrightarrow> v = w"
  by (auto simp: version_at_def verRaw_inj intro!: version.equality)

text \<open>Marking one version of a table.\<close>

lemma table_mark:
  assumes "table_at m hs K t vs" and "v \<in> set vs" and "m (v_uuid v) = Some (verRaw (v_xmin v) (v_xmax v) data)"
  shows "table_at (m(v_uuid v \<mapsto> verRaw (v_xmin v) x data)) hs K t (map (deleted x {v}) vs)" and "\<forall>k \<in> K. (m(v_uuid v \<mapsto> verRaw (v_xmin v) x data)) k = m k"
proof -
  let ?m = "m(v_uuid v \<mapsto> verRaw (v_xmin v) x data)" and ?vs = "map (deleted x {v}) vs"
  have T: "typed_table t" "tb_rowIndexBt t \<noteq> None" "\<forall>f \<in> set (tb_fields t). IsIndexed f \<longrightarrow> f_bt f \<noteq> None" "\<forall>k \<in> K. m k \<noteq> None" "K \<inter> v_uuid ` set vs = {}"
    "\<forall>v \<in> set vs. version_at m t v" "forest m hs (K \<union> v_uuid ` set vs) (map (field_tree vs) (indexed t) @ [row_tree t vs])"
    using assms(1) by (simp_all add: table_at_def)
  have nk: "v_uuid v \<notin> K" using T(5) assms(2) by blast
  then show k: "\<forall>k \<in> K. ?m k = m k" by auto
  have ids: "v_uuid ` set ?vs = v_uuid ` set vs" by (simp add: image_image)
  have ver: "version_at ?m t (deleted x {v} w)" if w: "w \<in> set vs" for w
  proof (cases "w = v")
    case True
    then show ?thesis using T(6) assms(2,3) by (auto simp: version_at_def deleted_def verRaw_inj)
  next
    case False
    then have "v_uuid w \<noteq> v_uuid v" using same_version T(6) w assms(2) by blast
    then show ?thesis using False T(6) w by (simp add: version_at_def deleted_def)
  qed
  have "key_pair f \<circ> deleted x {v} = key_pair f" "row_pair \<circ> deleted x {v} = row_pair" for f by (simp_all add: key_pair_def row_pair_def fun_eq_iff)
  then have "field_tree ?vs f = field_tree vs f" "row_tree t ?vs = row_tree t vs" for f by (simp_all add: field_tree_def row_tree_def)
  then have tr: "field_tree ?vs = field_tree vs" "row_tree t ?vs = row_tree t vs" by (blast intro: ext)+
  have "forest ?m hs (K \<union> v_uuid ` set vs) (map (field_tree vs) (indexed t) @ [row_tree t vs])" using forest_change [OF T(7)] assms(2) by blast
  then show "table_at ?m hs K t ?vs" unfolding table_at_def tr ids using T(1-5) k ver by simp
qed

text \<open>After one version is marked, the others that are to be marked are still in the table.\<close>

lemma deleted_rest:
  assumes "distinct (map v_uuid (v # ws))" and "set (v # ws) \<subseteq> set vs"
  shows "set ws \<subseteq> set (map (deleted x {v}) vs)" and "w \<in> set ws \<Longrightarrow> v_uuid w \<noteq> v_uuid v"
    and "deleted x (set (filter P ws)) (deleted x {v} a) = deleted x (insert v (set (filter P ws))) a"
proof -
  have other: "v_uuid w \<noteq> v_uuid v" if "w \<in> set ws" for w using assms(1) imageI [OF that, of v_uuid] by auto
  then show "w \<in> set ws \<Longrightarrow> v_uuid w \<noteq> v_uuid v" .
  show "set ws \<subseteq> set (map (deleted x {v}) vs)"
  proof
    fix w assume w: "w \<in> set ws"
    have "w = deleted x {v} w" using other [OF w] by (auto simp: deleted_def)
    moreover have "w \<in> set vs" using assms(2) w by auto
    ultimately show "w \<in> set (map (deleted x {v}) vs)" unfolding set_map by (rule image_eqI)
  qed
  show "deleted x (set (filter P ws)) (deleted x {v} a) = deleted x (insert v (set (filter P ws))) a" using other by (auto simp: deleted_def)
qed

lemma distinct_submset: "mset xs \<subseteq># mset ys \<Longrightarrow> distinct ys \<Longrightarrow> distinct xs"
proof -
  assume s: "mset xs \<subseteq># mset ys" and d: "distinct ys"
  have "Multiset.count (mset ys) a = (if a \<in> set ys then 1 else 0)" for a using d unfolding distinct_count_atmost_1 by blast
  then have "Multiset.count (mset ys) a \<le> 1" for a by simp
  then have "Multiset.count (mset xs) a \<le> 1" for a using mset_subset_eq_count [OF s, of a] le_trans by blast
  moreover have "a \<in> set xs \<Longrightarrow> Multiset.count (mset xs) a \<noteq> 0" for a by simp
  ultimately show "distinct xs" unfolding distinct_count_atmost_1 by (metis One_nat_def count_mset_0_iff le_Suc_eq le_zero_eq)
qed

lemma forest_last: "forest m hs S (Ts @ [T]) \<Longrightarrow> \<exists>F. plant m hs T F"
  by (induction Ts arbitrary: S) auto

lemma table_distinct: "table_at m hs K t vs \<Longrightarrow> distinct (map v_uuid vs)"
proof -
  assume "table_at m hs K t vs"
  then have "forest m hs (K \<union> v_uuid ` set vs) (map (field_tree vs) (indexed t) @ [row_tree t vs])" by (simp add: table_at_def)
  from forest_last [OF this] obtain F where "plant m hs (row_tree t vs) F" by blast
  then have "distinct (map snd (sort_key snd (map row_pair vs)))" unfolding row_tree_def using plant_sorted by blast
  moreover have "mset (map snd (sort_key snd (map row_pair vs))) = mset (map v_uuid vs)" by (simp add: row_pair_def [abs_def] multiset.map_comp comp_def)
  ultimately show "distinct (map v_uuid vs)" using distinct_submset by (metis subset_mset.order_refl)
qed

context item_store
begin

lemma sm_Delete_version:
  assumes "inv n (sm_DM s) m hs" and "size hs < limit" and "idle (sm_ec s)" and "live x s = Ok tx" and "t_XID tx = x" and "x \<noteq> 0" and "table_at m hs K t vs"
    and "v \<in> set vs" and "seen s tx v" and "grantable (sm_lt s) x (v_uuid v)" and "\<not> IsVersionSkip (tm_IsCommitted (sm_TM s)) tx (v_xmax v)"
  obtains d' c' lt' m' where "sm_Delete ev x (v_uuid v) s = Some (Ok True, s\<lparr>sm_DM := d', sm_ec := c', sm_lt := lt'\<rparr>)" "inv n d' m' hs" "idle c'"
    "table_at m' hs K t (map (deleted x {v}) vs)" "\<forall>k \<in> K. m' k = m k" "\<And>w. w \<noteq> v_uuid v \<Longrightarrow> grantable (sm_lt s) x w \<Longrightarrow> grantable lt' x w" "owned x (sm_lt s) \<longrightarrow> owned x lt'"
proof -
  obtain data where v: "m (v_uuid v) = Some (verRaw (v_xmin v) (v_xmax v) data)" using assms(7,8) by (auto simp: table_at_def version_at_def)
  obtain lt' where lt: "lt_Add (ev_order ev (sm_lt s)) x (v_uuid v) (sm_lt s) = Some (Ok (Granted, lt'))" "\<And>w. w \<noteq> v_uuid v \<Longrightarrow> grantable (sm_lt s) x w \<Longrightarrow> grantable lt' x w" "owned x (sm_lt s) \<longrightarrow> owned x lt'"
    using lt_Add_grantable [OF assms(10), of "ev_order ev (sm_lt s)" thesis] by blast
  have vis: "IsVisible (tm_IsCommitted (sm_TM s)) tx (v_xmin v) (v_xmax v)" using assms(9) by (simp add: seen_def)
  have "v_xmax v \<noteq> x" using visible_not_own [OF vis] assms(5,6) by simp
  then obtain d' c' where d: "deleteStart (ev_order ev (sm_lt s)) x (v_uuid v) s = Some (Ok (DelDone True), s\<lparr>sm_DM := d', sm_ec := c', sm_lt := lt'\<rparr>)"
    "inv n d' (m(v_uuid v \<mapsto> verRaw (v_xmin v) x data)) hs" "idle c'"
    using deleteStart_store [OF assms(1-5) v vis lt(1) assms(11)] by blast
  show thesis using that [OF _ d(2,3) table_mark [OF assms(7,8) v]] d(1) lt(2,3) by (simp add: sm_Delete_def)
qed

lemma sm_Delete_unseen:
  assumes "inv n (sm_DM s) m hs" and "size hs < limit" and "idle (sm_ec s)" and "live x s = Ok tx" and "version_at m t v" and "\<not> seen s tx v"
  obtains d' c' where "sm_Delete ev x (v_uuid v) s = Some (Ok False, s\<lparr>sm_DM := d', sm_ec := c'\<rparr>)" "inv n d' m hs" "idle c'"
proof -
  obtain data where v: "m (v_uuid v) = Some (verRaw (v_xmin v) (v_xmax v) data)" using assms(5) by (auto simp: version_at_def)
  obtain di d1 c where g: "ec_Get (v_uuid v) s = (Ok (newEntry di (v_uuid v)), s\<lparr>sm_ec := c, sm_DM := d1\<rparr>)" "handle (v_uuid v) (length (verRaw (v_xmin v) (v_xmax v) data)) di"
    "inv n d1 m (add_mset (v_uuid v) hs)"
    "\<And>s1 n1 m1. sm_ec s1 = c \<Longrightarrow> inv n1 (sm_DM s1) m1 (add_mset (v_uuid v) hs) \<Longrightarrow>
       \<exists>d2 c2. ReleaseEntry (newEntry di (v_uuid v)) s1 = (Ok (), s1\<lparr>sm_DM := d2, sm_ec := c2\<rparr>) \<and> inv n1 d2 m1 hs \<and> idle c2"
    using ec_Get_store [OF assms(1-3) v, of thesis] by blast
  let ?s1 = "s\<lparr>sm_ec := c, sm_DM := d1\<rparr>"
  have e: "e_Data (newEntry di (v_uuid v)) ?s1 = Ok (verRaw (v_xmin v) (v_xmax v) data)" using entry_bytes [of n ?s1 m "v_uuid v" hs] g(2,3) v by simp
  obtain d2 c2 where r: "ReleaseEntry (newEntry di (v_uuid v)) ?s1 = (Ok (), ?s1\<lparr>sm_DM := d2, sm_ec := c2\<rparr>)" "inv n d2 m hs" "idle c2"
    using g(4) [of ?s1 n m] g(3) by auto
  show thesis using that [OF _ r(2,3)] assms(4,6) g(1) e r(1)
    by (simp add: sm_Delete_def deleteStart_def visible_def releasing_def seen_def)
qed

lemma deleteRows_versions:
  assumes "inv n (sm_DM s) m hs" and "size hs < limit" and "idle (sm_ec s)" and "live x s = Ok tx" and "t_XID tx = x" and "x \<noteq> 0" and "table_at m hs K t vs"
    and "set ws \<subseteq> set vs" and "distinct (map v_uuid ws)" and "\<forall>v \<in> set ws. grantable (sm_lt s) x (v_uuid v) \<and> \<not> IsVersionSkip (tm_IsCommitted (sm_TM s)) tx (v_xmax v)"
  shows "\<exists>d' c' lt' m'. deleteRows ev x (map v_uuid ws) cnt s = Some (Ok (cnt + length (filter (seen s tx) ws)), s\<lparr>sm_DM := d', sm_ec := c', sm_lt := lt'\<rparr>) \<and>
     inv n d' m' hs \<and> idle c' \<and> table_at m' hs K t (map (deleted x (set (filter (seen s tx) ws))) vs) \<and> (\<forall>k \<in> K. m' k = m k) \<and> (owned x (sm_lt s) \<longrightarrow> owned x lt')"
  using assms
proof (induction ws arbitrary: s m vs cnt)
  case Nil
  have "deleted x {} = (\<lambda>v. v)" by (simp add: deleted_def fun_eq_iff)
  then show ?case using Nil.prems by (intro exI [of _ "sm_DM s"] exI [of _ "sm_ec s"] exI [of _ "sm_lt s"] exI [of _ m]) simp
next
  case (Cons v ws)
  have v: "v \<in> set vs" "version_at m t v" using Cons.prems(7,8) by (auto simp: table_at_def)
  show ?case
  proof (cases "seen s tx v")
    case False
    obtain d1 c1 where d: "sm_Delete ev x (v_uuid v) s = Some (Ok False, s\<lparr>sm_DM := d1, sm_ec := c1\<rparr>)" "inv n d1 m hs" "idle c1"
      using sm_Delete_unseen [OF Cons.prems(1-4) v(2) False, of ev thesis] by blast
    let ?s = "s\<lparr>sm_DM := d1, sm_ec := c1\<rparr>"
    have see: "seen ?s tx = seen s tx" and lv: "live x ?s = Ok tx" using Cons.prems(4) by (simp_all add: seen_def fun_eq_iff live_def)
    obtain d' c' lt' m' where "deleteRows ev x (map v_uuid ws) cnt ?s = Some (Ok (cnt + length (filter (seen s tx) ws)), s\<lparr>sm_DM := d', sm_ec := c', sm_lt := lt'\<rparr>)"
      "inv n d' m' hs" "idle c'" "table_at m' hs K t (map (deleted x (set (filter (seen s tx) ws))) vs)" "\<forall>k \<in> K. m' k = m k" "owned x (sm_lt s) \<longrightarrow> owned x lt'"
      using Cons.IH [of ?s m vs cnt] d(2,3) Cons.prems(2,5-10) see lv by auto
    then show ?thesis using d(1) False by (intro exI [of _ d'] exI [of _ c'] exI [of _ lt'] exI [of _ m']) simp
  next
    case True
    have gr: "grantable (sm_lt s) x (v_uuid v)" "\<not> IsVersionSkip (tm_IsCommitted (sm_TM s)) tx (v_xmax v)" using Cons.prems(10) by simp_all
    obtain d1 c1 lt1 m1 where d: "sm_Delete ev x (v_uuid v) s = Some (Ok True, s\<lparr>sm_DM := d1, sm_ec := c1, sm_lt := lt1\<rparr>)" "inv n d1 m1 hs" "idle c1"
      "table_at m1 hs K t (map (deleted x {v}) vs)" "\<forall>k \<in> K. m1 k = m k" "\<And>w. w \<noteq> v_uuid v \<Longrightarrow> grantable (sm_lt s) x w \<Longrightarrow> grantable lt1 x w" "owned x (sm_lt s) \<longrightarrow> owned x lt1"
      using sm_Delete_version [OF Cons.prems(1-7) v(1) True gr, of ev thesis] by blast
    let ?s = "s\<lparr>sm_DM := d1, sm_ec := c1, sm_lt := lt1\<rparr>" and ?vs = "map (deleted x {v}) vs"
    have see: "seen ?s tx = seen s tx" and lv: "live x ?s = Ok tx" using Cons.prems(4) by (simp_all add: seen_def fun_eq_iff live_def)
    note rest = deleted_rest [OF Cons.prems(9,8)]
    obtain d' c' lt' m' where h: "deleteRows ev x (map v_uuid ws) (cnt + 1) ?s = Some (Ok (cnt + 1 + length (filter (seen s tx) ws)), s\<lparr>sm_DM := d', sm_ec := c', sm_lt := lt'\<rparr>)"
      "inv n d' m' hs" "idle c'" "table_at m' hs K t (map (deleted x (set (filter (seen s tx) ws))) ?vs)" "\<forall>k \<in> K. m' k = m1 k" "owned x lt1 \<longrightarrow> owned x lt'"
      using Cons.IH [of ?s m1 ?vs "cnt + 1"] d(2-4,6) Cons.prems(2,5,6,9,10) rest(1,2) see lv by auto
    have e: "map (deleted x (set (filter (seen s tx) ws))) ?vs = map (deleted x (set (filter (seen s tx) (v # ws)))) vs" using rest(3) True by simp
    show ?thesis using h(1-3,5,6) h(4) [unfolded e] d(1,5,7) True by (intro exI [of _ d'] exI [of _ c'] exI [of _ lt'] exI [of _ m']) simp
  qed
qed

lemma t_Delete_plan:
  assumes "inv n (sm_DM s) m hs" and "size hs < limit" and "idle (sm_ec s)" and "live x s = Ok tx" and "t_XID tx = x" and "x \<noteq> 0" and "table_at m hs K t vs"
    and "plan t (dl_Where del) ord" and "\<forall>v \<in> set vs. grantable (sm_lt s) x (v_uuid v) \<and> \<not> IsVersionSkip (tm_IsCommitted (sm_TM s)) tx (v_xmax v)"
  shows "\<exists>d' c' lt' m'. t_Delete ev t x del s =
      Some (Ok (length (filter (\<lambda>v. seen s tx v \<and> satisfies t (dl_Where del) v) vs)), s\<lparr>sm_DM := d', sm_ec := c', sm_lt := lt'\<rparr>) \<and>
    inv n d' m' hs \<and> idle c' \<and> table_at m' hs K t (map (deleted x {v. seen s tx v \<and> satisfies t (dl_Where del) v}) vs) \<and> (\<forall>k \<in> K. m' k = m k) \<and> (owned x (sm_lt s) \<longrightarrow> owned x lt')"
proof -
  let ?P = "\<lambda>v. seen s tx v \<and> satisfies t (dl_Where del) v"
  obtain ws d1 c1 where w: "t_parseWhere t x (dl_Where del) s = Some (Ok (map v_uuid ws), s\<lparr>sm_DM := d1, sm_ec := c1\<rparr>)" "inv n d1 m hs" "idle c1" "mset ws \<subseteq># mset vs"
    "filter (seen s tx) ws = filter ?P (sort_key ord vs)"
    using t_parseWhere_plan [OF assms(1-4,7,8)] by blast
  let ?s1 = "s\<lparr>sm_DM := d1, sm_ec := c1\<rparr>"
  have see: "seen ?s1 tx = seen s tx" and lv: "live x ?s1 = Ok tx" using assms(4) by (simp_all add: seen_def fun_eq_iff live_def)
  have sub: "set ws \<subseteq> set vs" using set_mset_mono [OF w(4)] by simp
  have "mset (map v_uuid ws) \<subseteq># mset (map v_uuid vs)" using image_mset_subseteq_mono [OF w(4), of v_uuid] by simp
  then have dis: "distinct (map v_uuid ws)" using distinct_submset table_distinct [OF assms(7)] by blast
  have gr: "\<forall>v \<in> set ws. grantable (sm_lt ?s1) x (v_uuid v) \<and> \<not> IsVersionSkip (tm_IsCommitted (sm_TM ?s1)) tx (v_xmax v)" using assms(9) sub by auto
  have i1: "inv n (sm_DM ?s1) m hs" "idle (sm_ec ?s1)" using w(2,3) by simp_all
  obtain d' c' lt' m' where d: "deleteRows ev x (map v_uuid ws) 0 ?s1 = Some (Ok (length (filter (seen s tx) ws)), s\<lparr>sm_DM := d', sm_ec := c', sm_lt := lt'\<rparr>)"
    "inv n d' m' hs" "idle c'" "table_at m' hs K t (map (deleted x (set (filter (seen s tx) ws))) vs)" "\<forall>k \<in> K. m' k = m k" "owned x (sm_lt s) \<longrightarrow> owned x lt'"
    using deleteRows_versions [OF i1(1) assms(2) i1(2) lv assms(5-7) sub dis gr, of ev 0] unfolding see by auto
  have "length (filter (seen s tx) ws) = length (filter ?P vs)" unfolding w(5) by (metis mset_filter mset_sort size_mset)
  moreover have e: "map (deleted x (set (filter (seen s tx) ws))) vs = map (deleted x {v. ?P v}) vs" unfolding w(5) by (simp add: deleted_def)
  ultimately show ?thesis using w(1) d(1-3,5,6) d(4) [unfolded e] by (intro exI [of _ d'] exI [of _ c'] exI [of _ lt'] exI [of _ m']) (simp add: t_Delete_def)
qed

end

section \<open>Updates\<close>

lemma rowBytes_length:
  assumes "rowBytes fs e raw0 = Ok raw"
  shows "length raw0 \<le> length raw \<and> (\<forall>f \<in> set fs. of_type f (row_get e (f_FName f)) \<longrightarrow> length raw < 2 ^ 32 \<longrightarrow> short_value (row_get e (f_FName f)))"
  using assms
proof (induction fs arbitrary: raw0)
  case (Cons f fs)
  then obtain b where b: "ValueToRaw f (row_get e (f_FName f)) = Ok b" "rowBytes fs e (raw0 @ b) = Ok raw" by (auto simp: rbind_eq_Ok)
  note ih = Cons.IH [OF b(2)]
  have "short_value (row_get e (f_FName f))" if "of_type f (row_get e (f_FName f))" "length raw < 2 ^ 32"
    using that b(1) ih by (auto simp: of_type_def short_value_def ValueToRaw_def value_defs VarStrToRaw_def)
  then show ?case using ih by auto
qed simp

lemma typed_row_coded:
  assumes "typed_row t e" and "entryToRaw t e = Ok raw" and "length raw < 2 ^ 32"
  shows "parseEntry t raw = Ok e"
proof -
  let ?fs = "tb_fields t"
  have "\<forall>f \<in> set ?fs. of_type f (row_get e (f_FName f)) \<and> short_value (row_get e (f_FName f))"
    using assms rowBytes_length [of ?fs e "[]" raw] by (simp add: typed_row_def entryToRaw_def)
  then obtain b where b: "rowBytes ?fs e [] = Ok b" "parseEntryLoop ?fs b 0 Map.empty = Ok (fill_row e ?fs Map.empty)"
    using rowBytes_parse [of ?fs e] by (metis append_Nil append_Nil2 list.size(3))
  have "fill_row e ?fs Map.empty k = e k" for k using assms(1) by (auto simp: fill_row_app row_get_def typed_row_def split: option.splits)
  then have "fill_row e ?fs Map.empty = e" by auto
  then show ?thesis using b assms(2) by (simp add: entryToRaw_def parseEntry_def)
qed

lemma indexRow_none: "filter IsIndexed fs = [] \<Longrightarrow> indexRow fs e u s = Some (Ok (), s)"
  by (induction fs) (auto split: if_splits)

definition set_field :: "field \<Rightarrow> value \<Rightarrow> row \<Rightarrow> row" where
  "set_field fd val e = e(f_FName fd \<mapsto> val)"

definition fits_page :: "table \<Rightarrow> row \<Rightarrow> bool" where
  "fits_page t e \<longleftrightarrow> (\<forall>raw. entryToRaw t e = Ok raw \<longrightarrow> 16 + length raw \<le> max_item)"

context item_store
begin

text \<open>A row of a table without indexed fields is stored and listed.\<close>

lemma store_row:
  assumes "inv (3 + n) (sm_DM s) m hs" and "Suc (size hs) < limit" and "live x s = Ok tx" and "table_at m hs K t vs" and "indexed t = []"
    and "entryToRaw t e = Ok raw" and "parseEntry t raw = Ok e" and "16 + length raw \<le> max_item"
  obtains u d1 d' m' where "sm_Insert x raw s = (Ok u, s\<lparr>sm_DM := d1\<rparr>)" "rowInsert t u (s\<lparr>sm_DM := d1\<rparr>) = Some (Ok (), s\<lparr>sm_DM := d'\<rparr>)" "inv n d' m' hs"
    "table_at m' hs K t (new_version x u e # vs)" "u \<notin> v_uuid ` set vs" "\<forall>k \<in> K. m' k = m k"
proof -
  let ?S = "K \<union> v_uuid ` set vs"
  have T: "typed_table t" "\<forall>f \<in> set (tb_fields t). IsIndexed f \<longrightarrow> f_bt f \<noteq> None" "\<forall>v \<in> set vs. version_at m t v" "forest m hs ?S [row_tree t vs]" "K \<inter> v_uuid ` set vs = {}"
    using assms(4,5) by (simp_all add: table_at_def)
  have st: "\<forall>v \<in> ?S. m v \<noteq> None" by (rule table_stored [OF assms(4)])
  obtain bt where bt: "tb_rowIndexBt t = Some bt" using assms(4) by (auto simp: table_at_def)
  have i: "inv (Suc (Suc (Suc n))) (sm_DM s) m hs" and sz: "size hs < limit" using assms(1,2) by (simp_all add: numeral_3_eq_3)
  obtain u d1 where u: "sm_Insert x raw s = (Ok u, s\<lparr>sm_DM := d1\<rparr>)" "m u = None" "inv (Suc (Suc n)) d1 (m(u \<mapsto> verRaw x 0 raw)) hs"
    using sm_Insert_store [OF i sz assms(3,8)] by blast
  let ?m = "m(u \<mapsto> verRaw x 0 raw)" and ?v = "new_version x u e"
  have uinf: "u < UUID_INF" using bound_law [OF u(3), of u] by simp
  have unew: "u \<notin> ?S" using st u(2) by blast
  have f1: "forest ?m hs (insert u ?S) ([] @ (bt, sort_key snd (map row_pair vs)) # [])" using forest_new_item [OF T(4) u(2)] bt by (simp add: row_tree_def)
  have st1: "\<forall>v \<in> insert u ?S. ?m v \<noteq> None" using st by auto
  have "u \<notin> snd ` set (sort_key snd (map row_pair vs))" using unew by (auto simp: row_pair_def)
  then obtain d' m' where r: "bt_Insert bt u u d1 = Some (Ok (), d')" "inv n d' m' hs"
    "forest m' hs (insert u ?S) ([] @ (bt, insort_key snd (u, u) (sort_key snd (map row_pair vs))) # [])" "\<forall>v \<in> insert u ?S. m' v = ?m v"
    using forest_insert [OF u(3) assms(2) f1 st1 uinf, of u] by blast
  have old: "m' v = m v" if "v \<in> ?S" for v using bspec [OF r(4), of v] that unew by auto
  have new: "m' u = Some (verRaw x 0 raw)" using r(4) by simp
  have "insort_key snd (u, u) (sort_key snd (map row_pair vs)) = sort_key snd (map row_pair (?v # vs))" by (simp add: row_pair_def new_version_def)
  then have f2: "forest m' hs (K \<union> v_uuid ` set (?v # vs)) [row_tree t (?v # vs)]" using r(3) bt by (simp add: row_tree_def new_version_def)
  have "version_at m' t v" if "v \<in> set vs" for v using T(3) that old [of "v_uuid v"] by (auto simp: version_at_def)
  moreover have "version_at m' t ?v" using new assms(7) by (auto simp: version_at_def new_version_def)
  moreover have "K \<inter> v_uuid ` set (?v # vs) = {}" using T(5) unew by (simp add: new_version_def)
  ultimately have "table_at m' hs K t (?v # vs)" using T(1,2) bt f2 st old assms(5) by (auto simp: table_at_def)
  moreover have "rowInsert t u (s\<lparr>sm_DM := d1\<rparr>) = Some (Ok (), s\<lparr>sm_DM := d'\<rparr>)" using r(1) bt by (simp add: rowInsert_def tree_of_def on_index_def)
  ultimately show thesis using that [OF u(1)] r(2) old unew by blast
qed

text \<open>One version that an update replaces.\<close>

lemma update_row:
  assumes "inv (3 + n) (sm_DM s) m hs" and "Suc (size hs) < limit" and "idle (sm_ec s)" and "live x s = Ok tx" and "t_XID tx = x" and "x \<noteq> 0"
    and "table_at m hs K t vs" and "v \<in> set vs" and "seen s tx v" and "grantable (sm_lt s) x (v_uuid v)" and "\<not> IsVersionSkip (tm_IsCommitted (sm_TM s)) tx (v_xmax v)"
    and "fits_page t (set_field fd val (v_row v))" and "indexed t = []" and "fd \<in> set (tb_fields t)" and "of_type fd val"
  obtains u d' c' lt' m' where "updateRows ev t x fd val (v_uuid v # us) cnt s = updateRows ev t x fd val us (cnt + 1) (s\<lparr>sm_DM := d', sm_ec := c', sm_lt := lt'\<rparr>)"
    "inv n d' m' hs" "idle c'" "table_at m' hs K t (new_version x u (set_field fd val (v_row v)) # map (deleted x {v}) vs)" "u \<notin> v_uuid ` set vs" "\<forall>k \<in> K. m' k = m k"
    "\<And>w. w \<noteq> v_uuid v \<Longrightarrow> grantable (sm_lt s) x w \<Longrightarrow> grantable lt' x w" "owned x (sm_lt s) \<longrightarrow> owned x lt'"
proof -
  have sz: "size hs < limit" using assms(2) by simp
  have ty: "typed_table t" and va: "version_at m t v" using assms(7,8) by (auto simp: table_at_def)
  then obtain data where data: "m (v_uuid v) = Some (verRaw (v_xmin v) (v_xmax v) data)" "parseEntry t data = Ok (v_row v)" by (auto simp: version_at_def)
  obtain d1 c1 where r: "sm_Read x (v_uuid v) s = (Ok (Some data), s\<lparr>sm_DM := d1, sm_ec := c1\<rparr>)" "inv (3 + n) d1 m hs" "idle c1"
    using sm_Read_store [OF assms(1) sz assms(3,4) data(1)] assms(9) by (auto simp: seen_def)
  let ?s1 = "s\<lparr>sm_DM := d1, sm_ec := c1\<rparr>"
  have i1: "inv (3 + n) (sm_DM ?s1) m hs" "idle (sm_ec ?s1)" "live x ?s1 = Ok tx" "seen ?s1 tx v" "grantable (sm_lt ?s1) x (v_uuid v)"
    "\<not> IsVersionSkip (tm_IsCommitted (sm_TM ?s1)) tx (v_xmax v)" using r(2,3) assms(4,9-11) by (simp_all add: seen_def live_def)
  obtain d2 c2 lt2 m2 where d: "sm_Delete ev x (v_uuid v) ?s1 = Some (Ok True, ?s1\<lparr>sm_DM := d2, sm_ec := c2, sm_lt := lt2\<rparr>)" "inv (3 + n) d2 m2 hs" "idle c2"
    "table_at m2 hs K t (map (deleted x {v}) vs)" "\<forall>k \<in> K. m2 k = m k" "\<And>w. w \<noteq> v_uuid v \<Longrightarrow> grantable (sm_lt ?s1) x w \<Longrightarrow> grantable lt2 x w" "owned x (sm_lt ?s1) \<longrightarrow> owned x lt2"
    using sm_Delete_version [OF i1(1) sz i1(2,3) assms(5-8) i1(4-6), of ev thesis] by blast
  let ?s2 = "s\<lparr>sm_DM := d2, sm_ec := c2, sm_lt := lt2\<rparr>" and ?e = "set_field fd val (v_row v)"
  have te: "typed_row t ?e" unfolding set_field_def by (rule typed_row_update [OF ty version_typed [OF ty va] assms(14,15)])
  then obtain raw where raw: "entryToRaw t ?e = Ok raw" using rowBytes_ok [of "tb_fields t" ?e "[]"] by (auto simp: entryToRaw_def typed_row_def is_ok_def split: res.splits)
  have small: "16 + length raw \<le> max_item" using assms(12) raw by (simp add: fits_page_def)
  then have "length raw < 2 ^ 32" by (simp add: max_item_def pi_defs)
  then have again: "parseEntry t raw = Ok ?e" by (rule typed_row_coded [OF te raw])
  have lv2: "live x ?s2 = Ok tx" and i2: "inv (3 + n) (sm_DM ?s2) m2 hs" using assms(4) d(2) by (simp_all add: live_def)
  obtain u d3 d4 m4 where n: "sm_Insert x raw ?s2 = (Ok u, ?s2\<lparr>sm_DM := d3\<rparr>)" "rowInsert t u (?s2\<lparr>sm_DM := d3\<rparr>) = Some (Ok (), ?s2\<lparr>sm_DM := d4\<rparr>)" "inv n d4 m4 hs"
    "table_at m4 hs K t (new_version x u ?e # map (deleted x {v}) vs)" "u \<notin> v_uuid ` set (map (deleted x {v}) vs)" "\<forall>k \<in> K. m4 k = m2 k"
    using store_row [OF i2 assms(2) lv2 d(4) assms(13) raw again small, of thesis] by blast
  have eq: "s\<lparr>sm_ec := c2, sm_lt := lt2, sm_DM := d4\<rparr> = s\<lparr>sm_DM := d4, sm_ec := c2, sm_lt := lt2\<rparr>" by simp
  have "updateRows ev t x fd val (v_uuid v # us) cnt s = updateRows ev t x fd val us (cnt + 1) (s\<lparr>sm_DM := d4, sm_ec := c2, sm_lt := lt2\<rparr>)"
    using r(1) d(1) data(2) raw n(1,2) indexRow_none [OF assms(13)] eq by (simp add: set_field_def Let_def)
  moreover have "u \<notin> v_uuid ` set vs" using n(5) by (simp add: image_image)
  moreover have "\<forall>k \<in> K. m4 k = m k" using n(6) d(5) by simp
  ultimately show thesis using that n(3,4) d(3,6,7) by simp
qed

lemma updateRows_versions:
  assumes "inv (length ws * 3 + n) (sm_DM s) m hs" and "Suc (size hs) < limit" and "idle (sm_ec s)" and "live x s = Ok tx" and "t_XID tx = x" and "x \<noteq> 0"
    and "table_at m hs K t vs" and "set ws \<subseteq> set vs" and "distinct (map v_uuid ws)"
    and "\<forall>v \<in> set ws. grantable (sm_lt s) x (v_uuid v) \<and> \<not> IsVersionSkip (tm_IsCommitted (sm_TM s)) tx (v_xmax v) \<and> fits_page t (set_field fd val (v_row v))"
    and "indexed t = []" and "fd \<in> set (tb_fields t)" and "of_type fd val"
  shows "\<exists>us d' c' lt' m'. length us = length (filter (seen s tx) ws) \<and>
     updateRows ev t x fd val (map v_uuid ws) cnt s = Some (Ok (cnt + length (filter (seen s tx) ws)), s\<lparr>sm_DM := d', sm_ec := c', sm_lt := lt'\<rparr>) \<and>
     inv n d' m' hs \<and> idle c' \<and> (\<forall>k \<in> K. m' k = m k) \<and>
     table_at m' hs K t (rev (map2 (\<lambda>u v. new_version x u (set_field fd val (v_row v))) us (filter (seen s tx) ws)) @ map (deleted x (set (filter (seen s tx) ws))) vs) \<and> (owned x (sm_lt s) \<longrightarrow> owned x lt')"
  using assms(1-10)
proof (induction ws arbitrary: s m vs cnt)
  case Nil
  have "deleted x {} = (\<lambda>v. v)" by (simp add: deleted_def fun_eq_iff)
  then show ?case using Nil.prems by (intro exI [of _ "[]"] exI [of _ "sm_DM s"] exI [of _ "sm_ec s"] exI [of _ "sm_lt s"] exI [of _ m]) simp
next
  case (Cons v ws)
  have v: "v \<in> set vs" "version_at m t v" using Cons.prems(7,8) by (auto simp: table_at_def)
  let ?n = "length ws * 3 + n"
  have i: "inv (3 + ?n) (sm_DM s) m hs" and sz: "size hs < limit" using Cons.prems(1,2) by (simp_all add: add.assoc)
  show ?case
  proof (cases "seen s tx v")
    case False
    obtain data where data: "m (v_uuid v) = Some (verRaw (v_xmin v) (v_xmax v) data)" using v(2) by (auto simp: version_at_def)
    obtain d1 c1 where r: "sm_Read x (v_uuid v) s = (Ok None, s\<lparr>sm_DM := d1, sm_ec := c1\<rparr>)" "inv (3 + ?n) d1 m hs" "idle c1"
      using sm_Read_store [OF i sz Cons.prems(3,4) data] False by (auto simp: seen_def)
    let ?s1 = "s\<lparr>sm_DM := d1, sm_ec := c1\<rparr>"
    have see: "seen ?s1 tx = seen s tx" and lv: "live x ?s1 = Ok tx" and i1: "inv ?n (sm_DM ?s1) m hs"
      using Cons.prems(4) inv_fewer [OF r(2)] by (simp_all add: seen_def fun_eq_iff live_def)
    obtain us d' c' lt' m' where "length us = length (filter (seen s tx) ws)"
      "updateRows ev t x fd val (map v_uuid ws) cnt ?s1 = Some (Ok (cnt + length (filter (seen s tx) ws)), s\<lparr>sm_DM := d', sm_ec := c', sm_lt := lt'\<rparr>)"
      "inv n d' m' hs" "idle c'" "\<forall>k \<in> K. m' k = m k"
      "table_at m' hs K t (rev (map2 (\<lambda>u v. new_version x u (set_field fd val (v_row v))) us (filter (seen s tx) ws)) @ map (deleted x (set (filter (seen s tx) ws))) vs)" "owned x (sm_lt s) \<longrightarrow> owned x lt'"
      using Cons.IH [OF i1 Cons.prems(2) _ lv Cons.prems(5-7), of cnt] r(3) Cons.prems(8-10) see by auto
    then show ?thesis using r(1) False by (intro exI [of _ us] exI [of _ d'] exI [of _ c'] exI [of _ lt'] exI [of _ m']) simp
  next
    case True
    let ?e = "set_field fd val (v_row v)" and ?vs = "map (deleted x {v}) vs" and ?D = "filter (seen s tx) ws"
    have gr: "grantable (sm_lt s) x (v_uuid v)" "\<not> IsVersionSkip (tm_IsCommitted (sm_TM s)) tx (v_xmax v)" "fits_page t ?e" using Cons.prems(10) by simp_all
    obtain u d1 c1 lt1 m1 where n: "updateRows ev t x fd val (v_uuid v # map v_uuid ws) cnt s = updateRows ev t x fd val (map v_uuid ws) (cnt + 1) (s\<lparr>sm_DM := d1, sm_ec := c1, sm_lt := lt1\<rparr>)"
      "inv ?n d1 m1 hs" "idle c1" "table_at m1 hs K t (new_version x u ?e # ?vs)" "u \<notin> v_uuid ` set vs" "\<forall>k \<in> K. m1 k = m k"
      "\<And>w. w \<noteq> v_uuid v \<Longrightarrow> grantable (sm_lt s) x w \<Longrightarrow> grantable lt1 x w" "owned x (sm_lt s) \<longrightarrow> owned x lt1"
      using update_row [OF i Cons.prems(2-7) v(1) True gr assms(11-13), of ev "map v_uuid ws" cnt thesis] by blast
    let ?s1 = "s\<lparr>sm_DM := d1, sm_ec := c1, sm_lt := lt1\<rparr>" and ?vs1 = "new_version x u ?e # ?vs"
    note rest = deleted_rest [OF Cons.prems(9,8)]
    have i1: "inv ?n (sm_DM ?s1) m1 hs" "idle (sm_ec ?s1)" "live x ?s1 = Ok tx" "seen ?s1 tx = seen s tx" using n(2,3) Cons.prems(4) by (simp_all add: live_def seen_def fun_eq_iff)
    have "\<forall>w \<in> set ws. grantable (sm_lt ?s1) x (v_uuid w) \<and> \<not> IsVersionSkip (tm_IsCommitted (sm_TM ?s1)) tx (v_xmax w) \<and> fits_page t (set_field fd val (v_row w))"
      using Cons.prems(10) n(7) rest(2) by simp
    moreover have "distinct (map v_uuid ws)" "set ws \<subseteq> set ?vs1" using Cons.prems(9) rest(1) by auto
    ultimately obtain us d' c' lt' m' where h: "length us = length ?D"
      "updateRows ev t x fd val (map v_uuid ws) (cnt + 1) ?s1 = Some (Ok (cnt + 1 + length ?D), ?s1\<lparr>sm_DM := d', sm_ec := c', sm_lt := lt'\<rparr>)"
      "inv n d' m' hs" "idle c'" "\<forall>k \<in> K. m' k = m1 k"
      "table_at m' hs K t (rev (map2 (\<lambda>u v. new_version x u (set_field fd val (v_row v))) us ?D) @ map (deleted x (set ?D)) ?vs1)" "owned x (sm_lt ?s1) \<longrightarrow> owned x lt'"
      using Cons.IH [OF i1(1) Cons.prems(2) i1(2,3) Cons.prems(5,6) n(4), of "cnt + 1", unfolded i1(4)] by blast
    have "v_uuid w \<noteq> u" if "w \<in> set ws" for w using n(5) Cons.prems(8) that imageI [of w "set vs" v_uuid] by auto
    then have "new_version x u ?e \<notin> set ws" by (metis new_version_def version.select_convs(1))
    then have "deleted x (set ?D) (new_version x u ?e) = new_version x u ?e" by (simp add: deleted_def)
    then have e: "rev (map2 (\<lambda>u v. new_version x u (set_field fd val (v_row v))) us ?D) @ map (deleted x (set ?D)) ?vs1 =
        rev (map2 (\<lambda>u v. new_version x u (set_field fd val (v_row v))) (u # us) (filter (seen s tx) (v # ws))) @ map (deleted x (set (filter (seen s tx) (v # ws)))) vs"
      using True rest(3) by simp
    have "\<forall>k \<in> K. m' k = m k" using h(5) n(6) by simp
    then show ?thesis using h(1-4,7) h(6) [unfolded e] n(1,8) True
      by (intro exI [of _ "u # us"] exI [of _ d'] exI [of _ c'] exI [of _ lt'] exI [of _ m']) simp
  qed
qed

lemma t_Update_plan:
  assumes "inv (length vs * 3 + n) (sm_DM s) m hs" and "Suc (size hs) < limit" and "idle (sm_ec s)" and "live x s = Ok tx" and "t_XID tx = x" and "x \<noteq> 0" and "table_at m hs K t vs"
    and "plan t (up_Where upd) ord" and "indexed t = []" and "field_named t (up_FieldName upd) = Some fd" and "StrToValue fd (up_Value upd) = Ok val"
    and "\<forall>v \<in> set vs. grantable (sm_lt s) x (v_uuid v) \<and> \<not> IsVersionSkip (tm_IsCommitted (sm_TM s)) tx (v_xmax v) \<and> fits_page t (set_field fd val (v_row v))"
  shows "\<exists>us d' c' lt' m'. let D = filter (\<lambda>v. seen s tx v \<and> satisfies t (up_Where upd) v) (sort_key ord vs) in length us = length D \<and>
     t_Update ev t x upd s = Some (Ok (length D), s\<lparr>sm_DM := d', sm_ec := c', sm_lt := lt'\<rparr>) \<and> inv n d' m' hs \<and> idle c' \<and> (\<forall>k \<in> K. m' k = m k) \<and>
     table_at m' hs K t (rev (map2 (\<lambda>u v. new_version x u (set_field fd val (v_row v))) us D) @ map (deleted x (set D)) vs) \<and> (owned x (sm_lt s) \<longrightarrow> owned x lt')"
proof -
  have sz: "size hs < limit" using assms(2) by simp
  obtain ws d1 c1 where w: "t_parseWhere t x (up_Where upd) s = Some (Ok (map v_uuid ws), s\<lparr>sm_DM := d1, sm_ec := c1\<rparr>)" "inv (length vs * 3 + n) d1 m hs" "idle c1" "mset ws \<subseteq># mset vs"
    "filter (seen s tx) ws = filter (\<lambda>v. seen s tx v \<and> satisfies t (up_Where upd) v) (sort_key ord vs)"
    using t_parseWhere_plan [OF assms(1) sz assms(3,4,7,8)] by blast
  let ?s1 = "s\<lparr>sm_DM := d1, sm_ec := c1\<rparr>" and ?D = "filter (seen s tx) ws"
  have see: "seen ?s1 tx = seen s tx" and lv: "live x ?s1 = Ok tx" using assms(4) by (simp_all add: seen_def fun_eq_iff live_def)
  have sub: "set ws \<subseteq> set vs" and len: "length ws \<le> length vs" using set_mset_mono [OF w(4)] size_mset_mono [OF w(4)] by simp_all
  have "length vs * 3 + n = (length vs - length ws) * 3 + (length ws * 3 + n)" using len by (simp add: diff_mult_distrib)
  then have i: "inv (length ws * 3 + n) (sm_DM ?s1) m hs" using inv_fewer [of "(length vs - length ws) * 3" "length ws * 3 + n"] w(2) by (simp add: add.assoc)
  have "mset (map v_uuid ws) \<subseteq># mset (map v_uuid vs)" using image_mset_subseteq_mono [OF w(4), of v_uuid] by simp
  then have dis: "distinct (map v_uuid ws)" using distinct_submset table_distinct [OF assms(7)] by blast
  have fd: "fd \<in> set (tb_fields t)" using field_named_mem [OF assms(10)] by blast
  then have "of_type fd val" using StrToValue_type(1) [OF _ assms(11)] assms(7) by (simp add: table_at_def typed_table_def)
  moreover have "\<forall>v \<in> set ws. grantable (sm_lt ?s1) x (v_uuid v) \<and> \<not> IsVersionSkip (tm_IsCommitted (sm_TM ?s1)) tx (v_xmax v) \<and> fits_page t (set_field fd val (v_row v))"
    using assms(12) sub by auto
  moreover have "idle (sm_ec ?s1)" using w(3) by simp
  ultimately obtain us d' c' lt' m' where "length us = length ?D"
    "updateRows ev t x fd val (map v_uuid ws) 0 ?s1 = Some (Ok (0 + length ?D), ?s1\<lparr>sm_DM := d', sm_ec := c', sm_lt := lt'\<rparr>)"
    "inv n d' m' hs" "idle c'" "\<forall>k \<in> K. m' k = m k"
    "table_at m' hs K t (rev (map2 (\<lambda>u v. new_version x u (set_field fd val (v_row v))) us ?D) @ map (deleted x (set ?D)) vs)" "owned x (sm_lt ?s1) \<longrightarrow> owned x lt'"
    using updateRows_versions [OF i assms(2) _ lv assms(5-7) sub dis _ assms(9) fd, of val ev 0] unfolding see by blast
  then show ?thesis unfolding Let_def w(5) [symmetric] using w(1) assms(10,11) by (intro exI [of _ us] exI [of _ d'] exI [of _ c'] exI [of _ lt'] exI [of _ m']) (simp add: t_Update_def)
qed

end

text \<open>Who sees the rows of an insert, and what a condition selects of them.\<close>

lemma new_rows_seen:
  assumes "v \<in> set (map2 (new_version x) us es)"
  shows "t_XID tx = x \<Longrightarrow> seen s tx v" and "t_XID tx \<noteq> x \<Longrightarrow> \<not> tm_IsCommitted (sm_TM s) x \<Longrightarrow> \<not> seen s tx v"
proof -
  have "v_xmin v = x" "v_xmax v = 0" using assms by (auto simp: new_version_def)
  then show "t_XID tx = x \<Longrightarrow> seen s tx v" "t_XID tx \<noteq> x \<Longrightarrow> \<not> tm_IsCommitted (sm_TM s) x \<Longrightarrow> \<not> seen s tx v"
    by (auto simp: seen_def IsVisible_def readCommitted_def repeatableRead_def Let_def)
qed

lemma new_rows_selected:
  assumes "length us = length es"
  shows "mset (map v_row (filter (satisfies t wh) (sort_key ord (rev (map2 (new_version x) us es))))) = mset (filter (\<lambda>e. evaluateWhere t e wh = Ok True) es)"
proof -
  let ?vs = "map2 (new_version x) us es"
  have "map v_row ?vs = es" using assms by (induction us es rule: list_induct2) (simp_all add: new_version_def)
  moreover have "map v_row (filter (satisfies t wh) ?vs) = filter (\<lambda>e. evaluateWhere t e wh = Ok True) (map v_row ?vs)"
    by (simp only: filter_map comp_def satisfies_def [abs_def])
  moreover have "mset (map v_row (filter (satisfies t wh) (sort_key ord (rev ?vs)))) = mset (map v_row (filter (satisfies t wh) ?vs))" by simp
  ultimately show ?thesis by simp
qed

section \<open>An example\<close>

text \<open>A table of people, in the first transaction of a new database.\<close>

definition people_create :: "string list \<Rightarrow> Create" where
  "people_create ix = \<lparr>cr_TableName = ''people'', cr_FieldName = [''id'', ''name''], cr_FieldType = [''uint32'', ''string''], cr_Index = ix\<rparr>"

definition people_rows :: "string list list" where
  "people_rows = [[''7'', ''ann''], [''3'', ''bob'']]"

definition person :: "uint32 \<Rightarrow> string \<Rightarrow> row" where
  "person n str = [''id'' \<mapsto> VUint32 n, ''name'' \<mapsto> VString str]"

lemma people_proper: "proper_create (people_create ix)"
  by (simp add: proper_create_def people_create_def isType_def)

lemma first_transaction:
  obtains s tx where "sm_Begin 0 new_sm = (Ok 1, s)" "store {#} 8 1000 (sm_DM s) Map.empty {#}" "idle (sm_ec s)" "live SUPER_XID s = Ok (newTransaction 0 0 {})" "live 1 s = Ok tx"
    "t_XID tx = 1" "t_Level tx = 0" "sm_lt s = NewLockTable"
proof -
  obtain s where s: "sm_Begin 0 new_sm = (Ok 1, s)" "sm_tc s = (sm_tc new_sm)(1 \<mapsto> newTransaction 1 0 (dom (sm_tc new_sm)))" "sm_DM s = new_dm" "sm_ec s = NewCacher 0" "sm_lt s = NewLockTable"
    using begin_again [OF new_sm_inv(1), of 0] new_sm_inv(2,4-6) by auto
  have "idle (sm_ec s)" using s(4) cacher_inv_New [of 0] by (simp add: idle_def) (simp add: NewCacher_def)
  then show thesis using that [OF s(1), of "newTransaction 1 0 (dom (sm_tc new_sm))"] s new_store new_sm_inv(3)
    by (simp add: live_def newTransaction_def SUPER_XID_def)
qed

lemma people_fields:
  assumes "map shape (tb_fields t) = shapes (people_create ix)"
  obtains f g where "tb_fields t = [f, g]" "f_FName f = ''id''" "f_FType f = ''uint32''" "IsIndexed f = (''id'' \<in> set ix)"
    "f_FName g = ''name''" "f_FType g = ''string''" "IsIndexed g = (''name'' \<in> set ix)"
proof -
  have "length (tb_fields t) = 2" using arg_cong [OF assms, of length] by (simp add: shapes_def people_create_def)
  then obtain f g where fg: "tb_fields t = [f, g]" by (metis (no_types, lifting) One_nat_def Suc_1 length_0_conv length_Suc_conv)
  then show thesis using that [OF fg] assms by (simp add: shapes_def people_create_def shape_def)
qed

lemma people_storable:
  assumes "map shape (tb_fields t) = shapes (people_create ix)" and "''name'' \<notin> set ix"
  shows "list_all2 (storable t) people_rows [person 7 ''ann'', person 3 ''bob'']" and "fresh_rows t [person 7 ''ann'', person 3 ''bob''] []"
proof -
  obtain f g where fg: "tb_fields t = [f, g]" "f_FName f = ''id''" "f_FType f = ''uint32''" "IsIndexed f = (''id'' \<in> set ix)"
    "f_FName g = ''name''" "f_FType g = ''string''" "IsIndexed g = (''name'' \<in> set ix)" using people_fields [OF assms(1)] by blast
  show "list_all2 (storable t) people_rows [person 7 ''ann'', person 3 ''bob'']"
    by (simp add: people_rows_def storable_def strToEntry_def fg go_index_def StrToValue_def StrToUint32_def ParseUint_def person_def entryToRaw_def ValueToRaw_def
        row_get_def value_defs VarStrToRaw_def max_item_def pi_defs)
  have k: "keyOf f (person n str) = ucast n" for n str using fg by (simp add: keyOf_def person_def row_get_def ValueToUUID_def value_defs)
  have "(ucast (7 :: uint32) :: UUID) = 7" "(ucast (3 :: uint32) :: UUID) = 3" by simp_all
  then show "fresh_rows t [person 7 ''ann'', person 3 ''bob''] []" using fg assms(2) k by (simp add: fresh_rows_def UUID_INF_def)
qed

text \<open>The table with two rows, in the state after the insert.\<close>

lemma people_table:
  assumes "''name'' \<notin> set ix"
  obtains s tx t m hs vs where "store {#} 8 100 (sm_DM s) m hs" "Suc (size hs) < 8" "idle (sm_ec s)" "live 1 s = Ok tx" "t_XID tx = 1" "t_Level tx = 0" "sm_lt s = NewLockTable"
    "table_at m hs {} t vs" "map shape (tb_fields t) = shapes (people_create ix)" "\<exists>us. length us = 2 \<and> vs = rev (map2 (new_version 1) us [person 7 ''ann'', person 3 ''bob''])"
proof -
  obtain s tx where s: "store {#} 8 1000 (sm_DM s) Map.empty {#}" "idle (sm_ec s)" "live SUPER_XID s = Ok (newTransaction 0 0 {})" "live 1 s = Ok tx"
    "t_XID tx = 1" "t_Level tx = 0" "sm_lt s = NewLockTable" by (rule first_transaction) (rule that)
  let ?c = "people_create ix"
  have n: "length (cr_FieldName ?c) = 2" by (simp add: people_create_def)
  have st: "store {#} 8 (length (cr_FieldName ?c) * field_cost + (3 + 991)) (sm_DM s) Map.empty {#}" using s(1) n by (simp add: field_cost_def)
  obtain t d1 m1 hs1 where c: "store {#} 8 991 d1 m1 hs1" "size hs1 \<le> size ({#} :: UUID multiset) + length (cr_FieldName ?c) + 1" "table_at m1 hs1 {} t []" "map shape (tb_fields t) = shapes ?c"
    using dms.CreateTable_store [OF st _ s(3) people_proper, of "{}" "0" thesis] n by auto
  have "row_cost t \<le> 7" using arg_cong [OF c(4), of length] length_filter_le [of IsIndexed "tb_fields t"] by (simp add: row_cost_def shapes_def people_create_def)
  then have j: "991 = (991 - (length people_rows * row_cost t + 100)) + (length people_rows * row_cost t + 100)" by (simp add: people_rows_def)
  have more: "store {#} 8 ((991 - (length people_rows * row_cost t + 100)) + (length people_rows * row_cost t + 100)) d1 m1 hs1" by (subst j [symmetric]) (rule c(1))
  let ?s1 = "s\<lparr>sm_DM := d1\<rparr>"
  have i: "store {#} 8 (length people_rows * row_cost t + 100) (sm_DM ?s1) m1 hs1" using dms.inv_fewer [OF more] by simp
  have sz: "Suc (size hs1) < 8" and lv: "live 1 (s\<lparr>sm_DM := d\<rparr>) = Ok tx" for d using c(2) n s(4) by (simp_all add: live_def)
  obtain us d2 m2 where r: "length us = length [person 7 ''ann'', person 3 ''bob'']" "store {#} 8 100 d2 m2 hs1"
    "table_at m2 hs1 {} t (rev (map2 (new_version 1) us [person 7 ''ann'', person 3 ''bob'']) @ [])"
    using dms.insertRows_versions [OF i sz lv c(3) people_storable [OF c(4) assms]] by blast
  let ?vs = "rev (map2 (new_version 1) us [person 7 ''ann'', person 3 ''bob''])"
  have "\<exists>us. length us = 2 \<and> ?vs = rev (map2 (new_version 1) us [person 7 ''ann'', person 3 ''bob''])" using r(1) by (intro exI [of _ us]) simp
  then show thesis using that [of "s\<lparr>sm_DM := d2\<rparr>" m2 hs1 tx t ?vs] r(2,3) sz s(2,5-7) lv c(4) by simp
qed

section \<open>Properties\<close>

text \<open>C9. A select answers with what its transaction sees. For a table that holds the versions \<open>vs\<close>, a select without a condition, with a condition on a field without index, or with a comparison of an indexed
  number field returns, and its answer is computed from exactly the rows of the versions that are visible to the transaction and satisfy the condition, each once, in the order of the index that is used. The table stays as it is.\<close>

theorem select_exact:
  assumes "store X limit n (sm_DM s) m hs" and "size hs < limit" and "idle (sm_ec s)" and "live x s = Ok tx" and "table_at m hs K t vs" and "plan t (rd_Where rd) ord"
  shows "\<exists>s'. t_Read sortSlice t x rd s =
      Some (answer sortSlice t rd (map v_row (filter (\<lambda>v. seen s tx v \<and> satisfies t (rd_Where rd) v) (sort_key ord vs))), s') \<and>
    store X limit n (sm_DM s') m hs \<and> idle (sm_ec s')"
proof -
  obtain d' c' where "t_Read sortSlice t x rd s =
      Some (answer sortSlice t rd (map v_row (filter (\<lambda>v. seen s tx v \<and> satisfies t (rd_Where rd) v) (sort_key ord vs))), s\<lparr>sm_DM := d', sm_ec := c'\<rparr>)"
    "store X limit n d' m hs" "idle c'" using dms.t_Read_plan [OF assms, of sortSlice] by blast
  then show ?thesis by (intro exI [of _ "s\<lparr>sm_DM := d', sm_ec := c'\<rparr>"]) simp
qed

theorem select_exact_witness:
  "\<exists>s t s' (ord :: version \<Rightarrow> UUID) vs tx. length vs = 2 \<and> t_Read (\<lambda>_ es. es) t 1 \<lparr>rd_TableName = ''people'', rd_Fields = [], rd_Aggregates = [],
      rd_Where = Some \<lparr>wh_SingleExp1 = \<lparr>se_Field = ''id'', se_CmpOp = ''<'', se_Value = ''5''\<rparr>, wh_LogicOp = [], wh_SingleExp2 = None\<rparr>, rd_OrderBy = [], rd_OrderDesc = False, rd_Limit = 0, rd_Offset = 0\<rparr> s =
    Some (printRows t (map v_row (filter (\<lambda>v. seen s tx v \<and>
      satisfies t (Some \<lparr>wh_SingleExp1 = \<lparr>se_Field = ''id'', se_CmpOp = ''<'', se_Value = ''5''\<rparr>, wh_LogicOp = [], wh_SingleExp2 = None\<rparr>) v) (sort_key ord vs))), s')"
proof -
  let ?exp = "\<lparr>se_Field = ''id'', se_CmpOp = ''<'', se_Value = ''5''\<rparr>"
  let ?wh = "Some \<lparr>wh_SingleExp1 = ?exp, wh_LogicOp = [], wh_SingleExp2 = None\<rparr>"
  let ?rd = "\<lparr>rd_TableName = ''people'', rd_Fields = [], rd_Aggregates = [], rd_Where = ?wh, rd_OrderBy = [], rd_OrderDesc = False, rd_Limit = 0, rd_Offset = 0\<rparr>"
  obtain s tx t m hs vs where p: "store {#} 8 100 (sm_DM s) m hs" "Suc (size hs) < 8" "idle (sm_ec s)" "live 1 s = Ok tx" "table_at m hs {} t vs" "map shape (tb_fields t) = shapes (people_create [''id''])"
    "\<exists>us. length us = 2 \<and> vs = rev (map2 (new_version 1) us [person 7 ''ann'', person 3 ''bob''])"
    using people_table [of "[''id'']" thesis] by auto
  obtain f g where fg: "tb_fields t = [f, g]" "f_FName f = ''id''" "f_FType f = ''uint32''" "IsIndexed f" using people_fields [OF p(6), of thesis] by auto
  have v: "StrToValue f ''5'' = Ok (VUint32 5)" by (simp add: StrToValue_def fg StrToUint32_def ParseUint_def)
  then have "CalExp f ?exp = Ok (0, 4)" using fg by (simp add: CalExp_def ValueToUUID_def value_defs)
  then have "plan t (rd_Where ?rd) (\<lambda>v. keyOf f (v_row v))" using v fg unfolding plan_def by (simp add: field_named_def UUID_INF_def)
  note pl = this
  have sz: "size hs < 8" using p(2) by simp
  obtain s' where r: "t_Read (\<lambda>_ es. es) t 1 ?rd s = Some (answer (\<lambda>_ es. es) t ?rd (map v_row (filter (\<lambda>v. seen s tx v \<and> satisfies t (rd_Where ?rd) v) (sort_key (\<lambda>v. keyOf f (v_row v)) vs))), s')"
    using select_exact [OF p(1) sz p(3-5) pl, of "\<lambda>_ es. es"] by blast
  have two: "length vs = 2" using p(7) by auto
  have "answer (\<lambda>_ es. es) t ?rd es = printRows t es" for es by (simp add: answer_def)
  note r = r [unfolded this Read.select_convs]
  show ?thesis by (rule exI [of _ s], rule exI [of _ t], rule exI [of _ s'], rule exI [of _ "\<lambda>v. keyOf f (v_row v)"], rule exI [of _ vs], rule exI [of _ tx]) (intro conjI two r)
qed





text \<open>C11. An update replaces versions. In a table without indexed fields, under the conditions of \<open>delete_exact\<close> and when the new rows fit on a page, an update returns the number of versions that are visible and satisfy
  the condition; each of them is marked as deleted by the transaction, and for each there is a new version of the transaction with the same row but for the updated field.\<close>

theorem update_exact:
  assumes "store X limit (length vs * 3 + n) (sm_DM s) m hs" and "Suc (size hs) < limit" and "idle (sm_ec s)" and "live x s = Ok tx" and "t_XID tx = x" and "x \<noteq> SUPER_XID"
    and "table_at m hs K t vs" and "plan t (up_Where upd) ord" and "\<forall>f \<in> set (tb_fields t). \<not> IsIndexed f"
    and "field_named t (up_FieldName upd) = Some fd" and "StrToValue fd (up_Value upd) = Ok val"
    and "\<forall>v \<in> set vs. grantable (sm_lt s) x (v_uuid v) \<and> \<not> IsVersionSkip (tm_IsCommitted (sm_TM s)) tx (v_xmax v) \<and> fits_page t ((v_row v)(f_FName fd \<mapsto> val))"
  shows "\<exists>us s' m'. let D = filter (\<lambda>v. seen s tx v \<and> satisfies t (up_Where upd) v) (sort_key ord vs) in
    t_Update ev t x upd s = Some (Ok (length D), s') \<and> store X limit n (sm_DM s') m' hs \<and> idle (sm_ec s') \<and> sm_TM s' = sm_TM s \<and> (\<forall>k \<in> K. m' k = m k) \<and> length us = length D \<and>
    table_at m' hs K t (rev (map2 (\<lambda>u v. \<lparr>v_uuid = u, v_xmin = x, v_xmax = 0, v_row = (v_row v)(f_FName fd \<mapsto> val)\<rparr>) us D) @
      map (\<lambda>v. if v \<in> set D then v\<lparr>v_xmax := x\<rparr> else v) vs)"
proof -
  have x: "x \<noteq> 0" using assms(6) by (simp add: SUPER_XID_def)
  let ?D = "filter (\<lambda>v. seen s tx v \<and> satisfies t (up_Where upd) v) (sort_key ord vs)"
  have ix: "indexed t = []" using assms(9) by (simp add: filter_empty_conv)
  obtain us d' c' lt' m' where u: "length us = length ?D" "t_Update ev t x upd s = Some (Ok (length ?D), s\<lparr>sm_DM := d', sm_ec := c', sm_lt := lt'\<rparr>)"
    "store X limit n d' m' hs" "idle c'" "\<forall>k \<in> K. m' k = m k"
    "table_at m' hs K t (rev (map2 (\<lambda>u v. new_version x u (set_field fd val (v_row v))) us ?D) @ map (deleted x (set ?D)) vs)"
    using dms.t_Update_plan [OF assms(1-5) x assms(7,8) ix assms(10,11), of ev] assms(12) unfolding Let_def set_field_def by blast
  have "table_at m' hs K t (rev (map2 (\<lambda>u v. \<lparr>v_uuid = u, v_xmin = x, v_xmax = 0, v_row = (v_row v)(f_FName fd \<mapsto> val)\<rparr>) us ?D) @
      map (\<lambda>v. if v \<in> set ?D then v\<lparr>v_xmax := x\<rparr> else v) vs)"
    using u(6) unfolding new_version_def set_field_def deleted_def [abs_def] .
  then show ?thesis using u(1-5) unfolding Let_def by (intro exI [of _ us] exI [of _ "s\<lparr>sm_DM := d', sm_ec := c', sm_lt := lt'\<rparr>"] exI [of _ m']) simp
qed

theorem update_exact_witness:
  "\<exists>s t s' ev. t_Update ev t 1 \<lparr>up_TableName = ''people'', up_FieldName = ''name'', up_Value = ''cy'', up_Where = None\<rparr> s = Some (Ok 2, s')"
proof -
  let ?u = "\<lparr>up_TableName = ''people'', up_FieldName = ''name'', up_Value = ''cy'', up_Where = None\<rparr>"
  obtain s tx t m hs vs where p: "store {#} 8 100 (sm_DM s) m hs" "Suc (size hs) < 8" "idle (sm_ec s)" "live 1 s = Ok tx" "t_XID tx = 1" "t_Level tx = 0" "sm_lt s = NewLockTable"
    "table_at m hs {} t vs" "map shape (tb_fields t) = shapes (people_create [])" "\<exists>us. length us = 2 \<and> vs = rev (map2 (new_version 1) us [person 7 ''ann'', person 3 ''bob''])"
    using people_table [of "[]" thesis] by auto
  obtain us where us: "length us = 2" "vs = rev (map2 (new_version 1) us [person 7 ''ann'', person 3 ''bob''])" using p(10) by blast
  obtain f g where fg: "tb_fields t = [f, g]" "f_FName f = ''id''" "f_FType f = ''uint32''" "\<not> IsIndexed f" "f_FName g = ''name''" "f_FType g = ''string''" "\<not> IsIndexed g"
    using people_fields [OF p(9), of thesis] by auto
  have st: "store {#} 8 (length vs * 3 + 94) (sm_DM s) m hs" using p(1) us by simp
  have ty: "field_named t (up_FieldName ?u) = Some g" "StrToValue g (up_Value ?u) = Ok (VString ''cy'')" "\<forall>f \<in> set (tb_fields t). \<not> IsIndexed f"
    using fg by (simp_all add: field_named_def StrToValue_def)
  have "fits_page t ((v_row v)(''name'' \<mapsto> VString ''cy''))" if "v \<in> set vs" for v
    using that us(2) fg by (auto simp: fits_page_def new_version_def person_def entryToRaw_def ValueToRaw_def row_get_def value_defs VarStrToRaw_def max_item_def pi_defs dest!: set_zip_rightD)
  then have g: "\<forall>v \<in> set vs. grantable (sm_lt s) 1 (v_uuid v) \<and> \<not> IsVersionSkip (tm_IsCommitted (sm_TM s)) tx (v_xmax v) \<and> fits_page t ((v_row v)(f_FName g \<mapsto> VString ''cy''))"
    using p(6,7) fg(5) by (simp add: grantable_def NewLockTable_def IsVersionSkip_def)
  have "seen s tx v \<and> satisfies t None v" if "v \<in> set vs" for v using new_rows_seen(1) [OF _ p(5), of v us] that us(2) by (simp add: satisfies_def evaluateWhere_def)
  then have "filter (\<lambda>v. seen s tx v \<and> satisfies t None v) (sort_key v_uuid vs) = sort_key v_uuid vs" by (simp add: filter_id_conv)
  moreover have "plan t (up_Where ?u) v_uuid" by (simp add: plan_def)
  moreover have one: "(1 :: XID) \<noteq> SUPER_XID" and "length (sort_key v_uuid vs) = 2" using us by (simp_all add: SUPER_XID_def)
  ultimately have len: "length (filter (\<lambda>v. seen s tx v \<and> satisfies t (up_Where ?u) v) (sort_key v_uuid vs)) = 2" and pl: "plan t (up_Where ?u) v_uuid" by simp_all
  fix ev
  obtain s' where "t_Update ev t 1 ?u s = Some (Ok (length (filter (\<lambda>v. seen s tx v \<and> satisfies t (up_Where ?u) v) (sort_key v_uuid vs))), s')"
    using update_exact [OF st p(2-5) one p(8) pl ty(3,1,2) g, of ev] unfolding Let_def by blast
  then show ?thesis unfolding len by blast
qed


text \<open>C8. From \<open>create table\<close> to \<open>select\<close>. With room in the store, a create statement with different field names succeeds and gives a table with these fields. An insert of accepted rows, with different keys in each indexed
  field, succeeds, and then a select of the same transaction, by a scan or by an index, answers with exactly the inserted rows that satisfy its condition, as often as they were inserted; a select of another transaction answers with none as
  long as the inserting transaction is not committed.\<close>

theorem create_insert_select:
  assumes "store X limit (length (cr_FieldName create) * 3 + (3 + length rows * (2 * length (cr_FieldName create) + 3))) (sm_DM s) m hs"
    and "size hs + length (cr_FieldName create) + 2 < limit" and "idle (sm_ec s)" and "live SUPER_XID s = Ok t0" and "live x s = Ok tx" and "t_XID tx = x" and "proper_create create"
  shows "\<exists>t s1. CreateTable next create s = (Ok t, s1) \<and> map shape (tb_fields t) = shapes create \<and>
    (\<forall>es name. list_all2 (storable t) rows es \<and> fresh_rows t es [] \<longrightarrow>
      (\<exists>s2. t_Insert t x \<lparr>in_TableName = name, in_Values = [], in_ValuesList = rows\<rparr> s1 = Some (Ok (), s2) \<and>
        (\<forall>rd ord. plan t (rd_Where rd) ord \<longrightarrow>
          (\<exists>es' s3. t_Read sortSlice t x rd s2 = Some (answer sortSlice t rd es', s3) \<and> mset es' = mset (filter (\<lambda>e. evaluateWhere t e (rd_Where rd) = Ok True) es)) \<and>
          (\<forall>y ty. live y s = Ok ty \<and> t_XID ty \<noteq> x \<and> \<not> tm_IsCommitted (sm_TM s) x \<longrightarrow> (\<exists>s3. t_Read sortSlice t y rd s2 = Some (answer sortSlice t rd [], s3))))))"
proof -
  let ?ns = "cr_FieldName create" and ?k = "length rows * (2 * length (cr_FieldName create) + 3)"
  have st: "store X limit (length ?ns * field_cost + (3 + ?k)) (sm_DM s) m hs" and sz: "size hs + length ?ns + 1 < limit" using assms(1,2) by (simp_all add: field_cost_def)
  obtain t d1 m1 hs1 where c: "CreateTable next create s = (Ok t, s\<lparr>sm_DM := d1\<rparr>)" "store X limit ?k d1 m1 hs1" "size hs1 \<le> size hs + length ?ns + 1"
    "table_at m1 hs1 {} t []" "map shape (tb_fields t) = shapes create"
    using dms.CreateTable_store [OF st sz assms(4,7), of "{}" "next" thesis] by blast
  let ?s1 = "s\<lparr>sm_DM := d1\<rparr>"
  have lt: "Suc (size hs1) < limit" and lt1: "size hs1 < limit" using c(3) assms(2) by simp_all
  have "length (tb_fields t) = length ?ns" using arg_cong [OF c(5), of length] assms(7) by (simp add: shapes_def proper_create_def)
  then have "row_cost t \<le> 2 * length ?ns + 3" using length_filter_le [of IsIndexed "tb_fields t"] by (simp add: row_cost_def)
  then obtain j where "?k = j + length rows * row_cost t" using le_Suc_ex [of "length rows * row_cost t" ?k] by (metis add.commute mult_le_mono2)
  then have i: "store X limit (length rows * row_cost t + 0) (sm_DM ?s1) m1 hs1" using dms.inv_fewer c(2) by simp
  have lv: "live y (s\<lparr>sm_DM := d\<rparr>) = live y s" for y d by (simp add: live_def)
  have "\<exists>s2. t_Insert t x \<lparr>in_TableName = name, in_Values = [], in_ValuesList = rows\<rparr> ?s1 = Some (Ok (), s2) \<and>
        (\<forall>rd ord. plan t (rd_Where rd) ord \<longrightarrow>
          (\<exists>es' s3. t_Read sortSlice t x rd s2 = Some (answer sortSlice t rd es', s3) \<and> mset es' = mset (filter (\<lambda>e. evaluateWhere t e (rd_Where rd) = Ok True) es)) \<and>
          (\<forall>y ty. live y s = Ok ty \<and> t_XID ty \<noteq> x \<and> \<not> tm_IsCommitted (sm_TM s) x \<longrightarrow> (\<exists>s3. t_Read sortSlice t y rd s2 = Some (answer sortSlice t rd [], s3))))"
    if es: "list_all2 (storable t) rows es" "fresh_rows t es []" for es name
  proof -
    obtain us d2 m2 where r: "length us = length es" "insertRows t x rows ?s1 = Some (Ok (), ?s1\<lparr>sm_DM := d2\<rparr>)" "store X limit 0 d2 m2 hs1"
      "table_at m2 hs1 {} t (rev (map2 (new_version x) us es) @ [])"
      using dms.insertRows_versions [OF i lt _ c(4) es, of x tx] assms(5) lv by auto
    let ?s2 = "s\<lparr>sm_DM := d2\<rparr>" and ?vs = "rev (map2 (new_version x) us es) @ []"
    have i2: "store X limit 0 (sm_DM ?s2) m2 hs1" "idle (sm_ec ?s2)" using r(3) assms(3) by simp_all
    have sel: "\<exists>s3. t_Read sortSlice t y rd ?s2 = Some (answer sortSlice t rd (map v_row (filter (\<lambda>v. seen ?s2 ty v \<and> satisfies t (rd_Where rd) v) (sort_key ord ?vs))), s3)"
      if "live y s = Ok ty" "plan t (rd_Where rd) ord" for y ty rd ord
      using dms.t_Read_plan [OF i2(1) lt1 i2(2) _ r(4) that(2), of y ty sortSlice] that(1) lv by auto
    have own: "\<exists>es' s3. t_Read sortSlice t x rd ?s2 = Some (answer sortSlice t rd es', s3) \<and> mset es' = mset (filter (\<lambda>e. evaluateWhere t e (rd_Where rd) = Ok True) es)"
      if "plan t (rd_Where rd) ord" for rd ord
    proof -
      have "filter (\<lambda>v. seen ?s2 tx v \<and> satisfies t (rd_Where rd) v) (sort_key ord ?vs) = filter (satisfies t (rd_Where rd)) (sort_key ord ?vs)"
        using new_rows_seen(1) [OF _ assms(6)] by (intro filter_cong refl) auto
      then show ?thesis using sel [OF assms(5) that] new_rows_selected [OF r(1)] by auto
    qed
    have oth: "\<exists>s3. t_Read sortSlice t y rd ?s2 = Some (answer sortSlice t rd [], s3)"
      if "plan t (rd_Where rd) ord" "live y s = Ok ty" "t_XID ty \<noteq> x" "\<not> tm_IsCommitted (sm_TM s) x" for rd ord y ty
    proof -
      have "filter (\<lambda>v. seen ?s2 ty v \<and> satisfies t (rd_Where rd) v) (sort_key ord ?vs) = []"
        using new_rows_seen(2) [OF _ that(3), of _ us es ?s2] that(4) by (intro filter_False) auto
      then show ?thesis using sel [OF that(2,1)] by simp
    qed
    have "t_Insert t x \<lparr>in_TableName = name, in_Values = [], in_ValuesList = rows\<rparr> ?s1 = Some (Ok (), ?s2)" using r(2) by (simp add: t_Insert_def)
    then show ?thesis using own oth by blast
  qed
  then show ?thesis using c(1,5) by blast
qed

theorem create_insert_select_witness:
  "\<exists>s t s1 s2 es s3. sm_Begin 0 new_sm = (Ok 1, s) \<and> CreateTable NilUUID (people_create [''id'']) s = (Ok t, s1) \<and>
     t_Insert t 1 \<lparr>in_TableName = ''people'', in_Values = [], in_ValuesList = people_rows\<rparr> s1 = Some (Ok (), s2) \<and>
     t_Read (\<lambda>_ es. es) t 1 \<lparr>rd_TableName = ''people'', rd_Fields = [], rd_Aggregates = [], rd_Where = None, rd_OrderBy = [], rd_OrderDesc = False, rd_Limit = 0, rd_Offset = 0\<rparr> s2 =
       Some (printRows t es, s3) \<and> mset es = {#person 7 ''ann'', person 3 ''bob''#}"
proof -
  let ?rd = "\<lparr>rd_TableName = ''people'', rd_Fields = [], rd_Aggregates = [], rd_Where = None, rd_OrderBy = [], rd_OrderDesc = False, rd_Limit = 0, rd_Offset = 0\<rparr>"
  let ?c = "people_create [''id'']"
  obtain s tx where s: "sm_Begin 0 new_sm = (Ok 1, s)" "store {#} 8 1000 (sm_DM s) Map.empty {#}" "idle (sm_ec s)" "live SUPER_XID s = Ok (newTransaction 0 0 {})" "live 1 s = Ok tx"
    "t_XID tx = 1" by (rule first_transaction) (rule that)
  have n: "length (cr_FieldName ?c) = 2" "length people_rows = 2" by (simp_all add: people_create_def people_rows_def)
  have st: "store {#} 8 (length (cr_FieldName ?c) * 3 + (3 + length people_rows * (2 * length (cr_FieldName ?c) + 3))) (sm_DM s) Map.empty {#}"
    using dms.inv_fewer [of "{#}" 8 977 23] s(2) n by simp
  have sz: "size ({#} :: UUID multiset) + length (cr_FieldName ?c) + 2 < 8" using n by simp
  obtain t s1 where c: "CreateTable NilUUID ?c s = (Ok t, s1)" "map shape (tb_fields t) = shapes ?c"
    "\<forall>es name. list_all2 (storable t) people_rows es \<and> fresh_rows t es [] \<longrightarrow>
      (\<exists>s2. t_Insert t 1 \<lparr>in_TableName = name, in_Values = [], in_ValuesList = people_rows\<rparr> s1 = Some (Ok (), s2) \<and>
        (\<forall>rd ord. plan t (rd_Where rd) ord \<longrightarrow>
          (\<exists>es' s3. t_Read (\<lambda>_ es. es) t 1 rd s2 = Some (answer (\<lambda>_ es. es) t rd es', s3) \<and> mset es' = mset (filter (\<lambda>e. evaluateWhere t e (rd_Where rd) = Ok True) es)) \<and>
          (\<forall>y ty. live y s = Ok ty \<and> t_XID ty \<noteq> 1 \<and> \<not> tm_IsCommitted (sm_TM s) 1 \<longrightarrow> (\<exists>s3. t_Read (\<lambda>_ es. es) t y rd s2 = Some (answer (\<lambda>_ es. es) t rd [], s3)))))"
    using create_insert_select [OF st sz s(3-6) people_proper, of NilUUID "\<lambda>_ es. es"] by blast
  have pl: "plan t (rd_Where ?rd) v_uuid" and nm: "''name'' \<notin> set [''id'']" by (simp_all add: plan_def)
  obtain s2 where s2: "t_Insert t 1 \<lparr>in_TableName = ''people'', in_Values = [], in_ValuesList = people_rows\<rparr> s1 = Some (Ok (), s2)"
    "\<exists>es' s3. t_Read (\<lambda>_ es. es) t 1 ?rd s2 = Some (answer (\<lambda>_ es. es) t ?rd es', s3) \<and> mset es' = mset (filter (\<lambda>e. evaluateWhere t e (rd_Where ?rd) = Ok True) [person 7 ''ann'', person 3 ''bob''])"
    using c(3) people_storable [OF c(2)] pl by (meson nm)
  then show ?thesis using s(1) c(1) by (auto simp: answer_def evaluateWhere_def)
qed

text \<open>C12. Values never meet a type assertion they fail. A table created with different field names has fields of the three types and one row type; the rows an insert statement gives and the rows
  decoded from the disk have that type, and so has a row with one field updated; and on a row of that type encoding, printing, index keys, conditions and sorting do not panic.\<close>

theorem rows_well_typed:
  assumes "CreateTable next create s = (Ok t, s')" and "distinct (cr_FieldName create)"
  shows "strToEntry t values \<noteq> Panic \<and> (\<forall>e. strToEntry t values = Ok e \<longrightarrow> typed_row t e) \<and> (\<forall>raw e. parseEntry t raw = Ok e \<longrightarrow> typed_row t e) \<and>
    (\<forall>e. typed_row t e \<longrightarrow>
       (\<forall>f \<in> set (tb_fields t). \<forall>str v. StrToValue f str = Ok v \<longrightarrow> typed_row t (e(f_FName f \<mapsto> v))) \<and>
       is_ok (entryToRaw t e) \<and> is_ok (entryPrint t e) \<and> (\<forall>f \<in> set (tb_fields t). is_ok (ValueToUUID f (row_get e (f_FName f)))) \<and>
       (\<forall>wh. whole_where wh \<longrightarrow> is_ok (evaluateWhere t e wh))) \<and>
    (\<forall>es sortSlice name desc. (\<forall>e \<in> set es. typed_row t e) \<longrightarrow> is_ok (sortEntries sortSlice t es name desc))"
proof -
  have t: "typed_table t" by (rule CreateTable_typed [OF assms])
  have ty: "\<forall>f \<in> set (tb_fields t). isType (f_FType f)" using t by (simp add: typed_table_def)
  have "strToEntry t values \<noteq> Panic" using strToEntryLoop_no_panic by (auto simp: strToEntry_def)
  moreover have "is_ok (entryToRaw t e)" if "typed_row t e" for e
    using rowBytes_ok [of "tb_fields t" e] that by (simp add: entryToRaw_def typed_row_def)
  moreover have "is_ok (ValueToUUID f (row_get e (f_FName f)))" if "typed_row t e" "f \<in> set (tb_fields t)" for e f
    using typed_value_ok(2) that by (simp add: typed_row_def)
  moreover have "typed_row t (e(f_FName f \<mapsto> v))" if "typed_row t e" "f \<in> set (tb_fields t)" "StrToValue f str = Ok v" for e f str v
    using typed_row_update [OF t that(1,2)] StrToValue_type(1) [OF _ that(3)] ty that(2) by blast
  ultimately show ?thesis
    using strToEntry_typed [OF t] parseEntry_typed [OF t] entryPrint_ok evaluateWhere_ok [OF t] sortEntries_ok [OF t] by blast
qed

theorem rows_well_typed_witness:
  "\<exists>s t s1 e. sm_Begin 0 new_sm = (Ok 1, s) \<and> CreateTable NilUUID (people_create [''id'']) s = (Ok t, s1) \<and> strToEntry t [''7'', ''ann''] = Ok e \<and> typed_row t e \<and> is_ok (entryPrint t e)"
proof -
  let ?c = "people_create [''id'']"
  obtain s tx where s: "sm_Begin 0 new_sm = (Ok 1, s)" "store {#} 8 1000 (sm_DM s) Map.empty {#}" "live SUPER_XID s = Ok (newTransaction 0 0 {})" by (rule first_transaction) (rule that)
  have n: "length (cr_FieldName ?c) = 2" "distinct (cr_FieldName ?c)" by (simp_all add: people_create_def)
  have st: "store {#} 8 (length (cr_FieldName ?c) * field_cost + (3 + 991)) (sm_DM s) Map.empty {#}" using s(2) n by (simp add: field_cost_def)
  obtain t d1 where c: "CreateTable NilUUID ?c s = (Ok t, s\<lparr>sm_DM := d1\<rparr>)" "map shape (tb_fields t) = shapes ?c"
    using dms.CreateTable_store [OF st _ s(3) people_proper, of "{}" NilUUID thesis] n by auto
  have "storable t [''7'', ''ann''] (person 7 ''ann'')" using people_storable(1) [OF c(2)] by (simp add: people_rows_def)
  then have e: "strToEntry t [''7'', ''ann''] = Ok (person 7 ''ann'')" by (simp add: storable_def)
  note w = rows_well_typed [OF c(1) n(2), of "[''7'', ''ann'']"]
  then have "typed_row t (person 7 ''ann'')" using e by blast
  moreover from this have "is_ok (entryPrint t (person 7 ''ann''))" using w by blast
  ultimately show ?thesis using s(1) c(1) e by blast
qed

end
