(* ===== verification/Shapes.thy ===== *)
theory Shapes
  imports Queries
begin

text \<open>
  What of a table (\<^verbatim>\<open>tbm/table.go\<close>, \<^verbatim>\<open>tbm/field.go\<close>) depends on the shapes of its fields alone, that is on their names, their types and which of them are indexed: how rows are read from a statement, encoded and
  printed, what a condition selects, and how a statement finds its rows. Where a table lies and which handles it has does not matter for these. A table of given shapes that lies nowhere stands for all of them.
\<close>

section \<open>Tables that lie nowhere\<close>

definition model_field :: "string \<times> string \<times> bool \<Rightarrow> field" where
  "model_field sh = \<lparr>f_SelfUUID = NilUUID, f_FName = fst sh, f_FType = fst (snd sh), f_index = (if snd (snd sh) then 1 else NilUUID), f_bt = None\<rparr>"

definition model_table :: "(string \<times> string \<times> bool) list \<Rightarrow> table" where
  "model_table shs = \<lparr>tb_SelfUUID = NilUUID, tb_Name = [], tb_status = 0, tb_Next = NilUUID, tb_fields = map model_field shs, tb_rowIndex = NilUUID, tb_rowIndexBt = None\<rparr>"

abbreviation blank_field :: "field \<Rightarrow> field" where
  "blank_field f \<equiv> model_field (shape f)"

abbreviation blank :: "table \<Rightarrow> table" where
  "blank t \<equiv> model_table (map shape (tb_fields t))"

named_theorems shape_only \<open>what depends on the shapes of the fields alone\<close>

lemma shape_model [simp]: "shape (model_field sh) = sh"
  by (cases sh) (simp add: shape_def model_field_def IsIndexed_def NilUUID_def)

lemma blank_field_sel [simp, shape_only]: "f_FName (blank_field f) = f_FName f" "f_FType (blank_field f) = f_FType f" "IsIndexed (blank_field f) = IsIndexed f"
  using shape_model [of "shape f"] by (simp_all add: shape_def)

lemma model_fields [simp]: "tb_fields (model_table shs) = map model_field shs" "map (shape \<circ> model_field) shs = shs"
  by (simp_all add: model_table_def comp_def)

section \<open>What a table of given shapes does\<close>

lemma blank_value [shape_only]:
  "ParseValue (blank_field f) raw = ParseValue f raw" "ValueToUUID (blank_field f) v = ValueToUUID f v" "StrToValue (blank_field f) str = StrToValue f str" "ValueToRaw (blank_field f) v = ValueToRaw f v"
  "ValuePrint (blank_field f) v = ValuePrint f v" "valueCompare (blank_field f) v w = valueCompare f v w" "CalExp (blank_field f) exp = CalExp f exp"
  by (simp_all add: ParseValue_def ValueToUUID_def StrToValue_def ValueToRaw_def ValuePrint_def valueCompare_def CalExp_def)

lemma blank_named [shape_only]: "field_named (blank t) n = map_option blank_field (field_named t n)"
proof -
  have "find (\<lambda>f. f_FName f = n) (map blank_field fs) = map_option blank_field (find (\<lambda>f. f_FName f = n) fs)" for fs by (induction fs) simp_all
  then show ?thesis by (simp add: field_named_def comp_def)
qed

lemma blank_parse [shape_only]: "parseEntry (blank t) raw = parseEntry t raw"
proof -
  have "parseEntryLoop (map blank_field fs) raw pos e = parseEntryLoop fs raw pos e" for fs pos e
  proof (induction fs arbitrary: pos e)
    case (Cons f fs)
    have "ParseValue (blank_field f) = ParseValue f" by (rule ext) (rule blank_value)
    then show ?case by (simp only: parseEntryLoop.simps list.map blank_field_sel Cons.IH)
  qed simp
  then show ?thesis by (simp add: parseEntry_def comp_def)
qed

lemma blank_encode [shape_only]: "entryToRaw (blank t) e = entryToRaw t e"
proof -
  have "rowBytes (map blank_field fs) e raw = rowBytes fs e raw" for fs raw by (induction fs arbitrary: raw) (simp_all add: shape_only)
  then show ?thesis by (simp add: entryToRaw_def comp_def)
qed

lemma blank_entry [shape_only]: "strToEntry (blank t) values = strToEntry t values"
proof -
  have "strToEntryLoop (map blank_field fs) vals e = strToEntryLoop fs vals e" for fs vals e by (induction fs arbitrary: vals e) (simp_all add: shape_only)
  then show ?thesis by (simp add: strToEntry_def comp_def)
qed

lemma blank_print [shape_only]: "printRows (blank t) es = printRows t es"
proof -
  have "printFields (map blank_field fs) e = printFields fs e" for fs e by (induction fs) (simp_all add: shape_only)
  then have "entryPrint (blank t) e = entryPrint t e" for e by (simp add: entryPrint_def comp_def)
  then show ?thesis by (induction es) simp_all
qed

lemma blank_where [shape_only]: "evaluateWhere (blank t) e wh = evaluateWhere t e wh"
proof -
  have same: "matchSingleExp (blank t) e x = matchSingleExp t e x" for x
    by (simp add: matchSingleExp_def shape_only split: option.split res.split)
  show ?thesis unfolding evaluateWhere_def same ..
qed

lemma blank_sort [shape_only]: "sortEntries sortSlice (blank t) es n desc = sortEntries sortSlice t es n desc"
  by (simp add: sortEntries_def shape_only cmp_of_def split: option.split)

lemma blank_answer [shape_only]: "answer sortSlice (blank t) rd es = answer sortSlice t rd es"
  by (simp add: answer_def shape_only)

lemma blank_key [shape_only]: "keyOf (blank_field f) = keyOf f"
  by (rule ext) (simp add: keyOf_def shape_only)

lemma blank_plan [shape_only]: "plan (blank t) wh ord \<longleftrightarrow> plan t wh ord"
proof -
  have "(\<exists>g. field_named (blank t) n = Some g \<and> P g) \<longleftrightarrow> (\<exists>f. field_named t n = Some f \<and> P (blank_field f))" for n P
    by (auto simp: blank_named)
  then show ?thesis unfolding plan_def by (simp add: shape_only)
qed

lemma blank_typed [shape_only]: "typed_table (blank t) = typed_table t"
  by (simp add: typed_table_def comp_def)

lemma blank_indexed [shape_only]: "indexed (blank t) = map blank_field (indexed t)"
  by (simp add: filter_map comp_def)

lemma blank_storable [shape_only]: "storable (blank t) values e = storable t values e"
  by (simp add: storable_def shape_only)

lemma blank_fresh [shape_only]: "fresh_rows (blank t) es vs = fresh_rows t es vs"
proof -
  have "(\<forall>g \<in> set (indexed (blank t)). P g) = (\<forall>f \<in> set (indexed t). P (blank_field f))" for P unfolding blank_indexed by simp
  then show ?thesis unfolding fresh_rows_def by (simp only: shape_only)
qed

lemma blank_cost [shape_only]: "row_cost (blank t) = row_cost t"
  unfolding row_cost_def blank_indexed by simp

lemma blank_fits [shape_only]: "fits_page (blank t) e = fits_page t e"
  by (simp add: fits_page_def shape_only)

text \<open>Two tables of the same shapes agree on all of these.\<close>

lemma same_shapes:
  assumes "map shape (tb_fields t') = map shape (tb_fields t)"
  shows "parseEntry t' = parseEntry t" "typed_table t' = typed_table t" "evaluateWhere t' = evaluateWhere t" "answer sortSlice t' = answer sortSlice t" "plan t' = plan t"
    "storable t' = storable t" "fresh_rows t' = fresh_rows t" "row_cost t' = row_cost t" "fits_page t' = fits_page t" "satisfies t' = satisfies t" "length (tb_fields t') = length (tb_fields t)"
proof -
  show "evaluateWhere t' = evaluateWhere t" using assms blank_where unfolding fun_eq_iff by metis
  then show "satisfies t' = satisfies t" by (simp add: satisfies_def fun_eq_iff)
  show "length (tb_fields t') = length (tb_fields t)" using arg_cong [OF assms, of length] by simp
qed (use assms blank_parse blank_typed blank_answer blank_plan blank_storable blank_fresh blank_cost blank_fits in \<open>unfold fun_eq_iff, metis+\<close>)

lemma same_shape_key: "shape f = shape g \<Longrightarrow> keyOf f = keyOf g"
  using blank_key by metis

end
