(* ===== verification/Relations.thy ===== *)
theory Relations
  imports Shapes Executor
begin

text \<open>
  What a session with the database promises, said without pages, versions, locks and indexes. The database is a list of relations; a row of a relation is there in the state that was committed last, in the state of the
  transaction that runs, in both or in neither (rows that are in neither are remembered because their keys stay in the indexes). Requests are texts of statements (\<open>Execute\<close> of \<^verbatim>\<open>server/executor.go\<close>) and restarts
  of the server (\<^verbatim>\<open>cmd/launcher.go\<close>). A request has an effect on the relations and answers that are allowed. \<open>Database\<close> shows that the program keeps this promise.
\<close>

section \<open>The state\<close>

record relation =
  rel_name :: string
  rel_shapes :: "(string \<times> string \<times> bool) list"
  rel_rows :: "(row \<times> bool \<times> bool) multiset"

text \<open>Besides the relations: whether the session is in a transaction, how many pages may still be created, and how many transactions may still begin.\<close>

record database =
  db_tables :: "relation list"
  db_tx :: bool
  db_room :: nat
  db_ids :: nat

definition rel_of :: "database \<Rightarrow> string \<Rightarrow> relation option" where
  "rel_of A nm = find (\<lambda>R. rel_name R = nm) (db_tables A)"

definition on_rel :: "string \<Rightarrow> (relation \<Rightarrow> relation) \<Rightarrow> database \<Rightarrow> database" where
  "on_rel nm f A = A\<lparr>db_tables := map (\<lambda>R. if rel_name R = nm then f R else R) (db_tables A)\<rparr>"

abbreviation rel_table :: "relation \<Rightarrow> table" where
  "rel_table R \<equiv> model_table (rel_shapes R)"

section \<open>Statements\<close>

definition chosen :: "relation \<Rightarrow> Where option \<Rightarrow> row \<Rightarrow> bool" where
  "chosen R wh e \<longleftrightarrow> evaluateWhere (rel_table R) e wh = Ok True"

text \<open>The rows that a statement with this condition finds.\<close>

definition current :: "relation \<Rightarrow> Where option \<Rightarrow> row multiset" where
  "current R wh = image_mset fst (filter_mset (\<lambda>(e, b, n). n \<and> chosen R wh e) (rel_rows R))"

definition add_rows :: "row multiset \<Rightarrow> relation \<Rightarrow> relation" where
  "add_rows es R = R\<lparr>rel_rows := image_mset (\<lambda>e. (e, False, True)) es + rel_rows R\<rparr>"

definition hide_rows :: "Where option \<Rightarrow> relation \<Rightarrow> relation" where
  "hide_rows wh R = R\<lparr>rel_rows := image_mset (\<lambda>(e, b, n). (e, b, n \<and> \<not> chosen R wh e)) (rel_rows R)\<rparr>"

definition insert_values :: "Insert \<Rightarrow> string list list" where
  "insert_values ins = (if in_ValuesList ins = [] \<and> in_Values ins \<noteq> [] then [in_Values ins] else in_ValuesList ins)"

definition entry_of :: "relation \<Rightarrow> string list \<Rightarrow> row" where
  "entry_of R vals = (case strToEntry (rel_table R) vals of Ok e \<Rightarrow> e | _ \<Rightarrow> Map.empty)"

definition assigned :: "relation \<Rightarrow> Update \<Rightarrow> row \<Rightarrow> row" where
  "assigned R upd e = (case field_named (rel_table R) (up_FieldName upd) of None \<Rightarrow> e
     | Some fd \<Rightarrow> (case StrToValue fd (up_Value upd) of Ok v \<Rightarrow> set_field fd v e | _ \<Rightarrow> e))"

definition new_relation :: "Create \<Rightarrow> relation" where
  "new_relation c = \<lparr>rel_name = cr_TableName c, rel_shapes = shapes c, rel_rows = {#}\<rparr>"

text \<open>A table is there as soon as it is created, whatever becomes of the transaction.\<close>

definition effect :: "statement \<Rightarrow> database \<Rightarrow> database" where
  "effect st A =
     (case st of
        StCreate c \<Rightarrow> if rel_of A (cr_TableName c) = None then A\<lparr>db_tables := new_relation c # db_tables A\<rparr> else A
      | StInsert ins \<Rightarrow> on_rel (in_TableName ins) (\<lambda>R. add_rows (image_mset (entry_of R) (mset (insert_values ins))) R) A
      | StDelete del \<Rightarrow> on_rel (dl_TableName del) (hide_rows (dl_Where del)) A
      | StUpdate upd \<Rightarrow> on_rel (up_TableName upd) (\<lambda>R. add_rows (image_mset (assigned R upd) (current R (up_Where upd))) (hide_rows (up_Where upd) R)) A
      | _ \<Rightarrow> A)"

definition count_answer :: "string \<Rightarrow> nat \<Rightarrow> bytes res" where
  "count_answer verb k = Ok (str_bytes (verb @ Uint32ToStr (of_nat k)))"

definition on_existing :: "database \<Rightarrow> string \<Rightarrow> (relation \<Rightarrow> bytes res \<Rightarrow> bool) \<Rightarrow> bytes res \<Rightarrow> bool" where
  "on_existing A nm P out \<longleftrightarrow> (case rel_of A nm of None \<Rightarrow> out = Err ErrNoThatTable | Some R \<Rightarrow> P R out)"

definition answers :: "tenv \<Rightarrow> statement \<Rightarrow> database \<Rightarrow> bytes res \<Rightarrow> bool" where
  "answers te st A out \<longleftrightarrow>
     (case st of
        StCreate c \<Rightarrow> out = (if rel_of A (cr_TableName c) = None then Ok (str_bytes (''create '' @ cr_TableName c)) else Err (ErrDuplicatedTable (cr_TableName c)))
      | StInsert ins \<Rightarrow> on_existing A (in_TableName ins) (\<lambda>R out. out = Ok (str_bytes ''Insert'')) out
      | StDelete del \<Rightarrow> on_existing A (dl_TableName del) (\<lambda>R out. out = count_answer ''Delete '' (size (current R (dl_Where del)))) out
      | StUpdate upd \<Rightarrow> on_existing A (up_TableName upd) (\<lambda>R out. out = count_answer ''Update '' (size (current R (up_Where upd)))) out
      | StRead rd \<Rightarrow> on_existing A (rd_TableName rd) (\<lambda>R out. \<exists>es r. mset es = current R (rd_Where rd) \<and> answer (te_sort te) (rel_table R) rd es = Ok r \<and> out = Ok (str_bytes r)) out
      | _ \<Rightarrow> False)"

section \<open>Resources\<close>

definition cost :: "statement \<Rightarrow> database \<Rightarrow> nat" where
  "cost st A =
     (case st of
        StCreate c \<Rightarrow> if rel_of A (cr_TableName c) = None then length (cr_FieldName c) * field_cost + 3 else 0
      | StInsert ins \<Rightarrow> (case rel_of A (in_TableName ins) of None \<Rightarrow> 0 | Some R \<Rightarrow> length (insert_values ins) * row_cost (rel_table R))
      | StUpdate upd \<Rightarrow> (case rel_of A (up_TableName upd) of None \<Rightarrow> 0 | Some R \<Rightarrow> size (rel_rows R) * 3)
      | _ \<Rightarrow> 0)"

text \<open>The handles that the tables keep.\<close>

definition load :: "database \<Rightarrow> nat" where
  "load A = sum_list (map (\<lambda>R. length (rel_shapes R) + 1) (db_tables A))"

section \<open>Which statements are covered\<close>

text \<open>A condition that finds its rows by a scan or by an index.\<close>

definition findable :: "table \<Rightarrow> Where option \<Rightarrow> bool" where
  "findable t wh \<longleftrightarrow> (\<exists>ord. plan t wh ord)"

text \<open>The keys of the new rows are new in every index.\<close>

definition fresh_keys :: "relation \<Rightarrow> row list \<Rightarrow> bool" where
  "fresh_keys R es \<longleftrightarrow> (\<forall>f \<in> set (indexed (rel_table R)). distinct (map (keyOf f) es) \<and>
     (\<forall>e \<in> set es. keyOf f e < UUID_INF \<and> (\<forall>r \<in># rel_rows R. keyOf f e \<noteq> keyOf f (fst r))))"

definition assignable :: "relation \<Rightarrow> Update \<Rightarrow> bool" where
  "assignable R upd \<longleftrightarrow> (case field_named (rel_table R) (up_FieldName upd) of None \<Rightarrow> False
     | Some fd \<Rightarrow> (case StrToValue fd (up_Value upd) of Ok v \<Rightarrow> \<forall>r \<in># rel_rows R. fits_page (rel_table R) (set_field fd v (fst r)) | _ \<Rightarrow> False))"

definition for_existing :: "database \<Rightarrow> string \<Rightarrow> (relation \<Rightarrow> bool) \<Rightarrow> bool" where
  "for_existing A nm P \<longleftrightarrow> (case rel_of A nm of None \<Rightarrow> True | Some R \<Rightarrow> P R)"

definition covered :: "nat \<Rightarrow> statement \<Rightarrow> database \<Rightarrow> bool" where
  "covered limit st A \<longleftrightarrow> cost st A \<le> db_room A \<and>
     (case st of
        StCreate c \<Rightarrow> rel_of A (cr_TableName c) = None \<longrightarrow> proper_create c \<and> load A + length (cr_FieldName c) + 2 < limit
      | StInsert ins \<Rightarrow> for_existing A (in_TableName ins) (\<lambda>R. (\<forall>vals \<in> set (insert_values ins). storable (rel_table R) vals (entry_of R vals)) \<and> fresh_keys R (map (entry_of R) (insert_values ins)))
      | StDelete del \<Rightarrow> for_existing A (dl_TableName del) (\<lambda>R. findable (rel_table R) (dl_Where del))
      | StUpdate upd \<Rightarrow> for_existing A (up_TableName upd) (\<lambda>R. findable (rel_table R) (up_Where upd) \<and> indexed (rel_table R) = [] \<and> assignable R upd)
      | StRead rd \<Rightarrow> 0 \<le> rd_Offset rd \<and> rd_Offset rd + rd_Limit rd < 2 ^ 63 \<and> for_existing A (rd_TableName rd) (\<lambda>R. findable (rel_table R) (rd_Where rd))
      | _ \<Rightarrow> False)"

section \<open>Transactions\<close>

definition map_rows :: "(row \<times> bool \<times> bool \<Rightarrow> row \<times> bool \<times> bool) \<Rightarrow> database \<Rightarrow> database" where
  "map_rows f A = A\<lparr>db_tables := map (\<lambda>R. R\<lparr>rel_rows := image_mset f (rel_rows R)\<rparr>) (db_tables A)\<rparr>"

definition start_tx :: "database \<Rightarrow> database" where
  "start_tx A = A\<lparr>db_tx := True, db_ids := db_ids A - 1\<rparr>"

definition commit_tx :: "database \<Rightarrow> database" where
  "commit_tx A = (map_rows (\<lambda>(e, b, n). (e, n, n)) A)\<lparr>db_tx := False\<rparr>"

definition abort_tx :: "database \<Rightarrow> database" where
  "abort_tx A = (map_rows (\<lambda>(e, b, n). (e, b, b)) A)\<lparr>db_tx := False\<rparr>"

definition perform :: "statement \<Rightarrow> database \<Rightarrow> database" where
  "perform st A = (effect st A)\<lparr>db_room := db_room A - cost st A\<rparr>"

section \<open>Requests\<close>

datatype request = Sql bytes | Reopen bytes int

definition after_statement :: "statement \<Rightarrow> database \<Rightarrow> database" where
  "after_statement st A =
     (case st of
        StBegin rr \<Rightarrow> if db_tx A then A else start_tx A
      | StCommit \<Rightarrow> if db_tx A then commit_tx A else A
      | StAbort \<Rightarrow> if db_tx A then abort_tx A else A
      | _ \<Rightarrow> if db_tx A then perform st A else commit_tx (perform st (start_tx A)))"

definition statement_answers :: "tenv \<Rightarrow> statement \<Rightarrow> database \<Rightarrow> bytes res \<Rightarrow> bool" where
  "statement_answers te st A out \<longleftrightarrow>
     (case st of
        StBegin rr \<Rightarrow> out = (if db_tx A then Err ErrNoNestedTransaction else Ok (str_bytes ''begin''))
      | StCommit \<Rightarrow> out = (if db_tx A then Ok (str_bytes ''commit'') else Err ErrNotInAnyTransaction)
      | StAbort \<Rightarrow> out = (if db_tx A then Ok (str_bytes ''abort'') else Err ErrNotInAnyTransaction)
      | _ \<Rightarrow> answers te st A out)"

text \<open>A restart ends a transaction that runs like an abort.\<close>

definition after :: "request \<Rightarrow> database \<Rightarrow> database" where
  "after req A =
     (case req of
        Sql q \<Rightarrow> (case Parse q of Some (Ok st) \<Rightarrow> after_statement st A | _ \<Rightarrow> A)
      | Reopen rnd mem \<Rightarrow> abort_tx A)"

definition allowed :: "tenv \<Rightarrow> request \<Rightarrow> database \<Rightarrow> bytes res \<Rightarrow> bool" where
  "allowed te req A out \<longleftrightarrow>
     (case req of
        Sql q \<Rightarrow> (case Parse q of Some (Ok st) \<Rightarrow> statement_answers te st A out | Some (Err x) \<Rightarrow> out = Err x | _ \<Rightarrow> False)
      | Reopen rnd mem \<Rightarrow> out = Ok [])"

definition accepts :: "nat \<Rightarrow> request \<Rightarrow> database \<Rightarrow> bool" where
  "accepts limit req A \<longleftrightarrow>
     (case req of
        Sql q \<Rightarrow> (case Parse q of Some (Ok st) \<Rightarrow> (control st \<or> covered limit st A) \<and> 0 < db_ids A | Some (Err x) \<Rightarrow> True | _ \<Rightarrow> False)
      | Reopen rnd mem \<Rightarrow> 10 \<le> mem div int PAGE_SIZE \<and> mem div int PAGE_SIZE < 2 ^ 32 \<and> int limit + 2 < mem div int PAGE_SIZE \<and> length rnd = P1_LEN_VC)"

section \<open>Histories\<close>

text \<open>Sequences of requests, for a program and for what it promises.\<close>

fun run_all :: "('r \<Rightarrow> 's \<Rightarrow> ('o \<times> 's) option) \<Rightarrow> 'r list \<Rightarrow> 's \<Rightarrow> ('o list \<times> 's) option" where
  "run_all step [] s = Some ([], s)"
| "run_all step (r # rs) s = (case step r s of None \<Rightarrow> None | Some (out, s) \<Rightarrow> map_option (\<lambda>(outs, s). (out # outs, s)) (run_all step rs s))"

fun accepts_all :: "('r \<Rightarrow> 'a \<Rightarrow> bool) \<Rightarrow> ('r \<Rightarrow> 'a \<Rightarrow> 'a) \<Rightarrow> 'r list \<Rightarrow> 'a \<Rightarrow> bool" where
  "accepts_all acc aft [] a \<longleftrightarrow> True"
| "accepts_all acc aft (r # rs) a \<longleftrightarrow> acc r a \<and> accepts_all acc aft rs (aft r a)"

fun allows_all :: "('r \<Rightarrow> 'a \<Rightarrow> 'o \<Rightarrow> bool) \<Rightarrow> ('r \<Rightarrow> 'a \<Rightarrow> 'a) \<Rightarrow> 'r list \<Rightarrow> 'a \<Rightarrow> 'o list \<Rightarrow> bool" where
  "allows_all alw aft [] a outs \<longleftrightarrow> outs = []"
| "allows_all alw aft (r # rs) a outs \<longleftrightarrow> (case outs of [] \<Rightarrow> False | out # outs \<Rightarrow> alw r a out \<and> allows_all alw aft rs (aft r a) outs)"

text \<open>A program that keeps its promise for one request keeps it for all of them.\<close>

locale simulation =
  fixes step :: "'r \<Rightarrow> 's \<Rightarrow> ('o \<times> 's) option" and acc :: "'r \<Rightarrow> 'a \<Rightarrow> bool" and aft :: "'r \<Rightarrow> 'a \<Rightarrow> 'a" and alw :: "'r \<Rightarrow> 'a \<Rightarrow> 'o \<Rightarrow> bool" and rel :: "'a \<Rightarrow> 's \<Rightarrow> bool"
  assumes one_request: "rel a s \<Longrightarrow> acc r a \<Longrightarrow> \<exists>out s'. step r s = Some (out, s') \<and> alw r a out \<and> rel (aft r a) s'"
begin

lemma all_requests: "rel a s \<Longrightarrow> accepts_all acc aft rs a \<Longrightarrow> \<exists>outs s'. run_all step rs s = Some (outs, s') \<and> allows_all alw aft rs a outs \<and> rel (fold aft rs a) s'"
proof (induction rs arbitrary: a s)
  case (Cons r rs)
  obtain out s1 where o: "step r s = Some (out, s1)" "alw r a out" "rel (aft r a) s1" using one_request [of a s r] Cons.prems by auto
  obtain outs s2 where "run_all step rs s1 = Some (outs, s2)" "allows_all alw aft rs (aft r a) outs" "rel (fold aft rs (aft r a)) s2" using Cons.IH [OF o(3)] Cons.prems(2) by auto
  then show ?case using o by auto
qed auto

end

end
