(* ===== verification/Catalog.thy ===== *)
theory Catalog
  imports Queries
begin

text \<open>
  Several tables in one store. Each table (\<^verbatim>\<open>tbm/table.go\<close>) occupies items of its own: its records, its versions and the items of its indexes. The items of the tables of a database are apart, so a statement on one
  table leaves the others as they are.
\<close>

section \<open>The items of a forest\<close>

fun trees :: "(UUID \<rightharpoonup> bytes) \<Rightarrow> UUID multiset \<Rightarrow> (bPlusTree \<times> slot list) list \<Rightarrow> UUID set \<Rightarrow> bool" where
  "trees m hs [] G \<longleftrightarrow> G = {}"
| "trees m hs (T # Ts) G \<longleftrightarrow> (\<exists>F G'. plant m hs T F \<and> trees m hs Ts G' \<and> F \<inter> G' = {} \<and> G = F \<union> G')"

lemma forest_trees: "forest m hs S Ts \<longleftrightarrow> (\<exists>G. trees m hs Ts G \<and> G \<inter> S = {})"
proof (induction Ts arbitrary: S)
  case (Cons T Ts)
  have "forest m hs S (T # Ts) \<longleftrightarrow> (\<exists>F G'. plant m hs T F \<and> F \<inter> S = {} \<and> trees m hs Ts G' \<and> G' \<inter> (S \<union> F) = {})" by (auto simp: Cons.IH)
  also have "\<dots> \<longleftrightarrow> (\<exists>F G'. plant m hs T F \<and> trees m hs Ts G' \<and> F \<inter> G' = {} \<and> (F \<union> G') \<inter> S = {})" by blast
  also have "\<dots> \<longleftrightarrow> (\<exists>G. trees m hs (T # Ts) G \<and> G \<inter> S = {})" by auto
  finally show ?case .
qed simp

lemma trees_stored: "trees m hs Ts G \<Longrightarrow> v \<in> G \<Longrightarrow> m v \<noteq> None"
  by (induction Ts arbitrary: G) (auto dest: plant_stored)

lemma trees_frame: "trees m hs Ts G \<Longrightarrow> \<forall>v \<in> G. m' v = m v \<Longrightarrow> set_mset hs \<subseteq> set_mset hs' \<Longrightarrow> trees m' hs' Ts G"
proof (induction Ts arbitrary: G)
  case (Cons T Ts)
  then obtain F G' where F: "plant m hs T F" "trees m hs Ts G'" "F \<inter> G' = {}" "G = F \<union> G'" by auto
  have "plant m' hs' T F" by (rule plant_frame [OF F(1) _ Cons.prems(3)]) (use Cons.prems(2) F(4) in blast)
  moreover have "trees m' hs' Ts G'" by (rule Cons.IH [OF F(2) _ Cons.prems(3)]) (use Cons.prems(2) F(4) in blast)
  ultimately show ?case using F(3,4) by auto
qed simp

section \<open>The items of a table\<close>

abbreviation trees_of :: "table \<Rightarrow> version list \<Rightarrow> (bPlusTree \<times> slot list) list" where
  "trees_of t vs \<equiv> map (field_tree vs) (indexed t) @ [row_tree t vs]"

definition occupies :: "(UUID \<rightharpoonup> bytes) \<Rightarrow> UUID multiset \<Rightarrow> table \<times> version list \<Rightarrow> UUID set \<Rightarrow> bool" where
  "occupies m hs tv F \<longleftrightarrow> (case tv of (t, vs) \<Rightarrow>
     table_at m hs (metas t) t vs \<and> table_saved m t \<and> (\<exists>G. trees m hs (trees_of t vs) G \<and> G \<inter> (metas t \<union> v_uuid ` set vs) = {} \<and> F = metas t \<union> v_uuid ` set vs \<union> G))"

lemma metas_stored: "table_saved m t \<Longrightarrow> v \<in> metas t \<Longrightarrow> m v \<noteq> None"
  by (auto simp: table_saved_def metas_def field_saved_def)

lemma occupies_stored: "occupies m hs tv F \<Longrightarrow> v \<in> F \<Longrightarrow> m v \<noteq> None"
  by (auto simp: occupies_def split: prod.splits dest: trees_stored metas_stored table_stored)

text \<open>A table is there for a client that keeps the items in \<open>K\<close> safe, exactly if what it occupies is apart from them.\<close>

lemma occupies_table_at:
  assumes "occupies m hs (t, vs) F" and "K \<inter> F = {}" and "\<forall>v \<in> K. m v \<noteq> None"
  shows "table_at m hs (K \<union> metas t) t vs" and "table_saved m t" and "K \<inter> metas t = {}"
proof -
  obtain G where G: "trees m hs (trees_of t vs) G" "G \<inter> (metas t \<union> v_uuid ` set vs) = {}" "F = metas t \<union> v_uuid ` set vs \<union> G" and at: "table_at m hs (metas t) t vs" "table_saved m t"
    using assms(1) by (auto simp: occupies_def)
  have "forest m hs (K \<union> metas t \<union> v_uuid ` set vs) (trees_of t vs)" unfolding forest_trees using G assms(2) by blast
  moreover have "(K \<union> metas t) \<inter> v_uuid ` set vs = {}" using assms(2) G(3) at(1) unfolding table_at_def by blast
  ultimately show "table_at m hs (K \<union> metas t) t vs" using at(1) assms(3) unfolding table_at_def by blast
  show "table_saved m t" "K \<inter> metas t = {}" using at(2) assms(2) G(3) by auto
qed

lemma table_at_occupies:
  assumes "table_at m hs (K \<union> metas t) t vs" and "table_saved m t" and "metas t \<inter> K = {}"
  obtains F where "occupies m hs (t, vs) F" "F \<inter> K = {}"
proof -
  have "forest m hs (K \<union> metas t \<union> v_uuid ` set vs) (trees_of t vs)" using assms(1) by (simp only: table_at_def)
  then obtain G where G: "trees m hs (trees_of t vs) G" "G \<inter> (K \<union> metas t \<union> v_uuid ` set vs) = {}" unfolding forest_trees by blast
  have at: "table_at m hs (metas t) t vs" using dms.table_at_fewer [of m hs "metas t" K t vs] assms(1) by (simp add: Un_commute)
  have "(K \<union> metas t) \<inter> v_uuid ` set vs = {}" using assms(1) unfolding table_at_def by blast
  then show thesis using that [of "metas t \<union> v_uuid ` set vs \<union> G"] G at assms(2,3) unfolding occupies_def by blast
qed

lemma occupies_frame:
  assumes "occupies m hs tv F" and "\<forall>v \<in> F. m' v = m v" and "set_mset hs \<subseteq> set_mset hs'"
  shows "occupies m' hs' tv F"
proof -
  obtain t vs where tv: "tv = (t, vs)" by fastforce
  then obtain G where G: "trees m hs (trees_of t vs) G" "G \<inter> (metas t \<union> v_uuid ` set vs) = {}" "F = metas t \<union> v_uuid ` set vs \<union> G" and at: "table_at m hs (metas t) t vs" "table_saved m t"
    using assms(1) by (auto simp: occupies_def)
  have tr: "trees m' hs' (trees_of t vs) G" by (rule trees_frame [OF G(1) _ assms(3)]) (use assms(2) G(3) in blast)
  have ver: "version_at m' t v" if "v \<in> set vs" for v using at(1) that assms(2) G(3) by (auto simp: table_at_def version_at_def)
  have "forest m' hs' (metas t \<union> v_uuid ` set vs) (trees_of t vs)" unfolding forest_trees using tr G(2) by blast
  moreover have "\<forall>v \<in> metas t. m' v \<noteq> None" using metas_stored [OF at(2)] assms(2) G(3) by simp
  ultimately have "table_at m' hs' (metas t) t vs" using at(1) ver unfolding table_at_def by blast
  moreover have "table_saved m' t" by (rule table_saved_frame [OF at(2)]) (use assms(2) G(3) in blast)
  ultimately show ?thesis using tr G(2,3) tv by (auto simp: occupies_def)
qed

section \<open>Tables side by side\<close>

definition apart_sets :: "UUID set list \<Rightarrow> bool" where
  "apart_sets Fs \<longleftrightarrow> sorted_wrt (\<lambda>A B. A \<inter> B = {}) Fs"

definition tables_apart :: "(UUID \<rightharpoonup> bytes) \<Rightarrow> UUID multiset \<Rightarrow> (table \<times> version list) list \<Rightarrow> bool" where
  "tables_apart m hs db \<longleftrightarrow> (\<exists>Fs. list_all2 (occupies m hs) db Fs \<and> apart_sets Fs)"

lemma list_all2_frame:
  assumes "list_all2 (occupies m hs) db Fs" and "\<forall>v \<in> \<Union> (set Fs). m' v = m v" and "set_mset hs \<subseteq> set_mset hs'"
  shows "list_all2 (occupies m' hs') db Fs"
  by (rule list.rel_mono_strong [OF assms(1)]) (use occupies_frame assms(2,3) in blast)

lemma list_all2_stored:
  assumes "list_all2 (occupies m hs) db Fs" and "v \<in> \<Union> (set Fs)"
  shows "m v \<noteq> None"
proof -
  obtain H where H: "H \<in> set Fs" "v \<in> H" using assms(2) by blast
  then obtain tv where "occupies m hs tv H" using assms(1) unfolding list_all2_conv_all_nth in_set_conv_nth by metis
  then show ?thesis using occupies_stored H(2) by blast
qed

text \<open>Looking at one table among others: what the others occupy is safe from it, and it may change as long as it keeps that safe.\<close>

lemma apart_focus:
  assumes "tables_apart m hs (xs @ (t, vs) # ys)"
  obtains K where "table_at m hs (K \<union> metas t) t vs" "table_saved m t"
    "\<And>m' hs' vs'. \<forall>v \<in> K \<union> metas t. m' v = m v \<Longrightarrow> set_mset hs \<subseteq> set_mset hs' \<Longrightarrow> table_at m' hs' (K \<union> metas t) t vs' \<Longrightarrow> tables_apart m' hs' (xs @ (t, vs') # ys)"
proof -
  obtain Gs F Hs where f: "list_all2 (occupies m hs) xs Gs" "occupies m hs (t, vs) F" "list_all2 (occupies m hs) ys Hs" "apart_sets (Gs @ F # Hs)"
    using assms by (auto simp: tables_apart_def list_all2_append1 list_all2_Cons1)
  let ?K = "\<Union> (set (Gs @ Hs))"
  have st: "m v \<noteq> None" if "v \<in> ?K" for v using list_all2_stored [OF list_all2_appendI [OF f(1,3)]] that by blast
  have ap: "\<forall>G \<in> set Gs. G \<inter> F = {}" "\<forall>H \<in> set Hs. F \<inter> H = {}" "\<forall>G \<in> set Gs. \<forall>H \<in> set Hs. G \<inter> H = {}" "apart_sets Gs" "apart_sets Hs"
    using f(4) by (auto simp: apart_sets_def sorted_wrt_append)
  have KF: "?K \<inter> F = {}" using ap(1,2) by auto
  note at = occupies_table_at [OF f(2) KF]
  have sv: "table_saved m t" and Km: "metas t \<inter> ?K = {}" using at(2,3) st by blast+
  show thesis
  proof (rule that [of ?K])
    show "table_at m hs (?K \<union> metas t) t vs" using at(1) st by blast
    show "table_saved m t" by (fact sv)
    fix m' hs' vs' assume a: "\<forall>v \<in> ?K \<union> metas t. m' v = m v" "set_mset hs \<subseteq> set_mset hs'" "table_at m' hs' (?K \<union> metas t) t vs'"
    have "table_saved m' t" by (rule table_saved_frame [OF sv]) (use a(1) in blast)
    then obtain F' where F': "occupies m' hs' (t, vs') F'" "F' \<inter> ?K = {}" using table_at_occupies [OF a(3) _ Km] by blast
    have "list_all2 (occupies m' hs') xs Gs" "list_all2 (occupies m' hs') ys Hs" using list_all2_frame [OF f(1) _ a(2), of m'] list_all2_frame [OF f(3) _ a(2), of m'] a(1) by auto
    then have "list_all2 (occupies m' hs') (xs @ (t, vs') # ys) (Gs @ F' # Hs)" using F'(1) by (simp add: list_all2_appendI)
    moreover have "apart_sets (Gs @ F' # Hs)" using ap(3-5) F'(2) by (auto simp: apart_sets_def sorted_wrt_append)
    ultimately show "tables_apart m' hs' (xs @ (t, vs') # ys)" unfolding tables_apart_def by blast
  qed
qed

text \<open>A table that is created next to the others.\<close>

lemma apart_new:
  assumes "tables_apart m hs db"
  obtains K where "\<forall>v \<in> K. m v \<noteq> None"
    "\<And>m' hs' t. \<forall>v \<in> K. m' v = m v \<Longrightarrow> set_mset hs \<subseteq> set_mset hs' \<Longrightarrow> table_at m' hs' (K \<union> metas t) t [] \<Longrightarrow> table_saved m' t \<Longrightarrow> metas t \<inter> K = {} \<Longrightarrow> tables_apart m' hs' ((t, []) # db)"
proof -
  obtain Fs where f: "list_all2 (occupies m hs) db Fs" "apart_sets Fs" using assms by (auto simp: tables_apart_def)
  show thesis
  proof (rule that [of "\<Union> (set Fs)"])
    show "\<forall>v \<in> \<Union> (set Fs). m v \<noteq> None" using list_all2_stored [OF f(1)] by blast
    fix m' hs' t assume a: "\<forall>v \<in> \<Union> (set Fs). m' v = m v" "set_mset hs \<subseteq> set_mset hs'" "table_at m' hs' (\<Union> (set Fs) \<union> metas t) t []" "table_saved m' t" "metas t \<inter> \<Union> (set Fs) = {}"
    obtain F where F: "occupies m' hs' (t, []) F" "F \<inter> \<Union> (set Fs) = {}" by (rule table_at_occupies [OF a(3-5)])
    have "list_all2 (occupies m' hs') ((t, []) # db) (F # Fs)" using F(1) list_all2_frame [OF f(1) a(1,2)] by simp
    moreover have "apart_sets (F # Fs)" using F(2) f(2) by (auto simp: apart_sets_def)
    ultimately show "tables_apart m' hs' ((t, []) # db)" unfolding tables_apart_def by blast
  qed
qed

end
