(* ===== verification/Restart.thy ===== *)
theory Restart
  imports Store
begin

text \<open>
  Creating, closing and opening the data manager (\<^verbatim>\<open>dm/data_manager.go\<close>, \<open>Create\<close>, \<open>Close\<close>, \<open>Open\<close>): \<open>Create\<close> makes an empty store, and what is in the store when \<open>Close\<close> is called
  while no item is held is in it after \<open>Open\<close>, whatever the order in which the pages are written back. The valid check of page 1 then succeeds, so that no recovery runs.
\<close>

section \<open>Page 1\<close>

abbreviation P1 :: UUID where "P1 \<equiv> Pgno2UUID 1"

lemma vc_close:
  assumes "length (pg_data pg) = PAGE_SIZE"
  obtains pg' where "P1SetVCClose pg = Ok pg'" "pg_pgno pg' = pg_pgno pg" "pg_dirty pg'" "length (pg_data pg') = PAGE_SIZE"
    "take 2 (pg_data pg') = take 2 (pg_data pg)" "p1RawCheckVC (pg_data pg') = Ok True"
proof -
  let ?d = "pg_data pg"
  let ?c = "overwrite ?d 108 (window ?d 100 8)"
  have l: "length ?d = 8192" "length (window ?d 100 8) = 8" using assms by (simp_all add: PAGE_SIZE_def)
  have e: "P1SetVCClose pg = Ok (pg\<lparr>pg_dirty := True, pg_data := ?c\<rparr>)"
    using l by (simp add: P1SetVCClose_def p1RawSetVCClose_def copy_slice_def go_slice_in p1_defs pg_Dirty_def go_copy_fits Let_def) (simp add: overwrite_def)
  have lc: "length ?c = 8192" "window ?c 100 8 = window ?d 100 8" "window ?c 108 8 = window ?d 100 8" "window ?c 0 2 = window ?d 0 2"
    using l window_same [of 108 "window ?d 100 8" ?d] by (simp_all add: window_disjoint)
  have "take 2 ?c = take 2 ?d" using lc(4) by (simp add: window_def)
  then show thesis
    by (intro that [OF e]) (use lc(1-3) in \<open>simp_all add: PAGE_SIZE_def p1RawCheckVC_def go_slice_in p1_defs\<close>)
qed

lemma vc_open:
  assumes "length (pg_data pg) = PAGE_SIZE" and "length rnd = P1_LEN_VC"
  obtains pg' where "P1SetVCOpen rnd pg = Ok pg'" "pg_pgno pg' = pg_pgno pg" "pg_dirty pg'" "length (pg_data pg') = PAGE_SIZE"
    "take 2 (pg_data pg') = take 2 (pg_data pg)"
proof -
  let ?d = "pg_data pg"
  have l: "length ?d = 8192" "length rnd = 8" using assms by (simp_all add: PAGE_SIZE_def p1_defs)
  have e: "P1SetVCOpen rnd pg = Ok (pg\<lparr>pg_dirty := True, pg_data := overwrite ?d 100 rnd\<rparr>)"
    using l by (simp add: P1SetVCOpen_def p1RawSetVCOpen_def copy_slice_def go_slice_in p1_defs pg_Dirty_def go_copy_fits overwrite_def Let_def)
  have "window (overwrite ?d 100 rnd) 0 2 = window ?d 0 2" using l by (simp add: window_disjoint)
  then show thesis by (intro that [OF e]) (use l in \<open>simp_all add: PAGE_SIZE_def window_def\<close>)
qed

text \<open>Changing a page that is held: its contents change, the other pages do not.\<close>

lemma held_page_ok:
  assumes "pc_inv p held" and "cache (pc_c p) (Pgno2UUID k) = Some pg" and "f pg = Ok pg'" and "pg_pgno pg' = k" and "length (pg_data pg') = PAGE_SIZE" and "pg_dirty pg'"
  shows "held_page k f p = (Ok (), pc_set pg' p)" "pc_inv (pc_set pg' p) held" "pc_content (pc_set pg' p) = (pc_content p)(k := pg_data pg')"
    "noPages (pc_set pg' p) = noPages p" "MaxHandles (pc_c (pc_set pg' p)) = MaxHandles (pc_c p)" "cache (pc_c (pc_set pg' p)) (Pgno2UUID k) = Some pg'"
    "in_db (pc_set pg' p) j = in_db p j"
  using assms pc_set_ok [OF assms(1,2,4,5,6)] by (simp_all add: held_page_def in_db_def)

lemma held_cached:
  assumes "pc_inv p held" and "Pgno2UUID k \<in># held"
  obtains pg where "cache (pc_c p) (Pgno2UUID k) = Some pg" "pg_pgno pg = k" "pg_data pg = pc_content p k" "length (pg_data pg) = PAGE_SIZE" "in_db p k"
proof -
  obtain pg where pg: "cache (pc_c p) (Pgno2UUID k) = Some pg" using assms unfolding pc_inv_def cacher_inv_def by blast
  then have "cached_ok p (Pgno2UUID k) pg" using assms(1) by (simp add: pc_inv_def)
  then show thesis using that [OF pg] pg by (simp add: cached_ok_def pc_content_def)
qed

text \<open>\<open>FlushPage\<close> of a dirty page in the cache.\<close>

lemma flush_cached:
  assumes "pc_inv p held" and "cache (pc_c p) (Pgno2UUID k) = Some pg" and "pg_dirty pg"
  obtains p' where "FlushPage pg p = (Ok (), p')" "pc_inv p' held" "pc_c p' = pc_c p" "noPages p' = noPages p" "\<And>j. in_db p j \<Longrightarrow> pc_content p' j = pc_content p j"
proof -
  have k: "cached_ok p (Pgno2UUID k) pg" using assms(1,2) by (simp add: pc_inv_def)
  then obtain f where f: "pc_flush pg p = (Ok (), p\<lparr>pc_file := f\<rparr>)"
    using pc_flush_healthy [of p pg thesis] assms(1) by (auto simp: pc_inv_def cached_ok_def)
  let ?p = "close_step (Pgno2UUID k) p"
  have e: "FlushPage pg p = (Ok (), ?p)" using f assms(2,3) by (simp add: FlushPage_def close_step_def releaseForCacher_def)
  note c = close_step_ok [OF assms(1), where uid = "Pgno2UUID k"]
  have "pc_content ?p j = pc_content p j" if "in_db p j" for j using c(2) c(4) [OF that] by (simp add: pc_content_def split: option.split)
  then show thesis using that [OF e c(1,2,3)] by blast
qed

text \<open>Whether a page is a page of items depends on its first two bytes.\<close>

lemma page_ok_head: "take 2 d = take 2 d' \<Longrightarrow> length d = length d' \<Longrightarrow> page_ok d = page_ok d'"
  by (simp add: page_ok_def fso_def window_def)

section \<open>Close\<close>

text \<open>\<open>Close\<close> writes the valid check into page 1 and releases it; then the pages that others still hold are written back.\<close>

lemma dm_Close_ok:
  assumes "dm_inv d (add_mset P1 ph) ds" and "dm_page1 d = Some 1"
  obtains d' p where "dm_Close order d = (Ok (), d')" "dm_lg d' = dm_lg d" "pc_file (dm_pc d') = pc_file (pc_Close order p)" "pc_inv p ph"
    "dom (cache (pc_c p)) \<subseteq> dom (cache (pc_c (dm_pc d)))"
    "noPages p = noPages (dm_pc d)" "\<And>k. in_db (dm_pc d) k \<Longrightarrow> k \<noteq> 1 \<Longrightarrow> pc_content p k = pc_content (dm_pc d) k"
    "p1RawCheckVC (pc_content p 1) = Ok True" "take 2 (pc_content p 1) = take 2 (pc_content (dm_pc d) 1)" "in_db (dm_pc d) 1"
proof -
  have inv: "pc_inv (dm_pc d) (add_mset P1 ph)" using assms(1) by (simp add: dm_inv_def)
  obtain pg where pg: "cache (pc_c (dm_pc d)) P1 = Some pg" "pg_pgno pg = 1" "pg_data pg = pc_content (dm_pc d) 1" "length (pg_data pg) = PAGE_SIZE" "in_db (dm_pc d) 1"
    using held_cached [OF inv, of 1] by auto
  obtain pg' where pg': "P1SetVCClose pg = Ok pg'" "pg_pgno pg' = pg_pgno pg" "pg_dirty pg'" "length (pg_data pg') = PAGE_SIZE"
    "take 2 (pg_data pg') = take 2 (pg_data pg)" "p1RawCheckVC (pg_data pg') = Ok True" using vc_close [OF pg(4)] by blast
  have n: "pg_pgno pg' = 1" using pg(2) pg'(2) by simp
  note h = held_page_ok [of "dm_pc d" "add_mset P1 ph" 1 pg P1SetVCClose pg', OF inv pg(1) pg'(1) n pg'(4,3)]
  obtain p where r: "pc_release 1 (pc_set pg' (dm_pc d)) = (Ok (), p)" "pc_inv p (add_mset P1 ph - {#P1#})" "noPages p = noPages (pc_set pg' (dm_pc d))"
    "\<And>k. in_db (pc_set pg' (dm_pc d)) k \<Longrightarrow> pc_content p k = pc_content (pc_set pg' (dm_pc d)) k"
    by (rule pc_release_ok [OF h(2), of 1]) simp_all
  then have p: "pc_release 1 (pc_set pg' (dm_pc d)) = (Ok (), p)" "pc_inv p ph" "noPages p = noPages (dm_pc d)"
    "\<And>k. in_db (dm_pc d) k \<Longrightarrow> pc_content p k = ((pc_content (dm_pc d))(1 := pg_data pg')) k"
    using h(3,4,7) by simp_all
  have dom: "dom (cache (pc_c p)) \<subseteq> dom (cache (pc_c (dm_pc d)))" using pc_release_cached [OF p(1)] pg(1) n by (fastforce simp: pc_set_def split: if_splits)
  have "dm_Close order d = (Ok (), d\<lparr>dm_pc := pc_Close order p\<rparr>)" using assms(2) h(1) p(1) by (simp add: dm_Close_def on_pc_def)
  then show thesis by (rule that [of _ p]) (use p pg pg' dom in simp_all)
qed

section \<open>Open\<close>

text \<open>Filling the index: every page is read, entered with its free space and released.\<close>

definition below :: "nat \<Rightarrow> pindex \<Rightarrow> bool" where
  "below i pi \<longleftrightarrow> (\<forall>(k, fs) \<in># pi_pages pi. unat k < i)"

lemma fill_page:
  assumes "dm_inv d {#P1#} ds" and "below i (dm_pidx d)" and "in_db (dm_pc d) (of_nat i)" and "page_ok (pc_content (dm_pc d) (of_nat i))" and "i < 2 ^ 32"
    and "2 < unat (MaxHandles (pc_c (dm_pc d)))"
  obtains pg fs d1 d2 d3 where "on_pc (GetPage (of_nat i)) d = (Ok pg, d1)" "PXFreeSpace pg = Ok fs" "dm_Add (pg_pgno pg) fs d1 = (Ok (), d2)"
    "on_pc (pc_release (pg_pgno pg)) d2 = (Ok (), d3)" "dm_inv d3 {#P1#} ds" "below (Suc i) (dm_pidx d3)" "noPages (dm_pc d3) = noPages (dm_pc d)"
    "\<And>k. in_db (dm_pc d) k \<Longrightarrow> pc_content (dm_pc d3) k = pc_content (dm_pc d) k" "MaxHandles (pc_c (dm_pc d3)) = MaxHandles (pc_c (dm_pc d))"
    "dm_dic d3 = dm_dic d" "dm_page1 d3 = dm_page1 d"
proof -
  let ?k = "of_nat i :: Pgno"
  have inv: "pc_inv (dm_pc d) {#P1#}" and px: "pidx_ok (dm_pc d) (dm_pidx d)" and lg: "lg_holds ds (dm_lg d)" using assms(1) by (simp_all add: dm_inv_def)
  have room: "pc_room (dm_pc d) {#P1#}" using assms(6) by (simp add: pc_room_def)
  obtain pg p1 where g: "GetPage ?k (dm_pc d) = (Ok pg, p1)" "pg_pgno pg = ?k" "pg_data pg = pc_content (dm_pc d) ?k"
    "pc_inv p1 (add_mset (Pgno2UUID ?k) {#P1#})" "pc_content p1 = pc_content (dm_pc d)" "noPages p1 = noPages (dm_pc d)" "MaxHandles (pc_c p1) = MaxHandles (pc_c (dm_pc d))"
    by (rule GetPage_ok [OF inv assms(3) room]) blast
  let ?fs = "int PAGE_SIZE - int (fso (pc_content (dm_pc d) ?k))"
  have f: "PXFreeSpace pg = Ok ?fs" using PXFreeSpace_eq [of pg] assms(4) g(3) by (simp add: page_ok_def PAGE_SIZE_def)
  have u: "unat ?k = i" using assms(5) by (simp add: unat_of_nat take_bit_nat_eq_self)
  have "?k \<notin># image_mset fst (pi_pages (dm_pidx d))" using assms(2) u by (auto simp: below_def)
  then obtain pi where pi: "pi_Add ?k ?fs (dm_pidx d) = Ok pi" "pidx_ok (dm_pc d) pi"
    using pidx_ok_add [OF px assms(3,4)] by blast
  have "0 \<le> ?fs" "?fs \<le> int PAGE_SIZE" using assms(4) by (simp_all add: page_ok_def)
  from pidx.add_ok [OF _ this, of "dm_pidx d" ?k] px pi(1) have pages: "pi_pages pi = add_mset (?k, ?fs) (pi_pages (dm_pidx d))" by (auto simp: pidx_ok_def)
  obtain p2 where r: "pc_release ?k p1 = (Ok (), p2)" "pc_inv p2 (add_mset (Pgno2UUID ?k) {#P1#} - {#Pgno2UUID ?k#})"
    "\<And>k. in_db p1 k \<Longrightarrow> pc_content p2 k = pc_content p1 k" "noPages p2 = noPages p1" "MaxHandles (pc_c p2) = MaxHandles (pc_c p1)"
    by (rule pc_release_ok [OF g(4), of ?k]) simp_all
  have db: "in_db p1 k = in_db (dm_pc d) k" "in_db p2 k = in_db (dm_pc d) k" for k using g(6) r(4) by (simp_all add: in_db_def)
  have c: "pc_content p2 k = pc_content (dm_pc d) k" if "in_db (dm_pc d) k" for k using r(3) [of k] g(5) db that by simp
  let ?d3 = "d\<lparr>dm_pidx := pi, dm_pc := p2\<rparr>"
  have "pidx_ok p2 pi" by (rule pidx_ok_frame [OF pi(2)]) (simp add: db c)
  then have "dm_inv ?d3 {#P1#} ds" using r(2) lg by (simp add: dm_inv_def)
  moreover have "below (Suc i) pi" using assms(2) pages u by (auto simp: below_def)
  moreover have "on_pc (GetPage ?k) d = (Ok pg, d\<lparr>dm_pc := p1\<rparr>)" using g(1) by (simp add: on_pc_def)
  moreover have "dm_Add (pg_pgno pg) ?fs (d\<lparr>dm_pc := p1\<rparr>) = (Ok (), d\<lparr>dm_pc := p1, dm_pidx := pi\<rparr>)" using pi(1) g(2) by (simp add: dm_Add_def)
  moreover have "on_pc (pc_release (pg_pgno pg)) (d\<lparr>dm_pc := p1, dm_pidx := pi\<rparr>) = (Ok (), ?d3)" using r(1) g(2) by (simp add: on_pc_def)
  ultimately show thesis by - (rule that [of pg "d\<lparr>dm_pc := p1\<rparr>" ?fs "d\<lparr>dm_pc := p1, dm_pidx := pi\<rparr>" ?d3], use f c g r in simp_all)
qed

lemma fillFrom_ok:
  assumes "dm_inv d {#P1#} ds" and "below i (dm_pidx d)" and "2 < unat (MaxHandles (pc_c (dm_pc d)))" and "2 \<le> i" and "unat (noPages (dm_pc d)) + 1 = i + n"
    and "pages_ok (dm_pc d)"
  shows "\<exists>d'. fillFrom n i d = (Ok (), d') \<and> dm_inv d' {#P1#} ds \<and> noPages (dm_pc d') = noPages (dm_pc d) \<and>
    (\<forall>k. in_db (dm_pc d) k \<longrightarrow> pc_content (dm_pc d') k = pc_content (dm_pc d) k) \<and> MaxHandles (pc_c (dm_pc d')) = MaxHandles (pc_c (dm_pc d)) \<and>
    dm_dic d' = dm_dic d \<and> dm_page1 d' = dm_page1 d"
  using assms
proof (induction n arbitrary: i d)
  case (Suc n)
  have lt: "i < 2 ^ 32" using Suc.prems(5) unsigned_less [of "noPages (dm_pc d)", where ?'a = nat] by simp
  then have u: "unat (of_nat i :: Pgno) = i" by (simp add: unat_of_nat take_bit_nat_eq_self)
  have db: "in_db (dm_pc d) (of_nat i)" using u Suc.prems(4,5) by (simp add: in_db_def word_less_nat_alt word_le_nat_alt)
  have "(of_nat i :: Pgno) \<noteq> 1" using u Suc.prems(4) by (auto simp: word_unat_eq_iff)
  then have ok: "page_ok (pc_content (dm_pc d) (of_nat i))" using Suc.prems(6) db by (simp add: pages_ok_def)
  obtain pg fs d1 d2 d3 where f: "on_pc (GetPage (of_nat i)) d = (Ok pg, d1)" "PXFreeSpace pg = Ok fs" "dm_Add (pg_pgno pg) fs d1 = (Ok (), d2)"
    "on_pc (pc_release (pg_pgno pg)) d2 = (Ok (), d3)" "dm_inv d3 {#P1#} ds" "below (Suc i) (dm_pidx d3)" "noPages (dm_pc d3) = noPages (dm_pc d)"
    "\<And>k. in_db (dm_pc d) k \<Longrightarrow> pc_content (dm_pc d3) k = pc_content (dm_pc d) k" "MaxHandles (pc_c (dm_pc d3)) = MaxHandles (pc_c (dm_pc d))"
    "dm_dic d3 = dm_dic d" "dm_page1 d3 = dm_page1 d" by (rule fill_page [OF Suc.prems(1,2) db ok lt Suc.prems(3)]) blast
  have db3: "in_db (dm_pc d3) k = in_db (dm_pc d) k" for k using f(7) by (simp add: in_db_def)
  have "pages_ok (dm_pc d3)" by (rule pages_ok_frame [OF Suc.prems(6)]) (use db3 f(8) in simp_all)
  then obtain d' where d': "fillFrom n (Suc i) d3 = (Ok (), d')" "dm_inv d' {#P1#} ds" "noPages (dm_pc d') = noPages (dm_pc d3)"
    "\<forall>k. in_db (dm_pc d3) k \<longrightarrow> pc_content (dm_pc d') k = pc_content (dm_pc d3) k" "MaxHandles (pc_c (dm_pc d')) = MaxHandles (pc_c (dm_pc d3))"
    "dm_dic d' = dm_dic d3" "dm_page1 d' = dm_page1 d3" using Suc.IH [OF f(5,6)] Suc.prems(3,4,5) f(7,9) by auto
  have "fillFrom (Suc n) i d = (Ok (), d')" using f(1-4) d'(1) by simp
  then show ?case using d' f(7-11) db3 by (intro exI [of _ d']) simp
qed simp

lemma openPage1_ok:
  assumes "dm_inv d {#P1#} ds" and "length rnd = P1_LEN_VC" and "pages_ok (dm_pc d)"
  shows "\<exists>d'. openPage1 rnd d = (Ok (), d') \<and> dm_inv d' {#P1#} ds \<and> pages_ok (dm_pc d') \<and> noPages (dm_pc d') = noPages (dm_pc d) \<and>
    (\<forall>k. in_db (dm_pc d) k \<longrightarrow> k \<noteq> 1 \<longrightarrow> pc_content (dm_pc d') k = pc_content (dm_pc d) k) \<and> MaxHandles (pc_c (dm_pc d')) = MaxHandles (pc_c (dm_pc d)) \<and>
    dm_dic d' = dm_dic d \<and> dm_page1 d' = dm_page1 d"
proof -
  have inv: "pc_inv (dm_pc d) {#P1#}" and px: "pidx_ok (dm_pc d) (dm_pidx d)" and lg: "lg_holds ds (dm_lg d)" using assms(1) by (simp_all add: dm_inv_def)
  obtain pg where pg: "cache (pc_c (dm_pc d)) P1 = Some pg" "pg_pgno pg = 1" "pg_data pg = pc_content (dm_pc d) 1" "length (pg_data pg) = PAGE_SIZE" "in_db (dm_pc d) 1"
    by (rule held_cached [OF inv, of 1]) simp_all
  obtain pg' where pg': "P1SetVCOpen rnd pg = Ok pg'" "pg_pgno pg' = pg_pgno pg" "pg_dirty pg'" "length (pg_data pg') = PAGE_SIZE"
    "take 2 (pg_data pg') = take 2 (pg_data pg)" using vc_open [OF pg(4) assms(2)] by blast
  have n: "pg_pgno pg' = 1" using pg(2) pg'(2) by simp
  let ?p = "pc_set pg' (dm_pc d)"
  note h = held_page_ok [of "dm_pc d" "{#P1#}" 1 pg "P1SetVCOpen rnd" pg', OF inv pg(1) pg'(1) n pg'(4,3)]
  obtain p where p: "FlushPage pg' ?p = (Ok (), p)" "pc_inv p {#P1#}" "pc_c p = pc_c ?p" "noPages p = noPages ?p" "\<And>j. in_db ?p j \<Longrightarrow> pc_content p j = pc_content ?p j"
    by (rule flush_cached [OF h(2,6) pg'(3)]) blast
  have db: "in_db p k = in_db (dm_pc d) k" for k using p(4) h(4) by (simp add: in_db_def)
  have c: "pc_content p k = (if k = 1 then pg_data pg' else pc_content (dm_pc d) k)" if "in_db (dm_pc d) k" for k using p(5) [of k] h(3,7) that by simp
  have "\<not> page_ok (pg_data pg')" using page_ok_head [OF pg'(5)] pg(3-5) pg'(4) assms(3) by (simp add: pages_ok_def)
  then have ok: "pages_ok p" using assms(3) c db by (auto simp: pages_ok_def)
  have "k \<noteq> 1" if "(k, fs) \<in># pi_pages (dm_pidx d)" for k fs using px that assms(3) by (auto simp: pidx_ok_def pages_ok_def)
  then have "pidx_ok p (dm_pidx d)" using px c db unfolding pidx_ok_def by fastforce
  then have "dm_inv (d\<lparr>dm_pc := p\<rparr>) {#P1#} ds" using p(2) lg by (simp add: dm_inv_def)
  moreover have "openPage1 rnd d = (Ok (), d\<lparr>dm_pc := p\<rparr>)" using h(1,6) p(1) by (simp add: openPage1_def on_pc_def)
  ultimately show ?thesis using ok c p(3,4) h(4,5) by (intro exI [of _ "d\<lparr>dm_pc := p\<rparr>"]) simp
qed

lemma dm_Open_ok:
  assumes "pc_inv p ph" and "dom (cache (pc_c p)) \<subseteq> set order" and "pages_ok p" and "p1RawCheckVC (pc_content p 1) = Ok True" and "lg_holds ds lg" and "10 \<le> mem div int PAGE_SIZE" and "mem div int PAGE_SIZE < 2 ^ 32"
    and "length rnd = P1_LEN_VC"
  shows "\<exists>d. dm_Open rnd xids (pc_file (pc_Close order p)) (lg_file lg) mem t = Ok (d, t) \<and> dm_inv d {#P1#} ds \<and> pages_ok (dm_pc d) \<and> noPages (dm_pc d) = noPages p \<and>
    (\<forall>k. in_db p k \<longrightarrow> k \<noteq> 1 \<longrightarrow> pc_content (dm_pc d) k = pc_content p k) \<and> unat (MaxHandles (pc_c (dm_pc d))) = nat (mem div int PAGE_SIZE) \<and>
    dm_dic d = NewCacher 0 \<and> dm_page1 d = Some 1"
proof -
  obtain q where q: "pc_Open (pc_file (pc_Close order p)) mem = Ok q" "pc_inv q {#}" "noPages q = noPages p" "\<And>k. in_db p k \<Longrightarrow> pc_content q k = pc_content p k"
    "MaxHandles (pc_c q) = word_of_int (mem div int PAGE_SIZE)" by (rule pc_reopen [OF assms(1,2,6)]) blast
  obtain lg' where lg': "lg_Open (lg_file lg) = Ok lg'" "lg_holds ds lg'" by (rule lg_Open_holds [OF assms(5)])
  have db: "in_db q k = in_db p k" for k using q(3) by (simp add: in_db_def)
  have h: "unat (MaxHandles (pc_c q)) = nat (mem div int PAGE_SIZE)" using assms(6,7) q(5) by (simp add: unsigned_of_int take_bit_int_eq_self)
  then have room: "pc_room q {#}" and mh: "2 < unat (MaxHandles (pc_c q))" using assms(6) by (simp_all add: pc_room_def)
  have in1: "in_db q 1" using assms(3) db by (simp add: pages_ok_def)
  obtain pg p1 where g: "GetPage 1 q = (Ok pg, p1)" "pg_data pg = pc_content q 1" "pc_inv p1 (add_mset P1 {#})" "pc_content p1 = pc_content q" "noPages p1 = noPages q"
    "MaxHandles (pc_c p1) = MaxHandles (pc_c q)" by (rule GetPage_ok [OF q(2) in1 room]) blast
  let ?d1 = "(NewDataManager q lg')\<lparr>dm_pc := p1, dm_page1 := Some 1\<rparr>"
  have "P1CheckVC pg = Ok True" using g(2) q(4) in1 db assms(4) by (simp add: P1CheckVC_def)
  then have l: "loadAndCheckPage1 (NewDataManager q lg') = (Ok True, ?d1)" using g(1) by (simp add: loadAndCheckPage1_def on_pc_def NewDataManager_def)
  have db1: "in_db p1 k = in_db p k" for k using g(5) q(3) by (simp add: in_db_def)
  have ok1: "pages_ok p1" by (rule pages_ok_frame [OF assms(3)]) (use db1 g(4) q(4) in simp_all)
  have "dm_inv ?d1 {#P1#} ds" using g(3) lg'(2) pi_inv_New by (simp add: dm_inv_def NewDataManager_def pidx_ok_def once_def)
  moreover have "below 2 (dm_pidx ?d1)" using pi_inv_New by (simp add: below_def NewDataManager_def)
  moreover have "unat (noPages (dm_pc ?d1)) + 1 = 2 + (unat (noPages p1) - 1)" using in1 g(5) by (auto simp: in_db_def word_le_nat_alt)
  ultimately obtain d2 where d2: "fillFrom (unat (noPages p1) - 1) 2 ?d1 = (Ok (), d2)" "dm_inv d2 {#P1#} ds" "noPages (dm_pc d2) = noPages p1"
    "\<forall>k. in_db p1 k \<longrightarrow> pc_content (dm_pc d2) k = pc_content p1 k" "MaxHandles (pc_c (dm_pc d2)) = MaxHandles (pc_c p1)" "dm_dic d2 = NewCacher 0" "dm_page1 d2 = Some 1"
    using fillFrom_ok [of ?d1 ds 2 "unat (noPages p1) - 1"] mh g(6) ok1 by (auto simp: NewDataManager_def)
  have db2: "in_db (dm_pc d2) k = in_db p1 k" for k using d2(3) by (simp add: in_db_def)
  have ok2: "pages_ok (dm_pc d2)" by (rule pages_ok_frame [OF ok1]) (use db2 d2(4) in simp_all)
  obtain d where d: "openPage1 rnd d2 = (Ok (), d)" "dm_inv d {#P1#} ds" "pages_ok (dm_pc d)" "noPages (dm_pc d) = noPages (dm_pc d2)"
    "\<forall>k. in_db (dm_pc d2) k \<longrightarrow> k \<noteq> 1 \<longrightarrow> pc_content (dm_pc d) k = pc_content (dm_pc d2) k" "MaxHandles (pc_c (dm_pc d)) = MaxHandles (pc_c (dm_pc d2))"
    "dm_dic d = dm_dic d2" "dm_page1 d = dm_page1 d2" using openPage1_ok [OF d2(2) assms(8) ok2] by blast
  have "?d1\<lparr>dm_lg := dm_lg ?d1, dm_pc := dm_pc ?d1\<rparr> = ?d1" by simp
  then have "dm_Open rnd xids (pc_file (pc_Close order p)) (lg_file lg) mem t = Ok (d, t)"
    using q(1) lg'(1) l d2(1) d(1) by (simp add: dm_Open_def fillPindex_def NoPages_def)
  then show ?thesis using d d2 g q h db1 db2 by (intro exI [of _ d]) auto
qed

section \<open>Create\<close>

lemma dm_Create_ok:
  assumes "10 \<le> mem div int PAGE_SIZE" and "mem div int PAGE_SIZE < 2 ^ 32" and "length rnd = P1_LEN_VC"
  shows "\<exists>d. dm_Create rnd [] [] mem = Ok d \<and> dm_inv d {#P1#} [] \<and> pages_ok (dm_pc d) \<and> noPages (dm_pc d) = 1 \<and>
    unat (MaxHandles (pc_c (dm_pc d))) = nat (mem div int PAGE_SIZE) \<and> dm_dic d = NewCacher 0 \<and> dm_page1 d = Some 1"
proof -
  have "0 \<le> mem" by (rule ccontr) (use assms(1) in \<open>simp add: PAGE_SIZE_def\<close>)
  then have g: "go_quot mem (int PAGE_SIZE) = mem div int PAGE_SIZE" by (auto simp: go_quot_def PAGE_SIZE_def sgn_if)
  then obtain p where p: "newPcacher (new_file []) mem = Ok p" "MaxHandles (pc_c p) = word_of_int (mem div int PAGE_SIZE)"
    using assms(1) by (auto simp: newPcacher_def MEM_LIM_def NewCacher_def)
  have h: "unat (MaxHandles (pc_c p)) = nat (mem div int PAGE_SIZE)" using assms(1,2) p(2) by (simp add: unsigned_of_int take_bit_int_eq_self)
  note n = newPcacher_inv [OF p(1), of 0, simplified new_file_def, simplified]
  obtain lg where lg: "lg_Create [] = Ok lg" "lg_holds [] lg" using lg_Create_holds by blast
  obtain raw where raw: "P1InitRaw rnd = Ok raw" "length raw = PAGE_SIZE" "take 2 raw = [0, 0]"
  proof -
    let ?z = "replicate 8192 (0 :: byte)"
    have r: "replicate 2 (0 :: byte) = [0, 0]" by (simp add: numeral_2_eq_2)
    have "P1InitRaw rnd = Ok (overwrite ?z 100 rnd)" using assms(3)
      by (simp add: P1InitRaw_def p1RawSetVCOpen_def copy_slice_def go_slice_in p1_defs go_copy_fits overwrite_def PAGE_SIZE_def)
    moreover have "window (overwrite ?z 100 rnd) 0 2 = window ?z 0 2" using assms(3) by (simp add: window_disjoint p1_defs)
    ultimately show thesis using that assms(3) r by (simp add: window_def PAGE_SIZE_def p1_defs)
  qed
  have z: "noPages p = 0" using n(2) by (simp add: word_unat_eq_iff)
  obtain p1 where p1: "pc_NewPage raw p = (Ok (noPages p + 1), p1)" "pc_inv p1 {#}" "noPages p1 = noPages p + 1" "pc_c p1 = pc_c p" "pc_content p1 (noPages p + 1) = raw"
    by (rule pc_NewPage_ok [OF n(1) _ raw(2)]) (use n(2) in simp_all)
  have in1: "in_db p1 1" using p1(3) z by (simp add: in_db_def)
  have room: "pc_room p1 {#}" using h assms(1) p1(4) by (simp add: pc_room_def)
  obtain pg p2 where g: "GetPage 1 p1 = (Ok pg, p2)" "pg_pgno pg = 1" "pg_data pg = pc_content p1 1" "pc_inv p2 (add_mset P1 {#})" "pc_content p2 = pc_content p1" "noPages p2 = noPages p1"
    "MaxHandles (pc_c p2) = MaxHandles (pc_c p1)" "cache (pc_c p2) P1 = Some pg" by (rule GetPage_ok [OF p1(2) in1 room]) blast
  have only: "k = 1" if "in_db p2 k" for k using that g(6) p1(3) z by (auto simp: in_db_def word_le_nat_alt word_less_nat_alt word_unat_eq_iff)
  obtain p3 where p3: "FlushPage pg p2 = (Ok (), p3)" "pc_inv p3 {#P1#}" "pc_c p3 = pc_c p2" "noPages p3 = noPages p2" "pc_content p3 1 = raw"
  proof -
    have len: "length (pg_data pg) = PAGE_SIZE" "in_db p2 (pg_pgno pg)" using g(2,3,6) p1(5) z raw(2) in1 by (simp_all add: in_db_def)
    obtain f where f: "pc_flush pg p2 = (Ok (), p2\<lparr>pc_file := f\<rparr>)" "ffault f = []" "length (fdata f) = length (fdata (pc_file p2))"
      "disk_page (p2\<lparr>pc_file := f\<rparr>) (pg_pgno pg) = pg_data pg"
      by (rule pc_flush_healthy [of p2 pg]) (use g(4) len in \<open>simp_all add: pc_inv_def\<close>)
    have "cached_ok (p2\<lparr>pc_file := f\<rparr>) u q" if "cache (pc_c p2) u = Some q" for u q
    proof -
      have k: "cached_ok p2 u q" using that g(4) by (simp add: pc_inv_def)
      then have "pg_pgno q = 1" "u = P1" using only by (auto simp: cached_ok_def)
      moreover from this(2) have "q = pg" using that g(8) by simp
      ultimately show ?thesis using f(4) k by (simp add: cached_ok_def)
    qed
    then have "pc_inv (p2\<lparr>pc_file := f\<rparr>) {#P1#}" using g(4) f(2,3) by (simp add: pc_inv_def)
    then show thesis using that [of "p2\<lparr>pc_file := f\<rparr>"] f(1) g(3,8) p1(5) z by (simp add: FlushPage_def pc_content_def)
  qed
  have "pages_ok p3" using only p3(4,5) g(6) in1 page1_not_ok [OF raw(3)] unfolding pages_ok_def by (auto simp: in_db_def)
  moreover have "initPage1 rnd (NewDataManager p lg) = (Ok (), (NewDataManager p lg)\<lparr>dm_pc := p3, dm_page1 := Some 1\<rparr>)"
    using raw(1) p1(1) z g(1) p3(1) by (simp add: initPage1_def on_pc_def NewDataManager_def)
  then have "dm_Create rnd [] [] mem = Ok ((NewDataManager p lg)\<lparr>dm_pc := p3, dm_page1 := Some 1\<rparr>)"
    using p(1) lg(1) by (simp add: dm_Create_def pc_Create_def)
  moreover have "dm_inv ((NewDataManager p lg)\<lparr>dm_pc := p3, dm_page1 := Some 1\<rparr>) {#P1#} []"
    using p3(2) lg(2) pi_inv_New by (simp add: dm_inv_def NewDataManager_def pidx_ok_def once_def)
  ultimately show ?thesis using p3(3,4) g(6,7) p1(3,4) z h by (simp add: NewDataManager_def)
qed

section \<open>The store across a restart\<close>

lemma store_of_dm:
  assumes "dm_inv d {#P1#} ds" and "pages_ok (dm_pc d)" and "dm_dic d = NewCacher 0" and "dm_page1 d = Some 1" and "holds_items (dm_pc d) m"
    and "limit + 2 < unat (MaxHandles (pc_c (dm_pc d)))" and "unat (noPages (dm_pc d)) + n < 2 ^ 32"
  shows "store {#P1#} limit n d m {#}"
proof -
  have "items_cached (dm_dic d) m {#}" using assms(3) cacher_inv_New [of 0] by (simp add: items_cached_def) (simp add: NewCacher_def)
  then show ?thesis using assms by (auto simp: store_def page_handles_def)
qed

lemma items_off_page1: "holds_items p m \<Longrightarrow> pages_ok p \<Longrightarrow> m u = Some b \<Longrightarrow> UUID2Address u = (k, off) \<Longrightarrow> in_db p k \<and> k \<noteq> 1"
  by (auto simp: holds_items_def item_at_def pages_ok_def split: prod.splits)

lemma holds_items_move:
  assumes "holds_items p m" and "pages_ok p" and "\<And>k. in_db p k \<Longrightarrow> k \<noteq> 1 \<Longrightarrow> in_db p' k \<and> pc_content p' k = pc_content p k"
  shows "holds_items p' m"
  using assms items_off_page1 [OF assms(1,2)] unfolding holds_items_def item_at_def by (fastforce split: prod.splits)

text \<open>The result of \<open>Create\<close> is the empty store.\<close>

lemma create_store:
  assumes "10 \<le> mem div int PAGE_SIZE" and "mem div int PAGE_SIZE < 2 ^ 32" and "length rnd = P1_LEN_VC" and "int limit + 2 < mem div int PAGE_SIZE" and "n < 2 ^ 32 - 1"
  shows "\<exists>d. dm_Create rnd [] [] mem = Ok d \<and> store {#P1#} limit n d Map.empty {#}"
proof -
  obtain d where d: "dm_Create rnd [] [] mem = Ok d" "dm_inv d {#P1#} []" "pages_ok (dm_pc d)" "noPages (dm_pc d) = 1"
    "unat (MaxHandles (pc_c (dm_pc d))) = nat (mem div int PAGE_SIZE)" "dm_dic d = NewCacher 0" "dm_page1 d = Some 1" using dm_Create_ok [OF assms(1-3)] by blast
  have "holds_items (dm_pc d) Map.empty" by (simp add: holds_items_def)
  then have "store {#P1#} limit n d Map.empty {#}" by (rule store_of_dm [OF d(2,3,6,7)]) (use d(4,5) assms(4,5) in simp_all)
  then show ?thesis using d(1) by blast
qed

lemma store_restart:
  assumes "store {#P1#} limit n d m hs" and "dom (cache (pc_c (dm_pc d))) \<subseteq> set order" and "10 \<le> mem div int PAGE_SIZE" and "mem div int PAGE_SIZE < 2 ^ 32" and "int limit' + 2 < mem div int PAGE_SIZE" and "length rnd = P1_LEN_VC"
  shows "\<exists>d' d''. dm_Close order d = (Ok (), d') \<and> dm_Open rnd xids (pc_file (dm_pc d')) (lg_file (dm_lg d')) mem t = Ok (d'', t) \<and> store {#P1#} limit' n d'' m {#}"
proof -
  obtain ds where i: "dm_inv d (add_mset P1 (page_handles hs)) ds" "pages_ok (dm_pc d)" "dm_page1 d = Some 1" "holds_items (dm_pc d) m" "unat (noPages (dm_pc d)) + n < 2 ^ 32"
    using assms(1) by (auto simp: store_def)
  obtain d' p where c: "dm_Close order d = (Ok (), d')" "dm_lg d' = dm_lg d" "pc_file (dm_pc d') = pc_file (pc_Close order p)" "pc_inv p (page_handles hs)" "dom (cache (pc_c p)) \<subseteq> dom (cache (pc_c (dm_pc d)))" "noPages p = noPages (dm_pc d)"
    "\<And>k. in_db (dm_pc d) k \<Longrightarrow> k \<noteq> 1 \<Longrightarrow> pc_content p k = pc_content (dm_pc d) k" "p1RawCheckVC (pc_content p 1) = Ok True"
    "take 2 (pc_content p 1) = take 2 (pc_content (dm_pc d) 1)" "in_db (dm_pc d) 1"
    by (rule dm_Close_ok [OF i(1,3)]) blast
  have db: "in_db p k = in_db (dm_pc d) k" for k using c(6) by (simp add: in_db_def)
  have len: "length (pc_content q 1) = PAGE_SIZE" if "pc_inv q held" "in_db q 1" for q held
    using that disk_page_length [OF that] by (auto simp: pc_content_def pc_inv_def cached_ok_def split: option.split)
  have "pc_inv (dm_pc d) (add_mset P1 (page_handles hs))" using i(1) by (simp add: dm_inv_def)
  then have "page_ok (pc_content p 1) = page_ok (pc_content (dm_pc d) 1)" using page_ok_head [OF c(9)] len c(4,10) db by simp
  then have ok: "pages_ok p" using i(2) c(7) db unfolding pages_ok_def by metis
  have vis: "dom (cache (pc_c p)) \<subseteq> set order" using c(5) assms(2) by blast
  have lg: "lg_holds ds (dm_lg d')" using i(1) c(2) by (simp add: dm_inv_def)
  obtain d'' where o: "dm_Open rnd xids (pc_file (dm_pc d')) (lg_file (dm_lg d')) mem t = Ok (d'', t)" "dm_inv d'' {#P1#} ds" "pages_ok (dm_pc d'')" "noPages (dm_pc d'') = noPages p"
    "\<forall>k. in_db p k \<longrightarrow> k \<noteq> 1 \<longrightarrow> pc_content (dm_pc d'') k = pc_content p k" "unat (MaxHandles (pc_c (dm_pc d''))) = nat (mem div int PAGE_SIZE)"
    "dm_dic d'' = NewCacher 0" "dm_page1 d'' = Some 1"
    using dm_Open_ok [OF c(4) vis ok c(8) lg assms(3,4,6), of xids t] unfolding c(3) by blast
  have "in_db (dm_pc d'') k = in_db (dm_pc d) k" for k using o(4) c(6) by (simp add: in_db_def)
  then have "holds_items (dm_pc d'') m" using c(7) o(5) db by (intro holds_items_move [OF i(4,2)]) simp
  then have "store {#P1#} limit' n d'' m {#}" by (rule store_of_dm [OF o(2,3,7,8)]) (use o(4,6) c(6) i(5) assms(5) in simp_all)
  then show ?thesis using c(1) o(1) by blast
qed

section \<open>Properties\<close>

text \<open>C16. A clean restart keeps the data: take any state of the data manager that stands for a map of items, close it, whatever the order in which the cached pages are visited and whoever still holds items, and
  open the files again with any sufficient amount of memory: opening succeeds without recovery, leaves the transaction manager alone, and the new data manager stands for the same map of items, so
  that by the laws of the store every item reads back.\<close>

theorem restart_keeps_items:
  assumes "store {#P1#} limit n d m hs" and "dom (cache (pc_c (dm_pc d))) \<subseteq> set order" and "10 \<le> mem div int PAGE_SIZE" and "mem div int PAGE_SIZE < 2 ^ 32" and "int limit' + 2 < mem div int PAGE_SIZE" and "length rnd = P1_LEN_VC"
  shows "\<exists>d' d''. dm_Close order d = (Ok (), d') \<and> dm_Open rnd xids (pc_file (dm_pc d')) (lg_file (dm_lg d')) mem t = Ok (d'', t) \<and> store {#P1#} limit' n d'' m {#}"
  by (rule store_restart [OF assms])

theorem restart_keeps_items_witness:
  "\<exists>d u d1 d2 d3 di d4. dm_Create (replicate 8 1) [] [] 163840 = Ok d \<and> dm_Insert 1 [5, 6] d = (Ok u, d1) \<and> dm_Close [P1] d1 = (Ok (), d2) \<and>
     dm_Open (replicate 8 2) [] (pc_file (dm_pc d2)) (lg_file (dm_lg d2)) 81920 \<lparr>tm_file = new_file [], xidCounter = 0\<rparr> = Ok (d3, \<lparr>tm_file = new_file [], xidCounter = 0\<rparr>) \<and>
     dm_Read u d3 = (Ok (Some di), d4) \<and> dm_Data di d4 = Ok [5, 6]"
proof -
  let ?t = "\<lparr>tm_file = new_file [], xidCounter = 0\<rparr>"
  have mem: "10 \<le> 163840 div int PAGE_SIZE" "163840 div int PAGE_SIZE < 2 ^ 32" "int 5 + 2 < 163840 div int PAGE_SIZE"
    "10 \<le> 81920 div int PAGE_SIZE" "81920 div int PAGE_SIZE < 2 ^ 32" "int 5 + 2 < 81920 div int PAGE_SIZE" by (simp_all add: PAGE_SIZE_def)
  have rnd: "length (replicate 8 (1 :: byte)) = P1_LEN_VC" "length (replicate 8 (2 :: byte)) = P1_LEN_VC" by (simp_all add: P1_LEN_VC_def)
  obtain d where d: "dm_Create (replicate 8 1) [] [] 163840 = Ok d" "store {#P1#} 5 (Suc 0) d Map.empty {#}" using create_store [OF mem(1,2) rnd(1) mem(3), of "Suc 0"] by auto
  obtain u d1 where i: "dm_Insert 1 [5, 6] d = (Ok u, d1)" "store {#P1#} 5 0 d1 [u \<mapsto> [5, 6]] {#}"
    using dms.insert_law [OF d(2), of "[5, 6]" 1] by (auto simp: max_item_def pi_defs)
  have "set_mset {#P1#} = dom (cache (pc_c (dm_pc d1)))" using i(2) unfolding store_def dm_inv_def pc_inv_def cacher_inv_def page_handles_def by auto
  then have dom: "dom (cache (pc_c (dm_pc d1))) \<subseteq> set [P1]" by simp
  obtain d2 d3 where r: "dm_Close [P1] d1 = (Ok (), d2)" "dm_Open (replicate 8 2) [] (pc_file (dm_pc d2)) (lg_file (dm_lg d2)) 81920 ?t = Ok (d3, ?t)" "store {#P1#} 5 0 d3 [u \<mapsto> [5, 6]] {#}"
    using restart_keeps_items [OF i(2) dom mem(4-6) rnd(2), of "[]" ?t] by blast
  obtain di d4 where g: "dm_Read u d3 = (Ok (Some di), d4)" "handle u (length [5 :: byte, 6]) di" "store {#P1#} 5 0 d4 [u \<mapsto> [5, 6]] {#u#}" using dms.read_law [OF r(3), of u "[5, 6]"] by auto
  have "dm_Data di d4 = Ok [5, 6]" by (rule dms.data_law [OF g(3)]) (use g(2) in simp_all)
  then show ?thesis using d(1) i(1) r(1,2) g(1) by blast
qed

end
