(* ===== verification/Reload.thy ===== *)
theory Reload
  imports Catalog Shapes Restart Tbm
begin

text \<open>
  Loading tables from the disk (\<open>LoadField\<close>, \<open>LoadTable\<close> and \<open>loadTables\<close> of \<^verbatim>\<open>backend/tbm\<close>): over a store with the records of a table, loading succeeds, changes no item, and gives a table that differs
  from the one that was created only in the handles of its indexes. It holds the same versions and answers every statement alike.
\<close>

section \<open>A table without its handles\<close>

definition unloaded_field :: "field \<Rightarrow> field" where
  "unloaded_field f = f\<lparr>f_bt := None\<rparr>"

definition unloaded :: "table \<Rightarrow> table" where
  "unloaded t = t\<lparr>tb_fields := map unloaded_field (tb_fields t), tb_rowIndexBt := None\<rparr>"

lemma unloaded_field_sel [simp]:
  "f_SelfUUID (unloaded_field f) = f_SelfUUID f" "f_FName (unloaded_field f) = f_FName f" "f_FType (unloaded_field f) = f_FType f" "f_index (unloaded_field f) = f_index f"
  "IsIndexed (unloaded_field f) = IsIndexed f" "f_bt (unloaded_field f) = None" "unloaded_field (f\<lparr>f_bt := bt\<rparr>) = unloaded_field f" "shape (unloaded_field f) = shape f"
  by (simp_all add: unloaded_field_def IsIndexed_def shape_def)

lemma unloaded_sel [simp]:
  "tb_SelfUUID (unloaded t) = tb_SelfUUID t" "tb_Name (unloaded t) = tb_Name t" "tb_Next (unloaded t) = tb_Next t" "tb_status (unloaded t) = tb_status t"
  "tb_rowIndex (unloaded t) = tb_rowIndex t" "tb_fields (unloaded t) = map unloaded_field (tb_fields t)"
  by (simp_all add: unloaded_def)

lemma unloaded_raw: "table_raw (unloaded t) = table_raw t" "field_raw (unloaded_field f) = field_raw f"
  by (simp_all add: table_raw_def field_raw_def comp_def)

lemma unloaded_shapes: "unloaded t' = unloaded t \<Longrightarrow> map shape (tb_fields t') = map shape (tb_fields t)"
  by (drule arg_cong [of _ _ "\<lambda>t. map shape (tb_fields t)"]) (simp add: comp_def)

section \<open>Trees that are loaded again\<close>

definition at_hand :: "UUID multiset \<Rightarrow> bPlusTree \<Rightarrow> bool" where
  "at_hand hs bt \<longleftrightarrow> bt_bootUUID bt \<in># hs \<and> handle (bt_bootUUID bt) 8 (bt_bootDataitem bt)"

definition field_loaded :: "UUID multiset \<Rightarrow> field \<Rightarrow> bool" where
  "field_loaded hs f \<longleftrightarrow> (if IsIndexed f then \<exists>bt. f_bt f = Some bt \<and> bt_bootUUID bt = f_index f \<and> at_hand hs bt else f_bt f = None)"

definition table_loaded :: "UUID multiset \<Rightarrow> table \<Rightarrow> bool" where
  "table_loaded hs t \<longleftrightarrow> (\<forall>f \<in> set (tb_fields t). field_loaded hs f) \<and> (\<exists>bt. tb_rowIndexBt t = Some bt \<and> bt_bootUUID bt = tb_rowIndex t \<and> at_hand hs bt)"

lemma field_loaded_more: "field_loaded hs f \<Longrightarrow> hs \<subseteq># hs' \<Longrightarrow> field_loaded hs' f"
  by (auto simp: field_loaded_def at_hand_def split: if_splits dest: mset_subset_eqD)

lemma table_loaded_more: "table_loaded hs t \<Longrightarrow> hs \<subseteq># hs' \<Longrightarrow> table_loaded hs' t"
  by (auto simp: table_loaded_def at_hand_def intro: field_loaded_more dest: mset_subset_eqD)

lemma field_saved_boot: "field_saved m f \<Longrightarrow> IsIndexed f \<Longrightarrow> f_bt f \<noteq> None \<and> bt_bootUUID (the (f_bt f)) = f_index f"
  by (auto simp: field_saved_def)

lemma field_loaded_boot: "field_loaded hs f \<Longrightarrow> IsIndexed f \<Longrightarrow> f_bt f \<noteq> None \<and> bt_bootUUID (the (f_bt f)) = f_index f \<and> at_hand hs (the (f_bt f))"
  by (auto simp: field_loaded_def)

lemma map_eq_rel: "map f xs = map f ys \<longleftrightarrow> list_all2 (\<lambda>x y. f x = f y) xs ys"
  by (simp add: list.rel_eq [symmetric] list.rel_map)

text \<open>What two tables that differ in their handles have in common.\<close>

lemma same_field:
  assumes "unloaded_field f = unloaded_field g"
  shows "f_SelfUUID f = f_SelfUUID g" "IsIndexed f = IsIndexed g" "f_index f = f_index g" "keyOf f = keyOf g" "field_raw f = field_raw g" "f_FName f = f_FName g" "f_FType f = f_FType g"
  using assms unloaded_field_sel same_shape_key unloaded_raw(2) by metis+

lemma same_table:
  assumes "unloaded t' = unloaded t"
  shows "list_all2 (\<lambda>f g. unloaded_field f = unloaded_field g) (tb_fields t) (tb_fields t')" "list_all2 (\<lambda>f g. unloaded_field f = unloaded_field g) (indexed t) (indexed t')"
    "tb_rowIndex t' = tb_rowIndex t" "tb_SelfUUID t' = tb_SelfUUID t" "tb_Name t' = tb_Name t" "metas t' = metas t" "table_raw t' = table_raw t" "typed_table t' = typed_table t" "version_at m t' = version_at m t"
proof -
  have fs: "map unloaded_field (tb_fields t) = map unloaded_field (tb_fields t')" and row: "tb_rowIndex t' = tb_rowIndex t" and self: "tb_SelfUUID t' = tb_SelfUUID t" and nm: "tb_Name t' = tb_Name t"
    using arg_cong [OF assms, of tb_fields] arg_cong [OF assms, of tb_rowIndex] arg_cong [OF assms, of tb_SelfUUID] arg_cong [OF assms, of tb_Name] by simp_all
  show "list_all2 (\<lambda>f g. unloaded_field f = unloaded_field g) (tb_fields t) (tb_fields t')" using fs by (simp add: map_eq_rel)
  have "map unloaded_field (indexed t) = map unloaded_field (indexed t')" using arg_cong [OF fs, of "filter IsIndexed"] by (simp add: filter_map comp_def)
  then show "list_all2 (\<lambda>f g. unloaded_field f = unloaded_field g) (indexed t) (indexed t')" by (simp add: map_eq_rel)
  show "tb_rowIndex t' = tb_rowIndex t" "tb_SelfUUID t' = tb_SelfUUID t" "tb_Name t' = tb_Name t" by (fact row self nm)+
  show "metas t' = metas t" using arg_cong [OF fs, of "\<lambda>l. f_SelfUUID ` set l"] self by (simp add: metas_def image_image)
  show "table_raw t' = table_raw t" "typed_table t' = typed_table t" "version_at m t' = version_at m t" using same_shapes(1,2) [OF unloaded_shapes [OF assms]] arg_cong [OF assms, of table_raw] by (simp_all add: version_at_def fun_eq_iff unloaded_raw)
qed

definition same_tree :: "UUID multiset \<Rightarrow> bPlusTree \<times> slot list \<Rightarrow> bPlusTree \<times> slot list \<Rightarrow> bool" where
  "same_tree hs T T' \<longleftrightarrow> snd T' = snd T \<and> bt_bootUUID (fst T') = bt_bootUUID (fst T) \<and> at_hand hs (fst T')"

lemma plant_reload: "same_tree hs' T T' \<Longrightarrow> plant m hs T F \<Longrightarrow> plant m hs' T' F"
  by (auto simp: plant_def index_def at_hand_def foot_def same_tree_def)

lemma trees_reload: "list_all2 (same_tree hs') Ts Ts' \<Longrightarrow> trees m hs Ts G \<Longrightarrow> trees m hs' Ts' G"
proof (induction arbitrary: G rule: list_all2_induct)
  case (Cons T Ts T' Ts')
  then obtain F G' where F: "plant m hs T F" "trees m hs Ts G'" "F \<inter> G' = {}" "G = F \<union> G'" by auto
  have "plant m hs' T' F" "trees m hs' Ts' G'" by (rule plant_reload [OF Cons.hyps(1) F(1)], rule Cons.IH [OF F(2)])
  then show ?case using F(3,4) by auto
qed simp

lemma reload_trees:
  assumes "table_saved m t" and "unloaded t' = unloaded t" and "table_loaded hs' t'"
  shows "list_all2 (same_tree hs') (trees_of t vs) (trees_of t' vs)"
proof -
  have sv: "f_bt f \<noteq> None \<and> bt_bootUUID (the (f_bt f)) = f_index f" if "f \<in> set (indexed t)" for f using that assms(1) field_saved_boot unfolding table_saved_def by fastforce
  have ld: "f_bt f \<noteq> None \<and> bt_bootUUID (the (f_bt f)) = f_index f \<and> at_hand hs' (the (f_bt f))" if "f \<in> set (indexed t')" for f
    using that assms(3) field_loaded_boot unfolding table_loaded_def by fastforce
  obtain bt bt' where bt: "tb_rowIndexBt t = Some bt" "bt_bootUUID bt = tb_rowIndex t" "tb_rowIndexBt t' = Some bt'" "bt_bootUUID bt' = tb_rowIndex t" "at_hand hs' bt'"
    using assms(1,3) same_table(3) [OF assms(2)] by (auto simp: table_saved_def table_loaded_def)
  have "list_all2 (same_tree hs') (map (field_tree vs) (indexed t)) (map (field_tree vs) (indexed t'))"
    unfolding list.rel_map
  proof (rule list.rel_mono_strong [OF same_table(2) [OF assms(2)]])
    fix f g assume fg: "f \<in> set (indexed t)" "g \<in> set (indexed t')" and eq: "unloaded_field f = unloaded_field g"
    have "key_pair g = key_pair f" using same_field(4) [OF eq] by (simp add: key_pair_def [abs_def])
    then show "same_tree hs' (field_tree vs f) (field_tree vs g)"
      using sv [OF fg(1)] ld [OF fg(2)] same_field(3) [OF eq] by (simp add: field_tree_def same_tree_def)
  qed
  then show ?thesis using bt by (intro list_all2_appendI) (simp_all add: row_tree_def same_tree_def)
qed

lemma reload_saved:
  assumes "table_saved m t" and "unloaded t' = unloaded t" and "table_loaded hs' t'"
  shows "table_saved m t'"
proof -
  note same = same_table [OF assms(2)]
  have "field_saved m g" if g: "g \<in> set (tb_fields t')" for g
  proof -
    obtain f where f: "f \<in> set (tb_fields t)" "unloaded_field f = unloaded_field g" using same(1) g unfolding list_all2_conv_all_nth in_set_conv_nth by metis
    then have "field_saved m f" "field_loaded hs' g" using assms(1,3) g by (simp_all add: table_saved_def table_loaded_def)
    then show ?thesis using same_field [OF f(2)] by (auto simp: field_saved_def field_loaded_def split: if_splits)
  qed
  moreover have "length (tb_fields t') = length (tb_fields t)" using same(1) by (simp add: list_all2_lengthD)
  moreover have "\<exists>bt. tb_rowIndexBt t' = Some bt \<and> bt_bootUUID bt = tb_rowIndex t'" using assms(3) by (auto simp: table_loaded_def)
  ultimately show ?thesis using assms(1) same by (simp add: table_saved_def)
qed

lemma reload_table:
  assumes "table_at m hs K t vs" and "table_saved m t" and "unloaded t' = unloaded t" and "table_loaded hs' t'"
  shows "table_at m hs' K t' vs"
proof -
  note same = same_table [OF assms(3)]
  have "forest m hs (K \<union> v_uuid ` set vs) (trees_of t vs)" using assms(1) by (simp only: table_at_def)
  then have "forest m hs' (K \<union> v_uuid ` set vs) (trees_of t' vs)" unfolding forest_trees using trees_reload [OF reload_trees [OF assms(2-4)]] by blast
  moreover have "tb_rowIndexBt t' \<noteq> None" "\<forall>f \<in> set (tb_fields t'). IsIndexed f \<longrightarrow> f_bt f \<noteq> None" using assms(4) field_loaded_boot by (auto simp: table_loaded_def)
  ultimately show ?thesis using assms(1) unfolding table_at_def same(8,9) by blast
qed

lemma reload_occupies:
  assumes "occupies m hs (t, vs) F" and "unloaded t' = unloaded t" and "table_loaded hs' t'"
  shows "occupies m hs' (t', vs) F"
proof -
  obtain G where G: "trees m hs (trees_of t vs) G" "G \<inter> (metas t \<union> v_uuid ` set vs) = {}" "F = metas t \<union> v_uuid ` set vs \<union> G" and at: "table_at m hs (metas t) t vs" "table_saved m t"
    using assms(1) by (auto simp: occupies_def)
  have "trees m hs' (trees_of t' vs) G" by (rule trees_reload [OF reload_trees [OF at(2) assms(2,3)] G(1)])
  then show ?thesis using G(2,3) reload_table [OF at assms(2,3)] reload_saved [OF at(2) assms(2,3)] by (auto simp: occupies_def same_table(6) [OF assms(2)])
qed

section \<open>Loading\<close>

lemma forest_member: "forest m hs S Ts \<Longrightarrow> T \<in> set Ts \<Longrightarrow> \<exists>F. plant m hs T F"
  by (induction Ts arbitrary: S) auto

lemma boots_stored:
  assumes "table_at m hs K t vs" and "table_saved m t"
  shows "f \<in> set (tb_fields t) \<Longrightarrow> IsIndexed f \<Longrightarrow> \<exists>r. m (f_index f) = Some (UUIDToRaw r)" and "\<exists>r. m (tb_rowIndex t) = Some (UUIDToRaw r)"
proof -
  have fo: "forest m hs (K \<union> v_uuid ` set vs) (map (field_tree vs) (indexed t) @ [row_tree t vs])" using assms(1) by (simp only: table_at_def)
  have boot: "\<exists>r. m (bt_bootUUID (fst T)) = Some (UUIDToRaw r)" if "T \<in> set (map (field_tree vs) (indexed t) @ [row_tree t vs])" for T
    using forest_member [OF fo that] by (auto simp: plant_def index_def)
  show "\<exists>r. m (tb_rowIndex t) = Some (UUIDToRaw r)" using boot [of "row_tree t vs"] assms(2) by (auto simp: row_tree_def table_saved_def)
  assume f: "f \<in> set (tb_fields t)" "IsIndexed f"
  then have "bt_bootUUID (the (f_bt f)) = f_index f" using assms(2) field_saved_boot by (auto simp: table_saved_def)
  then show "\<exists>r. m (f_index f) = Some (UUIDToRaw r)" using boot [of "field_tree vs f"] f by (simp add: field_tree_def)
qed

context item_store
begin

lemma bt_Load_store:
  assumes "inv n d m hs" and "size hs < limit" and "m b = Some (UUIDToRaw r)"
  obtains bt d' where "bt_Load b d = (Ok bt, d')" "inv n d' m (add_mset b hs)" "bt_bootUUID bt = b" "at_hand (add_mset b hs) bt"
proof -
  obtain di d' where "dm_Read b d = (Ok (Some di), d')" "handle b (length (UUIDToRaw r)) di" "inv n d' m (add_mset b hs)" using read_law [OF assms(1,3,2)] by blast
  then show thesis by (intro that [of "\<lparr>bt_bootUUID = b, bt_bootDataitem = di\<rparr>" d']) (simp_all add: bt_Load_def at_hand_def)
qed

text \<open>A record of the super transaction is always there for it.\<close>

lemma must_Read_store:
  assumes "inv n (sm_DM s) m hs" and "size hs < limit" and "idle (sm_ec s)" and "live SUPER_XID s = Ok tx" and "t_XID tx = SUPER_XID" and "m u = Some (verRaw SUPER_XID 0 raw)"
  obtains d' c' where "must_Read SUPER_XID u s = (Ok raw, s\<lparr>sm_DM := d', sm_ec := c'\<rparr>)" "inv n d' m hs" "idle c'"
proof -
  have "IsVisible (tm_IsCommitted (sm_TM s)) tx SUPER_XID 0" using assms(5) by (simp add: IsVisible_def readCommitted_def repeatableRead_def)
  then obtain d' c' where "sm_Read SUPER_XID u s = (Ok (Some raw), s\<lparr>sm_DM := d', sm_ec := c'\<rparr>)" "inv n d' m hs" "idle c'" using sm_Read_store [OF assms(1-4,6)] by auto
  then show thesis using that by (simp add: must_Read_def or_panic_def)
qed

lemma LoadField_store:
  assumes "inv n (sm_DM s) m hs" and "size hs < limit" and "idle (sm_ec s)" and "live SUPER_XID s = Ok tx" and "t_XID tx = SUPER_XID" and "field_saved m f"
    and "IsIndexed f \<longrightarrow> (\<exists>r. m (f_index f) = Some (UUIDToRaw r))"
  obtains g d' c' hs' where "LoadField (f_SelfUUID f) s = (Ok g, s\<lparr>sm_DM := d', sm_ec := c'\<rparr>)" "inv n d' m hs'" "idle c'" "hs \<subseteq># hs'" "size hs' \<le> Suc (size hs)"
    "unloaded_field g = unloaded_field f" "field_loaded hs' g"
proof -
  let ?g = "\<lambda>bt. \<lparr>f_SelfUUID = f_SelfUUID f, f_FName = f_FName f, f_FType = f_FType f, f_index = f_index f, f_bt = bt\<rparr>"
  have un: "unloaded_field (?g bt) = unloaded_field f" for bt by (cases f) (simp add: unloaded_field_def)
  have len: "length (f_FName f) < 2 ^ 32" "length (f_FType f) < 2 ^ 32" and rec: "m (f_SelfUUID f) = Some (verRaw SUPER_XID 0 (field_raw f))"
    using assms(6) by (simp_all add: field_saved_def)
  obtain d1 c1 where r: "must_Read SUPER_XID (f_SelfUUID f) s = (Ok (field_raw f), s\<lparr>sm_DM := d1, sm_ec := c1\<rparr>)" "inv n d1 m hs" "idle c1"
    by (rule must_Read_store [OF assms(1-5) rec])
  let ?s = "s\<lparr>sm_DM := d1, sm_ec := c1\<rparr>"
  have ps: "ParseVarStr (field_raw f) = Ok (f_FName f, 4 + length (f_FName f))" "drop (4 + length (f_FName f)) (field_raw f) = VarStrToRaw (f_FType f) @ UUIDToRaw (f_index f)"
    "drop (4 + length (f_FName f) + (4 + length (f_FType f))) (field_raw f) = UUIDToRaw (f_index f)" "length (field_raw f) = 16 + length (f_FName f) + length (f_FType f)"
    using ParseVarStr_prefix [OF len(1)] by (simp_all add: field_raw_def VarStrToRaw_def)
  have pt: "ParseVarStr (VarStrToRaw (f_FType f) @ UUIDToRaw (f_index f)) = Ok (f_FType f, 4 + length (f_FType f))" by (rule ParseVarStr_prefix [OF len(2)])
  have parse: "f_parseSelf (f_SelfUUID f) (field_raw f) ?s =
      (if f_index f \<noteq> NilUUID then sbind (or_panic (on_dm (bt_Load (f_index f)) ?s)) (\<lambda>bt s. (Ok (?g (Some bt)), s)) else (Ok (?g None), ?s))"
    unfolding f_parseSelf_def ps(1) using ps(2-4) pt by (simp add: ParseUUID_self)
  show thesis
  proof (cases "IsIndexed f")
    case False
    then have "LoadField (f_SelfUUID f) s = (Ok (?g None), ?s)" using r(1) parse by (simp add: LoadField_def IsIndexed_def)
    then show thesis by (rule that [OF _ r(2,3) _ _ un]) (use False in \<open>simp_all add: field_loaded_def IsIndexed_def\<close>)
  next
    case True
    then obtain x where x: "m (f_index f) = Some (UUIDToRaw x)" using assms(7) by blast
    obtain bt d2 where b: "bt_Load (f_index f) d1 = (Ok bt, d2)" "inv n d2 m (add_mset (f_index f) hs)" "bt_bootUUID bt = f_index f" "at_hand (add_mset (f_index f) hs) bt"
      by (rule bt_Load_store [OF r(2) assms(2) x])
    have "LoadField (f_SelfUUID f) s = (Ok (?g (Some bt)), s\<lparr>sm_DM := d2, sm_ec := c1\<rparr>)" using r(1) parse True b(1) by (simp add: LoadField_def IsIndexed_def on_dm_def or_panic_def)
    then show thesis by (rule that [OF _ b(2) r(3) _ _ un]) (use True b(3,4) in \<open>simp_all add: field_loaded_def IsIndexed_def\<close>)
  qed
qed

lemma loadFields_store:
  assumes "inv n (sm_DM s) m hs" and "size hs + length fs \<le> limit" and "idle (sm_ec s)" and "live SUPER_XID s = Ok tx" and "t_XID tx = SUPER_XID"
    and "\<forall>f \<in> set fs. field_saved m f \<and> (IsIndexed f \<longrightarrow> (\<exists>r. m (f_index f) = Some (UUIDToRaw r)))"
    and "drop pos raw = concat (map (\<lambda>f. UUIDToRaw (f_SelfUUID f)) fs) @ post" and "pos \<le> length raw"
  shows "\<exists>gs d' c' hs'. loadFields (length fs) raw pos acc s = (Ok (acc @ gs, pos + 8 * length fs), s\<lparr>sm_DM := d', sm_ec := c'\<rparr>) \<and> inv n d' m hs' \<and> idle c' \<and>
     hs \<subseteq># hs' \<and> size hs' \<le> size hs + length fs \<and> map unloaded_field gs = map unloaded_field fs \<and> (\<forall>g \<in> set gs. field_loaded hs' g)"
  using assms
proof (induction fs arbitrary: s hs pos acc)
  case Nil
  then show ?case by (intro exI [of _ "[]"] exI [of _ "sm_DM s"] exI [of _ "sm_ec s"] exI [of _ hs]) simp
next
  case (Cons f fs)
  have sz: "size hs < limit" and fsv: "field_saved m f" and ix: "IsIndexed f \<longrightarrow> (\<exists>r. m (f_index f) = Some (UUIDToRaw r))" using Cons.prems(2,6) by simp_all
  obtain g d1 c1 hs1 where g: "LoadField (f_SelfUUID f) s = (Ok g, s\<lparr>sm_DM := d1, sm_ec := c1\<rparr>)" "inv n d1 m hs1" "idle c1" "hs \<subseteq># hs1" "size hs1 \<le> Suc (size hs)"
    "unloaded_field g = unloaded_field f" "field_loaded hs1 g" by (rule LoadField_store [OF Cons.prems(1) sz Cons.prems(3-5) fsv ix])
  let ?s = "s\<lparr>sm_DM := d1, sm_ec := c1\<rparr>"
  have dr: "drop pos raw = UUIDToRaw (f_SelfUUID f) @ concat (map (\<lambda>f. UUIDToRaw (f_SelfUUID f)) fs) @ post" using Cons.prems(7) by simp
  have "8 \<le> length (drop pos raw)" unfolding dr by simp
  then have p8: "pos + 8 \<le> length raw" by simp
  have "drop (pos + 8) raw = drop 8 (drop pos raw)" by (simp add: add.commute)
  then have d8: "drop (pos + 8) raw = concat (map (\<lambda>f. UUIDToRaw (f_SelfUUID f)) fs) @ post" unfolding dr by simp
  have i1: "inv n (sm_DM ?s) m hs1" "size hs1 + length fs \<le> limit" "idle (sm_ec ?s)" "live SUPER_XID ?s = Ok tx"
    "\<forall>f \<in> set fs. field_saved m f \<and> (IsIndexed f \<longrightarrow> (\<exists>r. m (f_index f) = Some (UUIDToRaw r)))" using g(2,3,5) Cons.prems(2,4,6) by (simp_all add: live_def)
  obtain gs d' c' hs' where l: "loadFields (length fs) raw (pos + 8) (acc @ [g]) ?s = (Ok ((acc @ [g]) @ gs, pos + 8 + 8 * length fs), ?s\<lparr>sm_DM := d', sm_ec := c'\<rparr>)" "inv n d' m hs'" "idle c'"
    "hs1 \<subseteq># hs'" "size hs' \<le> size hs1 + length fs" "map unloaded_field gs = map unloaded_field fs" "\<forall>g \<in> set gs. field_loaded hs' g"
    using Cons.IH [OF i1(1-4) Cons.prems(5) i1(5) d8 p8, of "acc @ [g]"] by blast
  have "loadFields (length (f # fs)) raw pos acc s = (Ok (acc @ g # gs, pos + 8 * length (f # fs)), s\<lparr>sm_DM := d', sm_ec := c'\<rparr>)"
    using l(1) g(1) dr Cons.prems(8) by (simp add: ParseUUID_prefix LEN_UUID_def)
  moreover have "\<forall>h \<in> set (g # gs). field_loaded hs' h" using l(7) field_loaded_more [OF g(7) l(4)] by simp
  moreover have "hs \<subseteq># hs'" "size hs' \<le> size hs + length (f # fs)" "map unloaded_field (g # gs) = map unloaded_field (f # fs)" using l(4-6) g(4-6) by (auto intro: subset_mset.trans)
  ultimately show ?case using l(2,3) by blast
qed

lemma LoadTable_store:
  assumes "inv n (sm_DM s) m hs" and "size hs + length (tb_fields t) < limit" and "idle (sm_ec s)" and "live SUPER_XID s = Ok tx" and "t_XID tx = SUPER_XID"
    and "table_saved m t" and "table_at m hs0 K t vs"
  obtains t' d' c' hs' where "LoadTable (tb_SelfUUID t) s = (Ok t', s\<lparr>sm_DM := d', sm_ec := c'\<rparr>)" "inv n d' m hs'" "idle c'" "hs \<subseteq># hs'" "size hs' \<le> size hs + length (tb_fields t) + 1"
    "unloaded t' = unloaded t" "table_loaded hs' t'"
proof -
  let ?raw = "table_raw t" and ?nm = "tb_Name t" and ?fs = "tb_fields t" and ?p = "4 + length (tb_Name t)"
  let ?refs = "concat (map (\<lambda>f. UUIDToRaw (f_SelfUUID f)) ?fs)"
  have rec: "m (tb_SelfUUID t) = Some (verRaw SUPER_XID 0 ?raw)" and nm: "length ?nm < 2 ^ 32" and lf: "length ?fs < 256" and fsv: "\<forall>f \<in> set ?fs. field_saved m f"
    using assms(6) by (simp_all add: table_saved_def)
  obtain r where row: "m (tb_rowIndex t) = Some (UUIDToRaw r)" using boots_stored(2) [OF assms(7,6)] by blast
  then have nz: "tb_rowIndex t \<noteq> NilUUID" using nil_law [OF assms(1)] by auto
  have sz: "size hs < limit" and sz1: "size hs + length ?fs \<le> limit" using assms(2) by simp_all
  obtain d1 c1 where rd: "must_Read SUPER_XID (tb_SelfUUID t) s = (Ok ?raw, s\<lparr>sm_DM := d1, sm_ec := c1\<rparr>)" "inv n d1 m hs" "idle c1"
    by (rule must_Read_store [OF assms(1) sz assms(3-5) rec])
  let ?s = "s\<lparr>sm_DM := d1, sm_ec := c1\<rparr>"
  have lr: "length ?refs = 8 * length ?fs" by (induction "tb_fields t" arbitrary: t) (simp_all add: comp_def length_concat sum_list_triv)
  have rest: "drop ?p ?raw = tb_status t # UUIDToRaw (tb_Next t) @ of_nat (length ?fs) # ?refs @ UUIDToRaw (tb_rowIndex t)" by (simp add: table_raw_def VarStrToRaw_def)
  have len: "length ?raw = ?p + 18 + 8 * length ?fs" using lr by (simp add: table_raw_def VarStrToRaw_def)
  have at: "?raw ! (?p + i) = (tb_status t # UUIDToRaw (tb_Next t) @ of_nat (length ?fs) # ?refs @ UUIDToRaw (tb_rowIndex t)) ! i" if "?p + i \<le> length ?raw" for i
    using nth_drop [of ?p ?raw i] that rest by simp
  have dr: "drop (?p + 1) ?raw = UUIDToRaw (tb_Next t) @ of_nat (length ?fs) # ?refs @ UUIDToRaw (tb_rowIndex t)"
    "drop (?p + 10) ?raw = ?refs @ UUIDToRaw (tb_rowIndex t)" "drop (?p + 10 + 8 * length ?fs) ?raw = UUIDToRaw (tb_rowIndex t)"
  proof -
    have dd: "drop (?p + i) ?raw = drop i (drop ?p ?raw)" for i by (simp add: add.commute)
    show "drop (?p + 1) ?raw = UUIDToRaw (tb_Next t) @ of_nat (length ?fs) # ?refs @ UUIDToRaw (tb_rowIndex t)" unfolding dd rest by simp
    show d10: "drop (?p + 10) ?raw = ?refs @ UUIDToRaw (tb_rowIndex t)" unfolding dd rest by simp
    have "drop (?p + 10 + 8 * length ?fs) ?raw = drop (8 * length ?fs) (drop (?p + 10) ?raw)" by (simp add: add.commute)
    then show "drop (?p + 10 + 8 * length ?fs) ?raw = UUIDToRaw (tb_rowIndex t)" unfolding d10 using lr by simp
  qed
  have nth: "?raw ! ?p = tb_status t" "?raw ! (?p + 9) = of_nat (length ?fs)" using at [of 0] at [of 9] len by (simp_all add: nth_append nth_Cons')
  have fb: "\<forall>f \<in> set ?fs. field_saved m f \<and> (IsIndexed f \<longrightarrow> (\<exists>r. m (f_index f) = Some (UUIDToRaw r)))" using fsv boots_stored(1) [OF assms(7,6)] by blast
  obtain gs d2 c2 hs2 where l: "loadFields (length ?fs) ?raw (?p + 10) [] ?s = (Ok ([] @ gs, ?p + 10 + 8 * length ?fs), ?s\<lparr>sm_DM := d2, sm_ec := c2\<rparr>)" "inv n d2 m hs2" "idle c2" "hs \<subseteq># hs2"
    "size hs2 \<le> size hs + length ?fs" "map unloaded_field gs = map unloaded_field ?fs" "\<forall>g \<in> set gs. field_loaded hs2 g"
    using loadFields_store [of n ?s m hs ?fs tx "?p + 10" ?raw "UUIDToRaw (tb_rowIndex t)" "[]"] rd(2,3) sz1 assms(4,5) fb dr(2) len by (auto simp: live_def)
  let ?s2 = "s\<lparr>sm_DM := d2, sm_ec := c2\<rparr>"
  let ?t = "\<lambda>bt. \<lparr>tb_SelfUUID = tb_SelfUUID t, tb_Name = ?nm, tb_status = tb_status t, tb_Next = tb_Next t, tb_fields = gs, tb_rowIndex = tb_rowIndex t, tb_rowIndexBt = bt\<rparr>"
  have un: "unat (of_nat (length ?fs) :: byte) = length ?fs" using lf by (simp add: unat_of_nat)
  have nm': "ParseVarStr ?raw = Ok (?nm, ?p)" using ParseVarStr_prefix [OF nm] by (simp add: table_raw_def)
  have ps: "t_parseSelf (tb_SelfUUID t) ?raw ?s = (Ok (?t None), ?s2)"
    unfolding t_parseSelf_def nm' using nth dr len l(1) un by (simp add: LEN_UUID_def ParseUUID_prefix ParseUUID_self)
  have sz2: "size hs2 < limit" using l(5) assms(2) by simp
  obtain bt d3 where b: "bt_Load (tb_rowIndex t) d2 = (Ok bt, d3)" "inv n d3 m (add_mset (tb_rowIndex t) hs2)" "bt_bootUUID bt = tb_rowIndex t" "at_hand (add_mset (tb_rowIndex t) hs2) bt"
    by (rule bt_Load_store [OF l(2) sz2 row])
  have "LoadTable (tb_SelfUUID t) s = (Ok (?t (Some bt)), s\<lparr>sm_DM := d3, sm_ec := c2\<rparr>)" using rd(1) ps nz b(1) by (simp add: LoadTable_def on_dm_def or_panic_def)
  moreover have "unloaded (?t (Some bt)) = unloaded t" using l(6) by (cases t) (simp add: unloaded_def)
  moreover have "table_loaded (add_mset (tb_rowIndex t) hs2) (?t (Some bt))" using l(7) b(3,4) field_loaded_more by (fastforce simp: table_loaded_def)
  ultimately show thesis using that [OF _ b(2) l(3)] l(4,5) by (simp add: subset_mset.trans)
qed

end

section \<open>The tables of a database\<close>

text \<open>The list of tables on disk, from the address in the boot file, and the tables with the versions they hold.\<close>

fun table_list :: "UUID \<Rightarrow> table list \<Rightarrow> bool" where
  "table_list u [] \<longleftrightarrow> u = NilUUID"
| "table_list u (t # ts) \<longleftrightarrow> u = tb_SelfUUID t \<and> table_list (tb_Next t) ts"

definition tables_hold :: "(UUID \<rightharpoonup> bytes) \<Rightarrow> UUID multiset \<Rightarrow> (table \<times> version list) list \<Rightarrow> bool" where
  "tables_hold m hs db \<longleftrightarrow> (\<forall>(t, vs) \<in> set db. table_at m hs (metas t) t vs \<and> table_saved m t)"

text \<open>The handles that loading takes: one for every field with an index and one for the row index.\<close>

fun load_cost :: "(table \<times> version list) list \<Rightarrow> nat" where
  "load_cost [] = 0"
| "load_cost ((t, vs) # db) = length (tb_fields t) + 1 + load_cost db"

definition by_name :: "table list \<Rightarrow> string \<rightharpoonup> table" where
  "by_name ts = map_of (map (\<lambda>t. (tb_Name t, t)) ts)"

definition reloaded :: "UUID multiset \<Rightarrow> table \<times> version list \<Rightarrow> table \<Rightarrow> bool" where
  "reloaded hs tv t' \<longleftrightarrow> unloaded t' = unloaded (fst tv) \<and> table_loaded hs t'"

lemma reloaded_name: "reloaded hs tv t' \<Longrightarrow> tb_Name t' = tb_Name (fst tv) \<and> tb_Next t' = tb_Next (fst tv) \<and> tb_SelfUUID t' = tb_SelfUUID (fst tv)"
  unfolding reloaded_def using unloaded_sel by metis

lemma dom_by_name: "dom (by_name ts) = tb_Name ` set ts"
  by (simp add: by_name_def dom_map_of_conv_image_fst image_image)

context item_store
begin

lemma loadTables_store:
  assumes "inv n (sm_DM (tbm_SM M)) m hs" and "size hs + load_cost db \<le> limit" and "idle (sm_ec (tbm_SM M))" and "live SUPER_XID (tbm_SM M) = Ok tx" and "t_XID tx = SUPER_XID"
    and "table_list u (map fst db)" and "tables_hold m hs0 db" and "distinct (map (\<lambda>tv. tb_Name (fst tv)) db)"
  shows "\<exists>ts d' c' hs'. loadTables u M = Some (Ok (), M\<lparr>tbm_SM := (tbm_SM M)\<lparr>sm_DM := d', sm_ec := c'\<rparr>, tbm_tc := tbm_tc M ++ by_name ts\<rparr>) \<and>
     inv n d' m hs' \<and> idle c' \<and> hs \<subseteq># hs' \<and> size hs' \<le> size hs + load_cost db \<and> list_all2 (reloaded hs') db ts"
  using assms
proof (induction db arbitrary: M hs u)
  case Nil
  have "M = M\<lparr>tbm_SM := (tbm_SM M)\<lparr>sm_DM := sm_DM (tbm_SM M), sm_ec := sm_ec (tbm_SM M)\<rparr>, tbm_tc := tbm_tc M ++ by_name []\<rparr>" by (simp add: by_name_def)
  then show ?case using Nil.prems by (intro exI [of _ "[]"] exI [of _ "sm_DM (tbm_SM M)"] exI [of _ "sm_ec (tbm_SM M)"] exI [of _ hs]) (subst loadTables.simps, simp)
next
  case (Cons tv db)
  obtain t vs where tv: "tv = (t, vs)" by fastforce
  have t: "table_at m hs0 (metas t) t vs" "table_saved m t" "u = tb_SelfUUID t" "table_list (tb_Next t) (map fst db)" "tables_hold m hs0 db"
    using Cons.prems(6,7) tv by (auto simp: tables_hold_def)
  have sz: "size hs + length (tb_fields t) < limit" using Cons.prems(2) tv by simp
  obtain t' d1 c1 hs1 where l: "LoadTable (tb_SelfUUID t) (tbm_SM M) = (Ok t', (tbm_SM M)\<lparr>sm_DM := d1, sm_ec := c1\<rparr>)" "inv n d1 m hs1" "idle c1" "hs \<subseteq># hs1"
    "size hs1 \<le> size hs + length (tb_fields t) + 1" "unloaded t' = unloaded t" "table_loaded hs1 t'"
    by (rule LoadTable_store [OF Cons.prems(1) sz Cons.prems(3-5) t(2,1)])
  have same: "tb_Name t' = tb_Name t" "tb_Next t' = tb_Next t" using l(6) unloaded_sel by metis+
  have nz: "u \<noteq> NilUUID" using t(2,3) nil_law [OF Cons.prems(1)] by (auto simp: table_saved_def)
  let ?M = "set_table t' (M\<lparr>tbm_SM := (tbm_SM M)\<lparr>sm_DM := d1, sm_ec := c1\<rparr>\<rparr>)"
  have M: "tbm_SM ?M = (tbm_SM M)\<lparr>sm_DM := d1, sm_ec := c1\<rparr>" "tbm_tc ?M = (tbm_tc M)(tb_Name t \<mapsto> t')" by (simp_all add: set_table_def same)
  have i: "inv n (sm_DM (tbm_SM ?M)) m hs1" "size hs1 + load_cost db \<le> limit" "idle (sm_ec (tbm_SM ?M))" "live SUPER_XID (tbm_SM ?M) = Ok tx"
    using l(2,3,5) Cons.prems(2,4) tv M by (simp_all add: live_def)
  have dist: "distinct (map (\<lambda>tv. tb_Name (fst tv)) db)" "tb_Name t \<notin> (\<lambda>tv. tb_Name (fst tv)) ` set db" using Cons.prems(8) tv by simp_all
  obtain ts d' c' hs' where r: "loadTables (tb_Next t) ?M = Some (Ok (), ?M\<lparr>tbm_SM := (tbm_SM ?M)\<lparr>sm_DM := d', sm_ec := c'\<rparr>, tbm_tc := tbm_tc ?M ++ by_name ts\<rparr>)"
    "inv n d' m hs'" "idle c'" "hs1 \<subseteq># hs'" "size hs' \<le> size hs1 + load_cost db" "list_all2 (reloaded hs') db ts"
    using Cons.IH [OF i Cons.prems(5) t(4,5) dist(1)] by blast
  have "tb_Name ` set ts = (\<lambda>tv. tb_Name (fst tv)) ` set db" using r(6) reloaded_name by (induction rule: list_all2_induct) auto
  then have new: "tb_Name t \<notin> dom (by_name ts)" using dist(2) by (simp add: dom_by_name)
  have "(tbm_tc M)(tb_Name t \<mapsto> t') ++ by_name ts = tbm_tc M ++ by_name (t' # ts)"
    using map_add_upd_left [OF new, of "tbm_tc M" t'] by (simp add: by_name_def same)
  then have "loadTables u M = Some (Ok (), M\<lparr>tbm_SM := (tbm_SM M)\<lparr>sm_DM := d', sm_ec := c'\<rparr>, tbm_tc := tbm_tc M ++ by_name (t' # ts)\<rparr>)"
    using l(1) r(1) nz t(3) same(2) by (subst loadTables.simps) (simp add: on_sm_def set_table_def same(1))
  moreover have "reloaded hs' tv t'" using l(6) table_loaded_more [OF l(7) r(4)] tv by (simp add: reloaded_def)
  then have "list_all2 (reloaded hs') (tv # db) (t' # ts)" using r(6) by simp
  moreover have "hs \<subseteq># hs'" "size hs' \<le> size hs + load_cost (tv # db)" using l(4,5) r(4,5) tv by (auto intro: subset_mset.trans)
  ultimately show ?case using r(2,3) by blast
qed

end

end
