(* ===== verification/Launcher.thy ===== *)
theory Launcher
  imports Reload Server
begin

text \<open>
  Creating, opening and closing a database (\<^verbatim>\<open>cmd/launcher.go\<close>) and the life of the listening server (\<open>Start\<close> and \<open>Close\<close> of \<^verbatim>\<open>server/server.go\<close>). The state is the four files in the database
  directory. \<open>utils.Fatal\<close> ends the process with an error; a panic crashes it. The launcher drops the error of opening the transaction manager and goes on with a nil pointer, which is an outcome of
  its own here. What operating system calls do and the random bytes of page 1 are arguments.
\<close>

section \<open>The files\<close>

record db_files =
  dbf_db :: "os_file option"
  dbf_log :: "os_file option"
  dbf_xid :: "os_file option"
  dbf_bt :: booter

datatype 'a launch = Done 'a | Exited error | Crashed | NilManager

definition dbExists :: "db_files \<Rightarrow> bool" where
  "dbExists fs \<longleftrightarrow> dbf_db fs \<noteq> None \<or> dbf_log fs \<noteq> None \<or> dbf_xid fs \<noteq> None \<or> bo_file (dbf_bt fs) \<noteq> None"

text \<open>The outcomes of the calls that \<open>createDB\<close> makes: creating the directory, and the writes to the new files.\<close>

record create_env =
  ce_mkdir :: "error option"
  ce_xid :: "bool list"
  ce_db :: "bool list"
  ce_log :: "bool list"
  ce_rnd :: bytes
  ce_order :: "UUID list"

text \<open>Closing the managers: their errors are only reported.\<close>

definition closeDM :: "UUID list \<Rightarrow> tableManager \<Rightarrow> tableManager launch" where
  "closeDM order m =
     (case dm_Close order (sm_DM (tbm_SM m)) of
        (Panic, _) \<Rightarrow> Crashed
      | (_, d) \<Rightarrow> Done (m\<lparr>tbm_SM := (tbm_SM m)\<lparr>sm_DM := d\<rparr>\<rparr>))"

definition files_of :: "tableManager \<Rightarrow> db_files" where
  "files_of m = \<lparr>dbf_db = Some (pc_file (dm_pc (sm_DM (tbm_SM m)))), dbf_log = Some (lg_file (dm_lg (sm_DM (tbm_SM m)))), dbf_xid = Some (tm_file (sm_TM (tbm_SM m))), dbf_bt = tbm_booter m\<rparr>"

definition closeDB :: "UUID list \<Rightarrow> tableManager \<Rightarrow> db_files launch" where
  "closeDB order m = (case closeDM order m of Done m \<Rightarrow> Done (files_of m) | Exited e \<Rightarrow> Exited e | Crashed \<Rightarrow> Crashed | NilManager \<Rightarrow> NilManager)"

text \<open>A nil transaction manager is not used before \<open>tm.Close\<close>, which panics.\<close>

definition createDB :: "create_env \<Rightarrow> db_files \<Rightarrow> db_files launch option" where
  "createDB ce fs =
     (case ce_mkdir ce of
        Some e \<Rightarrow> Some (Exited e)
      | None \<Rightarrow>
          let tm = tm_Create (ce_xid ce) in
          (case dm_Create (ce_rnd ce) (ce_db ce) (ce_log ce) defaultMem of
             Err e \<Rightarrow> Some (Exited e) | Panic \<Rightarrow> Some Crashed
           | Ok dm \<Rightarrow>
               (case tm of
                  Ok tm \<Rightarrow>
                    map_option (\<lambda>(r, m). if r = Ok () then closeDB (ce_order ce) m else Crashed)
                      (tbm_Create0 (NewSerializabilityManager tm dm) (dbf_bt fs))
                | _ \<Rightarrow> Some Crashed)))"

definition runCreate :: "create_env \<Rightarrow> db_files \<Rightarrow> db_files launch option" where
  "runCreate ce fs = (if dbExists fs then Some (Exited (ErrText ''database already exists'')) else createDB ce fs)"

text \<open>\<open>openDB\<close> up to the start of the server.\<close>

definition openDB :: "bytes \<Rightarrow> XID list \<Rightarrow> int \<Rightarrow> db_files \<Rightarrow> tableManager launch option" where
  "openDB rnd order mem fs =
     (case map_option tm_Open (dbf_xid fs) of
        None \<Rightarrow> Some NilManager
      | Some (Err _) \<Rightarrow> Some NilManager
      | Some Panic \<Rightarrow> Some Crashed
      | Some (Ok tm0) \<Rightarrow>
          (case (dbf_db fs, dbf_log fs) of
             (Some db, Some log) \<Rightarrow>
               (case dm_Open rnd order db log mem tm0 of
                  Err e \<Rightarrow> Some (Exited e) | Panic \<Rightarrow> Some Crashed
                | Ok (dm0, tm0) \<Rightarrow>
                    map_option (\<lambda>(r, m). if r = Ok () then Done m else Crashed) (tbm_Open (NewSerializabilityManager tm0 dm0) (dbf_bt fs)))
           | _ \<Rightarrow> Some (Exited ErrIO)))"

definition runServe :: "bytes \<Rightarrow> XID list \<Rightarrow> string \<Rightarrow> db_files \<Rightarrow> tableManager launch option" where
  "runServe rnd order serveMem fs =
     (case parseMem serveMem of Err e \<Rightarrow> Some (Exited e) | Panic \<Rightarrow> Some Crashed | Ok mem \<Rightarrow> openDB rnd order mem fs)"

section \<open>A restart\<close>

lemma tbm_Open_store:
  assumes "store X limit n d m {#}" and "load_cost db \<le> limit" and "table_list u (map fst db)" and "tables_hold m hs0 db" and "distinct (map (\<lambda>tv. tb_Name (fst tv)) db)"
    and "bo_file b = Some (UUIDToRaw u)" and "bo_faults b = []"
  shows "\<exists>M ts hs. tbm_Open (NewSerializabilityManager tm d) b = Some (Ok (), M) \<and> sm_TM (tbm_SM M) = tm \<and> sm_tc (tbm_SM M) = [SUPER_XID \<mapsto> newTransaction SUPER_XID 0 {}] \<and>
     tbm_tc M = by_name ts \<and> store X limit n (sm_DM (tbm_SM M)) m hs \<and> idle (sm_ec (tbm_SM M)) \<and> size hs \<le> load_cost db \<and> list_all2 (reloaded hs) db ts \<and>
     bo_file (tbm_booter M) = Some (UUIDToRaw u) \<and> bo_faults (tbm_booter M) = [] \<and> sm_lt (tbm_SM M) = NewLockTable"
proof -
  let ?s = "NewSerializabilityManager tm d" and ?b = "b\<lparr>bo_tmp := None\<rparr>"
  let ?M = "\<lparr>tbm_SM = ?s, tbm_booter = ?b, tbm_tc = Map.empty, tbm_xtc = (\<lambda>_. [])\<rparr>"
  have i: "store X limit n (sm_DM (tbm_SM ?M)) m {#}" "size ({#} :: UUID multiset) + load_cost db \<le> limit" "live SUPER_XID (tbm_SM ?M) = Ok (newTransaction SUPER_XID 0 {})"
    "t_XID (newTransaction SUPER_XID 0 {}) = SUPER_XID" using assms(1,2) by (simp_all add: NewSerializabilityManager_def live_def newTransaction_def)
  have ec: "idle (sm_ec (tbm_SM ?M))" using cacher_inv_New [of 0] by (simp add: idle_def NewSerializabilityManager_def) (simp add: NewCacher_def)
  obtain ts d' c' hs' where l: "loadTables u ?M = Some (Ok (), ?M\<lparr>tbm_SM := (tbm_SM ?M)\<lparr>sm_DM := d', sm_ec := c'\<rparr>, tbm_tc := tbm_tc ?M ++ by_name ts\<rparr>)"
    "store X limit n d' m hs'" "idle c'" "size hs' \<le> load_cost db" "list_all2 (reloaded hs') db ts"
    using dms.loadTables_store [OF i(1,2) ec i(3,4) assms(3-5)] by auto
  have "bo_Open b = (Ok (), ?b)" using assms(6,7) by (simp add: bo_Open_def removeBadTMP_def bo_call_def bo_fail_def bo_tick_def)
  then have "tbm_Open ?s b = loadTables u ?M" using assms(6) by (simp add: tbm_Open_def newTableManager_def firstTableUUID_def bo_Load_def ParseUUID_self)
  then show ?thesis using l assms(6,7) by (intro exI [of _ "?M\<lparr>tbm_SM := (tbm_SM ?M)\<lparr>sm_DM := d', sm_ec := c'\<rparr>, tbm_tc := tbm_tc ?M ++ by_name ts\<rparr>"] exI [of _ ts] exI [of _ hs'])
    (simp add: NewSerializabilityManager_def)
qed

lemma by_name_reloaded:
  assumes "list_all2 (reloaded hs) db ts" and "distinct (map (\<lambda>tv. tb_Name (fst tv)) db)"
  shows "dom (by_name ts) = (\<lambda>tv. tb_Name (fst tv)) ` set db" and "tv \<in> set db \<Longrightarrow> \<exists>t'. by_name ts (tb_Name (fst tv)) = Some t' \<and> reloaded hs tv t'"
proof -
  have nm: "map tb_Name ts = map (\<lambda>tv. tb_Name (fst tv)) db" using assms(1) reloaded_name by (induction rule: list_all2_induct) auto
  then show "dom (by_name ts) = (\<lambda>tv. tb_Name (fst tv)) ` set db" by (metis dom_by_name set_map)
  assume "tv \<in> set db"
  then obtain t' where t': "t' \<in> set ts" "reloaded hs tv t'" using assms(1) unfolding list_all2_conv_all_nth in_set_conv_nth by metis
  have "distinct (map fst (map (\<lambda>t. (tb_Name t, t)) ts))" using assms(2) nm by (simp add: comp_def)
  then have "by_name ts (tb_Name t') = Some t'" using t'(1) by (simp add: by_name_def map_of_eq_Some_iff)
  then show "\<exists>t'. by_name ts (tb_Name (fst tv)) = Some t' \<and> reloaded hs tv t'" using t'(2) reloaded_name [OF t'(2)] by auto
qed

text \<open>A transaction that begins sees the same whether the ones before it are still registered or were swept away by a restart, as long as those have not committed.\<close>

lemma visible_fresh:
  assumes "\<forall>y \<in> A. y \<noteq> SUPER_XID \<longrightarrow> \<not> c y"
  shows "IsVisible c (newTransaction x level A) xmin xmax = IsVisible c (newTransaction x level {SUPER_XID}) xmin xmax"
proof -
  let ?t = "newTransaction x level A" and ?u = "newTransaction x level {SUPER_XID}"
  have sel: "t_XID ?t = x" "t_XID ?u = x" "t_Level ?t = level" "t_Level ?u = level" by (simp_all add: newTransaction_def)
  have old: "c y \<Longrightarrow> \<not> InSnapShot ?t y" and new: "\<not> InSnapShot ?u y" for y using assms by (auto simp: InSnapShot_def newTransaction_def split: if_splits)
  have e: "(c xmin \<and> xmin < x \<and> \<not> InSnapShot ?t xmin) = (c xmin \<and> xmin < x \<and> \<not> InSnapShot ?u xmin)"
    "(\<not> c xmax \<or> x < xmax \<or> InSnapShot ?t xmax) = (\<not> c xmax \<or> x < xmax \<or> InSnapShot ?u xmax)" using old new by blast+
  show ?thesis unfolding IsVisible_def repeatableRead_def readCommitted_def Let_def sel e ..
qed

lemma begin_committed:
  assumes "tm_inv t" and "unat (xidCounter t) + 17 < 2 ^ 63" and "tm_Begin t = (r, t')" and "unat y \<le> unat (xidCounter t)"
  shows "tm_IsCommitted t' y = tm_IsCommitted t y"
proof (cases "y = SUPER_XID")
  case False
  obtain t1 where b: "tm_Begin t = (Ok (xidCounter t + 1), t1)" "tm_inv t1" "xidCounter t1 = xidCounter t + 1" "statuses t1 = statuses t @ [FIELD_TRAN_ACTIVE]"
    by (rule tm_Begin_healthy [OF assms(1,2)])
  have "y \<noteq> 0" using False by (simp add: SUPER_XID_def)
  then have k: "known_xid t y" using assms(4) by (simp add: known_xid_def unat_gt_0 Suc_le_eq)
  moreover have "unat (xidCounter t + 1) = unat (xidCounter t) + 1" using assms(2) by (intro unat_Suc_small) simp
  then have k1: "known_xid t1 y" using k b(3) assms(4) by (simp add: known_xid_def)
  moreover have "unat y - 1 < length (statuses t)" using k assms(1) by (auto simp: statuses_def tm_inv_def known_xid_def)
  ultimately show ?thesis using assms(3) b False checkXID_known [OF assms(1) k] checkXID_known [OF b(2) k1] by (simp add: tm_IsCommitted_def nth_append)
qed (simp add: tm_IsCommitted_def)

lemma restart_store:
  assumes "store {#P1#} limit n (sm_DM (tbm_SM M)) m hs" and "tm_inv (sm_TM (tbm_SM M))" and "bo_file (tbm_booter M) = Some (UUIDToRaw u)" and "bo_faults (tbm_booter M) = []"
    and "table_list u (map fst db)" and "tables_hold m hs db" and "distinct (map (\<lambda>tv. tb_Name (fst tv)) db)" and "load_cost db \<le> limit'"
    and "dom (cache (pc_c (dm_pc (sm_DM (tbm_SM M))))) \<subseteq> set order" and "10 \<le> mem div int PAGE_SIZE" and "mem div int PAGE_SIZE < 2 ^ 32" and "int limit' + 2 < mem div int PAGE_SIZE"
    and "length rnd = P1_LEN_VC"
  obtains files M' ts hs' where "closeDB order M = Done files" "openDB rnd xids mem files = Some (Done M')" "sm_TM (tbm_SM M') = sm_TM (tbm_SM M)"
    "sm_tc (tbm_SM M') = [SUPER_XID \<mapsto> newTransaction SUPER_XID 0 {}]" "tbm_tc M' = by_name ts" "store {#P1#} limit' n (sm_DM (tbm_SM M')) m hs'" "idle (sm_ec (tbm_SM M'))"
    "size hs' \<le> load_cost db" "list_all2 (reloaded hs') db ts" "bo_file (tbm_booter M') = Some (UUIDToRaw u)" "bo_faults (tbm_booter M') = []" "sm_lt (tbm_SM M') = NewLockTable"
proof -
  let ?d = "sm_DM (tbm_SM M)" and ?tm = "sm_TM (tbm_SM M)"
  obtain d' d'' where r: "dm_Close order ?d = (Ok (), d')" "dm_Open rnd xids (pc_file (dm_pc d')) (lg_file (dm_lg d')) mem ?tm = Ok (d'', ?tm)" "store {#P1#} limit' n d'' m {#}"
    using store_restart [OF assms(1,9-13), of xids ?tm] by blast
  let ?fs = "files_of (M\<lparr>tbm_SM := (tbm_SM M)\<lparr>sm_DM := d'\<rparr>\<rparr>)"
  obtain M' ts hs' where o: "tbm_Open (NewSerializabilityManager ?tm d'') (tbm_booter M) = Some (Ok (), M')" "sm_TM (tbm_SM M') = ?tm"
    "sm_tc (tbm_SM M') = [SUPER_XID \<mapsto> newTransaction SUPER_XID 0 {}]" "tbm_tc M' = by_name ts" "store {#P1#} limit' n (sm_DM (tbm_SM M')) m hs'" "idle (sm_ec (tbm_SM M'))"
    "size hs' \<le> load_cost db" "list_all2 (reloaded hs') db ts" "bo_file (tbm_booter M') = Some (UUIDToRaw u)" "bo_faults (tbm_booter M') = []" "sm_lt (tbm_SM M') = NewLockTable"
    using tbm_Open_store [OF r(3) assms(8,5-7,3,4), of ?tm] by blast
  show thesis
  proof (rule that [of ?fs M' ts hs'])
    show "closeDB order M = Done ?fs" using r(1) by (simp add: closeDB_def closeDM_def)
    show "openDB rnd xids mem ?fs = Some (Done M')" using r(2) o(1) tm_inv_Open [OF assms(2)] by (simp add: openDB_def files_of_def)
  qed (fact o)+
qed

text \<open>The pages that are cached are those of the held items and page 1.\<close>

lemma store_cached: "store X limit n d m hs \<Longrightarrow> dom (cache (pc_c (dm_pc d))) = set_mset (X + page_handles hs)"
  unfolding store_def dm_inv_def pc_inv_def cacher_inv_def by auto

text \<open>A new database on a healthy disk.\<close>

definition healthy :: "create_env \<Rightarrow> bool" where
  "healthy ce \<longleftrightarrow> ce_mkdir ce = None \<and> ce_xid ce = [] \<and> ce_db ce = [] \<and> ce_log ce = [] \<and> length (ce_rnd ce) = P1_LEN_VC \<and> P1 \<in> set (ce_order ce)"

lemma create_opens:
  assumes "healthy ce" and "\<not> dbExists fs" and "bo_faults (dbf_bt fs) = []" and "10 \<le> mem div int PAGE_SIZE" and "mem div int PAGE_SIZE < 2 ^ 32" and "int limit + 2 < mem div int PAGE_SIZE"
    and "length rnd = P1_LEN_VC" and "n < 2 ^ 32 - 1"
  obtains files M where "runCreate ce fs = Some (Done files)" "dbExists files" "openDB rnd xids mem files = Some (Done M)" "tbm_tc M = Map.empty" "store {#P1#} limit n (sm_DM (tbm_SM M)) Map.empty {#}"
    "idle (sm_ec (tbm_SM M))" "tx_inv (tbm_SM M)" "xidCounter (sm_TM (tbm_SM M)) = 0" "sm_tc (tbm_SM M) = [SUPER_XID \<mapsto> newTransaction SUPER_XID 0 {}]"
    "sm_lt (tbm_SM M) = NewLockTable" "bo_file (tbm_booter M) = Some (UUIDToRaw NilUUID)" "bo_faults (tbm_booter M) = []"
proof -
  obtain t where t: "tm_Create [] = Ok t" "tm_inv t" "xidCounter t = 0" using tm_Create_ok by blast
  have c: "ce_mkdir ce = None" "ce_xid ce = []" "ce_db ce = []" "ce_log ce = []" "length (ce_rnd ce) = P1_LEN_VC" "P1 \<in> set (ce_order ce)" using assms(1) by (simp_all add: healthy_def)
  have mem: "10 \<le> defaultMem div int PAGE_SIZE" "defaultMem div int PAGE_SIZE < 2 ^ 32" "int 0 + 2 < defaultMem div int PAGE_SIZE" by (simp_all add: defaultMem_def PAGE_SIZE_def)
  obtain d where d: "dm_Create (ce_rnd ce) [] [] defaultMem = Ok d" "store {#P1#} 0 n d Map.empty {#}" using create_store [OF mem(1,2) c(5) mem(3) assms(8)] by blast
  let ?b = "(dbf_bt fs)\<lparr>bo_file := Some (UUIDToRaw NilUUID), bo_tmp := None\<rparr>"
  let ?M = "\<lparr>tbm_SM = NewSerializabilityManager t d, tbm_booter = ?b, tbm_tc = Map.empty, tbm_xtc = (\<lambda>_. [])\<rparr>"
  have "bo_Create (dbf_bt fs) = (Ok (), (dbf_bt fs)\<lparr>bo_file := Some [], bo_tmp := None\<rparr>)" using assms(3) by (simp add: bo_Create_def removeBadTMP_def bo_call_def bo_fail_def bo_tick_def)
  moreover have "loadTables NilUUID ?M = Some (Ok (), ?M)" by (subst loadTables.simps) simp
  ultimately have cr: "tbm_Create0 (NewSerializabilityManager t d) (dbf_bt fs) = Some (Ok (), ?M)"
    using assms(3) bo_Update_healthy [of "(dbf_bt fs)\<lparr>bo_file := Some [], bo_tmp := None\<rparr>"]
    by (simp add: tbm_Create0_def newTableManager_def firstTableUUID_def bo_Load_def ParseUUID_self)
  have st: "store {#P1#} 0 n (sm_DM (tbm_SM ?M)) Map.empty {#}" "tm_inv (sm_TM (tbm_SM ?M))" using d(2) t(2) by (simp_all add: NewSerializabilityManager_def)
  have db: "table_list NilUUID (map fst [])" "tables_hold Map.empty {#} []" "distinct (map (\<lambda>tv. tb_Name (fst tv)) ([] :: (table \<times> version list) list))" "load_cost [] \<le> limit" by (simp_all add: tables_hold_def)
  have bt: "bo_file (tbm_booter ?M) = Some (UUIDToRaw NilUUID)" "bo_faults (tbm_booter ?M) = []" using assms(3) by simp_all
  have dom: "dom (cache (pc_c (dm_pc (sm_DM (tbm_SM ?M))))) \<subseteq> set (ce_order ce)" using store_cached [OF st(1)] c(6) by (simp add: page_handles_def)
  obtain files M ts hs where r: "closeDB (ce_order ce) ?M = Done files" "openDB rnd xids mem files = Some (Done M)" "sm_TM (tbm_SM M) = sm_TM (tbm_SM ?M)"
    "sm_tc (tbm_SM M) = [SUPER_XID \<mapsto> newTransaction SUPER_XID 0 {}]" "tbm_tc M = by_name ts" "store {#P1#} limit n (sm_DM (tbm_SM M)) Map.empty hs" "idle (sm_ec (tbm_SM M))"
    "size hs \<le> load_cost []" "list_all2 (reloaded hs) [] ts" "bo_file (tbm_booter M) = Some (UUIDToRaw NilUUID)" "bo_faults (tbm_booter M) = []" "sm_lt (tbm_SM M) = NewLockTable"
    by (rule restart_store [OF st bt db dom assms(4-7)])
  have hs: "hs = {#}" "tbm_tc M = Map.empty" using r(5,8,9) by (simp_all add: by_name_def)
  have "createDB ce fs = Some (Done files)" using c t(1) d(1) cr r(1) by (simp add: createDB_def)
  then have run: "runCreate ce fs = Some (Done files)" using assms(2) by (simp add: runCreate_def)
  have ex: "dbExists files" using r(1) by (auto simp: closeDB_def files_of_def dbExists_def split: launch.splits)
  have tm: "tm_inv (sm_TM (tbm_SM M))" "xidCounter (sm_TM (tbm_SM M)) = 0" using t(2,3) r(3) by (simp_all add: NewSerializabilityManager_def)
  have "tx_inv (tbm_SM M)" using tx_inv_New [OF tm(1)] r(4) by (simp add: tx_inv_def NewSerializabilityManager_def)
  then show thesis using that [OF run ex r(2) hs(2)] r(4,6,7,10-12) hs(1) tm(2) by simp
qed

lemma reload_reads:
  assumes "tc (tb_Name t) = Some t'" and "unloaded t' = unloaded t" and "table_at m hs K t vs" and "table_at m hs' K t' vs"
    and "store X limit n (sm_DM s1) m hs \<and> size hs < limit \<and> idle (sm_ec s1)" and "store X limit' n (sm_DM s2) m hs' \<and> size hs' < limit' \<and> idle (sm_ec s2)"
    and "live x s1 = Ok t1" and "live x s2 = Ok t2" and "seen s1 t1 = seen s2 t2"
  shows "\<exists>t'. tc (tb_Name t) = Some t' \<and> map shape (tb_fields t') = map shape (tb_fields t) \<and>
    (\<forall>rd ord. plan t (rd_Where rd) ord \<longrightarrow> (\<exists>a s1' s2'. t_Read sortSlice t x rd s1 = Some (a, s1') \<and> t_Read sortSlice t' x rd s2 = Some (a, s2')))"
proof (intro exI [of _ t'] conjI allI impI)
  show "map shape (tb_fields t') = map shape (tb_fields t)" by (rule unloaded_shapes [OF assms(2)])
  fix rd :: Read and ord assume pl: "plan t (rd_Where rd) ord"
  have pl': "plan t' (rd_Where rd) ord" and ans: "answer sortSlice t' rd = answer sortSlice t rd" and sat: "satisfies t' (rd_Where rd) = satisfies t (rd_Where rd)"
    using pl same_shapes [OF unloaded_shapes [OF assms(2)]] by simp_all
  show "\<exists>a s1' s2'. t_Read sortSlice t x rd s1 = Some (a, s1') \<and> t_Read sortSlice t' x rd s2 = Some (a, s2')"
    using dms.t_Read_plan [OF _ _ _ assms(7,3) pl, of X limit n sortSlice] dms.t_Read_plan [OF _ _ _ assms(8,4) pl', of X limit' n sortSlice] assms(5,6,9) ans sat by auto
qed (rule assms(1))

section \<open>An example\<close>

text \<open>A new database with a committed table of people: created, opened, and used by the first transaction.\<close>

definition ex_create :: create_env where
  "ex_create = \<lparr>ce_mkdir = None, ce_xid = [], ce_db = [], ce_log = [], ce_rnd = replicate 8 1, ce_order = [P1]\<rparr>"

definition no_files :: db_files where
  "no_files = \<lparr>dbf_db = None, dbf_log = None, dbf_xid = None, dbf_bt = \<lparr>bo_file = None, bo_tmp = None, bo_faults = []\<rparr>\<rparr>"

lemma commit_keeps:
  assumes "tx_inv s" and "x \<noteq> SUPER_XID" and "sm_tc s x = Some t" and "t_Err t = None" and "sm_lt s = NewLockTable"
  obtains s' where "sm_Commit x s = (Ok (), s')" "tm_IsCommitted (sm_TM s') x" "sm_tc s' = (sm_tc s)(x := None)" "tx_inv s'" "sm_DM s' = sm_DM s" "sm_ec s' = sm_ec s" "xidCounter (sm_TM s') = xidCounter (sm_TM s)"
proof -
  have "x \<noteq> 0" "unat x \<le> unat (xidCounter (sm_TM s))" "tm_inv (sm_TM s)" using assms(1-3) by (auto simp: tx_inv_def SUPER_XID_def)
  then have "known_xid (sm_TM s) x" "tm_inv (sm_TM s)" by (simp_all add: known_xid_def unat_gt_0 Suc_le_eq)
  then obtain t' where t': "tm_Commit x (sm_TM s) = (Ok (), t')" "xidCounter t' = xidCounter (sm_TM s)" using updateXID_known unfolding tm_Commit_def by metis
  obtain lt where "lt_Remove x NewLockTable = Ok ([], lt)" by (simp add: lt_Remove_def NewLockTable_def)
  then have c: "sm_Commit x s = (Ok (), s\<lparr>sm_tc := (sm_tc s)(x := None), sm_lt := lt, sm_TM := t'\<rparr>)"
    using assms(3-5) t'(1) by (simp add: sm_Commit_def commit_leave_def sm_unlock_def on_tm_def)
  show thesis using sm_Commit_succeeds [OF assms(1-4) c] t'(2) by (intro that [OF c]) simp_all
qed

lemma people_committed:
  obtains files0 M0 M1 M2 M3 M m hs t us where "runCreate ex_create no_files = Some (Done files0)" "openDB (replicate 8 2) [] 163840 files0 = Some (Done M0)" "tbm_Begin False M0 = (Ok (1, str_bytes ''begin''), M1)"
    "tbm_Create 1 (people_create [''id'']) M1 = (Ok (str_bytes ''create people''), M2)"
    "tbm_Insert 1 \<lparr>in_TableName = ''people'', in_Values = [], in_ValuesList = people_rows\<rparr> M2 = Some (Ok (str_bytes ''Insert''), M3)" "tbm_Commit 1 M3 = (Ok (str_bytes ''commit''), M)"
    "store {#P1#} 8 0 (sm_DM (tbm_SM M)) m hs" "size hs < 8" "idle (sm_ec (tbm_SM M))" "tx_inv (tbm_SM M)" "xidCounter (sm_TM (tbm_SM M)) = 1"
    "sm_tc (tbm_SM M) = [SUPER_XID \<mapsto> newTransaction SUPER_XID 0 {}]" "tm_IsCommitted (sm_TM (tbm_SM M)) 1" "bo_file (tbm_booter M) = Some (UUIDToRaw (tb_SelfUUID t))" "bo_faults (tbm_booter M) = []"
    "tbm_tc M ''people'' = Some t" "tb_Name t = ''people''" "tb_Next t = NilUUID" "length (tb_fields t) = 2" "length us = 2"
    "tables_hold m hs [(t, rev (map2 (new_version 1) us [person 7 ''ann'', person 3 ''bob'']))]"
proof -
  let ?c = "people_create [''id'']" and ?es = "[person 7 ''ann'', person 3 ''bob'']" and ?ins = "\<lparr>in_TableName = ''people'', in_Values = [], in_ValuesList = people_rows\<rparr>"
  have h: "healthy ex_create" "\<not> dbExists no_files" "bo_faults (dbf_bt no_files) = []" "10 \<le> 163840 div int PAGE_SIZE" "163840 div int PAGE_SIZE < 2 ^ 32" "int 8 + 2 < 163840 div int PAGE_SIZE"
    "length (replicate 8 (2 :: byte)) = P1_LEN_VC" "(991 :: nat) < 2 ^ 32 - 1"
    by (simp_all add: healthy_def ex_create_def no_files_def dbExists_def PAGE_SIZE_def P1_LEN_VC_def)
  obtain files0 M0 where o: "runCreate ex_create no_files = Some (Done files0)" "dbExists files0" "openDB (replicate 8 2) [] 163840 files0 = Some (Done M0)" "tbm_tc M0 = Map.empty"
    "store {#P1#} 8 991 (sm_DM (tbm_SM M0)) Map.empty {#}" "idle (sm_ec (tbm_SM M0))" "tx_inv (tbm_SM M0)" "xidCounter (sm_TM (tbm_SM M0)) = 0"
    "sm_tc (tbm_SM M0) = [SUPER_XID \<mapsto> newTransaction SUPER_XID 0 {}]" "sm_lt (tbm_SM M0) = NewLockTable" "bo_file (tbm_booter M0) = Some (UUIDToRaw NilUUID)" "bo_faults (tbm_booter M0) = []"
    by (rule create_opens [OF h, of "[]"])
  let ?tx = "newTransaction 1 0 {SUPER_XID}"
  obtain s where b: "sm_Begin 0 (tbm_SM M0) = (Ok 1, s)" "tx_inv s" "xidCounter (sm_TM s) = 1" "sm_tc s = [SUPER_XID \<mapsto> newTransaction SUPER_XID 0 {}, 1 \<mapsto> ?tx]"
    "sm_DM s = sm_DM (tbm_SM M0)" "sm_ec s = sm_ec (tbm_SM M0)" "sm_lt s = NewLockTable"
    using begin_again [OF o(7), of 0] o(8-10) by (auto simp: dom_def)
  let ?M1 = "M0\<lparr>tbm_SM := s\<rparr>"
  have lv: "live SUPER_XID (s\<lparr>sm_DM := d\<rparr>) = Ok (newTransaction SUPER_XID 0 {})" "live 1 (s\<lparr>sm_DM := d\<rparr>) = Ok ?tx" for d
    using b(4) by (simp_all add: live_def newTransaction_def SUPER_XID_def)
  have lv0: "live SUPER_XID s = Ok (newTransaction SUPER_XID 0 {})" using lv(1) [of "sm_DM s"] by (simp add: live_def)
  have n: "length (cr_FieldName ?c) = 2" by (simp add: people_create_def)
  have st: "store {#P1#} 8 (length (cr_FieldName ?c) * field_cost + (3 + 982)) (sm_DM s) Map.empty {#}" using o(5) b(5) n by (simp add: field_cost_def)
  obtain t d1 m1 hs where c: "CreateTable NilUUID ?c s = (Ok t, s\<lparr>sm_DM := d1\<rparr>)" "store {#P1#} 8 982 d1 m1 hs" "size hs \<le> 3" "table_at m1 hs ({} \<union> metas t) t []" "table_saved m1 t"
    "map shape (tb_fields t) = shapes ?c" "tb_Name t = ''people''" "tb_Next t = NilUUID"
    using dms.CreateTable_saved [OF st _ lv0 people_proper, of "{}" NilUUID thesis] n by (auto simp: people_create_def)
  let ?M2 = "\<lparr>tbm_SM = s\<lparr>sm_DM := d1\<rparr>, tbm_booter = (tbm_booter M0)\<lparr>bo_file := Some (UUIDToRaw (tb_SelfUUID t)), bo_tmp := None\<rparr>, tbm_tc = [''people'' \<mapsto> t], tbm_xtc = (tbm_xtc M0)(1 := tbm_xtc M0 1 @ [t])\<rparr>"
  have cr: "tbm_Create 1 ?c ?M1 = (Ok (str_bytes ''create people''), ?M2)"
    using o(4,11,12) c(1) bo_Update_healthy [OF o(12)] by (simp add: tbm_Create_def people_create_def firstTableUUID_def bo_Load_def ParseUUID_self on_sm_def updateFirstTableUUID_def on_booter_def)
  have lf: "length (tb_fields t) = 2" using arg_cong [OF c(6), of length] by (simp add: shapes_def people_create_def)
  have "row_cost t \<le> 7" using lf length_filter_le [of IsIndexed "tb_fields t"] by (simp add: row_cost_def)
  then have "982 = (982 - length people_rows * row_cost t) + length people_rows * row_cost t" by (simp add: people_rows_def)
  then have i: "store {#P1#} 8 (length people_rows * row_cost t + 0) (sm_DM (s\<lparr>sm_DM := d1\<rparr>)) m1 hs" using dms.inv_fewer [of "{#P1#}" 8 "982 - length people_rows * row_cost t" "length people_rows * row_cost t"] c(2) by simp
  have nm: "''name'' \<notin> set [''id'']" and sz: "Suc (size hs) < 8" and at: "table_at m1 hs (metas t) t []" using c(3,4) by simp_all
  obtain us d2 m2 where r: "length us = length ?es" "insertRows t 1 people_rows (s\<lparr>sm_DM := d1\<rparr>) = Some (Ok (), s\<lparr>sm_DM := d2\<rparr>)" "store {#P1#} 8 0 d2 m2 hs"
    "table_at m2 hs (metas t) t (rev (map2 (new_version 1) us ?es) @ [])" "\<forall>v \<in> metas t. m2 v = m1 v"
    using dms.insertRows_versions [OF i sz lv(2) at people_storable [OF c(6) nm]] by auto
  let ?s2 = "s\<lparr>sm_DM := d2\<rparr>" and ?M3 = "?M2\<lparr>tbm_SM := s\<lparr>sm_DM := d2\<rparr>\<rparr>"
  have ins: "tbm_Insert 1 ?ins ?M2 = Some (Ok (str_bytes ''Insert''), ?M3)" using r(2) by (simp add: tbm_Insert_def t_Insert_def on_table_def)
  have "tx_inv ?s2 = tx_inv s" by (simp add: tx_inv_def)
  moreover have "sm_tc ?s2 1 = Some ?tx" "t_Err ?tx = None" "(1 :: XID) \<noteq> SUPER_XID" "sm_lt ?s2 = NewLockTable" using b(4,7) by (simp_all add: newTransaction_def SUPER_XID_def)
  ultimately obtain s3 where s3: "sm_Commit 1 ?s2 = (Ok (), s3)" "tm_IsCommitted (sm_TM s3) 1" "sm_tc s3 = (sm_tc ?s2)(1 := None)" "tx_inv s3" "sm_DM s3 = sm_DM ?s2" "sm_ec s3 = sm_ec ?s2" "xidCounter (sm_TM s3) = xidCounter (sm_TM ?s2)"
    using commit_keeps [of ?s2 1 ?tx thesis] b(2) by blast
  have co: "tbm_Commit 1 ?M3 = (Ok (str_bytes ''commit''), ?M3\<lparr>tbm_SM := s3\<rparr>)" using s3(1) by (simp add: tbm_Commit_def on_sm_def)
  have hold: "tables_hold m2 hs [(t, rev (map2 (new_version 1) us ?es))]" using r(4,5) table_saved_frame [OF c(5)] by (simp add: tables_hold_def)
  have bg: "tbm_Begin False M0 = (Ok (1, str_bytes ''begin''), ?M1)" using b(1) by (simp add: tbm_Begin_def on_sm_def)
  have tc: "sm_tc s3 = [SUPER_XID \<mapsto> newTransaction SUPER_XID 0 {}]" using s3(3) b(4) by (auto simp: fun_eq_iff SUPER_XID_def)
  let ?M = "?M3\<lparr>tbm_SM := s3\<rparr>"
  have "store {#P1#} 8 0 (sm_DM (tbm_SM ?M)) m2 hs" "size hs < 8" "idle (sm_ec (tbm_SM ?M))" "xidCounter (sm_TM (tbm_SM ?M)) = 1" "bo_faults (tbm_booter ?M) = []" "length us = 2"
    using r(1,3) sz s3(5-7) b(3,6) o(6,12) by simp_all
  then show thesis using that [OF o(1,3) bg cr ins co, of m2 hs t us] s3(2,4) tc c(7,8) lf hold by simp
qed

section \<open>Properties\<close>

text \<open>C15. A database survives a restart. Take a table manager whose boot file heads the list of its tables, whatever versions these hold and whatever transactions are running, close the database and open
  its files again with any sufficient amount of memory. Opening succeeds, finds exactly these tables, with the same fields, and every select of a transaction that begins then answers as it would have
  answered before the restart: what was committed is there, what was not is not.\<close>

theorem database_survives_restart:
  assumes "store {#P1#} limit n (sm_DM (tbm_SM M)) m hs" and "size hs < limit" and "idle (sm_ec (tbm_SM M))" and "tx_inv (tbm_SM M)" and "unat (xidCounter (sm_TM (tbm_SM M))) + 17 < 2 ^ 63"
    and "\<forall>y \<in> dom (sm_tc (tbm_SM M)). y \<noteq> SUPER_XID \<longrightarrow> \<not> tm_IsCommitted (sm_TM (tbm_SM M)) y"
    and "bo_file (tbm_booter M) = Some (UUIDToRaw u)" and "bo_faults (tbm_booter M) = []" and "table_list u (map fst db)" and "tables_hold m hs db" and "distinct (map (\<lambda>tv. tb_Name (fst tv)) db)"
    and "dom (cache (pc_c (dm_pc (sm_DM (tbm_SM M))))) \<subseteq> set order" and "10 \<le> mem div int PAGE_SIZE" and "mem div int PAGE_SIZE < 2 ^ 32" and "int (load_cost db) + 3 < mem div int PAGE_SIZE"
    and "length rnd = P1_LEN_VC"
  shows "\<exists>files M'. closeDB order M = Done files \<and> openDB rnd xids mem files = Some (Done M') \<and> dom (tbm_tc M') = (\<lambda>tv. tb_Name (fst tv)) ` set db \<and>
    (\<forall>level. \<exists>x s1 s2. sm_Begin level (tbm_SM M) = (Ok x, s1) \<and> sm_Begin level (tbm_SM M') = (Ok x, s2) \<and>
      (\<forall>(t, vs) \<in> set db. \<exists>t'. tbm_tc M' (tb_Name t) = Some t' \<and> map shape (tb_fields t') = map shape (tb_fields t) \<and>
        (\<forall>rd ord. plan t (rd_Where rd) ord \<longrightarrow>
          (\<exists>a s1' s2'. t_Read sortSlice t x rd s1 = Some (a, s1') \<and> t_Read sortSlice t' x rd s2 = Some (a, s2')))))"
proof -
  let ?s = "tbm_SM M" and ?x = "xidCounter (sm_TM (tbm_SM M)) + 1"
  have tm: "tm_inv (sm_TM ?s)" using assms(4) by (simp add: tx_inv_def)
  have lim: "load_cost db \<le> Suc (load_cost db)" "int (Suc (load_cost db)) + 2 < mem div int PAGE_SIZE" using assms(15) by simp_all
  obtain files M' ts hs' where r: "closeDB order M = Done files" "openDB rnd xids mem files = Some (Done M')" "sm_TM (tbm_SM M') = sm_TM ?s"
    "sm_tc (tbm_SM M') = [SUPER_XID \<mapsto> newTransaction SUPER_XID 0 {}]" "tbm_tc M' = by_name ts" "store {#P1#} (Suc (load_cost db)) n (sm_DM (tbm_SM M')) m hs'" "idle (sm_ec (tbm_SM M'))"
    "size hs' \<le> load_cost db" "list_all2 (reloaded hs') db ts"
    by (rule restart_store [OF assms(1) tm assms(7-11) lim(1) assms(12-14) lim(2) assms(16)])
  have sz: "size hs' < Suc (load_cost db)" using r(8) by simp
  have inv': "tx_inv (tbm_SM M')" using tx_inv_New [OF tm] r(3,4) by (simp add: tx_inv_def NewSerializabilityManager_def)
  have reads: "\<exists>x s1 s2. sm_Begin level ?s = (Ok x, s1) \<and> sm_Begin level (tbm_SM M') = (Ok x, s2) \<and>
      (\<forall>(t, vs) \<in> set db. \<exists>t'. tbm_tc M' (tb_Name t) = Some t' \<and> map shape (tb_fields t') = map shape (tb_fields t) \<and>
        (\<forall>rd ord. plan t (rd_Where rd) ord \<longrightarrow>
          (\<exists>a s1' s2'. t_Read sortSlice t x rd s1 = Some (a, s1') \<and> t_Read sortSlice t' x rd s2 = Some (a, s2'))))" for level
  proof -
    let ?t1 = "newTransaction ?x level (dom (sm_tc ?s))" and ?t2 = "newTransaction ?x level {SUPER_XID}"
    obtain s1 where b1: "sm_Begin level ?s = (Ok ?x, s1)" "sm_tc s1 = (sm_tc ?s)(?x \<mapsto> ?t1)" "sm_DM s1 = sm_DM ?s" "sm_ec s1 = sm_ec ?s"
      using begin_again [OF assms(4,5)] by blast
    obtain s2 where b2: "sm_Begin level (tbm_SM M') = (Ok ?x, s2)" "sm_tc s2 = (sm_tc (tbm_SM M'))(?x \<mapsto> ?t2)" "sm_DM s2 = sm_DM (tbm_SM M')" "sm_ec s2 = sm_ec (tbm_SM M')"
      using begin_again [OF inv', of level] assms(5) r(3,4) by auto
    obtain t where t: "tm_Begin (sm_TM ?s) = (Ok ?x, t)" "sm_TM s1 = t" using b1(1) by (auto simp: sm_Begin_def on_tm_def sbind_def Let_def split: prod.splits res.splits)
    then have t2: "sm_TM s2 = t" using b2(1) r(3) by (auto simp: sm_Begin_def on_tm_def)
    have "\<not> tm_IsCommitted t y" if "y \<in> dom (sm_tc ?s)" "y \<noteq> SUPER_XID" for y
      using begin_committed [OF tm assms(5) t(1), of y] assms(4,6) that by (auto simp: tx_inv_def)
    then have same: "seen s1 ?t1 = seen s2 ?t2" using visible_fresh [of "dom (sm_tc ?s)" "tm_IsCommitted t"] t(2) t2 by (auto simp: seen_def fun_eq_iff)
    have lv: "live ?x s1 = Ok ?t1" "live ?x s2 = Ok ?t2" using b1(2) b2(2) by (simp_all add: live_def newTransaction_def)
    have "\<exists>t'. tbm_tc M' (tb_Name t) = Some t' \<and> map shape (tb_fields t') = map shape (tb_fields t) \<and>
        (\<forall>rd ord. plan t (rd_Where rd) ord \<longrightarrow> (\<exists>a s1' s2'. t_Read sortSlice t ?x rd s1 = Some (a, s1') \<and> t_Read sortSlice t' ?x rd s2 = Some (a, s2')))"
      if tv: "(t, vs) \<in> set db" for t vs
    proof -
      obtain t' where t': "tbm_tc M' (tb_Name t) = Some t'" "unloaded t' = unloaded t" "table_loaded hs' t'"
        using by_name_reloaded(2) [OF r(9) assms(11) tv] r(5) by (auto simp: reloaded_def)
      have at: "table_at m hs (metas t) t vs" "table_saved m t" using assms(10) tv by (auto simp: tables_hold_def)
      note at' = reload_table [OF at t'(2,3)]
      show ?thesis
        by (rule reload_reads [where tc = "tbm_tc M'", OF t'(1,2) at(1) at' _ _ lv same]) (use assms(1-3) r(6,7) b1(3,4) b2(3,4) sz in simp_all)
    qed
    then show ?thesis using b1(1) b2(1) by blast
  qed
  have "dom (tbm_tc M') = (\<lambda>tv. tb_Name (fst tv)) ` set db" using by_name_reloaded(1) [OF r(9) assms(11)] r(5) by simp
  then show ?thesis using r(1,2) reads by blast
qed

theorem database_survives_restart_witness:
  "\<exists>files0 M0 M1 M2 M3 M order files M' t t' s es s'. runCreate ex_create no_files = Some (Done files0) \<and> openDB (replicate 8 2) [] 163840 files0 = Some (Done M0) \<and>
     tbm_Begin False M0 = (Ok (1, str_bytes ''begin''), M1) \<and> tbm_Create 1 (people_create [''id'']) M1 = (Ok (str_bytes ''create people''), M2) \<and>
     tbm_Insert 1 \<lparr>in_TableName = ''people'', in_Values = [], in_ValuesList = people_rows\<rparr> M2 = Some (Ok (str_bytes ''Insert''), M3) \<and> tbm_Commit 1 M3 = (Ok (str_bytes ''commit''), M) \<and>
     closeDB order M = Done files \<and> openDB (replicate 8 3) [] 163840 files = Some (Done M') \<and> tbm_tc M ''people'' = Some t \<and> tbm_tc M' ''people'' = Some t' \<and> sm_Begin 0 (tbm_SM M') = (Ok 2, s) \<and>
     t_Read (\<lambda>_ es. es) t' 2 \<lparr>rd_TableName = ''people'', rd_Fields = [], rd_Aggregates = [], rd_Where = None, rd_OrderBy = [], rd_OrderDesc = False, rd_Limit = 0, rd_Offset = 0\<rparr> s =
       Some (printRows t es, s') \<and> mset es = {#person 7 ''ann'', person 3 ''bob''#}"
proof -
  let ?rd = "\<lparr>rd_TableName = ''people'', rd_Fields = [], rd_Aggregates = [], rd_Where = None, rd_OrderBy = [], rd_OrderDesc = False, rd_Limit = 0, rd_Offset = 0\<rparr>"
  obtain files0 M0 M1 M2 M3 M m hs t us where p: "runCreate ex_create no_files = Some (Done files0)" "openDB (replicate 8 2) [] 163840 files0 = Some (Done M0)" "tbm_Begin False M0 = (Ok (1, str_bytes ''begin''), M1)"
    "tbm_Create 1 (people_create [''id'']) M1 = (Ok (str_bytes ''create people''), M2)"
    "tbm_Insert 1 \<lparr>in_TableName = ''people'', in_Values = [], in_ValuesList = people_rows\<rparr> M2 = Some (Ok (str_bytes ''Insert''), M3)" "tbm_Commit 1 M3 = (Ok (str_bytes ''commit''), M)"
    "store {#P1#} 8 0 (sm_DM (tbm_SM M)) m hs" "size hs < 8" "idle (sm_ec (tbm_SM M))" "tx_inv (tbm_SM M)" "xidCounter (sm_TM (tbm_SM M)) = 1"
    "sm_tc (tbm_SM M) = [SUPER_XID \<mapsto> newTransaction SUPER_XID 0 {}]" "tm_IsCommitted (sm_TM (tbm_SM M)) 1" "bo_file (tbm_booter M) = Some (UUIDToRaw (tb_SelfUUID t))" "bo_faults (tbm_booter M) = []"
    "tbm_tc M ''people'' = Some t" "tb_Name t = ''people''" "tb_Next t = NilUUID" "length (tb_fields t) = 2" "length us = 2"
    "tables_hold m hs [(t, rev (map2 (new_version 1) us [person 7 ''ann'', person 3 ''bob'']))]" by (rule people_committed)
  let ?vs = "rev (map2 (new_version 1) us [person 7 ''ann'', person 3 ''bob''])"
  have h: "unat (xidCounter (sm_TM (tbm_SM M))) + 17 < 2 ^ 63" "\<forall>y \<in> dom (sm_tc (tbm_SM M)). y \<noteq> SUPER_XID \<longrightarrow> \<not> tm_IsCommitted (sm_TM (tbm_SM M)) y"
    "table_list (tb_SelfUUID t) (map fst [(t, ?vs)])" "distinct (map (\<lambda>tv. tb_Name (fst tv)) [(t, ?vs)])" using p(11,12,18) by (simp_all split: if_splits)
  have mem: "10 \<le> 163840 div int PAGE_SIZE" "163840 div int PAGE_SIZE < 2 ^ 32" "int (load_cost [(t, ?vs)]) + 3 < 163840 div int PAGE_SIZE" "length (replicate 8 (3 :: byte)) = P1_LEN_VC"
    using p(19) by (simp_all add: PAGE_SIZE_def P1_LEN_VC_def)
  obtain order where order: "set order = dom (cache (pc_c (dm_pc (sm_DM (tbm_SM M)))))" using store_cached [OF p(7)] finite_list [OF finite_set_mset] by metis
  have vis: "dom (cache (pc_c (dm_pc (sm_DM (tbm_SM M))))) \<subseteq> set order" using order by simp
  obtain files M' where r: "closeDB order M = Done files" "openDB (replicate 8 3) [] 163840 files = Some (Done M')"
    "\<forall>level. \<exists>x s1 s2. sm_Begin level (tbm_SM M) = (Ok x, s1) \<and> sm_Begin level (tbm_SM M') = (Ok x, s2) \<and>
      (\<forall>(t, vs) \<in> set [(t, ?vs)]. \<exists>t'. tbm_tc M' (tb_Name t) = Some t' \<and> map shape (tb_fields t') = map shape (tb_fields t) \<and>
        (\<forall>rd ord. plan t (rd_Where rd) ord \<longrightarrow> (\<exists>a s1' s2'. t_Read (\<lambda>_ es. es) t x rd s1 = Some (a, s1') \<and> t_Read (\<lambda>_ es. es) t' x rd s2 = Some (a, s2'))))"
    using database_survives_restart [OF p(7-10) h(1,2) p(14,15) h(3) p(21) h(4) vis mem, of "[]" "\<lambda>_ es. es"] by (elim exE conjE)
  let ?t1 = "newTransaction 2 0 (dom (sm_tc (tbm_SM M)))"
  obtain s1 where b: "sm_Begin 0 (tbm_SM M) = (Ok 2, s1)" "sm_tc s1 = (sm_tc (tbm_SM M))(2 \<mapsto> ?t1)" "sm_DM s1 = sm_DM (tbm_SM M)" "sm_ec s1 = sm_ec (tbm_SM M)"
    using begin_again [OF p(10) h(1), of 0] p(11) by auto
  have pl: "plan t (rd_Where ?rd) v_uuid" by (simp add: plan_def)
  obtain x s1x s2 where z: "sm_Begin 0 (tbm_SM M) = (Ok x, s1x)" "sm_Begin 0 (tbm_SM M') = (Ok x, s2)"
    "\<forall>(t, vs) \<in> set [(t, ?vs)]. \<exists>t'. tbm_tc M' (tb_Name t) = Some t' \<and> map shape (tb_fields t') = map shape (tb_fields t) \<and>
        (\<forall>rd ord. plan t (rd_Where rd) ord \<longrightarrow> (\<exists>a s1' s2'. t_Read (\<lambda>_ es. es) t x rd s1x = Some (a, s1') \<and> t_Read (\<lambda>_ es. es) t' x rd s2 = Some (a, s2')))"
    using spec [OF r(3), of 0] by (elim exE conjE)
  have x: "x = 2" "s1x = s1" using z(1) b(1) by simp_all
  obtain t' where t': "tbm_tc M' ''people'' = Some t'"
    "\<forall>rd ord. plan t (rd_Where rd) ord \<longrightarrow> (\<exists>a s1' s2'. t_Read (\<lambda>_ es. es) t 2 rd s1 = Some (a, s1') \<and> t_Read (\<lambda>_ es. es) t' 2 rd s2 = Some (a, s2'))"
    using z(3) p(17) unfolding x by auto
  obtain a s1' s2' where q: "t_Read (\<lambda>_ es. es) t 2 ?rd s1 = Some (a, s1')" "t_Read (\<lambda>_ es. es) t' 2 ?rd s2 = Some (a, s2')" using t'(2) pl by blast
  let ?es = "map v_row (filter (\<lambda>v. seen s1 ?t1 v \<and> satisfies t (rd_Where ?rd) v) (sort_key v_uuid ?vs))"
  have at: "table_at m hs (metas t) t ?vs" using p(21) by (simp add: tables_hold_def)
  have lv: "live 2 s1 = Ok ?t1" using b(2) by (simp add: live_def newTransaction_def)
  have "\<exists>d' c'. t_Read (\<lambda>_ es. es) t 2 ?rd s1 = Some (answer (\<lambda>_ es. es) t ?rd ?es, s1\<lparr>sm_DM := d', sm_ec := c'\<rparr>) \<and> store {#P1#} 8 0 d' m hs \<and> idle c'"
    by (rule dms.t_Read_plan [OF _ p(8) _ lv at pl]) (use p(7,9) b(3,4) in simp_all)
  then have a: "a = printRows t ?es" using q(1) by (auto simp: answer_def)
  obtain tm where tm: "tm_Begin (sm_TM (tbm_SM M)) = (Ok 2, tm)" "sm_TM s1 = tm" using b(1) by (auto simp: sm_Begin_def on_tm_def sbind_def Let_def split: prod.splits res.splits)
  have "tm_IsCommitted tm 1" using begin_committed [OF _ h(1) tm(1), of 1] p(10,11,13) by (simp add: tx_inv_def)
  then have "seen s1 ?t1 v" if "v \<in> set ?vs" for v
    using that tm(2) by (auto simp: seen_def IsVisible_def readCommitted_def newTransaction_def new_version_def)
  then have "?es = map v_row (filter (satisfies t (rd_Where ?rd)) (sort_key v_uuid ?vs))" by (intro arg_cong [of _ _ "map v_row"] filter_cong refl) simp
  then have "mset ?es = {#person 7 ''ann'', person 3 ''bob''#}"
    using new_rows_selected [of us "[person 7 ''ann'', person 3 ''bob'']" t "rd_Where ?rd" v_uuid 1] p(20) by (simp add: evaluateWhere_def)
  then show ?thesis using p(1-6,16) r(1,2) t'(1) z(2) x(1) q(2) a by blast
qed

end
