(* ===== verification/Database.thy ===== *)
theory Database
  imports Relations Launcher
begin

text \<open>
  A session with the database, from the text of a statement to the files. The states of the program are related to the relations of \<open>Relations\<close>, and the program is shown to follow them, statement by statement and
  across restarts.
\<close>

section \<open>One transaction at a time\<close>

text \<open>The serializability manager while one session works: \<open>x\<close> is the transaction of the session, 0 if there is none.\<close>

abbreviation super_tx :: transaction where
  "super_tx \<equiv> newTransaction SUPER_XID 0 {}"

definition running :: "XID \<Rightarrow> serializabilityManager \<Rightarrow> bool" where
  "running x s \<longleftrightarrow> tx_inv s \<and> owned x (sm_lt s) \<and>
     (if x = 0 then sm_tc s = [SUPER_XID \<mapsto> super_tx] \<and> sm_lt s = NewLockTable
      else x = xidCounter (sm_TM s) \<and> \<not> tm_IsCommitted (sm_TM s) x \<and> (\<exists>level. sm_tc s = [SUPER_XID \<mapsto> super_tx, x \<mapsto> newTransaction x level {SUPER_XID}]))"

lemma running_super: "running x s \<Longrightarrow> live SUPER_XID s = Ok super_tx"
  by (auto simp: running_def live_def newTransaction_def SUPER_XID_def split: if_splits)

lemma running_live:
  assumes "running x s" and "x \<noteq> 0"
  obtains level where "live x s = Ok (newTransaction x level {SUPER_XID})" "sm_tc s x = Some (newTransaction x level {SUPER_XID})"
  using assms by (auto simp: running_def live_def newTransaction_def)

lemma running_owned: "running x s \<Longrightarrow> owned x (sm_lt s)"
  by (simp only: running_def)

lemma running_open: "running x s \<Longrightarrow> x \<noteq> 0 \<Longrightarrow> x = xidCounter (sm_TM s)" "running x s \<Longrightarrow> x \<noteq> 0 \<Longrightarrow> \<not> tm_IsCommitted (sm_TM s) x"
  by (auto simp: running_def)

text \<open>Only the transactions, the locks and the statuses matter.\<close>

lemma running_same: "running x s \<Longrightarrow> owned x lt \<Longrightarrow> x \<noteq> 0 \<Longrightarrow> running x (s\<lparr>sm_DM := d, sm_ec := c, sm_lt := lt\<rparr>)"
proof -
  assume r: "running x s" "owned x lt" "x \<noteq> 0"
  have "tx_inv (s\<lparr>sm_DM := d, sm_ec := c, sm_lt := lt\<rparr>) = tx_inv s" by (simp add: tx_inv_def)
  then show ?thesis using r by (auto simp: running_def)
qed

lemma running_begin:
  assumes "running 0 s" and "unat (xidCounter (sm_TM s)) + 17 < 2 ^ 63"
  obtains x s' where "sm_Begin level s = (Ok x, s')" "x \<noteq> 0" "running x s'" "unat (xidCounter (sm_TM s')) = Suc (unat (xidCounter (sm_TM s)))" "x = xidCounter (sm_TM s')"
    "sm_DM s' = sm_DM s" "sm_ec s' = sm_ec s" "\<And>y. unat y \<le> unat (xidCounter (sm_TM s)) \<Longrightarrow> tm_IsCommitted (sm_TM s') y = tm_IsCommitted (sm_TM s) y"
proof -
  let ?x = "xidCounter (sm_TM s) + 1"
  have r: "tx_inv s" "sm_tc s = [SUPER_XID \<mapsto> super_tx]" "sm_lt s = NewLockTable" using assms(1) by (simp_all add: running_def)
  have tm: "tm_inv (sm_TM s)" using r(1) by (simp add: tx_inv_def)
  obtain s' where b: "sm_Begin level s = (Ok ?x, s')" "tx_inv s'" "xidCounter (sm_TM s') = ?x" "sm_tc s' = (sm_tc s)(?x \<mapsto> newTransaction ?x level (dom (sm_tc s)))"
    "sm_DM s' = sm_DM s" "sm_ec s' = sm_ec s" "sm_lt s' = sm_lt s" using begin_again [OF r(1) assms(2)] by blast
  have ux: "unat ?x = Suc (unat (xidCounter (sm_TM s)))" using assms(2) unat_Suc_small [of "xidCounter (sm_TM s)"] by simp
  then have nz: "?x \<noteq> 0" by (metis nat.simps(3) unat_0)
  obtain t where t: "tm_Begin (sm_TM s) = (Ok ?x, t)" "tm_inv t" "xidCounter t = ?x" "statuses t = statuses (sm_TM s) @ [FIELD_TRAN_ACTIVE]" by (rule tm_Begin_healthy [OF tm assms(2)])
  have st: "sm_TM s' = t" using b(1) t(1) by (auto simp: sm_Begin_def on_tm_def Let_def)
  have "length (statuses (sm_TM s)) = unat ?x - 1" using tm ux by (simp add: tm_inv_def statuses_def)
  then have "statuses t ! (unat ?x - 1) = FIELD_TRAN_ACTIVE" unfolding t(4) by (metis nth_append_length)
  moreover have "known_xid t ?x" using t(3) ux by (simp add: known_xid_def)
  ultimately have "\<not> tm_IsCommitted t ?x" using checkXID_known [OF t(2), of ?x] nz by (simp add: tm_IsCommitted_def SUPER_XID_def status_defs)
  then have run: "running ?x s'" using b(2-4,7) r(2,3) st nz owned_New by (auto simp: running_def)
  have "tm_IsCommitted (sm_TM s') y = tm_IsCommitted (sm_TM s) y" if "unat y \<le> unat (xidCounter (sm_TM s))" for y
    using begin_committed [OF tm assms(2) t(1) that] st by simp
  then show thesis using that [OF b(1) nz run _ b(3) [symmetric] b(5,6)] ux unfolding b(3) by blast
qed

lemma running_end:
  assumes "running x s" and "x \<noteq> 0" and "st \<in> {FIELD_TRAN_COMMITTED, FIELD_TRAN_ABORTED}"
  obtains t where "updateXID x st (sm_TM s) = (Ok (), t)" "running 0 (s\<lparr>sm_tc := (sm_tc s)(x := None), sm_lt := NewLockTable, sm_TM := t\<rparr>)" "xidCounter t = xidCounter (sm_TM s)"
    "\<And>y. unat y \<le> unat (xidCounter (sm_TM s)) \<Longrightarrow> tm_IsCommitted t y = (if y = x then st = FIELD_TRAN_COMMITTED else tm_IsCommitted (sm_TM s) y)"
proof -
  let ?tm = "sm_TM s"
  obtain level where tc: "sm_tc s = [SUPER_XID \<mapsto> super_tx, x \<mapsto> newTransaction x level {SUPER_XID}]" using assms(1,2) by (auto simp: running_def)
  have r: "tx_inv s" "x = xidCounter ?tm" using assms(1,2) by (simp_all add: running_def)
  have tm: "tm_inv ?tm" using r(1) by (simp add: tx_inv_def)
  have k: "known_xid ?tm x" using r(2) assms(2) by (simp add: known_xid_def unat_gt_0 Suc_le_eq)
  obtain t where t: "updateXID x st ?tm = (Ok (), t)" "tm_inv t" "xidCounter t = xidCounter ?tm" "statuses t = (statuses ?tm)[unat x - 1 := st]" by (rule updateXID_known [OF tm k])
  let ?s = "s\<lparr>sm_tc := (sm_tc s)(x := None), sm_lt := NewLockTable, sm_TM := t\<rparr>"
  have tc': "(sm_tc s)(x := None) = [SUPER_XID \<mapsto> super_tx]" using tc assms(2) by (auto simp: SUPER_XID_def)
  then have "tx_inv ?s" using tx_inv_New [OF t(2), of "sm_DM s"] by (simp add: tx_inv_def NewSerializabilityManager_def)
  then have run: "running 0 ?s" using tc' owned_New by (simp add: running_def)
  have len: "length (statuses ?tm) = unat (xidCounter ?tm)" using tm by (simp add: tm_inv_def statuses_def)
  have "tm_IsCommitted t y = (if y = x then st = FIELD_TRAN_COMMITTED else tm_IsCommitted ?tm y)" if y: "unat y \<le> unat (xidCounter ?tm)" for y
  proof (cases "y = SUPER_XID")
    case False
    then have ky: "known_xid ?tm y" "known_xid t y" using y t(3) by (auto simp: known_xid_def SUPER_XID_def unat_gt_0 Suc_le_eq)
    have "unat y - 1 = unat x - 1 \<longleftrightarrow> y = x" using ky(1) k eq_diff_iff [of 1 "unat y" "unat x"] by (auto simp: known_xid_def intro: unsigned_word_eqI)
    then show ?thesis using checkXID_known [OF tm ky(1)] checkXID_known [OF t(2) ky(2)] t(4) False len k by (auto simp: tm_IsCommitted_def nth_list_update known_xid_def)
  qed (use assms(2) in \<open>auto simp: tm_IsCommitted_def SUPER_XID_def\<close>)
  then show thesis using that [OF t(1) run t(3)] by blast
qed

lemma running_commit:
  assumes "running x s" and "x \<noteq> 0"
  obtains s' where "sm_Commit x s = (Ok (), s')" "running 0 s'" "xidCounter (sm_TM s') = xidCounter (sm_TM s)" "sm_DM s' = sm_DM s" "sm_ec s' = sm_ec s"
    "\<And>y. unat y \<le> unat (xidCounter (sm_TM s)) \<Longrightarrow> tm_IsCommitted (sm_TM s') y = (y = x \<or> tm_IsCommitted (sm_TM s) y)"
proof -
  obtain t where t: "updateXID x FIELD_TRAN_COMMITTED (sm_TM s) = (Ok (), t)" "running 0 (s\<lparr>sm_tc := (sm_tc s)(x := None), sm_lt := NewLockTable, sm_TM := t\<rparr>)" "xidCounter t = xidCounter (sm_TM s)"
    "\<And>y. unat y \<le> unat (xidCounter (sm_TM s)) \<Longrightarrow> tm_IsCommitted t y = (if y = x then FIELD_TRAN_COMMITTED = FIELD_TRAN_COMMITTED else tm_IsCommitted (sm_TM s) y)"
    by (rule running_end [OF assms, of FIELD_TRAN_COMMITTED]) simp_all
  obtain level where tc: "sm_tc s x = Some (newTransaction x level {SUPER_XID})" by (rule running_live [OF assms])
  have "sm_Commit x s = (Ok (), s\<lparr>sm_tc := (sm_tc s)(x := None), sm_lt := NewLockTable, sm_TM := t\<rparr>)"
    using lt_Remove_owned [of x "sm_lt s"] assms(1) tc t(1) by (simp add: running_def sm_Commit_def commit_leave_def sm_unlock_def on_tm_def tm_Commit_def newTransaction_def)
  then show thesis using that [OF _ t(2)] t(3,4) by simp
qed

lemma running_abort:
  assumes "running x s" and "x \<noteq> 0"
  obtains s' where "sm_Abort x s = (Ok (), s')" "running 0 s'" "xidCounter (sm_TM s') = xidCounter (sm_TM s)" "sm_DM s' = sm_DM s" "sm_ec s' = sm_ec s"
    "\<And>y. unat y \<le> unat (xidCounter (sm_TM s)) \<Longrightarrow> tm_IsCommitted (sm_TM s') y = tm_IsCommitted (sm_TM s) y"
proof -
  obtain t where t: "updateXID x FIELD_TRAN_ABORTED (sm_TM s) = (Ok (), t)" "running 0 (s\<lparr>sm_tc := (sm_tc s)(x := None), sm_lt := NewLockTable, sm_TM := t\<rparr>)" "xidCounter t = xidCounter (sm_TM s)"
    "\<And>y. unat y \<le> unat (xidCounter (sm_TM s)) \<Longrightarrow> tm_IsCommitted t y = (if y = x then FIELD_TRAN_ABORTED = FIELD_TRAN_COMMITTED else tm_IsCommitted (sm_TM s) y)"
    by (rule running_end [OF assms, of FIELD_TRAN_ABORTED]) simp_all
  obtain level where tc: "sm_tc s x = Some (newTransaction x level {SUPER_XID})" by (rule running_live [OF assms])
  have "sm_Abort x s = (Ok (), s\<lparr>sm_tc := (sm_tc s)(x := None), sm_lt := NewLockTable, sm_TM := t\<rparr>)"
    using lt_Remove_owned [of x "sm_lt s"] assms(1) tc t(1) by (simp add: running_def sm_Abort_def abort_def sm_unlock_def on_tm_def tm_Abort_def newTransaction_def)
  moreover have "\<not> tm_IsCommitted (sm_TM s) x" by (rule running_open [OF assms])
  ultimately show thesis using that [OF _ t(2)] t(3,4) by (auto simp: status_defs)
qed

section \<open>Versions as rows\<close>

definition was_there :: "(XID \<Rightarrow> bool) \<Rightarrow> version \<Rightarrow> bool" where
  "was_there c v \<longleftrightarrow> c (v_xmin v) \<and> (v_xmax v = 0 \<or> \<not> c (v_xmax v))"

definition is_there :: "(XID \<Rightarrow> bool) \<Rightarrow> XID \<Rightarrow> version \<Rightarrow> bool" where
  "is_there c x v \<longleftrightarrow> (x \<noteq> 0 \<and> v_xmin v = x \<and> v_xmax v = 0) \<or> (c (v_xmin v) \<and> (v_xmax v = 0 \<or> (v_xmax v \<noteq> x \<and> \<not> c (v_xmax v))))"

definition view :: "(XID \<Rightarrow> bool) \<Rightarrow> XID \<Rightarrow> version \<Rightarrow> row \<times> bool \<times> bool" where
  "view c x v = (v_row v, was_there c v, is_there c x v)"

text \<open>The transactions of a version have begun, and what the running transaction inserted only that one can have deleted.\<close>

definition known_version :: "XID \<Rightarrow> XID \<Rightarrow> version \<Rightarrow> bool" where
  "known_version k x v \<longleftrightarrow> unat (v_xmin v) \<le> unat k \<and> unat (v_xmax v) \<le> unat k \<and> (x \<noteq> 0 \<and> v_xmin v = x \<longrightarrow> v_xmax v \<in> {0, x})"

lemma view_sel [simp]: "fst (view c x v) = v_row v" "fst (snd (view c x v)) = was_there c v" "snd (snd (view c x v)) = is_there c x v"
  by (simp_all add: view_def)

lemma seen_is_there:
  assumes "running x s" and "x \<noteq> 0" and "sm_tc s x = Some tx" and "known_version (xidCounter (sm_TM s)) x v"
  shows "seen s tx v = is_there (tm_IsCommitted (sm_TM s)) x v" and "\<not> IsVersionSkip (tm_IsCommitted (sm_TM s)) tx (v_xmax v)"
proof -
  let ?c = "tm_IsCommitted (sm_TM s)"
  obtain level where tx: "tx = newTransaction x level {SUPER_XID}" using assms(1-3) by (auto simp: running_def)
  have r: "x = xidCounter (sm_TM s)" "\<not> ?c x" using running_open assms(1,2) by blast+
  have lt: "y < x" if "?c y" "unat y \<le> unat x" for y using that r(2) by (metis le_neq_trans word_le_nat_alt)
  have snap: "\<not> InSnapShot tx y" for y by (simp add: InSnapShot_def tx newTransaction_def)
  have le: "unat (v_xmin v) \<le> unat x" "unat (v_xmax v) \<le> unat x" using assms(4) r(1) by (simp_all add: known_version_def)
  then have ge: "\<not> x < v_xmax v" by (simp add: word_less_nat_alt)
  have id: "t_XID tx = x" by (simp add: tx newTransaction_def)
  show "seen s tx v = is_there ?c x v" using snap lt le ge assms(2) by (auto simp: seen_def is_there_def IsVisible_def readCommitted_def repeatableRead_def id Let_def)
  show "\<not> IsVersionSkip ?c tx (v_xmax v)" using snap ge by (auto simp: IsVersionSkip_def id)
qed

text \<open>What a new version, a deleted version, and the end of the transaction look like.\<close>

lemma view_new: "x \<noteq> 0 \<Longrightarrow> \<not> c x \<Longrightarrow> view c x (new_version x u e) = (e, False, True)"
  by (simp add: view_def was_there_def is_there_def new_version_def)

lemma known_new: "unat x \<le> unat k \<Longrightarrow> known_version k x (new_version x u e)"
  by (simp add: known_version_def new_version_def)

lemma view_deleted:
  assumes "x \<noteq> 0" and "\<not> c x" and "v \<in> D \<Longrightarrow> is_there c x v"
  shows "view c x (deleted x D v) = (v_row v, was_there c v, is_there c x v \<and> v \<notin> D)"
  using assms by (auto simp: view_def was_there_def is_there_def deleted_def)

lemma known_deleted: "unat x \<le> unat k \<Longrightarrow> known_version k x v \<Longrightarrow> known_version k x (deleted x D v)"
  by (simp add: known_version_def deleted_def)

lemma view_begin:
  assumes "known_version k 0 v" and "unat x = Suc (unat k)" and "\<And>y. unat y \<le> unat k \<Longrightarrow> c' y = c y"
  shows "view c' x v = view c 0 v" and "known_version x x v"
  using assms by (auto simp: view_def was_there_def is_there_def known_version_def)

lemma view_commit:
  assumes "known_version k x v" and "x \<noteq> 0" and "\<not> c x" and "\<And>y. unat y \<le> unat k \<Longrightarrow> c' y = (y = x \<or> c y)"
  shows "view c' 0 v = (v_row v, is_there c x v, is_there c x v)" and "known_version k 0 v"
  using assms by (auto simp: view_def was_there_def is_there_def known_version_def)

lemma view_abort:
  assumes "known_version k x v" and "\<not> c x \<or> x = 0" and "\<And>y. unat y \<le> unat k \<Longrightarrow> c' y = c y"
  shows "view c' 0 v = (v_row v, was_there c v, was_there c v)" and "known_version k 0 v"
  using assms by (auto simp: view_def was_there_def is_there_def known_version_def)

lemma view_outside: "view c 0 v = (v_row v, was_there c v, was_there c v)"
  by (auto simp: view_def was_there_def is_there_def)

section \<open>The tables of the manager as relations\<close>

definition stored :: "nat \<Rightarrow> nat \<Rightarrow> tableManager \<Rightarrow> (table \<times> version list) list \<Rightarrow> bool" where
  "stored limit n M db \<longleftrightarrow>
     (\<exists>m hs u. store {#P1#} limit n (sm_DM (tbm_SM M)) m hs \<and> size hs \<le> load_cost db \<and> tables_apart m hs db \<and> bo_file (tbm_booter M) = Some (UUIDToRaw u) \<and> table_list u (map fst db)) \<and>
     Suc (load_cost db) < limit \<and> idle (sm_ec (tbm_SM M)) \<and> bo_faults (tbm_booter M) = [] \<and> distinct (map (\<lambda>tv. tb_Name (fst tv)) db) \<and> tbm_tc M = by_name (map fst db)"

definition holds :: "(XID \<Rightarrow> bool) \<Rightarrow> XID \<Rightarrow> XID \<Rightarrow> relation \<Rightarrow> table \<times> version list \<Rightarrow> bool" where
  "holds c k x R tv \<longleftrightarrow> rel_name R = tb_Name (fst tv) \<and> rel_shapes R = map shape (tb_fields (fst tv)) \<and> rel_rows R = image_mset (view c x) (mset (snd tv)) \<and> (\<forall>v \<in> set (snd tv). known_version k x v)"

definition represents :: "nat \<Rightarrow> database \<Rightarrow> executor \<Rightarrow> bool" where
  "represents limit A e \<longleftrightarrow> (\<exists>db. stored limit (db_room A) (ex_tbm e) db \<and> running (ex_xid e) (session_sm e) \<and> db_tx A = (ex_xid e \<noteq> 0) \<and>
     unat (xidCounter (session_tm e)) + db_ids A + 16 < 2 ^ 63 \<and> list_all2 (holds (tm_IsCommitted (session_tm e)) (xidCounter (session_tm e)) (ex_xid e)) (db_tables A) db)"

lemma load_cost_sum: "load_cost db = sum_list (map (\<lambda>tv. length (tb_fields (fst tv)) + 1) db)"
  by (induction db rule: load_cost.induct) simp_all

lemma holds_load: "list_all2 (holds c k x) Rs db \<Longrightarrow> sum_list (map (\<lambda>R. length (rel_shapes R) + 1) Rs) = load_cost db"
  unfolding load_cost_sum by (induction rule: list_all2_induct) (simp_all add: holds_def)

lemma holds_names: "list_all2 (holds c k x) Rs db \<Longrightarrow> map rel_name Rs = map (\<lambda>tv. tb_Name (fst tv)) db"
  by (induction rule: list_all2_induct) (simp_all add: holds_def)

lemma find_named:
  assumes "find (\<lambda>R. rel_name R = nm) Rs = Some R" and "distinct (map rel_name Rs)"
  obtains Ps Qs where "Rs = Ps @ R # Qs" "rel_name R = nm" "nm \<notin> rel_name ` set (Ps @ Qs)"
  using assms
proof (induction Rs arbitrary: thesis)
  case (Cons S Rs)
  show ?case
  proof (cases "rel_name S = nm")
    case True
    then show ?thesis using Cons.prems(1) [of "[]" Rs] Cons.prems(2,3) by auto
  next
    case False
    then obtain Ps Qs where "Rs = Ps @ R # Qs" "rel_name R = nm" "nm \<notin> rel_name ` set (Ps @ Qs)" using Cons.IH Cons.prems(2,3) by auto
    then show ?thesis using False by (intro Cons.prems(1) [of "S # Ps" Qs]) auto
  qed
qed simp

lemma on_rel_split:
  assumes "db_tables A = Ps @ R # Qs" and "rel_name R = nm" and "nm \<notin> rel_name ` set (Ps @ Qs)"
  shows "on_rel nm f A = A\<lparr>db_tables := Ps @ f R # Qs\<rparr>"
proof -
  have "map (\<lambda>S. if rel_name S = nm then f S else S) Rs = Rs" if "nm \<notin> rel_name ` set Rs" for Rs using that by (intro map_idI) auto
  then show ?thesis using assms by (simp add: on_rel_def image_Un)
qed

lemma on_rel_at:
  assumes "rel_of A nm = Some R" and "distinct (map rel_name (db_tables A))"
  shows "on_rel nm f A = on_rel nm (\<lambda>_. f R) A"
proof -
  obtain Ps Qs where "db_tables A = Ps @ R # Qs" "rel_name R = nm" "nm \<notin> rel_name ` set (Ps @ Qs)" using find_named assms unfolding rel_of_def by blast
  note split = on_rel_split [OF this]
  show ?thesis unfolding split ..
qed

lemma on_rel_missing: "rel_of A nm = None \<Longrightarrow> on_rel nm f A = A"
proof -
  assume "rel_of A nm = None"
  then have "map (\<lambda>R. if rel_name R = nm then f R else R) (db_tables A) = db_tables A" by (intro map_idI) (auto simp: rel_of_def find_None_iff)
  then show ?thesis by (simp add: on_rel_def)
qed

text \<open>The relations have different names, and a name without a relation is a name without a table.\<close>

lemma represents_names: "represents limit A e \<Longrightarrow> distinct (map rel_name (db_tables A))"
  using holds_names by (auto simp: represents_def stored_def)

lemma represents_missing:
  assumes "represents limit A e"
  shows "rel_of A nm = None \<longleftrightarrow> tbm_tc (ex_tbm e) nm = None"
proof -
  obtain db where db: "stored limit (db_room A) (ex_tbm e) db" "list_all2 (holds (tm_IsCommitted (session_tm e)) (xidCounter (session_tm e)) (ex_xid e)) (db_tables A) db"
    using assms by (auto simp: represents_def)
  have "set (map rel_name (db_tables A)) = tb_Name ` set (map fst db)" using arg_cong [OF holds_names [OF db(2)], of set] by (simp add: image_image)
  moreover have "dom (tbm_tc (ex_tbm e)) = tb_Name ` set (map fst db)" using db(1) dom_by_name by (simp add: stored_def)
  ultimately have "rel_name ` set (db_tables A) = dom (tbm_tc (ex_tbm e))" by simp
  moreover have "rel_of A nm = None \<longleftrightarrow> nm \<notin> rel_name ` set (db_tables A)" by (auto simp: rel_of_def find_None_iff)
  ultimately show ?thesis by (simp add: domIff)
qed

lemma by_name_mem: "distinct (map tb_Name ts) \<Longrightarrow> t \<in> set ts \<Longrightarrow> by_name ts (tb_Name t) = Some t"
  by (simp add: by_name_def map_of_eq_Some_iff comp_def)

text \<open>One relation and its table. What happens to the table, as long as it keeps the items of the others, happens to the relation.\<close>

definition focus :: "nat \<Rightarrow> database \<Rightarrow> executor \<Rightarrow> relation \<Rightarrow> table \<Rightarrow> version list \<Rightarrow> (UUID \<rightharpoonup> bytes) \<Rightarrow> UUID multiset \<Rightarrow> UUID set \<Rightarrow> transaction \<Rightarrow> bool" where
  "focus limit A e R t vs m hs K tx \<longleftrightarrow> tbm_tc (ex_tbm e) (rel_name R) = Some t \<and> rel_table R = blank t \<and>
     rel_rows R = image_mset (view (tm_IsCommitted (session_tm e)) (ex_xid e)) (mset vs) \<and> (\<forall>v \<in> set vs. known_version (xidCounter (session_tm e)) (ex_xid e) v) \<and>
     store {#P1#} limit (db_room A) (sm_DM (session_sm e)) m hs \<and> Suc (size hs) < limit \<and> idle (sm_ec (session_sm e)) \<and> running (ex_xid e) (session_sm e) \<and> ex_xid e \<noteq> 0 \<and>
     live (ex_xid e) (session_sm e) = Ok tx \<and> t_XID tx = ex_xid e \<and> sm_tc (session_sm e) (ex_xid e) = Some tx \<and> table_at m hs K t vs \<and>
     (\<forall>R' n' d' c' lt' m' vs'. store {#P1#} limit n' d' m' hs \<and> idle c' \<and> owned (ex_xid e) lt' \<and> table_at m' hs K t vs' \<and> (\<forall>v \<in> K. m' v = m v) \<and> rel_name R' = rel_name R \<and>
       rel_shapes R' = rel_shapes R \<and> rel_rows R' = image_mset (view (tm_IsCommitted (session_tm e)) (ex_xid e)) (mset vs') \<and> (\<forall>v \<in> set vs'. known_version (xidCounter (session_tm e)) (ex_xid e) v) \<longrightarrow>
       represents limit ((on_rel (rel_name R) (\<lambda>_. R') A)\<lparr>db_room := n'\<rparr>) (e\<lparr>ex_tbm := (ex_tbm e)\<lparr>tbm_SM := (session_sm e)\<lparr>sm_DM := d', sm_ec := c', sm_lt := lt'\<rparr>\<rparr>\<rparr>))"

lemma one_table:
  assumes "represents limit A e" and "db_tx A" and "rel_of A nm = Some R"
  obtains t vs m hs K tx where "focus limit A e R t vs m hs K tx" "rel_name R = nm"
proof -
  let ?c = "tm_IsCommitted (session_tm e)" and ?k = "xidCounter (session_tm e)" and ?x = "ex_xid e" and ?M = "ex_tbm e"
  obtain db where db: "stored limit (db_room A) ?M db" "running ?x (session_sm e)" "?x \<noteq> 0" "unat ?k + db_ids A + 16 < 2 ^ 63" "list_all2 (holds ?c ?k ?x) (db_tables A) db"
    using assms(1,2) by (auto simp: represents_def)
  obtain Ps Qs where A: "db_tables A = Ps @ R # Qs" "rel_name R = nm" "nm \<notin> rel_name ` set (Ps @ Qs)" using find_named assms(3) represents_names [OF assms(1)] unfolding rel_of_def by blast
  obtain xs t vs ys where d: "db = xs @ (t, vs) # ys" "list_all2 (holds ?c ?k ?x) Ps xs" "list_all2 (holds ?c ?k ?x) Qs ys" "holds ?c ?k ?x R (t, vs)"
    using db(5) by (auto simp: A(1) list_all2_append1 list_all2_Cons1)
  obtain m hs u where st: "store {#P1#} limit (db_room A) (sm_DM (session_sm e)) m hs" "size hs \<le> load_cost db" "tables_apart m hs db" "bo_file (tbm_booter ?M) = Some (UUIDToRaw u)" "table_list u (map fst db)"
    "Suc (load_cost db) < limit" "idle (sm_ec (session_sm e))" "bo_faults (tbm_booter ?M) = []" "distinct (map (\<lambda>tv. tb_Name (fst tv)) db)" "tbm_tc ?M = by_name (map fst db)"
    using db(1) by (auto simp: stored_def)
  obtain K where K: "table_at m hs (K \<union> metas t) t vs" "table_saved m t" "\<And>m' hs' vs'. \<forall>v \<in> K \<union> metas t. m' v = m v \<Longrightarrow> set_mset hs \<subseteq> set_mset hs' \<Longrightarrow> table_at m' hs' (K \<union> metas t) t vs' \<Longrightarrow> tables_apart m' hs' (xs @ (t, vs') # ys)"
    by (rule apart_focus [OF st(3) [unfolded d(1)]], rule that, assumption+)
  obtain level where tx: "live ?x (session_sm e) = Ok (newTransaction ?x level {SUPER_XID})" "sm_tc (session_sm e) ?x = Some (newTransaction ?x level {SUPER_XID})" by (rule running_live [OF db(2,3)])
  have R: "rel_shapes R = map shape (tb_fields t)" "tb_Name t = nm" "rel_rows R = image_mset (view ?c ?x) (mset vs)" "\<forall>v \<in> set vs. known_version ?k ?x v" using d(4) A(2) by (simp_all add: holds_def)
  have "distinct (map tb_Name (map fst db))" "t \<in> set (map fst db)" using st(9) d(1) by (simp_all add: comp_def)
  then have tc: "tbm_tc ?M nm = Some t" using by_name_mem st(10) R(2) by metis
  have change: "represents limit ((on_rel nm (\<lambda>_. R') A)\<lparr>db_room := n'\<rparr>) (e\<lparr>ex_tbm := ?M\<lparr>tbm_SM := (session_sm e)\<lparr>sm_DM := d', sm_ec := c', sm_lt := lt'\<rparr>\<rparr>\<rparr>)"
    if g: "store {#P1#} limit n' d' m' hs" "idle c'" "owned ?x lt'" "table_at m' hs (K \<union> metas t) t vs'" "\<forall>v \<in> K \<union> metas t. m' v = m v" "rel_name R' = nm" "rel_shapes R' = rel_shapes R"
      "rel_rows R' = image_mset (view ?c ?x) (mset vs')" "\<forall>v \<in> set vs'. known_version ?k ?x v" for R' n' d' c' lt' m' vs'
  proof -
    let ?db = "xs @ (t, vs') # ys" and ?e = "e\<lparr>ex_tbm := ?M\<lparr>tbm_SM := (session_sm e)\<lparr>sm_DM := d', sm_ec := c', sm_lt := lt'\<rparr>\<rparr>\<rparr>"
    have same: "map fst ?db = map fst db" "map (\<lambda>tv. tb_Name (fst tv)) ?db = map (\<lambda>tv. tb_Name (fst tv)) db" "load_cost ?db = load_cost db" by (simp_all add: d(1) load_cost_sum)
    have "tables_apart m' hs ?db" by (rule K(3) [OF g(5) _ g(4)]) simp
    then have "stored limit n' (ex_tbm ?e) ?db" unfolding stored_def same using st g(1,2) by auto
    moreover have "running ?x (session_sm ?e)" using running_same [OF db(2) g(3) db(3)] by simp
    moreover have "holds ?c ?k ?x R' (t, vs')" using g(6-9) R(1,2) by (simp add: holds_def)
    ultimately show ?thesis unfolding represents_def using db(3,4) d(2,3) assms(2)
      by (intro exI [of _ ?db]) (simp add: on_rel_split [OF A] list_all2_appendI)
  qed
  have "focus limit A e R t vs m hs (K \<union> metas t) (newTransaction ?x level {SUPER_XID})"
    unfolding focus_def using tc R st(1,2,6,7) db(2,3) tx K(1) change A(2) by (auto simp: newTransaction_def)
  then show thesis using that A(2) by blast
qed

lemma focusD:
  assumes "focus limit A e R t vs m hs K tx"
  shows "tbm_tc (ex_tbm e) (rel_name R) = Some t" "rel_table R = blank t" "rel_rows R = image_mset (view (tm_IsCommitted (session_tm e)) (ex_xid e)) (mset vs)"
    "\<forall>v \<in> set vs. known_version (xidCounter (session_tm e)) (ex_xid e) v" "store {#P1#} limit (db_room A) (sm_DM (session_sm e)) m hs" "Suc (size hs) < limit" "idle (sm_ec (session_sm e))"
    "running (ex_xid e) (session_sm e)" "ex_xid e \<noteq> 0" "live (ex_xid e) (session_sm e) = Ok tx" "t_XID tx = ex_xid e" "sm_tc (session_sm e) (ex_xid e) = Some tx" "table_at m hs K t vs"
    "owned (ex_xid e) (sm_lt (session_sm e))" "size hs < limit" "\<not> tm_IsCommitted (session_tm e) (ex_xid e)" "ex_xid e = xidCounter (session_tm e)"
proof -
  have r: "running (ex_xid e) (session_sm e)" "ex_xid e \<noteq> 0" "Suc (size hs) < limit" using assms by (simp_all add: focus_def)
  show "owned (ex_xid e) (sm_lt (session_sm e))" "size hs < limit" using running_owned [OF r(1)] r(3) by simp_all
  show "\<not> tm_IsCommitted (session_tm e) (ex_xid e)" "ex_xid e = xidCounter (session_tm e)" using running_open r(1,2) by blast+
qed (use assms in \<open>simp_all add: focus_def\<close>)

lemma focus_change:
  assumes "focus limit A e R t vs m hs K tx" and "store {#P1#} limit n' d' m' hs" and "idle c'" and "owned (ex_xid e) lt'" and "table_at m' hs K t vs'" and "\<forall>v \<in> K. m' v = m v"
    and "rel_name R' = rel_name R" and "rel_shapes R' = rel_shapes R" and "rel_rows R' = image_mset (view (tm_IsCommitted (session_tm e)) (ex_xid e)) (mset vs')"
    and "\<forall>v \<in> set vs'. known_version (xidCounter (session_tm e)) (ex_xid e) v"
  shows "represents limit ((on_rel (rel_name R) (\<lambda>_. R') A)\<lparr>db_room := n'\<rparr>) (e\<lparr>ex_tbm := (ex_tbm e)\<lparr>tbm_SM := (session_sm e)\<lparr>sm_DM := d', sm_ec := c', sm_lt := lt'\<rparr>\<rparr>\<rparr>)"
  using assms unfolding focus_def by blast

section \<open>Statements inside a transaction\<close>

definition follows :: "tenv \<Rightarrow> nat \<Rightarrow> statement \<Rightarrow> database \<Rightarrow> executor \<Rightarrow> bool" where
  "follows te limit st A e \<longleftrightarrow> (\<exists>out e'. ex_statement te st e = Some (out, e') \<and> answers te st A out \<and> out \<noteq> Panic \<and> (is_ok out \<or> perform st A = A) \<and>
     represents limit (perform st A) e' \<and> ex_xid e' = ex_xid e)"

text \<open>A statement on a table that is not there.\<close>

definition target :: "statement \<Rightarrow> string option" where
  "target st = (case st of StInsert ins \<Rightarrow> Some (in_TableName ins) | StDelete del \<Rightarrow> Some (dl_TableName del) | StUpdate upd \<Rightarrow> Some (up_TableName upd) | StRead rd \<Rightarrow> Some (rd_TableName rd) | _ \<Rightarrow> None)"

lemma follows_missing:
  assumes "represents limit A e" and "target st = Some nm" and "rel_of A nm = None"
  shows "follows te limit st A e"
proof -
  have "tbm_tc (ex_tbm e) nm = None" using represents_missing [OF assms(1)] assms(3) by simp
  then have "ex_statement te st e = Some (Err ErrNoThatTable, e)"
    using assms(2) by (auto simp: target_def ex_statement_def on_tbmo_def tbm_Insert_def tbm_Delete_def tbm_Update_def tbm_Read_def split: statement.splits)
  moreover have "answers te st A (Err ErrNoThatTable)" using assms(2,3) by (auto simp: target_def answers_def on_existing_def split: statement.splits)
  moreover have "perform st A = A" using assms(2,3) on_rel_missing [OF assms(3)] by (auto simp: target_def perform_def effect_def cost_def split: statement.splits)
  ultimately show ?thesis using assms(1) by (simp add: follows_def)
qed

text \<open>The rows a statement finds are the versions its transaction sees.\<close>

lemma current_versions:
  assumes "rel_rows R = image_mset (view c x) (mset vs)"
  shows "current R wh = image_mset v_row (mset (filter (\<lambda>v. is_there c x v \<and> chosen R wh (v_row v)) vs))"
  unfolding current_def assms by (simp add: filter_mset_image_mset multiset.map_comp comp_def view_def)

lemma fresh_keys_rows:
  assumes "rel_rows R = image_mset (view c x) (mset vs)"
  shows "fresh_keys R es = fresh_rows (rel_table R) es vs"
  unfolding fresh_keys_def fresh_rows_def assms by auto

lemma view_news:
  assumes "length us = length es" and "x \<noteq> 0" and "\<not> c x"
  shows "image_mset (view c x) (mset (map2 (new_version x) us es)) = image_mset (\<lambda>e. (e, False, True)) (mset es)"
  using assms(1) by (induction rule: list_induct2) (simp_all add: view_new [where c = c, OF assms(2,3)])

lemma known_news: "unat x \<le> unat k \<Longrightarrow> v \<in> set (map2 (\<lambda>u e. new_version x u (f e)) us es) \<Longrightarrow> known_version k x v"
  by (auto intro: known_new)

lemma follows_insert:
  assumes "represents limit A e" and "db_tx A" and "rel_of A (in_TableName ins) = Some R" and "covered limit (StInsert ins) A"
  shows "follows te limit (StInsert ins) A e"
proof -
  let ?s = "session_sm e" and ?x = "ex_xid e" and ?c = "tm_IsCommitted (session_tm e)" and ?k = "xidCounter (session_tm e)" and ?rows = "insert_values ins"
  obtain t vs m hs K tx where f: "focus limit A e R t vs m hs K tx" and nm: "rel_name R = in_TableName ins" by (rule one_table [OF assms(1-3)])
  note o = focusD [OF f]
  let ?es = "map (entry_of R) ?rows"
  have cov: "length ?rows * row_cost t \<le> db_room A" "\<forall>vals \<in> set ?rows. storable t vals (entry_of R vals)" "fresh_rows t ?es vs"
    using assms(3,4) by (simp_all add: covered_def cost_def for_existing_def fresh_keys_rows [OF o(3)] o(2) shape_only)
  have es: "list_all2 (storable t) ?rows ?es" using cov(2) by (simp add: list_all2_conv_all_nth)
  have room: "store {#P1#} limit (length ?rows * row_cost t + (db_room A - length ?rows * row_cost t)) (sm_DM ?s) m hs" using o(5) cov(1) by simp
  obtain us d' m' where r: "length us = length ?es" "insertRows t ?x ?rows ?s = Some (Ok (), ?s\<lparr>sm_DM := d'\<rparr>)" "store {#P1#} limit (db_room A - length ?rows * row_cost t) d' m' hs"
    "table_at m' hs K t (rev (map2 (new_version ?x) us ?es) @ vs)" "\<forall>v \<in> K. m' v = m v"
    using dms.insertRows_versions [OF room o(6,10,13) es cov(3)] by blast
  let ?R = "add_rows (image_mset (entry_of R) (mset ?rows)) R" and ?e = "e\<lparr>ex_tbm := (ex_tbm e)\<lparr>tbm_SM := ?s\<lparr>sm_DM := d'\<rparr>\<rparr>\<rparr>"
  have "image_mset (view ?c ?x) (mset (map2 (new_version ?x) us ?es)) = image_mset (\<lambda>e. (e, False, True)) (mset ?es)" by (rule view_news [where c = ?c, OF r(1) o(9,16)])
  then have rows: "rel_rows ?R = image_mset (view ?c ?x) (mset (rev (map2 (new_version ?x) us ?es) @ vs))" by (simp add: add_rows_def o(3))
  have kn: "\<forall>v \<in> set (rev (map2 (new_version ?x) us ?es) @ vs). known_version ?k ?x v" using o(4,17) known_news [of ?x ?k _ "\<lambda>e. e" us ?es] by auto
  have "represents limit ((on_rel (rel_name R) (\<lambda>_. ?R) A)\<lparr>db_room := db_room A - length ?rows * row_cost t\<rparr>) (e\<lparr>ex_tbm := (ex_tbm e)\<lparr>tbm_SM := ?s\<lparr>sm_DM := d', sm_ec := sm_ec ?s, sm_lt := sm_lt ?s\<rparr>\<rparr>\<rparr>)"
    by (rule focus_change [OF f r(3) o(7,14) r(4,5) _ _ rows kn]) (simp_all add: add_rows_def)
  moreover have "perform (StInsert ins) A = (on_rel (rel_name R) (\<lambda>_. ?R) A)\<lparr>db_room := db_room A - length ?rows * row_cost t\<rparr>"
    using on_rel_at [OF assms(3) represents_names [OF assms(1)], of "\<lambda>R. add_rows (image_mset (entry_of R) (mset ?rows)) R"] assms(3) by (simp add: perform_def effect_def cost_def o(2) nm shape_only)
  moreover have "t_Insert t ?x ins ?s = Some (Ok (), ?s\<lparr>sm_DM := d'\<rparr>)" using r(2) by (simp add: t_Insert_def insert_values_def Let_def split: if_splits)
  then have "ex_statement te (StInsert ins) e = Some (Ok (str_bytes ''Insert''), ?e)" using o(1) nm by (simp add: ex_statement_def on_tbmo_def tbm_Insert_def on_table_def)
  ultimately show ?thesis using assms(3) by (simp add: follows_def answers_def on_existing_def is_ok_def)
qed

text \<open>The versions that a statement of the running transaction finds, in any order.\<close>

lemma found_versions:
  assumes "focus limit A e R t vs m hs K tx"
  shows "v \<in> set vs \<Longrightarrow> (seen (session_sm e) tx v \<and> satisfies t wh v) = (is_there (tm_IsCommitted (session_tm e)) (ex_xid e) v \<and> chosen R wh (v_row v))"
    and "v \<in> set vs \<Longrightarrow> grantable (sm_lt (session_sm e)) (ex_xid e) (v_uuid v) \<and> \<not> IsVersionSkip (tm_IsCommitted (session_tm e)) tx (v_xmax v)"
    and "mset (map v_row (filter (\<lambda>v. seen (session_sm e) tx v \<and> satisfies t wh v) (sort_key ord vs))) = current R wh"
proof -
  note o = focusD [OF assms]
  have wh: "satisfies t wh v = chosen R wh (v_row v)" for v by (simp add: satisfies_def chosen_def o(2) shape_only)
  show see: "(seen (session_sm e) tx v \<and> satisfies t wh v) = (is_there (tm_IsCommitted (session_tm e)) (ex_xid e) v \<and> chosen R wh (v_row v))" if "v \<in> set vs" for v
    using seen_is_there(1) [OF o(8,9,12)] o(4) that wh by blast
  show "grantable (sm_lt (session_sm e)) (ex_xid e) (v_uuid v) \<and> \<not> IsVersionSkip (tm_IsCommitted (session_tm e)) tx (v_xmax v)" if "v \<in> set vs"
    using seen_is_there(2) [OF o(8,9,12)] o(4) that owned_grantable [OF o(14)] by blast
  have "filter (\<lambda>v. seen (session_sm e) tx v \<and> satisfies t wh v) (sort_key ord vs) = filter (\<lambda>v. is_there (tm_IsCommitted (session_tm e)) (ex_xid e) v \<and> chosen R wh (v_row v)) (sort_key ord vs)"
    by (rule filter_cong) (use see in auto)
  then show "mset (map v_row (filter (\<lambda>v. seen (session_sm e) tx v \<and> satisfies t wh v) (sort_key ord vs))) = current R wh"
    using current_versions [OF o(3), of wh] by simp
qed

lemma hidden_versions:
  assumes "focus limit A e R t vs m hs K tx" and "\<And>v. v \<in> set vs \<Longrightarrow> v \<in> D \<longleftrightarrow> seen (session_sm e) tx v \<and> satisfies t wh v"
  shows "image_mset (view (tm_IsCommitted (session_tm e)) (ex_xid e)) (mset (map (deleted (ex_xid e) D) vs)) = rel_rows (hide_rows wh R)"
    and "\<forall>v \<in> set (map (deleted (ex_xid e) D) vs). known_version (xidCounter (session_tm e)) (ex_xid e) v"
proof -
  note o = focusD [OF assms(1)]
  let ?c = "tm_IsCommitted (session_tm e)" and ?x = "ex_xid e"
  have D: "v \<in> D \<longleftrightarrow> is_there ?c ?x v \<and> chosen R wh (v_row v)" if "v \<in> set vs" for v using assms(2) found_versions(1) [OF assms(1)] that by blast
  have "view ?c ?x (deleted ?x D v) = (\<lambda>(e, b, n). (e, b, n \<and> \<not> chosen R wh e)) (view ?c ?x v)" if "v \<in> set vs" for v
    using view_deleted [where c = ?c, OF o(9,16), of v D] D [OF that] by (auto simp: view_def)
  then have "image_mset (\<lambda>v. view ?c ?x (deleted ?x D v)) (mset vs) = image_mset (\<lambda>v. (\<lambda>(e, b, n). (e, b, n \<and> \<not> chosen R wh e)) (view ?c ?x v)) (mset vs)" by (intro image_mset_cong) simp
  then show "image_mset (view ?c ?x) (mset (map (deleted ?x D) vs)) = rel_rows (hide_rows wh R)" by (simp add: hide_rows_def o(3) multiset.map_comp comp_def)
  show "\<forall>v \<in> set (map (deleted ?x D) vs). known_version (xidCounter (session_tm e)) ?x v" using o(4,17) by (auto intro: known_deleted)
qed

lemma follows_delete:
  assumes "represents limit A e" and "db_tx A" and "rel_of A (dl_TableName del) = Some R" and "covered limit (StDelete del) A"
  shows "follows te limit (StDelete del) A e"
proof -
  let ?s = "session_sm e" and ?x = "ex_xid e" and ?wh = "dl_Where del"
  obtain t vs m hs K tx where f: "focus limit A e R t vs m hs K tx" and nm: "rel_name R = dl_TableName del" by (rule one_table [OF assms(1-3)])
  note o = focusD [OF f]
  obtain ord where pl: "plan t ?wh ord" using assms(3,4) by (auto simp: covered_def for_existing_def findable_def o(2) shape_only)
  let ?P = "\<lambda>v. seen ?s tx v \<and> satisfies t ?wh v"
  have "\<forall>v \<in> set vs. grantable (sm_lt ?s) ?x (v_uuid v) \<and> \<not> IsVersionSkip (tm_IsCommitted (sm_TM ?s)) tx (v_xmax v)" using found_versions(2) [OF f] by blast
  then obtain d' c' lt' m' where d: "t_Delete (te_env te) t ?x del ?s = Some (Ok (length (filter ?P vs)), ?s\<lparr>sm_DM := d', sm_ec := c', sm_lt := lt'\<rparr>)"
    "store {#P1#} limit (db_room A) d' m' hs" "idle c'" "table_at m' hs K t (map (deleted ?x {v. ?P v}) vs)" "\<forall>k \<in> K. m' k = m k" "owned ?x (sm_lt ?s) \<longrightarrow> owned ?x lt'"
    using dms.t_Delete_plan [OF o(5,15,7,10,11,9,13) pl] by blast
  have mem: "v \<in> {v. ?P v} \<longleftrightarrow> ?P v" for v by simp
  note h = hidden_versions [OF f mem]
  have lt: "owned ?x lt'" and sh: "rel_name (hide_rows ?wh R) = rel_name R" "rel_shapes (hide_rows ?wh R) = rel_shapes R" using d(6) o(14) by (simp_all add: hide_rows_def)
  have rep: "represents limit ((on_rel (rel_name R) (\<lambda>_. hide_rows ?wh R) A)\<lparr>db_room := db_room A\<rparr>) (e\<lparr>ex_tbm := (ex_tbm e)\<lparr>tbm_SM := ?s\<lparr>sm_DM := d', sm_ec := c', sm_lt := lt'\<rparr>\<rparr>\<rparr>)"
    by (rule focus_change [OF f d(2,3) lt d(4,5) sh h(1) [symmetric] h(2)])
  have "length (filter ?P vs) = size (mset (map v_row (filter ?P (sort_key v_uuid vs))))" by (simp only: mset_map size_image_mset mset_filter mset_sort flip: size_mset)
  then have len: "length (filter ?P vs) = size (current R ?wh)" unfolding found_versions(3) [OF f] .
  have "ex_statement te (StDelete del) e = Some (count_answer ''Delete '' (size (current R ?wh)), e\<lparr>ex_tbm := (ex_tbm e)\<lparr>tbm_SM := ?s\<lparr>sm_DM := d', sm_ec := c', sm_lt := lt'\<rparr>\<rparr>\<rparr>)"
    using d(1) o(1) nm by (simp add: ex_statement_def on_tbmo_def tbm_Delete_def on_table_def count_answer_def len)
  moreover have "perform (StDelete del) A = (on_rel (rel_name R) (\<lambda>_. hide_rows ?wh R) A)\<lparr>db_room := db_room A\<rparr>"
    using on_rel_at [OF assms(3) represents_names [OF assms(1)], of "hide_rows ?wh"] by (simp add: perform_def effect_def cost_def nm)
  ultimately show ?thesis using assms(3) rep by (simp add: follows_def answers_def on_existing_def is_ok_def count_answer_def)
qed

text \<open>A select on rows of the right types always has an answer.\<close>

lemma limitEntries_some:
  assumes "0 < limit" and "0 \<le> offset" and "offset + limit < 2 ^ 63"
  shows "\<exists>es'. limitEntries es limit offset = Ok es' \<and> set es' \<subseteq> set es"
proof (cases "int (length es) \<le> offset")
  case False
  have w: "wrap_int i = i" if "0 \<le> i" "i < 2 ^ 63" for i using that by (simp add: wrap_int_def signed_of_int signed_take_bit_int_eq_self)
  have "limitEntries es limit offset = Ok (take (nat ((if int (length es) < offset + limit then int (length es) else offset + limit) - offset)) (drop (nat offset) es))"
    using False assms w [of "offset + limit"] by (simp add: limitEntries_def Let_def)
  then show ?thesis using set_take_subset set_drop_subset by (metis subset_trans)
qed (simp add: limitEntries_def)

lemma printRows_some: "\<forall>e \<in> set es. typed_row t e \<Longrightarrow> \<exists>r. printRows t es = Ok r"
proof (induction es)
  case (Cons e es)
  then show ?case using entryPrint_ok [of t e] by (auto simp: is_ok_def split: res.splits)
qed simp

lemma answer_some:
  assumes "typed_table t" and "\<forall>e \<in> set es. typed_row t e" and "\<And>less es. mset (sortSlice less es) = mset es" and "0 \<le> rd_Offset rd" and "rd_Offset rd + rd_Limit rd < 2 ^ 63"
  shows "\<exists>r. answer sortSlice t rd es = Ok r"
proof -
  have set: "set (sortSlice less es) = set es" for less es using arg_cong [OF assms(3), of set_mset] by simp
  obtain es1 where e1: "(if rd_OrderBy rd \<noteq> [] then sortEntries sortSlice t es (rd_OrderBy rd) (rd_OrderDesc rd) else Ok es) = Ok es1" "set es1 = set es"
    using sortEntries_ok [OF assms(1,2), of sortSlice "rd_OrderBy rd" "rd_OrderDesc rd"] set by (cases "rd_OrderBy rd = []") (auto simp: is_ok_def sortEntries_def split: res.splits option.splits if_splits)
  obtain es2 where e2: "(if 0 < rd_Limit rd then limitEntries es1 (rd_Limit rd) (rd_Offset rd) else Ok es1) = Ok es2" "set es2 \<subseteq> set es1"
    using limitEntries_some [OF _ assms(4,5)] by (cases "0 < rd_Limit rd") auto
  have "\<exists>r. printRows t es2 = Ok r" using printRows_some e1(2) e2(2) assms(2) by blast
  then show ?thesis unfolding answer_def using e1(1) e2(1) by auto
qed

lemma follows_read:
  assumes "represents limit A e" and "db_tx A" and "rel_of A (rd_TableName rd) = Some R" and "covered limit (StRead rd) A" and "\<And>less es. mset (te_sort te less es) = mset es"
  shows "follows te limit (StRead rd) A e"
proof -
  let ?s = "session_sm e" and ?x = "ex_xid e" and ?wh = "rd_Where rd"
  obtain t vs m hs K tx where f: "focus limit A e R t vs m hs K tx" and nm: "rel_name R = rd_TableName rd" by (rule one_table [OF assms(1-3)])
  note o = focusD [OF f]
  obtain ord where pl: "plan t ?wh ord" and lim: "0 \<le> rd_Offset rd" "rd_Offset rd + rd_Limit rd < 2 ^ 63" using assms(3,4) by (auto simp: covered_def for_existing_def findable_def o(2) shape_only)
  let ?es = "map v_row (filter (\<lambda>v. seen ?s tx v \<and> satisfies t ?wh v) (sort_key ord vs))"
  obtain d' c' where d: "t_Read (te_sort te) t ?x rd ?s = Some (answer (te_sort te) t rd ?es, ?s\<lparr>sm_DM := d', sm_ec := c'\<rparr>)" "store {#P1#} limit (db_room A) d' m hs" "idle c'"
    using dms.t_Read_plan [OF o(5,15,7,10,13) pl] by blast
  have ty: "typed_table t" "\<forall>v \<in> set vs. typed_row t (v_row v)" using o(13) version_typed by (auto simp: table_at_def)
  then have tyr: "\<forall>e \<in> set ?es. typed_row t e" by auto
  obtain r where r: "answer (te_sort te) t rd ?es = Ok r" using answer_some [OF ty(1) tyr assms(5) lim] ..
  have "represents limit ((on_rel (rel_name R) (\<lambda>_. R) A)\<lparr>db_room := db_room A\<rparr>) (e\<lparr>ex_tbm := (ex_tbm e)\<lparr>tbm_SM := ?s\<lparr>sm_DM := d', sm_ec := c', sm_lt := sm_lt ?s\<rparr>\<rparr>\<rparr>)"
    by (rule focus_change [OF f d(2,3) o(14,13) _ refl refl o(3,4)]) simp
  moreover have "on_rel (rel_name R) (\<lambda>_. R) A = on_rel (rel_name R) (\<lambda>R. R) A" unfolding nm by (rule on_rel_at [OF assms(3) represents_names [OF assms(1)], symmetric])
  then have "on_rel (rel_name R) (\<lambda>_. R) A = A" by (simp add: on_rel_def)
  ultimately have "represents limit (perform (StRead rd) A) (e\<lparr>ex_tbm := (ex_tbm e)\<lparr>tbm_SM := ?s\<lparr>sm_DM := d', sm_ec := c'\<rparr>\<rparr>\<rparr>)" by (simp add: perform_def effect_def cost_def)
  moreover have "ex_statement te (StRead rd) e = Some (Ok (str_bytes r), e\<lparr>ex_tbm := (ex_tbm e)\<lparr>tbm_SM := ?s\<lparr>sm_DM := d', sm_ec := c'\<rparr>\<rparr>\<rparr>)"
    using d(1) r o(1) nm by (simp add: ex_statement_def on_tbmo_def tbm_Read_def on_table_def)
  moreover have "answer (te_sort te) (rel_table R) rd ?es = Ok r" using r by (simp add: o(2) shape_only)
  then have "answers te (StRead rd) A (Ok (str_bytes r))" using found_versions(3) [OF f, of ?wh ord] unfolding answers_def on_existing_def statement.case assms(3) option.case by blast
  ultimately show ?thesis by (simp add: follows_def is_ok_def)
qed

lemma follows_update:
  assumes "represents limit A e" and "db_tx A" and "rel_of A (up_TableName upd) = Some R" and "covered limit (StUpdate upd) A"
  shows "follows te limit (StUpdate upd) A e"
proof -
  let ?s = "session_sm e" and ?x = "ex_xid e" and ?wh = "up_Where upd" and ?c = "tm_IsCommitted (session_tm e)" and ?k = "xidCounter (session_tm e)"
  obtain t vs m hs K tx where f: "focus limit A e R t vs m hs K tx" and nm: "rel_name R = up_TableName upd" by (rule one_table [OF assms(1-3)])
  note o = focusD [OF f]
  have cov: "findable (rel_table R) ?wh" "indexed (rel_table R) = []" "assignable R upd" "length vs * 3 \<le> db_room A" using assms(3,4) by (simp_all add: covered_def for_existing_def cost_def o(3))
  obtain ord where pl: "plan t ?wh ord" using cov(1) by (auto simp: findable_def o(2) shape_only)
  have ix: "indexed t = []" using cov(2) unfolding o(2) blank_indexed by simp
  obtain fd val where fd: "field_named t (up_FieldName upd) = Some fd" "StrToValue fd (up_Value upd) = Ok val" "\<forall>v \<in> set vs. fits_page t (set_field fd val (v_row v))" "assigned R upd = set_field fd val"
    using cov(3) by (auto simp: assignable_def assigned_def o(2,3) shape_only set_field_def fun_eq_iff split: option.splits res.splits)
  let ?P = "\<lambda>v. seen ?s tx v \<and> satisfies t ?wh v" and ?n = "db_room A - length vs * 3"
  let ?D = "filter ?P (sort_key ord vs)" and ?new = "\<lambda>u v. new_version ?x u (set_field fd val (v_row v))"
  have room: "store {#P1#} limit (length vs * 3 + ?n) (sm_DM ?s) m hs" using o(5) cov(4) by simp
  have gr: "\<forall>v \<in> set vs. grantable (sm_lt ?s) ?x (v_uuid v) \<and> \<not> IsVersionSkip ?c tx (v_xmax v) \<and> fits_page t (set_field fd val (v_row v))" using found_versions(2) [OF f] fd(3) by blast
  obtain us d' c' lt' m' where d: "length us = length ?D" "t_Update (te_env te) t ?x upd ?s = Some (Ok (length ?D), ?s\<lparr>sm_DM := d', sm_ec := c', sm_lt := lt'\<rparr>)" "store {#P1#} limit ?n d' m' hs" "idle c'"
    "\<forall>k \<in> K. m' k = m k" "table_at m' hs K t (rev (map2 ?new us ?D) @ map (deleted ?x (set ?D)) vs)" "owned ?x (sm_lt ?s) \<longrightarrow> owned ?x lt'"
    using dms.t_Update_plan [OF room o(6,7,10,11,9,13) pl ix fd(1,2) gr, of "te_env te"] unfolding Let_def by blast
  have mem: "v \<in> set vs \<Longrightarrow> v \<in> set ?D \<longleftrightarrow> ?P v" for v by simp
  note h = hidden_versions [OF f mem]
  let ?R = "add_rows (image_mset (assigned R upd) (current R ?wh)) (hide_rows ?wh R)" and ?vs = "rev (map2 ?new us ?D) @ map (deleted ?x (set ?D)) vs"
  have cur: "mset (map v_row ?D) = current R ?wh" by (rule found_versions(3) [OF f])
  have "length us = length (map (\<lambda>v. set_field fd val (v_row v)) ?D)" using d(1) by simp
  note news = view_news [where c = ?c, OF this o(9,16)]
  have "map2 ?new us ?D = map2 (new_version ?x) us (map (\<lambda>v. set_field fd val (v_row v)) ?D)" by (simp add: zip_map2 case_prod_beta)
  then have "image_mset (view ?c ?x) (mset (map2 ?new us ?D)) = image_mset (\<lambda>e. (e, False, True)) (image_mset (set_field fd val) (mset (map v_row ?D)))" using news by (simp add: multiset.map_comp comp_def)
  then have rows: "rel_rows ?R = image_mset (view ?c ?x) (mset ?vs)" using h(1) unfolding cur fd(4) by (simp add: add_rows_def)
  have kn: "\<forall>v \<in> set ?vs. known_version ?k ?x v" using h(2) o(17) known_news [of ?x ?k _ "\<lambda>v. set_field fd val (v_row v)" us ?D] by auto
  have lt: "owned ?x lt'" and sh: "rel_name ?R = rel_name R" "rel_shapes ?R = rel_shapes R" using d(7) o(14) by (simp_all add: hide_rows_def add_rows_def)
  let ?e = "e\<lparr>ex_tbm := (ex_tbm e)\<lparr>tbm_SM := ?s\<lparr>sm_DM := d', sm_ec := c', sm_lt := lt'\<rparr>\<rparr>\<rparr>"
  have rep: "represents limit ((on_rel (rel_name R) (\<lambda>_. ?R) A)\<lparr>db_room := ?n\<rparr>) ?e" by (rule focus_change [OF f d(3,4) lt d(6,5) sh rows kn])
  have len: "length ?D = size (current R ?wh)" using arg_cong [OF cur, of size] by (simp only: size_mset length_map)
  have "ex_statement te (StUpdate upd) e = Some (count_answer ''Update '' (size (current R ?wh)), ?e)"
    using d(2) o(1) nm by (simp add: ex_statement_def on_tbmo_def tbm_Update_def on_table_def count_answer_def len)
  moreover have "perform (StUpdate upd) A = (on_rel (rel_name R) (\<lambda>_. ?R) A)\<lparr>db_room := ?n\<rparr>"
    using on_rel_at [OF assms(3) represents_names [OF assms(1)], of "\<lambda>R. add_rows (image_mset (assigned R upd) (current R ?wh)) (hide_rows ?wh R)"] assms(3)
    by (simp add: perform_def effect_def cost_def nm o(3))
  ultimately show ?thesis using assms(3) rep by (simp add: follows_def answers_def on_existing_def is_ok_def count_answer_def)
qed

text \<open>A new table lies apart from the others and heads the list of tables.\<close>

lemma stored_create:
  assumes "stored limit (length (cr_FieldName create) * field_cost + 3 + n) M db" and "load_cost db + length (cr_FieldName create) + 2 < limit" and "proper_create create"
    and "live SUPER_XID (tbm_SM M) = Ok tx" and "tbm_tc M (cr_TableName create) = None"
  obtains t d' M' where "tbm_Create x create M = (Ok (str_bytes (''create '' @ cr_TableName create)), M')" "tbm_SM M' = (tbm_SM M)\<lparr>sm_DM := d'\<rparr>" "stored limit n M' ((t, []) # db)"
    "tb_Name t = cr_TableName create" "map shape (tb_fields t) = shapes create"
proof -
  let ?k = "length (cr_FieldName create)"
  obtain m hs u where st: "store {#P1#} limit (?k * field_cost + (3 + n)) (sm_DM (tbm_SM M)) m hs" "size hs \<le> load_cost db" "tables_apart m hs db" "bo_file (tbm_booter M) = Some (UUIDToRaw u)" "table_list u (map fst db)"
    "Suc (load_cost db) < limit" "idle (sm_ec (tbm_SM M))" "bo_faults (tbm_booter M) = []" "distinct (map (\<lambda>tv. tb_Name (fst tv)) db)" "tbm_tc M = by_name (map fst db)"
    using assms(1) by (auto simp: stored_def add.assoc)
  have sz: "size hs + ?k + 1 < limit" using st(2) assms(2) by simp
  obtain K where K: "\<forall>v \<in> K. m v \<noteq> None"
    "\<And>m' hs' t. \<forall>v \<in> K. m' v = m v \<Longrightarrow> set_mset hs \<subseteq> set_mset hs' \<Longrightarrow> table_at m' hs' (K \<union> metas t) t [] \<Longrightarrow> table_saved m' t \<Longrightarrow> metas t \<inter> K = {} \<Longrightarrow> tables_apart m' hs' ((t, []) # db)"
    by (rule apart_new [OF st(3)], rule that, assumption+)
  obtain t d' m' hs' where c: "CreateTable u create (tbm_SM M) = (Ok t, (tbm_SM M)\<lparr>sm_DM := d'\<rparr>)" "store {#P1#} limit n d' m' hs'" "size hs' \<le> size hs + ?k + 1" "table_at m' hs' (K \<union> metas t) t []" "table_saved m' t"
    "\<forall>v \<in> K. m' v = m v" "map shape (tb_fields t) = shapes create" "tb_Name t = cr_TableName create" "tb_Next t = u" "metas t \<inter> K = {}" "hs \<subseteq># hs'"
    by (rule dms.CreateTable_saved [OF st(1) sz assms(4,3) K(1)])
  let ?b = "(tbm_booter M)\<lparr>bo_file := Some (UUIDToRaw (tb_SelfUUID t)), bo_tmp := None\<rparr>"
  let ?M = "\<lparr>tbm_SM = (tbm_SM M)\<lparr>sm_DM := d'\<rparr>, tbm_booter = ?b, tbm_tc = (tbm_tc M)(cr_TableName create \<mapsto> t), tbm_xtc = (tbm_xtc M)(x := tbm_xtc M x @ [t])\<rparr>"
  have cr: "tbm_Create x create M = (Ok (str_bytes (''create '' @ cr_TableName create)), ?M)"
    using assms(5) st(4,8) c(1) bo_Update_healthy [OF st(8)] by (simp add: tbm_Create_def firstTableUUID_def bo_Load_def ParseUUID_self on_sm_def updateFirstTableUUID_def on_booter_def)
  have ap: "tables_apart m' hs' ((t, []) # db)" by (rule K(2) [OF c(6) set_mset_mono [OF c(11)] c(4,5,10)])
  have len: "length (tb_fields t) = ?k" using arg_cong [OF c(7), of length] assms(3) by (simp add: shapes_def proper_create_def)
  have "cr_TableName create \<notin> tb_Name ` set (map fst db)" using assms(5) unfolding st(10) dom_by_name [symmetric] by (simp add: domIff)
  then have "distinct (map (\<lambda>tv. tb_Name (fst tv)) ((t, []) # db))" "(tbm_tc M)(cr_TableName create \<mapsto> t) = by_name (map fst ((t, []) # db))" using st(9,10) c(8) by (simp_all add: image_image by_name_def)
  moreover have "size hs' \<le> load_cost ((t, []) # db)" "Suc (load_cost ((t, []) # db)) < limit" "table_list (tb_SelfUUID t) (map fst ((t, []) # db))" using c(3,9) st(2,5) assms(2) len by simp_all
  ultimately have "stored limit n ?M ((t, []) # db)" unfolding stored_def using c(2) ap st(7,8) by auto
  then show thesis using that [OF cr _ _ c(8,7)] by simp
qed

lemma follows_create:
  assumes "represents limit A e" and "db_tx A" and "covered limit (StCreate create) A"
  shows "follows te limit (StCreate create) A e"
proof (cases "rel_of A (cr_TableName create)")
  case None
  let ?c = "tm_IsCommitted (session_tm e)" and ?k = "xidCounter (session_tm e)" and ?x = "ex_xid e" and ?cost = "length (cr_FieldName create) * field_cost + 3"
  obtain db where db: "stored limit (db_room A) (ex_tbm e) db" "running ?x (session_sm e)" "?x \<noteq> 0" "unat ?k + db_ids A + 16 < 2 ^ 63" "list_all2 (holds ?c ?k ?x) (db_tables A) db"
    using assms(1,2) by (auto simp: represents_def)
  have cov: "?cost \<le> db_room A" "proper_create create" "load_cost db + length (cr_FieldName create) + 2 < limit"
    using assms(3) None holds_load [OF db(5)] by (simp_all add: covered_def cost_def load_def)
  have room: "stored limit (?cost + (db_room A - ?cost)) (ex_tbm e) db" using db(1) cov(1) by simp
  have tc: "tbm_tc (ex_tbm e) (cr_TableName create) = None" using represents_missing [OF assms(1)] None by simp
  obtain t d' M' where c: "tbm_Create ?x create (ex_tbm e) = (Ok (str_bytes (''create '' @ cr_TableName create)), M')" "tbm_SM M' = (session_sm e)\<lparr>sm_DM := d'\<rparr>" "stored limit (db_room A - ?cost) M' ((t, []) # db)"
    "tb_Name t = cr_TableName create" "map shape (tb_fields t) = shapes create" by (rule stored_create [OF room cov(3,2) running_super [OF db(2)] tc])
  have "holds ?c ?k ?x (new_relation create) (t, [])" using c(4,5) by (simp add: holds_def new_relation_def)
  moreover have "running ?x (tbm_SM M')" using running_same [where d = d' and c = "sm_ec (session_sm e)", OF db(2) running_owned [OF db(2)] db(3)] c(2) by simp
  ultimately have "represents limit (perform (StCreate create) A) (e\<lparr>ex_tbm := M'\<rparr>)"
    unfolding represents_def using c(2,3) db(3-5) assms(2) None by (intro exI [of _ "(t, []) # db"]) (simp add: perform_def effect_def cost_def)
  moreover have "ex_statement te (StCreate create) e = Some (Ok (str_bytes (''create '' @ cr_TableName create)), e\<lparr>ex_tbm := M'\<rparr>)" using c(1) by (simp add: ex_statement_def on_tbm_def)
  ultimately show ?thesis using None by (simp add: follows_def answers_def is_ok_def)
next
  case (Some R)
  then have "tbm_tc (ex_tbm e) (cr_TableName create) \<noteq> None" using represents_missing [OF assms(1)] by (metis option.distinct(1))
  then have "ex_statement te (StCreate create) e = Some (Err (ErrDuplicatedTable (cr_TableName create)), e)" by (simp add: ex_statement_def on_tbm_def tbm_Create_def)
  moreover have "perform (StCreate create) A = A" using Some by (simp add: perform_def effect_def cost_def)
  ultimately show ?thesis using assms(1) Some by (simp add: follows_def answers_def)
qed

lemma follows_all:
  assumes "represents limit A e" and "db_tx A" and "covered limit st A" and "\<And>less es. mset (te_sort te less es) = mset es"
  shows "follows te limit st A e"
proof (cases "\<exists>nm. target st = Some nm \<and> rel_of A nm = None")
  case True
  then show ?thesis using follows_missing [OF assms(1)] by blast
next
  case False
  then show ?thesis using assms(3) follows_create [OF assms(1,2)] follows_insert [OF assms(1,2)] follows_delete [OF assms(1,2)] follows_update [OF assms(1,2)] follows_read [OF assms(1,2) _ _ assms(4)]
    by (cases st) (auto simp: target_def covered_def)
qed

section \<open>Beginning and ending transactions\<close>

lemma stored_same: "stored limit n M db \<Longrightarrow> sm_DM s = sm_DM (tbm_SM M) \<Longrightarrow> sm_ec s = sm_ec (tbm_SM M) \<Longrightarrow> stored limit n (M\<lparr>tbm_SM := s\<rparr>) db"
  by (simp add: stored_def)

lemma holds_map:
  assumes "list_all2 (holds c k x) Rs db" and "\<And>v. known_version k x v \<Longrightarrow> view c' x' v = f (view c x v) \<and> known_version k' x' v"
  shows "list_all2 (holds c' k' x') (map (\<lambda>R. R\<lparr>rel_rows := image_mset f (rel_rows R)\<rparr>) Rs) db"
  unfolding list.rel_map
proof (rule list.rel_mono_strong [OF assms(1)])
  fix R tv assume "holds c k x R tv"
  then have h: "rel_name R = tb_Name (fst tv)" "rel_shapes R = map shape (tb_fields (fst tv))" "rel_rows R = image_mset (view c x) (mset (snd tv))" "\<forall>v \<in> set (snd tv). known_version k x v" by (simp_all add: holds_def)
  have "image_mset f (rel_rows R) = image_mset (view c' x') (mset (snd tv))" unfolding h(3) multiset.map_comp by (intro image_mset_cong) (use h(4) assms(2) in simp)
  then show "holds c' k' x' (R\<lparr>rel_rows := image_mset f (rel_rows R)\<rparr>) tv" using h assms(2) by (simp add: holds_def)
qed

lemma holds_kept:
  assumes "list_all2 (holds c k x) Rs db" and "\<And>v. known_version k x v \<Longrightarrow> view c' x' v = view c x v \<and> known_version k' x' v"
  shows "list_all2 (holds c' k' x') Rs db"
  using holds_map [OF assms(1), of c' x' "\<lambda>r. r" k'] assms(2) by simp

lemma session_begin:
  assumes "represents limit A e" and "\<not> db_tx A" and "0 < db_ids A"
  obtains x M where "tbm_Begin rr (ex_tbm e) = (Ok (x, str_bytes ''begin''), M)" "x \<noteq> 0" "represents limit (start_tx A) (e\<lparr>ex_tbm := M, ex_xid := x\<rparr>)"
proof -
  let ?s = "session_sm e" and ?k = "xidCounter (session_tm e)"
  obtain db where db: "stored limit (db_room A) (ex_tbm e) db" "running 0 ?s" "unat ?k + db_ids A + 16 < 2 ^ 63" "list_all2 (holds (tm_IsCommitted (session_tm e)) ?k 0) (db_tables A) db"
    using assms(1,2) by (auto simp: represents_def)
  have few: "unat ?k + 17 < 2 ^ 63" using db(3) assms(3) by simp
  obtain x s where b: "sm_Begin (if rr then 1 else 0) ?s = (Ok x, s)" "x \<noteq> 0" "running x s" "unat (xidCounter (sm_TM s)) = Suc (unat ?k)" "x = xidCounter (sm_TM s)" "sm_DM s = sm_DM ?s" "sm_ec s = sm_ec ?s"
    "\<And>y. unat y \<le> unat ?k \<Longrightarrow> tm_IsCommitted (sm_TM s) y = tm_IsCommitted (session_tm e) y" by (rule running_begin [OF db(2) few, of "if rr then 1 else 0"], rule that, assumption+)
  have ux: "unat x = Suc (unat ?k)" using b(4,5) by simp
  have "list_all2 (holds (tm_IsCommitted (sm_TM s)) x x) (db_tables A) db"
    by (rule holds_kept [OF db(4)]) (use view_begin [where c' = "tm_IsCommitted (sm_TM s)" and c = "tm_IsCommitted (session_tm e)", OF _ ux b(8)] in blast)
  then have "represents limit (start_tx A) (e\<lparr>ex_tbm := (ex_tbm e)\<lparr>tbm_SM := s\<rparr>, ex_xid := x\<rparr>)"
    unfolding represents_def using stored_same [OF db(1) b(6,7)] b(2,3,4) b(5) [symmetric] db(3) assms(3) by (intro exI [of _ db]) (simp add: start_tx_def)
  moreover have "tbm_Begin rr (ex_tbm e) = (Ok (x, str_bytes ''begin''), (ex_tbm e)\<lparr>tbm_SM := s\<rparr>)" using b(1) by (simp add: tbm_Begin_def on_sm_def)
  ultimately show thesis using that b(2) by blast
qed

lemma session_commit:
  assumes "represents limit A e" and "db_tx A"
  obtains M where "tbm_Commit (ex_xid e) (ex_tbm e) = (Ok (str_bytes ''commit''), M)" "represents limit (commit_tx A) (e\<lparr>ex_tbm := M, ex_xid := 0\<rparr>)"
proof -
  let ?s = "session_sm e" and ?k = "xidCounter (session_tm e)" and ?c = "tm_IsCommitted (session_tm e)" and ?x = "ex_xid e"
  obtain db where db: "stored limit (db_room A) (ex_tbm e) db" "running ?x ?s" "?x \<noteq> 0" "unat ?k + db_ids A + 16 < 2 ^ 63" "list_all2 (holds ?c ?k ?x) (db_tables A) db"
    using assms by (auto simp: represents_def)
  obtain s where b: "sm_Commit ?x ?s = (Ok (), s)" "running 0 s" "xidCounter (sm_TM s) = ?k" "sm_DM s = sm_DM ?s" "sm_ec s = sm_ec ?s"
    "\<And>y. unat y \<le> unat ?k \<Longrightarrow> tm_IsCommitted (sm_TM s) y = (y = ?x \<or> ?c y)" by (rule running_commit [OF db(2,3)], rule that, assumption+)
  have "list_all2 (holds (tm_IsCommitted (sm_TM s)) ?k 0) (map (\<lambda>R. R\<lparr>rel_rows := image_mset (\<lambda>(e, b, n). (e, n, n)) (rel_rows R)\<rparr>) (db_tables A)) db"
    by (rule holds_map [OF db(5)]) (use view_commit [where c = ?c, OF _ db(3) running_open(2) [OF db(2,3)] b(6)] in \<open>simp add: view_def\<close>)
  then have "represents limit (commit_tx A) (e\<lparr>ex_tbm := (ex_tbm e)\<lparr>tbm_SM := s\<rparr>, ex_xid := 0\<rparr>)"
    unfolding represents_def using stored_same [OF db(1) b(4,5)] b(2,3) db(4) by (intro exI [of _ db]) (simp add: commit_tx_def map_rows_def)
  moreover have "tbm_Commit ?x (ex_tbm e) = (Ok (str_bytes ''commit''), (ex_tbm e)\<lparr>tbm_SM := s\<rparr>)" using b(1) by (simp add: tbm_Commit_def on_sm_def)
  ultimately show thesis using that by blast
qed

lemma session_abort:
  assumes "represents limit A e" and "db_tx A"
  obtains M where "tbm_Abort (ex_xid e) (ex_tbm e) = (Ok (str_bytes ''abort''), M)" "represents limit (abort_tx A) (e\<lparr>ex_tbm := M, ex_xid := 0\<rparr>)"
proof -
  let ?s = "session_sm e" and ?k = "xidCounter (session_tm e)" and ?c = "tm_IsCommitted (session_tm e)" and ?x = "ex_xid e"
  obtain db where db: "stored limit (db_room A) (ex_tbm e) db" "running ?x ?s" "?x \<noteq> 0" "unat ?k + db_ids A + 16 < 2 ^ 63" "list_all2 (holds ?c ?k ?x) (db_tables A) db"
    using assms by (auto simp: represents_def)
  obtain s where b: "sm_Abort ?x ?s = (Ok (), s)" "running 0 s" "xidCounter (sm_TM s) = ?k" "sm_DM s = sm_DM ?s" "sm_ec s = sm_ec ?s"
    "\<And>y. unat y \<le> unat ?k \<Longrightarrow> tm_IsCommitted (sm_TM s) y = ?c y" by (rule running_abort [OF db(2,3)], rule that, assumption+)
  have "list_all2 (holds (tm_IsCommitted (sm_TM s)) ?k 0) (map (\<lambda>R. R\<lparr>rel_rows := image_mset (\<lambda>(e, b, n). (e, b, b)) (rel_rows R)\<rparr>) (db_tables A)) db"
    by (rule holds_map [OF db(5)]) (use view_abort [where c = ?c, OF _ _ b(6)] running_open(2) [OF db(2,3)] in \<open>simp add: view_def\<close>)
  then have "represents limit (abort_tx A) (e\<lparr>ex_tbm := (ex_tbm e)\<lparr>tbm_SM := s\<rparr>, ex_xid := 0\<rparr>)"
    unfolding represents_def using stored_same [OF db(1) b(4,5)] b(2,3) db(4) by (intro exI [of _ db]) (simp add: abort_tx_def map_rows_def)
  moreover have "tbm_Abort ?x (ex_tbm e) = (Ok (str_bytes ''abort''), (ex_tbm e)\<lparr>tbm_SM := s\<rparr>)" using b(1) by (simp add: tbm_Abort_def on_sm_def)
  ultimately show thesis using that by blast
qed

section \<open>Requests\<close>

lemma start_tx_same [simp]:
  "rel_of (start_tx A) = rel_of A" "cost st (start_tx A) = cost st A" "covered limit st (start_tx A) = covered limit st A" "answers te st (start_tx A) = answers te st A" "db_tx (start_tx A)"
proof -
  have r: "rel_of (start_tx A) = rel_of A" "load (start_tx A) = load A" "db_room (start_tx A) = db_room A" by (simp_all add: fun_eq_iff rel_of_def start_tx_def load_def)
  then show "rel_of (start_tx A) = rel_of A" by simp
  show c: "cost st (start_tx A) = cost st A" by (simp add: cost_def r split: statement.split)
  show "covered limit st (start_tx A) = covered limit st A" unfolding covered_def for_existing_def c r ..
  show "answers te st (start_tx A) = answers te st A" unfolding answers_def on_existing_def r fun_eq_iff by simp
  show "db_tx (start_tx A)" by (simp add: start_tx_def)
qed

text \<open>Outside a transaction there is nothing to commit or to abort.\<close>

lemma nothing_to_end:
  assumes "represents limit A e" and "\<not> db_tx A"
  shows "commit_tx (start_tx A) = abort_tx (start_tx A)"
proof -
  obtain c k db where db: "list_all2 (holds c k 0) (db_tables A) db" using assms by (auto simp: represents_def)
  have "image_mset (\<lambda>(e, b, n). (e, n, n)) (rel_rows R) = image_mset (\<lambda>(e, b, n). (e, b, b)) (rel_rows R)" if R: "R \<in> set (db_tables A)" for R
  proof -
    obtain tv where "holds c k 0 R tv" using db R unfolding list_all2_conv_all_nth in_set_conv_nth by metis
    then show ?thesis by (simp add: holds_def view_outside multiset.map_comp comp_def)
  qed
  then show ?thesis by (simp add: commit_tx_def abort_tx_def map_rows_def start_tx_def)
qed

text \<open>What the program does with a request: a text goes to the executor of the session; a restart closes the database, whatever the session was doing, opens its files again and begins a new session.\<close>

definition serve :: "tenv \<Rightarrow> (UUID set \<Rightarrow> UUID list) \<Rightarrow> XID list \<Rightarrow> request \<Rightarrow> executor \<Rightarrow> (bytes res \<times> executor) option" where
  "serve te order xids req e =
     (case req of
        Sql q \<Rightarrow> Execute te q e
      | Reopen rnd mem \<Rightarrow>
          (case closeDB (order (dom (cache (pc_c (dm_pc (sm_DM (session_sm e))))))) (ex_tbm e) of
             Done files \<Rightarrow> (case openDB rnd xids mem files of None \<Rightarrow> None | Some (Done M) \<Rightarrow> Some (Ok [], NewExecutor M) | Some _ \<Rightarrow> Some (Panic, e))
           | _ \<Rightarrow> Some (Panic, e)))"

lemma serve_own_transaction:
  assumes "represents limit A e" and "\<not> db_tx A" and "0 < db_ids A" and "covered limit st A" and "\<not> control st" and "\<And>less es. mset (te_sort te less es) = mset es"
  shows "\<exists>out e'. execute2 te st e = Some (out, e') \<and> answers te st A out \<and> represents limit (commit_tx (perform st (start_tx A))) e'"
proof -
  obtain x M where b: "tbm_Begin False (ex_tbm e) = (Ok (x, str_bytes ''begin''), M)" "x \<noteq> 0" "represents limit (start_tx A) (e\<lparr>ex_tbm := M, ex_xid := x\<rparr>)" by (rule session_begin [OF assms(1-3)])
  let ?e = "e\<lparr>ex_tbm := M, ex_xid := x\<rparr>" and ?A = "perform st (start_tx A)"
  have x0: "ex_xid e = 0" using assms(1,2) by (auto simp: represents_def)
  have "follows te limit st (start_tx A) ?e" by (rule follows_all [OF b(3) _ _ assms(6)]) (use assms(4) in simp_all)
  then obtain out e1 where f: "ex_statement te st ?e = Some (out, e1)" "answers te st A out" "out \<noteq> Panic" "is_ok out \<or> ?A = start_tx A" "represents limit ?A e1" "ex_xid e1 = x" by (auto simp: follows_def)
  have run: "execute2 te st e = Some (ex_finish out e1)" using b(1,2) f(1) x0 by (simp add: execute2_def on_tbm_def)
  have tx: "db_tx ?A" using f(5,6) b(2) by (auto simp: represents_def)
  show ?thesis
  proof (cases out)
    case (Ok r)
    obtain M' where c: "tbm_Commit (ex_xid e1) (ex_tbm e1) = (Ok (str_bytes ''commit''), M')" "represents limit (commit_tx ?A) (e1\<lparr>ex_tbm := M', ex_xid := 0\<rparr>)" by (rule session_commit [OF f(5) tx])
    then show ?thesis using run f(2) Ok by (simp add: ex_finish_def on_tbm_def)
  next
    case (Err err)
    obtain M' where a: "tbm_Abort (ex_xid e1) (ex_tbm e1) = (Ok (str_bytes ''abort''), M')" "represents limit (abort_tx ?A) (e1\<lparr>ex_tbm := M', ex_xid := 0\<rparr>)" by (rule session_abort [OF f(5) tx])
    moreover have "abort_tx ?A = commit_tx ?A" using f(4) Err nothing_to_end [OF assms(1,2)] by (simp add: is_ok_def)
    ultimately show ?thesis using run f(2) Err by (simp add: ex_finish_def on_tbm_def)
  qed (use f(3) in simp)
qed

lemma serve_control:
  assumes "represents limit A e" and "0 < db_ids A" and "control st" and "Parse q = Some (Ok st)"
  shows "\<exists>out e'. Execute te q e = Some (out, e') \<and> statement_answers te st A out \<and> represents limit (after_statement st A) e'"
proof -
  have x: "db_tx A \<longleftrightarrow> ex_xid e \<noteq> 0" using assms(1) by (auto simp: represents_def)
  consider rr where "st = StBegin rr" | "st = StCommit" | "st = StAbort" using assms(3) by (auto simp: control_def)
  then show ?thesis
  proof cases
    case 1
    show ?thesis
    proof (cases "db_tx A")
      case False
      obtain x M where "tbm_Begin rr (ex_tbm e) = (Ok (x, str_bytes ''begin''), M)" "x \<noteq> 0" "represents limit (start_tx A) (e\<lparr>ex_tbm := M, ex_xid := x\<rparr>)" by (rule session_begin [OF assms(1) False assms(2)])
      then show ?thesis using False x assms(4) 1 by (simp add: Execute_def on_tbm_def statement_answers_def after_statement_def)
    qed (use x assms(1,4) 1 in \<open>simp add: Execute_def statement_answers_def after_statement_def\<close>)
  next
    case 2
    show ?thesis
    proof (cases "db_tx A")
      case True
      obtain M where "tbm_Commit (ex_xid e) (ex_tbm e) = (Ok (str_bytes ''commit''), M)" "represents limit (commit_tx A) (e\<lparr>ex_tbm := M, ex_xid := 0\<rparr>)" by (rule session_commit [OF assms(1) True])
      then show ?thesis using True x assms(4) 2 by (simp add: Execute_def on_tbm_def statement_answers_def after_statement_def)
    qed (use x assms(1,4) 2 in \<open>simp add: Execute_def statement_answers_def after_statement_def\<close>)
  next
    case 3
    show ?thesis
    proof (cases "db_tx A")
      case True
      obtain M where "tbm_Abort (ex_xid e) (ex_tbm e) = (Ok (str_bytes ''abort''), M)" "represents limit (abort_tx A) (e\<lparr>ex_tbm := M, ex_xid := 0\<rparr>)" by (rule session_abort [OF assms(1) True])
      then show ?thesis using True x assms(4) 3 by (simp add: Execute_def on_tbm_def statement_answers_def after_statement_def)
    qed (use x assms(1,4) 3 in \<open>simp add: Execute_def statement_answers_def after_statement_def\<close>)
  qed
qed

lemma not_control:
  assumes "\<not> control st"
  shows "statement_answers te st A out = answers te st A out" "after_statement st A = (if db_tx A then perform st A else commit_tx (perform st (start_tx A)))"
  using assms by (cases st; simp add: control_def statement_answers_def after_statement_def)+

lemma serve_text:
  assumes "represents limit A e" and "accepts limit (Sql q) A" and "\<And>less es. mset (te_sort te less es) = mset es"
  shows "\<exists>out e'. Execute te q e = Some (out, e') \<and> allowed te (Sql q) A out \<and> represents limit (after (Sql q) A) e'"
proof -
  consider st where "Parse q = Some (Ok st)" "control st \<or> covered limit st A" "0 < db_ids A" | x where "Parse q = Some (Err x)"
    using assms(2) by (auto simp: accepts_def split: option.splits res.splits)
  then show ?thesis
  proof cases
    case (1 st)
    have goal: "?thesis \<longleftrightarrow> (\<exists>out e'. Execute te q e = Some (out, e') \<and> statement_answers te st A out \<and> represents limit (after_statement st A) e')" using 1(1) by (simp add: allowed_def after_def)
    show ?thesis
    proof (cases "control st")
      case True
      then show ?thesis unfolding goal using serve_control [OF assms(1) 1(3) _ 1(1)] by blast
    next
      case False
      have ex: "Execute te q e = execute2 te st e" by (rule Execute_other [OF 1(1) False])
      have cov: "covered limit st A" using 1(2) False by blast
      show ?thesis
      proof (cases "db_tx A")
        case True
        obtain out e' where "ex_statement te st e = Some (out, e')" "answers te st A out" "represents limit (perform st A) e'" using follows_all [OF assms(1) True cov assms(3)] by (auto simp: follows_def)
        moreover have "ex_xid e \<noteq> 0" using assms(1) True by (auto simp: represents_def)
        ultimately show ?thesis unfolding goal unfolding ex not_control [OF False] using True by (simp add: execute2_def)
      next
        case out: False
        show ?thesis unfolding goal unfolding ex not_control [OF False] using serve_own_transaction [OF assms(1) out 1(3) cov False assms(3)] out by simp
      qed
    qed
  next
    case (2 x)
    then show ?thesis using assms(1) by (simp add: Execute_def allowed_def after_def)
  qed
qed

section \<open>Restarts\<close>

lemma apart_hold: "tables_apart m hs db \<Longrightarrow> tables_hold m hs db"
proof -
  assume "tables_apart m hs db"
  then obtain Fs where Fs: "list_all2 (occupies m hs) db Fs" by (auto simp: tables_apart_def)
  have "\<exists>F. occupies m hs tv F" if tv: "tv \<in> set db" for tv using Fs tv unfolding list_all2_conv_all_nth in_set_conv_nth by metis
  then show ?thesis by (fastforce simp: tables_hold_def occupies_def)
qed

text \<open>The tables after loading, with the versions they had.\<close>

abbreviation reloaded_db :: "(table \<times> version list) list \<Rightarrow> table list \<Rightarrow> (table \<times> version list) list" where
  "reloaded_db db ts \<equiv> map2 (\<lambda>tv t. (t, snd tv)) db ts"

lemma reloaded_same:
  assumes "list_all2 (reloaded hs') db ts"
  shows "map fst (reloaded_db db ts) = ts" "load_cost (reloaded_db db ts) = load_cost db" "map (\<lambda>tv. tb_Name (fst tv)) (reloaded_db db ts) = map (\<lambda>tv. tb_Name (fst tv)) db"
    "table_list u (map fst db) \<Longrightarrow> table_list u ts" "list_all2 (holds c k x) Rs db \<Longrightarrow> list_all2 (holds c k x) Rs (reloaded_db db ts)"
    "list_all2 (occupies m hs) db Fs \<Longrightarrow> list_all2 (occupies m hs') (reloaded_db db ts) Fs"
proof -
  have "map fst (reloaded_db db ts) = ts \<and> load_cost (reloaded_db db ts) = load_cost db \<and> map (\<lambda>tv. tb_Name (fst tv)) (reloaded_db db ts) = map (\<lambda>tv. tb_Name (fst tv)) db"
    using assms unfolding load_cost_sum
  proof (induction rule: list_all2_induct)
    case (Cons tv db t ts)
    have "length (tb_fields t) = length (tb_fields (fst tv))" using Cons.hyps(1) arg_cong [OF unloaded_shapes [of t "fst tv"], of length] by (simp add: reloaded_def)
    then show ?case using Cons.IH reloaded_name [OF Cons.hyps(1)] by simp
  qed simp
  then show "map fst (reloaded_db db ts) = ts" "load_cost (reloaded_db db ts) = load_cost db" "map (\<lambda>tv. tb_Name (fst tv)) (reloaded_db db ts) = map (\<lambda>tv. tb_Name (fst tv)) db" by simp_all
  show "table_list u (map fst db) \<Longrightarrow> table_list u ts" using assms by (induction arbitrary: u rule: list_all2_induct) (use reloaded_name in auto)
  show "list_all2 (holds c k x) Rs db \<Longrightarrow> list_all2 (holds c k x) Rs (reloaded_db db ts)" using assms
  proof (induction arbitrary: Rs rule: list_all2_induct)
    case (Cons tv db t ts)
    then show ?case using reloaded_name [OF Cons.hyps(1)] unloaded_shapes [of t "fst tv"] by (auto simp: list_all2_Cons2 holds_def reloaded_def)
  qed simp
  show "list_all2 (occupies m hs) db Fs \<Longrightarrow> list_all2 (occupies m hs') (reloaded_db db ts) Fs" using assms
  proof (induction arbitrary: Fs rule: list_all2_induct)
    case (Cons tv db t ts)
    then show ?case using reload_occupies [of m hs "fst tv" "snd tv" _ t hs'] by (auto simp: list_all2_Cons1 reloaded_def)
  qed simp
qed

lemma serve_restart:
  assumes "represents limit A e" and "accepts limit (Reopen rnd mem) A" and "\<And>S. finite S \<Longrightarrow> set (order S) = S"
  shows "\<exists>e'. serve te order xids (Reopen rnd mem) e = Some (Ok [], e') \<and> represents limit (abort_tx A) e'"
proof -
  let ?M = "ex_tbm e" and ?s = "session_sm e" and ?k = "xidCounter (session_tm e)" and ?c = "tm_IsCommitted (session_tm e)" and ?x = "ex_xid e"
  obtain db where db: "stored limit (db_room A) ?M db" "running ?x ?s" "unat ?k + db_ids A + 16 < 2 ^ 63" "list_all2 (holds ?c ?k ?x) (db_tables A) db" using assms(1) by (auto simp: represents_def)
  obtain m hs u where st: "store {#P1#} limit (db_room A) (sm_DM ?s) m hs" "tables_apart m hs db" "bo_file (tbm_booter ?M) = Some (UUIDToRaw u)" "table_list u (map fst db)"
    "Suc (load_cost db) < limit" "bo_faults (tbm_booter ?M) = []" "distinct (map (\<lambda>tv. tb_Name (fst tv)) db)" using db(1) by (auto simp: stored_def)
  have tm: "tm_inv (sm_TM ?s)" using db(2) by (simp add: running_def tx_inv_def)
  have mem: "10 \<le> mem div int PAGE_SIZE" "mem div int PAGE_SIZE < 2 ^ 32" "int limit + 2 < mem div int PAGE_SIZE" "length rnd = P1_LEN_VC" using assms(2) by (simp_all add: accepts_def)
  have lc: "load_cost db \<le> limit" using st(5) by simp
  let ?order = "order (dom (cache (pc_c (dm_pc (sm_DM ?s)))))"
  have "finite (dom (cache (pc_c (dm_pc (sm_DM ?s)))))" unfolding store_cached [OF st(1)] by (rule finite_set_mset)
  then have dom: "dom (cache (pc_c (dm_pc (sm_DM ?s)))) \<subseteq> set ?order" using assms(3) by simp
  obtain files M' ts hs' where r: "closeDB ?order ?M = Done files" "openDB rnd xids mem files = Some (Done M')" "sm_TM (tbm_SM M') = sm_TM ?s" "sm_tc (tbm_SM M') = [SUPER_XID \<mapsto> super_tx]" "tbm_tc M' = by_name ts"
    "store {#P1#} limit (db_room A) (sm_DM (tbm_SM M')) m hs'" "idle (sm_ec (tbm_SM M'))" "size hs' \<le> load_cost db" "list_all2 (reloaded hs') db ts" "bo_file (tbm_booter M') = Some (UUIDToRaw u)"
    "bo_faults (tbm_booter M') = []" "sm_lt (tbm_SM M') = NewLockTable"
    by (rule restart_store [OF st(1) tm st(3,6,4) apart_hold [OF st(2)] st(7) lc dom mem])
  note same = reloaded_same [OF r(9)]
  have "tables_apart m hs' (reloaded_db db ts)" using st(2) same(6) by (auto simp: tables_apart_def)
  then have "stored limit (db_room A) M' (reloaded_db db ts)" unfolding stored_def same(1-3) using r(5-8,10,11) st(5,7) same(4) [OF st(4)] by auto
  moreover have "tx_inv (tbm_SM M')" using tx_inv_New [OF tm] r(3,4) by (simp add: tx_inv_def NewSerializabilityManager_def)
  then have "running 0 (tbm_SM M')" using r(4,12) owned_New by (simp add: running_def)
  moreover have "list_all2 (holds ?c ?k 0) (map (\<lambda>R. R\<lparr>rel_rows := image_mset (\<lambda>(e, b, n). (e, b, b)) (rel_rows R)\<rparr>) (db_tables A)) (reloaded_db db ts)"
    by (rule same(5), rule holds_map [OF db(4)]) (use view_abort [where c = ?c and c' = ?c] running_open(2) [OF db(2)] in \<open>fastforce simp: view_def\<close>)
  ultimately have "represents limit (abort_tx A) (NewExecutor M')"
    unfolding represents_def using r(3) db(3) by (intro exI [of _ "reloaded_db db ts"]) (simp add: abort_tx_def map_rows_def NewExecutor_def)
  then show ?thesis using r(1,2) by (simp add: serve_def)
qed

section \<open>Histories\<close>

text \<open>What the library promises of sorting, and that ranging over a map visits all of it.\<close>

definition lawful :: "tenv \<Rightarrow> (UUID set \<Rightarrow> UUID list) \<Rightarrow> bool" where
  "lawful te order \<longleftrightarrow> (\<forall>less es. mset (te_sort te less es) = mset es) \<and> (\<forall>S. finite S \<longrightarrow> set (order S) = S)"

interpretation session: simulation "serve te order xids" "accepts limit" after "allowed te" "\<lambda>A e. lawful te order \<and> represents limit A e" for te order xids limit
proof
  fix A e req assume r: "lawful te order \<and> represents limit A e" and a: "accepts limit req A"
  show "\<exists>out e'. serve te order xids req e = Some (out, e') \<and> allowed te req A out \<and> lawful te order \<and> represents limit (after req A) e'"
  proof (cases req)
    case (Sql q)
    then show ?thesis using serve_text [of limit A e q te] r a by (auto simp: serve_def lawful_def)
  next
    case (Reopen rnd mem)
    then show ?thesis using serve_restart [of limit A e rnd mem order te xids] r a by (auto simp: lawful_def after_def allowed_def)
  qed
qed

definition new_database :: "nat \<Rightarrow> nat \<Rightarrow> database" where
  "new_database room ids = \<lparr>db_tables = [], db_tx = False, db_room = room, db_ids = ids\<rparr>"

section \<open>An example\<close>

text \<open>A table of people: created, filled, a transaction that deletes a row and is cut off by a restart, and the same deletion again. Statements are written as the text that the parser reads.\<close>

definition sql :: "statement \<Rightarrow> request" where
  "sql st = Sql (render (toks st))"

definition ex_make :: statement where
  "ex_make = StCreate (people_create [''id''])"

definition ex_begin :: statement where
  "ex_begin = StBegin False"

definition ex_insert :: statement where
  "ex_insert = StInsert \<lparr>in_TableName = ''people'', in_Values = [], in_ValuesList = people_rows\<rparr>"

definition ex_where :: Where where
  "ex_where = \<lparr>wh_SingleExp1 = \<lparr>se_Field = ''id'', se_CmpOp = ''='', se_Value = ''7''\<rparr>, wh_LogicOp = [], wh_SingleExp2 = None\<rparr>"

definition ex_delete :: statement where
  "ex_delete = StDelete \<lparr>dl_TableName = ''people'', dl_Where = Some ex_where\<rparr>"

definition ex_read :: statement where
  "ex_read = StRead \<lparr>rd_TableName = ''people'', rd_Fields = [''*''], rd_Aggregates = [], rd_Where = None, rd_OrderBy = [], rd_OrderDesc = False, rd_Limit = 0, rd_Offset = 0\<rparr>"

abbreviation people_state :: "(row \<times> bool \<times> bool) multiset \<Rightarrow> bool \<Rightarrow> nat \<Rightarrow> nat \<Rightarrow> database" where
  "people_state rows tx room ids \<equiv> \<lparr>db_tables = [\<lparr>rel_name = ''people'', rel_shapes = shapes (people_create [''id'']), rel_rows = rows\<rparr>], db_tx = tx, db_room = room, db_ids = ids\<rparr>"

lemma ex_parse:
  "Parse (render (toks ex_make)) = Some (Ok ex_make)" "Parse (render (toks ex_insert)) = Some (Ok ex_insert)"
  "Parse (render (toks ex_begin)) = Some (Ok ex_begin)" "Parse (render (toks ex_delete)) = Some (Ok ex_delete)" "Parse (render (toks ex_read)) = Some (Ok ex_read)"
  by (rule Parse_render; simp add: ex_make_def ex_begin_def people_create_def wf_create_def isName_def isType_def tok_create_def tok_index_def printable_def ex_insert_def people_rows_def plain_value_def comma_sep.simps
      tok_begin_def ex_delete_def ex_where_def wf_where_def wf_exp_def isCmpOp_def tok_where_def tok_exp.simps ex_read_def wf_read_def tok_read_def items_of_def tok_order_def tok_limit_def)+


lemma people_facts:
  assumes "rel_shapes R = shapes (people_create [''id''])"
  shows "chosen R (Some ex_where) (person n str) = (n = 7)" "chosen R None (person n str)" "findable (rel_table R) (Some ex_where)" "findable (rel_table R) None"
    "entry_of R [''7'', ''ann''] = person 7 ''ann''" "entry_of R [''3'', ''bob''] = person 3 ''bob''" "storable (rel_table R) [''7'', ''ann''] (person 7 ''ann'')" "storable (rel_table R) [''3'', ''bob''] (person 3 ''bob'')"
    "rel_rows R = {#} \<Longrightarrow> fresh_keys R [person 7 ''ann'', person 3 ''bob'']" "row_cost (rel_table R) = 5"
    "entryPrint (rel_table R) (person n str) = Ok (''['' @ Uint32ToStr n @ '', '' @ str @ '']'')"
proof -
  have sh: "map shape (tb_fields (rel_table R)) = shapes (people_create [''id''])" using assms by simp
  obtain f g where fg: "tb_fields (rel_table R) = [f, g]" "f_FName f = ''id''" "f_FType f = ''uint32''" "IsIndexed f = (''id'' \<in> set [''id''])"
    "f_FName g = ''name''" "f_FType g = ''string''" "IsIndexed g = (''name'' \<in> set [''id''])" using people_fields [OF sh] by blast
  have id: "field_named (rel_table R) ''id'' = Some f" using fg by (simp add: field_named_def)
  have seven: "StrToValue f ''7'' = Ok (VUint32 7)" using fg by (simp add: StrToValue_def StrToUint32_def ParseUint_def)
  show "chosen R (Some ex_where) (person n str) = (n = 7)"
    using fg by (auto simp: chosen_def evaluateWhere_def ex_where_def matchSingleExp_def id seven person_def valueCompare_def value_defs three_way_def)
  show "chosen R None (person n str)" by (simp add: chosen_def evaluateWhere_def)
  show "findable (rel_table R) None" by (simp add: findable_def plan_def)
  have "CalExp f \<lparr>se_Field = ''id'', se_CmpOp = ''='', se_Value = ''7''\<rparr> = Ok (7, 7)" using fg by (simp add: CalExp_def seven ValueToUUID_def value_defs)
  then show "findable (rel_table R) (Some ex_where)" unfolding findable_def plan_def using fg by (auto simp: ex_where_def id seven UUID_INF_def)
  have st: "list_all2 (storable (rel_table R)) people_rows [person 7 ''ann'', person 3 ''bob'']" "fresh_rows (rel_table R) [person 7 ''ann'', person 3 ''bob''] []" by (rule people_storable [OF sh]; simp)+
  then show s: "storable (rel_table R) [''7'', ''ann''] (person 7 ''ann'')" "storable (rel_table R) [''3'', ''bob''] (person 3 ''bob'')" by (simp_all add: people_rows_def)
  show "entry_of R [''7'', ''ann''] = person 7 ''ann''" "entry_of R [''3'', ''bob''] = person 3 ''bob''" using s by (simp_all add: entry_of_def storable_def)
  show "fresh_keys R [person 7 ''ann'', person 3 ''bob'']" if "rel_rows R = {#}" using st(2) that by (simp add: fresh_keys_def fresh_rows_def)
  show "row_cost (rel_table R) = 5" using fg by (simp add: row_cost_def)
  show "entryPrint (rel_table R) (person n str) = Ok (''['' @ Uint32ToStr n @ '', '' @ str @ '']'')"
    using fg by (simp add: entryPrint_def ValuePrint_def person_def row_get_def value_defs)
qed


lemmas people_table_facts = people_facts [of "\<lparr>rel_name = [], rel_shapes = shapes (people_create [''id'']), rel_rows = {#}\<rparr>", simplified]

lemmas request_defs = sql_def after_def accepts_def allowed_def after_statement_def statement_answers_def perform_def effect_def cost_def covered_def answers_def on_existing_def for_existing_def
  rel_of_def on_rel_def add_rows_def hide_rows_def commit_tx_def abort_tx_def start_tx_def map_rows_def load_def current_def

lemma ex_after:
  "after (sql ex_make) (new_database 1000 9) = people_state {#} False 991 8"
  "after (sql ex_insert) (people_state {#} False 991 8) = people_state {#(person 7 ''ann'', True, True), (person 3 ''bob'', True, True)#} False 981 7"
  "after (sql ex_begin) (people_state rows False 981 7) = people_state rows True 981 6"
  "after (sql ex_delete) (people_state {#(person 7 ''ann'', True, True), (person 3 ''bob'', True, True)#} True 981 6) = people_state {#(person 7 ''ann'', True, False), (person 3 ''bob'', True, True)#} True 981 6"
  "after (Reopen rnd mem) (people_state {#(person 7 ''ann'', True, False), (person 3 ''bob'', True, True)#} True 981 6) = people_state {#(person 7 ''ann'', True, True), (person 3 ''bob'', True, True)#} False 981 6"
  "after (sql ex_read) (people_state {#(person 7 ''ann'', True, True), (person 3 ''bob'', True, True)#} False 981 6) = people_state {#(person 7 ''ann'', True, True), (person 3 ''bob'', True, True)#} False 981 5"
  "after (sql ex_delete) (people_state {#(person 7 ''ann'', True, True), (person 3 ''bob'', True, True)#} False 981 5) = people_state {#(person 7 ''ann'', False, False), (person 3 ''bob'', True, True)#} False 981 4"
proof -
  have len: "length (cr_FieldName (people_create [''id''])) = 2" "cr_TableName (people_create [''id'']) = ''people''" by (simp_all add: people_create_def)
  show "after (sql ex_make) (new_database 1000 9) = people_state {#} False 991 8"
    unfolding sql_def after_def using len by (simp add: ex_parse) (simp add: request_defs ex_make_def new_database_def new_relation_def field_cost_def)
  show "after (sql ex_insert) (people_state {#} False 991 8) = people_state {#(person 7 ''ann'', True, True), (person 3 ''bob'', True, True)#} False 981 7"
    unfolding sql_def after_def by (simp add: ex_parse) (simp add: request_defs ex_insert_def insert_values_def people_rows_def people_facts people_table_facts)
  show "after (sql ex_begin) (people_state rows False 981 7) = people_state rows True 981 6" unfolding sql_def after_def by (simp add: ex_parse) (simp add: request_defs ex_begin_def)
  show "after (sql ex_delete) (people_state {#(person 7 ''ann'', True, True), (person 3 ''bob'', True, True)#} True 981 6) = people_state {#(person 7 ''ann'', True, False), (person 3 ''bob'', True, True)#} True 981 6"
    unfolding sql_def after_def by (simp add: ex_parse) (simp add: request_defs ex_delete_def people_facts)
  show "after (Reopen rnd mem) (people_state {#(person 7 ''ann'', True, False), (person 3 ''bob'', True, True)#} True 981 6) = people_state {#(person 7 ''ann'', True, True), (person 3 ''bob'', True, True)#} False 981 6"
    by (simp add: request_defs)
  show "after (sql ex_read) (people_state {#(person 7 ''ann'', True, True), (person 3 ''bob'', True, True)#} False 981 6) = people_state {#(person 7 ''ann'', True, True), (person 3 ''bob'', True, True)#} False 981 5"
    unfolding sql_def after_def by (simp add: ex_parse) (simp add: request_defs ex_read_def)
  show "after (sql ex_delete) (people_state {#(person 7 ''ann'', True, True), (person 3 ''bob'', True, True)#} False 981 5) = people_state {#(person 7 ''ann'', False, False), (person 3 ''bob'', True, True)#} False 981 4"
    unfolding sql_def after_def by (simp add: ex_parse) (simp add: request_defs ex_delete_def people_facts)
qed

lemma ex_accepts:
  "accepts 8 (sql ex_make) (new_database 1000 9)"
  "accepts 8 (sql ex_insert) (people_state {#} False 991 8)"
  "accepts 8 (sql ex_begin) (people_state rows False 981 7)"
  "accepts 8 (sql ex_delete) (people_state rows tx 981 6)" "accepts 8 (sql ex_delete) (people_state rows tx 981 5)"
  "accepts 8 (Reopen (replicate 8 3) 163840) A"
  "accepts 8 (sql ex_read) (people_state rows tx 981 6)" "accepts 8 (sql ex_read) (people_state rows tx 981 4)"
proof -
  show "accepts 8 (sql ex_make) (new_database 1000 9)"
    unfolding sql_def accepts_def by (simp add: ex_parse) (simp add: request_defs ex_make_def new_database_def people_proper, simp add: people_create_def field_cost_def)
  show "accepts 8 (sql ex_insert) (people_state {#} False 991 8)"
    unfolding sql_def accepts_def by (simp add: ex_parse) (simp add: request_defs ex_insert_def insert_values_def people_rows_def people_facts people_table_facts)
  show "accepts 8 (sql ex_begin) (people_state rows False 981 7)" unfolding sql_def accepts_def by (simp add: ex_parse) (auto simp: control_def ex_begin_def)
  show "accepts 8 (sql ex_delete) (people_state rows tx 981 6)" "accepts 8 (sql ex_delete) (people_state rows tx 981 5)"
    unfolding sql_def accepts_def by (simp add: ex_parse, simp add: request_defs ex_delete_def people_facts people_table_facts)+
  show "accepts 8 (Reopen (replicate 8 3) 163840) A" by (simp add: accepts_def PAGE_SIZE_def P1_LEN_VC_def)
  show "accepts 8 (sql ex_read) (people_state rows tx 981 6)" "accepts 8 (sql ex_read) (people_state rows tx 981 4)"
    unfolding sql_def accepts_def by (simp add: ex_parse, simp add: request_defs ex_read_def people_facts people_table_facts)+
qed


definition ex_history :: "request list" where
  "ex_history = [sql ex_make, sql ex_insert, sql ex_begin, sql ex_delete, Reopen (replicate 8 3) 163840, sql ex_read, sql ex_delete, sql ex_read]"

lemma ex_accepted: "accepts_all (accepts 8) after ex_history (new_database 1000 9)"
  by (simp add: ex_history_def ex_after ex_accepts)

lemma people_count: "Uint32ToStr 3 = ''3''" "Uint32ToStr 7 = ''7''" "Uint32ToStr (of_nat (Suc 0)) = ''1''"
  by (simp_all add: Uint32ToStr_def FormatUint.simps char_of_def bit_0)

lemma ex_answer:
  assumes "allowed te (sql ex_read) (people_state rows tx room ids) out"
  shows "\<exists>es r. mset es = current \<lparr>rel_name = ''people'', rel_shapes = shapes (people_create [''id'']), rel_rows = rows\<rparr> None \<and> printRows (model_table (shapes (people_create [''id'']))) es = Ok r \<and> out = Ok (str_bytes r)"
  using assms unfolding allowed_def sql_def by (simp add: ex_parse) (simp add: statement_answers_def answers_def on_existing_def rel_of_def ex_read_def answer_def)

lemma two_rows: "mset es = {#a, b#} \<Longrightarrow> es = [a, b] \<or> es = [b, a]"
proof -
  assume m: "mset es = {#a, b#}"
  then have "length es = 2" by (metis mset.simps(1,2) size_mset size_add_mset size_empty Suc_1 One_nat_def)
  then obtain c d where "es = [c, d]" by (metis (no_types, lifting) One_nat_def Suc_1 length_0_conv length_Suc_conv)
  then show ?thesis using m by (auto simp: add_eq_conv_diff)
qed

lemma ex_allowed:
  assumes "allows_all (allowed te) after ex_history (new_database 1000 9) outs"
  shows "\<exists>r. outs = [Ok (str_bytes ''create people''), Ok (str_bytes ''Insert''), Ok (str_bytes ''begin''), Ok (str_bytes ''Delete 1''), Ok [], Ok (str_bytes r), Ok (str_bytes ''Delete 1''),
      Ok (str_bytes (''[3, bob]'' @ [CHR 0x0A]))] \<and> r \<in> {''[7, ann]'' @ [CHR 0x0A] @ ''[3, bob]'' @ [CHR 0x0A], ''[3, bob]'' @ [CHR 0x0A] @ ''[7, ann]'' @ [CHR 0x0A]}"
proof -
  let ?A = "people_state {#(person 7 ''ann'', True, True), (person 3 ''bob'', True, True)#}"
  obtain o1 o2 o3 o4 o5 o6 o7 o8 where outs: "outs = [o1, o2, o3, o4, o5, o6, o7, o8]" and o: "allowed te (sql ex_make) (new_database 1000 9) o1" "allowed te (sql ex_insert) (people_state {#} False 991 8) o2"
    "allowed te (sql ex_begin) (?A False 981 7) o3" "allowed te (sql ex_delete) (?A True 981 6) o4" "allowed te (Reopen (replicate 8 3) 163840) (people_state {#(person 7 ''ann'', True, False), (person 3 ''bob'', True, True)#} True 981 6) o5"
    "allowed te (sql ex_read) (?A False 981 6) o6" "allowed te (sql ex_delete) (?A False 981 5) o7" "allowed te (sql ex_read) (people_state {#(person 7 ''ann'', False, False), (person 3 ''bob'', True, True)#} False 981 4) o8"
    using assms by (auto simp: ex_history_def ex_after split: list.splits)
  have del: "current \<lparr>rel_name = ''people'', rel_shapes = shapes (people_create [''id'']), rel_rows = {#(person 7 ''ann'', True, True), (person 3 ''bob'', True, True)#}\<rparr> (Some ex_where) = {#person 7 ''ann''#}"
    by (simp add: current_def people_facts)
  have "o1 = Ok (str_bytes ''create people'')" using o(1) unfolding allowed_def sql_def by (simp add: ex_parse) (simp add: ex_make_def statement_answers_def answers_def rel_of_def new_database_def people_create_def)
  moreover have "o2 = Ok (str_bytes ''Insert'')" using o(2) unfolding allowed_def sql_def by (simp add: ex_parse) (simp add: ex_insert_def statement_answers_def answers_def on_existing_def rel_of_def)
  moreover have "o3 = Ok (str_bytes ''begin'')" using o(3) unfolding allowed_def sql_def by (simp add: ex_parse) (simp add: ex_begin_def statement_answers_def)
  moreover have "o4 = Ok (str_bytes ''Delete 1'')" using o(4) unfolding allowed_def sql_def
    by (simp add: ex_parse) (simp add: ex_delete_def statement_answers_def answers_def on_existing_def rel_of_def del count_answer_def people_count [simplified])
  moreover have "o5 = Ok []" using o(5) by (simp add: allowed_def)
  moreover have "o7 = Ok (str_bytes ''Delete 1'')" using o(7) unfolding allowed_def sql_def
    by (simp add: ex_parse) (simp add: ex_delete_def statement_answers_def answers_def on_existing_def rel_of_def del count_answer_def people_count [simplified])
  moreover have "o8 = Ok (str_bytes (''[3, bob]'' @ [CHR 0x0A]))" using ex_answer [OF o(8)] by (auto simp: current_def people_facts people_table_facts people_count)
  moreover obtain es r where r: "mset es = {#person 7 ''ann'', person 3 ''bob''#}" "printRows (model_table (shapes (people_create [''id'']))) es = Ok r" "o6 = Ok (str_bytes r)"
    using ex_answer [OF o(6)] by (auto simp: current_def people_facts)
  moreover have "r \<in> {''[7, ann]'' @ [CHR 0x0A] @ ''[3, bob]'' @ [CHR 0x0A], ''[3, bob]'' @ [CHR 0x0A] @ ''[7, ann]'' @ [CHR 0x0A]}"
    using two_rows [OF r(1)] r(2) by (auto simp: people_table_facts people_count)
  ultimately show ?thesis using outs by blast
qed

section \<open>Properties\<close>



end
