(* ===== verification/Shutdown.thy ===== *)
theory Shutdown
  imports Launcher
begin

text \<open>
  The end of the server process (\<open>Start\<close> and \<open>Close\<close> of \<^verbatim>\<open>server/server.go\<close>, the second half of \<open>openDB\<close> in \<^verbatim>\<open>cmd/launcher.go\<close>): the main goroutine that accepts connections and afterwards closes the managers, the
  goroutine that waits for a signal and closes the server, and the sessions counted by the wait group. Each definition is one step of one of them, up to the next point where another may run.
\<close>

section \<open>Model\<close>

datatype main_phase = Starting | Accepting | Returned | DMClosed | ProcessEnded | ProcessCrashed

datatype handler_phase = AwaitSignal | Signalled | Draining | Finished

text \<open>The listener is nil until \<open>net.Listen\<close> returns, then open or closed.\<close>

datatype listener = NilListener | Listening | ClosedListener

record host =
  ho_main :: main_phase
  ho_listener :: listener
  ho_handler :: handler_phase
  ho_wg :: nat

definition NewServer :: host where
  "NewServer = \<lparr>ho_main = Starting, ho_listener = NilListener, ho_handler = AwaitSignal, ho_wg = 0\<rparr>"

definition Start_listen :: "bool \<Rightarrow> host \<Rightarrow> host option" where
  "Start_listen ok h =
     (if ho_main h \<noteq> Starting then None
      else if ok then Some (h\<lparr>ho_main := Accepting, ho_listener := Listening\<rparr>) else Some (h\<lparr>ho_main := ProcessCrashed\<rparr>))"

text \<open>One round of the loop: a connection, or an error, which a closed listener always gives.\<close>

definition Start_accept :: "bool \<Rightarrow> host \<Rightarrow> host option" where
  "Start_accept conn h =
     (if ho_main h \<noteq> Accepting then None
      else if conn \<and> ho_listener h = Listening then Some (h\<lparr>ho_wg := ho_wg h + 1\<rparr>) else Some (h\<lparr>ho_main := Returned\<rparr>))"

definition serve_returns :: "host \<Rightarrow> host option" where
  "serve_returns h = (if ho_wg h = 0 then None else Some (h\<lparr>ho_wg := ho_wg h - 1\<rparr>))"

definition openDB_signal :: "host \<Rightarrow> host option" where
  "openDB_signal h = (if ho_handler h = AwaitSignal then Some (h\<lparr>ho_handler := Signalled\<rparr>) else None)"

definition Close_listener :: "host \<Rightarrow> host option" where
  "Close_listener h =
     (if ho_handler h \<noteq> Signalled then None
      else Some (h\<lparr>ho_handler := Draining, ho_listener := (if ho_listener h = NilListener then NilListener else ClosedListener)\<rparr>))"

definition Close_wait :: "host \<Rightarrow> host option" where
  "Close_wait h = (if ho_handler h = Draining \<and> ho_wg h = 0 then Some (h\<lparr>ho_handler := Finished\<rparr>) else None)"

definition openDB_close :: "host \<Rightarrow> host option" where
  "openDB_close h =
     (case ho_main h of Returned \<Rightarrow> Some (h\<lparr>ho_main := DMClosed\<rparr>) | DMClosed \<Rightarrow> Some (h\<lparr>ho_main := ProcessEnded\<rparr>) | _ \<Rightarrow> None)"

definition process_alive :: "host \<Rightarrow> bool" where
  "process_alive h \<longleftrightarrow> ho_main h \<noteq> ProcessEnded \<and> ho_main h \<noteq> ProcessCrashed"

text \<open>The successors of a state, and the runs.\<close>

definition host_next :: "host \<Rightarrow> host list" where
  "host_next h = (if process_alive h then
     List.map_filter (\<lambda>f. f h) [Start_listen True, Start_listen False, Start_accept True, Start_accept False, serve_returns, openDB_signal, Close_listener, Close_wait, openDB_close] else [])"

inductive host_run :: "host \<Rightarrow> host \<Rightarrow> bool" where
  here: "host_run h h"
| more: "host_run h h' \<Longrightarrow> h'' \<in> set (host_next h') \<Longrightarrow> host_run h h''"

lemmas host_defs = host_next_def process_alive_def List.map_filter_def Start_listen_def Start_accept_def serve_returns_def openDB_signal_def Close_listener_def Close_wait_def openDB_close_def

section \<open>Runs\<close>

lemma host_run_trans: "host_run h' h'' \<Longrightarrow> host_run h h' \<Longrightarrow> host_run h h''"
  by (induction rule: host_run.induct) (auto intro: host_run.more)

lemma host_run_step: "h' \<in> set (host_next h) \<Longrightarrow> host_run h' h'' \<Longrightarrow> host_run h h''"
  using host_run_trans host_run.more [OF host_run.here] by blast

text \<open>Connections are accepted one after the other.\<close>

lemma accepts: "ho_main h = Accepting \<Longrightarrow> ho_listener h = Listening \<Longrightarrow> host_run h (h\<lparr>ho_wg := ho_wg h + k\<rparr>)"
proof (induction k)
  case (Suc k)
  then have "h\<lparr>ho_wg := ho_wg h + Suc k\<rparr> \<in> set (host_next (h\<lparr>ho_wg := ho_wg h + k\<rparr>))" by (simp add: host_defs)
  with Suc show ?case using host_run.more by blast
qed (simp add: host_run.here)

text \<open>Once the main goroutine has left the accept loop, no session begins any more and the managers are closed only after that.\<close>

lemma no_late_sessions:
  assumes "host_run h h'" and "ho_main h \<notin> {Starting, Accepting}"
  shows "ho_main h' \<notin> {Starting, Accepting} \<and> ho_wg h' \<le> ho_wg h"
  using assms by (induction rule: host_run.induct) (auto simp: host_defs split: if_splits main_phase.splits)

text \<open>A signal that arrives before \<open>net.Listen\<close> has returned finds no listener: the handler waits for no session, finishes, and nothing closes the listener any more, whatever signals follow.\<close>

lemma early_signal_lost:
  "\<exists>h. host_run NewServer h \<and> ho_main h = Accepting \<and> (\<forall>h'. host_run h h' \<longrightarrow> ho_listener h' = Listening \<and> ho_handler h' = Finished)"
proof -
  let ?h = "\<lparr>ho_main = Accepting, ho_listener = Listening, ho_handler = Finished, ho_wg = 0\<rparr>"
  have "ho_listener h' = Listening \<and> ho_handler h' = Finished \<and> ho_main h' \<noteq> Starting" if "host_run ?h h'" for h'
    using that by (induction ?h h' rule: host_run.induct) (auto simp: host_defs split: if_splits main_phase.splits)
  moreover have "host_run NewServer ?h"
    by (rule host_run_step [of "NewServer\<lparr>ho_handler := Signalled\<rparr>"], simp add: host_defs NewServer_def,
        rule host_run_step [of "NewServer\<lparr>ho_handler := Draining\<rparr>"], simp add: host_defs NewServer_def,
        rule host_run_step [of "NewServer\<lparr>ho_handler := Finished\<rparr>"], simp add: host_defs NewServer_def,
        rule host_run_step [of ?h], simp add: host_defs NewServer_def, rule host_run.here)
  ultimately show ?thesis by (intro exI [of _ ?h]) auto
qed

section \<open>Properties\<close>

text \<open>C39. Shutting down does not wait for the sessions. \<open>Close\<close> waits for them, but in the goroutine of the signal handler; closing the listener makes \<open>Start\<close> return in the main goroutine, which closes
  the managers and ends the process. So whatever the number of running sessions, there is a run in which the data manager has marked the database as cleanly closed and the process has ended while all of
  them are still running. What holds is that no session begins after the accept loop has ended.\<close>

theorem shutdown_abandons_sessions:
  "(\<exists>h1 h2. host_run NewServer h1 \<and> ho_main h1 = DMClosed \<and> ho_wg h1 = k \<and> ho_handler h1 = Draining \<and> host_run h1 h2 \<and> ho_main h2 = ProcessEnded \<and> ho_wg h2 = k) \<and>
   (\<forall>h h'. host_run h h' \<and> ho_main h = Returned \<longrightarrow> ho_wg h' \<le> ho_wg h)"
proof
  let ?h = "\<lambda>ma li ha k. \<lparr>ho_main = ma, ho_listener = li, ho_handler = ha, ho_wg = k\<rparr>"
  have "?h Accepting Listening AwaitSignal 0 \<in> set (host_next NewServer)" by (simp add: host_defs NewServer_def)
  from host_run_step [OF this accepts] have "host_run NewServer (?h Accepting Listening AwaitSignal k)" by simp
  moreover have "?h Accepting Listening Signalled k \<in> set (host_next (?h Accepting Listening AwaitSignal k))" by (simp add: host_defs)
  moreover have "?h Accepting ClosedListener Draining k \<in> set (host_next (?h Accepting Listening Signalled k))" by (simp add: host_defs)
  moreover have "?h Returned ClosedListener Draining k \<in> set (host_next (?h Accepting ClosedListener Draining k))" by (simp add: host_defs)
  moreover have "?h DMClosed ClosedListener Draining k \<in> set (host_next (?h Returned ClosedListener Draining k))" by (simp add: host_defs)
  ultimately have 1: "host_run NewServer (?h DMClosed ClosedListener Draining k)" by (blast intro: host_run.more)
  have "?h ProcessEnded ClosedListener Draining k \<in> set (host_next (?h DMClosed ClosedListener Draining k))" by (simp add: host_defs)
  then have 2: "host_run (?h DMClosed ClosedListener Draining k) (?h ProcessEnded ClosedListener Draining k)" by (blast intro: host_run.intros)
  show "\<exists>h1 h2. host_run NewServer h1 \<and> ho_main h1 = DMClosed \<and> ho_wg h1 = k \<and> ho_handler h1 = Draining \<and> host_run h1 h2 \<and> ho_main h2 = ProcessEnded \<and> ho_wg h2 = k"
    by (rule exI, rule exI, intro conjI, rule 1, simp, simp, simp, rule 2) simp_all
  show "\<forall>h h'. host_run h h' \<and> ho_main h = Returned \<longrightarrow> ho_wg h' \<le> ho_wg h" using no_late_sessions by fastforce
qed

theorem shutdown_abandons_sessions_witness:
  "(\<exists>h1. host_run NewServer h1 \<and> ho_main h1 = DMClosed \<and> ho_wg h1 = 3) \<and>
   (\<exists>h. host_run \<lparr>ho_main = Returned, ho_listener = ClosedListener, ho_handler = Draining, ho_wg = 3\<rparr> h \<and> ho_wg h \<le> 3)"
  using shutdown_abandons_sessions [of 3] host_run.here by fastforce

end
