(* ===== verification/Spec2Isabelle.thy ===== *)
theory Spec2Isabelle
  imports Shell Database Shutdown
begin

text \<open>
  WisDB is a small relational database written in Go. This library models it from the files up to the network and proves what its parts promise each other. Paths are relative to
  \<^verbatim>\<open>src/src/main\<close>; a definition has the name of the function it models, with a prefix where two packages use the same name (\<open>tm_\<close>, \<open>lg_\<close>, \<open>pi_\<close>, \<open>pc_\<close>, \<open>dm_\<close>, \<open>lt_\<close>, \<open>sm_\<close>,
  \<open>bt_\<close>, \<open>f_\<close>, \<open>t_\<close>, \<open>tbm_\<close>, \<open>bo_\<close>, \<open>wp_\<close>, \<open>wt_\<close>, \<open>pkg_\<close>, \<open>ex_\<close>).

  \<^bold>\<open>The program.\<close> A client sends statements in frames (\<^verbatim>\<open>transporter\<close>). The server runs one session per connection (\<^verbatim>\<open>backend/server\<close>), which parses a statement
  (\<^verbatim>\<open>backend/parser\<close>) and gives it to the table manager (\<^verbatim>\<open>backend/tbm\<close>), inside the transaction of the session or inside one of its own. Tables keep rows as entries of the serializability
  manager (\<^verbatim>\<open>backend/sm\<close>), which decides by snapshots and locks which transaction sees and changes which entry, and find them through B+ trees (\<^verbatim>\<open>backend/im\<close>). Both store bytes as
  data items of the data manager (\<^verbatim>\<open>backend/dm\<close>), which keeps them in pages behind a reference-counting cache, writes a log record before every change, and replays the log after a crash,
  asking the transaction manager (\<^verbatim>\<open>backend/tm\<close>) which transactions were finished.

  \<^bold>\<open>Theories.\<close>
  \<^item> \<open>Prelude\<close>: machine types, the outcome of a call (\<open>Ok\<close>, \<open>Err\<close>, \<open>Panic\<close>) and its sequencing, slices with the bounds checks of Go, big-endian numbers. \<open>Utils\<close>: \<^verbatim>\<open>backend/utils\<close> encodings and identifiers.
    \<open>GoFile\<close>: the calls of \<open>os.File\<close>, each of which may fail.
  \<^item> \<open>Tm\<close> (\<^verbatim>\<open>tm/transaction_manager.go\<close>), \<open>Logger\<close> (\<^verbatim>\<open>dm/logger\<close>), \<open>Pindex\<close> (\<^verbatim>\<open>dm/pindex\<close>), \<open>Page\<close> (\<^verbatim>\<open>dm/pageX.go\<close>, \<^verbatim>\<open>page1.go\<close>, \<^verbatim>\<open>data_item.go\<close>), \<open>Cacher\<close> (\<^verbatim>\<open>utils/cacher\<close>), \<open>Pcacher\<close> (\<^verbatim>\<open>dm/pcacher\<close>), \<open>Recovery\<close>
    (\<^verbatim>\<open>dm/recovery.go\<close>), \<open>Dm\<close> (\<^verbatim>\<open>dm/data_manager.go\<close>): the storage layer.
  \<^item> \<open>LockTable\<close> (\<^verbatim>\<open>sm/locktable\<close>) and \<open>Sm\<close> (\<^verbatim>\<open>sm\<close>): locks, deadlock detection, snapshots, visibility, and the serializability manager.
  \<^item> \<open>Node\<close> and \<open>BTree\<close> (\<^verbatim>\<open>im/node.go\<close>, \<^verbatim>\<open>im/tree.go\<close>): the nodes of the index as bytes, and the tree over the data manager.
  \<^item> \<open>Tokener\<close> and \<open>Parser\<close> (\<^verbatim>\<open>parser\<close>): the language.
  \<^item> \<open>Field\<close>, \<open>Table\<close>, \<open>Rows\<close>, \<open>Booter\<close>, \<open>Tbm\<close> (\<^verbatim>\<open>tbm/field.go\<close>, \<^verbatim>\<open>table.go\<close>, \<^verbatim>\<open>utils/booter\<close>, \<^verbatim>\<open>table_manager.go\<close>): values, rows, statements on a table, the boot file, and the tables of the database.
  \<^item> \<open>Transporter\<close>, \<open>Executor\<close>, \<open>Server\<close> (\<^verbatim>\<open>transporter\<close>, \<^verbatim>\<open>server/executor.go\<close>, \<^verbatim>\<open>server/server.go\<close>, \<open>parseMem\<close> of \<^verbatim>\<open>cmd/launcher.go\<close>): frames, sessions, connections.
  \<^item> \<open>Client\<close> and \<open>Shell\<close> (\<^verbatim>\<open>client/client\<close>, \<^verbatim>\<open>client/launcher.go\<close>): the client with its receive loop as a transition system together with a connection of the server, and the shell with its line editor over a model of
    the terminal.
  \<^item> \<open>Launcher\<close> and \<open>Shutdown\<close> (\<^verbatim>\<open>cmd/launcher.go\<close>, \<open>Start\<close> and \<open>Close\<close> of \<^verbatim>\<open>server/server.go\<close>): creating, opening and closing a database over its four files, and the goroutines of the server process.
  \<^item> Theories that hold no part of the program but say what parts of it stand for: \<open>Store\<close> (the data manager as a map of items), \<open>Index\<close> (a B+ tree over such a map as a sorted list) and \<open>Forest\<close> (several of them),
    \<open>Statements\<close> (what a statement does to the transactions), \<open>Types\<close> (typed rows), \<open>Entries\<close> and \<open>Versions\<close> (versions of rows in the map, a table as a list of versions), \<open>Queries\<close> (statements on such a list), \<open>Shapes\<close> (what depends on the fields of a table alone), \<open>Catalog\<close> (several
    tables side by side), \<open>Restart\<close> and \<open>Reload\<close> (the map and the tables after closing and opening), \<open>Relations\<close> (the database as relations, the specification of a session) and \<open>Database\<close> (the program follows it).

  \<^bold>\<open>State and outcomes.\<close> A Go struct is a record and an operation takes and returns the records it changes. Pointers to shared objects are modelled where they live: a page and a data item in their caches, a
  transaction in the table of the manager, a table in the table cache. An error is a value; a run-time panic, an explicit \<open>panic\<close> and a failed \<open>utils.Assert\<close> are \<open>Panic\<close>. Integers have their width and wrap. What a definition
  cannot compute is an argument of it: the outcomes of operating-system calls, the order in which Go ranges over a map, random bytes, what other goroutines do while one waits for a lock, \<open>sort.Slice\<close>, and the texts of errors.
  A loop without a bound in the code is a \<open>partial_function\<close> into \<open>option\<close>, where \<open>None\<close> means that the call does not return: the lock table, the descent in a tree, the parser, and what is above them. There is no fuel.

  \<^bold>\<open>Concurrency.\<close> Where a lock protects an operation it is one step. \<open>Cacher\<close> interleaves the critical sections of any number of goroutines; \<open>LockTable\<close> and \<open>Sm\<close> are transition systems over the calls of
  all clients, with \<open>Commit\<close> and \<open>Delete\<close> cut at the points where they give the lock up. The data manager, the trees and the tables are modelled for one caller at a time.

  \<^bold>\<open>What is shown.\<close>
  \<^item> Files: the status file and the log read back what was written, also after reopening; a torn log record is cut off; the boot file is replaced atomically.
  \<^item> Cache and pages: reference counts are exact in every interleaving, the page cache behaves as a map of pages and keeps them across closing, inserted items read back, a selected page has room.
  \<^item> Recovery: every item written by finished transactions holds its last logged bytes, unfinished transactions are rolled back and aborted, and free space is not handed out twice.
  \<^item> Transactions: deadlock detection finds exactly the cycles reachable from lock holders, locks are exclusive, snapshots do not change while a transaction runs, inserts are isolated, the first committer wins.
  \<^item> Index: a tree is a sorted list of pairs; creating, loading and inserting succeed with all splits they cause, and a range search returns what lies in the range.
  \<^item> Language: printing a statement and parsing it gives it back; parsing ends on every input that is not a \<open>create\<close> statement.
  \<^item> Tables: rows survive encoding and never fail a type assertion; create, insert, select, delete and update do to the list of versions what they should, for a scan and for an index; limits cut out the right rows.
  \<^item> Sessions: the transaction of a session follows its statements, a statement outside a transaction is atomic, a request and its answer survive the wire, and a client gets the answers of the session in every interleaving
    of its threads, the server and the streams.
  \<^item> Shell: the terminal always shows the line that Enter would execute, and typed and piped input execute the same statements.
  \<^item> Restart: closing and opening keeps every item, loading the tables gives back tables with the same versions, and every select of a new transaction answers as before.
  \<^item> All together: a session, with transactions, failing statements and restarts, behaves as the relations of \<open>Relations\<close>; \<open>Database\<close> relates every state of the program to them and shows that each request keeps the relation.
  \<^item> Departures from what the code intends are theorems too: what they show is listed with the theorems.

  Interfaces are locales, interpreted on the model of the component that provides them: the store of a page cache (\<open>page_store\<close> in \<open>Pcacher\<close>), the free-space index (\<open>free_index\<close> in \<open>Pindex\<close>), the store of items that trees,
  entries and tables use (\<open>item_store\<close> in \<open>Store\<close>, interpreted as \<open>dms\<close>; what \<open>Index\<close>, \<open>Forest\<close>, \<open>Entries\<close>, \<open>Versions\<close>, \<open>Queries\<close>, \<open>Catalog\<close> and \<open>Reload\<close> prove about it is proved inside), relations that every call of a statement
  keeps (\<open>chained\<close> and \<open>statement_rel\<close> in \<open>Statements\<close>), systems that settle (\<open>settling\<close> in \<open>Client\<close>, interpreted as \<open>talk\<close>),
  and programs that follow a specification request by request (\<open>simulation\<close> in \<open>Relations\<close>, interpreted as \<open>session\<close>).

  \<^bold>\<open>Bounds.\<close> Theorems about the store bound the handles on items by \<open>limit\<close>, which the memory of the page cache allows, and the pages still to be created by \<open>n\<close>, since page numbers have 32 bits. Indexed keys are different from each
  other: with equal keys a search can miss entries, which is one of the departures.

  \<^bold>\<open>Not modelled.\<close> The command-line framework, its flags and help texts, and switching the terminal to raw mode, which are input and output; colours, logging and random letters (\<^verbatim>\<open>utils/color.go\<close>, \<^verbatim>\<open>utils/text.go\<close>); the mock
  objects (\<^verbatim>\<open>mock_logger.go\<close>, \<^verbatim>\<open>mock_tm.go\<close>); the read and write locks of single data items, since the operations that hold them are modelled as one step; the server after its transaction manager failed to open, which runs on a nil pointer.
\<close>

end
